(* ===== verification/Prelude.thy ===== *)
theory Prelude
  imports Main "HOL-Library.Word"
begin

text \<open>
  Generic vocabulary of the development: the machine integers of the 32-bit MIPS target, the
  outcome type of kernel operations, and the lemmas about words, powers of two and lists that
  several components share. The collection \<open>word_nat\<close> holds the rules that read word
  arithmetic as arithmetic on natural numbers.
\<close>

unbundle bit_operations_syntax

section \<open>Machine integers and outcomes\<close>

type_synonym u8 = "8 word"
type_synonym u32 = "32 word"
type_synonym u64 = "64 word"

text \<open>
  Every operation that can call \<open>_exit()\<close> (kernel) or \<open>giet_exit()\<close> (user library)
  returns a value of a sum type whose left part names the message it printed. An
  operation whose C text has no defined result on some input (an endless loop, an array
  index out of range, a shift by more than 31) returns \<open>None\<close> there.
\<close>

datatype panic =
    Illegal_coordinates
  | No_heap
  | Heap_not_power_of_two
  | Heap_not_aligned
  | Zero_size
  | Not_initialized
  | No_more_space
  | Already_allocated
  | Illegal_pointer
  | Not_allocated
  | Block_not_aligned
  | Pseg_not_aligned
  | Not_enough_pages
  | Not_enough_PT2
  | No_page_table
  | Pte1_unmapped
  | Pte2_unmapped
  | Parameter_too_large
  | Vseg_not_aligned
  | Different_flags
  | Illegal_isr_type
  | Illegal_isr_channel
  | Illegal_wti_index
  | Illegal_irq_type
  | Bad_pic_irq
  | No_pic_component
  | Cluster_too_small
  | Cache_slot_not_empty
  | Too_many_procs
  | No_sched_vseg
  | Sched_too_small
  | Not_enough_hwi
  | Not_enough_pti
  | Not_enough_wti
  | Not_enough_outputs
  | No_xcu
  | Bad_xcu_irq
  | Wrong_processor
  | No_vspace
  | No_ptab_vseg
  | No_ram_pseg
  | Copy_unaligned
  | Copy_error
  | File_not_found
  | Illegal_mapping
  | Not_elf_file
  | No_elf_segment
  | Bss_in_segment
  | Vseg_too_small
  | No_matching_vseg
  | No_kernel_elf
  | No_application_elf
  | Paddr_not_aligned

named_theorems word_nat

text \<open>Arrays with three indices, such as those by vspace and cluster or by cluster and tree level.\<close>

type_synonym 'a array3 = "nat \<Rightarrow> nat \<Rightarrow> nat \<Rightarrow> 'a"

definition upd3 :: "'a array3 \<Rightarrow> nat \<Rightarrow> nat \<Rightarrow> nat \<Rightarrow> 'a \<Rightarrow> 'a array3" where
  "upd3 f v x y a = f(v := (f v)(x := (f v x)(y := a)))"

lemma upd3_apply [simp]:
  "upd3 f v x y a v' x' y' = (if v' = v \<and> x' = x \<and> y' = y then a else f v' x' y')"
  by (simp add: upd3_def)

lemma upd3_upd3 [simp]: "upd3 (upd3 f v x y a) v x y c = upd3 f v x y c"
  by (simp add: upd3_def)

lemma upd3_same [simp]: "upd3 f v x y (f v x y) = f"
  by (simp add: upd3_def)

text \<open>Sequencing of operations that can stop with a message (\<open>Inl\<close>) or have no result (\<open>None\<close>).\<close>

definition obind :: "(panic + 'a) option \<Rightarrow> ('a \<Rightarrow> (panic + 'b) option) \<Rightarrow> (panic + 'b) option" where
  "obind r f = (case r of None \<Rightarrow> None | Some (Inl e) \<Rightarrow> Some (Inl e) | Some (Inr a) \<Rightarrow> f a)"

lemma obind_simps [simp]:
  "obind None f = None" "obind (Some (Inl e)) f = Some (Inl e)" "obind (Some (Inr a)) f = f a"
  by (simp_all add: obind_def)

lemma obind_Inr: "obind r f = Some (Inr b) \<longleftrightarrow> (\<exists>a. r = Some (Inr a) \<and> f a = Some (Inr b))"
  by (simp add: obind_def split: option.split sum.split)

section \<open>Words as natural numbers\<close>

lemma unat_u32_bound [simp]: "unat (x :: u32) < 4294967296"
  using unsigned_less [of x] by simp

lemma unat_u8_bound [simp]: "unat (x :: u8) < 256"
  using unsigned_less [of x] by simp

lemma unat_add_no_wrap [word_nat]:
  "unat a + unat b < 2 ^ LENGTH('a) \<Longrightarrow> unat (a + b :: 'a::len word) = unat a + unat b"
  by (simp add: unat_word_ariths)

lemma unat_sub_no_wrap [word_nat]:
  "b \<le> a \<Longrightarrow> unat (a - b :: 'a::len word) = unat a - unat b"
  by (simp add: unat_sub)

lemma unat_mult_no_wrap [word_nat]:
  "unat a * unat b < 2 ^ LENGTH('a) \<Longrightarrow> unat (a * b :: 'a::len word) = unat a * unat b"
  by (simp add: unat_word_ariths)

lemma unat_of_nat_small [word_nat]:
  "n < 2 ^ LENGTH('a) \<Longrightarrow> unat (word_of_nat n :: 'a::len word) = n"
  by (simp add: unat_of_nat)

lemma word_of_nat_inj_small:
  assumes "word_of_nat m = (word_of_nat n :: 'a::len word)"
    and "m < 2 ^ LENGTH('a)" and "n < 2 ^ LENGTH('a)"
  shows "m = n"
  using assms by (metis unat_of_nat_small)

lemma push_bit_one_u32: "push_bit k 1 = (2 ^ k :: u32)"
  by (simp add: push_bit_eq_mult)

lemma unat_pow2_u32 [word_nat]: "k < 32 \<Longrightarrow> unat (2 ^ k :: u32) = 2 ^ k"
proof -
  assume "k < 32"
  then have "(2::nat) ^ k < 2 ^ LENGTH(32)"
    by (intro power_strict_increasing) simp_all
  then have "unat (word_of_nat (2 ^ k) :: u32) = 2 ^ k"
    by (rule unat_of_nat_small)
  then show ?thesis by simp
qed

lemma unat_and_pow2_zero:
  fixes a :: u32
  assumes "k < 32"
  shows "a AND 2 ^ k = 0 \<longleftrightarrow> even (unat a div 2 ^ k)"
proof -
  have "a AND 2 ^ k = 0 \<longleftrightarrow> \<not> bit a k"
    using assms by (metis and_exp_eq_0_iff_not_bit)
  also have "\<dots> \<longleftrightarrow> even (unat a div 2 ^ k)"
    using assms bit_unsigned_iff [of a k, where ?'a=nat] by (simp add: bit_iff_odd)
  finally show ?thesis .
qed

section \<open>Powers of two and lists\<close>

lemma pow2_strict_mono: "(2::nat) ^ i < 2 ^ j \<longleftrightarrow> i < j"
  by simp

lemma pow2_dvd_pow2: "(2::nat) ^ i dvd 2 ^ j \<longleftrightarrow> i \<le> j"
  by (simp add: dvd_power_iff_le)

lemma remove1_split:
  "distinct xs \<Longrightarrow> xs = ys @ x # zs \<Longrightarrow> remove1 x xs = ys @ zs"
  by (simp add: remove1_append)

lemma nth_list_update_cases:
  "i < length xs \<Longrightarrow> xs[j := v] ! i = (if i = j then v else xs ! i)"
  by simp

end
