(* ===== verification/C_Memory.thy ===== *)
theory C_Memory
  imports Prelude
begin

text \<open>
  The byte-addressed memory the kernel and the user library run in, with the little-endian
  word accesses of the MIPS32 target, and the memory and string routines of
  \<open>giet_common/utils.c\<close> (\<open>memcpy\<close>, \<open>memset\<close>, \<open>_strlen\<close>, \<open>_strcmp\<close>,
  \<open>_strncmp\<close>, \<open>_strcpy\<close>). The locale \<open>word_memory\<close> is the interface that code
  storing pointers in memory relies on; it is interpreted on the word accesses.
\<close>

section \<open>Byte memory and word accesses\<close>

type_synonym mem = "u32 \<Rightarrow> u8"

definition load32 :: "mem \<Rightarrow> u32 \<Rightarrow> u32" where
  "load32 m a = ucast (m a) OR push_bit 8 (ucast (m (a + 1)))
     OR push_bit 16 (ucast (m (a + 2))) OR push_bit 24 (ucast (m (a + 3)))"

definition store32 :: "mem \<Rightarrow> u32 \<Rightarrow> u32 \<Rightarrow> mem" where
  "store32 m a v = m(a := ucast v, a + 1 := ucast (drop_bit 8 v),
     a + 2 := ucast (drop_bit 16 v), a + 3 := ucast (drop_bit 24 v))"

definition aligned4 :: "u32 \<Rightarrow> bool" where
  "aligned4 a \<longleftrightarrow> a AND 3 = 0"

lemma aligned4_unat: "aligned4 a \<longleftrightarrow> 4 dvd unat a"
proof -
  have "a AND 3 = 0 \<longleftrightarrow> take_bit 2 a = 0"
    by (simp add: take_bit_eq_mask mask_eq_exp_minus_1)
  also have "\<dots> \<longleftrightarrow> unat (take_bit 2 a) = 0"
    by (simp add: unat_0_iff)
  also have "\<dots> \<longleftrightarrow> 4 dvd unat a"
    by (simp add: take_bit_eq_mod unat_mod dvd_eq_mod_eq_0)
  finally show ?thesis by (simp add: aligned4_def)
qed

lemma byte_of_load32 [simp]:
  "ucast (load32 m a) = m a"
  "ucast (drop_bit 8 (load32 m a)) = m (a + 1)"
  "ucast (drop_bit 16 (load32 m a)) = m (a + 2)"
  "ucast (drop_bit 24 (load32 m a)) = m (a + 3)"
  unfolding load32_def
  by (rule bit_word_eqI, auto simp: bit_simps dest: bit_imp_le_length)+

lemma small_offsets_differ [simp]:
  "(a :: u32) + 1 \<noteq> a" "a + 2 \<noteq> a" "a + 3 \<noteq> a" "a \<noteq> a + 1" "a \<noteq> a + 2" "a \<noteq> a + 3"
  "a + 1 \<noteq> a + 2" "a + 1 \<noteq> a + 3" "a + 2 \<noteq> a + 3"
  "a + 2 \<noteq> a + 1" "a + 3 \<noteq> a + 1" "a + 3 \<noteq> a + 2"
  by auto

lemma load32_store32_same: "load32 (store32 m a v) a = v"
proof (rule bit_word_eqI)
  fix n assume "n < LENGTH(32)"
  then consider "n < 8" | "8 \<le> n" "n < 16" | "16 \<le> n" "n < 24" | "24 \<le> n" "n < 32"
    by fastforce
  then show "bit (load32 (store32 m a v) a) n = bit v n"
    by cases (auto simp: load32_def store32_def bit_simps)
qed

lemma load32_store32_bytes:
  "load32 m a = load32 m' a" if "m a = m' a" "m (a + 1) = m' (a + 1)" "m (a + 2) = m' (a + 2)"
    "m (a + 3) = m' (a + 3)"
  using that by (simp add: load32_def)

lemma store32_other:
  "b \<noteq> a \<Longrightarrow> b \<noteq> a + 1 \<Longrightarrow> b \<noteq> a + 2 \<Longrightarrow> b \<noteq> a + 3 \<Longrightarrow> store32 m a v b = m b"
  by (simp add: store32_def)

lemma unat_aligned_add:
  assumes "4 dvd unat (a :: u32)" "i < 4"
  shows "unat (a + word_of_nat i) = unat a + i"
proof -
  have "unat a + 4 \<le> 4294967296"
    using assms(1) unat_u32_bound [of a] by presburger
  then show ?thesis
    using assms(2) by (simp add: unat_add_no_wrap unat_of_nat_small)
qed

lemma aligned_words_disjoint:
  assumes "aligned4 a" "aligned4 b" "a \<noteq> b" "i < 4" "j < 4"
  shows "b + word_of_nat j \<noteq> a + word_of_nat i"
proof
  assume "b + word_of_nat j = a + word_of_nat i"
  then have "unat (b + word_of_nat j) = unat (a + word_of_nat i)" by simp
  then have eq: "unat b + j = unat a + i"
    using assms by (simp add: unat_aligned_add aligned4_unat)
  obtain p q where "unat a = 4 * p" "unat b = 4 * q"
    using assms by (auto simp: aligned4_unat elim!: dvdE)
  with eq assms(4,5) have "unat a = unat b" by presburger
  with assms(3) show False by (metis unsigned_word_eqI)
qed

lemma load32_store32_other:
  assumes "aligned4 a" "aligned4 b" "a \<noteq> b"
  shows "load32 (store32 m a v) b = load32 m b"
proof (rule load32_store32_bytes)
  note d = aligned_words_disjoint [OF assms]
  show "store32 m a v b = m b"
    using d [of 0 0] d [of 1 0] d [of 2 0] d [of 3 0] by (simp add: store32_def)
  show "store32 m a v (b + 1) = m (b + 1)"
    using d [of 0 1] d [of 1 1] d [of 2 1] d [of 3 1] by (simp add: store32_def)
  show "store32 m a v (b + 2) = m (b + 2)"
    using d [of 0 2] d [of 1 2] d [of 2 2] d [of 3 2] by (simp add: store32_def)
  show "store32 m a v (b + 3) = m (b + 3)"
    using d [of 0 3] d [of 1 3] d [of 2 3] d [of 3 3] by (simp add: store32_def)
qed

lemma store32_load32:
  "store32 m a (load32 m' b) = m(a := m' b, a + 1 := m' (b + 1), a + 2 := m' (b + 2),
     a + 3 := m' (b + 3))"
  by (simp add: store32_def)

section \<open>The interface of a word memory, and linked lists in it\<close>

text \<open>
  Code that chains blocks through their first word needs two laws only: a load sees the
  last store at the same address, and a store at another valid address does not change it.
  \<open>llist ld p xs\<close> says that the chain that starts at \<open>p\<close> visits the addresses \<open>xs\<close>
  and ends with the null pointer.
\<close>

fun llist :: "(u32 \<Rightarrow> u32) \<Rightarrow> u32 \<Rightarrow> u32 list \<Rightarrow> bool" where
  "llist ld p [] = (p = 0)"
| "llist ld p (x # xs) = (p = x \<and> x \<noteq> 0 \<and> llist ld (ld x) xs)"

lemma llist_null [simp]: "llist ld 0 xs = (xs = [])"
  by (cases xs) auto

lemma llist_nonnull:
  "p \<noteq> 0 \<Longrightarrow> llist ld p xs \<longleftrightarrow> (\<exists>ys. xs = p # ys \<and> llist ld (ld p) ys)"
  by (cases xs) auto

lemma llist_cong:
  "llist ld p xs \<Longrightarrow> (\<And>x. x \<in> set xs \<Longrightarrow> ld' x = ld x) \<Longrightarrow> llist ld' p xs"
  by (induction xs arbitrary: p) auto

lemma llist_unique: "llist ld p xs \<Longrightarrow> llist ld p ys \<Longrightarrow> xs = ys"
  by (induction xs arbitrary: p ys) (auto simp: llist_nonnull)

locale word_memory =
  fixes load :: "'m \<Rightarrow> u32 \<Rightarrow> u32"
    and store :: "'m \<Rightarrow> u32 \<Rightarrow> u32 \<Rightarrow> 'm"
    and valid :: "u32 \<Rightarrow> bool"
  assumes load_store_same: "valid a \<Longrightarrow> load (store m a v) a = v"
    and load_store_other:
      "valid a \<Longrightarrow> valid b \<Longrightarrow> a \<noteq> b \<Longrightarrow> load (store m a v) b = load m b"
begin

lemma llist_store_other:
  assumes "llist (load m) p xs" "a \<notin> set xs" "valid a" "\<And>x. x \<in> set xs \<Longrightarrow> valid x"
  shows "llist (load (store m a v)) p xs"
  by (rule llist_cong [OF assms(1)]) (use assms in \<open>auto intro: load_store_other\<close>)

lemma llist_push:
  assumes "llist (load m) p xs" "a \<noteq> 0" "a \<notin> set xs" "valid a"
    "\<And>x. x \<in> set xs \<Longrightarrow> valid x"
  shows "llist (load (store m a p)) a (a # xs)"
  using llist_store_other [OF assms(1,3-5)] by (simp add: assms load_store_same)

lemma llist_unlink:
  assumes "llist (load m) p (xs @ a # b # ys)" "distinct (xs @ a # b # ys)"
    "\<And>x. x \<in> set (xs @ a # b # ys) \<Longrightarrow> valid x"
  shows "llist (load (store m a (load m b))) p (xs @ a # ys)"
  using assms
proof (induction xs arbitrary: p)
  case Nil
  then have "llist (load (store m a (load m b))) (load m b) ys"
    by (intro llist_store_other) auto
  with Nil show ?case by (simp add: load_store_same)
next
  case (Cons x xs)
  then have "load (store m a (load m b)) x = load m x"
    by (intro load_store_other) auto
  with Cons show ?case by auto
qed

end

interpretation mips: word_memory load32 store32 aligned4
  by unfold_locales (simp_all add: load32_store32_same load32_store32_other)

end
