(* ===== verification/Mem_Utils.thy ===== *)
theory Mem_Utils
  imports C_Memory
begin

text \<open>
  The memory and string routines of \<open>giet_common/utils.c\<close> that the kernel, the boot code
  and the FAT library call: \<open>memcpy\<close>, \<open>memset\<close>, \<open>_strlen\<close>, \<open>_strcmp\<close>,
  \<open>_strncmp\<close> and \<open>_strcpy\<close>. The loops over a decreasing byte count are total
  functions; the loops that look for the end of a string are partial, and \<open>None\<close> is
  the result of a scan that never meets a null byte.
\<close>

section \<open>memcpy and memset\<close>

text \<open>The word-by-word loop, then the byte-by-byte loop, of \<open>memcpy\<close>.\<close>

function memcpy_words :: "mem \<Rightarrow> u32 \<Rightarrow> u32 \<Rightarrow> u32 \<Rightarrow> mem \<times> u32" where
  "memcpy_words m idst isrc sz =
     (if sz > 3
      then memcpy_words (store32 m idst (load32 m isrc)) (idst + 4) (isrc + 4) (sz - 4)
      else (m, sz))"
  by pat_completeness auto
termination
  by (relation "measure (\<lambda>(m, d, s, n). unat n)") (auto simp: unat_sub word_less_nat_alt word_le_nat_alt)

function memcpy_bytes :: "mem \<Rightarrow> u32 \<Rightarrow> u32 \<Rightarrow> u32 \<Rightarrow> mem" where
  "memcpy_bytes m cdst csrc sz =
     (if sz = 0 then m
      else memcpy_bytes (m(cdst := m csrc)) (cdst + 1) (csrc + 1) (sz - 1))"
  by pat_completeness auto
termination
  by (relation "measure (\<lambda>(m, d, s, n). unat n)") (auto simp: measure_unat)

declare memcpy_words.simps [simp del] memcpy_bytes.simps [simp del]

definition memcpy :: "mem \<Rightarrow> u32 \<Rightarrow> u32 \<Rightarrow> u32 \<Rightarrow> mem" where
  "memcpy m dest source sz =
     (let (m', sz') = (if dest AND 3 = 0 \<and> source AND 3 = 0
                         then memcpy_words m dest source sz else (m, sz))
      in memcpy_bytes m' dest source sz')"

text \<open>
  The specification: the first \<open>k\<close> bytes from \<open>d\<close> on are the first \<open>k\<close> bytes
  from \<open>s\<close> on. Addresses are words, so a buffer may wrap around the address space.
\<close>

definition mem_copy :: "mem \<Rightarrow> u32 \<Rightarrow> u32 \<Rightarrow> nat \<Rightarrow> mem" where
  "mem_copy m d s k = (\<lambda>a. if unat (a - d) < k then m (s + (a - d)) else m a)"

definition buffers_apart :: "u32 \<Rightarrow> u32 \<Rightarrow> nat \<Rightarrow> bool" where
  "buffers_apart d s n \<longleftrightarrow> (\<forall>i<n. n \<le> unat (s + word_of_nat i - d))"

lemma mem_copy_0 [simp]: "mem_copy m d s 0 = m"
  by (simp add: mem_copy_def)

lemma unat_diff_eq_iff:
  "k < 4294967296 \<Longrightarrow> unat (a - d) = k \<longleftrightarrow> a = d + (word_of_nat k :: u32)"
proof -
  assume k: "k < 4294967296"
  have "unat (a - d) = k \<longleftrightarrow> a - d = word_of_nat k"
    using k by (metis of_nat_unat ucast_id unat_of_nat_small [of k, where 'a=32, simplified])
  then show ?thesis by (simp add: diff_eq_eq add.commute)
qed

lemma mem_copy_source:
  "i < n \<Longrightarrow> j \<le> n \<Longrightarrow> buffers_apart d s n \<Longrightarrow>
   mem_copy m d s j (s + word_of_nat i) = m (s + word_of_nat i)"
  by (auto simp: mem_copy_def buffers_apart_def not_less dest: less_le_trans)

lemma mem_copy_Suc:
  assumes "k < 4294967296"
  shows "mem_copy m d s (Suc k)
       = (mem_copy m d s k)(d + word_of_nat k := m (s + word_of_nat k))"
  using assms unat_diff_eq_iff [of k]
  by (auto simp: mem_copy_def less_Suc_eq unat_of_nat_small fun_eq_iff)

lemma mem_copy_step:
  assumes "k < n" "buffers_apart d s n" "n < 4294967296"
  shows "(mem_copy m d s k)(d + word_of_nat k := mem_copy m d s k (s + word_of_nat k))
       = mem_copy m d s (Suc k)"
  using assms by (simp add: mem_copy_Suc mem_copy_source)

lemma memcpy_bytes_copies:
  assumes "buffers_apart d s n" "n < 4294967296" "k + unat sz \<le> n"
  shows "memcpy_bytes (mem_copy m d s k) (d + word_of_nat k) (s + word_of_nat k) sz
       = mem_copy m d s (k + unat sz)"
  using assms(3)
proof (induction "unat sz" arbitrary: k sz)
  case 0
  then show ?case by (simp add: memcpy_bytes.simps unat_0_iff)
next
  case (Suc j)
  then have nz: "sz \<noteq> 0" by auto
  then have u: "unat (sz - 1) = j" using Suc.hyps(2) by (simp add: unat_minus_one)
  have "memcpy_bytes (mem_copy m d s (Suc k)) (d + word_of_nat (Suc k)) (s + word_of_nat (Suc k))
          (sz - 1) = mem_copy m d s (Suc k + unat (sz - 1))"
    using Suc u by (intro Suc.hyps(1)) auto
  moreover have "k < n" using Suc by simp
  ultimately show ?case
    using nz u by (subst memcpy_bytes.simps)
      (simp add: mem_copy_step [OF _ assms(1,2)] algebra_simps flip: Suc.hyps(2))
qed

lemma memcpy_words_step:
  assumes "buffers_apart d s n" "n < 4294967296" "k + 4 \<le> n"
  shows "store32 (mem_copy m d s k) (d + word_of_nat k)
           (load32 (mem_copy m d s k) (s + word_of_nat k)) = mem_copy m d s (k + 4)"
proof -
  have "k < n" "Suc k < n" "Suc (Suc k) < n" "Suc (Suc (Suc k)) < n" "k \<le> n"
    using assms(3) by simp_all
  note s = mem_copy_source [OF this(1,5) assms(1)] mem_copy_source [OF this(2,5) assms(1)]
    mem_copy_source [OF this(3,5) assms(1)] mem_copy_source [OF this(4,5) assms(1)]
  have lt: "k < 4294967296" "Suc k < 4294967296" "Suc (Suc k) < 4294967296"
    "Suc (Suc (Suc k)) < 4294967296"
    using assms(2,3) by simp_all
  have k4: "k + 4 = Suc (Suc (Suc (Suc k)))" by simp
  have off: "x + word_of_nat k + 1 = x + word_of_nat (Suc k)"
    "x + word_of_nat k + 2 = x + word_of_nat (Suc (Suc k))"
    "x + word_of_nat k + 3 = x + word_of_nat (Suc (Suc (Suc k)))" for x :: u32
    by (simp_all add: algebra_simps)
  show ?thesis
    unfolding k4 lt [THEN mem_copy_Suc] store32_load32 off s ..
qed

lemma memcpy_words_copies:
  assumes "buffers_apart d s n" "n < 4294967296" "k + unat sz \<le> n"
  shows "memcpy_words (mem_copy m d s k) (d + word_of_nat k) (s + word_of_nat k) sz
       = (mem_copy m d s (k + 4 * (unat sz div 4)), word_of_nat (unat sz mod 4))"
  using assms(3)
proof (induction "unat sz" arbitrary: k sz rule: less_induct)
  case less
  show ?case
  proof (cases "sz > 3")
    case True
    then have ge: "4 \<le> unat sz" by (simp add: word_less_nat_alt)
    then have u: "unat (sz - 4) = unat sz - 4" by (simp add: unat_sub word_le_nat_alt)
    have "memcpy_words (mem_copy m d s (k + 4)) (d + word_of_nat (k + 4))
        (s + word_of_nat (k + 4)) (sz - 4)
      = (mem_copy m d s (k + 4 + 4 * ((unat sz - 4) div 4)), word_of_nat ((unat sz - 4) mod 4))"
      using less.hyps [of "sz - 4" "k + 4"] less.prems ge u by simp
    moreover have "4 + 4 * ((unat sz - 4) div 4) = 4 * (unat sz div 4)"
      and "(unat sz - 4) mod 4 = unat sz mod 4"
      using ge by (simp_all add: le_div_geq le_mod_geq)
    moreover have "store32 (mem_copy m d s k) (d + word_of_nat k)
        (load32 (mem_copy m d s k) (s + word_of_nat k)) = mem_copy m d s (k + 4)"
      using less.prems ge by (intro memcpy_words_step [OF assms(1,2)]) simp
    ultimately show ?thesis
      using True by (subst memcpy_words.simps) (simp add: add.assoc algebra_simps)
  next
    case False
    then have "unat sz < 4" by (simp add: word_less_nat_alt)
    with False show ?thesis by (subst memcpy_words.simps) simp
  qed
qed

lemma mem_copy_again:
  assumes "buffers_apart d s n" "j \<le> n" "k \<le> n" "n < 4294967296"
  shows "mem_copy (mem_copy m d s j) d s k = mem_copy m d s (max j k)"
proof
  fix a
  show "mem_copy (mem_copy m d s j) d s k a = mem_copy m d s (max j k) a"
  proof (cases "unat (a - d) < k")
    case True
    then have "mem_copy m d s j (s + word_of_nat (unat (a - d))) = m (s + (a - d))"
      using mem_copy_source [of "unat (a - d)" n j d s m] assms by simp
    then have "mem_copy (mem_copy m d s j) d s k a = m (s + (a - d))"
      using True by (simp add: mem_copy_def [of _ _ _ k])
    with True show ?thesis by (simp add: mem_copy_def [of _ _ _ "max j k"] less_max_iff_disj)
  next
    case False
    then show ?thesis by (simp add: mem_copy_def less_max_iff_disj)
  qed
qed

text \<open>The number of bytes the code really moves: the tail of an aligned copy is lost.\<close>

definition memcpy_moved :: "u32 \<Rightarrow> u32 \<Rightarrow> u32 \<Rightarrow> nat" where
  "memcpy_moved d s n =
     (if aligned4 d \<and> aligned4 s \<and> 4 \<le> unat n then 4 * (unat n div 4) else unat n)"

lemma memcpy_moves:
  assumes "buffers_apart d s (unat n)"
  shows "memcpy m d s n = mem_copy m d s (memcpy_moved d s n)"
proof -
  note b = memcpy_bytes_copies [OF assms unat_u32_bound]
  note w = memcpy_words_copies [OF assms unat_u32_bound, of 0, simplified]
  let ?K = "4 * (unat n div 4)"
  have le: "?K \<le> unat n" "unat n mod 4 \<le> unat n" by simp_all
  have K: "4 \<le> unat n \<Longrightarrow> max ?K (unat n mod 4) = ?K"
    using mod_less_divisor [of 4 "unat n"] by (intro max_absorb1) presburger
  show ?thesis
  proof (cases "aligned4 d \<and> aligned4 s")
    case False
    then show ?thesis
      using b [of 0 n m] by (auto simp: memcpy_def memcpy_moved_def aligned4_def)
  next
    case True
    have r: "unat (word_of_nat (unat n mod 4) :: u32) = unat n mod 4"
      by (rule unat_of_nat_small) (simp add: less_trans [OF mod_less_divisor])
    have "memcpy m d s n
        = memcpy_bytes (mem_copy m d s ?K) d s (word_of_nat (unat n mod 4))"
      using True w [of n m] by (simp add: memcpy_def aligned4_def)
    also have "\<dots> = mem_copy (mem_copy m d s ?K) d s (unat n mod 4)"
      using b [of 0 "word_of_nat (unat n mod 4)" "mem_copy m d s ?K"] by (simp add: r)
    also have "\<dots> = mem_copy m d s (max ?K (unat n mod 4))"
      by (rule mem_copy_again [OF assms le]) simp
    finally show ?thesis
      using True K by (auto simp: memcpy_moved_def)
  qed
qed

lemma buffers_apart_ranges:
  assumes "unat d + n \<le> unat s \<and> unat s + n \<le> 4294967296
         \<or> unat s + n \<le> unat d \<and> unat d + n \<le> 4294967296"
  shows "buffers_apart d s n"
  unfolding buffers_apart_def
proof (intro allI impI)
  fix i assume i: "i < n"
  with assms have u: "unat (s + word_of_nat i) = unat s + i"
    by (intro trans [OF unat_add_no_wrap]) (auto simp: unat_of_nat_small)
  show "n \<le> unat (s + word_of_nat i - d)"
    using assms i by (auto simp: u unat_sub_if_size word_size word_le_nat_alt)
qed

text \<open>\<open>memset\<close>: the same two loops, the first one writing four copies of the byte.\<close>

function memset_words :: "mem \<Rightarrow> u32 \<Rightarrow> u32 \<Rightarrow> u32 \<Rightarrow> mem \<times> u32" where
  "memset_words m idst data count =
     (if count > 3 then memset_words (store32 m idst data) (idst + 4) data (count - 4)
      else (m, count))"
  by pat_completeness auto
termination
  by (relation "measure (\<lambda>(m, d, v, n). unat n)") (auto simp: unat_sub word_less_nat_alt word_le_nat_alt)

function memset_bytes :: "mem \<Rightarrow> u32 \<Rightarrow> u8 \<Rightarrow> u32 \<Rightarrow> mem" where
  "memset_bytes m cdst v count =
     (if count = 0 then m else memset_bytes (m(cdst := v)) (cdst + 1) v (count - 1))"
  by pat_completeness auto
termination
  by (relation "measure (\<lambda>(m, d, v, n). unat n)") (auto simp: measure_unat)

declare memset_words.simps [simp del] memset_bytes.simps [simp del]

definition memset :: "mem \<Rightarrow> u32 \<Rightarrow> u32 \<Rightarrow> u32 \<Rightarrow> mem" where
  "memset m dst val count =
     (let byte = ucast val :: u8;
          data = ucast byte OR push_bit 8 (ucast byte) OR push_bit 16 (ucast byte)
                 OR push_bit 24 (ucast byte);
          (m', count') = (if dst AND 3 = 0 then memset_words m dst data count else (m, count))
      in memset_bytes m' dst byte count')"

definition mem_fill :: "mem \<Rightarrow> u32 \<Rightarrow> u8 \<Rightarrow> nat \<Rightarrow> mem" where
  "mem_fill m d v k = (\<lambda>a. if unat (a - d) < k then v else m a)"

definition memset_moved :: "u32 \<Rightarrow> u32 \<Rightarrow> nat" where
  "memset_moved d n = (if aligned4 d \<and> 4 \<le> unat n then 4 * (unat n div 4) else unat n)"

lemma mem_fill_0 [simp]: "mem_fill m d v 0 = m"
  by (simp add: mem_fill_def)

lemma mem_fill_Suc:
  assumes "k < 4294967296"
  shows "mem_fill m d v (Suc k) = (mem_fill m d v k)(d + word_of_nat k := v)"
  using assms unat_diff_eq_iff [of k]
  by (auto simp: mem_fill_def less_Suc_eq unat_of_nat_small fun_eq_iff)

lemma mem_fill_again: "mem_fill (mem_fill m d v j) d v k = mem_fill m d v (max j k)"
  by (simp add: mem_fill_def fun_eq_iff max_def)

lemma memset_bytes_fills:
  "k + unat count < 4294967296 \<Longrightarrow>
   memset_bytes (mem_fill m d v k) (d + word_of_nat k) v count = mem_fill m d v (k + unat count)"
proof (induction "unat count" arbitrary: k count)
  case 0
  then show ?case by (simp add: memset_bytes.simps unat_0_iff)
next
  case (Suc j)
  then have nz: "count \<noteq> 0" by auto
  then have u: "unat (count - 1) = j" using Suc.hyps(2) by (simp add: unat_minus_one)
  have "memset_bytes (mem_fill m d v (Suc k)) (d + word_of_nat (Suc k)) v (count - 1)
      = mem_fill m d v (Suc k + unat (count - 1))"
    using Suc u by (intro Suc.hyps(1)) auto
  then show ?case
    using nz u Suc.prems by (subst memset_bytes.simps)
      (simp add: mem_fill_Suc algebra_simps flip: Suc.hyps(2))
qed

lemma store32_replicated:
  "store32 m a (ucast (b::u8) OR push_bit 8 (ucast b) OR push_bit 16 (ucast b)
     OR push_bit 24 (ucast b)) = m(a := b, a + 1 := b, a + 2 := b, a + 3 := b)"
proof -
  have "ucast (b::u8) OR push_bit 8 (ucast b) OR push_bit 16 (ucast b)
     OR push_bit 24 (ucast b) = load32 (\<lambda>_. b) a"
    by (simp add: load32_def)
  then show ?thesis by (simp only: store32_load32)
qed

lemma memset_words_fills:
  assumes "k + unat count < 4294967296"
    and "data = ucast b OR push_bit 8 (ucast b) OR push_bit 16 (ucast b) OR push_bit 24 (ucast b)"
  shows "memset_words (mem_fill m d b k) (d + word_of_nat k) data count
       = (mem_fill m d b (k + 4 * (unat count div 4)), word_of_nat (unat count mod 4))"
  using assms(1)
proof (induction "unat count" arbitrary: k count rule: less_induct)
  case less
  show ?case
  proof (cases "count > 3")
    case True
    then have ge: "4 \<le> unat count" by (simp add: word_less_nat_alt)
    then have u: "unat (count - 4) = unat count - 4" by (simp add: unat_sub word_le_nat_alt)
    have "memset_words (mem_fill m d b (k + 4)) (d + word_of_nat (k + 4)) data (count - 4)
      = (mem_fill m d b (k + 4 + 4 * ((unat count - 4) div 4)),
         word_of_nat ((unat count - 4) mod 4))"
      using less.hyps [of "count - 4" "k + 4"] less.prems ge u by simp
    moreover have "4 + 4 * ((unat count - 4) div 4) = 4 * (unat count div 4)"
      and "(unat count - 4) mod 4 = unat count mod 4"
      using ge by (simp_all add: le_div_geq le_mod_geq)
    moreover have "store32 (mem_fill m d b k) (d + word_of_nat k) data = mem_fill m d b (k + 4)"
    proof -
      have k4: "k + 4 = Suc (Suc (Suc (Suc k)))" by simp
      have lt: "k < 4294967296" "Suc k < 4294967296" "Suc (Suc k) < 4294967296"
        "Suc (Suc (Suc k)) < 4294967296"
        using less.prems ge by simp_all
      have off: "x + word_of_nat k + 1 = x + word_of_nat (Suc k)"
        "x + word_of_nat k + 2 = x + word_of_nat (Suc (Suc k))"
        "x + word_of_nat k + 3 = x + word_of_nat (Suc (Suc (Suc k)))" for x :: u32
        by (simp_all add: algebra_simps)
      show ?thesis
        unfolding k4 lt [THEN mem_fill_Suc] assms(2) store32_replicated off ..
    qed
    ultimately show ?thesis
      using True by (subst memset_words.simps) (simp add: add.assoc algebra_simps)
  next
    case False
    then have "unat count < 4" by (simp add: word_less_nat_alt)
    with False show ?thesis by (subst memset_words.simps) simp
  qed
qed

lemma memset_fills: "memset m d v n = mem_fill m d (ucast v) (memset_moved d n)"
proof (cases "aligned4 d")
  case False
  then show ?thesis
    using memset_bytes_fills [of 0 n m d "ucast v"]
    by (auto simp: memset_def memset_moved_def aligned4_def)
next
  case True
  let ?K = "4 * (unat n div 4)"
  have r: "unat (word_of_nat (unat n mod 4) :: u32) = unat n mod 4"
    by (rule unat_of_nat_small) (simp add: less_trans [OF mod_less_divisor])
  have "memset m d v n
      = memset_bytes (mem_fill m d (ucast v) ?K) d (ucast v) (word_of_nat (unat n mod 4))"
    using True memset_words_fills [of 0 n _ "ucast v" m d, OF _ refl]
    by (simp add: memset_def aligned4_def Let_def)
  also have "\<dots> = mem_fill m d (ucast v) (max ?K (unat n mod 4))"
    using memset_bytes_fills [of 0 "word_of_nat (unat n mod 4)" "mem_fill m d (ucast v) ?K" d
        "ucast v"]
    by (simp add: r mem_fill_again less_trans [OF mod_less_divisor])
  also have "max ?K (unat n mod 4) = memset_moved d n"
  proof (cases "4 \<le> unat n")
    case True
    with \<open>aligned4 d\<close> show ?thesis
      using mod_less_divisor [of 4 "unat n"] by (auto simp: memset_moved_def intro!: max_absorb1)
        presburger
  qed (auto simp: memset_moved_def)
  finally show ?thesis .
qed

section \<open>Strings\<close>

text \<open>\<open>cstr m p xs\<close>: the null-terminated string at \<open>p\<close> has the characters \<open>xs\<close>.\<close>

fun cstr :: "mem \<Rightarrow> u32 \<Rightarrow> u8 list \<Rightarrow> bool" where
  "cstr m p [] = (m p = 0)"
| "cstr m p (x # xs) = (m p = x \<and> x \<noteq> 0 \<and> cstr m (p + 1) xs)"

partial_function (option) strlen_from :: "mem \<Rightarrow> u32 \<Rightarrow> u32 \<Rightarrow> u32 option" where
  "strlen_from m string i = (if m (string + i) \<noteq> 0 then strlen_from m string (i + 1) else Some i)"

definition strlen :: "mem \<Rightarrow> u32 \<Rightarrow> u32 option" where
  "strlen m string = strlen_from m string 0"

partial_function (option) strcmp :: "mem \<Rightarrow> u32 \<Rightarrow> u32 \<Rightarrow> u32 option" where
  "strcmp m s1 s2 =
     (if m s1 \<noteq> m s2 then Some 1
      else if m s1 = 0 then Some 0
      else strcmp m (s1 + 1) (s2 + 1))"

function strncmp_from :: "mem \<Rightarrow> u32 \<Rightarrow> u32 \<Rightarrow> u32 \<Rightarrow> u32 \<Rightarrow> u32" where
  "strncmp_from m s1 s2 n i =
     (if i < n
      then if m (s1 + i) \<noteq> m (s2 + i) then 1
           else if m (s1 + i) = 0 then 0
           else strncmp_from m s1 s2 n (i + 1)
      else 0)"
  by pat_completeness auto
termination
proof (relation "measure (\<lambda>(m, s1, s2, n, i). unat n - unat i)")
  fix m :: mem and s1 s2 n i :: u32
  assume "i < n"
  then have lt: "unat i < unat n" by (simp add: word_less_nat_alt)
  moreover have "unat n < 4294967296" by simp
  ultimately have "unat i + 1 < 4294967296" by linarith
  then have "unat i + unat (1 :: u32) < 2 ^ LENGTH(32)" by simp
  from unat_add_no_wrap [OF this] have "unat (i + 1) = unat i + 1" by simp
  then show "((m, s1, s2, n, i + 1), m, s1, s2, n, i)
      \<in> measure (\<lambda>(m, s1, s2, n, i). unat n - unat i)"
    using lt by simp
qed simp

definition strncmp :: "mem \<Rightarrow> u32 \<Rightarrow> u32 \<Rightarrow> u32 \<Rightarrow> u32" where
  "strncmp m s1 s2 n = strncmp_from m s1 s2 n 0"

partial_function (option) strcpy_loop :: "mem \<Rightarrow> u32 \<Rightarrow> u32 \<Rightarrow> (mem \<times> u32) option" where
  "strcpy_loop m dest source =
     (if m source \<noteq> 0
      then strcpy_loop (m(dest := m source)) (dest + 1) (source + 1)
      else Some (m(dest := 0), dest))"

definition strcpy :: "mem \<Rightarrow> u32 \<Rightarrow> u32 \<Rightarrow> (mem \<times> u32) option" where
  "strcpy m dest source =
     (if dest = 0 \<or> source = 0 then Some (m, dest) else strcpy_loop m dest source)"

declare strncmp_from.simps [simp del]

lemma strlen_from_cstr:
  "cstr m (p + i) xs \<Longrightarrow> strlen_from m p i = Some (i + word_of_nat (length xs))"
proof (induction xs arbitrary: i)
  case Nil
  then show ?case by (simp add: strlen_from.simps)
next
  case (Cons x xs)
  then show ?case
    by (subst strlen_from.simps) (simp add: algebra_simps)
qed

lemma strcmp_cstr:
  "cstr m p xs \<Longrightarrow> cstr m q ys \<Longrightarrow> strcmp m p q = Some (if xs = ys then 0 else 1)"
proof (induction xs arbitrary: p q ys)
  case Nil
  then show ?case by (subst strcmp.simps) (cases ys, auto)
next
  case (Cons x xs)
  then show ?case by (subst strcmp.simps) (cases ys, auto)
qed

lemma cstr_cong:
  "cstr m p xs \<Longrightarrow> (\<And>i. i \<le> length xs \<Longrightarrow> m' (p + word_of_nat i) = m (p + word_of_nat i))
   \<Longrightarrow> cstr m' p xs"
proof (induction xs arbitrary: p)
  case Nil
  from Nil.prems(2) [of 0] Nil.prems(1) show ?case by simp
next
  case (Cons x xs)
  have "cstr m' (p + 1) xs"
  proof (rule Cons.IH)
    show "m' (p + 1 + word_of_nat i) = m (p + 1 + word_of_nat i)" if "i \<le> length xs" for i
      using Cons.prems(2) [of "Suc i"] that by (simp add: algebra_simps)
  qed (use Cons.prems in simp)
  with Cons.prems show ?case using Cons.prems(2) [of 0] by simp
qed

lemma strcpy_loop_cstr:
  assumes "cstr m s xs" "\<And>i j. i \<le> length xs \<Longrightarrow> j \<le> length xs
    \<Longrightarrow> s + word_of_nat i \<noteq> d + word_of_nat j"
    "length xs < 4294967296"
  shows "\<exists>m'. strcpy_loop m d s = Some (m', d + word_of_nat (length xs)) \<and> cstr m' d xs
    \<and> (\<forall>a. (\<forall>j\<le>length xs. a \<noteq> d + word_of_nat j) \<longrightarrow> m' a = m a)"
  using assms
proof (induction xs arbitrary: m s d)
  case Nil
  from Nil.prems(2) [of 0 0] Nil.prems(1) show ?case
    by (simp add: strcpy_loop.simps)
next
  case (Cons x xs)
  let ?m = "m(d := x)"
  have apart: "s + word_of_nat i \<noteq> d" if "i \<le> length (x # xs)" for i
    using Cons.prems(2) [OF that, of 0] by simp
  have "cstr ?m (s + 1) xs"
  proof (rule cstr_cong)
    show "cstr m (s + 1) xs" using Cons.prems(1) by simp
    show "?m (s + 1 + word_of_nat i) = m (s + 1 + word_of_nat i)" if "i \<le> length xs" for i
      using apart [of "Suc i"] that by (auto simp: algebra_simps)
  qed
  moreover have "s + 1 + word_of_nat i \<noteq> d + 1 + word_of_nat j"
    if "i \<le> length xs" "j \<le> length xs" for i j
    using Cons.prems(2) [of "Suc i" "Suc j"] that by (simp add: algebra_simps)
  moreover have "length xs < 4294967296" using Cons.prems(3) by simp
  ultimately obtain m' where
    loop: "strcpy_loop ?m (d + 1) (s + 1) = Some (m', d + 1 + word_of_nat (length xs))" and
    str: "cstr m' (d + 1) xs" and
    frame: "\<And>a. (\<forall>j\<le>length xs. a \<noteq> d + 1 + word_of_nat j) \<Longrightarrow> m' a = ?m a"
    using Cons.IH [of ?m "s + 1" "d + 1"] by blast
  have "d \<noteq> d + (1 + word_of_nat j)" if "j \<le> length xs" for j
  proof -
    have "Suc j < 2 ^ LENGTH(32)" using that Cons.prems(3) by simp
    then have "(word_of_nat (Suc j) :: u32) \<noteq> word_of_nat 0"
      using word_of_nat_inj_small [of "Suc j" 0, where 'a=32] by auto
    then show ?thesis by simp
  qed
  then have "m' d = x" using frame [of d] by (simp add: algebra_simps)
  moreover have "m' a = m a" if a: "\<forall>j\<le>length (x # xs). a \<noteq> d + word_of_nat j" for a
    using frame [of a] a [rule_format, of 0] a [rule_format, of "Suc _"]
    by (auto simp: algebra_simps)
  ultimately show ?case
    using Cons.prems(1) loop str by (subst strcpy_loop.simps) (auto simp: algebra_simps)
qed

section \<open>Properties\<close>

text \<open>The result of \<open>memcpy\<close> on buffers that do not overlap: the bytes of the source are in
  the destination and nothing else has changed, except that a copy between aligned buffers moves
  whole words only (the byte loop that follows starts again at the first byte, so the last
  \<open>n mod 4\<close> bytes are never moved).\<close>

theorem memcpy_result:
  assumes "buffers_apart d s (unat n)"
  shows "memcpy m d s n = (\<lambda>a. if unat (a - d) <
      (if aligned4 d \<and> aligned4 s \<and> 4 \<le> unat n then 4 * (unat n div 4) else unat n)
    then m (s + (a - d)) else m a)"
  unfolding memcpy_moves [OF assms] mem_copy_def memcpy_moved_def ..

theorem memcpy_result_witness:
  "\<forall>m. memcpy m 0x100 0x200 6 0x105 = m 0x105 \<and> memcpy m 0x101 0x200 6 0x106 = m 0x205"
proof
  fix m
  have "buffers_apart 0x100 0x200 (unat (6 :: u32))" "buffers_apart 0x101 0x200 (unat (6 :: u32))"
    by (rule buffers_apart_ranges, simp)+
  from memcpy_result [OF this(1), of m] memcpy_result [OF this(2), of m]
  show "memcpy m 0x100 0x200 6 0x105 = m 0x105 \<and> memcpy m 0x101 0x200 6 0x106 = m 0x205"
    by (simp add: aligned4_def)
qed

text \<open>The result of \<open>memset\<close>: as \<open>memcpy\<close>, the tail of a fill that starts on a word boundary
  and whose length is not a multiple of 4 is left unwritten.\<close>

theorem memset_result:
  "memset m d v n = (\<lambda>a. if unat (a - d) <
      (if aligned4 d \<and> 4 \<le> unat n then 4 * (unat n div 4) else unat n)
    then ucast v else m a)"
  unfolding memset_fills mem_fill_def memset_moved_def ..

text \<open>\<open>_strcpy\<close> from a terminated string to a buffer that does not overlap it terminates, makes
  the same string at the destination (as \<open>_strlen\<close> and \<open>_strcmp\<close> see it), changes nothing else,
  and returns the address of the terminator.\<close>

theorem strcpy_result:
  assumes "cstr m s xs" "length xs < 4294967296" "d \<noteq> 0" "s \<noteq> 0"
    "\<And>i j. i \<le> length xs \<Longrightarrow> j \<le> length xs \<Longrightarrow> s + word_of_nat i \<noteq> d + word_of_nat j"
  shows "\<exists>m'. strcpy m d s = Some (m', d + word_of_nat (length xs)) \<and>
    strlen m' d = Some (word_of_nat (length xs)) \<and> strcmp m' d s = Some 0 \<and> cstr m' s xs \<and>
    (\<forall>a. (\<forall>j\<le>length xs. a \<noteq> d + word_of_nat j) \<longrightarrow> m' a = m a)"
proof -
  obtain m' where m': "strcpy_loop m d s = Some (m', d + word_of_nat (length xs))" "cstr m' d xs"
    and frame: "\<And>a. (\<forall>j\<le>length xs. a \<noteq> d + word_of_nat j) \<Longrightarrow> m' a = m a"
    using strcpy_loop_cstr [OF assms(1,5,2)] by blast
  have src: "cstr m' s xs"
    by (rule cstr_cong [OF assms(1)]) (use frame assms(5) in blast)
  show ?thesis
    using m' src frame assms(3,4) strlen_from_cstr [of m' d 0 xs] strcmp_cstr [OF m'(2) src]
    by (simp add: strcpy_def strlen_def)
qed

theorem strcpy_result_witness:
  "\<exists>m'. strcpy ((\<lambda>_. 0)(0x10 := 65)) 0x20 0x10 = Some (m', 0x21) \<and> strcmp m' 0x20 0x10 = Some 0"
proof -
  have "0x10 + word_of_nat i \<noteq> (0x20 + word_of_nat j :: u32)" if "i \<le> 1" "j \<le> 1" for i j
  proof -
    have "i = 0 \<or> i = 1" "j = 0 \<or> j = 1" using that by auto
    then show ?thesis by (elim disjE) simp_all
  qed
  then show ?thesis
    using strcpy_result [of "(\<lambda>_. 0)(0x10 := 65)" "0x10" "[65]" "0x20"] by auto
qed

end
