(* ===== verification/Spin_Lock.thy ===== *)
theory Spin_Lock
  imports Prelude
begin

text \<open>
  The locks of \<open>giet_common/kernel_locks.c\<close> and \<open>giet_libs/user_lock.c\<close>. The first part
  models the operations as one caller sees them: the atomic LL/SC primitives and the queuing
  lock (a ticket lock). The locale \<open>lock_interface\<close> is the contract the heap allocators
  and the MWMR channel rely on. The second part models the concurrent executions: the
  queuing lock as a step relation over any number of processors with 32-bit tickets that
  wrap around, and the simple lock instruction by instruction with its load-linked and
  store-conditional pair.
\<close>

section \<open>Operations as one caller sees them\<close>

text \<open>
  The LL/SC retry loops of \<open>_atomic_increment\<close>, \<open>_atomic_or\<close> and \<open>_atomic_and\<close> end
  with one store that replaces the value the link read: the result is the old value and the
  new contents of the word.
\<close>

definition atomic_increment :: "u32 \<Rightarrow> u32 \<Rightarrow> u32 \<times> u32" where
  "atomic_increment contents increment = (contents, contents + increment)"

definition atomic_or :: "u32 \<Rightarrow> u32 \<Rightarrow> u32" where
  "atomic_or contents bits = contents OR bits"

definition atomic_and :: "u32 \<Rightarrow> u32 \<Rightarrow> u32" where
  "atomic_and contents bits = contents AND bits"

record spin_lock =
  current :: u32
  free_ticket :: u32

definition spin_lock_init :: "spin_lock \<Rightarrow> spin_lock" where
  "spin_lock_init lk = lk\<lparr>current := 0, free_ticket := 0\<rparr>"

text \<open>
  With no other processor moving, the polling loop of \<open>_spin_lock_acquire\<close> either leaves
  at once or polls for ever; \<open>None\<close> is the latter.
\<close>

definition spin_lock_acquire :: "spin_lock \<Rightarrow> spin_lock option" where
  "spin_lock_acquire lk =
     (let (ticket, free') = atomic_increment (free_ticket lk) 1; lk' = lk\<lparr>free_ticket := free'\<rparr>
      in if current lk' \<noteq> ticket then None else Some lk')"

definition spin_lock_release :: "spin_lock \<Rightarrow> spin_lock" where
  "spin_lock_release lk = lk\<lparr>current := current lk + 1\<rparr>"

definition lock_idle :: "spin_lock \<Rightarrow> bool" where
  "lock_idle lk \<longleftrightarrow> current lk = free_ticket lk"

definition lock_held :: "spin_lock \<Rightarrow> bool" where
  "lock_held lk \<longleftrightarrow> free_ticket lk = current lk + 1"

text \<open>The user library has its own copy of the same code (\<open>lock_acquire\<close>, \<open>lock_release\<close>,
  \<open>lock_init\<close>) over \<open>user_lock_t\<close>, which has the same two fields.\<close>

type_synonym user_lock = spin_lock

definition user_atomic_increment :: "u32 \<Rightarrow> u32 \<Rightarrow> u32 \<times> u32" where
  "user_atomic_increment contents increment = (contents, contents + increment)"

definition user_lock_acquire :: "user_lock \<Rightarrow> user_lock option" where
  "user_lock_acquire lk =
     (let (ticket, free') = user_atomic_increment (free_ticket lk) 1;
          lk' = lk\<lparr>free_ticket := free'\<rparr>
      in if current lk' \<noteq> ticket then None else Some lk')"

definition user_lock_release :: "user_lock \<Rightarrow> user_lock" where
  "user_lock_release lk = lk\<lparr>current := current lk + 1\<rparr>"

definition user_lock_init :: "user_lock \<Rightarrow> user_lock" where
  "user_lock_init lk = lk\<lparr>current := 0, free_ticket := 0\<rparr>"

subsection \<open>The contract the clients rely on\<close>

locale lock_interface =
  fixes acquire :: "'l \<Rightarrow> 'l option"
    and release :: "'l \<Rightarrow> 'l"
    and idle :: "'l \<Rightarrow> bool"
    and held :: "'l \<Rightarrow> bool"
  assumes acquire_idle: "idle lk \<Longrightarrow> \<exists>lk'. acquire lk = Some lk' \<and> held lk'"
    and acquire_held: "held lk \<Longrightarrow> acquire lk = None"
    and release_held: "held lk \<Longrightarrow> idle (release lk)"
begin

lemma acquire_idleE:
  assumes "idle lk"
  obtains lk' where "acquire lk = Some lk'" "held lk'" "idle (release lk')"
  using assms acquire_idle release_held by blast

lemma acquire_release: "idle lk \<Longrightarrow> \<exists>lk'. map_option release (acquire lk) = Some lk' \<and> idle lk'"
  by (auto elim: acquire_idleE)

lemma acquire_twice: "idle lk \<Longrightarrow> Option.bind (acquire lk) acquire = None"
  using acquire_idle acquire_held by fastforce

end

lemma spin_lock_acquire_cases:
  "spin_lock_acquire lk =
     (if lock_idle lk then Some (lk\<lparr>free_ticket := free_ticket lk + 1\<rparr>) else None)"
  by (simp add: spin_lock_acquire_def atomic_increment_def lock_idle_def)

lemma held_not_idle: "lock_held lk \<Longrightarrow> \<not> lock_idle lk"
  by (simp add: lock_held_def lock_idle_def)

interpretation spin: lock_interface spin_lock_acquire spin_lock_release lock_idle lock_held
proof unfold_locales
  show "lock_idle lk \<Longrightarrow> \<exists>lk'. spin_lock_acquire lk = Some lk' \<and> lock_held lk'" for lk
    by (simp add: spin_lock_acquire_cases lock_held_def) (simp add: lock_idle_def)
  show "lock_held lk \<Longrightarrow> spin_lock_acquire lk = None" for lk
    by (simp add: spin_lock_acquire_cases held_not_idle)
  show "lock_held lk \<Longrightarrow> lock_idle (spin_lock_release lk)" for lk
    by (simp add: lock_idle_def lock_held_def spin_lock_release_def)
qed

lemma user_lock_is_spin_lock:
  "user_lock_acquire = spin_lock_acquire" "user_lock_release = spin_lock_release"
  by (simp_all add: fun_eq_iff user_lock_acquire_def spin_lock_acquire_def user_lock_release_def
      spin_lock_release_def user_atomic_increment_def atomic_increment_def)

interpretation user: lock_interface user_lock_acquire user_lock_release lock_idle lock_held
  unfolding user_lock_is_spin_lock by (rule spin.lock_interface_axioms)

lemma init_idle [simp]: "lock_idle (spin_lock_init lk)" "lock_idle (user_lock_init lk)"
  by (simp_all add: lock_idle_def spin_lock_init_def user_lock_init_def)

section \<open>The queuing lock under concurrency\<close>

text \<open>
  A processor is outside, polls with its ticket, holds the lock, or has read the current index
  it is about to increment (the release is a plain load followed by a plain store). A step is
  one access of one processor to the shared words.
\<close>

datatype ticket_pc = Outside | Polling u32 | Holding u32 | Releasing u32 u32

record ticket_sys =
  shared :: spin_lock
  tpc :: "nat \<Rightarrow> ticket_pc"

definition ticket_init :: "spin_lock \<Rightarrow> ticket_sys" where
  "ticket_init lk = \<lparr>shared = spin_lock_init lk, tpc = (\<lambda>_. Outside)\<rparr>"

inductive ticket_step :: "nat \<Rightarrow> ticket_sys \<Rightarrow> ticket_sys \<Rightarrow> bool" for n where
  draw: "i < n \<Longrightarrow> tpc s i = Outside \<Longrightarrow>
    atomic_increment (free_ticket (shared s)) 1 = (ticket, free') \<Longrightarrow>
    ticket_step n s (s\<lparr>shared := (shared s)\<lparr>free_ticket := free'\<rparr>,
      tpc := (tpc s)(i := Polling ticket)\<rparr>)"
| poll_fails: "i < n \<Longrightarrow> tpc s i = Polling ticket \<Longrightarrow> current (shared s) \<noteq> ticket \<Longrightarrow>
    ticket_step n s s"
| poll_succeeds: "i < n \<Longrightarrow> tpc s i = Polling ticket \<Longrightarrow> current (shared s) = ticket \<Longrightarrow>
    ticket_step n s (s\<lparr>tpc := (tpc s)(i := Holding ticket)\<rparr>)"
| release_load: "i < n \<Longrightarrow> tpc s i = Holding ticket \<Longrightarrow>
    ticket_step n s (s\<lparr>tpc := (tpc s)(i := Releasing ticket (current (shared s)))\<rparr>)"
| release_store: "i < n \<Longrightarrow> tpc s i = Releasing ticket v \<Longrightarrow>
    ticket_step n s (s\<lparr>shared := (shared s)\<lparr>current := v + 1\<rparr>,
      tpc := (tpc s)(i := Outside)\<rparr>)"

inductive ticket_reach :: "nat \<Rightarrow> spin_lock \<Rightarrow> ticket_sys \<Rightarrow> bool" for n lk where
  start: "ticket_reach n lk (ticket_init lk)"
| step: "ticket_reach n lk s \<Longrightarrow> ticket_step n s t \<Longrightarrow> ticket_reach n lk t"

fun pc_ticket :: "ticket_pc \<Rightarrow> u32 option" where
  "pc_ticket Outside = None"
| "pc_ticket (Polling t) = Some t"
| "pc_ticket (Holding t) = Some t"
| "pc_ticket (Releasing t v) = Some t"

fun owns :: "ticket_pc \<Rightarrow> bool" where
  "owns (Holding t) = True"
| "owns (Releasing t v) = True"
| "owns _ = False"

text \<open>The queue: the processors with a ticket, in the order of their distance to the current
  index. The invariant says that the tickets are exactly \<open>current, current + 1, \<dots>\<close> up to the
  next free one, each with one owner.\<close>

definition ticket_inv :: "nat \<Rightarrow> ticket_sys \<Rightarrow> nat list \<Rightarrow> bool" where
  "ticket_inv n s q \<longleftrightarrow>
     distinct q \<and> set q = {i. tpc s i \<noteq> Outside} \<and> set q \<subseteq> {..<n} \<and>
     (\<forall>k < length q. pc_ticket (tpc s (q ! k)) = Some (current (shared s) + word_of_nat k)) \<and>
     free_ticket (shared s) = current (shared s) + word_of_nat (length q) \<and>
     (\<forall>i. owns (tpc s i) \<longrightarrow> q \<noteq> [] \<and> i = hd q) \<and>
     (\<forall>i t v. tpc s i = Releasing t v \<longrightarrow> v = current (shared s))"

lemma ticket_inv_init: "ticket_inv n (ticket_init lk) []"
  by (simp add: ticket_inv_def ticket_init_def spin_lock_init_def)

lemma word_of_nat_eq_0_small: "k < 4294967296 \<Longrightarrow> (word_of_nat k :: u32) = 0 \<longleftrightarrow> k = 0"
  using word_of_nat_inj_small [of k 0, where 'a=32] by auto

lemma ticket_invD:
  assumes "ticket_inv n s q"
  shows "distinct q" "set q = {i. tpc s i \<noteq> Outside}" "set q \<subseteq> {..<n}"
    "k < length q \<Longrightarrow> pc_ticket (tpc s (q ! k)) = Some (current (shared s) + word_of_nat k)"
    "free_ticket (shared s) = current (shared s) + word_of_nat (length q)"
    "owns (tpc s i) \<Longrightarrow> q \<noteq> [] \<and> i = hd q"
    "tpc s i = Releasing tk v \<Longrightarrow> v = current (shared s)"
  using assms unfolding ticket_inv_def by blast+

lemma ticket_inv_length: "ticket_inv n s q \<Longrightarrow> length q \<le> n"
  using card_mono [of "{..<n}" "set q"] distinct_card [of q] ticket_invD(1,3) [of n s q]
  by simp

lemma ticket_inv_draw:
  assumes inv: "ticket_inv n s q" and i: "i < n" "tpc s i = Outside"
    and t: "t = s\<lparr>shared := (shared s)\<lparr>free_ticket := free_ticket (shared s) + 1\<rparr>,
      tpc := (tpc s)(i := Polling (free_ticket (shared s)))\<rparr>"
  shows "ticket_inv n t (q @ [i])"
proof -
  have "i \<notin> set q" using inv i by (simp add: ticket_inv_def)
  moreover have "q ! k \<noteq> i" if "k < length q" for k
    using that calculation nth_mem by metis
  ultimately show ?thesis
    using inv i unfolding t ticket_inv_def
    by (auto simp: nth_append less_Suc_eq algebra_simps hd_append)
qed

lemma ticket_inv_head:
  assumes inv: "ticket_inv n s q" and n: "n < 4294967296"
    and i: "tpc s i = Polling (current (shared s))"
  shows "q \<noteq> [] \<and> i = hd q"
proof -
  have "i \<in> set q" using inv i by (simp add: ticket_inv_def)
  then obtain k where k: "k < length q" "i = q ! k" by (metis in_set_conv_nth)
  then have "current (shared s) = current (shared s) + word_of_nat k"
    using inv i by (auto simp: ticket_inv_def)
  moreover have "k < 4294967296" using k ticket_inv_length [OF inv] n by linarith
  ultimately have "k = 0" by (simp add: word_of_nat_eq_0_small)
  with k show ?thesis by (cases q) simp_all
qed

lemma ticket_inv_release:
  assumes inv: "ticket_inv n s q" and i: "tpc s i = Releasing tk v"
    and t: "t = s\<lparr>shared := (shared s)\<lparr>current := v + 1\<rparr>, tpc := (tpc s)(i := Outside)\<rparr>"
  shows "ticket_inv n t (tl q) \<and> i = hd q \<and> q \<noteq> []"
proof -
  have v: "v = current (shared s)" using ticket_invD(7) [OF inv i] .
  have hd: "q \<noteq> [] \<and> i = hd q" using ticket_invD(6) [OF inv, of i] i by simp
  then obtain qs where q: "q = i # qs" by (cases q) auto
  have dist: "i \<notin> set qs" "distinct qs" using ticket_invD(1) [OF inv] by (simp_all add: q)
  have set: "set qs = {j. tpc t j \<noteq> Outside}"
  proof -
    have "set qs = set q - {i}" using dist by (simp add: q)
    then show ?thesis using ticket_invD(2) [OF inv] by (auto simp: t)
  qed
  have tk: "pc_ticket (tpc t (qs ! k)) = Some (current (shared t) + word_of_nat k)"
    if "k < length qs" for k
  proof -
    have "qs ! k \<noteq> i" using dist nth_mem [OF that] by metis
    then show ?thesis
      using ticket_invD(4) [OF inv, of "Suc k"] that by (simp add: q t v algebra_simps)
  qed
  have sub: "set qs \<subseteq> {..<n}" using ticket_invD(3) [OF inv] by (simp add: q)
  have free: "free_ticket (shared t) = current (shared t) + word_of_nat (length qs)"
    using ticket_invD(5) [OF inv] by (simp add: q t v algebra_simps)
  have alone: "\<not> owns (tpc t j)" for j
  proof (cases "j = i")
    case True then show ?thesis by (simp add: t)
  next
    case False then show ?thesis using ticket_invD(6) [OF inv, of j] by (auto simp: q t)
  qed
  then have "tpc t j \<noteq> Releasing a b" for j a b by (metis owns.simps(2))
  then have "ticket_inv n t qs"
    using dist set tk sub free alone unfolding ticket_inv_def by blast
  with hd q show ?thesis by simp
qed

text \<open>Every step is a step of a FIFO queue: enqueue at the tail, dequeue at the head, or none.\<close>

lemma ticket_step_queue:
  assumes "ticket_step n s t" "ticket_inv n s q" "n < 4294967296"
  obtains (enqueue) i where "i < n" "i \<notin> set q" "ticket_inv n t (q @ [i])"
    | (dequeue) "q \<noteq> []" "owns (tpc s (hd q))" "ticket_inv n t (tl q)"
    | (wait) "ticket_inv n t q"
  using assms(1)
proof (cases rule: ticket_step.cases)
  case (draw i ticket free')
  then have "ticket_inv n t (q @ [i])"
    using assms(2) by (intro ticket_inv_draw) (auto simp: atomic_increment_def)
  moreover have "i \<notin> set q" using assms(2) draw by (simp add: ticket_inv_def)
  ultimately show ?thesis using draw enqueue by blast
next
  case (poll_fails i ticket)
  with assms(2) wait show ?thesis by simp
next
  case (poll_succeeds i ticket)
  with ticket_inv_head [OF assms(2,3), of i] have hd: "q \<noteq> []" "i = hd q" by auto
  have "ticket_inv n t q"
    using assms(2) poll_succeeds hd unfolding ticket_inv_def by auto
  with wait show ?thesis .
next
  case (release_load i ticket)
  then have "owns (tpc s i)" by simp
  with assms(2) have hd: "q \<noteq> []" "i = hd q" by (auto simp: ticket_inv_def)
  have "ticket_inv n t q"
    using assms(2) release_load hd unfolding ticket_inv_def by auto
  with wait show ?thesis .
next
  case (release_store i ticket v)
  then show ?thesis
    using ticket_inv_release [OF assms(2), of i ticket v t] dequeue by auto
qed

lemma ticket_reach_inv:
  assumes "ticket_reach n lk s" "n < 4294967296"
  shows "\<exists>q. ticket_inv n s q"
  using assms(1)
proof (induction rule: ticket_reach.induct)
  case start
  show ?case using ticket_inv_init by blast
next
  case (step s t)
  then obtain q where q: "ticket_inv n s q" by blast
  from step.hyps(2) q assms(2) show ?case
    by (cases rule: ticket_step_queue) blast+
qed

lemma ticket_mutex:
  assumes "ticket_reach n lk s" "n < 4294967296" "owns (tpc s i)" "owns (tpc s j)"
  shows "i = j"
  using ticket_reach_inv [OF assms(1,2)] assms(3,4) unfolding ticket_inv_def by metis

lemma ticket_progress:
  assumes "ticket_reach n lk s" "n < 4294967296" "tpc s i \<noteq> Outside"
  shows "\<exists>t. ticket_step n s t \<and> t \<noteq> s"
proof -
  obtain q where q: "ticket_inv n s q" using ticket_reach_inv [OF assms(1,2)] by blast
  then have "i \<in> set q" using assms(3) by (simp add: ticket_inv_def)
  then obtain h qs where hq: "q = h # qs" by (cases q) auto
  have h: "h < n" "pc_ticket (tpc s h) = Some (current (shared s))"
    using q unfolding ticket_inv_def hq by (auto dest!: spec [of _ 0])
  consider "tpc s h = Polling (current (shared s))" | tk where "tpc s h = Holding tk"
    | tk v where "tpc s h = Releasing tk v"
    using h(2) by (cases "tpc s h") auto
  then show ?thesis
  proof cases
    case 1
    then have "tpc (s\<lparr>tpc := (tpc s)(h := Holding (current (shared s)))\<rparr>) h \<noteq> tpc s h" by simp
    with ticket_step.poll_succeeds [OF h(1) 1] show ?thesis by metis
  next
    case 2
    then have "tpc (s\<lparr>tpc := (tpc s)(h := Releasing tk (current (shared s)))\<rparr>) h \<noteq> tpc s h"
      by simp
    with ticket_step.release_load [OF h(1) 2] show ?thesis by metis
  next
    case 3
    then have "tpc (s\<lparr>shared := (shared s)\<lparr>current := v + 1\<rparr>, tpc := (tpc s)(h := Outside)\<rparr>) h
        \<noteq> tpc s h" by simp
    with ticket_step.release_store [OF h(1) 3] show ?thesis by metis
  qed
qed

section \<open>The simple lock, instruction by instruction\<close>

text \<open>
  \<open>_simple_lock_acquire\<close> polls with a plain load, then tries a load-linked and a
  store-conditional. A processor's link is set by its load-linked; every store to the word
  breaks the links of all processors, and a link can also be lost at any time.
\<close>

datatype simple_pc = At_entry | At_lw | At_ll | At_sc | In_section

record simple_sys =
  lock_value :: u32
  linked :: "nat \<Rightarrow> bool"
  spc :: "nat \<Rightarrow> simple_pc"

definition simple_init :: simple_sys where
  "simple_init = \<lparr>lock_value = 0, linked = (\<lambda>_. False), spc = (\<lambda>_. At_entry)\<rparr>"

inductive simple_step :: "simple_sys \<Rightarrow> simple_sys \<Rightarrow> bool" where
  call: "spc s i = At_entry \<Longrightarrow> simple_step s (s\<lparr>spc := (spc s)(i := At_lw)\<rparr>)"
| lw_taken: "spc s i = At_lw \<Longrightarrow> lock_value s \<noteq> 0 \<Longrightarrow> simple_step s s"
| lw_free: "spc s i = At_lw \<Longrightarrow> lock_value s = 0 \<Longrightarrow>
    simple_step s (s\<lparr>spc := (spc s)(i := At_ll)\<rparr>)"
| ll_taken: "spc s i = At_ll \<Longrightarrow> lock_value s \<noteq> 0 \<Longrightarrow>
    simple_step s (s\<lparr>linked := (linked s)(i := True), spc := (spc s)(i := At_lw)\<rparr>)"
| ll_free: "spc s i = At_ll \<Longrightarrow> lock_value s = 0 \<Longrightarrow>
    simple_step s (s\<lparr>linked := (linked s)(i := True), spc := (spc s)(i := At_sc)\<rparr>)"
| sc_fails: "spc s i = At_sc \<Longrightarrow> \<not> linked s i \<Longrightarrow>
    simple_step s (s\<lparr>spc := (spc s)(i := At_lw)\<rparr>)"
| sc_succeeds: "spc s i = At_sc \<Longrightarrow> linked s i \<Longrightarrow>
    simple_step s (s\<lparr>lock_value := 1, linked := (\<lambda>_. False), spc := (spc s)(i := In_section)\<rparr>)"
| link_lost: "simple_step s (s\<lparr>linked := (linked s)(i := False)\<rparr>)"
| unlock: "spc s i = In_section \<Longrightarrow>
    simple_step s (s\<lparr>lock_value := 0, linked := (\<lambda>_. False), spc := (spc s)(i := At_entry)\<rparr>)"

inductive simple_reach :: "simple_sys \<Rightarrow> bool" where
  start: "simple_reach simple_init"
| step: "simple_reach s \<Longrightarrow> simple_step s t \<Longrightarrow> simple_reach t"

definition simple_inv :: "simple_sys \<Rightarrow> bool" where
  "simple_inv s \<longleftrightarrow>
     (\<forall>i. spc s i = In_section \<longrightarrow> lock_value s \<noteq> 0) \<and>
     (\<forall>i j. spc s i = In_section \<longrightarrow> spc s j = In_section \<longrightarrow> i = j) \<and>
     (\<forall>i. spc s i = At_sc \<longrightarrow> linked s i \<longrightarrow> lock_value s = 0)"

lemma simple_step_inv: "simple_step s t \<Longrightarrow> simple_inv s \<Longrightarrow> simple_inv t"
  by (induction rule: simple_step.induct) (auto simp: simple_inv_def)

lemma simple_reach_inv: "simple_reach s \<Longrightarrow> simple_inv s"
proof (induction rule: simple_reach.induct)
  case start
  show ?case by (simp add: simple_inv_def simple_init_def)
next
  case (step s t)
  then show ?case by (blast intro: simple_step_inv)
qed

lemma simple_mutex:
  assumes "simple_reach s" "spc s i = In_section" "spc s j = In_section"
  shows "i = j"
  using simple_reach_inv [OF assms(1)] assms(2,3) by (simp add: simple_inv_def)

section \<open>Properties\<close>


text \<open>C14: The queuing lock is a fair lock for any number of processors below \<open>2 ^ 32\<close>, tickets
  wrapping around included: in every reachable state the processors that asked for it form a queue
  in the order they drew their tickets, only the first of them can be in the critical section,
  and a step appends the caller, removes the first, or leaves the queue as it is.\<close>

theorem ticket_lock_fair:
  assumes "ticket_reach n lk s" "ticket_step n s t" "n < 4294967296"
  shows "\<exists>q q'. set q = {i. tpc s i \<noteq> Outside} \<and> set q' = {i. tpc t i \<noteq> Outside} \<and> distinct q \<and>
    (\<forall>k<length q. pc_ticket (tpc s (q ! k)) = Some (current (shared s) + word_of_nat k)) \<and>
    (\<forall>i. owns (tpc s i) \<longrightarrow> q \<noteq> [] \<and> i = hd q) \<and>
    ((\<exists>i. q' = q @ [i]) \<or> q \<noteq> [] \<and> owns (tpc s (hd q)) \<and> q' = tl q \<or> q' = q)"
proof -
  obtain q where q: "ticket_inv n s q" using ticket_reach_inv [OF assms(1,3)] by blast
  obtain q' where "ticket_inv n t q'"
    "(\<exists>i. q' = q @ [i]) \<or> q \<noteq> [] \<and> owns (tpc s (hd q)) \<and> q' = tl q \<or> q' = q"
    using assms(2) q assms(3) by (cases rule: ticket_step_queue) blast+
  then show ?thesis using q unfolding ticket_inv_def by blast
qed

definition two_callers :: ticket_sys where
  "two_callers = \<lparr>shared = \<lparr>current = 0, free_ticket = 1\<rparr>, tpc = (\<lambda>_. Outside)(0 := Polling 0)\<rparr>"

lemma two_callers_reached: "ticket_reach 2 \<lparr>current = 7, free_ticket = 9\<rparr> two_callers"
proof -
  have "ticket_step 2 (ticket_init \<lparr>current = 7, free_ticket = 9\<rparr>) two_callers"
    using ticket_step.draw [of 0 2 "ticket_init \<lparr>current = 7, free_ticket = 9\<rparr>" 0 1]
    by (simp add: ticket_init_def spin_lock_init_def two_callers_def atomic_increment_def)
  then show ?thesis using ticket_reach.step [OF ticket_reach.start] by blast
qed

theorem ticket_lock_fair_witness:
  "\<exists>t q. ticket_step 2 two_callers t \<and> set q = {i. tpc two_callers i \<noteq> Outside} \<and> distinct q"
proof -
  have "ticket_step 2 two_callers (two_callers\<lparr>tpc := (tpc two_callers)(0 := Holding 0)\<rparr>)"
    by (rule ticket_step.poll_succeeds) (simp_all add: two_callers_def)
  from ticket_lock_fair [OF two_callers_reached this] this show ?thesis by auto
qed

text \<open>C15: The queuing lock never leaves every waiting processor stuck: while some processor asks for
  the lock or holds it, some processor can take a step that changes the state.\<close>

theorem ticket_lock_progress:
  assumes "ticket_reach n lk s" "n < 4294967296" "tpc s i \<noteq> Outside"
  shows "\<exists>t. ticket_step n s t \<and> t \<noteq> s"
  by (rule ticket_progress [OF assms])

theorem ticket_lock_progress_witness: "\<exists>t. ticket_step 2 two_callers t \<and> t \<noteq> two_callers"
  using ticket_lock_progress [OF two_callers_reached, of 0] by (simp add: two_callers_def)

text \<open>The simple lock, instruction by instruction with its load-linked and store-conditional
  pair, keeps two processors from being in the critical section together.\<close>

theorem simple_lock_mutex:
  assumes "simple_reach s" "spc s i = In_section" "spc s j = In_section"
  shows "i = j"
  by (rule simple_mutex [OF assms])

definition one_inside :: simple_sys where
  "one_inside = \<lparr>lock_value = 1, linked = (\<lambda>_. False), spc = (\<lambda>_. At_entry)(3 := In_section)\<rparr>"

lemma one_inside_reached: "simple_reach one_inside"
proof -
  let ?at = "\<lambda>p. (\<lambda>_. At_entry)(3 := p)"
  have "simple_reach simple_init" by (rule simple_reach.start)
  then have "simple_reach (simple_init\<lparr>spc := ?at At_lw\<rparr>)"
    using simple_step.call [of simple_init 3] by (auto simp: simple_init_def intro: simple_reach.step)
  then have "simple_reach (simple_init\<lparr>spc := ?at At_ll\<rparr>)"
    using simple_step.lw_free [of "simple_init\<lparr>spc := ?at At_lw\<rparr>" 3]
    by (auto simp: simple_init_def intro: simple_reach.step)
  then have "simple_reach (simple_init\<lparr>linked := (\<lambda>_. False)(3 := True), spc := ?at At_sc\<rparr>)"
    using simple_step.ll_free [of "simple_init\<lparr>spc := ?at At_ll\<rparr>" 3]
    by (auto simp: simple_init_def intro: simple_reach.step)
  then show ?thesis
    using simple_step.sc_succeeds [of "simple_init\<lparr>linked := (\<lambda>_. False)(3 := True), spc := ?at At_sc\<rparr>" 3]
    by (auto simp: simple_init_def one_inside_def intro: simple_reach.step)
qed

theorem simple_lock_mutex_witness: "spc one_inside 3 = In_section \<and> 3 = (3::nat)"
  using simple_lock_mutex [OF one_inside_reached, of 3 3] by (simp add: one_inside_def)

end
