(* ===== verification/Buddy_Spec.thy ===== *)
theory Buddy_Spec
  imports Prelude
begin

text \<open>
  The abstract buddy allocator, on natural numbers: \<open>fl k\<close> is the list of the free blocks of
  size \<open>2 ^ k\<close>, and \<open>al\<close> maps the base of each allocated block to its size index. The
  invariant says that the free blocks, the allocated blocks and the block of the
  \<open>alloc[]\<close> array tile the heap segment, that every block is aligned on its size, and that
  two companion blocks are never both free. The kernel heap and the user heap refine it.
\<close>

section \<open>Tilings of an interval by tagged blocks\<close>

datatype tag = Free | Used | Reserved

type_synonym block = "tag \<times> nat \<times> nat"

fun brange :: "block \<Rightarrow> nat set" where
  "brange (t, a, k) = {a..<a + 2 ^ k}"

definition tiling :: "block set \<Rightarrow> nat \<Rightarrow> nat \<Rightarrow> bool" where
  "tiling S lo hi \<longleftrightarrow>
     (\<forall>b\<in>S. brange b \<subseteq> {lo..<hi}) \<and> (\<forall>x\<in>{lo..<hi}. \<exists>!b. b \<in> S \<and> x \<in> brange b)"

lemma base_in_brange [simp]: "a \<in> brange (t, a, k)"
  by simp

lemma tiling_overlap:
  assumes "tiling S lo hi" "b \<in> S" "c \<in> S" "x \<in> brange b" "x \<in> brange c"
  shows "b = c"
proof -
  have "brange b \<subseteq> {lo..<hi}" using assms(1,2) unfolding tiling_def by blast
  then have "x \<in> {lo..<hi}" using assms(4) by blast
  with assms show ?thesis unfolding tiling_def by blast
qed

lemma tiling_same_base:
  "tiling S lo hi \<Longrightarrow> (t, a, k) \<in> S \<Longrightarrow> (t', a, k') \<in> S \<Longrightarrow> t' = t \<and> k' = k"
  using tiling_overlap [of S lo hi "(t, a, k)" "(t', a, k')" a] by simp

lemma tiling_bounds:
  "tiling S lo hi \<Longrightarrow> (t, a, k) \<in> S \<Longrightarrow> lo \<le> a \<and> a + 2 ^ k \<le> hi"
proof -
  assume "tiling S lo hi" "(t, a, k) \<in> S"
  then have "{a..<a + 2 ^ k} \<subseteq> {lo..<hi}" by (auto simp: tiling_def)
  then show ?thesis by (simp add: ivl_subset)
qed

lemma tiling_refine:
  assumes S: "tiling S lo hi" and b: "(t, a, k) \<in> S" and T: "tiling T a (a + 2 ^ k)"
  shows "tiling (S - {(t, a, k)} \<union> T) lo hi"
  unfolding tiling_def
proof (intro conjI ballI)
  fix c assume "c \<in> S - {(t, a, k)} \<union> T"
  then show "brange c \<subseteq> {lo..<hi}"
    using S T tiling_bounds [OF S b] unfolding tiling_def by fastforce
next
  fix x assume x: "x \<in> {lo..<hi}"
  show "\<exists>!c. c \<in> S - {(t, a, k)} \<union> T \<and> x \<in> brange c"
  proof (cases "x \<in> {a..<a + 2 ^ k}")
    case True
    then have "\<exists>!c. c \<in> T \<and> x \<in> brange c" using T by (auto simp: tiling_def)
    moreover have "x \<notin> brange c" if "c \<in> S - {(t, a, k)}" for c
      using tiling_overlap [OF S b, of c x] that True by auto
    ultimately show ?thesis by blast
  next
    case False
    have "\<exists>!c. c \<in> S \<and> x \<in> brange c" using S x by (auto simp: tiling_def)
    moreover have "x \<notin> brange c" if "c \<in> T" for c
      using T False that unfolding tiling_def by blast
    moreover have "x \<notin> brange (t, a, k)" using False by simp
    ultimately show ?thesis by (metis DiffD1 DiffI Un_iff singletonD)
  qed
qed

lemma tiling_coarsen:
  assumes S: "tiling S lo hi" and TS: "T \<subseteq> S" and T: "tiling T a (a + 2 ^ k)"
    and ah: "lo \<le> a" "a + 2 ^ k \<le> hi"
  shows "tiling (S - T \<union> {(t, a, k)}) lo hi"
  unfolding tiling_def
proof (intro conjI ballI)
  fix c assume "c \<in> S - T \<union> {(t, a, k)}"
  then show "brange c \<subseteq> {lo..<hi}" using S ah by (auto simp: tiling_def)
next
  fix x assume x: "x \<in> {lo..<hi}"
  show "\<exists>!c. c \<in> S - T \<union> {(t, a, k)} \<and> x \<in> brange c"
  proof (cases "x \<in> {a..<a + 2 ^ k}")
    case True
    then obtain d where d: "d \<in> T" "x \<in> brange d" using T unfolding tiling_def by blast
    have "x \<notin> brange c" if "c \<in> S - T" for c
      using tiling_overlap [OF S, of d c x] d TS that by auto
    then show ?thesis using True by auto
  next
    case False
    have "\<exists>!c. c \<in> S \<and> x \<in> brange c" using S x by (auto simp: tiling_def)
    moreover have "x \<notin> brange c" if "c \<in> T" for c
      using T False that unfolding tiling_def by blast
    moreover have "x \<notin> brange (t, a, k)" using False by simp
    ultimately show ?thesis by (metis DiffD1 DiffI Un_iff singletonD)
  qed
qed

lemma tiling_one: "tiling {(t, a, k)} a (a + 2 ^ k)"
  by (auto simp: tiling_def)

lemma tiling_two: "tiling {(t, a, k), (t', a + 2 ^ k, k)} a (a + 2 ^ Suc k)"
proof -
  have "\<exists>!b. b \<in> {(t, a, k), (t', a + 2 ^ k, k)} \<and> x \<in> brange b"
    if "a \<le> x" "x < a + 2 ^ Suc k" for x
  proof (cases "x < a + 2 ^ k")
    case True
    with that show ?thesis by (intro ex1I [of _ "(t, a, k)"]) auto
  next
    case False
    with that show ?thesis by (intro ex1I [of _ "(t', a + 2 ^ k, k)"]) auto
  qed
  then show ?thesis by (simp add: tiling_def)
qed

section \<open>The allocator\<close>

definition companion :: "nat \<Rightarrow> nat \<Rightarrow> nat" where
  "companion a k = (if even (a div 2 ^ k) then a + 2 ^ k else a - 2 ^ k)"

definition merged :: "nat \<Rightarrow> nat \<Rightarrow> nat" where
  "merged a k = (if even (a div 2 ^ k) then a else a - 2 ^ k)"

type_synonym free_lists = "nat \<Rightarrow> nat list"
type_synonym allocation = "nat \<rightharpoonup> nat"

text \<open>Take the first free block of index at least \<open>j\<close> and split it down to index \<open>k\<close>.\<close>

fun asplit :: "free_lists \<Rightarrow> nat \<Rightarrow> nat \<Rightarrow> nat \<Rightarrow> free_lists" where
  "asplit fl a 0 k = fl"
| "asplit fl a (Suc j) k =
     (if j < k then fl else asplit (fl(j := (a + 2 ^ j) # fl j)) a j k)"

function aget :: "nat \<Rightarrow> free_lists \<Rightarrow> nat \<Rightarrow> nat \<Rightarrow> (nat \<times> free_lists) option" where
  "aget hs fl j k =
     (if hs < 2 ^ j then None
      else case fl j of [] \<Rightarrow> aget hs fl (Suc j) k
           | a # as \<Rightarrow> Some (a, asplit (fl(j := as)) a j k))"
  by pat_completeness auto
termination
proof (relation "measure (\<lambda>(hs, fl, j, k). Suc hs - j)")
  fix hs k j :: nat and fl :: free_lists
  assume "\<not> hs < 2 ^ j"
  moreover have "j < 2 ^ j" by (rule less_exp)
  ultimately have "j \<le> hs" by linarith
  then show "((hs, fl, Suc j, k), hs, fl, j, k) \<in> measure (\<lambda>(hs, fl, j, k). Suc hs - j)"
    by simp
qed simp

function aupdate :: "free_lists \<Rightarrow> nat \<Rightarrow> nat \<Rightarrow> free_lists" where
  "aupdate fl a k =
     (if k < 32 \<and> companion a k \<in> set (fl k)
      then aupdate (fl(k := remove1 (companion a k) (fl k))) (merged a k) (Suc k)
      else fl(k := a # fl k))"
  by pat_completeness auto
termination
  by (relation "measure (\<lambda>(fl, a, k). 32 - k)") auto

declare aget.simps [simp del] aupdate.simps [simp del]

definition amalloc :: "nat \<Rightarrow> free_lists \<Rightarrow> allocation \<Rightarrow> nat
    \<Rightarrow> (nat \<times> free_lists \<times> allocation) option" where
  "amalloc hs fl al k = map_option (\<lambda>(a, fl'). (a, fl', al(a \<mapsto> k))) (aget hs fl k k)"

definition afree :: "free_lists \<Rightarrow> allocation \<Rightarrow> nat \<Rightarrow> (free_lists \<times> allocation) option" where
  "afree fl al a = map_option (\<lambda>k. (aupdate fl a k, al(a := None))) (al a)"

section \<open>The invariant\<close>

definition blocks :: "free_lists \<Rightarrow> allocation \<Rightarrow> nat \<times> nat \<Rightarrow> block set" where
  "blocks fl al r = {(Free, a, k) |a k. a \<in> set (fl k)} \<union> {(Used, a, k) |a k. al a = Some k}
     \<union> {(Reserved, r)}"

definition coalesced :: "free_lists \<Rightarrow> bool" where
  "coalesced fl \<longleftrightarrow> (\<forall>k. \<forall>a \<in> set (fl k). companion a k \<notin> set (fl k))"

definition buddy_inv :: "nat \<Rightarrow> nat \<Rightarrow> nat \<Rightarrow> nat \<times> nat \<Rightarrow> free_lists \<Rightarrow> allocation \<Rightarrow> bool" where
  "buddy_inv kmin lo hi r fl al \<longleftrightarrow>
     tiling (blocks fl al r) lo hi \<and>
     (\<forall>(t, a, k) \<in> blocks fl al r. 2 ^ k dvd a \<and> kmin \<le> k) \<and>
     (\<forall>k. distinct (fl k)) \<and> coalesced fl"

lemma blocks_iff [simp]:
  "(Free, a, k) \<in> blocks fl al r \<longleftrightarrow> a \<in> set (fl k)"
  "(Used, a, k) \<in> blocks fl al r \<longleftrightarrow> al a = Some k"
  "(Reserved, a, k) \<in> blocks fl al r \<longleftrightarrow> r = (a, k)"
  by (auto simp: blocks_def)

lemma block_set_eqI:
  assumes "\<And>x i. (Free, x, i) \<in> A \<longleftrightarrow> (Free, x, i) \<in> B"
    and "\<And>x i. (Used, x, i) \<in> A \<longleftrightarrow> (Used, x, i) \<in> B"
    and "\<And>x i. (Reserved, x, i) \<in> A \<longleftrightarrow> (Reserved, x, i) \<in> B"
  shows "A = (B :: block set)"
proof (rule set_eqI)
  fix b :: block
  obtain t x i where "b = (t, x, i)" by (cases b)
  with assms show "b \<in> A \<longleftrightarrow> b \<in> B" by (cases t) simp_all
qed

lemma buddy_invD:
  assumes "buddy_inv kmin lo hi r fl al"
  shows "tiling (blocks fl al r) lo hi"
    and "a \<in> set (fl k) \<Longrightarrow> 2 ^ k dvd a \<and> kmin \<le> k \<and> lo \<le> a \<and> a + 2 ^ k \<le> hi"
    and "al a = Some k \<Longrightarrow> 2 ^ k dvd a \<and> kmin \<le> k \<and> lo \<le> a \<and> a + 2 ^ k \<le> hi"
    and "distinct (fl k)" and "coalesced fl"
proof -
  show t: "tiling (blocks fl al r) lo hi" using assms by (simp add: buddy_inv_def)
  show "distinct (fl k)" "coalesced fl" using assms by (simp_all add: buddy_inv_def)
  have *: "2 ^ k dvd a \<and> kmin \<le> k \<and> lo \<le> a \<and> a + 2 ^ k \<le> hi"
    if "(tg, a, k) \<in> blocks fl al r" for tg
    using assms that tiling_bounds [OF t that] unfolding buddy_inv_def by blast
  show "a \<in> set (fl k) \<Longrightarrow> 2 ^ k dvd a \<and> kmin \<le> k \<and> lo \<le> a \<and> a + 2 ^ k \<le> hi"
    using * [of Free] by simp
  show "al a = Some k \<Longrightarrow> 2 ^ k dvd a \<and> kmin \<le> k \<and> lo \<le> a \<and> a + 2 ^ k \<le> hi"
    using * [of Used] by simp
qed

lemma buddy_free_not_used:
  "buddy_inv kmin lo hi r fl al \<Longrightarrow> a \<in> set (fl k) \<Longrightarrow> al a = None"
  using tiling_same_base [OF buddy_invD(1), of kmin lo hi r fl al Free a k Used] by fastforce

lemma buddy_free_one_index:
  "buddy_inv kmin lo hi r fl al \<Longrightarrow> a \<in> set (fl k) \<Longrightarrow> a \<in> set (fl j) \<Longrightarrow> j = k"
  using tiling_same_base [OF buddy_invD(1), of kmin lo hi r fl al Free a k Free j] by simp

section \<open>Companions\<close>

lemma merged_pair:
  assumes "2 ^ k dvd a"
  shows "2 ^ Suc k dvd merged a k" and
    "merged a k = a \<and> companion a k = a + 2 ^ k
     \<or> a = merged a k + 2 ^ k \<and> companion a k = merged a k"
proof -
  obtain q where a: "a = 2 ^ k * q" using assms by (auto elim: dvdE)
  have "2 ^ Suc k dvd merged a k \<and> (merged a k = a \<and> companion a k = a + 2 ^ k
     \<or> a = merged a k + 2 ^ k \<and> companion a k = merged a k)"
  proof (cases "even q")
    case True
    then show ?thesis by (auto simp: a merged_def companion_def elim!: evenE)
  next
    case False
    then obtain p where "q = 2 * p + 1" by (auto elim: oddE)
    then show ?thesis by (simp add: a merged_def companion_def algebra_simps)
  qed
  then show "2 ^ Suc k dvd merged a k" and "merged a k = a \<and> companion a k = a + 2 ^ k
     \<or> a = merged a k + 2 ^ k \<and> companion a k = merged a k" by simp_all
qed

lemma companion_halves:
  assumes "2 ^ Suc k dvd a"
  shows "companion a k = a + 2 ^ k" "companion (a + 2 ^ k) k = a"
proof -
  obtain q where "a = 2 ^ Suc k * q" using assms by (auto elim: dvdE)
  then have a: "a = 2 ^ k * (2 * q)" by simp
  then have "a + 2 ^ k = 2 ^ k * (2 * q + 1)" by (simp add: algebra_simps)
  then show "companion a k = a + 2 ^ k" "companion (a + 2 ^ k) k = a"
    by (simp_all add: companion_def a del: mult.assoc)
qed

lemma companion_involution:
  assumes "2 ^ k dvd a"
  shows "companion (companion a k) k = a" and "companion a k \<noteq> a"
  using merged_pair [OF assms] companion_halves [of k "merged a k"] by auto

section \<open>Each elementary move keeps the invariant\<close>

lemma coalesced_push:
  assumes "coalesced fl" "companion b k \<notin> set (fl k)" "2 ^ k dvd b"
    "\<And>x. x \<in> set (fl k) \<Longrightarrow> 2 ^ k dvd x"
  shows "coalesced (fl(k := b # fl k))"
  using assms companion_involution [of k] unfolding coalesced_def
  by (auto split: if_splits)

lemma coalesced_shrink:
  "coalesced fl \<Longrightarrow> (\<And>k. set (fl' k) \<subseteq> set (fl k)) \<Longrightarrow> coalesced fl'"
  unfolding coalesced_def by blast

lemma buddy_inv_pop:
  assumes inv: "buddy_inv kmin lo hi r fl al" and fl: "fl k = a # as"
  shows "buddy_inv kmin lo hi r (fl(k := as)) (al(a \<mapsto> k))"
proof -
  let ?S = "blocks fl al r"
  have a: "a \<in> set (fl k)" by (simp add: fl)
  have none: "al a = None" using buddy_free_not_used [OF inv a] .
  have dist: "a \<notin> set as" "distinct as" using buddy_invD(4) [OF inv, of k] by (simp_all add: fl)
  have eq: "blocks (fl(k := as)) (al(a \<mapsto> k)) r = ?S - {(Free, a, k)} \<union> {(Used, a, k)}"
    by (rule block_set_eqI) (use fl none dist in auto)
  have "tiling (blocks (fl(k := as)) (al(a \<mapsto> k)) r) lo hi"
    unfolding eq using a by (intro tiling_refine [OF buddy_invD(1) [OF inv]] tiling_one) simp
  moreover have "coalesced (fl(k := as))"
    by (rule coalesced_shrink [OF buddy_invD(5) [OF inv]]) (auto simp: fl)
  ultimately show ?thesis
    using inv a dist buddy_invD(2) [OF inv a] unfolding buddy_inv_def eq by auto
qed

lemma buddy_inv_split:
  assumes inv: "buddy_inv kmin lo hi r fl al" and al: "al a = Some (Suc k)" and k: "kmin \<le> k"
  shows "buddy_inv kmin lo hi r (fl(k := (a + 2 ^ k) # fl k)) (al(a \<mapsto> k))"
proof -
  let ?S = "blocks fl al r" and ?b = "a + 2 ^ k"
  have used: "(Used, a, Suc k) \<in> ?S" by (simp add: al)
  note ab = buddy_invD(3) [OF inv al]
  have outside: "x \<notin> set (fl k)" if "x \<in> {a..<a + 2 ^ Suc k}" for x
    using tiling_overlap [OF buddy_invD(1) [OF inv] used, of "(Free, x, k)" x] that by auto
  have notin: "a \<notin> set (fl k)" "?b \<notin> set (fl k)" by (auto intro!: outside)
  have eq: "blocks (fl(k := ?b # fl k)) (al(a \<mapsto> k)) r
      = ?S - {(Used, a, Suc k)} \<union> {(Used, a, k), (Free, ?b, k)}"
    by (rule block_set_eqI) (use al in auto)
  have "tiling (blocks (fl(k := ?b # fl k)) (al(a \<mapsto> k)) r) lo hi"
    unfolding eq by (rule tiling_refine [OF buddy_invD(1) [OF inv] used tiling_two])
  moreover have dvd: "2 ^ k dvd a" "2 ^ k dvd ?b"
    using ab dvd_trans [of "2 ^ k" "2 ^ Suc k" a] by simp_all
  moreover have "coalesced (fl(k := ?b # fl k))"
    using notin companion_halves [of k a] ab dvd buddy_invD(2) [OF inv]
    by (intro coalesced_push [OF buddy_invD(5) [OF inv]]) auto
  ultimately show ?thesis
    using inv k notin unfolding buddy_inv_def eq by auto
qed

lemma buddy_inv_push:
  assumes inv: "buddy_inv kmin lo hi r fl al" and al: "al a = Some k"
    and c: "companion a k \<notin> set (fl k)"
  shows "buddy_inv kmin lo hi r (fl(k := a # fl k)) (al(a := None))"
proof -
  let ?S = "blocks fl al r"
  have used: "(Used, a, k) \<in> ?S" by (simp add: al)
  have notin: "a \<notin> set (fl k)" using buddy_free_not_used [OF inv] al by fastforce
  have eq: "blocks (fl(k := a # fl k)) (al(a := None)) r
      = ?S - {(Used, a, k)} \<union> {(Free, a, k)}"
    by (rule block_set_eqI) (use al in auto)
  have "tiling (blocks (fl(k := a # fl k)) (al(a := None)) r) lo hi"
    unfolding eq by (rule tiling_refine [OF buddy_invD(1) [OF inv] used tiling_one])
  moreover have "coalesced (fl(k := a # fl k))"
    using buddy_invD(2,3) [OF inv] al
    by (intro coalesced_push [OF buddy_invD(5) [OF inv] c]) auto
  ultimately show ?thesis
    using inv notin buddy_invD(3) [OF inv al] unfolding buddy_inv_def eq by auto
qed

lemma buddy_inv_merge:
  assumes inv: "buddy_inv kmin lo hi r fl al" and al: "al a = Some k"
    and c: "companion a k \<in> set (fl k)"
  shows "buddy_inv kmin lo hi r (fl(k := remove1 (companion a k) (fl k)))
           (al(a := None, merged a k \<mapsto> Suc k))"
    and "al(a := None, merged a k := None) = al(a := None)"
proof -
  let ?S = "blocks fl al r" and ?c = "companion a k" and ?m = "merged a k"
  have used: "(Used, a, k) \<in> ?S" "(Free, ?c, k) \<in> ?S" by (simp_all add: al c)
  note ab = buddy_invD(3) [OF inv al] and cb = buddy_invD(2) [OF inv c]
  note mp = merged_pair [of k a]
  have alc: "al ?c = None" by (rule buddy_free_not_used [OF inv c])
  have m: "?m = a \<and> ?c = a + 2 ^ k \<or> a = ?m + 2 ^ k \<and> ?c = ?m" using mp ab by blast
  show same: "al(a := None, ?m := None) = al(a := None)" using m alc by (auto simp: fun_eq_iff)
  have alm: "(al(a := None)) ?m = None" using m alc by auto
  have dist: "distinct (fl k)" by (rule buddy_invD(4) [OF inv])
  have eq: "blocks (fl(k := remove1 ?c (fl k))) (al(a := None, ?m \<mapsto> Suc k)) r
      = ?S - {(Used, a, k), (Free, ?c, k)} \<union> {(Used, ?m, Suc k)}"
    by (rule block_set_eqI) (use al alm dist in auto)
  have two: "tiling {(Used, a, k), (Free, ?c, k)} ?m (?m + 2 ^ Suc k)"
    using m tiling_two [of Used ?m k Free] tiling_two [of Free ?m k Used]
    by (auto simp: insert_commute)
  have "tiling (blocks (fl(k := remove1 ?c (fl k))) (al(a := None, ?m \<mapsto> Suc k)) r) lo hi"
    unfolding eq using used m ab cb
    by (intro tiling_coarsen [OF buddy_invD(1) [OF inv] _ two]) auto
  moreover have "coalesced (fl(k := remove1 ?c (fl k)))"
    by (rule coalesced_shrink [OF buddy_invD(5) [OF inv]]) (auto dest: notin_set_remove1 [rotated] subsetD [OF set_remove1_subset])
  ultimately show "buddy_inv kmin lo hi r (fl(k := remove1 ?c (fl k)))
      (al(a := None, ?m \<mapsto> Suc k))"
    using inv mp(1) ab unfolding buddy_inv_def eq by auto
qed

section \<open>The operations keep the invariant\<close>

lemma buddy_inv_asplit:
  "buddy_inv kmin lo hi r fl (al(a \<mapsto> j)) \<Longrightarrow> kmin \<le> k \<Longrightarrow> k \<le> j \<Longrightarrow>
   buddy_inv kmin lo hi r (asplit fl a j k) (al(a \<mapsto> k))"
proof (induction fl a j k rule: asplit.induct)
  case (1 fl a k)
  then show ?case by simp
next
  case (2 fl a j k)
  show ?case
  proof (cases "j < k")
    case True
    with 2 show ?thesis by (auto simp: le_Suc_eq)
  next
    case False
    have "buddy_inv kmin lo hi r (fl(j := (a + 2 ^ j) # fl j)) (al(a \<mapsto> Suc j, a \<mapsto> j))"
      by (rule buddy_inv_split [OF "2.prems"(1)]) (use "2.prems" False in auto)
    then have "buddy_inv kmin lo hi r (fl(j := (a + 2 ^ j) # fl j)) (al(a \<mapsto> j))"
      by (simp only: fun_upd_upd)
    with "2.IH" [OF False] "2.prems" False show ?thesis by (simp del: fun_upd_apply)
  qed
qed

text \<open>The search: which list the block comes from.\<close>

lemma aget_Some:
  "aget hs fl j k = Some (a, fl') \<Longrightarrow>
   \<exists>i as. j \<le> i \<and> 2 ^ i \<le> hs \<and> fl i = a # as \<and> fl' = asplit (fl(i := as)) a i k"
proof (induction hs fl j k rule: aget.induct)
  case (1 hs fl j k)
  from "1.prems" have ge: "\<not> hs < 2 ^ j" by (auto simp: aget.simps [of hs fl j k])
  show ?case
  proof (cases "fl j")
    case Nil
    with "1.prems" ge have "aget hs fl (Suc j) k = Some (a, fl')"
      by (simp add: aget.simps [of hs fl j k])
    with "1.IH" [OF ge Nil] show ?thesis using Suc_leD by blast
  next
    case (Cons b bs)
    with "1.prems" ge have "2 ^ j \<le> hs \<and> fl j = a # bs \<and> fl' = asplit (fl(j := bs)) a j k"
      by (auto simp: aget.simps [of hs fl j k] not_less)
    then show ?thesis by blast
  qed
qed

lemma aget_None: "aget hs fl j k = None \<Longrightarrow> j \<le> i \<Longrightarrow> 2 ^ i \<le> hs \<Longrightarrow> fl i = []"
proof (induction hs fl j k rule: aget.induct)
  case (1 hs fl j k)
  have ge: "\<not> hs < 2 ^ j"
    using "1.prems"(2,3) power_increasing [of j i "2::nat"] by linarith
  with "1.prems"(1) have nil: "fl j = []"
    by (auto simp: aget.simps [of hs fl j k] split: list.splits)
  show ?case
  proof (cases "i = j")
    case False
    with "1.prems" ge nil show ?thesis
      by (intro "1.IH" [OF ge nil]) (auto simp: aget.simps [of hs fl j k])
  qed (simp add: nil)
qed

lemma buddy_inv_aget:
  assumes inv: "buddy_inv kmin lo hi r fl al" and get: "aget hs fl k k = Some (a, fl')"
    and k: "kmin \<le> k"
  shows "buddy_inv kmin lo hi r fl' (al(a \<mapsto> k))" and "al a = None"
proof -
  obtain i as where i: "k \<le> i" "fl i = a # as" "fl' = asplit (fl(i := as)) a i k"
    using aget_Some [OF get] by blast
  show "al a = None" using buddy_free_not_used [OF inv, of a i] i(2) by simp
  show "buddy_inv kmin lo hi r fl' (al(a \<mapsto> k))"
    unfolding i(3) by (rule buddy_inv_asplit [OF buddy_inv_pop [OF inv i(2)] k i(1)])
qed

lemma buddy_index_bound:
  assumes "2 ^ k \<le> (2::nat) ^ n"
  shows "k \<le> n"
  using assms by simp

lemma buddy_inv_aupdate:
  "buddy_inv kmin lo hi r fl al \<Longrightarrow> al a = Some k \<Longrightarrow> hi - lo < 2 ^ 32 \<Longrightarrow>
   buddy_inv kmin lo hi r (aupdate fl a k) (al(a := None))"
proof (induction fl a k arbitrary: al rule: aupdate.induct)
  case (1 fl a k)
  have "(2::nat) ^ k < 2 ^ 32" using buddy_invD(3) [OF "1.prems"(1,2)] "1.prems"(3) by linarith
  then have k: "k < 32" by (simp only: pow2_strict_mono)
  show ?case
  proof (cases "companion a k \<in> set (fl k)")
    case True
    let ?al = "al(a := None, merged a k \<mapsto> Suc k)"
    note m = buddy_inv_merge [OF "1.prems"(1,2) True]
    have "buddy_inv kmin lo hi r
        (aupdate (fl(k := remove1 (companion a k) (fl k))) (merged a k) (Suc k))
        (?al(merged a k := None))"
      by (rule "1.IH" [OF _ m(1) _ "1.prems"(3)]) (use k True in simp_all)
    then show ?thesis
      using True k m(2) by (subst aupdate.simps) simp
  next
    case False
    then show ?thesis
      using buddy_inv_push [OF "1.prems"(1,2) False] by (subst aupdate.simps) simp
  qed
qed

lemma buddy_inv_amalloc:
  assumes "buddy_inv kmin lo hi r fl al" "kmin \<le> k" "amalloc hs fl al k = Some (a, fl', al')"
  shows "buddy_inv kmin lo hi r fl' al'" "al a = None" "al' = al(a \<mapsto> k)"
  using assms buddy_inv_aget [OF assms(1) _ assms(2)] by (auto simp: amalloc_def)

lemma buddy_inv_afree:
  assumes "buddy_inv kmin lo hi r fl al" "hi - lo < 2 ^ 32" "afree fl al a = Some (fl', al')"
  shows "buddy_inv kmin lo hi r fl' al'" "al' = al(a := None)"
  using assms buddy_inv_aupdate [OF assms(1)] by (auto simp: afree_def)

text \<open>What clients see: allocated blocks are aligned, inside the heap and pairwise disjoint.\<close>

lemma tiling_disjoint:
  assumes "tiling S lo hi" "(t, a, k) \<in> S" "(t', b, j) \<in> S" "(t, a, k) \<noteq> (t', b, j)"
  shows "{a..<a + 2 ^ k} \<inter> {b..<b + 2 ^ j} = {}"
  using tiling_overlap [OF assms(1-3)] assms(4) unfolding brange.simps by blast

lemma buddy_used_disjoint:
  assumes "buddy_inv kmin lo hi r fl al" "al a = Some k" "al b = Some j" "a \<noteq> b"
  shows "{a..<a + 2 ^ k} \<inter> {b..<b + 2 ^ j} = {}"
  by (rule tiling_disjoint [OF buddy_invD(1) [OF assms(1)], of Used _ _ Used]) (use assms in auto)

lemma buddy_reserved_disjoint:
  assumes "buddy_inv kmin lo hi (ra, rk) fl al"
  shows "al a = Some k \<Longrightarrow> {a..<a + 2 ^ k} \<inter> {ra..<ra + 2 ^ rk} = {}"
    and "a \<in> set (fl k) \<Longrightarrow> {a..<a + 2 ^ k} \<inter> {ra..<ra + 2 ^ rk} = {}"
  by (rule tiling_disjoint [OF buddy_invD(1) [OF assms], of Used _ _ Reserved]; simp)
    (rule tiling_disjoint [OF buddy_invD(1) [OF assms], of Free _ _ Reserved]; simp)

lemma buddy_free_disjoint:
  assumes "buddy_inv kmin lo hi r fl al" "a \<in> set (fl k)"
  shows "al b = Some j \<Longrightarrow> {a..<a + 2 ^ k} \<inter> {b..<b + 2 ^ j} = {}"
    and "b \<in> set (fl j) \<Longrightarrow> a \<noteq> b \<Longrightarrow> {a..<a + 2 ^ k} \<inter> {b..<b + 2 ^ j} = {}"
  by (rule tiling_disjoint [OF buddy_invD(1) [OF assms(1)], of Free _ _ Used]; simp add: assms)
    (rule tiling_disjoint [OF buddy_invD(1) [OF assms(1)], of Free _ _ Free]; simp add: assms)

section \<open>The initial heap, and release after allocation\<close>

lemma buddy_inv_carve:
  assumes inv: "buddy_inv kmin lo hi (b, Suc i) fl al" and i: "kmin \<le> i"
  shows "buddy_inv kmin lo hi (b + 2 ^ i, i) (fl(i := b # fl i)) al"
proof -
  let ?S = "blocks fl al (b, Suc i)"
  have res: "(Reserved, b, Suc i) \<in> ?S" by simp
  have dvd: "2 ^ Suc i dvd b" using inv res unfolding buddy_inv_def by blast
  then have dvds: "2 ^ i dvd b" "2 ^ i dvd b + 2 ^ i"
    using dvd_trans [of "2 ^ i" "2 ^ Suc i" b] by simp_all
  have outside: "x \<notin> set (fl j)" if "x \<in> {b..<b + 2 ^ Suc i}" for x j
    using tiling_overlap [OF buddy_invD(1) [OF inv] res, of "(Free, x, j)" x] that by auto
  have notin: "b \<notin> set (fl i)" "b + 2 ^ i \<notin> set (fl i)" by (auto intro!: outside)
  have eq: "blocks (fl(i := b # fl i)) al (b + 2 ^ i, i)
      = ?S - {(Reserved, b, Suc i)} \<union> {(Free, b, i), (Reserved, b + 2 ^ i, i)}"
    by (rule block_set_eqI) auto
  have "tiling (blocks (fl(i := b # fl i)) al (b + 2 ^ i, i)) lo hi"
    unfolding eq by (rule tiling_refine [OF buddy_invD(1) [OF inv] res tiling_two])
  moreover have "coalesced (fl(i := b # fl i))"
    using notin companion_halves(1) [OF dvd] dvds buddy_invD(2) [OF inv]
    by (intro coalesced_push [OF buddy_invD(5) [OF inv]]) auto
  ultimately show ?thesis
    using inv i notin dvds unfolding buddy_inv_def eq by auto
qed

lemma buddy_inv_reserved:
  assumes "2 ^ k dvd b" "kmin \<le> k"
  shows "buddy_inv kmin b (b + 2 ^ k) (b, k) (\<lambda>_. []) Map.empty"
proof -
  have "blocks (\<lambda>_. []) Map.empty (b, k) = {(Reserved, b, k)}"
    by (rule block_set_eqI) auto
  then show ?thesis using assms tiling_one by (simp add: buddy_inv_def coalesced_def)
qed

text \<open>The free lists that the initialisation builds: one block of each size below the reserved one.\<close>

fun acarve :: "nat \<Rightarrow> nat \<Rightarrow> nat \<Rightarrow> free_lists \<Rightarrow> free_lists" where
  "acarve ai b 0 fl = fl"
| "acarve ai b (Suc i) fl = (if i < ai then fl else acarve ai (b + 2 ^ i) i (fl(i := b # fl i)))"

lemma buddy_inv_acarve:
  "buddy_inv kmin lo hi (b, j) fl al \<Longrightarrow> kmin \<le> ai \<Longrightarrow> ai \<le> j \<Longrightarrow>
   buddy_inv kmin lo hi (b + 2 ^ j - 2 ^ ai, ai) (acarve ai b j fl) al"
proof (induction ai b j fl rule: acarve.induct)
  case (2 ai b i fl)
  show ?case
  proof (cases "i < ai")
    case True
    with 2 show ?thesis by (auto simp: le_Suc_eq)
  next
    case False
    have "b + 2 ^ Suc i - 2 ^ ai = b + 2 ^ i + 2 ^ i - 2 ^ ai" by simp
    with 2 False buddy_inv_carve [OF "2.prems"(1)] show ?thesis by (simp del: fun_upd_apply)
  qed
qed simp

text \<open>Releasing the block just allocated gives back the free lists.\<close>

lemma aupdate_asplit:
  assumes "2 ^ i dvd a" "k \<le> i" "i < 32" "\<And>j. k \<le> j \<Longrightarrow> j < i \<Longrightarrow> fl j = []"
    "companion a i \<notin> set (fl i)"
  shows "aupdate (asplit fl a i k) a k = fl(i := a # fl i)"
proof -
  have "aupdate (asplit fl a j k) a k = aupdate fl a j" 
    if "k \<le> j" "2 ^ j dvd a" "j < 32" "\<And>j'. k \<le> j' \<Longrightarrow> j' < j \<Longrightarrow> fl j' = []" for j fl
    using that
  proof (induction j arbitrary: fl)
    case 0
    then show ?case by simp
  next
    case (Suc j)
    show ?case
    proof (cases "k = Suc j")
      case True
      then show ?thesis by simp
    next
      case False
      have d: "2 ^ j dvd a" using Suc.prems(2) dvd_trans [of "2 ^ j" "2 ^ Suc j" a] by simp
      have nil: "fl j = []" using Suc.prems False by simp
      let ?fl = "fl(j := [a + 2 ^ j])"
      have "aupdate (asplit fl a (Suc j) k) a k = aupdate (asplit ?fl a j k) a k"
        using False Suc.prems nil by simp
      also have "\<dots> = aupdate ?fl a j"
        by (rule Suc.IH) (use Suc.prems d False in simp_all)
      also have "\<dots> = aupdate (fl(j := [])) (merged a j) (Suc j)"
        using companion_halves [OF Suc.prems(2)] Suc.prems(3) by (subst aupdate.simps) simp
      also have "merged a j = a"
        using companion_halves [OF Suc.prems(2)] merged_pair(2) [OF d] by auto
      also have "fl(j := []) = fl" using nil by auto
      finally show ?thesis by simp
    qed
  qed
  from this [OF assms(2,1,3,4)] show ?thesis
    using assms(5) by (subst (asm) (2) aupdate.simps) simp
qed


lemma aget_least:
  "aget hs fl j k = Some (a, fl') \<Longrightarrow>
   \<exists>i as. j \<le> i \<and> fl i = a # as \<and> fl' = asplit (fl(i := as)) a i k \<and> (\<forall>j'. j \<le> j' \<longrightarrow> j' < i \<longrightarrow> fl j' = [])"
proof (induction hs fl j k rule: aget.induct)
  case (1 hs fl j k)
  from "1.prems" have ge: "\<not> hs < 2 ^ j" by (auto simp: aget.simps [of hs fl j k])
  show ?case
  proof (cases "fl j")
    case Nil
    with "1.prems" ge have "aget hs fl (Suc j) k = Some (a, fl')"
      by (simp add: aget.simps [of hs fl j k])
    then obtain i as where "Suc j \<le> i" "fl i = a # as" "fl' = asplit (fl(i := as)) a i k"
      "\<forall>j'. Suc j \<le> j' \<longrightarrow> j' < i \<longrightarrow> fl j' = []"
      using "1.IH" [OF ge Nil] by blast
    with Nil show ?thesis by (metis Suc_leD le_antisym not_less_eq_eq)
  next
    case (Cons b bs)
    with "1.prems" ge have "fl j = a # bs \<and> fl' = asplit (fl(j := bs)) a j k"
      by (auto simp: aget.simps [of hs fl j k])
    then show ?thesis by (intro exI [of _ j] exI [of _ bs]) (auto simp del: fun_upd_apply)
  qed
qed

lemma afree_amalloc:
  assumes inv: "buddy_inv kmin lo hi r fl al" and size: "hi - lo < 2 ^ 32"
    and mal: "amalloc hs fl al k = Some (a, fl', al')"
  shows "afree fl' al' a = Some (fl, al)"
proof -
  have get: "aget hs fl k k = Some (a, fl')" and al': "al' = al(a \<mapsto> k)"
    using mal by (auto simp: amalloc_def)
  obtain i as where i: "k \<le> i" "fl i = a # as" "fl' = asplit (fl(i := as)) a i k"
    "\<And>j. k \<le> j \<Longrightarrow> j < i \<Longrightarrow> fl j = []"
    using aget_least [OF get] by blast
  have a: "a \<in> set (fl i)" using i(2) by simp
  note ab = buddy_invD(2) [OF inv a]
  have "(2::nat) ^ i < 2 ^ 32" using ab size by linarith
  then have i32: "i < 32" by (simp only: pow2_strict_mono)
  have c: "companion a i \<notin> set as"
    using buddy_invD(5) [OF inv] a i(2) unfolding coalesced_def by fastforce
  have "aupdate fl' a k = (fl(i := as))(i := a # (fl(i := as)) i)"
    unfolding i(3) by (rule aupdate_asplit) (use i(1,4) i32 ab c in auto)
  also have "\<dots> = fl" using i(2) by (simp add: fun_eq_iff)
  finally have "aupdate fl' a k = fl" .
  moreover have "al a = None" by (rule buddy_free_not_used [OF inv a])
  ultimately show ?thesis by (simp add: afree_def al' fun_upd_idem)
qed

end
