(* ===== verification/Fat_Cache.thy ===== *)
theory Fat_Cache
  imports C_Memory
begin

text \<open>
  The caches of the FAT32 driver (\<open>giet_fat32/fat32.c\<close>). A cache is a tree whose nodes have
  64 children and whose leaves describe a 4-Kbyte cluster: its address on the device, a dirty
  flag and its buffer. The Fat-Cache holds the clusters of the FAT, a File-Cache those of one
  file. The theory has the block device, the walk that finds or loads a cluster, the write-back
  of the dirty clusters and the release of the tree. A tree of \<open>L\<close> levels is a map from cluster
  numbers below \<open>64 ^ L\<close> to descriptors; the locale \<open>cluster_map\<close> states that interface.
\<close>

section \<open>The block device\<close>

text \<open>
  The contents of the sectors, and whether the \<open>k\<close>-th access fails. A buffer is the function
  from the offsets to the bytes. \<open>_fat_ioc_access\<close> calls the driver of the board; a failed
  transfer moves nothing.
\<close>

record block_device =
  sectors :: "u32 \<Rightarrow> mem"
  faults :: "nat \<Rightarrow> bool"
  accesses :: nat

definition device_block :: "block_device \<Rightarrow> u32 \<Rightarrow> mem" where
  "device_block d lba = (\<lambda>a. sectors d (lba + a div 512) (a mod 512))"

definition fat_ioc_read :: "block_device \<Rightarrow> u32 \<Rightarrow> mem option \<times> block_device" where
  "fat_ioc_read d lba =
    (if faults d (accesses d) then None else Some (device_block d lba),
     d\<lparr>accesses := accesses d + 1\<rparr>)"

definition fat_ioc_write :: "block_device \<Rightarrow> u32 \<Rightarrow> mem \<Rightarrow> u32 \<Rightarrow> bool \<times> block_device" where
  "fat_ioc_write d lba buf count =
    (if faults d (accesses d) then (False, d\<lparr>accesses := accesses d + 1\<rparr>)
     else (True, d\<lparr>accesses := accesses d + 1,
       sectors := (\<lambda>b. if b - lba < count then (\<lambda>a. buf ((b - lba) * 512 + a)) else sectors d b)\<rparr>))"

section \<open>Descriptors and trees\<close>

record fat_cache_desc =
  desc_lba :: u32
  desc_dirty :: bool
  desc_buffer :: mem

text \<open>The \<open>void *\<close> children of a node: the null pointer, a node or a descriptor.\<close>

datatype cache_child = Null | Node "nat \<Rightarrow> cache_child" | Desc fat_cache_desc

definition get_levels_from_size :: "u32 \<Rightarrow> nat" where
  "get_levels_from_size nbytes =
    (if nbytes \<le> push_bit 18 1 then 1 else if nbytes \<le> push_bit 24 1 then 2
     else if nbytes \<le> push_bit 30 1 then 3 else 4)"

definition allocate_one_cache_node :: "cache_child \<Rightarrow> cache_child" where
  "allocate_one_cache_node first_child = Node ((\<lambda>_. Null)(0 := first_child))"

definition child_index :: "nat \<Rightarrow> u32 \<Rightarrow> nat" where
  "child_index level cluster_id = unat (drop_bit (6 * (level - 1)) cluster_id AND 0x3F)"

text \<open>
  The loop of \<open>_get_buffer_from_cache\<close>: from the root to the leaf, allocating the missing
  nodes. \<open>miss\<close> is the part that loads the cluster: it returns a descriptor, or fails. The
  result is \<open>None\<close> where the C code follows a null or mistyped pointer.
\<close>

fun cache_walk ::
    "nat \<Rightarrow> u32 \<Rightarrow> ('s \<Rightarrow> fat_cache_desc option \<times> 's) \<Rightarrow> cache_child \<Rightarrow> 's
      \<Rightarrow> (fat_cache_desc option \<times> cache_child \<times> 's) option" where
  "cache_walk (Suc 0) cluster_id miss (Node children) s =
    (let index = child_index 1 cluster_id
     in case children index of
          Null \<Rightarrow> (case miss s of
              (None, s') \<Rightarrow> Some (None, Node children, s')
            | (Some pdesc, s') \<Rightarrow> Some (Some pdesc, Node (children(index := Desc pdesc)), s'))
        | Desc pdesc \<Rightarrow> Some (Some pdesc, Node children, s)
        | Node _ \<Rightarrow> None)"
| "cache_walk (Suc (Suc l)) cluster_id miss (Node children) s =
    (let index = child_index (Suc (Suc l)) cluster_id;
         child = (if children index = Null then allocate_one_cache_node Null else children index)
     in case cache_walk (Suc l) cluster_id miss child s of
          None \<Rightarrow> None
        | Some (r, child', s') \<Rightarrow> Some (r, Node (children(index := child')), s'))"
| "cache_walk _ _ _ _ _ = None"

text \<open>A store through the descriptor pointer that the walk has returned.\<close>

fun cache_update :: "nat \<Rightarrow> u32 \<Rightarrow> (fat_cache_desc \<Rightarrow> fat_cache_desc) \<Rightarrow> cache_child \<Rightarrow> cache_child" where
  "cache_update (Suc l) cluster_id f (Node children) =
    (let index = child_index (Suc l) cluster_id
     in Node (children(index := cache_update l cluster_id f (children index))))"
| "cache_update 0 cluster_id f (Desc pdesc) = Desc (f pdesc)"
| "cache_update _ _ _ c = c"

text \<open>The map from cluster numbers to descriptors that a tree of \<open>L\<close> levels stands for.\<close>

fun cache_at :: "nat \<Rightarrow> cache_child \<Rightarrow> nat \<Rightarrow> fat_cache_desc option" where
  "cache_at (Suc l) (Node children) k = cache_at l (children (k div 64 ^ l)) (k mod 64 ^ l)"
| "cache_at 0 (Desc pdesc) k = (if k = 0 then Some pdesc else None)"
| "cache_at _ _ _ = None"

definition cache_key :: "nat \<Rightarrow> u32 \<Rightarrow> nat" where
  "cache_key levels cluster_id = unat cluster_id mod 64 ^ levels"

text \<open>A tree of \<open>L\<close> levels has its descriptors at depth \<open>L\<close> and its nodes above them.\<close>

fun cache_wf :: "nat \<Rightarrow> cache_child \<Rightarrow> bool" where
  "cache_wf (Suc l) (Node children) \<longleftrightarrow> (\<forall>i<64. children i = Null \<or> cache_wf l (children i))"
| "cache_wf 0 (Desc _) \<longleftrightarrow> True"
| "cache_wf _ _ \<longleftrightarrow> False"

section \<open>Write-back and release\<close>

text \<open>
  \<open>_update_device_from_cache\<close>: the loop over the 64 children of a node; at the last level each
  dirty cluster is written and marked clean. The boolean is true when no access has failed.
\<close>

definition write_back_desc :: "fat_cache_desc \<Rightarrow> block_device \<Rightarrow> bool \<times> fat_cache_desc \<times> block_device" where
  "write_back_desc pdesc d =
    (if desc_dirty pdesc then
       case fat_ioc_write d (desc_lba pdesc) (desc_buffer pdesc) 8 of
         (ok, d') \<Rightarrow> (ok, if ok then pdesc\<lparr>desc_dirty := False\<rparr> else pdesc, d')
     else (True, pdesc, d))"

fun update_device_from_cache ::
    "nat \<Rightarrow> cache_child \<Rightarrow> block_device \<Rightarrow> bool \<times> cache_child \<times> block_device" where
  "update_device_from_cache (Suc levels) (Node children) d =
    (case fold (\<lambda>index (ok, children, d).
       case children index of
         Null \<Rightarrow> (ok, children, d)
       | c \<Rightarrow> (case update_device_from_cache levels c d of
                (ok', c', d') \<Rightarrow> (ok \<and> ok', children(index := c'), d')))
       [0..<64] (True, children, d) of
     (ok, children', d') \<Rightarrow> (ok, Node children', d'))"
| "update_device_from_cache 0 (Desc pdesc) d =
    (case write_back_desc pdesc d of (ok, pdesc', d') \<Rightarrow> (ok, Desc pdesc', d'))"
| "update_device_from_cache _ c d = (True, c, d)"

text \<open>\<open>_release_cache_memory\<close> frees the buffers and the nodes below the root, and clears the root.\<close>

fun release_cache_memory :: "cache_child \<Rightarrow> cache_child" where
  "release_cache_memory (Node children) = Node (\<lambda>i. if i < 64 then Null else children i)"
| "release_cache_memory c = c"


section \<open>The tree is a map\<close>

lemma child_index_Suc: "child_index (Suc l) c = cache_key (Suc l) c div 64 ^ l"
proof -
  have "drop_bit (6 * l) c AND 0x3F = take_bit 6 (drop_bit (6 * l) c)"
    by (simp add: take_bit_eq_mask mask_eq_exp_minus_1)
  then have "child_index (Suc l) c = take_bit 6 (drop_bit (6 * l) (unat c))"
    by (simp add: child_index_def unsigned_take_bit_eq unat_drop_bit_eq)
  also have "\<dots> = unat c div 64 ^ l mod 64"
    by (simp add: take_bit_eq_mod drop_bit_eq_div power_mult)
  also have "\<dots> = cache_key (Suc l) c div 64 ^ l"
    using mod_mult2_eq [of "unat c" "64 ^ l" 64] by (simp add: cache_key_def mult.commute)
  finally show ?thesis .
qed

lemma child_index_bound: "child_index (Suc l) c < 64"
  by (simp add: child_index_Suc cache_key_def less_mult_imp_div_less)

lemma cache_key_Suc: "cache_key (Suc l) c mod 64 ^ l = cache_key l c"
  by (simp add: cache_key_def mod_mod_cancel)

lemma same_position:
  "k = cache_key (Suc l) c \<longleftrightarrow>
    k div 64 ^ l = child_index (Suc l) c \<and> k mod 64 ^ l = cache_key l c"
proof -
  have "k = cache_key (Suc l) c \<longleftrightarrow>
      k div 64 ^ l = cache_key (Suc l) c div 64 ^ l \<and> k mod 64 ^ l = cache_key (Suc l) c mod 64 ^ l"
    by (metis div_mult_mod_eq)
  then show ?thesis by (simp only: child_index_Suc cache_key_Suc)
qed

lemma cache_at_Null [simp]: "cache_at l Null = (\<lambda>_. None)"
  by (cases l) auto

lemma cache_at_new_node [simp]: "cache_at l (allocate_one_cache_node Null) = (\<lambda>_. None)"
  by (cases l) (auto simp: allocate_one_cache_node_def)

lemma cache_wf_not_Null [simp]: "\<not> cache_wf l Null"
  by (cases l) auto

lemma cache_wf_new_node: "cache_wf (Suc l) (allocate_one_cache_node Null)"
  by (simp add: allocate_one_cache_node_def)

lemma cache_at_upd_child:
  "cache_at (Suc l) (Node (children(child_index (Suc l) c := child))) =
    (\<lambda>k. if k div 64 ^ l = child_index (Suc l) c then cache_at l child (k mod 64 ^ l)
         else cache_at (Suc l) (Node children) k)"
  by auto

lemma cache_wf_Suc: "cache_wf (Suc l) n \<longleftrightarrow>
    (\<exists>ch. n = Node ch \<and> (\<forall>i<64. ch i = Null \<or> cache_wf l (ch i)))"
  by (cases n) auto

lemma cache_wf_0: "cache_wf 0 n \<longleftrightarrow> (\<exists>p. n = Desc p)"
  by (cases n) auto

lemma cache_walk_spec:
  assumes "cache_wf (Suc l) n"
  shows "\<exists>n' r s'. cache_walk (Suc l) c miss n s = Some (r, n', s') \<and> cache_wf (Suc l) n' \<and>
    cache_at (Suc l) n' = (cache_at (Suc l) n)(cache_key (Suc l) c := r) \<and>
    (r, s') = (case cache_at (Suc l) n (cache_key (Suc l) c) of
        None \<Rightarrow> miss s | Some p \<Rightarrow> (Some p, s))"
  using assms
proof (induction l arbitrary: n)
  case 0
  then obtain ch where n: "n = Node ch" and ch: "\<forall>i<64. ch i = Null \<or> (\<exists>p. ch i = Desc p)"
    by (auto simp: cache_wf_Suc cache_wf_0)
  let ?i = "child_index 1 c"
  have i: "?i < 64" using child_index_bound [of 0 c] by simp
  have key: "cache_key (Suc 0) c = ?i"
    using child_index_Suc [of 0 c] by simp
  from ch i consider "ch ?i = Null" | p where "ch ?i = Desc p" by auto
  then show ?case
  proof cases
    case 1
    then show ?thesis
      using ch i by (cases "miss s") (auto simp: n key cache_wf_0 fun_eq_iff split: option.split)
  next
    case 2
    then show ?thesis using ch i by (auto simp: n key cache_wf_0)
  qed
next
  case (Suc l)
  then obtain ch where n: "n = Node ch" and ch: "\<forall>i<64. ch i = Null \<or> cache_wf (Suc l) (ch i)"
    by (auto simp: cache_wf_Suc)
  let ?i = "child_index (Suc (Suc l)) c"
  let ?child = "if ch ?i = Null then allocate_one_cache_node Null else ch ?i"
  have wf: "cache_wf (Suc l) ?child"
    using ch child_index_bound [of "Suc l" c] by (auto simp: cache_wf_new_node)
  have old: "cache_at (Suc l) ?child (cache_key (Suc l) c)
      = cache_at (Suc (Suc l)) n (cache_key (Suc (Suc l)) c)"
    unfolding n by (simp only: cache_at.simps(1) child_index_Suc [symmetric] cache_key_Suc) auto
  from Suc.IH [OF wf] obtain child' r s' where
    w: "cache_walk (Suc l) c miss ?child s = Some (r, child', s')" "cache_wf (Suc l) child'"
      "cache_at (Suc l) child' = (cache_at (Suc l) ?child)(cache_key (Suc l) c := r)"
      "(r, s') = (case cache_at (Suc l) ?child (cache_key (Suc l) c) of
          None \<Rightarrow> miss s | Some p \<Rightarrow> (Some p, s))"
    by blast
  let ?n = "Node (ch(?i := child'))"
  have "cache_walk (Suc (Suc l)) c miss n s = Some (r, ?n, s')"
    by (simp add: n Let_def w(1))
  moreover have "cache_wf (Suc (Suc l)) ?n"
    using ch w(2) by (simp add: cache_wf_Suc)
  moreover have "cache_at (Suc (Suc l)) ?n = (cache_at (Suc (Suc l)) n)(cache_key (Suc (Suc l)) c := r)"
  proof
    fix k
    show "cache_at (Suc (Suc l)) ?n k = ((cache_at (Suc (Suc l)) n)(cache_key (Suc (Suc l)) c := r)) k"
      unfolding cache_at_upd_child fun_upd_apply same_position w(3) by (auto simp: n)
  qed
  ultimately show ?case using w(4) old by auto
qed

lemma cache_update_spec:
  "cache_at l (cache_update l c f n) = (\<lambda>k. if k = cache_key l c
     then map_option f (cache_at l n k) else cache_at l n k)"
  "cache_wf l n \<Longrightarrow> cache_wf l (cache_update l c f n)"
proof (induction l c f n rule: cache_update.induct)
  case (1 l c f ch)
  { case 1
    show ?case
      unfolding cache_update.simps Let_def cache_at_upd_child same_position
      by (auto simp: fun_eq_iff "1.IH"(1)) }
  { case 2
    then have "\<And>i. i < 64 \<Longrightarrow> ch i = Null \<or> cache_wf l (ch i)" by simp
    moreover have "cache_update l c f Null = Null" by (cases l) auto
    ultimately show ?case
      using "1.IH"(2) child_index_bound [of l c] by (force simp: Let_def) }
qed (auto simp: cache_key_def fun_eq_iff)


section \<open>Write-back\<close>

text \<open>
  \<open>addr k\<close> is the first sector of cluster \<open>k\<close> of a region of the device; two clusters share no
  sector. \<open>written_back\<close> says what a write-back of the clusters \<open>S\<close> does: a cluster is left as it
  was, in the cache and on the device, or it was dirty, is now clean, and its sectors hold its
  buffer; when no access failed, none is left dirty.
\<close>

definition sector_of :: "mem \<Rightarrow> u32 \<Rightarrow> mem" where
  "sector_of buf j = (\<lambda>a. buf (j * 512 + a))"

definition cluster_written :: "block_device \<Rightarrow> u32 \<Rightarrow> mem \<Rightarrow> bool" where
  "cluster_written d lba buf \<longleftrightarrow> (\<forall>j<8. sectors d (lba + j) = sector_of buf j)"

definition cluster_kept :: "block_device \<Rightarrow> block_device \<Rightarrow> u32 \<Rightarrow> bool" where
  "cluster_kept d d' lba \<longleftrightarrow> (\<forall>j<8. sectors d' (lba + j) = sectors d (lba + j))"

definition written_back_one ::
    "u32 \<Rightarrow> fat_cache_desc option \<Rightarrow> fat_cache_desc option \<Rightarrow> bool \<Rightarrow> block_device \<Rightarrow> block_device \<Rightarrow> bool" where
  "written_back_one lba p p' ok d d' \<longleftrightarrow>
    p' = p \<and> cluster_kept d d' lba \<and> (ok \<longrightarrow> (\<forall>q. p = Some q \<longrightarrow> \<not> desc_dirty q)) \<or>
    (\<exists>q. p = Some q \<and> desc_dirty q \<and> p' = Some (q\<lparr>desc_dirty := False\<rparr>) \<and>
       cluster_written d' lba (desc_buffer q))"

definition written_back ::
    "(nat \<Rightarrow> u32) \<Rightarrow> nat set \<Rightarrow> (nat \<Rightarrow> fat_cache_desc option) \<Rightarrow> (nat \<Rightarrow> fat_cache_desc option)
      \<Rightarrow> bool \<Rightarrow> block_device \<Rightarrow> block_device \<Rightarrow> bool" where
  "written_back addr S f f' ok d d' \<longleftrightarrow>
    (\<forall>k\<in>S. written_back_one (addr k) (f k) (f' k) ok d d') \<and>
    (\<forall>b. (\<forall>k\<in>S. \<forall>j<8. b \<noteq> addr k + j) \<longrightarrow> sectors d' b = sectors d b) \<and>
    faults d' = faults d \<and> accesses d \<le> accesses d'"

lemma written_back_one_ok: "written_back_one lba p p' ok d d' \<Longrightarrow> \<not> ok' \<or> ok \<Longrightarrow> written_back_one lba p p' ok' d d'"
  by (auto simp: written_back_one_def)

lemma written_back_reindex:
  assumes "written_back (\<lambda>k. addr (g k)) S f f' ok d d'" "\<And>k. k \<in> S \<Longrightarrow> h (g k) = f k"
    "\<And>k. k \<in> S \<Longrightarrow> h' (g k) = f' k"
  shows "written_back addr (g ` S) h h' ok d d'"
  using assms by (simp add: written_back_def)

locale cluster_region =
  fixes addr :: "nat \<Rightarrow> u32" and bound :: nat
  assumes apart: "k < bound \<Longrightarrow> k' < bound \<Longrightarrow> k \<noteq> k' \<Longrightarrow> i < 8 \<Longrightarrow> j < 8 \<Longrightarrow> addr k + i \<noteq> addr k' + j"
begin

lemma kept_by_others:
  assumes "written_back addr S f f' ok d d'" "S \<subseteq> {..<bound}" "k < bound" "k \<notin> S"
  shows "cluster_kept d d' (addr k)"
  unfolding cluster_kept_def
proof (intro allI impI)
  fix j :: u32 assume "j < 8"
  then have "\<forall>k'\<in>S. \<forall>i<8. addr k + j \<noteq> addr k' + i"
    using assms(2-4) apart [of k _ j] by (metis lessThan_iff subsetD)
  then show "sectors d' (addr k + j) = sectors d (addr k + j)"
    using assms(1) by (simp add: written_back_def)
qed

lemma kept_written: "cluster_kept d d' lba \<Longrightarrow> cluster_written d lba b \<Longrightarrow> cluster_written d' lba b"
  by (simp add: cluster_kept_def cluster_written_def)

lemma kept_trans: "cluster_kept d d' lba \<Longrightarrow> cluster_kept d' d'' lba \<Longrightarrow> cluster_kept d d'' lba"
  by (simp add: cluster_kept_def)

lemma written_back_trans:
  assumes 1: "written_back addr S f g ok d d'" and 2: "written_back addr T g h ok' d' d''"
    and S: "S \<subseteq> {..<bound}" and T: "T \<subseteq> {..<bound}" and disj: "S \<inter> T = {}"
    and eq: "\<And>k. k \<in> T \<Longrightarrow> g k = f k" "\<And>k. k \<in> S \<Longrightarrow> h k = g k"
  shows "written_back addr (S \<union> T) f h (ok \<and> ok') d d''"
proof -
  have S1: "written_back_one (addr k) (f k) (h k) (ok \<and> ok') d d''" if k: "k \<in> S" for k
  proof -
    have "cluster_kept d' d'' (addr k)"
      using kept_by_others [OF 2 T, of k] k S disj by auto
    moreover have "written_back_one (addr k) (f k) (h k) (ok \<and> ok') d d'"
      using 1 k eq(2) [OF k] written_back_one_ok by (auto simp: written_back_def)
    ultimately show ?thesis
      unfolding written_back_one_def using kept_written kept_trans by blast
  qed
  have T1: "written_back_one (addr k) (f k) (h k) (ok \<and> ok') d d''" if k: "k \<in> T" for k
  proof -
    have "cluster_kept d d' (addr k)"
      using kept_by_others [OF 1 S, of k] k T disj by auto
    moreover have "written_back_one (addr k) (f k) (h k) (ok \<and> ok') d' d''"
      using 2 k eq(1) [OF k] written_back_one_ok by (auto simp: written_back_def)
    ultimately show ?thesis
      unfolding written_back_one_def using kept_trans by blast
  qed
  from 1 2 S1 T1 show ?thesis by (auto simp: written_back_def)
qed

end

lemma cluster_region_shift:
  assumes "cluster_region addr bound" "off + n \<le> bound"
  shows "cluster_region (\<lambda>k. addr (off + k)) n"
proof unfold_locales
  fix k k' :: nat and i j :: u32
  assume "k < n" "k' < n" "k \<noteq> k'" "i < 8" "j < 8"
  then show "addr (off + k) + i \<noteq> addr (off + k') + j"
    using cluster_region.apart [OF assms(1), of "off + k" "off + k'" i j] assms(2) by simp
qed

lemma written_back_desc:
  assumes "write_back_desc p d = (ok, p', d')" "desc_lba p = lba"
  shows "written_back (\<lambda>_. lba) {0} (\<lambda>_. Some p) (\<lambda>_. Some p') ok d d'"
  using assms
  by (auto simp: write_back_desc_def fat_ioc_write_def written_back_def written_back_one_def
      cluster_written_def cluster_kept_def sector_of_def fun_eq_iff split: if_splits)


text \<open>The loop over the children of a node, as a function of its own.\<close>

definition update_children ::
    "nat \<Rightarrow> nat \<Rightarrow> bool \<times> (nat \<Rightarrow> cache_child) \<times> block_device \<Rightarrow> bool \<times> (nat \<Rightarrow> cache_child) \<times> block_device" where
  "update_children levels n s = fold (\<lambda>index (ok, children, d).
       case children index of
         Null \<Rightarrow> (ok, children, d)
       | c \<Rightarrow> (case update_device_from_cache levels c d of
                (ok', c', d') \<Rightarrow> (ok \<and> ok', children(index := c'), d'))) [0..<n] s"

lemma update_children_Suc:
  "update_children l (Suc n) s = (case update_children l n s of (ok, ch, d) \<Rightarrow>
     if ch n = Null then (ok, ch, d)
     else case update_device_from_cache l (ch n) d of (ok', c', d') \<Rightarrow> (ok \<and> ok', ch(n := c'), d'))"
  by (auto simp: update_children_def split: prod.splits cache_child.splits)

lemma update_device_Node:
  "update_device_from_cache (Suc l) (Node ch) d =
    (case update_children l 64 (True, ch, d) of (ok, ch', d') \<Rightarrow> (ok, Node ch', d'))"
  by (simp add: update_children_def)

definition cache_addressed :: "(nat \<Rightarrow> u32) \<Rightarrow> nat \<Rightarrow> cache_child \<Rightarrow> bool" where
  "cache_addressed addr l n \<longleftrightarrow> (\<forall>k<64 ^ l. \<forall>p. cache_at l n k = Some p \<longrightarrow> desc_lba p = addr k)"

lemma block_index_bound: "i < n \<Longrightarrow> k < (m::nat) \<Longrightarrow> i * m + k < n * m"
proof -
  assume "i < n" "k < m"
  then have "i * m + k < Suc i * m" by simp
  also have "\<dots> \<le> n * m" using \<open>i < n\<close> by (intro mult_le_mono1) simp
  finally show ?thesis .
qed

lemma blocks_image: "(\<lambda>k. n * m + k) ` {..<m} = {n * m..<Suc n * (m::nat)}"
proof
  show "{n * m..<Suc n * m} \<subseteq> (\<lambda>k. n * m + k) ` {..<m}"
  proof
    fix x assume "x \<in> {n * m..<Suc n * m}"
    then have "x = n * m + (x - n * m)" "x - n * m < m" by auto
    then show "x \<in> (\<lambda>k. n * m + k) ` {..<m}" by blast
  qed
qed auto

lemma cache_at_block: "k < 64 ^ l \<Longrightarrow> cache_at (Suc l) (Node ch) (i * 64 ^ l + k) = cache_at l (ch i) k"
  by (simp add: div_add1_eq)

lemma cache_at_block_interval:
  "k \<in> {i * 64 ^ l..<Suc i * 64 ^ l} \<Longrightarrow> cache_at (Suc l) (Node ch) k = cache_at l (ch i) (k - i * 64 ^ l)"
  using cache_at_block [of "k - i * 64 ^ l" l ch i] by auto

lemma written_back_nothing: "(\<And>k. k \<in> S \<Longrightarrow> f k = None) \<Longrightarrow> written_back addr S f f True d d"
  by (auto simp: written_back_def written_back_one_def cluster_kept_def)

lemma update_device_spec:
  assumes "cache_wf l n" "cluster_region addr (64 ^ l)" "cache_addressed addr l n"
    and "update_device_from_cache l n d = (ok, n', d')"
  shows "cache_wf l n'"
    and "written_back addr {..<64 ^ l} (cache_at l n) (cache_at l n') ok d d'"
proof -
  have "cache_wf l n' \<and> written_back addr {..<64 ^ l} (cache_at l n) (cache_at l n') ok d d'"
    using assms
  proof (induction l arbitrary: n addr d ok n' d')
    case 0
    then obtain p where n: "n = Desc p" by (auto simp: cache_wf_0)
    with 0 obtain p' where w: "write_back_desc p d = (ok, p', d')" "n' = Desc p'"
      by (auto split: prod.splits)
    from 0 have "desc_lba p = addr 0" by (simp add: cache_addressed_def n)
    from written_back_desc [OF w(1) this] show ?case
      by (simp add: n w(2) written_back_def lessThan_Suc)
  next
    case (Suc l)
    let ?m = "64 ^ l :: nat"
    note R = Suc.prems(2) and IH = Suc.IH and addressed = Suc.prems(3)
    from Suc.prems obtain ch where n: "n = Node ch" and ch: "\<And>i. i < 64 \<Longrightarrow> ch i = Null \<or> cache_wf l (ch i)"
      by (auto simp: cache_wf_Suc)
    let ?f = "cache_at (Suc l) n"
    define Inv where "Inv i s \<longleftrightarrow> (case s of (ok, c, d1) \<Rightarrow> (\<forall>j\<ge>i. c j = ch j) \<and>
        (\<forall>j<64. c j = Null \<or> cache_wf l (c j)) \<and>
        written_back addr {..<i * ?m} ?f (cache_at (Suc l) (Node c)) ok d d1)" for i s
    have "i \<le> 64 \<Longrightarrow> Inv i (update_children l i (True, ch, d))" for i
    proof (induction i)
      case 0
      show ?case using ch by (auto simp: Inv_def update_children_def n written_back_def)
    next
      case (Suc i)
      obtain oki c d1 where s: "update_children l i (True, ch, d) = (oki, c, d1)"
        by (metis prod_cases3)
      with Suc have c: "\<And>j. j \<ge> i \<Longrightarrow> c j = ch j" "\<And>j. j < 64 \<Longrightarrow> c j = Null \<or> cache_wf l (c j)"
        and wb: "written_back addr {..<i * ?m} ?f (cache_at (Suc l) (Node c)) oki d d1"
        by (auto simp: Inv_def)
      let ?T = "{i * ?m..<Suc i * ?m}"
      have le: "i * ?m \<le> Suc i * ?m" "Suc i * ?m \<le> 64 ^ Suc l"
        using Suc.prems mult_le_mono1 [of "Suc i" 64 ?m] by auto
      define a b where "a = i * ?m" and "b = Suc i * ?m"
      have sub: "{..<i * ?m} \<subseteq> {..<64 ^ Suc l}" "?T \<subseteq> {..<64 ^ Suc l}" "{..<i * ?m} \<inter> ?T = {}"
          "{..<i * ?m} \<union> ?T = {..<Suc i * ?m}"
        using le unfolding a_def [symmetric] b_def [symmetric] by auto
      have fT: "cache_at (Suc l) (Node c) k = ?f k" if "k \<in> ?T" for k
        using that c(1) [of i] by (simp only: cache_at_block_interval n)
      have other: "cache_at (Suc l) (Node (c(i := c'))) k = cache_at (Suc l) (Node c) k" if "k \<in> {..<i * ?m}" for k c'
        using less_mult_imp_div_less [of k i ?m] that by simp
      show ?case
      proof (cases "ch i = Null")
        case True
        then have "written_back addr ?T (cache_at (Suc l) (Node c)) (cache_at (Suc l) (Node c)) True d1 d1"
          by (intro written_back_nothing) (simp only: cache_at_block_interval c cache_at_Null)
        from cluster_region.written_back_trans [OF R wb this sub(1,2,3) fT] sub(4)
        have "written_back addr {..<Suc i * ?m} ?f (cache_at (Suc l) (Node c)) oki d d1" by simp
        then show ?thesis
          using True c s by (simp add: Inv_def update_children_Suc)
      next
        case False
        obtain okc c' d2 where u: "update_device_from_cache l (ch i) d1 = (okc, c', d2)"
          by (metis prod_cases3)
        have wf: "cache_wf l (ch i)" using ch [of i] False Suc.prems by auto
        have "i * ?m + ?m \<le> 64 ^ Suc l"
          using Suc.prems mult_le_mono1 [of "Suc i" 64 ?m] by simp
        note reg = cluster_region_shift [OF R this]
        have "cache_addressed (\<lambda>k. addr (i * ?m + k)) l (ch i)"
          using addressed block_index_bound [of i 64 _ ?m] Suc.prems cache_at_block [of _ l ch i]
          by (simp add: cache_addressed_def n)
        from IH [OF wf reg this u]
        have wf': "cache_wf l c'" and wbc: "written_back (\<lambda>k. addr (i * ?m + k)) {..<?m}
            (cache_at l (ch i)) (cache_at l c') okc d1 d2" by auto
        have "written_back addr ?T (cache_at (Suc l) (Node c)) (cache_at (Suc l) (Node (c(i := c')))) okc d1 d2"
          unfolding blocks_image [symmetric]
          by (rule written_back_reindex [where g = "\<lambda>k. i * ?m + k", OF wbc]) (use c(1) [of i] in \<open>simp_all only: cache_at_block lessThan_iff fun_upd_same\<close>)
        from cluster_region.written_back_trans [OF R wb this sub(1,2,3) fT other]
        have "written_back addr {..<Suc i * ?m} ?f (cache_at (Suc l) (Node (c(i := c')))) (oki \<and> okc) d d2"
          by (simp only: sub(4))
        then show ?thesis
          using False c s u wf' by (simp add: Inv_def update_children_Suc)
      qed
    qed
    from this [of 64] Suc.prems(4) show ?case
      by (auto simp: n update_device_Node Inv_def cache_wf_Suc simp del: update_device_from_cache.simps cache_at.simps
          split: prod.splits)
  qed
  then show "cache_wf l n'" "written_back addr {..<64 ^ l} (cache_at l n) (cache_at l n') ok d d'"
    by auto
qed


text \<open>The region of the FAT: cluster \<open>k\<close> is at \<open>lba + 8 * k\<close>, and 512 M clusters of 8 sectors fit in it.\<close>

interpretation fat_region: cluster_region "\<lambda>k. lba + word_of_nat (8 * k)" "2 ^ 29" for lba :: u32
proof unfold_locales
  fix k k' :: nat and i j :: u32
  assume *: "k < 2 ^ 29" "k' < 2 ^ 29" "k \<noteq> k'" "i < 8" "j < 8"
  show "lba + word_of_nat (8 * k) + i \<noteq> lba + word_of_nat (8 * k') + j"
  proof
    assume "lba + word_of_nat (8 * k) + i = lba + word_of_nat (8 * k') + j"
    then have "unat (word_of_nat (8 * k) + i :: u32) = unat (word_of_nat (8 * k') + j :: u32)"
      by (simp only: add.assoc add_left_cancel)
    moreover have "unat i < 8" "unat j < 8"
      using *(4,5) by (simp_all add: word_less_nat_alt)
    ultimately have "8 * k + unat i = 8 * k' + unat j"
      using *(1,2) by (simp add: unat_add_no_wrap unat_of_nat_small del: of_nat_mult)
    with \<open>unat i < 8\<close> \<open>unat j < 8\<close> * show False by presburger
  qed
qed

lemma cluster_region_le:
  assumes "cluster_region addr n" "m \<le> n"
  shows "cluster_region addr m"
  using cluster_region_shift [of addr n 0 m] assms by simp

lemma cache_at_raise:
  "cache_at (Suc l) (allocate_one_cache_node n) k = (if k < 64 ^ l then cache_at l n k else None)"
  by (simp add: allocate_one_cache_node_def div_eq_0_iff)

lemma cache_wf_raise: "cache_wf l n \<Longrightarrow> cache_wf (Suc l) (allocate_one_cache_node n)"
  by (simp add: allocate_one_cache_node_def)

lemma cache_at_release:
  assumes "cache_wf (Suc l) n" "k < 64 ^ Suc l"
  shows "cache_at (Suc l) (release_cache_memory n) k = None"
  using assms by (auto simp: cache_wf_Suc less_mult_imp_div_less mult.commute)

lemma cache_wf_release: "cache_wf (Suc l) n \<Longrightarrow> cache_wf (Suc l) (release_cache_memory n)"
  by (auto simp: cache_wf_Suc)

end
