(* ===== verification/Fat_Table.thy ===== *)
theory Fat_Table
  imports Fat_Cache
begin

text \<open>
  The table of the FAT32 driver (\<open>giet_fat32/fat32.c\<close>): reading and writing an entry through
  the Fat-Cache, allocating and releasing clusters, and the FS-INFO sector.
\<close>

section \<open>State and sequencing\<close>

record fat_desc =
  block_buffer :: mem
  block_buffer_lba :: u32
  fat_cache_root :: cache_child
  fat_cache_levels :: nat
  fat_lba :: u32
  fat_sectors :: u32
  data_lba :: u32
  data_sectors :: u32
  fs_info_lba :: u32
  first_free_cluster :: u32
  free_clusters_number :: u32
  device :: block_device
  fresh_bytes :: mem  \<comment> \<open>what \<open>_malloc\<close> leaves in a new buffer\<close>

record fat_inode =
  inode_parent :: u32
  inode_next :: u32
  inode_child :: u32
  inode_cache :: cache_child
  inode_levels :: nat
  inode_cluster :: u32
  inode_size :: u32
  inode_count :: u32
  inode_dentry :: "16 word"
  inode_is_dir :: bool
  inode_name :: "u8 list"

text \<open>
  An operation returns \<open>None\<close> inside when the C function returns 1, with the state it leaves;
  the outer \<open>None\<close> and the messages are those of the whole development.
\<close>

type_synonym ('a, 's) fat_op = "'s \<Rightarrow> (panic + 'a option \<times> 's) option"

definition fret :: "'a \<Rightarrow> ('a, 's) fat_op" where
  "fret a s = Some (Inr (Some a, s))"

definition ferr :: "('a, 's) fat_op" where
  "ferr s = Some (Inr (None, s))"

definition fbind :: "('a, 's) fat_op \<Rightarrow> ('a \<Rightarrow> ('b, 's) fat_op) \<Rightarrow> ('b, 's) fat_op" where
  "fbind f g s = (case f s of
      None \<Rightarrow> None
    | Some (Inl e) \<Rightarrow> Some (Inl e)
    | Some (Inr (None, s')) \<Rightarrow> Some (Inr (None, s'))
    | Some (Inr (Some a, s')) \<Rightarrow> g a s')"

lemma fbind_simps [simp]:
  "fbind (fret a) g s = g a s" "fbind ferr g s = ferr s"
  by (simp_all add: fbind_def fret_def ferr_def)

lemma fbind_step:
  "f s = Some (Inr (Some a, s')) \<Longrightarrow> fbind f g s = g a s'"
  "f s = Some (Inr (None, s')) \<Longrightarrow> fbind f g s = Some (Inr (None, s'))"
  by (simp_all add: fbind_def)

lemma fbind_Some:
  "fbind f g s = Some (Inr (Some b, t)) \<longleftrightarrow>
    (\<exists>a s'. f s = Some (Inr (Some a, s')) \<and> g a s' = Some (Inr (Some b, t)))"
  by (auto simp: fbind_def split: option.splits sum.splits)

lemma fbind_cong [fundef_cong]:
  assumes "f s = f' s'" "\<And>a t. f' s' = Some (Inr (Some a, t)) \<Longrightarrow> g a t = g' a t"
  shows "fbind f g s = fbind f' g' s'"
  using assms by (auto simp: fbind_def split: option.splits sum.splits)

lemma fbind_mono [partial_function_mono]:
  fixes g :: "('c \<Rightarrow> 'd option) \<Rightarrow> ('a \<Rightarrow> ('b, 's) fat_op)"
  assumes "\<And>a t. mono_option (\<lambda>f. g f a t)"
  shows "mono_option (\<lambda>f. fbind m (\<lambda>a t. g f a t) s)"
proof (rule monotoneI)
  fix f f' :: "'c \<Rightarrow> 'd option" assume "option.le_fun f f'"
  then have "option_ord (g f a t) (g f' a t)" for a t
    by (rule monotoneD [OF assms])
  then show "option_ord (fbind m (\<lambda>a t. g f a t) s) (fbind m (\<lambda>a t. g f' a t) s)"
    by (simp add: fbind_def flat_ord_def split: option.split sum.split)
qed

lemma unat_plus_1_less: "c < (m :: u32) \<Longrightarrow> unat (c + 1) = unat c + 1"
proof -
  assume "c < m"
  moreover have "unat m \<le> 4294967295" using unat_u32_bound [of m] by linarith
  ultimately show ?thesis by (simp add: unat_add_no_wrap word_less_nat_alt)
qed

definition FREE_CLUSTER :: u32 where "FREE_CLUSTER = 0"
definition END_OF_CHAIN_CLUSTER_MIN :: u32 where "END_OF_CHAIN_CLUSTER_MIN = 0x0FFFFFF8"
definition END_OF_CHAIN_CLUSTER_MAX :: u32 where "END_OF_CHAIN_CLUSTER_MAX = 0x0FFFFFFF"

section \<open>Entries of the table\<close>

definition load_cluster :: "u32 \<Rightarrow> block_device \<Rightarrow> fat_cache_desc option \<times> block_device" where
  "load_cluster lba d = (case fat_ioc_read d lba of
      (None, d') \<Rightarrow> (None, d')
    | (Some buf, d') \<Rightarrow> (Some \<lparr>desc_lba = lba, desc_dirty = False, desc_buffer = buf\<rparr>, d'))"

text \<open>
  \<open>_get_buffer_from_cache\<close> with a null inode. On a miss the code reads the field \<open>cluster\<close> of the null inode before it tests
  the pointer. That access is left out here, the one exception to the rule that a null access has no result: the value is
  not used on this path, and the build keeps the test (\<open>-fno-delete-null-pointer-checks\<close>).
\<close>

definition fat_cache_buffer :: "u32 \<Rightarrow> (fat_cache_desc, fat_desc) fat_op" where
  "fat_cache_buffer cluster_id s =
    (case cache_walk (fat_cache_levels s) cluster_id
        (load_cluster (fat_lba s + push_bit 3 cluster_id)) (fat_cache_root s) (device s) of
      None \<Rightarrow> None
    | Some (pdesc, root, d) \<Rightarrow> Some (Inr (pdesc, s\<lparr>fat_cache_root := root, device := d\<rparr>)))"

definition get_fat_entry :: "u32 \<Rightarrow> (u32, fat_desc) fat_op" where
  "get_fat_entry cluster =
    (let cluster_id = drop_bit 10 cluster;
         entry_id = cluster AND 0x3FF
     in fbind (fat_cache_buffer cluster_id) (\<lambda>pdesc. fret (load32 (desc_buffer pdesc) (4 * entry_id))))"

definition set_fat_entry :: "u32 \<Rightarrow> u32 \<Rightarrow> (unit, fat_desc) fat_op" where
  "set_fat_entry cluster value =
    (let cluster_id = drop_bit 10 cluster;
         entry_id = cluster AND 0x3FF
     in fbind (fat_cache_buffer cluster_id) (\<lambda>_ s. fret ()
          (s\<lparr>fat_cache_root := cache_update (fat_cache_levels s) cluster_id
              (\<lambda>pdesc. pdesc\<lparr>desc_buffer := store32 (desc_buffer pdesc) (4 * entry_id) value,
                             desc_dirty := True\<rparr>)
              (fat_cache_root s)\<rparr>)))"

definition update_fat :: "(unit, fat_desc) fat_op" where
  "update_fat s =
    (case update_device_from_cache (fat_cache_levels s) (fat_cache_root s) (device s) of
      (ok, root, d) \<Rightarrow>
        (if ok then fret () else ferr) (s\<lparr>fat_cache_root := root, device := d\<rparr>))"

section \<open>FS-INFO\<close>

definition FS_FREE_CLUSTERS :: u32 where "FS_FREE_CLUSTERS = 488"
definition FS_FREE_CLUSTER_HINT :: u32 where "FS_FREE_CLUSTER_HINT = 492"

text \<open>A transfer of one block uses the first 512 bytes of the buffer.\<close>

definition update_fs_info :: "(unit, fat_desc) fat_op" where
  "update_fs_info =
    fbind (\<lambda>s. if fs_info_lba s \<noteq> block_buffer_lba s then
             case fat_ioc_read (device s) (fs_info_lba s) of
               (None, d) \<Rightarrow> ferr (s\<lparr>device := d\<rparr>)
             | (Some buf, d) \<Rightarrow> fret () (s\<lparr>device := d,
                 block_buffer := (\<lambda>a. if a < 512 then buf a else block_buffer s a),
                 block_buffer_lba := fs_info_lba s\<rparr>)
           else fret () s)
      (\<lambda>_ s. let buf = store32 (block_buffer s) FS_FREE_CLUSTERS (free_clusters_number s);
                 buf = store32 buf FS_FREE_CLUSTER_HINT (first_free_cluster s)
             in case fat_ioc_write (device s) (fs_info_lba s) buf 1 of
                  (ok, d) \<Rightarrow> (if ok then fret () else ferr) (s\<lparr>block_buffer := buf, device := d\<rparr>))"

section \<open>Clusters\<close>

text \<open>The loop that looks for the next free cluster, then \<open>_allocate_one_cluster\<close>.\<close>

function next_free_cluster :: "u32 \<Rightarrow> u32 \<Rightarrow> (u32, fat_desc) fat_op" where
  "next_free_cluster current limit s =
    fbind (get_fat_entry (current + 1)) (\<lambda>value s.
      if value = FREE_CLUSTER then fret (current + 1) s
      else if current + 1 < limit then next_free_cluster (current + 1) limit s
      else ferr s) s"
  by pat_completeness auto
termination
proof (relation "measure (\<lambda>(c, m, _). if c < m then unat m - unat c else unat m + 1)")
  show "wf (measure (\<lambda>(c, m, _). if c < m then unat m - unat c else unat m + 1))" by simp
next
  fix c m v :: u32 and s s' :: fat_desc
  assume "c + 1 < m"
  moreover have "unat (c + 1) = (if c + 1 = 0 then 0 else unat c + 1)"
    using unatSuc [of c] by (auto simp: add.commute)
  moreover have "unat c = 4294967295" if "c + 1 = 0"
  proof -
    from that have "c = - 1" by (simp add: eq_neg_iff_add_eq_0)
    then show ?thesis by (simp add: unsigned_minus_1_eq_mask mask_eq_exp_minus_1)
  qed
  moreover have "unat m \<le> 4294967295" using unat_u32_bound [of m] by linarith
  ultimately show "((c + 1, m, s'), (c, m, s)) \<in> measure (\<lambda>(c, m, _). if c < m then unat m - unat c else unat m + 1)"
    by (auto simp: word_less_nat_alt split: if_splits)
qed


definition allocate_one_cluster :: "(u32, fat_desc) fat_op" where
  "allocate_one_cluster s =
    (let nb_free = free_clusters_number s;
         free = first_free_cluster s
     in fbind (next_free_cluster free (drop_bit 3 (data_sectors s)))
          (\<lambda>current. fbind (set_fat_entry free END_OF_CHAIN_CLUSTER_MAX)
            (\<lambda>_ s. fret free (s\<lparr>free_clusters_number := nb_free - 1, first_free_cluster := current\<rparr>))) s)"

text \<open>The loop of \<open>_clusters_release\<close>: it does not end on a chain with a cycle of unreleased entries.\<close>

partial_function (option) release_chain :: "u32 \<Rightarrow> (unit, fat_desc) fat_op" where
  "release_chain current s =
    fbind (get_fat_entry current) (\<lambda>nxt.
      fbind (set_fat_entry current FREE_CLUSTER) (\<lambda>_ s.
        let s = s\<lparr>free_clusters_number := free_clusters_number s + 1\<rparr>;
            s = (if first_free_cluster s > current then s\<lparr>first_free_cluster := current\<rparr> else s)
        in if nxt < END_OF_CHAIN_CLUSTER_MIN then release_chain nxt s else fret () s)) s"

definition clusters_release :: "u32 \<Rightarrow> (unit, fat_desc) fat_op" where
  "clusters_release cluster = fbind (release_chain cluster) (\<lambda>_. update_fat)"

section \<open>Clusters of a file\<close>

text \<open>
  \<open>_cluster_to_lba\<close>, the loop that adds levels to a File-Cache, and \<open>_allocate_one_buffer\<close>. The
  descriptor of a new cluster is dirty and its buffer is what \<open>_malloc\<close> returned.
\<close>

definition cluster_to_lba :: "fat_desc \<Rightarrow> u32 \<Rightarrow> (panic + u32)" where
  "cluster_to_lba s cluster =
    (if cluster < 2 then Inl Cluster_too_small else Inr (push_bit 3 (cluster - 2) + data_lba s))"

function add_levels :: "nat \<Rightarrow> fat_inode \<Rightarrow> fat_inode" where
  "add_levels required inode =
    (if required > inode_levels inode
     then add_levels required (inode\<lparr>inode_cache := allocate_one_cache_node (inode_cache inode),
                                     inode_levels := inode_levels inode + 1\<rparr>)
     else inode)"
  by pat_completeness auto
termination
  by (relation "measure (\<lambda>(r, i). r - inode_levels i)") auto

declare add_levels.simps [simp del]

definition allocate_one_buffer :: "fat_desc \<Rightarrow> fat_inode \<Rightarrow> u32 \<Rightarrow> u32 \<Rightarrow> (panic + fat_inode) option" where
  "allocate_one_buffer s inode cluster_id cluster =
    (let inode = add_levels (get_levels_from_size ((cluster_id + 1) * 4096)) inode;
         empty_slot = (\<lambda>_. case cluster_to_lba s cluster of
             Inl e \<Rightarrow> (None, Inl e)
           | Inr lba \<Rightarrow>
               (Some \<lparr>desc_lba = lba, desc_dirty = True, desc_buffer = fresh_bytes s\<rparr>, Inr ()))
     in case cache_walk (inode_levels inode) cluster_id empty_slot (inode_cache inode)
            (Inl Cache_slot_not_empty) of
          None \<Rightarrow> None
        | Some (_, _, Inl e) \<Rightarrow> Some (Inl e)
        | Some (_, cache, Inr _) \<Rightarrow> Some (Inr (inode\<lparr>inode_cache := cache\<rparr>)))"

text \<open>An operation on the file system, run while a function also updates an inode.\<close>

definition on_fat :: "('a, fat_desc) fat_op \<Rightarrow> ('a, fat_inode \<times> fat_desc) fat_op" where
  "on_fat f = (\<lambda>(inode, s). case f s of
      None \<Rightarrow> None | Some (Inl e) \<Rightarrow> Some (Inl e) | Some (Inr (r, s')) \<Rightarrow> Some (Inr (r, (inode, s'))))"

text \<open>
  \<open>_clusters_allocate\<close>: the last cluster of the file, the loop on the new clusters, and the
  whole function. \<open>last\<close> is \<open>None\<close> as long as the C variable has no value.
\<close>

partial_function (option) last_cluster :: "u32 \<Rightarrow> u32 option \<Rightarrow> (u32 option, fat_desc) fat_op" where
  "last_cluster current lst s =
    (if current < END_OF_CHAIN_CLUSTER_MIN
     then fbind (get_fat_entry current) (\<lambda>nxt. last_cluster nxt (Some current)) s
     else fret lst s)"

definition set_last :: "u32 option \<Rightarrow> u32 \<Rightarrow> (unit, fat_desc) fat_op" where
  "set_last lst value s = (case lst of None \<Rightarrow> None | Some l \<Rightarrow> set_fat_entry l value s)"

function allocate_loop :: "u32 \<Rightarrow> u32 \<Rightarrow> u32 option \<Rightarrow> (u32 option, fat_inode \<times> fat_desc) fat_op" where
  "allocate_loop cluster_id limit lst is =
    (if cluster_id < limit then
       fbind (on_fat allocate_one_cluster) (\<lambda>new.
         fbind (\<lambda>(inode, s). case allocate_one_buffer s inode cluster_id new of
              None \<Rightarrow> None | Some (Inl e) \<Rightarrow> Some (Inl e)
            | Some (Inr inode) \<Rightarrow>
                if cluster_id = 0 then fret () (inode\<lparr>inode_cluster := new\<rparr>, s)
                else on_fat (set_last lst new) (inode, s))
         (\<lambda>_. allocate_loop (cluster_id + 1) limit (Some new))) is
     else fret lst is)"
  by pat_completeness auto
termination
proof (relation "measure (\<lambda>(c, m, _). unat m - unat c)")
  fix c m :: u32 and l l' :: "u32 option" and s s' :: "fat_inode \<times> fat_desc"
  assume "c < m"
  then show "((c + 1, m, l', s'), (c, m, l, s)) \<in> measure (\<lambda>(c, m, _). unat m - unat c)"
    by (simp add: unat_plus_1_less) (simp add: word_less_nat_alt diff_less_mono2)
qed auto

declare next_free_cluster.simps [simp del] allocate_loop.simps [simp del]

definition clusters_allocate :: "u32 \<Rightarrow> u32 \<Rightarrow> (unit, fat_inode \<times> fat_desc) fat_op" where
  "clusters_allocate nb_current nb_required =
    (\<lambda>(inode, s). if nb_required > free_clusters_number s then ferr (inode, s)
     else fbind (if nb_current \<noteq> 0 then on_fat (last_cluster (inode_cluster inode) None) else fret None)
       (\<lambda>lst. fbind (allocate_loop nb_current (nb_current + nb_required) lst)
         (\<lambda>lst. fbind (on_fat (set_last lst END_OF_CHAIN_CLUSTER_MAX))
           (\<lambda>_. on_fat update_fat))) (inode, s))"

end
