(* ===== verification/Fat_Correct.thy ===== *)
theory Fat_Correct
  imports Fat_Table
begin

text \<open>
  Correctness of the FAT of \<open>giet_fat32/fat32.c\<close> (theory \<open>Fat_Table\<close>). \<open>fat_table s\<close> is the array
  of entries the driver works on, whether an entry is in the cache or on the device; \<open>fat_inv\<close> says
  that the cache is well formed and that its clean clusters agree with the device.
\<close>

section \<open>The table as an array\<close>

abbreviation fat_addr :: "fat_desc \<Rightarrow> nat \<Rightarrow> u32" where
  "fat_addr s k \<equiv> fat_lba s + word_of_nat (8 * k)"

abbreviation fat_at :: "fat_desc \<Rightarrow> nat \<Rightarrow> fat_cache_desc option" where
  "fat_at s \<equiv> cache_at (fat_cache_levels s) (fat_cache_root s)"

definition same_cluster :: "mem \<Rightarrow> mem \<Rightarrow> bool" where
  "same_cluster b b' \<longleftrightarrow> (\<forall>a<4096. b a = b' a)"

definition fat_cluster :: "fat_desc \<Rightarrow> nat \<Rightarrow> mem" where
  "fat_cluster s k = (case fat_at s k of
      Some p \<Rightarrow> desc_buffer p | None \<Rightarrow> device_block (device s) (fat_addr s k))"

definition entry_in :: "mem \<Rightarrow> u32 \<Rightarrow> u32" where
  "entry_in b c = load32 b (4 * (c AND 0x3FF))"

definition entry_valid :: "nat \<Rightarrow> u32 \<Rightarrow> bool" where
  "entry_valid l c \<longleftrightarrow> unat (drop_bit 10 c) < 64 ^ l"

definition fat_table :: "fat_desc \<Rightarrow> u32 \<Rightarrow> u32" where
  "fat_table s c = (if entry_valid (fat_cache_levels s) c
     then entry_in (fat_cluster s (unat (drop_bit 10 c))) c else 0)"

definition device_table :: "fat_desc \<Rightarrow> u32 \<Rightarrow> u32" where
  "device_table s c = (if entry_valid (fat_cache_levels s) c
     then entry_in (device_block (device s) (fat_addr s (unat (drop_bit 10 c)))) c else 0)"

definition fat_inv :: "fat_desc \<Rightarrow> bool" where
  "fat_inv s \<longleftrightarrow> 0 < fat_cache_levels s \<and> fat_cache_levels s \<le> 4 \<and>
    cache_wf (fat_cache_levels s) (fat_cache_root s) \<and>
    cache_addressed (fat_addr s) (fat_cache_levels s) (fat_cache_root s) \<and>
    (\<forall>k<64 ^ fat_cache_levels s. \<forall>p. fat_at s k = Some p \<longrightarrow> \<not> desc_dirty p \<longrightarrow>
       same_cluster (desc_buffer p) (device_block (device s) (fat_addr s k)))"

text \<open>The operations on the table touch the cache and the device only.\<close>

definition fat_frame :: "fat_desc \<Rightarrow> fat_desc \<Rightarrow> bool" where
  "fat_frame s s' \<longleftrightarrow> s' = s\<lparr>fat_cache_root := fat_cache_root s', device := device s'\<rparr> \<and>
    faults (device s') = faults (device s)"

lemma fat_frameD:
  assumes "fat_frame s s'"
  shows "fat_cache_levels s' = fat_cache_levels s" "fat_lba s' = fat_lba s" "data_lba s' = data_lba s"
    "data_sectors s' = data_sectors s" "first_free_cluster s' = first_free_cluster s"
    "free_clusters_number s' = free_clusters_number s" "fresh_bytes s' = fresh_bytes s"
    "faults (device s') = faults (device s)"
  using assms unfolding fat_frame_def by (cases s, cases s', simp)+

lemma fat_frame_refl [simp]: "fat_frame s s"
  by (simp add: fat_frame_def)

lemma fat_frame_trans: "fat_frame s t \<Longrightarrow> fat_frame t u \<Longrightarrow> fat_frame s u"
  unfolding fat_frame_def by (cases s; cases t; cases u) auto

lemma same_cluster_refl [simp]: "same_cluster b b"
  by (simp add: same_cluster_def)

lemma same_cluster_sym: "same_cluster b c \<Longrightarrow> same_cluster c b"
  by (simp add: same_cluster_def)

lemma same_cluster_trans: "same_cluster a b \<Longrightarrow> same_cluster b c \<Longrightarrow> same_cluster a c"
  by (simp add: same_cluster_def)

lemma entry_id: "unat (c AND 0x3FF :: u32) = unat c mod 1024"
proof -
  have "c AND 0x3FF = take_bit 10 c"
    by (simp add: take_bit_eq_mask mask_eq_exp_minus_1)
  then have "c AND 0x3FF = c mod 1024" by (simp add: take_bit_eq_mod)
  then show ?thesis by (simp add: unat_mod)
qed

lemma entry_offset:
  fixes c :: u32
  shows "unat (4 * (c AND 0x3FF)) = 4 * (unat c mod 1024)" "4 * (c AND 0x3FF) + 3 < 4096"
    "aligned4 (4 * (c AND 0x3FF))"
proof -
  show 1: "unat (4 * (c AND 0x3FF)) = 4 * (unat c mod 1024)"
    by (subst unat_mult_no_wrap) (auto simp: entry_id intro: le_less_trans [OF mod_le_divisor])
  then show "aligned4 (4 * (c AND 0x3FF))"
    by (simp add: aligned4_unat)
  have "unat (4 * (c AND 0x3FF) + 3) = 4 * (unat c mod 1024) + 3"
    by (subst unat_add_no_wrap) (auto simp: 1)
  then show "4 * (c AND 0x3FF) + 3 < 4096"
    by (simp add: word_less_nat_alt)
qed

lemma entry_in_cong: "same_cluster b b' \<Longrightarrow> entry_in b c = entry_in b' c"
proof -
  assume s: "same_cluster b b'"
  let ?a = "4 * (c AND 0x3FF)"
  have u: "unat (?a + 3) < 4096" "unat ?a + 3 < 4294967296"
    using entry_offset [of c] by (auto simp: word_less_nat_alt)
  have "?a + i < 4096" if "i \<in> {0, 1, 2, 3}" for i
    using that u by (auto simp: word_less_nat_alt unat_add_no_wrap)
  then show ?thesis
    using s unfolding entry_in_def same_cluster_def
    by (intro load32_store32_bytes) (metis add.right_neutral insertCI)+
qed

lemma entry_in_store:
  "entry_in (store32 b (4 * (c AND 0x3FF)) v) c' =
    (if c AND 0x3FF = c' AND 0x3FF then v else entry_in b c')"
proof (cases "c AND 0x3FF = c' AND 0x3FF")
  case True
  then show ?thesis by (simp add: entry_in_def load32_store32_same)
next
  case False
  then have "4 * (c AND 0x3FF) \<noteq> 4 * (c' AND 0x3FF)"
    using entry_offset(1) [of c] entry_offset(1) [of c'] entry_id [of c] entry_id [of c']
    by (auto simp: word_unat_eq_iff [of "c AND 0x3FF" "c' AND 0x3FF"])
  then show ?thesis
    using False by (simp add: entry_in_def load32_store32_other entry_offset)
qed

lemma same_entry: "c = c' \<longleftrightarrow> drop_bit 10 c = drop_bit 10 c' \<and> c AND 0x3FF = c' AND (0x3FF :: u32)"
proof -
  have "x AND 0x3FF = take_bit 10 x" for x :: u32
    by (simp add: take_bit_eq_mask mask_eq_exp_minus_1)
  then show ?thesis
    by (metis bits_ident)
qed


section \<open>Reading a cluster of the FAT\<close>

lemma device_block_sectors: "sectors d = sectors d' \<Longrightarrow> device_block d = device_block d'"
  by (intro ext) (simp add: device_block_def)

lemma fat_addr_id: "unat c < 64 ^ l \<Longrightarrow> fat_addr s (cache_key l c) = fat_lba s + push_bit 3 c"
  by (simp add: cache_key_def push_bit_eq_mult word_of_nat_eq_iff mult.commute)

definition faultless :: "fat_desc \<Rightarrow> bool" where
  "faultless s \<longleftrightarrow> (\<forall>k. \<not> faults (device s) k)"

lemma faultless_frame: "fat_frame s s' \<Longrightarrow> faultless s' \<longleftrightarrow> faultless s"
  by (simp add: faultless_def fat_frameD)

lemma fat_cache_buffer_spec:
  assumes inv: "fat_inv s" and c: "unat c < 64 ^ fat_cache_levels s"
  obtains r s' where "fat_cache_buffer c s = Some (Inr (r, s'))" "fat_inv s'" "fat_frame s s'"
    "\<And>k. k < 64 ^ fat_cache_levels s \<Longrightarrow> same_cluster (fat_cluster s' k) (fat_cluster s k)"
    "sectors (device s') = sectors (device s)"
    "\<And>p. r = Some p \<Longrightarrow> fat_at s' (unat c) = Some p"
    "faultless s \<Longrightarrow> r \<noteq> None"
proof -
  obtain l where l: "fat_cache_levels s = Suc l" and wf: "cache_wf (Suc l) (fat_cache_root s)"
    and l4: "Suc l \<le> 4"
    using inv by (cases "fat_cache_levels s") (auto simp: fat_inv_def)
  let ?lba = "fat_lba s + push_bit 3 c"
  have key: "cache_key (Suc l) c = unat c" using c by (simp add: cache_key_def l)
  obtain n r d where w: "cache_walk (Suc l) c (load_cluster ?lba) (fat_cache_root s) (device s) = Some (r, n, d)"
      "cache_wf (Suc l) n" "cache_at (Suc l) n = (cache_at (Suc l) (fat_cache_root s))(unat c := r)"
      "(r, d) = (case fat_at s (unat c) of
          None \<Rightarrow> load_cluster ?lba (device s) | Some p \<Rightarrow> (Some p, device s))"
    using cache_walk_spec [OF wf, of c "load_cluster ?lba" "device s"] unfolding key l by blast
  define t where "t = s\<lparr>fat_cache_root := n, device := d\<rparr>"
  have t: "fat_cache_levels t = Suc l" "fat_cache_root t = n" "device t = d" "fat_lba t = fat_lba s"
    by (simp_all add: t_def l)
  have dev: "sectors d = sectors (device s)" "faults d = faults (device s)"
    using w(4) by (auto simp: load_cluster_def fat_ioc_read_def split: option.splits if_splits)
  have at: "fat_at t = (fat_at s)(unat c := r)"
    by (simp add: t l w(3))
  have addr: "fat_addr s (unat c) = ?lba"
    using fat_addr_id [of c "Suc l" s] c by (simp add: key l)
  have r: "fat_at s (unat c) = None \<Longrightarrow> r = Some p \<Longrightarrow> desc_lba p = ?lba \<and> \<not> desc_dirty p \<and>
      desc_buffer p = device_block (device s) ?lba" for p
    using w(4) by (auto simp: load_cluster_def fat_ioc_read_def split: if_splits)
  have r': "fat_at s (unat c) = Some q \<Longrightarrow> r = Some q" for q
    using w(4) by simp
  have "fat_inv t"
    unfolding fat_inv_def
  proof (intro conjI)
    show "0 < fat_cache_levels t" "fat_cache_levels t \<le> 4" "cache_wf (fat_cache_levels t) (fat_cache_root t)"
      using l4 w(2) by (simp_all add: t)
    show "cache_addressed (fat_addr t) (fat_cache_levels t) (fat_cache_root t)"
      unfolding cache_addressed_def
    proof (intro allI impI)
      fix k p assume k: "k < 64 ^ fat_cache_levels t" and p: "fat_at t k = Some p"
      show "desc_lba p = fat_addr t k"
      proof (cases "k = unat c \<and> fat_at s (unat c) = None")
        case True
        then show ?thesis using p r [of p] addr by (simp add: at t(4))
      next
        case False
        then have "fat_at s k = Some p" using p r' by (auto simp: at split: if_splits)
        then show ?thesis using inv k by (simp add: fat_inv_def cache_addressed_def t l)
      qed
    qed
    show "\<forall>k<64 ^ fat_cache_levels t. \<forall>p. fat_at t k = Some p \<longrightarrow> \<not> desc_dirty p \<longrightarrow>
       same_cluster (desc_buffer p) (device_block (device t) (fat_addr t k))"
    proof (intro allI impI)
      fix k p assume k: "k < 64 ^ fat_cache_levels t" and p: "fat_at t k = Some p" "\<not> desc_dirty p"
      show "same_cluster (desc_buffer p) (device_block (device t) (fat_addr t k))"
      proof (cases "k = unat c \<and> fat_at s (unat c) = None")
        case True
        then show ?thesis using p r [of p] addr device_block_sectors [OF dev(1)] by (simp add: at t(3,4))
      next
        case False
        then have "fat_at s k = Some p" using p r' by (auto simp: at split: if_splits)
        then show ?thesis using inv k p(2) device_block_sectors [OF dev(1)] by (simp add: fat_inv_def t l)
      qed
    qed
  qed
  moreover have "same_cluster (fat_cluster t k) (fat_cluster s k)" for k
  proof (cases "k = unat c \<and> fat_at s (unat c) = None")
    case True
    then show ?thesis
      using r addr device_block_sectors [OF dev(1)] by (auto simp: fat_cluster_def at t(3,4) split: option.split)
  next
    case False
    then have "fat_at t k = fat_at s k" using r' by (auto simp: at)
    then show ?thesis
      using device_block_sectors [OF dev(1)] by (simp add: fat_cluster_def t(3,4) split: option.split)
  qed
  moreover have "faultless s \<Longrightarrow> r \<noteq> None"
    using w(4) by (auto simp: faultless_def load_cluster_def fat_ioc_read_def split: option.splits)
  moreover have "fat_cache_buffer c s = Some (Inr (r, t))"
    using w(1) by (simp add: fat_cache_buffer_def l t_def)
  moreover have "fat_frame s t" by (simp add: fat_frame_def dev t_def)
  ultimately show ?thesis
    using that [of r t] by (simp add: dev at t(3))
qed


lemma fat_table_cong:
  assumes "fat_frame s s'"
    and "\<And>k. k < 64 ^ fat_cache_levels s \<Longrightarrow> same_cluster (fat_cluster s' k) (fat_cluster s k)"
  shows "fat_table s' = fat_table s"
proof
  fix c show "fat_table s' c = fat_table s c"
    using assms(2) fat_frameD(1) [OF assms(1)]
    by (auto simp: fat_table_def entry_valid_def intro!: entry_in_cong)
qed

text \<open>What an operation that leaves the table and the device as they were guarantees.\<close>

definition fat_reads :: "fat_desc \<Rightarrow> fat_desc \<Rightarrow> bool" where
  "fat_reads s s' \<longleftrightarrow> fat_inv s' \<and> fat_frame s s' \<and> fat_table s' = fat_table s \<and>
    sectors (device s') = sectors (device s)"

lemma fat_reads_refl: "fat_inv s \<Longrightarrow> fat_reads s s"
  by (simp add: fat_reads_def)

lemma fat_reads_trans: "fat_reads s t \<Longrightarrow> fat_reads t u \<Longrightarrow> fat_reads s u"
  using fat_frame_trans [of s t u] by (simp add: fat_reads_def)

lemma get_fat_entry_spec:
  assumes "fat_inv s" "entry_valid (fat_cache_levels s) c"
  obtains r s' where "get_fat_entry c s = Some (Inr (r, s'))" "fat_reads s s'"
    "r = None \<or> r = Some (fat_table s c)" "faultless s \<Longrightarrow> r = Some (fat_table s c)"
proof -
  obtain r s' where b: "fat_cache_buffer (drop_bit 10 c) s = Some (Inr (r, s'))" "fat_inv s'" "fat_frame s s'"
    "\<And>k. k < 64 ^ fat_cache_levels s \<Longrightarrow> same_cluster (fat_cluster s' k) (fat_cluster s k)"
    "sectors (device s') = sectors (device s)"
    "\<And>p. r = Some p \<Longrightarrow> fat_at s' (unat (drop_bit 10 c)) = Some p"
    "faultless s \<Longrightarrow> r \<noteq> None"
    by (rule fat_cache_buffer_spec [OF assms(1)]) (rule assms(2) [unfolded entry_valid_def], rule that)
  have t: "fat_table s' = fat_table s" by (rule fat_table_cong [OF b(3,4)])
  have reads: "fat_reads s s'" using b(2,3,5) t by (simp add: fat_reads_def)
  show ?thesis
  proof (cases r)
    case None
    then have "get_fat_entry c s = Some (Inr (None, s'))"
      using b(1) by (simp add: get_fat_entry_def fbind_def)
    with reads b(7) None show ?thesis by (intro that [of None s']) auto
  next
    case (Some p)
    have "fat_cluster s' (unat (drop_bit 10 c)) = desc_buffer p"
      using b(6) [OF Some] by (simp add: fat_cluster_def)
    then have "entry_in (desc_buffer p) c = fat_table s' c"
      using assms(2) fat_frameD(1) [OF b(3)] by (simp add: fat_table_def)
    then have "get_fat_entry c s = Some (Inr (Some (fat_table s c), s'))"
      using b(1) Some by (simp add: get_fat_entry_def fbind_def fret_def entry_in_def t)
    with reads show ?thesis by (intro that [of "Some (fat_table s c)" s']) auto
  qed
qed

definition fat_writes :: "fat_desc \<Rightarrow> fat_desc \<Rightarrow> (u32 \<Rightarrow> u32) \<Rightarrow> bool" where
  "fat_writes s s' t \<longleftrightarrow> fat_inv s' \<and> fat_frame s s' \<and> fat_table s' = t"

lemma set_fat_entry_spec:
  assumes inv: "fat_inv s" and c: "entry_valid (fat_cache_levels s) c"
  obtains r s' where "set_fat_entry c v s = Some (Inr (r, s'))"
    "fat_writes s s' (if r = None then fat_table s else (fat_table s)(c := v))" "faultless s \<Longrightarrow> r = Some ()"
    "sectors (device s') = sectors (device s)"
proof -
  let ?k = "unat (drop_bit 10 c)"
  obtain r s1 where b: "fat_cache_buffer (drop_bit 10 c) s = Some (Inr (r, s1))" "fat_inv s1" "fat_frame s s1"
    "\<And>k. k < 64 ^ fat_cache_levels s \<Longrightarrow> same_cluster (fat_cluster s1 k) (fat_cluster s k)"
    "sectors (device s1) = sectors (device s)"
    "\<And>p. r = Some p \<Longrightarrow> fat_at s1 ?k = Some p"
    "faultless s \<Longrightarrow> r \<noteq> None"
    by (rule fat_cache_buffer_spec [OF inv]) (rule c [unfolded entry_valid_def], rule that)
  have tab: "fat_table s1 = fat_table s" by (rule fat_table_cong [OF b(3,4)])
  show ?thesis
  proof (cases r)
    case None
    then have "set_fat_entry c v s = Some (Inr (None, s1))"
      using b(1) by (simp add: set_fat_entry_def Let_def fbind_def)
    with b None tab show ?thesis by (intro that [of None s1]) (auto simp: fat_writes_def)
  next
    case (Some p)
    let ?f = "\<lambda>pdesc. pdesc\<lparr>desc_buffer := store32 (desc_buffer pdesc) (4 * (c AND 0x3FF)) v, desc_dirty := True\<rparr>"
    define t where "t = s1\<lparr>fat_cache_root := cache_update (fat_cache_levels s1) (drop_bit 10 c) ?f (fat_cache_root s1)\<rparr>"
    have lv: "fat_cache_levels s1 = fat_cache_levels s" using fat_frameD [OF b(3)] by simp
    have t: "fat_cache_levels t = fat_cache_levels s1" "device t = device s1" "fat_lba t = fat_lba s1"
      "fat_cache_root t = cache_update (fat_cache_levels s1) (drop_bit 10 c) ?f (fat_cache_root s1)"
      by (simp_all add: t_def)
    have key: "cache_key (fat_cache_levels s1) (drop_bit 10 c) = ?k"
      using c by (simp add: cache_key_def entry_valid_def lv)
    have at: "fat_at t = (\<lambda>k. if k = ?k then map_option ?f (fat_at s1 k) else fat_at s1 k)"
      by (simp only: t cache_update_spec key)
    have "fat_inv t"
      using b(2) unfolding fat_inv_def cache_addressed_def at t(1,2,3)
      by (auto simp: t(4) at [unfolded t] intro: cache_update_spec(2))
    moreover have "fat_frame s t"
      using b(3) by (rule fat_frame_trans) (simp add: fat_frame_def t_def)
    moreover have "fat_table t = (fat_table s)(c := v)"
    proof
      fix c'
      show "fat_table t c' = ((fat_table s)(c := v)) c'"
      proof (cases "drop_bit 10 c' = drop_bit 10 c")
        case True
        have "fat_cluster t ?k = store32 (fat_cluster s1 ?k) (4 * (c AND 0x3FF)) v"
          using b(6) [OF Some] by (simp add: fat_cluster_def at)
        moreover have "c' = c \<longleftrightarrow> c AND 0x3FF = c' AND 0x3FF"
          using same_entry [of c c'] True by auto
        ultimately show ?thesis
          using c True by (simp add: fat_table_def entry_valid_def t(1) lv entry_in_store tab [symmetric])
      next
        case False
        then have "fat_cluster t (unat (drop_bit 10 c')) = fat_cluster s1 (unat (drop_bit 10 c'))"
          by (simp add: fat_cluster_def at t(2,3) word_unat_eq_iff split: option.split)
        moreover have "c' \<noteq> c" using False by auto
        ultimately show ?thesis
          by (simp add: fat_table_def t(1) lv tab [symmetric])
      qed
    qed
    moreover have "set_fat_entry c v s = Some (Inr (Some (), t))"
      using b(1) Some by (simp add: set_fat_entry_def Let_def fbind_def fret_def t_def)
    ultimately show ?thesis
      using b(5) by (intro that [of "Some ()" t]) (auto simp: fat_writes_def t(2))
  qed
qed


section \<open>Write-back of the FAT\<close>

lemma update_device_faultless:
  "update_device_from_cache l n d = (ok, n', d') \<Longrightarrow> \<forall>k. \<not> faults d k \<Longrightarrow> ok \<and> faults d' = faults d"
proof (induction l arbitrary: n d ok n' d')
  case 0
  then show ?case
    by (cases n) (auto simp: write_back_desc_def fat_ioc_write_def split: if_splits)
next
  case (Suc l)
  note IH = Suc.IH and nofault = Suc.prems(2)
  show ?case
  proof (cases n)
    case (Node ch)
    have "fst (update_children l i (True, ch, d)) \<and>
        faults (snd (snd (update_children l i (True, ch, d)))) = faults d" for i
    proof (induction i)
      case 0
      show ?case by (simp add: update_children_def)
    next
      case (Suc i)
      obtain b c d1 where u: "update_children l i (True, ch, d) = (b, c, d1)" by (metis prod_cases3)
      obtain b' c' d2 where v: "update_device_from_cache l (c i) d1 = (b', c', d2)" by (metis prod_cases3)
      from Suc.IH u have "b" "faults d1 = faults d" by auto
      moreover from this nofault have "b' \<and> faults d2 = faults d1"
        by (intro IH [OF v]) simp
      ultimately show ?case by (simp add: update_children_Suc u v)
    qed
    from this [of 64] Suc.prems Node show ?thesis
      by (auto simp: update_device_Node simp del: update_device_from_cache.simps split: prod.splits)
  qed (use Suc.prems in auto)
qed

lemma block_offset:
  assumes "a < 4096"
  shows "a div 512 < (8 :: u32)" "a div 512 * 512 + a mod 512 = (a :: u32)"
  using assms div_mult_mod_eq [of a 512]
  by (simp_all add: word_less_nat_alt unat_div div_less_iff_less_mult)

lemma written_block:
  assumes "cluster_written d lba b"
  shows "same_cluster (device_block d lba) b"
  unfolding same_cluster_def
proof (intro allI impI)
  fix a :: u32 assume "a < 4096"
  with assms show "device_block d lba a = b a"
    using block_offset [of a] by (simp add: device_block_def cluster_written_def sector_of_def)
qed

lemma kept_block:
  assumes "cluster_kept d d' lba"
  shows "same_cluster (device_block d' lba) (device_block d lba)"
  using assms block_offset by (simp add: same_cluster_def device_block_def cluster_kept_def)

lemma update_fat_spec:
  assumes inv: "fat_inv s"
  obtains r s' where "update_fat s = Some (Inr (r, s'))" "fat_writes s s' (fat_table s)"
    "r = Some () \<Longrightarrow> device_table s' = fat_table s" "faultless s \<Longrightarrow> r = Some ()"
proof -
  let ?L = "fat_cache_levels s"
  obtain ok n d where u: "update_device_from_cache ?L (fat_cache_root s) (device s) = (ok, n, d)"
    by (metis prod_cases3)
  have "?L \<le> 4" using inv by (simp add: fat_inv_def)
  then have "(64::nat) ^ ?L \<le> 64 ^ 4" by (intro power_increasing) auto
  then have reg: "cluster_region (fat_addr s) (64 ^ ?L)"
    by (intro cluster_region_le [OF fat_region.cluster_region_axioms]) simp
  have wf: "cache_wf ?L (fat_cache_root s)" and ad: "cache_addressed (fat_addr s) ?L (fat_cache_root s)"
    using inv by (auto simp: fat_inv_def)
  note wb = update_device_spec [OF wf reg ad u]
  define t where "t = s\<lparr>fat_cache_root := n, device := d\<rparr>"
  have t: "fat_cache_levels t = ?L" "device t = d" "fat_lba t = fat_lba s" "fat_cache_root t = n"
    by (simp_all add: t_def)
  have at: "fat_at t = cache_at ?L n" by (simp add: t)
  have one: "fat_at t k = fat_at s k \<and> cluster_kept (device s) d (fat_addr s k) \<and>
      (ok \<longrightarrow> (\<forall>q. fat_at s k = Some q \<longrightarrow> \<not> desc_dirty q)) \<or>
    (\<exists>q. fat_at s k = Some q \<and> desc_dirty q \<and> fat_at t k = Some (q\<lparr>desc_dirty := False\<rparr>) \<and>
       cluster_written d (fat_addr s k) (desc_buffer q))" if "k < 64 ^ ?L" for k
    using wb(2) that by (simp add: at written_back_def written_back_one_def)
  have clean: "same_cluster (desc_buffer p) (device_block (device t) (fat_addr t k))"
    if k: "k < 64 ^ ?L" and p: "fat_at t k = Some p" "\<not> desc_dirty p" for k p
    using one [OF k]
  proof
    assume "fat_at t k = fat_at s k \<and> cluster_kept (device s) d (fat_addr s k) \<and>
      (ok \<longrightarrow> (\<forall>q. fat_at s k = Some q \<longrightarrow> \<not> desc_dirty q))"
    then have "same_cluster (device_block d (fat_addr s k)) (device_block (device s) (fat_addr s k))"
      and p': "fat_at s k = Some p" using kept_block p by auto
    moreover have "same_cluster (desc_buffer p) (device_block (device s) (fat_addr s k))"
      using inv k p' p(2) by (simp add: fat_inv_def)
    ultimately show ?thesis
      unfolding t(2,3) by (blast intro: same_cluster_trans same_cluster_sym)
  next
    assume "\<exists>q. fat_at s k = Some q \<and> desc_dirty q \<and> fat_at t k = Some (q\<lparr>desc_dirty := False\<rparr>) \<and>
       cluster_written d (fat_addr s k) (desc_buffer q)"
    then show ?thesis
      using p written_block same_cluster_sym by (auto simp: t(2,3))
  qed
  have inv': "fat_inv t"
    unfolding fat_inv_def cache_addressed_def
  proof (intro conjI allI impI)
    fix k p assume k: "k < 64 ^ fat_cache_levels t" and p: "fat_at t k = Some p"
    show "desc_lba p = fat_addr t k"
      using one [of k] k p ad by (auto simp: cache_addressed_def t(1,3))
  next
    fix k p assume "k < 64 ^ fat_cache_levels t" "fat_at t k = Some p" "\<not> desc_dirty p"
    then show "same_cluster (desc_buffer p) (device_block (device t) (fat_addr t k))"
      by (intro clean [of k p]) (simp_all add: t(1))
  qed (use inv wb(1) in \<open>simp_all add: t fat_inv_def\<close>)
  have fr: "fat_frame s t"
    using wb(2) by (simp add: fat_frame_def t_def written_back_def)
  have same: "same_cluster (fat_cluster t k) (fat_cluster s k)" if k: "k < 64 ^ ?L" for k
    using one [OF k] kept_block [of "device s" d "fat_addr s k"]
    by (auto simp: fat_cluster_def t(2,3) split: option.split)
  have tab: "fat_table t = fat_table s"
    by (rule fat_table_cong [OF fr same])
  have durable: "device_table t = fat_table s" if ok
  proof
    fix c
    show "device_table t c = fat_table s c"
    proof (cases "entry_valid ?L c")
      case True
      let ?k = "unat (drop_bit 10 c)"
      have "same_cluster (device_block d (fat_addr s ?k)) (fat_cluster t ?k)"
        using one [of ?k] that True clean [of ?k] written_block
        by (fastforce simp: entry_valid_def fat_cluster_def t(2,3) intro: same_cluster_sym split: option.split)
      then show ?thesis
        using True entry_in_cong by (simp add: device_table_def tab [symmetric] fat_table_def t(1,2,3))
    qed (simp add: device_table_def fat_table_def t(1))
  qed
  have "update_fat s = Some (Inr (if ok then Some () else None, t))"
    by (simp add: update_fat_def u fret_def ferr_def t_def)
  moreover have "faultless s \<Longrightarrow> ok"
    using update_device_faultless [OF u] by (simp add: faultless_def)
  ultimately show ?thesis
    using that [of "if ok then Some () else None" t] inv' fr tab durable
    by (auto simp: fat_writes_def split: if_splits)
qed

end
