(* ===== verification/Fat_Alloc.thy ===== *)
theory Fat_Alloc
  imports Fat_Correct
begin

text \<open>
  Allocation and release of clusters in the FAT of \<open>giet_fat32/fat32.c\<close>: the search of the next free
  cluster, one allocation, and the release of a chain, over the table of theory \<open>Fat_Correct\<close>.
  \<open>free_inv\<close> is the invariant of the hint and of the counter of free clusters.
\<close>

section \<open>Allocation of one cluster\<close>

text \<open>The counters are no part of the table.\<close>

lemma fat_counters [simp]:
  "fat_cluster (s\<lparr>free_clusters_number := a\<rparr>) = fat_cluster s"
  "fat_cluster (s\<lparr>first_free_cluster := b\<rparr>) = fat_cluster s"
  "fat_table (s\<lparr>free_clusters_number := a\<rparr>) = fat_table s"
  "fat_table (s\<lparr>first_free_cluster := b\<rparr>) = fat_table s"
  "fat_inv (s\<lparr>free_clusters_number := a\<rparr>) = fat_inv s"
  "fat_inv (s\<lparr>first_free_cluster := b\<rparr>) = fat_inv s"
proof -
  show c: "fat_cluster (s\<lparr>free_clusters_number := a\<rparr>) = fat_cluster s"
    "fat_cluster (s\<lparr>first_free_cluster := b\<rparr>) = fat_cluster s"
    by (auto simp: fat_cluster_def fun_eq_iff split: option.split)
  show "fat_table (s\<lparr>free_clusters_number := a\<rparr>) = fat_table s"
    "fat_table (s\<lparr>first_free_cluster := b\<rparr>) = fat_table s"
    by (auto simp: fat_table_def fun_eq_iff c)
qed (simp_all add: fat_inv_def)

abbreviation fat_limit :: "fat_desc \<Rightarrow> u32" where
  "fat_limit s \<equiv> drop_bit 3 (data_sectors s)"

definition free_set :: "fat_desc \<Rightarrow> u32 set" where
  "free_set s = {c. 2 \<le> c \<and> c \<le> fat_limit s \<and> fat_table s c = FREE_CLUSTER}"

text \<open>
  The state between two operations: the hint is the smallest free cluster, the counter counts the
  free clusters up to the limit of the search, and the tree covers that limit, which is below
  the marks of the end of a chain.
\<close>

definition free_inv :: "fat_desc \<Rightarrow> bool" where
  "free_inv s \<longleftrightarrow> fat_inv s \<and> fat_limit s < END_OF_CHAIN_CLUSTER_MIN \<and>
    (\<forall>c\<le>fat_limit s. entry_valid (fat_cache_levels s) c) \<and>
    first_free_cluster s \<in> free_set s \<and> (\<forall>c\<in>free_set s. first_free_cluster s \<le> c) \<and>
    unat (free_clusters_number s) = card (free_set s)"

text \<open>The operations on clusters change the cache, the device and the two counters.\<close>

definition fat_moves :: "fat_desc \<Rightarrow> fat_desc \<Rightarrow> bool" where
  "fat_moves s s' \<longleftrightarrow> fat_frame (s\<lparr>free_clusters_number := free_clusters_number s',
     first_free_cluster := first_free_cluster s'\<rparr>) s'"

lemma fat_frame_moves: "fat_frame s s' \<Longrightarrow> fat_moves s (s'\<lparr>free_clusters_number := a, first_free_cluster := b\<rparr>)"
  unfolding fat_moves_def fat_frame_def by (cases s, cases s') simp

lemma fat_moves_refl [simp]: "fat_moves s s"
  by (simp add: fat_moves_def)

lemma fat_moves_trans: "fat_moves s t \<Longrightarrow> fat_moves t u \<Longrightarrow> fat_moves s u"
  unfolding fat_moves_def fat_frame_def by (cases s, cases t, cases u) simp

lemma fat_movesD:
  assumes "fat_moves s s'"
  shows "fat_cache_levels s' = fat_cache_levels s" "fat_lba s' = fat_lba s" "data_lba s' = data_lba s"
    "fat_limit s' = fat_limit s" "fresh_bytes s' = fresh_bytes s" "faultless s' = faultless s"
  using fat_frameD [OF assms [unfolded fat_moves_def]] by (simp_all add: faultless_def)

lemma fat_frame_is_moves: "fat_frame s s' \<Longrightarrow> fat_moves s s'"
  using fat_frame_moves [of s s' "first_free_cluster s'" "free_clusters_number s'"] by simp

lemma next_free_cluster_spec:
  assumes "fat_inv s" "faultless s" "current < limit"
    and "\<And>c. c \<le> limit \<Longrightarrow> entry_valid (fat_cache_levels s) c"
  shows "\<exists>r s'. next_free_cluster current limit s = Some (Inr (r, s')) \<and> fat_reads s s' \<and>
    (case r of
       Some n \<Rightarrow> current < n \<and> n \<le> limit \<and> fat_table s n = FREE_CLUSTER \<and>
         (\<forall>c. current < c \<longrightarrow> c < n \<longrightarrow> fat_table s c \<noteq> FREE_CLUSTER)
     | None \<Rightarrow> \<forall>c. current < c \<longrightarrow> c \<le> limit \<longrightarrow> fat_table s c \<noteq> FREE_CLUSTER)"
  using assms
proof (induction "unat limit - unat current" arbitrary: current s rule: less_induct)
  case less
  have u: "unat (current + 1) = unat current + 1"
    by (rule unat_plus_1_less [OF less.prems(3)])
  have lt: "current < current + 1" "current + 1 \<le> limit"
    using less.prems(3) by (simp_all add: word_less_nat_alt word_le_nat_alt u)
  have between: "current < c \<longleftrightarrow> c = current + 1 \<or> current + 1 < c" for c
    by (auto simp: word_less_nat_alt u word_unat_eq_iff)
  obtain r s1 where g: "get_fat_entry (current + 1) s = Some (Inr (r, s1))" "fat_reads s s1"
      "r = Some (fat_table s (current + 1))"
    by (rule get_fat_entry_spec [OF less.prems(1) less.prems(4) [OF lt(2)]]) (use less.prems(2) in blast)
  have eq: "next_free_cluster current limit s =
      (if fat_table s (current + 1) = FREE_CLUSTER then fret (current + 1) s1
       else if current + 1 < limit then next_free_cluster (current + 1) limit s1 else ferr s1)"
    by (subst next_free_cluster.simps) (simp add: fbind_def g(1,3))
  show ?case
  proof (cases "fat_table s (current + 1) = FREE_CLUSTER")
    case True
    then show ?thesis
      using g(2) lt by (auto simp: eq fret_def between dest: less_asym)
  next
    case busy: False
    show ?thesis
    proof (cases "current + 1 < limit")
      case False
      then have l: "limit = current + 1" using lt by auto
      from busy False have "next_free_cluster current limit s = Some (Inr (None, s1))"
        by (simp add: eq ferr_def)
      then show ?thesis
        using busy g(2) by (intro exI [of _ None] exI [of _ s1]) (auto simp: l between dest: leD)
    next
      case True
      have s1: "fat_inv s1" "fat_frame s s1" "fat_table s1 = fat_table s"
        using g(2) by (auto simp: fat_reads_def)
      have "\<exists>r s'. next_free_cluster (current + 1) limit s1 = Some (Inr (r, s')) \<and> fat_reads s1 s' \<and>
        (case r of
           Some n \<Rightarrow> current + 1 < n \<and> n \<le> limit \<and> fat_table s1 n = FREE_CLUSTER \<and>
             (\<forall>c. current + 1 < c \<longrightarrow> c < n \<longrightarrow> fat_table s1 c \<noteq> FREE_CLUSTER)
         | None \<Rightarrow> \<forall>c. current + 1 < c \<longrightarrow> c \<le> limit \<longrightarrow> fat_table s1 c \<noteq> FREE_CLUSTER)"
        by (rule less.hyps)
          (use True less.prems s1 in \<open>auto simp: u word_less_nat_alt fat_frameD faultless_frame\<close>)
      then obtain r s' where "next_free_cluster (current + 1) limit s1 = Some (Inr (r, s'))" "fat_reads s1 s'"
        "case r of
           Some n \<Rightarrow> current + 1 < n \<and> n \<le> limit \<and> fat_table s n = FREE_CLUSTER \<and>
             (\<forall>c. current + 1 < c \<longrightarrow> c < n \<longrightarrow> fat_table s c \<noteq> FREE_CLUSTER)
         | None \<Rightarrow> \<forall>c. current + 1 < c \<longrightarrow> c \<le> limit \<longrightarrow> fat_table s c \<noteq> FREE_CLUSTER"
        unfolding s1(3) by blast
      then show ?thesis
        using busy True fat_reads_trans [OF g(2)] lt by (auto simp: eq between split: option.splits)
    qed
  qed
qed

lemma free_set_finite [simp]: "finite (free_set s)"
  by simp

lemma free_set_above:
  assumes "free_inv s" "free_set s \<noteq> {first_free_cluster s}"
  obtains c where "first_free_cluster s < c" "c \<le> fat_limit s" "fat_table s c = FREE_CLUSTER"
proof -
  from assms obtain c where "c \<in> free_set s" "c \<noteq> first_free_cluster s" "first_free_cluster s \<le> c"
    unfolding free_inv_def by blast
  then show ?thesis
    using that [of c] by (simp add: free_set_def)
qed

lemma allocate_one_cluster_last:
  assumes inv: "free_inv s" and nf: "faultless s" and one: "free_set s = {first_free_cluster s}"
    and "first_free_cluster s < fat_limit s"
  shows "\<exists>s'. allocate_one_cluster s = Some (Inr (None, s')) \<and> fat_reads s s'"
proof -
  let ?f = "first_free_cluster s"
  have f2: "2 \<le> ?f" using one by (auto simp: free_set_def)
  obtain r s' where n: "next_free_cluster ?f (fat_limit s) s = Some (Inr (r, s'))" "fat_reads s s'"
    "case r of Some n \<Rightarrow> ?f < n \<and> n \<le> fat_limit s \<and> fat_table s n = FREE_CLUSTER | None \<Rightarrow> True"
    using next_free_cluster_spec [of s ?f "fat_limit s"] inv nf assms(4)
    by (fastforce simp: free_inv_def split: option.splits)
  have "r = None"
  proof (rule ccontr)
    assume "r \<noteq> None"
    with n(3) f2 obtain c where "?f < c" "c \<in> free_set s" by (auto simp: free_set_def)
    with one show False by simp
  qed
  with n show ?thesis by (simp add: allocate_one_cluster_def Let_def fbind_def)
qed

lemma allocate_one_cluster_spec:
  assumes inv: "free_inv s" and nf: "faultless s" and more: "free_set s \<noteq> {first_free_cluster s}"
  obtains s' where "allocate_one_cluster s = Some (Inr (Some (first_free_cluster s), s'))" "free_inv s'"
      "fat_table s' = (fat_table s)(first_free_cluster s := END_OF_CHAIN_CLUSTER_MAX)"
      "free_set s' = free_set s - {first_free_cluster s}"
      "fat_moves s s'"
proof -
  let ?f = "first_free_cluster s"
  have fi: "fat_inv s" and valid: "\<And>c. c \<le> fat_limit s \<Longrightarrow> entry_valid (fat_cache_levels s) c"
    and f: "?f \<in> free_set s" "\<And>c. c \<in> free_set s \<Longrightarrow> ?f \<le> c"
    and cnt: "unat (free_clusters_number s) = card (free_set s)"
    using inv by (auto simp: free_inv_def)
  obtain c where c: "?f < c" "c \<le> fat_limit s" "fat_table s c = FREE_CLUSTER"
    by (rule free_set_above [OF inv more])
  then have "?f < fat_limit s" by simp
  from next_free_cluster_spec [OF fi nf this valid] c obtain n s1 where
    n: "next_free_cluster ?f (fat_limit s) s = Some (Inr (Some n, s1))" "fat_reads s s1"
      "?f < n" "n \<le> fat_limit s" "fat_table s n = FREE_CLUSTER"
      "\<And>c. ?f < c \<Longrightarrow> c < n \<Longrightarrow> fat_table s c \<noteq> FREE_CLUSTER"
    by (fastforce split: option.splits)
  have s1: "fat_inv s1" "fat_frame s s1" "fat_table s1 = fat_table s"
    using n(2) by (auto simp: fat_reads_def)
  note frame = fat_frameD [OF s1(2)]
  have fv: "?f \<le> fat_limit s" using c by simp
  then have "entry_valid (fat_cache_levels s1) ?f" using valid frame(1) by simp
  then obtain r s2 where w: "set_fat_entry ?f END_OF_CHAIN_CLUSTER_MAX s1 = Some (Inr (r, s2))"
    "fat_writes s1 s2 (if r = None then fat_table s1 else (fat_table s1)(?f := END_OF_CHAIN_CLUSTER_MAX))"
    "r = Some ()"
    by (rule set_fat_entry_spec [OF s1(1), where v = END_OF_CHAIN_CLUSTER_MAX])
      (use nf faultless_frame [OF s1(2)] in blast)
  have s2: "fat_inv s2" "fat_frame s s2" "fat_table s2 = (fat_table s)(?f := END_OF_CHAIN_CLUSTER_MAX)"
    using w(2,3) s1 fat_frame_trans by (auto simp: fat_writes_def)
  define t where "t = s2\<lparr>free_clusters_number := free_clusters_number s - 1, first_free_cluster := n\<rparr>"
  have "allocate_one_cluster s = Some (Inr (Some ?f, t))"
    using n(1) w(1,3) by (simp add: allocate_one_cluster_def Let_def fbind_def fret_def t_def)
  moreover have inv2: "fat_inv t" and tab: "fat_table t = (fat_table s)(?f := END_OF_CHAIN_CLUSTER_MAX)"
    using s2 by (simp_all add: t_def)
  moreover have "fat_moves s t"
    using fat_frame_moves [OF s2(2)] by (simp add: t_def)
  moreover have lv: "fat_limit t = fat_limit s" "fat_cache_levels t = fat_cache_levels s"
    using fat_frameD [OF s2(2)] by (simp_all add: t_def)
  moreover have fs: "free_set t = free_set s - {?f}"
    by (auto simp: free_set_def tab lv END_OF_CHAIN_CLUSTER_MAX_def FREE_CLUSTER_def)
  moreover have "free_inv t"
    unfolding free_inv_def
  proof (intro conjI ballI allI impI)
    have "2 \<le> ?f" using f(1) by (simp add: free_set_def)
    then have n': "n \<in> free_set s" using n(3-5) by (auto simp: free_set_def)
    then show "first_free_cluster t \<in> free_set t" using n(3) by (simp add: fs) (simp add: t_def)
    fix c assume "c \<in> free_set t"
    then have "c \<in> free_set s" "?f < c" using f(2) [of c] by (auto simp: fs)
    then show "first_free_cluster t \<le> c"
      using n(6) [of c] by (auto simp: t_def free_set_def not_less [symmetric])
  next
    have "0 < card (free_set s)" using f(1) by (auto simp: card_gt_0_iff)
    then have "1 \<le> free_clusters_number s" using cnt by (simp add: word_le_nat_alt)
    then have "unat (free_clusters_number s - 1) = card (free_set s) - 1"
      by (simp add: unat_sub_no_wrap cnt)
    then show "unat (free_clusters_number t) = card (free_set t)"
      using f(1) by (simp add: fs) (simp add: t_def)
  qed (use inv inv2 valid lv in \<open>auto simp: free_inv_def\<close>)
  ultimately show ?thesis using that [of t] by simp
qed


section \<open>Chains\<close>

text \<open>\<open>fat_chain t c cs\<close>: the clusters of a file that starts at \<open>c\<close> are \<open>cs\<close>.\<close>

fun fat_chain :: "(u32 \<Rightarrow> u32) \<Rightarrow> u32 \<Rightarrow> u32 list \<Rightarrow> bool" where
  "fat_chain t c [] \<longleftrightarrow> False"
| "fat_chain t c [x] \<longleftrightarrow> c = x \<and> END_OF_CHAIN_CLUSTER_MIN \<le> t x"
| "fat_chain t c (x # xs) \<longleftrightarrow> c = x \<and> t x < END_OF_CHAIN_CLUSTER_MIN \<and> fat_chain t (t x) xs"

lemma fat_chain_Cons:
  "fat_chain t c (x # xs) \<longleftrightarrow> c = x \<and> (if xs = [] then END_OF_CHAIN_CLUSTER_MIN \<le> t x
     else t x < END_OF_CHAIN_CLUSTER_MIN \<and> fat_chain t (t x) xs)"
  by (cases xs) auto

lemma fat_chain_cong:
  "fat_chain t c cs \<Longrightarrow> (\<And>x. x \<in> set cs \<Longrightarrow> t' x = t x) \<Longrightarrow> fat_chain t' c cs"
  by (induction cs arbitrary: c) (auto simp: fat_chain_Cons split: if_splits)

section \<open>Release of a chain\<close>

lemma release_chain_spec:
  assumes "fat_inv s" "faultless s" "fat_chain (fat_table s) c cs" "distinct cs"
    and "\<And>x. x \<in> set cs \<Longrightarrow> entry_valid (fat_cache_levels s) x"
  shows "\<exists>s'. release_chain c s = Some (Inr (Some (), s')) \<and> fat_inv s' \<and> fat_moves s s' \<and>
    fat_table s' = (\<lambda>x. if x \<in> set cs then FREE_CLUSTER else fat_table s x) \<and>
    free_clusters_number s' = free_clusters_number s + word_of_nat (length cs) \<and>
    first_free_cluster s' = fold min cs (first_free_cluster s)"
  using assms
proof (induction cs arbitrary: c s)
  case (Cons x xs)
  let ?next = "fat_table s x"
  have c: "c = x" and tail: "if xs = [] then END_OF_CHAIN_CLUSTER_MIN \<le> ?next
      else ?next < END_OF_CHAIN_CLUSTER_MIN \<and> fat_chain (fat_table s) ?next xs"
    using Cons.prems(3) by (auto simp: fat_chain_Cons)
  obtain r s1 where g: "get_fat_entry x s = Some (Inr (r, s1))" "fat_reads s s1" "r = Some ?next"
    by (rule get_fat_entry_spec [OF Cons.prems(1) Cons.prems(5)]) (use Cons.prems(2) in auto)
  have s1: "fat_inv s1" "fat_frame s s1" "fat_table s1 = fat_table s"
    using g(2) by (auto simp: fat_reads_def)
  have "entry_valid (fat_cache_levels s1) x" using Cons.prems(5) fat_frameD(1) [OF s1(2)] by simp
  then obtain r' s2 where w: "set_fat_entry x FREE_CLUSTER s1 = Some (Inr (r', s2))"
    "fat_writes s1 s2 (if r' = None then fat_table s1 else (fat_table s1)(x := FREE_CLUSTER))" "r' = Some ()"
    by (rule set_fat_entry_spec [OF s1(1), where v = FREE_CLUSTER])
      (use Cons.prems(2) faultless_frame [OF s1(2)] in blast)
  have s2: "fat_inv s2" "fat_frame s s2" "fat_table s2 = (fat_table s)(x := FREE_CLUSTER)"
    using w(2,3) s1 fat_frame_trans by (auto simp: fat_writes_def)
  define t where "t = s2\<lparr>free_clusters_number := free_clusters_number s + 1,
      first_free_cluster := min x (first_free_cluster s)\<rparr>"
  have t: "fat_inv t" "fat_moves s t" "fat_table t = (fat_table s)(x := FREE_CLUSTER)"
    using s2 fat_frame_moves [OF s2(2)] by (simp_all add: t_def)
  have "release_chain c s = (if ?next < END_OF_CHAIN_CLUSTER_MIN then release_chain ?next t else fret () t)"
  proof -
    have "(let s = s2\<lparr>free_clusters_number := free_clusters_number s2 + 1\<rparr> in
        if first_free_cluster s > x then s\<lparr>first_free_cluster := x\<rparr> else s) = t"
      using fat_frameD [OF s2(2)] by (cases s2) (auto simp: t_def min_def Let_def)
    then show ?thesis
      by (subst release_chain.simps) (simp add: fbind_def g(1,3) w(1,3) c Let_def, auto split: if_splits)
  qed
  note step = this
  show ?case
  proof (cases "xs = []")
    case True
    then show ?thesis
      using tail t by (auto simp: step fret_def not_less [symmetric] fun_eq_iff) (auto simp: t_def)
  next
    case False
    with tail have n: "?next < END_OF_CHAIN_CLUSTER_MIN" "fat_chain (fat_table s) ?next xs" by auto
    have "\<exists>s'. release_chain ?next t = Some (Inr (Some (), s')) \<and> fat_inv s' \<and> fat_moves t s' \<and>
      fat_table s' = (\<lambda>y. if y \<in> set xs then FREE_CLUSTER else fat_table t y) \<and>
      free_clusters_number s' = free_clusters_number t + word_of_nat (length xs) \<and>
      first_free_cluster s' = fold min xs (first_free_cluster t)"
    proof (rule Cons.IH)
      show "fat_chain (fat_table t) ?next xs"
        using Cons.prems(4) by (intro fat_chain_cong [OF n(2)]) (auto simp: t(3))
      show "entry_valid (fat_cache_levels t) y" if "y \<in> set xs" for y
        using that Cons.prems(5) fat_movesD(1) [OF t(2)] by simp
    qed (use t Cons.prems fat_movesD [OF t(2)] in auto)
    then obtain s' where s': "release_chain ?next t = Some (Inr (Some (), s'))" "fat_inv s'" "fat_moves t s'"
      "fat_table s' = (\<lambda>y. if y \<in> set xs then FREE_CLUSTER else fat_table t y)"
      "free_clusters_number s' = free_clusters_number t + word_of_nat (length xs)"
      "first_free_cluster s' = fold min xs (first_free_cluster t)" by blast
    moreover have "fat_moves s s'" by (rule fat_moves_trans [OF t(2) s'(3)])
    moreover have "fat_table s' = (\<lambda>y. if y \<in> set (x # xs) then FREE_CLUSTER else fat_table s y)"
      by (auto simp: s'(4) t(3))
    ultimately show ?thesis
      using n(1) by (intro exI [of _ s']) (simp add: step t_def)
  qed
qed simp


lemma fold_min:
  fixes f :: "'a::linorder"
  shows "fold min xs f \<in> insert f (set xs)" "\<forall>x \<in> insert f (set xs). fold min xs f \<le> x"
proof -
  have "fold min xs f = Min (set (f # xs))"
    by (subst Min.set_eq_fold) simp
  then show "fold min xs f \<in> insert f (set xs)" "\<forall>x \<in> insert f (set xs). fold min xs f \<le> x"
    using Min_in [of "set (f # xs)"] by auto
qed

lemma fat_chain_busy:
  assumes "fat_chain t c cs" "\<And>x. x \<in> set cs \<Longrightarrow> 2 \<le> x" "x \<in> set cs"
  shows "t x \<noteq> FREE_CLUSTER"
  using assms
proof (induction cs arbitrary: c)
  case (Cons y ys)
  have "t y \<noteq> FREE_CLUSTER"
  proof (cases ys)
    case Nil
    with Cons.prems(1) show ?thesis
      by (auto simp: FREE_CLUSTER_def END_OF_CHAIN_CLUSTER_MIN_def)
  next
    case (Cons z zs)
    with Cons.prems(1) have "t y = z" by (auto simp: fat_chain_Cons split: if_splits)
    moreover have "2 \<le> z" using Cons Cons.prems(2) by simp
    ultimately show ?thesis by (auto simp: FREE_CLUSTER_def)
  qed
  with Cons show ?case by (auto simp: fat_chain_Cons split: if_splits)
qed simp

lemma card_clusters: "A \<subseteq> {2 :: u32..} \<Longrightarrow> card A < 4294967296"
proof -
  assume "A \<subseteq> {2 :: u32..}"
  moreover have "0 \<notin> {2 :: u32..}" by simp
  ultimately have "A \<subset> UNIV" by blast
  then have "card A < card (UNIV :: u32 set)" by (intro psubset_card_mono) auto
  then show ?thesis by (simp add: card_word)
qed

text \<open>The clusters of the DATA region that the search of free clusters covers.\<close>

abbreviation data_clusters :: "fat_desc \<Rightarrow> u32 set" where
  "data_clusters s \<equiv> {2..fat_limit s}"

lemma free_inv_release:
  assumes inv: "free_inv s" and chain: "fat_chain (fat_table s) c cs" and d: "distinct cs"
    and cs: "set cs \<subseteq> data_clusters s"
    and s': "fat_inv s'" "fat_moves s s'"
      "fat_table s' = (\<lambda>x. if x \<in> set cs then FREE_CLUSTER else fat_table s x)"
      "free_clusters_number s' = free_clusters_number s + word_of_nat (length cs)"
      "first_free_cluster s' = fold min cs (first_free_cluster s)"
  shows "free_set s' = free_set s \<union> set cs" "free_inv s'"
proof -
  note mv = fat_movesD [OF s'(2)]
  show fs: "free_set s' = free_set s \<union> set cs"
    using cs by (auto simp: free_set_def s'(3) mv)
  have "fat_table s x \<noteq> FREE_CLUSTER" if "x \<in> set cs" for x
    using that cs by (intro fat_chain_busy [OF chain]) auto
  then have disj: "free_set s \<inter> set cs = {}"
    by (auto simp: free_set_def)
  have "free_set s \<union> set cs \<subseteq> {2..}" using cs by (auto simp: free_set_def)
  from card_clusters [OF this] have c: "card (free_set s) + length cs < 4294967296"
    by (simp add: card_Un_disjoint [OF _ _ disj] distinct_card [OF d])
  have "unat (free_clusters_number s') = card (free_set s')"
    using inv c by (simp add: s'(4) fs free_inv_def card_Un_disjoint [OF _ _ disj] distinct_card [OF d]
        unat_add_no_wrap unat_of_nat_small)
  moreover note m = fold_min [where xs = cs and f = "first_free_cluster s"]
  have f: "first_free_cluster s \<in> free_set s" "\<And>x. x \<in> free_set s \<Longrightarrow> first_free_cluster s \<le> x"
    using inv by (auto simp: free_inv_def)
  have "first_free_cluster s' \<in> free_set s'"
    using m(1) f(1) by (auto simp: s'(5) fs)
  moreover have "first_free_cluster s' \<le> x" if "x \<in> free_set s'" for x
    using that m(2) order_trans [OF _ f(2) [of x]] by (auto simp: s'(5) fs)
  ultimately show "free_inv s'"
    using inv s'(1) mv by (auto simp: free_inv_def)
qed

lemma update_fat_faultless:
  assumes "fat_inv s" "faultless s"
  obtains s' where "update_fat s = Some (Inr (Some (), s'))" "fat_inv s'" "fat_frame s s'"
    "fat_table s' = fat_table s" "device_table s' = fat_table s"
  using update_fat_spec [OF assms(1)] assms(2) unfolding fat_writes_def by metis

lemma free_inv_frame:
  assumes "free_inv s" "fat_inv s'" "fat_frame s s'" "fat_table s' = fat_table s"
  shows "free_inv s'" "free_set s' = free_set s"
proof -
  note f = fat_frameD [OF assms(3)]
  show "free_set s' = free_set s" by (simp add: free_set_def f assms(4))
  then show "free_inv s'" using assms(1,2) by (simp add: free_inv_def f)
qed

lemma clusters_release_spec:
  assumes inv: "free_inv s" and nf: "faultless s" and chain: "fat_chain (fat_table s) c cs"
    and d: "distinct cs" and cs: "set cs \<subseteq> data_clusters s"
  obtains s' where "clusters_release c s = Some (Inr (Some (), s'))" "free_inv s'" "fat_moves s s'"
    "free_set s' = free_set s \<union> set cs"
    "fat_table s' = (\<lambda>x. if x \<in> set cs then FREE_CLUSTER else fat_table s x)"
    "device_table s' = fat_table s'"
proof -
  have "fat_inv s" and valid: "\<And>x. x \<in> set cs \<Longrightarrow> entry_valid (fat_cache_levels s) x"
    using inv cs by (auto simp: free_inv_def)
  from release_chain_spec [OF this(1) nf chain d valid] obtain s1 where
    s1: "release_chain c s = Some (Inr (Some (), s1))" "fat_inv s1" "fat_moves s s1"
    "fat_table s1 = (\<lambda>x. if x \<in> set cs then FREE_CLUSTER else fat_table s x)"
    "free_clusters_number s1 = free_clusters_number s + word_of_nat (length cs)"
    "first_free_cluster s1 = fold min cs (first_free_cluster s)" by blast
  have "faultless s1" using nf fat_movesD [OF s1(3)] by simp
  then obtain s' where s': "update_fat s1 = Some (Inr (Some (), s'))" "fat_inv s'" "fat_frame s1 s'"
    "fat_table s' = fat_table s1" "device_table s' = fat_table s1"
    by (rule update_fat_faultless [OF s1(2)])
  note rel = free_inv_release [OF inv chain d cs s1(2-6)]
  note fin = free_inv_frame [OF rel(2) s'(2-4)]
  have "clusters_release c s = Some (Inr (Some (), s'))"
    by (simp add: clusters_release_def fbind_def s1(1) s'(1))
  moreover have "fat_moves s s'"
    using fat_moves_trans [OF s1(3) fat_frame_is_moves [OF s'(3)]] .
  ultimately show ?thesis
    using that [of s'] fin rel s' s1(4) by simp
qed

end
