(* ===== verification/Fat_File.thy ===== *)
theory Fat_File
  imports Fat_Alloc
begin

text \<open>
  The clusters of a file (\<open>giet_fat32/fat32.c\<close>): the buffers of its File-Cache, and the loop of
  \<open>_clusters_allocate\<close> that appends new clusters to its chain.
\<close>

section \<open>The File-Cache\<close>

definition inode_at :: "fat_inode \<Rightarrow> nat \<Rightarrow> fat_cache_desc option" where
  "inode_at i k = (if k < 64 ^ inode_levels i then cache_at (inode_levels i) (inode_cache i) k else None)"

definition inode_wf :: "fat_inode \<Rightarrow> bool" where
  "inode_wf i \<longleftrightarrow> 0 < inode_levels i \<and> cache_wf (inode_levels i) (inode_cache i)"

lemma inode_at_cluster [simp]: "inode_at (i\<lparr>inode_cluster := n\<rparr>) = inode_at i"
  "inode_wf (i\<lparr>inode_cluster := n\<rparr>) = inode_wf i"
  by (auto simp: inode_at_def inode_wf_def fun_eq_iff)

lemma add_levels_spec:
  assumes "inode_wf i"
  shows "inode_wf (add_levels r i)" "inode_at (add_levels r i) = inode_at i"
    "inode_levels (add_levels r i) = max r (inode_levels i)"
    "add_levels r i = i\<lparr>inode_cache := inode_cache (add_levels r i), inode_levels := max r (inode_levels i)\<rparr>"
proof -
  have "inode_wf (add_levels r i) \<and> inode_at (add_levels r i) = inode_at i \<and>
    inode_levels (add_levels r i) = max r (inode_levels i) \<and>
    add_levels r i = i\<lparr>inode_cache := inode_cache (add_levels r i), inode_levels := max r (inode_levels i)\<rparr>"
    using assms
  proof (induction r i rule: add_levels.induct)
    case (1 r i)
    show ?case
    proof (cases "inode_levels i < r")
      case True
      let ?i = "i\<lparr>inode_cache := allocate_one_cache_node (inode_cache i), inode_levels := inode_levels i + 1\<rparr>"
      have "inode_wf ?i"
        using 1(2) by (simp add: inode_wf_def cache_wf_raise)
      moreover have "inode_at ?i = inode_at i"
        by (auto simp: inode_at_def cache_at_raise fun_eq_iff)
      moreover have e: "add_levels r i = add_levels r ?i"
        using True by (subst add_levels.simps) simp
      moreover have "max r (inode_levels ?i) = max r (inode_levels i)" using True by simp
      ultimately show ?thesis
        using 1(1) [OF True] unfolding e by simp
    next
      case False
      then have "add_levels r i = i" by (subst add_levels.simps) simp
      then show ?thesis using False 1(2) by (simp add: max_def)
    qed
  qed
  then show "inode_wf (add_levels r i)" "inode_at (add_levels r i) = inode_at i"
    "inode_levels (add_levels r i) = max r (inode_levels i)"
    "add_levels r i = i\<lparr>inode_cache := inode_cache (add_levels r i), inode_levels := max r (inode_levels i)\<rparr>"
    by auto
qed

lemma levels_cover:
  fixes c :: u32
  assumes "unat c + 1 < 2 ^ 20"
  shows "unat c < 64 ^ get_levels_from_size ((c + 1) * 4096)"
proof -
  have "unat (c + 1) = unat c + 1" using assms by (simp add: unat_add_no_wrap)
  then have u: "unat ((c + 1) * 4096) = (unat c + 1) * 4096"
    using assms by (subst unat_mult_no_wrap) simp_all
  show ?thesis
    using assms by (auto simp: get_levels_from_size_def push_bit_one_u32 word_le_nat_alt u [simplified])
qed

definition new_desc :: "fat_desc \<Rightarrow> u32 \<Rightarrow> fat_cache_desc" where
  "new_desc s cluster = \<lparr>desc_lba = push_bit 3 (cluster - 2) + data_lba s, desc_dirty = True,
     desc_buffer = fresh_bytes s\<rparr>"

lemma allocate_one_buffer_spec:
  assumes wf: "inode_wf i" and c: "unat c + 1 < 2 ^ 20" and free: "inode_at i (unat c) = None" and n: "2 \<le> n"
  obtains i' where "allocate_one_buffer s i c n = Some (Inr i')" "inode_wf i'"
    "inode_at i' = (inode_at i)(unat c := Some (new_desc s n))"
    "i' = i\<lparr>inode_cache := inode_cache i', inode_levels := inode_levels i'\<rparr>"
proof -
  let ?r = "get_levels_from_size ((c + 1) * 4096)"
  define j where "j = add_levels ?r i"
  have j: "inode_wf j" "inode_at j = inode_at i" "inode_levels j = max ?r (inode_levels i)"
    and ij: "j = i\<lparr>inode_cache := inode_cache j, inode_levels := max ?r (inode_levels i)\<rparr>"
    using add_levels_spec [OF wf, of ?r] by (auto simp: j_def)
  obtain l where l: "inode_levels j = Suc l" and cwf: "cache_wf (Suc l) (inode_cache j)"
    using j(1) by (cases "inode_levels j") (auto simp: inode_wf_def)
  have "unat c < 64 ^ ?r" by (rule levels_cover [OF c])
  also have "(64::nat) ^ ?r \<le> 64 ^ inode_levels j" by (intro power_increasing) (auto simp: j(3))
  finally have lt: "unat c < 64 ^ Suc l" by (simp add: l)
  then have key: "cache_key (Suc l) c = unat c" by (simp add: cache_key_def)
  have none: "cache_at (Suc l) (inode_cache j) (unat c) = None"
    using free lt unfolding j(2) [symmetric] by (simp add: inode_at_def l)
  let ?miss = "\<lambda>_ :: panic + unit. case cluster_to_lba s n of
             Inl e \<Rightarrow> (None, Inl e)
           | Inr lba \<Rightarrow> (Some \<lparr>desc_lba = lba, desc_dirty = True, desc_buffer = fresh_bytes s\<rparr>, Inr ())"
  have miss: "?miss x = (Some (new_desc s n), Inr ())" for x
    using n by (simp add: cluster_to_lba_def new_desc_def)
  obtain t where w: "cache_walk (Suc l) c ?miss (inode_cache j) (Inl Cache_slot_not_empty) = Some (Some (new_desc s n), t, Inr ())"
    "cache_wf (Suc l) t" "cache_at (Suc l) t = (cache_at (Suc l) (inode_cache j))(unat c := Some (new_desc s n))"
    using cache_walk_spec [OF cwf, of c ?miss "Inl Cache_slot_not_empty"] unfolding key none miss by auto
  let ?i = "j\<lparr>inode_cache := t\<rparr>"
  have "allocate_one_buffer s i c n = Some (Inr ?i)"
    using w(1) unfolding allocate_one_buffer_def Let_def j_def [symmetric] l by simp
  moreover have "inode_wf ?i" using w(2) by (simp add: inode_wf_def l)
  moreover have "inode_at ?i = (inode_at i)(unat c := Some (new_desc s n))"
    using lt w(3) unfolding j(2) [symmetric] by (auto simp: inode_at_def l fun_eq_iff)
  moreover have "?i = i\<lparr>inode_cache := inode_cache ?i, inode_levels := inode_levels ?i\<rparr>"
    by (subst ij) (simp add: j(3))
  ultimately show ?thesis by (rule that)
qed


section \<open>Growing a chain\<close>

lemma fat_chain_last: "fat_chain t c cs \<Longrightarrow> END_OF_CHAIN_CLUSTER_MIN \<le> t (last cs)"
  by (induction cs arbitrary: c) (auto simp: fat_chain_Cons split: if_splits)

lemma fat_chain_nonempty: "fat_chain t c cs \<Longrightarrow> cs \<noteq> []"
  by auto

lemma fat_chain_grow:
  assumes "fat_chain t c cs" "distinct cs" "n \<notin> set cs" "n < END_OF_CHAIN_CLUSTER_MIN"
    "END_OF_CHAIN_CLUSTER_MIN \<le> e"
  shows "fat_chain (t(n := e, last cs := n)) c (cs @ [n])"
  using assms
proof (induction cs arbitrary: c)
  case (Cons x xs)
  then show ?case
    by (auto simp: fat_chain_Cons split: if_splits)
qed simp

lemma last_cluster_spec:
  assumes "fat_inv s" "faultless s" "fat_chain (fat_table s) c cs" "set cs \<subseteq> data_clusters s"
    and "\<And>x. x \<in> set cs \<Longrightarrow> entry_valid (fat_cache_levels s) x" "fat_limit s < END_OF_CHAIN_CLUSTER_MIN"
  shows "\<exists>s'. last_cluster c lst s = Some (Inr (Some (Some (last cs)), s')) \<and> fat_reads s s'"
  using assms
proof (induction cs arbitrary: c s lst)
  case (Cons x xs)
  let ?next = "fat_table s x"
  have c: "c = x" and tail: "if xs = [] then END_OF_CHAIN_CLUSTER_MIN \<le> ?next
      else ?next < END_OF_CHAIN_CLUSTER_MIN \<and> fat_chain (fat_table s) ?next xs"
    using Cons.prems(3) by (auto simp: fat_chain_Cons)
  have x: "x < END_OF_CHAIN_CLUSTER_MIN" using Cons.prems(4,6) by auto
  obtain r s1 where g: "get_fat_entry x s = Some (Inr (r, s1))" "fat_reads s s1" "r = Some ?next"
    by (rule get_fat_entry_spec [OF Cons.prems(1) Cons.prems(5)]) (use Cons.prems(2) in auto)
  have s1: "fat_inv s1" "fat_frame s s1" "fat_table s1 = fat_table s"
    using g(2) by (auto simp: fat_reads_def)
  note f = fat_frameD [OF s1(2)]
  have step: "last_cluster c lst s = last_cluster ?next (Some x) s1"
    by (subst last_cluster.simps) (simp add: c x fbind_def g(1,3))
  show ?case
  proof (cases "xs = []")
    case True
    have "last_cluster ?next (Some x) s1 = Some (Inr (Some (Some x), s1))"
      using True tail by (subst last_cluster.simps) (simp add: leD fret_def)
    then show ?thesis using True g(2) by (simp add: step)
  next
    case False
    then have "\<exists>s'. last_cluster ?next (Some x) s1 = Some (Inr (Some (Some (last xs)), s')) \<and> fat_reads s1 s'"
      using tail Cons.prems s1 f by (intro Cons.IH) (auto simp: faultless_frame)
    then show ?thesis
      using False fat_reads_trans [OF g(2)] by (auto simp: step)
  qed
qed simp

text \<open>Writing the link of the last cluster keeps the set of free clusters.\<close>

lemma set_last_spec:
  assumes inv: "free_inv s" and nf: "faultless s" and l: "l \<in> data_clusters s" "l \<notin> free_set s" and v: "v \<noteq> FREE_CLUSTER"
  obtains s' where "set_last (Some l) v s = Some (Inr (Some (), s'))" "free_inv s'" "fat_frame s s'"
    "fat_table s' = (fat_table s)(l := v)" "free_set s' = free_set s"
proof -
  have fi: "fat_inv s" and ev: "entry_valid (fat_cache_levels s) l"
    using inv l by (auto simp: free_inv_def)
  obtain r s' where w: "set_fat_entry l v s = Some (Inr (r, s'))" "r = Some ()"
    "fat_writes s s' (if r = None then fat_table s else (fat_table s)(l := v))"
    by (rule set_fat_entry_spec [OF fi ev, where v = v]) (use nf in blast)
  have s': "fat_inv s'" "fat_frame s s'" "fat_table s' = (fat_table s)(l := v)"
    using w(2,3) by (auto simp: fat_writes_def)
  note f = fat_frameD [OF s'(2)]
  have fs: "free_set s' = free_set s" using l v by (auto simp: free_set_def s'(3) f)
  then have "free_inv s'" using inv s'(1) by (simp add: free_inv_def f)
  then show ?thesis using that [of s'] w s' fs by (simp add: set_last_def)
qed

definition loop_post ::
    "fat_inode \<Rightarrow> fat_desc \<Rightarrow> nat \<Rightarrow> u32 list \<Rightarrow> u32 list \<Rightarrow> fat_inode \<Rightarrow> fat_desc \<Rightarrow> bool" where
  "loop_post i s m old new i' s' \<longleftrightarrow>
    free_inv s' \<and> fat_moves s s' \<and> distinct new \<and> set new \<subseteq> free_set s \<and>
    free_set s' = free_set s - set new \<and>
    (old @ new \<noteq> [] \<longrightarrow> fat_chain (fat_table s') (inode_cluster i') (old @ new)) \<and>
    (new \<noteq> [] \<longrightarrow> fat_table s' (last new) = END_OF_CHAIN_CLUSTER_MAX) \<and>
    (\<forall>x. x \<notin> set new \<longrightarrow> new = [] \<or> old = [] \<or> x \<noteq> last old \<longrightarrow> fat_table s' x = fat_table s x) \<and>
    inode_wf i' \<and>
    inode_at i' = (\<lambda>q. if m \<le> q \<and> q < m + length new then Some (new_desc s (new ! (q - m))) else inode_at i q) \<and>
    i' = i\<lparr>inode_cache := inode_cache i', inode_levels := inode_levels i', inode_cluster := inode_cluster i'\<rparr>"


lemma loop_post_trans:
  assumes 1: "loop_post i s m old [n] j t" and 2: "loop_post j t (Suc m) (old @ [n]) new i' s'"
  shows "loop_post i s m old (n # new) i' s'"
proof -
  note mv = fat_movesD [of s t]
  have t: "fat_moves s t" "n \<in> free_set s" "free_set t = free_set s - {n}"
    "fat_table t n = END_OF_CHAIN_CLUSTER_MAX"
    "\<And>x. x \<noteq> n \<Longrightarrow> old = [] \<or> x \<noteq> last old \<Longrightarrow> fat_table t x = fat_table s x"
    "inode_at j = (\<lambda>q. if m \<le> q \<and> q < m + 1 then Some (new_desc s ([n] ! (q - m))) else inode_at i q)"
    and j: "j = i\<lparr>inode_cache := inode_cache j, inode_levels := inode_levels j, inode_cluster := inode_cluster j\<rparr>"
    using 1 by (auto simp: loop_post_def)
  have s': "free_inv s'" "fat_moves t s'" "distinct new" "set new \<subseteq> free_set t" "free_set s' = free_set t - set new"
    "fat_chain (fat_table s') (inode_cluster i') ((old @ [n]) @ new)"
    "new \<noteq> [] \<Longrightarrow> fat_table s' (last new) = END_OF_CHAIN_CLUSTER_MAX"
    "\<And>x. x \<notin> set new \<Longrightarrow> new = [] \<or> x \<noteq> n \<Longrightarrow> fat_table s' x = fat_table t x"
    "inode_wf i'"
    "inode_at i' = (\<lambda>q. if Suc m \<le> q \<and> q < Suc m + length new then Some (new_desc t (new ! (q - Suc m))) else inode_at j q)"
    and i': "i' = j\<lparr>inode_cache := inode_cache i', inode_levels := inode_levels i', inode_cluster := inode_cluster i'\<rparr>"
    using 2 by (auto simp: loop_post_def)
  have nd: "new_desc t = new_desc s"
    using mv [OF t(1)] by (simp add: new_desc_def fun_eq_iff)
  have "n \<notin> set new" using s'(4) t(3) by auto
  moreover have "fat_moves s s'" by (rule fat_moves_trans [OF t(1) s'(2)])
  moreover have "set new \<subseteq> free_set s" using s'(4) t(3) by auto
  moreover have "free_set s' = free_set s - set (n # new)" using s'(5) t(3) by auto
  moreover have "fat_table s' (last (n # new)) = END_OF_CHAIN_CLUSTER_MAX"
    using s'(7) s'(8) [of n] t(4) by (cases "new = []") auto
  moreover have "fat_table s' x = fat_table s x" if "x \<notin> set (n # new)" "old = [] \<or> x \<noteq> last old" for x
    using that s'(8) [of x] t(5) [of x] by auto
  moreover have "inode_at i' = (\<lambda>q. if m \<le> q \<and> q < m + length (n # new)
      then Some (new_desc s ((n # new) ! (q - m))) else inode_at i q)"
    by (auto simp: s'(10) t(6) nd fun_eq_iff nth_Cons')
  moreover have "i' = i\<lparr>inode_cache := inode_cache i', inode_levels := inode_levels i', inode_cluster := inode_cluster i'\<rparr>"
    by (subst i', subst j) simp
  ultimately show ?thesis
    using s'(1,3,6,9) t(2) by (auto simp: loop_post_def)
qed

lemma allocate_step:
  assumes inv: "free_inv s" and nf: "faultless s" and wf: "inode_wf i" and m: "unat c = m" "m + 1 < 2 ^ 20"
    and more: "1 < card (free_set s)" and free: "inode_at i m = None" and c: "c < limit"
    and old: "length old = m" "old \<noteq> [] \<Longrightarrow> lst = Some (last old) \<and> fat_chain (fat_table s) (inode_cluster i) old"
      "distinct old" "set old \<subseteq> data_clusters s"
  obtains n j t where "allocate_loop c limit lst (i, s) = allocate_loop (c + 1) limit (Some n) (j, t)"
    "loop_post i s m old [n] j t" "n \<notin> set old"
proof -
  define n where "n = first_free_cluster s"
  have n: "n \<in> free_set s" using inv by (simp add: free_inv_def n_def)
  then have n2: "2 \<le> n" "n \<in> data_clusters s" by (auto simp: free_set_def)
  have nE: "n < END_OF_CHAIN_CLUSTER_MIN" using n2 inv by (auto simp: free_inv_def)
  have busy: "x \<notin> free_set s" if "x \<in> set old" for x
  proof -
    have "old \<noteq> []" using that by auto
    from fat_chain_busy [OF conjunct2 [OF old(2) [OF this]] _ that] old(4) that show ?thesis
      by (auto simp: free_set_def subset_iff)
  qed
  have no: "n \<notin> set old" using n busy by auto
  have "free_set s \<noteq> {n}" using more by auto
  then obtain s1 where a: "allocate_one_cluster s = Some (Inr (Some n, s1))" "free_inv s1"
    "fat_table s1 = (fat_table s)(n := END_OF_CHAIN_CLUSTER_MAX)" "free_set s1 = free_set s - {n}" "fat_moves s s1"
    unfolding n_def by (rule allocate_one_cluster_spec [OF inv nf])
  note mv = fat_movesD [OF a(5)]
  obtain i1 where b: "allocate_one_buffer s1 i c n = Some (Inr i1)" "inode_wf i1"
    "inode_at i1 = (inode_at i)(m := Some (new_desc s1 n))"
    "i1 = i\<lparr>inode_cache := inode_cache i1, inode_levels := inode_levels i1\<rparr>"
    using allocate_one_buffer_spec [OF wf, of c n s1] m free n2(1) by auto
  have nd: "new_desc s1 n = new_desc s n" using mv by (simp add: new_desc_def)
  have at: "inode_at i1 = (\<lambda>q. if m \<le> q \<and> q < m + length [n] then Some (new_desc s ([n] ! (q - m))) else inode_at i q)"
    by (auto simp: b(3) nd fun_eq_iff)
  show ?thesis
  proof (cases "c = 0")
    case True
    then have [simp]: "old = []" "m = 0" using m old(1) by auto
    let ?j = "i1\<lparr>inode_cluster := n\<rparr>"
    have "allocate_loop c limit lst (i, s) = allocate_loop (c + 1) limit (Some n) (?j, s1)"
      using c True by (subst allocate_loop.simps) (simp add: fbind_def on_fat_def a(1) b(1) [unfolded True] True fret_def)
    moreover have "loop_post i s m old [n] ?j s1"
      unfolding loop_post_def
    proof (intro conjI)
      show "inode_at ?j = (\<lambda>q. if m \<le> q \<and> q < m + length [n] then Some (new_desc s ([n] ! (q - m))) else inode_at i q)"
        by (simp only: inode_at_cluster at)
      show "?j = i\<lparr>inode_cache := inode_cache ?j, inode_levels := inode_levels ?j, inode_cluster := inode_cluster ?j\<rparr>"
        by (subst b(4)) simp
    qed (use a b(2) n in \<open>auto simp: END_OF_CHAIN_CLUSTER_MIN_def END_OF_CHAIN_CLUSTER_MAX_def\<close>)
    ultimately show ?thesis using that no by blast
  next
    case False
    then have ne: "old \<noteq> []" using m old(1) by (auto simp: unat_eq_zero)
    let ?l = "last old"
    have l: "lst = Some ?l" "fat_chain (fat_table s) (inode_cluster i) old" using old(2) ne by auto
    have "?l \<in> data_clusters s" using old(4) ne by (meson last_in_set subsetD)
    then have ld: "?l \<in> data_clusters s1" "?l \<notin> free_set s1"
      using ne busy [of ?l] mv by (auto simp: a(4))
    have nz: "n \<noteq> FREE_CLUSTER" using n2(1) by (auto simp: FREE_CLUSTER_def)
    have nf1: "faultless s1" using nf mv by simp
    obtain s2 where w: "set_last (Some ?l) n s1 = Some (Inr (Some (), s2))" "free_inv s2" "fat_frame s1 s2"
      "fat_table s2 = (fat_table s1)(?l := n)" "free_set s2 = free_set s1"
      by (rule set_last_spec [OF a(2) nf1 ld nz])
    have nl: "n \<noteq> ?l" using no ne by auto
    have "allocate_loop c limit lst (i, s) = allocate_loop (c + 1) limit (Some n) (i1, s2)"
      using c False by (subst allocate_loop.simps) (simp add: fbind_def on_fat_def a(1) b(1) l(1) w(1))
    moreover have "loop_post i s m old [n] i1 s2"
      unfolding loop_post_def
    proof (intro conjI)
      have "inode_cluster i1 = inode_cluster i" by (subst b(4)) simp
      then show "old @ [n] \<noteq> [] \<longrightarrow> fat_chain (fat_table s2) (inode_cluster i1) (old @ [n])"
        using fat_chain_grow [OF l(2) old(3) no nE, of END_OF_CHAIN_CLUSTER_MAX]
        by (simp add: w(4) a(3) END_OF_CHAIN_CLUSTER_MIN_def END_OF_CHAIN_CLUSTER_MAX_def)
      show "fat_moves s s2" by (rule fat_moves_trans [OF a(5) fat_frame_is_moves [OF w(3)]])
      show "i1 = i\<lparr>inode_cache := inode_cache i1, inode_levels := inode_levels i1, inode_cluster := inode_cluster i1\<rparr>"
        by (subst (1 4) b(4)) (simp, subst b(4), simp)
    qed (use a b(2) n w nl at ne in auto)
    ultimately show ?thesis using that no by blast
  qed
qed


lemma allocate_loop_spec:
  assumes "free_inv s" "faultless s" "inode_wf i" "unat c = m" "unat limit = m + k" "m + k < 2 ^ 20"
    and "k < card (free_set s)" "\<And>q. m \<le> q \<Longrightarrow> q < m + k \<Longrightarrow> inode_at i q = None"
    and "length old = m" "old \<noteq> [] \<Longrightarrow> lst = Some (last old) \<and> fat_chain (fat_table s) (inode_cluster i) old"
      "distinct old" "set old \<subseteq> data_clusters s"
  shows "\<exists>new i' s' lst'. allocate_loop c limit lst (i, s) = Some (Inr (Some lst', (i', s'))) \<and>
    length new = k \<and> loop_post i s m old new i' s' \<and> (old @ new \<noteq> [] \<longrightarrow> lst' = Some (last (old @ new)))"
  using assms
proof (induction k arbitrary: s i c m lst old)
  case 0
  then have "\<not> c < limit" by (simp add: word_less_nat_alt)
  then have "allocate_loop c limit lst (i, s) = Some (Inr (Some lst, (i, s)))"
    by (subst allocate_loop.simps) (simp add: fret_def)
  moreover have "loop_post i s m old [] i s"
    using 0 by (auto simp: loop_post_def fun_eq_iff)
  ultimately show ?case
    using 0 by (intro exI [of _ "[]"] exI [of _ i] exI [of _ s] exI [of _ lst]) auto
next
  case (Suc k)
  have cl: "c < limit" and c1: "unat (c + 1) = Suc m"
    using Suc.prems(4-6) by (simp_all add: word_less_nat_alt unat_add_no_wrap)
  obtain n j t where st: "allocate_loop c limit lst (i, s) = allocate_loop (c + 1) limit (Some n) (j, t)"
      "loop_post i s m old [n] j t" "n \<notin> set old"
    by (rule allocate_step [OF Suc.prems(1-4) _ _ _ cl Suc.prems(9-12)]) (use Suc.prems(6-8) in auto)
  from st(2) have t: "free_inv t" "fat_moves s t" "n \<in> free_set s" "free_set t = free_set s - {n}"
    "fat_chain (fat_table t) (inode_cluster j) (old @ [n])" "inode_wf j"
    "inode_at j = (\<lambda>q. if m \<le> q \<and> q < m + 1 then Some (new_desc s ([n] ! (q - m))) else inode_at i q)"
    by (auto simp: loop_post_def)
  note mv = fat_movesD [OF t(2)]
  have n: "n \<in> data_clusters s" using t(3) by (auto simp: free_set_def)
  have "\<exists>new i' s' lst'. allocate_loop (c + 1) limit (Some n) (j, t) = Some (Inr (Some lst', (i', s'))) \<and>
    length new = k \<and> loop_post j t (Suc m) (old @ [n]) new i' s' \<and>
    ((old @ [n]) @ new \<noteq> [] \<longrightarrow> lst' = Some (last ((old @ [n]) @ new)))"
  proof (rule Suc.IH)
    show "k < card (free_set t)" using Suc.prems(7) t(3) by (simp add: t(4))
    show "inode_at j q = None" if "Suc m \<le> q" "q < Suc m + k" for q
      using that Suc.prems(8) [of q] by (simp add: t(7))
    show "set (old @ [n]) \<subseteq> data_clusters t" using Suc.prems(12) n mv by auto
  qed (use t Suc.prems mv c1 st(3) in auto)
  then obtain new i' s' lst' where r: "allocate_loop (c + 1) limit (Some n) (j, t) = Some (Inr (Some lst', (i', s')))"
    "length new = k" "loop_post j t (Suc m) (old @ [n]) new i' s'" "lst' = Some (last ((old @ [n]) @ new))"
    by auto
  have "loop_post i s m old (n # new) i' s'" by (rule loop_post_trans [OF st(2) r(3)])
  then show ?case
    using st(1) r by (intro exI [of _ "n # new"] exI [of _ i'] exI [of _ s'] exI [of _ lst']) auto
qed

text \<open>
  The clusters \<open>new\<close> are appended to the chain \<open>old\<close> of a file (empty when no cluster was
  allocated), the tables in the cache and on the device agree, and the File-Cache has a new dirty
  descriptor for each of them.
\<close>

lemma clusters_allocate_spec:
  assumes inv: "free_inv s" and nf: "faultless s" and wf: "inode_wf i"
    and old: "unat m = length old" "old \<noteq> [] \<Longrightarrow> fat_chain (fat_table s) (inode_cluster i) old"
      "distinct old" "set old \<subseteq> data_clusters s"
    and k: "0 < unat k" "unat m + unat k < 2 ^ 20" "k < free_clusters_number s"
    and free: "\<And>q. unat m \<le> q \<Longrightarrow> q < unat m + unat k \<Longrightarrow> inode_at i q = None"
  obtains new i' s' where "clusters_allocate m k (i, s) = Some (Inr (Some (), (i', s')))"
    "length new = unat k" "loop_post i s (unat m) old new i' s'" "device_table s' = fat_table s'"
proof -
  have kc: "unat k < card (free_set s)"
    using k(3) inv by (simp add: free_inv_def word_less_nat_alt)
  have lim: "unat (m + k) = unat m + unat k" using k(2) by (simp add: unat_add_no_wrap)
  have m0: "m \<noteq> 0 \<longleftrightarrow> old \<noteq> []" using old(1) by (metis length_0_conv unat_eq_zero)
  have fi: "fat_inv s" and valid: "\<And>x. x \<in> set old \<Longrightarrow> entry_valid (fat_cache_levels s) x"
    and fl: "fat_limit s < END_OF_CHAIN_CLUSTER_MIN"
    using inv old(4) by (auto simp: free_inv_def)
  have "\<exists>s1 lst. (if m \<noteq> 0 then on_fat (last_cluster (inode_cluster i) None) else fret None) (i, s)
      = Some (Inr (Some lst, (i, s1))) \<and> fat_reads s s1 \<and> (old \<noteq> [] \<longrightarrow> lst = Some (last old))"
  proof (cases "old = []")
    case True
    then show ?thesis using m0 fi by (auto simp: fret_def intro: fat_reads_refl)
  next
    case False
    then show ?thesis
      using last_cluster_spec [OF fi nf old(2) [OF False] old(4) valid fl, of None] m0
      by (auto simp: on_fat_def)
  qed
  then obtain s1 lst where l: "(if m \<noteq> 0 then on_fat (last_cluster (inode_cluster i) None) else fret None) (i, s)
      = Some (Inr (Some lst, (i, s1)))" "fat_reads s s1" "old \<noteq> [] \<Longrightarrow> lst = Some (last old)" by blast
  have s1: "fat_inv s1" "fat_frame s s1" "fat_table s1 = fat_table s" using l(2) by (auto simp: fat_reads_def)
  note f1 = fat_frameD [OF s1(2)] and fr = free_inv_frame [OF inv s1]
  have "\<exists>new i' s' lst'. allocate_loop m (m + k) lst (i, s1) = Some (Inr (Some lst', (i', s'))) \<and>
    length new = unat k \<and> loop_post i s1 (unat m) old new i' s' \<and>
    (old @ new \<noteq> [] \<longrightarrow> lst' = Some (last (old @ new)))"
    by (rule allocate_loop_spec)
      (use fr kc lim k old l(3) wf nf faultless_frame [OF s1(2)] free f1 s1(3) in auto)
  then obtain new i' s2 lst' where a: "allocate_loop m (m + k) lst (i, s1) = Some (Inr (Some lst', (i', s2)))"
    "length new = unat k" "loop_post i s1 (unat m) old new i' s2" "old @ new \<noteq> [] \<Longrightarrow> lst' = Some (last (old @ new))"
    by blast
  have ne: "new \<noteq> []" using a(2) k(1) by auto
  from a(3) ne have s2: "free_inv s2" "fat_moves s1 s2" "set new \<subseteq> free_set s1" "free_set s2 = free_set s1 - set new"
    "fat_table s2 (last new) = END_OF_CHAIN_CLUSTER_MAX"
    by (auto simp: loop_post_def)
  have nf2: "faultless s2" using nf faultless_frame [OF s1(2)] fat_movesD [OF s2(2)] by simp
  have "last new \<in> free_set s1" using s2(3) ne by (meson last_in_set subsetD)
  then have ln: "last new \<in> data_clusters s2" "last new \<notin> free_set s2"
    using ne fat_movesD [OF s2(2)] by (auto simp: s2(4)) (auto simp: free_set_def)
  obtain s3 where w: "set_last (Some (last new)) END_OF_CHAIN_CLUSTER_MAX s2 = Some (Inr (Some (), s3))"
    "free_inv s3" "fat_frame s2 s3" "fat_table s3 = (fat_table s2)(last new := END_OF_CHAIN_CLUSTER_MAX)"
    "free_set s3 = free_set s2"
    by (rule set_last_spec [OF s2(1) nf2 ln, of END_OF_CHAIN_CLUSTER_MAX])
      (simp add: END_OF_CHAIN_CLUSTER_MAX_def FREE_CLUSTER_def)
  have t3: "fat_table s3 = fat_table s2" by (simp add: w(4) fun_upd_idem s2(5))
  have nf3: "faultless s3" using nf2 faultless_frame [OF w(3)] by simp
  have fi3: "fat_inv s3" using w(2) by (simp add: free_inv_def)
  obtain s' where u: "update_fat s3 = Some (Inr (Some (), s'))" "fat_inv s'" "fat_frame s3 s'"
    "fat_table s' = fat_table s3" "device_table s' = fat_table s3"
    by (rule update_fat_faultless [OF fi3 nf3])
  note fin = free_inv_frame [OF w(2) u(2-4)]
  have "k \<le> free_clusters_number s" using k(3) by simp
  then have "clusters_allocate m k (i, s) = Some (Inr (Some (), (i', s')))"
    using ne a(4)
    by (simp add: clusters_allocate_def fbind_def l(1) a(1) on_fat_def w(1) u(1) not_less [symmetric])
  moreover have "loop_post i s (unat m) old new i' s'"
  proof -
    have "fat_moves s s'"
      using fat_moves_trans [OF fat_frame_is_moves [OF s1(2)]] fat_moves_trans [OF s2(2)]
        fat_frame_is_moves [OF fat_frame_trans [OF w(3) u(3)]] by blast
    moreover have nd: "new_desc s1 = new_desc s" by (simp add: new_desc_def f1 fun_eq_iff)
    ultimately show ?thesis
      using a(3) fin unfolding loop_post_def t3 u(4) s1(3) w(5) fr nd by simp
  qed
  ultimately show ?thesis
    using a(2) u that [of i' s' new] by simp
qed

end
