(* ===== verification/Fat_Properties.thy ===== *)
theory Fat_Properties
  imports Fat_File
begin

text \<open>
  The properties of the FAT of \<open>giet_fat32/fat32.c\<close>: entries, write-back, allocation and release
  of the clusters of a file, and a small file system on which they are applied.
\<close>

section \<open>A file system with two free clusters\<close>

definition small_fs :: fat_desc where
  "small_fs = \<lparr>block_buffer = (\<lambda>_. 0), block_buffer_lba = 1,
    fat_cache_root = allocate_one_cache_node Null, fat_cache_levels = 1, fat_lba = 32,
    fat_sectors = 16, data_lba = 48, data_sectors = 24, fs_info_lba = 1,
    first_free_cluster = 2, free_clusters_number = 2,
    device = \<lparr>sectors = (\<lambda>_ _. 0), faults = (\<lambda>_. False), accesses = 0\<rparr>, fresh_bytes = (\<lambda>_. 0)\<rparr>"

definition empty_file :: fat_inode where
  "empty_file = \<lparr>inode_parent = 0, inode_next = 0, inode_child = 0, inode_cache = allocate_one_cache_node Null, inode_levels = 1,
    inode_cluster = END_OF_CHAIN_CLUSTER_MAX, inode_size = 0, inode_count = 0, inode_dentry = 0,
    inode_is_dir = False, inode_name = [102]\<rparr>"

lemma small_fs_sel [simp]:
  "fat_cache_root small_fs = allocate_one_cache_node Null" "fat_cache_levels small_fs = 1"
  "fat_lba small_fs = 32" "data_lba small_fs = 48" "data_sectors small_fs = 24"
  "first_free_cluster small_fs = 2" "free_clusters_number small_fs = 2"
  "device small_fs = \<lparr>sectors = (\<lambda>_ _. 0), faults = (\<lambda>_. False), accesses = 0\<rparr>"
  by (simp_all add: small_fs_def)

lemma small_fs_inv: "fat_inv small_fs"
  using cache_wf_new_node [of 0] by (simp add: fat_inv_def cache_addressed_def)

lemma small_fs_faultless: "faultless small_fs"
  by (simp add: faultless_def)

lemma small_fs_table: "fat_table small_fs = (\<lambda>_. 0)"
  by (simp add: fat_table_def fat_cluster_def fun_eq_iff entry_in_def load32_def device_block_def)

lemma small_fs_limit: "fat_limit small_fs = 3"
  by (simp add: drop_bit_eq_div)

lemma two_three: "2 \<le> c \<and> c \<le> 3 \<longleftrightarrow> c = 2 \<or> c = (3 :: u32)"
  by (auto simp: word_le_nat_alt word_unat_eq_iff)

lemma small_fs_free: "free_set small_fs = {2, 3}"
  using two_three by (auto simp: free_set_def small_fs_limit small_fs_table FREE_CLUSTER_def)

lemma small_fs_valid: "c \<le> 3 \<Longrightarrow> entry_valid 1 c"
proof -
  assume "c \<le> 3"
  then have "unat c div 1024 < 64" by (simp add: word_le_nat_alt)
  then show ?thesis by (simp add: entry_valid_def drop_bit_eq_div unat_div)
qed

lemma small_fs_free_inv: "free_inv small_fs"
  using small_fs_inv small_fs_valid
  by (simp add: free_inv_def small_fs_free small_fs_limit END_OF_CHAIN_CLUSTER_MIN_def)

lemma empty_file_wf: "inode_wf empty_file" "inode_at empty_file q = None"
  using cache_wf_new_node [of 0] by (simp_all add: empty_file_def inode_wf_def inode_at_def)

section \<open>Properties\<close>

lemma fat_cache_hit:
  assumes "fat_inv s" "unat c < 64 ^ fat_cache_levels s" "fat_at s (unat c) = Some p"
  obtains s' where "fat_cache_buffer c s = Some (Inr (Some p, s'))" "device s' = device s"
    "fat_cache_levels s' = fat_cache_levels s" "fat_at s' = fat_at s"
proof -
  obtain l where l: "fat_cache_levels s = Suc l" and wf: "cache_wf (Suc l) (fat_cache_root s)"
    using assms(1) by (cases "fat_cache_levels s") (auto simp: fat_inv_def)
  have key: "cache_key (Suc l) c = unat c" using assms(2) by (simp add: cache_key_def l)
  let ?miss = "load_cluster (fat_lba s + push_bit 3 c)"
  obtain n r d where w: "cache_walk (Suc l) c ?miss (fat_cache_root s) (device s) = Some (r, n, d)"
      "cache_at (Suc l) n = (cache_at (Suc l) (fat_cache_root s))(unat c := r)"
      "(r, d) = (case fat_at s (unat c) of None \<Rightarrow> ?miss (device s) | Some p \<Rightarrow> (Some p, device s))"
    using cache_walk_spec [OF wf, of c ?miss "device s"] unfolding key l by blast
  then have r: "r = Some p" "d = device s" using assms(3) by simp_all
  have "cache_at (Suc l) n = cache_at (Suc l) (fat_cache_root s)"
    using w(2) assms(3) unfolding r(1) l by (simp add: fun_upd_idem)
  then show ?thesis
    using w(1) r by (intro that [of "s\<lparr>fat_cache_root := n, device := d\<rparr>"]) (simp_all add: fat_cache_buffer_def l)
qed

text \<open>C36: Reading and writing an entry of the table whose cluster of the FAT is in the Fat-Cache refine the array
  \<open>fat_table\<close>, whatever the number of levels of the cache: a read returns the entry and changes nothing, a write
  changes this entry only, the same clusters remain in the cache, and the device is not accessed, so that both succeed even
  when it fails. (When the cluster is not in the cache, the code reads a field of the null inode before it loads the
  cluster; this access is not modelled.)\<close>

theorem fat_entry_refines_array:
  assumes "fat_inv s" and "entry_valid (fat_cache_levels s) c" and "fat_at s (unat (drop_bit 10 c)) \<noteq> None"
  shows "\<exists>s1 s2. get_fat_entry c s = Some (Inr (Some (fat_table s c), s1)) \<and> fat_inv s1 \<and> fat_table s1 = fat_table s \<and>
      device s1 = device s \<and> (\<forall>k. fat_at s1 k = fat_at s k) \<and>
    set_fat_entry c v s = Some (Inr (Some (), s2)) \<and> fat_inv s2 \<and> fat_table s2 = (fat_table s)(c := v) \<and>
      device s2 = device s \<and> (\<forall>k. fat_at s2 k = None \<longleftrightarrow> fat_at s k = None)"
proof -
  obtain p where p: "fat_at s (unat (drop_bit 10 c)) = Some p" using assms(3) by blast
  obtain s' where b: "fat_cache_buffer (drop_bit 10 c) s = Some (Inr (Some p, s'))" "device s' = device s"
    "fat_cache_levels s' = fat_cache_levels s" "fat_at s' = fat_at s"
    by (rule fat_cache_hit [OF assms(1) _ p]) (use assms(2) in \<open>simp add: entry_valid_def\<close>, rule that)
  obtain r s1 where g: "get_fat_entry c s = Some (Inr (r, s1))" "fat_reads s s1" "r = None \<or> r = Some (fat_table s c)"
    by (rule get_fat_entry_spec [OF assms(1,2)], rule that)
  have g': "r = Some (fat_table s c)" "s1 = s'"
    using g(1,3) b(1) by (auto simp: get_fat_entry_def fbind_def fret_def)
  obtain w s2 where s: "set_fat_entry c v s = Some (Inr (w, s2))"
    "fat_writes s s2 (if w = None then fat_table s else (fat_table s)(c := v))"
    by (rule set_fat_entry_spec [OF assms(1,2), where v = v], rule that)
  let ?f = "\<lambda>pdesc. pdesc\<lparr>desc_buffer := store32 (desc_buffer pdesc) (4 * (c AND 0x3FF)) v, desc_dirty := True\<rparr>"
  have s': "w = Some ()" "s2 = s'\<lparr>fat_cache_root := cache_update (fat_cache_levels s') (drop_bit 10 c) ?f (fat_cache_root s')\<rparr>"
    using s(1) b(1) by (auto simp: set_fat_entry_def Let_def fbind_def fret_def)
  have at: "fat_at s2 k = None \<longleftrightarrow> fat_at s k = None" for k
    using b(4) cache_update_spec(1) [of "fat_cache_levels s'" "drop_bit 10 c" ?f "fat_cache_root s'"] by (simp add: s'(2) fun_eq_iff)
  show ?thesis using g(1,2) s(1,2) b(2,4) at s' g' by (auto simp: fat_reads_def fat_writes_def)
qed

text \<open>The first cluster of the FAT is in the Fat-Cache, and the device always fails.\<close>

definition cached_fs :: fat_desc where
  "cached_fs = small_fs\<lparr>fat_cache_root := allocate_one_cache_node (Desc \<lparr>desc_lba = 32, desc_dirty = True, desc_buffer = (\<lambda>_. 0)\<rparr>),
     device := \<lparr>sectors = (\<lambda>_ _. 1), faults = (\<lambda>_. True), accesses = 0\<rparr>\<rparr>"

lemma cached_fs_at: "fat_at cached_fs k = (if k = 0 then Some \<lparr>desc_lba = 32, desc_dirty = True, desc_buffer = (\<lambda>_. 0)\<rparr> else None)"
  by (auto simp: cached_fs_def small_fs_def allocate_one_cache_node_def)

lemma cached_fs_inv: "fat_inv cached_fs"
  unfolding fat_inv_def cache_addressed_def cached_fs_at
  by (simp add: cached_fs_def small_fs_def allocate_one_cache_node_def)

lemma cached_fs_table: "drop_bit 10 c = 0 \<Longrightarrow> fat_table cached_fs c = 0"
  by (simp add: fat_table_def fat_cluster_def cached_fs_at entry_in_def load32_def)

lemma fat_entry_refines_array_witness:
  "\<exists>s1 s2. get_fat_entry 3 cached_fs = Some (Inr (Some 0, s1)) \<and>
    set_fat_entry 3 7 cached_fs = Some (Inr (Some (), s2)) \<and> fat_table s2 3 = 7 \<and> fat_table s2 2 = 0"
proof -
  have v: "entry_valid (fat_cache_levels cached_fs) 3" "fat_at cached_fs (unat (drop_bit 10 (3 :: u32))) \<noteq> None"
    using small_fs_valid [of 3] by (simp_all add: cached_fs_at) (simp add: cached_fs_def)
  have z: "fat_table cached_fs 3 = 0" "fat_table cached_fs 2 = 0" by (rule cached_fs_table, simp)+
  show ?thesis using fat_entry_refines_array [OF cached_fs_inv v, of 7] z by auto
qed

text \<open>writing back the FAT never changes the table the driver works on, whatever accesses
  fail, and when it reports success the table stored on the device is that table.\<close>

theorem update_fat_durable:
  assumes "fat_inv s"
  shows "\<exists>r s'. update_fat s = Some (Inr (r, s')) \<and> fat_inv s' \<and> fat_table s' = fat_table s \<and>
    (r = Some () \<longrightarrow> device_table s' = fat_table s) \<and> (faultless s \<longrightarrow> r = Some ())"
  by (rule update_fat_spec [OF assms]) (auto simp: fat_writes_def)

text \<open>The table of the device after the entry 3 was written in the cache only, then written back.\<close>

lemma update_fat_durable_witness:
  "\<exists>w s2 s'. set_fat_entry 3 7 small_fs = Some (Inr (w, s2)) \<and> device_table s2 3 = 0 \<and>
    update_fat s2 = Some (Inr (Some (), s')) \<and> device_table s' 3 = 7"
proof -
  have v: "entry_valid (fat_cache_levels small_fs) 3" using small_fs_valid [of 3] by simp
  obtain w s2 where w: "set_fat_entry 3 7 small_fs = Some (Inr (w, s2))" "w = Some ()"
    "fat_writes small_fs s2 (if w = None then fat_table small_fs else (fat_table small_fs)(3 := 7))"
    "sectors (device s2) = sectors (device small_fs)"
    by (rule set_fat_entry_spec [OF small_fs_inv v, where v = 7]) (use small_fs_faultless in blast)
  have s2: "fat_inv s2" "fat_frame small_fs s2" "fat_table s2 3 = 7"
    using w(2,3) by (auto simp: fat_writes_def)
  have "device_table s2 3 = 0"
    using w(4) by (simp add: device_table_def entry_in_def load32_def device_block_def)
  moreover from update_fat_durable [OF s2(1)] obtain s' where
    "update_fat s2 = Some (Inr (Some (), s'))" "device_table s' = fat_table s2"
    using small_fs_faultless faultless_frame [OF s2(2)] by auto
  ultimately show ?thesis using w(1) s2(3) by auto
qed

text \<open>C37: \<open>_clusters_allocate\<close> on a file whose chain is \<open>old\<close> (empty for a new file) returns
  success and appends as many clusters as required: the chain of the file becomes
  \<open>old @ new\<close>, \<open>new\<close> are distinct clusters that were free, no entry but theirs and the last of \<open>old\<close>
  changes, the hint and the counter still describe the free clusters, the device has the new
  table, and the File-Cache has a dirty buffer for each new cluster.\<close>

theorem clusters_allocate_extends_chain:
  assumes "free_inv s" "faultless s" "inode_wf i"
    and "unat m = length old" "old \<noteq> [] \<Longrightarrow> fat_chain (fat_table s) (inode_cluster i) old"
      "distinct old" "set old \<subseteq> data_clusters s"
    and "0 < unat k" "unat m + unat k < 2 ^ 20" "k < free_clusters_number s"
    and "\<And>q. unat m \<le> q \<Longrightarrow> q < unat m + unat k \<Longrightarrow> inode_at i q = None"
  shows "\<exists>new i' s'. clusters_allocate m k (i, s) = Some (Inr (Some (), (i', s'))) \<and>
    length new = unat k \<and> distinct new \<and> set new \<subseteq> free_set s \<and>
    fat_chain (fat_table s') (inode_cluster i') (old @ new) \<and>
    (\<forall>x. x \<notin> set new \<longrightarrow> old = [] \<or> x \<noteq> last old \<longrightarrow> fat_table s' x = fat_table s x) \<and>
    free_inv s' \<and> free_set s' = free_set s - set new \<and> device_table s' = fat_table s' \<and>
    inode_at i' = (\<lambda>q. if unat m \<le> q \<and> q < unat m + unat k
      then Some (new_desc s (new ! (q - unat m))) else inode_at i q)"
proof -
  obtain new i' s' where a: "clusters_allocate m k (i, s) = Some (Inr (Some (), (i', s')))"
    "length new = unat k" "loop_post i s (unat m) old new i' s'" "device_table s' = fat_table s'"
    by (rule clusters_allocate_spec [OF assms])
  moreover have "new \<noteq> []" using a(2) assms(8) by auto
  ultimately show ?thesis
    by (intro exI [of _ new] exI [of _ i'] exI [of _ s']) (simp add: loop_post_def)
qed

lemma clusters_allocate_extends_chain_witness:
  "\<exists>new i' s'. clusters_allocate 0 1 (empty_file, small_fs) = Some (Inr (Some (), (i', s'))) \<and>
    length new = 1 \<and> fat_chain (fat_table s') (inode_cluster i') new \<and> device_table s' = fat_table s'"
  using clusters_allocate_extends_chain [OF small_fs_free_inv small_fs_faultless empty_file_wf(1),
      of 0 "[]" 1] empty_file_wf(2) by fastforce

text \<open>C38: releasing the clusters that were allocated to an empty file gives back the file system:
  the table in the cache and on the device, the set of free clusters, the counter and the hint
  are those from before the allocation.\<close>

theorem release_undoes_allocate:
  assumes "free_inv s" "faultless s" "inode_wf i" "\<And>q. q < unat k \<Longrightarrow> inode_at i q = None"
    and "0 < unat k" "unat k < 2 ^ 20" "k < free_clusters_number s"
  shows "\<exists>i' s1 s2. clusters_allocate 0 k (i, s) = Some (Inr (Some (), (i', s1))) \<and>
    clusters_release (inode_cluster i') s1 = Some (Inr (Some (), s2)) \<and>
    free_inv s2 \<and> fat_table s2 = fat_table s \<and> device_table s2 = fat_table s \<and> free_set s2 = free_set s \<and>
    free_clusters_number s2 = free_clusters_number s \<and> first_free_cluster s2 = first_free_cluster s"
proof -
  obtain new i' s1 where a: "clusters_allocate 0 k (i, s) = Some (Inr (Some (), (i', s1)))"
    "length new = unat k" "loop_post i s (unat 0) [] new i' s1" "device_table s1 = fat_table s1"
    by (rule clusters_allocate_spec [OF assms(1-3), of 0 "[]" k]) (use assms in auto)
  then have l: "free_inv s1" "fat_moves s s1" "distinct new" "set new \<subseteq> free_set s" "free_set s1 = free_set s - set new"
    "fat_chain (fat_table s1) (inode_cluster i') new" "\<And>x. x \<notin> set new \<Longrightarrow> fat_table s1 x = fat_table s x"
    using assms(5) by (auto simp: loop_post_def)
  note mv = fat_movesD [OF l(2)]
  have free: "x \<in> data_clusters s1 \<and> fat_table s x = FREE_CLUSTER" if "x \<in> set new" for x
    using l(4) that mv by (auto simp: free_set_def subset_iff)
  obtain s2 where r: "clusters_release (inode_cluster i') s1 = Some (Inr (Some (), s2))" "free_inv s2" "fat_moves s1 s2"
    "free_set s2 = free_set s1 \<union> set new"
    "fat_table s2 = (\<lambda>x. if x \<in> set new then FREE_CLUSTER else fat_table s1 x)"
    "device_table s2 = fat_table s2"
    by (rule clusters_release_spec [OF l(1) _ l(6,3)]) (use assms(2) mv free in auto)
  have t: "fat_table s2 = fat_table s" by (auto simp: r(5) fun_eq_iff l(7) free)
  have fs: "free_set s2 = free_set s" using l(4,5) r(4) by auto
  have "unat (free_clusters_number s2) = unat (free_clusters_number s)"
    using assms(1) r(2) fs by (simp add: free_inv_def)
  moreover have "first_free_cluster s2 = first_free_cluster s"
    using assms(1) r(2) fs by (intro antisym) (auto simp: free_inv_def)
  ultimately show ?thesis
    using a(1) r(1,2,6) t fs by (auto simp: word_unat_eq_iff)
qed

lemma release_undoes_allocate_witness:
  "\<exists>i' s1 s2. clusters_allocate 0 1 (empty_file, small_fs) = Some (Inr (Some (), (i', s1))) \<and>
    clusters_release (inode_cluster i') s1 = Some (Inr (Some (), s2)) \<and> fat_table s2 = (\<lambda>_. 0)"
  using release_undoes_allocate [OF small_fs_free_inv small_fs_faultless empty_file_wf(1), of 1]
    empty_file_wf(2) by (fastforce simp: small_fs_table)

text \<open>The last free cluster is never given: with one cluster left, \<open>_allocate_one_cluster\<close>
  fails (``unconsistent FAT state''), although the counter says 1, and leaves the table, the hint and the
  counter as they were; with more, it returns the smallest free cluster.\<close>

theorem last_free_cluster_refused:
  assumes "free_inv s" "faultless s" "first_free_cluster s < fat_limit s"
  shows "\<exists>r s'. allocate_one_cluster s = Some (Inr (r, s')) \<and> free_inv s' \<and>
    (r = None \<longleftrightarrow> free_clusters_number s = 1) \<and>
    (r = None \<longrightarrow> fat_table s' = fat_table s \<and> free_clusters_number s' = free_clusters_number s) \<and>
    (r \<noteq> None \<longrightarrow> r = Some (first_free_cluster s) \<and> free_set s' = free_set s - {first_free_cluster s})"
proof -
  have f: "first_free_cluster s \<in> free_set s" and n: "unat (free_clusters_number s) = card (free_set s)"
    using assms(1) by (auto simp: free_inv_def)
  have one: "free_set s = {first_free_cluster s} \<longleftrightarrow> free_clusters_number s = 1"
  proof -
    have "free_clusters_number s = 1 \<longleftrightarrow> card (free_set s) = 1" by (simp add: word_unat_eq_iff n)
    then show ?thesis using f by (auto simp: card_1_singleton_iff)
  qed
  show ?thesis
  proof (cases "free_clusters_number s = 1")
    case True
    then obtain s' where "allocate_one_cluster s = Some (Inr (None, s'))" "fat_reads s s'"
      using allocate_one_cluster_last [OF assms(1,2) _ assms(3)] one by auto
    then show ?thesis
      using True free_inv_frame(1) [OF assms(1)] fat_frameD by (auto simp: fat_reads_def)
  next
    case False
    then have more: "free_set s \<noteq> {first_free_cluster s}" using one by simp
    show ?thesis
      by (rule allocate_one_cluster_spec [OF assms(1,2) more]) (use False in auto)
  qed
qed

lemma last_free_cluster_refused_witness:
  "\<exists>r s'. allocate_one_cluster small_fs = Some (Inr (r, s')) \<and> r = Some 2"
  using last_free_cluster_refused [OF small_fs_free_inv small_fs_faultless] by (fastforce simp: small_fs_limit)

end
