(* ===== verification/Fat_Names.thy ===== *)
theory Fat_Names
  imports Fat_File
begin

text \<open>
  Names, paths and directory entries of the FAT32 driver (\<open>giet_fat32/fat32.c\<close>): the scan of a
  path, the 32-byte entries that \<open>_add_dir_entry\<close> writes (three steps for the parts of a long
  name, one for the NORMAL entry), and the fields and names that the scan of a directory reads
  back. A C string is the list of its bytes before the null byte.
\<close>

section \<open>Fields of an entry\<close>

definition fat_read_entry :: "mem \<Rightarrow> u32 \<Rightarrow> nat \<Rightarrow> bool \<Rightarrow> u32" where
  "fat_read_entry buffer offset sz little_endian =
    fold (\<lambda>n res. push_bit 8 res OR ucast (buffer (offset + word_of_nat n)))
      (if little_endian then rev [0..<sz] else [0..<sz]) 0"

definition to_lower :: "u8 \<Rightarrow> u8" where
  "to_lower c = (if 65 \<le> c \<and> c \<le> 90 then c OR 0x20 else c)"

definition to_upper :: "u8 \<Rightarrow> u8" where
  "to_upper c = (if 97 \<le> c \<and> c \<le> 122 then c AND NOT 0x20 else c)"

section \<open>Paths\<close>

definition NAME_MAX_SIZE :: nat where "NAME_MAX_SIZE = 31"

definition char_at :: "u8 list \<Rightarrow> nat \<Rightarrow> u8" where
  "char_at s i = (if i < length s then s ! i else 0)"

text \<open>The loop that copies one name: \<open>None\<close> when it is longer than 31 characters.\<close>

function path_name_loop :: "u8 list \<Rightarrow> nat \<Rightarrow> u8 list \<Rightarrow> u8 list option" where
  "path_name_loop pathname i name =
    (if char_at pathname i \<noteq> 47 \<and> char_at pathname i \<noteq> 0
     then let name = name @ [char_at pathname i]
          in if length name > NAME_MAX_SIZE then None else path_name_loop pathname (i + 1) name
     else Some name)"
  by pat_completeness auto
termination
  by (relation "measure (\<lambda>(p, i, _). length p - i)") (auto simp: char_at_def split: if_splits)

declare path_name_loop.simps [simp del]

text \<open>The result is the name and the new value of \<open>nb_read\<close>.\<close>

definition get_name_from_path :: "u8 list \<Rightarrow> nat \<Rightarrow> (u8 list \<times> nat) option" where
  "get_name_from_path pathname nb_read =
    (let nb_read = (if char_at pathname nb_read = 47 then nb_read + 1 else nb_read)
     in case path_name_loop pathname nb_read [] of
          None \<Rightarrow> None
        | Some name \<Rightarrow>
            Some (name, if char_at pathname (nb_read + length name) = 47
                        then nb_read + (length name + 1) else nb_read + length name))"

text \<open>What the loop computes: the characters up to a slash or the end.\<close>

definition name_chars :: "u8 \<Rightarrow> bool" where
  "name_chars c \<longleftrightarrow> c \<noteq> 47 \<and> c \<noteq> 0"

definition path_word :: "u8 list \<Rightarrow> nat \<Rightarrow> u8 list" where
  "path_word p i = takeWhile name_chars (drop i p)"

lemma path_word_step:
  "name_chars (char_at p i) \<Longrightarrow> path_word p i = char_at p i # path_word p (i + 1)"
  by (auto simp: path_word_def char_at_def name_chars_def simp flip: Cons_nth_drop_Suc split: if_splits)

lemma path_word_end: "\<not> name_chars (char_at p i) \<Longrightarrow> path_word p i = []"
  by (cases "i < length p")
    (auto simp: path_word_def char_at_def simp flip: Cons_nth_drop_Suc split: if_splits)

lemma path_name_loop_eq:
  "length ns \<le> NAME_MAX_SIZE \<Longrightarrow> path_name_loop p i ns =
    (if length ns + length (path_word p i) \<le> NAME_MAX_SIZE then Some (ns @ path_word p i) else None)"
proof (induction p i ns rule: path_name_loop.induct)
  case (1 p i ns)
  show ?case
  proof (cases "name_chars (char_at p i)")
    case True
    then show ?thesis
      using 1 by (subst path_name_loop.simps) (auto simp: name_chars_def Let_def path_word_step)
  next
    case False
    then show ?thesis
      using 1(2) by (subst path_name_loop.simps) (auto simp: name_chars_def path_word_end)
  qed
qed

lemma get_name_from_path_eq:
  "get_name_from_path p n =
    (let n = (if char_at p n = 47 then n + 1 else n); w = path_word p n
     in if length w \<le> NAME_MAX_SIZE
        then Some (w, n + length w + (if char_at p (n + length w) = 47 then 1 else 0)) else None)"
  by (simp add: get_name_from_path_def path_name_loop_eq Let_def)

lemma path_word_bound: "i \<le> length p \<Longrightarrow> i + length (path_word p i) \<le> length p"
  using length_takeWhile_le [of name_chars "drop i p"] by (simp add: path_word_def)

text \<open>Each call reads at least one character, so the loop of \<open>_get_last_name\<close> ends.\<close>

lemma get_name_from_path_progress:
  assumes "get_name_from_path p n = Some (name, n')" "char_at p n \<noteq> 0"
  shows "n < n'" "n' \<le> length p"
proof -
  have n: "n < length p" using assms(2) by (auto simp: char_at_def split: if_splits)
  have 1: "name_chars (char_at p n) \<Longrightarrow> 0 < length (path_word p n)"
    by (simp add: path_word_step)
  have 2: "char_at p i = 47 \<Longrightarrow> i < length p" for i by (auto simp: char_at_def split: if_splits)
  show "n < n'"
    using assms 1 by (auto simp: get_name_from_path_eq Let_def name_chars_def split: if_splits)
  show "n' \<le> length p"
    using assms(1) n path_word_bound [of n p] path_word_bound [of "n + 1" p] 2
    by (auto simp: get_name_from_path_eq Let_def Suc_le_eq split: if_splits)
qed

text \<open>\<open>_get_last_name\<close>: \<open>name\<close> is the content of the buffer before the call.\<close>

function last_name_loop :: "u8 list \<Rightarrow> nat \<Rightarrow> u8 list \<Rightarrow> u8 list option" where
  "last_name_loop pathname nb_read name =
    (if char_at pathname nb_read \<noteq> 0
     then case get_name_from_path pathname nb_read of
            None \<Rightarrow> None
          | Some (name, nb_read) \<Rightarrow> last_name_loop pathname nb_read name
     else Some name)"
  by pat_completeness auto
termination
proof (relation "measure (\<lambda>(p, n, _). length p - n)")
  fix p n name and r :: "u8 list \<times> nat" and x n'
  assume "char_at p n \<noteq> 0" "get_name_from_path p n = Some r" "(x, n') = r"
  then show "((p, n', x), (p, n, name)) \<in> measure (\<lambda>(p, n, _). length p - n)"
    using get_name_from_path_progress [of p n x n'] by auto
qed simp

declare last_name_loop.simps [simp del]

definition get_last_name :: "u8 list \<Rightarrow> u8 list \<Rightarrow> u8 list option" where
  "get_last_name pathname name = last_name_loop pathname 0 name"

text \<open>The path \<open>/n1/n2/.../nk\<close>, with or without a slash at its end, has the last name \<open>nk\<close>.\<close>

definition path_of :: "u8 list list \<Rightarrow> u8 list" where
  "path_of ns = concat (map (\<lambda>n. 47 # n) ns)"

definition good_name :: "u8 list \<Rightarrow> bool" where
  "good_name n \<longleftrightarrow> n \<noteq> [] \<and> length n \<le> NAME_MAX_SIZE \<and> (\<forall>c\<in>set n. name_chars c)"

lemma char_at_append: "char_at (xs @ ys) i = (if i < length xs then xs ! i else char_at ys (i - length xs))"
  by (auto simp: char_at_def nth_append)

lemma char_at_offset [simp]: "char_at (xs @ ys) (length xs + i) = char_at ys i"
  by (simp add: char_at_append)

lemma path_word_offset [simp]: "path_word (xs @ ys) (length xs + i) = path_word ys i"
  by (simp add: path_word_def)

lemma get_name_from_path_offset:
  "get_name_from_path (xs @ ys) (length xs + i) =
    map_option (\<lambda>(n, j). (n, length xs + j)) (get_name_from_path ys i)"
  using char_at_offset [of xs ys] path_word_offset [of xs ys]
  by (auto simp: get_name_from_path_eq Let_def add.assoc simp del: char_at_offset path_word_offset
      simp flip: add_Suc_right)

lemma last_name_loop_offset: "last_name_loop (xs @ ys) (length xs + i) name = last_name_loop ys i name"
proof (induction ys i name rule: last_name_loop.induct)
  case (1 ys i name)
  then show ?case
    by (subst (1 2) last_name_loop.simps) (auto simp: get_name_from_path_offset split: option.split)
qed

lemma path_word_name:
  assumes "good_name n" "rest = [] \<or> hd rest = 47"
  shows "path_word (n @ rest) 0 = n"
proof -
  have "takeWhile name_chars rest = []" using assms(2) by (cases rest) (auto simp: name_chars_def)
  then show ?thesis using assms(1) by (simp add: path_word_def good_name_def takeWhile_append2)
qed


lemma get_name_from_path_name:
  assumes "good_name n" "rest = [] \<or> hd rest = 47"
  shows "get_name_from_path (n @ rest) 0 = Some (n, length n + (if rest = [] then 0 else 1))"
    "get_name_from_path (47 # n @ rest) 0 = Some (n, Suc (length n) + (if rest = [] then 0 else 1))"
proof -
  have c: "char_at (n @ rest) 0 \<noteq> 47" "char_at (n @ rest) (length n) = 47 \<longleftrightarrow> rest \<noteq> []"
    using assms by (cases n; cases rest; auto simp: char_at_def good_name_def name_chars_def)+
  have l: "length n \<le> NAME_MAX_SIZE" using assms(1) by (simp add: good_name_def)
  note w = path_word_name [OF assms]
  show "get_name_from_path (n @ rest) 0 = Some (n, length n + (if rest = [] then 0 else 1))"
    using c l by (simp add: get_name_from_path_eq w)
  have "path_word (47 # n @ rest) (Suc 0) = n" using w by (simp add: path_word_def)
  moreover have "char_at (47 # n @ rest) (Suc i) = char_at (n @ rest) i" for i
    by (simp add: char_at_def)
  ultimately show "get_name_from_path (47 # n @ rest) 0 = Some (n, Suc (length n) + (if rest = [] then 0 else 1))"
    using c l by (simp add: get_name_from_path_eq char_at_def [of _ 0])
qed

lemma last_name_loop_end: "last_name_loop p (length p) name = Some name"
  by (subst last_name_loop.simps) (simp add: char_at_def)

lemma last_name_loop_names:
  assumes "good_name n" "\<forall>m\<in>set ns. good_name m" "slash = [] \<or> slash = [47]"
  shows "last_name_loop (n @ path_of ns @ slash) 0 name = Some (last (n # ns))"
    "last_name_loop (47 # n @ path_of ns @ slash) 0 name = Some (last (n # ns))"
proof -
  have "last_name_loop (p @ n @ path_of ns @ slash) 0 name = Some (last (n # ns))"
    if "p = [] \<or> p = [47]" for p
    using that assms
  proof (induction ns arbitrary: n p name)
    case Nil
    let ?p = "p @ n @ slash"
    have "get_name_from_path ?p 0 = Some (n, length ?p)"
      using get_name_from_path_name [OF Nil(2), of slash] Nil(1,4) by auto
    moreover have "char_at ?p 0 \<noteq> 0"
      using Nil(1,2) by (cases n) (auto simp: char_at_def good_name_def name_chars_def)
    ultimately show ?case
      by (subst last_name_loop.simps) (simp add: path_of_def last_name_loop_end [of "p @ n @ slash", simplified])
  next
    case (Cons m ns)
    let ?rest = "m @ path_of ns @ slash"
    let ?p = "p @ n @ [47]"
    have pe: "p @ n @ path_of (m # ns) @ slash = ?p @ ?rest" by (simp add: path_of_def)
    have "get_name_from_path (?p @ ?rest) 0 = Some (n, length ?p + 0)"
      using get_name_from_path_name [OF Cons.prems(2), of "47 # ?rest"] Cons.prems(1) by auto
    moreover have "char_at (?p @ ?rest) 0 \<noteq> 0"
      using Cons.prems(1,2) by (cases n) (auto simp: char_at_def good_name_def name_chars_def)
    ultimately have "last_name_loop (?p @ ?rest) 0 name = last_name_loop (?p @ ?rest) (length ?p + 0) n"
      by (subst last_name_loop.simps) simp
    also have "\<dots> = last_name_loop ([] @ ?rest) 0 n" by (subst last_name_loop_offset) simp
    also have "\<dots> = Some (last (m # ns))"
      by (rule Cons.IH) (use Cons.prems in auto)
    finally show ?case by (simp add: pe)
  qed
  from this [of "[]"] this [of "[47]"]
  show "last_name_loop (n @ path_of ns @ slash) 0 name = Some (last (n # ns))"
    "last_name_loop (47 # n @ path_of ns @ slash) 0 name = Some (last (n # ns))" by auto
qed

lemma get_last_name_path:
  assumes "ns \<noteq> []" "\<forall>m\<in>set ns. good_name m" "slash = [] \<or> slash = [47]"
  shows "get_last_name (path_of ns @ slash) name = Some (last ns)"
  using assms last_name_loop_names(2) [of "hd ns" "tl ns" slash]
  by (cases ns) (auto simp: get_last_name_def path_of_def)

section \<open>Entries\<close>

definition DIR_ATTR :: u32 where "DIR_ATTR = 11"
definition LDIR_ORD :: u32 where "LDIR_ORD = 0"
definition DIR_FST_CLUS_HI :: u32 where "DIR_FST_CLUS_HI = 20"
definition DIR_FST_CLUS_LO :: u32 where "DIR_FST_CLUS_LO = 26"
definition DIR_FILE_SIZE :: u32 where "DIR_FILE_SIZE = 28"
definition ATTR_LONG_NAME_MASK :: u32 where "ATTR_LONG_NAME_MASK = 0x0F"
definition ATTR_DIRECTORY :: u32 where "ATTR_DIRECTORY = 0x10"
definition FREE_ENTRY :: u32 where "FREE_ENTRY = 0xE5"
definition NO_MORE_ENTRY :: u32 where "NO_MORE_ENTRY = 0"

definition get_name_from_short :: "mem \<Rightarrow> u32 \<Rightarrow> u8 list" where
  "get_name_from_short buffer off =
    (let name = takeWhile (\<lambda>c. c \<noteq> 32) (map (\<lambda>i. buffer (off + word_of_nat i)) [0..<8]);
         ext = takeWhile (\<lambda>c. c \<noteq> 32) (map (\<lambda>i. buffer (off + word_of_nat i)) [8..<11])
     in map to_lower name @ (if ext = [] then [] else 46 # map to_lower ext))"

text \<open>The bytes of an entry that hold the characters of a long name.\<close>

definition lfn_offsets :: "nat list" where
  "lfn_offsets = [1, 3, 5, 7, 9, 14, 16, 18, 20, 22, 24, 28, 30]"

definition get_name_from_long :: "mem \<Rightarrow> u32 \<Rightarrow> u8 list" where
  "get_name_from_long buffer off =
    takeWhile (\<lambda>c. c \<noteq> 0 \<and> c \<noteq> 0xFF) (map (\<lambda>i. buffer (off + word_of_nat i)) lfn_offsets)"

text \<open>The length of a name and the number of its parts.\<close>

definition check_name_length :: "u8 list \<Rightarrow> (nat \<times> nat) option" where
  "check_name_length name =
    (if length name \<le> 13 then Some (length name, 1)
     else if length name \<le> 26 then Some (length name, 2)
     else if length name \<le> 31 then Some (length name, 3)
     else None)"

text \<open>
  The loops over the 32 bytes of an entry, in the order of the bytes: \<open>c\<close> is the index of the next
  character of the name. \<open>write_lfn\<close> is the loop of the steps 5, 4 and 3 of \<open>_add_dir_entry\<close>.
\<close>

definition write_lfn :: "u8 \<Rightarrow> u8 list \<Rightarrow> nat \<Rightarrow> u32 \<Rightarrow> mem \<Rightarrow> mem" where
  "write_lfn ord name c off buffer =
    snd (fold (\<lambda>i (c, buffer).
        let entry = off + word_of_nat i
        in if i = 0 then (c, buffer(entry := ord))
           else if i \<in> set lfn_offsets \<and> c < length name then (c + 1, buffer(entry := name ! c))
           else if i = 11 then (c, buffer(entry := 0x0F))
           else if i = 12 then (c, buffer(entry := 0xCA))
           else (c, buffer(entry := 0)))
      [0..<32] (c, buffer))"

definition write_normal :: "u8 list \<Rightarrow> bool \<Rightarrow> u32 \<Rightarrow> u32 \<Rightarrow> u32 \<Rightarrow> mem \<Rightarrow> mem" where
  "write_normal name is_dir cluster nbytes off buffer =
    snd (fold (\<lambda>i (c, buffer).
        let entry = off + word_of_nat i
        in if i < 8 \<and> c < length name then (c + 1, buffer(entry := to_upper (name ! c)))
           else if i < 11 then (c, buffer(entry := 0x20))
           else if i = 11 then (c, buffer(entry := if is_dir then 0x10 else 0x20))
           else if i = 20 then (c, buffer(entry := ucast (drop_bit 16 cluster)))
           else if i = 21 then (c, buffer(entry := ucast (drop_bit 24 cluster)))
           else if i = 26 then (c, buffer(entry := ucast cluster))
           else if i = 27 then (c, buffer(entry := ucast (drop_bit 8 cluster)))
           else if i = 28 then (c, buffer(entry := ucast nbytes))
           else if i = 29 then (c, buffer(entry := ucast (drop_bit 8 nbytes)))
           else if i = 30 then (c, buffer(entry := ucast (drop_bit 16 nbytes)))
           else if i = 31 then (c, buffer(entry := ucast (drop_bit 24 nbytes)))
           else (c, buffer(entry := 0)))
      [0..<32] (0, buffer))"

end
