(* ===== verification/Fat_Buffer.thy ===== *)
theory Fat_Buffer
  imports Fat_File
begin

text \<open>
  The buffers of a file (\<open>giet_fat32/fat32.c\<close>): \<open>_get_buffer_from_cache\<close> for a File-Cache, which
  follows the chain of the file in the FAT on a miss. \<open>file_cluster\<close> is the content of a cluster of
  the file, wherever it is; \<open>file_inv\<close> relates the File-Cache, the chain and the device.
\<close>

section \<open>Finding or loading a cluster of a file\<close>

fun follow_chain :: "nat \<Rightarrow> u32 \<Rightarrow> (u32, fat_desc) fat_op" where
  "follow_chain 0 current = fret current"
| "follow_chain (Suc count) current = fbind (get_fat_entry current) (follow_chain count)"

definition load_file_cluster :: "u32 \<Rightarrow> nat \<Rightarrow> (fat_cache_desc, fat_desc) fat_op" where
  "load_file_cluster cluster count =
    fbind (follow_chain count cluster) (\<lambda>current s.
      case cluster_to_lba s current of
        Inl e \<Rightarrow> Some (Inl e)
      | Inr lba \<Rightarrow> (case load_cluster lba (device s) of
            (pdesc, d) \<Rightarrow> Some (Inr (pdesc, s\<lparr>device := d\<rparr>))))"

text \<open>The part of the loop on a miss, with the state of the file system and a possible exit.\<close>

definition file_miss ::
    "u32 \<Rightarrow> nat \<Rightarrow> (panic + fat_desc) option \<Rightarrow> fat_cache_desc option \<times> (panic + fat_desc) option" where
  "file_miss cluster count st = (case st of
      Some (Inr s) \<Rightarrow> (case load_file_cluster cluster count s of
          None \<Rightarrow> (None, None)
        | Some (Inl e) \<Rightarrow> (None, Some (Inl e))
        | Some (Inr (r, s')) \<Rightarrow> (r, Some (Inr s')))
    | _ \<Rightarrow> (None, st))"

text \<open>\<open>_get_buffer_from_cache\<close> with an inode.\<close>

definition file_cache_buffer :: "u32 \<Rightarrow> (fat_cache_desc, fat_inode \<times> fat_desc) fat_op" where
  "file_cache_buffer cluster_id = (\<lambda>(inode, s).
    let inode = add_levels (get_levels_from_size ((cluster_id + 1) * 4096)) inode
    in case cache_walk (inode_levels inode) cluster_id
          (file_miss (inode_cluster inode) (unat cluster_id)) (inode_cache inode) (Some (Inr s)) of
         None \<Rightarrow> None
       | Some (_, _, None) \<Rightarrow> None
       | Some (_, _, Some (Inl e)) \<Rightarrow> Some (Inl e)
       | Some (r, cache, Some (Inr s')) \<Rightarrow> Some (Inr (r, (inode\<lparr>inode_cache := cache\<rparr>, s'))))"

text \<open>A store through the descriptor of a cluster of the file.\<close>

definition file_update :: "u32 \<Rightarrow> (fat_cache_desc \<Rightarrow> fat_cache_desc) \<Rightarrow> (unit, fat_inode \<times> fat_desc) fat_op" where
  "file_update cluster_id f = (\<lambda>(inode, s). fret ()
    (inode\<lparr>inode_cache := cache_update (inode_levels inode) cluster_id f (inode_cache inode)\<rparr>, s))"

section \<open>The contents of a file\<close>

definition cluster_lba :: "fat_desc \<Rightarrow> u32 \<Rightarrow> u32" where
  "cluster_lba s c = push_bit 3 (c - 2) + data_lba s"

definition file_cluster :: "fat_inode \<Rightarrow> u32 list \<Rightarrow> fat_desc \<Rightarrow> nat \<Rightarrow> mem" where
  "file_cluster i cs s k = (case inode_at i k of
      Some p \<Rightarrow> desc_buffer p | None \<Rightarrow> device_block (device s) (cluster_lba s (cs ! k)))"

text \<open>
  A file whose chain is \<open>cs\<close>: the descriptors are those of its clusters, and a clean buffer is what
  the device has.
\<close>

definition file_inv :: "fat_inode \<Rightarrow> u32 list \<Rightarrow> fat_desc \<Rightarrow> bool" where
  "file_inv i cs s \<longleftrightarrow> fat_inv s \<and> inode_wf i \<and> length cs < 2 ^ 20 \<and>
    fat_chain (fat_table s) (inode_cluster i) cs \<and> distinct cs \<and>
    (\<forall>c\<in>set cs. 2 \<le> c \<and> entry_valid (fat_cache_levels s) c) \<and>
    (\<forall>k p. inode_at i k = Some p \<longrightarrow> k < length cs \<and> desc_lba p = cluster_lba s (cs ! k) \<and>
      (\<not> desc_dirty p \<longrightarrow> same_cluster (desc_buffer p) (device_block (device s) (cluster_lba s (cs ! k)))))"

lemma follow_chain_spec:
  assumes "fat_inv s" "fat_chain (fat_table s) c cs" "k < length cs"
    "\<And>x. x \<in> set cs \<Longrightarrow> entry_valid (fat_cache_levels s) x"
  shows "\<exists>r s'. follow_chain k c s = Some (Inr (r, s')) \<and> fat_reads s s' \<and>
    (r = None \<or> r = Some (cs ! k)) \<and> (faultless s \<longrightarrow> r \<noteq> None)"
  using assms
proof (induction k arbitrary: c cs s)
  case 0
  then show ?case by (cases cs) (auto simp: fret_def fat_chain_Cons intro: fat_reads_refl)
next
  case (Suc k)
  then obtain x y ys where cs: "cs = x # y # ys" by (cases cs; cases "tl cs") auto
  with Suc.prems have c: "c = x" and tail: "fat_chain (fat_table s) (fat_table s x) (y # ys)"
    by (auto simp: fat_chain_Cons)
  obtain r s1 where g: "get_fat_entry x s = Some (Inr (r, s1))" "fat_reads s s1"
      "r = None \<or> r = Some (fat_table s x)" "faultless s \<Longrightarrow> r = Some (fat_table s x)"
    by (rule get_fat_entry_spec [OF Suc.prems(1), of x], rule Suc.prems(4)) (auto simp: cs)
  have s1: "fat_inv s1" "fat_frame s s1" "fat_table s1 = fat_table s"
    using g(2) by (auto simp: fat_reads_def)
  show ?case
  proof (cases r)
    case None
    then show ?thesis using g by (auto simp: c fbind_def)
  next
    case (Some v)
    then have v: "v = fat_table s x" using g(3) by simp
    have "\<exists>r s'. follow_chain k v s1 = Some (Inr (r, s')) \<and> fat_reads s1 s' \<and>
      (r = None \<or> r = Some ((y # ys) ! k)) \<and> (faultless s1 \<longrightarrow> r \<noteq> None)"
      by (rule Suc.IH)
        (use s1 tail v Suc.prems(3,4) fat_frameD(1) [OF s1(2)] in \<open>auto simp: cs\<close>)
    then show ?thesis
      using g(1) Some fat_reads_trans [OF g(2)] faultless_frame [OF s1(2)] by (auto simp: c fbind_def cs)
  qed
qed


lemma fat_reads_device:
  assumes "fat_reads s s'"
  shows "device_block (device s') = device_block (device s)" "cluster_lba s' = cluster_lba s"
    "fat_cache_levels s' = fat_cache_levels s" "faultless s' = faultless s" "fat_table s' = fat_table s" "fat_inv s'"
  using assms fat_frameD [of s s'] device_block_sectors [of "device s'" "device s"] faultless_frame
  by (auto simp: fat_reads_def cluster_lba_def fun_eq_iff)

lemma fat_reads_accesses:
  assumes "fat_inv s" "sectors d = sectors (device s)" "faults d = faults (device s)"
  shows "fat_reads s (s\<lparr>device := d\<rparr>)"
proof -
  have b: "device_block d = device_block (device s)" using assms(2) by (rule device_block_sectors)
  have "fat_inv (s\<lparr>device := d\<rparr>)" using assms(1) by (simp add: fat_inv_def b)
  moreover have "fat_cluster (s\<lparr>device := d\<rparr>) = fat_cluster s"
    by (intro ext) (simp add: fat_cluster_def b split: option.split)
  then have "fat_table (s\<lparr>device := d\<rparr>) = fat_table s" by (intro ext) (simp add: fat_table_def)
  ultimately show ?thesis using assms by (simp add: fat_reads_def fat_frame_def)
qed

lemma load_file_cluster_spec:
  assumes inv: "file_inv i cs s" and k: "k < length cs"
  obtains r s' where "load_file_cluster (inode_cluster i) k s = Some (Inr (r, s'))" "fat_reads s s'"
    "\<And>p. r = Some p \<Longrightarrow> p = \<lparr>desc_lba = cluster_lba s (cs ! k), desc_dirty = False,
       desc_buffer = device_block (device s) (cluster_lba s (cs ! k))\<rparr>" "faultless s \<Longrightarrow> r \<noteq> None"
proof -
  from inv have fi: "fat_inv s" "fat_chain (fat_table s) (inode_cluster i) cs"
    and ev: "\<And>x. x \<in> set cs \<Longrightarrow> entry_valid (fat_cache_levels s) x" and c2: "2 \<le> cs ! k"
    using k by (auto simp: file_inv_def)
  obtain r s1 where f: "follow_chain k (inode_cluster i) s = Some (Inr (r, s1))" "fat_reads s s1"
    "r = None \<or> r = Some (cs ! k)" "faultless s \<Longrightarrow> r \<noteq> None"
    using follow_chain_spec [OF fi k ev] by blast
  note fr = fat_reads_device [OF f(2)]
  show ?thesis
  proof (cases r)
    case None
    then show ?thesis
      by (intro that [of None s1]) (use f in \<open>auto simp: load_file_cluster_def fbind_def\<close>)
  next
    case (Some c)
    have dl: "data_lba s1 = data_lba s" using f(2) fat_frameD by (auto simp: fat_reads_def)
    have nc: "\<not> cs ! k < 2" using c2 by (simp add: not_less)
    obtain q d where l: "load_cluster (cluster_lba s (cs ! k)) (device s1) = (q, d)" by fastforce
    then have d: "sectors d = sectors (device s1)" "faults d = faults (device s1)"
      and q: "\<And>p. q = Some p \<Longrightarrow> p = \<lparr>desc_lba = cluster_lba s (cs ! k), desc_dirty = False,
       desc_buffer = device_block (device s) (cluster_lba s (cs ! k))\<rparr>"
      and nf: "faultless s1 \<Longrightarrow> q \<noteq> None"
      by (auto simp: load_cluster_def fat_ioc_read_def faultless_def fr split: if_splits)
    have "load_file_cluster (inode_cluster i) k s = Some (Inr (q, s1\<lparr>device := d\<rparr>))"
      using f(1,3) Some nc l dl by (simp add: load_file_cluster_def fbind_def cluster_to_lba_def cluster_lba_def)
    moreover have "fat_reads s (s1\<lparr>device := d\<rparr>)"
      by (rule fat_reads_trans [OF f(2) fat_reads_accesses [OF fr(6) d]])
    ultimately show ?thesis using that q nf fr(4) by metis
  qed
qed

lemma file_cache_buffer_spec:
  assumes inv: "file_inv i cs s" and k: "unat c < length cs"
  obtains r i' s' where "file_cache_buffer c (i, s) = Some (Inr (r, (i', s')))" "file_inv i' cs s'"
    "fat_reads s s'" "\<And>j. same_cluster (file_cluster i' cs s' j) (file_cluster i cs s j)"
    "\<And>p. r = Some p \<Longrightarrow> inode_at i' (unat c) = Some p" "faultless s \<Longrightarrow> r \<noteq> None"
    "i' = i\<lparr>inode_cache := inode_cache i', inode_levels := inode_levels i'\<rparr>"
    "unat c < 64 ^ inode_levels i'"
proof -
  let ?k = "unat c"
  let ?r = "get_levels_from_size ((c + 1) * 4096)"
  have wf: "inode_wf i" and len: "length cs < 2 ^ 20"
    and ad: "\<And>k p. inode_at i k = Some p \<Longrightarrow> k < length cs \<and> desc_lba p = cluster_lba s (cs ! k) \<and>
      (\<not> desc_dirty p \<longrightarrow> same_cluster (desc_buffer p) (device_block (device s) (cluster_lba s (cs ! k))))"
    using inv by (auto simp: file_inv_def)
  define j where "j = add_levels ?r i"
  have j: "inode_wf j" "inode_at j = inode_at i" "inode_levels j = max ?r (inode_levels i)"
    and ij: "j = i\<lparr>inode_cache := inode_cache j, inode_levels := max ?r (inode_levels i)\<rparr>"
    using add_levels_spec [OF wf, of ?r] by (auto simp: j_def)
  have jc: "inode_cluster j = inode_cluster i" by (subst ij) simp
  obtain l where l: "inode_levels j = Suc l" and cwf: "cache_wf (Suc l) (inode_cache j)"
    using j(1) by (cases "inode_levels j") (auto simp: inode_wf_def)
  have "?k < 64 ^ ?r" by (rule levels_cover) (use k len in simp)
  also have "(64::nat) ^ ?r \<le> 64 ^ inode_levels j" by (intro power_increasing) (auto simp: j(3))
  finally have lt: "?k < 64 ^ Suc l" by (simp add: l)
  then have key: "cache_key (Suc l) c = ?k" by (simp add: cache_key_def)
  have at_k: "cache_at (Suc l) (inode_cache j) ?k = inode_at i ?k"
    using lt unfolding j(2) [symmetric] by (simp add: inode_at_def l)
  obtain q s1 where m: "load_file_cluster (inode_cluster i) ?k s = Some (Inr (q, s1))" "fat_reads s s1"
    "\<And>p. q = Some p \<Longrightarrow> p = \<lparr>desc_lba = cluster_lba s (cs ! ?k), desc_dirty = False,
       desc_buffer = device_block (device s) (cluster_lba s (cs ! ?k))\<rparr>" "faultless s \<Longrightarrow> q \<noteq> None"
    by (rule load_file_cluster_spec [OF inv k], rule that)
  let ?miss = "file_miss (inode_cluster j) ?k"
  have miss: "?miss (Some (Inr s)) = (q, Some (Inr s1))" by (simp add: file_miss_def jc m(1))
  define r s' where "r = (if inode_at i ?k = None then q else inode_at i ?k)"
    and "s' = (if inode_at i ?k = None then s1 else s)"
  have reads: "fat_reads s s'" using m(2) inv by (auto simp: s'_def file_inv_def intro: fat_reads_refl)
  note fr = fat_reads_device [OF reads]
  obtain t where w: "cache_walk (Suc l) c ?miss (inode_cache j) (Some (Inr s)) = Some (r, t, Some (Inr s'))"
    "cache_wf (Suc l) t" "cache_at (Suc l) t = (cache_at (Suc l) (inode_cache j))(?k := r)"
    using cache_walk_spec [OF cwf, of c ?miss "Some (Inr s)"] unfolding key at_k miss
    by (cases "inode_at i ?k") (auto simp: r_def s'_def)
  define i' where "i' = j\<lparr>inode_cache := t\<rparr>"
  have i': "inode_levels i' = Suc l" "inode_cache i' = t" "inode_cluster i' = inode_cluster i"
    by (simp_all add: i'_def l jc)
  have at: "inode_at i' = (inode_at i)(?k := r)"
    using lt w(3) unfolding j(2) [symmetric] by (auto simp: inode_at_def i' l fun_eq_iff)
  have rp: "?k < length cs \<and> desc_lba p = cluster_lba s (cs ! ?k) \<and>
      (\<not> desc_dirty p \<longrightarrow> same_cluster (desc_buffer p) (device_block (device s) (cluster_lba s (cs ! ?k))))"
    if "r = Some p" for p
    using that m(3) [of p] ad [of ?k p] k by (auto simp: r_def split: if_splits)
  show ?thesis
  proof (rule that)
    show "file_cache_buffer c (i, s) = Some (Inr (r, (i', s')))"
      using w(1) unfolding file_cache_buffer_def Let_def j_def [symmetric] prod.case l i'_def by simp
    show "file_inv i' cs s'"
      using inv rp ad w(2) unfolding file_inv_def fr at i' inode_wf_def by (auto simp: fr(6))
    show "fat_reads s s'" by (rule reads)
    show "same_cluster (file_cluster i' cs s' n) (file_cluster i cs s n)" for n
      using m(3) by (auto simp: file_cluster_def at fr r_def split: option.split)
    show "i' = i\<lparr>inode_cache := inode_cache i', inode_levels := inode_levels i'\<rparr>"
      unfolding i'_def by (subst ij) (simp add: j(3))
    show "r = Some p \<Longrightarrow> inode_at i' ?k = Some p" for p by (simp add: at)
    show "faultless s \<Longrightarrow> r \<noteq> None" using m(4) by (auto simp: r_def)
    show "?k < 64 ^ inode_levels i'" using lt by (simp add: i')
  qed
qed

end
