(* ===== verification/Fat_Sys.thy ===== *)
theory Fat_Sys
  imports Fat_Buffer Spin_Lock Mem_Utils
begin

text \<open>
  The state of the FAT32 driver seen by its system calls (\<open>giet_fat32/fat32.c\<close>, \<open>fat32.h\<close>): the
  FAT, the inodes by address, the file descriptors, the lock, and the memory of the caller. The
  operations on one inode of the theories below are lifted to it, and the inode tree is linked by
  addresses as in the code.
\<close>

section \<open>State\<close>

record fat_file_desc =
  fd_seek :: u32
  fd_inode :: u32
  fd_allocated :: bool
  fd_read_only :: bool

text \<open>\<open>fs_new k\<close> is the address that the \<open>k\<close>-th call of \<open>_malloc\<close> for an inode returns.\<close>

record file_sys =
  fs_fat :: fat_desc
  fs_inodes :: "u32 \<Rightarrow> fat_inode"
  fs_fd :: "u32 \<Rightarrow> fat_file_desc"
  fs_lock :: spin_lock
  fs_root :: u32
  fs_initialized :: u32
  fs_mem :: mem
  fs_new :: "nat \<Rightarrow> u32"
  fs_count :: nat

definition FAT_INITIALIZED :: u32 where "FAT_INITIALIZED = 0xBABEF00D"
definition GIET_OPEN_FILES_MAX :: u32 where "GIET_OPEN_FILES_MAX = 16"

section \<open>Sequencing and lifting\<close>

text \<open>\<open>fcatch f h k\<close> runs \<open>k\<close> on the result of \<open>f\<close>, and \<open>h\<close> when \<open>f\<close> has returned an error.\<close>

definition fcatch ::
    "('a, 's) fat_op \<Rightarrow> ('b, 's) fat_op \<Rightarrow> ('a \<Rightarrow> ('b, 's) fat_op) \<Rightarrow> ('b, 's) fat_op" where
  "fcatch f h k s = (case f s of
      None \<Rightarrow> None
    | Some (Inl e) \<Rightarrow> Some (Inl e)
    | Some (Inr (None, s')) \<Rightarrow> h s'
    | Some (Inr (Some a, s')) \<Rightarrow> k a s')"

lemma fbind_is_fcatch: "fbind f k = fcatch f ferr k"
  by (auto simp: fun_eq_iff fbind_def fcatch_def ferr_def split: option.split sum.split)

lemma fcatch_mono [partial_function_mono]:
  fixes g :: "('c \<Rightarrow> 'd option) \<Rightarrow> ('a \<Rightarrow> ('b, 's) fat_op)"
  assumes "\<And>a t. mono_option (\<lambda>f. g f a t)"
  shows "mono_option (\<lambda>f. fcatch m h (\<lambda>a t. g f a t) s)"
proof (rule monotoneI)
  fix f f' :: "'c \<Rightarrow> 'd option" assume "option.le_fun f f'"
  then have "option_ord (g f a t) (g f' a t)" for a t
    by (rule monotoneD [OF assms])
  then show "option_ord (fcatch m h (\<lambda>a t. g f a t) s) (fcatch m h (\<lambda>a t. g f' a t) s)"
    by (simp add: fcatch_def flat_ord_def split: option.split sum.split)
qed

definition on_fs :: "('a, fat_desc) fat_op \<Rightarrow> ('a, file_sys) fat_op" where
  "on_fs f S = (case f (fs_fat S) of
      None \<Rightarrow> None
    | Some (Inl e) \<Rightarrow> Some (Inl e)
    | Some (Inr (r, s)) \<Rightarrow> Some (Inr (r, S\<lparr>fs_fat := s\<rparr>)))"

text \<open>Following a null pointer has no result.\<close>

definition with_inode :: "u32 \<Rightarrow> ('a, fat_inode \<times> fat_desc) fat_op \<Rightarrow> ('a, file_sys) fat_op" where
  "with_inode p f S =
    (if p = 0 then None
     else case f (fs_inodes S p, fs_fat S) of
        None \<Rightarrow> None
      | Some (Inl e) \<Rightarrow> Some (Inl e)
      | Some (Inr (r, (i, s))) \<Rightarrow> Some (Inr (r, S\<lparr>fs_inodes := (fs_inodes S)(p := i), fs_fat := s\<rparr>)))"

definition get_inode :: "u32 \<Rightarrow> (fat_inode, file_sys) fat_op" where
  "get_inode p S = (if p = 0 then None else fret (fs_inodes S p) S)"

definition set_inode :: "u32 \<Rightarrow> (fat_inode \<Rightarrow> fat_inode) \<Rightarrow> (unit, file_sys) fat_op" where
  "set_inode p f S = (if p = 0 then None
     else fret () (S\<lparr>fs_inodes := (fs_inodes S)(p := f (fs_inodes S p))\<rparr>))"

text \<open>The lock of the driver: taken on entry, and released by every return that follows.\<close>

definition locked :: "(int, file_sys) fat_op \<Rightarrow> (int, file_sys) fat_op" where
  "locked f S = (case spin_lock_acquire (fs_lock S) of
      None \<Rightarrow> None | Some l \<Rightarrow> f (S\<lparr>fs_lock := l\<rparr>))"

definition unlock :: "int \<Rightarrow> (int, file_sys) fat_op" where
  "unlock code S = fret code (S\<lparr>fs_lock := spin_lock_release (fs_lock S)\<rparr>)"

section \<open>Inodes\<close>

text \<open>\<open>_update_device_from_cache\<close> and \<open>_release_cache_memory\<close> on the File-Cache of an inode.\<close>

definition flush_inode :: "(unit, fat_inode \<times> fat_desc) fat_op" where
  "flush_inode = (\<lambda>(inode, s).
    case update_device_from_cache (inode_levels inode) (inode_cache inode) (device s) of
      (ok, c, d) \<Rightarrow> (if ok then fret () else ferr) (inode\<lparr>inode_cache := c\<rparr>, s\<lparr>device := d\<rparr>))"

definition release_inode_cache :: "(unit, fat_inode \<times> fat_desc) fat_op" where
  "release_inode_cache = (\<lambda>(inode, s).
    fret () (inode\<lparr>inode_cache := release_cache_memory (inode_cache inode)\<rparr>, s))"

definition allocate_one_inode ::
    "u8 list \<Rightarrow> bool \<Rightarrow> u32 \<Rightarrow> u32 \<Rightarrow> u32 \<Rightarrow> 16 word \<Rightarrow> bool \<Rightarrow> (u32, file_sys) fat_op" where
  "allocate_one_inode name is_dir cluster nbytes cnt dentry cache_allocate S =
    (let p = fs_new S (fs_count S);
         inode = \<lparr>inode_parent = 0, inode_next = 0, inode_child = 0,
           inode_cache = (if cache_allocate then allocate_one_cache_node Null else Null),
           inode_levels = (if cache_allocate then get_levels_from_size nbytes else 0),
           inode_cluster = cluster, inode_size = nbytes, inode_count = cnt, inode_dentry = dentry,
           inode_is_dir = is_dir, inode_name = name\<rparr>
     in fret p (S\<lparr>fs_inodes := (fs_inodes S)(p := inode), fs_count := fs_count S + 1\<rparr>))"

definition add_inode_in_tree :: "u32 \<Rightarrow> u32 \<Rightarrow> (unit, file_sys) fat_op" where
  "add_inode_in_tree child parent =
    fbind (get_inode parent) (\<lambda>pi.
      fbind (set_inode child (\<lambda>i. i\<lparr>inode_parent := parent, inode_next := inode_child pi\<rparr>)) (\<lambda>_.
        set_inode parent (\<lambda>i. i\<lparr>inode_child := child\<rparr>)))"

text \<open>
  The loop of \<open>_remove_inode_from_tree\<close> over the list of children; it does not stop at the inode.
\<close>

partial_function (option) unlink_loop :: "u32 \<Rightarrow> u32 \<Rightarrow> u32 \<Rightarrow> (unit, file_sys) fat_op" where
  "unlink_loop inode prv cur S =
    (if cur = 0 then fret () S
     else fbind (get_inode cur) (\<lambda>ci.
       fbind (if cur = inode then set_inode prv (\<lambda>i. i\<lparr>inode_next := inode_next ci\<rparr>) else fret ())
         (\<lambda>_. fbind (get_inode cur) (\<lambda>ci. unlink_loop inode cur (inode_next ci)))) S)"

definition remove_inode_from_tree :: "u32 \<Rightarrow> (unit, file_sys) fat_op" where
  "remove_inode_from_tree inode =
    fbind (get_inode inode) (\<lambda>i.
      fbind (get_inode (inode_parent i)) (\<lambda>pi.
        let prv = inode_child pi
        in if inode = prv then set_inode (inode_parent i) (\<lambda>j. j\<lparr>inode_child := inode_next i\<rparr>)
           else fbind (get_inode prv) (\<lambda>fi. unlink_loop inode prv (inode_next fi))))"

partial_function (option) is_ancestor :: "u32 \<Rightarrow> u32 \<Rightarrow> (bool, file_sys) fat_op" where
  "is_ancestor a b S =
    (if b = 0 then fret False S
     else if a = b then fret True S
     else fbind (get_inode b) (\<lambda>bi. is_ancestor a (inode_parent bi)) S)"

section \<open>Copies between a buffer and the memory of the caller\<close>

text \<open>
  \<open>memcpy\<close> of \<open>giet_common/utils.c\<close> with its source in another address space: the buffers of the
  caches are in the kernel heap, apart from the buffer of the caller, and aligned on 4 Kbytes, so
  that an offset in them is aligned as its address.
\<close>

function across_words :: "mem \<Rightarrow> mem \<Rightarrow> u32 \<Rightarrow> u32 \<Rightarrow> u32 \<Rightarrow> mem \<times> u32" where
  "across_words ms m idst isrc sz =
     (if sz > 3
      then across_words ms (store32 m idst (load32 ms isrc)) (idst + 4) (isrc + 4) (sz - 4)
      else (m, sz))"
  by pat_completeness auto
termination
  by (relation "measure (\<lambda>(ms, m, d, s, n). unat n)") (auto simp: unat_sub word_less_nat_alt word_le_nat_alt)

function across_bytes :: "mem \<Rightarrow> mem \<Rightarrow> u32 \<Rightarrow> u32 \<Rightarrow> u32 \<Rightarrow> mem" where
  "across_bytes ms m cdst csrc sz =
     (if sz = 0 then m
      else across_bytes ms (m(cdst := ms csrc)) (cdst + 1) (csrc + 1) (sz - 1))"
  by pat_completeness auto
termination
  by (relation "measure (\<lambda>(ms, m, d, s, n). unat n)") (auto simp: measure_unat)

declare across_words.simps [simp del] across_bytes.simps [simp del]

definition memcpy_across :: "mem \<Rightarrow> mem \<Rightarrow> u32 \<Rightarrow> u32 \<Rightarrow> u32 \<Rightarrow> mem" where
  "memcpy_across ms m dest source sz =
     (let (m', sz') = (if dest AND 3 = 0 \<and> source AND 3 = 0
                         then across_words ms m dest source sz else (m, sz))
      in across_bytes ms m' dest source sz')"

definition across :: "mem \<Rightarrow> mem \<Rightarrow> u32 \<Rightarrow> u32 \<Rightarrow> nat \<Rightarrow> mem" where
  "across ms m d s k = (\<lambda>a. if unat (a - d) < k then ms (s + (a - d)) else m a)"

lemma across_0 [simp]: "across ms m d s 0 = m"
  by (simp add: across_def)

lemma across_Suc:
  assumes "k < 4294967296"
  shows "across ms m d s (Suc k) = (across ms m d s k)(d + word_of_nat k := ms (s + word_of_nat k))"
  using assms unat_diff_eq_iff [of k]
  by (auto simp: across_def less_Suc_eq unat_of_nat_small fun_eq_iff)

lemma across_bytes_copies:
  assumes "k + unat sz < 4294967296"
  shows "across_bytes ms (across ms m d s k) (d + word_of_nat k) (s + word_of_nat k) sz
       = across ms m d s (k + unat sz)"
  using assms
proof (induction "unat sz" arbitrary: k sz)
  case 0
  then show ?case by (simp add: across_bytes.simps unat_0_iff)
next
  case (Suc j)
  then have nz: "sz \<noteq> 0" by auto
  then have u: "unat (sz - 1) = j" using Suc.hyps(2) by (simp add: unat_minus_one)
  have "across_bytes ms (across ms m d s (Suc k)) (d + word_of_nat (Suc k)) (s + word_of_nat (Suc k))
          (sz - 1) = across ms m d s (Suc k + unat (sz - 1))"
    using Suc u by (intro Suc.hyps(1)) auto
  then show ?case
    using nz u Suc.prems by (subst across_bytes.simps)
      (simp add: across_Suc algebra_simps flip: Suc.hyps(2))
qed

lemma across_words_copies:
  assumes "k + unat sz < 4294967296"
  shows "across_words ms (across ms m d s k) (d + word_of_nat k) (s + word_of_nat k) sz
       = (across ms m d s (k + 4 * (unat sz div 4)), word_of_nat (unat sz mod 4))"
  using assms
proof (induction "unat sz" arbitrary: k sz rule: less_induct)
  case less
  show ?case
  proof (cases "sz > 3")
    case True
    then have ge: "4 \<le> unat sz" by (simp add: word_less_nat_alt)
    then have u: "unat (sz - 4) = unat sz - 4" by (simp add: unat_sub word_le_nat_alt)
    have "across_words ms (across ms m d s (k + 4)) (d + word_of_nat (k + 4)) (s + word_of_nat (k + 4)) (sz - 4)
      = (across ms m d s (k + 4 + 4 * ((unat sz - 4) div 4)), word_of_nat ((unat sz - 4) mod 4))"
      using less.hyps [of "sz - 4" "k + 4"] less.prems ge u by simp
    moreover have "4 + 4 * ((unat sz - 4) div 4) = 4 * (unat sz div 4)" "(unat sz - 4) mod 4 = unat sz mod 4"
      using ge by (simp_all add: le_div_geq le_mod_geq)
    moreover have "store32 (across ms m d s k) (d + word_of_nat k) (load32 ms (s + word_of_nat k)) = across ms m d s (k + 4)"
    proof -
      have k4: "k + 4 = Suc (Suc (Suc (Suc k)))" by simp
      have lt: "k < 4294967296" "Suc k < 4294967296" "Suc (Suc k) < 4294967296" "Suc (Suc (Suc k)) < 4294967296"
        using less.prems ge by simp_all
      have off: "x + word_of_nat k + 1 = x + word_of_nat (Suc k)"
        "x + word_of_nat k + 2 = x + word_of_nat (Suc (Suc k))"
        "x + word_of_nat k + 3 = x + word_of_nat (Suc (Suc (Suc k)))" for x :: u32
        by (simp_all add: algebra_simps)
      show ?thesis unfolding k4 lt [THEN across_Suc] store32_load32 off ..
    qed
    ultimately show ?thesis
      using True by (subst across_words.simps) (simp add: add.assoc algebra_simps)
  next
    case False
    then have "unat sz < 4" by (simp add: word_less_nat_alt)
    with False show ?thesis by (subst across_words.simps) simp
  qed
qed

text \<open>As in the kernel, the tail of an aligned copy is lost.\<close>

lemma memcpy_across_moves: "memcpy_across ms m d s n = across ms m d s (memcpy_moved d s n)"
proof -
  let ?K = "4 * (unat n div 4)"
  have n: "unat n < 4294967296" by simp
  show ?thesis
  proof (cases "d AND 3 = 0 \<and> s AND 3 = 0")
    case False
    then show ?thesis
      using across_bytes_copies [of 0 n ms m d s] n by (auto simp: memcpy_across_def memcpy_moved_def aligned4_def)
  next
    case True
    have r: "unat (word_of_nat (unat n mod 4) :: u32) = unat n mod 4"
      by (rule unat_of_nat_small) (simp add: less_trans [OF mod_less_divisor])
    have "memcpy_across ms m d s n = across_bytes ms (across ms m d s ?K) d s (word_of_nat (unat n mod 4))"
      using True across_words_copies [of 0 n ms m d s] n by (simp add: memcpy_across_def)
    also have "\<dots> = across ms (across ms m d s ?K) d s (unat n mod 4)"
      using across_bytes_copies [of 0 "word_of_nat (unat n mod 4)" ms "across ms m d s ?K" d s] by (simp add: r)
    also have "\<dots> = across ms m d s (max ?K (unat n mod 4))"
      by (simp add: across_def fun_eq_iff less_max_iff_disj)
    also have "max ?K (unat n mod 4) = memcpy_moved d s n"
    proof (cases "4 \<le> unat n")
      case True
      then have "unat n mod 4 \<le> ?K" by presburger
      then show ?thesis using True \<open>d AND 3 = 0 \<and> s AND 3 = 0\<close>
        by (simp add: memcpy_moved_def aligned4_def max_absorb1)
    qed (auto simp: memcpy_moved_def)
    finally show ?thesis .
  qed
qed

end
