(* ===== verification/Fat_Transfer.thy ===== *)
theory Fat_Transfer
  imports Fat_Sys
begin

text \<open>
  Transfers between a file and the memory of its caller (\<open>giet_fat32/fat32.c\<close>): \<open>_fat_read\<close>,
  \<open>_fat_write\<close>, \<open>_fat_lseek\<close>, \<open>_fat_file_info\<close> and \<open>_fat_close\<close>. The calls run under the lock of
  the driver, and return the codes of \<open>fat32_shared.h\<close>.
\<close>

section \<open>The parts of a transfer\<close>

text \<open>
  The offset in the cluster and the number of bytes to move, for a transfer from byte \<open>fb\<close> of
  cluster \<open>fst_id\<close> to byte \<open>lb\<close> of cluster \<open>lst_id\<close>.
\<close>

definition transfer_chunk :: "u32 \<Rightarrow> u32 \<Rightarrow> u32 \<Rightarrow> u32 \<Rightarrow> u32 \<Rightarrow> u32 \<times> u32" where
  "transfer_chunk fst_id lst_id fb lb cluster_id =
    (if cluster_id = fst_id \<and> cluster_id = lst_id then (fb, lb - fb + 1)
     else if cluster_id = fst_id then (fb, 4096 - fb)
     else if cluster_id = lst_id then (0, lb + 1)
     else (0, 4096))"

partial_function (option) read_loop ::
    "u32 \<Rightarrow> u32 \<Rightarrow> u32 \<Rightarrow> u32 \<Rightarrow> u32 \<Rightarrow> u32 \<Rightarrow> u32 \<Rightarrow> u32 \<Rightarrow> (u32, file_sys) fat_op" where
  "read_loop p fst_id lst_id fb lb buffer cluster_id moved S =
    (if cluster_id \<le> lst_id then
       fbind (with_inode p (file_cache_buffer cluster_id)) (\<lambda>pdesc S.
         let chunk = transfer_chunk fst_id lst_id fb lb cluster_id
         in read_loop p fst_id lst_id fb lb buffer (cluster_id + 1) (moved + snd chunk)
              (S\<lparr>fs_mem := memcpy_across (desc_buffer pdesc) (fs_mem S) (buffer + moved) (fst chunk) (snd chunk)\<rparr>)) S
     else fret moved S)"

partial_function (option) write_loop ::
    "u32 \<Rightarrow> u32 \<Rightarrow> u32 \<Rightarrow> u32 \<Rightarrow> u32 \<Rightarrow> u32 \<Rightarrow> u32 \<Rightarrow> u32 \<Rightarrow> (u32, file_sys) fat_op" where
  "write_loop p fst_id lst_id fb lb buffer cluster_id moved S =
    (if cluster_id \<le> lst_id then
       fbind (with_inode p (file_cache_buffer cluster_id)) (\<lambda>_ S.
         let chunk = transfer_chunk fst_id lst_id fb lb cluster_id
         in fbind (with_inode p (file_update cluster_id (\<lambda>pdesc. pdesc\<lparr>desc_dirty := True,
              desc_buffer := memcpy_across (fs_mem S) (desc_buffer pdesc) (fst chunk) (buffer + moved) (snd chunk)\<rparr>)))
            (\<lambda>_. write_loop p fst_id lst_id fb lb buffer (cluster_id + 1) (moved + snd chunk)) S) S
     else fret moved S)"

section \<open>System calls\<close>

definition fat_read :: "u32 \<Rightarrow> u32 \<Rightarrow> u32 \<Rightarrow> (int, file_sys) fat_op" where
  "fat_read fd_id buffer cnt S =
    (if fs_initialized S \<noteq> FAT_INITIALIZED then fret (-1) S
     else if fd_id \<ge> GIET_OPEN_FILES_MAX then fret (-5) S
     else if \<not> fd_allocated (fs_fd S fd_id) then fret (-8) S
     else locked (\<lambda>S.
       let p = fd_inode (fs_fd S fd_id); seek = fd_seek (fs_fd S fd_id)
       in fbind (get_inode p) (\<lambda>inode.
            if cnt + seek > inode_size inode \<and> \<not> inode_is_dir inode then unlock 0
            else fcatch (read_loop p (drop_bit 12 seek) (drop_bit 12 (seek + cnt - 1))
                   (seek AND 0xFFF) ((seek + cnt - 1) AND 0xFFF) buffer (drop_bit 12 seek) 0)
                 (unlock (-3))
                 (\<lambda>moved S. unlock (sint moved) (S\<lparr>fs_fd := (fs_fd S)(fd_id :=
                    (fs_fd S fd_id)\<lparr>fd_seek := fd_seek (fs_fd S fd_id) + moved\<rparr>)\<rparr>))) S) S)"

text \<open>
  \<open>_update_dir_entry\<close>: the size and the cluster of a file, written in its entry in the File-Cache
  of its parent.
\<close>

definition update_dir_entry :: "u32 \<Rightarrow> (unit, file_sys) fat_op" where
  "update_dir_entry p =
    fbind (get_inode p) (\<lambda>inode.
      let dentry = ucast (inode_dentry inode) :: u32;
          cluster_id = drop_bit 7 dentry;
          offset = push_bit 5 (dentry AND 0x7F);
          nbytes = inode_size inode;
          cluster = inode_cluster inode
      in with_inode (inode_parent inode) (fbind (file_cache_buffer cluster_id) (\<lambda>_.
           file_update cluster_id (\<lambda>pdesc. pdesc\<lparr>desc_dirty := True,
             desc_buffer := (desc_buffer pdesc)
               (offset + 28 := ucast nbytes, offset + 29 := ucast (drop_bit 8 nbytes),
                offset + 30 := ucast (drop_bit 16 nbytes), offset + 31 := ucast (drop_bit 24 nbytes),
                offset + 26 := ucast cluster, offset + 27 := ucast (drop_bit 8 cluster),
                offset + 20 := ucast (drop_bit 16 cluster), offset + 21 := ucast (drop_bit 24 cluster))\<rparr>))))"

definition nb_clusters :: "u32 \<Rightarrow> u32" where
  "nb_clusters nbytes = (if nbytes AND 0xFFF \<noteq> 0 then drop_bit 12 nbytes + 1 else drop_bit 12 nbytes)"

text \<open>
  The part of \<open>_fat_write\<close> that grows the file: \<open>Some 0\<close> when it is done, otherwise the code of the
  return.
\<close>

definition grow_file :: "u32 \<Rightarrow> u32 \<Rightarrow> (int, file_sys) fat_op" where
  "grow_file p new_size =
    fbind (get_inode p) (\<lambda>inode.
      let old_size = inode_size inode in
      if new_size > old_size then
        fbind (set_inode p (\<lambda>i. i\<lparr>inode_size := new_size\<rparr>)) (\<lambda>_.
          let old_clusters = nb_clusters old_size; new_clusters = nb_clusters new_size in
          fcatch (if new_clusters > old_clusters
                  then with_inode p (clusters_allocate old_clusters (new_clusters - old_clusters))
                  else fret ())
            (fret (-11))
            (\<lambda>_. fcatch (update_dir_entry p) (fret (-3)) (\<lambda>_. fret 0)))
      else fret 0)"

definition fat_write :: "u32 \<Rightarrow> u32 \<Rightarrow> u32 \<Rightarrow> (int, file_sys) fat_op" where
  "fat_write fd_id buffer cnt S =
    (if fs_initialized S \<noteq> FAT_INITIALIZED then fret (-1) S
     else locked (\<lambda>S.
       if fd_id \<ge> GIET_OPEN_FILES_MAX then unlock (-5) S
       else if \<not> fd_allocated (fs_fd S fd_id) then unlock (-8) S
       else if fd_read_only (fs_fd S fd_id) then unlock (-10) S
       else let p = fd_inode (fs_fd S fd_id); seek = fd_seek (fs_fd S fd_id)
         in fbind (grow_file p (seek + cnt)) (\<lambda>code.
              if code \<noteq> 0 then unlock code
              else fcatch (write_loop p (drop_bit 12 seek) (drop_bit 12 (seek + cnt - 1))
                     (seek AND 0xFFF) ((seek + cnt - 1) AND 0xFFF) buffer (drop_bit 12 seek) 0)
                   (unlock (-3))
                   (\<lambda>moved S. unlock (sint moved) (S\<lparr>fs_fd := (fs_fd S)(fd_id :=
                      (fs_fd S fd_id)\<lparr>fd_seek := fd_seek (fs_fd S fd_id) + moved\<rparr>)\<rparr>))) S) S)"

definition SEEK_SET :: u32 where "SEEK_SET = 0"
definition SEEK_CUR :: u32 where "SEEK_CUR = 1"

definition fat_lseek :: "u32 \<Rightarrow> u32 \<Rightarrow> u32 \<Rightarrow> (int, file_sys) fat_op" where
  "fat_lseek fd_id seek whence S =
    (if fs_initialized S \<noteq> FAT_INITIALIZED then fret (-1) S
     else if fd_id \<ge> GIET_OPEN_FILES_MAX then fret (-5) S
     else locked (\<lambda>S.
       if \<not> fd_allocated (fs_fd S fd_id) then unlock (-8) S
       else if whence \<noteq> SEEK_CUR \<and> whence \<noteq> SEEK_SET then unlock (-12) S
       else let new_seek = (if whence = SEEK_CUR then fd_seek (fs_fd S fd_id) + seek else seek)
         in unlock (sint new_seek)
              (S\<lparr>fs_fd := (fs_fd S)(fd_id := (fs_fd S fd_id)\<lparr>fd_seek := new_seek\<rparr>)\<rparr>)) S)"

text \<open>\<open>_fat_file_info\<close> returns the size, the offset and the kind of the file beside its code.\<close>

definition fat_file_info :: "u32 \<Rightarrow> (int \<times> (u32 \<times> u32 \<times> bool) option, file_sys) fat_op" where
  "fat_file_info fd_id S =
    (if fs_initialized S \<noteq> FAT_INITIALIZED then fret (-1, None) S
     else if fd_id \<ge> GIET_OPEN_FILES_MAX then fret (-5, None) S
     else if \<not> fd_allocated (fs_fd S fd_id) then fret (-8, None) S
     else fbind (get_inode (fd_inode (fs_fd S fd_id))) (\<lambda>inode S.
       fret (0, Some (inode_size inode, fd_seek (fs_fd S fd_id), inode_is_dir inode)) S) S)"

definition fat_close :: "u32 \<Rightarrow> (int, file_sys) fat_op" where
  "fat_close fd_id S =
    (if fs_initialized S \<noteq> FAT_INITIALIZED then fret (-1) S
     else if fd_id \<ge> GIET_OPEN_FILES_MAX then fret (-5) S
     else locked (\<lambda>S.
       if \<not> fd_allocated (fs_fd S fd_id) then unlock (-8) S
       else let p = fd_inode (fs_fd S fd_id);
                release_fd = (\<lambda>S. unlock 0 (S\<lparr>fs_fd := (fs_fd S)(fd_id :=
                  (fs_fd S fd_id)\<lparr>fd_allocated := False\<rparr>)\<rparr>))
         in fbind (set_inode p (\<lambda>i. i\<lparr>inode_count := inode_count i - 1\<rparr>)) (\<lambda>_.
              fbind (get_inode p) (\<lambda>inode.
                if inode_count inode = 0 then
                  fcatch (with_inode p flush_inode) (unlock (-3)) (\<lambda>_.
                    fcatch (if inode_parent inode \<noteq> 0 then with_inode (inode_parent inode) flush_inode else fret ())
                      (unlock (-3)) (\<lambda>_.
                      fbind (with_inode p release_inode_cache) (\<lambda>_. release_fd)))
                else release_fd)) S) S)"

end
