(* ===== verification/Fat_Read.thy ===== *)
theory Fat_Read
  imports Fat_Transfer Fat_Properties
begin

text \<open>
  What \<open>_fat_read\<close> (\<open>giet_fat32/fat32.c\<close>) brings into the memory of its caller: the bytes of the
  file from the current offset, whichever of its clusters are in the File-Cache.
\<close>

section \<open>Bytes placed in memory\<close>

definition place :: "(nat \<Rightarrow> u8) \<Rightarrow> mem \<Rightarrow> u32 \<Rightarrow> nat \<Rightarrow> mem" where
  "place B m d n = (\<lambda>a. if unat (a - d) < n then B (unat (a - d)) else m a)"

lemma place_0 [simp]: "place B m d 0 = m"
  by (simp add: place_def)

lemma place_cong: "(\<And>j. j < n \<Longrightarrow> B j = B' j) \<Longrightarrow> place B m d n = place B' m d n"
  by (auto simp: place_def)

lemma place_append:
  assumes "n1 + n2 < 4294967296"
  shows "place (\<lambda>j. B (n1 + j)) (place B m d n1) (d + word_of_nat n1) n2 = place B m d (n1 + n2)"
proof
  fix a
  let ?x = "unat (a - d)"
  have n1: "unat (word_of_nat n1 :: u32) = n1" using assms by (intro unat_of_nat_small) simp
  have e: "a - (d + word_of_nat n1) = (a - d) - word_of_nat n1" by simp
  show "place (\<lambda>j. B (n1 + j)) (place B m d n1) (d + word_of_nat n1) n2 a = place B m d (n1 + n2) a"
  proof (cases "n1 \<le> ?x")
    case True
    then have "unat ((a - d) - word_of_nat n1) = ?x - n1"
      by (subst unat_sub_no_wrap) (simp_all add: word_le_nat_alt n1)
    then show ?thesis using True unfolding place_def e by auto
  next
    case False
    then have lt: "a - d < word_of_nat n1" by (simp add: word_less_nat_alt n1)
    have "unat ((a - d) - word_of_nat n1) = 4294967296 + ?x - n1"
      using False n1 by (simp add: unat_sub_if' word_less_nat_alt)
    then show ?thesis using False assms unfolding place_def e by auto
  qed
qed

lemma across_place:
  "across buf m d off n = place (\<lambda>j. buf (off + word_of_nat j)) m d n"
  by (auto simp: across_def place_def fun_eq_iff)

section \<open>Bytes of a file\<close>

definition cbyte :: "(nat \<Rightarrow> mem) \<Rightarrow> nat \<Rightarrow> u8" where
  "cbyte C a = C (a div 4096) (word_of_nat (a mod 4096))"

definition same_file :: "u32 list \<Rightarrow> (nat \<Rightarrow> mem) \<Rightarrow> fat_inode \<Rightarrow> fat_desc \<Rightarrow> bool" where
  "same_file cs C i s \<longleftrightarrow> (\<forall>k<length cs. same_cluster (file_cluster i cs s k) (C k))"

text \<open>A step of the loop on cluster \<open>k\<close> of the file at \<open>p\<close>: only that file and the FAT's cache move.\<close>

definition file_reads :: "u32 \<Rightarrow> u32 list \<Rightarrow> (nat \<Rightarrow> mem) \<Rightarrow> file_sys \<Rightarrow> file_sys \<Rightarrow> bool" where
  "file_reads p cs C S S' \<longleftrightarrow>
    S' = S\<lparr>fs_inodes := (fs_inodes S)(p := fs_inodes S' p), fs_fat := fs_fat S', fs_mem := fs_mem S'\<rparr> \<and>
    file_inv (fs_inodes S' p) cs (fs_fat S') \<and> same_file cs C (fs_inodes S' p) (fs_fat S') \<and>
    fat_reads (fs_fat S) (fs_fat S') \<and>
    fs_inodes S' p = (fs_inodes S p)\<lparr>inode_cache := inode_cache (fs_inodes S' p),
      inode_levels := inode_levels (fs_inodes S' p)\<rparr>"

lemma file_reads_trans:
  assumes "file_reads p cs C S T" "file_reads p cs C T U"
  shows "file_reads p cs C S U"
proof -
  have "fat_reads (fs_fat S) (fs_fat U)"
    using assms fat_reads_trans by (auto simp: file_reads_def)
  moreover have "U = S\<lparr>fs_inodes := (fs_inodes S)(p := fs_inodes U p), fs_fat := fs_fat U, fs_mem := fs_mem U\<rparr>"
  proof -
    define it ft mt iu fu mu where e: "it = fs_inodes T p" "ft = fs_fat T" "mt = fs_mem T"
      "iu = fs_inodes U p" "fu = fs_fat U" "mu = fs_mem U"
    have t: "T = S\<lparr>fs_inodes := (fs_inodes S)(p := it), fs_fat := ft, fs_mem := mt\<rparr>"
      and u: "U = T\<lparr>fs_inodes := (fs_inodes T)(p := iu), fs_fat := fu, fs_mem := mu\<rparr>"
      using assms unfolding file_reads_def e by blast+
    show ?thesis unfolding e(4-6) [symmetric] by (subst u, subst t, subst t) simp
  qed
  moreover have "fs_inodes U p = (fs_inodes S p)\<lparr>inode_cache := inode_cache (fs_inodes U p),
      inode_levels := inode_levels (fs_inodes U p)\<rparr>"
    using assms unfolding file_reads_def
    by (cases "fs_inodes S p"; cases "fs_inodes T p"; cases "fs_inodes U p") auto
  ultimately show ?thesis using assms(2) by (simp add: file_reads_def)
qed

lemma read_buffer_step:
  assumes inv: "file_inv (fs_inodes S p) cs (fs_fat S)" and same: "same_file cs C (fs_inodes S p) (fs_fat S)"
    and p: "p \<noteq> 0" and k: "unat c < length cs" and nf: "faultless (fs_fat S)"
  obtains pdesc S' where "with_inode p (file_cache_buffer c) S = Some (Inr (Some pdesc, S'))"
    "file_reads p cs C S S'" "fs_mem S' = fs_mem S" "same_cluster (desc_buffer pdesc) (C (unat c))"
    "inode_at (fs_inodes S' p) (unat c) = Some pdesc" "unat c < 64 ^ inode_levels (fs_inodes S' p)"
proof -
  obtain r i' s' where b: "file_cache_buffer c (fs_inodes S p, fs_fat S) = Some (Inr (r, (i', s')))"
    "file_inv i' cs s'" "fat_reads (fs_fat S) s'"
    "\<And>j. same_cluster (file_cluster i' cs s' j) (file_cluster (fs_inodes S p) cs (fs_fat S) j)"
    "\<And>q. r = Some q \<Longrightarrow> inode_at i' (unat c) = Some q" "faultless (fs_fat S) \<Longrightarrow> r \<noteq> None"
    "i' = (fs_inodes S p)\<lparr>inode_cache := inode_cache i', inode_levels := inode_levels i'\<rparr>"
    "unat c < 64 ^ inode_levels i'"
    by (rule file_cache_buffer_spec [OF inv k], rule that)
  obtain pdesc where r: "r = Some pdesc" using b(6) nf by auto
  define S' where "S' = S\<lparr>fs_inodes := (fs_inodes S)(p := i'), fs_fat := s'\<rparr>"
  have S': "fs_inodes S' p = i'" "fs_fat S' = s'" "fs_mem S' = fs_mem S" by (simp_all add: S'_def)
  have same': "same_file cs C i' s'"
    using same b(4) unfolding same_file_def by (blast intro: same_cluster_trans)
  have "file_reads p cs C S S'"
    unfolding file_reads_def S' using b(2,3,7) same' by (simp add: S'_def)
  moreover have "with_inode p (file_cache_buffer c) S = Some (Inr (Some pdesc, S'))"
    using p b(1) by (simp add: with_inode_def r S'_def)
  moreover have "file_cluster i' cs s' (unat c) = desc_buffer pdesc"
    using b(5) [OF r] by (simp add: file_cluster_def)
  then have "same_cluster (desc_buffer pdesc) (C (unat c))"
    using same' k by (metis same_file_def)
  ultimately show ?thesis using that S' b(5) [OF r] b(8) by simp
qed

section \<open>The loop\<close>

definition pos_of :: "u32 \<Rightarrow> u32 \<Rightarrow> u32 \<Rightarrow> nat" where
  "pos_of fst_id fb k = (if k = fst_id then 4096 * unat k + unat fb else 4096 * unat k)"

text \<open>The number of bytes of the last part that \<open>memcpy\<close> does not move.\<close>

definition tail_lost :: "u32 \<Rightarrow> u32 \<Rightarrow> u32 \<Rightarrow> nat" where
  "tail_lost d off n = unat n - memcpy_moved d off n"

lemma memcpy_moved_le: "memcpy_moved d s n \<le> unat n"
  by (simp add: memcpy_moved_def)

lemma memcpy_moved_full:
  assumes "aligned4 s \<longrightarrow> 4 dvd unat n"
  shows "memcpy_moved d s n = unat n"
  using assms by (auto simp: memcpy_moved_def)

lemma chunk_facts:
  assumes "fst_id \<le> k" "k < lst_id" "fb < 4096"
  shows "unat (snd (transfer_chunk fst_id lst_id fb lb k)) = 4096 * unat (k + 1) - pos_of fst_id fb k"
    "pos_of fst_id fb k = 4096 * unat k + unat (fst (transfer_chunk fst_id lst_id fb lb k))"
    "unat (fst (transfer_chunk fst_id lst_id fb lb k)) + unat (snd (transfer_chunk fst_id lst_id fb lb k)) = 4096"
    "aligned4 (fst (transfer_chunk fst_id lst_id fb lb k)) \<longrightarrow> 4 dvd unat (snd (transfer_chunk fst_id lst_id fb lb k))"
proof -
  have k1: "unat (k + 1) = unat k + 1" by (rule unat_plus_1_less [OF assms(2)])
  have fb: "unat fb < 4096" using assms(3) by (simp add: word_less_nat_alt)
  have s: "unat (4096 - fb) = 4096 - unat fb" using assms(3) by (simp add: unat_sub_no_wrap)
  have nl: "k \<noteq> lst_id" using assms(2) by auto
  show "unat (snd (transfer_chunk fst_id lst_id fb lb k)) = 4096 * unat (k + 1) - pos_of fst_id fb k"
    "pos_of fst_id fb k = 4096 * unat k + unat (fst (transfer_chunk fst_id lst_id fb lb k))"
    "unat (fst (transfer_chunk fst_id lst_id fb lb k)) + unat (snd (transfer_chunk fst_id lst_id fb lb k)) = 4096"
    using nl k1 s fb by (auto simp: transfer_chunk_def pos_of_def)
  show "aligned4 (fst (transfer_chunk fst_id lst_id fb lb k)) \<longrightarrow> 4 dvd unat (snd (transfer_chunk fst_id lst_id fb lb k))"
    using nl s fb by (auto simp: transfer_chunk_def aligned4_unat dvd_diff_nat)
qed

lemma last_chunk_facts:
  assumes "fst_id \<le> lst_id" "fb < 4096" "lb < 4096" "fst_id = lst_id \<longrightarrow> fb \<le> lb"
  shows "pos_of fst_id fb lst_id = 4096 * unat lst_id + unat (fst (transfer_chunk fst_id lst_id fb lb lst_id))"
    "pos_of fst_id fb lst_id + unat (snd (transfer_chunk fst_id lst_id fb lb lst_id)) = 4096 * unat lst_id + unat lb + 1"
    "unat (fst (transfer_chunk fst_id lst_id fb lb lst_id)) + unat (snd (transfer_chunk fst_id lst_id fb lb lst_id)) \<le> 4096"
proof -
  have b: "unat fb < 4096" "unat lb < 4096" using assms(2,3) by (simp_all add: word_less_nat_alt)
  have l1: "unat (lb + 1) = unat lb + 1" using b by (simp add: unat_add_no_wrap)
  have s: "fst_id = lst_id \<longrightarrow> unat (lb - fb + 1) = unat lb - unat fb + 1 \<and> unat fb \<le> unat lb"
  proof
    assume "fst_id = lst_id"
    then have "fb \<le> lb" using assms(4) by simp
    then show "unat (lb - fb + 1) = unat lb - unat fb + 1 \<and> unat fb \<le> unat lb"
      using b by (simp add: unat_add_no_wrap unat_sub_no_wrap word_le_nat_alt)
  qed
  show "pos_of fst_id fb lst_id = 4096 * unat lst_id + unat (fst (transfer_chunk fst_id lst_id fb lb lst_id))"
    "pos_of fst_id fb lst_id + unat (snd (transfer_chunk fst_id lst_id fb lb lst_id)) = 4096 * unat lst_id + unat lb + 1"
    "unat (fst (transfer_chunk fst_id lst_id fb lb lst_id)) + unat (snd (transfer_chunk fst_id lst_id fb lb lst_id)) \<le> 4096"
    using s l1 b by (auto simp: transfer_chunk_def pos_of_def)
qed

text \<open>Bytes of one part, in the buffer of its cluster.\<close>

lemma chunk_bytes:
  assumes "same_cluster buf (C (unat k))" "unat off + n \<le> 4096"
  shows "place (\<lambda>j. buf (off + word_of_nat j)) m d n = place (\<lambda>j. cbyte C (4096 * unat k + unat off + j)) m d n"
proof (rule place_cong)
  fix j assume j: "j < n"
  then have u: "unat off + j < 4096" using assms(2) by simp
  have w: "off + word_of_nat j = word_of_nat (unat off + j)" by simp
  have "(word_of_nat (unat off + j) :: u32) < 4096"
    using u by (simp add: word_less_nat_alt unat_of_nat_small del: of_nat_add)
  then have "buf (off + word_of_nat j) = C (unat k) (word_of_nat (unat off + j))"
    using assms(1) unfolding w same_cluster_def by blast
  moreover have "(4096 * unat k + unat off + j) div 4096 = unat k" "(4096 * unat k + unat off + j) mod 4096 = unat off + j"
    using u by (simp_all add: add.assoc)
  ultimately show "buf (off + word_of_nat j) = cbyte C (4096 * unat k + unat off + j)"
    by (simp add: cbyte_def)
qed

lemma file_reads_same_mem:
  assumes "file_reads p cs C S T"
  shows "file_reads p cs C S (T\<lparr>fs_mem := m\<rparr>)"
proof -
  have "T = S\<lparr>fs_inodes := (fs_inodes S)(p := fs_inodes T p), fs_fat := fs_fat T, fs_mem := fs_mem T\<rparr>"
    using assms unfolding file_reads_def by blast
  then have "T\<lparr>fs_mem := m\<rparr> = S\<lparr>fs_inodes := (fs_inodes S)(p := fs_inodes T p), fs_fat := fs_fat T, fs_mem := m\<rparr>"
    by (metis (no_types, lifting) file_sys.update_convs(7) file_sys.surjective)
  then show ?thesis using assms unfolding file_reads_def by simp
qed

text \<open>Where the parts of the transfer go, and how many bytes reach the caller.\<close>

definition read_lost :: "u32 \<Rightarrow> u32 \<Rightarrow> u32 \<Rightarrow> u32 \<Rightarrow> u32 \<Rightarrow> nat" where
  "read_lost fst_id lst_id fb lb buffer =
    (let chunk = transfer_chunk fst_id lst_id fb lb lst_id
     in tail_lost (buffer + word_of_nat (pos_of fst_id fb lst_id - pos_of fst_id fb fst_id)) (fst chunk) (snd chunk))"

definition end_pos :: "u32 \<Rightarrow> u32 \<Rightarrow> nat" where
  "end_pos lst_id lb = 4096 * unat lst_id + unat lb + 1"

lemma read_step:
  assumes inv: "file_inv (fs_inodes S p) cs (fs_fat S)" and same: "same_file cs C (fs_inodes S p) (fs_fat S)"
    and p: "p \<noteq> 0" and k: "unat k < length cs" and nf: "faultless (fs_fat S)" and kl: "k \<le> lst_id"
    and off: "pos_of fst_id fb k = 4096 * unat k + unat (fst (transfer_chunk fst_id lst_id fb lb k))"
    and le: "unat (fst (transfer_chunk fst_id lst_id fb lb k)) + unat (snd (transfer_chunk fst_id lst_id fb lb k)) \<le> 4096"
  obtains T where "file_reads p cs C S T"
    "fs_mem T = place (\<lambda>j. cbyte C (pos_of fst_id fb k + j)) (fs_mem S) (buffer + mv)
       (memcpy_moved (buffer + mv) (fst (transfer_chunk fst_id lst_id fb lb k)) (snd (transfer_chunk fst_id lst_id fb lb k)))"
    "read_loop p fst_id lst_id fb lb buffer k mv S
      = read_loop p fst_id lst_id fb lb buffer (k + 1) (mv + snd (transfer_chunk fst_id lst_id fb lb k)) T"
proof -
  let ?c = "transfer_chunk fst_id lst_id fb lb k"
  obtain pd U where u: "with_inode p (file_cache_buffer k) S = Some (Inr (Some pd, U))"
    "file_reads p cs C S U" "fs_mem U = fs_mem S" "same_cluster (desc_buffer pd) (C (unat k))"
    by (rule read_buffer_step [OF inv same p k nf])
  let ?T = "U\<lparr>fs_mem := memcpy_across (desc_buffer pd) (fs_mem U) (buffer + mv) (fst ?c) (snd ?c)\<rparr>"
  have le': "unat (fst ?c) + memcpy_moved (buffer + mv) (fst ?c) (snd ?c) \<le> 4096"
    using le memcpy_moved_le [of "buffer + mv" "fst ?c" "snd ?c"] by linarith
  show ?thesis
  proof (rule that [of ?T])
    show "file_reads p cs C S ?T" by (rule file_reads_same_mem [OF u(2)])
    show "fs_mem ?T = place (\<lambda>j. cbyte C (pos_of fst_id fb k + j)) (fs_mem S) (buffer + mv)
       (memcpy_moved (buffer + mv) (fst ?c) (snd ?c))"
      using chunk_bytes [of "desc_buffer pd" C k, OF u(4) le', of "fs_mem S" "buffer + mv"]
      by (simp add: memcpy_across_moves across_place u(3) off)
    show "read_loop p fst_id lst_id fb lb buffer k mv S
      = read_loop p fst_id lst_id fb lb buffer (k + 1) (mv + snd ?c) ?T"
      using kl by (subst read_loop.simps) (simp add: fbind_def u(1) Let_def)
  qed
qed

lemma read_loop_spec:
  assumes "file_inv (fs_inodes S p) cs (fs_fat S)" "same_file cs C (fs_inodes S p) (fs_fat S)"
    and "p \<noteq> 0" "faultless (fs_fat S)" "fst_id \<le> k" "k \<le> lst_id" "unat lst_id < length cs"
    and b: "fb < 4096" "lb < 4096" "fst_id = lst_id \<longrightarrow> fb \<le> lb"
    and mv: "mv = word_of_nat (pos_of fst_id fb k - pos_of fst_id fb fst_id)"
  shows "\<exists>S'. read_loop p fst_id lst_id fb lb buffer k mv S
        = Some (Inr (Some (mv + word_of_nat (end_pos lst_id lb - pos_of fst_id fb k)), S')) \<and>
      file_reads p cs C S S' \<and>
      fs_mem S' = place (\<lambda>j. cbyte C (pos_of fst_id fb k + j)) (fs_mem S) (buffer + mv)
        (end_pos lst_id lb - pos_of fst_id fb k - read_lost fst_id lst_id fb lb buffer)"
  using assms(1-7) mv
proof (induction "unat lst_id - unat k" arbitrary: k mv S)
  case 0
  then have k: "k = lst_id" by (simp add: word_le_nat_alt word_unat_eq_iff)
  note f = last_chunk_facts [OF _ b]
  let ?c = "transfer_chunk fst_id lst_id fb lb lst_id"
  have le: "fst_id \<le> lst_id" using 0 by simp
  obtain T where t: "file_reads p cs C S T"
    "fs_mem T = place (\<lambda>j. cbyte C (pos_of fst_id fb lst_id + j)) (fs_mem S) (buffer + mv)
       (memcpy_moved (buffer + mv) (fst ?c) (snd ?c))"
    "read_loop p fst_id lst_id fb lb buffer lst_id mv S
      = read_loop p fst_id lst_id fb lb buffer (lst_id + 1) (mv + snd ?c) T"
    by (rule read_step [of S p cs C lst_id lst_id]) (use 0 k f le in auto)
  have nlt: "\<not> lst_id + 1 \<le> lst_id"
  proof -
    have "length cs < 2 ^ 20" using 0(2) by (simp add: file_inv_def)
    then have "unat lst_id + 1 < 4294967296" using 0 by simp
    then have "unat (lst_id + 1) = unat lst_id + 1" by (simp add: unat_add_no_wrap)
    then show ?thesis by (simp add: word_le_nat_alt)
  qed
  have n: "end_pos lst_id lb - pos_of fst_id fb lst_id = unat (snd ?c)" using f(2) le by (simp add: end_pos_def)
  moreover have "memcpy_moved (buffer + mv) (fst ?c) (snd ?c) = unat (snd ?c) - read_lost fst_id lst_id fb lb buffer"
    using memcpy_moved_le [of "buffer + mv" "fst ?c" "snd ?c"] 0(9) k
    by (simp add: read_lost_def tail_lost_def Let_def)
  ultimately show ?case
    using t nlt unfolding k by (subst (asm) (2) read_loop.simps) (auto simp: fret_def)
next
  case (Suc d)
  then have kl: "k < lst_id" by (simp add: word_less_nat_alt)
  let ?c = "transfer_chunk fst_id lst_id fb lb k"
  note f = chunk_facts [OF \<open>fst_id \<le> k\<close> kl b(1), of lb]
  have k1: "unat (k + 1) = unat k + 1" by (rule unat_plus_1_less [OF kl])
  have kc: "unat k < length cs" using kl Suc.prems(7) by (simp add: word_less_nat_alt)
  obtain T where t: "file_reads p cs C S T"
    "fs_mem T = place (\<lambda>j. cbyte C (pos_of fst_id fb k + j)) (fs_mem S) (buffer + mv)
       (memcpy_moved (buffer + mv) (fst ?c) (snd ?c))"
    "read_loop p fst_id lst_id fb lb buffer k mv S
      = read_loop p fst_id lst_id fb lb buffer (k + 1) (mv + snd ?c) T"
    by (rule read_step [of S p cs C k lst_id]) (use Suc.prems kc f in auto)
  have full: "memcpy_moved (buffer + mv) (fst ?c) (snd ?c) = unat (snd ?c)"
    by (rule memcpy_moved_full) (rule f(4))
  have p1: "pos_of fst_id fb (k + 1) = pos_of fst_id fb k + unat (snd ?c)"
  proof -
    have "k + 1 \<noteq> fst_id" using Suc.prems(5) k1 by (auto simp: word_le_nat_alt word_unat_eq_iff)
    then have "pos_of fst_id fb (k + 1) = 4096 * unat (k + 1)" by (simp add: pos_of_def)
    moreover have "pos_of fst_id fb k \<le> 4096 * unat (k + 1)" using f(2,3) k1 by linarith
    ultimately show ?thesis using f(1) by simp
  qed
  have mono: "pos_of fst_id fb fst_id \<le> pos_of fst_id fb k"
    using Suc.prems(5) b(1) by (cases "k = fst_id") (auto simp: pos_of_def word_le_nat_alt word_less_nat_alt word_unat_eq_iff)
  have mv1: "mv + snd ?c = word_of_nat (pos_of fst_id fb (k + 1) - pos_of fst_id fb fst_id)"
    using mono by (simp add: Suc.prems(8) p1)
  have ft: "faultless (fs_fat T)"
    using t(1) Suc.prems(4) fat_reads_device(4) by (auto simp: file_reads_def)
  have "\<exists>S'. read_loop p fst_id lst_id fb lb buffer (k + 1) (mv + snd ?c) T
        = Some (Inr (Some (mv + snd ?c + word_of_nat (end_pos lst_id lb - pos_of fst_id fb (k + 1))), S')) \<and>
      file_reads p cs C T S' \<and>
      fs_mem S' = place (\<lambda>j. cbyte C (pos_of fst_id fb (k + 1) + j)) (fs_mem T) (buffer + (mv + snd ?c))
        (end_pos lst_id lb - pos_of fst_id fb (k + 1) - read_lost fst_id lst_id fb lb buffer)"
  proof (rule Suc.hyps(1))
    show "d = unat lst_id - unat (k + 1)" using Suc.hyps(2) k1 by simp
    show "file_inv (fs_inodes T p) cs (fs_fat T)" "same_file cs C (fs_inodes T p) (fs_fat T)"
      using t(1) by (auto simp: file_reads_def)
    show "fst_id \<le> k + 1" "k + 1 \<le> lst_id"
      using Suc.prems(5) kl k1 by (simp_all add: word_le_nat_alt word_less_nat_alt)
  qed (use Suc.prems ft mv1 in auto)
  then obtain S' where s': "read_loop p fst_id lst_id fb lb buffer (k + 1) (mv + snd ?c) T
        = Some (Inr (Some (mv + snd ?c + word_of_nat (end_pos lst_id lb - pos_of fst_id fb (k + 1))), S'))"
      "file_reads p cs C T S'"
      "fs_mem S' = place (\<lambda>j. cbyte C (pos_of fst_id fb (k + 1) + j)) (fs_mem T) (buffer + (mv + snd ?c))
        (end_pos lst_id lb - pos_of fst_id fb (k + 1) - read_lost fst_id lst_id fb lb buffer)"
    by blast
  have len: "end_pos lst_id lb < 4294967296"
  proof -
    have "length cs < 2 ^ 20" using Suc.prems(1) by (simp add: file_inv_def)
    then show ?thesis using Suc.prems(7) b(2) by (simp add: end_pos_def word_less_nat_alt)
  qed
  have fl: "fst_id < lst_id" using Suc.prems(5) kl by simp
  have pl: "pos_of fst_id fb (k + 1) \<le> pos_of fst_id fb lst_id"
  proof -
    have "k + 1 \<noteq> fst_id" using Suc.prems(5) k1 by (auto simp: word_le_nat_alt word_unat_eq_iff)
    moreover have "lst_id \<noteq> fst_id" using fl by auto
    ultimately have "k + 1 \<noteq> fst_id" "lst_id \<noteq> fst_id" .
    then show ?thesis using kl k1 by (simp add: pos_of_def word_less_nat_alt)
  qed
  have lost: "pos_of fst_id fb lst_id + read_lost fst_id lst_id fb lb buffer \<le> end_pos lst_id lb"
  proof -
    have "fst_id \<le> lst_id" using fl by simp
    then show ?thesis
      using last_chunk_facts(2) [OF _ b] by (simp add: read_lost_def tail_lost_def Let_def end_pos_def)
  qed
  let ?n2 = "end_pos lst_id lb - pos_of fst_id fb (k + 1) - read_lost fst_id lst_id fb lb buffer"
  have total: "unat (snd ?c) + ?n2 = end_pos lst_id lb - pos_of fst_id fb k - read_lost fst_id lst_id fb lb buffer"
    using p1 pl lost by linarith
  have ret: "word_of_nat (end_pos lst_id lb - pos_of fst_id fb k)
      = snd ?c + (word_of_nat (end_pos lst_id lb - pos_of fst_id fb (k + 1)) :: u32)"
  proof -
    have "end_pos lst_id lb - pos_of fst_id fb k
        = unat (snd ?c) + (end_pos lst_id lb - pos_of fst_id fb (k + 1))"
      using p1 pl lost by linarith
    then show ?thesis by simp
  qed
  have "fs_mem S' = place (\<lambda>j. cbyte C (pos_of fst_id fb k + (unat (snd ?c) + j)))
      (place (\<lambda>j. cbyte C (pos_of fst_id fb k + j)) (fs_mem S) (buffer + mv) (unat (snd ?c)))
      ((buffer + mv) + word_of_nat (unat (snd ?c))) ?n2"
    using s'(3) t(2) full p1 by (simp add: add.assoc)
  also have "\<dots> = place (\<lambda>j. cbyte C (pos_of fst_id fb k + j)) (fs_mem S) (buffer + mv) (unat (snd ?c) + ?n2)"
    by (rule place_append) (use total len in linarith)
  finally have "fs_mem S' = \<dots>" .
  then show ?case
    using s'(1) file_reads_trans [OF t(1) s'(2)] t(3) total ret by (auto simp: add.assoc)
qed

section \<open>The system call\<close>

lemma offset_split: "4096 * unat (drop_bit 12 x) + unat (x AND 0xFFF) = unat (x :: u32)" "x AND 0xFFF < 4096"
proof -
  have "x AND 0xFFF = x mod 4096"
    using take_bit_eq_mask [of 12 x] take_bit_eq_mod [of 12 x] by (simp add: mask_eq_exp_minus_1)
  then have m: "unat (x AND 0xFFF) = unat x mod 4096" by (simp add: unat_mod)
  then show "4096 * unat (drop_bit 12 x) + unat (x AND 0xFFF) = unat x"
    by (simp add: drop_bit_eq_div unat_div)
  show "x AND 0xFFF < 4096" using m by (simp add: word_less_nat_alt)
qed

lemma offset_mono:
  assumes "(x :: u32) \<le> y"
  shows "drop_bit 12 x \<le> drop_bit 12 y" "drop_bit 12 x = drop_bit 12 y \<longrightarrow> x AND 0xFFF \<le> y AND 0xFFF"
proof -
  have le: "unat x \<le> unat y" using assms by (simp add: word_le_nat_alt)
  note s = offset_split(1) [of x] offset_split(1) [of y] and b = offset_split(2) [of x] offset_split(2) [of y]
  show "drop_bit 12 x \<le> drop_bit 12 y"
    using s b le unfolding word_le_nat_alt word_less_nat_alt by simp
  show "drop_bit 12 x = drop_bit 12 y \<longrightarrow> x AND 0xFFF \<le> y AND 0xFFF"
    using s le by (auto simp: word_le_nat_alt)
qed

lemma four_dvd: "4 dvd 4096 * (k :: nat)"
  by (rule dvd_trans [of _ 4096]) simp_all

lemma four_mod: "(4096 * k + x) mod 4 = x mod (4 :: nat)"
proof -
  have "4096 * k + x = x + 4 * (1024 * k)" by simp
  then show ?thesis by (simp only: mod_mult_self2)
qed

lemma four_add: "4 dvd o' \<Longrightarrow> 4 dvd 4096 * L + o' + s \<longleftrightarrow> 4 dvd (s :: nat)"
  by (rule dvd_add_right_iff) (simp add: four_dvd)

lemma mod4_shift:
  fixes B D F L o' f :: nat
  assumes "4 dvd B + D" "D + (4096 * F + f) = 4096 * L + o'" "4 dvd o'"
  shows "B mod 4 = f mod 4"
proof -
  have "4096 * L + o' = 4096 * F + (D + f)" using assms(2) by simp
  moreover have "4 dvd 4096 * L + o'" using four_dvd assms(3) by (rule dvd_add)
  ultimately have "4 dvd D + f" using four_dvd by (metis dvd_add_right_iff)
  with assms(1) show ?thesis by presburger
qed

text \<open>The bytes that do not arrive are those of an incomplete last word.\<close>

lemma read_lost_bound:
  assumes "fst_id \<le> lst_id" "fb < 4096" "lb < 4096" "fst_id = lst_id \<longrightarrow> fb \<le> lb"
    and "length cs < 2 ^ 20" "unat lst_id < length cs"
  shows "read_lost fst_id lst_id fb lb buffer \<le> 3"
    and "4 dvd end_pos lst_id lb \<or> unat buffer mod 4 \<noteq> unat fb mod 4 \<Longrightarrow> read_lost fst_id lst_id fb lb buffer = 0"
    and "read_lost fst_id lst_id fb lb buffer \<le> end_pos lst_id lb - pos_of fst_id fb fst_id"
proof -
  let ?c = "transfer_chunk fst_id lst_id fb lb lst_id"
  let ?d = "pos_of fst_id fb lst_id - pos_of fst_id fb fst_id"
  note f = last_chunk_facts [OF assms(1-4)]
  show "read_lost fst_id lst_id fb lb buffer \<le> 3"
    by (simp add: read_lost_def tail_lost_def memcpy_moved_def Let_def) presburger?
  have mono: "pos_of fst_id fb fst_id \<le> pos_of fst_id fb lst_id"
    using assms(1,2) by (cases "lst_id = fst_id")
      (auto simp: pos_of_def word_le_nat_alt word_less_nat_alt word_unat_eq_iff)
  show "read_lost fst_id lst_id fb lb buffer \<le> end_pos lst_id lb - pos_of fst_id fb fst_id"
    using f(2) mono by (simp add: read_lost_def tail_lost_def Let_def end_pos_def)
  have "4 dvd end_pos lst_id lb \<longrightarrow> read_lost fst_id lst_id fb lb buffer = 0"
    "unat buffer mod 4 \<noteq> unat fb mod 4 \<longrightarrow> read_lost fst_id lst_id fb lb buffer = 0"
  proof -
    have cases: "aligned4 (buffer + word_of_nat ?d) \<and> aligned4 (fst ?c) \<and> \<not> 4 dvd unat (snd ?c)"
      if "read_lost fst_id lst_id fb lb buffer \<noteq> 0"
      using that by (auto simp: read_lost_def tail_lost_def memcpy_moved_def Let_def split: if_splits)
    have dest: "4 dvd unat buffer + ?d" if "aligned4 (buffer + word_of_nat ?d)"
    proof -
      have "unat (buffer + word_of_nat ?d) mod 4 = (unat buffer + ?d) mod 4"
        by (simp add: unat_word_ariths unat_of_nat mod_mod_cancel mod_add_right_eq)
      then show ?thesis using that by (simp add: aligned4_unat dvd_eq_mod_eq_0)
    qed
    have e: "end_pos lst_id lb = 4096 * unat lst_id + unat (fst ?c) + unat (snd ?c)"
      using f(1,2) by (simp add: end_pos_def)
    then show "4 dvd end_pos lst_id lb \<longrightarrow> read_lost fst_id lst_id fb lb buffer = 0"
      using cases by (metis aligned4_unat four_add)
    have "?d + (4096 * unat fst_id + unat fb) = 4096 * unat lst_id + unat (fst ?c)"
      using f(1) mono by (simp add: pos_of_def [of fst_id fb fst_id])
    then show "unat buffer mod 4 \<noteq> unat fb mod 4 \<longrightarrow> read_lost fst_id lst_id fb lb buffer = 0"
      using cases dest mod4_shift [of "unat buffer" ?d "unat fst_id" "unat fb" "unat lst_id" "unat (fst ?c)"]
      by (auto simp: aligned4_unat)
  qed
  then show "4 dvd end_pos lst_id lb \<or> unat buffer mod 4 \<noteq> unat fb mod 4 \<Longrightarrow> read_lost fst_id lst_id fb lb buffer = 0"
    by blast
qed

lemma fat_reads_disk:
  "fat_reads s s' \<Longrightarrow> sectors (device s') = sectors (device s)"
  by (simp add: fat_reads_def)

lemma fat_read_spec:
  assumes "fs_initialized S = FAT_INITIALIZED" "fd_id < GIET_OPEN_FILES_MAX" "fd_allocated (fs_fd S fd_id)"
    and idle: "lock_idle (fs_lock S)" and p: "p = fd_inode (fs_fd S fd_id)" "p \<noteq> 0"
    and inv: "file_inv (fs_inodes S p) cs (fs_fat S)" and nf: "faultless (fs_fat S)"
    and cnt: "0 < cnt" and sz: "unat (fd_seek (fs_fd S fd_id)) + unat cnt \<le> unat (inode_size (fs_inodes S p))"
      "unat (inode_size (fs_inodes S p)) \<le> 4096 * length cs"
  shows "\<exists>S' n. fat_read fd_id buffer cnt S = Some (Inr (Some (sint cnt), S')) \<and>
    fs_mem S' = place (\<lambda>j. cbyte (file_cluster (fs_inodes S p) cs (fs_fat S)) (unat (fd_seek (fs_fd S fd_id)) + j))
      (fs_mem S) buffer n \<and>
    n \<le> unat cnt \<and> unat cnt \<le> n + 3 \<and>
    (4 dvd unat (fd_seek (fs_fd S fd_id)) + unat cnt \<or> unat buffer mod 4 \<noteq> unat (fd_seek (fs_fd S fd_id)) mod 4 \<longrightarrow> n = unat cnt) \<and>
    lock_idle (fs_lock S') \<and> fs_fd S' = (fs_fd S)(fd_id := (fs_fd S fd_id)\<lparr>fd_seek := fd_seek (fs_fd S fd_id) + cnt\<rparr>) \<and>
    file_inv (fs_inodes S' p) cs (fs_fat S') \<and>
    (\<forall>k<length cs. same_cluster (file_cluster (fs_inodes S' p) cs (fs_fat S') k) (file_cluster (fs_inodes S p) cs (fs_fat S) k))"
proof -
  let ?seek = "fd_seek (fs_fd S fd_id)" and ?i = "fs_inodes S p"
  let ?e = "?seek + cnt - 1"
  let ?C = "file_cluster ?i cs (fs_fat S)"
  obtain l where l: "spin_lock_acquire (fs_lock S) = Some l" "lock_held l"
    using spin.acquire_idle [OF idle] by blast
  let ?S = "S\<lparr>fs_lock := l\<rparr>"
  have len: "length cs < 2 ^ 20" using inv by (simp add: file_inv_def)
  have c0: "0 < unat cnt" using cnt by (simp add: unat_gt_0)
  have sum: "unat (?seek + cnt) = unat ?seek + unat cnt"
    using sz len by (subst unat_add_no_wrap) auto
  have nz: "?seek + cnt \<noteq> 0" using sum c0 by auto
  have e: "unat ?e = unat ?seek + unat cnt - 1" using unat_minus_one [OF nz] sum by simp
  have se: "?seek \<le> ?e" using e c0 by (simp add: word_le_nat_alt)
  note o = offset_mono [OF se] and sp = offset_split(1) [of ?seek] offset_split(1) [of ?e]
  let ?f = "drop_bit 12 ?seek" and ?l = "drop_bit 12 ?e" and ?fb = "?seek AND 0xFFF" and ?lb = "?e AND 0xFFF"
  have ll: "unat ?l < length cs" using sp(2) sz e c0 by linarith
  have ep: "end_pos ?l ?lb = unat ?seek + unat cnt" using sp(2) e c0 by (simp add: end_pos_def)
  have pf: "pos_of ?f ?fb ?f = unat ?seek" using sp(1) by (simp add: pos_of_def)
  have fm: "unat ?fb mod 4 = unat ?seek mod 4"
    unfolding sp(1) [symmetric] by (rule four_mod [symmetric])
  have "\<exists>S'. read_loop p ?f ?l ?fb ?lb buffer ?f 0 ?S
        = Some (Inr (Some (0 + word_of_nat (end_pos ?l ?lb - pos_of ?f ?fb ?f)), S')) \<and>
      file_reads p cs ?C ?S S' \<and>
      fs_mem S' = place (\<lambda>j. cbyte ?C (pos_of ?f ?fb ?f + j)) (fs_mem ?S) (buffer + 0)
        (end_pos ?l ?lb - pos_of ?f ?fb ?f - read_lost ?f ?l ?fb ?lb buffer)"
  proof (rule read_loop_spec [OF _ _ p(2) _ order.refl o(1) ll offset_split(2) offset_split(2) o(2)])
    show "file_inv (fs_inodes ?S p) cs (fs_fat ?S)" "faultless (fs_fat ?S)" using inv nf by simp_all
    show "same_file cs ?C (fs_inodes ?S p) (fs_fat ?S)" by (simp add: same_file_def)
    show "0 = word_of_nat (pos_of ?f ?fb ?f - pos_of ?f ?fb ?f)" by simp
  qed
  then obtain T where t: "read_loop p ?f ?l ?fb ?lb buffer ?f 0 ?S = Some (Inr (Some cnt, T))"
    "file_reads p cs ?C ?S T" "fs_mem T = place (\<lambda>j. cbyte ?C (unat ?seek + j)) (fs_mem S) buffer
       (unat cnt - read_lost ?f ?l ?fb ?lb buffer)"
    by (auto simp: ep pf)
  have T: "T = ?S\<lparr>fs_inodes := (fs_inodes ?S)(p := fs_inodes T p), fs_fat := fs_fat T, fs_mem := fs_mem T\<rparr>"
    using t(2) unfolding file_reads_def by blast
  have Tf: "fs_fd T = fs_fd S" "fs_lock T = l" by (subst T, simp)+
  note lost = read_lost_bound [OF o(1) offset_split(2) offset_split(2) o(2) len ll, of buffer]
  define S' where "S' = T\<lparr>fs_fd := (fs_fd S)(fd_id := (fs_fd S fd_id)\<lparr>fd_seek := ?seek + cnt\<rparr>),
    fs_lock := spin_lock_release l\<rparr>"
  show ?thesis
  proof (intro exI [of _ S'] exI [of _ "unat cnt - read_lost ?f ?l ?fb ?lb buffer"] conjI)
    have "\<not> inode_size ?i < cnt + ?seek" using sum sz by (simp add: word_less_nat_alt add.commute)
    moreover have "\<not> GIET_OPEN_FILES_MAX \<le> fd_id" using assms(2) by simp
    ultimately show "fat_read fd_id buffer cnt S = Some (Inr (Some (sint cnt), S'))"
      using assms(1-3) p t(1) l(1)
      by (simp add: fat_read_def locked_def fbind_def fcatch_def fret_def get_inode_def unlock_def Let_def Tf S'_def)
    show "lock_idle (fs_lock S')" by (simp add: S'_def spin.release_held [OF l(2)])
    show "file_inv (fs_inodes S' p) cs (fs_fat S')"
      "\<forall>k<length cs. same_cluster (file_cluster (fs_inodes S' p) cs (fs_fat S') k) (?C k)"
      using t(2) by (auto simp: S'_def file_reads_def same_file_def)
  qed (use lost t(3) ep pf fm in \<open>auto simp: S'_def\<close>)
qed

section \<open>A file system with one file\<close>

text \<open>The file at \<open>0x1000\<close> has the cluster 2, whose byte \<open>a\<close> is \<open>a mod 256\<close>, and 10 bytes.\<close>

definition one_file_fs :: fat_desc where
  "one_file_fs = small_fs\<lparr>device := \<lparr>sectors = (\<lambda>l a. if l < 48 then 0xFF else ucast a),
    faults = (\<lambda>_. False), accesses = 0\<rparr>\<rparr>"

definition one_file :: file_sys where
  "one_file = \<lparr>fs_fat = one_file_fs, fs_inodes = (\<lambda>_. empty_file\<lparr>inode_cluster := 2, inode_size := 10\<rparr>),
    fs_fd = (\<lambda>_. \<lparr>fd_seek = 3, fd_inode = 0x1000, fd_allocated = True, fd_read_only = False\<rparr>),
    fs_lock = \<lparr>current = 0, free_ticket = 0\<rparr>, fs_root = 0, fs_initialized = FAT_INITIALIZED,
    fs_mem = (\<lambda>_. 0), fs_new = (\<lambda>k. 0x1000 + 64 * word_of_nat k), fs_count = 1\<rparr>"

lemma one_file_inv: "file_inv (fs_inodes one_file q) [2] (fs_fat one_file)" "faultless (fs_fat one_file)"
proof -
  have inv: "fat_inv one_file_fs"
    using small_fs_inv by (simp add: fat_inv_def one_file_fs_def cache_addressed_def)
  have ev: "entry_valid 1 2" using small_fs_valid [of 2] by simp
  have "fat_table one_file_fs 2 = 0xFFFFFFFF"
    using ev by (simp add: fat_table_def fat_cluster_def one_file_fs_def entry_in_def load32_def device_block_def)
  then have "fat_chain (fat_table one_file_fs) 2 [2]" by (simp add: END_OF_CHAIN_CLUSTER_MIN_def)
  moreover have "inode_at (empty_file\<lparr>inode_cluster := 2, inode_size := 10\<rparr>) = inode_at empty_file"
    "inode_wf (empty_file\<lparr>inode_cluster := 2, inode_size := 10\<rparr>)"
    using empty_file_wf(1) by (simp_all add: fun_eq_iff inode_at_def inode_wf_def)
  ultimately show "file_inv (fs_inodes one_file q) [2] (fs_fat one_file)"
    using inv ev empty_file_wf(2) by (simp add: file_inv_def one_file_def one_file_fs_def)
  show "faultless (fs_fat one_file)" by (simp add: one_file_def one_file_fs_def faultless_def)
qed

section \<open>Property\<close>

text \<open>C34: \<open>_fat_read\<close> of \<open>count\<close> bytes inside an open file returns \<open>count\<close>, advances the
  offset by it and leaves the lock free. The memory of the caller receives from \<open>buffer\<close> on the bytes
  of the file from the old offset, over as many clusters as they span and whether these are in
  the File-Cache or on the device, and no other byte of memory changes. At most three bytes at the
  end are not delivered, and only when the last part is copied by words. The file and the FAT
  keep their contents.\<close>

theorem fat_read_returns_file:
  assumes "fs_initialized S = FAT_INITIALIZED" "fd_id < GIET_OPEN_FILES_MAX" "fd_allocated (fs_fd S fd_id)"
    and "lock_idle (fs_lock S)" "p = fd_inode (fs_fd S fd_id)" "p \<noteq> 0"
    and "file_inv (fs_inodes S p) cs (fs_fat S)" "faultless (fs_fat S)"
    and "0 < cnt" "unat (fd_seek (fs_fd S fd_id)) + unat cnt \<le> unat (inode_size (fs_inodes S p))"
      "unat (inode_size (fs_inodes S p)) \<le> 4096 * length cs"
  shows "\<exists>S' n. fat_read fd_id buffer cnt S = Some (Inr (Some (sint cnt), S')) \<and>
    fs_mem S' = place (\<lambda>j. cbyte (file_cluster (fs_inodes S p) cs (fs_fat S)) (unat (fd_seek (fs_fd S fd_id)) + j))
      (fs_mem S) buffer n \<and>
    n \<le> unat cnt \<and> unat cnt \<le> n + 3 \<and>
    (4 dvd unat (fd_seek (fs_fd S fd_id)) + unat cnt \<or> unat buffer mod 4 \<noteq> unat (fd_seek (fs_fd S fd_id)) mod 4 \<longrightarrow> n = unat cnt) \<and>
    lock_idle (fs_lock S') \<and> fs_fd S' = (fs_fd S)(fd_id := (fs_fd S fd_id)\<lparr>fd_seek := fd_seek (fs_fd S fd_id) + cnt\<rparr>) \<and>
    file_inv (fs_inodes S' p) cs (fs_fat S') \<and>
    (\<forall>k<length cs. same_cluster (file_cluster (fs_inodes S' p) cs (fs_fat S') k) (file_cluster (fs_inodes S p) cs (fs_fat S) k))"
  by (rule fat_read_spec [OF assms])

lemma fat_read_returns_file_witness:
  "\<exists>S'. fat_read 5 0x2001 6 one_file = Some (Inr (Some 6, S')) \<and> fs_mem S' 0x2001 = 3 \<and>
    fs_mem S' 0x2006 = 8 \<and> fs_mem S' 0x2007 = 0 \<and> fd_seek (fs_fd S' 5) = 9 \<and> lock_idle (fs_lock S')"
proof -
  have s: "fs_fd one_file 5 = \<lparr>fd_seek = 3, fd_inode = 0x1000, fd_allocated = True, fd_read_only = False\<rparr>"
    "inode_size (fs_inodes one_file 0x1000) = 10" "fs_mem one_file = (\<lambda>_. 0)"
    "lock_idle (fs_lock one_file)" "fs_initialized one_file = FAT_INITIALIZED"
    by (simp_all add: one_file_def lock_idle_def)
  have c: "cbyte (file_cluster (fs_inodes one_file 0x1000) [2] (fs_fat one_file)) j = word_of_nat j" if "j < 10" for j
  proof -
    have at: "inode_at (fs_inodes one_file 0x1000) q = None" for q
      using empty_file_wf(2) [of q] by (simp add: one_file_def inode_at_def split: if_splits)
    have "file_cluster (fs_inodes one_file 0x1000) [2] (fs_fat one_file) 0 = device_block (device one_file_fs) 48"
      unfolding file_cluster_def at by (simp add: cluster_lba_def one_file_def one_file_fs_def)
    moreover have "j \<in> set [0..<10]" using that by simp
    ultimately show ?thesis
      by (auto simp: upt_rec cbyte_def device_block_def one_file_fs_def)
  qed
  have d: "fd_seek (fs_fd one_file 5) = 3" "fd_inode (fs_fd one_file 5) = 0x1000" "fd_allocated (fs_fd one_file 5)"
    by (simp_all add: s(1))
  have "\<exists>S' n. fat_read 5 0x2001 6 one_file = Some (Inr (Some (sint (6 :: u32)), S')) \<and>
    fs_mem S' = place (\<lambda>j. cbyte (file_cluster (fs_inodes one_file 0x1000) [2] (fs_fat one_file)) (unat (fd_seek (fs_fd one_file 5)) + j))
      (fs_mem one_file) 0x2001 n \<and>
    n \<le> unat (6 :: u32) \<and> unat (6 :: u32) \<le> n + 3 \<and>
    (4 dvd unat (fd_seek (fs_fd one_file 5)) + unat (6 :: u32) \<or>
      unat (0x2001 :: u32) mod 4 \<noteq> unat (fd_seek (fs_fd one_file 5)) mod 4 \<longrightarrow> n = unat (6 :: u32)) \<and>
    lock_idle (fs_lock S') \<and> fs_fd S' = (fs_fd one_file)(5 := (fs_fd one_file 5)\<lparr>fd_seek := fd_seek (fs_fd one_file 5) + 6\<rparr>) \<and>
    file_inv (fs_inodes S' 0x1000) [2] (fs_fat S') \<and>
    (\<forall>k<length [2 :: u32]. same_cluster (file_cluster (fs_inodes S' 0x1000) [2] (fs_fat S') k)
      (file_cluster (fs_inodes one_file 0x1000) [2] (fs_fat one_file) k))"
    by (rule fat_read_returns_file [OF s(5) _ d(3) s(4) _ _ one_file_inv])
      (simp_all add: d s(2) GIET_OPEN_FILES_MAX_def)
  then obtain S' n where "fat_read 5 0x2001 6 one_file = Some (Inr (Some 6, S'))"
    "fs_mem S' = place (\<lambda>j. cbyte (file_cluster (fs_inodes one_file 0x1000) [2] (fs_fat one_file)) (3 + j))
      (\<lambda>_. 0) 0x2001 n" "n = 6" "lock_idle (fs_lock S')"
    "fs_fd S' = (fs_fd one_file)(5 := (fs_fd one_file 5)\<lparr>fd_seek := 9\<rparr>)"
    by (elim exE conjE) (simp add: d s(3))
  then show ?thesis
    by (intro exI [of _ S']) (simp add: place_def c)
qed

end
