(* ===== verification/Fat_Dir.thy ===== *)
theory Fat_Dir
  imports Fat_Transfer Fat_Names
begin

text \<open>
  Directories of the FAT32 driver (\<open>giet_fat32/fat32.c\<close>): the scan of the 32-byte entries in the
  File-Cache of a directory, and the operations that add, remove or count its entries. The buffers
  for the parts of a long name are \<open>None\<close> as long as nothing was stored in them.
\<close>

section \<open>Scanning one buffer\<close>

record lfn_parts =
  lfn :: nat
  lfn1 :: "u8 list option"
  lfn2 :: "u8 list option"
  lfn3 :: "u8 list option"

definition no_lfn :: lfn_parts where
  "no_lfn = \<lparr>lfn = 0, lfn1 = None, lfn2 = None, lfn3 = None\<rparr>"

definition entry_attr :: "mem \<Rightarrow> u32 \<Rightarrow> u32" where
  "entry_attr buffer offset = fat_read_entry buffer (offset + DIR_ATTR) 1 False"

definition entry_ord :: "mem \<Rightarrow> u32 \<Rightarrow> u32" where
  "entry_ord buffer offset = fat_read_entry buffer (offset + LDIR_ORD) 1 False"

definition entry_cluster :: "mem \<Rightarrow> u32 \<Rightarrow> u32" where
  "entry_cluster buffer offset =
    push_bit 16 (fat_read_entry buffer (offset + DIR_FST_CLUS_HI) 2 True)
      OR fat_read_entry buffer (offset + DIR_FST_CLUS_LO) 2 True"

definition entry_size :: "mem \<Rightarrow> u32 \<Rightarrow> u32" where
  "entry_size buffer offset = fat_read_entry buffer (offset + DIR_FILE_SIZE) 4 True"

text \<open>The branch of the scan for an LFN entry.\<close>

definition lfn_entry :: "mem \<Rightarrow> u32 \<Rightarrow> lfn_parts \<Rightarrow> lfn_parts" where
  "lfn_entry buffer offset st =
    (let seq = unat (entry_ord buffer offset AND 0x3);
         st = st\<lparr>lfn := (if seq > lfn st then seq else lfn st)\<rparr>;
         name = Some (get_name_from_long buffer offset)
     in if seq = 1 then st\<lparr>lfn1 := name\<rparr>
        else if seq = 2 then st\<lparr>lfn2 := name\<rparr>
        else if seq = 3 then st\<lparr>lfn3 := name\<rparr>
        else st)"

text \<open>
  The name built for a NORMAL entry in a buffer of \<open>cap\<close> characters: the second part is stored at 13
  and the third at 26, so that a part shorter than 13 characters ends the string. There is no
  result when a part was never read, or when the third part overflows the buffer.
\<close>

definition join_name :: "u8 list \<Rightarrow> u8 list \<Rightarrow> u8 list" where
  "join_name a b = (if length a = 13 then a @ b else a)"

definition entry_name :: "nat \<Rightarrow> lfn_parts \<Rightarrow> mem \<Rightarrow> u32 \<Rightarrow> u8 list option" where
  "entry_name cap st buffer offset =
    (if lfn st = 0 then Some (get_name_from_short buffer offset)
     else if lfn st = 1 then lfn1 st
     else case (lfn1 st, lfn2 st) of
       (Some a, Some b) \<Rightarrow>
         if lfn st = 2 then Some (join_name a b)
         else (case lfn3 st of
             None \<Rightarrow> None
           | Some c \<Rightarrow> if 26 + length c < cap then Some (join_name a (join_name b c)) else None)
     | _ \<Rightarrow> None)"

text \<open>The outcome of the scan of a buffer: the end of the directory, the entry, or neither.\<close>

datatype dir_scan_result = Dir_end | Dir_found u32 lfn_parts | Dir_more lfn_parts

function dir_scan :: "u8 list \<Rightarrow> mem \<Rightarrow> u32 \<Rightarrow> lfn_parts \<Rightarrow> dir_scan_result option" where
  "dir_scan name buffer offset st =
    (if offset < 4096 then
       let attr = entry_attr buffer offset; ord = entry_ord buffer offset
       in if ord = NO_MORE_ENTRY then Some Dir_end
          else if ord = FREE_ENTRY then dir_scan name buffer (offset + 32) st
          else if attr = ATTR_LONG_NAME_MASK
               then dir_scan name buffer (offset + 32) (lfn_entry buffer offset st)
          else (case entry_name 32 st buffer offset of
              None \<Rightarrow> None
            | Some cname \<Rightarrow>
                if name = cname then Some (Dir_found offset (st\<lparr>lfn := 0\<rparr>))
                else dir_scan name buffer (offset + 32) (st\<lparr>lfn := 0\<rparr>))
     else Some (Dir_more st))"
  by pat_completeness auto

lemma scan_next: "(offset :: u32) < 4096 \<Longrightarrow> unat (offset + 32) = unat offset + 32"
  by (subst unat_add_no_wrap) (simp_all add: word_less_nat_alt)

termination dir_scan
  by (relation "measure (\<lambda>(_, _, offset, _). 4096 - unat offset)")
    (auto simp: scan_next word_less_nat_alt)

function end_offset :: "mem \<Rightarrow> u32 \<Rightarrow> u32" where
  "end_offset buffer offset =
    (if offset < 4096 \<and> entry_ord buffer offset \<noteq> NO_MORE_ENTRY
     then end_offset buffer (offset + 32) else offset)"
  by pat_completeness auto
termination
  by (relation "measure (\<lambda>(_, offset). 4096 - unat offset)") (auto simp: scan_next word_less_nat_alt)

text \<open>The count of the NORMAL entries of a buffer, and whether its end was found.\<close>

function count_entries :: "mem \<Rightarrow> u32 \<Rightarrow> u32 \<Rightarrow> u32 \<times> bool" where
  "count_entries buffer offset n =
    (if offset < 4096 then
       let attr = entry_attr buffer offset; ord = entry_ord buffer offset
       in if ord = NO_MORE_ENTRY then (n, True)
          else if ord = FREE_ENTRY then count_entries buffer (offset + 32) n
          else if attr = ATTR_LONG_NAME_MASK then count_entries buffer (offset + 32) n
          else count_entries buffer (offset + 32) (n + 1)
     else (n, False))"
  by pat_completeness auto
termination
  by (relation "measure (\<lambda>(_, offset, _). 4096 - unat offset)") (auto simp: scan_next word_less_nat_alt)

declare dir_scan.simps [simp del] end_offset.simps [simp del] count_entries.simps [simp del]

section \<open>Scanning a directory\<close>

text \<open>
  The loops over the clusters of a directory. The entry that is found gives the cluster, the
  \<open>dentry\<close> index, the kind and the size of the file.
\<close>

partial_function (option) dir_lookup ::
    "u8 list \<Rightarrow> u32 \<Rightarrow> lfn_parts \<Rightarrow> ((u32 \<times> 16 word \<times> bool \<times> u32) option, fat_inode \<times> fat_desc) fat_op" where
  "dir_lookup name cluster_id st T =
    fbind (file_cache_buffer cluster_id) (\<lambda>pdesc T.
      let buffer = desc_buffer pdesc in
      case dir_scan name buffer 0 st of
        None \<Rightarrow> None
      | Some Dir_end \<Rightarrow> fret None T
      | Some (Dir_found offset _) \<Rightarrow> fret (Some (entry_cluster buffer offset,
            ucast (drop_bit 5 (push_bit 12 cluster_id + offset)),
            entry_attr buffer offset AND ATTR_DIRECTORY = ATTR_DIRECTORY, entry_size buffer offset)) T
      | Some (Dir_more st) \<Rightarrow> dir_lookup name (cluster_id + 1) st T) T"

partial_function (option) nb_entries_loop ::
    "u32 \<Rightarrow> u32 \<Rightarrow> (u32, fat_inode \<times> fat_desc) fat_op" where
  "nb_entries_loop cluster_id n T =
    fbind (file_cache_buffer cluster_id) (\<lambda>pdesc T.
      case count_entries (desc_buffer pdesc) 0 n of
        (n, found) \<Rightarrow> if found then fret n T else nb_entries_loop (cluster_id + 1) n T) T"

definition get_nb_entries :: "(u32, fat_inode \<times> fat_desc) fat_op" where
  "get_nb_entries = nb_entries_loop 0 0"

partial_function (option) dir_end_loop :: "u32 \<Rightarrow> (u32 \<times> u32, fat_inode \<times> fat_desc) fat_op" where
  "dir_end_loop cluster_id T =
    fbind (file_cache_buffer cluster_id) (\<lambda>pdesc T.
      let offset = end_offset (desc_buffer pdesc) 0
      in if offset < 4096
         then fbind (file_update cluster_id (\<lambda>pdesc. pdesc\<lparr>desc_dirty := True\<rparr>))
                (\<lambda>_. fret (cluster_id, offset)) T
         else dir_end_loop (cluster_id + 1) T) T"

text \<open>The buffer a descriptor pointer refers to, when it is used again.\<close>

definition file_peek :: "u32 \<Rightarrow> (mem, fat_inode \<times> fat_desc) fat_op" where
  "file_peek cluster_id = (\<lambda>(inode, s).
    case cache_at (inode_levels inode) (inode_cache inode) (cache_key (inode_levels inode) cluster_id) of
      None \<Rightarrow> None
    | Some pdesc \<Rightarrow> fret (desc_buffer pdesc) (inode, s))"

section \<open>Adding an entry\<close>

text \<open>The entry written in a step of the automaton: LFN3, LFN2, LFN1, NORMAL, NOMORE.\<close>

definition write_step ::
    "nat \<Rightarrow> nat \<Rightarrow> u8 list \<Rightarrow> bool \<Rightarrow> u32 \<Rightarrow> u32 \<Rightarrow> u32 \<Rightarrow> mem \<Rightarrow> mem" where
  "write_step nb_lfn step name is_dir cluster nbytes offset buffer =
    (if step = 5 then write_lfn (if nb_lfn = 3 then 0x43 else 0x03) name 26 offset buffer
     else if step = 4 then write_lfn (if nb_lfn = 2 then 0x42 else 0x02) name 13 offset buffer
     else if step = 3 then write_lfn (if nb_lfn = 1 then 0x41 else 0x01) name 0 offset buffer
     else if step = 2 then write_normal name is_dir cluster nbytes offset buffer
     else buffer(offset := 0))"

text \<open>
  The automaton: \<open>cluster_id\<close> is the cluster in which the end was found, \<open>buf_id\<close> the cluster whose
  buffer is being written.
\<close>

fun add_steps :: "u32 \<Rightarrow> u32 \<Rightarrow> fat_inode \<Rightarrow> nat \<Rightarrow> u32 \<Rightarrow> nat \<Rightarrow> u32 \<Rightarrow> u32 \<Rightarrow> (unit, file_sys) fat_op" where
  "add_steps child parent attrs nb_lfn cluster_id 0 buf_id offset = fret ()"
| "add_steps child parent attrs nb_lfn cluster_id (Suc step) buf_id offset =
    fbind (if offset \<ge> 4096
           then fbind (with_inode parent (file_cache_buffer (cluster_id + 1))) (\<lambda>_.
                  fbind (with_inode parent (file_update (cluster_id + 1) (\<lambda>pdesc. pdesc\<lparr>desc_dirty := True\<rparr>)))
                    (\<lambda>_. fret (cluster_id + 1, 0)))
           else fret (buf_id, offset))
      (\<lambda>(buf_id, offset).
        fbind (with_inode parent (file_update buf_id (\<lambda>pdesc. pdesc\<lparr>desc_buffer :=
            write_step nb_lfn (Suc step) (inode_name attrs) (inode_is_dir attrs) (inode_cluster attrs)
              (inode_size attrs) offset (desc_buffer pdesc)\<rparr>)))
          (\<lambda>_. fbind (if Suc step = 2
                 then set_inode child (\<lambda>i. i\<lparr>inode_dentry := ucast (drop_bit 5 (push_bit 12 cluster_id + offset))\<rparr>)
                 else fret ())
            (\<lambda>_. add_steps child parent attrs nb_lfn cluster_id step buf_id (offset + 32))))"

definition add_dir_entry :: "u32 \<Rightarrow> u32 \<Rightarrow> (unit, file_sys) fat_op" where
  "add_dir_entry child parent =
    fbind (get_inode child) (\<lambda>attrs.
      case check_name_length (inode_name attrs) of
        None \<Rightarrow> ferr
      | Some (_, nb_lfn) \<Rightarrow>
          fbind (with_inode parent (dir_end_loop 0)) (\<lambda>(cluster_id, offset).
            add_steps child parent attrs nb_lfn cluster_id (nb_lfn + 2) cluster_id offset))"

section \<open>Removing an entry\<close>

fun invalidate_lfn :: "nat \<Rightarrow> u32 \<Rightarrow> u32 \<Rightarrow> u32 \<Rightarrow> (unit, fat_inode \<times> fat_desc) fat_op" where
  "invalidate_lfn 0 cluster_id buf_id offset = fret ()"
| "invalidate_lfn (Suc nb_lfn) cluster_id buf_id offset =
    (if offset = 0 \<and> cluster_id = 0 then fret ()
     else fbind (if offset = 0
                 then fbind (file_cache_buffer (cluster_id - 1)) (\<lambda>_.
                        fbind (file_update (cluster_id - 1) (\<lambda>pdesc. pdesc\<lparr>desc_dirty := True\<rparr>))
                          (\<lambda>_. fret (cluster_id - 1, 4096)))
                 else fret (buf_id, offset))
       (\<lambda>(buf_id, offset).
         let offset = offset - 32
         in fbind (file_peek buf_id) (\<lambda>buffer.
              if entry_attr buffer offset \<noteq> ATTR_LONG_NAME_MASK then fret ()
              else fbind (file_update buf_id (\<lambda>pdesc. pdesc\<lparr>desc_buffer := (desc_buffer pdesc)(offset := 0xE5)\<rparr>))
                (\<lambda>_. invalidate_lfn nb_lfn cluster_id buf_id offset))))"

definition remove_dir_entry :: "u32 \<Rightarrow> (unit, file_sys) fat_op" where
  "remove_dir_entry p =
    fbind (get_inode p) (\<lambda>inode.
      case check_name_length (inode_name inode) of
        None \<Rightarrow> ferr
      | Some (_, nb_lfn) \<Rightarrow>
          let dentry = ucast (inode_dentry inode) :: u32;
              cluster_id = drop_bit 7 dentry;
              offset = push_bit 5 (dentry AND 0x7F)
          in with_inode (inode_parent inode) (fbind (file_cache_buffer cluster_id) (\<lambda>_.
               fbind (file_update cluster_id (\<lambda>pdesc. pdesc\<lparr>desc_dirty := True,
                   desc_buffer := (desc_buffer pdesc)(offset := 0xE5)\<rparr>))
                 (\<lambda>_. invalidate_lfn nb_lfn cluster_id cluster_id offset))))"

section \<open>The entries of a new directory\<close>

definition write_special :: "nat \<Rightarrow> u32 \<Rightarrow> u32 \<Rightarrow> u32 \<Rightarrow> mem \<Rightarrow> mem" where
  "write_special dots cluster nbytes offset buffer =
    fold (\<lambda>i buffer. buffer(offset + word_of_nat i :=
        if i < dots then 0x2E
        else if i < 11 then 0x20
        else if i = 11 then 0x10
        else if i = 20 then ucast (drop_bit 16 cluster)
        else if i = 21 then ucast (drop_bit 24 cluster)
        else if i = 26 then ucast cluster
        else if i = 27 then ucast (drop_bit 8 cluster)
        else if i = 28 then ucast nbytes
        else if i = 29 then ucast (drop_bit 8 nbytes)
        else if i = 30 then ucast (drop_bit 16 nbytes)
        else if i = 31 then ucast (drop_bit 24 nbytes)
        else 0))
      [0..<32] buffer"

definition add_special_directories :: "u32 \<Rightarrow> u32 \<Rightarrow> (unit, file_sys) fat_op" where
  "add_special_directories child parent =
    fbind (get_inode child) (\<lambda>ci. fbind (get_inode parent) (\<lambda>pi.
      with_inode child (fbind (file_peek 0) (\<lambda>_.
        file_update 0 (\<lambda>pdesc. pdesc\<lparr>desc_buffer :=
          write_special 2 (inode_cluster pi) (inode_size pi) 32
            (write_special 1 (inode_cluster ci) (inode_size ci) 0 (desc_buffer pdesc))\<rparr>)))))"

end
