(* ===== verification/Fat_Boot.thy ===== *)
theory Fat_Boot
  imports Fat_Dir
begin

text \<open>
  The part of \<open>giet_fat32/fat32.c\<close> that the boot loader uses: \<open>_fat_init\<close>, and the functions that
  read a file without the caches, through the two buffers \<open>_fat_buffer_fat\<close> and
  \<open>_fat_buffer_data\<close>. The fields \<open>sector_size\<close> and \<open>cluster_size\<close>, which nothing reads, are left out.
\<close>

record boot_fat =
  bf_sys :: file_sys
  bf_buffer_fat :: mem
  bf_buffer_fat_lba :: u32
  bf_buffer_data :: mem
  bf_buffer_data_lba :: u32

definition bf_fat :: "boot_fat \<Rightarrow> fat_desc" where
  "bf_fat B = fs_fat (bf_sys B)"

definition set_device :: "boot_fat \<Rightarrow> block_device \<Rightarrow> boot_fat" where
  "set_device B d = B\<lparr>bf_sys := (bf_sys B)\<lparr>fs_fat := (bf_fat B)\<lparr>device := d\<rparr>\<rparr>\<rparr>"

section \<open>Reading without the caches\<close>

definition next_cluster_no_cache :: "u32 \<Rightarrow> (u32, boot_fat) fat_op" where
  "next_cluster_no_cache cluster B =
    (let cluster_id = drop_bit 10 cluster;
         slot_id = cluster AND 0x3FF;
         lba = fat_lba (bf_fat B) + push_bit 3 cluster_id
     in if bf_buffer_fat_lba B \<noteq> lba then
          case fat_ioc_read (device (bf_fat B)) lba of
            (None, d) \<Rightarrow> ferr (set_device B d)
          | (Some buf, d) \<Rightarrow> fret (load32 buf (4 * slot_id))
              (set_device B d\<lparr>bf_buffer_fat := buf, bf_buffer_fat_lba := lba\<rparr>)
        else fret (load32 (bf_buffer_fat B) (4 * slot_id)) B)"

definition load_data_no_cache :: "u32 \<Rightarrow> (mem, boot_fat) fat_op" where
  "load_data_no_cache cluster B =
    (case cluster_to_lba (bf_fat B) cluster of
       Inl e \<Rightarrow> Some (Inl e)
     | Inr lba \<Rightarrow>
         if bf_buffer_data_lba B \<noteq> lba then
           case fat_ioc_read (device (bf_fat B)) lba of
             (None, d) \<Rightarrow> ferr (set_device B d)
           | (Some buf, d) \<Rightarrow> fret buf (set_device B d\<lparr>bf_buffer_data := buf, bf_buffer_data_lba := lba\<rparr>)
         else fret (bf_buffer_data B) B)"

text \<open>
  The search of one name in the clusters of a directory; the next cluster is looked up even when
  the name was found.
\<close>

partial_function (option) find_no_cache ::
    "u8 list \<Rightarrow> u32 \<Rightarrow> lfn_parts \<Rightarrow> ((u32 \<times> bool \<times> u32 \<times> lfn_parts) option, boot_fat) fat_op" where
  "find_no_cache name parent_cluster st B =
    fbind (load_data_no_cache parent_cluster) (\<lambda>buf B.
      case dir_scan name buf 0 st of
        None \<Rightarrow> None
      | Some r \<Rightarrow> fbind (next_cluster_no_cache parent_cluster) (\<lambda>nxt B.
          case r of
            Dir_end \<Rightarrow> fret None B
          | Dir_found offset st \<Rightarrow> fret (Some (entry_cluster buf offset,
              entry_attr buf offset AND ATTR_DIRECTORY = ATTR_DIRECTORY, entry_size buf offset, st)) B
          | Dir_more st \<Rightarrow> find_no_cache name nxt st B) B) B"

partial_function (option) file_info_loop ::
    "u8 list \<Rightarrow> nat \<Rightarrow> u32 \<Rightarrow> lfn_parts \<Rightarrow> u32 \<times> u32 \<Rightarrow> (u32 \<times> u32, boot_fat) fat_op" where
  "file_info_loop pathname nb_read parent_cluster st child B =
    (if char_at pathname nb_read = 0 then fret child B
     else case get_name_from_path pathname nb_read of
       None \<Rightarrow> ferr B
     | Some (name, nb_read) \<Rightarrow>
         fbind (find_no_cache name parent_cluster st) (\<lambda>found B.
           case found of
             None \<Rightarrow> ferr B
           | Some (cluster, is_dir, nbytes, st) \<Rightarrow>
               if (char_at pathname nb_read = 0) = is_dir then ferr B
               else file_info_loop pathname nb_read cluster st (cluster, nbytes) B) B)"

text \<open>The cluster and the size of a file.\<close>

definition file_info_no_cache :: "u8 list \<Rightarrow> (u32 \<times> u32, boot_fat) fat_op" where
  "file_info_no_cache pathname = file_info_loop pathname 0 2 no_lfn (0, 0)"

fun load_clusters :: "nat \<Rightarrow> u32 \<Rightarrow> u32 \<Rightarrow> (unit, boot_fat) fat_op" where
  "load_clusters 0 dst cluster B = fret () B"
| "load_clusters (Suc nb) dst cluster B =
    (case cluster_to_lba (bf_fat B) cluster of
       Inl e \<Rightarrow> Some (Inl e)
     | Inr lba \<Rightarrow> (case fat_ioc_read (device (bf_fat B)) lba of
         (None, d) \<Rightarrow> ferr (set_device B d)
       | (Some buf, d) \<Rightarrow>
           let B = set_device B d;
               m = (\<lambda>a. if unat (a - dst) < 4096 then buf (a - dst) else fs_mem (bf_sys B) a)
           in fbind (next_cluster_no_cache cluster) (load_clusters nb (dst + 4096))
                (B\<lparr>bf_sys := (bf_sys B)\<lparr>fs_mem := m\<rparr>\<rparr>)))"

definition fat_load_no_cache :: "u8 list \<Rightarrow> u32 \<Rightarrow> u32 \<Rightarrow> (int, boot_fat) fat_op" where
  "fat_load_no_cache pathname buffer_vbase buffer_size B =
    (if fs_initialized (bf_sys B) \<noteq> FAT_INITIALIZED then fret (-1) B
     else fcatch (file_info_no_cache pathname) (fret (-4)) (\<lambda>(cluster, file_size).
       if file_size > buffer_size then fret (-19)
       else let clusters = (if file_size AND 0xFFF \<noteq> 0 then drop_bit 12 file_size + 1 else drop_bit 12 file_size)
         in fcatch (load_clusters (unat clusters) buffer_vbase cluster) (fret (-3)) (\<lambda>_. fret 0)) B)"

section \<open>Initialisation\<close>

definition load_block :: "u32 \<Rightarrow> (unit, boot_fat) fat_op" where
  "load_block lba B =
    (case fat_ioc_read (device (bf_fat B)) lba of
       (None, d) \<Rightarrow> ferr (set_device B d)
     | (Some buf, d) \<Rightarrow> fret () (B\<lparr>bf_sys := (bf_sys B)\<lparr>fs_fat := (bf_fat B)\<lparr>device := d,
         block_buffer := (\<lambda>a. if a < 512 then buf a else block_buffer (bf_fat B) a),
         block_buffer_lba := lba\<rparr>\<rparr>\<rparr>))"

definition block_field :: "u32 \<Rightarrow> nat \<Rightarrow> boot_fat \<Rightarrow> u32" where
  "block_field offset n B = fat_read_entry (block_buffer (bf_fat B)) offset n True"

definition valid_boot_sector :: "boot_fat \<Rightarrow> bool" where
  "valid_boot_sector B \<longleftrightarrow> block_field 11 2 B = 512 \<and> block_field 13 1 B = 8 \<and> block_field 16 1 B = 1 \<and>
    block_field 36 4 B AND 0xF = 0 \<and> block_field 44 4 B = 2"

definition init_from_vbr :: "boot_fat \<Rightarrow> boot_fat" where
  "init_from_vbr B =
    (let sectors = block_field 36 4 B; lba = block_field 14 2 B
     in B\<lparr>bf_sys := (bf_sys B)\<lparr>fs_fat := (bf_fat B)\<lparr>fat_sectors := sectors, fat_lba := lba,
            data_sectors := push_bit 10 sectors, data_lba := lba + sectors, fs_info_lba := block_field 48 2 B\<rparr>,
          fs_initialized := FAT_INITIALIZED\<rparr>,
        bf_buffer_fat_lba := 0xFFFFFFFF, bf_buffer_data_lba := 0xFFFFFFFF\<rparr>)"

definition init_from_fs_info :: "boot_fat \<Rightarrow> boot_fat" where
  "init_from_fs_info B = B\<lparr>bf_sys := (bf_sys B)\<lparr>fs_fat := (bf_fat B)\<lparr>
     free_clusters_number := block_field FS_FREE_CLUSTERS 4 B,
     first_free_cluster := block_field FS_FREE_CLUSTER_HINT 4 B\<rparr>\<rparr>\<rparr>"

text \<open>The part for the kernel: the root of the inodes, the lock, the descriptors and the Fat-Cache.\<close>

definition init_kernel :: "(unit, file_sys) fat_op" where
  "init_kernel =
    fbind (allocate_one_inode [47] True 2 0 0 0 True) (\<lambda>root S.
      fret () (S\<lparr>fs_root := root, fs_lock := spin_lock_init (fs_lock S),
        fs_fd := (\<lambda>i. if i < GIET_OPEN_FILES_MAX then (fs_fd S i)\<lparr>fd_allocated := False\<rparr> else fs_fd S i),
        fs_fat := (fs_fat S)\<lparr>fat_cache_root := allocate_one_cache_node Null,
          fat_cache_levels := get_levels_from_size (push_bit 9 (fat_sectors (fs_fat S)))\<rparr>\<rparr>))"

definition on_boot :: "('a, file_sys) fat_op \<Rightarrow> ('a, boot_fat) fat_op" where
  "on_boot f B = (case f (bf_sys B) of
      None \<Rightarrow> None | Some (Inl e) \<Rightarrow> Some (Inl e) | Some (Inr (r, S)) \<Rightarrow> Some (Inr (r, B\<lparr>bf_sys := S\<rparr>)))"

definition fat_init :: "bool \<Rightarrow> (int, boot_fat) fat_op" where
  "fat_init kernel_mode B =
    (if fs_initialized (bf_sys B) = FAT_INITIALIZED then fret 0 B
     else fcatch (load_block 0) (fret (-3)) (\<lambda>_ B.
       if \<not> valid_boot_sector B then fret (-2) B
       else let B = init_from_vbr B
         in fcatch (load_block (fs_info_lba (bf_fat B))) (fret (-3)) (\<lambda>_ B.
              let B = init_from_fs_info B
              in if kernel_mode then fbind (on_boot init_kernel) (\<lambda>_. fret 0) B else fret 0 B) B) B)"

end
