(* ===== verification/Fat_Path.thy ===== *)
theory Fat_Path
  imports Fat_Dir
begin

text \<open>
  The tree of inodes and the system calls on names (\<open>giet_fat32/fat32.c\<close>): the search of a path,
  \<open>_fat_open\<close>, \<open>_fat_remove\<close>, \<open>_fat_rename\<close>, \<open>_fat_mkdir\<close>, \<open>_fat_opendir\<close>, \<open>_fat_closedir\<close> and
  \<open>_fat_readdir\<close>. \<open>_free\<close> of an inode or of a node has no effect in the model: nothing refers to it
  afterwards.
\<close>

section \<open>Searching a path\<close>

partial_function (option) find_child :: "u8 list \<Rightarrow> u32 \<Rightarrow> (u32, file_sys) fat_op" where
  "find_child name cur S =
    (if cur = 0 then fret 0 S
     else fbind (get_inode cur) (\<lambda>i S.
       if name = inode_name i then fret cur S else find_child name (inode_next i) S) S)"

text \<open>The code that is returned, and the inode when it is 0.\<close>

definition get_child_from_parent :: "u32 \<Rightarrow> u8 list \<Rightarrow> (nat \<times> u32, file_sys) fat_op" where
  "get_child_from_parent parent name =
    fbind (get_inode parent) (\<lambda>pi.
      fbind (find_child name (inode_child pi)) (\<lambda>current.
        if current \<noteq> 0 then fret (0, current)
        else fcatch (with_inode parent (dir_lookup name 0 no_lfn)) (fret (2, 0)) (\<lambda>found.
          case found of
            None \<Rightarrow> fret (1, 0)
          | Some (cluster, dentry, is_dir, nbytes) \<Rightarrow>
              fbind (allocate_one_inode name is_dir cluster nbytes 0 dentry True) (\<lambda>inode.
                fbind (add_inode_in_tree inode parent) (\<lambda>_. fret (0, inode))))))"

definition dot :: "u8 list" where "dot = [46]"
definition dot_dot :: "u8 list" where "dot_dot = [46, 46]"
definition root_path :: "u8 list" where "root_path = [47]"

definition path_step :: "u32 \<Rightarrow> u8 list \<Rightarrow> (nat \<times> u32, file_sys) fat_op" where
  "path_step parent name =
    (if name = dot_dot then fbind (get_inode parent) (\<lambda>pi.
       fret (0, if inode_parent pi \<noteq> 0 then inode_parent pi else parent))
     else if name = dot then fret (0, parent)
     else get_child_from_parent parent name)"

partial_function (option) path_loop :: "u8 list \<Rightarrow> nat \<Rightarrow> u32 \<Rightarrow> (nat \<times> u32, file_sys) fat_op" where
  "path_loop pathname nb_read parent S =
    (case get_name_from_path pathname nb_read of
       None \<Rightarrow> fret (3, 0) S
     | Some (name, nb_read) \<Rightarrow>
         fbind (path_step parent name) (\<lambda>(code, child) S.
           let is_last = (char_at pathname nb_read = 0)
           in if code = 2 \<or> code = 1 \<and> \<not> is_last then fret (2, 0) S
              else if is_last then fret (code, if code = 0 then child else parent) S
              else path_loop pathname nb_read child S) S)"

definition get_inode_from_path :: "u8 list \<Rightarrow> (nat \<times> u32, file_sys) fat_op" where
  "get_inode_from_path pathname S =
    (if pathname = root_path then fret (0, fs_root S) S
     else path_loop pathname 0 (fs_root S) S)"

text \<open>The name buffer of a new node is not initialised when the path is empty.\<close>

definition with_last_name :: "u8 list \<Rightarrow> (u8 list \<Rightarrow> ('a, file_sys) fat_op) \<Rightarrow> ('a, file_sys) fat_op" where
  "with_last_name pathname f =
    (if pathname = [] then (\<lambda>_. None)
     else case get_last_name pathname [] of None \<Rightarrow> (\<lambda>_. None) | Some name \<Rightarrow> f name)"

section \<open>Open\<close>

definition O_RDONLY :: u32 where "O_RDONLY = 0x01"
definition O_TRUNC :: u32 where "O_TRUNC = 0x10"
definition O_CREATE :: u32 where "O_CREATE = 0x20"

text \<open>
  The writes that follow the creation of an inode: its entry in the parent, the DATA region of the
  parent, the FAT region and the FS-INFO sector.
\<close>

definition publish_entry :: "u32 \<Rightarrow> u32 \<Rightarrow> (unit, file_sys) fat_op" where
  "publish_entry child parent =
    fbind (add_dir_entry child parent) (\<lambda>_.
      fbind (with_inode parent flush_inode) (\<lambda>_.
        fbind (on_fs update_fat) (\<lambda>_. on_fs update_fs_info)))"

function find_fd :: "(u32 \<Rightarrow> fat_file_desc) \<Rightarrow> u32 \<Rightarrow> u32" where
  "find_fd fd fd_id =
    (if fd_id < GIET_OPEN_FILES_MAX \<and> fd_allocated (fd fd_id) then find_fd fd (fd_id + 1) else fd_id)"
  by pat_completeness auto
termination
proof (relation "measure (\<lambda>(_, fd_id). 16 - unat fd_id)")
  fix fd :: "u32 \<Rightarrow> fat_file_desc" and fd_id
  assume "fd_id < GIET_OPEN_FILES_MAX \<and> fd_allocated (fd fd_id)"
  then have "unat (fd_id + 1) = unat fd_id + 1" "unat fd_id < 16"
    using unat_plus_1_less [of fd_id GIET_OPEN_FILES_MAX]
    by (auto simp: GIET_OPEN_FILES_MAX_def word_less_nat_alt)
  then show "((fd, fd_id + 1), fd, fd_id) \<in> measure (\<lambda>(_, fd_id). 16 - unat fd_id)" by simp
qed simp

declare find_fd.simps [simp del]

text \<open>
  Truncation sets the number of levels before it releases the File-Cache, which is then walked with
  the wrong number of levels if the file had more than one: this has no result.
\<close>

definition truncate_inode :: "u32 \<Rightarrow> (unit, file_sys) fat_op" where
  "truncate_inode child =
    fbind (get_inode child) (\<lambda>i.
      if inode_levels i \<noteq> get_levels_from_size 0 then (\<lambda>_. None)
      else fbind (set_inode child (\<lambda>i. i\<lparr>inode_size := 0, inode_levels := get_levels_from_size 0\<rparr>)) (\<lambda>_.
        fbind (with_inode child release_inode_cache) (\<lambda>_.
          fbind (on_fs (clusters_release (inode_cluster i))) (\<lambda>_. update_dir_entry child))))"

definition open_fd :: "u32 \<Rightarrow> bool \<Rightarrow> bool \<Rightarrow> (int, file_sys) fat_op" where
  "open_fd child trunc read_only S =
    (let fd_id = find_fd (fs_fd S) 0
     in if fd_id \<ge> GIET_OPEN_FILES_MAX then unlock (-7) S
        else fbind (set_inode child (\<lambda>i. i\<lparr>inode_count := inode_count i + 1\<rparr>))
          (\<lambda>_. fbind (get_inode child) (\<lambda>i.
             if trunc \<and> \<not> read_only \<and> \<not> inode_is_dir i
             then fcatch (truncate_inode child) (unlock (-3)) (\<lambda>_. unlock (uint fd_id))
             else unlock (uint fd_id)))
          (S\<lparr>fs_fd := (fs_fd S)(fd_id := \<lparr>fd_seek = 0, fd_inode = child, fd_allocated = True,
             fd_read_only = read_only\<rparr>)\<rparr>))"

definition fat_open :: "u8 list \<Rightarrow> u32 \<Rightarrow> (int, file_sys) fat_op" where
  "fat_open pathname flags S =
    (let create = flags AND O_CREATE \<noteq> 0;
         read_only = flags AND O_RDONLY \<noteq> 0;
         trunc = flags AND O_TRUNC \<noteq> 0
     in if fs_initialized S \<noteq> FAT_INITIALIZED then fret (-1) S
        else locked (fbind (get_inode_from_path pathname) (\<lambda>(code, inode).
          if code = 2 then unlock (-4)
          else if code = 3 then unlock (-6)
          else if code = 1 \<and> \<not> create then unlock (-4)
          else if code = 1 then with_last_name pathname (\<lambda>name.
            fbind (allocate_one_inode name False END_OF_CHAIN_CLUSTER_MAX 0 0 0 True) (\<lambda>child.
              fbind (add_inode_in_tree child inode) (\<lambda>_.
                fcatch (publish_entry child inode) (unlock (-3)) (\<lambda>_. open_fd child False read_only))))
          else open_fd inode trunc read_only)) S)"

definition fat_opendir :: "u8 list \<Rightarrow> (int, file_sys) fat_op" where
  "fat_opendir pathname =
    fbind (fat_open pathname O_RDONLY) (\<lambda>fd_id S.
      if fd_id < 0 then fret fd_id S
      else fbind (get_inode (fd_inode (fs_fd S (word_of_int fd_id)))) (\<lambda>inode.
        if \<not> inode_is_dir inode then fret (-13) else fret fd_id) S)"

definition fat_closedir :: "u32 \<Rightarrow> (int, file_sys) fat_op" where
  "fat_closedir fd_id = fat_close fd_id"

section \<open>Remove and rename\<close>

definition remove_node_from_fs :: "u32 \<Rightarrow> (unit, file_sys) fat_op" where
  "remove_node_from_fs inode =
    fbind (get_inode inode) (\<lambda>i.
      if inode_parent i = 0 then ferr
      else fbind (remove_dir_entry inode) (\<lambda>_.
        fbind (with_inode (inode_parent i) flush_inode) (\<lambda>_.
          fbind (on_fs (clusters_release (inode_cluster i))) (\<lambda>_.
            fbind (with_inode inode release_inode_cache) (\<lambda>_.
              remove_inode_from_tree inode)))))"

definition fat_remove :: "u8 list \<Rightarrow> bool \<Rightarrow> (int, file_sys) fat_op" where
  "fat_remove pathname should_be_dir S =
    (if fs_initialized S \<noteq> FAT_INITIALIZED then fret (-1) S
     else locked (fbind (get_inode_from_path pathname) (\<lambda>(code, inode).
       if code = 1 \<or> code = 2 then unlock (-4)
       else if code = 3 then unlock (-6)
       else fbind (get_inode inode) (\<lambda>i.
         let remove = fcatch (remove_node_from_fs inode) (unlock (-3)) (\<lambda>_. unlock 0)
         in if inode_is_dir i \<and> \<not> should_be_dir then unlock (-14)
            else if \<not> inode_is_dir i \<and> should_be_dir then unlock (-13)
            else if \<not> inode_is_dir i \<and> inode_count i \<noteq> 0 then unlock (-9)
            else if inode_is_dir i then
              fcatch (with_inode inode get_nb_entries) (unlock (-3)) (\<lambda>entries.
                if entries > 2 then unlock (-15) else remove)
            else remove))) S)"

text \<open>The second half of \<open>_fat_rename\<close>; \<open>to_remove\<close> is 0 when the new name does not exist.\<close>

definition rename_node :: "u32 \<Rightarrow> u32 \<Rightarrow> u32 \<Rightarrow> u8 list \<Rightarrow> (unit, file_sys) fat_op" where
  "rename_node old new_parent to_remove new_name =
    fbind (get_inode old) (\<lambda>oi.
      fbind (allocate_one_inode new_name (inode_is_dir oi) (inode_cluster oi) (inode_size oi) 0 0 False) (\<lambda>new.
        fbind (set_inode new (\<lambda>i. i\<lparr>inode_levels := inode_levels oi, inode_cache := inode_cache oi\<rparr>)) (\<lambda>_.
          fbind (add_dir_entry new new_parent) (\<lambda>_.
            fbind (add_inode_in_tree new new_parent) (\<lambda>_.
              fbind (with_inode new_parent flush_inode) (\<lambda>_.
                fbind (remove_dir_entry old) (\<lambda>_.
                  fbind (remove_inode_from_tree old) (\<lambda>_.
                    fbind (with_inode (inode_parent oi) flush_inode) (\<lambda>_.
                      if to_remove \<noteq> 0 then remove_node_from_fs to_remove else fret ())))))))))"

text \<open>The condition on the node that the new name denotes: 0, or the code of the return.\<close>

definition check_to_remove :: "u32 \<Rightarrow> (int, file_sys) fat_op" where
  "check_to_remove to_remove =
    (if to_remove = 0 then fret 0
     else fbind (get_inode to_remove) (\<lambda>i.
       if inode_is_dir i then
         fcatch (with_inode to_remove get_nb_entries) (fret (-3))
           (\<lambda>entries. fret (if entries > 2 then -15 else 0))
       else fret (if inode_count i \<noteq> 0 then -9 else 0)))"

definition fat_rename :: "u8 list \<Rightarrow> u8 list \<Rightarrow> (int, file_sys) fat_op" where
  "fat_rename old_path new_path S =
    (if fs_initialized S \<noteq> FAT_INITIALIZED then fret (-1) S
     else locked (fbind (get_inode_from_path old_path) (\<lambda>(code, old).
       if code \<noteq> 0 then unlock (-4)
       else fbind (get_inode_from_path new_path) (\<lambda>(code, inode).
         if code = 0 \<and> inode = old then unlock 0
         else if code \<noteq> 0 \<and> code \<noteq> 1 then unlock (-4)
         else fbind (if code = 0 then fbind (get_inode inode) (\<lambda>i. fret (inode, inode_parent i)) else fret (0, inode))
           (\<lambda>(to_remove, new_parent).
             fbind (is_ancestor old new_parent) (\<lambda>below.
               if below then unlock (-16)
               else fbind (check_to_remove to_remove) (\<lambda>code.
                 if code \<noteq> 0 then unlock code
                 else with_last_name new_path (\<lambda>new_name.
                   fcatch (rename_node old new_parent to_remove new_name) (unlock (-3))
                     (\<lambda>_. unlock 0)))))))) S)"

section \<open>Directories\<close>

definition allocate_buffer_of :: "u32 \<Rightarrow> u32 \<Rightarrow> (unit, fat_inode \<times> fat_desc) fat_op" where
  "allocate_buffer_of cluster_id cluster = (\<lambda>(inode, s).
    case allocate_one_buffer s inode cluster_id cluster of
      None \<Rightarrow> None | Some (Inl e) \<Rightarrow> Some (Inl e) | Some (Inr inode) \<Rightarrow> fret () (inode, s))"

definition fat_mkdir :: "u8 list \<Rightarrow> (int, file_sys) fat_op" where
  "fat_mkdir pathname S =
    (if fs_initialized S \<noteq> FAT_INITIALIZED then fret (-1) S
     else locked (fbind (get_inode_from_path pathname) (\<lambda>(code, parent).
       if code = 2 then unlock (-4)
       else if code = 3 then unlock (-6)
       else if code = 0 then unlock (-17)
       else with_last_name pathname (\<lambda>name.
         fcatch (on_fs allocate_one_cluster) (unlock (-11)) (\<lambda>cluster.
           fbind (allocate_one_inode name True cluster 0 0 0 True) (\<lambda>child.
             fbind (add_inode_in_tree child parent) (\<lambda>_.
               fbind (with_inode child (allocate_buffer_of 0 cluster)) (\<lambda>_.
                 fbind (add_special_directories child parent) (\<lambda>_.
                   fcatch (fbind (publish_entry child parent) (\<lambda>_. with_inode child flush_inode))
                     (unlock (-3)) (\<lambda>_. unlock 0))))))))) S)"

text \<open>
  \<open>_fat_readdir\<close>: the entry is read into the buffer \<open>buf\<close> of 32 bytes on the stack, at an address
  the compiler chooses. The loop returns 0 at a NORMAL entry, or the code of the return.
\<close>

record fat_dirent =
  dirent_cluster :: u32
  dirent_size :: u32
  dirent_is_dir :: bool
  dirent_name :: "u8 list"

definition DIR_ENTRY_SIZE :: u32 where "DIR_ENTRY_SIZE = 32"

partial_function (option) readdir_loop :: "u32 \<Rightarrow> u32 \<Rightarrow> lfn_parts \<Rightarrow> (int \<times> lfn_parts, file_sys) fat_op" where
  "readdir_loop fd_id buf st S =
    fbind (fat_read fd_id buf DIR_ENTRY_SIZE) (\<lambda>n S.
      let attr = entry_attr (fs_mem S) buf; ord = entry_ord (fs_mem S) buf
      in if n \<noteq> 32 then fret (-3, st) S
         else if ord = NO_MORE_ENTRY then
           fbind (locked (\<lambda>S. unlock (-18) (S\<lparr>fs_fd := (fs_fd S)(fd_id :=
             (fs_fd S fd_id)\<lparr>fd_seek := fd_seek (fs_fd S fd_id) - DIR_ENTRY_SIZE\<rparr>)\<rparr>)))
             (\<lambda>code. fret (code, st)) S
         else if ord = FREE_ENTRY then readdir_loop fd_id buf st S
         else if attr = ATTR_LONG_NAME_MASK then readdir_loop fd_id buf (lfn_entry (fs_mem S) buf st) S
         else fret (0, st) S) S"

definition fat_readdir :: "u32 \<Rightarrow> u32 \<Rightarrow> (int \<times> fat_dirent option, file_sys) fat_op" where
  "fat_readdir fd_id buf =
    fbind (fat_file_info fd_id) (\<lambda>(ret, info).
      if ret < 0 then fret (ret, None)
      else if \<not> (case info of Some (_, _, is_dir) \<Rightarrow> is_dir | None \<Rightarrow> False) then fret (-13, None)
      else fbind (readdir_loop fd_id buf no_lfn) (\<lambda>(code, st) S.
        let m = fs_mem S in
        if code \<noteq> 0 then fret (code, None) S
        else case entry_name 36 st m buf of
          None \<Rightarrow> None
        | Some name \<Rightarrow> fret (0, Some \<lparr>dirent_cluster = entry_cluster m buf, dirent_size = entry_size m buf,
            dirent_is_dir = (entry_attr m buf AND ATTR_DIRECTORY = ATTR_DIRECTORY), dirent_name = name\<rparr>) S))"

end
