(* ===== verification/Fat_Calls.thy ===== *)
theory Fat_Calls
  imports Fat_Path Fat_Properties
begin

text \<open>
  The system calls of the FAT32 driver as a whole (\<open>giet_fat32/fat32.c\<close>): what the operations on
  inodes and on the FAT leave alone, the lock discipline, and sequences of calls. A sequence of
  calls is run one after the other, as the processors run them under the lock.
\<close>

section \<open>A part of the state that the operations keep\<close>

text \<open>Operations on one inode that cannot fail.\<close>

definition never_fails :: "('a, fat_inode \<times> fat_desc) fat_op \<Rightarrow> bool" where
  "never_fails g \<longleftrightarrow> (\<forall>T T'. g T \<noteq> Some (Inr (None, T')))"

text \<open>
  \<open>keeps e x res\<close>: in the state that \<open>res\<close> leaves, the part \<open>part\<close> is \<open>x\<close>, and with \<open>e\<close> the result is
  not the error value. The operations on inodes and on the FAT change neither the lock nor the
  descriptors, so that the rules are proved for both at once.
\<close>

locale kept_part =
  fixes part :: "file_sys \<Rightarrow> 'v"
  assumes part_inodes: "part (S\<lparr>fs_inodes := i\<rparr>) = part S"
    and part_fat: "part (S\<lparr>fs_fat := s\<rparr>) = part S"
    and part_count: "part (S\<lparr>fs_count := n\<rparr>) = part S"
    and part_mem: "part (S\<lparr>fs_mem := m\<rparr>) = part S"
begin

definition keeps :: "bool \<Rightarrow> 'v \<Rightarrow> (panic + 'a option \<times> file_sys) option \<Rightarrow> bool" where
  "keeps e x res \<longleftrightarrow> (\<forall>r S. res = Some (Inr (r, S)) \<longrightarrow> part S = x \<and> (e \<longrightarrow> r \<noteq> None))"

lemma keeps_none: "keeps e x None"
  by (simp add: keeps_def)

lemma keeps_ret: "part S = x \<Longrightarrow> keeps e x (fret a S)" "part S = x \<Longrightarrow> keeps False x (ferr S)"
  by (simp_all add: keeps_def fret_def ferr_def)

lemma keeps_fcatch:
  assumes "keeps False x (f S)" "\<And>T. part T = x \<Longrightarrow> keeps e y (h T)" "\<And>a T. part T = x \<Longrightarrow> keeps e y (k a T)"
  shows "keeps e y (fcatch f h k S)"
proof -
  consider "f S = None" | m where "f S = Some (Inl m)" | T where "f S = Some (Inr (None, T))"
    | a T where "f S = Some (Inr (Some a, T))"
    by (metis not_None_eq old.sum.exhaust surj_pair)
  then show ?thesis
  proof cases
    case 3
    then show ?thesis using assms(1) assms(2) [of T] by (simp add: fcatch_def keeps_def [of False])
  next
    case 4
    then show ?thesis using assms(1) assms(3) [of T a] by (simp add: fcatch_def keeps_def [of False])
  qed (simp_all add: fcatch_def keeps_def)
qed

lemma keeps_fbind:
  assumes "keeps True x (f S)" "\<And>a T. part T = x \<Longrightarrow> keeps e y (k a T)"
  shows "keeps e y (fbind f k S)"
proof (cases "\<exists>a T. f S = Some (Inr (Some a, T))")
  case True
  then show ?thesis using assms by (auto simp: fbind_def keeps_def [of True])
next
  case False
  then show ?thesis
    using assms(1) by (auto simp: fbind_def keeps_def split: option.split sum.split)
qed

lemma keeps_fbind_err:
  assumes "keeps False x (f S)" "\<And>a T. part T = x \<Longrightarrow> keeps False x (k a T)"
  shows "keeps False x (fbind f k S)"
  unfolding fbind_is_fcatch
proof (rule keeps_fcatch)
  show "keeps False x (f S)" by (rule assms(1))
  show "part T = x \<Longrightarrow> keeps False x (ferr T)" for T by (simp add: keeps_def ferr_def)
  show "part T = x \<Longrightarrow> keeps False x (k a T)" for a T by (rule assms(2))
qed

lemma keeps_seq:
  "keeps True x (f S) \<Longrightarrow> (\<And>a T. part T = x \<Longrightarrow> keeps e x (k a T)) \<Longrightarrow> keeps e x (fbind f k S)"
  "keeps False x (f S) \<Longrightarrow> (\<And>T. part T = x \<Longrightarrow> keeps e x (h T)) \<Longrightarrow> (\<And>a T. part T = x \<Longrightarrow> keeps e x (k a T))
    \<Longrightarrow> keeps e x (fcatch f h k S)"
  by (rule keeps_fbind, assumption, assumption) (rule keeps_fcatch)

lemma keeps_if:
  "keeps e x f \<Longrightarrow> keeps e x g \<Longrightarrow> keeps e x (if c then f else g)"
  "keeps e x (f' S) \<Longrightarrow> keeps e x (g' S) \<Longrightarrow> keeps e x ((if c then f' else g') S)"
  by simp_all

lemma keeps_cases:
  "keeps e x f \<Longrightarrow> (\<And>a. keeps e x (g a)) \<Longrightarrow> keeps e x (case o' of None \<Rightarrow> f | Some a \<Rightarrow> g a)"
  "(\<And>a b. keeps e x (h a b)) \<Longrightarrow> keeps e x (case y of (a, b) \<Rightarrow> h a b)"
  "keeps e x (f' S) \<Longrightarrow> (\<And>a. keeps e x (g' a S)) \<Longrightarrow> keeps e x ((case o' of None \<Rightarrow> f' | Some a \<Rightarrow> g' a) S)"
  "(\<And>a b. keeps e x (h' a b S)) \<Longrightarrow> keeps e x ((case y of (a, b) \<Rightarrow> h' a b) S)"
  by (auto split: option.split prod.split)

lemma keeps_inodes:
  assumes "part S = x"
  shows "keeps e x (get_inode p S)" "keeps e x (set_inode p u S)"
  using assms by (auto simp: keeps_def get_inode_def set_inode_def fret_def part_inodes)

lemma keeps_lifts:
  assumes "part S = x"
  shows "keeps False x (on_fs g S)" "keeps False x (with_inode p g' S)"
proof -
  show "keeps False x (on_fs g S)"
    using assms by (auto simp: keeps_def on_fs_def part_fat split: option.splits sum.splits prod.splits)
  have "part (S\<lparr>fs_inodes := i, fs_fat := s\<rparr>) = x" for i s
    using assms by (simp add: part_fat part_inodes)
  then show "keeps False x (with_inode p g' S)"
    by (auto simp: keeps_def with_inode_def split: option.splits sum.splits prod.splits if_splits)
qed

lemma keeps_sure:
  assumes "part S = x" "never_fails g"
  shows "keeps True x (with_inode p g S)"
proof -
  have "keeps False x (with_inode p g S)" by (rule keeps_lifts(2) [OF assms(1)])
  moreover have "with_inode p g S \<noteq> Some (Inr (None, T))" for T
    using assms(2) by (auto simp: never_fails_def with_inode_def split: option.splits sum.splits)
  ultimately show ?thesis by (fastforce simp: keeps_def)
qed

lemma keeps_alloc:
  assumes "part S = x"
  shows "keeps e x (allocate_one_inode name is_dir cluster nbytes cnt dentry cache S)"
proof -
  have "part (S\<lparr>fs_inodes := i, fs_count := n\<rparr>) = x" for i n
    using assms by (simp add: part_count part_inodes)
  then show ?thesis by (auto simp: keeps_def allocate_one_inode_def fret_def Let_def)
qed

lemmas keeps_rules = keeps_none keeps_ret keeps_if keeps_cases keeps_inodes keeps_lifts keeps_alloc

lemma keeps_some: "(\<And>y. res = Some y \<Longrightarrow> keeps e x (Some y)) \<Longrightarrow> keeps e x res"
  by (cases res) (auto simp: keeps_none)

lemma keepsD: "keeps e x (Some (Inr (r, S'))) \<Longrightarrow> part S' = x \<and> (e \<longrightarrow> r \<noteq> None)"
  by (simp add: keeps_def)

subsection \<open>The loops over the inodes\<close>

lemma keeps_unlink_loop: "part S = x \<Longrightarrow> keeps e x (unlink_loop inode prv cur S)"
proof (erule subst, rule keeps_some, erule unlink_loop.raw_induct [rotated], goal_cases)
  case (1 y f inode prv cur S z)
  have f: "keeps e x (f a b c T)" if "part T = x" for a b c T x
    by (rule keeps_some) (auto simp: that [symmetric] intro: 1(1))
  show ?case unfolding 1(2) [symmetric] by (intro keeps_rules keeps_seq f refl | assumption)+
qed

lemma keeps_find_child: "part S = x \<Longrightarrow> keeps e x (find_child name cur S)"
proof (erule subst, rule keeps_some, erule find_child.raw_induct [rotated], goal_cases)
  case (1 y f name cur S z)
  have f: "keeps e x (f a b T)" if "part T = x" for a b T x
    by (rule keeps_some) (auto simp: that [symmetric] intro: 1(1))
  show ?case unfolding 1(2) [symmetric] by (intro keeps_rules keeps_seq f refl | assumption)+
qed

lemma keeps_is_ancestor: "part S = x \<Longrightarrow> keeps e x (is_ancestor a b S)"
proof (erule subst, rule keeps_some, erule is_ancestor.raw_induct [rotated], goal_cases)
  case (1 y f a b S z)
  have f: "keeps e x (f a b T)" if "part T = x" for a b T x
    by (rule keeps_some) (auto simp: that [symmetric] intro: 1(1))
  show ?case unfolding 1(2) [symmetric] by (intro keeps_rules keeps_seq f refl | assumption)+
qed

lemma keeps_add_inode: "part S = x \<Longrightarrow> keeps e x (add_inode_in_tree child parent S)"
  unfolding add_inode_in_tree_def by (intro keeps_rules keeps_seq | assumption)+

lemma keeps_get_child: "part S = x \<Longrightarrow> keeps e x (get_child_from_parent parent name S)"
  unfolding get_child_from_parent_def
  by (intro keeps_rules keeps_seq keeps_find_child keeps_add_inode | assumption)+

lemma keeps_path_loop: "part S = x \<Longrightarrow> keeps e x (path_loop pathname nb_read parent S)"
proof (erule subst, rule keeps_some, erule path_loop.raw_induct [rotated], goal_cases)
  case (1 y f pathname nb_read parent S z)
  have f: "keeps e x (f a b c T)" if "part T = x" for a b c T x
    by (rule keeps_some) (auto simp: that [symmetric] intro: 1(1))
  have step: "part T = x \<Longrightarrow> keeps e x (path_step parent name T)" for e T x name
    unfolding path_step_def by (intro keeps_rules keeps_seq keeps_get_child | assumption)+
  show ?case unfolding 1(2) [symmetric] Let_def by (intro keeps_rules keeps_seq step f refl | assumption)+
qed

lemma keeps_get_inode_from_path: "part S = x \<Longrightarrow> keeps e x (get_inode_from_path pathname S)"
  unfolding get_inode_from_path_def by (intro keeps_rules keeps_path_loop | assumption)+

lemma keeps_add_steps:
  "part S = x \<Longrightarrow> keeps False x (add_steps child parent attrs nb_lfn cluster_id step buf_id offset S)"
proof (induction step arbitrary: buf_id offset S)
  case (Suc step)
  show ?case
    unfolding add_steps.simps by (intro keeps_rules keeps_fbind_err Suc | assumption | rule Suc)+
qed (simp add: keeps_ret)

lemma keeps_entries:
  "part S = x \<Longrightarrow> keeps False x (add_dir_entry child parent S)"
  "part S = x \<Longrightarrow> keeps False x (remove_dir_entry p S)"
  "part S = x \<Longrightarrow> keeps False x (update_dir_entry p S)"
  "part S = x \<Longrightarrow> keeps False x (add_special_directories child parent S)"
  unfolding add_dir_entry_def remove_dir_entry_def update_dir_entry_def add_special_directories_def Let_def
  by (intro keeps_rules keeps_fbind_err keeps_add_steps | assumption)+

lemma keeps_special: "part S = x \<Longrightarrow> keeps True x (add_special_directories child parent S)"
  unfolding add_special_directories_def
  by (intro keeps_seq keeps_inodes keeps_sure | assumption)+
    (auto simp: never_fails_def fbind_def file_peek_def file_update_def fret_def split: option.splits sum.splits)

lemma keeps_remove_inode: "part S = x \<Longrightarrow> keeps False x (remove_inode_from_tree inode S)"
  unfolding remove_inode_from_tree_def Let_def
  by (intro keeps_rules keeps_fbind_err keeps_unlink_loop | assumption)+

lemma keeps_remove_node: "part S = x \<Longrightarrow> keeps False x (remove_node_from_fs inode S)"
  unfolding remove_node_from_fs_def
  by (intro keeps_rules keeps_fbind_err keeps_entries keeps_remove_inode | assumption)+

lemma keeps_publish: "part S = x \<Longrightarrow> keeps False x (publish_entry child parent S)"
  unfolding publish_entry_def by (intro keeps_rules keeps_fbind_err keeps_entries | assumption)+

lemma keeps_rename_node: "part S = x \<Longrightarrow> keeps False x (rename_node old new_parent to_remove new_name S)"
  unfolding rename_node_def
  by (intro keeps_rules keeps_fbind_err keeps_entries keeps_add_inode keeps_remove_inode keeps_remove_node | assumption)+

lemma keeps_truncate: "part S = x \<Longrightarrow> keeps False x (truncate_inode child S)"
  unfolding truncate_inode_def by (intro keeps_rules keeps_fbind_err keeps_entries | assumption)+

lemma keeps_check_to_remove: "part S = x \<Longrightarrow> keeps e x (check_to_remove p S)"
  unfolding check_to_remove_def by (intro keeps_rules keeps_seq | assumption)+

lemma keeps_grow_file: "part S = x \<Longrightarrow> keeps e x (grow_file p new_size S)"
  unfolding grow_file_def Let_def by (intro keeps_rules keeps_seq keeps_entries | assumption)+

lemma part_memD: "part S = x \<Longrightarrow> part (S\<lparr>fs_mem := m\<rparr>) = x"
  by (simp add: part_mem)

lemma keeps_read_loop:
  "part S = x \<Longrightarrow> keeps False x (read_loop p fst_id lst_id fb lb buffer cluster_id moved S)"
proof (erule subst, rule keeps_some, erule read_loop.raw_induct [rotated], goal_cases)
  case (1 y f p fst_id lst_id fb lb buffer cluster_id moved S z)
  have f: "keeps False x (f a1 a2 a3 a4 a5 a6 a7 a8 T)" if "part T = x" for a1 a2 a3 a4 a5 a6 a7 a8 T x
    by (rule keeps_some) (auto simp: that [symmetric] intro: 1(1))
  show ?case unfolding 1(2) [symmetric] Let_def
    by (intro keeps_rules keeps_fbind_err f part_memD refl | assumption)+
qed

lemma keeps_write_loop:
  "part S = x \<Longrightarrow> keeps False x (write_loop p fst_id lst_id fb lb buffer cluster_id moved S)"
proof (erule subst, rule keeps_some, erule write_loop.raw_induct [rotated], goal_cases)
  case (1 y f p fst_id lst_id fb lb buffer cluster_id moved S z)
  have f: "keeps False x (f a1 a2 a3 a4 a5 a6 a7 a8 T)" if "part T = x" for a1 a2 a3 a4 a5 a6 a7 a8 T x
    by (rule keeps_some) (auto simp: that [symmetric] intro: 1(1))
  show ?case unfolding 1(2) [symmetric] Let_def
    by (intro keeps_rules keeps_fbind_err f refl | assumption)+
qed

text \<open>A sequence in two parts, of which the second may change the part.\<close>

lemma keeps_then:
  "part S = x \<Longrightarrow> (part S = x \<Longrightarrow> keeps True x (f S)) \<Longrightarrow> (\<And>a T. part T = x \<Longrightarrow> keeps e y (k a T)) \<Longrightarrow>
    keeps e y (fbind f k S)"
  "part S = x \<Longrightarrow> (part S = x \<Longrightarrow> keeps False x (f S)) \<Longrightarrow> (\<And>T. part T = x \<Longrightarrow> keeps e y (h T)) \<Longrightarrow>
    (\<And>a T. part T = x \<Longrightarrow> keeps e y (k a T)) \<Longrightarrow> keeps e y (fcatch f h k S)"
  by (rule keeps_fbind, assumption, assumption) (rule keeps_fcatch)

end

interpretation lock: kept_part fs_lock by unfold_locales simp_all

interpretation fds: kept_part "\<lambda>S. (fs_fd S, fs_initialized S, fs_root S)" by unfold_locales simp_all

section \<open>The lock\<close>

definition idle_after :: "(panic + 'a option \<times> file_sys) option \<Rightarrow> bool" where
  "idle_after res \<longleftrightarrow> (\<forall>r S. res = Some (Inr (r, S)) \<longrightarrow> r \<noteq> None \<and> lock_idle (fs_lock S))"

lemma unlock_ends: "fs_lock S = l \<Longrightarrow> lock.keeps e (spin_lock_release l) (unlock code S)"
  by (simp add: lock.keeps_def unlock_def fret_def)

lemma locked_idle:
  assumes "\<And>l T. fs_lock T = l \<Longrightarrow> lock.keeps True (spin_lock_release l) (f T)"
    and "lock_idle (fs_lock S)"
  shows "idle_after (locked f S)"
proof -
  obtain l where l: "spin_lock_acquire (fs_lock S) = Some l" "lock_held l" "lock_idle (spin_lock_release l)"
    by (rule spin.acquire_idleE [OF assms(2)])
  have "lock.keeps True (spin_lock_release l) (f (S\<lparr>fs_lock := l\<rparr>))" by (rule assms(1)) simp
  then show ?thesis using l by (simp add: locked_def idle_after_def lock.keeps_def)
qed

lemma idle_ret: "lock_idle (fs_lock S) \<Longrightarrow> idle_after (fret a S)"
  by (simp add: idle_after_def fret_def)

lemma idle_if: "idle_after f \<Longrightarrow> idle_after g \<Longrightarrow> idle_after (if c then f else g)"
  by simp

lemma idle_fbind:
  "idle_after (f S) \<Longrightarrow> (\<And>a T. lock_idle (fs_lock T) \<Longrightarrow> idle_after (k a T)) \<Longrightarrow> idle_after (fbind f k S)"
  by (fastforce simp: idle_after_def fbind_def split: option.splits sum.splits)

lemmas call_rules = lock.keeps_if lock.keeps_cases lock.keeps_then unlock_ends

lemma keeps_open_fd: "fs_lock S = l \<Longrightarrow> lock.keeps True (spin_lock_release l) (open_fd child trunc read_only S)"
  unfolding open_fd_def Let_def
  by (intro call_rules lock.keeps_inodes lock.keeps_truncate | assumption | simp; fail)+

lemma keeps_with_last_name:
  "(\<And>name. lock.keeps e x (f name S)) \<Longrightarrow> lock.keeps e x (with_last_name pathname f S)"
  by (auto simp: with_last_name_def lock.keeps_none split: option.split)

lemma never_fails_ops:
  "never_fails release_inode_cache" "never_fails (allocate_buffer_of cluster_id cluster)"
  by (auto simp: never_fails_def release_inode_cache_def allocate_buffer_of_def fret_def split: option.splits sum.splits)

text \<open>Each call, with the lock free when it starts.\<close>

lemma idle_open: "lock_idle (fs_lock S) \<Longrightarrow> idle_after (fat_open pathname flags S)"
  unfolding fat_open_def Let_def
  by (intro idle_if idle_ret locked_idle call_rules keeps_with_last_name keeps_open_fd
      lock.keeps_get_inode_from_path lock.keeps_alloc lock.keeps_add_inode lock.keeps_publish | assumption)+

lemma idle_remove: "lock_idle (fs_lock S) \<Longrightarrow> idle_after (fat_remove pathname should_be_dir S)"
  unfolding fat_remove_def Let_def
  by (intro idle_if idle_ret locked_idle call_rules lock.keeps_inodes lock.keeps_lifts
      lock.keeps_get_inode_from_path lock.keeps_remove_node | assumption)+

lemma idle_mkdir: "lock_idle (fs_lock S) \<Longrightarrow> idle_after (fat_mkdir pathname S)"
  unfolding fat_mkdir_def
  by (intro idle_if idle_ret locked_idle call_rules keeps_with_last_name lock.keeps_lifts lock.keeps_fbind_err lock.keeps_sure never_fails_ops lock.keeps_special
      lock.keeps_get_inode_from_path lock.keeps_alloc lock.keeps_add_inode lock.keeps_publish lock.keeps_entries | assumption)+

lemma idle_rename: "lock_idle (fs_lock S) \<Longrightarrow> idle_after (fat_rename old_path new_path S)"
  unfolding fat_rename_def
  by (intro idle_if idle_ret locked_idle call_rules keeps_with_last_name lock.keeps_inodes lock.keeps_ret
      lock.keeps_get_inode_from_path lock.keeps_is_ancestor lock.keeps_check_to_remove lock.keeps_rename_node | assumption)+

lemma idle_lseek: "lock_idle (fs_lock S) \<Longrightarrow> idle_after (fat_lseek fd_id seek whence S)"
  unfolding fat_lseek_def Let_def
  by (intro idle_if idle_ret locked_idle call_rules | assumption | simp; fail)+

lemma idle_read: "lock_idle (fs_lock S) \<Longrightarrow> idle_after (fat_read fd_id buffer cnt S)"
  unfolding fat_read_def Let_def
  by (intro idle_if idle_ret locked_idle call_rules lock.keeps_inodes lock.keeps_read_loop | assumption | simp; fail)+

lemma idle_write: "lock_idle (fs_lock S) \<Longrightarrow> idle_after (fat_write fd_id buffer cnt S)"
  unfolding fat_write_def Let_def
  by (intro idle_if idle_ret locked_idle call_rules lock.keeps_grow_file lock.keeps_write_loop | assumption | simp; fail)+

lemma idle_close: "lock_idle (fs_lock S) \<Longrightarrow> idle_after (fat_close fd_id S)"
  unfolding fat_close_def Let_def
  by (intro idle_if idle_ret locked_idle call_rules lock.keeps_inodes lock.keeps_lifts lock.keeps_ret lock.keeps_sure never_fails_ops | assumption | simp; fail)+

lemma idle_file_info: "lock_idle (fs_lock S) \<Longrightarrow> idle_after (fat_file_info fd_id S)"
  unfolding fat_file_info_def by (auto simp: idle_after_def fret_def fbind_def get_inode_def)

lemma idle_opendir: "lock_idle (fs_lock S) \<Longrightarrow> idle_after (fat_opendir pathname S)"
proof -
  have g: "lock_idle (fs_lock T) \<Longrightarrow> idle_after (get_inode p T)" for p T
    by (auto simp: idle_after_def get_inode_def fret_def)
  assume "lock_idle (fs_lock S)"
  then show ?thesis
    unfolding fat_opendir_def
    by (intro idle_fbind idle_open idle_if idle_ret g | assumption | simp add: idle_ret; fail)+
qed

lemma idle_some: "(\<And>y. res = Some y \<Longrightarrow> idle_after (Some y)) \<Longrightarrow> idle_after res"
  by (cases res) (auto simp: idle_after_def)

lemma idle_readdir_loop: "lock_idle (fs_lock S) \<Longrightarrow> idle_after (readdir_loop fd_id buf st S)"
proof (rule idle_some, erule rev_mp, erule readdir_loop.raw_induct [rotated], rule impI, goal_cases)
  case (1 y f fd_id buf st S z)
  have f: "idle_after (f a b c T)" if "lock_idle (fs_lock T)" for a b c T
    by (rule idle_some) (use 1(1) that in blast)
  have seek: "lock_idle (fs_lock T) \<Longrightarrow> idle_after (locked (\<lambda>S. unlock code (S\<lparr>fs_fd := g S\<rparr>)) T)" for g T code
    by (intro locked_idle unlock_ends) simp_all
  show ?case using 1(3) unfolding 1(2) [symmetric] Let_def
    by (intro idle_fbind idle_read idle_if idle_ret f seek | assumption)+
qed

lemma idle_readdir: "lock_idle (fs_lock S) \<Longrightarrow> idle_after (fat_readdir fd_id buf S)"
proof -
  have c: "idle_after (h S) \<Longrightarrow> (\<And>n. idle_after (k n S)) \<Longrightarrow> idle_after (case o' of None \<Rightarrow> h S | Some n \<Rightarrow> k n S)"
    for h k and o' :: "'n option" and S
    by (auto split: option.split)
  assume "lock_idle (fs_lock S)"
  then show ?thesis
    unfolding fat_readdir_def Let_def
    by (auto intro!: idle_fbind idle_file_info idle_readdir_loop idle_ret split: prod.split option.split)
      (auto simp: idle_after_def)
qed

section \<open>Sequences of calls\<close>

datatype fat_request =
    Fat_open "u8 list" u32 | Fat_close u32 | Fat_read u32 u32 u32 | Fat_write u32 u32 u32
  | Fat_lseek u32 u32 u32 | Fat_file_info u32 | Fat_remove "u8 list" bool
  | Fat_rename "u8 list" "u8 list" | Fat_mkdir "u8 list" | Fat_opendir "u8 list" | Fat_closedir u32
  | Fat_readdir u32 u32

fun fat_call :: "fat_request \<Rightarrow> (int, file_sys) fat_op" where
  "fat_call (Fat_open pathname flags) = fat_open pathname flags"
| "fat_call (Fat_close fd_id) = fat_close fd_id"
| "fat_call (Fat_read fd_id buffer cnt) = fat_read fd_id buffer cnt"
| "fat_call (Fat_write fd_id buffer cnt) = fat_write fd_id buffer cnt"
| "fat_call (Fat_lseek fd_id seek whence) = fat_lseek fd_id seek whence"
| "fat_call (Fat_file_info fd_id) = fbind (fat_file_info fd_id) (\<lambda>(code, _). fret code)"
| "fat_call (Fat_remove pathname should_be_dir) = fat_remove pathname should_be_dir"
| "fat_call (Fat_rename old_path new_path) = fat_rename old_path new_path"
| "fat_call (Fat_mkdir pathname) = fat_mkdir pathname"
| "fat_call (Fat_opendir pathname) = fat_opendir pathname"
| "fat_call (Fat_closedir fd_id) = fat_closedir fd_id"
| "fat_call (Fat_readdir fd_id buf) = fbind (fat_readdir fd_id buf) (\<lambda>(code, _). fret code)"

fun fat_calls :: "fat_request list \<Rightarrow> (int list, file_sys) fat_op" where
  "fat_calls [] = fret []"
| "fat_calls (c # cs) = fbind (fat_call c) (\<lambda>code. fbind (fat_calls cs) (\<lambda>codes. fret (code # codes)))"

lemma idle_call: "lock_idle (fs_lock S) \<Longrightarrow> idle_after (fat_call c S)"
  by (cases c) (auto intro!: idle_open idle_close idle_read idle_write idle_lseek idle_remove idle_rename
      idle_mkdir idle_opendir idle_fbind idle_file_info idle_readdir idle_ret simp: fat_closedir_def)

lemma idle_calls: "lock_idle (fs_lock S) \<Longrightarrow> idle_after (fat_calls cs S)"
proof (induction cs arbitrary: S)
  case (Cons c cs)
  then show ?case by (auto intro!: idle_fbind idle_call idle_ret)
qed (simp add: idle_ret)

lemma fat_calls_length: "fat_calls cs S = Some (Inr (Some codes, S')) \<Longrightarrow> length codes = length cs"
  by (induction cs arbitrary: S codes)
    (auto simp: fret_def fbind_def split: option.splits sum.splits)

section \<open>The descriptors\<close>

lemma find_fd_spec:
  assumes "k \<le> GIET_OPEN_FILES_MAX"
  shows "find_fd fd k \<le> GIET_OPEN_FILES_MAX" "k \<le> find_fd fd k"
    "find_fd fd k < GIET_OPEN_FILES_MAX \<Longrightarrow> \<not> fd_allocated (fd (find_fd fd k))"
    "k \<le> j \<Longrightarrow> j < find_fd fd k \<Longrightarrow> fd_allocated (fd j)"
proof -
  have "find_fd fd k \<le> GIET_OPEN_FILES_MAX \<and> k \<le> find_fd fd k \<and>
    (find_fd fd k < GIET_OPEN_FILES_MAX \<longrightarrow> \<not> fd_allocated (fd (find_fd fd k))) \<and>
    (\<forall>j. k \<le> j \<and> j < find_fd fd k \<longrightarrow> fd_allocated (fd j))"
    using assms
  proof (induction fd k rule: find_fd.induct)
    case (1 fd k)
    show ?case
    proof (cases "k < GIET_OPEN_FILES_MAX \<and> fd_allocated (fd k)")
      case True
      have k1: "unat (k + 1) = unat k + 1" by (rule unat_plus_1_less) (use True in blast)
      have "k + 1 \<le> GIET_OPEN_FILES_MAX" using True k1 by (simp add: word_le_nat_alt word_less_nat_alt)
      note ih = 1(1) [OF True this]
      have "k \<le> j \<Longrightarrow> j = k \<or> k + 1 \<le> j" for j
        using k1 by (auto simp: word_le_nat_alt word_unat_eq_iff)
      moreover have "k \<le> k + 1" using k1 by (simp add: word_le_nat_alt)
      ultimately show ?thesis
        using ih True by (subst (1 2 3 4 5) find_fd.simps) (auto intro: order.trans)
    next
      case False
      then show ?thesis using 1(2) by (subst (1 2 3 4 5) find_fd.simps) auto
    qed
  qed
  then show "find_fd fd k \<le> GIET_OPEN_FILES_MAX" "k \<le> find_fd fd k"
    "find_fd fd k < GIET_OPEN_FILES_MAX \<Longrightarrow> \<not> fd_allocated (fd (find_fd fd k))"
    "k \<le> j \<Longrightarrow> j < find_fd fd k \<Longrightarrow> fd_allocated (fd j)" by auto
qed

definition opened :: "(u32 \<Rightarrow> fat_file_desc) \<times> u32 \<times> u32 \<Rightarrow> bool \<Rightarrow> (panic + int option \<times> file_sys) option \<Rightarrow> bool" where
  "opened x ro res \<longleftrightarrow> (\<forall>c S. res = Some (Inr (Some c, S)) \<longrightarrow> 0 \<le> c \<longrightarrow>
    (\<exists>k p. c = uint k \<and> k = find_fd (fst x) 0 \<and> k < GIET_OPEN_FILES_MAX \<and>
      fs_fd S = (fst x)(k := \<lparr>fd_seek = 0, fd_inode = p, fd_allocated = True, fd_read_only = ro\<rparr>)))"

abbreviation fd_part :: "file_sys \<Rightarrow> (u32 \<Rightarrow> fat_file_desc) \<times> u32 \<times> u32" where
  "fd_part S \<equiv> (fs_fd S, fs_initialized S, fs_root S)"

lemma opened_seq:
  assumes "fds.keeps False x (f S)" "\<And>a T. fd_part T = x \<Longrightarrow> opened y ro (k a T)"
  shows "opened y ro (fbind f k S)"
    and "(\<And>T. fd_part T = x \<Longrightarrow> opened y ro (h T)) \<Longrightarrow> opened y ro (fcatch f h k S)"
  using assms unfolding opened_def fbind_def fcatch_def fds.keeps_def
  by (auto split: option.splits sum.splits)

lemma opened_unlock: "c < 0 \<Longrightarrow> opened x ro (unlock c S)"
  by (simp add: opened_def unlock_def fret_def)

lemma opened_if:
  "opened x ro f \<Longrightarrow> opened x ro g \<Longrightarrow> opened x ro (if c then f else g)"
  "opened x ro (f' S) \<Longrightarrow> opened x ro (g' S) \<Longrightarrow> opened x ro ((if c then f' else g') S)"
  by simp_all

lemma opened_cases: "(\<And>a b. opened x ro (f a b S)) \<Longrightarrow> opened x ro ((case y of (a, b) \<Rightarrow> f a b) S)"
  by (simp split: prod.split)

lemma opened_last_name: "(\<And>name. opened x ro (f name S)) \<Longrightarrow> opened x ro (with_last_name pathname f S)"
  by (auto simp: with_last_name_def opened_def split: option.split)

lemma opened_open_fd:
  assumes "fd_part S = x"
  shows "opened x ro (open_fd child trunc ro S)"
proof (cases "find_fd (fs_fd S) 0 \<ge> GIET_OPEN_FILES_MAX")
  case True
  then show ?thesis by (simp add: open_fd_def opened_unlock)
next
  case False
  let ?k = "find_fd (fs_fd S) 0"
  let ?F = "(fs_fd S)(?k := \<lparr>fd_seek = 0, fd_inode = child, fd_allocated = True, fd_read_only = ro\<rparr>)"
  let ?x = "(?F, fs_initialized S, fs_root S)"
  have u: "opened x ro (unlock (uint ?k) T)" if "fd_part T = ?x" for T
    using that assms False by (auto simp: opened_def unlock_def fret_def)
  have "opened x ro (fbind (set_inode child (\<lambda>i. i\<lparr>inode_count := inode_count i + 1\<rparr>))
      (\<lambda>_. fbind (get_inode child) (\<lambda>i. if trunc \<and> \<not> ro \<and> \<not> inode_is_dir i
        then fcatch (truncate_inode child) (unlock (-3)) (\<lambda>_. unlock (uint ?k)) else unlock (uint ?k))) (S\<lparr>fs_fd := ?F\<rparr>))"
    by (intro opened_seq [where x = ?x] opened_if opened_unlock u fds.keeps_inodes fds.keeps_truncate) simp_all
  then show ?thesis using False by (simp add: open_fd_def Let_def)
qed

lemma opened_fat_open:
  assumes "lock_idle (fs_lock S)"
  shows "opened (fd_part S) (flags AND O_RDONLY \<noteq> 0) (fat_open pathname flags S)"
proof -
  obtain l where "spin_lock_acquire (fs_lock S) = Some l" by (rule spin.acquire_idleE [OF assms])
  then show ?thesis
    unfolding fat_open_def Let_def locked_def
    by (auto intro!: opened_seq [where x = "fd_part S"] opened_if opened_unlock opened_cases opened_last_name
      opened_open_fd fds.keeps_get_inode_from_path fds.keeps_alloc fds.keeps_add_inode fds.keeps_publish)
      (simp add: opened_def fret_def)
qed

section \<open>Properties\<close>

text \<open>A file system with its root directory only, as \<open>_fat_init\<close> leaves it.\<close>

definition fresh_fs :: file_sys where
  "fresh_fs = \<lparr>fs_fat = small_fs, fs_inodes = (\<lambda>_. empty_file\<lparr>inode_cluster := 2, inode_is_dir := True\<rparr>),
    fs_fd = (\<lambda>_. \<lparr>fd_seek = 9, fd_inode = 0, fd_allocated = False, fd_read_only = False\<rparr>),
    fs_lock = \<lparr>current = 0, free_ticket = 0\<rparr>, fs_root = 0x1000, fs_initialized = FAT_INITIALIZED,
    fs_mem = (\<lambda>_. 0), fs_new = (\<lambda>k. 0x1000 + 64 * word_of_nat k), fs_count = 1\<rparr>"

text \<open>C33: after any sequence of the calls of the FAT driver, whatever their arguments and whatever
  accesses to the device have failed, every call has returned a code and the lock of the driver is
  free, so that the next call can take it.\<close>

theorem fat_calls_release_lock:
  assumes "lock_idle (fs_lock S)" "fat_calls cs S = Some (Inr (r, S'))"
  shows "\<exists>codes l. r = Some codes \<and> length codes = length cs \<and> lock_idle (fs_lock S') \<and>
    spin_lock_acquire (fs_lock S') = Some l"
proof -
  have "r \<noteq> None" and idle: "lock_idle (fs_lock S')"
    using idle_calls [OF assms(1), of cs] assms(2) by (simp_all add: idle_after_def)
  then obtain codes where codes: "r = Some codes" by blast
  obtain l where "spin_lock_acquire (fs_lock S') = Some l" by (rule spin.acquire_idleE [OF idle])
  then show ?thesis using codes idle fat_calls_length assms(2) by simp
qed

lemma fresh_open: "fat_open root_path 0 fresh_fs = Some (Inr (Some 0, fresh_fs
    \<lparr>fs_inodes := (fs_inodes fresh_fs)(0x1000 := empty_file\<lparr>inode_cluster := 2, inode_is_dir := True, inode_count := 1\<rparr>),
     fs_fd := (fs_fd fresh_fs)(0 := \<lparr>fd_seek = 0, fd_inode = 0x1000, fd_allocated = True, fd_read_only = False\<rparr>),
     fs_lock := \<lparr>current = 1, free_ticket = 1\<rparr>\<rparr>))"
proof -
  have f: "find_fd (fs_fd fresh_fs) 0 = 0" by (subst find_fd.simps) (simp add: fresh_fs_def)
  have sel: "fs_initialized fresh_fs = FAT_INITIALIZED" "fs_lock fresh_fs = \<lparr>current = 0, free_ticket = 0\<rparr>"
    "fs_root fresh_fs = 0x1000" "fs_inodes fresh_fs q = empty_file\<lparr>inode_cluster := 2, inode_is_dir := True\<rparr>" for q
    by (simp_all add: fresh_fs_def)
  have count: "inode_count empty_file = 0" by (simp add: empty_file_def)
  have flags: "(0 :: u32) AND O_RDONLY = 0" "(0 :: u32) AND O_TRUNC = 0" by simp_all
  have lock: "locked g fresh_fs = g (fresh_fs\<lparr>fs_lock := \<lparr>current = 0, free_ticket = 1\<rparr>\<rparr>)" for g
    by (simp add: locked_def spin_lock_acquire_def atomic_increment_def sel)
  have path: "get_inode_from_path root_path S = fret (0, fs_root S) S" for S
    by (simp add: get_inode_from_path_def)
  have "open_fd 0x1000 False False (fresh_fs\<lparr>fs_lock := \<lparr>current = 0, free_ticket = 1\<rparr>\<rparr>) = Some (Inr (Some 0, fresh_fs
    \<lparr>fs_inodes := (fs_inodes fresh_fs)(0x1000 := empty_file\<lparr>inode_cluster := 2, inode_is_dir := True, inode_count := 1\<rparr>),
     fs_fd := (fs_fd fresh_fs)(0 := \<lparr>fd_seek = 0, fd_inode = 0x1000, fd_allocated = True, fd_read_only = False\<rparr>),
     fs_lock := \<lparr>current = 1, free_ticket = 1\<rparr>\<rparr>))"
    by (simp add: open_fd_def f GIET_OPEN_FILES_MAX_def set_inode_def get_inode_def fbind_def fret_def unlock_def
        spin_lock_release_def sel count)
  then show ?thesis
    unfolding fat_open_def Let_def lock flags by (simp add: sel fbind_def path fret_def)
qed

lemma fat_calls_release_lock_witness:
  "\<exists>S' l. fat_calls [Fat_open root_path 0, Fat_lseek 0 5 0, Fat_lseek 20 5 0] fresh_fs = Some (Inr (Some [0, 5, -5], S'))
    \<and> spin_lock_acquire (fs_lock S') = Some l"
proof -
  have i: "lock_idle (fs_lock fresh_fs)" by (simp add: fresh_fs_def lock_idle_def)
  obtain S' where s: "fat_calls [Fat_open root_path 0, Fat_lseek 0 5 0, Fat_lseek 20 5 0] fresh_fs = Some (Inr (Some [0, 5, -5], S'))"
    using fresh_open
    by (simp add: fbind_def fat_lseek_def fresh_fs_def fret_def locked_def spin_lock_acquire_def atomic_increment_def
        unlock_def GIET_OPEN_FILES_MAX_def SEEK_CUR_def SEEK_SET_def)
  then show ?thesis using fat_calls_release_lock [OF i s] by blast
qed

text \<open>C39: when \<open>_fat_open\<close> returns a descriptor, it is the first one that was not allocated; it is
  now allocated, at offset 0 and with the mode of the flags, and no other descriptor has
  changed.\<close>

theorem fat_open_first_free_descriptor:
  assumes "lock_idle (fs_lock S)" "fat_open pathname flags S = Some (Inr (Some c, S'))" "0 \<le> c"
  shows "\<exists>k p. c = uint k \<and> k < GIET_OPEN_FILES_MAX \<and> \<not> fd_allocated (fs_fd S k) \<and>
    (\<forall>j<k. fd_allocated (fs_fd S j)) \<and>
    fs_fd S' = (fs_fd S)(k := \<lparr>fd_seek = 0, fd_inode = p, fd_allocated = True,
      fd_read_only = (flags AND O_RDONLY \<noteq> 0)\<rparr>)"
  using opened_fat_open [OF assms(1), of flags pathname] assms(2,3) find_fd_spec [where k = 0 and fd = "fs_fd S"]
  by (fastforce simp: opened_def)

lemma fat_open_first_free_descriptor_witness:
  "\<exists>k S'. fat_open root_path 0 fresh_fs = Some (Inr (Some (uint k), S')) \<and> k < 16 \<and>
    \<not> fd_allocated (fs_fd fresh_fs k) \<and> fd_allocated (fs_fd S' k) \<and> fd_seek (fs_fd S' k) = 0"
proof -
  have "lock_idle (fs_lock fresh_fs)" by (simp add: fresh_fs_def lock_idle_def)
  from fat_open_first_free_descriptor [OF this fresh_open] obtain k where "(0 :: int) = uint k" "k < 16"
    "\<not> fd_allocated (fs_fd fresh_fs k)"
    by (auto simp: GIET_OPEN_FILES_MAX_def)
  then show ?thesis using fresh_open by (intro exI [of _ 0]) (simp add: fresh_fs_def)
qed

end
