(* ===== verification/Fat_Entries.thy ===== *)
theory Fat_Entries
  imports Fat_Path Fat_Read
begin

text \<open>
  Correctness of the directory entries of \<open>giet_fat32/fat32.c\<close> (theory \<open>Fat_Dir\<close>): the bytes that
  the automaton of \<open>_add_dir_entry\<close> writes, what the scan of a directory reads back from them, and a
  directory as a map from names to files.
\<close>

section \<open>The bytes of an entry\<close>

lemma place_Suc:
  assumes "n < 4294967296"
  shows "place g m d (Suc n) = (place g m d n)(d + word_of_nat n := g n)"
  using assms unat_diff_eq_iff [of n]
  by (auto simp: place_def less_Suc_eq unat_of_nat_small fun_eq_iff)

lemma place_at: "i < n \<Longrightarrow> n \<le> 4294967296 \<Longrightarrow> place g m d n (d + word_of_nat i) = g i"
  by (simp add: place_def unat_of_nat_small)

lemma fold_bytes:
  assumes "\<And>i b. i < n \<Longrightarrow> f i (c i, b) = (c (Suc i), b(off + word_of_nat i := g i))" "n \<le> 4096"
  shows "fold f [0..<n] (c 0, b) = (c n, place g b off n)"
  using assms
proof (induction n)
  case (Suc n)
  then show ?case by (simp add: place_Suc)
qed simp

definition lfn_before :: "nat \<Rightarrow> nat" where
  "lfn_before i = length (filter (\<lambda>k. k < i) lfn_offsets)"

definition lfn_byte :: "u8 \<Rightarrow> u8 list \<Rightarrow> nat \<Rightarrow> nat \<Rightarrow> u8" where
  "lfn_byte ord name c i =
    (if i = 0 then ord
     else if i \<in> set lfn_offsets \<and> c + lfn_before i < length name then name ! (c + lfn_before i)
     else if i = 11 then 0x0F else if i = 12 then 0xCA else 0)"

lemma lfn_before_Suc:
  assumes "i < 32"
  shows "lfn_before (Suc i) = lfn_before i + (if i \<in> set lfn_offsets then 1 else 0)"
proof -
  have "i \<in> set [0..<32]" using assms by simp
  then show ?thesis by (auto simp: upt_rec lfn_before_def lfn_offsets_def)
qed

lemma write_lfn_bytes:
  assumes "c \<le> length name"
  shows "write_lfn ord name c off b = place (lfn_byte ord name c) b off 32"
proof -
  let ?c = "\<lambda>i. min (c + lfn_before i) (length name)"
  have c0: "?c 0 = c" using assms by (simp add: lfn_before_def)
  show ?thesis
    unfolding write_lfn_def
    by (subst c0 [symmetric], subst fold_bytes [where c = ?c and g = "lfn_byte ord name c" and off = off])
      (auto simp: Let_def lfn_byte_def lfn_before_Suc lfn_before_Suc [of 0, simplified] lfn_offsets_def min_def split: if_splits)
qed

definition normal_byte :: "u8 list \<Rightarrow> bool \<Rightarrow> u32 \<Rightarrow> u32 \<Rightarrow> nat \<Rightarrow> u8" where
  "normal_byte name is_dir cluster nbytes i =
    (if i < 8 \<and> i < length name then to_upper (name ! i)
     else if i < 11 then 0x20
     else if i = 11 then (if is_dir then 0x10 else 0x20)
     else if i = 20 then ucast (drop_bit 16 cluster)
     else if i = 21 then ucast (drop_bit 24 cluster)
     else if i = 26 then ucast cluster
     else if i = 27 then ucast (drop_bit 8 cluster)
     else if i = 28 then ucast nbytes
     else if i = 29 then ucast (drop_bit 8 nbytes)
     else if i = 30 then ucast (drop_bit 16 nbytes)
     else if i = 31 then ucast (drop_bit 24 nbytes)
     else 0)"

lemma write_normal_bytes:
  "write_normal name is_dir cluster nbytes off b = place (normal_byte name is_dir cluster nbytes) b off 32"
proof -
  let ?c = "\<lambda>i. min (min i 8) (length name)"
  have c0: "?c 0 = 0" by simp
  show ?thesis
    unfolding write_normal_def
    by (subst c0 [symmetric], subst fold_bytes [where c = ?c and g = "normal_byte name is_dir cluster nbytes" and off = off])
      (auto simp: Let_def normal_byte_def min_def split: if_splits)
qed

section \<open>Reading an entry\<close>

definition entry_bytes :: "mem \<Rightarrow> u32 \<Rightarrow> (nat \<Rightarrow> u8) \<Rightarrow> bool" where
  "entry_bytes b off g \<longleftrightarrow> (\<forall>i<32. b (off + word_of_nat i) = g i)"

lemma entry_fields:
  "entry_ord b off = ucast (b off)" "entry_attr b off = ucast (b (off + 11))"
  by (simp_all add: entry_ord_def entry_attr_def fat_read_entry_def LDIR_ORD_def DIR_ATTR_def)

lemma entry_bytes_fields:
  assumes "entry_bytes b off g"
  shows "entry_ord b off = ucast (g 0)" "entry_attr b off = ucast (g 11)"
    "entry_cluster b off = push_bit 16 (push_bit 8 (ucast (g 21)) OR ucast (g 20)) OR (push_bit 8 (ucast (g 27)) OR ucast (g 26))"
    "entry_size b off = push_bit 8 (push_bit 8 (push_bit 8 (ucast (g 31)) OR ucast (g 30)) OR ucast (g 29)) OR ucast (g 28)"
    "get_name_from_long b off = takeWhile (\<lambda>c. c \<noteq> 0 \<and> c \<noteq> 0xFF) (map g lfn_offsets)"
proof -
  have b: "b (off + word_of_nat i) = g i" if "i < 32" for i using assms that by (simp add: entry_bytes_def)
  note bs = b [of 0] b [of 11] b [of 20] b [of 21] b [of 26] b [of 27] b [of 28] b [of 29] b [of 30] b [of 31]
  show "entry_ord b off = ucast (g 0)" "entry_attr b off = ucast (g 11)"
    using bs by (simp_all add: entry_fields)
  show "entry_cluster b off = push_bit 16 (push_bit 8 (ucast (g 21)) OR ucast (g 20)) OR (push_bit 8 (ucast (g 27)) OR ucast (g 26))"
    "entry_size b off = push_bit 8 (push_bit 8 (push_bit 8 (ucast (g 31)) OR ucast (g 30)) OR ucast (g 29)) OR ucast (g 28)"
    using bs by (simp_all add: entry_cluster_def entry_size_def fat_read_entry_def DIR_FST_CLUS_HI_def
        DIR_FST_CLUS_LO_def DIR_FILE_SIZE_def upt_rec add.assoc)
  have "i \<in> set lfn_offsets \<Longrightarrow> i < 32" for i by (auto simp: lfn_offsets_def)
  then have "map (\<lambda>i. b (off + word_of_nat i)) lfn_offsets = map g lfn_offsets" using b by simp
  then show "get_name_from_long b off = takeWhile (\<lambda>c. c \<noteq> 0 \<and> c \<noteq> 0xFF) (map g lfn_offsets)"
    by (simp only: get_name_from_long_def)
qed

lemma word_bytes:
  fixes v :: u32
  shows "push_bit 16 (push_bit 8 (ucast (ucast (drop_bit 24 v) :: u8)) OR ucast (ucast (drop_bit 16 v) :: u8))
      OR (push_bit 8 (ucast (ucast (drop_bit 8 v) :: u8)) OR ucast (ucast v :: u8)) = v"
    "push_bit 8 (push_bit 8 (push_bit 8 (ucast (ucast (drop_bit 24 v) :: u8)) OR ucast (ucast (drop_bit 16 v) :: u8))
      OR ucast (ucast (drop_bit 8 v) :: u8)) OR ucast (ucast v :: u8) = v"
proof -
  have "n < 8 \<or> (8 \<le> n \<and> n < 16) \<or> (16 \<le> n \<and> n < 24) \<or> 24 \<le> n" for n :: nat by linarith
  then show "push_bit 16 (push_bit 8 (ucast (ucast (drop_bit 24 v) :: u8)) OR ucast (ucast (drop_bit 16 v) :: u8))
      OR (push_bit 8 (ucast (ucast (drop_bit 8 v) :: u8)) OR ucast (ucast v :: u8)) = v"
    "push_bit 8 (push_bit 8 (push_bit 8 (ucast (ucast (drop_bit 24 v) :: u8)) OR ucast (ucast (drop_bit 16 v) :: u8))
      OR ucast (ucast (drop_bit 8 v) :: u8)) OR ucast (ucast v :: u8) = v"
    by - (rule bit_word_eqI, drule_tac meta_spec, elim disjE; auto simp: bit_simps)+
qed

lemma normal_fields:
  assumes "entry_bytes b off (normal_byte name is_dir cluster nbytes)"
  shows "entry_cluster b off = cluster" "entry_size b off = nbytes"
    "entry_attr b off = (if is_dir then 0x10 else 0x20)"
    "name \<noteq> [] \<Longrightarrow> entry_ord b off = ucast (to_upper (hd name))"
  using entry_bytes_fields [OF assms] word_bytes [of cluster] word_bytes [of nbytes]
  by (auto simp: normal_byte_def hd_conv_nth)

text \<open>Names the entries can hold: the bytes 0 and 255 end a part when it is read.\<close>

definition entry_chars :: "u8 list \<Rightarrow> bool" where
  "entry_chars name \<longleftrightarrow> (\<forall>c\<in>set name. c \<noteq> 0 \<and> c \<noteq> 0xFF)"

lemma take_part:
  assumes "entry_chars name"
  shows "takeWhile (\<lambda>c. c \<noteq> 0 \<and> c \<noteq> 0xFF) (map (\<lambda>k. if c + k < length name then name ! (c + k) else 0) [0..<n])
    = take n (drop c name)"
proof (induction n arbitrary: c)
  case (Suc n)
  have u: "[0..<Suc n] = 0 # map Suc [0..<n]" by (simp add: map_Suc_upt upt_conv_Cons del: upt_Suc)
  show ?case
  proof (cases "c < length name")
    case True
    then have "name ! c \<noteq> 0" "name ! c \<noteq> 0xFF" using assms by (auto simp: entry_chars_def)
    moreover have "(\<lambda>k. if c + k < length name then name ! (c + k) else 0) \<circ> Suc
        = (\<lambda>k. if Suc c + k < length name then name ! (Suc c + k) else 0)" by (simp add: fun_eq_iff)
    ultimately show ?thesis
      using True Suc [of "Suc c"] by (simp add: u Cons_nth_drop_Suc [symmetric] del: upt_Suc)
  qed (simp add: u del: upt_Suc)
qed simp

lemma lfn_fields:
  assumes "entry_bytes b off (lfn_byte ord name c)" "entry_chars name"
  shows "entry_ord b off = ucast ord" "entry_attr b off = ATTR_LONG_NAME_MASK"
    "get_name_from_long b off = take 13 (drop c name)"
proof -
  note f = entry_bytes_fields [OF assms(1)]
  show "entry_ord b off = ucast ord" by (simp add: f(1) lfn_byte_def)
  show "entry_attr b off = ATTR_LONG_NAME_MASK" by (simp add: f(2) lfn_byte_def lfn_offsets_def ATTR_LONG_NAME_MASK_def)
  have "map (lfn_byte ord name c) lfn_offsets = map (\<lambda>k. if c + k < length name then name ! (c + k) else 0) [0..<13]"
    by (simp add: lfn_offsets_def lfn_byte_def lfn_before_def upt_rec)
  then show "get_name_from_long b off = take 13 (drop c name)" by (simp only: f(5) take_part [OF assms(2)])
qed

section \<open>The scan up to the end of the directory\<close>

text \<open>The parts of a long name that are pending at the end of a directory.\<close>

function end_parts :: "mem \<Rightarrow> u32 \<Rightarrow> lfn_parts \<Rightarrow> lfn_parts" where
  "end_parts buffer offset st =
    (if offset < 4096 \<and> entry_ord buffer offset \<noteq> NO_MORE_ENTRY then
       end_parts buffer (offset + 32)
         (if entry_ord buffer offset = FREE_ENTRY then st
          else if entry_attr buffer offset = ATTR_LONG_NAME_MASK then lfn_entry buffer offset st
          else st\<lparr>lfn := 0\<rparr>)
     else st)"
  by pat_completeness auto
termination
  by (relation "measure (\<lambda>(_, offset, _). 4096 - unat offset)") (auto simp: scan_next word_less_nat_alt)

declare end_parts.simps [simp del]

lemma end_offset_ge: "unat o' \<le> unat (end_offset b o')"
proof (induction b o' rule: end_offset.induct)
  case (1 b o')
  then show ?case by (subst end_offset.simps) (auto simp: scan_next)
qed

lemma end_offset_step:
  "o' < 4096 \<Longrightarrow> entry_ord b o' \<noteq> NO_MORE_ENTRY \<Longrightarrow> end_offset b o' = end_offset b (o' + 32)"
  by (subst end_offset.simps) simp

lemma end_offset_bound:
  assumes "o' < 4096" "entry_ord b o' \<noteq> NO_MORE_ENTRY" "end_offset b o' = off"
  shows "unat o' + 32 \<le> unat off"
  using assms end_offset_ge [of "o' + 32" b] scan_next [of o'] by (simp add: end_offset_step)

definition same_below :: "u32 \<Rightarrow> mem \<Rightarrow> mem \<Rightarrow> bool" where
  "same_below off b b' \<longleftrightarrow> (\<forall>a<off. b' a = b a)"

lemma same_below_entry:
  assumes "same_below off b b'" "unat o' + 32 \<le> unat off" "i < 32"
  shows "b' (o' + word_of_nat i) = b (o' + word_of_nat i)"
proof -
  have "unat off < 4294967296" using unsigned_less [of off] by simp
  then have "unat o' + i < 4294967296" using assms(2,3) by linarith
  then have "unat (o' + word_of_nat i) = unat o' + i"
    by (subst unat_add_no_wrap) (simp_all add: unat_of_nat_small)
  then show ?thesis using assms by (simp add: same_below_def word_less_nat_alt)
qed

lemma same_entry_fields:
  assumes "same_below off b b'" "unat o' + 32 \<le> unat off"
  shows "entry_ord b' o' = entry_ord b o'" "entry_attr b' o' = entry_attr b o'"
    "lfn_entry b' o' st = lfn_entry b o' st" "entry_name cap st b' o' = entry_name cap st b o'"
    "entry_cluster b' o' = entry_cluster b o'" "entry_size b' o' = entry_size b o'"
proof -
  have e: "entry_bytes b o' (\<lambda>i. b (o' + word_of_nat i))" "entry_bytes b' o' (\<lambda>i. b (o' + word_of_nat i))"
    using same_below_entry [OF assms] by (simp_all add: entry_bytes_def)
  note f = entry_bytes_fields [OF e(1)] entry_bytes_fields [OF e(2)]
  show 1: "entry_ord b' o' = entry_ord b o'" "entry_attr b' o' = entry_attr b o'"
    "entry_cluster b' o' = entry_cluster b o'" "entry_size b' o' = entry_size b o'"
    using f by simp_all
  have l: "get_name_from_long b' o' = get_name_from_long b o'" using f by simp
  then show "lfn_entry b' o' st = lfn_entry b o' st" by (simp add: lfn_entry_def 1)
  have "map (\<lambda>i. b' (o' + word_of_nat i)) [0..<8] = map (\<lambda>i. b (o' + word_of_nat i)) [0..<8]"
    "map (\<lambda>i. b' (o' + word_of_nat i)) [8..<11] = map (\<lambda>i. b (o' + word_of_nat i)) [8..<11]"
    by (intro map_cong refl same_below_entry [OF assms]; auto)+
  then have "get_name_from_short b' o' = get_name_from_short b o'" by (simp only: get_name_from_short_def)
  then show "entry_name cap st b' o' = entry_name cap st b o'" by (simp add: entry_name_def)
qed

text \<open>What follows the end does not matter before it, and the scan that reaches it goes on there.\<close>

lemma scan_upto:
  assumes "end_offset b o' = off" "off < 4096" "same_below off b b'"
  shows "dir_scan n b o' st = Some Dir_end \<Longrightarrow> dir_scan n b' o' st = dir_scan n b' off (end_parts b o' st)"
    and "dir_scan n b o' st = Some (Dir_found q s) \<Longrightarrow>
      dir_scan n b' o' st = Some (Dir_found q s) \<and> unat q + 32 \<le> unat off"
    and "dir_scan n b o' st = None \<Longrightarrow> dir_scan n b' o' st = None"
    and "dir_scan n b o' st \<noteq> Some (Dir_more s')"
proof -
  have "(dir_scan n b o' st = Some Dir_end \<longrightarrow> dir_scan n b' o' st = dir_scan n b' off (end_parts b o' st)) \<and>
    (\<forall>q s. dir_scan n b o' st = Some (Dir_found q s) \<longrightarrow>
      dir_scan n b' o' st = Some (Dir_found q s) \<and> unat q + 32 \<le> unat off) \<and>
    (dir_scan n b o' st = None \<longrightarrow> dir_scan n b' o' st = None) \<and>
    (\<forall>s'. dir_scan n b o' st \<noteq> Some (Dir_more s'))"
    using assms(1,3)
  proof (induction n b o' st rule: dir_scan.induct)
    case (1 n b o' st)
    note same = 1(5)
    have lt: "o' < 4096"
      using 1(4) assms(2) end_offset_ge [of o' b] by (simp add: word_less_nat_alt)
    show ?case
    proof (cases "entry_ord b o' = NO_MORE_ENTRY")
      case True
      then have "off = o'" using 1(4) by (subst (asm) end_offset.simps) simp
      then show ?thesis
        using True lt by (subst (1 3 4 5) dir_scan.simps, subst end_parts.simps) simp
    next
      case False
      have bound: "unat o' + 32 \<le> unat off" by (rule end_offset_bound [OF lt False 1(4)])
      have nxt: "end_offset b (o' + 32) = off" using 1(4) end_offset_step [OF lt False] by simp
      note f = same_entry_fields [OF same bound]
      note un = dir_scan.simps [of n b o' st] dir_scan.simps [of n b' o' st] end_parts.simps [of b o' st]
      consider "entry_ord b o' = FREE_ENTRY"
        | "entry_ord b o' \<noteq> FREE_ENTRY" "entry_attr b o' = ATTR_LONG_NAME_MASK"
        | "entry_ord b o' \<noteq> FREE_ENTRY" "entry_attr b o' \<noteq> ATTR_LONG_NAME_MASK" by blast
      then show ?thesis
      proof cases
        case 1
        then show ?thesis using "1.IH"(1) [OF lt refl refl False _ nxt same] lt False by (simp add: un f)
      next
        case 2
        then show ?thesis using "1.IH"(2) [OF lt refl refl False _ _ nxt same] lt False by (simp add: un f)
      next
        case 3
        then show ?thesis
          using "1.IH"(3) [OF lt refl refl False _ _ _ _ nxt same] lt False bound
          by (cases "entry_name 32 st b o'") (simp_all add: un f)
      qed
    qed
  qed
  then show "dir_scan n b o' st = Some Dir_end \<Longrightarrow> dir_scan n b' o' st = dir_scan n b' off (end_parts b o' st)"
    "dir_scan n b o' st = Some (Dir_found q s) \<Longrightarrow>
      dir_scan n b' o' st = Some (Dir_found q s) \<and> unat q + 32 \<le> unat off"
    "dir_scan n b o' st = None \<Longrightarrow> dir_scan n b' o' st = None"
    "dir_scan n b o' st \<noteq> Some (Dir_more s')" by blast+
qed

section \<open>A new entry\<close>

text \<open>The writes of the automaton from step \<open>step\<close> on, in one buffer.\<close>

fun write_steps :: "nat \<Rightarrow> nat \<Rightarrow> u8 list \<Rightarrow> bool \<Rightarrow> u32 \<Rightarrow> u32 \<Rightarrow> u32 \<Rightarrow> mem \<Rightarrow> mem" where
  "write_steps nb_lfn 0 name is_dir cluster nbytes off b = b"
| "write_steps nb_lfn (Suc step) name is_dir cluster nbytes off b =
    write_steps nb_lfn step name is_dir cluster nbytes (off + 32)
      (write_step nb_lfn (Suc step) name is_dir cluster nbytes off b)"

lemma place_other: "unat (a - d) \<ge> n \<Longrightarrow> place g m d n a = m a"
  by (simp add: place_def)

lemma place_below:
  assumes "a < d" "unat d + n \<le> 4294967296"
  shows "place g m d n a = m a"
proof (rule place_other)
  have "unat (a - d) = 4294967296 + unat a - unat d"
    using assms(1) by (simp add: unat_sub_if' word_less_nat_alt)
  then show "n \<le> unat (a - d)" using assms by (simp add: word_less_nat_alt)
qed

lemma same_below_refl: "same_below off b b"
  by (simp add: same_below_def)

lemma same_below_trans: "same_below off b c \<Longrightarrow> same_below off c d \<Longrightarrow> same_below off b d"
  by (simp add: same_below_def)

lemma same_below_mono: "same_below off b c \<Longrightarrow> off' \<le> off \<Longrightarrow> same_below off' b c"
  by (auto simp: same_below_def)

lemma same_below_place: "unat off + n \<le> 4294967296 \<Longrightarrow> same_below off b (place g b off n)"
  by (simp add: same_below_def place_below)

lemma write_step_below:
  assumes "s = 4 \<longrightarrow> 13 \<le> length name" "s = 5 \<longrightarrow> 26 \<le> length name" "unat off + 32 \<le> 4294967296"
  shows "same_below off b (write_step nb s name is_dir cluster nbytes off b)"
proof -
  have "same_below off b (b(off := 0))" by (simp add: same_below_def)
  then show ?thesis
    using assms by (simp add: write_step_def write_lfn_bytes write_normal_bytes same_below_place)
qed

text \<open>The entries of a new name: its parts, the NORMAL entry, and the end.\<close>

definition new_entries :: "nat \<Rightarrow> u8 list \<Rightarrow> bool \<Rightarrow> u32 \<Rightarrow> u32 \<Rightarrow> u32 \<Rightarrow> mem \<Rightarrow> bool" where
  "new_entries nb name is_dir cluster nbytes off b \<longleftrightarrow>
    (nb = 1 \<longrightarrow> entry_bytes b off (lfn_byte 0x41 name 0)) \<and>
    (nb = 2 \<longrightarrow> entry_bytes b off (lfn_byte 0x42 name 13) \<and> entry_bytes b (off + 32) (lfn_byte 0x01 name 0)) \<and>
    (nb = 3 \<longrightarrow> entry_bytes b off (lfn_byte 0x43 name 26) \<and> entry_bytes b (off + 32) (lfn_byte 0x02 name 13) \<and>
      entry_bytes b (off + 64) (lfn_byte 0x01 name 0)) \<and>
    entry_bytes b (off + word_of_nat (32 * nb)) (normal_byte name is_dir cluster nbytes) \<and>
    b (off + word_of_nat (32 * nb) + 32) = 0"

lemma entry_bytes_place:
  assumes "unat off + 32 \<le> 4294967296"
  shows "entry_bytes (place g b off 32) off g"
  by (simp add: entry_bytes_def place_at)

lemma entry_bytes_below:
  assumes "entry_bytes b o' g" "same_below off b b'" "unat o' + 32 \<le> unat off"
  shows "entry_bytes b' o' g"
  using assms same_below_entry [OF assms(2,3)] by (simp add: entry_bytes_def)

lemma off_plus:
  fixes off :: u32
  assumes "unat off + n < 4294967296"
  shows "unat (off + word_of_nat n) = unat off + n"
  using assms by (subst unat_add_no_wrap) (simp_all add: unat_of_nat_small)

lemma write_steps_entries:
  assumes "check_name_length name = Some (len, nb)" "unat off + 32 * (nb + 2) \<le> 4096"
  shows "new_entries nb name is_dir cluster nbytes off (write_steps nb (nb + 2) name is_dir cluster nbytes off b)"
    and "same_below off b (write_steps nb (nb + 2) name is_dir cluster nbytes off b)"
proof -
  have nb: "nb = 1 \<or> nb = 2 \<and> 13 \<le> length name \<or> nb = 3 \<and> 26 \<le> length name"
    using assms(1) by (auto simp: check_name_length_def split: if_splits)
  let ?w = "\<lambda>s k b. write_step nb s name is_dir cluster nbytes (off + word_of_nat k) b"
  have o: "unat (off + word_of_nat k) = unat off + k" if "k \<le> 32 * (nb + 2)" for k
    using that assms(2) by (intro off_plus) linarith
  have below: "same_below (off + word_of_nat k) b (?w s k b)"
    if "k + 32 \<le> 32 * (nb + 2)" "s \<le> nb + 2" for k s b
    using that nb assms(2) o [of k] by (intro write_step_below) auto
  have same0: "same_below off b d"
    if "same_below off b c" "k \<le> 32 * (nb + 2)" "same_below (off + word_of_nat k) c d" for b c d k
  proof -
    have "off \<le> off + word_of_nat k" using o [OF that(2)] by (simp add: word_le_nat_alt)
    then show ?thesis using that(1,3) same_below_trans same_below_mono by blast
  qed
  have keep: "entry_bytes c (off + word_of_nat j) g"
    if "entry_bytes b (off + word_of_nat j) g" "same_below (off + word_of_nat k) b c" "j + 32 \<le> k" "k \<le> 32 * (nb + 2)" for b c g j k
    using entry_bytes_below [OF that(1,2)] o [of j] o [of k] that(3,4) by simp
  have first: "entry_bytes (?w s k b) (off + word_of_nat k) g"
    if "?w s k b = place g b (off + word_of_nat k) 32" "k + 32 \<le> 32 * (nb + 2)" for s k b g
    unfolding that(1) using that(2) assms(2) o [of k] by (intro entry_bytes_place) simp
  have len: "13 \<le> length name \<Longrightarrow> write_lfn c name 13 q b = place (lfn_byte c name 13) b q 32"
    "26 \<le> length name \<Longrightarrow> write_lfn c name 26 q b = place (lfn_byte c name 26) b q 32"
    "write_lfn c name 0 q b = place (lfn_byte c name 0) b q 32" for c q b
    by (simp_all add: write_lfn_bytes)
  note w = write_step_def write_normal_bytes
  let ?goal = "same_below off b (write_steps nb (nb + 2) name is_dir cluster nbytes off b) \<and>
    new_entries nb name is_dir cluster nbytes off (write_steps nb (nb + 2) name is_dir cluster nbytes off b)"
  have ?goal if nb1: "nb = 1"
  proof -
    define c1 c2 c3 where c: "c1 = ?w 3 0 b" "c2 = ?w 2 32 c1" "c3 = ?w 1 64 c2"
    have s: "same_below (off + word_of_nat 0) b c1" "same_below (off + word_of_nat 32) c1 c2" "same_below (off + word_of_nat 64) c2 c3"
      unfolding c by (rule below; simp add: nb1)+
    have e: "entry_bytes c1 (off + word_of_nat 0) (lfn_byte 0x41 name 0)"
      "entry_bytes c2 (off + word_of_nat 32) (normal_byte name is_dir cluster nbytes)"
      unfolding c by (rule first; simp add: nb1 w len)+
    have "entry_bytes c3 (off + word_of_nat 0) (lfn_byte 0x41 name 0)"
      by (rule keep [OF keep [OF e(1) s(2)] s(3)]; simp add: nb1)
    moreover have "entry_bytes c3 (off + word_of_nat 32) (normal_byte name is_dir cluster nbytes)"
      by (rule keep [OF e(2) s(3)]; simp add: nb1)
    moreover have "same_below off b c3"
      by (rule same0 [OF same0 [OF _ _ s(2)] _ s(3)]; use s(1) in \<open>simp add: nb1\<close>)
    moreover have "c3 (off + 64) = 0" by (simp add: c(3) write_step_def)
    moreover have "write_steps nb (nb + 2) name is_dir cluster nbytes off b = c3"
      by (simp add: nb1 c numeral_eq_Suc add.assoc)
    ultimately show ?thesis by (simp add: nb1 new_entries_def add.assoc)
  qed
  moreover have ?goal if nb2: "nb = 2" "13 \<le> length name"
  proof -
    define c1 c2 c3 c4 where c: "c1 = ?w 4 0 b" "c2 = ?w 3 32 c1" "c3 = ?w 2 64 c2" "c4 = ?w 1 96 c3"
    have s: "same_below (off + word_of_nat 0) b c1" "same_below (off + word_of_nat 32) c1 c2"
      "same_below (off + word_of_nat 64) c2 c3" "same_below (off + word_of_nat 96) c3 c4"
      unfolding c by (rule below; simp add: nb2)+
    have e: "entry_bytes c1 (off + word_of_nat 0) (lfn_byte 0x42 name 13)"
      "entry_bytes c2 (off + word_of_nat 32) (lfn_byte 0x01 name 0)"
      "entry_bytes c3 (off + word_of_nat 64) (normal_byte name is_dir cluster nbytes)"
      unfolding c by (rule first; simp add: nb2 w len)+
    have "entry_bytes c4 (off + word_of_nat 0) (lfn_byte 0x42 name 13)"
      by (rule keep [OF keep [OF keep [OF e(1) s(2)] s(3)] s(4)]; simp add: nb2)
    moreover have "entry_bytes c4 (off + word_of_nat 32) (lfn_byte 0x01 name 0)"
      by (rule keep [OF keep [OF e(2) s(3)] s(4)]; simp add: nb2)
    moreover have "entry_bytes c4 (off + word_of_nat 64) (normal_byte name is_dir cluster nbytes)"
      by (rule keep [OF e(3) s(4)]; simp add: nb2)
    moreover have "same_below off b c4"
      by (rule same0 [OF same0 [OF same0 [OF _ _ s(2)] _ s(3)] _ s(4)]; use s(1) in \<open>simp add: nb2\<close>)
    moreover have "c4 (off + 96) = 0" by (simp add: c(4) write_step_def)
    moreover have "write_steps nb (nb + 2) name is_dir cluster nbytes off b = c4"
      by (simp add: nb2 c numeral_eq_Suc add.assoc)
    ultimately show ?thesis by (simp add: nb2 new_entries_def add.assoc)
  qed
  moreover have ?goal if nb3: "nb = 3" "26 \<le> length name"
  proof -
    define c1 c2 c3 c4 c5 where c: "c1 = ?w 5 0 b" "c2 = ?w 4 32 c1" "c3 = ?w 3 64 c2" "c4 = ?w 2 96 c3" "c5 = ?w 1 128 c4"
    have s: "same_below (off + word_of_nat 0) b c1" "same_below (off + word_of_nat 32) c1 c2"
      "same_below (off + word_of_nat 64) c2 c3" "same_below (off + word_of_nat 96) c3 c4" "same_below (off + word_of_nat 128) c4 c5"
      unfolding c by (rule below; simp add: nb3)+
    have l13: "13 \<le> length name" using nb3(2) by simp
    have e: "entry_bytes c1 (off + word_of_nat 0) (lfn_byte 0x43 name 26)"
      "entry_bytes c2 (off + word_of_nat 32) (lfn_byte 0x02 name 13)"
      "entry_bytes c3 (off + word_of_nat 64) (lfn_byte 0x01 name 0)"
      "entry_bytes c4 (off + word_of_nat 96) (normal_byte name is_dir cluster nbytes)"
      unfolding c by (rule first; simp add: nb3 w len l13)+
    have "entry_bytes c5 (off + word_of_nat 0) (lfn_byte 0x43 name 26)"
      by (rule keep [OF keep [OF keep [OF keep [OF e(1) s(2)] s(3)] s(4)] s(5)]; simp add: nb3)
    moreover have "entry_bytes c5 (off + word_of_nat 32) (lfn_byte 0x02 name 13)"
      by (rule keep [OF keep [OF keep [OF e(2) s(3)] s(4)] s(5)]; simp add: nb3)
    moreover have "entry_bytes c5 (off + word_of_nat 64) (lfn_byte 0x01 name 0)"
      by (rule keep [OF keep [OF e(3) s(4)] s(5)]; simp add: nb3)
    moreover have "entry_bytes c5 (off + word_of_nat 96) (normal_byte name is_dir cluster nbytes)"
      by (rule keep [OF e(4) s(5)]; simp add: nb3)
    moreover have "same_below off b c5"
      by (rule same0 [OF same0 [OF same0 [OF same0 [OF _ _ s(2)] _ s(3)] _ s(4)] _ s(5)]; use s(1) in \<open>simp add: nb3\<close>)
    moreover have "c5 (off + 128) = 0" by (simp add: c(5) write_step_def)
    moreover have "write_steps nb (nb + 2) name is_dir cluster nbytes off b = c5"
      by (simp add: nb3 c numeral_eq_Suc add.assoc)
    ultimately show ?thesis by (simp add: nb3 new_entries_def add.assoc)
  qed
  ultimately show "same_below off b (write_steps nb (nb + 2) name is_dir cluster nbytes off b)"
    and "new_entries nb name is_dir cluster nbytes off (write_steps nb (nb + 2) name is_dir cluster nbytes off b)"
    using nb by blast+
qed

section \<open>Scanning the new entries\<close>

definition entry_name_ok :: "u8 list \<Rightarrow> bool" where
  "entry_name_ok name \<longleftrightarrow> name \<noteq> [] \<and> length name \<le> NAME_MAX_SIZE \<and> entry_chars name \<and> hd name \<noteq> 0xE5"

lemma ucast_byte: "(ucast (a :: u8) :: u32) = ucast b \<longleftrightarrow> a = b"
proof -
  have u: "unat (ucast c :: u32) = unat c" for c :: u8
    by (simp add: unsigned_ucast_eq) (simp add: take_bit_nat_eq_self less_le_trans [OF unsigned_less])
  show ?thesis by (metis u unsigned_word_eqI)
qed

lemma ord_special: "ucast (a :: u8) = NO_MORE_ENTRY \<longleftrightarrow> a = 0" "ucast (a :: u8) = FREE_ENTRY \<longleftrightarrow> a = 0xE5"
  using ucast_byte [of a 0] ucast_byte [of a "0xE5"] by (simp_all add: NO_MORE_ENTRY_def FREE_ENTRY_def)

lemma upper_letter:
  assumes "97 \<le> c" "c \<le> (122 :: u8)"
  shows "c AND NOT 0x20 \<noteq> 0 \<and> c AND NOT 0x20 \<noteq> 0xE5"
proof -
  have "c = word_of_nat (unat c)" by simp
  moreover have "unat c \<in> set [97..<123]"
    using assms unfolding set_upt by (simp only: word_le_nat_alt atLeastLessThan_iff) simp
  moreover have "\<forall>n\<in>set [97..<123]. (word_of_nat n :: u8) AND NOT 0x20 \<noteq> 0 \<and> (word_of_nat n :: u8) AND NOT 0x20 \<noteq> 0xE5"
    by (simp add: upt_rec)
  ultimately show ?thesis by metis
qed

lemma upper_first:
  assumes "entry_name_ok name"
  shows "to_upper (hd name) \<noteq> 0" "to_upper (hd name) \<noteq> 0xE5"
proof -
  have "hd name \<noteq> 0" "hd name \<noteq> 0xE5" using assms hd_in_set [of name] by (auto simp: entry_name_ok_def entry_chars_def)
  then show "to_upper (hd name) \<noteq> 0" "to_upper (hd name) \<noteq> 0xE5"
    using upper_letter [of "hd name"] by (auto simp: to_upper_def)
qed

text \<open>The parts of the name, once they are read, with no other part pending.\<close>

definition parts_of :: "nat \<Rightarrow> u8 list \<Rightarrow> lfn_parts \<Rightarrow> bool" where
  "parts_of nb name st \<longleftrightarrow> lfn st = nb \<and> lfn1 st = Some (take 13 name) \<and>
    (nb \<ge> 2 \<longrightarrow> lfn2 st = Some (take 13 (drop 13 name))) \<and> (nb \<ge> 3 \<longrightarrow> lfn3 st = Some (drop 26 name))"

lemma parts_name:
  assumes "check_name_length name = Some (len, nb)" "parts_of nb name st"
  shows "entry_name 32 st b q = Some name"
proof -
  have nb: "nb = 1 \<and> length name \<le> 13 \<or> nb = 2 \<and> 13 < length name \<and> length name \<le> 26
      \<or> nb = 3 \<and> 26 < length name \<and> length name \<le> 31"
    using assms(1) by (auto simp: check_name_length_def split: if_splits)
  have j: "13 \<le> length name \<Longrightarrow> join_name (take 13 name) a = take 13 name @ a"
    "26 \<le> length name \<Longrightarrow> join_name (take 13 (drop 13 name)) a = take 13 (drop 13 name) @ a" for a
    by (simp_all add: join_name_def)
  have "take 13 name @ take 13 (drop 13 name) @ drop 26 name = name"
    using append_take_drop_id [of 13 name] append_take_drop_id [of 13 "drop 13 name"] by simp
  moreover have "length name \<le> 26 \<Longrightarrow> take 13 name @ take 13 (drop 13 name) = name"
    by (simp add: take_all_iff)
  ultimately show ?thesis
    using nb assms(2) by (auto simp: entry_name_def parts_of_def j)
qed

lemma scan_lfn_step:
  assumes "entry_bytes b q (lfn_byte ord name c)" "entry_chars name" "q < 4096" "ord \<noteq> 0" "ord \<noteq> 0xE5"
  shows "dir_scan n b q st = dir_scan n b (q + 32) (lfn_entry b q st)"
    "end_parts b q st = end_parts b (q + 32) (lfn_entry b q st)"
    "end_offset b q = end_offset b (q + 32)"
    "lfn_entry b q st = (let seq = unat (ucast ord AND (0x3 :: u32));
         st = st\<lparr>lfn := (if seq > lfn st then seq else lfn st)\<rparr>;
         part = Some (take 13 (drop c name))
       in if seq = 1 then st\<lparr>lfn1 := part\<rparr> else if seq = 2 then st\<lparr>lfn2 := part\<rparr>
          else if seq = 3 then st\<lparr>lfn3 := part\<rparr> else st)"
proof -
  note f = lfn_fields [OF assms(1,2)]
  have o: "entry_ord b q \<noteq> NO_MORE_ENTRY" "entry_ord b q \<noteq> FREE_ENTRY"
    using assms(4,5) by (simp_all add: f ord_special)
  show "dir_scan n b q st = dir_scan n b (q + 32) (lfn_entry b q st)"
    using o f(2) assms(3) by (subst dir_scan.simps) simp
  show "end_parts b q st = end_parts b (q + 32) (lfn_entry b q st)"
    using o f(2) assms(3) by (subst end_parts.simps) simp
  show "end_offset b q = end_offset b (q + 32)" by (rule end_offset_step [OF assms(3) o(1)])
  show "lfn_entry b q st = (let seq = unat (ucast ord AND (0x3 :: u32));
         st = st\<lparr>lfn := (if seq > lfn st then seq else lfn st)\<rparr>;
         part = Some (take 13 (drop c name))
       in if seq = 1 then st\<lparr>lfn1 := part\<rparr> else if seq = 2 then st\<lparr>lfn2 := part\<rparr>
          else if seq = 3 then st\<lparr>lfn3 := part\<rparr> else st)"
    by (simp add: lfn_entry_def f Let_def)
qed

lemma scan_normal_step:
  assumes "entry_bytes b q (normal_byte name is_dir cluster nbytes)" "entry_name_ok name" "q < 4096"
    "entry_name 32 st b q = Some name"
  shows "dir_scan n b q st = (if n = name then Some (Dir_found q (st\<lparr>lfn := 0\<rparr>)) else dir_scan n b (q + 32) (st\<lparr>lfn := 0\<rparr>))"
    "end_parts b q st = end_parts b (q + 32) (st\<lparr>lfn := 0\<rparr>)"
    "end_offset b q = end_offset b (q + 32)"
proof -
  note f = normal_fields [OF assms(1)]
  have "name \<noteq> []" using assms(2) by (simp add: entry_name_ok_def)
  note f4 = f(4) [OF this]
  have o: "entry_ord b q \<noteq> NO_MORE_ENTRY" "entry_ord b q \<noteq> FREE_ENTRY"
    using upper_first [OF assms(2)] by (simp_all add: f4 ord_special)
  have a: "entry_attr b q \<noteq> ATTR_LONG_NAME_MASK" by (simp add: f(3) ATTR_LONG_NAME_MASK_def)
  show "dir_scan n b q st = (if n = name then Some (Dir_found q (st\<lparr>lfn := 0\<rparr>)) else dir_scan n b (q + 32) (st\<lparr>lfn := 0\<rparr>))"
    using o a assms(3,4) by (subst dir_scan.simps) simp
  show "end_parts b q st = end_parts b (q + 32) (st\<lparr>lfn := 0\<rparr>)"
    using o a assms(3) by (subst end_parts.simps) simp
  show "end_offset b q = end_offset b (q + 32)" by (rule end_offset_step [OF assms(3) o(1)])
qed

lemma scan_end:
  assumes "b q = 0" "q < 4096"
  shows "dir_scan n b q st = Some Dir_end" "end_parts b q st = st" "end_offset b q = q"
proof -
  have "entry_ord b q = NO_MORE_ENTRY" using assms(1) by (simp add: entry_fields NO_MORE_ENTRY_def)
  then show "dir_scan n b q st = Some Dir_end" "end_parts b q st = st" "end_offset b q = q"
    using assms(2) by (subst dir_scan.simps end_parts.simps end_offset.simps, simp)+
qed

text \<open>From the NORMAL entry on, once the parts of the name were read.\<close>

lemma scan_new_normal:
  assumes "entry_bytes b q (normal_byte name is_dir cluster nbytes)" "b (q + 32) = 0" "unat q + 64 \<le> 4096"
    and "entry_name_ok name" "check_name_length name = Some (len, nb)" "parts_of nb name st"
  shows "dir_scan n b q st = Some (if n = name then Dir_found q (st\<lparr>lfn := 0\<rparr>) else Dir_end)"
    "lfn (end_parts b q st) = 0" "end_offset b q = q + 32"
proof -
  have q: "q < 4096" using assms(3) by (simp add: word_less_nat_alt)
  have q32: "q + 32 < 4096" using assms(3) scan_next [OF q] by (simp add: word_less_nat_alt)
  note s = scan_normal_step [OF assms(1,4) q parts_name [OF assms(5,6)]] and e = scan_end [of b "q + 32", OF assms(2) q32]
  show "dir_scan n b q st = Some (if n = name then Dir_found q (st\<lparr>lfn := 0\<rparr>) else Dir_end)"
    by (simp add: s(1) e(1))
  show "lfn (end_parts b q st) = 0" "end_offset b q = q + 32" by (simp_all add: s(2,3) e(2,3))
qed

lemma scan_new_entries:
  assumes "new_entries nb name is_dir cluster nbytes off b" "check_name_length name = Some (len, nb)"
    and "entry_name_ok name" "unat off + 32 * (nb + 2) \<le> 4096" "lfn st = 0"
  shows "\<exists>st'. dir_scan n b off st = Some (if n = name then Dir_found (off + word_of_nat (32 * nb)) st' else Dir_end)"
    and "lfn (end_parts b off st) = 0" and "end_offset b off = off + word_of_nat (32 * nb) + 32"
proof -
  have nb: "nb = 1 \<and> length name \<le> 13 \<or> nb = 2 \<and> 13 < length name \<and> length name \<le> 26
      \<or> nb = 3 \<and> 26 < length name \<and> length name \<le> 31"
    using assms(2) by (auto simp: check_name_length_def split: if_splits)
  have chars: "entry_chars name" using assms(3) by (simp add: entry_name_ok_def)
  let ?q = "off + word_of_nat (32 * nb)"
  have o: "unat (off + word_of_nat k) = unat off + k" if "k \<le> 32 * (nb + 2)" for k
    using that assms(4) by (intro off_plus) linarith
  have lt: "off + word_of_nat k < 4096" if "k < 32 * (nb + 2)" for k
    using that o [of k] assms(4) by (simp add: word_less_nat_alt)
  have q: "unat ?q + 64 \<le> 4096" using o [of "32 * nb"] assms(4) by simp
  have normal: "entry_bytes b ?q (normal_byte name is_dir cluster nbytes)" "b (?q + 32) = 0"
    using assms(1) by (auto simp: new_entries_def)
  note l = scan_lfn_step [OF _ chars]
  have "\<exists>st1. parts_of nb name st1 \<and> (\<forall>n. dir_scan n b off st = dir_scan n b ?q st1) \<and>
      end_parts b off st = end_parts b ?q st1 \<and> end_offset b off = end_offset b ?q"
  proof -
    have ?thesis if nb1: "nb = 1"
    proof -
      have e: "entry_bytes b off (lfn_byte 0x41 name 0)" using assms(1) by (simp add: new_entries_def nb1)
      have "off < 4096" using lt [of 0] nb1 by simp
      note s = l [OF e this]
      have "parts_of 1 name (lfn_entry b off st)" by (simp add: s(4) parts_of_def assms(5))
      then show ?thesis using s(1-3) nb1 by auto
    qed
    moreover have ?thesis if nb2: "nb = 2"
    proof -
      have e: "entry_bytes b off (lfn_byte 0x42 name 13)" "entry_bytes b (off + 32) (lfn_byte 0x01 name 0)"
        using assms(1) by (simp_all add: new_entries_def nb2)
      have "off < 4096" "off + 32 < 4096" using lt [of 0] lt [of 32] nb2 by simp_all
      note s = l [OF e(1) this(1)] l [OF e(2) this(2)]
      have "parts_of 2 name (lfn_entry b (off + 32) (lfn_entry b off st))"
        by (simp add: s(4,8) parts_of_def assms(5))
      then show ?thesis using s(1-3,5-7) nb2 by (auto simp: add.assoc)
    qed
    moreover have ?thesis if nb3: "nb = 3"
    proof -
      define p q where pq: "p = off + 32" "q = p + 32"
      have e: "entry_bytes b off (lfn_byte 0x43 name 26)" "entry_bytes b p (lfn_byte 0x02 name 13)"
        "entry_bytes b q (lfn_byte 0x01 name 0)"
        using assms(1) by (simp_all add: new_entries_def nb3 pq add.assoc)
      have "off < 4096" "p < 4096" "q < 4096" using lt [of 0] lt [of 32] lt [of 64] nb3
        by (simp_all add: pq add.assoc)
      note s = l [OF e(1) this(1), folded pq] l [OF e(2) this(2), folded pq] l [OF e(3) this(3)]
      have "length (drop 26 name) \<le> 13" using nb nb3 by auto
      then have "parts_of 3 name (lfn_entry b q (lfn_entry b p (lfn_entry b off st)))"
        by (simp add: s(4,8,12) parts_of_def assms(5))
      moreover have "dir_scan n b off st = dir_scan n b (q + 32) (lfn_entry b q (lfn_entry b p (lfn_entry b off st)))"
        "end_parts b off st = end_parts b (q + 32) (lfn_entry b q (lfn_entry b p (lfn_entry b off st)))"
        "end_offset b off = end_offset b (q + 32)" for n
        by (simp_all add: s(1-3,5-7,9-11))
      moreover have "?q = q + 32" by (simp add: pq nb3 add.assoc)
      ultimately show ?thesis using nb3 by metis
    qed
    ultimately show ?thesis using nb by blast
  qed
  then obtain st1 where st1: "parts_of nb name st1" "\<And>n. dir_scan n b off st = dir_scan n b ?q st1"
    "end_parts b off st = end_parts b ?q st1" "end_offset b off = end_offset b ?q" by blast
  note r = scan_new_normal [OF normal q assms(3,2) st1(1)]
  show "\<exists>st'. dir_scan n b off st = Some (if n = name then Dir_found ?q st' else Dir_end)"
    using r(1) st1(2) by auto
  show "lfn (end_parts b off st) = 0" "end_offset b off = ?q + 32" using r(2,3) st1(3,4) by simp_all
qed

section \<open>A directory as a map\<close>

type_synonym dir_file = "u32 \<times> bool \<times> u32"

definition dir_map :: "mem \<Rightarrow> u8 list \<Rightarrow> dir_file option" where
  "dir_map b n = (case dir_scan n b 0 no_lfn of
      Some (Dir_found q _) \<Rightarrow> Some (entry_cluster b q, entry_attr b q AND ATTR_DIRECTORY = ATTR_DIRECTORY, entry_size b q)
    | _ \<Rightarrow> None)"

text \<open>No part of a name is pending at the end of the directory, which is in this cluster.\<close>

definition dir_tidy :: "mem \<Rightarrow> bool" where
  "dir_tidy b \<longleftrightarrow> end_offset b 0 < 4096 \<and> lfn (end_parts b 0 no_lfn) = 0"

lemma aligned_entry: "32 dvd unat o' \<Longrightarrow> (o' :: u32) < 4096 \<Longrightarrow> unat o' + 32 \<le> 4096 \<and> 32 dvd unat (o' + 32)"
proof -
  assume d: "32 dvd unat o'" and l: "o' < 4096"
  then obtain k where "unat o' = 32 * k" by blast
  then show ?thesis using l by (simp add: scan_next word_less_nat_alt)
qed

lemma dir_scan_same:
  assumes "same_below 4096 b b'" "32 dvd unat o'"
  shows "dir_scan n b' o' st = dir_scan n b o' st"
  using assms
proof (induction n b o' st rule: dir_scan.induct)
  case (1 n b o' st)
  show ?case
  proof (cases "o' < 4096")
    case True
    note al = aligned_entry [OF 1(5) True]
    have bound: "unat o' + 32 \<le> unat (4096 :: u32)" using al by simp
    note f = same_entry_fields [OF 1(4) bound]
    note un = dir_scan.simps [of n b o' st] dir_scan.simps [of n b' o' st]
    note nxt = 1(4) conjunct2 [OF al]
    show ?thesis
    proof (cases "entry_ord b o' = NO_MORE_ENTRY")
      case False
      consider "entry_ord b o' = FREE_ENTRY"
        | "entry_ord b o' \<noteq> FREE_ENTRY" "entry_attr b o' = ATTR_LONG_NAME_MASK"
        | "entry_ord b o' \<noteq> FREE_ENTRY" "entry_attr b o' \<noteq> ATTR_LONG_NAME_MASK" by blast
      then show ?thesis
      proof cases
        case 1
        then show ?thesis using "1.IH"(1) [OF True refl refl False _ nxt] True False by (simp add: un f)
      next
        case 2
        then show ?thesis using "1.IH"(2) [OF True refl refl False _ _ nxt] True False by (simp add: un f)
      next
        case 3
        then show ?thesis
          using "1.IH"(3) [OF True refl refl False _ _ _ _ nxt] True False
          by (cases "entry_name 32 st b o'") (simp_all add: un f)
      qed
    qed (use True in \<open>simp add: un f\<close>)
  qed (simp add: dir_scan.simps)
qed

lemma dir_scan_found_in:
  assumes "dir_scan n b o' st = Some (Dir_found q s)" "32 dvd unat o'"
  shows "unat q + 32 \<le> 4096"
  using assms
proof (induction n b o' st rule: dir_scan.induct)
  case (1 n b o' st)
  have lt: "o' < 4096" using 1(4) by (subst (asm) dir_scan.simps) (auto split: if_splits)
  note al = aligned_entry [OF 1(5) lt]
  show ?case
    using 1 lt al by (subst (asm) (4) dir_scan.simps) (auto simp: Let_def split: if_splits option.splits)
qed

lemma dir_map_same:
  assumes "same_below 4096 b b'"
  shows "dir_map b' = dir_map b"
proof
  fix n
  show "dir_map b' n = dir_map b n"
  proof (cases "\<exists>q s. dir_scan n b 0 no_lfn = Some (Dir_found q s)")
    case True
    then obtain q s where q: "dir_scan n b 0 no_lfn = Some (Dir_found q s)" by blast
    then have "unat q + 32 \<le> unat (4096 :: u32)" using dir_scan_found_in [OF q] by simp
    note same_entry_fields [OF assms this]
    then show ?thesis using q dir_scan_same [OF assms, of 0] by (simp add: dir_map_def)
  next
    case False
    then show ?thesis
      using dir_scan_same [OF assms, of 0 n no_lfn]
      by (cases "dir_scan n b 0 no_lfn") (auto simp: dir_map_def split: dir_scan_result.split)
  qed
qed

lemma end_parts_upto:
  assumes "end_offset b o' = off" "off < 4096" "same_below off b b'"
  shows "end_parts b' o' st = end_parts b' off (end_parts b o' st)" "end_offset b' o' = end_offset b' off"
proof -
  have "end_parts b' o' st = end_parts b' off (end_parts b o' st) \<and> end_offset b' o' = end_offset b' off"
    using assms(1,3)
  proof (induction b o' st rule: end_parts.induct)
    case (1 b o' st)
    have lt: "o' < 4096"
      using 1(2) assms(2) end_offset_ge [of o' b] by (simp add: word_less_nat_alt)
    show ?case
    proof (cases "entry_ord b o' = NO_MORE_ENTRY")
      case True
      then have "off = o'" using 1(2) by (subst (asm) end_offset.simps) simp
      then show ?thesis using True lt by (subst (3) end_parts.simps) simp
    next
      case False
      have bound: "unat o' + 32 \<le> unat off" by (rule end_offset_bound [OF lt False 1(2)])
      have nxt: "end_offset b (o' + 32) = off" using 1(2) end_offset_step [OF lt False] by simp
      note f = same_entry_fields [OF 1(3) bound]
      let ?st = "if entry_ord b o' = FREE_ENTRY then st
          else if entry_attr b o' = ATTR_LONG_NAME_MASK then lfn_entry b o' st else st\<lparr>lfn := 0\<rparr>"
      have "end_parts b o' st = end_parts b (o' + 32) ?st"
        using lt False by (subst end_parts.simps) (simp only: if_True simp_thms)
      moreover have "end_parts b' o' st = end_parts b' (o' + 32) ?st"
        using lt False by (subst end_parts.simps) (simp only: f if_True simp_thms)
      moreover have "end_offset b' o' = end_offset b' (o' + 32)"
        using False by (intro end_offset_step lt) (simp add: f)
      moreover note 1(1) [OF conjI [OF lt False] nxt 1(3)]
      ultimately show ?thesis by (simp only: simp_thms)
    qed
  qed
  then show "end_parts b' o' st = end_parts b' off (end_parts b o' st)" "end_offset b' o' = end_offset b' off" by blast+
qed

lemma add_entry_map:
  assumes "dir_tidy b" "check_name_length name = Some (len, nb)" "entry_name_ok name"
    and "unat (end_offset b 0) + 32 * (nb + 2) \<le> 4096" "dir_scan name b 0 no_lfn = Some Dir_end"
    and b': "b' = write_steps nb (nb + 2) name is_dir cluster nbytes (end_offset b 0) b"
  shows "dir_map b' = (dir_map b)(name \<mapsto> (cluster, is_dir, nbytes))" "dir_tidy b'"
    "end_offset b' 0 = end_offset b 0 + word_of_nat (32 * nb) + 32"
    "\<exists>st. dir_scan name b' 0 no_lfn = Some (Dir_found (end_offset b 0 + word_of_nat (32 * nb)) st)"
proof -
  let ?off = "end_offset b 0"
  let ?q = "?off + word_of_nat (32 * nb)"
  have off: "?off < 4096" and pend: "lfn (end_parts b 0 no_lfn) = 0" using assms(1) by (simp_all add: dir_tidy_def)
  note w = write_steps_entries [OF assms(2,4), where is_dir = is_dir and cluster = cluster and nbytes = nbytes and b = b, folded b']
  note s = scan_new_entries [OF w(1) assms(2-4) pend]
  note up = scan_upto [OF refl off w(2)]
  note eu = end_parts_upto [OF refl off w(2)]
  have e: "unat (?off + word_of_nat (32 * nb + 32)) = unat ?off + (32 * nb + 32)"
    using assms(4) by (intro off_plus) simp
  show end': "end_offset b' 0 = ?q + 32" using eu(2) s(3) by simp
  have "unat (?q + 32) < 4096" using e assms(4) by (simp add: add.assoc)
  then show "dir_tidy b'" using s(2) eu(1) end' by (simp add: dir_tidy_def word_less_nat_alt)
  obtain st where "dir_scan name b' ?off (end_parts b 0 no_lfn) = Some (Dir_found ?q st)"
    using s(1) [of name] by auto
  then have found: "dir_scan name b' 0 no_lfn = Some (Dir_found ?q st)" using up(1) [OF assms(5)] by simp
  then show "\<exists>st. dir_scan name b' 0 no_lfn = Some (Dir_found ?q st)" by blast
  have nf: "entry_bytes b' ?q (normal_byte name is_dir cluster nbytes)" using w(1) by (simp add: new_entries_def)
  show "dir_map b' = (dir_map b)(name \<mapsto> (cluster, is_dir, nbytes))"
  proof
    fix n
    show "dir_map b' n = ((dir_map b)(name \<mapsto> (cluster, is_dir, nbytes))) n"
    proof (cases "n = name")
      case True
      then show ?thesis using found normal_fields(1-3) [OF nf] by (simp add: dir_map_def ATTR_DIRECTORY_def)
    next
      case other: False
      consider "dir_scan n b 0 no_lfn = Some Dir_end" | "dir_scan n b 0 no_lfn = None"
        | q st where "dir_scan n b 0 no_lfn = Some (Dir_found q st)"
        by (metis dir_scan_result.exhaust not_None_eq up(4))
      then show ?thesis
      proof cases
        case 1
        then show ?thesis using up(1) [OF 1] s(1) [of n] other by (simp add: dir_map_def)
      next
        case 2
        then show ?thesis using up(3) [OF 2] other by (simp add: dir_map_def)
      next
        case (3 q st)
        note f = up(2) [OF 3]
        show ?thesis using f same_entry_fields [OF w(2) conjunct2 [OF f]] 3 other by (simp add: dir_map_def)
      qed
    qed
  qed
qed

end
