(* ===== verification/Fat_Directory.thy ===== *)
theory Fat_Directory
  imports Fat_Entries
begin

text \<open>
  \<open>_add_dir_entry\<close> (\<open>giet_fat32/fat32.c\<close>) refines the insertion of a file in the map that a
  directory stands for, through the File-Cache of the directory, and the search of a directory
  finds the new file.
\<close>

section \<open>Stores in the File-Cache\<close>

definition updated :: "fat_inode \<Rightarrow> u32 \<Rightarrow> (fat_cache_desc \<Rightarrow> fat_cache_desc) \<Rightarrow> fat_inode" where
  "updated i c f = i\<lparr>inode_cache := cache_update (inode_levels i) c f (inode_cache i)\<rparr>"

lemma file_update_is: "file_update c f (i, s) = Some (Inr (Some (), (updated i c f, s)))"
  by (simp add: file_update_def updated_def fret_def)

lemma updated_sel [simp]:
  "inode_levels (updated i c f) = inode_levels i" "inode_cluster (updated i c f) = inode_cluster i"
  "inode_size (updated i c f) = inode_size i" "inode_is_dir (updated i c f) = inode_is_dir i"
  "inode_parent (updated i c f) = inode_parent i"
  by (simp_all add: updated_def)

lemma updated_wf: "inode_wf i \<Longrightarrow> inode_wf (updated i c f)"
  by (simp add: inode_wf_def updated_def cache_update_spec(2))

lemma updated_at:
  assumes "unat c < 64 ^ inode_levels i"
  shows "inode_at (updated i c f) = (inode_at i)(unat c := map_option f (inode_at i (unat c)))"
proof -
  have k: "cache_key (inode_levels i) c = unat c" using assms by (simp add: cache_key_def)
  show ?thesis
    using assms by (auto simp: inode_at_def updated_def cache_update_spec(1) k fun_eq_iff)
qed

text \<open>A store in the buffer of a cluster that is in the File-Cache, and marks it dirty.\<close>

definition dirties :: "(fat_cache_desc \<Rightarrow> fat_cache_desc) \<Rightarrow> bool" where
  "dirties f \<longleftrightarrow> (\<forall>p. desc_lba (f p) = desc_lba p \<and> (desc_dirty p \<longrightarrow> desc_dirty (f p)) \<and>
     (desc_dirty (f p) \<or> desc_buffer (f p) = desc_buffer p))"

lemma updated_inv:
  assumes "file_inv i cs s" "unat c < 64 ^ inode_levels i" "inode_at i (unat c) = Some p"
    and "desc_lba (f p) = desc_lba p" "desc_dirty (f p)"
  shows "file_inv (updated i c f) cs s"
  using assms updated_wf [of i c f] by (auto simp: file_inv_def updated_at split: if_splits)

section \<open>The automaton\<close>

text \<open>The parent has the descriptor \<open>p\<close> for its first cluster.\<close>

definition first_desc :: "fat_inode \<Rightarrow> fat_cache_desc \<Rightarrow> bool" where
  "first_desc i p \<longleftrightarrow> inode_wf i \<and> inode_at i 0 = Some p"

lemma first_desc_updated: "first_desc i p \<Longrightarrow> first_desc (updated i 0 f) (f p)"
  by (simp add: first_desc_def updated_wf updated_at [of 0])

lemma with_inode_update:
  assumes "p \<noteq> 0"
  shows "with_inode p (file_update c f) S
    = Some (Inr (Some (), S\<lparr>fs_inodes := (fs_inodes S)(p := updated (fs_inodes S p) c f)\<rparr>))"
  using assms by (simp add: with_inode_def file_update_is)

definition set_dentry :: "u32 \<Rightarrow> fat_inode \<Rightarrow> fat_inode" where
  "set_dentry d i = i\<lparr>inode_dentry := ucast (drop_bit 5 d)\<rparr>"

definition write_steps_desc :: "nat \<Rightarrow> nat \<Rightarrow> fat_inode \<Rightarrow> u32 \<Rightarrow> fat_cache_desc \<Rightarrow> fat_cache_desc" where
  "write_steps_desc nb step a off p = p\<lparr>desc_buffer :=
    write_steps nb step (inode_name a) (inode_is_dir a) (inode_cluster a) (inode_size a) off (desc_buffer p)\<rparr>"

lemma write_steps_desc_Suc:
  "write_steps_desc nb step a (off + 32) (p\<lparr>desc_buffer := write_step nb (Suc step) (inode_name a) (inode_is_dir a)
      (inode_cluster a) (inode_size a) off (desc_buffer p)\<rparr>) = write_steps_desc nb (Suc step) a off p"
  by (simp add: write_steps_desc_def)

lemma add_steps_spec:
  assumes "child \<noteq> 0" "parent \<noteq> 0" "child \<noteq> parent" "unat off + 32 * step \<le> 4096" "first_desc (fs_inodes S parent) p"
  shows "\<exists>S' i. add_steps child parent a nb 0 step 0 off S = Some (Inr (Some (), S')) \<and>
    S' = S\<lparr>fs_inodes := (fs_inodes S)(parent := i,
      child := (if 2 \<le> step then set_dentry (off + word_of_nat (32 * (step - 2))) (fs_inodes S child)
                else fs_inodes S child))\<rparr> \<and>
    first_desc i (write_steps_desc nb step a off p) \<and>
    i = (fs_inodes S parent)\<lparr>inode_cache := inode_cache i\<rparr> \<and>
    (\<forall>k. k \<noteq> 0 \<longrightarrow> inode_at i k = inode_at (fs_inodes S parent) k)"
  using assms(4,5)
proof (induction step arbitrary: off S p)
  case 0
  have "S = S\<lparr>fs_inodes := (fs_inodes S)(parent := fs_inodes S parent, child := fs_inodes S child)\<rparr>" by simp
  moreover have "write_steps_desc nb 0 a off p = p" by (simp add: write_steps_desc_def)
  ultimately show ?case using 0 by (intro exI [of _ S] exI [of _ "fs_inodes S parent"]) (simp add: fret_def)
next
  case (Suc step)
  have lt: "\<not> 4096 \<le> off" and u: "unat (off + 32) = unat off + 32"
    using Suc.prems(1) by (simp_all add: word_le_nat_alt) (rule scan_next, simp add: word_less_nat_alt)
  let ?f = "\<lambda>pdesc. pdesc\<lparr>desc_buffer := write_step nb (Suc step) (inode_name a) (inode_is_dir a)
      (inode_cluster a) (inode_size a) off (desc_buffer pdesc)\<rparr>"
  let ?i = "updated (fs_inodes S parent) 0 ?f"
  let ?c = "if Suc step = 2 then set_dentry off (fs_inodes S child) else fs_inodes S child"
  let ?S = "S\<lparr>fs_inodes := (fs_inodes S)(parent := ?i, child := ?c)\<rparr>"
  have head: "add_steps child parent a nb 0 (Suc step) 0 off S = add_steps child parent a nb 0 step 0 (off + 32) ?S"
  proof (cases "Suc step = 2")
    case True
    then show ?thesis
      using lt assms(1-3) unfolding add_steps.simps
      by (simp add: fbind_def fret_def with_inode_update set_inode_def set_dentry_def fun_upd_twist)
  next
    case False
    then show ?thesis
      using lt assms(1-3) unfolding add_steps.simps
      by (simp add: fbind_def fret_def with_inode_update fun_upd_twist)
  qed
  have fd: "first_desc (fs_inodes ?S parent) (?f p)"
    using first_desc_updated [OF Suc.prems(2), of ?f] assms(3) by simp
  have bound: "unat (off + 32) + 32 * step \<le> 4096" using u Suc.prems(1) by simp
  from Suc.IH [OF bound fd] obtain S' i where ih:
    "add_steps child parent a nb 0 step 0 (off + 32) ?S = Some (Inr (Some (), S'))"
    "S' = ?S\<lparr>fs_inodes := (fs_inodes ?S)(parent := i,
      child := (if 2 \<le> step then set_dentry (off + 32 + word_of_nat (32 * (step - 2))) (fs_inodes ?S child)
                else fs_inodes ?S child))\<rparr>"
    "first_desc i (write_steps_desc nb step a (off + 32) (?f p))"
    "i = (fs_inodes ?S parent)\<lparr>inode_cache := inode_cache i\<rparr>"
    "\<forall>k. k \<noteq> 0 \<longrightarrow> inode_at i k = inode_at (fs_inodes ?S parent) k"
    by blast
  have at: "inode_at ?i k = inode_at (fs_inodes S parent) k" if "k \<noteq> 0" for k
    using that by (simp add: updated_at [of 0])
  have d: "write_steps_desc nb step a (off + 32) (?f p) = write_steps_desc nb (Suc step) a off p"
    by (rule write_steps_desc_Suc)
  have child: "(if 2 \<le> step then set_dentry (off + 32 + word_of_nat (32 * (step - 2))) (fs_inodes ?S child)
      else fs_inodes ?S child)
    = (if 2 \<le> Suc step then set_dentry (off + word_of_nat (32 * (Suc step - 2))) (fs_inodes S child) else fs_inodes S child)"
  proof (cases "2 \<le> step")
    case True
    then have "32 * (Suc step - 2) = 32 + 32 * (step - 2)" by simp
    then have "off + word_of_nat (32 * (Suc step - 2)) = off + 32 + word_of_nat (32 * (step - 2))"
      by (simp only: of_nat_add of_nat_numeral add.assoc)
    moreover have "2 \<le> Suc step" "Suc step \<noteq> 2" using True by simp_all
    ultimately show ?thesis using True by (simp only: if_True if_False fun_upd_apply simp_thms) simp
  next
    case False
    then show ?thesis by (cases "step = 0") auto
  qed
  show ?case
  proof (intro exI conjI)
    show "add_steps child parent a nb 0 (Suc step) 0 off S = Some (Inr (Some (), S'))" using head ih(1) by simp
    show "S' = S\<lparr>fs_inodes := (fs_inodes S)(parent := i,
      child := (if 2 \<le> Suc step then set_dentry (off + word_of_nat (32 * (Suc step - 2))) (fs_inodes S child)
                else fs_inodes S child))\<rparr>"
      unfolding child [symmetric] by (subst ih(2)) (simp add: fun_upd_twist)
    show "first_desc i (write_steps_desc nb (Suc step) a off p)" using ih(3) unfolding d .
    show "i = (fs_inodes S parent)\<lparr>inode_cache := inode_cache i\<rparr>"
      using ih(4) assms(3) by (simp add: updated_def)
    show "\<forall>k. k \<noteq> 0 \<longrightarrow> inode_at i k = inode_at (fs_inodes S parent) k"
      using ih(5) at assms(3) by simp
  qed
qed

section \<open>The end of the directory\<close>

lemma end_offset_same:
  assumes "same_below 4096 b b'" "32 dvd unat o'"
  shows "end_offset b' o' = end_offset b o'" "end_parts b' o' st = end_parts b o' st"
proof -
  have "end_offset b' o' = end_offset b o' \<and> end_parts b' o' st = end_parts b o' st"
    using assms
  proof (induction b o' st rule: end_parts.induct)
    case (1 b o' st)
    show ?case
    proof (cases "o' < 4096")
      case True
      note al = aligned_entry [OF 1(3) True]
      have "unat o' + 32 \<le> unat (4096 :: u32)" using al by simp
      note f = same_entry_fields [OF 1(2) this]
      show ?thesis
      proof (cases "entry_ord b o' = NO_MORE_ENTRY")
        case False
        note ih = 1(1) [OF conjI [OF True False] 1(2) conjunct2 [OF al]]
        have "end_offset b' o' = end_offset b' (o' + 32)" using False by (intro end_offset_step True) (simp add: f)
        then show ?thesis
          using ih end_offset_step [OF True False]
          by (simp only: end_parts.simps [of b o'] end_parts.simps [of b' o'] f True False if_True if_False simp_thms)
      qed (use True f in \<open>simp add: end_parts.simps [of b o'] end_parts.simps [of b' o'] end_offset.simps [of b o'] end_offset.simps [of b' o']\<close>)
    qed (simp add: end_parts.simps [of b o'] end_parts.simps [of b' o'] end_offset.simps [of b o'] end_offset.simps [of b' o'])
  qed
  then show "end_offset b' o' = end_offset b o'" "end_parts b' o' st = end_parts b o' st" by blast+
qed

lemma same_cluster_below: "same_cluster b b' \<longleftrightarrow> same_below 4096 b b'"
  by (auto simp: same_cluster_def same_below_def)

lemma dir_end_loop_spec:
  assumes inv: "file_inv i cs s" and cs: "cs \<noteq> []" and nf: "faultless s"
    and off: "end_offset (file_cluster i cs s 0) 0 < 4096"
  obtains i' s' pd where
    "dir_end_loop 0 (i, s) = Some (Inr (Some (0, end_offset (file_cluster i cs s 0) 0), (i', s')))"
    "file_inv i' cs s'" "fat_reads s s'" "first_desc i' pd" "desc_dirty pd"
    "same_below 4096 (file_cluster i cs s 0) (desc_buffer pd)"
    "\<And>k. k \<noteq> 0 \<Longrightarrow> same_cluster (file_cluster i' cs s' k) (file_cluster i cs s k)"
    "i' = i\<lparr>inode_cache := inode_cache i', inode_levels := inode_levels i'\<rparr>"
proof -
  have len: "unat (0 :: u32) < length cs" using cs by simp
  obtain r j s' where b: "file_cache_buffer 0 (i, s) = Some (Inr (r, (j, s')))" "file_inv j cs s'"
    "fat_reads s s'" "\<And>k. same_cluster (file_cluster j cs s' k) (file_cluster i cs s k)"
    "\<And>q. r = Some q \<Longrightarrow> inode_at j (unat (0 :: u32)) = Some q" "faultless s \<Longrightarrow> r \<noteq> None"
    "j = i\<lparr>inode_cache := inode_cache j, inode_levels := inode_levels j\<rparr>" "unat (0 :: u32) < 64 ^ inode_levels j"
    by (rule file_cache_buffer_spec [OF inv len], rule that)
  obtain p where r: "r = Some p" using b(6) nf by auto
  then have p: "inode_at j 0 = Some p" using b(5) by simp
  have same: "same_below 4096 (file_cluster i cs s 0) (desc_buffer p)"
    using b(4) [of 0] p by (simp add: file_cluster_def same_cluster_below [symmetric] same_cluster_sym)
  have off': "end_offset (desc_buffer p) 0 = end_offset (file_cluster i cs s 0) 0"
    by (rule end_offset_same [OF same]) simp
  let ?f = "\<lambda>pdesc. pdesc\<lparr>desc_dirty := True\<rparr>"
  let ?j = "updated j 0 ?f"
  have run: "dir_end_loop 0 (i, s) = Some (Inr (Some (0, end_offset (file_cluster i cs s 0) 0), (?j, s')))"
    using off by (subst dir_end_loop.simps) (simp add: fbind_def b(1) r off' Let_def file_update_is fret_def)
  have wf: "inode_wf j" using b(2) by (simp add: file_inv_def)
  have fd: "first_desc j p" using wf p by (simp add: first_desc_def)
  have other: "same_cluster (file_cluster ?j cs s' k) (file_cluster i cs s k)" if "k \<noteq> 0" for k
    using b(4) [of k] that by (simp add: file_cluster_def updated_at [of 0])
  show ?thesis
  proof (rule that [OF run _ b(3) first_desc_updated [OF fd]])
    show "file_inv ?j cs s'" by (rule updated_inv [OF b(2,8)]) (use p in auto)
    show "?j = i\<lparr>inode_cache := inode_cache ?j, inode_levels := inode_levels ?j\<rparr>"
    proof -
      obtain c l where "j = i\<lparr>inode_cache := c, inode_levels := l\<rparr>" using b(7) by blast
      then show ?thesis by (simp add: updated_def)
    qed
  qed (use same other in auto)
qed

section \<open>The directory after an addition\<close>

text \<open>The first cluster of the directory \<open>p\<close>.\<close>

definition dir_bytes :: "file_sys \<Rightarrow> u32 \<Rightarrow> u32 list \<Rightarrow> mem" where
  "dir_bytes S p cs = file_cluster (fs_inodes S p) cs (fs_fat S) 0"

lemma add_dir_entry_spec:
  assumes inv: "file_inv (fs_inodes S parent) cs (fs_fat S)" "cs \<noteq> []" "faultless (fs_fat S)"
    and ptr: "parent \<noteq> 0" "child \<noteq> 0" "child \<noteq> parent"
    and name: "check_name_length (inode_name (fs_inodes S child)) = Some (len, nb)"
      "entry_name_ok (inode_name (fs_inodes S child))"
    and dir: "dir_tidy (dir_bytes S parent cs)" "unat (end_offset (dir_bytes S parent cs) 0) + 32 * (nb + 2) \<le> 4096"
      "dir_scan (inode_name (fs_inodes S child)) (dir_bytes S parent cs) 0 no_lfn = Some Dir_end"
  obtains S' st where "add_dir_entry child parent S = Some (Inr (Some (), S'))"
    "dir_map (dir_bytes S' parent cs) = (dir_map (dir_bytes S parent cs))(inode_name (fs_inodes S child) \<mapsto>
      (inode_cluster (fs_inodes S child), inode_is_dir (fs_inodes S child), inode_size (fs_inodes S child)))"
    "dir_tidy (dir_bytes S' parent cs)" "file_inv (fs_inodes S' parent) cs (fs_fat S')" "fat_reads (fs_fat S) (fs_fat S')"
    "\<And>k. k \<noteq> 0 \<Longrightarrow> same_cluster (file_cluster (fs_inodes S' parent) cs (fs_fat S') k)
      (file_cluster (fs_inodes S parent) cs (fs_fat S) k)"
    "fs_inodes S' child = set_dentry (end_offset (dir_bytes S parent cs) 0 + word_of_nat (32 * nb)) (fs_inodes S child)"
    "\<And>q. q \<noteq> parent \<Longrightarrow> q \<noteq> child \<Longrightarrow> fs_inodes S' q = fs_inodes S q"
    "dir_scan (inode_name (fs_inodes S child)) (dir_bytes S' parent cs) 0 no_lfn
      = Some (Dir_found (end_offset (dir_bytes S parent cs) 0 + word_of_nat (32 * nb)) st)"
proof -
  let ?a = "fs_inodes S child" and ?b = "dir_bytes S parent cs"
  let ?off = "end_offset ?b 0"
  have off: "end_offset (file_cluster (fs_inodes S parent) cs (fs_fat S) 0) 0 < 4096"
    using dir(1) by (simp add: dir_tidy_def dir_bytes_def)
  obtain i s pd where e: "dir_end_loop 0 (fs_inodes S parent, fs_fat S) = Some (Inr (Some (0, ?off), (i, s)))"
    "file_inv i cs s" "fat_reads (fs_fat S) s" "first_desc i pd" "desc_dirty pd" "same_below 4096 ?b (desc_buffer pd)"
    "\<And>k. k \<noteq> 0 \<Longrightarrow> same_cluster (file_cluster i cs s k) (file_cluster (fs_inodes S parent) cs (fs_fat S) k)"
    by (rule dir_end_loop_spec [OF inv off, folded dir_bytes_def], rule that)
  let ?T = "S\<lparr>fs_inodes := (fs_inodes S)(parent := i), fs_fat := s\<rparr>"
  have fd: "first_desc (fs_inodes ?T parent) pd" using e(4) by simp
  obtain S' j where a: "add_steps child parent ?a nb 0 (nb + 2) 0 ?off ?T = Some (Inr (Some (), S'))"
    "S' = ?T\<lparr>fs_inodes := (fs_inodes ?T)(parent := j,
      child := (if 2 \<le> nb + 2 then set_dentry (?off + word_of_nat (32 * (nb + 2 - 2))) (fs_inodes ?T child)
                else fs_inodes ?T child))\<rparr>"
    "first_desc j (write_steps_desc nb (nb + 2) ?a ?off pd)"
    "j = (fs_inodes ?T parent)\<lparr>inode_cache := inode_cache j\<rparr>"
    "\<forall>k. k \<noteq> 0 \<longrightarrow> inode_at j k = inode_at (fs_inodes ?T parent) k"
    using add_steps_spec [OF ptr(2,1,3) dir(2) fd] by blast
  have run: "add_dir_entry child parent S = Some (Inr (Some (), S'))"
    using a(1) ptr e(1) name(1)
    by (simp add: add_dir_entry_def fbind_def get_inode_def fret_def with_inode_def)
  have S': "fs_inodes S' parent = j" "fs_fat S' = s" "fs_inodes S' child = set_dentry (?off + word_of_nat (32 * nb)) ?a"
    "\<And>q. q \<noteq> parent \<Longrightarrow> q \<noteq> child \<Longrightarrow> fs_inodes S' q = fs_inodes S q"
    using ptr(3) by (simp_all add: a(2))
  have bytes: "dir_bytes S' parent cs = write_steps nb (nb + 2) (inode_name ?a) (inode_is_dir ?a) (inode_cluster ?a)
      (inode_size ?a) ?off (desc_buffer pd)"
    using a(3) by (simp add: dir_bytes_def S' file_cluster_def first_desc_def write_steps_desc_def)
  let ?c = "desc_buffer pd"
  have c: "end_offset ?c 0 = ?off" "dir_tidy ?c" "dir_map ?c = dir_map ?b"
    "dir_scan (inode_name ?a) ?c 0 no_lfn = Some Dir_end"
    using end_offset_same [OF e(6), of 0] dir(1,3) dir_map_same [OF e(6)] dir_scan_same [OF e(6), of 0]
    by (simp_all add: dir_tidy_def)
  note m = add_entry_map [OF c(2) name _ c(4), unfolded c(1,3), OF dir(2) bytes]
  obtain st where found: "dir_scan (inode_name ?a) (dir_bytes S' parent cs) 0 no_lfn
      = Some (Dir_found (?off + word_of_nat (32 * nb)) st)" using m(4) by blast
  have at: "inode_at j = (inode_at i)(0 \<mapsto> write_steps_desc nb (nb + 2) ?a ?off pd)"
    using a(3,5) by (auto simp: first_desc_def fun_eq_iff)
  have ij: "j = i\<lparr>inode_cache := inode_cache j\<rparr>" using a(4) by simp
  have jc: "inode_cluster j = inode_cluster i" by (subst ij) simp
  have jw: "inode_wf j" using a(3) by (simp add: first_desc_def)
  have pd: "inode_at i 0 = Some pd" using e(4) by (simp add: first_desc_def)
  have d: "desc_lba (write_steps_desc nb (nb + 2) ?a ?off pd) = desc_lba pd"
    "desc_dirty (write_steps_desc nb (nb + 2) ?a ?off pd)"
    using e(5) by (simp_all add: write_steps_desc_def)
  have jinv: "file_inv j cs s"
    using e(2) jw pd d unfolding file_inv_def at jc by (auto split: if_splits)
  show ?thesis
  proof (rule that [OF run m(1,2)])
    show "file_inv (fs_inodes S' parent) cs (fs_fat S')" using jinv by (simp add: S')
    show "fat_reads (fs_fat S) (fs_fat S')" using e(3) by (simp add: S')
    show "same_cluster (file_cluster (fs_inodes S' parent) cs (fs_fat S') k) (file_cluster (fs_inodes S parent) cs (fs_fat S) k)"
      if "k \<noteq> 0" for k
      using e(7) [OF that] that by (simp add: S' file_cluster_def at)
  qed (use S' found in auto)
qed

section \<open>The search finds the new file\<close>

lemma dir_lookup_first:
  assumes inv: "file_inv i cs s" "cs \<noteq> []" "faultless s"
    and found: "dir_scan name (file_cluster i cs s 0) 0 no_lfn = Some (Dir_found q st)"
  obtains i' s' where "dir_lookup name 0 no_lfn (i, s) = Some (Inr (Some (Some (entry_cluster (file_cluster i cs s 0) q,
      ucast (drop_bit 5 q), entry_attr (file_cluster i cs s 0) q AND ATTR_DIRECTORY = ATTR_DIRECTORY,
      entry_size (file_cluster i cs s 0) q)), (i', s')))"
proof -
  let ?b = "file_cluster i cs s 0"
  have len: "unat (0 :: u32) < length cs" using inv(2) by simp
  obtain r j s' where b: "file_cache_buffer 0 (i, s) = Some (Inr (r, (j, s')))"
    "\<And>k. same_cluster (file_cluster j cs s' k) (file_cluster i cs s k)"
    "\<And>q. r = Some q \<Longrightarrow> inode_at j (unat (0 :: u32)) = Some q" "faultless s \<Longrightarrow> r \<noteq> None"
    by (rule file_cache_buffer_spec [OF inv(1) len], rule that)
  obtain p where r: "r = Some p" using b(4) inv(3) by auto
  then have p: "inode_at j 0 = Some p" using b(3) by simp
  have same: "same_below 4096 ?b (desc_buffer p)"
    using b(2) [of 0] p by (simp add: file_cluster_def same_cluster_below [symmetric] same_cluster_sym)
  have "dir_scan name (desc_buffer p) 0 no_lfn = Some (Dir_found q st)"
    using dir_scan_same [OF same, of 0] found by simp
  moreover have "unat q + 32 \<le> unat (4096 :: u32)" using dir_scan_found_in [OF found] by simp
  note same_entry_fields [OF same this]
  ultimately have "dir_lookup name 0 no_lfn (i, s) = Some (Inr (Some (Some (entry_cluster ?b q,
      ucast (drop_bit 5 q), entry_attr ?b q AND ATTR_DIRECTORY = ATTR_DIRECTORY, entry_size ?b q)), (j, s')))"
    by (subst dir_lookup.simps) (simp add: fbind_def b(1) r fret_def Let_def)
  then show ?thesis by (rule that)
qed

section \<open>Property\<close>

text \<open>An empty directory at \<open>0x1000\<close> and a new file at \<open>0x2000\<close>.\<close>

definition empty_dir_fs :: fat_desc where
  "empty_dir_fs = small_fs\<lparr>device := \<lparr>sectors = (\<lambda>l a. if l < 48 then 0xFF else 0),
    faults = (\<lambda>_. False), accesses = 0\<rparr>\<rparr>"

definition empty_dir :: file_sys where
  "empty_dir = one_file\<lparr>fs_fat := empty_dir_fs, fs_inodes := (\<lambda>p. if p = 0x2000 then empty_file
    else empty_file\<lparr>inode_cluster := 2, inode_is_dir := True\<rparr>)\<rparr>"

lemma empty_dir_inv: "file_inv (fs_inodes empty_dir 0x1000) [2] (fs_fat empty_dir)" "faultless (fs_fat empty_dir)"
proof -
  have inv: "fat_inv empty_dir_fs"
    using small_fs_inv by (simp add: fat_inv_def empty_dir_fs_def cache_addressed_def)
  have ev: "entry_valid 1 2" using small_fs_valid [of 2] by simp
  have "fat_table empty_dir_fs 2 = 0xFFFFFFFF"
    using ev by (simp add: fat_table_def fat_cluster_def empty_dir_fs_def entry_in_def load32_def device_block_def)
  then have "fat_chain (fat_table empty_dir_fs) 2 [2]" by (simp add: END_OF_CHAIN_CLUSTER_MIN_def)
  moreover have "inode_at (empty_file\<lparr>inode_cluster := 2, inode_is_dir := True\<rparr>) = inode_at empty_file"
    "inode_wf (empty_file\<lparr>inode_cluster := 2, inode_is_dir := True\<rparr>)"
    using empty_file_wf(1) by (simp_all add: fun_eq_iff inode_at_def inode_wf_def)
  ultimately show "file_inv (fs_inodes empty_dir 0x1000) [2] (fs_fat empty_dir)"
    using inv ev empty_file_wf(2) by (simp add: file_inv_def empty_dir_def empty_dir_fs_def)
  show "faultless (fs_fat empty_dir)" by (simp add: empty_dir_def empty_dir_fs_def faultless_def)
qed

lemma empty_dir_bytes: "same_below 4096 (dir_bytes empty_dir 0x1000 [2]) (\<lambda>_. 0)" "dir_bytes empty_dir 0x1000 [2] = (\<lambda>_. 0)"
proof -
  have "inode_at (fs_inodes empty_dir 0x1000) 0 = None"
    using empty_file_wf(2) [of 0] by (simp add: empty_dir_def inode_at_def split: if_splits)
  moreover have "\<not> 48 + x div 512 < (48 :: u32)" for x
  proof -
    have "unat x < 512 * 8388608" using unsigned_less [of x] by simp
    then have "unat x div 512 < 8388608" by (subst div_less_iff_less_mult) (simp_all add: mult.commute)
    then have "unat (x div 512) < 8388608" by (simp add: unat_div)
    then have "unat (48 + x div 512) = 48 + unat (x div 512)" by (subst unat_add_no_wrap) simp_all
    then show ?thesis by (simp add: word_less_nat_alt)
  qed
  ultimately show "dir_bytes empty_dir 0x1000 [2] = (\<lambda>_. 0)"
    by (simp add: dir_bytes_def file_cluster_def cluster_lba_def empty_dir_def empty_dir_fs_def device_block_def fun_eq_iff)
  then show "same_below 4096 (dir_bytes empty_dir 0x1000 [2]) (\<lambda>_. 0)" by (simp add: same_below_def)
qed

text \<open>C35: \<open>_add_dir_entry\<close> refines the insertion in the map from names to files that the entries of
  the directory stand for: with room in the cluster and a name of up to 31 characters that is not
  there yet, whatever the number of its LFN entries, the map gets the name with the cluster, the
  kind and the size of the new inode, every other name keeps its file, and the search that
  \<open>_get_child_from_parent\<close> makes in the directory then returns this file, with the index of the
  entry that is recorded in the inode.\<close>

theorem add_dir_entry_refines_insertion:
  assumes "file_inv (fs_inodes S parent) cs (fs_fat S)" "cs \<noteq> []" "faultless (fs_fat S)"
    and "parent \<noteq> 0" "child \<noteq> 0" "child \<noteq> parent"
    and "check_name_length (inode_name (fs_inodes S child)) = Some (len, nb)" "entry_name_ok (inode_name (fs_inodes S child))"
    and "dir_tidy (dir_bytes S parent cs)" "unat (end_offset (dir_bytes S parent cs) 0) + 32 * (nb + 2) \<le> 4096"
      "dir_scan (inode_name (fs_inodes S child)) (dir_bytes S parent cs) 0 no_lfn = Some Dir_end"
  shows "\<exists>S' T. add_dir_entry child parent S = Some (Inr (Some (), S')) \<and>
    dir_map (dir_bytes S' parent cs) = (dir_map (dir_bytes S parent cs))(inode_name (fs_inodes S child) \<mapsto>
      (inode_cluster (fs_inodes S child), inode_is_dir (fs_inodes S child), inode_size (fs_inodes S child))) \<and>
    dir_tidy (dir_bytes S' parent cs) \<and> file_inv (fs_inodes S' parent) cs (fs_fat S') \<and>
    with_inode parent (dir_lookup (inode_name (fs_inodes S child)) 0 no_lfn) S'
      = Some (Inr (Some (Some (inode_cluster (fs_inodes S child), inode_dentry (fs_inodes S' child),
          inode_is_dir (fs_inodes S child), inode_size (fs_inodes S child))), T))"
proof -
  let ?n = "inode_name (fs_inodes S child)"
  define q where "q = end_offset (dir_bytes S parent cs) 0 + word_of_nat (32 * nb)"
  obtain S' st where a: "add_dir_entry child parent S = Some (Inr (Some (), S'))"
    "dir_map (dir_bytes S' parent cs) = (dir_map (dir_bytes S parent cs))(?n \<mapsto>
      (inode_cluster (fs_inodes S child), inode_is_dir (fs_inodes S child), inode_size (fs_inodes S child)))"
    "dir_tidy (dir_bytes S' parent cs)" "file_inv (fs_inodes S' parent) cs (fs_fat S')" "fat_reads (fs_fat S) (fs_fat S')"
    "fs_inodes S' child = set_dentry q (fs_inodes S child)"
    "dir_scan ?n (dir_bytes S' parent cs) 0 no_lfn = Some (Dir_found q st)"
    by (rule add_dir_entry_spec [OF assms, folded q_def], rule that)
  have nf: "faultless (fs_fat S')" using assms(3) fat_reads_device(4) [OF a(5)] by simp
  obtain i s where l: "dir_lookup ?n 0 no_lfn (fs_inodes S' parent, fs_fat S')
    = Some (Inr (Some (Some (entry_cluster (dir_bytes S' parent cs) q, ucast (drop_bit 5 q),
      entry_attr (dir_bytes S' parent cs) q AND ATTR_DIRECTORY = ATTR_DIRECTORY, entry_size (dir_bytes S' parent cs) q)), (i, s)))"
    by (rule dir_lookup_first [OF a(4) assms(2) nf, folded dir_bytes_def, OF a(7)], rule that)
  have "dir_map (dir_bytes S' parent cs) ?n = Some (entry_cluster (dir_bytes S' parent cs) q,
      entry_attr (dir_bytes S' parent cs) q AND ATTR_DIRECTORY = ATTR_DIRECTORY, entry_size (dir_bytes S' parent cs) q)"
    by (simp add: dir_map_def a(7))
  then have f: "entry_cluster (dir_bytes S' parent cs) q = inode_cluster (fs_inodes S child)"
    "(entry_attr (dir_bytes S' parent cs) q AND ATTR_DIRECTORY = ATTR_DIRECTORY) = inode_is_dir (fs_inodes S child)"
    "entry_size (dir_bytes S' parent cs) q = inode_size (fs_inodes S child)"
    by (simp_all add: a(2))
  have "with_inode parent (dir_lookup ?n 0 no_lfn) S'
      = Some (Inr (Some (Some (inode_cluster (fs_inodes S child), inode_dentry (fs_inodes S' child),
          inode_is_dir (fs_inodes S child), inode_size (fs_inodes S child))),
          S'\<lparr>fs_inodes := (fs_inodes S')(parent := i), fs_fat := s\<rparr>))"
    using l assms(4) by (simp add: with_inode_def f a(6) set_dentry_def)
  then show ?thesis using a(1-4) by blast
qed

lemma add_dir_entry_refines_insertion_witness:
  "\<exists>S' T. add_dir_entry 0x2000 0x1000 empty_dir = Some (Inr (Some (), S')) \<and>
    dir_map (dir_bytes S' 0x1000 [2]) [102] = Some (END_OF_CHAIN_CLUSTER_MAX, False, 0) \<and>
    with_inode 0x1000 (dir_lookup [102] 0 no_lfn) S'
      = Some (Inr (Some (Some (END_OF_CHAIN_CLUSTER_MAX, inode_dentry (fs_inodes S' 0x2000), False, 0)), T))"
proof -
  have i: "fs_inodes empty_dir 0x2000 = empty_file" by (simp add: empty_dir_def)
  have f: "inode_name empty_file = [102]" "inode_cluster empty_file = END_OF_CHAIN_CLUSTER_MAX"
    "inode_is_dir empty_file = False" "inode_size empty_file = 0" by (simp_all add: empty_file_def)
  note e = scan_end [of "\<lambda>_. 0" 0, simplified]
  have d: "dir_tidy (dir_bytes empty_dir 0x1000 [2])" "end_offset (dir_bytes empty_dir 0x1000 [2]) 0 = 0"
    "dir_scan [102] (dir_bytes empty_dir 0x1000 [2]) 0 no_lfn = Some Dir_end"
    by (simp_all add: empty_dir_bytes(2) dir_tidy_def e no_lfn_def)
  have n: "check_name_length [102] = Some (1, 1)" "entry_name_ok [102]"
    by (simp_all add: check_name_length_def entry_name_ok_def NAME_MAX_SIZE_def entry_chars_def)
  show ?thesis
    using add_dir_entry_refines_insertion [OF empty_dir_inv(1) _ empty_dir_inv(2), of "0x2000" 1 1] n d
    by (auto simp: i f)
qed

end
