(* ===== verification/User_Stdlib.thy ===== *)
theory User_Stdlib
  imports Mem_Utils
begin

text \<open>
  The memory and string routines of the user library, \<open>giet_libs/stdlib.c\<close>: \<open>memcpy\<close>,
  \<open>memset\<close>, \<open>strlen\<close>, \<open>strcmp\<close>, \<open>strcpy\<close> and \<open>atoi\<close>. Unlike the routine of the
  kernel (theory \<open>Mem_Utils\<close>), this \<open>memcpy\<close> goes on with the pointers that the loop over the
  words has advanced, so it is equivalent to a copy byte by byte.
\<close>

section \<open>memcpy and memset\<close>

function user_memcpy_words :: "mem \<Rightarrow> u32 \<Rightarrow> u32 \<Rightarrow> u32 \<Rightarrow> mem \<times> u32 \<times> u32 \<times> u32" where
  "user_memcpy_words m dst src sz =
     (if sz > 3
      then user_memcpy_words (store32 m dst (load32 m src)) (dst + 4) (src + 4) (sz - 4)
      else (m, dst, src, sz))"
  by pat_completeness auto
termination
  by (relation "measure (\<lambda>(m, d, s, n). unat n)") (auto simp: unat_sub word_less_nat_alt word_le_nat_alt)

declare user_memcpy_words.simps [simp del]

definition user_memcpy :: "mem \<Rightarrow> u32 \<Rightarrow> u32 \<Rightarrow> u32 \<Rightarrow> mem" where
  "user_memcpy m dst src sz =
     (let (m, cdst, csrc, sz) = (if dst AND 3 = 0 \<and> src AND 3 = 0
                                 then user_memcpy_words m dst src sz else (m, dst, src, sz))
      in memcpy_bytes m cdst csrc sz)"

definition user_memset :: "mem \<Rightarrow> u32 \<Rightarrow> u32 \<Rightarrow> u32 \<Rightarrow> mem" where
  "user_memset m dst s sz = memset_bytes m dst (ucast s) sz"

text \<open>The loop over the words is the one of the kernel, with the pointers it returns.\<close>

lemma user_memcpy_words_eq:
  "user_memcpy_words m d s n = (case memcpy_words m d s n of
     (m', n') \<Rightarrow> (m', d + (n - n'), s + (n - n'), n'))"
proof (induction m d s n rule: user_memcpy_words.induct)
  case (1 m d s n)
  then show ?case
    by (subst user_memcpy_words.simps, subst memcpy_words.simps) (auto split: prod.split)
qed

lemma user_memcpy_copies:
  assumes "buffers_apart d s (unat n)"
  shows "user_memcpy m d s n = mem_copy m d s (unat n)"
proof -
  note b = memcpy_bytes_copies [OF assms unat_u32_bound]
  note w = memcpy_words_copies [OF assms unat_u32_bound, of 0, simplified]
  let ?K = "4 * (unat n div 4)"
  show ?thesis
  proof (cases "d AND 3 = 0 \<and> s AND 3 = 0")
    case False
    then show ?thesis using b [of 0 n m] by (auto simp: user_memcpy_def)
  next
    case True
    have r: "unat (word_of_nat (unat n mod 4) :: u32) = unat n mod 4"
      by (rule unat_of_nat_small) (simp add: less_trans [OF mod_less_divisor])
    have sum: "?K + unat n mod 4 = unat n" by simp
    have "n - word_of_nat (unat n mod 4) = word_of_nat ?K"
      using arg_cong [OF sum, of "word_of_nat :: nat \<Rightarrow> u32"] by (simp only: of_nat_add diff_eq_eq) simp
    then have "user_memcpy m d s n = memcpy_bytes (mem_copy m d s ?K) (d + word_of_nat ?K) (s + word_of_nat ?K)
        (word_of_nat (unat n mod 4))"
      using True by (simp only: user_memcpy_def user_memcpy_words_eq w if_True simp_thms prod.case Let_def)
    also have "\<dots> = mem_copy m d s (?K + unat n mod 4)"
      using b [of ?K "word_of_nat (unat n mod 4)" m] by (simp only: r sum le_refl)
    finally show ?thesis by (simp only: sum)
  qed
qed

section \<open>Strings\<close>

partial_function (option) user_strlen_from :: "mem \<Rightarrow> u32 \<Rightarrow> u32 \<Rightarrow> u32 option" where
  "user_strlen_from m string i = (if m (string + i) \<noteq> 0 then user_strlen_from m string (i + 1) else Some i)"

definition user_strlen :: "mem \<Rightarrow> u32 \<Rightarrow> u32 option" where
  "user_strlen m string = user_strlen_from m string 0"

partial_function (option) user_strcmp :: "mem \<Rightarrow> u32 \<Rightarrow> u32 \<Rightarrow> u32 option" where
  "user_strcmp m s1 s2 =
     (if m s1 \<noteq> m s2 then Some 1
      else if m s1 = 0 then Some 0
      else user_strcmp m (s1 + 1) (s2 + 1))"

text \<open>The result is the memory and the returned pointer, the end of the copy.\<close>

partial_function (option) user_strcpy_loop :: "mem \<Rightarrow> u32 \<Rightarrow> u32 \<Rightarrow> (mem \<times> u32) option" where
  "user_strcpy_loop m dest source =
     (if m source \<noteq> 0
      then user_strcpy_loop (m(dest := m source)) (dest + 1) (source + 1)
      else Some (m(dest := 0), dest))"

definition user_strcpy :: "mem \<Rightarrow> u32 \<Rightarrow> u32 \<Rightarrow> (mem \<times> u32) option" where
  "user_strcpy m dest source =
     (if dest = 0 \<or> source = 0 then Some (m, dest) else user_strcpy_loop m dest source)"

text \<open>
  \<open>atoi\<close>: the characters are signed, and every character but a leading minus sign counts as a digit. An
  \<open>int\<close> operation whose result has more than 32 bits is undefined (\<open>None\<close>): \<open>res*10\<close>, the sum with the
  character, the difference with the character 0, the index and the product with the sign are all \<open>int\<close>.
\<close>

definition c_int :: "int \<Rightarrow> int option" where
  "c_int v = (if - (2 ^ 31) \<le> v \<and> v < 2 ^ 31 then Some v else None)"

partial_function (option) atoi_loop :: "mem \<Rightarrow> u32 \<Rightarrow> int \<Rightarrow> int \<Rightarrow> int option" where
  "atoi_loop m str i res =
     (let c = m (str + word_of_int i)
      in if c \<noteq> 0
         then Option.bind (c_int (res * 10)) (\<lambda>r. Option.bind (c_int (r + sint c)) (\<lambda>r. Option.bind (c_int (r - 48)) (\<lambda>res.
              Option.bind (c_int (i + 1)) (\<lambda>i. atoi_loop m str i res))))
         else Some res)"

definition atoi :: "mem \<Rightarrow> u32 \<Rightarrow> int option" where
  "atoi m str =
     (let (sign, i) = (if m str = 45 then (- 1, 1) else (1, 0))
      in Option.bind (atoi_loop m str i 0) (\<lambda>res. c_int (sign * res)))"

text \<open>
  On a string of decimal digits the result is the number they write, when this number and the code of the character 0
  together are an \<open>int\<close>; the last sum is undefined for a larger number, even when the number is an \<open>int\<close>.
\<close>

definition digits_value :: "nat list \<Rightarrow> nat" where
  "digits_value ds = foldl (\<lambda>n d. 10 * n + d) 0 ds"

lemma digit_char: "d < 10 \<Longrightarrow> sint (word_of_nat (d + 48) :: u8) = int d + 48"
proof -
  assume "d < 10"
  then have "d \<in> {0, 1, 2, 3, 4, 5, 6, 7, 8, 9}" by auto
  then show ?thesis by auto
qed

lemma digits_value_le: "n \<le> foldl (\<lambda>n d. 10 * n + d) n ds" for n :: nat
proof (induction ds arbitrary: n)
  case (Cons d ds)
  have "n \<le> 10 * n + d" by simp
  also have "\<dots> \<le> foldl (\<lambda>n d. 10 * n + d) (10 * n + d) ds" by (rule Cons.IH)
  finally show ?case by simp
qed simp

lemma atoi_loop_digits:
  assumes "cstr m (str + word_of_int i) (map (\<lambda>d. word_of_nat (d + 48)) ds)" "\<forall>d\<in>set ds. d < 10" "0 \<le> i" "i + int (length ds) < 2 ^ 31"
    and "n + 48 < 2 ^ 31"
  shows "atoi_loop m str i (int n) = (let v = foldl (\<lambda>n d. 10 * n + d) n ds in if v + 48 < 2 ^ 31 then Some (int v) else None)"
  using assms
proof (induction ds arbitrary: i n)
  case Nil
  then show ?case by (subst atoi_loop.simps) simp
next
  case (Cons d ds)
  from Cons.prems have c: "m (str + word_of_int i) = word_of_nat (d + 48)" "m (str + word_of_int i) \<noteq> 0" "d < 10"
    and tail: "cstr m (str + word_of_int (i + 1)) (map (\<lambda>d. word_of_nat (d + 48)) ds)"
    by (auto simp: add.assoc)
  have s: "sint (m (str + word_of_int i)) = int d + 48" unfolding c(1) by (rule digit_char [OF c(3)])
  have i1: "c_int (i + 1) = Some (i + 1)" using Cons.prems(3,4) by (simp add: c_int_def)
  let ?k = "10 * n + d"
  have le: "?k \<le> foldl (\<lambda>n d. 10 * n + d) ?k ds" by (rule digits_value_le)
  show ?case
  proof (cases "?k + 48 < 2 ^ 31")
    case True
    then have "c_int (int n * 10) = Some (int n * 10)" "c_int (int n * 10 + (int d + 48)) = Some (int n * 10 + (int d + 48))"
      "c_int (int n * 10 + (int d + 48) - 48) = Some (int ?k)"
      by (simp_all add: c_int_def)
    then have "atoi_loop m str i (int n) = atoi_loop m str (i + 1) (int ?k)"
      by (subst atoi_loop.simps) (simp add: c(2) s i1 del: of_nat_add of_nat_mult)
    then show ?thesis using Cons.IH [OF tail _ _ _ True] Cons.prems(2-4) by simp
  next
    case False
    then have "c_int (int n * 10) = None \<or> c_int (int n * 10 + (int d + 48)) = None"
      by (simp add: c_int_def)
    then have "atoi_loop m str i (int n) = None"
      by (subst atoi_loop.simps) (auto simp: c(2) s c_int_def)
    moreover have "\<not> foldl (\<lambda>n d. 10 * n + d) ?k ds + 48 < 2 ^ 31" using le False by linarith
    ultimately show ?thesis by (simp add: Let_def)
  qed
qed

lemma atoi_digits:
  assumes "cstr m str (map (\<lambda>d. word_of_nat (d + 48)) ds)" "\<forall>d\<in>set ds. d < 10" "length ds < 2 ^ 31"
  shows "atoi m str = (if digits_value ds + 48 < 2 ^ 31 then Some (int (digits_value ds)) else None)"
proof -
  have "m str \<noteq> 45"
  proof (cases ds)
    case (Cons d ds')
    then have "m str = word_of_nat (d + 48)" "d < 10" using assms by auto
    moreover from this have "d \<in> {0, 1, 2, 3, 4, 5, 6, 7, 8, 9}" by auto
    ultimately show ?thesis by auto
  qed (use assms in simp)
  then show ?thesis
    using atoi_loop_digits [of m str 0 ds 0] assms by (simp add: atoi_def digits_value_def c_int_def Let_def)
qed

lemma atoi_minus_digits:
  assumes "cstr m str (45 # map (\<lambda>d. word_of_nat (d + 48)) ds)" "\<forall>d\<in>set ds. d < 10" "length ds < 2 ^ 31 - 1"
  shows "atoi m str = (if digits_value ds + 48 < 2 ^ 31 then Some (- int (digits_value ds)) else None)"
proof -
  have "cstr m (str + word_of_int 1) (map (\<lambda>d. word_of_nat (d + 48)) ds)" "m str = 45" using assms by simp_all
  then show ?thesis
    using atoi_loop_digits [of m str 1 ds 0] assms by (simp add: atoi_def digits_value_def c_int_def Let_def)
qed

section \<open>Properties\<close>

text \<open>C40: \<open>memcpy\<close> of the user library, which copies word by word when both buffers are aligned
  and ends with the remaining bytes, is equivalent to the plain copy byte by byte for any size
  and alignment, when the buffers do not overlap; the result is the first \<open>n\<close> bytes of the source
  at the destination, and no other byte changes.\<close>

theorem user_memcpy_equiv_bytes:
  assumes "buffers_apart d s (unat n)"
  shows "user_memcpy m d s n = memcpy_bytes m d s n \<and>
    user_memcpy m d s n = (\<lambda>a. if unat (a - d) < unat n then m (s + (a - d)) else m a)"
  using memcpy_bytes_copies [OF assms unat_u32_bound, of 0 n m] user_memcpy_copies [OF assms]
  by (simp_all add: mem_copy_def)

theorem user_memcpy_equiv_bytes_witness:
  "\<forall>m. user_memcpy m 0x100 0x200 6 = memcpy_bytes m 0x100 0x200 6 \<and> user_memcpy m 0x100 0x200 6 0x105 = m 0x205"
proof
  fix m
  have "buffers_apart 0x100 0x200 (unat (6 :: u32))"
    by (rule buffers_apart_ranges) simp
  note e = user_memcpy_equiv_bytes [OF this, of m]
  have "user_memcpy m 0x100 0x200 6 0x105 = m 0x205"
    by (subst conjunct2 [OF e]) simp
  with e show "user_memcpy m 0x100 0x200 6 = memcpy_bytes m 0x100 0x200 6 \<and> user_memcpy m 0x100 0x200 6 0x105 = m 0x205"
    by (rule_tac conjI [OF conjunct1]) auto
qed

end
