(* ===== verification/Mapping_Info.thy ===== *)
theory Mapping_Info
  imports Prelude
begin

text \<open>
  The mapping descriptor of \<open>giet_xml/mapping_info.h\<close> that the boot loader puts in memory and
  that the kernel reads: the header with the sizes of the tables, and the tables of clusters,
  physical segments, virtual segments, virtual spaces, tasks, peripherals and interrupts. The packed tables that
  \<open>_get_cluster_base\<close>, \<open>_get_pseg_base\<close>, \<open>_get_vspace_base\<close>, \<open>_get_vseg_base\<close> and
  \<open>_get_task_base\<close> (\<open>giet_common/utils.c\<close>) locate are lists here; a read past the end of a
  table has no defined result and is \<open>None\<close>. Names are strings without their terminator; the
  fields that no modelled code reads are left out.
\<close>

definition fetch :: "'a list \<Rightarrow> nat \<Rightarrow> 'a option" where
  "fetch xs i = (if i < length xs then Some (xs ! i) else None)"

lemma fetch_eq_Some [simp]: "fetch xs i = Some x \<longleftrightarrow> i < length xs \<and> xs ! i = x"
  by (auto simp: fetch_def)

lemma fetch_in_set: "fetch xs i = Some x \<Longrightarrow> x \<in> set xs"
  by auto

datatype pseg_type = PSEG_TYPE_RAM | PSEG_TYPE_PERI

datatype vseg_type =
    VSEG_TYPE_ELF | VSEG_TYPE_BLOB | VSEG_TYPE_PTAB | VSEG_TYPE_PERI | VSEG_TYPE_BUFFER
  | VSEG_TYPE_SCHED | VSEG_TYPE_HEAP

record mapping_header =
  signature :: u32
  x_size :: nat
  y_size :: nat
  globals :: nat
  vspaces :: nat
  n_psegs :: nat
  n_vsegs :: nat
  n_tasks :: nat
  x_io :: nat
  y_io :: nat
  irq_per_proc :: nat

record mapping_cluster =
  cluster_x :: nat
  cluster_y :: nat
  procs :: nat
  cl_periphs :: nat
  cl_periph_offset :: nat
  cl_psegs :: nat
  cl_pseg_offset :: nat

record mapping_vspace =
  vspace_vsegs :: nat
  vspace_tasks :: nat
  vseg_offset :: nat
  task_offset :: nat
  start_vseg_id :: nat
  vspace_name :: string
  vspace_active :: bool

record mapping_vseg =
  vbase :: u32
  pbase :: u64
  vseg_length :: u32
  psegid :: nat
  vmode :: u32
  vtype :: vseg_type
  vmapped :: bool
  vident :: bool
  vlocal :: bool
  vbig :: bool
  vseg_name :: string
  vbinpath :: string

record mapping_pseg =
  pseg_base :: u64
  pseg_length :: u64
  ptype :: pseg_type
  clusterid :: nat

record mapping_task =
  task_clusterid :: nat
  proclocid :: nat
  trdid :: nat
  stack_vseg_id :: nat
  heap_vseg_id :: nat
  startid :: nat
  task_ltid :: nat

datatype irq_type = IRQ_TYPE_HWI | IRQ_TYPE_WTI | IRQ_TYPE_PTI

datatype periph_type =
    PERIPH_TYPE_CMA | PERIPH_TYPE_DMA | PERIPH_TYPE_FBF | PERIPH_TYPE_IOB | PERIPH_TYPE_IOC
  | PERIPH_TYPE_MMC | PERIPH_TYPE_MWR | PERIPH_TYPE_NIC | PERIPH_TYPE_ROM | PERIPH_TYPE_SIM
  | PERIPH_TYPE_TIM | PERIPH_TYPE_TTY | PERIPH_TYPE_XCU | PERIPH_TYPE_PIC | PERIPH_TYPE_DROM

record mapping_periph =
  periph_type_of :: periph_type
  periph_subtype :: u32
  periph_channels :: nat
  periph_arg0 :: nat
  periph_arg1 :: nat
  periph_arg2 :: nat
  periph_arg3 :: nat
  periph_irqs :: nat
  periph_irq_offset :: nat

record mapping_irq =
  irq_srctype :: irq_type
  irq_srcid :: nat
  irq_isr :: nat
  irq_channel :: nat

record mapping =
  hdr :: mapping_header
  clusters :: "mapping_cluster list"
  psegs :: "mapping_pseg list"
  vspace_table :: "mapping_vspace list"
  vsegs :: "mapping_vseg list"
  tasks :: "mapping_task list"
  periphs :: "mapping_periph list"
  irqs :: "mapping_irq list"

end
