(* ===== verification/Kernel_Malloc.thy ===== *)
theory Kernel_Malloc
  imports C_Memory Spin_Lock Buddy_Spec Mapping_Info Mem_Utils
begin

text \<open>
  The distributed kernel heap of \<open>giet_common/kernel_malloc.c\<close>: one heap descriptor per
  cluster, a buddy allocator whose free blocks of each size are chained through their first
  word, and the \<open>alloc[]\<close> array at the end of the heap segment with the size index of each
  allocated block. Descriptors are records, the heap segment lives in the byte memory, and
  each operation is the C function with its recursion, its error exits and its lock
  operations. Results are \<open>None\<close> where the C function has no defined result.
\<close>

section \<open>Descriptor and state\<close>

record kernel_heap =
  lock :: spin_lock
  heap_base :: u32
  heap_size :: u32
  alloc_base :: u32
  alloc_size :: u32
  free_list :: "u32 list"

text \<open>The constant \<open>MIN_BLOCK_SIZE\<close> of \<open>kernel_malloc.h\<close>, and the memory of the kernel.\<close>

definition MIN_BLOCK_SIZE :: u32 where
  "MIN_BLOCK_SIZE = 0x40"

record kheap_state =
  kernel_heap :: "nat \<Rightarrow> nat \<Rightarrow> kernel_heap"
  memory :: mem

type_synonym 'a kheap_outcome = "(panic \<times> kheap_state) + ('a \<times> kheap_state)"

definition get_size_index :: "u32 \<Rightarrow> nat" where
  "get_size_index sz =
     (if sz \<le> 0x1 then 0 else if sz \<le> 0x2 then 1 else if sz \<le> 0x4 then 2 else
      if sz \<le> 0x8 then 3 else if sz \<le> 0x10 then 4 else if sz \<le> 0x20 then 5 else
      if sz \<le> 0x40 then 6 else if sz \<le> 0x80 then 7 else if sz \<le> 0x100 then 8 else
      if sz \<le> 0x200 then 9 else if sz \<le> 0x400 then 10 else if sz \<le> 0x800 then 11 else
      if sz \<le> 0x1000 then 12 else if sz \<le> 0x2000 then 13 else if sz \<le> 0x4000 then 14 else
      if sz \<le> 0x8000 then 15 else if sz \<le> 0x10000 then 16 else if sz \<le> 0x20000 then 17 else
      if sz \<le> 0x40000 then 18 else if sz \<le> 0x80000 then 19 else if sz \<le> 0x100000 then 20 else
      if sz \<le> 0x200000 then 21 else if sz \<le> 0x400000 then 22 else if sz \<le> 0x800000 then 23 else
      if sz \<le> 0x1000000 then 24 else if sz \<le> 0x2000000 then 25 else if sz \<le> 0x4000000 then 26 else
      if sz \<le> 0x8000000 then 27 else if sz \<le> 0x10000000 then 28 else if sz \<le> 0x20000000 then 29 else
      if sz \<le> 0x40000000 then 30 else if sz \<le> 0x80000000 then 31 else 32)"

section \<open>Initialisation\<close>

text \<open>The scan of the global vsegs for the heap of cluster \<open>(x, y)\<close>; \<open>Some None\<close> is the return
  value 1 (no heap in the cluster).\<close>

fun heap_info_scan :: "mapping \<Rightarrow> nat \<Rightarrow> nat \<Rightarrow> nat \<Rightarrow> nat \<Rightarrow> (u32 \<times> u32) option option" where
  "heap_info_scan mp x y vseg_id 0 = Some None"
| "heap_info_scan mp x y vseg_id (Suc n) =
     Option.bind (fetch (vsegs mp) vseg_id) (\<lambda>vseg.
     Option.bind (fetch (psegs mp) (psegid vseg)) (\<lambda>pseg.
     Option.bind (fetch (clusters mp) (clusterid pseg)) (\<lambda>cluster.
       if vtype vseg = VSEG_TYPE_HEAP \<and> cluster_x cluster = x \<and> cluster_y cluster = y
       then Some (Some (vbase vseg, vseg_length vseg))
       else heap_info_scan mp x y (Suc vseg_id) n)))"

definition get_heap_info ::
    "nat \<Rightarrow> nat \<Rightarrow> mapping \<Rightarrow> nat \<Rightarrow> nat \<Rightarrow> (panic + (u32 \<times> u32) option) option" where
  "get_heap_info X_SIZE Y_SIZE mp x y =
     (if x \<ge> X_SIZE \<or> y \<ge> Y_SIZE then Some (Inl Illegal_coordinates)
      else map_option Inr (heap_info_scan mp x y 0 (globals (hdr mp))))"

text \<open>
  The loop that splits the heap into one free block per size. The C index is unsigned, so a
  decrement of 0 gives an index out of the \<open>free[]\<close> array.
\<close>

function heap_split_loop :: "mem \<Rightarrow> u32 list \<Rightarrow> u32 \<Rightarrow> nat \<Rightarrow> nat \<Rightarrow> (mem \<times> u32 list) option" where
  "heap_split_loop m fr base index alloc_index =
     (if index < alloc_index then Some (m, fr)
      else if 32 \<le> index \<or> index = 0 then None
      else heap_split_loop (store32 m base 0) (fr[index := base]) (base + push_bit index 1)
             (index - 1) alloc_index)"
  by pat_completeness auto
termination
  by (relation "measure (\<lambda>(m, fr, base, index, ai). index)") auto

text \<open>One iteration of \<open>_heap_init\<close>, for the heap segment found in the cluster.\<close>

definition heap_init_cluster ::
    "mem \<Rightarrow> kernel_heap \<Rightarrow> (u32 \<times> u32) option \<Rightarrow> (panic + mem \<times> kernel_heap) option" where
  "heap_init_cluster m h info =
     (case info of
        None \<Rightarrow> Some (Inr (m, h\<lparr>heap_base := 0, heap_size := 0\<rparr>))
      | Some (hbase, hsize) \<Rightarrow>
          let heap_index = get_size_index hsize in
          if 32 \<le> heap_index then None
          else if hsize \<noteq> push_bit heap_index 1 then Some (Inl Heap_not_power_of_two)
          else if hbase mod hsize \<noteq> 0 then Some (Inl Heap_not_aligned)
          else
            let asize = hsize div MIN_BLOCK_SIZE;
                asize = (if asize < MIN_BLOCK_SIZE then MIN_BLOCK_SIZE else asize);
                alloc_index = get_size_index asize;
                abase = hbase + hsize - asize;
                fr = replicate 32 0;
                m = memset m abase 0 asize
            in Option.bind (if heap_index = 0 then None
                 else heap_split_loop m fr hbase (heap_index - 1) alloc_index) (\<lambda>(m, fr).
                 Some (Inr (m, h\<lparr>heap_base := hbase, heap_size := hsize, alloc_size := asize,
                   alloc_base := abase, free_list := fr, lock := spin_lock_init (lock h)\<rparr>))))"

fun heap_init_loop ::
    "nat \<Rightarrow> nat \<Rightarrow> mapping \<Rightarrow> (nat \<times> nat) list \<Rightarrow> kheap_state \<Rightarrow> unit kheap_outcome option" where
  "heap_init_loop X_SIZE Y_SIZE mp [] s = Some (Inr ((), s))"
| "heap_init_loop X_SIZE Y_SIZE mp ((x, y) # cs) s =
     (case get_heap_info X_SIZE Y_SIZE mp x y of
        None \<Rightarrow> None
      | Some (Inl e) \<Rightarrow> Some (Inl (e, s))
      | Some (Inr info) \<Rightarrow>
          (case heap_init_cluster (memory s) (kernel_heap s x y) info of
             None \<Rightarrow> None
           | Some (Inl e) \<Rightarrow> Some (Inl (e, s))
           | Some (Inr (m, h)) \<Rightarrow>
               heap_init_loop X_SIZE Y_SIZE mp cs
                 (s\<lparr>memory := m, kernel_heap := (kernel_heap s)(x := (kernel_heap s x)(y := h))\<rparr>)))"

definition heap_init :: "nat \<Rightarrow> nat \<Rightarrow> mapping \<Rightarrow> kheap_state \<Rightarrow> unit kheap_outcome option" where
  "heap_init X_SIZE Y_SIZE mp s =
     heap_init_loop X_SIZE Y_SIZE mp (List.product [0..<X_SIZE] [0..<Y_SIZE]) s"

section \<open>Allocation\<close>

function split_block :: "kernel_heap \<Rightarrow> mem \<Rightarrow> u32 \<Rightarrow> nat \<Rightarrow> nat
    \<Rightarrow> (u32 \<times> kernel_heap \<times> mem) option" where
  "split_block h m vaddr searched_index requested_index =
     (if searched_index = 0 \<or> 32 < searched_index then None
      else
        let new = vaddr + push_bit (searched_index - 1) 1;
            m' = store32 m new (free_list h ! (searched_index - 1));
            h' = h\<lparr>free_list := (free_list h)[searched_index - 1 := new]\<rparr>
        in if searched_index = requested_index + 1 then Some (vaddr, h', m')
           else split_block h' m' vaddr (searched_index - 1) requested_index)"
  by pat_completeness auto
termination
  by (relation "measure (\<lambda>(h, m, v, j, k). j)") auto

function get_block :: "kernel_heap \<Rightarrow> mem \<Rightarrow> nat \<Rightarrow> nat
    \<Rightarrow> (u32 \<times> kernel_heap \<times> mem) option" where
  "get_block h m searched_index requested_index =
     (if 32 \<le> searched_index then None
      else if push_bit searched_index 1 > heap_size h then Some (0, h, m)
      else
        let vaddr = free_list h ! searched_index
        in if vaddr = 0 then get_block h m (searched_index + 1) requested_index
           else
             let next = load32 m vaddr;
                 h' = h\<lparr>free_list := (free_list h)[searched_index := next]\<rparr>
             in if searched_index = requested_index then Some (vaddr, h', m)
                else split_block h' m vaddr searched_index requested_index)"
  by pat_completeness auto
termination
  by (relation "measure (\<lambda>(h, m, j, k). 32 - j)") auto

declare heap_split_loop.simps [simp del] split_block.simps [simp del] get_block.simps [simp del]

text \<open>The update of one descriptor of the array \<open>kernel_heap[x][y]\<close> and of the memory.\<close>

definition put_heap :: "nat \<Rightarrow> nat \<Rightarrow> kernel_heap \<Rightarrow> mem \<Rightarrow> kheap_state \<Rightarrow> kheap_state" where
  "put_heap x y h m s =
     s\<lparr>kernel_heap := (kernel_heap s)(x := (kernel_heap s x)(y := h)), memory := m\<rparr>"

definition remote_malloc ::
    "nat \<Rightarrow> nat \<Rightarrow> u32 \<Rightarrow> nat \<Rightarrow> nat \<Rightarrow> kheap_state \<Rightarrow> u32 kheap_outcome option" where
  "remote_malloc X_SIZE Y_SIZE sz x y s =
     (if x \<ge> X_SIZE then Some (Inl (Illegal_coordinates, s))
      else if y \<ge> Y_SIZE then Some (Inl (Illegal_coordinates, s))
      else if heap_size (kernel_heap s x y) = 0 then Some (Inl (No_heap, s))
      else
        let sz = (if sz < MIN_BLOCK_SIZE then MIN_BLOCK_SIZE else sz);
            requested_index = get_size_index sz;
            h = kernel_heap s x y
        in Option.bind (spin_lock_acquire (lock h)) (\<lambda>lk.
           Option.bind (get_block (h\<lparr>lock := lk\<rparr>) (memory s) requested_index requested_index)
             (\<lambda>(base, h, m).
              let unlocked = h\<lparr>lock := spin_lock_release (lock h)\<rparr>
              in if base = 0 then Some (Inl (No_more_space, put_heap x y unlocked m s))
                 else
                   let offset = (base - heap_base h) div MIN_BLOCK_SIZE;
                       ptr = alloc_base h + offset
                   in if m ptr \<noteq> 0
                      then Some (Inl (Already_allocated, put_heap x y unlocked m s))
                      else Some (Inr (base,
                             put_heap x y unlocked (m(ptr := word_of_nat requested_index)) s)))))"

text \<open>The cluster of the calling processor, from its identifier.\<close>

definition kmalloc ::
    "nat \<Rightarrow> nat \<Rightarrow> nat \<Rightarrow> nat \<Rightarrow> u32 \<Rightarrow> u32 \<Rightarrow> kheap_state \<Rightarrow> u32 kheap_outcome option" where
  "kmalloc X_SIZE Y_SIZE Y_WIDTH P_WIDTH procid sz s =
     (let x = drop_bit (Y_WIDTH + P_WIDTH) procid;
          y = drop_bit P_WIDTH procid AND (push_bit Y_WIDTH 1 - 1)
      in remote_malloc X_SIZE Y_SIZE sz (unat x) (unat y) s)"

section \<open>Release\<close>

text \<open>
  The scan of \<open>free[size_index]\<close> for the companion: \<open>prev\<close> is \<open>None\<close> for the address of
  the list head in the descriptor, and the address of the previous block otherwise.
\<close>

partial_function (option) scan_free ::
    "mem \<Rightarrow> u32 \<Rightarrow> u32 \<Rightarrow> u32 option \<Rightarrow> (bool \<times> u32 \<times> u32 option) option" where
  "scan_free m companion_base iter prev =
     (if iter = 0 then Some (False, iter, prev)
      else if iter = companion_base then Some (True, iter, prev)
      else scan_free m companion_base (load32 m iter) (Some iter))"

function update_free_array :: "kernel_heap \<Rightarrow> mem \<Rightarrow> u32 \<Rightarrow> nat \<Rightarrow> (kernel_heap \<times> mem) option" where
  "update_free_array h m base size_index =
     (if 32 \<le> size_index then None
      else
        let sz = push_bit size_index 1;
            companion_base = (if base AND sz = 0 then base + sz else base - sz);
            merged_base = (if base AND sz = 0 then base else base - sz)
        in case scan_free m companion_base (free_list h ! size_index) None of
             None \<Rightarrow> None
           | Some (found, iter, prev) \<Rightarrow>
               if \<not> found
               then Some (h\<lparr>free_list := (free_list h)[size_index := base]\<rparr>,
                          store32 m base (free_list h ! size_index))
               else (case prev of
                       None \<Rightarrow> update_free_array
                         (h\<lparr>free_list := (free_list h)[size_index := load32 m iter]\<rparr>) m
                         merged_base (size_index + 1)
                     | Some p \<Rightarrow> update_free_array h (store32 m p (load32 m iter))
                         merged_base (size_index + 1)))"
  by pat_completeness auto
termination
  by (relation "measure (\<lambda>(h, m, base, k). 32 - k)") auto

declare update_free_array.simps [simp del]

text \<open>\<open>_sys_xy_from_ptr\<close>: the cluster coordinates are the top bits of the physical address
  that \<open>_v2p_translate\<close> gives (an argument here, modelled in \<open>Page_Table\<close>).\<close>

definition sys_xy_from_ptr :: "(u32 \<Rightarrow> panic + u64) \<Rightarrow> u32 \<Rightarrow> panic + nat \<times> nat" where
  "sys_xy_from_ptr v2p ptr =
     (case v2p ptr of
        Inl e \<Rightarrow> Inl e
      | Inr paddr \<Rightarrow> Inr (unat (drop_bit 36 paddr AND 0xF), unat (drop_bit 32 paddr AND 0xF)))"

definition kfree :: "(u32 \<Rightarrow> panic + u64) \<Rightarrow> u32 \<Rightarrow> kheap_state \<Rightarrow> unit kheap_outcome option" where
  "kfree v2p ptr s =
     (case sys_xy_from_ptr v2p ptr of
        Inl e \<Rightarrow> Some (Inl (e, s))
      | Inr (x, y) \<Rightarrow>
          let base = ptr; h = kernel_heap s x y in
          if base < heap_base h \<or> base \<ge> heap_base h + heap_size h
          then Some (Inl (Illegal_pointer, s))
          else
            Option.bind (spin_lock_acquire (lock h)) (\<lambda>lk.
              let h = h\<lparr>lock := lk\<rparr>; m = memory s;
                  index = (base - heap_base h) div MIN_BLOCK_SIZE;
                  pchar = alloc_base h + index;
                  size_index = unat (m pchar);
                  unlocked = h\<lparr>lock := spin_lock_release (lock h)\<rparr>
              in if size_index = 0
                 then Some (Inl (Not_allocated, put_heap x y unlocked m s))
                 else if 32 \<le> size_index then None
                 else if base mod push_bit size_index 1 \<noteq> 0
                 then Some (Inl (Block_not_aligned, put_heap x y unlocked m s))
                 else Option.bind (update_free_array h (m(pchar := 0)) base size_index)
                   (\<lambda>(h, m). Some (Inr ((),
                      put_heap x y (h\<lparr>lock := spin_lock_release (lock h)\<rparr>) m s)))))"

end
