(* ===== verification/Kernel_Malloc_Refine.thy ===== *)
theory Kernel_Malloc_Refine
  imports Kernel_Malloc
begin

text \<open>
  The kernel heap refines the abstract buddy allocator: \<open>heap_ok\<close> relates a descriptor and the
  memory to free lists and an allocation map that satisfy the buddy invariant, and every
  operation of \<open>Kernel_Malloc\<close> takes related states to related states. The lemmas also say
  which bytes an operation may write.
\<close>

section \<open>The relation\<close>

definition lists_rel :: "kernel_heap \<Rightarrow> mem \<Rightarrow> free_lists \<Rightarrow> bool" where
  "lists_rel h m fl \<longleftrightarrow> length (free_list h) = 32 \<and>
     (\<forall>i<32. llist (load32 m) (free_list h ! i) (map word_of_nat (fl i)))"

abbreviation heap_lo :: "kernel_heap \<Rightarrow> nat" where
  "heap_lo h \<equiv> unat (heap_base h)"

abbreviation heap_hi :: "kernel_heap \<Rightarrow> nat" where
  "heap_hi h \<equiv> unat (heap_base h) + unat (heap_size h)"

definition alloc_byte :: "nat \<Rightarrow> kernel_heap \<Rightarrow> nat \<Rightarrow> u32" where
  "alloc_byte kmin h a = alloc_base h + word_of_nat ((a - heap_lo h) div 2 ^ kmin)"

definition alloc_rel :: "nat \<Rightarrow> kernel_heap \<Rightarrow> mem \<Rightarrow> allocation \<Rightarrow> bool" where
  "alloc_rel kmin h m al \<longleftrightarrow>
     (\<forall>a. heap_lo h \<le> a \<longrightarrow> a < heap_hi h \<longrightarrow> 2 ^ kmin dvd a \<longrightarrow>
        m (alloc_byte kmin h a) = (case al a of None \<Rightarrow> 0 | Some k \<Rightarrow> word_of_nat k))"

definition heap_geom :: "nat \<Rightarrow> nat \<Rightarrow> kernel_heap \<Rightarrow> bool" where
  "heap_geom kmin ai h \<longleftrightarrow> 2 \<le> kmin \<and> 0 < heap_lo h \<and> heap_hi h < 2 ^ 32 \<and>
     unat (heap_size h) < 2 ^ 31 \<and> unat (heap_size h) \<le> 2 ^ (ai + kmin) \<and> 2 ^ kmin dvd heap_lo h"

definition heap_ok :: "nat \<Rightarrow> nat \<Rightarrow> kernel_heap \<Rightarrow> mem \<Rightarrow> free_lists \<Rightarrow> allocation \<Rightarrow> bool" where
  "heap_ok kmin ai h m fl al \<longleftrightarrow> heap_geom kmin ai h \<and> lists_rel h m fl \<and>
     alloc_rel kmin h m al \<and>
     buddy_inv kmin (heap_lo h) (heap_hi h) (unat (alloc_base h), ai) fl al"

definition free_area :: "free_lists \<Rightarrow> nat set" where
  "free_area fl = (\<Union>k. \<Union>a\<in>set (fl k). {a..<a + 2 ^ k})"

definition same_outside :: "nat set \<Rightarrow> mem \<Rightarrow> mem \<Rightarrow> bool" where
  "same_outside A m m' \<longleftrightarrow> (\<forall>x. unat x \<notin> A \<longrightarrow> m' x = m x)"

lemma same_outside_refl [simp]: "same_outside A m m"
  by (simp add: same_outside_def)

lemma same_outside_trans:
  "same_outside A m m' \<Longrightarrow> same_outside B m' m'' \<Longrightarrow> same_outside (A \<union> B) m m''"
  by (simp add: same_outside_def)

lemma same_outside_mono: "same_outside A m m' \<Longrightarrow> A \<subseteq> B \<Longrightarrow> same_outside B m m'"
  by (auto simp: same_outside_def)

section \<open>Blocks as addresses\<close>

lemma block_address:
  assumes "heap_geom kmin ai h" "2 ^ k dvd a" "kmin \<le> k" "heap_lo h \<le> a" "a + 2 ^ k \<le> heap_hi h"
  shows "unat (word_of_nat a :: u32) = a" "aligned4 (word_of_nat a)" "0 < a" "a + 4 \<le> a + 2 ^ k"
    "a < 4294967296" "k < 31"
proof -
  have k2: "2 \<le> k" using assms(1,3) by (simp add: heap_geom_def)
  then have "2 ^ 2 dvd (2::nat) ^ k" by (rule le_imp_power_dvd)
  then have "(4::nat) dvd a" using assms(2) dvd_trans by fastforce
  moreover show a: "a < 4294967296" and "0 < a"
    using assms(1,4,5) zero_less_power [of "2::nat" k] by (auto simp: heap_geom_def)
  moreover show u: "unat (word_of_nat a :: u32) = a" using a by (simp add: unat_of_nat_small)
  ultimately show "aligned4 (word_of_nat a)" by (simp add: aligned4_unat)
  have "(2::nat) ^ 2 \<le> 2 ^ k" using k2 by (rule power_increasing) simp
  then show "a + 4 \<le> a + 2 ^ k" by simp
  have "(2::nat) ^ k \<le> unat (heap_size h)" using assms(4,5) by linarith
  then have "(2::nat) ^ k < 2 ^ 31" using assms(1) unfolding heap_geom_def by linarith
  then show "k < 31" by (simp only: pow2_strict_mono)
qed

lemma store32_outside:
  assumes "4 dvd b" "b < 4294967296"
  shows "same_outside {b..<b + 4} m (store32 m (word_of_nat b) v)"
  unfolding same_outside_def
proof (intro allI impI)
  fix x :: u32 assume x: "unat x \<notin> {b..<b + 4}"
  have u: "unat (word_of_nat b + word_of_nat i :: u32) = b + i" if "i < 4" for i
    using assms that by (simp add: unat_aligned_add unat_of_nat_small)
  have ne: "x \<noteq> word_of_nat b + word_of_nat i" if "i < 4" for i
    using u [OF that] x that by auto
  show "store32 m (word_of_nat b) v x = m x"
    using ne [of 0] ne [of 1] ne [of 2] ne [of 3] by (simp add: store32_other)
qed

lemma word_list_member:
  assumes "b < 4294967296" "\<And>x. x \<in> set xs \<Longrightarrow> x < 4294967296"
  shows "word_of_nat b \<in> (word_of_nat :: nat \<Rightarrow> u32) ` set xs \<longleftrightarrow> b \<in> set xs"
proof
  assume "word_of_nat b \<in> (word_of_nat :: nat \<Rightarrow> u32) ` set xs"
  then obtain x where "x \<in> set xs" "(word_of_nat b :: u32) = word_of_nat x" by blast
  then show "b \<in> set xs"
    using word_of_nat_inj_small [of b x, where 'a=32] assms by simp
qed (rule imageI)

definition addresses_ok :: "free_lists \<Rightarrow> bool" where
  "addresses_ok fl \<longleftrightarrow> (\<forall>i. \<forall>x\<in>set (fl i). aligned4 (word_of_nat x) \<and> 0 < x \<and> x < 4294967296)"

lemma addresses_okD:
  assumes "addresses_ok fl" "x \<in> set (fl i)"
  shows "aligned4 (word_of_nat x)" "0 < x" "x < 4294967296" "(word_of_nat x :: u32) \<noteq> 0"
    "unat (word_of_nat x :: u32) = x"
proof -
  show *: "aligned4 (word_of_nat x)" "0 < x" "x < 4294967296"
    using assms unfolding addresses_ok_def by blast+
  then show u: "unat (word_of_nat x :: u32) = x" by (simp add: unat_of_nat_small)
  show "(word_of_nat x :: u32) \<noteq> 0" using u * by (metis less_irrefl unsigned_0)
qed

lemma heap_addresses_ok:
  assumes "heap_geom kmin ai h" "buddy_inv kmin (heap_lo h) (heap_hi h) r fl al"
  shows "addresses_ok fl"
  unfolding addresses_ok_def
proof (intro allI ballI)
  fix i x assume "x \<in> set (fl i)"
  then have "2 ^ i dvd x" "kmin \<le> i" "heap_lo h \<le> x" "x + 2 ^ i \<le> heap_hi h"
    using buddy_invD(2) [OF assms(2)] by simp_all
  note * = block_address [OF assms(1) this]
  show "aligned4 (word_of_nat x) \<and> 0 < x \<and> x < 4294967296"
    by (intro conjI * )
qed

lemma lists_rel_store:
  assumes "lists_rel h m fl" "addresses_ok fl" "aligned4 (word_of_nat b)" "b < 4294967296"
    "\<And>i. b \<notin> set (fl i)"
  shows "lists_rel h (store32 m (word_of_nat b) v) fl"
  unfolding lists_rel_def
proof (intro conjI allI impI)
  fix i :: nat assume "i < 32"
  moreover have "word_of_nat b \<notin> set (map word_of_nat (fl i) :: u32 list)"
    using assms(2,4,5) word_list_member [of b "fl i"] by (auto simp: addresses_ok_def)
  ultimately show "llist (load32 (store32 m (word_of_nat b) v)) (free_list h ! i)
      (map word_of_nat (fl i))"
    using assms(1,2,3) by (intro mips.llist_store_other) (auto simp: lists_rel_def addresses_ok_def)
qed (use assms(1) in \<open>simp add: lists_rel_def\<close>)

lemma lists_rel_push:
  assumes rel: "lists_rel h m fl" and ok: "addresses_ok fl"
    and b: "aligned4 (word_of_nat b)" "b < 4294967296" "0 < b" "\<And>i. b \<notin> set (fl i)" and j: "j < 32"
  shows "lists_rel (h\<lparr>free_list := (free_list h)[j := word_of_nat b]\<rparr>)
           (store32 m (word_of_nat b) (free_list h ! j)) (fl(j := b # fl j))"
proof -
  let ?m = "store32 m (word_of_nat b) (free_list h ! j)"
  have "lists_rel h ?m fl" by (rule lists_rel_store [OF rel ok b(1,2,4)])
  moreover have "llist (load32 ?m) (word_of_nat b) (map word_of_nat (b # fl j))"
  proof -
    have "(word_of_nat b :: u32) \<noteq> 0"
      using b(2,3) word_of_nat_inj_small [of b 0, where 'a=32] by auto
    moreover have "word_of_nat b \<notin> set (map word_of_nat (fl j) :: u32 list)"
      using ok b word_list_member [of b "fl j"] by (auto simp: addresses_ok_def)
    ultimately show ?thesis
      using mips.llist_push [of m "free_list h ! j" "map word_of_nat (fl j)" "word_of_nat b"]
        rel ok b j by (auto simp: lists_rel_def addresses_ok_def)
  qed
  ultimately show ?thesis by (simp add: lists_rel_def nth_list_update)
qed

lemma lists_rel_head:
  assumes "lists_rel h m fl" "addresses_ok fl" "j < 32"
  shows "free_list h ! j = 0 \<longleftrightarrow> fl j = []"
    and "fl j = a # as \<Longrightarrow> free_list h ! j = word_of_nat a
      \<and> lists_rel (h\<lparr>free_list := (free_list h)[j := load32 m (word_of_nat a)]\<rparr>) m (fl(j := as))"
proof -
  have l: "llist (load32 m) (free_list h ! j) (map word_of_nat (fl j))"
    using assms by (simp add: lists_rel_def)
  then show "free_list h ! j = 0 \<longleftrightarrow> fl j = []" by (cases "fl j") auto
  show "fl j = a # as \<Longrightarrow> free_list h ! j = word_of_nat a
      \<and> lists_rel (h\<lparr>free_list := (free_list h)[j := load32 m (word_of_nat a)]\<rparr>) m (fl(j := as))"
    using l assms by (auto simp: lists_rel_def nth_list_update)
qed

section \<open>Splitting\<close>

lemma same_outside_subset:
  "same_outside A m m' \<Longrightarrow> same_outside B m' m'' \<Longrightarrow> A \<subseteq> C \<Longrightarrow> B \<subseteq> C \<Longrightarrow> same_outside C m m''"
  unfolding same_outside_def by (metis subsetD)

lemma split_block_refines:
  assumes "heap_geom kmin ai h" "buddy_inv kmin (heap_lo h) (heap_hi h) r fl (al(a \<mapsto> j))"
    "lists_rel h m fl" "kmin \<le> k" "k < j"
  shows "\<exists>h' m'. split_block h m (word_of_nat a) j k = Some (word_of_nat a, h', m')
    \<and> lists_rel h' m' (asplit fl a j k) \<and> h' = h\<lparr>free_list := free_list h'\<rparr>
    \<and> same_outside {a..<a + 2 ^ j} m m'"
  using assms
proof (induction j arbitrary: h m fl)
  case (Suc j)
  let ?b = "a + 2 ^ j"
  let ?m = "store32 m (word_of_nat ?b) (free_list h ! j)"
  let ?h = "h\<lparr>free_list := (free_list h)[j := word_of_nat ?b]\<rparr>"
  let ?fl = "fl(j := ?b # fl j)"
  have kj: "kmin \<le> j" "k \<le> j" using Suc.prems by simp_all
  have al: "(al(a \<mapsto> Suc j)) a = Some (Suc j)" by simp
  note ab = buddy_invD(3) [OF Suc.prems(2) al]
  have sp: "2 ^ j + 2 ^ j = (2::nat) ^ Suc j" by simp
  have bb: "2 ^ j dvd ?b" "heap_lo h \<le> ?b" "?b + 2 ^ j \<le> heap_hi h"
    using ab dvd_trans [of "2 ^ j" "2 ^ Suc j" a] by simp_all
  note ba = block_address [OF Suc.prems(1) bb(1) kj(1) bb(2,3)]
  have inv: "buddy_inv kmin (heap_lo h) (heap_hi h) r ?fl (al(a \<mapsto> j))"
    using buddy_inv_split [OF Suc.prems(2) al kj(1)] by (simp only: fun_upd_upd)
  have notin: "?b \<notin> set (fl i)" for i
  proof
    assume "?b \<in> set (fl i)"
    with buddy_free_disjoint(1) [OF Suc.prems(2) this al] show False
      by (auto simp: disjoint_iff)
  qed
  have new: "word_of_nat a + push_bit j 1 = (word_of_nat ?b :: u32)"
    by (simp add: push_bit_one_u32)
  have rel: "lists_rel ?h ?m ?fl"
    using ba notin by (intro lists_rel_push [OF Suc.prems(3) heap_addresses_ok [OF Suc.prems(1,2)]]) auto
  have out: "same_outside {?b..<?b + 4} m ?m"
    using ba(1,2,5) by (intro store32_outside) (simp_all add: aligned4_unat)
  have step: "split_block h m (word_of_nat a) (Suc j) k
      = (if j = k then Some (word_of_nat a, ?h, ?m) else split_block ?h ?m (word_of_nat a) j k)"
    using ba(6) new by (subst split_block.simps) (simp add: Let_def)
  have small: "{?b..<?b + 4} \<subseteq> {a..<a + 2 ^ Suc j}" using ba(4) by auto
  show ?case
  proof (cases "j = k")
    case True
    have "asplit fl a (Suc j) k = ?fl" using True by (cases k) simp_all
    moreover have "same_outside {a..<a + 2 ^ Suc j} m ?m" using out small by (rule same_outside_mono)
    ultimately show ?thesis using True step rel by (simp del: fun_upd_apply)
  next
    case False
    have "\<exists>h' m'. split_block ?h ?m (word_of_nat a) j k = Some (word_of_nat a, h', m')
      \<and> lists_rel h' m' (asplit ?fl a j k) \<and> h' = ?h\<lparr>free_list := free_list h'\<rparr>
      \<and> same_outside {a..<a + 2 ^ j} ?m m'"
      by (rule Suc.IH [OF _ _ rel Suc.prems(4)]) (use Suc.prems(1) inv kj False in \<open>simp_all add: heap_geom_def del: fun_upd_apply\<close>)
    then obtain h' m' where *: "split_block ?h ?m (word_of_nat a) j k = Some (word_of_nat a, h', m')"
      "lists_rel h' m' (asplit ?fl a j k)" "h' = ?h\<lparr>free_list := free_list h'\<rparr>"
      "same_outside {a..<a + 2 ^ j} ?m m'" by blast
    have "h' = h\<lparr>free_list := free_list h'\<rparr>" using *(3) by simp
    moreover have "same_outside {a..<a + 2 ^ Suc j} m m'"
      by (rule same_outside_subset [OF out *(4) small]) auto
    ultimately show ?thesis using *(1,2) step False kj by auto
  qed
qed simp

section \<open>Searching\<close>

lemma push_bit_gt_size:
  assumes "k < 32"
  shows "(x :: u32) < 2 ^ k \<longleftrightarrow> unat x < 2 ^ k"
  using assms by (simp add: word_less_nat_alt unat_pow2_u32)

lemma get_block_none:
  assumes "heap_geom kmin ai h" "addresses_ok fl" "lists_rel h m fl" "j \<le> 31"
    "aget (unat (heap_size h)) fl j k = None"
  shows "get_block h m j k = Some (0, h, m)"
  using assms(4,5)
proof (induction "31 - j" arbitrary: j rule: less_induct)
  case less
  show ?case
  proof (cases "unat (heap_size h) < 2 ^ j")
    case True
    then show ?thesis using less.prems by (subst get_block.simps) (simp add: push_bit_gt_size)
  next
    case False
    have "(2::nat) ^ j < 2 ^ 31" using assms(1) False unfolding heap_geom_def by linarith
    then have j: "j < 31" by (simp only: pow2_strict_mono)
    have nil: "fl j = []" and next_none: "aget (unat (heap_size h)) fl (Suc j) k = None"
      using less.prems(2) False by (subst (asm) aget.simps; simp split: list.splits)+
    have "free_list h ! j = 0" using nil lists_rel_head(1) [OF assms(3,2)] j by simp
    moreover have "get_block h m (Suc j) k = Some (0, h, m)"
      using less.hyps [of "Suc j"] next_none j by simp
    ultimately show ?thesis
      using False j by (subst get_block.simps) (simp add: push_bit_gt_size Let_def)
  qed
qed

lemma get_block_some:
  assumes geom: "heap_geom kmin ai h" and inv: "buddy_inv kmin (heap_lo h) (heap_hi h) r fl al"
    and rel: "lists_rel h m fl" and k: "kmin \<le> k" "k \<le> j"
    and get: "aget (unat (heap_size h)) fl j k = Some (a, fl')"
  shows "\<exists>h' m'. get_block h m j k = Some (word_of_nat a, h', m') \<and> lists_rel h' m' fl'
    \<and> h' = h\<lparr>free_list := free_list h'\<rparr> \<and> same_outside (free_area fl) m m'"
  using get k(2)
proof (induction "31 - j" arbitrary: j rule: less_induct)
  case less
  have ok: "addresses_ok fl" by (rule heap_addresses_ok [OF geom inv])
  have ge: "\<not> unat (heap_size h) < 2 ^ j"
    using less.prems(1) by (auto simp: aget.simps [of _ _ j])
  have "(2::nat) ^ j < 2 ^ 31" using geom ge unfolding heap_geom_def by linarith
  then have j: "j < 31" by (simp only: pow2_strict_mono)
  show ?case
  proof (cases "fl j")
    case Nil
    have "free_list h ! j = 0" using Nil lists_rel_head(1) [OF rel ok] j by simp
    then have "get_block h m j k = get_block h m (Suc j) k"
      using ge j by (subst get_block.simps) (simp add: push_bit_gt_size Let_def)
    moreover have "aget (unat (heap_size h)) fl (Suc j) k = Some (a, fl')"
      using less.prems(1) Nil ge by (simp add: aget.simps [of _ _ j])
    ultimately show ?thesis using less.hyps [of "Suc j"] j less.prems(2) by simp
  next
    case (Cons b as)
    have ba: "b = a" and fl': "fl' = asplit (fl(j := as)) a j k"
      using less.prems(1) ge Cons by (auto simp: aget.simps [of _ _ j])
    let ?h = "h\<lparr>free_list := (free_list h)[j := load32 m (word_of_nat a)]\<rparr>"
    have head: "free_list h ! j = word_of_nat a" "lists_rel ?h m (fl(j := as))"
      using lists_rel_head(2) [OF rel ok, of j a as] j Cons ba by simp_all
    have a: "a \<in> set (fl j)" using Cons ba by simp
    have step: "get_block h m j k = (if j = k then Some (word_of_nat a, ?h, m)
        else split_block ?h m (word_of_nat a) j k)"
      using ge j head(1) addresses_okD(4) [OF ok a]
      by (subst get_block.simps) (simp add: push_bit_gt_size Let_def)
    have inv': "buddy_inv kmin (heap_lo h) (heap_hi h) r (fl(j := as)) (al(a \<mapsto> j))"
      by (rule buddy_inv_pop [OF inv]) (simp add: Cons ba)
    have area: "{a..<a + 2 ^ j} \<subseteq> free_area fl" using a by (force simp: free_area_def)
    show ?thesis
    proof (cases "j = k")
      case True
      have "fl' = fl(j := as)" using fl' True by (cases k) simp_all
      with True head step show ?thesis by simp
    next
      case False
      have "\<exists>h' m'. split_block ?h m (word_of_nat a) j k = Some (word_of_nat a, h', m')
        \<and> lists_rel h' m' (asplit (fl(j := as)) a j k) \<and> h' = ?h\<lparr>free_list := free_list h'\<rparr>
        \<and> same_outside {a..<a + 2 ^ j} m m'"
        by (rule split_block_refines [where ai=ai, OF _ _ head(2) k(1)])
          (use geom inv' False less.prems(2) in \<open>simp_all add: heap_geom_def del: fun_upd_apply\<close>)
      then obtain h' m' where *: "split_block ?h m (word_of_nat a) j k = Some (word_of_nat a, h', m')"
        "lists_rel h' m' (asplit (fl(j := as)) a j k)" "h' = ?h\<lparr>free_list := free_list h'\<rparr>"
        "same_outside {a..<a + 2 ^ j} m m'" by blast
      have "h' = h\<lparr>free_list := free_list h'\<rparr>" using *(3) by simp
      moreover have "same_outside (free_area fl) m m'"
        by (rule same_outside_mono [OF *(4) area])
      moreover have "get_block h m j k = Some (word_of_nat a, h', m')" using step False *(1) by simp
      ultimately show ?thesis using *(2) unfolding fl' by blast
    qed
  qed
qed

section \<open>Merging\<close>

lemma scan_free_absent:
  assumes "llist (load32 m) p (map word_of_nat xs)" "word_of_nat c \<notin> set (map word_of_nat xs :: u32 list)"
  shows "\<exists>q. scan_free m (word_of_nat c) p prev = Some (False, 0, q)"
  using assms
proof (induction xs arbitrary: p prev)
  case Nil
  then show ?case by (subst scan_free.simps) simp
next
  case (Cons x xs)
  then show ?case by (subst scan_free.simps) auto
qed

lemma scan_free_found:
  assumes "llist (load32 m) p (map word_of_nat (ys @ c # zs))"
    "word_of_nat c \<notin> set (map word_of_nat ys :: u32 list)"
  shows "scan_free m (word_of_nat c) p prev
    = Some (True, word_of_nat c, if ys = [] then prev else Some (word_of_nat (last ys)))"
  using assms
proof (induction ys arbitrary: p prev)
  case Nil
  then show ?case by (subst scan_free.simps) simp
next
  case (Cons y ys)
  then show ?case by (subst scan_free.simps) auto
qed

lemma lists_rel_unlink:
  assumes rel: "lists_rel h m fl" and ok: "addresses_ok fl" and j: "j < 32"
    and fl: "fl j = ys @ p # c # zs" and dist: "distinct (fl j)" and one: "\<And>i. p \<in> set (fl i) \<Longrightarrow> i = j"
  shows "lists_rel h (store32 m (word_of_nat p) (load32 m (word_of_nat c))) (fl(j := ys @ p # zs))"
  unfolding lists_rel_def
proof (intro conjI allI impI)
  let ?m = "store32 m (word_of_nat p) (load32 m (word_of_nat c))"
  fix i :: nat assume i: "i < 32"
  have l: "llist (load32 m) (free_list h ! i) (map word_of_nat (fl i))" using rel i by (simp add: lists_rel_def)
  have v: "\<And>x. x \<in> set (map word_of_nat (fl i)) \<Longrightarrow> aligned4 x"
    using addresses_okD(1) [OF ok] by auto
  have p: "p \<in> set (fl j)" by (simp add: fl)
  show "llist (load32 ?m) (free_list h ! i) (map word_of_nat ((fl(j := ys @ p # zs)) i))"
  proof (cases "i = j")
    case True
    have "inj_on (word_of_nat :: nat \<Rightarrow> u32) (set (fl j))"
      using addresses_okD(5) [OF ok] by (metis inj_onI)
    then have "distinct (map word_of_nat (fl j) :: u32 list)" using dist by (simp add: distinct_map)
    then show ?thesis
      using mips.llist_unlink [of m _ "map word_of_nat ys" "word_of_nat p" "word_of_nat c" "map word_of_nat zs"]
        l v True fl by (auto simp del: distinct_append)
  next
    case False
    then have "p \<notin> set (fl i)" using one by blast
    then have "word_of_nat p \<notin> set (map word_of_nat (fl i) :: u32 list)"
      using word_list_member [of p "fl i"] addresses_okD(3) [OF ok] p by auto
    then show ?thesis
      using mips.llist_store_other [OF l _ addresses_okD(1) [OF ok p] v] False by simp
  qed
qed (use rel in \<open>simp add: lists_rel_def\<close>)

lemma companion_word:
  assumes "heap_geom kmin ai h" "2 ^ k dvd a" "kmin \<le> k" "heap_lo h \<le> a" "a + 2 ^ k \<le> heap_hi h"
  shows "(if word_of_nat a AND push_bit k 1 = (0 :: u32) then word_of_nat a + push_bit k 1
      else word_of_nat a - push_bit k 1) = (word_of_nat (companion a k) :: u32)"
    "(if word_of_nat a AND push_bit k 1 = (0 :: u32) then word_of_nat a
      else word_of_nat a - push_bit k 1) = (word_of_nat (merged a k) :: u32)"
proof -
  note b = block_address [OF assms]
  have t: "word_of_nat a AND push_bit k 1 = (0 :: u32) \<longleftrightarrow> even (a div 2 ^ k)"
    using unat_and_pow2_zero [of k "word_of_nat a"] b(1,6) by (simp add: push_bit_one_u32)
  have "2 ^ k \<le> a" if "odd (a div 2 ^ k)"
    using that b(3) assms(2) dvd_imp_le by blast
  then have "word_of_nat a - push_bit k 1 = (word_of_nat (a - 2 ^ k) :: u32)" if "odd (a div 2 ^ k)"
    using that by (simp add: push_bit_one_u32 of_nat_diff)
  then show "(if word_of_nat a AND push_bit k 1 = (0 :: u32) then word_of_nat a + push_bit k 1
      else word_of_nat a - push_bit k 1) = (word_of_nat (companion a k) :: u32)"
    "(if word_of_nat a AND push_bit k 1 = (0 :: u32) then word_of_nat a
      else word_of_nat a - push_bit k 1) = (word_of_nat (merged a k) :: u32)"
    using t by (simp_all add: companion_def merged_def push_bit_one_u32)
qed

lemma merge_area:
  assumes "c \<in> set (fl k)" "m = a \<and> c = a + 2 ^ k \<or> a = m + 2 ^ k \<and> c = m"
  shows "free_area (fl(k := remove1 c (fl k))) \<union> {m..<m + 2 ^ Suc k} \<subseteq> free_area fl \<union> {a..<a + 2 ^ k}"
proof -
  have "free_area (fl(k := remove1 c (fl k))) \<subseteq> free_area fl"
    unfolding free_area_def using set_remove1_subset [of c "fl k"] by (force split: if_splits)
  moreover have "{c..<c + 2 ^ k} \<subseteq> free_area fl" using assms(1) by (force simp: free_area_def)
  moreover have "{m..<m + 2 ^ Suc k} \<subseteq> {c..<c + 2 ^ k} \<union> {a..<a + 2 ^ k}" using assms(2) by auto
  ultimately show ?thesis by blast
qed

lemma update_free_array_refines:
  assumes "heap_geom kmin ai h" "buddy_inv kmin (heap_lo h) (heap_hi h) r fl al"
    "lists_rel h m fl" "al a = Some k"
  shows "\<exists>h' m'. update_free_array h m (word_of_nat a) k = Some (h', m')
    \<and> lists_rel h' m' (aupdate fl a k) \<and> h' = h\<lparr>free_list := free_list h'\<rparr>
    \<and> same_outside (free_area fl \<union> {a..<a + 2 ^ k}) m m'"
  using assms
proof (induction fl a k arbitrary: h m al rule: aupdate.induct)
  case (1 fl a k)
  note geom = "1.prems"(1) and inv = "1.prems"(2) and rel = "1.prems"(3) and al = "1.prems"(4)
  let ?c = "companion a k" and ?mb = "merged a k"
  have ok: "addresses_ok fl" by (rule heap_addresses_ok [OF geom inv])
  have ab: "2 ^ k dvd a" "kmin \<le> k" "heap_lo h \<le> a" "a + 2 ^ k \<le> heap_hi h"
    using buddy_invD(3) [OF inv al] by simp_all
  note b = block_address [OF geom ab]
  note cw = companion_word [OF geom ab]
  have k: "k < 32" using b(6) by simp
  have l: "llist (load32 m) (free_list h ! k) (map word_of_nat (fl k))"
    using rel k by (simp add: lists_rel_def)
  have c32: "?c < 4294967296"
    using b(5) ab(4) geom unfolding companion_def heap_geom_def by auto
  have mem: "word_of_nat ?c \<in> set (map word_of_nat (fl k) :: u32 list) \<longleftrightarrow> ?c \<in> set (fl k)"
    using word_list_member [OF c32, of "fl k"] addresses_okD(3) [OF ok] by simp
  note unfold = update_free_array.simps [of h m "word_of_nat a" k, unfolded Let_def cw]
  show ?case
  proof (cases "?c \<in> set (fl k)")
    case False
    obtain q where q: "scan_free m (word_of_nat ?c) (free_list h ! k) None = Some (False, 0, q)"
      using scan_free_absent [OF l] mem False by blast
    let ?h = "h\<lparr>free_list := (free_list h)[k := word_of_nat a]\<rparr>"
    let ?m = "store32 m (word_of_nat a) (free_list h ! k)"
    have "update_free_array h m (word_of_nat a) k = Some (?h, ?m)"
      using unfold q k by simp
    moreover have "lists_rel ?h ?m (fl(k := a # fl k))"
      by (rule lists_rel_push [OF rel ok]) (use b k buddy_free_not_used [OF inv] al in fastforce)+
    moreover have "same_outside {a..<a + 4} m ?m"
      using b by (intro store32_outside) (simp_all add: aligned4_unat)
    then have "same_outside (free_area fl \<union> {a..<a + 2 ^ k}) m ?m"
      by (rule same_outside_mono) (use b(4) in auto)
    ultimately show ?thesis
      using False by (subst aupdate.simps) simp
  next
    case True
    let ?fl = "fl(k := remove1 ?c (fl k))"
    let ?al = "al(a := None, ?mb \<mapsto> Suc k)"
    obtain ys zs where split: "fl k = ys @ ?c # zs" "?c \<notin> set ys" using split_list_first [OF True] by blast
    have dist: "distinct (fl k)" by (rule buddy_invD(4) [OF inv])
    have rem: "remove1 ?c (fl k) = ys @ zs" by (rule remove1_split [OF dist split(1)])
    have "word_of_nat ?c \<notin> set (map word_of_nat ys :: u32 list)"
      using word_list_member [OF c32, of ys] split addresses_okD(3) [OF ok, of _ k] by auto
    then have scan: "scan_free m (word_of_nat ?c) (free_list h ! k) None
        = Some (True, word_of_nat ?c, if ys = [] then None else Some (word_of_nat (last ys)))"
      using scan_free_found [of m _ ys ?c zs None] l split(1) by simp
    have inv': "buddy_inv kmin (heap_lo h) (heap_hi h) r ?fl ?al"
      by (rule buddy_inv_merge(1) [OF inv al True])
    let ?h = "if ys = [] then h\<lparr>free_list := (free_list h)[k := load32 m (word_of_nat ?c)]\<rparr> else h"
    let ?m = "if ys = [] then m else store32 m (word_of_nat (last ys)) (load32 m (word_of_nat ?c))"
    have step: "update_free_array h m (word_of_nat a) k = update_free_array ?h ?m (word_of_nat ?mb) (Suc k)"
      using unfold scan k by simp
    have relout: "lists_rel ?h ?m ?fl \<and> same_outside (free_area fl) m ?m"
    proof (cases ys rule: rev_cases)
      case Nil
      then show ?thesis using lists_rel_head(2) [OF rel ok k, of ?c zs] split rem by simp
    next
      case (snoc ys' p)
      have p: "p \<in> set (fl k)" using split snoc by simp
      have "lists_rel h ?m (fl(k := ys' @ p # zs))"
        using lists_rel_unlink [OF rel ok k, of ys' p ?c zs] split snoc dist
          buddy_free_one_index [OF inv p] by auto
      moreover have "same_outside {p..<p + 4} m ?m"
        using addresses_okD [OF ok p] snoc by (auto intro!: store32_outside simp: aligned4_unat)
      moreover have "{p..<p + 4} \<subseteq> free_area fl"
        using p block_address(4) [OF geom, of k p] buddy_invD(2) [OF inv p]
        unfolding free_area_def by fastforce
      ultimately show ?thesis using rem snoc same_outside_mono by auto
    qed
    have "\<exists>h' m'. update_free_array ?h ?m (word_of_nat ?mb) (Suc k) = Some (h', m')
      \<and> lists_rel h' m' (aupdate ?fl ?mb (Suc k)) \<and> h' = ?h\<lparr>free_list := free_list h'\<rparr>
      \<and> same_outside (free_area ?fl \<union> {?mb..<?mb + 2 ^ Suc k}) ?m m'"
      by (rule "1.IH" [where al = ?al]) (use geom inv' relout True k in \<open>simp_all add: heap_geom_def del: fun_upd_apply add: fun_upd_same\<close>)
    then obtain h' m' where *: "update_free_array ?h ?m (word_of_nat ?mb) (Suc k) = Some (h', m')"
      "lists_rel h' m' (aupdate ?fl ?mb (Suc k))" "h' = ?h\<lparr>free_list := free_list h'\<rparr>"
      "same_outside (free_area ?fl \<union> {?mb..<?mb + 2 ^ Suc k}) ?m m'" by blast
    have "?mb = a \<and> ?c = a + 2 ^ k \<or> a = ?mb + 2 ^ k \<and> ?c = ?mb" using merged_pair [OF ab(1)] by blast
    note area = merge_area [of ?c fl k ?mb a, OF True this]
    have "same_outside (free_area fl \<union> {a..<a + 2 ^ k}) m m'"
      by (rule same_outside_subset [OF conjunct2 [OF relout] *(4) _ area]) blast
    moreover have "h' = h\<lparr>free_list := free_list h'\<rparr>" using *(3) by (cases "ys = []") simp_all
    moreover have "aupdate fl a k = aupdate ?fl ?mb (Suc k)"
      using True k by (subst aupdate.simps) simp
    ultimately show ?thesis using *(1,2) step by auto
  qed
qed

end
