(* ===== verification/Kernel_Malloc_Correct.thy ===== *)
theory Kernel_Malloc_Correct
  imports Kernel_Malloc_Refine
begin

text \<open>
  What the kernel heap promises its callers. The invariant \<open>kheap_inv\<close> covers the heaps of
  all clusters; the properties give the whole behaviour of \<open>remote_malloc\<close> and
  \<open>kfree\<close> on a state that satisfies it, error exits included, and what \<open>heap_init\<close>
  establishes.
\<close>

section \<open>Size indexes\<close>

lemma get_size_index_le:
  assumes "j \<le> 31"
  shows "get_size_index sz \<le> j \<longleftrightarrow> unat sz \<le> 2 ^ j"
proof -
  have "j \<in> {0, 1, 2, 3, 4, 5, 6, 7, 8, 9, 10, 11, 12, 13, 14, 15, 16, 17, 18, 19, 20, 21, 22, 23,
      24, 25, 26, 27, 28, 29, 30, 31}" using assms by (simp add: numeral_eq_Suc; arith)
  then show ?thesis
    by (elim insertE emptyE; simp add: get_size_index_def word_le_nat_alt)
qed

lemma get_size_index_max: "get_size_index sz \<le> 32"
  by (simp add: get_size_index_def)

lemma get_size_index_exact:
  assumes "unat sz = 2 ^ k" "k \<le> 31"
  shows "get_size_index sz = k"
proof (rule antisym)
  show "get_size_index sz \<le> k" using get_size_index_le assms by simp
  show "k \<le> get_size_index sz"
  proof (rule ccontr)
    assume "\<not> k \<le> get_size_index sz"
    then have "get_size_index sz \<le> k - 1" "k - 1 < k" by simp_all
    with get_size_index_le [of "k - 1" sz] assms have "(2::nat) ^ k \<le> 2 ^ (k - 1)" by simp
    then show False using \<open>k - 1 < k\<close> by simp
  qed
qed

section \<open>The allocation map\<close>

lemma reserved_bounds:
  "buddy_inv kmin lo hi (b, ai) fl al \<Longrightarrow> lo \<le> b \<and> b + 2 ^ ai \<le> hi"
  using tiling_bounds [OF buddy_invD(1), of kmin lo hi "(b, ai)" fl al Reserved b ai] by simp

lemma alloc_byte_unat:
  assumes "heap_geom kmin ai h" "buddy_inv kmin (heap_lo h) (heap_hi h) (unat (alloc_base h), ai) fl al"
    "heap_lo h \<le> a" "a < heap_hi h"
  shows "unat (alloc_byte kmin h a) = unat (alloc_base h) + (a - heap_lo h) div 2 ^ kmin"
    "(a - heap_lo h) div 2 ^ kmin < 2 ^ ai"
proof -
  have "a - heap_lo h < 2 ^ ai * 2 ^ kmin"
    using assms(1,3,4) unfolding heap_geom_def power_add by linarith
  then show i: "(a - heap_lo h) div 2 ^ kmin < 2 ^ ai" by (rule less_mult_imp_div_less)
  have "unat (alloc_base h) + 2 ^ ai < 2 ^ 32"
    using reserved_bounds [OF assms(2)] assms(1) unfolding heap_geom_def by linarith
  with i show "unat (alloc_byte kmin h a) = unat (alloc_base h) + (a - heap_lo h) div 2 ^ kmin"
    by (simp add: alloc_byte_def unat_add_no_wrap unat_of_nat_small)
qed

lemma alloc_byte_inj:
  assumes "heap_geom kmin ai h" "buddy_inv kmin (heap_lo h) (heap_hi h) (unat (alloc_base h), ai) fl al"
    "heap_lo h \<le> a" "a < heap_hi h" "2 ^ kmin dvd a" "heap_lo h \<le> b" "b < heap_hi h" "2 ^ kmin dvd b"
    "alloc_byte kmin h a = alloc_byte kmin h b"
  shows "a = b"
proof -
  have "(a - heap_lo h) div 2 ^ kmin = (b - heap_lo h) div 2 ^ kmin"
    using alloc_byte_unat(1) [OF assms(1,2)] assms(3,4,6,7,9) by (metis add_left_cancel)
  moreover have "2 ^ kmin dvd a - heap_lo h" "2 ^ kmin dvd b - heap_lo h"
    using assms(1,5,8) by (simp_all add: heap_geom_def dvd_diff_nat)
  ultimately have "a - heap_lo h = b - heap_lo h" by (metis dvd_div_mult_self)
  then show ?thesis using assms(3,6) by simp
qed

lemma alloc_rel_update:
  assumes "heap_geom kmin ai h" "buddy_inv kmin (heap_lo h) (heap_hi h) (unat (alloc_base h), ai) fl al'"
    "alloc_rel kmin h m al" "heap_lo h \<le> a" "a < heap_hi h" "2 ^ kmin dvd a"
    "v = (case e of None \<Rightarrow> 0 | Some k \<Rightarrow> word_of_nat k)"
  shows "alloc_rel kmin h (m(alloc_byte kmin h a := v)) (al(a := e))"
  unfolding alloc_rel_def
proof (intro allI impI)
  fix b assume b: "heap_lo h \<le> b" "b < heap_hi h" "2 ^ kmin dvd b"
  show "(m(alloc_byte kmin h a := v)) (alloc_byte kmin h b)
      = (case (al(a := e)) b of None \<Rightarrow> 0 | Some k \<Rightarrow> word_of_nat k)"
  proof (cases "b = a")
    case False
    then have "alloc_byte kmin h b \<noteq> alloc_byte kmin h a"
      using alloc_byte_inj [OF assms(1,2)] assms(4-6) b by blast
    then show ?thesis using assms(3) b False by (simp add: alloc_rel_def)
  qed (simp add: assms(7))
qed

lemma alloc_rel_outside:
  assumes "heap_geom kmin ai h" "buddy_inv kmin (heap_lo h) (heap_hi h) (unat (alloc_base h), ai) fl al'"
    "alloc_rel kmin h m al" "same_outside A m m'"
    "A \<inter> {unat (alloc_base h)..<unat (alloc_base h) + 2 ^ ai} = {}"
  shows "alloc_rel kmin h m' al"
  unfolding alloc_rel_def
proof (intro allI impI)
  fix a assume a: "heap_lo h \<le> a" "a < heap_hi h" "2 ^ kmin dvd a"
  have "unat (alloc_byte kmin h a) \<notin> A"
    using alloc_byte_unat [OF assms(1,2) a(1,2)] assms(5) by (auto simp: disjoint_iff)
  then show "m' (alloc_byte kmin h a) = (case al a of None \<Rightarrow> 0 | Some k \<Rightarrow> word_of_nat k)"
    using assms(3,4) a by (simp add: alloc_rel_def same_outside_def)
qed

lemma free_area_reserved:
  assumes "buddy_inv kmin lo hi (b, ai) fl al"
  shows "free_area fl \<inter> {b..<b + 2 ^ ai} = {}"
  using buddy_reserved_disjoint(2) [OF assms] unfolding free_area_def by blast

lemma free_area_bounds:
  "buddy_inv kmin lo hi r fl al \<Longrightarrow> free_area fl \<subseteq> {lo..<hi}"
  using buddy_invD(2) unfolding free_area_def by fastforce

lemma alloc_byte_of_pointer:
  assumes "unat D = 2 ^ kmin" "heap_base h \<le> p"
  shows "alloc_base h + (p - heap_base h) div D = alloc_byte kmin h (unat p)"
proof -
  have "unat ((p - heap_base h) div D) = (unat p - heap_lo h) div 2 ^ kmin"
    using assms by (simp add: unat_div unat_sub_no_wrap)
  from arg_cong [OF this, of "word_of_nat :: nat \<Rightarrow> u32"]
  have "(p - heap_base h) div D = word_of_nat ((unat p - heap_lo h) div 2 ^ kmin)"
    by simp
  then show ?thesis by (simp add: alloc_byte_def)
qed


lemma lists_rel_outside:
  assumes "heap_geom kmin ai h" "buddy_inv kmin (heap_lo h) (heap_hi h) r fl al"
    "lists_rel h m fl" "same_outside A m m'" "A \<inter> free_area fl = {}"
  shows "lists_rel h m' fl"
proof -
  have "load32 m' (word_of_nat x) = load32 m (word_of_nat x)" if x: "x \<in> set (fl i)" for x i
  proof -
    note b = buddy_invD(2) [OF assms(2) x]
    note ba = block_address [OF assms(1), of i x]
    have "m' (word_of_nat x + word_of_nat j) = m (word_of_nat x + word_of_nat j)" if j: "j < 4" for j
    proof -
      have "unat (word_of_nat x + word_of_nat j :: u32) = x + j"
        using unat_aligned_add [of "word_of_nat x" j] ba b j by (simp add: aligned4_unat)
      moreover have "x + j \<in> {x..<x + 2 ^ i}" using ba(4) b j by simp
      then have "x + j \<in> free_area fl" using x unfolding free_area_def by blast
      ultimately show ?thesis using assms(4,5) by (metis disjoint_iff same_outside_def)
    qed
    from this [of 0] this [of 1] this [of 2] this [of 3] show ?thesis
      by (intro load32_store32_bytes) simp_all
  qed
  then have "llist (load32 m') (free_list h ! i) (map word_of_nat (fl i))" if "i < 32" for i
    using assms(3) that llist_cong [of "load32 m" "free_list h ! i" "map word_of_nat (fl i)" "load32 m'"]
    by (auto simp: lists_rel_def)
  then show ?thesis using assms(3) by (simp add: lists_rel_def)
qed

lemma heap_ok_outside:
  assumes "heap_ok kmin ai h m fl al" "same_outside A m m'" "A \<inter> {heap_lo h..<heap_hi h} = {}"
  shows "heap_ok kmin ai h m' fl al"
proof -
  have i: "heap_geom kmin ai h" "buddy_inv kmin (heap_lo h) (heap_hi h) (unat (alloc_base h), ai) fl al"
    "lists_rel h m fl" "alloc_rel kmin h m al" using assms(1) by (simp_all add: heap_ok_def)
  have "lists_rel h m' fl"
    by (rule lists_rel_outside [OF i(1,2,3) assms(2)]) (use assms(3) free_area_bounds [OF i(2)] in blast)
  moreover have "alloc_rel kmin h m' al"
    by (rule alloc_rel_outside [OF i(1,2,4) assms(2)])
      (use assms(3) reserved_bounds [OF i(2)] in \<open>auto simp: disjoint_iff\<close>)
  ultimately show ?thesis using i by (simp add: heap_ok_def)
qed

lemma heap_ok_lock [simp]:
  "heap_ok kmin ai (h\<lparr>lock := l\<rparr>) m fl al = heap_ok kmin ai h m fl al"
  by (simp add: heap_ok_def heap_geom_def lists_rel_def alloc_rel_def alloc_byte_def)

section \<open>One heap\<close>

lemma alloc_write_outside: "same_outside {unat p} m (m(p := v))"
  by (auto simp: same_outside_def)

lemma get_block_malloc:
  assumes ok: "heap_ok kmin ai h m fl al" and k: "kmin \<le> k"
    and mal: "amalloc (unat (heap_size h)) fl al k = Some (a, fl', al')"
  obtains h' m' where "get_block h m k k = Some (word_of_nat a, h', m')"
    and "m' (alloc_byte kmin h a) = 0"
    and "heap_ok kmin ai h' (m'(alloc_byte kmin h a := word_of_nat k)) fl' al'"
    and "h' = h\<lparr>free_list := free_list h'\<rparr>" and "same_outside (free_area fl) m m'"
    and "heap_lo h \<le> a" "a < heap_hi h" "unat (word_of_nat a :: u32) = a" "0 < a"
proof -
  have i: "heap_geom kmin ai h" "buddy_inv kmin (heap_lo h) (heap_hi h) (unat (alloc_base h), ai) fl al"
    "lists_rel h m fl" "alloc_rel kmin h m al" using ok by (simp_all add: heap_ok_def)
  have get: "aget (unat (heap_size h)) fl k k = Some (a, fl')"
    using mal by (auto simp: amalloc_def)
  note inv' = buddy_inv_amalloc [OF i(2) k mal]
  have al': "al' a = Some k" by (simp add: inv'(3))
  note ab = buddy_invD(3) [OF inv'(1) al']
  note ba = block_address [OF i(1), of k a]
  have a: "heap_lo h \<le> a" "a < heap_hi h" "2 ^ kmin dvd a"
    using ab zero_less_power [of "2::nat" k] dvd_trans [OF le_imp_power_dvd [OF k, of 2], of a]
    by (simp_all add: less_le_trans [of a "a + 2 ^ k"])
  obtain h' m' where g: "get_block h m k k = Some (word_of_nat a, h', m')" "lists_rel h' m' fl'"
    "h' = h\<lparr>free_list := free_list h'\<rparr>" "same_outside (free_area fl) m m'"
    using get_block_some [OF i(1,2,3) k order_refl get] by blast
  let ?p = "alloc_byte kmin h a"
  have f: "heap_base h' = heap_base h" "heap_size h' = heap_size h" "alloc_base h' = alloc_base h"
    by (subst g(3); simp)+
  have geom': "heap_geom kmin ai h'" using i(1) by (simp add: heap_geom_def f)
  have eq: "alloc_rel kmin h' = alloc_rel kmin h"
    by (simp add: fun_eq_iff alloc_rel_def alloc_byte_def f)
  have arel: "alloc_rel kmin h m' al"
    by (rule alloc_rel_outside [OF i(1,2,4) g(4) free_area_reserved [OF i(2)]])
  then have zero: "m' ?p = 0" using a inv'(2) by (simp add: alloc_rel_def)
  have "alloc_rel kmin h (m'(?p := word_of_nat k)) al'"
    unfolding inv'(3) by (rule alloc_rel_update [OF i(1,2) arel a]) simp
  moreover have "lists_rel h' (m'(?p := word_of_nat k)) fl'"
  proof (rule lists_rel_outside [OF geom' _ g(2) alloc_write_outside])
    show "buddy_inv kmin (heap_lo h') (heap_hi h') (unat (alloc_base h), ai) fl' al'"
      using inv'(1) by (simp add: f)
    show "{unat ?p} \<inter> free_area fl' = {}"
      using free_area_reserved [OF inv'(1)] alloc_byte_unat [OF i(1,2) a(1,2)]
      by (auto simp: disjoint_iff)
  qed
  ultimately have "heap_ok kmin ai h' (m'(?p := word_of_nat k)) fl' al'"
    using geom' inv'(1) by (simp add: heap_ok_def f eq)
  with that g zero a ba ab k show thesis by blast
qed


lemma update_free_array_free:
  assumes ok: "heap_ok kmin ai h m fl al" and al: "al a = Some k"
  obtains h' m' where
    "update_free_array h (m(alloc_byte kmin h a := 0)) (word_of_nat a) k = Some (h', m')"
    and "heap_ok kmin ai h' m' (aupdate fl a k) (al(a := None))"
    and "h' = h\<lparr>free_list := free_list h'\<rparr>"
    and "same_outside (free_area fl \<union> {a..<a + 2 ^ k}) (m(alloc_byte kmin h a := 0)) m'"
proof -
  have i: "heap_geom kmin ai h" "buddy_inv kmin (heap_lo h) (heap_hi h) (unat (alloc_base h), ai) fl al"
    "lists_rel h m fl" "alloc_rel kmin h m al" using ok by (simp_all add: heap_ok_def)
  note ab = buddy_invD(3) [OF i(2) al]
  have a: "heap_lo h \<le> a" "a < heap_hi h" "2 ^ kmin dvd a"
    using ab zero_less_power [of "2::nat" k] dvd_trans [OF le_imp_power_dvd [of kmin k 2], of a]
    by (simp_all add: less_le_trans [of a "a + 2 ^ k"])
  let ?p = "alloc_byte kmin h a" and ?A = "free_area fl \<union> {a..<a + 2 ^ k}"
  let ?m = "m(?p := 0)"
  have rel: "lists_rel h ?m fl"
    by (rule lists_rel_outside [OF i(1,2,3) alloc_write_outside])
      (use free_area_reserved [OF i(2)] alloc_byte_unat [OF i(1,2) a(1,2)] in \<open>auto simp: disjoint_iff\<close>)
  obtain h' m' where u: "update_free_array h ?m (word_of_nat a) k = Some (h', m')"
    "lists_rel h' m' (aupdate fl a k)" "h' = h\<lparr>free_list := free_list h'\<rparr>" "same_outside ?A ?m m'"
    using update_free_array_refines [OF i(1,2) rel al] by blast
  have size: "heap_hi h - heap_lo h < 2 ^ 32" using i(1) by (simp add: heap_geom_def)
  note inv' = buddy_inv_aupdate [OF i(2) al size]
  have f: "heap_base h' = heap_base h" "heap_size h' = heap_size h" "alloc_base h' = alloc_base h"
    by (subst u(3); simp)+
  have geom': "heap_geom kmin ai h'" using i(1) by (simp add: heap_geom_def f)
  have eq: "alloc_rel kmin h' = alloc_rel kmin h"
    by (simp add: fun_eq_iff alloc_rel_def alloc_byte_def f)
  have "alloc_rel kmin h ?m (al(a := None))"
    by (rule alloc_rel_update [OF i(1,2,4) a]) simp
  then have "alloc_rel kmin h m' (al(a := None))"
    by (rule alloc_rel_outside [OF i(1,2) _ u(4)])
      (use free_area_reserved [OF i(2)] buddy_reserved_disjoint(1) [OF i(2) al] in blast)
  then have "heap_ok kmin ai h' m' (aupdate fl a k) (al(a := None))"
    using geom' inv' u(2) by (simp add: heap_ok_def f eq)
  with that u show thesis by blast
qed

section \<open>The heaps of all clusters\<close>

definition has_heap :: "nat \<Rightarrow> nat \<Rightarrow> kheap_state \<Rightarrow> nat \<Rightarrow> nat \<Rightarrow> bool" where
  "has_heap X Y s x y \<longleftrightarrow> x < X \<and> y < Y \<and> heap_size (kernel_heap s x y) \<noteq> 0"

definition heap_segment :: "kernel_heap \<Rightarrow> nat set" where
  "heap_segment h = {heap_lo h..<heap_hi h}"

definition alloc_area :: "kernel_heap \<Rightarrow> nat set" where
  "alloc_area h = {unat (alloc_base h)..<unat (alloc_base h) + 2 ^ get_size_index (alloc_size h)}"

text \<open>\<open>F x y\<close> and \<open>A x y\<close> are the free lists and the allocation map of cluster \<open>(x, y)\<close>;
  the unit of the \<open>alloc[]\<close> array is 64 bytes.\<close>

definition kheap_inv :: "nat \<Rightarrow> nat \<Rightarrow> kheap_state \<Rightarrow> (nat \<Rightarrow> nat \<Rightarrow> free_lists)
    \<Rightarrow> (nat \<Rightarrow> nat \<Rightarrow> allocation) \<Rightarrow> bool" where
  "kheap_inv X Y s F A \<longleftrightarrow>
     (\<forall>x y. has_heap X Y s x y \<longrightarrow>
        heap_ok 6 (get_size_index (alloc_size (kernel_heap s x y))) (kernel_heap s x y) (memory s)
          (F x y) (A x y) \<and> lock_idle (lock (kernel_heap s x y))) \<and>
     (\<forall>x y x' y'. has_heap X Y s x y \<longrightarrow> has_heap X Y s x' y' \<longrightarrow> (x, y) \<noteq> (x', y') \<longrightarrow>
        heap_segment (kernel_heap s x y) \<inter> heap_segment (kernel_heap s x' y') = {})"

definition upd2 :: "(nat \<Rightarrow> nat \<Rightarrow> 'a) \<Rightarrow> nat \<Rightarrow> nat \<Rightarrow> 'a \<Rightarrow> nat \<Rightarrow> nat \<Rightarrow> 'a" where
  "upd2 f x y v = f(x := (f x)(y := v))"

lemma upd2_apply [simp]: "upd2 f x y v x' y' = (if x' = x \<and> y' = y then v else f x' y')"
  by (simp add: upd2_def)

lemma kernel_heap_put [simp]:
  "kernel_heap (put_heap x y h m s) = upd2 (kernel_heap s) x y h" "memory (put_heap x y h m s) = m"
  by (simp_all add: put_heap_def upd2_def)

definition block_of :: "kernel_heap \<Rightarrow> u32 \<Rightarrow> nat" where
  "block_of h p = heap_lo h + (unat p - heap_lo h) div 64 * 64"

definition same_layout :: "kheap_state \<Rightarrow> kheap_state \<Rightarrow> bool" where
  "same_layout s s' \<longleftrightarrow> (\<forall>x y. heap_base (kernel_heap s' x y) = heap_base (kernel_heap s x y)
     \<and> heap_size (kernel_heap s' x y) = heap_size (kernel_heap s x y)
     \<and> alloc_base (kernel_heap s' x y) = alloc_base (kernel_heap s x y)
     \<and> alloc_size (kernel_heap s' x y) = alloc_size (kernel_heap s x y))"

lemma same_layout_put:
  "heap_base h = heap_base (kernel_heap s x y) \<Longrightarrow> heap_size h = heap_size (kernel_heap s x y) \<Longrightarrow>
   alloc_base h = alloc_base (kernel_heap s x y) \<Longrightarrow> alloc_size h = alloc_size (kernel_heap s x y) \<Longrightarrow>
   same_layout s (put_heap x y h m s)"
  by (simp add: same_layout_def)

lemma same_layoutD:
  assumes "same_layout s s'"
  shows "has_heap X Y s' x y = has_heap X Y s x y"
    "heap_segment (kernel_heap s' x y) = heap_segment (kernel_heap s x y)"
    "alloc_area (kernel_heap s' x y) = alloc_area (kernel_heap s x y)"
    "block_of (kernel_heap s' x y) p = block_of (kernel_heap s x y) p"
    "heap_size (kernel_heap s' x y) = heap_size (kernel_heap s x y)"
  using assms by (simp_all add: same_layout_def has_heap_def heap_segment_def alloc_area_def block_of_def)

lemma kheap_inv_put:
  assumes inv: "kheap_inv X Y s F A" and xy: "has_heap X Y s x y"
    and geom: "heap_base h = heap_base (kernel_heap s x y)" "heap_size h = heap_size (kernel_heap s x y)"
      "alloc_size h = alloc_size (kernel_heap s x y)"
    and ok: "heap_ok 6 (get_size_index (alloc_size h)) h m fl al" "lock_idle (lock h)"
    and out: "same_outside (heap_segment (kernel_heap s x y)) (memory s) m"
  shows "kheap_inv X Y (put_heap x y h m s) (upd2 F x y fl) (upd2 A x y al)"
proof -
  let ?s = "put_heap x y h m s"
  have has: "has_heap X Y ?s x' y' = has_heap X Y s x' y'" for x' y'
    using geom(2) by (simp add: has_heap_def)
  have seg: "heap_segment (kernel_heap ?s x' y') = heap_segment (kernel_heap s x' y')" for x' y'
    using geom(1,2) by (simp add: heap_segment_def)
  have "heap_ok 6 (get_size_index (alloc_size (kernel_heap ?s x' y'))) (kernel_heap ?s x' y') m
      (upd2 F x y fl x' y') (upd2 A x y al x' y') \<and> lock_idle (lock (kernel_heap ?s x' y'))"
    if h: "has_heap X Y s x' y'" for x' y'
  proof (cases "x' = x \<and> y' = y")
    case False
    have "heap_segment (kernel_heap s x y) \<inter> heap_segment (kernel_heap s x' y') = {}"
      using inv xy h False unfolding kheap_inv_def by blast
    moreover have "heap_ok 6 (get_size_index (alloc_size (kernel_heap s x' y'))) (kernel_heap s x' y')
        (memory s) (F x' y') (A x' y') \<and> lock_idle (lock (kernel_heap s x' y'))"
      using inv h unfolding kheap_inv_def by blast
    ultimately show ?thesis
      using heap_ok_outside [OF _ out] False by (auto simp: heap_segment_def)
  qed (use ok in simp)
  moreover have "heap_segment (kernel_heap s x1 y1) \<inter> heap_segment (kernel_heap s x2 y2) = {}"
    if "has_heap X Y s x1 y1" "has_heap X Y s x2 y2" "(x1, y1) \<noteq> (x2, y2)" for x1 y1 x2 y2
    using inv that unfolding kheap_inv_def by blast
  ultimately show ?thesis unfolding kheap_inv_def has seg by simp
qed


lemma upd2_same [simp]: "upd2 f x y (f x y) = f"
  by (simp add: upd2_def)

lemma upd2_upd2 [simp]: "upd2 (upd2 f x y v) x y w = upd2 f x y w"
  by (simp add: upd2_def)

lemma kheap_invD:
  assumes "kheap_inv X Y s F A" "has_heap X Y s x y"
  shows "heap_ok 6 (get_size_index (alloc_size (kernel_heap s x y))) (kernel_heap s x y) (memory s)
      (F x y) (A x y)" and "lock_idle (lock (kernel_heap s x y))"
  using assms unfolding kheap_inv_def by blast+

section \<open>Allocation\<close>

definition request_index :: "u32 \<Rightarrow> nat" where
  "request_index sz = get_size_index (if sz < MIN_BLOCK_SIZE then MIN_BLOCK_SIZE else sz)"

lemma request_index_bounds:
  "6 \<le> request_index sz" "unat sz \<le> 2 ^ 31 \<Longrightarrow> request_index sz \<le> 31"
  "unat sz \<le> 2 ^ 31 \<Longrightarrow> unat sz \<le> 2 ^ request_index sz"
proof -
  let ?sz = "if sz < MIN_BLOCK_SIZE then MIN_BLOCK_SIZE else sz"
  have ge: "64 \<le> unat ?sz" "unat sz \<le> unat ?sz"
    by (auto simp: MIN_BLOCK_SIZE_def word_less_nat_alt not_less)
  show "6 \<le> request_index sz"
    using get_size_index_le [of 5 ?sz] ge(1) unfolding request_index_def by simp
  show le: "request_index sz \<le> 31" if "unat sz \<le> 2 ^ 31"
    using get_size_index_le [of 31 ?sz] that unfolding request_index_def
    by (simp add: MIN_BLOCK_SIZE_def)
  show "unat sz \<le> 2 ^ request_index sz" if "unat sz \<le> 2 ^ 31"
    using get_size_index_le [of "request_index sz" ?sz] le [OF that] ge(2)
    unfolding request_index_def by simp
qed

lemma remote_malloc_refines:
  assumes inv: "kheap_inv X Y s F A" and xy: "has_heap X Y s x y" and sz: "unat sz \<le> 2 ^ 31"
  shows "case amalloc (unat (heap_size (kernel_heap s x y))) (F x y) (A x y) (request_index sz) of
      None \<Rightarrow> \<exists>s'. remote_malloc X Y sz x y s = Some (Inl (No_more_space, s'))
        \<and> kheap_inv X Y s' F A \<and> memory s' = memory s \<and> same_layout s s'
    | Some (a, fl, al) \<Rightarrow> \<exists>s'. remote_malloc X Y sz x y s = Some (Inr (word_of_nat a, s'))
        \<and> kheap_inv X Y s' (upd2 F x y fl) (upd2 A x y al)
        \<and> same_layout s s' \<and> same_outside (free_area (F x y) \<union> alloc_area (kernel_heap s x y)) (memory s) (memory s')"
proof -
  let ?h = "kernel_heap s x y" and ?k = "request_index sz"
  let ?ai = "get_size_index (alloc_size ?h)"
  note ok = kheap_invD(1) [OF inv xy]
  obtain lk where lk: "spin_lock_acquire (lock ?h) = Some lk" "lock_idle (spin_lock_release lk)"
    using spin.acquire_idleE [OF kheap_invD(2) [OF inv xy]] by blast
  let ?hl = "?h\<lparr>lock := lk\<rparr>"
  have okl: "heap_ok 6 ?ai ?hl (memory s) (F x y) (A x y)" using ok by simp
  have run: "remote_malloc X Y sz x y s = Option.bind (get_block ?hl (memory s) ?k ?k)
      (\<lambda>(base, h, m). let unlocked = h\<lparr>lock := spin_lock_release (lock h)\<rparr>
        in if base = 0 then Some (Inl (No_more_space, put_heap x y unlocked m s))
           else let ptr = alloc_base h + (base - heap_base h) div MIN_BLOCK_SIZE
             in if m ptr \<noteq> 0 then Some (Inl (Already_allocated, put_heap x y unlocked m s))
                else Some (Inr (base, put_heap x y unlocked (m(ptr := word_of_nat ?k)) s)))"
    using xy lk(1) unfolding remote_malloc_def request_index_def has_heap_def Let_def
    by (simp add: not_le)
  show ?thesis
  proof (cases "amalloc (unat (heap_size ?h)) (F x y) (A x y) ?k")
    case None
    have "get_block ?hl (memory s) ?k ?k = Some (0, ?hl, memory s)"
    proof (rule get_block_none)
      show "heap_geom 6 ?ai ?hl" "lists_rel ?hl (memory s) (F x y)"
        using okl by (simp_all add: heap_ok_def)
      show "addresses_ok (F x y)"
        by (rule heap_addresses_ok [of 6 ?ai ?hl "(unat (alloc_base ?hl), ?ai)" _ "A x y"]) (use okl in \<open>simp_all add: heap_ok_def\<close>)
      show "?k \<le> 31" by (rule request_index_bounds(2) [OF sz])
      show "aget (unat (heap_size ?hl)) (F x y) ?k ?k = None" using None by (simp add: amalloc_def)
    qed
    then have "remote_malloc X Y sz x y s = Some (Inl (No_more_space,
        put_heap x y (?h\<lparr>lock := spin_lock_release lk\<rparr>) (memory s) s))"
      by (simp add: run)
    moreover have "kheap_inv X Y (put_heap x y (?h\<lparr>lock := spin_lock_release lk\<rparr>) (memory s) s)
        (upd2 F x y (F x y)) (upd2 A x y (A x y))"
      by (rule kheap_inv_put [OF inv xy]) (use ok lk in simp_all)
    moreover have "same_layout s (put_heap x y (?h\<lparr>lock := spin_lock_release lk\<rparr>) (memory s) s)"
      by (rule same_layout_put) simp_all
    ultimately show ?thesis using None by simp
  next
    case (Some r)
    then obtain a fl al where mal: "amalloc (unat (heap_size ?hl)) (F x y) (A x y) ?k = Some (a, fl, al)"
      by (cases r) auto
    let ?p = "alloc_byte 6 ?hl a"
    obtain h m where g: "get_block ?hl (memory s) ?k ?k = Some (word_of_nat a, h, m)"
      "m ?p = 0" "heap_ok 6 ?ai h (m(?p := word_of_nat ?k)) fl al"
      "h = ?hl\<lparr>free_list := free_list h\<rparr>" "same_outside (free_area (F x y)) (memory s) m"
      "heap_lo ?hl \<le> a" "a < heap_hi ?hl" "unat (word_of_nat a :: u32) = a" "0 < a"
      using get_block_malloc [OF okl request_index_bounds(1) mal] by blast
    have f: "heap_base h = heap_base ?h" "heap_size h = heap_size ?h" "alloc_base h = alloc_base ?h"
      "alloc_size h = alloc_size ?h" "lock h = lk"
      by (subst g(4); simp)+
    have nz: "(word_of_nat a :: u32) \<noteq> 0" using g(8,9) by (metis less_irrefl unsigned_0)
    have "alloc_base ?hl + (word_of_nat a - heap_base ?hl) div MIN_BLOCK_SIZE = ?p"
      using alloc_byte_of_pointer [of MIN_BLOCK_SIZE 6 ?hl "word_of_nat a"] g(6,8)
      by (simp add: MIN_BLOCK_SIZE_def word_le_nat_alt)
    then have p: "alloc_base ?h + (word_of_nat a - heap_base ?h) div MIN_BLOCK_SIZE = ?p"
      by simp
    let ?h' = "h\<lparr>lock := spin_lock_release lk\<rparr>" and ?m' = "m(?p := word_of_nat ?k)"
    have res: "remote_malloc X Y sz x y s = Some (Inr (word_of_nat a, put_heap x y ?h' ?m' s))"
      using g(1,2) nz by (simp add: run p f Let_def)
    have inv2: "buddy_inv 6 (heap_lo ?h) (heap_hi ?h) (unat (alloc_base ?h), ?ai) (F x y) (A x y)"
      and geom: "heap_geom 6 ?ai ?h"
      using ok by (simp_all add: heap_ok_def)
    have pin: "unat ?p \<in> alloc_area ?h"
      using alloc_byte_unat [OF geom inv2, of a] g(6,7) by (simp add: alloc_area_def alloc_byte_def)
    have out: "same_outside (free_area (F x y) \<union> alloc_area ?h) (memory s) ?m'"
      by (rule same_outside_subset [OF g(5) alloc_write_outside]) (use pin in auto)
    have "free_area (F x y) \<union> alloc_area ?h \<subseteq> heap_segment ?h"
      using free_area_bounds [OF inv2] reserved_bounds [OF inv2]
      unfolding alloc_area_def heap_segment_def by auto
    then have "kheap_inv X Y (put_heap x y ?h' ?m' s) (upd2 F x y fl) (upd2 A x y al)"
      by (intro kheap_inv_put [OF inv xy]) (use f g(3) lk(2) same_outside_mono [OF out] in simp_all)
    moreover have "same_layout s (put_heap x y ?h' ?m' s)"
      by (rule same_layout_put) (simp_all add: f)
    ultimately show ?thesis using res out Some mal by simp
  qed
qed


section \<open>Release\<close>

lemma kfree_refines:
  assumes inv: "kheap_inv X Y s F A" and xy: "has_heap X Y s x y"
    and ptr: "sys_xy_from_ptr v2p ptr = Inr (x, y)"
  shows "if unat ptr \<notin> heap_segment (kernel_heap s x y)
    then kfree v2p ptr s = Some (Inl (Illegal_pointer, s))
    else (case A x y (block_of (kernel_heap s x y) ptr) of
        None \<Rightarrow> \<exists>s'. kfree v2p ptr s = Some (Inl (Not_allocated, s'))
          \<and> kheap_inv X Y s' F A \<and> memory s' = memory s \<and> same_layout s s'
      | Some k \<Rightarrow>
          if \<not> 2 ^ k dvd unat ptr
          then \<exists>s'. kfree v2p ptr s = Some (Inl (Block_not_aligned, s'))
            \<and> kheap_inv X Y s' F A \<and> memory s' = memory s \<and> same_layout s s'
          else \<exists>s'. kfree v2p ptr s = Some (Inr ((), s'))
            \<and> kheap_inv X Y s' (upd2 F x y (aupdate (F x y) (unat ptr) k))
                (upd2 A x y ((A x y)(unat ptr := None)))
            \<and> same_layout s s'
            \<and> same_outside (free_area (F x y) \<union> alloc_area (kernel_heap s x y)
                \<union> {unat ptr..<unat ptr + 2 ^ k}) (memory s) (memory s'))"
proof -
  let ?h = "kernel_heap s x y" and ?a = "block_of (kernel_heap s x y) ptr"
  let ?ai = "get_size_index (alloc_size ?h)" and ?m = "memory s"
  note ok = kheap_invD(1) [OF inv xy]
  have i: "heap_geom 6 ?ai ?h" "alloc_rel 6 ?h ?m (A x y)"
    "buddy_inv 6 (heap_lo ?h) (heap_hi ?h) (unat (alloc_base ?h), ?ai) (F x y) (A x y)"
    using ok by (simp_all add: heap_ok_def)
  obtain lk where lk: "spin_lock_acquire (lock ?h) = Some lk" "lock_idle (spin_lock_release lk)"
    using spin.acquire_idleE [OF kheap_invD(2) [OF inv xy]] by blast
  have inside: "ptr < heap_base ?h \<or> ptr \<ge> heap_base ?h + heap_size ?h \<longleftrightarrow> unat ptr \<notin> heap_segment ?h"
    using i(1) unfolding heap_geom_def
    by (auto simp: heap_segment_def word_less_nat_alt word_le_nat_alt unat_add_no_wrap)
  show ?thesis
  proof (cases "unat ptr \<in> heap_segment ?h")
    case False
    then show ?thesis using ptr inside by (auto simp: kfree_def)
  next
    case True
    have seg: "heap_lo ?h \<le> unat ptr" "unat ptr < heap_hi ?h" using True by (simp_all add: heap_segment_def)
    have a: "heap_lo ?h \<le> ?a" "?a < heap_hi ?h" "?a \<le> unat ptr" "2 ^ 6 dvd ?a"
      "(?a - heap_lo ?h) div 64 = (unat ptr - heap_lo ?h) div 64"
      using seg i(1) unfolding block_of_def heap_geom_def by simp_all
    let ?p = "alloc_byte 6 ?h ?a"
    let ?hl = "?h\<lparr>lock := lk\<rparr>"
    have p: "alloc_base ?h + (ptr - heap_base ?h) div MIN_BLOCK_SIZE = ?p"
      using alloc_byte_of_pointer [of MIN_BLOCK_SIZE 6 ?h ptr] seg(1) a(5)
      by (simp add: MIN_BLOCK_SIZE_def word_le_nat_alt alloc_byte_def)
    have byte: "?m ?p = (case A x y ?a of None \<Rightarrow> 0 | Some k \<Rightarrow> word_of_nat k)"
      using i(2) a unfolding alloc_rel_def by blast
    let ?un = "\<lambda>h. h\<lparr>lock := spin_lock_release (lock h)\<rparr>"
    have run: "kfree v2p ptr s = (let size_index = unat (?m ?p) in
        if size_index = 0 then Some (Inl (Not_allocated, put_heap x y (?un ?hl) ?m s))
        else if 32 \<le> size_index then None
        else if ptr mod push_bit size_index 1 \<noteq> 0
        then Some (Inl (Block_not_aligned, put_heap x y (?un ?hl) ?m s))
        else Option.bind (update_free_array ?hl (?m(?p := 0)) ptr size_index)
          (\<lambda>(h, m). Some (Inr ((), put_heap x y (?un h) m s))))"
      using True inside ptr lk(1) p unfolding kfree_def Let_def by simp
    have keep: "kheap_inv X Y (put_heap x y (?un ?hl) ?m s) F A"
      using kheap_inv_put [OF inv xy, of "?un ?hl" ?m "F x y" "A x y"] ok lk by simp
    have layout: "same_layout s (put_heap x y (?un ?hl) ?m s)"
      by (rule same_layout_put) simp_all
    show ?thesis
    proof (cases "A x y ?a")
      case None
      then show ?thesis using True byte run keep layout by simp
    next
      case (Some k)
      note ab = buddy_invD(3) [OF i(3) Some]
      have ba: "k < 31" using block_address(6) [OF i(1), of k ?a] ab by simp
      have k: "unat (?m ?p) = k"
        using byte Some ba by (simp add: unat_of_nat_small)
      have al: "ptr mod push_bit k 1 = 0 \<longleftrightarrow> 2 ^ k dvd unat ptr"
        using ba by (simp add: push_bit_one_u32 unat_pow2_u32 unat_mod dvd_eq_mod_eq_0
            flip: unat_0_iff)
      show ?thesis
      proof (cases "2 ^ k dvd unat ptr")
        case False
        then show ?thesis using True Some run keep layout k al ba ab by (auto simp: Let_def)
      next
        case aligned: True
        have "(64::nat) dvd unat ptr"
          using dvd_trans [OF le_imp_power_dvd [of 6 k 2] aligned] ab by simp
        then have same: "?a = unat ptr"
          using i(1) seg unfolding block_of_def heap_geom_def by (simp add: dvd_diff_nat)
        have used: "A x y (unat ptr) = Some k" using Some same by simp
        have okl: "heap_ok 6 ?ai ?hl ?m (F x y) (A x y)" using ok by simp
        obtain h' m' where u:
          "update_free_array ?hl (?m(alloc_byte 6 ?hl (unat ptr) := 0)) (word_of_nat (unat ptr)) k = Some (h', m')"
          "heap_ok 6 ?ai h' m' (aupdate (F x y) (unat ptr) k) ((A x y)(unat ptr := None))"
          "h' = ?hl\<lparr>free_list := free_list h'\<rparr>"
          "same_outside (free_area (F x y) \<union> {unat ptr..<unat ptr + 2 ^ k})
            (?m(alloc_byte 6 ?hl (unat ptr) := 0)) m'"
          using update_free_array_free [OF okl used] by blast
        have pl: "alloc_byte 6 ?hl (unat ptr) = ?p" using same by (simp add: alloc_byte_def)
        have f: "heap_base h' = heap_base ?h" "heap_size h' = heap_size ?h"
          "alloc_size h' = alloc_size ?h" "lock h' = lk" "alloc_base h' = alloc_base ?h"
          by (subst u(3); simp)+
        let ?A = "free_area (F x y) \<union> alloc_area ?h \<union> {unat ptr..<unat ptr + 2 ^ k}"
        have pin: "unat ?p \<in> alloc_area ?h"
          using alloc_byte_unat [OF i(1,3) a(1,2)] by (simp add: alloc_area_def)
        have out: "same_outside ?A ?m m'"
          by (rule same_outside_subset [OF alloc_write_outside [of ?p ?m 0] u(4) [unfolded pl]])
            (use pin in auto)
        have "?A \<subseteq> heap_segment ?h"
          using free_area_bounds [OF i(3)] reserved_bounds [OF i(3)] ab same
          unfolding alloc_area_def heap_segment_def by auto
        then have "kheap_inv X Y (put_heap x y (?un h') m' s)
            (upd2 F x y (aupdate (F x y) (unat ptr) k)) (upd2 A x y ((A x y)(unat ptr := None)))"
          by (intro kheap_inv_put [OF inv xy]) (use f u(2) lk(2) same_outside_mono [OF out] in simp_all)
        moreover have "kfree v2p ptr s = Some (Inr ((), put_heap x y (?un h') m' s))"
          using run u(1) k al aligned ba ab pl by (simp add: Let_def)
        moreover have "same_layout s (put_heap x y (?un h') m' s)"
          by (rule same_layout_put) (simp_all add: f)
        ultimately show ?thesis using True Some same aligned out by simp
      qed
    qed
  qed
qed

end
