(* ===== verification/Kernel_Malloc_Init.thy ===== *)
theory Kernel_Malloc_Init
  imports Kernel_Malloc_Correct
begin

text \<open>
  The initialisation of the kernel heaps: \<open>heap_split_loop\<close> carves the free blocks that the
  abstract \<open>acarve\<close> lists, \<open>heap_init_cluster\<close> establishes \<open>heap_ok\<close> for one segment, and
  \<open>heap_init\<close> establishes \<open>kheap_inv\<close> for a mapping whose heap segments are powers of two,
  aligned on their size and disjoint.
\<close>

section \<open>Initialisation\<close>

lemma heap_split_loop_refines:
  assumes "heap_geom kmin ai h" "buddy_inv kmin (heap_lo h) (heap_hi h) (b, j) fl al"
    "lists_rel h m fl" "kmin \<le> ai" "ai \<le> j" "\<And>i. i < j \<Longrightarrow> fl i = []"
  shows "\<exists>m' fr'. heap_split_loop m (free_list h) (word_of_nat b) (j - 1) ai = Some (m', fr')
    \<and> lists_rel (h\<lparr>free_list := fr'\<rparr>) m' (acarve ai b j fl)
    \<and> same_outside {b..<b + 2 ^ j - 2 ^ ai} m m'"
  using assms
proof (induction j arbitrary: h m b fl)
  case 0
  then show ?case by (simp add: heap_geom_def)
next
  case (Suc j)
  show ?case
  proof (cases "j < ai")
    case True
    then show ?thesis using Suc.prems(3) by (simp add: heap_split_loop.simps)
  next
    case False
    let ?m = "store32 m (word_of_nat b) 0" and ?fl = "fl(j := b # fl j)"
    let ?h = "h\<lparr>free_list := (free_list h)[j := word_of_nat b]\<rparr>"
    have kj: "kmin \<le> j" "ai \<le> j" "0 < j" using False Suc.prems(1,4) by (simp_all add: heap_geom_def)
    have nil: "fl j = []" by (simp add: Suc.prems(6))
    have inv: "buddy_inv kmin (heap_lo h) (heap_hi h) (b + 2 ^ j, j) ?fl al"
      by (rule buddy_inv_carve [OF Suc.prems(2) kj(1)])
    note bb = buddy_invD(2) [OF inv, of b j, simplified]
    note ba = block_address [OF Suc.prems(1), of j b]
    have bnd: "aligned4 (word_of_nat b)" "0 < b" "b < 4294967296" "j < 31" "4 \<le> (2::nat) ^ j"
      using ba bb by simp_all
    have notin: "b \<notin> set (fl i)" for i
    proof
      assume x: "b \<in> set (fl i)"
      have "(Reserved, b, Suc j) \<in> blocks fl al (b, Suc j)" by simp
      from tiling_overlap [OF buddy_invD(1) [OF Suc.prems(2)] this, of "(Free, b, i)" b] x
      show False by simp
    qed
    have z: "free_list h ! j = 0"
      using lists_rel_head(1) [OF Suc.prems(3) heap_addresses_ok [OF Suc.prems(1,2)]] nil bnd by simp
    have rel: "lists_rel ?h ?m ?fl"
      using lists_rel_push [OF Suc.prems(3) heap_addresses_ok [OF Suc.prems(1,2)] bnd(1,3,2) notin, of j]
        z bnd by simp
    have step: "heap_split_loop m (free_list h) (word_of_nat b) j ai
        = heap_split_loop ?m (free_list ?h) (word_of_nat (b + 2 ^ j)) (j - 1) ai"
      using kj bnd by (subst heap_split_loop.simps) (simp add: push_bit_one_u32)
    have geomh: "heap_geom kmin ai ?h" using Suc.prems(1) by (simp add: heap_geom_def)
    have invh: "buddy_inv kmin (heap_lo ?h) (heap_hi ?h) (b + 2 ^ j, j) ?fl al"
      using inv by (simp del: fun_upd_apply)
    have out: "same_outside {b..<b + 4} m ?m"
      using ba(1) bb bnd by (intro store32_outside) (simp_all add: aligned4_unat)
    have "\<exists>m' fr'. heap_split_loop ?m (free_list ?h) (word_of_nat (b + 2 ^ j)) (j - 1) ai = Some (m', fr')
      \<and> lists_rel (?h\<lparr>free_list := fr'\<rparr>) m' (acarve ai (b + 2 ^ j) j ?fl)
      \<and> same_outside {b + 2 ^ j..<b + 2 ^ j + 2 ^ j - 2 ^ ai} ?m m'"
      by (rule Suc.IH [OF geomh invh rel Suc.prems(4) kj(2)]) (simp add: Suc.prems(6))
    then obtain m' fr' where *:
      "heap_split_loop ?m (free_list ?h) (word_of_nat (b + 2 ^ j)) (j - 1) ai = Some (m', fr')"
      "lists_rel (?h\<lparr>free_list := fr'\<rparr>) m' (acarve ai (b + 2 ^ j) j ?fl)"
      "same_outside {b + 2 ^ j..<b + 2 ^ j + 2 ^ j - 2 ^ ai} ?m m'" by blast
    have le: "(2::nat) ^ ai \<le> 2 ^ j" using kj by simp
    have "same_outside {b..<b + 2 ^ Suc j - 2 ^ ai} m m'"
    proof (rule same_outside_subset [OF out *(3)])
      have "b + 4 \<le> b + 2 ^ Suc j - 2 ^ ai" using le bnd(5) unfolding power_Suc by linarith
      then show "{b..<b + 4} \<subseteq> {b..<b + 2 ^ Suc j - 2 ^ ai}" by auto
    qed auto
    then show ?thesis using * step False by simp
  qed
qed

definition good_segment :: "u32 \<Rightarrow> u32 \<Rightarrow> bool" where
  "good_segment b sz \<longleftrightarrow> unat sz = 2 ^ get_size_index sz \<and> 6 \<le> get_size_index sz
     \<and> get_size_index sz \<le> 30 \<and> unat sz dvd unat b \<and> 0 < b \<and> unat b + unat sz < 2 ^ 32"

definition initial_lists :: "u32 \<Rightarrow> u32 \<Rightarrow> free_lists" where
  "initial_lists b sz = acarve (max 6 (get_size_index sz - 6)) (unat b) (get_size_index sz) (\<lambda>_. [])"

lemma heap_init_cluster_ok:
  assumes good: "good_segment b sz"
  shows "\<exists>m' h'. heap_init_cluster m h (Some (b, sz)) = Some (Inr (m', h'))
    \<and> heap_base h' = b \<and> heap_size h' = sz \<and> lock_idle (lock h')
    \<and> heap_ok 6 (get_size_index (alloc_size h')) h' m' (initial_lists b sz) Map.empty
    \<and> same_outside {unat b..<unat b + unat sz} m m'"
proof -
  let ?k = "get_size_index sz"
  let ?ai = "max 6 (?k - 6)"
  have k: "unat sz = 2 ^ ?k" "6 \<le> ?k" "?k \<le> 30" "2 ^ ?k dvd unat b" "0 < unat b"
    "unat b + 2 ^ ?k < 2 ^ 32"
    using good unfolding good_segment_def by (auto simp: unat_gt_0 word_neq_0_conv)
  let ?asize = "if sz div MIN_BLOCK_SIZE < MIN_BLOCK_SIZE then MIN_BLOCK_SIZE else sz div MIN_BLOCK_SIZE"
  have div: "unat (sz div MIN_BLOCK_SIZE) = 2 ^ (?k - 6)"
  proof -
    have "(2::nat) ^ ?k = 2 ^ 6 * 2 ^ (?k - 6)" using k(2) power_add [of "2::nat" 6 "?k - 6"] by simp
    then show ?thesis using k(1) by (simp add: unat_div MIN_BLOCK_SIZE_def)
  qed
  have asize: "unat ?asize = 2 ^ ?ai"
  proof (cases "?k - 6 < 6")
    case True
    then have "(2::nat) ^ (?k - 6) < 2 ^ 6" by (simp only: pow2_strict_mono)
    then have "unat (sz div MIN_BLOCK_SIZE) < 64" using div by simp
    then have "sz div MIN_BLOCK_SIZE < MIN_BLOCK_SIZE" by (simp add: word_less_nat_alt MIN_BLOCK_SIZE_def)
    then show ?thesis using True by (simp add: MIN_BLOCK_SIZE_def)
  next
    case False
    then have "(2::nat) ^ 6 \<le> 2 ^ (?k - 6)" by (intro power_increasing) simp_all
    then have "64 \<le> unat (sz div MIN_BLOCK_SIZE)" using div by simp
    then have "\<not> sz div MIN_BLOCK_SIZE < MIN_BLOCK_SIZE" by (simp add: word_less_nat_alt MIN_BLOCK_SIZE_def)
    then show ?thesis using False div by simp
  qed
  have ai: "?ai \<le> ?k" "?ai \<le> 30" "6 \<le> ?ai" using k by simp_all
  have aidx: "get_size_index ?asize = ?ai" by (rule get_size_index_exact [OF asize]) (use ai in simp)
  have le: "(2::nat) ^ ?ai \<le> 2 ^ ?k" using ai(1) by simp
  let ?abase = "b + sz - ?asize"
  have bs: "unat (b + sz) = unat b + 2 ^ ?k" using k by (simp add: unat_add_no_wrap)
  have abase: "unat ?abase = unat b + 2 ^ ?k - 2 ^ ?ai"
    using bs asize trans_le_add2 [OF le, of "unat b"]
    by (subst unat_sub_no_wrap) (simp_all add: word_le_nat_alt)
  let ?m = "memset m ?abase 0 ?asize" and ?h = "h\<lparr>heap_base := b, heap_size := sz, alloc_size := ?asize,
     alloc_base := ?abase, free_list := replicate 32 0, lock := spin_lock_init (lock h)\<rparr>"
  have "(4::nat) dvd 2 ^ ?ai" using le_imp_power_dvd [of 2 ?ai "2::nat"] ai(3) by simp
  then have fill: "?m = mem_fill m ?abase 0 (2 ^ ?ai)"
    unfolding memset_fills memset_moved_def asize by simp
  have geom: "heap_geom 6 ?ai ?h"
  proof -
    have "(2::nat) ^ ?k \<le> 2 ^ 30" using k(3) by (intro power_increasing) simp_all
    then have "(2::nat) ^ ?k < 2 ^ 31" by simp
    moreover have "(2::nat) ^ ?k \<le> 2 ^ (?ai + 6)" by (intro power_increasing) simp_all
    moreover have "(2::nat) ^ 6 dvd unat b" using dvd_trans [OF le_imp_power_dvd [OF k(2)] k(4)] .
    ultimately show ?thesis using k by (simp add: heap_geom_def)
  qed
  have inv0: "buddy_inv 6 (heap_lo ?h) (heap_hi ?h) (unat b, ?k) (\<lambda>_. []) Map.empty"
    using buddy_inv_reserved [OF k(4,2)] k(1) by simp
  have rel0: "lists_rel ?h ?m (\<lambda>_. [])" by (simp add: lists_rel_def)
  obtain m' fr' where sp: "heap_split_loop ?m (free_list ?h) (word_of_nat (unat b)) (?k - 1) ?ai = Some (m', fr')"
    "lists_rel (?h\<lparr>free_list := fr'\<rparr>) m' (initial_lists b sz)"
    "same_outside {unat b..<unat b + 2 ^ ?k - 2 ^ ?ai} ?m m'"
    using heap_split_loop_refines [OF geom inv0 rel0 ai(3,1)] unfolding initial_lists_def by blast
  let ?h' = "?h\<lparr>free_list := fr'\<rparr>"
  have inv: "buddy_inv 6 (heap_lo ?h') (heap_hi ?h') (unat (alloc_base ?h'), ?ai) (initial_lists b sz) Map.empty"
    using buddy_inv_acarve [OF inv0 ai(3,1)] by (simp add: abase initial_lists_def)
  have run: "heap_init_cluster m h (Some (b, sz)) = Some (Inr (m', ?h'))"
  proof -
    have "unat (2 ^ ?k :: u32) = unat sz" using k(1,3) by (simp add: unat_pow2_u32)
    then have "sz = push_bit ?k 1" unfolding push_bit_one_u32 by (metis unsigned_word_eqI)
    moreover have "b mod sz = 0" using k by (simp add: unat_mod dvd_eq_mod_eq_0 flip: unat_0_iff)
    ultimately show ?thesis
      using sp(1) aidx k(2,3) unfolding heap_init_cluster_def Let_def by simp
  qed
  have geom': "heap_geom 6 ?ai ?h'" using geom by (simp add: heap_geom_def)
  have "alloc_rel 6 ?h' ?m Map.empty"
    unfolding alloc_rel_def
  proof (intro allI impI)
    fix a assume a: "heap_lo ?h' \<le> a" "a < heap_hi ?h'" "2 ^ 6 dvd a"
    have "unat (alloc_byte 6 ?h' a - ?abase) < 2 ^ ?ai"
      using alloc_byte_unat [OF geom' inv a(1,2)] unat_sub_no_wrap [of ?abase "alloc_byte 6 ?h' a"]
      by (simp add: word_le_nat_alt)
    then show "?m (alloc_byte 6 ?h' a) = (case Map.empty a of None \<Rightarrow> 0 | Some k \<Rightarrow> word_of_nat k)"
      by (simp add: fill mem_fill_def)
  qed
  then have "alloc_rel 6 ?h' m' Map.empty"
    by (rule alloc_rel_outside [OF geom' inv _ sp(3)]) (simp add: abase disjoint_iff)
  then have ok: "heap_ok 6 ?ai ?h' m' (initial_lists b sz) Map.empty"
    using geom' inv sp(2) by (simp add: heap_ok_def)
  have "same_outside {unat b + 2 ^ ?k - 2 ^ ?ai..<unat b + 2 ^ ?k} m ?m"
    unfolding same_outside_def
  proof (intro allI impI)
    fix x :: u32 assume x: "unat x \<notin> {unat b + 2 ^ ?k - 2 ^ ?ai..<unat b + 2 ^ ?k}"
    have "\<not> unat (x - ?abase) < 2 ^ ?ai"
    proof
      assume lt: "unat (x - ?abase) < 2 ^ ?ai"
      then have "unat ?abase + unat (x - ?abase) < 2 ^ 32" using abase le k(6) by linarith
      then have "unat x = unat ?abase + unat (x - ?abase)"
        using unat_add_no_wrap [of ?abase "x - ?abase"] by simp
      moreover have "unat b + 2 ^ ?k - 2 ^ ?ai + 2 ^ ?ai = unat b + 2 ^ ?k" using le by linarith
      ultimately have "unat x < unat b + 2 ^ ?k" "unat b + 2 ^ ?k - 2 ^ ?ai \<le> unat x"
        using lt abase by linarith+
      then show False using x by simp
    qed
    then show "?m x = m x" by (simp add: fill mem_fill_def)
  qed
  moreover have "unat b \<le> unat b + 2 ^ ?k - 2 ^ ?ai" using le by linarith
  ultimately have "same_outside {unat b..<unat b + unat sz} m m'"
    by (intro same_outside_subset [OF _ sp(3)]) (auto simp: k(1))
  then show ?thesis using run ok aidx by simp
qed


text \<open>What the mapping must say of the heaps, and what the initialisation has set up in a cluster.\<close>

definition heap_of :: "nat \<Rightarrow> nat \<Rightarrow> mapping \<Rightarrow> nat \<Rightarrow> nat \<Rightarrow> (u32 \<times> u32) option" where
  "heap_of X Y mp x y = (case get_heap_info X Y mp x y of Some (Inr (Some seg)) \<Rightarrow> Some seg | _ \<Rightarrow> None)"

definition segment_area :: "u32 \<times> u32 \<Rightarrow> nat set" where
  "segment_area seg = {unat (fst seg)..<unat (fst seg) + unat (snd seg)}"

definition heap_map_ok :: "nat \<Rightarrow> nat \<Rightarrow> mapping \<Rightarrow> bool" where
  "heap_map_ok X Y mp \<longleftrightarrow>
     (\<forall>x<X. \<forall>y<Y. \<exists>info. get_heap_info X Y mp x y = Some (Inr info)) \<and>
     (\<forall>x<X. \<forall>y<Y. \<forall>b sz. heap_of X Y mp x y = Some (b, sz) \<longrightarrow> good_segment b sz) \<and>
     (\<forall>x<X. \<forall>y<Y. \<forall>x'<X. \<forall>y'<Y. \<forall>sg sg'. heap_of X Y mp x y = Some sg \<longrightarrow>
        heap_of X Y mp x' y' = Some sg' \<longrightarrow> (x, y) \<noteq> (x', y') \<longrightarrow> segment_area sg \<inter> segment_area sg' = {})"

definition cluster_ready :: "(u32 \<times> u32) option \<Rightarrow> mem \<Rightarrow> kernel_heap \<Rightarrow> bool" where
  "cluster_ready info m h \<longleftrightarrow> (case info of None \<Rightarrow> heap_size h = 0
     | Some (b, sz) \<Rightarrow> heap_base h = b \<and> heap_size h = sz \<and> lock_idle (lock h)
         \<and> heap_ok 6 (get_size_index (alloc_size h)) h m (initial_lists b sz) Map.empty)"

definition initial_free :: "nat \<Rightarrow> nat \<Rightarrow> mapping \<Rightarrow> nat \<Rightarrow> nat \<Rightarrow> free_lists" where
  "initial_free X Y mp x y = (case heap_of X Y mp x y of None \<Rightarrow> (\<lambda>_. []) | Some (b, sz) \<Rightarrow> initial_lists b sz)"

lemma heap_init_loop_ready:
  assumes mp: "heap_map_ok X Y mp"
  shows "distinct cs \<Longrightarrow> set cs \<subseteq> {..<X} \<times> {..<Y} \<Longrightarrow> P \<subseteq> {..<X} \<times> {..<Y} \<Longrightarrow> set cs \<inter> P = {} \<Longrightarrow>
    \<forall>(x, y)\<in>P. cluster_ready (heap_of X Y mp x y) (memory s) (kernel_heap s x y) \<Longrightarrow>
    \<exists>s'. heap_init_loop X Y mp cs s = Some (Inr ((), s')) \<and>
      (\<forall>(x, y)\<in>P \<union> set cs. cluster_ready (heap_of X Y mp x y) (memory s') (kernel_heap s' x y))"
proof (induction cs arbitrary: s P)
  case (Cons c cs)
  obtain x y where c: "c = (x, y)" by (cases c)
  have xy: "x < X" "y < Y" using Cons.prems(2) c by auto
  obtain info where info: "get_heap_info X Y mp x y = Some (Inr info)"
    using mp xy unfolding heap_map_ok_def by blast
  then have ho: "heap_of X Y mp x y = info" by (cases info) (simp_all add: heap_of_def)
  have "\<exists>m h. heap_init_cluster (memory s) (kernel_heap s x y) info = Some (Inr (m, h))
    \<and> cluster_ready info m h
    \<and> same_outside (case info of None \<Rightarrow> {} | Some sg \<Rightarrow> segment_area sg) (memory s) m"
  proof (cases info)
    case None
    then show ?thesis by (simp add: heap_init_cluster_def cluster_ready_def)
  next
    case (Some sg)
    obtain b sz where sg: "sg = (b, sz)" by (cases sg)
    have "good_segment b sz" using mp xy ho Some sg unfolding heap_map_ok_def by blast
    from heap_init_cluster_ok [OF this, of "memory s" "kernel_heap s x y"] show ?thesis
      using Some sg by (auto simp: cluster_ready_def segment_area_def)
  qed
  then obtain m h where mh: "heap_init_cluster (memory s) (kernel_heap s x y) info = Some (Inr (m, h))"
    "cluster_ready info m h"
    "same_outside (case info of None \<Rightarrow> {} | Some sg \<Rightarrow> segment_area sg) (memory s) m" by blast
  let ?s = "s\<lparr>memory := m, kernel_heap := (kernel_heap s)(x := (kernel_heap s x)(y := h))\<rparr>"
  have "cluster_ready (heap_of X Y mp x' y') (memory ?s) (kernel_heap ?s x' y')"
    if p: "(x', y') \<in> insert (x, y) P" for x' y'
  proof (cases "(x', y') = (x, y)")
    case False
    then have p': "(x', y') \<in> P" using p by auto
    then have old: "cluster_ready (heap_of X Y mp x' y') (memory s) (kernel_heap s x' y')"
      using Cons.prems(5) by blast
    have kh: "kernel_heap ?s x' y' = kernel_heap s x' y'" using False by auto
    show ?thesis
    proof (cases "heap_of X Y mp x' y'")
      case (Some sg')
      obtain b sz where sg': "sg' = (b, sz)" by (cases sg')
      have "x' < X" "y' < Y" using p' Cons.prems(3) by auto
      then have "segment_area sg \<inter> segment_area sg' = {}" if "info = Some sg" for sg
        using mp xy ho Some False that unfolding heap_map_ok_def by metis
      then have "(case info of None \<Rightarrow> {} | Some sg \<Rightarrow> segment_area sg) \<inter> segment_area sg' = {}"
        by (cases info) simp_all
      then show ?thesis
        using old heap_ok_outside [OF _ mh(3)] Some sg' unfolding kh
        by (auto simp: cluster_ready_def segment_area_def)
    next
      case None
      then show ?thesis using old unfolding kh cluster_ready_def by simp
    qed
  qed (use mh(2) ho in auto)
  then have ready: "\<forall>(x', y')\<in>insert (x, y) P. cluster_ready (heap_of X Y mp x' y') (memory ?s) (kernel_heap ?s x' y')"
    by blast
  have "\<exists>s'. heap_init_loop X Y mp cs ?s = Some (Inr ((), s')) \<and>
      (\<forall>(x, y)\<in>insert (x, y) P \<union> set cs. cluster_ready (heap_of X Y mp x y) (memory s') (kernel_heap s' x y))"
    by (rule Cons.IH [OF _ _ _ _ ready]) (use Cons.prems c in auto)
  then show ?case using c info mh(1) by auto
qed auto

lemma heap_init_ready:
  assumes mp: "heap_map_ok X Y mp"
  shows "\<exists>s'. heap_init X Y mp s = Some (Inr ((), s')) \<and>
    kheap_inv X Y s' (initial_free X Y mp) (\<lambda>_ _. Map.empty)
    \<and> (\<forall>x<X. \<forall>y<Y. has_heap X Y s' x y = (heap_of X Y mp x y \<noteq> None))
    \<and> (\<forall>x<X. \<forall>y<Y. \<forall>sg. heap_of X Y mp x y = Some sg \<longrightarrow>
        (heap_base (kernel_heap s' x y), heap_size (kernel_heap s' x y)) = sg)"
proof -
  have "\<exists>s'. heap_init_loop X Y mp (List.product [0..<X] [0..<Y]) s = Some (Inr ((), s')) \<and>
      (\<forall>(x, y)\<in>{} \<union> set (List.product [0..<X] [0..<Y]).
         cluster_ready (heap_of X Y mp x y) (memory s') (kernel_heap s' x y))"
    by (rule heap_init_loop_ready [OF mp]) (auto simp: distinct_product)
  then obtain s' where run: "heap_init X Y mp s = Some (Inr ((), s'))" and
    ready: "\<And>x y. x < X \<Longrightarrow> y < Y \<Longrightarrow> cluster_ready (heap_of X Y mp x y) (memory s') (kernel_heap s' x y)"
    by (auto simp: heap_init_def)
  have has: "has_heap X Y s' x y = (heap_of X Y mp x y \<noteq> None)" if xy: "x < X" "y < Y" for x y
  proof (cases "heap_of X Y mp x y")
    case (Some sg)
    obtain b sz where sg: "sg = (b, sz)" by (cases sg)
    have "good_segment b sz" using mp xy Some sg unfolding heap_map_ok_def by blast
    then have "sz \<noteq> 0" by (auto simp: good_segment_def)
    then show ?thesis using ready [OF xy] Some sg xy by (simp add: cluster_ready_def has_heap_def)
  qed (use ready [OF xy] in \<open>simp add: cluster_ready_def has_heap_def\<close>)
  have seg: "heap_segment (kernel_heap s' x y) = segment_area sg"
    if "x < X" "y < Y" "heap_of X Y mp x y = Some sg" for x y sg
    using ready [OF that(1,2)] that(3)
    by (auto simp: cluster_ready_def heap_segment_def segment_area_def split: prod.splits)
  have "kheap_inv X Y s' (initial_free X Y mp) (\<lambda>_ _. Map.empty)"
    unfolding kheap_inv_def
  proof (intro conjI allI impI)
    fix x y assume h: "has_heap X Y s' x y"
    then have xy: "x < X" "y < Y" by (simp_all add: has_heap_def)
    then obtain b sz where ho: "heap_of X Y mp x y = Some (b, sz)" using h has by fastforce
    show "heap_ok 6 (get_size_index (alloc_size (kernel_heap s' x y))) (kernel_heap s' x y) (memory s')
        (initial_free X Y mp x y) Map.empty" and "lock_idle (lock (kernel_heap s' x y))"
      using ready [OF xy] ho by (simp_all add: cluster_ready_def initial_free_def)
  next
    fix x y x' y' assume h: "has_heap X Y s' x y" "has_heap X Y s' x' y'" "(x, y) \<noteq> (x', y')"
    then have xy: "x < X" "y < Y" "x' < X" "y' < Y" by (simp_all add: has_heap_def)
    then obtain sg sg' where ho: "heap_of X Y mp x y = Some sg" "heap_of X Y mp x' y' = Some sg'"
      using h has by blast
    have "segment_area sg \<inter> segment_area sg' = {}"
      using mp xy ho h(3) unfolding heap_map_ok_def by blast
    then show "heap_segment (kernel_heap s' x y) \<inter> heap_segment (kernel_heap s' x' y') = {}"
      using seg xy ho by simp
  qed
  moreover have "(heap_base (kernel_heap s' x y), heap_size (kernel_heap s' x y)) = sg"
    if "x < X" "y < Y" "heap_of X Y mp x y = Some sg" for x y sg
    using ready [OF that(1,2)] that(3) by (auto simp: cluster_ready_def split: prod.splits)
  ultimately show ?thesis using run has by blast
qed

end
