(* ===== verification/Kernel_Malloc_Properties.thy ===== *)
theory Kernel_Malloc_Properties
  imports Kernel_Malloc_Init
begin

text \<open>
  The properties of the kernel heap, with their witnesses on a one-cluster machine whose heap
  segment has 512 bytes.
\<close>

section \<open>A concrete machine\<close>

definition demo_heap_mapping :: mapping where
  "demo_heap_mapping = \<lparr>
     hdr = \<lparr>signature = 0xDACE2014, x_size = 1, y_size = 1, globals = 1, vspaces = 0, n_psegs = 1, n_vsegs = 1, n_tasks = 0, x_io = 0, y_io = 0, irq_per_proc = 4\<rparr>,
     clusters = [\<lparr>cluster_x = 0, cluster_y = 0, procs = 1, cl_periphs = 0, cl_periph_offset = 0, cl_psegs = 1, cl_pseg_offset = 0\<rparr>],
     psegs = [\<lparr>pseg_base = 0, pseg_length = 0x10000, ptype = PSEG_TYPE_RAM, clusterid = 0\<rparr>],
     vspace_table = [],
     vsegs = [\<lparr>vbase = 0x200, pbase = 0, vseg_length = 0x200, psegid = 0, vmode = 0,
       vtype = VSEG_TYPE_HEAP, vmapped = False, vident = False, vlocal = False, vbig = False, vseg_name = [], vbinpath = []\<rparr>],
     tasks = [], periphs = [], irqs = []\<rparr>"

lemma demo_heap_of: "heap_of (Suc 0) (Suc 0) demo_heap_mapping 0 0 = Some (0x200, 0x200)"
  by (simp add: heap_of_def get_heap_info_def demo_heap_mapping_def fetch_def)

lemma demo_size_index: "get_size_index 0x200 = 9"
  by (rule get_size_index_exact) simp_all

lemma demo_map_ok: "heap_map_ok (Suc 0) (Suc 0) demo_heap_mapping"
proof -
  have "get_heap_info (Suc 0) (Suc 0) demo_heap_mapping 0 0 = Some (Inr (Some (0x200, 0x200)))"
    by (simp add: get_heap_info_def demo_heap_mapping_def fetch_def)
  moreover have "good_segment 0x200 0x200" by (simp add: good_segment_def demo_size_index)
  ultimately show ?thesis by (simp add: heap_map_ok_def demo_heap_of)
qed


definition demo_cleared :: kheap_state where
  "demo_cleared = \<lparr>kernel_heap = (\<lambda>_ _. \<lparr>lock = \<lparr>current = 0, free_ticket = 0\<rparr>, heap_base = 0,
     heap_size = 0, alloc_base = 0, alloc_size = 0, free_list = []\<rparr>), memory = (\<lambda>_. 0)\<rparr>"

definition demo_lists :: "nat \<Rightarrow> nat \<Rightarrow> free_lists" where
  "demo_lists = initial_free (Suc 0) (Suc 0) demo_heap_mapping"

lemma acarve_numeral [simp]:
  "acarve ai b (numeral n) fl = (if pred_numeral n < ai then fl
     else acarve ai (b + 2 ^ pred_numeral n) (pred_numeral n) (fl(pred_numeral n := b # fl (pred_numeral n))))"
  by (simp add: numeral_eq_Suc)

lemma asplit_numeral [simp]:
  "asplit fl a (numeral n) k = (if pred_numeral n < k then fl
     else asplit (fl(pred_numeral n := (a + 2 ^ pred_numeral n) # fl (pred_numeral n))) a (pred_numeral n) k)"
  by (simp add: numeral_eq_Suc)

lemma demo_lists_apply:
  "demo_lists 0 0 = (\<lambda>_. [])(8 := [0x200], 7 := [0x300], 6 := [0x380])"
  by (simp add: demo_lists_def initial_free_def demo_heap_of initial_lists_def demo_size_index)

lemma demo_state:
  obtains s where "heap_init (Suc 0) (Suc 0) demo_heap_mapping demo_cleared = Some (Inr ((), s))"
    and "kheap_inv (Suc 0) (Suc 0) s demo_lists (\<lambda>_ _. Map.empty)"
    and "has_heap (Suc 0) (Suc 0) s 0 0" and "heap_size (kernel_heap s 0 0) = 0x200"
    and "heap_base (kernel_heap s 0 0) = 0x200"
proof -
  obtain s where "heap_init (Suc 0) (Suc 0) demo_heap_mapping demo_cleared = Some (Inr ((), s)) \<and>
    kheap_inv (Suc 0) (Suc 0) s demo_lists (\<lambda>_ _. Map.empty)
    \<and> (\<forall>x<Suc 0. \<forall>y<Suc 0. has_heap (Suc 0) (Suc 0) s x y
        = (heap_of (Suc 0) (Suc 0) demo_heap_mapping x y \<noteq> None))
    \<and> (\<forall>x<Suc 0. \<forall>y<Suc 0. \<forall>sg. heap_of (Suc 0) (Suc 0) demo_heap_mapping x y = Some sg \<longrightarrow>
        (heap_base (kernel_heap s x y), heap_size (kernel_heap s x y)) = sg)"
    using heap_init_ready [OF demo_map_ok, of demo_cleared] unfolding demo_lists_def by (rule exE)
  then show thesis using that [of s] by (simp add: demo_heap_of)
qed

lemma demo_malloc: "amalloc 0x200 (demo_lists 0 0) Map.empty 7
    = Some (0x300, (demo_lists 0 0)(7 := []), [0x300 \<mapsto> 7])"
  by (subst amalloc_def, subst aget.simps) (simp add: demo_lists_apply)

lemma demo_request: "request_index 100 = 7"
  using get_size_index_le [of 7 100] get_size_index_le [of 6 100]
  by (simp add: request_index_def MIN_BLOCK_SIZE_def word_less_nat_alt)


lemma demo_v2p: "sys_xy_from_ptr (\<lambda>_. Inr 0) p = Inr (0, 0)"
  by (simp add: sys_xy_from_ptr_def)

section \<open>Properties\<close>

text \<open>C5: On a mapping whose heap segments are powers of two between 64 bytes and 1 Gbyte, aligned on
  their size and disjoint, \<open>_heap_init\<close> returns without panic and establishes the heap invariant,
  with one free block of each size and no allocated block.\<close>

theorem heap_init_establishes:
  assumes "heap_map_ok X Y mp"
  shows "\<exists>s'. heap_init X Y mp s = Some (Inr ((), s')) \<and>
    kheap_inv X Y s' (initial_free X Y mp) (\<lambda>_ _. Map.empty) \<and>
    (\<forall>x<X. \<forall>y<Y. has_heap X Y s' x y = (heap_of X Y mp x y \<noteq> None))"
  using heap_init_ready [OF assms, of s] by (elim exE conjE) (intro exI conjI)

theorem heap_init_establishes_witness:
  "\<exists>s'. heap_init (Suc 0) (Suc 0) demo_heap_mapping demo_cleared = Some (Inr ((), s')) \<and>
    kheap_inv (Suc 0) (Suc 0) s' (initial_free (Suc 0) (Suc 0) demo_heap_mapping) (\<lambda>_ _. Map.empty)
    \<and> has_heap (Suc 0) (Suc 0) s' 0 0"
  using heap_init_establishes [OF demo_map_ok, of demo_cleared] demo_heap_of by auto

text \<open>C1: \<open>_remote_malloc\<close> refines the abstract buddy allocator. The abstract allocator takes the first
  free block of sufficient index and splits it; when it finds none the code prints its message and
  exits with the lock released, and otherwise the code returns that block, keeps the invariant of
  every heap, and writes only inside the free area and the \<open>alloc[]\<close> array of that heap.\<close>

theorem malloc_refines_buddy:
  assumes "kheap_inv X Y s F A" "has_heap X Y s x y" "unat sz \<le> 2 ^ 31"
  shows "case amalloc (unat (heap_size (kernel_heap s x y))) (F x y) (A x y) (request_index sz) of
      None \<Rightarrow> \<exists>s'. remote_malloc X Y sz x y s = Some (Inl (No_more_space, s'))
        \<and> kheap_inv X Y s' F A \<and> memory s' = memory s
    | Some (a, fl, al) \<Rightarrow> \<exists>s'. remote_malloc X Y sz x y s = Some (Inr (word_of_nat a, s'))
        \<and> kheap_inv X Y s' (upd2 F x y fl) (upd2 A x y al)
        \<and> same_outside (free_area (F x y) \<union> alloc_area (kernel_heap s x y)) (memory s) (memory s')"
  using remote_malloc_refines [OF assms] by (auto split: option.splits)

theorem malloc_refines_buddy_witness:
  "\<exists>s s'. kheap_inv (Suc 0) (Suc 0) s demo_lists (\<lambda>_ _. Map.empty) \<and>
     remote_malloc (Suc 0) (Suc 0) 100 0 0 s = Some (Inr (0x300, s')) \<and>
     kheap_inv (Suc 0) (Suc 0) s' (upd2 demo_lists 0 0 ((demo_lists 0 0)(7 := [])))
       (upd2 (\<lambda>_ _. Map.empty) 0 0 [0x300 \<mapsto> 7])"
proof -
  obtain s where s: "kheap_inv (Suc 0) (Suc 0) s demo_lists (\<lambda>_ _. Map.empty)"
    "has_heap (Suc 0) (Suc 0) s 0 0" "heap_size (kernel_heap s 0 0) = 0x200"
    using demo_state by blast
  from malloc_refines_buddy [OF s(1,2), of 100] show ?thesis
    using s by (auto simp: demo_request demo_malloc)
qed

text \<open>C2: \<open>_free\<close> on any pointer into the cluster's heap: a pointer outside the segment, a block
  that is not allocated and a pointer inside an allocated block are each refused with their message,
  the lock released and nothing changed; a block base is released, merged with its free companions as
  the abstract allocator does, and the invariant of every heap is kept.\<close>

theorem free_refines_buddy:
  assumes "kheap_inv X Y s F A" "has_heap X Y s x y" "sys_xy_from_ptr v2p ptr = Inr (x, y)"
  shows "if unat ptr \<notin> heap_segment (kernel_heap s x y)
    then kfree v2p ptr s = Some (Inl (Illegal_pointer, s))
    else (case A x y (block_of (kernel_heap s x y) ptr) of
        None \<Rightarrow> \<exists>s'. kfree v2p ptr s = Some (Inl (Not_allocated, s'))
          \<and> kheap_inv X Y s' F A \<and> memory s' = memory s
      | Some k \<Rightarrow>
          if \<not> 2 ^ k dvd unat ptr
          then \<exists>s'. kfree v2p ptr s = Some (Inl (Block_not_aligned, s'))
            \<and> kheap_inv X Y s' F A \<and> memory s' = memory s
          else \<exists>s'. kfree v2p ptr s = Some (Inr ((), s'))
            \<and> kheap_inv X Y s' (upd2 F x y (aupdate (F x y) (unat ptr) k))
                (upd2 A x y ((A x y)(unat ptr := None)))
            \<and> same_outside (free_area (F x y) \<union> alloc_area (kernel_heap s x y)
                \<union> {unat ptr..<unat ptr + 2 ^ k}) (memory s) (memory s'))"
  using kfree_refines [OF assms] by (auto split: option.splits if_splits)

theorem free_refines_buddy_witness:
  "\<exists>s s'. kheap_inv (Suc 0) (Suc 0) s demo_lists (\<lambda>_ _. Map.empty) \<and>
     kfree (\<lambda>_. Inr 0) 0x300 s = Some (Inl (Not_allocated, s')) \<and>
     kfree (\<lambda>_. Inr 0) 0x400 s = Some (Inl (Illegal_pointer, s))"
proof -
  obtain s where s: "kheap_inv (Suc 0) (Suc 0) s demo_lists (\<lambda>_ _. Map.empty)"
    "has_heap (Suc 0) (Suc 0) s 0 0" "heap_segment (kernel_heap s 0 0) = {0x200..<0x400}"
    by (rule demo_state) (simp add: heap_segment_def [of "kernel_heap _ 0 0"])
  from free_refines_buddy [OF s(1,2) demo_v2p [of "0x300"]] free_refines_buddy [OF s(1,2) demo_v2p [of "0x400"]]
  show ?thesis using s by auto
qed


lemma malloc_success:
  assumes inv: "kheap_inv X Y s F A" and xy: "has_heap X Y s x y"
    and run: "remote_malloc X Y sz x y s = Some (Inr (p, s'))"
  obtains fl k where "amalloc (unat (heap_size (kernel_heap s x y))) (F x y) (A x y) k
      = Some (unat p, fl, (A x y)(unat p \<mapsto> k))"
    and "kheap_inv X Y s' (upd2 F x y fl) (upd2 A x y ((A x y)(unat p \<mapsto> k)))"
    and "same_layout s s'" and "6 \<le> k" and "unat sz \<le> 2 ^ k"
    and "same_outside (free_area (F x y) \<union> alloc_area (kernel_heap s x y)) (memory s) (memory s')"
proof -
  let ?h = "kernel_heap s x y" and ?k = "request_index sz"
  have sz: "unat sz \<le> 2 ^ 31"
  proof (rule ccontr)
    assume big: "\<not> unat sz \<le> 2 ^ 31"
    then have "get_size_index sz = 32"
      using get_size_index_le [of 31 sz] get_size_index_max [of sz] by simp
    moreover have "\<not> sz < MIN_BLOCK_SIZE" using big by (simp add: word_less_nat_alt MIN_BLOCK_SIZE_def)
    ultimately have "remote_malloc X Y sz x y s = None"
      using xy by (cases "spin_lock_acquire (lock ?h)")
        (simp_all add: remote_malloc_def has_heap_def not_le get_block.simps)
    then show False using run by simp
  qed
  note r = remote_malloc_refines [OF inv xy sz]
  show thesis
  proof (cases "amalloc (unat (heap_size ?h)) (F x y) (A x y) ?k")
    case None
    then show thesis using r run by simp
  next
    case (Some z)
    then obtain a fl al where mal: "amalloc (unat (heap_size ?h)) (F x y) (A x y) ?k = Some (a, fl, al)"
      by (cases z) auto
    have i: "heap_geom 6 (get_size_index (alloc_size ?h)) ?h"
      "buddy_inv 6 (heap_lo ?h) (heap_hi ?h) (unat (alloc_base ?h), get_size_index (alloc_size ?h)) (F x y) (A x y)"
      using kheap_invD(1) [OF inv xy] by (simp_all add: heap_ok_def)
    note m = buddy_inv_amalloc [OF i(2) request_index_bounds(1) mal]
    have u: "al a = Some ?k" by (simp add: m(3))
    have "unat (word_of_nat a :: u32) = a"
      using block_address(1) [OF i(1), of ?k a] buddy_invD(3) [OF m(1) u] by simp
    moreover have "p = word_of_nat a" using r run mal by auto
    ultimately have "unat p = a" by simp
    then show thesis
      using that [of ?k fl] r run mal m(3) request_index_bounds(1,3) [of sz] sz by auto
  qed
qed

text \<open>C4: What the caller of \<open>_remote_malloc\<close> gets: a block of at least the requested size, aligned on
  its size, inside the heap segment and outside its \<open>alloc[]\<close> array, disjoint from every block
  allocated before; the contents of those blocks are unchanged.\<close>

theorem malloc_returns_fresh_block:
  assumes "kheap_inv X Y s F A" "has_heap X Y s x y"
    "remote_malloc X Y sz x y s = Some (Inr (p, s'))"
  shows "\<exists>F' k. kheap_inv X Y s' F' (upd2 A x y ((A x y)(unat p \<mapsto> k))) \<and>
    A x y (unat p) = None \<and> unat sz \<le> 2 ^ k \<and> 2 ^ k dvd unat p \<and>
    {unat p..<unat p + 2 ^ k} \<subseteq> heap_segment (kernel_heap s x y) - alloc_area (kernel_heap s x y) \<and>
    (\<forall>b j. A x y b = Some j \<longrightarrow> {unat p..<unat p + 2 ^ k} \<inter> {b..<b + 2 ^ j} = {} \<and>
       (\<forall>q. unat q \<in> {b..<b + 2 ^ j} \<longrightarrow> memory s' q = memory s q))"
proof -
  let ?h = "kernel_heap s x y"
  let ?r = "(unat (alloc_base ?h), get_size_index (alloc_size ?h))"
  obtain fl k where m: "amalloc (unat (heap_size ?h)) (F x y) (A x y) k = Some (unat p, fl, (A x y)(unat p \<mapsto> k))"
    "kheap_inv X Y s' (upd2 F x y fl) (upd2 A x y ((A x y)(unat p \<mapsto> k)))" "6 \<le> k" "unat sz \<le> 2 ^ k"
    "same_outside (free_area (F x y) \<union> alloc_area ?h) (memory s) (memory s')"
    using malloc_success [OF assms] by blast
  have inv: "buddy_inv 6 (heap_lo ?h) (heap_hi ?h) ?r (F x y) (A x y)"
    using kheap_invD(1) [OF assms(1,2)] by (simp add: heap_ok_def)
  note inv' = buddy_inv_amalloc [OF inv m(3,1)]
  have u: "((A x y)(unat p \<mapsto> k)) (unat p) = Some k" by simp
  have "{unat p..<unat p + 2 ^ k} \<inter> {b..<b + 2 ^ j} = {} \<and>
      (\<forall>q. unat q \<in> {b..<b + 2 ^ j} \<longrightarrow> memory s' q = memory s q)" if b: "A x y b = Some j" for b j
  proof
    have "((A x y)(unat p \<mapsto> k)) b = Some j" and "unat p \<noteq> b" using b inv'(2) by auto
    then show "{unat p..<unat p + 2 ^ k} \<inter> {b..<b + 2 ^ j} = {}"
      by (intro buddy_used_disjoint [OF inv'(1) u])
    have "free_area (F x y) \<inter> {b..<b + 2 ^ j} = {}"
      using buddy_free_disjoint(1) [OF inv _ b] unfolding free_area_def by blast
    moreover have "alloc_area ?h \<inter> {b..<b + 2 ^ j} = {}"
      using buddy_reserved_disjoint(1) [OF inv b] unfolding alloc_area_def by blast
    ultimately show "\<forall>q. unat q \<in> {b..<b + 2 ^ j} \<longrightarrow> memory s' q = memory s q"
      using m(5) unfolding same_outside_def by blast
  qed
  moreover have "{unat p..<unat p + 2 ^ k} \<subseteq> heap_segment ?h - alloc_area ?h"
    using buddy_invD(3) [OF inv'(1) u] buddy_reserved_disjoint(1) [OF inv'(1) u]
    unfolding heap_segment_def alloc_area_def by fastforce
  ultimately show ?thesis using m inv'(2) buddy_invD(3) [OF inv'(1) u] by blast
qed

theorem malloc_returns_fresh_block_witness:
  "\<exists>s s' p. kheap_inv (Suc 0) (Suc 0) s demo_lists (\<lambda>_ _. Map.empty) \<and>
     remote_malloc (Suc 0) (Suc 0) 100 0 0 s = Some (Inr (p, s')) \<and>
     (\<exists>k. (100::nat) \<le> 2 ^ k \<and> {unat p..<unat p + 2 ^ k} \<subseteq> heap_segment (kernel_heap s 0 0))"
proof -
  obtain s where s: "kheap_inv (Suc 0) (Suc 0) s demo_lists (\<lambda>_ _. Map.empty)"
    "has_heap (Suc 0) (Suc 0) s 0 0" "heap_size (kernel_heap s 0 0) = 0x200"
    using demo_state by blast
  obtain s' where r: "remote_malloc (Suc 0) (Suc 0) 100 0 0 s = Some (Inr (0x300, s'))"
    using remote_malloc_refines [OF s(1,2), of 100] s(3) by (auto simp: demo_request demo_malloc)
  from malloc_returns_fresh_block [OF s(1,2) r] have "\<exists>k. (100::nat) \<le> 2 ^ k \<and>
      {unat (0x300 :: u32)..<unat (0x300 :: u32) + 2 ^ k} \<subseteq> heap_segment (kernel_heap s 0 0)"
    by auto
  then show ?thesis using s(1) r by blast
qed

text \<open>C3: \<open>_free\<close> right after \<open>_remote_malloc\<close> gives back exactly the free lists and the allocation
  map there were before (every block split for the request is merged again), and a second \<open>_free\<close> of
  the same pointer is refused.\<close>

theorem free_undoes_malloc:
  assumes "kheap_inv X Y s F A" "has_heap X Y s x y"
    "remote_malloc X Y sz x y s = Some (Inr (p, s'))" "sys_xy_from_ptr v2p p = Inr (x, y)"
  shows "\<exists>s2 s3. kfree v2p p s' = Some (Inr ((), s2)) \<and> kheap_inv X Y s2 F A \<and>
    kfree v2p p s2 = Some (Inl (Not_allocated, s3)) \<and> kheap_inv X Y s3 F A"
proof -
  let ?h = "kernel_heap s x y"
  let ?r = "(unat (alloc_base ?h), get_size_index (alloc_size ?h))"
  obtain fl k where m: "amalloc (unat (heap_size ?h)) (F x y) (A x y) k = Some (unat p, fl, (A x y)(unat p \<mapsto> k))"
    "kheap_inv X Y s' (upd2 F x y fl) (upd2 A x y ((A x y)(unat p \<mapsto> k)))" "6 \<le> k" "same_layout s s'"
    using malloc_success [OF assms(1-3)] by blast
  have geom: "heap_geom 6 (get_size_index (alloc_size ?h)) ?h"
    and inv: "buddy_inv 6 (heap_lo ?h) (heap_hi ?h) ?r (F x y) (A x y)"
    using kheap_invD(1) [OF assms(1,2)] by (simp_all add: heap_ok_def)
  note inv' = buddy_inv_amalloc [OF inv m(3,1)]
  have u: "((A x y)(unat p \<mapsto> k)) (unat p) = Some k" by simp
  note ab = buddy_invD(3) [OF inv'(1) u]
  have "heap_hi ?h - heap_lo ?h < 2 ^ 32" using geom by (simp add: heap_geom_def)
  from afree_amalloc [OF inv this m(1)]
  have restored: "aupdate fl (unat p) k = F x y" "(A x y)(unat p := None) = A x y"
    by (simp_all add: afree_def)
  have seg: "unat p \<in> heap_segment ?h"
    using ab zero_less_power [of "2::nat" k] unfolding heap_segment_def atLeastLessThan_iff by linarith
  have d64: "(64::nat) dvd unat p"
    using dvd_trans [OF le_imp_power_dvd [OF m(3), of 2], of "unat p"] ab by simp
  have blk: "block_of ?h p = unat p"
    using geom seg d64 unfolding block_of_def heap_geom_def heap_segment_def by (simp add: dvd_diff_nat)
  have xy': "has_heap X Y s' x y" using assms(2) same_layoutD(1) [OF m(4)] by simp
  obtain s2 where s2: "kfree v2p p s' = Some (Inr ((), s2))" "kheap_inv X Y s2 F A" "same_layout s' s2"
    using kfree_refines [OF m(2) xy' assms(4)] seg blk ab restored same_layoutD [OF m(4)] by auto
  have xy2: "has_heap X Y s2 x y" using xy' same_layoutD(1) [OF s2(3)] by simp
  have "A x y (unat p) = None" by (rule inv'(2))
  then have "\<exists>s3. kfree v2p p s2 = Some (Inl (Not_allocated, s3)) \<and> kheap_inv X Y s3 F A"
    using kfree_refines [OF s2(2) xy2 assms(4)] seg blk same_layoutD [OF m(4)] same_layoutD [OF s2(3)]
    by auto
  then show ?thesis using s2 by blast
qed

theorem free_undoes_malloc_witness:
  "\<exists>s p s' s2. remote_malloc (Suc 0) (Suc 0) 100 0 0 s = Some (Inr (p, s')) \<and>
     kfree (\<lambda>_. Inr 0) p s' = Some (Inr ((), s2)) \<and>
     kheap_inv (Suc 0) (Suc 0) s2 demo_lists (\<lambda>_ _. Map.empty)"
proof -
  obtain s where s: "kheap_inv (Suc 0) (Suc 0) s demo_lists (\<lambda>_ _. Map.empty)"
    "has_heap (Suc 0) (Suc 0) s 0 0" "heap_size (kernel_heap s 0 0) = 0x200"
    using demo_state by blast
  obtain s' where r: "remote_malloc (Suc 0) (Suc 0) 100 0 0 s = Some (Inr (0x300, s'))"
    using remote_malloc_refines [OF s(1,2), of 100] s(3) by (auto simp: demo_request demo_malloc)
  from free_undoes_malloc [OF s(1,2) r demo_v2p] r show ?thesis by blast
qed

end
