(* ===== verification/User_Malloc.thy ===== *)
theory User_Malloc
  imports Kernel_Malloc_Init
begin

text \<open>
  The user heap of \<open>giet_libs/malloc.c\<close>: the same buddy algorithm as the kernel heap, compiled in the
  application, with blocks of at least 128 bytes and one descriptor \<open>giet_heap_t\<close> per cluster that
  \<open>heap_init\<close> must set up. The descriptor extends the kernel's one with the three fields it has
  besides. The operations refine the kernel ones, except that \<open>free\<close> does not clear the
  \<open>alloc[]\<close> entry of the block it releases.
\<close>

section \<open>Descriptor and state\<close>

record giet_heap = kernel_heap +
  init :: u32
  x_coord :: u32
  y_coord :: u32

record uheap_state =
  heap :: "nat \<Rightarrow> nat \<Rightarrow> giet_heap"
  umem :: mem

type_synonym 'a uheap_outcome = "(panic \<times> uheap_state) + ('a \<times> uheap_state)"

definition HEAP_INITIALIZED :: u32 where
  "HEAP_INITIALIZED = 0xDEADBEEF"

definition USER_MIN_BLOCK_SIZE :: u32 where
  "USER_MIN_BLOCK_SIZE = 0x80"

definition put_uheap :: "nat \<Rightarrow> nat \<Rightarrow> giet_heap \<Rightarrow> mem \<Rightarrow> uheap_state \<Rightarrow> uheap_state" where
  "put_uheap x y h m s = s\<lparr>heap := (heap s)(x := (heap s x)(y := h)), umem := m\<rparr>"

section \<open>Operations\<close>

function user_split_block :: "giet_heap \<Rightarrow> mem \<Rightarrow> u32 \<Rightarrow> nat \<Rightarrow> nat
    \<Rightarrow> (u32 \<times> giet_heap \<times> mem) option" where
  "user_split_block h m vaddr searched_index requested_index =
     (if searched_index = 0 \<or> 32 < searched_index then None
      else
        let new = vaddr + push_bit (searched_index - 1) 1;
            m' = store32 m new (free_list h ! (searched_index - 1));
            h' = h\<lparr>free_list := (free_list h)[searched_index - 1 := new]\<rparr>
        in if searched_index = requested_index + 1 then Some (vaddr, h', m')
           else user_split_block h' m' vaddr (searched_index - 1) requested_index)"
  by pat_completeness auto
termination
  by (relation "measure (\<lambda>(h, m, v, j, k). j)") auto

function user_get_block :: "giet_heap \<Rightarrow> mem \<Rightarrow> nat \<Rightarrow> nat
    \<Rightarrow> (u32 \<times> giet_heap \<times> mem) option" where
  "user_get_block h m searched_index requested_index =
     (if 32 \<le> searched_index then None
      else if push_bit searched_index 1 > heap_size h then Some (0, h, m)
      else
        let vaddr = free_list h ! searched_index
        in if vaddr = 0 then user_get_block h m (searched_index + 1) requested_index
           else
             let next = load32 m vaddr;
                 h' = h\<lparr>free_list := (free_list h)[searched_index := next]\<rparr>
             in if searched_index = requested_index then Some (vaddr, h', m)
                else user_split_block h' m vaddr searched_index requested_index)"
  by pat_completeness auto
termination
  by (relation "measure (\<lambda>(h, m, j, k). 32 - j)") auto

function user_update_free_array :: "giet_heap \<Rightarrow> mem \<Rightarrow> u32 \<Rightarrow> nat \<Rightarrow> (giet_heap \<times> mem) option" where
  "user_update_free_array h m base size_index =
     (if 32 \<le> size_index then None
      else
        let sz = push_bit size_index 1;
            companion_base = (if base AND sz = 0 then base + sz else base - sz);
            merged_base = (if base AND sz = 0 then base else base - sz)
        in case scan_free m companion_base (free_list h ! size_index) None of
             None \<Rightarrow> None
           | Some (found, iter, prev) \<Rightarrow>
               if \<not> found
               then Some (h\<lparr>free_list := (free_list h)[size_index := base]\<rparr>,
                          store32 m base (free_list h ! size_index))
               else (case prev of
                       None \<Rightarrow> user_update_free_array
                         (h\<lparr>free_list := (free_list h)[size_index := load32 m iter]\<rparr>) m
                         merged_base (size_index + 1)
                     | Some p \<Rightarrow> user_update_free_array h (store32 m p (load32 m iter))
                         merged_base (size_index + 1)))"
  by pat_completeness auto
termination
  by (relation "measure (\<lambda>(h, m, base, k). 32 - k)") auto

declare user_split_block.simps [simp del] user_get_block.simps [simp del]
  user_update_free_array.simps [simp del]

text \<open>The loop of \<open>heap_init\<close> that clears the \<open>alloc[]\<close> array word by word.\<close>

fun clear_words :: "mem \<Rightarrow> u32 \<Rightarrow> nat \<Rightarrow> mem" where
  "clear_words m tab 0 = m"
| "clear_words m tab (Suc n) = clear_words (store32 m tab 0) (tab + 4) n"

text \<open>\<open>giet_heap_info\<close> gives the base and the size of the heap vseg of the cluster: an argument.\<close>

definition user_heap_init :: "(nat \<Rightarrow> nat \<Rightarrow> u32 \<times> u32) \<Rightarrow> nat \<Rightarrow> nat \<Rightarrow> uheap_state
    \<Rightarrow> unit uheap_outcome option" where
  "user_heap_init giet_heap_info x y s =
     (let (hbase, hsize) = giet_heap_info x y; heap_index = get_size_index hsize
      in if hsize = 0 then Some (Inl (No_heap, s))
         else if 32 \<le> heap_index then None
         else if hsize \<noteq> push_bit heap_index 1 then Some (Inl (Heap_not_power_of_two, s))
         else if hbase mod hsize \<noteq> 0 then Some (Inl (Heap_not_aligned, s))
         else
           let asize = hsize div USER_MIN_BLOCK_SIZE;
               asize = (if asize < USER_MIN_BLOCK_SIZE then USER_MIN_BLOCK_SIZE else asize);
               alloc_index = get_size_index asize;
               abase = hbase + hsize - asize;
               m = clear_words (umem s) abase (unat (drop_bit 2 asize))
           in Option.bind (if heap_index = 0 then None
                else heap_split_loop m (replicate 32 0) hbase (heap_index - 1) alloc_index)
                (\<lambda>(m, fr). Some (Inr ((), put_uheap x y ((heap s x y)\<lparr>free_list := fr,
                   init := HEAP_INITIALIZED, x_coord := word_of_nat x, y_coord := word_of_nat y,
                   heap_base := hbase, heap_size := hsize, alloc_size := asize, alloc_base := abase,
                   lock := user_lock_init (lock (heap s x y))\<rparr>) m s))))"

definition user_remote_malloc ::
    "nat \<Rightarrow> nat \<Rightarrow> u32 \<Rightarrow> nat \<Rightarrow> nat \<Rightarrow> uheap_state \<Rightarrow> u32 uheap_outcome option" where
  "user_remote_malloc X_SIZE Y_SIZE sz x y s =
     (if sz = 0 then Some (Inl (Zero_size, s))
      else if x \<ge> X_SIZE then Some (Inl (Illegal_coordinates, s))
      else if y \<ge> Y_SIZE then Some (Inl (Illegal_coordinates, s))
      else if init (heap s x y) \<noteq> HEAP_INITIALIZED then Some (Inl (Not_initialized, s))
      else
        let sz = (if sz < USER_MIN_BLOCK_SIZE then USER_MIN_BLOCK_SIZE else sz);
            requested_index = get_size_index sz;
            h = heap s x y
        in Option.bind (user_lock_acquire (lock h)) (\<lambda>lk.
           Option.bind (user_get_block (h\<lparr>lock := lk\<rparr>) (umem s) requested_index requested_index)
             (\<lambda>(base, h, m).
              let unlocked = h\<lparr>lock := user_lock_release (lock h)\<rparr>
              in if base = 0 then Some (Inl (No_more_space, put_uheap x y unlocked m s))
                 else
                   let offset = (base - heap_base h) div USER_MIN_BLOCK_SIZE;
                       ptr = alloc_base h + offset
                   in if m ptr \<noteq> 0
                      then Some (Inl (Already_allocated, put_uheap x y unlocked m s))
                      else Some (Inr (base,
                             put_uheap x y unlocked (m(ptr := word_of_nat requested_index)) s)))))"

text \<open>\<open>giet_proc_xyp\<close> and \<open>giet_get_xy\<close> are the system calls that give the cluster of the calling
  processor and of a pointer.\<close>

definition user_malloc :: "nat \<times> nat \<Rightarrow> nat \<Rightarrow> nat \<Rightarrow> u32 \<Rightarrow> uheap_state \<Rightarrow> u32 uheap_outcome option" where
  "user_malloc giet_proc_xyp X_SIZE Y_SIZE sz s =
     user_remote_malloc X_SIZE Y_SIZE sz (fst giet_proc_xyp) (snd giet_proc_xyp) s"

definition user_free :: "(u32 \<Rightarrow> nat \<times> nat) \<Rightarrow> u32 \<Rightarrow> uheap_state \<Rightarrow> unit uheap_outcome option" where
  "user_free giet_get_xy ptr s =
     (let (x, y) = giet_get_xy ptr; base = ptr; h = heap s x y
      in if base < heap_base h \<or> base \<ge> heap_base h + heap_size h
         then Some (Inl (Illegal_pointer, s))
         else
           Option.bind (user_lock_acquire (lock h)) (\<lambda>lk.
             let h = h\<lparr>lock := lk\<rparr>; m = umem s;
                 index = (base - heap_base h) div USER_MIN_BLOCK_SIZE;
                 pchar = alloc_base h + index;
                 size_index = unat (m pchar)
             in if size_index = 0
                then Some (Inl (Not_allocated,
                  put_uheap x y (h\<lparr>lock := user_lock_release (lock h)\<rparr>) m s))
                else if 32 \<le> size_index then None
                else if base mod push_bit size_index 1 \<noteq> 0
                then Some (Inl (Block_not_aligned, put_uheap x y h m s))
                else Option.bind (user_update_free_array h m base size_index)
                  (\<lambda>(h, m). Some (Inr ((),
                     put_uheap x y (h\<lparr>lock := user_lock_release (lock h)\<rparr>) m s)))))"

section \<open>The recursive functions are the kernel's\<close>

abbreviation core :: "giet_heap \<Rightarrow> kernel_heap" where
  "core g \<equiv> kernel_heap.truncate g"

lemma core_simps [simp]:
  "free_list (core g) = free_list g" "heap_base (core g) = heap_base g"
  "heap_size (core g) = heap_size g" "alloc_base (core g) = alloc_base g"
  "alloc_size (core g) = alloc_size g" "lock (core g) = lock g"
  "core (g\<lparr>free_list := fr\<rparr>) = (core g)\<lparr>free_list := fr\<rparr>"
  "core (g\<lparr>lock := lk\<rparr>) = (core g)\<lparr>lock := lk\<rparr>"
  by (simp_all add: kernel_heap.defs)

lemma user_split_block_core:
  "user_split_block g m v j k = map_option (\<lambda>(b, h, m). (b, g\<lparr>free_list := free_list h\<rparr>, m))
     (split_block (core g) m v j k)"
proof (induction g m v j k rule: user_split_block.induct)
  case (1 g m v j k)
  then show ?case
    by (subst user_split_block.simps, subst split_block.simps)
      (simp add: Let_def option.map_comp comp_def split_def)
qed

lemma user_get_block_core:
  "user_get_block g m j k = map_option (\<lambda>(b, h, m). (b, g\<lparr>free_list := free_list h\<rparr>, m))
     (get_block (core g) m j k)"
proof (induction g m j k rule: user_get_block.induct)
  case (1 g m j k)
  then show ?case
    by (subst user_get_block.simps, subst get_block.simps)
      (simp add: Let_def user_split_block_core option.map_comp comp_def split_def)
qed

lemma user_update_free_array_core:
  "user_update_free_array g m b k = map_option (\<lambda>(h, m). (g\<lparr>free_list := free_list h\<rparr>, m))
     (update_free_array (core g) m b k)"
proof (induction g m b k rule: user_update_free_array.induct)
  case (1 g m b k)
  then show ?case
    by (subst user_update_free_array.simps, subst update_free_array.simps)
      (auto simp: Let_def option.map_comp comp_def split_def split: option.split)
qed

section \<open>Allocation\<close>

definition user_request_index :: "u32 \<Rightarrow> nat" where
  "user_request_index sz = get_size_index (if sz < USER_MIN_BLOCK_SIZE then USER_MIN_BLOCK_SIZE else sz)"

lemma user_request_index_bounds:
  "7 \<le> user_request_index sz" "unat sz \<le> 2 ^ 31 \<Longrightarrow> user_request_index sz \<le> 31"
  "unat sz \<le> 2 ^ 31 \<Longrightarrow> unat sz \<le> 2 ^ user_request_index sz"
proof -
  let ?sz = "if sz < USER_MIN_BLOCK_SIZE then USER_MIN_BLOCK_SIZE else sz"
  have ge: "128 \<le> unat ?sz" "unat sz \<le> unat ?sz"
    by (auto simp: USER_MIN_BLOCK_SIZE_def word_less_nat_alt not_less)
  show "7 \<le> user_request_index sz"
    using get_size_index_le [of 6 ?sz] ge(1) unfolding user_request_index_def by simp
  show le: "user_request_index sz \<le> 31" if "unat sz \<le> 2 ^ 31"
    using get_size_index_le [of 31 ?sz] that unfolding user_request_index_def
    by (simp add: USER_MIN_BLOCK_SIZE_def)
  show "unat sz \<le> 2 ^ user_request_index sz" if "unat sz \<le> 2 ^ 31"
    using get_size_index_le [of "user_request_index sz" ?sz] le [OF that] ge(2)
    unfolding user_request_index_def by simp
qed

definition user_ok :: "uheap_state \<Rightarrow> nat \<Rightarrow> nat \<Rightarrow> free_lists \<Rightarrow> allocation \<Rightarrow> bool" where
  "user_ok s x y fl al \<longleftrightarrow>
     heap_ok 7 (get_size_index (alloc_size (heap s x y))) (core (heap s x y)) (umem s) fl al \<and>
     lock_idle (lock (heap s x y)) \<and> init (heap s x y) = HEAP_INITIALIZED"

lemma heap_put [simp]:
  "heap (put_uheap x y h m s) = upd2 (heap s) x y h" "umem (put_uheap x y h m s) = m"
  by (simp_all add: put_uheap_def upd2_def)

lemma user_alloc_pointer:
  assumes "heap_base h \<le> p"
  shows "alloc_base h + (p - heap_base h) div USER_MIN_BLOCK_SIZE = alloc_byte 7 (core h) (unat p)"
  using alloc_byte_of_pointer [of USER_MIN_BLOCK_SIZE 7 "core h" p] assms
  by (simp add: USER_MIN_BLOCK_SIZE_def)

lemma user_remote_malloc_run:
  assumes "x < X" "y < Y" "sz \<noteq> 0" "init (heap s x y) = HEAP_INITIALIZED"
    "spin_lock_acquire (lock (heap s x y)) = Some lk"
  shows "user_remote_malloc X Y sz x y s = Option.bind
      (user_get_block ((heap s x y)\<lparr>lock := lk\<rparr>) (umem s) (user_request_index sz) (user_request_index sz))
      (\<lambda>(base, h, m). let unlocked = h\<lparr>lock := spin_lock_release (lock h)\<rparr>
        in if base = 0 then Some (Inl (No_more_space, put_uheap x y unlocked m s))
           else let ptr = alloc_base h + (base - heap_base h) div USER_MIN_BLOCK_SIZE
             in if m ptr \<noteq> 0 then Some (Inl (Already_allocated, put_uheap x y unlocked m s))
                else Some (Inr (base, put_uheap x y unlocked (m(ptr := word_of_nat (user_request_index sz))) s)))"
  using assms unfolding user_remote_malloc_def user_request_index_def Let_def user_lock_is_spin_lock
  by (simp add: not_le)

lemma user_malloc_refines:
  assumes ok: "user_ok s x y fl al" and xy: "x < X" "y < Y" and sz: "sz \<noteq> 0" "unat sz \<le> 2 ^ 31"
  shows "case amalloc (unat (heap_size (heap s x y))) fl al (user_request_index sz) of
      None \<Rightarrow> \<exists>s'. user_remote_malloc X Y sz x y s = Some (Inl (No_more_space, s'))
        \<and> user_ok s' x y fl al \<and> umem s' = umem s
    | Some (a, fl', al') \<Rightarrow> \<exists>s'. user_remote_malloc X Y sz x y s = Some (Inr (word_of_nat a, s'))
        \<and> user_ok s' x y fl' al' \<and> heap_base (heap s' x y) = heap_base (heap s x y)
        \<and> heap_size (heap s' x y) = heap_size (heap s x y)
        \<and> alloc_base (heap s' x y) = alloc_base (heap s x y)
        \<and> unat (word_of_nat a :: u32) = a
        \<and> same_outside {heap_lo (core (heap s x y))..<heap_hi (core (heap s x y))} (umem s) (umem s')"
proof -
  let ?g = "heap s x y" and ?k = "user_request_index sz"
  let ?ai = "get_size_index (alloc_size ?g)"
  have hok: "heap_ok 7 ?ai (core ?g) (umem s) fl al" and idle: "lock_idle (lock ?g)"
    and ini: "init ?g = HEAP_INITIALIZED" using ok by (simp_all add: user_ok_def)
  obtain lk where lk: "spin_lock_acquire (lock ?g) = Some lk" "lock_idle (spin_lock_release lk)"
    using spin.acquire_idleE [OF idle] by blast
  let ?hl = "core ?g\<lparr>lock := lk\<rparr>"
  have okl: "heap_ok 7 ?ai ?hl (umem s) fl al" using hok by simp
  note run = user_remote_malloc_run [OF xy sz(1) ini lk(1), unfolded user_get_block_core]
  show ?thesis
  proof (cases "amalloc (unat (heap_size ?g)) fl al ?k")
    case None
    have "get_block ?hl (umem s) ?k ?k = Some (0, ?hl, umem s)"
    proof (rule get_block_none)
      show "heap_geom 7 ?ai ?hl" "lists_rel ?hl (umem s) fl" using okl by (simp_all add: heap_ok_def)
      show "addresses_ok fl"
        by (rule heap_addresses_ok [of 7 ?ai ?hl "(unat (alloc_base ?hl), ?ai)" _ al])
          (use okl in \<open>simp_all add: heap_ok_def\<close>)
      show "?k \<le> 31" by (rule user_request_index_bounds(2) [OF sz(2)])
      show "aget (unat (heap_size ?hl)) fl ?k ?k = None" using None by (simp add: amalloc_def)
    qed
    then have "user_remote_malloc X Y sz x y s = Some (Inl (No_more_space,
        put_uheap x y (?g\<lparr>lock := spin_lock_release lk\<rparr>) (umem s) s))"
      by (simp add: run)
    then show ?thesis using None ok lk by (simp add: user_ok_def)
  next
    case (Some r)
    then obtain a fl' al' where mal: "amalloc (unat (heap_size ?hl)) fl al ?k = Some (a, fl', al')"
      by (cases r) auto
    let ?p = "alloc_byte 7 ?hl a"
    obtain h m where g: "get_block ?hl (umem s) ?k ?k = Some (word_of_nat a, h, m)"
      "m ?p = 0" "heap_ok 7 ?ai h (m(?p := word_of_nat ?k)) fl' al'"
      "h = ?hl\<lparr>free_list := free_list h\<rparr>" "same_outside (free_area fl) (umem s) m"
      "heap_lo ?hl \<le> a" "a < heap_hi ?hl" "unat (word_of_nat a :: u32) = a" "0 < a"
      using get_block_malloc [OF okl user_request_index_bounds(1) mal] by blast
    have nz: "(word_of_nat a :: u32) \<noteq> 0" using g(8,9) by (metis less_irrefl unsigned_0)
    have p: "alloc_base ?g + (word_of_nat a - heap_base ?g) div USER_MIN_BLOCK_SIZE = ?p"
      using user_alloc_pointer [of ?g "word_of_nat a"] g(6,8)
      by (simp add: word_le_nat_alt alloc_byte_def)
    let ?g' = "?g\<lparr>free_list := free_list h, lock := spin_lock_release lk\<rparr>"
      and ?m' = "m(?p := word_of_nat ?k)"
    have res: "user_remote_malloc X Y sz x y s = Some (Inr (word_of_nat a, put_uheap x y ?g' ?m' s))"
      using g(1,2) nz p by (simp add: run Let_def)
    have "core ?g' = h\<lparr>lock := spin_lock_release lk\<rparr>" by (subst g(4)) simp
    then have "heap_ok 7 ?ai (core ?g') ?m' fl' al'" using g(3) by simp
    then have ok': "user_ok (put_uheap x y ?g' ?m' s) x y fl' al'"
      using lk(2) ini by (simp add: user_ok_def)
    have inv2: "buddy_inv 7 (heap_lo ?hl) (heap_hi ?hl) (unat (alloc_base ?hl), ?ai) fl al"
      and geom: "heap_geom 7 ?ai ?hl"
      using okl by (simp_all add: heap_ok_def)
    have pin: "unat ?p \<in> {heap_lo ?hl..<heap_hi ?hl}"
      using alloc_byte_unat [OF geom inv2 g(6,7)] reserved_bounds [OF inv2] by auto
    have "same_outside {heap_lo (core ?g)..<heap_hi (core ?g)} (umem s) ?m'"
      by (rule same_outside_subset [OF g(5) alloc_write_outside])
        (use pin free_area_bounds [OF inv2] in auto)
    then show ?thesis using res ok' g(8) Some mal by simp
  qed
qed


section \<open>Release\<close>

text \<open>The \<open>alloc[]\<close> entry of the released block keeps its size index.\<close>

lemma user_free_keeps_entry:
  assumes ok: "user_ok s x y fl al" and al: "al (unat p) = Some k" and xy: "get_xy p = (x, y)"
  obtains s' where "user_free get_xy p s = Some (Inr ((), s'))"
    and "lists_rel (core (heap s' x y)) (umem s') (aupdate fl (unat p) k)"
    and "lock_idle (lock (heap s' x y))" and "init (heap s' x y) = HEAP_INITIALIZED"
    and "heap_base (heap s' x y) = heap_base (heap s x y)" "heap_size (heap s' x y) = heap_size (heap s x y)"
    "alloc_base (heap s' x y) = alloc_base (heap s x y)" "alloc_size (heap s' x y) = alloc_size (heap s x y)"
    and "umem s' (alloc_byte 7 (core (heap s x y)) (unat p)) = word_of_nat k"
proof -
  let ?g = "heap s x y" and ?a = "unat p"
  let ?ai = "get_size_index (alloc_size ?g)"
  have hok: "heap_ok 7 ?ai (core ?g) (umem s) fl al" and idle: "lock_idle (lock ?g)"
    and ini: "init ?g = HEAP_INITIALIZED" using ok by (simp_all add: user_ok_def)
  obtain lk where lk: "spin_lock_acquire (lock ?g) = Some lk" "lock_idle (spin_lock_release lk)"
    using spin.acquire_idleE [OF idle] by blast
  let ?hl = "core ?g\<lparr>lock := lk\<rparr>"
  have okl: "heap_ok 7 ?ai ?hl (umem s) fl al" using hok by simp
  have i: "heap_geom 7 ?ai ?hl" "alloc_rel 7 ?hl (umem s) al" "lists_rel ?hl (umem s) fl"
    "buddy_inv 7 (heap_lo ?hl) (heap_hi ?hl) (unat (alloc_base ?hl), ?ai) fl al"
    using okl by (simp_all add: heap_ok_def)
  note ab = buddy_invD(3) [OF i(4) al]
  have a: "heap_lo ?hl \<le> ?a" "?a < heap_hi ?hl" "2 ^ 7 dvd ?a"
    using ab zero_less_power [of "2::nat" k] dvd_trans [OF le_imp_power_dvd [of 7 k 2], of ?a]
    by (simp_all add: less_le_trans [of ?a "?a + 2 ^ k"])
  have k: "k < 31" using block_address(6) [OF i(1), of k ?a] ab by simp
  let ?p = "alloc_byte 7 ?hl ?a"
  have pc: "alloc_byte 7 (core ?g) ?a = ?p" by (simp add: alloc_byte_def)
  have byte: "umem s ?p = word_of_nat k" using i(2) a al by (simp add: alloc_rel_def)
  then have size: "unat (umem s ?p) = k" using k by (simp add: unat_of_nat_small)
  obtain h' m' where u: "update_free_array ?hl (umem s) (word_of_nat ?a) k = Some (h', m')"
    "lists_rel h' m' (aupdate fl ?a k)" "h' = ?hl\<lparr>free_list := free_list h'\<rparr>"
    "same_outside (free_area fl \<union> {?a..<?a + 2 ^ k}) (umem s) m'"
    using update_free_array_refines [OF i(1,4,3) al] by blast
  have pl: "alloc_base ?g + (p - heap_base ?g) div USER_MIN_BLOCK_SIZE = ?p"
    using user_alloc_pointer [of ?g p] a(1) by (simp add: word_le_nat_alt alloc_byte_def)
  have inside: "\<not> p < heap_base ?g" "\<not> heap_base ?g + heap_size ?g \<le> p"
    using a i(1) unfolding heap_geom_def
    by (simp_all add: word_less_nat_alt word_le_nat_alt unat_add_no_wrap)
  have "unat (p mod 2 ^ k) = 0" using ab k by (simp add: unat_mod unat_pow2_u32)
  then have al0: "p mod push_bit k 1 = 0" by (simp add: push_bit_one_u32 unat_0_iff)
  have uu: "user_update_free_array (?g\<lparr>lock := lk\<rparr>) (umem s) p k
      = Some (?g\<lparr>lock := lk, free_list := free_list h'\<rparr>, m')"
    using u(1) by (simp add: user_update_free_array_core)
  let ?g' = "?g\<lparr>free_list := free_list h', lock := spin_lock_release lk\<rparr>"
  have run: "user_free get_xy p s = Some (Inr ((), put_uheap x y ?g' m' s))"
    using xy inside lk(1) pl size k al0 uu ab
    unfolding user_free_def Let_def user_lock_is_spin_lock by simp
  have cr: "core ?g' = h'\<lparr>lock := spin_lock_release lk\<rparr>" by (subst u(3)) simp
  have "lists_rel (core ?g') m' (aupdate fl ?a k)" using u(2) unfolding cr by (simp add: lists_rel_def)
  moreover have "m' ?p = word_of_nat k"
  proof -
    have "unat ?p \<notin> free_area fl \<union> {?a..<?a + 2 ^ k}"
      using alloc_byte_unat [OF i(1,4) a(1,2)] free_area_reserved [OF i(4)]
        buddy_reserved_disjoint(1) [OF i(4) al] by (auto simp: disjoint_iff)
    then show ?thesis using u(4) byte by (simp add: same_outside_def)
  qed
  ultimately show thesis using that [OF run] lk(2) ini pc by simp
qed

lemma user_malloc_after_free:
  assumes ok: "user_ok s x y fl al" and xy: "x < X" "y < Y" "\<And>p. get_xy p = (x, y)"
    and run: "user_remote_malloc X Y sz x y s = Some (Inr (p, s1))"
  shows "\<exists>s2 s3. user_free get_xy p s1 = Some (Inr ((), s2)) \<and>
    user_remote_malloc X Y sz x y s2 = Some (Inl (Already_allocated, s3))"
proof -
  let ?g = "heap s x y" and ?k = "user_request_index sz"
  let ?ai = "get_size_index (alloc_size ?g)"
  have sz: "sz \<noteq> 0" using run by (auto simp: user_remote_malloc_def)
  have hok: "heap_ok 7 ?ai (core ?g) (umem s) fl al" and idle: "lock_idle (lock ?g)"
    and ini: "init ?g = HEAP_INITIALIZED" using ok by (simp_all add: user_ok_def)
  have sz31: "unat sz \<le> 2 ^ 31"
  proof (rule ccontr)
    assume big: "\<not> unat sz \<le> 2 ^ 31"
    then have "get_size_index sz = 32"
      using get_size_index_le [of 31 sz] get_size_index_max [of sz] by simp
    moreover have "\<not> sz < USER_MIN_BLOCK_SIZE"
      using big by (simp add: word_less_nat_alt USER_MIN_BLOCK_SIZE_def)
    ultimately have "user_remote_malloc X Y sz x y s = None"
      using xy sz ini by (cases "user_lock_acquire (lock ?g)")
        (simp_all add: user_remote_malloc_def not_le user_get_block.simps)
    then show False using run by simp
  qed
  note r = user_malloc_refines [OF ok xy(1,2) sz sz31]
  obtain a fl' al' where mal: "amalloc (unat (heap_size ?g)) fl al ?k = Some (a, fl', al')"
    using r run by (cases "amalloc (unat (heap_size ?g)) fl al ?k") auto
  have s1: "user_ok s1 x y fl' al'" "p = word_of_nat a" "unat p = a"
    "heap_base (heap s1 x y) = heap_base ?g" "heap_size (heap s1 x y) = heap_size ?g"
    "alloc_base (heap s1 x y) = alloc_base ?g"
    using r run mal by auto
  have geom: "heap_geom 7 ?ai (core ?g)"
    and inv: "buddy_inv 7 (heap_lo (core ?g)) (heap_hi (core ?g)) (unat (alloc_base ?g), ?ai) fl al"
    using hok by (simp_all add: heap_ok_def)
  have hsz: "heap_hi (core ?g) - heap_lo (core ?g) < 2 ^ 32" using geom by (simp add: heap_geom_def)
  note inv' = buddy_inv_amalloc [OF inv user_request_index_bounds(1) mal]
  have ala: "al' (unat p) = Some ?k" using inv'(3) s1(3) by simp
  have fl: "aupdate fl' (unat p) ?k = fl"
    using afree_amalloc [OF inv hsz mal] s1(3) inv'(3) by (simp add: afree_def)
  obtain s2 where s2: "user_free get_xy p s1 = Some (Inr ((), s2))"
    "lists_rel (core (heap s2 x y)) (umem s2) fl" "lock_idle (lock (heap s2 x y))"
    "init (heap s2 x y) = HEAP_INITIALIZED" "heap_base (heap s2 x y) = heap_base ?g"
    "heap_size (heap s2 x y) = heap_size ?g" "alloc_base (heap s2 x y) = alloc_base ?g"
    "umem s2 (alloc_byte 7 (core (heap s1 x y)) (unat p)) = word_of_nat ?k"
    by (rule user_free_keeps_entry [OF s1(1) ala xy(3)]) (simp add: fl s1(4-6))
  let ?g2 = "heap s2 x y"
  obtain lk where lk: "spin_lock_acquire (lock ?g2) = Some lk"
    using spin.acquire_idleE [OF s2(3)] by blast
  let ?hl = "core ?g2\<lparr>lock := lk\<rparr>"
  have geom2: "heap_geom 7 ?ai ?hl" using geom s2(5,6) by (simp add: heap_geom_def)
  have inv2: "buddy_inv 7 (heap_lo ?hl) (heap_hi ?hl) (unat (alloc_base ?g), ?ai) fl al"
    using inv s2(5,6) by simp
  have rel2: "lists_rel ?hl (umem s2) fl" using s2(2) by (simp add: lists_rel_def)
  have get: "aget (unat (heap_size ?hl)) fl ?k ?k = Some (a, fl')"
    using mal s2(6) by (auto simp: amalloc_def)
  obtain h m where g: "get_block ?hl (umem s2) ?k ?k = Some (word_of_nat a, h, m)"
    "h = ?hl\<lparr>free_list := free_list h\<rparr>" "same_outside (free_area fl) (umem s2) m"
    using get_block_some [OF geom2 inv2 rel2 user_request_index_bounds(1) order_refl get] by blast
  have ab: "heap_lo (core ?g) \<le> a" "a + 2 ^ ?k \<le> heap_hi (core ?g)" "2 ^ ?k dvd a"
    using buddy_invD(3) [OF inv'(1), of a ?k] inv'(3) by simp_all
  have a: "a < heap_hi (core ?g)" using ab(2) zero_less_power [of "2::nat" ?k] by linarith
  note ba = block_address [OF geom ab(3) user_request_index_bounds(1) ab(1,2)]
  let ?p = "alloc_byte 7 (core ?g) a"
  have pe: "alloc_byte 7 (core (heap s1 x y)) (unat p) = ?p"
    using s1 by (simp add: alloc_byte_def)
  have "unat ?p \<notin> free_area fl"
    using alloc_byte_unat [OF geom _ ab(1) a, of fl al] inv free_area_reserved [OF inv]
    by (auto simp: disjoint_iff)
  then have "m ?p = word_of_nat ?k"
    using g(3) s2(8) unfolding pe by (simp add: same_outside_def)
  moreover have "(word_of_nat ?k :: u8) \<noteq> 0"
  proof
    assume "(word_of_nat ?k :: u8) = 0"
    then have "unat (word_of_nat ?k :: u8) = 0" by simp
    then show False using ba(6) user_request_index_bounds(1) [of sz] by (simp add: unat_of_nat_small)
  qed
  moreover have "alloc_base ?g2 + (word_of_nat a - heap_base ?g2) div USER_MIN_BLOCK_SIZE = ?p"
    using user_alloc_pointer [of ?g "word_of_nat a"] s2(5,7) ab(1) ba(1) by (simp add: word_le_nat_alt)
  moreover have "(word_of_nat a :: u32) \<noteq> 0" using ba(1,3) by (metis less_irrefl unsigned_0)
  ultimately have "user_remote_malloc X Y sz x y s2 = Some (Inl (Already_allocated,
      put_uheap x y (?g2\<lparr>free_list := free_list h, lock := spin_lock_release lk\<rparr>) m s2))"
    using g(1) by (simp add: user_remote_malloc_run [OF xy(1,2) sz s2(4) lk] user_get_block_core Let_def)
  then show ?thesis using s2(1) by blast
qed


section \<open>Initialisation\<close>

lemma clear_words_memset:
  "4 * n < 4294967296 \<Longrightarrow> memset_words m tab 0 (word_of_nat (4 * n)) = (clear_words m tab n, 0)"
proof (induction n arbitrary: m tab)
  case 0
  then show ?case by (subst memset_words.simps) simp
next
  case (Suc n)
  have u: "unat (word_of_nat (4 * Suc n) :: u32) = 4 * Suc n"
    by (rule unat_of_nat_small) (use Suc.prems in simp)
  then have "(word_of_nat (4 * Suc n) :: u32) > 3" by (simp add: word_less_nat_alt)
  moreover have "word_of_nat (4 * Suc n) - 4 = (word_of_nat (4 * n) :: u32)" by simp
  ultimately show ?case using Suc by (subst memset_words.simps) simp
qed

lemma clear_words_fill:
  assumes "4 * n < 4294967296"
  shows "clear_words m tab n = mem_fill m tab 0 (4 * n)"
proof -
  have "unat (word_of_nat (4 * n) :: u32) = 4 * n"
    by (rule unat_of_nat_small) (use assms in simp)
  then show ?thesis
    using memset_words_fills [of 0 "word_of_nat (4 * n)" 0 0 m tab] clear_words_memset [OF assms, of m tab] assms
    by simp
qed

lemma carved_heap_ok:
  assumes h: "heap_base h = b" "heap_size h = sz" "free_list h = replicate 32 0"
    and sz: "unat sz = 2 ^ k" "kmin \<le> k" "k \<le> 30" "2 \<le> kmin"
    and b: "2 ^ k dvd unat b" "0 < b" "unat b + 2 ^ k < 2 ^ 32"
    and ai: "ai = max kmin (k - kmin)" and abase: "unat (alloc_base h) = unat b + 2 ^ k - 2 ^ ai"
    and zero: "\<And>x. unat (x - alloc_base h) < 2 ^ ai \<Longrightarrow> m x = 0"
  shows "\<exists>m' fr. heap_split_loop m (replicate 32 0) b (k - 1) ai = Some (m', fr)
    \<and> heap_ok kmin ai (h\<lparr>free_list := fr\<rparr>) m' (acarve ai (unat b) k (\<lambda>_. [])) Map.empty
    \<and> same_outside {unat b..<unat b + 2 ^ k - 2 ^ ai} m m'"
proof -
  have le: "ai \<le> k" "kmin \<le> ai" using ai sz by simp_all
  have geom: "heap_geom kmin ai h"
  proof -
    have "(2::nat) ^ k \<le> 2 ^ 30" using sz(3) by (intro power_increasing) simp_all
    then have "(2::nat) ^ k < 2 ^ 31" by simp
    moreover have "(2::nat) ^ k \<le> 2 ^ (ai + kmin)" unfolding ai by (intro power_increasing) simp_all
    moreover have "(2::nat) ^ kmin dvd unat b" using dvd_trans [OF le_imp_power_dvd [OF sz(2)] b(1)] .
    ultimately show ?thesis using sz b h by (simp add: heap_geom_def unat_gt_0 word_neq_0_conv)
  qed
  have inv0: "buddy_inv kmin (heap_lo h) (heap_hi h) (unat b, k) (\<lambda>_. []) Map.empty"
    using buddy_inv_reserved [OF b(1) sz(2)] sz(1) h by simp
  have rel0: "lists_rel h m (\<lambda>_. [])" by (simp add: lists_rel_def h)
  obtain m' fr where sp: "heap_split_loop m (free_list h) (word_of_nat (unat b)) (k - 1) ai = Some (m', fr)"
    "lists_rel (h\<lparr>free_list := fr\<rparr>) m' (acarve ai (unat b) k (\<lambda>_. []))"
    "same_outside {unat b..<unat b + 2 ^ k - 2 ^ ai} m m'"
    using heap_split_loop_refines [OF geom inv0 rel0 le(2,1)] by blast
  let ?h = "h\<lparr>free_list := fr\<rparr>"
  have inv: "buddy_inv kmin (heap_lo ?h) (heap_hi ?h) (unat (alloc_base ?h), ai)
      (acarve ai (unat b) k (\<lambda>_. [])) Map.empty"
    using buddy_inv_acarve [OF inv0 le(2,1)] by (simp add: abase)
  have geom': "heap_geom kmin ai ?h" using geom by (simp add: heap_geom_def)
  have "alloc_rel kmin ?h m Map.empty"
    unfolding alloc_rel_def
  proof (intro allI impI)
    fix a assume a: "heap_lo ?h \<le> a" "a < heap_hi ?h" "2 ^ kmin dvd a"
    have "unat (alloc_byte kmin ?h a - alloc_base h) < 2 ^ ai"
      using alloc_byte_unat [OF geom' inv a(1,2)] unat_sub_no_wrap [of "alloc_base h" "alloc_byte kmin ?h a"]
      by (simp add: word_le_nat_alt)
    then show "m (alloc_byte kmin ?h a) = (case Map.empty a of None \<Rightarrow> 0 | Some k \<Rightarrow> word_of_nat k)"
      by (simp add: zero)
  qed
  then have "alloc_rel kmin ?h m' Map.empty"
    by (rule alloc_rel_outside [OF geom' inv _ sp(3)]) (simp add: abase disjoint_iff)
  then have "heap_ok kmin ai ?h m' (acarve ai (unat b) k (\<lambda>_. [])) Map.empty"
    using geom' inv sp(2) by (simp add: heap_ok_def)
  then show ?thesis using sp h by auto
qed

lemma user_heap_init_ok:
  assumes info: "info x y = (b, sz)" and sz: "unat sz = 2 ^ k" "7 \<le> k" "k \<le> 30"
    and b: "2 ^ k dvd unat b" "0 < b" "unat b + 2 ^ k < 2 ^ 32"
  shows "\<exists>s'. user_heap_init info x y s = Some (Inr ((), s'))
    \<and> user_ok s' x y (acarve (max 7 (k - 7)) (unat b) k (\<lambda>_. [])) Map.empty
    \<and> heap_size (heap s' x y) = sz \<and> heap_base (heap s' x y) = b"
proof -
  let ?ai = "max 7 (k - 7)"
  let ?asize = "if sz div USER_MIN_BLOCK_SIZE < USER_MIN_BLOCK_SIZE then USER_MIN_BLOCK_SIZE
    else sz div USER_MIN_BLOCK_SIZE"
  have idx: "get_size_index sz = k" by (rule get_size_index_exact) (use sz in simp_all)
  have div: "unat (sz div USER_MIN_BLOCK_SIZE) = 2 ^ (k - 7)"
    using sz power_add [of "2::nat" 7 "k - 7"] by (simp add: unat_div USER_MIN_BLOCK_SIZE_def)
  have asize: "unat ?asize = 2 ^ ?ai"
  proof (cases "k - 7 < 7")
    case True
    then have "(2::nat) ^ (k - 7) < 2 ^ 7" by (simp only: pow2_strict_mono)
    then have "unat (sz div USER_MIN_BLOCK_SIZE) < 128" using div by simp
    then have "sz div USER_MIN_BLOCK_SIZE < USER_MIN_BLOCK_SIZE"
      by (simp add: word_less_nat_alt USER_MIN_BLOCK_SIZE_def)
    then show ?thesis using True by (simp add: USER_MIN_BLOCK_SIZE_def)
  next
    case False
    then have "(2::nat) ^ 7 \<le> 2 ^ (k - 7)" by (intro power_increasing) simp_all
    then have "128 \<le> unat (sz div USER_MIN_BLOCK_SIZE)" using div by simp
    then have "\<not> sz div USER_MIN_BLOCK_SIZE < USER_MIN_BLOCK_SIZE"
      by (simp add: word_less_nat_alt USER_MIN_BLOCK_SIZE_def)
    then show ?thesis using False div by simp
  qed
  have aidx: "get_size_index ?asize = ?ai" by (rule get_size_index_exact [OF asize]) (use sz in simp)
  have le: "(2::nat) ^ ?ai \<le> 2 ^ k" using sz by simp
  let ?abase = "b + sz - ?asize"
  have bs: "unat (b + sz) = unat b + 2 ^ k" using b sz by (simp add: unat_add_no_wrap)
  have abase: "unat ?abase = unat b + 2 ^ k - 2 ^ ?ai"
    using bs asize trans_le_add2 [OF le, of "unat b"]
    by (subst unat_sub_no_wrap) (simp_all add: word_le_nat_alt)
  let ?n = "unat (drop_bit 2 ?asize)" and ?m = "clear_words (umem s) ?abase (unat (drop_bit 2 ?asize))"
  have "unat (drop_bit 2 w) = unat w div 4" for w :: u32 by (simp add: drop_bit_eq_div unat_div)
  then have "?n = 2 ^ ?ai div 4" unfolding asize [symmetric] .
  moreover have "(4::nat) dvd 2 ^ ?ai" using le_imp_power_dvd [of 2 ?ai "2::nat"] by simp
  ultimately have n: "4 * ?n = 2 ^ ?ai" by simp
  have "(2::nat) ^ ?ai < 2 ^ 32" using le b(3) by linarith
  then have fill: "?m = mem_fill (umem s) ?abase 0 (2 ^ ?ai)" using clear_words_fill [of ?n] n by simp
  let ?g = "(heap s x y)\<lparr>init := HEAP_INITIALIZED, x_coord := word_of_nat x,
    y_coord := word_of_nat y, heap_base := b, heap_size := sz, alloc_size := ?asize, alloc_base := ?abase,
    lock := user_lock_init (lock (heap s x y))\<rparr>"
  have "\<exists>m' fr. heap_split_loop ?m (replicate 32 0) b (k - 1) ?ai = Some (m', fr)
    \<and> heap_ok 7 ?ai (core (?g\<lparr>free_list := replicate 32 0\<rparr>)\<lparr>free_list := fr\<rparr>) m' (acarve ?ai (unat b) k (\<lambda>_. [])) Map.empty
    \<and> same_outside {unat b..<unat b + 2 ^ k - 2 ^ ?ai} ?m m'"
    by (rule carved_heap_ok [where sz = sz]) (use sz b abase fill in \<open>simp_all add: mem_fill_def\<close>)
  then obtain m' fr where sp: "heap_split_loop ?m (replicate 32 0) b (k - 1) ?ai = Some (m', fr)"
    "heap_ok 7 ?ai (core (?g\<lparr>free_list := fr\<rparr>)) m' (acarve ?ai (unat b) k (\<lambda>_. [])) Map.empty" by auto
  have nz: "sz \<noteq> 0" using sz(1) by auto
  have "unat (2 ^ k :: u32) = unat sz" using sz by (simp add: unat_pow2_u32)
  then have p2: "sz = push_bit k 1" unfolding push_bit_one_u32 by (metis unsigned_word_eqI)
  then have c: "(sz = push_bit k 1) = True" by simp
  have k32: "(32 \<le> k) = False" and k0: "(k = 0) = False" using sz(2,3) by simp_all
  have "unat (b mod sz) = 0" using b sz by (simp add: unat_mod)
  then have al: "b mod sz = 0" by (simp only: unat_eq_zero)
  have eq: "(heap s x y)\<lparr>free_list := fr, init := HEAP_INITIALIZED, x_coord := word_of_nat x,
      y_coord := word_of_nat y, heap_base := b, heap_size := sz, alloc_size := ?asize,
      alloc_base := ?abase, lock := user_lock_init (lock (heap s x y))\<rparr> = ?g\<lparr>free_list := fr\<rparr>"
    by (cases "heap s x y") simp
  have "user_heap_init info x y s = Some (Inr ((), put_uheap x y (?g\<lparr>free_list := fr\<rparr>) m' s))"
    unfolding user_heap_init_def Let_def info prod.case idx aidx
    using nz by (simp only: c al k32 k0 sp(1) if_False if_True simp_thms Option.bind.simps prod.case eq)
  then show ?thesis using sp(2) aidx by (simp add: user_ok_def)
qed


section \<open>Properties\<close>

text \<open>A heap of 512 bytes at address 512.\<close>

definition demo_user :: uheap_state where
  "demo_user = \<lparr>heap = (\<lambda>_ _. \<lparr>lock = \<lparr>current = 0, free_ticket = 0\<rparr>, heap_base = 0, heap_size = 0,
     alloc_base = 0, alloc_size = 0, free_list = [], init = 0, x_coord = 0, y_coord = 0\<rparr>),
     umem = (\<lambda>_. 0)\<rparr>"

text \<open>\<open>heap_init\<close> on a heap segment that is a power of two from 128 bytes to 1 Gbyte, aligned on
  its size, returns and establishes the heap invariant with one free block of each size.\<close>

theorem user_heap_init_establishes:
  assumes "info x y = (b, sz)" "unat sz = 2 ^ k" "7 \<le> k" "k \<le> 30"
    "2 ^ k dvd unat b" "0 < b" "unat b + 2 ^ k < 2 ^ 32"
  shows "\<exists>s'. user_heap_init info x y s = Some (Inr ((), s')) \<and>
    user_ok s' x y (acarve (max 7 (k - 7)) (unat b) k (\<lambda>_. [])) Map.empty"
  using user_heap_init_ok [where info = info and x = x and y = y, OF assms, of s] by blast

theorem user_heap_init_establishes_witness:
  "\<exists>s'. user_heap_init (\<lambda>_ _. (0x200, 0x200)) 0 0 demo_user = Some (Inr ((), s'))"
  using user_heap_init_establishes [of "\<lambda>_ _. (0x200, 0x200)" 0 0 "0x200" "0x200" 9 demo_user] by auto

lemma demo_user_lists:
  "acarve 7 (unat (0x200 :: u32)) 9 (\<lambda>_. []) = (\<lambda>_. [])(8 := [0x200], 7 := [0x300])"
proof -
  have "9 = Suc (Suc (Suc 6))" by simp
  then show ?thesis by (simp only: acarve.simps) (simp add: fun_eq_iff)
qed

lemma demo_user_state:
  obtains s where "user_ok s 0 0 ((\<lambda>_. [])(8 := [0x200], 7 := [0x300])) Map.empty"
    and "heap_size (heap s 0 0) = 0x200"
  using user_heap_init_ok [of "\<lambda>_ _. (0x200, 0x200)" 0 0 "0x200" "0x200" 9 demo_user]
  unfolding demo_user_lists [symmetric] by auto

lemma demo_user_request: "user_request_index 100 = 7"
  using get_size_index_exact [of "0x80" 7]
  by (simp add: user_request_index_def USER_MIN_BLOCK_SIZE_def word_less_nat_alt)

text \<open>C11: \<open>remote_malloc\<close> refines the abstract buddy allocator with blocks of at least 128 bytes, as the
  kernel's one does.\<close>

theorem user_malloc_refines_buddy:
  assumes "user_ok s x y fl al" "x < X" "y < Y" "sz \<noteq> 0" "unat sz \<le> 2 ^ 31"
  shows "case amalloc (unat (heap_size (heap s x y))) fl al (user_request_index sz) of
      None \<Rightarrow> \<exists>s'. user_remote_malloc X Y sz x y s = Some (Inl (No_more_space, s'))
        \<and> user_ok s' x y fl al \<and> umem s' = umem s
    | Some (a, fl', al') \<Rightarrow> \<exists>s'. user_remote_malloc X Y sz x y s = Some (Inr (word_of_nat a, s'))
        \<and> user_ok s' x y fl' al'"
  using user_malloc_refines [OF assms] by (auto split: option.splits)

theorem user_malloc_refines_buddy_witness:
  "\<exists>s s'. user_remote_malloc 1 1 100 0 0 s = Some (Inr (0x300, s'))
     \<and> user_ok s' 0 0 ((\<lambda>_. [])(8 := [0x200])) [0x300 \<mapsto> 7]"
proof -
  obtain s where s: "user_ok s 0 0 ((\<lambda>_. [])(8 := [0x200], 7 := [0x300])) Map.empty"
    "heap_size (heap s 0 0) = 0x200" by (rule demo_user_state)
  have "amalloc (unat (heap_size (heap s 0 0))) ((\<lambda>_. [])(8 := [0x200], 7 := [0x300])) Map.empty 7
      = Some (0x300, (\<lambda>_. [])(8 := [0x200]), [0x300 \<mapsto> 7])"
  proof -
    have "asplit fl a 7 7 = fl" for fl a
      by (simp add: numeral_eq_Suc)
    then show ?thesis by (subst amalloc_def, subst aget.simps) (auto simp: s(2) fun_eq_iff)
  qed
  with user_malloc_refines_buddy [OF s(1), of 1 1 100] show ?thesis
    by (auto simp: demo_user_request)
qed

text \<open>\<open>free\<close> does not clear the \<open>alloc[]\<close> entry of the block: from every valid heap, allocate, free and
  the same allocation again ends in the exit "block already allocated", although the free lists are
  those of the first allocation.\<close>

theorem user_free_leaves_entry:
  assumes "user_ok s x y fl al" "x < X" "y < Y" "\<And>q. get_xy q = (x, y)"
    "user_remote_malloc X Y sz x y s = Some (Inr (p, s1))"
  shows "\<exists>s2 s3. user_free get_xy p s1 = Some (Inr ((), s2)) \<and>
    user_remote_malloc X Y sz x y s2 = Some (Inl (Already_allocated, s3))"
  by (rule user_malloc_after_free [OF assms])

theorem user_free_leaves_entry_witness:
  "\<exists>s s1 s2 s3 p. user_remote_malloc 1 1 100 0 0 s = Some (Inr (p, s1)) \<and>
     user_free (\<lambda>_. (0, 0)) p s1 = Some (Inr ((), s2)) \<and>
     user_remote_malloc 1 1 100 0 0 s2 = Some (Inl (Already_allocated, s3))"
proof -
  obtain s where s: "user_ok s 0 0 ((\<lambda>_. [])(8 := [0x200], 7 := [0x300])) Map.empty"
    "heap_size (heap s 0 0) = 0x200" by (rule demo_user_state)
  obtain p s1 where r: "user_remote_malloc 1 1 100 0 0 s = Some (Inr (p, s1))"
  proof -
    have "amalloc (unat (heap_size (heap s 0 0))) ((\<lambda>_. [])(8 := [0x200], 7 := [0x300])) Map.empty 7 \<noteq> None"
      by (subst amalloc_def, subst aget.simps) (simp add: s(2))
    then show thesis using user_malloc_refines [OF s(1), of 1 1 100] that
      by (auto simp: demo_user_request)
  qed
  from user_free_leaves_entry [OF s(1) _ _ _ r, of "\<lambda>_. (0, 0)"] r show ?thesis by fastforce
qed

end
