(* ===== verification/Page_Tables.thy ===== *)
theory Page_Tables
  imports C_Memory Spin_Lock Mapping_Info
begin

text \<open>
  The physical memory allocator of the boot loader (\<open>giet_common/pmem.c\<close>), the page tables it
  builds (\<open>boot_add_pte1\<close>, \<open>boot_add_pte2\<close>, \<open>boot_vseg_map\<close>, \<open>boot_vseg_pte\<close> in
  \<open>giet_boot/boot.c\<close>) and the software translation of the kernel (\<open>_v2p_translate\<close> in
  \<open>giet_common/vmem.c\<close>). A page table is a PT1 of 2048 words followed by an array of PT2s of 512
  double words, in a 40-bit physical memory that \<open>_physical_read\<close> and \<open>_physical_write\<close> access
  by aligned words.
\<close>

section \<open>Physical page allocator\<close>

record pmem_alloc =
  px :: u32
  py :: u32
  max_bppi :: u32
  nxt_bppi :: u32
  max_sppi :: u32
  nxt_sppi :: u32
  spp_bppi :: u32

definition pmem_alloc_init :: "u32 \<Rightarrow> u32 \<Rightarrow> u32 \<Rightarrow> u32 \<Rightarrow> pmem_alloc \<Rightarrow> panic + pmem_alloc" where
  "pmem_alloc_init x y base sz p =
     (if base AND 0x1FFFFF \<noteq> 0 \<or> sz AND 0x1FFFFF \<noteq> 0 then Inl Pseg_not_aligned
      else
        let bppi_min = drop_bit 21 base;
            bppi_max = drop_bit 21 (base + sz);
            p = p\<lparr>px := x, py := y, nxt_bppi := bppi_min, max_bppi := bppi_max,
                  nxt_sppi := 0, max_sppi := 0\<rparr>
        in Inr (if x = 0 \<and> y = 0 then p\<lparr>nxt_bppi := nxt_bppi p + 1\<rparr> else p))"

definition get_big_ppn :: "pmem_alloc \<Rightarrow> u32 \<Rightarrow> panic + u32 \<times> pmem_alloc" where
  "get_big_ppn p n =
     (let bpi = nxt_bppi p
      in if bpi + n > max_bppi p then Inl Not_enough_pages
         else Inr (push_bit 24 (px p) + push_bit 20 (py p) + push_bit 9 bpi, p\<lparr>nxt_bppi := bpi + n\<rparr>))"

definition get_small_ppn :: "pmem_alloc \<Rightarrow> u32 \<Rightarrow> panic + u32 \<times> pmem_alloc" where
  "get_small_ppn p n =
     (let spi = nxt_sppi p; bpi = spp_bppi p;
          refill = (if spi + n > max_sppi p
            then if nxt_bppi p + 1 > max_bppi p then Inl Not_enough_pages
                 else let p = p\<lparr>spp_bppi := nxt_bppi p, nxt_bppi := nxt_bppi p + 1,
                                nxt_sppi := 0, max_sppi := 512\<rparr>
                      in Inr (p, nxt_sppi p, spp_bppi p)
            else Inr (p, spi, bpi))
      in case refill of
           Inl e \<Rightarrow> Inl e
         | Inr (p, spi, bpi) \<Rightarrow>
             Inr (push_bit 24 (px p) + push_bit 20 (py p) + push_bit 9 bpi + spi,
                  p\<lparr>nxt_sppi := nxt_sppi p + n\<rparr>))"

section \<open>State of the boot loader\<close>

definition PTE_V :: u32 where "PTE_V = 0x80000000"
definition PTE_T :: u32 where "PTE_T = 0x40000000"
definition PTE_L :: u32 where "PTE_L = 0x20000000"
definition PTE_R :: u32 where "PTE_R = 0x10000000"
definition PTE_C :: u32 where "PTE_C = 0x08000000"
definition PTE_W :: u32 where "PTE_W = 0x04000000"
definition PTE_X :: u32 where "PTE_X = 0x02000000"
definition PTE_U :: u32 where "PTE_U = 0x01000000"
definition PTE_G :: u32 where "PTE_G = 0x00800000"
definition PTE_D :: u32 where "PTE_D = 0x00400000"
definition C_MODE_MASK :: u32 where "C_MODE_MASK = 8"
definition X_MODE_MASK :: u32 where "X_MODE_MASK = 4"
definition W_MODE_MASK :: u32 where "W_MODE_MASK = 2"
definition U_MODE_MASK :: u32 where "U_MODE_MASK = 1"
definition PT1_SIZE :: u32 where "PT1_SIZE = 8192"
definition PT2_SIZE :: u32 where "PT2_SIZE = 4096"

type_synonym phys_mem = "u64 \<Rightarrow> u32"

text \<open>The arrays indexed by vspace and cluster, the allocators, and the physical memory.\<close>

record boot_state =
  ptabs_vaddr :: "u32 array3"
  ptabs_paddr :: "u64 array3"
  ptabs_next_pt2 :: "u32 array3"
  ptabs_max_pt2 :: u32
  ptabs_lock :: "spin_lock array3"
  boot_pmem_alloc :: "nat \<Rightarrow> nat \<Rightarrow> pmem_alloc"
  phys :: phys_mem

section \<open>Registering page table entries\<close>

definition boot_add_pte1 :: "nat \<Rightarrow> nat \<Rightarrow> nat \<Rightarrow> u32 \<Rightarrow> u32 \<Rightarrow> u32 \<Rightarrow> boot_state
    \<Rightarrow> (panic + boot_state) option" where
  "boot_add_pte1 vspace_id x y vpn flags ppn st =
     (let ix1 = drop_bit 9 vpn;
          pt1_pbase = ptabs_paddr st vspace_id x y
      in if pt1_pbase = 0 then Some (Inl No_page_table)
         else let pte1 = PTE_V OR (flags AND 0x3FC00000) OR (drop_bit 9 ppn AND 0x0007FFFF)
              in Some (Inr (st\<lparr>phys := (phys st)(pt1_pbase + ucast (4 * ix1) := pte1)\<rparr>)))"

definition boot_add_pte2 :: "nat \<Rightarrow> nat \<Rightarrow> nat \<Rightarrow> u32 \<Rightarrow> u32 \<Rightarrow> u32 \<Rightarrow> boot_state
    \<Rightarrow> (panic + boot_state) option" where
  "boot_add_pte2 vspace_id x y vpn flags ppn st =
     (let ix1 = drop_bit 9 vpn; ix2 = vpn AND 0x1FF;
          pt1_pbase = ptabs_paddr st vspace_id x y
      in if pt1_pbase = 0 then Some (Inl No_page_table)
         else
           Option.bind (spin_lock_acquire (ptabs_lock st vspace_id x y)) (\<lambda>lk.
             let st = st\<lparr>ptabs_lock := upd3 (ptabs_lock st) vspace_id x y lk\<rparr>;
                 ptd = phys st (pt1_pbase + ucast (4 * ix1));
                 res = (if ptd AND PTE_V = 0
                   then let pt2_id = ptabs_next_pt2 st vspace_id x y;
                            st = st\<lparr>ptabs_next_pt2 := upd3 (ptabs_next_pt2 st) vspace_id x y (pt2_id + 1)\<rparr>
                        in if pt2_id = ptabs_max_pt2 st then Inl Not_enough_PT2
                           else let pt2_pbase = pt1_pbase + ucast PT1_SIZE + ucast (PT2_SIZE * pt2_id);
                                    ptd = PTE_V OR PTE_T OR ucast (drop_bit 12 pt2_pbase)
                                in Inr (pt2_pbase, st\<lparr>phys := (phys st)(pt1_pbase + ucast (4 * ix1) := ptd)\<rparr>)
                   else Inr (push_bit 12 (ucast (ptd AND 0x0FFFFFFF)), st))
             in case res of
                  Inl e \<Rightarrow> Some (Inl e)
                | Inr (pt2_pbase, st) \<Rightarrow>
                    let pte2_paddr = pt2_pbase + ucast (8 * ix2);
                        ph = (phys st)(pte2_paddr := PTE_V OR flags, pte2_paddr + 4 := ppn)
                    in Some (Inr (st\<lparr>phys := ph, ptabs_lock := upd3 (ptabs_lock st) vspace_id x y
                         (spin_lock_release (ptabs_lock st vspace_id x y))\<rparr>))))"

text \<open>The mask is computed on a signed 32-bit integer, as \<open>(1 << alignPow2) - 1\<close>, and widened: the shift is defined
  for the exponents below 31 only.\<close>

definition align_mask :: "u32 \<Rightarrow> u32 option" where
  "align_mask alignPow2 = (if unat alignPow2 < 31 then Some (push_bit (unat alignPow2) 1 - 1) else None)"

definition paddr_align_to :: "u64 \<Rightarrow> u32 \<Rightarrow> u64 option" where
  "paddr_align_to paddr alignPow2 =
     map_option (\<lambda>m. let mask = scast m in (paddr + mask) AND NOT mask) (align_mask alignPow2)"

definition vaddr_align_to :: "u32 \<Rightarrow> u32 \<Rightarrow> u32 option" where
  "vaddr_align_to vaddr alignPow2 =
     map_option (\<lambda>mask. (vaddr + mask) AND NOT mask) (align_mask alignPow2)"

section \<open>The translation of the kernel\<close>

text \<open>\<open>pt1\<close> is the array \<open>pt->pt1\<close> that the processor reads through the virtual address of the
  page table; the PT2 entry is read by its physical address.\<close>

definition v2p_translate :: "(u32 \<Rightarrow> u32) \<Rightarrow> phys_mem \<Rightarrow> u32 \<Rightarrow> panic + u64 \<times> u32" where
  "v2p_translate pt1 ph vaddr =
     (let offset = vaddr AND 0xFFF;
          ix1 = drop_bit 21 vaddr AND 0x7FF;
          ix2 = drop_bit 12 vaddr AND 0x1FF;
          pte1 = pt1 ix1
      in if pte1 AND PTE_V = 0 then Inl Pte1_unmapped
         else if pte1 AND PTE_T = 0
         then let offset = offset OR push_bit 12 ix2
              in Inr (push_bit 21 (ucast (pte1 AND 0x7FFFF)) OR ucast offset, pte1 AND 0xFFC00000)
         else
           let ptba = push_bit 12 (ucast (pte1 AND 0x0FFFFFFF));
               pte2_paddr = ptba + ucast (8 * ix2);
               flags_value = ph pte2_paddr;
               ppn_value = ph (pte2_paddr + 4)
           in if flags_value AND PTE_V = 0 then Inl Pte2_unmapped
              else Inr (push_bit 12 (ucast (ppn_value AND 0x0FFFFFFF)) OR ucast offset,
                        flags_value AND 0xFFC00000))"

section \<open>Mapping a vseg\<close>

text \<open>The flags of the existing PTE1 as mode bits, compared with the mode of the new vseg.\<close>

definition pte1_mode :: "u32 \<Rightarrow> u32" where
  "pte1_mode pte1 =
     (let m = (if pte1 AND PTE_C \<noteq> 0 then C_MODE_MASK else 0);
          m = (if pte1 AND PTE_X \<noteq> 0 then m OR X_MODE_MASK else m);
          m = (if pte1 AND PTE_W \<noteq> 0 then m OR W_MODE_MASK else m)
      in if pte1 AND PTE_U \<noteq> 0 then m OR U_MODE_MASK else m)"

text \<open>The address that the extension register and a register make, and the signed addition, which traps.\<close>

definition extended :: "u32 \<Rightarrow> u32 \<Rightarrow> u64" where
  "extended msb lsb = push_bit 32 (ucast msb) OR ucast lsb"

definition addi :: "u32 \<Rightarrow> u32 \<Rightarrow> u32 option" where
  "addi a b = (if sint (a + b) = sint a + sint b then Some (a + b) else None)"

fun physical_memset_loop :: "u32 \<Rightarrow> u32 \<Rightarrow> nat \<Rightarrow> u32 \<Rightarrow> phys_mem \<Rightarrow> phys_mem option" where
  "physical_memset_loop msb data 0 lsb ph = Some ph"
| "physical_memset_loop msb data (Suc iter) lsb ph =
     (let ph = ph(extended msb lsb := data, extended msb (lsb + 4) := data)
      in Option.bind (addi lsb 8) (\<lambda>lsb. physical_memset_loop msb data iter lsb ph))"

text \<open>
  \<open>_physical_memset\<close>: eight bytes at each turn, until the size is exactly zero. A size that is zero or negative at the
  start only gets smaller, until \<open>addi\<close> traps; a trap has the result \<open>None\<close>.
\<close>

definition physical_memset :: "u64 \<Rightarrow> u32 \<Rightarrow> u32 \<Rightarrow> phys_mem \<Rightarrow> (panic + phys_mem) option" where
  "physical_memset paddr sz data ph =
     (if paddr AND 3 \<noteq> 0 \<or> sz AND 7 \<noteq> 0 then Some (Inl Paddr_not_aligned)
      else if sint sz \<le> 0 then None
      else map_option Inr (physical_memset_loop (ucast (drop_bit 32 paddr)) data (unat (drop_bit 3 sz)) (ucast paddr) ph))"

text \<open>The third step, for a vseg of type PTAB: one page table per vspace.\<close>

fun ptab_init_loop :: "nat \<Rightarrow> nat \<Rightarrow> u32 \<Rightarrow> u32 \<Rightarrow> u32 \<Rightarrow> u32 \<Rightarrow> nat \<Rightarrow> nat \<Rightarrow> boot_state
    \<Rightarrow> (panic + boot_state) option" where
  "ptab_init_loop x y vpn ppn nsp offset vs 0 st = Some (Inr st)"
| "ptab_init_loop x y vpn ppn nsp offset vs (Suc n) st =
     (let pa = push_bit 12 (ucast (ppn + offset))
      in obind (physical_memset pa PT1_SIZE 0 (phys st)) (\<lambda>ph.
         ptab_init_loop x y vpn ppn nsp (offset + nsp) (Suc vs) n
           (st\<lparr>ptabs_vaddr := upd3 (ptabs_vaddr st) vs x y (push_bit 12 (vpn + offset)),
               ptabs_paddr := upd3 (ptabs_paddr st) vs x y pa,
               ptabs_next_pt2 := upd3 (ptabs_next_pt2 st) vs x y 0,
               phys := ph\<rparr>)))"

definition vseg_npages :: "bool \<Rightarrow> u32 \<Rightarrow> u32 \<Rightarrow> u32" where
  "vseg_npages big vb len =
     (let vpn = drop_bit 12 vb; vpn_max = drop_bit 12 (vb + len - 1)
      in if \<not> big then vpn_max - vpn + 1 else drop_bit 9 vpn_max - drop_bit 9 vpn + 1)"

text \<open>The choice of the physical pages: the second step of \<open>boot_vseg_map\<close>. \<open>Vseg_not_aligned\<close> and
  \<open>Different_flags\<close> exits are values of the same type as the others.\<close>

definition vseg_ppn :: "mapping_vseg \<Rightarrow> mapping_pseg \<Rightarrow> nat \<Rightarrow> nat \<Rightarrow> nat \<Rightarrow> boot_state
    \<Rightarrow> panic + u32 \<times> boot_state" where
  "vseg_ppn vseg pseg x y vsid st =
     (let vpn = drop_bit 12 (vbase vseg);
          npages = vseg_npages (vbig vseg) (vbase vseg) (vseg_length vseg);
          p = boot_pmem_alloc st x y;
          put = (\<lambda>p. st\<lparr>boot_pmem_alloc := (boot_pmem_alloc st)(x := (boot_pmem_alloc st x)(y := p))\<rparr>)
      in if vident vseg then Inr (vpn, st)
         else if ptype pseg \<noteq> PSEG_TYPE_RAM then Inr (ucast (drop_bit 12 (pseg_base pseg)), st)
         else if \<not> vbig vseg
         then (case get_small_ppn p npages of Inl e \<Rightarrow> Inl e | Inr (ppn, p) \<Rightarrow> Inr (ppn, put p))
         else
           let big = (case get_big_ppn p npages of Inl e \<Rightarrow> Inl e
                      | Inr (ppn, p) \<Rightarrow> Inr (ppn OR (vpn AND 0x1FF), put p))
           in if vtype vseg = VSEG_TYPE_PTAB then big
              else
                let ix1 = drop_bit 9 vpn;
                    pte1 = phys st (ptabs_paddr st vsid x y + ucast (push_bit 2 ix1))
                in if pte1 AND PTE_V = 0 then big
                   else if vmode vseg \<noteq> pte1_mode pte1 then Inl Different_flags
                   else Inr ((push_bit 9 pte1 AND 0x0FFFFE00) OR (vpn AND 0x1FF), st))"

definition boot_vseg_map :: "mapping \<Rightarrow> mapping_vseg \<Rightarrow> nat option \<Rightarrow> boot_state
    \<Rightarrow> (panic + mapping_vseg \<times> boot_state) option" where
  "boot_vseg_map mp vseg vspace_id st =
     Option.bind (fetch (psegs mp) (psegid vseg)) (\<lambda>pseg.
     Option.bind (fetch (clusters mp) (clusterid pseg)) (\<lambda>cluster.
       let x = cluster_x cluster; y = cluster_y cluster;
           vsid = (case vspace_id of None \<Rightarrow> 0 | Some v \<Rightarrow> v)
       in if vbase vseg AND 0xFFF \<noteq> 0 then Some (Inl Vseg_not_aligned)
          else case vseg_ppn vseg pseg x y vsid st of
                 Inl e \<Rightarrow> Some (Inl e)
               | Inr (ppn, st) \<Rightarrow>
                   let vseg' = vseg\<lparr>pbase := push_bit 12 (ucast ppn), vmapped := True\<rparr>
                   in if vtype vseg \<noteq> VSEG_TYPE_PTAB then Some (Inr (vseg', st))
                      else
                        let nspaces = vspaces (hdr mp);
                            nsp = drop_bit 12 (vseg_length vseg) div word_of_nat nspaces;
                            nsp = (if nsp AND 1 = 1 then nsp - 1 else nsp);
                            st = st\<lparr>ptabs_max_pt2 := (push_bit 12 nsp - PT1_SIZE) div PT2_SIZE\<rparr>
                        in if nspaces = 0 then None
                           else obind (ptab_init_loop x y (drop_bit 12 (vbase vseg)) ppn nsp 0 0 nspaces st)
                                  (\<lambda>st. Some (Inr (vseg', st)))))"

section \<open>Registering the entries of a vseg\<close>

definition vseg_flags :: "u32 \<Rightarrow> bool \<Rightarrow> u32" where
  "vseg_flags mode glob =
     (let f = (if mode AND C_MODE_MASK \<noteq> 0 then PTE_C else 0);
          f = (if mode AND X_MODE_MASK \<noteq> 0 then f OR PTE_X else f);
          f = (if mode AND W_MODE_MASK \<noteq> 0 then f OR PTE_W else f);
          f = (if mode AND U_MODE_MASK \<noteq> 0 then f OR PTE_U else f);
          f = (if glob then f OR PTE_G else f)
      in f OR PTE_L OR PTE_R OR PTE_D)"

text \<open>The page tables that receive a copy, in the order of the loops.\<close>

definition pte_targets :: "nat \<Rightarrow> nat \<Rightarrow> mapping \<Rightarrow> bool \<Rightarrow> nat option \<Rightarrow> nat \<Rightarrow> nat
    \<Rightarrow> (nat \<times> nat \<times> nat) list" where
  "pte_targets X_SIZE Y_SIZE mp local vspace_id x_dest y_dest =
     (let vs = (case vspace_id of None \<Rightarrow> [0..<vspaces (hdr mp)] | Some v \<Rightarrow> [v]);
          cs = (if local then [(x_dest, y_dest)]
                else [(x, y). x \<leftarrow> [0..<X_SIZE], y \<leftarrow> [0..<Y_SIZE],
                  procs (clusters mp ! (x * Y_SIZE + y)) \<noteq> 0])
      in [(v, x, y). (x, y) \<leftarrow> cs, v \<leftarrow> vs])"

fun add_to_targets :: "bool \<Rightarrow> u32 \<Rightarrow> u32 \<Rightarrow> u32 \<Rightarrow> (nat \<times> nat \<times> nat) list \<Rightarrow> boot_state
    \<Rightarrow> (panic + boot_state) option" where
  "add_to_targets big vpn flags ppn [] st = Some (Inr st)"
| "add_to_targets big vpn flags ppn ((v, x, y) # ts) st =
     (case (if big then boot_add_pte1 v x y vpn flags ppn st else boot_add_pte2 v x y vpn flags ppn st) of
        None \<Rightarrow> None
      | Some (Inl e) \<Rightarrow> Some (Inl e)
      | Some (Inr st') \<Rightarrow> add_to_targets big vpn flags ppn ts st')"

fun add_pages :: "bool \<Rightarrow> u32 \<Rightarrow> u32 \<Rightarrow> u32 \<Rightarrow> (nat \<times> nat \<times> nat) list \<Rightarrow> nat \<Rightarrow> nat \<Rightarrow> boot_state
    \<Rightarrow> (panic + boot_state) option" where
  "add_pages big vpn flags ppn ts p 0 st = Some (Inr st)"
| "add_pages big vpn flags ppn ts p (Suc n) st =
     (let d = (if big then push_bit 9 (word_of_nat p) else word_of_nat p)
      in case add_to_targets big (vpn + d) flags (ppn + d) ts st of
           None \<Rightarrow> None
         | Some (Inl e) \<Rightarrow> Some (Inl e)
         | Some (Inr st') \<Rightarrow> add_pages big vpn flags ppn ts (Suc p) n st')"

definition boot_vseg_pte :: "nat \<Rightarrow> nat \<Rightarrow> mapping \<Rightarrow> mapping_vseg \<Rightarrow> nat option \<Rightarrow> boot_state
    \<Rightarrow> (panic + boot_state) option" where
  "boot_vseg_pte X_SIZE Y_SIZE mp vseg vspace_id st =
     Option.bind (fetch (psegs mp) (psegid vseg)) (\<lambda>pseg.
     Option.bind (fetch (clusters mp) (clusterid pseg)) (\<lambda>cluster.
       if \<not> vlocal vseg \<and> length (clusters mp) < X_SIZE * Y_SIZE then None
       else add_pages (vbig vseg) (drop_bit 12 (vbase vseg)) (vseg_flags (vmode vseg) (vspace_id = None))
              (ucast (drop_bit 12 (pbase vseg)))
              (pte_targets X_SIZE Y_SIZE mp (vlocal vseg) vspace_id (cluster_x cluster) (cluster_y cluster))
              0 (unat (vseg_npages (vbig vseg) (vbase vseg) (vseg_length vseg))) st))"

section \<open>The physical page allocator hands out disjoint pages\<close>

definition pmem_ok :: "pmem_alloc \<Rightarrow> bool" where
  "pmem_ok p \<longleftrightarrow> unat (px p) < 16 \<and> unat (py p) < 16 \<and> unat (max_bppi p) \<le> 2048 \<and>
     unat (nxt_bppi p) \<le> unat (max_bppi p) \<and>
     (if max_sppi p = 0 then nxt_sppi p = 0
      else max_sppi p = 512 \<and> unat (nxt_sppi p) \<le> 512 \<and> unat (spp_bppi p) < unat (nxt_bppi p))"

text \<open>The small pages that are free, by their index in the cluster.\<close>

definition pfree :: "pmem_alloc \<Rightarrow> nat set" where
  "pfree p = {unat (nxt_bppi p) * 512..<unat (max_bppi p) * 512} \<union>
     (if max_sppi p = 0 then {}
      else {unat (spp_bppi p) * 512 + unat (nxt_sppi p)..<unat (spp_bppi p) * 512 + 512})"

definition ppn_base :: "pmem_alloc \<Rightarrow> nat" where
  "ppn_base p = unat (px p) * 2 ^ 24 + unat (py p) * 2 ^ 20"

lemma ppn_value:
  assumes "unat x < 16" "unat y < 16" "unat bpi < 2048" "unat spi < 512"
  shows "unat (push_bit 24 x + push_bit 20 y + push_bit 9 bpi + spi :: u32)
    = unat x * 2 ^ 24 + unat y * 2 ^ 20 + (unat bpi * 512 + unat spi)"
  using assms by (simp add: unat_word_ariths push_bit_eq_mult)

lemma small_pages_fresh:
  assumes ok: "pmem_ok p" and n: "0 < n" "unat n \<le> 512"
  shows "case get_small_ppn p n of
      Inl e \<Rightarrow> e = Not_enough_pages \<and> nxt_bppi p = max_bppi p
    | Inr (ppn, p') \<Rightarrow> \<exists>i. unat ppn = ppn_base p + i \<and> {i..<i + unat n} \<subseteq> pfree p \<and>
        pfree p' \<subseteq> pfree p - {i..<i + unat n} \<and> pmem_ok p' \<and> ppn_base p' = ppn_base p"
proof -
  have o: "unat (px p) < 16" "unat (py p) < 16" "unat (max_bppi p) \<le> 2048"
    "unat (nxt_bppi p) \<le> unat (max_bppi p)" using ok by (simp_all add: pmem_ok_def)
  have spi: "unat (nxt_sppi p) \<le> 512" using ok by (auto simp: pmem_ok_def split: if_splits)
  have add: "unat (nxt_sppi p + n) = unat (nxt_sppi p) + unat n" "unat (nxt_bppi p + 1) = unat (nxt_bppi p) + 1"
    using spi n o by (simp_all add: unat_word_ariths)
  have n0: "0 < unat n" using n(1) by (simp add: word_neq_0_conv unat_gt_0)
  show ?thesis
  proof (cases "nxt_sppi p + n > max_sppi p")
    case False
    then have full: "max_sppi p \<noteq> 0" using ok n0 add by (auto simp: pmem_ok_def word_less_nat_alt split: if_splits)
    then have s: "max_sppi p = 512" "unat (spp_bppi p) < unat (nxt_bppi p)"
      using ok by (simp_all add: pmem_ok_def)
    have le: "unat (nxt_sppi p) + unat n \<le> 512" using False s add by (simp add: word_less_nat_alt not_less)
    let ?i = "unat (spp_bppi p) * 512 + unat (nxt_sppi p)"
    have v: "unat (push_bit 24 (px p) + push_bit 20 (py p) + push_bit 9 (spp_bppi p) + nxt_sppi p)
        = ppn_base p + ?i"
      unfolding ppn_base_def using o s le n0 by (intro ppn_value) simp_all
    have "?i + unat n \<le> unat (nxt_bppi p) * 512" using s(2) le by linarith
    then have "{?i..<?i + unat n} \<subseteq> pfree p \<and>
        pfree (p\<lparr>nxt_sppi := nxt_sppi p + n\<rparr>) \<subseteq> pfree p - {?i..<?i + unat n}"
      using full le add by (auto simp: pfree_def)
    moreover have "pmem_ok (p\<lparr>nxt_sppi := nxt_sppi p + n\<rparr>)"
      using ok full le add by (simp add: pmem_ok_def)
    moreover have "get_small_ppn p n = Inr (push_bit 24 (px p) + push_bit 20 (py p)
        + push_bit 9 (spp_bppi p) + nxt_sppi p, p\<lparr>nxt_sppi := nxt_sppi p + n\<rparr>)"
      using False by (simp add: get_small_ppn_def Let_def)
    moreover have "ppn_base (p\<lparr>nxt_sppi := nxt_sppi p + n\<rparr>) = ppn_base p" by (simp add: ppn_base_def)
    ultimately show ?thesis using v by auto
  next
    case True
    show ?thesis
    proof (cases "nxt_bppi p + 1 > max_bppi p")
      case over: True
      then have "unat (nxt_bppi p) = unat (max_bppi p)" using o add by (simp add: word_less_nat_alt)
      then have "nxt_bppi p = max_bppi p" by (simp add: word_unat_eq_iff)
      then show ?thesis using True over by (simp add: get_small_ppn_def Let_def)
    next
      case False
      then have lt: "unat (nxt_bppi p) < unat (max_bppi p)" using add by (simp add: word_less_nat_alt)
      let ?p = "p\<lparr>spp_bppi := nxt_bppi p, nxt_bppi := nxt_bppi p + 1, nxt_sppi := n, max_sppi := 512\<rparr>"
      let ?i = "unat (nxt_bppi p) * 512"
      have v: "unat (push_bit 24 (px p) + push_bit 20 (py p) + push_bit 9 (nxt_bppi p) + 0)
          = ppn_base p + (?i + unat (0 :: u32))"
        unfolding ppn_base_def using o lt by (intro ppn_value) simp_all
      have "{?i..<?i + unat n} \<subseteq> pfree p \<and> pfree ?p \<subseteq> pfree p - {?i..<?i + unat n}"
      proof -
        have "?i + 512 \<le> unat (max_bppi p) * 512" using lt by linarith
        moreover have "unat (spp_bppi p) * 512 + 512 \<le> ?i" if "max_sppi p \<noteq> 0"
        proof -
          have "unat (spp_bppi p) < unat (nxt_bppi p)" using ok that by (simp add: pmem_ok_def)
          then show ?thesis by linarith
        qed
        ultimately show ?thesis using n(2) add(2)
          by (cases "max_sppi p = 0") (auto simp: pfree_def)
      qed
      moreover have "pmem_ok ?p" using ok n lt add by (simp add: pmem_ok_def)
      moreover have "get_small_ppn p n = Inr (push_bit 24 (px p) + push_bit 20 (py p)
          + push_bit 9 (nxt_bppi p) + 0, ?p)"
        using True False by (simp add: get_small_ppn_def Let_def)
      moreover have "ppn_base ?p = ppn_base p" by (simp add: ppn_base_def)
      ultimately show ?thesis using v by auto
    qed
  qed
qed

lemma big_pages_fresh:
  assumes ok: "pmem_ok p" and n: "0 < n" "unat n \<le> 2048"
  shows "case get_big_ppn p n of
      Inl e \<Rightarrow> e = Not_enough_pages \<and> unat (max_bppi p) < unat (nxt_bppi p) + unat n
    | Inr (ppn, p') \<Rightarrow> \<exists>i. unat ppn = ppn_base p + i \<and> {i..<i + 512 * unat n} \<subseteq> pfree p \<and>
        pfree p' \<subseteq> pfree p - {i..<i + 512 * unat n} \<and> pmem_ok p' \<and> ppn_base p' = ppn_base p"
proof -
  have o: "unat (px p) < 16" "unat (py p) < 16" "unat (max_bppi p) \<le> 2048"
    "unat (nxt_bppi p) \<le> unat (max_bppi p)" using ok by (simp_all add: pmem_ok_def)
  have add: "unat (nxt_bppi p + n) = unat (nxt_bppi p) + unat n"
    using o n by (simp add: unat_word_ariths)
  have n0: "0 < unat n" using n(1) by (simp add: word_neq_0_conv unat_gt_0)
  show ?thesis
  proof (cases "nxt_bppi p + n > max_bppi p")
    case True
    then show ?thesis using add by (simp add: get_big_ppn_def Let_def word_less_nat_alt)
  next
    case False
    then have le: "unat (nxt_bppi p) + unat n \<le> unat (max_bppi p)" using add by (simp add: word_less_nat_alt)
    let ?p = "p\<lparr>nxt_bppi := nxt_bppi p + n\<rparr>" and ?i = "unat (nxt_bppi p) * 512"
    have v: "unat (push_bit 24 (px p) + push_bit 20 (py p) + push_bit 9 (nxt_bppi p) + 0)
        = ppn_base p + (?i + unat (0 :: u32))"
      unfolding ppn_base_def using o le n0 by (intro ppn_value) simp_all
    have sp: "unat (spp_bppi p) * 512 + 512 \<le> ?i" if "max_sppi p \<noteq> 0"
    proof -
      have "unat (spp_bppi p) < unat (nxt_bppi p)" using ok that by (simp add: pmem_ok_def)
      then show ?thesis by linarith
    qed
    have up: "?i + 512 * unat n \<le> unat (max_bppi p) * 512" using le by linarith
    then have "{?i..<?i + 512 * unat n} \<subseteq> pfree p" by (auto simp: pfree_def)
    moreover have "pfree ?p \<subseteq> pfree p - {?i..<?i + 512 * unat n}"
    proof (cases "max_sppi p = 0")
      case False
      show ?thesis using sp [OF False] add False by (auto simp: pfree_def)
    qed (use add in \<open>auto simp: pfree_def\<close>)
    moreover have "pmem_ok ?p" using ok le add by (auto simp: pmem_ok_def split: if_splits)
    moreover have "get_big_ppn p n = Inr (push_bit 24 (px p) + push_bit 20 (py p)
        + push_bit 9 (nxt_bppi p) + 0, ?p)"
      using False by (simp add: get_big_ppn_def Let_def)
    moreover have "ppn_base ?p = ppn_base p" by (simp add: ppn_base_def)
    ultimately show ?thesis using v by auto
  qed
qed


text \<open>A sequence of requests, up to the first one the allocator refuses: the ranges of small pages
  handed out.\<close>

datatype page_request = Small_pages u32 | Big_pages u32

fun pmem_serve :: "pmem_alloc \<Rightarrow> page_request list \<Rightarrow> (nat \<times> nat) list" where
  "pmem_serve p [] = []"
| "pmem_serve p (Small_pages n # rs) =
     (case get_small_ppn p n of Inl e \<Rightarrow> []
      | Inr (ppn, p') \<Rightarrow> (unat ppn, unat n) # pmem_serve p' rs)"
| "pmem_serve p (Big_pages n # rs) =
     (case get_big_ppn p n of Inl e \<Rightarrow> []
      | Inr (ppn, p') \<Rightarrow> (unat ppn, 512 * unat n) # pmem_serve p' rs)"

fun fair_request :: "page_request \<Rightarrow> bool" where
  "fair_request (Small_pages n) = (0 < n \<and> unat n \<le> 512)"
| "fair_request (Big_pages n) = (0 < n \<and> unat n \<le> 2048)"

definition pages_of :: "nat \<times> nat \<Rightarrow> nat set" where
  "pages_of r = {fst r..<fst r + snd r}"

definition pages_apart :: "nat \<times> nat \<Rightarrow> nat \<times> nat \<Rightarrow> bool" where
  "pages_apart r r' \<longleftrightarrow> pages_of r \<inter> pages_of r' = {}"

definition free_ppns :: "pmem_alloc \<Rightarrow> nat set" where
  "free_ppns p = (\<lambda>i. ppn_base p + i) ` pfree p"

lemma pmem_serve_fresh:
  "pmem_ok p \<Longrightarrow> list_all fair_request rs \<Longrightarrow>
   sorted_wrt pages_apart (pmem_serve p rs) \<and> (\<forall>r\<in>set (pmem_serve p rs). pages_of r \<subseteq> free_ppns p)"
proof (induction rs arbitrary: p)
  case (Cons r rs)
  have step: "sorted_wrt pages_apart ((ppn_base p + i, n) # pmem_serve p' rs) \<and>
      (\<forall>r\<in>set ((ppn_base p + i, n) # pmem_serve p' rs). pages_of r \<subseteq> free_ppns p)"
    if i: "{i..<i + n} \<subseteq> pfree p" "pfree p' \<subseteq> pfree p - {i..<i + n}" "pmem_ok p'" "ppn_base p' = ppn_base p"
    for i n p'
  proof -
    have fair: "list_all fair_request rs" using Cons.prems(2) by simp
    note IH = Cons.IH [OF i(3) fair]
    have sub: "pages_of (ppn_base p + i, n) = (\<lambda>i. ppn_base p + i) ` {i..<i + n}"
      using image_add_atLeastLessThan [of "ppn_base p" i "i + n"] by (simp add: pages_of_def ac_simps)
    have fp: "free_ppns p' \<subseteq> free_ppns p - pages_of (ppn_base p + i, n)"
      using i(2) unfolding sub free_ppns_def i(4) by auto
    have "pages_of (ppn_base p + i, n) \<subseteq> free_ppns p"
      using i(1) unfolding sub free_ppns_def by (rule image_mono)
    moreover have "pages_apart (ppn_base p + i, n) r \<and> pages_of r \<subseteq> free_ppns p"
      if "r \<in> set (pmem_serve p' rs)" for r
      using IH that fp unfolding pages_apart_def by blast
    ultimately show ?thesis using IH by simp
  qed
  show ?case
  proof (cases r)
    case (Small_pages n)
    then have "0 < n" "unat n \<le> 512" using Cons.prems(2) by simp_all
    note s = small_pages_fresh [OF Cons.prems(1) this]
    show ?thesis
    proof (cases "get_small_ppn p n")
      case (Inr q)
      obtain ppn p' where q: "q = (ppn, p')" by (cases q)
      with s Inr obtain i where "unat ppn = ppn_base p + i" "{i..<i + unat n} \<subseteq> pfree p"
        "pfree p' \<subseteq> pfree p - {i..<i + unat n}" "pmem_ok p'" "ppn_base p' = ppn_base p" by auto
      with step [of i "unat n" p'] show ?thesis using Small_pages Inr q by simp
    qed (simp add: Small_pages)
  next
    case (Big_pages n)
    then have "0 < n" "unat n \<le> 2048" using Cons.prems(2) by simp_all
    note s = big_pages_fresh [OF Cons.prems(1) this]
    show ?thesis
    proof (cases "get_big_ppn p n")
      case (Inr q)
      obtain ppn p' where q: "q = (ppn, p')" by (cases q)
      with s Inr obtain i where "unat ppn = ppn_base p + i" "{i..<i + 512 * unat n} \<subseteq> pfree p"
        "pfree p' \<subseteq> pfree p - {i..<i + 512 * unat n}" "pmem_ok p'" "ppn_base p' = ppn_base p" by auto
      with step [of i "512 * unat n" p'] show ?thesis using Big_pages Inr q by simp
    qed (simp add: Big_pages)
  qed
qed simp

text \<open>C10: From a valid allocator, any sequence of requests for at most 512 small pages or at most 2048 big
  pages is served with ranges of physical pages that are pairwise disjoint and were free, whatever the
  mix of sizes, up to the first request the allocator refuses.\<close>

theorem pmem_pages_disjoint:
  assumes "pmem_ok p" "list_all fair_request rs"
  shows "sorted_wrt pages_apart (pmem_serve p rs) \<and>
    (\<forall>r\<in>set (pmem_serve p rs). pages_of r \<subseteq> free_ppns p)"
  by (rule pmem_serve_fresh [OF assms])

definition demo_pmem :: pmem_alloc where
  "demo_pmem = \<lparr>px = 0, py = 1, max_bppi = 4, nxt_bppi = 0, max_sppi = 0, nxt_sppi = 0, spp_bppi = 0\<rparr>"

lemma demo_pmem_ok: "pmem_ok demo_pmem"
  by (simp add: pmem_ok_def demo_pmem_def)

theorem pmem_pages_disjoint_witness:
  "pmem_serve demo_pmem [Small_pages 3, Big_pages 1, Small_pages 5]
     = [(1048576, 3), (1049088, 512), (1048579, 5)] \<and>
   sorted_wrt pages_apart
     (pmem_serve demo_pmem [Small_pages 3, Big_pages 1, Small_pages 5])"
  using pmem_pages_disjoint [OF demo_pmem_ok, of "[Small_pages 3, Big_pages 1, Small_pages 5]"]
  by (simp add: demo_pmem_def get_small_ppn_def get_big_ppn_def)

text \<open>A request for more than 512 small pages is served from one big page all the same: the next big
  page handed out lies inside the range of the small pages.\<close>

theorem pmem_small_over_512_overlaps:
  assumes "pmem_ok p" "512 < unat n" "unat n < 2 ^ 20" "unat (nxt_bppi p) + 2 \<le> unat (max_bppi p)"
  shows "\<exists>ppn p' ppn' p''. get_small_ppn p n = Inr (ppn, p') \<and> get_big_ppn p' 1 = Inr (ppn', p'') \<and>
    unat ppn' \<in> {unat ppn..<unat ppn + unat n}"
proof -
  have o: "unat (px p) < 16" "unat (py p) < 16" "unat (max_bppi p) \<le> 2048" "unat (max_sppi p) \<le> 512"
    "unat (nxt_sppi p) \<le> 512" using assms(1) by (auto simp: pmem_ok_def split: if_splits)
  have add: "unat (nxt_sppi p + n) = unat (nxt_sppi p) + unat n" "unat (nxt_bppi p + 1) = unat (nxt_bppi p) + 1"
    "unat (nxt_bppi p + 1 + 1) = unat (nxt_bppi p) + 2"
    using o assms by (simp_all add: unat_word_ariths)
  have c: "nxt_sppi p + n > max_sppi p" "\<not> nxt_bppi p + 1 > max_bppi p" "\<not> nxt_bppi p + 1 + 1 > max_bppi p"
    unfolding word_less_nat_alt add using o assms by linarith+
  let ?p = "p\<lparr>spp_bppi := nxt_bppi p, nxt_bppi := nxt_bppi p + 1, nxt_sppi := n, max_sppi := 512\<rparr>"
  have small: "get_small_ppn p n = Inr (push_bit 24 (px p) + push_bit 20 (py p) + push_bit 9 (nxt_bppi p) + 0, ?p)"
    using c by (simp add: get_small_ppn_def Let_def)
  have big: "get_big_ppn ?p 1 = Inr (push_bit 24 (px p) + push_bit 20 (py p) + push_bit 9 (nxt_bppi p + 1) + 0,
      ?p\<lparr>nxt_bppi := nxt_bppi p + 1 + 1\<rparr>)"
    using c(3) unfolding get_big_ppn_def Let_def by simp
  have "unat (push_bit 24 (px p) + push_bit 20 (py p) + push_bit 9 (nxt_bppi p) + 0)
      = unat (px p) * 2 ^ 24 + unat (py p) * 2 ^ 20 + (unat (nxt_bppi p) * 512 + unat (0 :: u32))"
    and "unat (push_bit 24 (px p) + push_bit 20 (py p) + push_bit 9 (nxt_bppi p + 1) + 0)
      = unat (px p) * 2 ^ 24 + unat (py p) * 2 ^ 20 + (unat (nxt_bppi p + 1) * 512 + unat (0 :: u32))"
    by (rule ppn_value; use o assms add in simp)+
  then have "unat (push_bit 24 (px p) + push_bit 20 (py p) + push_bit 9 (nxt_bppi p + 1) + 0)
      \<in> {unat (push_bit 24 (px p) + push_bit 20 (py p) + push_bit 9 (nxt_bppi p) + 0)
        ..<unat (push_bit 24 (px p) + push_bit 20 (py p) + push_bit 9 (nxt_bppi p) + 0) + unat n}"
    using add(2) assms(2) by simp
  then show ?thesis using small big by blast
qed

theorem pmem_small_over_512_overlaps_witness:
  "\<exists>ppn p' ppn' p''. get_small_ppn demo_pmem 600 = Inr (ppn, p') \<and> get_big_ppn p' 1 = Inr (ppn', p'') \<and>
    unat ppn' \<in> {unat ppn..<unat ppn + 600}"
  using pmem_small_over_512_overlaps [OF demo_pmem_ok, of 600] by (simp add: demo_pmem_def)

section \<open>Bits of the entries\<close>

lemma and_PTE_V: "w AND PTE_V = 0 \<longleftrightarrow> \<not> bit w 31"
proof -
  have "PTE_V = 2 ^ 31" by (simp add: PTE_V_def)
  then show ?thesis using and_exp_eq_0_iff_not_bit [of w 31] by simp
qed

lemma and_PTE_T: "w AND PTE_T = 0 \<longleftrightarrow> \<not> bit w 30"
proof -
  have "PTE_T = 2 ^ 30" by (simp add: PTE_T_def)
  then show ?thesis using and_exp_eq_0_iff_not_bit [of w 30] by simp
qed

lemma bit_PTE [simp]: "bit PTE_V n \<longleftrightarrow> n = 31" "bit PTE_T n \<longleftrightarrow> n = 30"
proof -
  have *: "PTE_V = push_bit 31 1" "PTE_T = push_bit 30 1" by (simp_all add: PTE_V_def PTE_T_def)
  show "bit PTE_V n \<longleftrightarrow> n = 31" "bit PTE_T n \<longleftrightarrow> n = 30"
    unfolding * by (auto simp: bit_push_bit_iff bit_1_iff simp del: push_bit_of_1)
qed

definition pt2_base :: "u64 \<Rightarrow> u32 \<Rightarrow> u64" where
  "pt2_base b i = b + ucast PT1_SIZE + ucast (PT2_SIZE * i)"

definition ptd_word :: "u64 \<Rightarrow> u32 \<Rightarrow> u32" where
  "ptd_word b i = PTE_V OR PTE_T OR ucast (drop_bit 12 (pt2_base b i))"

lemma bit_ptd_word [simp]: "bit (ptd_word b i) 31" "bit (ptd_word b i) 30"
  by (simp_all add: ptd_word_def bit_or_iff)

definition base_ok :: "u64 \<Rightarrow> u32 \<Rightarrow> bool" where
  "base_ok b mx \<longleftrightarrow> b \<noteq> 0 \<and> 8192 dvd unat b \<and> unat mx < 2 ^ 20 \<and> unat b + 8192 + 4096 * unat mx \<le> 2 ^ 40"

lemma unat_ucast_u64 [simp]: "unat (ucast (w :: u32) :: u64) = unat w"
  by (simp add: unsigned_ucast_eq take_bit_nat_eq_self [OF less_trans [OF unat_u32_bound]])

lemma unat_pt1_addr:
  assumes "base_ok b mx" "unat (ix :: u32) < 2048"
  shows "unat (b + ucast (4 * ix)) = unat b + 4 * unat ix"
proof -
  have "unat (4 * ix) = 4 * unat ix" using assms(2) by (simp add: unat_word_ariths)
  moreover have "unat b + 8192 \<le> 2 ^ 40" using assms(1) by (simp add: base_ok_def)
  ultimately show ?thesis using assms(2) by (simp add: unat_add_no_wrap)
qed

lemma unat_pt2_base:
  assumes "base_ok b mx" "unat i < unat mx"
  shows "unat (pt2_base b i) = unat b + 8192 + 4096 * unat i"
proof -
  have m: "unat mx < 1048576" "unat b + 8192 + 4096 * unat mx \<le> 1099511627776"
    using assms(1) by (simp_all add: base_ok_def)
  have "unat (PT2_SIZE * i) = 4096 * unat i"
    using assms(2) m by (simp add: unat_word_ariths PT2_SIZE_def)
  moreover have "unat (b + ucast PT1_SIZE) = unat b + 8192"
    using m by (simp add: unat_add_no_wrap PT1_SIZE_def)
  ultimately show ?thesis unfolding pt2_base_def using assms(2) m by (simp add: unat_add_no_wrap)
qed

lemma unat_pte2_addr:
  assumes "base_ok b mx" "unat i < unat mx" "unat (j :: u32) < 512"
  shows "unat (pt2_base b i + ucast (8 * j)) = unat b + 8192 + 4096 * unat i + 8 * unat j"
    "unat (pt2_base b i + ucast (8 * j) + 4) = unat b + 8192 + 4096 * unat i + 8 * unat j + 4"
proof -
  have m: "unat mx < 1048576" "unat b + 8192 + 4096 * unat mx \<le> 1099511627776"
    using assms(1) by (simp_all add: base_ok_def)
  have "unat (8 * j) = 8 * unat j" using assms(3) by (simp add: unat_word_ariths)
  then show a: "unat (pt2_base b i + ucast (8 * j)) = unat b + 8192 + 4096 * unat i + 8 * unat j"
    using unat_pt2_base [OF assms(1,2)] assms m by (simp add: unat_add_no_wrap)
  show "unat (pt2_base b i + ucast (8 * j) + 4) = unat b + 8192 + 4096 * unat i + 8 * unat j + 4"
    using a assms m by (subst unat_add_no_wrap) simp_all
qed

lemma ptd_decode:
  assumes "base_ok b mx" "unat i < unat mx"
  shows "push_bit 12 (ucast (ptd_word b i AND 0x0FFFFFFF)) = pt2_base b i"
proof -
  let ?B = "pt2_base b i" and ?w = "ucast (drop_bit 12 (pt2_base b i)) :: u32"
  have B: "unat ?B = unat b + 8192 + 4096 * unat i" by (rule unat_pt2_base [OF assms])
  have d: "(4096::nat) dvd unat ?B"
  proof -
    have "(4096::nat) dvd unat b" using assms(1) dvd_trans [of 4096 8192 "unat b"] by (simp add: base_ok_def)
    then show ?thesis unfolding B by simp
  qed
  have lt: "unat ?B < 2 ^ 40" using B assms by (simp add: base_ok_def)
  have w: "unat ?w = unat ?B div 4096"
  proof -
    have "unat ?B div 4096 < 2 ^ 28" using lt by (simp add: less_mult_imp_div_less)
    then show ?thesis by (simp add: unsigned_ucast_eq take_bit_nat_eq_self drop_bit_eq_div unat_div)
  qed
  have w28: "take_bit 28 ?w = ?w"
  proof -
    have "unat ?w < 2 ^ 28" unfolding w using lt by (simp add: less_mult_imp_div_less)
    then show ?thesis by (simp add: take_bit_eq_mod unat_mod word_unat_eq_iff)
  qed
  have "ptd_word b i AND 0x0FFFFFFF = take_bit 28 (ptd_word b i)"
    by (simp add: take_bit_eq_mask mask_eq_exp_minus_1)
  also have "\<dots> = take_bit 28 PTE_V OR take_bit 28 PTE_T OR take_bit 28 ?w"
    by (simp add: ptd_word_def)
  also have "\<dots> = ?w" unfolding w28 by (simp add: PTE_V_def PTE_T_def)
  finally have m: "ptd_word b i AND 0x0FFFFFFF = ?w" .
  have "unat (push_bit 12 (ucast ?w :: u64)) = unat ?w * 4096"
    using w lt by (simp add: push_bit_eq_mult unat_word_ariths)
  also have "\<dots> = unat ?B" unfolding w using d by simp
  finally show ?thesis unfolding m by (simp add: word_unat_eq_iff)
qed

lemma ptd_word_inj:
  assumes "base_ok b mx" "unat i < unat mx" "unat j < unat mx" "ptd_word b i = ptd_word b j"
  shows "i = j"
proof -
  have "pt2_base b i = pt2_base b j" using ptd_decode [OF assms(1,2)] ptd_decode [OF assms(1,3)] assms(4) by simp
  then show ?thesis using unat_pt2_base [OF assms(1,2)] unat_pt2_base [OF assms(1,3)]
    by (simp add: word_unat_eq_iff)
qed


section \<open>A well-formed page table\<close>

definition pt1_entry :: "phys_mem \<Rightarrow> u64 \<Rightarrow> u32 \<Rightarrow> u32" where
  "pt1_entry ph b ix = ph (b + ucast (4 * ix))"

text \<open>The table at \<open>b\<close> in memory \<open>ph\<close>, with \<open>nx\<close> of its \<open>mx\<close> PT2s in use: every PT1 entry that points
  to a PT2 points to one in use, and two entries point to different ones.\<close>

definition ptab_ok :: "u64 \<Rightarrow> u32 \<Rightarrow> u32 \<Rightarrow> phys_mem \<Rightarrow> bool" where
  "ptab_ok b mx nx ph \<longleftrightarrow> base_ok b mx \<and> unat nx \<le> unat mx \<and>
     (\<forall>ix. unat ix < 2048 \<longrightarrow> bit (pt1_entry ph b ix) 31 \<longrightarrow> bit (pt1_entry ph b ix) 30 \<longrightarrow>
        (\<exists>i. unat i < unat nx \<and> pt1_entry ph b ix = ptd_word b i)) \<and>
     (\<forall>ix jx. unat ix < 2048 \<longrightarrow> unat jx < 2048 \<longrightarrow> ix \<noteq> jx \<longrightarrow> bit (pt1_entry ph b ix) 31 \<longrightarrow>
        bit (pt1_entry ph b ix) 30 \<longrightarrow> pt1_entry ph b ix \<noteq> pt1_entry ph b jx)"

definition ptab_area :: "u64 \<Rightarrow> u32 \<Rightarrow> nat set" where
  "ptab_area b mx = {unat b..<unat b + 8192 + 4096 * unat mx}"

definition translate :: "phys_mem \<Rightarrow> u64 \<Rightarrow> u32 \<Rightarrow> panic + u64 \<times> u32" where
  "translate ph b vaddr = v2p_translate (pt1_entry ph b) ph vaddr"

lemma ptab_ok_base: "ptab_ok b mx nx ph \<Longrightarrow> base_ok b mx"
  by (simp add: ptab_ok_def)

text \<open>The indices of a virtual address, from its page number.\<close>

lemma vaddr_indices:
  fixes vaddr :: u32
  defines "vpn \<equiv> drop_bit 12 vaddr"
  shows "drop_bit 21 vaddr AND 0x7FF = drop_bit 9 vpn" "unat (drop_bit 9 vpn) < 2048"
    "unat (vpn AND 0x1FF) < 512" "unat vpn = 512 * unat (drop_bit 9 vpn) + unat (vpn AND 0x1FF)"
proof -
  have v: "unat vpn = unat vaddr div 4096" by (simp add: vpn_def drop_bit_eq_div unat_div)
  then have "unat vpn < 1048576" using unat_u32_bound [of vaddr] by (simp add: less_mult_imp_div_less)
  moreover have ix1: "unat (drop_bit 9 vpn) = unat vpn div 512" by (simp add: drop_bit_eq_div unat_div)
  ultimately show lt: "unat (drop_bit 9 vpn) < 2048" by (simp add: less_mult_imp_div_less)
  have m: "vpn AND 0x1FF = take_bit 9 vpn" by (simp add: take_bit_eq_mask mask_eq_exp_minus_1)
  have ix2: "unat (vpn AND 0x1FF) = unat vpn mod 512"
    unfolding m by (simp add: take_bit_eq_mod unat_mod)
  then show "unat (vpn AND 0x1FF) < 512" by simp
  show "unat vpn = 512 * unat (drop_bit 9 vpn) + unat (vpn AND 0x1FF)" unfolding ix1 ix2 by simp
  have d: "drop_bit 21 vaddr = drop_bit 9 vpn" by (simp add: vpn_def)
  have "drop_bit 9 vpn AND 0x7FF = take_bit 11 (drop_bit 9 vpn)"
    by (simp add: take_bit_eq_mask mask_eq_exp_minus_1)
  also have "\<dots> = drop_bit 9 vpn" using lt by (simp add: take_bit_eq_mod unat_mod word_unat_eq_iff)
  finally show "drop_bit 21 vaddr AND 0x7FF = drop_bit 9 vpn" unfolding d .
qed

lemma vpn_indices_eq:
  fixes v w :: u32
  assumes "drop_bit 9 (drop_bit 12 v) = drop_bit 9 (drop_bit 12 w)"
    "drop_bit 12 v AND 0x1FF = drop_bit 12 w AND 0x1FF"
  shows "drop_bit 12 v = drop_bit 12 w"
  using vaddr_indices(4) [of v] vaddr_indices(4) [of w] assms by (simp add: word_unat_eq_iff)

text \<open>A translation that succeeds reads the memory at addresses of the table only.\<close>

lemma translate_small:
  assumes "bit (pt1_entry ph b (drop_bit 9 (drop_bit 12 vaddr))) 31"
    "pt1_entry ph b (drop_bit 9 (drop_bit 12 vaddr)) = ptd_word b i" "base_ok b mx" "unat i < unat mx"
  shows "translate ph b vaddr =
    (let a = pt2_base b i + ucast (8 * (drop_bit 12 vaddr AND 0x1FF))
     in if ph a AND PTE_V = 0 then Inl Pte2_unmapped
        else Inr (push_bit 12 (ucast (ph (a + 4) AND 0x0FFFFFFF)) OR ucast (vaddr AND 0xFFF),
                  ph a AND 0xFFC00000))"
  unfolding translate_def v2p_translate_def Let_def vaddr_indices(1) assms(2) ptd_decode [OF assms(3,4)]
  using assms(1,2) by (simp add: and_PTE_V and_PTE_T)

lemma translate_cong:
  assumes ok: "ptab_ok b mx nx ph" and r: "translate ph b vaddr = Inr r"
    and e: "pt1_entry ph' b (drop_bit 9 (drop_bit 12 vaddr)) = pt1_entry ph b (drop_bit 9 (drop_bit 12 vaddr))"
    and p2: "\<And>i a. pt1_entry ph b (drop_bit 9 (drop_bit 12 vaddr)) = ptd_word b i \<Longrightarrow> unat i < unat nx \<Longrightarrow>
      a = pt2_base b i + ucast (8 * (drop_bit 12 vaddr AND 0x1FF)) \<Longrightarrow> ph' a = ph a \<and> ph' (a + 4) = ph (a + 4)"
  shows "translate ph' b vaddr = Inr r"
proof -
  let ?e = "pt1_entry ph b (drop_bit 9 (drop_bit 12 vaddr))"
  have v: "bit ?e 31" using r
    by (auto simp: translate_def v2p_translate_def vaddr_indices(1) and_PTE_V Let_def split: if_splits)
  show ?thesis
  proof (cases "bit ?e 30")
    case False
    then show ?thesis using r v e
      by (simp add: translate_def v2p_translate_def vaddr_indices(1) and_PTE_V and_PTE_T Let_def)
  next
    case True
    then obtain i where i: "unat i < unat nx" "?e = ptd_word b i"
      using ok v vaddr_indices(2) [of vaddr] unfolding ptab_ok_def by blast
    have mx: "base_ok b mx" "unat i < unat mx" using ok i(1) by (auto simp: ptab_ok_def)
    from translate_small [OF v i(2) mx] translate_small [of ph' b vaddr i mx] r v i(2) mx e p2 [OF i(2,1) refl]
    show ?thesis by (simp add: Let_def)
  qed
qed


section \<open>Registering one small page\<close>

definition pte2_write :: "phys_mem \<Rightarrow> u64 \<Rightarrow> u32 \<Rightarrow> u32 \<Rightarrow> u32 \<Rightarrow> u32 \<Rightarrow> phys_mem" where
  "pte2_write ph b i vpn flags ppn =
     (let a = pt2_base b i + ucast (8 * (vpn AND 0x1FF))
      in ph(b + ucast (4 * drop_bit 9 vpn) := ptd_word b i, a := PTE_V OR flags, a + 4 := ppn))"

definition slot_free_for :: "phys_mem \<Rightarrow> u64 \<Rightarrow> u32 \<Rightarrow> u32 \<Rightarrow> bool" where
  "slot_free_for ph b vpn i \<longleftrightarrow>
     (bit (pt1_entry ph b (drop_bit 9 vpn)) 31 \<longrightarrow> pt1_entry ph b (drop_bit 9 vpn) = ptd_word b i) \<and>
     (\<forall>ix. unat ix < 2048 \<longrightarrow> ix \<noteq> drop_bit 9 vpn \<longrightarrow> bit (pt1_entry ph b ix) 31 \<longrightarrow>
        bit (pt1_entry ph b ix) 30 \<longrightarrow> pt1_entry ph b ix \<noteq> ptd_word b i)"

lemma add_pte2_step:
  fixes va :: u32
  defines "vpn \<equiv> drop_bit 12 va"
  defines "e \<equiv> \<lambda>st v x y. pt1_entry (phys st) (ptabs_paddr st v x y) (drop_bit 9 vpn)"
  assumes ok: "ptab_ok (ptabs_paddr st v x y) (ptabs_max_pt2 st) (ptabs_next_pt2 st v x y) (phys st)"
    and idle: "lock_idle (ptabs_lock st v x y)" and big: "bit (e st v x y) 31 \<Longrightarrow> bit (e st v x y) 30"
  shows "boot_add_pte2 v x y vpn flags ppn st = Some (Inl Not_enough_PT2) \<or>
    (\<exists>i nx lk. boot_add_pte2 v x y vpn flags ppn st = Some (Inr (st\<lparr>
        ptabs_next_pt2 := upd3 (ptabs_next_pt2 st) v x y nx,
        phys := pte2_write (phys st) (ptabs_paddr st v x y) i vpn flags ppn,
        ptabs_lock := upd3 (ptabs_lock st) v x y lk\<rparr>)) \<and> lock_idle lk \<and>
      unat i < unat nx \<and> unat (ptabs_next_pt2 st v x y) \<le> unat nx \<and> unat nx \<le> unat (ptabs_max_pt2 st) \<and>
      slot_free_for (phys st) (ptabs_paddr st v x y) vpn i \<and> unat nx \<le> unat (ptabs_next_pt2 st v x y) + 1)"
proof -
  let ?b = "ptabs_paddr st v x y" and ?mx = "ptabs_max_pt2 st" and ?nx = "ptabs_next_pt2 st v x y"
  let ?ix1 = "drop_bit 9 vpn" and ?e = "e st v x y"
  have b0: "?b \<noteq> 0" and base: "base_ok ?b ?mx" and nx: "unat ?nx \<le> unat ?mx"
    using ok by (simp_all add: ptab_ok_def base_ok_def)
  have ix1: "unat ?ix1 < 2048" unfolding vpn_def by (rule vaddr_indices(2))
  have ent: "phys st (?b + ucast (4 * ?ix1)) = ?e" by (simp add: e_def pt1_entry_def)
  obtain lk where lk: "spin_lock_acquire (ptabs_lock st v x y) = Some lk" "lock_idle (spin_lock_release lk)"
    using spin.acquire_idleE [OF idle] by blast
  show ?thesis
  proof (cases "bit ?e 31")
    case True
    then obtain i where i: "unat i < unat ?nx" "?e = ptd_word ?b i"
      using ok ix1 big unfolding ptab_ok_def e_def by blast
    have dec: "push_bit 12 (ucast (?e AND 0x0FFFFFFF)) = pt2_base ?b i"
      using ptd_decode [OF base, of i] i nx by simp
    have "phys st = (phys st)(?b + ucast (4 * ?ix1) := ptd_word ?b i)" using ent i(2) by auto
    then have "pte2_write (phys st) ?b i vpn flags ppn
        = (phys st)(pt2_base ?b i + ucast (8 * (vpn AND 0x1FF)) := PTE_V OR flags,
                    pt2_base ?b i + ucast (8 * (vpn AND 0x1FF)) + 4 := ppn)"
      unfolding pte2_write_def Let_def by simp
    then have run: "boot_add_pte2 v x y vpn flags ppn st = Some (Inr (st\<lparr>
        ptabs_next_pt2 := upd3 (ptabs_next_pt2 st) v x y ?nx,
        phys := pte2_write (phys st) ?b i vpn flags ppn,
        ptabs_lock := upd3 (ptabs_lock st) v x y (spin_lock_release lk)\<rparr>))"
      using b0 lk(1) ent True dec unfolding boot_add_pte2_def by (simp add: and_PTE_V Let_def)
    have "slot_free_for (phys st) ?b vpn i"
      unfolding slot_free_for_def
    proof (intro conjI allI impI)
      show "pt1_entry (phys st) ?b ?ix1 = ptd_word ?b i" using i(2) by (simp add: e_def)
      show "pt1_entry (phys st) ?b jx \<noteq> ptd_word ?b i"
        if "unat jx < 2048" "jx \<noteq> ?ix1" "bit (pt1_entry (phys st) ?b jx) 31" "bit (pt1_entry (phys st) ?b jx) 30" for jx
        using ok that ix1 i(2) unfolding ptab_ok_def e_def by metis
    qed
    then show ?thesis using run lk(2) i(1) nx le_add1 [of "unat ?nx" 1] by blast
  next
    case False
    show ?thesis
    proof (cases "?nx = ?mx")
      case True
      then have "boot_add_pte2 v x y vpn flags ppn st = Some (Inl Not_enough_PT2)"
        using b0 lk(1) ent False unfolding boot_add_pte2_def by (simp add: and_PTE_V Let_def)
      then show ?thesis ..
    next
      case nxlt: False
      then have lt: "unat ?nx < unat ?mx" using nx by (simp add: word_unat_eq_iff)
      then have "unat ?nx + 1 < 4294967296" using unat_u32_bound [of ?mx] by linarith
      then have suc: "unat (?nx + 1) = unat ?nx + 1" by (simp add: unat_add_no_wrap)
      have run: "boot_add_pte2 v x y vpn flags ppn st = Some (Inr (st\<lparr>
          ptabs_next_pt2 := upd3 (ptabs_next_pt2 st) v x y (?nx + 1),
          phys := pte2_write (phys st) ?b ?nx vpn flags ppn,
          ptabs_lock := upd3 (ptabs_lock st) v x y (spin_lock_release lk)\<rparr>))"
        using b0 lk(1) ent False nxlt
        unfolding boot_add_pte2_def pte2_write_def ptd_word_def pt2_base_def
        by (simp add: and_PTE_V Let_def)
      have slot: "slot_free_for (phys st) ?b vpn ?nx"
        unfolding slot_free_for_def
      proof (intro conjI allI impI)
        show "pt1_entry (phys st) ?b ?ix1 = ptd_word ?b ?nx" if "bit (pt1_entry (phys st) ?b ?ix1) 31"
          using that False by (simp add: e_def)
        show "pt1_entry (phys st) ?b jx \<noteq> ptd_word ?b ?nx"
          if j: "unat jx < 2048" "jx \<noteq> ?ix1" "bit (pt1_entry (phys st) ?b jx) 31" "bit (pt1_entry (phys st) ?b jx) 30" for jx
        proof
          assume eq: "pt1_entry (phys st) ?b jx = ptd_word ?b ?nx"
          obtain i where i: "unat i < unat ?nx" "pt1_entry (phys st) ?b jx = ptd_word ?b i"
            using ok j unfolding ptab_ok_def by blast
          have "i = ?nx"
            by (rule ptd_word_inj [OF base less_trans [OF i(1) lt] lt trans [OF i(2) [symmetric] eq]])
          with i(1) show False by simp
        qed
      qed
      have le: "unat ?nx < unat (?nx + 1)" "unat ?nx \<le> unat (?nx + 1)" "unat (?nx + 1) \<le> unat ?mx"
        "unat (?nx + 1) \<le> unat ?nx + 1"
        using suc lt by simp_all
      show ?thesis
        by (rule disjI2, intro exI conjI, rule run, rule lk(2), rule le(1), rule le(2), rule le(3), rule slot, rule le(4))
    qed
  qed
qed

text \<open>Addresses of a table are distinct when their offsets are.\<close>

lemma pte2_write_outside:
  fixes va :: u32
  assumes "base_ok b mx" "unat i < unat mx" "unat a \<notin> ptab_area b mx"
  shows "pte2_write ph b i (drop_bit 12 va) flags ppn a = ph a"
proof -
  note u1 = unat_pt1_addr [OF assms(1) vaddr_indices(2) [of va]]
  note u2 = unat_pte2_addr [OF assms(1,2) vaddr_indices(3) [of va]]
  have "a \<noteq> b + ucast (4 * drop_bit 9 (drop_bit 12 va))"
    using assms(3) u1 vaddr_indices(2) [of va] by (auto simp: ptab_area_def)
  moreover have "a \<noteq> pt2_base b i + ucast (8 * (drop_bit 12 va AND 0x1FF))"
    using assms(2,3) u2(1) vaddr_indices(3) [of va] by (auto simp: ptab_area_def)
  moreover have "a \<noteq> pt2_base b i + ucast (8 * (drop_bit 12 va AND 0x1FF)) + 4"
    using assms(2,3) u2(2) vaddr_indices(3) [of va] by (auto simp: ptab_area_def)
  ultimately show ?thesis by (simp add: pte2_write_def Let_def)
qed

lemma pte2_write_entry:
  fixes va :: u32
  assumes "base_ok b mx" "unat i < unat mx" "unat ix < 2048"
  shows "pt1_entry (pte2_write ph b i (drop_bit 12 va) flags ppn) b ix
    = (if ix = drop_bit 9 (drop_bit 12 va) then ptd_word b i else pt1_entry ph b ix)"
proof -
  note u = unat_pt1_addr [OF assms(1,3)]
  note u1 = unat_pt1_addr [OF assms(1) vaddr_indices(2) [of va]]
  note u2 = unat_pte2_addr [OF assms(1,2) vaddr_indices(3) [of va]]
  have "b + ucast (4 * ix) \<noteq> pt2_base b i + ucast (8 * (drop_bit 12 va AND 0x1FF))"
    "b + ucast (4 * ix) \<noteq> pt2_base b i + ucast (8 * (drop_bit 12 va AND 0x1FF)) + 4"
    using u u2 assms(3) by (auto simp: word_unat_eq_iff)
  moreover have "b + ucast (4 * ix) = b + ucast (4 * drop_bit 9 (drop_bit 12 va))
      \<longleftrightarrow> ix = drop_bit 9 (drop_bit 12 va)"
    using u u1 by (auto simp: word_unat_eq_iff)
  ultimately show ?thesis by (simp add: pt1_entry_def pte2_write_def Let_def)
qed

lemma pte2_write_ok:
  fixes va :: u32
  assumes ok: "ptab_ok b mx nx ph" and i: "unat i < unat nx'" "unat nx \<le> unat nx'" "unat nx' \<le> unat mx"
    and slot: "slot_free_for ph b (drop_bit 12 va) i"
  shows "ptab_ok b mx nx' (pte2_write ph b i (drop_bit 12 va) flags ppn)"
proof -
  have base: "base_ok b mx" and im: "unat i < unat mx" using ok i by (simp_all add: ptab_ok_def)
  note ent = pte2_write_entry [OF base im, of _ ph va flags ppn]
  let ?ph = "pte2_write ph b i (drop_bit 12 va) flags ppn" and ?ix1 = "drop_bit 9 (drop_bit 12 va)"
  show ?thesis
    unfolding ptab_ok_def
  proof (intro conjI allI impI)
    fix ix assume a: "unat ix < 2048" "bit (pt1_entry ?ph b ix) 31" "bit (pt1_entry ?ph b ix) 30"
    show "\<exists>i. unat i < unat nx' \<and> pt1_entry ?ph b ix = ptd_word b i"
    proof (cases "ix = ?ix1")
      case False
      then obtain j where "unat j < unat nx" "pt1_entry ph b ix = ptd_word b j"
        using ok a ent [OF a(1)] unfolding ptab_ok_def by auto
      then show ?thesis using ent [OF a(1)] False i(2) by (intro exI [of _ j]) simp
    qed (use ent [OF a(1)] i(1) in auto)
    fix jx assume j: "unat jx < 2048" "ix \<noteq> jx"
    show "pt1_entry ?ph b ix \<noteq> pt1_entry ?ph b jx"
    proof
      assume eq: "pt1_entry ?ph b ix = pt1_entry ?ph b jx"
      then have bj: "bit (pt1_entry ?ph b jx) 31" "bit (pt1_entry ?ph b jx) 30" using a by simp_all
      show False
      proof (cases "ix = ?ix1 \<or> jx = ?ix1")
        case True
        then show False
          using slot eq a bj j ent [OF a(1)] ent [OF j(1)] unfolding slot_free_for_def by (metis (full_types))
      next
        case False
        then show False using ok eq a j ent [OF a(1)] ent [OF j(1)] unfolding ptab_ok_def by metis
      qed
    qed
  qed (use base i in simp_all)
qed


lemma pte2_write_hit:
  assumes base: "base_ok b mx" and i: "unat i < unat mx" and flags: "drop_bit 12 va = drop_bit 12 vaddr"
  shows "translate (pte2_write ph b i (drop_bit 12 va) flags ppn) b vaddr
    = Inr (push_bit 12 (ucast (ppn AND 0x0FFFFFFF)) OR ucast (vaddr AND 0xFFF), (PTE_V OR flags) AND 0xFFC00000)"
proof -
  let ?ph = "pte2_write ph b i (drop_bit 12 vaddr) flags ppn"
  let ?a = "pt2_base b i + ucast (8 * (drop_bit 12 vaddr AND 0x1FF))"
  have e: "pt1_entry ?ph b (drop_bit 9 (drop_bit 12 vaddr)) = ptd_word b i"
    using pte2_write_entry [OF base i vaddr_indices(2) [of vaddr], of ph vaddr flags ppn] by simp
  have "unat ?a \<noteq> unat (?a + 4)"
    using unat_pte2_addr [OF base i vaddr_indices(3) [of vaddr]] by simp
  then have "?ph ?a = PTE_V OR flags" "?ph (?a + 4) = ppn" by (auto simp: pte2_write_def Let_def)
  moreover have "(PTE_V OR flags) AND PTE_V \<noteq> 0" unfolding and_PTE_V by (simp add: bit_or_iff)
  moreover have "bit (pt1_entry ?ph b (drop_bit 9 (drop_bit 12 vaddr))) 31" unfolding e by simp
  note translate_small [OF this e base i]
  ultimately show ?thesis unfolding flags by (simp add: Let_def)
qed

lemma pte2_write_miss:
  assumes ok: "ptab_ok b mx nx ph" and i: "unat i < unat mx" and slot: "slot_free_for ph b (drop_bit 12 va) i"
    and other: "drop_bit 12 va \<noteq> drop_bit 12 vaddr" and r: "translate ph b vaddr = Inr r"
  shows "translate (pte2_write ph b i (drop_bit 12 va) flags ppn) b vaddr = Inr r"
proof (rule translate_cong [OF ok r])
  have base: "base_ok b mx" by (rule ptab_ok_base [OF ok])
  let ?ix = "drop_bit 9 (drop_bit 12 vaddr)" and ?ix1 = "drop_bit 9 (drop_bit 12 va)"
  have v: "bit (pt1_entry ph b ?ix) 31" using r
    by (auto simp: translate_def v2p_translate_def vaddr_indices(1) and_PTE_V Let_def split: if_splits)
  show same: "pt1_entry (pte2_write ph b i (drop_bit 12 va) flags ppn) b ?ix = pt1_entry ph b ?ix"
    using pte2_write_entry [OF base i vaddr_indices(2) [of vaddr], of ph va flags ppn] slot v
    by (auto simp: slot_free_for_def)
  fix j a
  assume j: "pt1_entry ph b ?ix = ptd_word b j" "unat j < unat nx"
    and a: "a = pt2_base b j + ucast (8 * (drop_bit 12 vaddr AND 0x1FF))"
  have jm: "unat j < unat mx" using j(2) ok by (auto simp: ptab_ok_def)
  have differ: "j \<noteq> i \<or> drop_bit 12 vaddr AND 0x1FF \<noteq> drop_bit 12 va AND 0x1FF"
  proof (cases "?ix = ?ix1")
    case True
    then show ?thesis using vpn_indices_eq [of vaddr va] other by auto
  next
    case False
    then have "pt1_entry ph b ?ix \<noteq> ptd_word b i"
      using slot v vaddr_indices(2) [of vaddr] bit_ptd_word(2) [of b j, folded j(1)]
      unfolding slot_free_for_def by blast
    then show ?thesis using j(1) by auto
  qed
  note ua = unat_pte2_addr [OF base jm vaddr_indices(3) [of vaddr]]
  note ub = unat_pte2_addr [OF base i vaddr_indices(3) [of va]]
  note u1 = unat_pt1_addr [OF base vaddr_indices(2) [of va]]
  have ne: "unat a \<noteq> unat (pt2_base b i + ucast (8 * (drop_bit 12 va AND 0x1FF)))"
  proof
    assume "unat a = unat (pt2_base b i + ucast (8 * (drop_bit 12 va AND 0x1FF)))"
    then have eq: "512 * unat j + unat (drop_bit 12 vaddr AND 0x1FF)
        = 512 * unat i + unat (drop_bit 12 va AND 0x1FF)"
      unfolding a ua(1) ub(1) by linarith
    have "unat j = (512 * unat j + unat (drop_bit 12 vaddr AND 0x1FF)) div 512"
      using vaddr_indices(3) [of vaddr] by simp
    also have "\<dots> = unat i" unfolding eq using vaddr_indices(3) [of va] by simp
    finally show False using eq differ by (simp add: word_unat_eq_iff)
  qed
  have mod8: "unat a mod 8 = 0" "unat (a + 4) = unat a + 4"
    "unat (pt2_base b i + ucast (8 * (drop_bit 12 va AND 0x1FF))) mod 8 = 0"
  proof -
    have "8 dvd unat b" using base dvd_trans [of 8 8192 "unat b"] by (simp add: base_ok_def)
    then obtain c where c: "unat b = 8 * c" by (auto elim: dvdE)
    have "unat a = 8 * (c + 1024 + 512 * unat j + unat (drop_bit 12 vaddr AND 0x1FF))"
      unfolding a ua(1) c by simp
    then show "unat a mod 8 = 0" by simp
    show "unat (a + 4) = unat a + 4" unfolding a ua ..
    have "unat (pt2_base b i + ucast (8 * (drop_bit 12 va AND 0x1FF)))
        = 8 * (c + 1024 + 512 * unat i + unat (drop_bit 12 va AND 0x1FF))"
      unfolding ub(1) c by simp
    then show "unat (pt2_base b i + ucast (8 * (drop_bit 12 va AND 0x1FF))) mod 8 = 0" by simp
  qed
  let ?a = "pt2_base b i + ucast (8 * (drop_bit 12 va AND 0x1FF))"
  have "a \<noteq> b + ucast (4 * ?ix1)" "a + 4 \<noteq> b + ucast (4 * ?ix1)"
    using ua u1 a mod8(2) vaddr_indices(2) [of va] by (auto simp: word_unat_eq_iff)
  moreover have "a \<noteq> ?a" using ne by auto
  moreover have "a \<noteq> ?a + 4" "a + 4 \<noteq> ?a"
  proof -
    have "unat a \<noteq> unat ?a + 4" "unat a + 4 \<noteq> unat ?a" using mod8(1,3) by presburger+
    moreover have "unat (?a + 4) = unat ?a + 4" unfolding ub ..
    ultimately show "a \<noteq> ?a + 4" "a + 4 \<noteq> ?a" using mod8(2) by auto
  qed
  moreover have "a + 4 \<noteq> ?a + 4" using \<open>a \<noteq> ?a\<close> by simp
  ultimately show "pte2_write ph b i (drop_bit 12 va) flags ppn a = ph a
      \<and> pte2_write ph b i (drop_bit 12 va) flags ppn (a + 4) = ph (a + 4)"
    by (simp add: pte2_write_def Let_def)
qed

lemma translate_outside:
  assumes ok: "ptab_ok b mx nx ph" and out: "\<And>a. unat a \<in> ptab_area b mx \<Longrightarrow> ph' a = ph a"
  shows "ptab_ok b mx nx ph'" and "translate ph b vaddr = Inr r \<Longrightarrow> translate ph' b vaddr = Inr r"
proof -
  have base: "base_ok b mx" and nx: "unat nx \<le> unat mx" using ok by (simp_all add: ptab_ok_def)
  have e: "pt1_entry ph' b ix = pt1_entry ph b ix" if "unat ix < 2048" for ix
    unfolding pt1_entry_def
    by (rule out) (use unat_pt1_addr [OF base that] that in \<open>simp add: ptab_area_def\<close>)
  show "ptab_ok b mx nx ph'" using ok unfolding ptab_ok_def by (simp add: e)
  assume r: "translate ph b vaddr = Inr r"
  show "translate ph' b vaddr = Inr r"
  proof (rule translate_cong [OF ok r e [OF vaddr_indices(2)]])
    fix i a assume i: "unat i < unat nx" and a: "a = pt2_base b i + ucast (8 * (drop_bit 12 vaddr AND 0x1FF))"
    have im: "unat i < unat mx" using i nx by simp
    show "ph' a = ph a \<and> ph' (a + 4) = ph (a + 4)"
      using unat_pte2_addr [OF base im vaddr_indices(3) [of vaddr]] vaddr_indices(3) [of vaddr] im unfolding a
      by (intro conjI out) (simp_all add: ptab_area_def)
  qed
qed

section \<open>All page tables of the boot loader\<close>

fun table :: "boot_state \<Rightarrow> nat \<times> nat \<times> nat \<Rightarrow> u64" where
  "table st (v, x, y) = ptabs_paddr st v x y"

fun table_wf :: "boot_state \<Rightarrow> nat \<times> nat \<times> nat \<Rightarrow> bool" where
  "table_wf st (v, x, y) = (ptab_ok (ptabs_paddr st v x y) (ptabs_max_pt2 st) (ptabs_next_pt2 st v x y) (phys st)
     \<and> lock_idle (ptabs_lock st v x y))"

definition tables_ok :: "(nat \<times> nat \<times> nat) set \<Rightarrow> boot_state \<Rightarrow> bool" where
  "tables_ok T st \<longleftrightarrow> (\<forall>t\<in>T. table_wf st t) \<and>
     (\<forall>t\<in>T. \<forall>t'\<in>T. t \<noteq> t' \<longrightarrow>
        ptab_area (table st t) (ptabs_max_pt2 st) \<inter> ptab_area (table st t') (ptabs_max_pt2 st) = {})"

text \<open>No big page at the place of a virtual page.\<close>

definition no_big :: "boot_state \<Rightarrow> nat \<times> nat \<times> nat \<Rightarrow> u32 \<Rightarrow> bool" where
  "no_big st t va \<longleftrightarrow>
     (let e = pt1_entry (phys st) (table st t) (drop_bit 9 (drop_bit 12 va)) in bit e 31 \<longrightarrow> bit e 30)"

abbreviation entry1 :: "boot_state \<Rightarrow> nat \<times> nat \<times> nat \<Rightarrow> u32 \<Rightarrow> u32" where
  "entry1 st t ix \<equiv> pt1_entry (phys st) (table st t) ix"

abbreviation tr :: "boot_state \<Rightarrow> nat \<times> nat \<times> nat \<Rightarrow> u32 \<Rightarrow> panic + u64 \<times> u32" where
  "tr st t va \<equiv> translate (phys st) (table st t) va"

definition page_result :: "u32 \<Rightarrow> u32 \<Rightarrow> u32 \<Rightarrow> u64 \<times> u32" where
  "page_result ppn flags vaddr = (push_bit 12 (ucast (ppn AND 0x0FFFFFFF)) OR ucast (vaddr AND 0xFFF),
     (PTE_V OR flags) AND 0xFFC00000)"

text \<open>\<open>st'\<close> differs from \<open>st\<close> by the registration of the page of \<open>va\<close> in the tables \<open>ts\<close>.\<close>

fun used :: "boot_state \<Rightarrow> nat \<times> nat \<times> nat \<Rightarrow> nat" where
  "used st (v, x, y) = unat (ptabs_next_pt2 st v x y)"

definition page_added :: "(nat \<times> nat \<times> nat) set \<Rightarrow> (nat \<times> nat \<times> nat) set \<Rightarrow> u32 \<Rightarrow> u32 \<Rightarrow> u32
    \<Rightarrow> boot_state \<Rightarrow> boot_state \<Rightarrow> bool" where
  "page_added T ts va flags ppn st st' \<longleftrightarrow>
     tables_ok T st' \<and> table st' = table st \<and> ptabs_max_pt2 st' = ptabs_max_pt2 st \<and>
     (\<forall>t\<in>T. used st' t \<le> used st t + (if t \<in> ts then 1 else 0)) \<and>
     (\<forall>t\<in>T. \<forall>w. no_big st t w \<longrightarrow> no_big st' t w) \<and>
     (\<forall>t\<in>T. \<forall>ix. unat ix < 2048 \<longrightarrow> entry1 st' t ix = entry1 st t ix \<or>
        t \<in> ts \<and> ix = drop_bit 9 (drop_bit 12 va) \<and> bit (entry1 st' t ix) 31 \<and> bit (entry1 st' t ix) 30) \<and>
     (\<forall>t\<in>ts. \<forall>w. drop_bit 12 w = drop_bit 12 va \<longrightarrow> tr st' t w = Inr (page_result ppn flags w)) \<and>
     (\<forall>t\<in>T. \<forall>w r. t \<notin> ts \<or> drop_bit 12 w \<noteq> drop_bit 12 va \<longrightarrow> tr st t w = Inr r \<longrightarrow> tr st' t w = Inr r)"

lemma add_pte2_full:
  assumes "boot_add_pte2 v x y vpn flags ppn st = Some (Inl Not_enough_PT2)"
  shows "used st (v, x, y) = unat (ptabs_max_pt2 st) \<and>
    \<not> bit (pt1_entry (phys st) (ptabs_paddr st v x y) (drop_bit 9 vpn)) 31"
  using assms unfolding boot_add_pte2_def Let_def
  by (cases "spin_lock_acquire (ptabs_lock st v x y)")
    (auto simp: and_PTE_V pt1_entry_def split: if_splits)

lemma add_pte2_tables:
  fixes va :: u32
  assumes ok: "tables_ok T st" and t: "(v, x, y) \<in> T" and big: "no_big st (v, x, y) va"
  shows "boot_add_pte2 v x y (drop_bit 12 va) flags ppn st = Some (Inl Not_enough_PT2) \<and>
      used st (v, x, y) = unat (ptabs_max_pt2 st) \<or>
    (\<exists>st'. boot_add_pte2 v x y (drop_bit 12 va) flags ppn st = Some (Inr st') \<and>
       page_added T {(v, x, y)} va flags ppn st st')"
proof -
  let ?b = "ptabs_paddr st v x y" and ?mx = "ptabs_max_pt2 st"
  have pt: "ptab_ok ?b ?mx (ptabs_next_pt2 st v x y) (phys st)" and idle: "lock_idle (ptabs_lock st v x y)"
    using ok t unfolding tables_ok_def by force+
  have base: "base_ok ?b ?mx" by (rule ptab_ok_base [OF pt])
  have full: "used st (v, x, y) = unat ?mx"
    if "boot_add_pte2 v x y (drop_bit 12 va) flags ppn st = Some (Inl Not_enough_PT2)"
    using add_pte2_full [OF that] by blast
  show ?thesis
  proof (rule disjE [OF add_pte2_step [OF pt idle, of va flags ppn]])
    show "bit (pt1_entry (phys st) ?b (drop_bit 9 (drop_bit 12 va))) 30"
      if "bit (pt1_entry (phys st) ?b (drop_bit 9 (drop_bit 12 va))) 31"
      using big that by (simp add: no_big_def)
  next
    assume "\<exists>i nx lk. boot_add_pte2 v x y (drop_bit 12 va) flags ppn st = Some (Inr (st\<lparr>
        ptabs_next_pt2 := upd3 (ptabs_next_pt2 st) v x y nx,
        phys := pte2_write (phys st) ?b i (drop_bit 12 va) flags ppn,
        ptabs_lock := upd3 (ptabs_lock st) v x y lk\<rparr>)) \<and> lock_idle lk \<and>
      unat i < unat nx \<and> unat (ptabs_next_pt2 st v x y) \<le> unat nx \<and> unat nx \<le> unat ?mx \<and>
      slot_free_for (phys st) ?b (drop_bit 12 va) i \<and> unat nx \<le> unat (ptabs_next_pt2 st v x y) + 1"
    then obtain i nx lk where run: "boot_add_pte2 v x y (drop_bit 12 va) flags ppn st = Some (Inr (st\<lparr>
        ptabs_next_pt2 := upd3 (ptabs_next_pt2 st) v x y nx,
        phys := pte2_write (phys st) ?b i (drop_bit 12 va) flags ppn,
        ptabs_lock := upd3 (ptabs_lock st) v x y lk\<rparr>))" and lk: "lock_idle lk"
      and i: "unat i < unat nx" "unat (ptabs_next_pt2 st v x y) \<le> unat nx" "unat nx \<le> unat ?mx"
      and slot: "slot_free_for (phys st) ?b (drop_bit 12 va) i"
      and grow: "unat nx \<le> unat (ptabs_next_pt2 st v x y) + 1" by blast
    let ?ph = "pte2_write (phys st) ?b i (drop_bit 12 va) flags ppn"
    let ?st = "st\<lparr>ptabs_next_pt2 := upd3 (ptabs_next_pt2 st) v x y nx, phys := ?ph,
        ptabs_lock := upd3 (ptabs_lock st) v x y lk\<rparr>"
    have im: "unat i < unat ?mx" using i by simp
    have tab: "table ?st = table st" by (rule ext) (auto simp: fun_eq_iff)
    have out: "?ph a = phys st a" if "unat a \<in> ptab_area (table st t') ?mx" "t' \<in> T" "t' \<noteq> (v, x, y)" for a t'
    proof (rule pte2_write_outside [OF base im])
      have "ptab_area (table st t') ?mx \<inter> ptab_area ?b ?mx = {}"
        using ok t that(2,3) unfolding tables_ok_def by fastforce
      then show "unat a \<notin> ptab_area ?b ?mx" using that(1) by blast
    qed
    have wf: "table_wf ?st t'" if t': "t' \<in> T" for t'
    proof (cases "t' = (v, x, y)")
      case True
      then show ?thesis using pte2_write_ok [OF pt i slot] lk by simp
    next
      case False
      obtain v' x' y' where e: "t' = (v', x', y')" by (cases t')
      then have o: "ptab_ok (table st t') ?mx (ptabs_next_pt2 st v' x' y') (phys st)" "lock_idle (ptabs_lock st v' x' y')"
        using ok t' unfolding tables_ok_def by force+
      from translate_outside(1) [OF o(1) out [OF _ t' False]] show ?thesis using o(2) False e by auto
    qed
    have ent: "entry1 ?st t' ix = (if t' = (v, x, y) \<and> ix = drop_bit 9 (drop_bit 12 va) then ptd_word ?b i else entry1 st t' ix)"
      if "t' \<in> T" "unat ix < 2048" for t' ix
    proof (cases "t' = (v, x, y)")
      case True
      then show ?thesis using pte2_write_entry [OF base im that(2), of "phys st" va flags ppn] by simp
    next
      case False
      have "unat (table st t' + ucast (4 * ix)) \<in> ptab_area (table st t') ?mx"
      proof -
        obtain v' x' y' where e: "t' = (v', x', y')" by (cases t')
        then have "base_ok (table st t') ?mx" using ok that(1) ptab_ok_base unfolding tables_ok_def by force
        from unat_pt1_addr [OF this that(2)] that(2) show ?thesis by (simp add: ptab_area_def)
      qed
      from out [OF this that(1) False] show ?thesis using False unfolding tab by (simp add: pt1_entry_def)
    qed
    have big': "no_big ?st t' w" if "t' \<in> T" "no_big st t' w" for t' w
      using ent [OF that(1) vaddr_indices(2) [of w]] that(2) by (simp add: no_big_def Let_def)
    have ent': "\<forall>t\<in>T. \<forall>ix. unat ix < 2048 \<longrightarrow> entry1 ?st t ix = entry1 st t ix \<or>
        t \<in> {(v, x, y)} \<and> ix = drop_bit 9 (drop_bit 12 va) \<and> bit (entry1 ?st t ix) 31 \<and> bit (entry1 ?st t ix) 30"
      using ent by simp
    have hit: "tr ?st (v, x, y) w = Inr (page_result ppn flags w)" if "drop_bit 12 w = drop_bit 12 va" for w
      using pte2_write_hit [OF base im, of va w "phys st" flags ppn] that by (simp add: page_result_def)
    have miss: "tr ?st t' w = Inr r"
      if "t' \<in> T" "t' \<notin> {(v, x, y)} \<or> drop_bit 12 w \<noteq> drop_bit 12 va" "tr st t' w = Inr r" for t' w r
    proof (cases "t' = (v, x, y)")
      case True
      then show ?thesis using pte2_write_miss [OF pt im slot, of w r flags ppn] that by simp
    next
      case False
      obtain v' x' y' where e: "t' = (v', x', y')" by (cases t')
      then have "ptab_ok (table st t') ?mx (ptabs_next_pt2 st v' x' y') (phys st)"
        using ok that(1) unfolding tables_ok_def by force
      from translate_outside(2) [OF this out [OF _ that(1) False] that(3)] show ?thesis unfolding tab by simp
    qed
    have use: "\<forall>t\<in>T. used ?st t \<le> used st t + (if t \<in> {(v, x, y)} then 1 else 0)"
    proof
      fix t :: "nat \<times> nat \<times> nat"
      show "used ?st t \<le> used st t + (if t \<in> {(v, x, y)} then 1 else 0)"
        using grow by (cases t) simp
    qed
    have "tables_ok T ?st"
      using ok wf unfolding tables_ok_def tab by simp
    then have "page_added T {(v, x, y)} va flags ppn st ?st"
      using big' ent' hit miss tab use unfolding page_added_def by simp
    then show ?thesis using run by blast
  qed (use full in blast)
qed


section \<open>A vseg made of small pages\<close>

lemma page_added_trans:
  assumes "page_added T ts va flags ppn st st1" "page_added T us va flags ppn st1 st2"
    "ts \<subseteq> T" "us \<subseteq> T" "ts \<inter> us = {}"
  shows "page_added T (ts \<union> us) va flags ppn st st2"
  unfolding page_added_def
proof (intro conjI)
  have "tr st2 t w = Inr (page_result ppn flags w)" if t: "t \<in> ts \<union> us" and w: "drop_bit 12 w = drop_bit 12 va" for t w
  proof (cases "t \<in> us")
    case True
    then show ?thesis using assms(2) w unfolding page_added_def by blast
  next
    case False
    then have "tr st1 t w = Inr (page_result ppn flags w)" "t \<in> T"
      using assms(1,3) t w unfolding page_added_def by blast+
    then show ?thesis using assms(2) False unfolding page_added_def by blast
  qed
  then show "\<forall>t\<in>ts \<union> us. \<forall>w. drop_bit 12 w = drop_bit 12 va \<longrightarrow> tr st2 t w = Inr (page_result ppn flags w)"
    by blast
  have "tr st2 t w = Inr r" if "t \<in> T" "t \<notin> ts \<union> us \<or> drop_bit 12 w \<noteq> drop_bit 12 va" "tr st t w = Inr r" for t w r
  proof -
    have "tr st1 t w = Inr r" using assms(1) that unfolding page_added_def by blast
    then show ?thesis using assms(2) that unfolding page_added_def by blast
  qed
  then show "\<forall>t\<in>T. \<forall>w r. t \<notin> ts \<union> us \<or> drop_bit 12 w \<noteq> drop_bit 12 va \<longrightarrow> tr st t w = Inr r \<longrightarrow> tr st2 t w = Inr r"
    by blast
  show "\<forall>t\<in>T. \<forall>ix. unat ix < 2048 \<longrightarrow> entry1 st2 t ix = entry1 st t ix \<or>
      t \<in> ts \<union> us \<and> ix = drop_bit 9 (drop_bit 12 va) \<and> bit (entry1 st2 t ix) 31 \<and> bit (entry1 st2 t ix) 30"
  proof (intro ballI allI impI)
    fix t and ix :: u32 assume "t \<in> T" "unat ix < 2048"
    then have "entry1 st1 t ix = entry1 st t ix \<or> t \<in> ts \<and> ix = drop_bit 9 (drop_bit 12 va) \<and> bit (entry1 st1 t ix) 31 \<and> bit (entry1 st1 t ix) 30"
      "entry1 st2 t ix = entry1 st1 t ix \<or> t \<in> us \<and> ix = drop_bit 9 (drop_bit 12 va) \<and> bit (entry1 st2 t ix) 31 \<and> bit (entry1 st2 t ix) 30"
      using assms(1,2) unfolding page_added_def by blast+
    then show "entry1 st2 t ix = entry1 st t ix \<or>
      t \<in> ts \<union> us \<and> ix = drop_bit 9 (drop_bit 12 va) \<and> bit (entry1 st2 t ix) 31 \<and> bit (entry1 st2 t ix) 30"
      by (metis Un_iff)
  qed
  show "\<forall>t\<in>T. used st2 t \<le> used st t + (if t \<in> ts \<union> us then 1 else 0)"
  proof
    fix t assume "t \<in> T"
    then have "used st2 t \<le> used st1 t + (if t \<in> us then 1 else 0)" "used st1 t \<le> used st t + (if t \<in> ts then 1 else 0)"
      using assms(1,2) unfolding page_added_def by blast+
    then show "used st2 t \<le> used st t + (if t \<in> ts \<union> us then 1 else 0)" using assms(5) by (auto split: if_splits)
  qed
qed (use assms in \<open>simp_all add: page_added_def\<close>)

lemma add_to_targets_tables:
  fixes va :: u32
  shows "tables_ok T st \<Longrightarrow> set ts \<subseteq> T \<Longrightarrow> distinct ts \<Longrightarrow> (\<forall>t\<in>set ts. no_big st t va) \<Longrightarrow>
    add_to_targets False (drop_bit 12 va) flags ppn ts st = Some (Inl Not_enough_PT2) \<and>
       (\<exists>t\<in>set ts. unat (ptabs_max_pt2 st) \<le> used st t) \<or>
    (\<exists>st'. add_to_targets False (drop_bit 12 va) flags ppn ts st = Some (Inr st') \<and>
       page_added T (set ts) va flags ppn st st')"
proof (induction ts arbitrary: st)
  case Nil
  then show ?case by (simp add: page_added_def)
next
  case (Cons t ts)
  obtain v x y where t: "t = (v, x, y)" by (cases t)
  have "boot_add_pte2 v x y (drop_bit 12 va) flags ppn st = Some (Inl Not_enough_PT2) \<and>
      used st (v, x, y) = unat (ptabs_max_pt2 st) \<or>
    (\<exists>st'. boot_add_pte2 v x y (drop_bit 12 va) flags ppn st = Some (Inr st') \<and>
       page_added T {(v, x, y)} va flags ppn st st')"
    by (rule add_pte2_tables [OF Cons.prems(1)]) (use Cons.prems t in auto)
  then show ?case
  proof (elim disjE exE conjE bexE)
    fix st1 assume run: "boot_add_pte2 v x y (drop_bit 12 va) flags ppn st = Some (Inr st1)"
      and added: "page_added T {(v, x, y)} va flags ppn st st1"
    have "add_to_targets False (drop_bit 12 va) flags ppn ts st1 = Some (Inl Not_enough_PT2) \<and>
        (\<exists>t\<in>set ts. unat (ptabs_max_pt2 st1) \<le> used st1 t) \<or>
      (\<exists>st'. add_to_targets False (drop_bit 12 va) flags ppn ts st1 = Some (Inr st') \<and>
         page_added T (set ts) va flags ppn st1 st')"
      by (rule Cons.IH) (use added Cons.prems in \<open>auto simp: page_added_def\<close>)
    then show ?thesis
    proof (elim disjE exE conjE bexE)
      fix st2 assume run2: "add_to_targets False (drop_bit 12 va) flags ppn ts st1 = Some (Inr st2)"
        and added2: "page_added T (set ts) va flags ppn st1 st2"
      have "page_added T ({(v, x, y)} \<union> set ts) va flags ppn st st2"
        by (rule page_added_trans [OF added added2]) (use Cons.prems t in auto)
      then show ?thesis using run run2 t by simp
    next
      fix u assume e: "add_to_targets False (drop_bit 12 va) flags ppn ts st1 = Some (Inl Not_enough_PT2)"
        and u: "u \<in> set ts" "unat (ptabs_max_pt2 st1) \<le> used st1 u"
      have "u \<noteq> (v, x, y)" "u \<in> T" using u(1) Cons.prems t by auto
      then have "used st1 u \<le> used st u + 0" "ptabs_max_pt2 st1 = ptabs_max_pt2 st"
        using added unfolding page_added_def by (auto split: if_splits)
      then have "unat (ptabs_max_pt2 st) \<le> used st u" using u(2) by simp
      then show ?thesis using e run t u(1) by auto
    qed
  next
    assume "boot_add_pte2 v x y (drop_bit 12 va) flags ppn st = Some (Inl Not_enough_PT2)"
      "used st (v, x, y) = unat (ptabs_max_pt2 st)"
    then show ?thesis using t by auto
  qed
qed

lemma vpn_of_page: "unat (w :: u32) < 2 ^ 20 \<Longrightarrow> drop_bit 12 (push_bit 12 w) = w"
  by (simp add: word_unat_eq_iff drop_bit_eq_div unat_div push_bit_eq_mult unat_word_ariths)

text \<open>The pages \<open>vpn + p\<close> for \<open>p\<close> below \<open>n\<close>.\<close>

definition pages_added :: "(nat \<times> nat \<times> nat) set \<Rightarrow> (nat \<times> nat \<times> nat) set \<Rightarrow> u32 \<Rightarrow> u32 \<Rightarrow> u32 \<Rightarrow> nat \<Rightarrow> nat
    \<Rightarrow> boot_state \<Rightarrow> boot_state \<Rightarrow> bool" where
  "pages_added T ts vpn flags ppn p n st st' \<longleftrightarrow>
     tables_ok T st' \<and> table st' = table st \<and> ptabs_max_pt2 st' = ptabs_max_pt2 st \<and>
     (\<forall>t\<in>T. \<forall>ix. unat ix < 2048 \<longrightarrow> entry1 st' t ix = entry1 st t ix \<or>
        t \<in> ts \<and> (\<exists>q. p \<le> q \<and> q < p + n \<and> ix = drop_bit 9 (vpn + word_of_nat q)) \<and>
        bit (entry1 st' t ix) 31 \<and> bit (entry1 st' t ix) 30) \<and>
     (\<forall>t\<in>ts. \<forall>w q. p \<le> q \<and> q < p + n \<and> drop_bit 12 w = vpn + word_of_nat q \<longrightarrow>
        tr st' t w = Inr (page_result (ppn + word_of_nat q) flags w)) \<and>
     (\<forall>t\<in>T. \<forall>w r. t \<notin> ts \<or> (\<forall>q. p \<le> q \<and> q < p + n \<longrightarrow> drop_bit 12 w \<noteq> vpn + word_of_nat q) \<longrightarrow>
        tr st t w = Inr r \<longrightarrow> tr st' t w = Inr r)"

lemma pages_added_kept:
  assumes "pages_added T ts vpn flags ppn p n st st'" "t \<in> T"
    and "t \<notin> ts \<or> (\<forall>q. p \<le> q \<and> q < p + n \<longrightarrow> drop_bit 12 w \<noteq> vpn + word_of_nat q)"
    and "tr st t w = Inr r"
  shows "tr st' t w = Inr r"
proof -
  have "\<forall>t\<in>T. \<forall>w r. t \<notin> ts \<or> (\<forall>q. p \<le> q \<and> q < p + n \<longrightarrow> drop_bit 12 w \<noteq> vpn + word_of_nat q) \<longrightarrow>
        tr st t w = Inr r \<longrightarrow> tr st' t w = Inr r"
    using assms(1) [unfolded pages_added_def] by (elim conjE)
  from this [rule_format, OF assms(2-4)] show ?thesis .
qed

lemma add_pages_tables:
  assumes "set ts \<subseteq> T" "distinct ts"
  shows "tables_ok T st \<Longrightarrow> unat vpn + p + n \<le> 2 ^ 20 \<Longrightarrow>
    (\<forall>t\<in>set ts. \<forall>w q. p \<le> q \<and> q < p + n \<and> drop_bit 12 w = vpn + word_of_nat q \<longrightarrow> no_big st t w) \<Longrightarrow>
    add_pages False vpn flags ppn ts p n st = Some (Inl Not_enough_PT2) \<and>
       (\<exists>t\<in>set ts. unat (ptabs_max_pt2 st) < used st t + n) \<or>
    (\<exists>st'. add_pages False vpn flags ppn ts p n st = Some (Inr st') \<and>
       pages_added T (set ts) vpn flags ppn p n st st')"
proof (induction n arbitrary: p st)
  case 0
  then show ?case by (auto simp: pages_added_def)
next
  case (Suc n)
  let ?va = "push_bit 12 (vpn + word_of_nat p)"
  have u: "unat (vpn + word_of_nat q) = unat vpn + q" if "q < p + Suc n" for q
    using Suc.prems(2) that by (simp add: unat_add_no_wrap unat_of_nat_small)
  have va: "drop_bit 12 ?va = vpn + word_of_nat p"
    by (rule vpn_of_page) (use u [of p] Suc.prems(2) in simp)
  have "p \<le> p \<and> p < p + Suc n \<and> drop_bit 12 ?va = vpn + word_of_nat p" using va by simp
  then have nb: "\<forall>t\<in>set ts. no_big st t ?va" using Suc.prems(3) by blast
  from add_to_targets_tables [OF Suc.prems(1) assms nb, of flags "ppn + word_of_nat p", unfolded va]
  show ?case
  proof (elim disjE exE conjE bexE)
    fix st1 assume run: "add_to_targets False (vpn + word_of_nat p) flags (ppn + word_of_nat p) ts st = Some (Inr st1)"
      and added: "page_added T (set ts) ?va flags (ppn + word_of_nat p) st st1"
    have nb1: "\<forall>t\<in>set ts. \<forall>w q. Suc p \<le> q \<and> q < Suc p + n \<and> drop_bit 12 w = vpn + word_of_nat q \<longrightarrow> no_big st1 t w"
    proof (intro ballI allI impI)
      fix t w q assume a: "t \<in> set ts" "Suc p \<le> q \<and> q < Suc p + n \<and> drop_bit 12 w = vpn + word_of_nat q"
      then have "p \<le> q \<and> q < p + Suc n \<and> drop_bit 12 w = vpn + word_of_nat q" by simp
      then have "no_big st t w" using Suc.prems(3) a(1) by blast
      then show "no_big st1 t w" using added a(1) assms(1) unfolding page_added_def by blast
    qed
    have ok1: "tables_ok T st1" using added by (simp add: page_added_def)
    have "unat vpn + Suc p + n \<le> 2 ^ 20" using Suc.prems(2) by simp
    from Suc.IH [OF ok1 this nb1] show ?thesis
    proof (elim disjE exE conjE bexE)
      fix st2 assume run2: "add_pages False vpn flags ppn ts (Suc p) n st1 = Some (Inr st2)"
        and added2: "pages_added T (set ts) vpn flags ppn (Suc p) n st1 st2"
      have miss: "vpn + word_of_nat p \<noteq> vpn + word_of_nat q" if "Suc p \<le> q" "q < Suc p + n" for q
        using u [of p] u [of q] that by (metis Suc_n_not_le_n add_Suc_right add_Suc_shift add_left_cancel less_add_Suc1)
      have "pages_added T (set ts) vpn flags ppn p (Suc n) st st2"
        unfolding pages_added_def
      proof (intro conjI ballI allI impI)
        show "tables_ok T st2" "table st2 = table st" "ptabs_max_pt2 st2 = ptabs_max_pt2 st"
          using added added2 by (simp_all add: page_added_def pages_added_def)
      next
        fix t and ix :: u32 assume "t \<in> T" "unat ix < 2048"
        then have "entry1 st1 t ix = entry1 st t ix \<or>
            t \<in> set ts \<and> ix = drop_bit 9 (vpn + word_of_nat p) \<and> bit (entry1 st1 t ix) 31 \<and> bit (entry1 st1 t ix) 30"
          "entry1 st2 t ix = entry1 st1 t ix \<or>
            t \<in> set ts \<and> (\<exists>q. Suc p \<le> q \<and> q < Suc p + n \<and> ix = drop_bit 9 (vpn + word_of_nat q)) \<and>
            bit (entry1 st2 t ix) 31 \<and> bit (entry1 st2 t ix) 30"
          using added added2 unfolding page_added_def pages_added_def va by blast+
        moreover have "p \<le> p \<and> p < p + Suc n" by simp
        moreover have "p \<le> q \<and> q < p + Suc n" if "Suc p \<le> q \<and> q < Suc p + n" for q using that by simp
        ultimately show "entry1 st2 t ix = entry1 st t ix \<or>
            t \<in> set ts \<and> (\<exists>q. p \<le> q \<and> q < p + Suc n \<and> ix = drop_bit 9 (vpn + word_of_nat q)) \<and>
            bit (entry1 st2 t ix) 31 \<and> bit (entry1 st2 t ix) 30"
          by metis
      next
        fix t w q assume t: "t \<in> set ts" and q: "p \<le> q \<and> q < p + Suc n \<and> drop_bit 12 w = vpn + word_of_nat q"
        show "tr st2 t w = Inr (page_result (ppn + word_of_nat q) flags w)"
        proof (cases "q = p")
          case True
          then have "drop_bit 12 w = drop_bit 12 ?va" using q va by simp
          then have "tr st1 t w = Inr (page_result (ppn + word_of_nat p) flags w)"
            using added t unfolding page_added_def by blast
          moreover have "\<forall>q'. Suc p \<le> q' \<and> q' < Suc p + n \<longrightarrow> drop_bit 12 w \<noteq> vpn + word_of_nat q'"
            using miss q True by auto
          ultimately show ?thesis using added2 t assms(1) True unfolding pages_added_def by blast
        next
          case False
          then have "Suc p \<le> q \<and> q < Suc p + n \<and> drop_bit 12 w = vpn + word_of_nat q" using q by simp
          then show ?thesis using added2 t unfolding pages_added_def by blast
        qed
      next
        fix t w r assume t: "t \<in> T"
          and o: "t \<notin> set ts \<or> (\<forall>q. p \<le> q \<and> q < p + Suc n \<longrightarrow> drop_bit 12 w \<noteq> vpn + word_of_nat q)"
          and r: "tr st t w = Inr r"
        have o1: "t \<notin> set ts \<or> drop_bit 12 w \<noteq> drop_bit 12 ?va"
          using o va by auto
        have o2: "t \<notin> set ts \<or> (\<forall>q. Suc p \<le> q \<and> q < Suc p + n \<longrightarrow> drop_bit 12 w \<noteq> vpn + word_of_nat q)"
          using o by auto
        have "tr st1 t w = Inr r" using added t o1 r unfolding page_added_def by blast
        then show "tr st2 t w = Inr r" using added2 t o2 unfolding pages_added_def by blast
      qed
      then show ?thesis using run run2 by simp
    next
      fix t assume e: "add_pages False vpn flags ppn ts (Suc p) n st1 = Some (Inl Not_enough_PT2)"
        and t: "t \<in> set ts" "unat (ptabs_max_pt2 st1) < used st1 t + n"
      have "t \<in> T" using t(1) assms(1) by blast
      then have "used st1 t \<le> used st t + (if t \<in> set ts then 1 else 0)" "ptabs_max_pt2 st1 = ptabs_max_pt2 st"
        using added unfolding page_added_def by blast+
      then have "unat (ptabs_max_pt2 st) < used st t + Suc n" using t by simp
      then show ?thesis using e run t(1) by auto
    qed
  next
    fix t assume "add_to_targets False (vpn + word_of_nat p) flags (ppn + word_of_nat p) ts st = Some (Inl Not_enough_PT2)"
      "t \<in> set ts" "unat (ptabs_max_pt2 st) \<le> used st t"
    then show ?thesis by (auto intro!: bexI [of _ t])
  qed
qed


lemma page_address:
  fixes ppn q w :: u32
  assumes "unat ppn < 2 ^ 28"
  shows "unat (push_bit 12 (ucast (ppn AND 0x0FFFFFFF)) OR ucast (w AND 0xFFF) :: u64)
    = unat ppn * 4096 + unat w mod 4096"
proof -
  have p: "ppn AND 0x0FFFFFFF = ppn"
  proof -
    have "ppn AND 0x0FFFFFFF = take_bit 28 ppn" by (simp add: take_bit_eq_mask mask_eq_exp_minus_1)
    also have "\<dots> = ppn" using assms by (simp add: take_bit_eq_mod unat_mod word_unat_eq_iff)
    finally show ?thesis .
  qed
  have o: "w AND 0xFFF = take_bit 12 w" by (simp add: take_bit_eq_mask mask_eq_exp_minus_1)
  have "push_bit 12 (ucast ppn) OR ucast (take_bit 12 w) = push_bit 12 (ucast ppn :: u64) + ucast (take_bit 12 w)"
    by (rule disjunctive_add_eq_or [symmetric]) (auto simp: bit_simps intro!: bit_word_eqI)
  moreover have "unat (push_bit 12 (ucast ppn :: u64)) = unat ppn * 4096"
    using assms by (simp add: push_bit_eq_mult unat_word_ariths)
  moreover have "unat (take_bit 12 w) = unat w mod 4096"
    by (simp add: take_bit_eq_mod unat_mod)
  moreover have "unat ppn * 4096 + unat w mod 4096 < 2 ^ 64"
  proof -
    have "unat w mod 4096 < 4096" by simp
    then show ?thesis using assms by simp
  qed
  ultimately show ?thesis unfolding p o by (simp add: unat_add_no_wrap)
qed

lemma vseg_pages:
  fixes vb len :: u32
  assumes "vb AND 0xFFF = 0" "0 < unat len" "unat vb + unat len \<le> 2 ^ 32"
  shows "unat vb = 4096 * unat (drop_bit 12 vb)"
    "unat (vseg_npages False vb len) = (unat len - 1) div 4096 + 1"
    "unat (drop_bit 12 vb) + unat (vseg_npages False vb len) \<le> 2 ^ 20"
proof -
  have "take_bit 12 vb = 0" using assms(1) by (simp add: take_bit_eq_mask mask_eq_exp_minus_1)
  then have "unat (take_bit 12 vb) = 0" by simp
  then have d: "unat vb mod 4096 = 0" by (simp add: take_bit_eq_mod unat_mod)
  have vpn: "unat (drop_bit 12 vb) = unat vb div 4096" by (simp add: drop_bit_eq_div unat_div)
  show v: "unat vb = 4096 * unat (drop_bit 12 vb)" unfolding vpn using div_mult_mod_eq [of "unat vb" 4096] d by simp
  have one: "1 \<le> len" using assms(2) by (simp add: word_le_nat_alt)
  have e: "unat (vb + len - 1) = unat vb + (unat len - 1)"
  proof -
    have "vb + len - 1 = vb + (len - 1)" by simp
    moreover have u: "unat (len - 1) = unat len - 1" using one by (simp add: unat_sub_no_wrap)
    moreover have "unat (vb + (len - 1)) = unat vb + unat (len - 1)"
      by (rule unat_add_no_wrap) (use u assms(2,3) in simp)
    ultimately show ?thesis by (simp only:)
  qed
  have m: "unat (drop_bit 12 (vb + len - 1)) = unat (drop_bit 12 vb) + (unat len - 1) div 4096"
  proof -
    have dd: "unat (drop_bit 12 z) = unat z div 4096" for z :: u32 by (simp add: drop_bit_eq_div unat_div)
    have "unat (drop_bit 12 (vb + len - 1)) = (unat vb + (unat len - 1)) div 4096"
      unfolding dd e ..
    also have "\<dots> = (4096 * unat (drop_bit 12 vb) + (unat len - 1)) div 4096"
      by (subst v) (rule refl)
    also have "\<dots> = unat (drop_bit 12 vb) + (unat len - 1) div 4096" by simp
    finally show ?thesis .
  qed
  have le: "drop_bit 12 vb \<le> drop_bit 12 (vb + len - 1)" using m by (simp add: word_le_nat_alt)
  have b: "unat (drop_bit 12 vb) + (unat len - 1) div 4096 < 2 ^ 20"
  proof -
    have "4096 * unat (drop_bit 12 vb) + (unat len - 1) < 4096 * 2 ^ 20"
    proof -
      have "unat vb + unat len \<le> 4096 * 2 ^ 20" using assms(3) by simp
      then have "unat vb + (unat len - 1) < 4096 * 2 ^ 20" using assms(2) by linarith
      then show ?thesis using v by simp
    qed
    then have "(4096 * unat (drop_bit 12 vb) + (unat len - 1)) div 4096 < 2 ^ 20"
      by (simp add: less_mult_imp_div_less mult.commute)
    then show ?thesis by simp
  qed
  have "unat (drop_bit 12 (vb + len - 1) - drop_bit 12 vb) = (unat len - 1) div 4096"
    using le m by (simp add: unat_sub_no_wrap)
  then show n: "unat (vseg_npages False vb len) = (unat len - 1) div 4096 + 1"
    using b by (simp add: vseg_npages_def unat_add_no_wrap)
  show "unat (drop_bit 12 vb) + unat (vseg_npages False vb len) \<le> 2 ^ 20" using n b by simp
qed

lemma page_range:
  fixes w :: nat
  assumes "w div 4096 = v + q" "q < n"
  shows "4096 * v \<le> w" "w < 4096 * v + 4096 * n"
proof -
  have "w = 4096 * (v + q) + w mod 4096" using assms(1) by (metis mult_div_mod_eq)
  moreover have "w mod 4096 < 4096" by simp
  ultimately obtain r where "w = 4096 * (v + q) + r" "r < 4096" by blast
  moreover have "Suc q \<le> n" using assms(2) by simp
  ultimately show "4096 * v \<le> w" "w < 4096 * v + 4096 * n" by simp_all
qed

lemma distinct_pte_targets: "distinct (pte_targets X Y mp loc vspace_id x y)"
proof -
  have d: "distinct [(v, x, y). (x, y) \<leftarrow> cs, v \<leftarrow> vs]" if "distinct cs" "distinct vs"
    for cs :: "(nat \<times> nat) list" and vs :: "nat list"
    using that
  proof (induction cs)
    case (Cons c cs)
    then show ?case by (cases c) (auto simp: distinct_map inj_on_def)
  qed simp
  have g: "distinct [(x, y). x \<leftarrow> xs, y \<leftarrow> ys, P x y]" if "distinct xs" "distinct ys"
    for xs ys :: "nat list" and P
    using that
  proof (induction xs)
    case (Cons a xs)
    have "concat (map (\<lambda>y. if P a y then [(a, y)] else []) ys) = map (Pair a) (filter (P a) ys)"
      by (induction ys) auto
    then show ?case using Cons by (auto simp: distinct_map inj_on_def split: if_splits)
  qed simp
  show ?thesis unfolding pte_targets_def Let_def
    by (rule d) (auto intro!: g split: option.split)
qed

lemma vseg_translated:
  assumes ok: "tables_ok T st" and pseg: "fetch (psegs mp) (psegid vseg) = Some ps"
    and cl: "fetch (clusters mp) (clusterid ps) = Some c"
    and targets: "set ts \<subseteq> T" "ts = pte_targets X Y mp (vlocal vseg) vspace_id (cluster_x c) (cluster_y c)"
    and loc: "vlocal vseg \<or> X * Y \<le> length (clusters mp)"
    and vb: "\<not> vbig vseg" "vbase vseg AND 0xFFF = 0" "0 < unat (vseg_length vseg)"
      "unat (vbase vseg) + unat (vseg_length vseg) \<le> 2 ^ 32"
    and pb: "unat (pbase vseg) mod 4096 = 0" "unat (pbase vseg) + unat (vseg_length vseg) \<le> 2 ^ 40"
    and nb: "\<And>t w. t \<in> set ts \<Longrightarrow> unat (vbase vseg) \<le> unat w \<Longrightarrow>
      unat w < unat (vbase vseg) + 4096 * ((unat (vseg_length vseg) - 1) div 4096 + 1) \<Longrightarrow> no_big st t w"
  shows "boot_vseg_pte X Y mp vseg vspace_id st = Some (Inl Not_enough_PT2) \<and>
      (\<exists>t\<in>set ts. unat (ptabs_max_pt2 st) < used st t + ((unat (vseg_length vseg) - 1) div 4096 + 1)) \<or>
    (\<exists>st'. boot_vseg_pte X Y mp vseg vspace_id st = Some (Inr st') \<and> tables_ok T st' \<and>
      (\<forall>t\<in>set ts. \<forall>off<unat (vseg_length vseg). tr st' t (vbase vseg + word_of_nat off)
         = Inr (pbase vseg + word_of_nat off,
                (PTE_V OR vseg_flags (vmode vseg) (vspace_id = None)) AND 0xFFC00000)) \<and>
      (\<forall>t\<in>T. \<forall>w r. t \<notin> set ts \<or> unat w < unat (vbase vseg) \<or>
           unat (vbase vseg) + 4096 * ((unat (vseg_length vseg) - 1) div 4096 + 1) \<le> unat w \<longrightarrow>
         tr st t w = Inr r \<longrightarrow> tr st' t w = Inr r))"
proof -
  let ?vpn = "drop_bit 12 (vbase vseg)" and ?n = "unat (vseg_npages False (vbase vseg) (vseg_length vseg))"
  let ?ppn = "ucast (drop_bit 12 (pbase vseg)) :: u32" and ?fl = "vseg_flags (vmode vseg) (vspace_id = None)"
  note vp = vseg_pages [OF vb(2-4)]
  have run: "boot_vseg_pte X Y mp vseg vspace_id st = add_pages False ?vpn ?fl ?ppn ts 0 ?n st"
    unfolding boot_vseg_pte_def pseg cl Option.bind.simps using targets(2) loc vb(1) by auto
  have pd: "unat (drop_bit 12 (pbase vseg)) = unat (pbase vseg) div 4096"
    by (simp add: drop_bit_eq_div unat_div)
  have lt: "unat (pbase vseg) div 4096 < 2 ^ 28"
    using pb(2) vb(3) by (intro less_mult_imp_div_less) simp
  have ppn: "unat ?ppn = unat (pbase vseg) div 4096"
    using lt by (simp add: unsigned_ucast_eq pd take_bit_nat_eq_self)
  have dist: "distinct ts" unfolding targets(2) by (rule distinct_pte_targets)
  have inside: "unat (vbase vseg) \<le> unat w \<and> unat w < unat (vbase vseg) + 4096 * ?n"
    if "q < ?n" "drop_bit 12 w = ?vpn + word_of_nat q" for w q
  proof -
    have "q < 2 ^ 32" using that(1) vp(3) by simp
    then have "unat (?vpn + word_of_nat q) = unat ?vpn + q"
      using that(1) vp(3) by (simp add: unat_add_no_wrap unat_of_nat_small)
    then have "unat w div 4096 = unat ?vpn + q"
      unfolding that(2) [symmetric] by (simp add: drop_bit_eq_div unat_div)
    from page_range [OF this that(1)] show ?thesis using vp(1) by simp
  qed
  have "\<forall>t\<in>set ts. \<forall>w q. 0 \<le> q \<and> q < 0 + ?n \<and> drop_bit 12 w = ?vpn + word_of_nat q \<longrightarrow> no_big st t w"
    using inside nb vp(2) by auto
  with add_pages_tables [OF targets(1) dist ok, of ?vpn 0 ?n ?fl ?ppn] vp(3)
  have "add_pages False ?vpn ?fl ?ppn ts 0 ?n st = Some (Inl Not_enough_PT2) \<and>
      (\<exists>t\<in>set ts. unat (ptabs_max_pt2 st) < used st t + ?n) \<or>
    (\<exists>st'. add_pages False ?vpn ?fl ?ppn ts 0 ?n st = Some (Inr st') \<and>
       pages_added T (set ts) ?vpn ?fl ?ppn 0 ?n st st')" by simp
  then show ?thesis
  proof (elim disjE exE conjE bexE)
    fix st' assume r: "add_pages False ?vpn ?fl ?ppn ts 0 ?n st = Some (Inr st')"
      and added: "pages_added T (set ts) ?vpn ?fl ?ppn 0 ?n st st'"
    have hit: "tr st' t (vbase vseg + word_of_nat off) = Inr (pbase vseg + word_of_nat off, (PTE_V OR ?fl) AND 0xFFC00000)"
      if t: "t \<in> set ts" and off: "off < unat (vseg_length vseg)" for t off
    proof -
      let ?w = "vbase vseg + word_of_nat off" and ?q = "off div 4096"
      have off32: "unat (word_of_nat off :: u32) = off" "unat (word_of_nat off :: u64) = off"
        using less_trans [OF off unat_u32_bound] by (simp_all add: unat_of_nat_small)
      have w: "unat ?w = 4096 * unat ?vpn + off" using off vb(4) off32 vp(1) by (simp add: unat_add_no_wrap)
      have q: "?q < ?n"
      proof -
        have "?q \<le> (unat (vseg_length vseg) - 1) div 4096" using off by (intro div_le_mono) simp
        then show ?thesis using vp(2) by simp
      qed
      have uq: "unat (word_of_nat ?q :: u32) = ?q"
        using le_less_trans [OF div_le_dividend [of off 4096] less_trans [OF off unat_u32_bound]]
        by (simp add: unat_of_nat_small)
      have "unat (?vpn + word_of_nat ?q) = unat ?vpn + ?q"
        using q vp(3) uq by (simp add: unat_add_no_wrap)
      moreover have "unat (drop_bit 12 ?w) = unat ?vpn + ?q"
        using w by (simp add: drop_bit_eq_div unat_div)
      ultimately have page: "drop_bit 12 ?w = ?vpn + word_of_nat ?q" by (simp add: word_unat_eq_iff)
      have "0 \<le> ?q \<and> ?q < 0 + ?n \<and> drop_bit 12 ?w = ?vpn + word_of_nat ?q" using q page by simp
      then have "tr st' t ?w = Inr (page_result (?ppn + word_of_nat ?q) ?fl ?w)"
        using added t unfolding pages_added_def by blast
      moreover have "fst (page_result (?ppn + word_of_nat ?q) ?fl ?w) = pbase vseg + word_of_nat off"
      proof -
        have pq: "unat (pbase vseg) = 4096 * (unat (pbase vseg) div 4096)"
          using div_mult_mod_eq [of "unat (pbase vseg)" 4096] pb(1) by simp
        have sum: "unat (pbase vseg) div 4096 + ?q < 2 ^ 28"
        proof -
          have "(unat (pbase vseg) + off) div 4096 < 2 ^ 28"
            using pb(2) off by (intro less_mult_imp_div_less) simp
          moreover have "(unat (pbase vseg) + off) div 4096 = unat (pbase vseg) div 4096 + ?q"
            by (subst pq) simp
          ultimately show ?thesis by simp
        qed
        have "unat (?ppn + word_of_nat ?q) = unat (pbase vseg) div 4096 + ?q"
          using ppn uq sum by (simp add: unat_add_no_wrap)
        then have "unat (fst (page_result (?ppn + word_of_nat ?q) ?fl ?w))
            = (unat (pbase vseg) div 4096 + ?q) * 4096 + unat ?w mod 4096"
          using page_address [of "?ppn + word_of_nat ?q" ?w] sum by (simp add: page_result_def)
        also have "\<dots> = unat (pbase vseg) + off" using pq w by simp
        also have "\<dots> = unat (pbase vseg + word_of_nat off)"
          using pb(2) off off32 by (simp add: unat_add_no_wrap)
        finally show ?thesis by (simp only: word_unat_eq_iff)
      qed
      moreover have "snd (page_result (?ppn + word_of_nat ?q) ?fl ?w) = (PTE_V OR ?fl) AND 0xFFC00000"
        by (simp add: page_result_def)
      ultimately show ?thesis by (metis prod.collapse)
    qed
    have keep: "tr st' t w = Inr x"
      if t: "t \<in> T" and o: "t \<notin> set ts \<or> unat w < unat (vbase vseg) \<or> unat (vbase vseg) + 4096 * ?n \<le> unat w"
        and x: "tr st t w = Inr x" for t w x
    proof -
      have "t \<notin> set ts \<or> (\<forall>q. 0 \<le> q \<and> q < 0 + ?n \<longrightarrow> drop_bit 12 w \<noteq> ?vpn + word_of_nat q)"
      proof (rule disjCI, intro notI)
        assume "\<not> (\<forall>q. 0 \<le> q \<and> q < 0 + ?n \<longrightarrow> drop_bit 12 w \<noteq> ?vpn + word_of_nat q)"
        then obtain q where q: "q < ?n" "drop_bit 12 w = ?vpn + word_of_nat q" by auto
        from inside [OF this] have "unat (vbase vseg) \<le> unat w" "unat w < unat (vbase vseg) + 4096 * ?n" by simp_all
        then show False if "t \<in> set ts" using o that by simp
      qed
      then show ?thesis by (rule pages_added_kept [OF added t _ x])
    qed
    have ok': "tables_ok T st'" using added by (simp add: pages_added_def)
    have "\<forall>t\<in>set ts. \<forall>off<unat (vseg_length vseg). tr st' t (vbase vseg + word_of_nat off)
        = Inr (pbase vseg + word_of_nat off, (PTE_V OR ?fl) AND 0xFFC00000)" using hit by blast
    moreover have "\<forall>t\<in>T. \<forall>w r. t \<notin> set ts \<or> unat w < unat (vbase vseg) \<or> unat (vbase vseg) + 4096 * ?n \<le> unat w \<longrightarrow>
         tr st t w = Inr r \<longrightarrow> tr st' t w = Inr r" using keep by blast
    ultimately show ?thesis unfolding run r [unfolded vp(2)] vp(2) using ok' by blast
  next
    fix t assume "add_pages False ?vpn ?fl ?ppn ts 0 ?n st = Some (Inl Not_enough_PT2)"
      "t \<in> set ts" "unat (ptabs_max_pt2 st) < used st t + ?n"
    then show ?thesis using run vp(2) by auto
  qed
qed

text \<open>\<open>boot_add_pte2\<close> registers a small page in a page table: it stops with the error exit exactly when
  the PT1 entry is free and the PT2s are all in use, and otherwise the kernel's software translation of every
  address of the page gives the physical page and flags, in that table; every translation of any other page or
  table that worked before gives the same result, the tables stay well formed and at most one PT2 is taken.\<close>

theorem boot_add_pte2_maps_page:
  fixes va :: u32
  assumes "tables_ok T st" "(v, x, y) \<in> T" "no_big st (v, x, y) va"
  shows "if \<not> bit (pt1_entry (phys st) (ptabs_paddr st v x y) (drop_bit 9 (drop_bit 12 va))) 31
            \<and> ptabs_next_pt2 st v x y = ptabs_max_pt2 st
    then boot_add_pte2 v x y (drop_bit 12 va) flags ppn st = Some (Inl Not_enough_PT2)
    else \<exists>st'. boot_add_pte2 v x y (drop_bit 12 va) flags ppn st = Some (Inr st') \<and>
           tables_ok T st' \<and> (\<forall>t\<in>T. used st' t \<le> used st t + (if t = (v, x, y) then 1 else 0)) \<and>
           (\<forall>w. drop_bit 12 w = drop_bit 12 va \<longrightarrow> tr st' (v, x, y) w =
              Inr (push_bit 12 (ucast (ppn AND 0x0FFFFFFF)) OR ucast (w AND 0xFFF), (PTE_V OR flags) AND 0xFFC00000)) \<and>
           (\<forall>t\<in>T. \<forall>w r. t \<noteq> (v, x, y) \<or> drop_bit 12 w \<noteq> drop_bit 12 va \<longrightarrow>
              tr st t w = Inr r \<longrightarrow> tr st' t w = Inr r)"
proof (cases "boot_add_pte2 v x y (drop_bit 12 va) flags ppn st = Some (Inl Not_enough_PT2)")
  case True
  then show ?thesis using add_pte2_full [OF True] by (simp add: word_unat_eq_iff)
next
  case False
  then obtain st' where st': "boot_add_pte2 v x y (drop_bit 12 va) flags ppn st = Some (Inr st')"
      "page_added T {(v, x, y)} va flags ppn st st'"
    using add_pte2_tables [OF assms, of flags ppn] by blast
  have idle: "lock_idle (ptabs_lock st v x y)" "ptabs_paddr st v x y \<noteq> 0"
    using assms(1,2) unfolding tables_ok_def by (force simp: ptab_ok_def base_ok_def)+
  have "bit (pt1_entry (phys st) (ptabs_paddr st v x y) (drop_bit 9 (drop_bit 12 va))) 31
      \<or> ptabs_next_pt2 st v x y \<noteq> ptabs_max_pt2 st"
    using st'(1) idle unfolding boot_add_pte2_def Let_def
    by (auto simp: and_PTE_V pt1_entry_def spin_lock_acquire_cases)
  then have "\<not> (\<not> bit (pt1_entry (phys st) (ptabs_paddr st v x y) (drop_bit 9 (drop_bit 12 va))) 31
      \<and> ptabs_next_pt2 st v x y = ptabs_max_pt2 st)" by blast
  then show ?thesis
    unfolding if_not_P [OF \<open>\<not> (\<not> bit (pt1_entry (phys st) (ptabs_paddr st v x y) (drop_bit 9 (drop_bit 12 va))) 31
      \<and> ptabs_next_pt2 st v x y = ptabs_max_pt2 st)\<close>]
    using st'(1) st'(2) [unfolded page_added_def page_result_def singleton_iff] by blast
qed

text \<open>One vspace and one cluster, its page table at \<open>0x2000\<close> with three free PT2s; the big page of the page tables is
  mapped at \<open>0x80200000\<close>.\<close>

definition demo_boot :: boot_state where
  "demo_boot = \<lparr>ptabs_vaddr = (\<lambda>_ _ _. 0), ptabs_paddr = (\<lambda>_ _ _. 0x2000), ptabs_next_pt2 = (\<lambda>_ _ _. 0),
     ptabs_max_pt2 = 3, ptabs_lock = (\<lambda>_ _ _. \<lparr>current = 5, free_ticket = 5\<rparr>),
     boot_pmem_alloc = (\<lambda>_ _. demo_pmem), phys = (\<lambda>_. 0)(0x3004 := 0xBCC00000)\<rparr>"

lemma demo_boot_entry: "pt1_entry (phys demo_boot) 0x2000 ix = (if 4 * ix = 0x1004 then 0xBCC00000 else 0)"
proof -
  have "unat (0x2000 + ucast (4 * ix) :: u64) = 0x2000 + unat (4 * ix)"
    using less_trans [OF unat_u32_bound [of "4 * ix"], of 18446744073709543424] by (subst unat_add_no_wrap) simp_all
  then have "(0x2000 + ucast (4 * ix) = (0x3004 :: u64)) \<longleftrightarrow> 4 * ix = 0x1004"
    unfolding word_unat_eq_iff by simp
  then show ?thesis by (simp add: pt1_entry_def demo_boot_def)
qed

lemma demo_boot_ok: "tables_ok {(0, 0, 0)} demo_boot" "drop_bit 21 w < 0x401 \<Longrightarrow> no_big demo_boot t w"
proof -
  have e: "\<not> bit (pt1_entry (phys demo_boot) 0x2000 ix) 30" for ix unfolding demo_boot_entry by simp
  have "ptab_ok 0x2000 3 0 (phys demo_boot)" by (simp add: ptab_ok_def base_ok_def e)
  then show "tables_ok {(0, 0, 0)} demo_boot" by (simp add: tables_ok_def lock_idle_def demo_boot_def)
  assume w: "drop_bit 21 w < 0x401"
  have "4 * drop_bit 21 w \<noteq> 0x1004"
  proof
    assume "4 * drop_bit 21 w = 0x1004"
    moreover have "unat (4 * drop_bit 21 w) = 4 * unat (drop_bit 21 w)" using w by (simp add: unat_word_ariths word_less_nat_alt)
    ultimately show False using w by (simp add: word_less_nat_alt)
  qed
  then show "no_big demo_boot t w"
    using demo_boot_entry [of "drop_bit 21 w"] by (cases t) (simp add: no_big_def demo_boot_def)
qed

theorem boot_add_pte2_maps_page_witness:
  "\<exists>st'. boot_add_pte2 0 0 0 0x1203 PTE_W 0x77 demo_boot = Some (Inr st') \<and>
     tr st' (0, 0, 0) 0x1203ABC = Inr (0x77ABC, PTE_V OR PTE_W)"
proof -
  have nb: "no_big demo_boot (0, 0, 0) 0x1203ABC" by (rule demo_boot_ok) code_simp
  have "drop_bit 12 (0x1203ABC :: u32) = 0x1203" by code_simp
  moreover have "\<not> (\<not> bit (pt1_entry (phys demo_boot) (ptabs_paddr demo_boot 0 0 0) (drop_bit 9 0x1203)) 31
      \<and> ptabs_next_pt2 demo_boot 0 0 0 = ptabs_max_pt2 demo_boot)"
    by (simp add: demo_boot_def)
  moreover have "push_bit 12 (ucast ((0x77 :: u32) AND 0x0FFFFFFF)) OR ucast ((0x1203ABC :: u32) AND 0xFFF) = (0x77ABC :: u64)"
    by code_simp
  moreover have "(PTE_V OR PTE_W) AND 0xFFC00000 = PTE_V OR PTE_W" by code_simp
  ultimately show ?thesis
    using boot_add_pte2_maps_page [OF demo_boot_ok(1) _ nb, of PTE_W "0x77"]
    by (auto simp del: table.simps translate_def)
qed

text \<open>C6: \<open>boot_vseg_pte\<close> maps a vseg of small pages: in every page table that receives a copy, every byte of
  the virtual segment translates to the byte at the same offset of its physical segment, with the flags of its
  mode; what the tables translated outside the pages of the vseg is unchanged, big pages such as the one of the page
  tables included; the error exit is taken only if some table has fewer free PT2s than the vseg has pages. The vseg
  must not be inside a big page that is already registered in one of these tables.\<close>

theorem boot_vseg_pte_maps_vseg:
  assumes "tables_ok T st" "fetch (psegs mp) (psegid vseg) = Some ps" "fetch (clusters mp) (clusterid ps) = Some c"
    and "set ts \<subseteq> T" "ts = pte_targets X Y mp (vlocal vseg) vspace_id (cluster_x c) (cluster_y c)"
    and "vlocal vseg \<or> X * Y \<le> length (clusters mp)"
    and "\<not> vbig vseg" "vbase vseg AND 0xFFF = 0" "0 < unat (vseg_length vseg)"
      "unat (vbase vseg) + unat (vseg_length vseg) \<le> 2 ^ 32"
    and "unat (pbase vseg) mod 4096 = 0" "unat (pbase vseg) + unat (vseg_length vseg) \<le> 2 ^ 40"
    and "\<And>t w. t \<in> set ts \<Longrightarrow> unat (vbase vseg) \<le> unat w \<Longrightarrow>
      unat w < unat (vbase vseg) + 4096 * ((unat (vseg_length vseg) - 1) div 4096 + 1) \<Longrightarrow> no_big st t w"
  shows "boot_vseg_pte X Y mp vseg vspace_id st = Some (Inl Not_enough_PT2) \<and>
      (\<exists>t\<in>set ts. unat (ptabs_max_pt2 st) < used st t + ((unat (vseg_length vseg) - 1) div 4096 + 1)) \<or>
    (\<exists>st'. boot_vseg_pte X Y mp vseg vspace_id st = Some (Inr st') \<and> tables_ok T st' \<and>
      (\<forall>t\<in>set ts. \<forall>off<unat (vseg_length vseg). tr st' t (vbase vseg + word_of_nat off)
         = Inr (pbase vseg + word_of_nat off,
                (PTE_V OR vseg_flags (vmode vseg) (vspace_id = None)) AND 0xFFC00000)) \<and>
      (\<forall>t\<in>T. \<forall>w r. t \<notin> set ts \<or> unat w < unat (vbase vseg) \<or>
           unat (vbase vseg) + 4096 * ((unat (vseg_length vseg) - 1) div 4096 + 1) \<le> unat w \<longrightarrow>
         tr st t w = Inr r \<longrightarrow> tr st' t w = Inr r))"
  by (rule vseg_translated [OF assms])

definition demo_mapping :: mapping where
  "demo_mapping = \<lparr>hdr = \<lparr>signature = 0xDACE2014, x_size = 1, y_size = 1, globals = 1, vspaces = 1, n_psegs = 1, n_vsegs = 1, n_tasks = 0, x_io = 0, y_io = 0, irq_per_proc = 4\<rparr>,
     clusters = [\<lparr>cluster_x = 0, cluster_y = 0, procs = 1, cl_periphs = 0, cl_periph_offset = 0, cl_psegs = 1, cl_pseg_offset = 0\<rparr>],
     psegs = [\<lparr>pseg_base = 0, pseg_length = 0x1000000, ptype = PSEG_TYPE_RAM, clusterid = 0\<rparr>],
     vspace_table = [], vsegs = [], tasks = [], periphs = [], irqs = []\<rparr>"

definition demo_vseg :: mapping_vseg where
  "demo_vseg = \<lparr>vbase = 0x400000, pbase = 0x9000, vseg_length = 0x1800, psegid = 0, vmode = C_MODE_MASK,
     vtype = VSEG_TYPE_ELF, vmapped = True, vident = False, vlocal = True, vbig = False, vseg_name = [], vbinpath = []\<rparr>"

theorem boot_vseg_pte_maps_vseg_witness:
  "\<exists>st'. boot_vseg_pte 1 1 demo_mapping demo_vseg None demo_boot = Some (Inr st') \<and>
     (\<exists>f. tr st' (0, 0, 0) 0x4017FF = Inr (0xA7FF, f)) \<and>
     tr st' (0, 0, 0) 0x80202004 = Inr (0x2004, 0xBCC00000)"
proof -
  have fetched: "fetch (psegs demo_mapping) (psegid demo_vseg) = Some (psegs demo_mapping ! 0)"
      "fetch (clusters demo_mapping) (clusterid (psegs demo_mapping ! 0)) = Some (clusters demo_mapping ! 0)"
    by (simp_all add: demo_mapping_def demo_vseg_def)
  have targets: "set [(0, 0, 0)] \<subseteq> {(0, 0, 0)}" "[(0, 0, 0)] = pte_targets 1 1 demo_mapping (vlocal demo_vseg) None
      (cluster_x (clusters demo_mapping ! 0)) (cluster_y (clusters demo_mapping ! 0))"
    "vlocal demo_vseg \<or> 1 * 1 \<le> length (clusters demo_mapping)"
    by (simp_all add: pte_targets_def demo_mapping_def demo_vseg_def)
  have vseg: "\<not> vbig demo_vseg" "vbase demo_vseg AND 0xFFF = 0" "0 < unat (vseg_length demo_vseg)"
      "unat (vbase demo_vseg) + unat (vseg_length demo_vseg) \<le> 2 ^ 32"
      "unat (pbase demo_vseg) mod 4096 = 0" "unat (pbase demo_vseg) + unat (vseg_length demo_vseg) \<le> 2 ^ 40"
    by (simp_all add: demo_vseg_def)
  have nb: "no_big demo_boot t w" if "t \<in> set [(0, 0, 0)]" "unat (vbase demo_vseg) \<le> unat w"
    "unat w < unat (vbase demo_vseg) + 4096 * ((unat (vseg_length demo_vseg) - 1) div 4096 + 1)" for t w
    by (rule demo_boot_ok) (use that in \<open>simp add: demo_vseg_def word_less_nat_alt drop_bit_eq_div unat_div less_mult_imp_div_less\<close>)
  have ptab: "tr demo_boot (0, 0, 0) 0x80202004 = Inr (0x2004, 0xBCC00000)"
    using demo_boot_entry by (simp add: translate_def v2p_translate_def Let_def demo_boot_def PTE_V_def PTE_T_def)
  show ?thesis
  proof (rule disjE [OF boot_vseg_pte_maps_vseg [OF demo_boot_ok(1) fetched targets vseg]], rule nb, assumption+, elim conjE bexE, goal_cases)
    case (1 t)
    then show ?thesis by (simp add: demo_boot_def demo_vseg_def)
  next
    case 2
    then obtain st' where run: "boot_vseg_pte 1 1 demo_mapping demo_vseg None demo_boot = Some (Inr st')"
      and m: "\<forall>t\<in>set [(0, 0, 0)]. \<forall>off<unat (vseg_length demo_vseg). tr st' t (vbase demo_vseg + word_of_nat off)
         = Inr (pbase demo_vseg + word_of_nat off,
                (PTE_V OR vseg_flags (vmode demo_vseg) (None = (None :: nat option))) AND 0xFFC00000)"
      and k: "\<forall>t\<in>{(0, 0, 0)}. \<forall>w r. t \<notin> set [(0, 0, 0)] \<or> unat w < unat (vbase demo_vseg) \<or>
           unat (vbase demo_vseg) + 4096 * ((unat (vseg_length demo_vseg) - 1) div 4096 + 1) \<le> unat w \<longrightarrow>
         tr demo_boot t w = Inr r \<longrightarrow> tr st' t w = Inr r" by (elim exE conjE)
    have "tr st' (0, 0, 0) 0x80202004 = Inr (0x2004, 0xBCC00000)"
      using k ptab by (simp add: demo_vseg_def del: table.simps)
    moreover have l: "0x17FF < unat (vseg_length demo_vseg)" by (simp add: demo_vseg_def)
    from m l have "tr st' (0, 0, 0) (vbase demo_vseg + word_of_nat 0x17FF) = Inr (pbase demo_vseg + word_of_nat 0x17FF,
        (PTE_V OR vseg_flags (vmode demo_vseg) (None = (None :: nat option))) AND 0xFFC00000)"
      by (simp del: of_nat_numeral)
    moreover have "vbase demo_vseg + word_of_nat 0x17FF = 0x4017FF" "pbase demo_vseg + word_of_nat 0x17FF = 0xA7FF"
      by (simp_all add: demo_vseg_def)
    ultimately show ?thesis using run by (simp del: table.simps of_nat_numeral)
  qed
qed

end
