(* ===== verification/Mwmr.thy ===== *)
theory Mwmr
  imports Spin_Lock
begin

text \<open>
  The multi-writer multi-reader channel of \<open>giet_libs/mwmr_channel.c\<close>: a circular buffer of
  words, filled and emptied by whole items under the queuing lock of the user library. The
  non-blocking calls are functions. The body of the \<open>while (1)\<close> loop of a blocking call is one
  function as well (\<open>mwmr_write_try\<close>, \<open>mwmr_read_try\<close>): it runs with the lock held from its first
  to its last access, so that the executions of any number of writers and readers are the
  interleavings of these bodies, the step relation \<open>mwmr_step\<close>. The user buffers are lists of words:
  advancing the pointer of a source buffer drops words, a destination buffer is updated at an
  offset. A buffer that overlaps the channel is not modelled.
\<close>

section \<open>Operations\<close>

record mwmr_channel =
  mwmr_lock :: user_lock
  sts :: u32
  ptr :: u32
  ptw :: u32
  depth :: u32
  width :: u32
  data :: "u32 list"

definition mwmr_init :: "u32 list \<Rightarrow> u32 \<Rightarrow> u32 \<Rightarrow> mwmr_channel \<Rightarrow> mwmr_channel" where
  "mwmr_init buffer w nitems ch =
     ch\<lparr>ptw := 0, ptr := 0, sts := 0, width := w, depth := w * nitems, data := buffer,
        mwmr_lock := user_lock_init (mwmr_lock ch)\<rparr>"

definition next_slot :: "u32 \<Rightarrow> u32 \<Rightarrow> u32" where
  "next_slot dep p = (if p + 1 = dep then 0 else p + 1)"

text \<open>The copy loops. An access outside the channel buffer or the user buffer is \<open>None\<close>.\<close>

fun copy_in :: "u32 list \<Rightarrow> u32 \<Rightarrow> u32 \<Rightarrow> u32 list \<Rightarrow> nat \<Rightarrow> nat \<Rightarrow> (u32 list \<times> u32) option" where
  "copy_in dat dep p buffer n 0 = Some (dat, p)"
| "copy_in dat dep p buffer n (Suc k) =
     (if unat p < length dat \<and> n < length buffer
      then copy_in (dat[unat p := buffer ! n]) dep (next_slot dep p) buffer (Suc n) k
      else None)"

fun copy_out :: "u32 list \<Rightarrow> u32 \<Rightarrow> u32 \<Rightarrow> u32 list \<Rightarrow> nat \<Rightarrow> nat \<Rightarrow> (u32 list \<times> u32) option" where
  "copy_out dat dep p buffer n 0 = Some (buffer, p)"
| "copy_out dat dep p buffer n (Suc k) =
     (if unat p < length dat \<and> n < length buffer
      then copy_out dat dep (next_slot dep p) (buffer[n := dat ! unat p]) (Suc n) k
      else None)"

text \<open>\<open>(spaces / width) * width\<close>: a division by zero has no result.\<close>

definition whole_items :: "u32 \<Rightarrow> u32 \<Rightarrow> u32 option" where
  "whole_items words w = (if w = 0 then None else Some ((words div w) * w))"

definition nb_mwmr_write :: "u32 list \<Rightarrow> u32 \<Rightarrow> mwmr_channel \<Rightarrow> (u32 \<times> mwmr_channel) option" where
  "nb_mwmr_write buffer items ch =
     (if items = 0 then Some (0, ch)
      else
        Option.bind (user_lock_acquire (mwmr_lock ch)) (\<lambda>lk.
          let ch = ch\<lparr>mwmr_lock := lk\<rparr>;
              spaces = depth ch - sts ch; nwords = width ch * items;
              done = (\<lambda>ch. ch\<lparr>mwmr_lock := user_lock_release (mwmr_lock ch)\<rparr>)
          in if spaces \<ge> nwords
             then Option.bind (copy_in (data ch) (depth ch) (ptw ch) buffer 0 (unat nwords)) (\<lambda>(d, p).
                    Some (items, done (ch\<lparr>data := d, sts := sts ch + nwords, ptw := p\<rparr>)))
             else if spaces < width ch then Some (0, done ch)
             else Option.bind (whole_items spaces (width ch)) (\<lambda>nwords.
                    Option.bind (copy_in (data ch) (depth ch) (ptw ch) buffer 0 (unat nwords)) (\<lambda>(d, p).
                      Some (nwords div width ch, done (ch\<lparr>data := d, sts := sts ch + nwords, ptw := p\<rparr>))))))"

definition nb_mwmr_read :: "u32 list \<Rightarrow> u32 \<Rightarrow> mwmr_channel \<Rightarrow> (u32 \<times> u32 list \<times> mwmr_channel) option" where
  "nb_mwmr_read buffer items ch =
     (if items = 0 then Some (0, buffer, ch)
      else
        Option.bind (user_lock_acquire (mwmr_lock ch)) (\<lambda>lk.
          let ch = ch\<lparr>mwmr_lock := lk\<rparr>;
              nwords = width ch * items;
              done = (\<lambda>ch. ch\<lparr>mwmr_lock := user_lock_release (mwmr_lock ch)\<rparr>)
          in if sts ch \<ge> nwords
             then Option.bind (copy_out (data ch) (depth ch) (ptr ch) buffer 0 (unat nwords)) (\<lambda>(b, p).
                    Some (items, b, done (ch\<lparr>sts := sts ch - nwords, ptr := p\<rparr>)))
             else if sts ch < width ch then Some (0, buffer, done ch)
             else Option.bind (whole_items (sts ch) (width ch)) (\<lambda>nwords.
                    Option.bind (copy_out (data ch) (depth ch) (ptr ch) buffer 0 (unat nwords)) (\<lambda>(b, p).
                      Some (nwords div width ch, b, done (ch\<lparr>sts := sts ch - nwords, ptr := p\<rparr>))))))"

text \<open>
  One turn of the loop of \<open>mwmr_write\<close>: the value is \<open>None\<close> in its first part when the call
  returns and what is left to write otherwise. The loop of \<open>mwmr_read\<close> likewise, with the
  destination buffer and the offset its pointer has reached.
\<close>

definition mwmr_write_try :: "u32 list \<Rightarrow> u32 \<Rightarrow> mwmr_channel
    \<Rightarrow> ((u32 list \<times> u32) option \<times> mwmr_channel) option" where
  "mwmr_write_try buffer items ch =
     Option.bind (user_lock_acquire (mwmr_lock ch)) (\<lambda>lk.
       let ch = ch\<lparr>mwmr_lock := lk\<rparr>;
           spaces = depth ch - sts ch; nwords = width ch * items;
           done = (\<lambda>ch. ch\<lparr>mwmr_lock := user_lock_release (mwmr_lock ch)\<rparr>)
       in if spaces \<ge> nwords
          then Option.bind (copy_in (data ch) (depth ch) (ptw ch) buffer 0 (unat nwords)) (\<lambda>(d, p).
                 Some (None, done (ch\<lparr>data := d, ptw := p, sts := sts ch + nwords\<rparr>)))
          else if spaces < width ch then Some (Some (buffer, items), done ch)
          else Option.bind (whole_items spaces (width ch)) (\<lambda>nwords.
                 Option.bind (copy_in (data ch) (depth ch) (ptw ch) buffer 0 (unat nwords)) (\<lambda>(d, p).
                   Some (Some (drop (unat nwords) buffer, items - nwords div width ch),
                         done (ch\<lparr>data := d, sts := sts ch + nwords, ptw := p\<rparr>)))))"

definition mwmr_read_try :: "u32 list \<Rightarrow> nat \<Rightarrow> u32 \<Rightarrow> mwmr_channel
    \<Rightarrow> (u32 list \<times> (nat \<times> u32) option \<times> mwmr_channel) option" where
  "mwmr_read_try buffer off items ch =
     Option.bind (user_lock_acquire (mwmr_lock ch)) (\<lambda>lk.
       let ch = ch\<lparr>mwmr_lock := lk\<rparr>;
           nwords = width ch * items;
           done = (\<lambda>ch. ch\<lparr>mwmr_lock := user_lock_release (mwmr_lock ch)\<rparr>)
       in if sts ch \<ge> nwords
          then Option.bind (copy_out (data ch) (depth ch) (ptr ch) buffer off (unat nwords)) (\<lambda>(b, p).
                 Some (b, None, done (ch\<lparr>sts := sts ch - nwords, ptr := p\<rparr>)))
          else if sts ch < width ch then Some (buffer, Some (off, items), done ch)
          else Option.bind (whole_items (sts ch) (width ch)) (\<lambda>nwords.
                 Option.bind (copy_out (data ch) (depth ch) (ptr ch) buffer off (unat nwords)) (\<lambda>(b, p).
                   Some (b, Some (off + unat nwords, items - nwords div width ch),
                         done (ch\<lparr>sts := sts ch - nwords, ptr := p\<rparr>)))))"

text \<open>The blocking calls on their own: at most \<open>fuel\<close> turns of the loop, with the channel changed by
  \<open>env\<close> between two turns (what the other tasks do). \<open>None\<close>: not returned within the fuel.\<close>

fun mwmr_write_loop :: "(mwmr_channel \<Rightarrow> mwmr_channel) \<Rightarrow> nat \<Rightarrow> u32 list \<Rightarrow> u32 \<Rightarrow> mwmr_channel
    \<Rightarrow> mwmr_channel option" where
  "mwmr_write_loop env 0 buffer items ch = None"
| "mwmr_write_loop env (Suc fuel) buffer items ch =
     (case mwmr_write_try buffer items ch of
        None \<Rightarrow> None
      | Some (None, ch') \<Rightarrow> Some ch'
      | Some (Some (buffer', items'), ch') \<Rightarrow> mwmr_write_loop env fuel buffer' items' (env ch'))"

definition mwmr_write :: "(mwmr_channel \<Rightarrow> mwmr_channel) \<Rightarrow> nat \<Rightarrow> u32 list \<Rightarrow> u32 \<Rightarrow> mwmr_channel
    \<Rightarrow> mwmr_channel option" where
  "mwmr_write env fuel buffer items ch =
     (if items = 0 then Some ch else mwmr_write_loop env fuel buffer items ch)"

fun mwmr_read_loop :: "(mwmr_channel \<Rightarrow> mwmr_channel) \<Rightarrow> nat \<Rightarrow> u32 list \<Rightarrow> nat \<Rightarrow> u32 \<Rightarrow> mwmr_channel
    \<Rightarrow> (u32 list \<times> mwmr_channel) option" where
  "mwmr_read_loop env 0 buffer off items ch = None"
| "mwmr_read_loop env (Suc fuel) buffer off items ch =
     (case mwmr_read_try buffer off items ch of
        None \<Rightarrow> None
      | Some (buffer', None, ch') \<Rightarrow> Some (buffer', ch')
      | Some (buffer', Some (off', items'), ch') \<Rightarrow> mwmr_read_loop env fuel buffer' off' items' (env ch'))"

definition mwmr_read :: "(mwmr_channel \<Rightarrow> mwmr_channel) \<Rightarrow> nat \<Rightarrow> u32 list \<Rightarrow> u32 \<Rightarrow> mwmr_channel
    \<Rightarrow> (u32 list \<times> mwmr_channel) option" where
  "mwmr_read env fuel buffer items ch =
     (if items = 0 then Some (buffer, ch) else mwmr_read_loop env fuel buffer 0 items ch)"

section \<open>The circular buffer as a queue\<close>

definition ring :: "'a list \<Rightarrow> nat \<Rightarrow> nat \<Rightarrow> 'a list" where
  "ring d p c = map (\<lambda>i. d ! ((p + i) mod length d)) [0..<c]"

lemma length_ring [simp]: "length (ring d p c) = c"
  by (simp add: ring_def)

lemma ring_0 [simp]: "ring d p 0 = []"
  by (simp add: ring_def)

lemma ring_put:
  assumes "c < length d"
  shows "ring (d[(p + c) mod length d := x]) p (Suc c) = ring d p c @ [x]"
proof -
  have d: "(p + i) mod length d \<noteq> (p + c) mod length d" if "i < c" for i
  proof
    assume e: "(p + i) mod length d = (p + c) mod length d"
    then have "length d dvd (p + c) - (p + i)" using that mod_eq_dvd_iff_nat [of "p + i" "p + c" "length d"] by simp
    then have "length d dvd c - i" by simp
    then have "length d \<le> c - i" using that by (auto dest: dvd_imp_le)
    then show False using assms by simp
  qed
  have l: "(p + c) mod length d < length d" by (rule mod_less_divisor) (use assms in linarith)
  have "map (\<lambda>i. d[(p + c) mod length d := x] ! ((p + i) mod length d)) [0..<c]
      = map (\<lambda>i. d ! ((p + i) mod length d)) [0..<c]"
    by (rule map_cong [OF refl], rule nth_list_update_neq) (use d in force)
  then show ?thesis using l by (simp add: ring_def)
qed

lemma ring_get:
  assumes "p < length d"
  shows "ring d p (Suc c) = d ! p # ring d (Suc p mod length d) c"
proof -
  have "ring d p (Suc c) = d ! p # map (\<lambda>i. d ! ((p + Suc i) mod length d)) [0..<c]"
    unfolding ring_def upt_conv_Cons [OF zero_less_Suc] map_Suc_upt [symmetric] using assms by simp
  then show ?thesis by (simp add: ring_def mod_add_left_eq [of "Suc p", symmetric] mod_simps)
qed

lemma next_slot:
  assumes "unat p < n" "unat dep = n"
  shows "unat (next_slot dep p) = Suc (unat p) mod n"
proof -
  have "unat p + 1 < 2 ^ LENGTH(32)" using assms unat_u32_bound [of dep] by simp
  then have s: "unat (p + 1) = Suc (unat p)" by (subst unat_add_no_wrap) simp_all
  show ?thesis
  proof (cases "p + 1 = dep")
    case True
    then show ?thesis using s assms(2) by (auto simp: next_slot_def)
  next
    case False
    then have "Suc (unat p) \<noteq> n" using s assms(2) by (metis word_unat_eq_iff)
    then show ?thesis using False s assms(1) by (simp add: next_slot_def)
  qed
qed

lemma copy_in_ring:
  assumes "unat dep = length d" "c + k \<le> length d" "n + k \<le> length buffer" "unat p = (q + c) mod length d" "0 < length d"
  shows "\<exists>d' p'. copy_in d dep p buffer n k = Some (d', p') \<and> length d' = length d \<and>
     unat p' = (q + c + k) mod length d \<and> ring d' q (c + k) = ring d q c @ take k (drop n buffer)"
  using assms
proof (induction k arbitrary: d p c n)
  case (Suc k)
  let ?d = "d[unat p := buffer ! n]"
  have p: "unat p < length d" using Suc.prems by simp
  have n: "unat (next_slot dep p) = (q + Suc c) mod length ?d"
    using next_slot [OF p Suc.prems(1)] Suc.prems(4) by (simp add: mod_Suc_eq)
  have "\<exists>d' p'. copy_in ?d dep (next_slot dep p) buffer (Suc n) k = Some (d', p') \<and> length d' = length ?d \<and>
     unat p' = (q + Suc c + k) mod length ?d \<and> ring d' q (Suc c + k) = ring ?d q (Suc c) @ take k (drop (Suc n) buffer)"
    by (rule Suc.IH) (use Suc.prems n in simp_all)
  moreover have "ring ?d q (Suc c) = ring d q c @ [buffer ! n]"
    using ring_put [of c d q "buffer ! n"] Suc.prems by simp
  moreover have "take (Suc k) (drop n buffer) = buffer ! n # take k (drop (Suc n) buffer)"
    using Suc.prems(3) by (simp add: Cons_nth_drop_Suc [symmetric])
  ultimately show ?case using p Suc.prems(3) by auto
qed simp

lemma copy_out_ring:
  assumes "unat dep = length d" "k \<le> c" "n + k \<le> length buffer" "unat p < length d"
  shows "\<exists>b' p'. copy_out d dep p buffer n k = Some (b', p') \<and> unat p' = (unat p + k) mod length d \<and>
     ring d (unat p) c = take k (drop n b') @ ring d (unat p') (c - k) \<and>
     b' = take n buffer @ ring d (unat p) k @ drop (n + k) buffer"
  using assms
proof (induction k arbitrary: c p n buffer)
  case (Suc k)
  let ?b = "buffer[n := d ! unat p]" and ?p = "next_slot dep p"
  have np: "unat ?p = Suc (unat p) mod length d" using next_slot [OF Suc.prems(4,1)] .
  then have lt: "unat ?p < length d" unfolding np using Suc.prems(4) by (cases "length d") simp_all
  have "\<exists>b' p'. copy_out d dep ?p ?b (Suc n) k = Some (b', p') \<and> unat p' = (unat ?p + k) mod length d \<and>
     ring d (unat ?p) (c - 1) = take k (drop (Suc n) b') @ ring d (unat p') (c - 1 - k) \<and>
     b' = take (Suc n) ?b @ ring d (unat ?p) k @ drop (Suc n + k) ?b"
    by (rule Suc.IH) (use Suc.prems lt in auto)
  then obtain b' p' where IH: "copy_out d dep ?p ?b (Suc n) k = Some (b', p')"
      "unat p' = (unat ?p + k) mod length d"
      "ring d (unat ?p) (c - 1) = take k (drop (Suc n) b') @ ring d (unat p') (c - 1 - k)"
      "b' = take (Suc n) ?b @ ring d (unat ?p) k @ drop (Suc n + k) ?b" by blast
  have b: "b' = take n buffer @ (d ! unat p # ring d (unat ?p) k) @ drop (n + Suc k) buffer"
    using IH(4) Suc.prems(3) by (simp add: take_Suc_conv_app_nth)
  have rk: "ring d (unat p) (Suc k) = d ! unat p # ring d (unat ?p) k"
    using ring_get [OF Suc.prems(4)] np by simp
  have rc: "ring d (unat p) c = d ! unat p # ring d (unat ?p) (c - 1)"
    using ring_get [OF Suc.prems(4), of "c - 1"] np Suc.prems(2) by simp
  have "take (Suc k) (drop n b') = d ! unat p # take k (drop (Suc n) b')"
    unfolding b using Suc.prems(3) by simp
  then have "ring d (unat p) c = take (Suc k) (drop n b') @ ring d (unat p') (c - Suc k)"
    using rc IH(3) by simp
  moreover have "unat p' = (unat p + Suc k) mod length d" using IH(2) np by (simp add: mod_simps)
  ultimately show ?case using IH(1) b rk Suc.prems by auto
qed simp

section \<open>The channel between two calls\<close>

definition contents :: "mwmr_channel \<Rightarrow> u32 list" where
  "contents ch = ring (data ch) (unat (ptr ch)) (unat (sts ch))"

definition mwmr_ok :: "mwmr_channel \<Rightarrow> bool" where
  "mwmr_ok ch \<longleftrightarrow> lock_idle (mwmr_lock ch) \<and> 0 < unat (width ch) \<and> unat (depth ch) = length (data ch) \<and>
     unat (width ch) dvd unat (depth ch) \<and> unat (width ch) dvd unat (sts ch) \<and> 0 < unat (depth ch) \<and>
     unat (ptr ch) < unat (depth ch) \<and> unat (sts ch) \<le> unat (depth ch) \<and>
     unat (ptw ch) = (unat (ptr ch) + unat (sts ch)) mod unat (depth ch)"

definition room :: "mwmr_channel \<Rightarrow> nat" where
  "room ch = unat (depth ch) - unat (sts ch)"

lemma length_contents [simp]: "length (contents ch) = unat (sts ch)"
  by (simp add: contents_def)

definition put_contents :: "mwmr_channel \<Rightarrow> u32 list \<Rightarrow> mwmr_channel \<Rightarrow> bool" where
  "put_contents ch xs ch' \<longleftrightarrow> mwmr_ok ch' \<and> contents ch' = contents ch @ xs \<and>
     depth ch' = depth ch \<and> width ch' = width ch"

definition get_contents :: "mwmr_channel \<Rightarrow> u32 list \<Rightarrow> mwmr_channel \<Rightarrow> bool" where
  "get_contents ch xs ch' \<longleftrightarrow> mwmr_ok ch' \<and> contents ch = xs @ contents ch' \<and>
     depth ch' = depth ch \<and> width ch' = width ch"

lemma user_acquireE:
  assumes "lock_idle lk"
  obtains lk' where "user_lock_acquire lk = Some lk'" "lock_idle (user_lock_release lk')"
  using user.acquire_idleE [OF assms] by blast

lemma copy_in_channel:
  assumes ok: "mwmr_ok ch" and k: "k = unat nw" "k \<le> room ch" "k \<le> length buffer" "unat (width ch) dvd k"
    and lk: "lock_idle lk"
  obtains d p where "copy_in (data ch) (depth ch) (ptw ch) buffer 0 k = Some (d, p)"
    "mwmr_ok (ch\<lparr>mwmr_lock := lk, data := d, sts := sts ch + nw, ptw := p\<rparr>)"
    "contents (ch\<lparr>mwmr_lock := lk, data := d, sts := sts ch + nw, ptw := p\<rparr>) = contents ch @ take k buffer"
proof -
  note w = ok [unfolded mwmr_ok_def]
  have cap: "unat (sts ch) + k \<le> unat (depth ch)" using k(2) w unfolding room_def by linarith
  have s: "unat (sts ch + nw) = unat (sts ch) + k"
    using le_less_trans [OF cap unat_u32_bound] k(1) by (subst unat_add_no_wrap) simp_all
  obtain d p where c: "copy_in (data ch) (depth ch) (ptw ch) buffer 0 k = Some (d, p)" "length d = length (data ch)"
      "unat p = (unat (ptr ch) + unat (sts ch) + k) mod length (data ch)"
      "ring d (unat (ptr ch)) (unat (sts ch) + k) = ring (data ch) (unat (ptr ch)) (unat (sts ch)) @ take k (drop 0 buffer)"
    using copy_in_ring [of "depth ch" "data ch" "unat (sts ch)" k 0 buffer "ptw ch" "unat (ptr ch)"] w cap k(3) by auto
  show ?thesis
  proof (rule that [OF c(1)])
    show "mwmr_ok (ch\<lparr>mwmr_lock := lk, data := d, sts := sts ch + nw, ptw := p\<rparr>)"
      using w lk c s cap k(4) by (auto simp: mwmr_ok_def add.assoc)
    show "contents (ch\<lparr>mwmr_lock := lk, data := d, sts := sts ch + nw, ptw := p\<rparr>) = contents ch @ take k buffer"
      using c(4) s by (simp add: contents_def)
  qed
qed

lemma copy_out_channel:
  assumes ok: "mwmr_ok ch" and k: "k = unat nw" "k \<le> unat (sts ch)" "off + k \<le> length buffer" "unat (width ch) dvd k"
    and lk: "lock_idle lk"
  obtains xs p where
    "copy_out (data ch) (depth ch) (ptr ch) buffer off k = Some (take off buffer @ xs @ drop (off + k) buffer, p)"
    "length xs = k" "mwmr_ok (ch\<lparr>mwmr_lock := lk, sts := sts ch - nw, ptr := p\<rparr>)"
    "contents ch = xs @ contents (ch\<lparr>mwmr_lock := lk, sts := sts ch - nw, ptr := p\<rparr>)"
proof -
  note w = ok [unfolded mwmr_ok_def]
  let ?xs = "ring (data ch) (unat (ptr ch)) k"
  have s: "unat (sts ch - nw) = unat (sts ch) - k"
    using k(1,2) by (simp add: unat_sub_no_wrap word_le_nat_alt)
  have p: "unat (ptr ch) < length (data ch)" using w by simp
  obtain p where c: "copy_out (data ch) (depth ch) (ptr ch) buffer off k = Some (take off buffer @ ?xs @ drop (off + k) buffer, p)"
      "unat p = (unat (ptr ch) + k) mod length (data ch)"
      "ring (data ch) (unat (ptr ch)) (unat (sts ch)) = take k (drop off (take off buffer @ ?xs @ drop (off + k) buffer))
         @ ring (data ch) (unat p) (unat (sts ch) - k)"
    using copy_out_ring [OF _ k(2) k(3) p, of "depth ch"] w by metis
  have "take k (drop off (take off buffer @ ?xs @ drop (off + k) buffer)) = ?xs" using k(3) by simp
  then have r: "ring (data ch) (unat (ptr ch)) (unat (sts ch)) = ?xs @ ring (data ch) (unat p) (unat (sts ch) - k)"
    using c(3) by simp
  have "(unat p + (unat (sts ch) - k)) mod length (data ch) = (unat (ptr ch) + unat (sts ch)) mod length (data ch)"
    unfolding c(2) mod_add_left_eq using k(2) by simp
  moreover have "unat p < length (data ch)" unfolding c(2) by (rule mod_less_divisor) (use p in linarith)
  ultimately have "mwmr_ok (ch\<lparr>mwmr_lock := lk, sts := sts ch - nw, ptr := p\<rparr>)"
    using w lk s k(4) by (auto simp: mwmr_ok_def dvd_diff_nat)
  moreover have "contents ch = ?xs @ contents (ch\<lparr>mwmr_lock := lk, sts := sts ch - nw, ptr := p\<rparr>)"
    using r s by (simp add: contents_def)
  ultimately show ?thesis by (intro that [OF c(1)]) simp_all
qed

text \<open>Both loops move \<open>moved\<close> items: as many as requested, as many as fit.\<close>

definition moved :: "nat \<Rightarrow> nat \<Rightarrow> nat \<Rightarrow> nat" where
  "moved words w items = min items (words div w)"

lemma transfer_words:
  fixes w items words :: u32
  assumes w: "0 < unat w" and fits: "unat w * unat items < 2 ^ 32"
  defines "m \<equiv> moved (unat words) (unat w) (unat items)"
  shows "w * items \<le> words \<Longrightarrow> m = unat items" "w * items \<le> words \<longleftrightarrow> unat w * unat items \<le> unat words"
    "words < w \<Longrightarrow> m = 0"
    "\<not> w * items \<le> words \<Longrightarrow> m = unat words div unat w"
    "whole_items words w = Some ((words div w) * w)" "unat ((words div w) * w) = (unat words div unat w) * unat w"
    "((words div w) * w) div w = words div w"
proof -
  have u: "unat (w * items) = unat w * unat items" using fits by (simp add: unat_mult_no_wrap)
  show le: "w * items \<le> words \<longleftrightarrow> unat w * unat items \<le> unat words" by (simp add: word_le_nat_alt u)
  show "m = unat items" if "w * items \<le> words"
  proof -
    have "unat items * unat w \<le> unat words" using that le by (simp add: mult.commute)
    then have "unat items \<le> unat words div unat w" using w by (simp add: less_eq_div_iff_mult_less_eq)
    then show ?thesis by (simp add: m_def moved_def)
  qed
  show "m = 0" if "words < w" using that by (simp add: m_def moved_def word_less_nat_alt)
  show "m = unat words div unat w" if "\<not> w * items \<le> words"
  proof -
    have "unat words < unat items * unat w" using that le by (simp add: mult.commute)
    then have "unat words div unat w < unat items" using w by (simp add: less_mult_imp_div_less)
    then show ?thesis by (simp add: m_def moved_def)
  qed
  show "whole_items words w = Some ((words div w) * w)" using w by (auto simp: whole_items_def)
  have "unat words div unat w * unat w \<le> unat words" by simp
  then have "unat words div unat w * unat w < 4294967296" using unat_u32_bound by (rule le_less_trans)
  then show v: "unat ((words div w) * w) = (unat words div unat w) * unat w"
    by (simp add: unat_mult_no_wrap unat_div)
  show "((words div w) * w) div w = words div w"
    using v w by (simp add: word_unat_eq_iff unat_div)
qed

text \<open>One turn of the loops on a channel between two calls.\<close>

lemma put_lock: "mwmr_ok ch \<Longrightarrow> lock_idle lk \<Longrightarrow> put_contents ch [] (ch\<lparr>mwmr_lock := lk\<rparr>)"
  by (auto simp: put_contents_def mwmr_ok_def contents_def)

lemma get_lock: "mwmr_ok ch \<Longrightarrow> lock_idle lk \<Longrightarrow> get_contents ch [] (ch\<lparr>mwmr_lock := lk\<rparr>)"
  by (auto simp: get_contents_def mwmr_ok_def contents_def)

lemma unat_room: "mwmr_ok ch \<Longrightarrow> unat (depth ch - sts ch) = room ch"
  by (simp add: mwmr_ok_def room_def unat_sub_no_wrap word_le_nat_alt)

definition write_left :: "u32 list \<Rightarrow> u32 \<Rightarrow> nat \<Rightarrow> nat \<Rightarrow> (u32 list \<times> u32) option" where
  "write_left buffer items w m =
     (if m = unat items then None else Some (drop (m * w) buffer, items - word_of_nat m))"

lemma write_try:
  assumes ok: "mwmr_ok ch" and fits: "unat (width ch) * unat items < 2 ^ 32" "unat (width ch) * unat items \<le> length buffer"
  defines "m \<equiv> moved (room ch) (unat (width ch)) (unat items)"
  obtains ch' where "mwmr_write_try buffer items ch = Some (write_left buffer items (unat (width ch)) m, ch')"
    "put_contents ch (take (m * unat (width ch)) buffer) ch'"
proof -
  let ?w = "width ch" and ?sp = "depth ch - sts ch"
  have w: "0 < unat ?w" using ok by (simp add: mwmr_ok_def)
  note tw = transfer_words [OF w fits(1), of ?sp, unfolded unat_room [OF ok], folded m_def]
  obtain lk where lk: "user_lock_acquire (mwmr_lock ch) = Some lk" "lock_idle (user_lock_release lk)"
    using ok user_acquireE unfolding mwmr_ok_def by metis
  let ?in = "copy_in (data ch) (depth ch) (ptw ch) buffer 0"
  let ?res = "\<lambda>d p nw. ch\<lparr>mwmr_lock := user_lock_release lk, data := d, sts := sts ch + nw, ptw := p\<rparr>"
  have mle: "m \<le> unat items" "m * unat ?w \<le> room ch"
  proof -
    have "m * unat ?w \<le> (room ch div unat ?w) * unat ?w" by (simp add: m_def moved_def)
    then show "m * unat ?w \<le> room ch" using div_times_less_eq_dividend order_trans by blast
  qed (simp add: m_def moved_def)
  have "m * unat ?w \<le> unat ?w * unat items" unfolding mult.commute [of m] using mle(1) by (rule mult_le_mono2)
  then have mb: "m * unat ?w \<le> length buffer" using fits(2) by (rule order_trans)
  have copy: "\<exists>d p. ?in (m * unat ?w) = Some (d, p) \<and> put_contents ch (take (m * unat ?w) buffer) (?res d p nw)"
    if "m * unat ?w = unat nw" for nw
    by (rule copy_in_channel [OF ok that mle(2) mb dvd_triv_right lk(2)]) (auto simp: put_contents_def)
  show ?thesis
  proof (cases "?w * items \<le> ?sp")
    case True
    have m: "m = unat items" by (rule tw(1) [OF True])
    have nw: "m * unat ?w = unat (?w * items)" using fits(1) m by (simp add: unat_mult_no_wrap mult.commute)
    from copy [OF nw] obtain d p where c: "?in (m * unat ?w) = Some (d, p)"
        "put_contents ch (take (m * unat ?w) buffer) (?res d p (?w * items))" by blast
    show ?thesis
      by (rule that [OF _ c(2)])
        (use lk True c(1) in \<open>simp add: mwmr_write_try_def Let_def nw [symmetric] write_left_def m\<close>)
  next
    case less: False
    show ?thesis
    proof (cases "?sp < ?w")
      case True
      have m: "m = 0" by (rule tw(3) [OF True])
      have "items \<noteq> 0" using less by auto
      then have i: "unat items \<noteq> 0" by (simp add: unat_eq_0)
      show ?thesis
        by (rule that [of "ch\<lparr>mwmr_lock := user_lock_release lk\<rparr>"])
          (use lk True less m i put_lock [OF ok lk(2)] in \<open>simp_all add: mwmr_write_try_def Let_def write_left_def\<close>)
    next
      case False
      have m: "m = room ch div unat ?w" by (rule tw(4) [OF less])
      have nw: "m * unat ?w = unat ((?sp div ?w) * ?w)" using tw(6) m by simp
      have md: "?sp div ?w = word_of_nat m"
        unfolding m unat_room [OF ok, symmetric] unat_div [symmetric] by simp
      have lt: "m \<noteq> unat items"
      proof
        assume "m = unat items"
        then have "unat ?w * unat items \<le> room ch" using mle(2) by (simp add: mult.commute)
        then show False using tw(2) less by simp
      qed
      from copy [OF nw] obtain d p where c: "?in (m * unat ?w) = Some (d, p)"
          "put_contents ch (take (m * unat ?w) buffer) (?res d p ((?sp div ?w) * ?w))" by blast
      show ?thesis
        by (rule that [OF _ c(2)])
          (use lk less False c(1) lt in \<open>simp add: mwmr_write_try_def Let_def tw(5,7) nw [symmetric] write_left_def md [symmetric]\<close>)
    qed
  qed
qed

definition read_left :: "nat \<Rightarrow> u32 \<Rightarrow> nat \<Rightarrow> nat \<Rightarrow> (nat \<times> u32) option" where
  "read_left off items w m =
     (if m = unat items then None else Some (off + m * w, items - word_of_nat m))"

lemma read_try:
  assumes ok: "mwmr_ok ch" and fits: "unat (width ch) * unat items < 2 ^ 32"
    "off + unat (width ch) * unat items \<le> length buffer"
  defines "m \<equiv> moved (unat (sts ch)) (unat (width ch)) (unat items)"
  obtains xs ch' where "mwmr_read_try buffer off items ch =
      Some (take off buffer @ xs @ drop (off + m * unat (width ch)) buffer, read_left off items (unat (width ch)) m, ch')"
    "length xs = m * unat (width ch)" "get_contents ch xs ch'"
proof -
  let ?w = "width ch" and ?sp = "sts ch"
  have w: "0 < unat ?w" using ok by (simp add: mwmr_ok_def)
  note tw = transfer_words [OF w fits(1), of ?sp, folded m_def]
  obtain lk where lk: "user_lock_acquire (mwmr_lock ch) = Some lk" "lock_idle (user_lock_release lk)"
    using ok user_acquireE unfolding mwmr_ok_def by metis
  let ?out = "copy_out (data ch) (depth ch) (ptr ch) buffer off"
  let ?res = "\<lambda>p nw. ch\<lparr>mwmr_lock := user_lock_release lk, sts := sts ch - nw, ptr := p\<rparr>"
  let ?buf = "\<lambda>xs. take off buffer @ xs @ drop (off + m * unat ?w) buffer"
  have mle: "m \<le> unat items" "m * unat ?w \<le> unat ?sp"
  proof -
    have "m * unat ?w \<le> (unat ?sp div unat ?w) * unat ?w" by (simp add: m_def moved_def)
    then show "m * unat ?w \<le> unat ?sp" using div_times_less_eq_dividend order_trans by blast
  qed (simp add: m_def moved_def)
  have "m * unat ?w \<le> unat ?w * unat items" unfolding mult.commute [of m] using mle(1) by (rule mult_le_mono2)
  then have mb: "off + m * unat ?w \<le> length buffer" using fits(2) by linarith
  have copy: "\<exists>xs p. ?out (m * unat ?w) = Some (?buf xs, p) \<and> length xs = m * unat ?w \<and> get_contents ch xs (?res p nw)"
    if "m * unat ?w = unat nw" for nw
    by (rule copy_out_channel [OF ok that mle(2) mb dvd_triv_right lk(2)]) (auto simp: get_contents_def)
  show ?thesis
  proof (cases "?w * items \<le> ?sp")
    case True
    have m: "m = unat items" by (rule tw(1) [OF True])
    have nw: "m * unat ?w = unat (?w * items)" using fits(1) m by (simp add: unat_mult_no_wrap mult.commute)
    from copy [OF nw] obtain xs p where c: "?out (m * unat ?w) = Some (?buf xs, p)" "length xs = m * unat ?w"
        "get_contents ch xs (?res p (?w * items))" by blast
    show ?thesis
      by (rule that [OF _ c(2,3)])
        (use lk True c(1) in \<open>simp add: mwmr_read_try_def Let_def nw [symmetric] read_left_def m\<close>)
  next
    case less: False
    show ?thesis
    proof (cases "?sp < ?w")
      case True
      have m: "m = 0" by (rule tw(3) [OF True])
      have "items \<noteq> 0" using less by auto
      then have i: "unat items \<noteq> 0" by (simp add: unat_eq_0)
      show ?thesis
        by (rule that [of "[]" "ch\<lparr>mwmr_lock := user_lock_release lk\<rparr>"])
          (use lk True less m i get_lock [OF ok lk(2)] in \<open>simp_all add: mwmr_read_try_def Let_def read_left_def\<close>)
    next
      case False
      have m: "m = unat ?sp div unat ?w" by (rule tw(4) [OF less])
      have nw: "m * unat ?w = unat ((?sp div ?w) * ?w)" using tw(6) m by simp
      have md: "?sp div ?w = word_of_nat m" unfolding m unat_div [symmetric] by simp
      have lt: "m \<noteq> unat items"
      proof
        assume "m = unat items"
        then have "unat ?w * unat items \<le> unat ?sp" using mle(2) by (simp add: mult.commute)
        then show False using tw(2) less by simp
      qed
      from copy [OF nw] obtain xs p where c: "?out (m * unat ?w) = Some (?buf xs, p)" "length xs = m * unat ?w"
          "get_contents ch xs (?res p ((?sp div ?w) * ?w))" by blast
      show ?thesis
        by (rule that [OF _ c(2,3)])
          (use lk less False c(1) lt in \<open>simp add: mwmr_read_try_def Let_def tw(5,7) nw [symmetric] read_left_def md [symmetric]\<close>)
    qed
  qed
qed

text \<open>A non-blocking call is one turn of the blocking loop that reports what was moved.\<close>

lemma nb_write_is_try:
  "items \<noteq> 0 \<Longrightarrow> nb_mwmr_write buffer items ch =
     map_option (\<lambda>(r, ch'). (case r of None \<Rightarrow> items | Some (b, left) \<Rightarrow> items - left, ch')) (mwmr_write_try buffer items ch)"
  by (cases "user_lock_acquire (mwmr_lock ch)")
    (simp_all add: nb_mwmr_write_def mwmr_write_try_def Let_def split: bind_splits option.split prod.split)

lemma nb_read_is_try:
  "items \<noteq> 0 \<Longrightarrow> nb_mwmr_read buffer items ch =
     map_option (\<lambda>(b, r, ch'). (case r of None \<Rightarrow> items | Some (off, left) \<Rightarrow> items - left, b, ch'))
       (mwmr_read_try buffer 0 items ch)"
  by (cases "user_lock_acquire (mwmr_lock ch)")
    (simp_all add: nb_mwmr_read_def mwmr_read_try_def Let_def split: bind_splits option.split prod.split)

section \<open>Interleaved calls\<close>

text \<open>
  Any number of tasks call \<open>mwmr_write\<close> and \<open>mwmr_read\<close>. An event records what a step did, read off
  the buffers of the tasks: the words a call asks to write, the words one turn of a writer took from
  its buffer, the words one turn of a reader put in its buffer, and the words in the buffer of a
  reader that returns.
\<close>

datatype mwmr_call = Idle | Writing "u32 list" u32 | Reading "u32 list" nat u32

datatype mwmr_event = Ask nat "u32 list" | Put nat "u32 list" | Got nat "u32 list" "u32 list"

record mwmr_system =
  chan :: mwmr_channel
  calls :: "nat \<Rightarrow> mwmr_call"

definition call_fits :: "mwmr_channel \<Rightarrow> u32 list \<Rightarrow> nat \<Rightarrow> u32 \<Rightarrow> bool" where
  "call_fits ch buffer off items \<longleftrightarrow> unat (width ch) * unat items < 2 ^ 32 \<and>
     off + unat (width ch) * unat items \<le> length buffer"

definition words :: "mwmr_channel \<Rightarrow> u32 \<Rightarrow> nat" where
  "words ch items = unat (width ch) * unat items"

inductive mwmr_step :: "mwmr_system \<Rightarrow> mwmr_event \<Rightarrow> mwmr_system \<Rightarrow> bool" where
  call_write: "\<lbrakk>calls s p = Idle; items \<noteq> 0; call_fits (chan s) buffer 0 items\<rbrakk> \<Longrightarrow>
     mwmr_step s (Ask p (take (words (chan s) items) buffer)) (s\<lparr>calls := (calls s)(p := Writing buffer items)\<rparr>)"
| call_read: "\<lbrakk>calls s p = Idle; items \<noteq> 0; call_fits (chan s) buffer 0 items\<rbrakk> \<Longrightarrow>
     mwmr_step s (Got p [] []) (s\<lparr>calls := (calls s)(p := Reading buffer 0 items)\<rparr>)"
| write_return: "\<lbrakk>calls s p = Writing buffer items; mwmr_write_try buffer items (chan s) = Some (None, ch')\<rbrakk> \<Longrightarrow>
     mwmr_step s (Put p (take (words (chan s) items) buffer)) (s\<lparr>chan := ch', calls := (calls s)(p := Idle)\<rparr>)"
| write_retry: "\<lbrakk>calls s p = Writing buffer items;
     mwmr_write_try buffer items (chan s) = Some (Some (buffer', items'), ch')\<rbrakk> \<Longrightarrow>
     mwmr_step s (Put p (take (length buffer - length buffer') buffer))
       (s\<lparr>chan := ch', calls := (calls s)(p := Writing buffer' items')\<rparr>)"
| read_return: "\<lbrakk>calls s p = Reading buffer off items;
     mwmr_read_try buffer off items (chan s) = Some (buffer', None, ch')\<rbrakk> \<Longrightarrow>
     mwmr_step s (Got p (take (words (chan s) items) (drop off buffer')) (take (off + words (chan s) items) buffer'))
       (s\<lparr>chan := ch', calls := (calls s)(p := Idle)\<rparr>)"
| read_retry: "\<lbrakk>calls s p = Reading buffer off items;
     mwmr_read_try buffer off items (chan s) = Some (buffer', Some (off', items'), ch')\<rbrakk> \<Longrightarrow>
     mwmr_step s (Got p (take (off' - off) (drop off buffer')) [])
       (s\<lparr>chan := ch', calls := (calls s)(p := Reading buffer' off' items')\<rparr>)"

inductive runs :: "('s \<Rightarrow> 'e \<Rightarrow> 's \<Rightarrow> bool) \<Rightarrow> 's \<Rightarrow> 'e list \<Rightarrow> 's \<Rightarrow> bool" for step s where
  runs_nil: "runs step s [] s"
| runs_snoc: "runs step s es s1 \<Longrightarrow> step s1 e s2 \<Longrightarrow> runs step s (es @ [e]) s2"

fun put_words :: "mwmr_event \<Rightarrow> u32 list" where
  "put_words (Put p xs) = xs"
| "put_words _ = []"

fun got_words :: "mwmr_event \<Rightarrow> u32 list" where
  "got_words (Got p xs ys) = xs"
| "got_words _ = []"

fun asked_by :: "nat \<Rightarrow> mwmr_event \<Rightarrow> u32 list" where
  "asked_by p (Ask q xs) = (if q = p then xs else [])"
| "asked_by p _ = []"

fun put_by :: "nat \<Rightarrow> mwmr_event \<Rightarrow> u32 list" where
  "put_by p (Put q xs) = (if q = p then xs else [])"
| "put_by p _ = []"

fun got_by :: "nat \<Rightarrow> mwmr_event \<Rightarrow> u32 list" where
  "got_by p (Got q xs ys) = (if q = p then xs else [])"
| "got_by p _ = []"

fun returned_by :: "nat \<Rightarrow> mwmr_event \<Rightarrow> u32 list" where
  "returned_by p (Got q xs ys) = (if q = p then ys else [])"
| "returned_by p _ = []"

text \<open>What a call in progress still has to write, what it has read so far.\<close>

fun pending :: "mwmr_channel \<Rightarrow> mwmr_call \<Rightarrow> u32 list" where
  "pending ch (Writing buffer items) = take (words ch items) buffer"
| "pending ch _ = []"

fun partial_read :: "mwmr_call \<Rightarrow> u32 list" where
  "partial_read (Reading buffer off items) = take off buffer"
| "partial_read _ = []"

fun call_ok :: "mwmr_channel \<Rightarrow> mwmr_call \<Rightarrow> bool" where
  "call_ok ch Idle = True"
| "call_ok ch (Writing buffer items) = (items \<noteq> 0 \<and> call_fits ch buffer 0 items)"
| "call_ok ch (Reading buffer off items) = (items \<noteq> 0 \<and> call_fits ch buffer off items)"

definition system_ok :: "mwmr_system \<Rightarrow> bool" where
  "system_ok s \<longleftrightarrow> mwmr_ok (chan s) \<and> (\<forall>p. call_ok (chan s) (calls s p))"

text \<open>
  The contract of a first-in first-out channel, over any step relation with logs of words: the
  client's lemma is that the log of a run is the words that went out followed by the contents.
\<close>

locale fifo_steps =
  fixes step :: "'s \<Rightarrow> 'e \<Rightarrow> 's \<Rightarrow> bool" and inv :: "'s \<Rightarrow> bool" and held :: "'s \<Rightarrow> 'a list"
    and went_in :: "'e \<Rightarrow> 'a list" and went_out :: "'e \<Rightarrow> 'a list"
  assumes step_inv: "inv s \<Longrightarrow> step s e s' \<Longrightarrow> inv s'"
    and step_held: "inv s \<Longrightarrow> step s e s' \<Longrightarrow> held s @ went_in e = went_out e @ held s'"
begin

lemma run_inv: "runs step s es s' \<Longrightarrow> inv s \<Longrightarrow> inv s'"
  by (induction rule: runs.induct) (auto intro: step_inv)

lemma run_fifo:
  "runs step s es s' \<Longrightarrow> inv s \<Longrightarrow> held s @ concat (map went_in es) = concat (map went_out es) @ held s'"
proof (induction rule: runs.induct)
  case (runs_snoc es s1 e s2)
  have "held s1 @ went_in e = went_out e @ held s2"
    by (rule step_held [OF run_inv [OF runs_snoc.hyps(1) runs_snoc.prems] runs_snoc.hyps(2)])
  then show ?case using runs_snoc.IH [OF runs_snoc.prems] by simp (metis append.assoc)
qed simp

end

lemma split_items: "m \<le> n \<Longrightarrow> (w :: nat) * (n - m) + m * w = w * n"
  by (simp add: mult.commute [of m] flip: distrib_left)

lemma words_split:
  assumes "m \<le> unat items" "unat (ch_w :: u32) * unat items \<le> length buffer"
  shows "take (unat ch_w * unat items) buffer
      = take (m * unat ch_w) buffer @ take (unat ch_w * (unat items - m)) (drop (m * unat ch_w) buffer)"
proof -
  have "m * unat ch_w + unat ch_w * (unat items - m) = unat ch_w * unat items"
    using split_items [OF assms(1), of "unat ch_w"] by (simp add: add.commute)
  then show ?thesis by (metis take_add)
qed

lemma unat_items_left: "m \<le> unat (items :: u32) \<Longrightarrow> unat (items - word_of_nat m) = unat items - m"
  by (metis le_unat_uoi unat_sub_no_wrap word_le_nat_alt)

lemma write_turn:
  assumes ok: "mwmr_ok ch" and fits: "call_fits ch buffer 0 items" "items \<noteq> 0"
    and run: "mwmr_write_try buffer items ch = Some (r, ch')"
  shows "case r of
      None \<Rightarrow> put_contents ch (take (words ch items) buffer) ch'
    | Some (buffer', items') \<Rightarrow> put_contents ch (take (length buffer - length buffer') buffer) ch' \<and>
        items' \<noteq> 0 \<and> call_fits ch buffer' 0 items' \<and>
        take (words ch items) buffer = take (length buffer - length buffer') buffer @ take (words ch items') buffer'"
proof -
  define m where "m = moved (room ch) (unat (width ch)) (unat items)"
  have f: "unat (width ch) * unat items < 2 ^ 32" "unat (width ch) * unat items \<le> length buffer"
    using fits(1) by (simp_all add: call_fits_def)
  obtain ch'' where t: "mwmr_write_try buffer items ch = Some (write_left buffer items (unat (width ch)) m, ch'')"
      "put_contents ch (take (m * unat (width ch)) buffer) ch''"
    using write_try [OF ok f] unfolding m_def by blast
  have r: "r = write_left buffer items (unat (width ch)) m" "ch'' = ch'" using run t(1) by simp_all
  have le: "m \<le> unat items" by (simp add: m_def moved_def)
  note left = unat_items_left [OF le] and split = words_split [OF le f(2)]
  have "unat (width ch) * (unat items - m) + m * unat (width ch) = unat (width ch) * unat items"
    by (rule split_items [OF le])
  then have bounds: "unat (width ch) * (unat items - m) < 2 ^ 32" "m * unat (width ch) \<le> length buffer"
      "unat (width ch) * (unat items - m) \<le> length buffer - m * unat (width ch)" using f by linarith+
  show ?thesis
  proof (cases "m = unat items")
    case True
    then show ?thesis using r t(2) by (simp add: write_left_def words_def mult.commute)
  next
    case False
    then have "items - word_of_nat m \<noteq> 0" using left le by (metis diff_is_0_eq le_antisym unat_0)
    then show ?thesis
      using r t(2) False bounds left split by (simp add: write_left_def words_def call_fits_def)
  qed
qed

lemma read_turn:
  assumes ok: "mwmr_ok ch" and fits: "call_fits ch buffer off items" "items \<noteq> 0"
    and run: "mwmr_read_try buffer off items ch = Some (buffer', r, ch')"
  shows "length buffer' = length buffer \<and> take off buffer' = take off buffer \<and> (case r of
      None \<Rightarrow> get_contents ch (take (words ch items) (drop off buffer')) ch'
    | Some (off', items') \<Rightarrow> get_contents ch (take (off' - off) (drop off buffer')) ch' \<and>
        items' \<noteq> 0 \<and> off \<le> off' \<and> call_fits ch buffer' off' items' \<and> off' + words ch items' = off + words ch items)"
proof -
  define m where "m = moved (unat (sts ch)) (unat (width ch)) (unat items)"
  have f: "unat (width ch) * unat items < 2 ^ 32" "off + unat (width ch) * unat items \<le> length buffer"
    using fits(1) by (simp_all add: call_fits_def)
  obtain xs ch'' where t: "mwmr_read_try buffer off items ch =
        Some (take off buffer @ xs @ drop (off + m * unat (width ch)) buffer, read_left off items (unat (width ch)) m, ch'')"
      "length xs = m * unat (width ch)" "get_contents ch xs ch''"
    using read_try [OF ok f] unfolding m_def by blast
  have r: "r = read_left off items (unat (width ch)) m" "ch'' = ch'"
      "buffer' = take off buffer @ xs @ drop (off + m * unat (width ch)) buffer" using run t(1) by simp_all
  have le: "m \<le> unat items" by (simp add: m_def moved_def)
  note left = unat_items_left [OF le]
  have sum: "unat (width ch) * (unat items - m) + m * unat (width ch) = unat (width ch) * unat items"
    by (rule split_items [OF le])
  then have bounds: "unat (width ch) * (unat items - m) < 2 ^ 32" "off + m * unat (width ch) \<le> length buffer"
      "off \<le> length buffer" using f by linarith+
  have len: "length buffer' = length buffer" using bounds t(2) by (simp add: r(3))
  have pre: "take off buffer' = take off buffer" "take (m * unat (width ch)) (drop off buffer') = xs"
    using bounds t(2) by (simp_all add: r(3))
  show ?thesis
  proof (cases "m = unat items")
    case True
    then show ?thesis using r(1,2) t(3) len pre by (simp add: read_left_def words_def mult.commute)
  next
    case False
    then have "items - word_of_nat m \<noteq> 0" using left le by (metis diff_is_0_eq le_antisym unat_0)
    then show ?thesis
      using r(1,2) t(3) False bounds left len pre sum f by (simp add: read_left_def words_def call_fits_def)
  qed
qed

lemma call_ok_cong: "width ch' = width ch \<Longrightarrow> call_ok ch' c = call_ok ch c"
  by (cases c) (simp_all add: call_fits_def)

lemma put_contentsD:
  "put_contents ch xs ch' \<Longrightarrow> mwmr_ok ch' \<and> contents ch' = contents ch @ xs \<and> width ch' = width ch \<and> depth ch' = depth ch"
  by (simp add: put_contents_def)

lemma get_contentsD:
  "get_contents ch xs ch' \<Longrightarrow> mwmr_ok ch' \<and> contents ch = xs @ contents ch' \<and> width ch' = width ch \<and> depth ch' = depth ch"
  by (simp add: get_contents_def)

lemma words_cong: "width ch' = width ch \<Longrightarrow> words ch' = words ch"
  by (simp add: words_def fun_eq_iff)

lemma pending_cong: "width ch' = width ch \<Longrightarrow> pending ch' c = pending ch c"
  by (cases c) (simp_all add: words_def)

lemma mwmr_step_effect:
  assumes "mwmr_step s e s'" "system_ok s"
  shows "system_ok s' \<and> width (chan s') = width (chan s) \<and> depth (chan s') = depth (chan s) \<and>
    contents (chan s) @ put_words e = got_words e @ contents (chan s') \<and>
    (\<forall>p. pending (chan s) (calls s p) @ asked_by p e = put_by p e @ pending (chan s') (calls s' p)) \<and>
    (\<forall>p. partial_read (calls s p) @ got_by p e = returned_by p e @ partial_read (calls s' p))"
  using assms
proof (induction rule: mwmr_step.induct)
  case (call_write s p items buffer)
  then show ?case by (simp add: system_ok_def)
next
  case (call_read s p items buffer)
  then show ?case by (simp add: system_ok_def)
next
  case (write_return s p buffer items ch')
  then have "mwmr_ok (chan s)" "call_fits (chan s) buffer 0 items" "items \<noteq> 0"
    unfolding system_ok_def by (force dest: spec [of _ p])+
  from write_turn [OF this write_return(2)] have t: "put_contents (chan s) (take (words (chan s) items) buffer) ch'"
    by simp
  note d = put_contentsD [OF t]
  have w: "width ch' = width (chan s)" using d by simp
  show ?case using d write_return(1,3) pending_cong [OF w] call_ok_cong [OF w]
    by (simp add: system_ok_def)
next
  case (write_retry s p buffer items buffer' items' ch')
  then have "mwmr_ok (chan s)" "call_fits (chan s) buffer 0 items" "items \<noteq> 0"
    unfolding system_ok_def by (force dest: spec [of _ p])+
  from write_turn [OF this write_retry(2)]
  have t: "put_contents (chan s) (take (length buffer - length buffer') buffer) ch'"
    and l: "items' \<noteq> 0" "call_fits (chan s) buffer' 0 items'"
      "take (words (chan s) items) buffer = take (length buffer - length buffer') buffer @ take (words (chan s) items') buffer'"
    by simp_all
  note d = put_contentsD [OF t]
  have w: "width ch' = width (chan s)" using d by simp
  have "call_fits ch' buffer' 0 items'" using l(2) w by (simp add: call_fits_def)
  then show ?case using d write_retry(1,3) pending_cong [OF w] call_ok_cong [OF w] l words_cong [OF w]
    by (simp add: system_ok_def)
next
  case (read_return s p buffer off items buffer' ch')
  then have "mwmr_ok (chan s)" "call_fits (chan s) buffer off items" "items \<noteq> 0"
    unfolding system_ok_def by (force dest: spec [of _ p])+
  from read_turn [OF this read_return(2)]
  have t: "get_contents (chan s) (take (words (chan s) items) (drop off buffer')) ch'" "take off buffer' = take off buffer"
    by simp_all
  note d = get_contentsD [OF t(1)]
  have w: "width ch' = width (chan s)" using d by simp
  show ?case using d read_return(1,3) pending_cong [OF w] call_ok_cong [OF w] t(2)
    by (simp add: system_ok_def take_add)
next
  case (read_retry s p buffer off items buffer' off' items' ch')
  then have "mwmr_ok (chan s)" "call_fits (chan s) buffer off items" "items \<noteq> 0"
    unfolding system_ok_def by (force dest: spec [of _ p])+
  from read_turn [OF this read_retry(2)]
  have t: "get_contents (chan s) (take (off' - off) (drop off buffer')) ch'" "take off buffer' = take off buffer"
    and l: "items' \<noteq> 0" "off \<le> off'" "call_fits (chan s) buffer' off' items'" by simp_all
  note d = get_contentsD [OF t(1)]
  have w: "width ch' = width (chan s)" using d by simp
  have "take off' buffer' = take off buffer @ take (off' - off) (drop off buffer')"
    using take_add [of off "off' - off" buffer'] l(2) t(2) by simp
  moreover have "call_fits ch' buffer' off' items'" using l(3) w by (simp add: call_fits_def)
  ultimately show ?case using d read_retry(1,3) pending_cong [OF w] call_ok_cong [OF w] l
    by (simp add: system_ok_def)
qed

interpretation mwmr: fifo_steps mwmr_step system_ok "\<lambda>s. contents (chan s)" put_words got_words
  by unfold_locales (use mwmr_step_effect in blast)+

lemma mwmr_run_ok: "runs mwmr_step s es s' \<Longrightarrow> system_ok s \<Longrightarrow> system_ok s'"
  by (rule mwmr.run_inv)

interpretation mwmr_writer: fifo_steps mwmr_step system_ok "\<lambda>s. pending (chan s) (calls s p)" "asked_by p" "put_by p" for p
  by unfold_locales (use mwmr_step_effect in blast)+

interpretation mwmr_reader: fifo_steps mwmr_step system_ok "\<lambda>s. partial_read (calls s p)" "got_by p" "returned_by p" for p
  by unfold_locales (use mwmr_step_effect in blast)+

section \<open>Properties\<close>

lemma mwmr_init_ok:
  assumes "0 < unat w" "0 < unat nitems" "unat w * unat nitems < 2 ^ 32" "length buffer = unat w * unat nitems"
  shows "mwmr_ok (mwmr_init buffer w nitems ch) \<and> contents (mwmr_init buffer w nitems ch) = []"
proof -
  have "unat (w * nitems) = unat w * unat nitems" using assms(3) by (simp add: unat_mult_no_wrap)
  then show ?thesis using assms by (simp add: mwmr_ok_def mwmr_init_def contents_def)
qed

text \<open>C12: in every interleaving of any number of writers and readers of a channel that \<open>mwmr_init\<close> has set up,
  the words the readers took out are those the writers put in, in the same order, none lost and none twice: the
  log of the words put is the log of the words got followed by the contents of the channel. Moreover every writer
  has put exactly the words of its calls, in order, up to what its current call still holds, and every reader
  finds in its buffers exactly the words it got.\<close>

theorem mwmr_fifo_order:
  assumes "0 < unat w" "0 < unat nitems" "unat w * unat nitems < 2 ^ 32" "length buffer = unat w * unat nitems"
    and "runs mwmr_step \<lparr>chan = mwmr_init buffer w nitems ch, calls = (\<lambda>_. Idle)\<rparr> es s"
  shows "concat (map put_words es) = concat (map got_words es) @ contents (chan s) \<and> mwmr_ok (chan s) \<and>
    (\<forall>p. concat (map (asked_by p) es) = concat (map (put_by p) es) @ pending (chan s) (calls s p)) \<and>
    (\<forall>p. concat (map (got_by p) es) = concat (map (returned_by p) es) @ partial_read (calls s p))"
proof -
  let ?s = "\<lparr>chan = mwmr_init buffer w nitems ch, calls = (\<lambda>_. Idle)\<rparr>"
  note i = mwmr_init_ok [OF assms(1-4), of ch]
  have ok: "system_ok ?s" using i by (simp add: system_ok_def)
  show ?thesis
    using mwmr.run_fifo [OF assms(5) ok] mwmr_writer.run_fifo [OF assms(5) ok] mwmr_reader.run_fifo [OF assms(5) ok]
      mwmr_run_ok [OF assms(5) ok] i by (simp add: system_ok_def)
qed

definition demo_channel :: mwmr_channel where
  "demo_channel = \<lparr>mwmr_lock = \<lparr>current = 3, free_ticket = 9\<rparr>, sts = 0, ptr = 0, ptw = 0, depth = 0, width = 0, data = []\<rparr>"

theorem mwmr_fifo_order_witness:
  "\<exists>s. runs mwmr_step \<lparr>chan = mwmr_init [0, 0] 1 2 demo_channel, calls = (\<lambda>_. Idle)\<rparr> [Ask 4 [7, 8], Put 4 [7, 8]] s \<and>
     contents (chan s) = [7, 8]"
proof -
  let ?c = "mwmr_init [0, 0] 1 2 demo_channel" and ?i = "\<lambda>_ :: nat. Idle"
  let ?s1 = "\<lparr>chan = ?c, calls = ?i(4 := Writing [7, 8] 2)\<rparr>"
  let ?c2 = "?c\<lparr>mwmr_lock := \<lparr>current = 1, free_ticket = 1\<rparr>, sts := 2, data := [7, 8]\<rparr>"
  let ?s2 = "\<lparr>chan = ?c2, calls = ?i\<rparr>"
  have ask: "mwmr_step \<lparr>chan = ?c, calls = ?i\<rparr> (Ask 4 [7, 8]) ?s1"
    using mwmr_step.call_write [of "\<lparr>chan = ?c, calls = ?i\<rparr>" 4 2 "[7, 8]"]
    by (simp add: call_fits_def mwmr_init_def words_def)
  have "mwmr_write_try [7, 8] 2 ?c = Some (None, ?c2)"
    by code_simp
  then have put: "mwmr_step ?s1 (Put 4 [7, 8]) ?s2"
    using mwmr_step.write_return [of ?s1 4 "[7, 8]" 2 ?c2] by (simp add: words_def mwmr_init_def fun_upd_idem)
  have run: "runs mwmr_step \<lparr>chan = ?c, calls = ?i\<rparr> ([] @ [Ask 4 [7, 8]] @ [Put 4 [7, 8]]) ?s2"
    using runs_snoc [where step = mwmr_step and es = "[Ask 4 [7, 8]]", OF _ put]
      runs_snoc [where step = mwmr_step and es = "[]", OF runs_nil ask] by simp
  have "contents (chan ?s2) = [7, 8]"
    using mwmr_fifo_order [of 1 2 "[0, 0]" demo_channel, OF _ _ _ _ run] by simp
  then show ?thesis using run by auto
qed

lemma reader_moves:
  assumes "system_ok s" "calls s q = Reading dst off j" "sts (chan s) \<noteq> 0"
  shows "\<exists>e s'. mwmr_step s e s' \<and> unat (width (chan s)) \<le> length (got_words e)"
proof -
  have ch: "mwmr_ok (chan s)" using assms(1) by (simp add: system_ok_def)
  have w: "0 < unat (width (chan s))" using ch by (simp add: mwmr_ok_def)
  have "call_fits (chan s) dst off j" "j \<noteq> 0"
    using assms(1,2) unfolding system_ok_def by (force dest: spec [of _ q])+
  then have f: "unat (width (chan s)) * unat j < 2 ^ 32" "off + unat (width (chan s)) * unat j \<le> length dst" "unat j \<noteq> 0"
    by (simp_all add: call_fits_def unat_eq_0)
  let ?m = "moved (unat (sts (chan s))) (unat (width (chan s))) (unat j)"
  have "unat (width (chan s)) \<le> unat (sts (chan s))"
    using ch assms(3) by (auto simp: mwmr_ok_def unat_gt_0 intro: dvd_imp_le)
  then have m: "0 < ?m" using f(3) w by (simp add: moved_def div_greater_zero_iff)
  obtain xs ch' where t: "mwmr_read_try dst off j (chan s) =
        Some (take off dst @ xs @ drop (off + ?m * unat (width (chan s))) dst, read_left off j (unat (width (chan s))) ?m, ch')"
      "length xs = ?m * unat (width (chan s))"
    using read_try [OF ch f(1,2)] by metis
  have "off + ?m * unat (width (chan s)) \<le> off + unat (width (chan s)) * unat j"
    by (simp add: moved_def mult.commute [of _ "unat (width (chan s))"])
  then have len: "off + ?m * unat (width (chan s)) \<le> length dst" using f(2) by (rule order_trans)
  show ?thesis
  proof (cases "?m = unat j")
    case True
    then have "mwmr_read_try dst off j (chan s) =
        Some (take off dst @ xs @ drop (off + ?m * unat (width (chan s))) dst, None, ch')"
      using t(1) by (simp add: read_left_def)
    from mwmr_step.read_return [OF assms(2) this] show ?thesis
      using t(2) len True m by (fastforce simp: words_def mult.commute)
  next
    case left: False
    then have "mwmr_read_try dst off j (chan s) = Some (take off dst @ xs @ drop (off + ?m * unat (width (chan s))) dst,
        Some (off + ?m * unat (width (chan s)), j - word_of_nat ?m), ch')"
      using t(1) by (simp add: read_left_def)
    from mwmr_step.read_retry [OF assms(2) this] show ?thesis
      using t(2) len m by fastforce
  qed
qed

lemma writer_moves:
  assumes "system_ok s" "calls s p = Writing src i" "unat (width (chan s)) \<le> room (chan s)"
  shows "\<exists>e s'. mwmr_step s e s' \<and> unat (width (chan s)) \<le> length (put_words e)"
proof -
  have ch: "mwmr_ok (chan s)" using assms(1) by (simp add: system_ok_def)
  have w: "0 < unat (width (chan s))" using ch by (simp add: mwmr_ok_def)
  have "call_fits (chan s) src 0 i" "i \<noteq> 0"
    using assms(1,2) unfolding system_ok_def by (force dest: spec [of _ p])+
  then have f: "unat (width (chan s)) * unat i < 2 ^ 32" "unat (width (chan s)) * unat i \<le> length src" "unat i \<noteq> 0"
    by (simp_all add: call_fits_def unat_eq_0)
  let ?m = "moved (room (chan s)) (unat (width (chan s))) (unat i)"
  have "unat (width (chan s)) \<le> room (chan s)"
    by (rule assms(3))
  then have m: "0 < ?m" using f(3) w by (simp add: moved_def div_greater_zero_iff)
  obtain ch' where t: "mwmr_write_try src i (chan s) = Some (write_left src i (unat (width (chan s))) ?m, ch')"
    using write_try [OF ch f(1,2)] by metis
  have "?m * unat (width (chan s)) \<le> unat (width (chan s)) * unat i"
    by (simp add: moved_def mult.commute [of _ "unat (width (chan s))"])
  then have len: "?m * unat (width (chan s)) \<le> length src" using f(2) by (rule order_trans)
  show ?thesis
  proof (cases "?m = unat i")
    case True
    then have "mwmr_write_try src i (chan s) = Some (None, ch')" using t by (simp add: write_left_def)
    from mwmr_step.write_return [OF assms(2) this] show ?thesis
      using len True m by (fastforce simp: words_def mult.commute)
  next
    case left: False
    then have "mwmr_write_try src i (chan s) =
        Some (Some (drop (?m * unat (width (chan s))) src, i - word_of_nat ?m), ch')"
      using t by (simp add: write_left_def)
    from mwmr_step.write_retry [OF assms(2) this] show ?thesis
      using len m by fastforce
  qed
qed

text \<open>Whenever a task is in \<open>mwmr_write\<close> and another in \<open>mwmr_read\<close>, one of the two moves at least one item
  when it takes its next turn: the channel is never stuck.\<close>

theorem mwmr_never_stuck:
  assumes "0 < unat w" "0 < unat nitems" "unat w * unat nitems < 2 ^ 32" "length buffer = unat w * unat nitems"
    and "runs mwmr_step \<lparr>chan = mwmr_init buffer w nitems ch, calls = (\<lambda>_. Idle)\<rparr> es s"
    and "calls s p = Writing src i" "calls s q = Reading dst off j"
  shows "\<exists>e s'. mwmr_step s e s' \<and> unat w \<le> length (put_words e) + length (got_words e)"
proof -
  let ?s = "\<lparr>chan = mwmr_init buffer w nitems ch, calls = (\<lambda>_. Idle)\<rparr>"
  have ok: "system_ok ?s" using mwmr_init_ok [OF assms(1-4), of ch] by (simp add: system_ok_def)
  have ok': "system_ok s" by (rule mwmr_run_ok [OF assms(5) ok])
  have "width (chan s) = w"
    using assms(5) ok
  proof (induction rule: runs.induct)
    case runs_nil
    then show ?case by (simp add: mwmr_init_def)
  next
    case (runs_snoc es s1 e s2)
    then show ?case using mwmr_step_effect [OF runs_snoc.hyps(2)] mwmr_run_ok [OF runs_snoc.hyps(1)] by simp
  qed
  note w = this
  have ch: "mwmr_ok (chan s)" using ok' by (simp add: system_ok_def)
  show ?thesis
  proof (cases "sts (chan s) = 0")
    case True
    then have "unat (width (chan s)) \<le> room (chan s)"
      using ch by (auto simp: mwmr_ok_def room_def intro: dvd_imp_le)
    then show ?thesis using writer_moves [OF ok' assms(6)] w by fastforce
  next
    case False
    then show ?thesis using reader_moves [OF ok' assms(7)] w by fastforce
  qed
qed

theorem mwmr_never_stuck_witness:
  "\<exists>s e s'. runs mwmr_step \<lparr>chan = mwmr_init [0, 0] 1 2 demo_channel, calls = (\<lambda>_. Idle)\<rparr> [Ask 4 [7], Got 5 [] []] s \<and>
     mwmr_step s e s' \<and> 1 \<le> length (put_words e) + length (got_words e)"
proof -
  let ?c = "mwmr_init [0, 0] 1 2 demo_channel" and ?i = "\<lambda>_ :: nat. Idle"
  let ?s1 = "\<lparr>chan = ?c, calls = ?i(4 := Writing [7] 1)\<rparr>"
  let ?s2 = "\<lparr>chan = ?c, calls = ?i(4 := Writing [7] 1, 5 := Reading [0] 0 1)\<rparr>"
  have ask: "mwmr_step \<lparr>chan = ?c, calls = ?i\<rparr> (Ask 4 [7]) ?s1"
    using mwmr_step.call_write [of "\<lparr>chan = ?c, calls = ?i\<rparr>" 4 1 "[7]"]
    by (simp add: call_fits_def mwmr_init_def words_def)
  have read: "mwmr_step ?s1 (Got 5 [] []) ?s2"
    using mwmr_step.call_read [of ?s1 5 1 "[0]"] by (simp add: call_fits_def mwmr_init_def)
  have run: "runs mwmr_step \<lparr>chan = ?c, calls = ?i\<rparr> [Ask 4 [7], Got 5 [] []] ?s2"
    using runs_snoc [where step = mwmr_step and es = "[Ask 4 [7]]", OF _ read]
      runs_snoc [where step = mwmr_step and es = "[]", OF runs_nil ask] by simp
  have w: "calls ?s2 4 = Writing [7] 1" and r: "calls ?s2 5 = Reading [0] 0 1" by simp_all
  have "\<exists>e s'. mwmr_step ?s2 e s' \<and> unat (1 :: u32) \<le> length (put_words e) + length (got_words e)"
    by (rule mwmr_never_stuck [OF _ _ _ _ run w r]) simp_all
  then show ?thesis using run by auto
qed

text \<open>the non-blocking calls move as many whole items as were asked for and as fit, at once, and return
  their number: a write appends them to the contents, a read removes them and leaves the rest of the user
  buffer alone.\<close>

theorem nb_mwmr_exact:
  assumes "mwmr_ok ch" "unat (width ch) * unat items < 2 ^ 32" "unat (width ch) * unat items \<le> length buffer"
  defines "w \<equiv> unat (width ch)"
  defines "n \<equiv> min (unat items) (room ch div w)" and "k \<equiv> min (unat items) (unat (sts ch) div w)"
  shows "(\<exists>ch'. nb_mwmr_write buffer items ch = Some (word_of_nat n, ch') \<and> mwmr_ok ch' \<and>
            contents ch' = contents ch @ take (n * w) buffer) \<and>
    (\<exists>ch'. nb_mwmr_read buffer items ch =
              Some (word_of_nat k, take (k * w) (contents ch) @ drop (k * w) buffer, ch') \<and> mwmr_ok ch' \<and>
            contents ch' = drop (k * w) (contents ch))"
proof (cases "items = 0")
  case True
  then show ?thesis using assms(1) by (simp add: nb_mwmr_write_def nb_mwmr_read_def n_def k_def)
next
  case False
  have off: "0 + unat (width ch) * unat items \<le> length buffer" using assms(3) by simp
  obtain ch1 where w1: "mwmr_write_try buffer items ch = Some (write_left buffer items w n, ch1)"
      "put_contents ch (take (n * w) buffer) ch1"
    using write_try [OF assms(1-3)] unfolding w_def n_def moved_def by blast
  obtain xs ch2 where r1: "mwmr_read_try buffer 0 items ch =
        Some (take 0 buffer @ xs @ drop (0 + k * w) buffer, read_left 0 items w k, ch2)"
      "length xs = k * w" "get_contents ch xs ch2"
    using read_try [OF assms(1,2) off] unfolding w_def k_def moved_def by blast
  have xs: "xs = take (k * w) (contents ch)" "contents ch2 = drop (k * w) (contents ch)" "mwmr_ok ch2"
    using r1(2) get_contentsD [OF r1(3)] by (metis append_eq_conv_conj)+
  have u: "items - (items - word_of_nat m) = word_of_nat m" "word_of_nat (unat items) = items" for m
    by simp_all
  show ?thesis
    using nb_write_is_try [OF False, of buffer ch] nb_read_is_try [OF False, of buffer ch] w1 r1(1) xs put_contentsD [OF w1(2)] u
    by (simp add: write_left_def read_left_def)
qed

theorem nb_mwmr_exact_witness:
  "\<exists>ch'. nb_mwmr_write [7, 8, 9] 3 (mwmr_init [0, 0] 1 2 demo_channel) = Some (2, ch') \<and> contents ch' = [7, 8]"
proof -
  have ok: "mwmr_ok (mwmr_init [0, 0] 1 2 demo_channel)" "contents (mwmr_init [0, 0] 1 2 demo_channel) = []"
    using mwmr_init_ok [of 1 2 "[0, 0]"] by simp_all
  have "unat (width (mwmr_init [0, 0] 1 2 demo_channel)) = 1" "room (mwmr_init [0, 0] 1 2 demo_channel) = 2"
    by (simp_all add: mwmr_init_def room_def)
  with nb_mwmr_exact [OF ok(1), of 3 "[7, 8, 9]"] ok(2) show ?thesis
    by (simp del: numeral_eq_Suc) (auto simp: numeral_2_eq_2)
qed

lemma write_loop_returns:
  assumes env: "\<And>c. mwmr_ok c \<Longrightarrow> width c = w \<Longrightarrow> mwmr_ok (env c) \<and> width (env c) = w \<and> unat w \<le> room (env c)"
  shows "mwmr_ok ch \<Longrightarrow> width ch = w \<Longrightarrow> unat w \<le> room ch \<Longrightarrow> call_fits ch buffer 0 items \<Longrightarrow> items \<noteq> 0 \<Longrightarrow>
    unat items \<le> fuel \<Longrightarrow> \<exists>ch'. mwmr_write_loop env fuel buffer items ch = Some ch' \<and> mwmr_ok ch'"
proof (induction fuel arbitrary: ch buffer items)
  case 0
  then show ?case by (simp add: unat_eq_0)
next
  case (Suc fuel)
  let ?m = "moved (room ch) (unat (width ch)) (unat items)"
  have f: "unat (width ch) * unat items < 2 ^ 32" "unat (width ch) * unat items \<le> length buffer"
    using Suc.prems(4) by (simp_all add: call_fits_def)
  obtain ch' where t: "mwmr_write_try buffer items ch = Some (write_left buffer items (unat (width ch)) ?m, ch')"
      "put_contents ch (take (?m * unat (width ch)) buffer) ch'"
    using write_try [OF Suc.prems(1) f] by blast
  note d = put_contentsD [OF t(2)]
  have pos: "0 < ?m" using Suc.prems(1,2,3,5) by (auto simp: moved_def mwmr_ok_def div_greater_zero_iff unat_gt_0)
  show ?case
  proof (cases "?m = unat items")
    case True
    then show ?thesis using t(1) d by (simp add: write_left_def)
  next
    case False
    let ?b = "drop (?m * unat (width ch)) buffer" and ?i = "items - word_of_nat ?m"
    have run: "mwmr_write_try buffer items ch = Some (Some (?b, ?i), ch')" using t(1) False by (simp add: write_left_def)
    from write_turn [OF Suc.prems(1,4,5) run] have l: "?i \<noteq> 0" "call_fits ch ?b 0 ?i" by simp_all
    have le: "?m \<le> unat items" by (simp add: moved_def)
    have "unat ?i \<le> fuel" using unat_items_left [OF le] pos Suc.prems(6) by simp
    moreover have "call_fits (env ch') ?b 0 ?i" using l(2) env [of ch'] d Suc.prems(2) by (simp add: call_fits_def)
    ultimately have "\<exists>ch''. mwmr_write_loop env fuel ?b ?i (env ch') = Some ch'' \<and> mwmr_ok ch''"
      using Suc.IH [of "env ch'" ?b ?i] env [of ch'] d Suc.prems(2) l(1) by simp
    then show ?thesis using run by simp
  qed
qed

text \<open>C13: a call of \<open>mwmr_write\<close> returns once the other tasks make room: if they always leave room for one item
  between two turns, the call takes at most one turn more than it has items.\<close>

theorem mwmr_write_returns:
  assumes "mwmr_ok ch" "unat (width ch) * unat items < 2 ^ 32" "unat (width ch) * unat items \<le> length buffer"
    and "\<And>c. mwmr_ok c \<Longrightarrow> width c = width ch \<Longrightarrow>
           mwmr_ok (env c) \<and> width (env c) = width ch \<and> unat (width ch) \<le> room (env c)"
  shows "\<exists>ch'. mwmr_write env (unat items + 1) buffer items ch = Some ch' \<and> mwmr_ok ch'"
proof (cases "items = 0")
  case True
  then show ?thesis using assms(1) by (simp add: mwmr_write_def)
next
  case False
  let ?m = "moved (room ch) (unat (width ch)) (unat items)"
  obtain ch' where t: "mwmr_write_try buffer items ch = Some (write_left buffer items (unat (width ch)) ?m, ch')"
      "put_contents ch (take (?m * unat (width ch)) buffer) ch'"
    using write_try [OF assms(1-3)] by blast
  note d = put_contentsD [OF t(2)]
  show ?thesis
  proof (cases "?m = unat items")
    case True
    then show ?thesis using t(1) d False by (simp add: write_left_def mwmr_write_def)
  next
    case left: False
    let ?b = "drop (?m * unat (width ch)) buffer" and ?i = "items - word_of_nat ?m"
    have run: "mwmr_write_try buffer items ch = Some (Some (?b, ?i), ch')" using t(1) left by (simp add: write_left_def)
    have "call_fits ch buffer 0 items" using assms(2,3) by (simp add: call_fits_def)
    from write_turn [OF assms(1) this False run] have l: "?i \<noteq> 0" "call_fits ch ?b 0 ?i" by simp_all
    have le: "?m \<le> unat items" by (simp add: moved_def)
    have e: "mwmr_ok (env ch') \<and> width (env ch') = width ch \<and> unat (width ch) \<le> room (env ch')"
      using assms(4) d by blast
    have "call_fits (env ch') ?b 0 ?i" using l(2) e by (simp add: call_fits_def)
    then have "\<exists>ch''. mwmr_write_loop env (unat items) ?b ?i (env ch') = Some ch'' \<and> mwmr_ok ch''"
      using write_loop_returns [of "width ch" env "env ch'" ?b ?i "unat items", OF assms(4)] e l(1)
        unat_items_left [OF le] by simp
    then show ?thesis using run False by (simp add: mwmr_write_def)
  qed
qed

theorem mwmr_write_returns_witness:
  "\<exists>ch'. mwmr_write (\<lambda>c. c\<lparr>sts := 0, ptr := 0, ptw := 0\<rparr>) 4 [7, 8, 9] 3 (mwmr_init [0, 0] 1 2 demo_channel) = Some ch'"
proof -
  let ?ch = "mwmr_init [0, 0] 1 2 demo_channel" and ?env = "\<lambda>c :: mwmr_channel. c\<lparr>sts := 0, ptr := 0, ptw := 0\<rparr>"
  have ok: "mwmr_ok ?ch" using mwmr_init_ok [of 1 2 "[0, 0]"] by simp
  have env: "mwmr_ok (?env c) \<and> width (?env c) = width ?ch \<and> unat (width ?ch) \<le> room (?env c)"
    if "mwmr_ok c" "width c = width ?ch" for c
    using that by (auto simp: mwmr_ok_def room_def intro: dvd_imp_le)
  have "\<exists>ch'. mwmr_write ?env (unat (3 :: u32) + 1) [7, 8, 9] 3 ?ch = Some ch' \<and> mwmr_ok ch'"
    by (rule mwmr_write_returns [OF ok _ _ env]) (simp_all add: mwmr_init_def)
  moreover have "unat (3 :: u32) + 1 = 4" by simp
  ultimately show ?thesis by metis
qed

text \<open>The size of a transfer in words is a 32-bit product that nothing checks: a write whose product wraps
  to 0 returns the number of items it was given and transfers nothing.\<close>

theorem nb_mwmr_write_wraps:
  assumes "mwmr_ok ch" "items \<noteq> 0" "width ch * items = 0"
  shows "\<exists>ch'. nb_mwmr_write buffer items ch = Some (items, ch') \<and> contents ch' = contents ch"
proof -
  obtain lk where "user_lock_acquire (mwmr_lock ch) = Some lk" "lock_idle (user_lock_release lk)"
    using assms(1) user_acquireE unfolding mwmr_ok_def by metis
  then show ?thesis using assms(2,3) by (simp add: nb_mwmr_write_def Let_def contents_def)
qed

theorem nb_mwmr_write_wraps_witness:
  "\<exists>ch'. nb_mwmr_write [] 0x10000 (mwmr_init (replicate 0x10000 0) 0x10000 1 demo_channel) = Some (0x10000, ch') \<and>
     contents ch' = []"
proof -
  have ok: "mwmr_ok (mwmr_init (replicate 0x10000 0) 0x10000 1 demo_channel)"
    "contents (mwmr_init (replicate 0x10000 0) 0x10000 1 demo_channel) = []"
    using mwmr_init_ok [of "0x10000" 1 "replicate 0x10000 0"] by simp_all
  have "width (mwmr_init (replicate 0x10000 0) 0x10000 1 demo_channel) * 0x10000 = 0"
    by (simp add: mwmr_init_def)
  with nb_mwmr_write_wraps [OF ok(1), of "0x10000" "[]"] ok(2) show ?thesis by simp
qed

end
