(* ===== verification/Sqt.thy ===== *)
theory Sqt
  imports Spin_Lock Mapping_Info
begin

text \<open>
  The synchronisation quad trees (SQT) of the distributed locks and barriers: the footprint of the
  machine (\<open>_get_sqt_footprint\<close>, \<open>giet_common/utils.c\<close>), the allocation of the nodes in the
  clusters, and the recursive functions that set the parent and child pointers, in the kernel
  (\<open>kernel_locks.c\<close>, \<open>kernel_barriers.c\<close>) and in the user library (\<open>user_sqt_lock.c\<close>,
  \<open>user_barrier.c\<close>). The four C functions differ by the fields of a node only: \<open>sqt_build\<close> is
  their common text, with the constructor of a node as an argument. A pointer is a 32-bit word, 0
  is \<open>NULL\<close>, and the nodes are a store indexed by pointers. The allocator is an argument, whose
  contract is the locale \<open>node_allocator\<close>.
\<close>

section \<open>Footprint\<close>

definition footprint_levels :: "nat \<Rightarrow> nat" where
  "footprint_levels z = (if z < 1 then 1 else if z < 2 then 2 else if z < 4 then 3 else if z < 8 then 4 else 5)"

definition footprint_scan :: "nat \<Rightarrow> mapping_cluster list \<Rightarrow> nat \<times> nat \<Rightarrow> nat \<times> nat \<Rightarrow> nat \<times> nat" where
  "footprint_scan Y_SIZE cluster wh xy =
     (case (wh, xy) of ((w, h), (x, y)) \<Rightarrow>
        if procs (cluster ! (x * Y_SIZE + y)) \<noteq> 0
        then (if x > w then x else w, if y > h then y else h) else (w, h))"

definition get_sqt_footprint :: "nat \<Rightarrow> nat \<Rightarrow> mapping \<Rightarrow> (nat \<times> nat \<times> nat) option" where
  "get_sqt_footprint X_SIZE Y_SIZE mp =
     (if length (clusters mp) < X_SIZE * Y_SIZE then None
      else
        let (w, h) = foldl (footprint_scan Y_SIZE (clusters mp)) (0, 0)
               (concat (map (\<lambda>x. map (Pair x) [0..<Y_SIZE]) [0..<X_SIZE]));
            z = (if h > w then h else w)
        in Some (w + 1, h + 1, footprint_levels z))"

text \<open>The user library computes the levels from the sizes.\<close>

definition user_levels :: "nat \<Rightarrow> nat" where
  "user_levels z = (if z < 2 then 1 else if z < 3 then 2 else if z < 5 then 3 else if z < 9 then 4 else 5)"

section \<open>Allocation of the nodes\<close>

type_synonym sqt_array = "u32 array3"
type_synonym 's node_alloc = "nat \<Rightarrow> nat \<Rightarrow> 's \<Rightarrow> ((panic \<times> 's) + (u32 \<times> 's)) option"

definition sqt_node_here :: "nat \<Rightarrow> nat \<Rightarrow> nat \<Rightarrow> bool" where
  "sqt_node_here x y l \<longleftrightarrow>
     (l = 0 \<and> x AND 0x00 = 0 \<and> y AND 0x00 = 0) \<or> (l = 1 \<and> x AND 0x01 = 0 \<and> y AND 0x01 = 0) \<or>
     (l = 2 \<and> x AND 0x03 = 0 \<and> y AND 0x03 = 0) \<or> (l = 3 \<and> x AND 0x07 = 0 \<and> y AND 0x07 = 0) \<or>
     (l = 4 \<and> x AND 0x0F = 0 \<and> y AND 0x0F = 0)"

definition sqt_order :: "nat \<Rightarrow> nat \<Rightarrow> nat \<Rightarrow> (nat \<times> nat \<times> nat) list" where
  "sqt_order xmax ymax levels =
     concat (map (\<lambda>x. concat (map (\<lambda>y. map (\<lambda>l. (x, y, l)) [0..<levels]) [0..<ymax])) [0..<xmax])"

fun sqt_alloc :: "'s node_alloc \<Rightarrow> (nat \<times> nat \<times> nat) list \<Rightarrow> sqt_array \<Rightarrow> 's
    \<Rightarrow> ((panic \<times> 's) + (sqt_array \<times> 's)) option" where
  "sqt_alloc malloc [] node s = Some (Inr (node, s))"
| "sqt_alloc malloc ((x, y, l) # ps) node s =
     (if sqt_node_here x y l
      then case malloc x y s of
             None \<Rightarrow> None
           | Some (Inl e) \<Rightarrow> Some (Inl e)
           | Some (Inr (p, s')) \<Rightarrow> sqt_alloc malloc ps (upd3 node x y l p) s'
      else sqt_alloc malloc ps node s)"

section \<open>Setting the pointers\<close>

definition sqt_children :: "nat \<Rightarrow> nat \<Rightarrow> nat \<Rightarrow> (nat \<times> nat) list" where
  "sqt_children x y l = [(x, y), (x + 2 ^ l, y), (x, y + 2 ^ l), (x + 2 ^ l, y + 2 ^ l)]"

text \<open>The constructor of a node gets its level, its parent, its number of children and their pointers.\<close>

fun sqt_build :: "(nat \<Rightarrow> u32 \<Rightarrow> nat \<Rightarrow> u32 list \<Rightarrow> 'n) \<Rightarrow> sqt_array \<Rightarrow> nat \<Rightarrow> nat \<Rightarrow> nat \<Rightarrow> nat \<Rightarrow> nat \<Rightarrow> u32
    \<Rightarrow> (u32 \<Rightarrow> 'n) \<Rightarrow> (u32 \<Rightarrow> 'n)" where
  "sqt_build mk node xmax ymax x y 0 parent st = st(node x y 0 := mk 0 parent 0 [0, 0, 0, 0])"
| "sqt_build mk node xmax ymax x y (Suc l) parent st =
     (let this = node x y (Suc l); cs = sqt_children x y l;
          child = map (\<lambda>(cx, cy). if cx < xmax \<and> cy < ymax then node cx cy l else 0) cs;
          arity = length (filter (\<lambda>(cx, cy). cx < xmax \<and> cy < ymax) cs)
      in fold (\<lambda>c st. if fst c < xmax \<and> snd c < ymax
                 then sqt_build mk node xmax ymax (fst c) (snd c) l this st else st)
           cs (st(this := mk (Suc l) parent arity child)))"

record sqt_lock_node = spin_lock +
  lk_level :: nat
  lk_parent :: u32
  lk_child :: "u32 list"

record sqt_barrier_node =
  sb_arity :: u32
  sb_count :: u32
  sb_sense :: u32
  sb_level :: nat
  sb_parent :: u32
  sb_child :: "u32 list"

definition lock_node :: "nat \<Rightarrow> u32 \<Rightarrow> nat \<Rightarrow> u32 list \<Rightarrow> sqt_lock_node" where
  "lock_node l parent arity child =
     \<lparr>current = 0, free_ticket = 0, lk_level = l, lk_parent = parent, lk_child = child\<rparr>"

text \<open>A leaf of a barrier waits for the tasks of its cluster: \<open>NB_PROCS_MAX\<close> in the kernel, the argument
  \<open>ntasks\<close> in the user library.\<close>

definition barrier_node :: "u32 \<Rightarrow> nat \<Rightarrow> u32 \<Rightarrow> nat \<Rightarrow> u32 list \<Rightarrow> sqt_barrier_node" where
  "barrier_node ntasks l parent arity child =
     (let a = (if l = 0 then ntasks else word_of_nat arity)
      in \<lparr>sb_arity = a, sb_count = a, sb_sense = 0, sb_level = l, sb_parent = parent, sb_child = child\<rparr>)"

definition sqt_lock_build :: "sqt_array \<Rightarrow> nat \<Rightarrow> nat \<Rightarrow> nat \<Rightarrow> nat \<Rightarrow> nat \<Rightarrow> u32
    \<Rightarrow> (u32 \<Rightarrow> sqt_lock_node) \<Rightarrow> (u32 \<Rightarrow> sqt_lock_node)" where
  "sqt_lock_build = sqt_build lock_node"

definition sqt_barrier_build :: "u32 \<Rightarrow> sqt_array \<Rightarrow> nat \<Rightarrow> nat \<Rightarrow> nat \<Rightarrow> nat \<Rightarrow> nat \<Rightarrow> u32
    \<Rightarrow> (u32 \<Rightarrow> sqt_barrier_node) \<Rightarrow> (u32 \<Rightarrow> sqt_barrier_node)" where
  "sqt_barrier_build ntasks = sqt_build (barrier_node ntasks)"

text \<open>The user library has its own copies of both functions.\<close>

definition user_sqt_lock_build :: "sqt_array \<Rightarrow> nat \<Rightarrow> nat \<Rightarrow> nat \<Rightarrow> nat \<Rightarrow> nat \<Rightarrow> u32
    \<Rightarrow> (u32 \<Rightarrow> sqt_lock_node) \<Rightarrow> (u32 \<Rightarrow> sqt_lock_node)" where
  "user_sqt_lock_build = sqt_build lock_node"

definition user_sqt_barrier_build :: "u32 \<Rightarrow> sqt_array \<Rightarrow> nat \<Rightarrow> nat \<Rightarrow> nat \<Rightarrow> nat \<Rightarrow> nat \<Rightarrow> u32
    \<Rightarrow> (u32 \<Rightarrow> sqt_barrier_node) \<Rightarrow> (u32 \<Rightarrow> sqt_barrier_node)" where
  "user_sqt_barrier_build ntasks = sqt_build (barrier_node ntasks)"

section \<open>Initialisation\<close>

type_synonym 'n node_build = "sqt_array \<Rightarrow> nat \<Rightarrow> nat \<Rightarrow> nat \<Rightarrow> nat \<Rightarrow> nat \<Rightarrow> u32 \<Rightarrow> (u32 \<Rightarrow> 'n) \<Rightarrow> (u32 \<Rightarrow> 'n)"

definition sqt_init :: "'n node_build \<Rightarrow> 's node_alloc \<Rightarrow> nat \<Rightarrow> nat \<Rightarrow> nat
    \<Rightarrow> sqt_array \<Rightarrow> 's \<Rightarrow> (u32 \<Rightarrow> 'n) \<Rightarrow> ((panic \<times> 's) + (sqt_array \<times> (u32 \<Rightarrow> 'n) \<times> 's)) option" where
  "sqt_init build malloc xmax ymax levels node s st =
     (case sqt_alloc malloc (sqt_order xmax ymax levels) node s of
        None \<Rightarrow> None
      | Some (Inl e) \<Rightarrow> Some (Inl e)
      | Some (Inr (node', s')) \<Rightarrow>
          Some (Inr (node', build node' xmax ymax 0 0 (levels - 1) 0 st, s')))"

definition sqt_lock_init :: "'s node_alloc \<Rightarrow> nat \<Rightarrow> nat \<Rightarrow> mapping \<Rightarrow> sqt_array \<Rightarrow> 's \<Rightarrow> (u32 \<Rightarrow> sqt_lock_node)
    \<Rightarrow> ((panic \<times> 's) + (sqt_array \<times> (u32 \<Rightarrow> sqt_lock_node) \<times> 's)) option" where
  "sqt_lock_init malloc X_SIZE Y_SIZE mp node s st =
     Option.bind (get_sqt_footprint X_SIZE Y_SIZE mp) (\<lambda>(xmax, ymax, levels).
       sqt_init sqt_lock_build malloc xmax ymax levels node s st)"

definition sqt_barrier_init :: "u32 \<Rightarrow> 's node_alloc \<Rightarrow> nat \<Rightarrow> nat \<Rightarrow> mapping \<Rightarrow> sqt_array \<Rightarrow> 's
    \<Rightarrow> (u32 \<Rightarrow> sqt_barrier_node) \<Rightarrow> ((panic \<times> 's) + (sqt_array \<times> (u32 \<Rightarrow> sqt_barrier_node) \<times> 's)) option" where
  "sqt_barrier_init NB_PROCS_MAX malloc X_SIZE Y_SIZE mp node s st =
     Option.bind (get_sqt_footprint X_SIZE Y_SIZE mp) (\<lambda>(xmax, ymax, levels).
       sqt_init (sqt_barrier_build NB_PROCS_MAX) malloc xmax ymax levels node s st)"

definition user_sqt_lock_init :: "'s node_alloc \<Rightarrow> nat \<Rightarrow> nat \<Rightarrow> nat \<Rightarrow> sqt_array \<Rightarrow> 's \<Rightarrow> (u32 \<Rightarrow> sqt_lock_node)
    \<Rightarrow> ((panic \<times> 's) + (sqt_array \<times> (u32 \<Rightarrow> sqt_lock_node) \<times> 's)) option" where
  "user_sqt_lock_init malloc xsize ysize ntasks node s st =
     (if xsize > 16 \<or> ysize > 16 \<or> ntasks > 8 then Some (Inl (Parameter_too_large, s))
      else sqt_init user_sqt_lock_build malloc xsize ysize (user_levels (if xsize > ysize then xsize else ysize)) node s st)"

definition user_sqt_barrier_init :: "'s node_alloc \<Rightarrow> nat \<Rightarrow> nat \<Rightarrow> nat \<Rightarrow> sqt_array \<Rightarrow> 's \<Rightarrow> (u32 \<Rightarrow> sqt_barrier_node)
    \<Rightarrow> ((panic \<times> 's) + (sqt_array \<times> (u32 \<Rightarrow> sqt_barrier_node) \<times> 's)) option" where
  "user_sqt_barrier_init malloc xsize ysize ntasks node s st =
     (if xsize > 16 \<or> ysize > 16 \<or> ntasks > 8 then Some (Inl (Parameter_too_large, s))
      else sqt_init (user_sqt_barrier_build (word_of_nat ntasks)) malloc xsize ysize
             (user_levels (if xsize > ysize then xsize else ysize)) node s st)"

section \<open>The levels cover the machine\<close>

lemma footprint_scan_max:
  "foldl (footprint_scan Y cl) (w, h) ps = (w', h') \<Longrightarrow>
     w \<le> w' \<and> h \<le> h' \<and> (\<forall>(x, y)\<in>set ps. procs (cl ! (x * Y + y)) \<noteq> 0 \<longrightarrow> x \<le> w' \<and> y \<le> h') \<and>
     (w' \<in> insert w (fst ` set ps)) \<and> (h' \<in> insert h (snd ` set ps))"
proof (induction ps arbitrary: w h)
  case (Cons p ps)
  obtain x y where p: "p = (x, y)" by (cases p)
  obtain w1 h1 where 1: "footprint_scan Y cl (w, h) (x, y) = (w1, h1)" by (cases "footprint_scan Y cl (w, h) (x, y)")
  then have step: "w \<le> w1" "h \<le> h1" "procs (cl ! (x * Y + y)) \<noteq> 0 \<longrightarrow> x \<le> w1 \<and> y \<le> h1" "w1 \<in> {w, x}" "h1 \<in> {h, y}"
    by (auto simp: footprint_scan_def split: if_splits)
  have "foldl (footprint_scan Y cl) (w1, h1) ps = (w', h')" using Cons.prems 1 p by simp
  from Cons.IH [OF this] step show ?case unfolding p by (auto 0 4)
qed simp

lemma footprint_levels_cover: "z < 16 \<Longrightarrow> z < 2 ^ (footprint_levels z - 1)"
  by (auto simp: footprint_levels_def)

lemma levels_bounds:
  "1 \<le> footprint_levels z" "footprint_levels z \<le> 5" "1 \<le> user_levels z" "user_levels z \<le> 5"
  by (auto simp: footprint_levels_def user_levels_def)

lemma user_levels_cover: "z \<le> 16 \<Longrightarrow> z \<le> 2 ^ (user_levels z - 1)"
  by (auto simp: user_levels_def)

lemma get_sqt_footprint_covers:
  assumes "get_sqt_footprint X Y mp = Some (xmax, ymax, levels)" "0 < X" "X \<le> 16" "0 < Y" "Y \<le> 16"
  shows "1 \<le> levels" "levels \<le> 5" "0 < xmax" "xmax \<le> X" "0 < ymax" "ymax \<le> Y"
    "xmax \<le> 2 ^ (levels - 1)" "ymax \<le> 2 ^ (levels - 1)"
    "\<And>x y. x < X \<Longrightarrow> y < Y \<Longrightarrow> procs (clusters mp ! (x * Y + y)) \<noteq> 0 \<Longrightarrow> x < xmax \<and> y < ymax"
proof -
  let ?ps = "concat (map (\<lambda>x. map (Pair x) [0..<Y]) [0..<X])"
  obtain w h where f: "foldl (footprint_scan Y (clusters mp)) (0, 0) ?ps = (w, h)"
    by (cases "foldl (footprint_scan Y (clusters mp)) (0, 0) ?ps")
  then have r: "xmax = w + 1" "ymax = h + 1" "levels = footprint_levels (if h > w then h else w)"
    using assms(1) by (auto simp: get_sqt_footprint_def split: if_splits)
  note m = footprint_scan_max [OF f]
  have set: "set ?ps = {..<X} \<times> {..<Y}" by auto
  have wh: "w < X" "h < Y" using m assms(2,4) unfolding set by (auto split: if_splits)
  then have z: "(if h > w then h else w) < 16" using assms(3,5) by auto
  show "xmax \<le> 2 ^ (levels - 1)" "ymax \<le> 2 ^ (levels - 1)"
    using footprint_levels_cover [OF z] unfolding r by (auto split: if_splits)
  show "1 \<le> levels" "levels \<le> 5" "0 < xmax" "xmax \<le> X" "0 < ymax" "ymax \<le> Y"
    using r wh levels_bounds by auto
  show "x < xmax \<and> y < ymax" if "x < X" "y < Y" "procs (clusters mp ! (x * Y + y)) \<noteq> 0" for x y
    using m that unfolding set r by (auto simp: less_Suc_eq_le)
qed

section \<open>The tree that is built\<close>

definition align :: "nat \<Rightarrow> nat \<Rightarrow> nat" where
  "align x l = x div 2 ^ l * 2 ^ l"

text \<open>The places of the nodes below \<open>(x, y)\<close> at level \<open>L\<close>.\<close>

definition subtree :: "nat \<Rightarrow> nat \<Rightarrow> nat \<Rightarrow> nat \<Rightarrow> nat \<Rightarrow> (nat \<times> nat \<times> nat) set" where
  "subtree xmax ymax x y L = {(x', y', l). l \<le> L \<and> x \<le> x' \<and> x' < x + 2 ^ L \<and> y \<le> y' \<and> y' < y + 2 ^ L \<and>
     2 ^ l dvd x' \<and> 2 ^ l dvd y' \<and> x' < xmax \<and> y' < ymax}"

abbreviation node_at :: "sqt_array \<Rightarrow> nat \<times> nat \<times> nat \<Rightarrow> u32" where
  "node_at node t \<equiv> node (fst t) (fst (snd t)) (snd (snd t))"

definition child_ptrs :: "sqt_array \<Rightarrow> nat \<Rightarrow> nat \<Rightarrow> nat \<Rightarrow> nat \<Rightarrow> nat \<Rightarrow> u32 list" where
  "child_ptrs node xmax ymax x y l = (case l of 0 \<Rightarrow> [0, 0, 0, 0]
     | Suc k \<Rightarrow> map (\<lambda>(cx, cy). if cx < xmax \<and> cy < ymax then node cx cy k else 0) (sqt_children x y k))"

definition child_count :: "nat \<Rightarrow> nat \<Rightarrow> nat \<Rightarrow> nat \<Rightarrow> nat \<Rightarrow> nat" where
  "child_count xmax ymax x y l = (case l of 0 \<Rightarrow> 0
     | Suc k \<Rightarrow> length (filter (\<lambda>(cx, cy). cx < xmax \<and> cy < ymax) (sqt_children x y k)))"

definition built_node :: "(nat \<Rightarrow> u32 \<Rightarrow> nat \<Rightarrow> u32 list \<Rightarrow> 'n) \<Rightarrow> sqt_array \<Rightarrow> nat \<Rightarrow> nat \<Rightarrow> nat \<Rightarrow> u32
    \<Rightarrow> nat \<times> nat \<times> nat \<Rightarrow> 'n" where
  "built_node mk node xmax ymax L parent t =
     (case t of (x, y, l) \<Rightarrow>
        mk l (if l = L then parent else node (align x (Suc l)) (align y (Suc l)) (Suc l))
          (child_count xmax ymax x y l) (child_ptrs node xmax ymax x y l))"

lemma align_dvd: "2 ^ l dvd align x l"
  by (simp add: align_def)

lemma align_eqI:
  assumes "2 ^ l dvd x" "x \<le> x'" "x' < x + 2 ^ l"
  shows "align x' l = x"
proof -
  obtain k where k: "x = 2 ^ l * k" using assms(1) by (rule dvdE)
  have "x' div 2 ^ l = k"
    using assms(2,3) unfolding k by (intro div_nat_eqI) (simp_all add: algebra_simps)
  then show ?thesis by (simp add: align_def k mult.commute)
qed

lemma align_le: "align x l \<le> x"
  by (simp add: align_def)

lemma fold_untouched: "(\<And>d st. d \<in> set cs \<Longrightarrow> f d st a = st a) \<Longrightarrow> fold f cs st a = st a"
  by (induction cs arbitrary: st) auto

lemma fold_touched_once:
  assumes "distinct cs" "c \<in> set cs" "\<And>d st. d \<in> set cs \<Longrightarrow> d \<noteq> c \<Longrightarrow> f d st a = st a" "\<And>st. f c st a = v"
  shows "fold f cs st a = v"
  using assms
proof (induction cs arbitrary: st)
  case (Cons d cs)
  show ?case
  proof (cases "d = c")
    case True
    then have "fold f cs (f c st) a = f c st a" using Cons.prems by (intro fold_untouched) auto
    then show ?thesis using True Cons.prems(4) by simp
  qed (use Cons in simp)
qed simp

lemma distinct_children: "distinct (sqt_children x y l)"
  by (auto simp: sqt_children_def)

lemma child_subtree:
  assumes "c \<in> set (sqt_children x y l)" "2 ^ Suc l dvd x" "2 ^ Suc l dvd y"
  shows "subtree xmax ymax (fst c) (snd c) l \<subseteq> subtree xmax ymax x y (Suc l)" "2 ^ l dvd fst c" "2 ^ l dvd snd c"
proof -
  have d: "2 ^ l dvd x" "2 ^ l dvd y" using assms(2,3) by (auto intro: dvd_trans [OF le_imp_power_dvd])
  then show "2 ^ l dvd fst c" "2 ^ l dvd snd c" using assms(1) by (auto simp: sqt_children_def)
  show "subtree xmax ymax (fst c) (snd c) l \<subseteq> subtree xmax ymax x y (Suc l)"
    using assms(1) by (auto simp: sqt_children_def subtree_def)
qed

lemma subtree_child:
  assumes "(x', y', k) \<in> subtree xmax ymax x y (Suc l)" "k \<le> l" "2 ^ Suc l dvd x" "2 ^ Suc l dvd y"
  obtains c where "c \<in> set (sqt_children x y l)" "(x', y', k) \<in> subtree xmax ymax (fst c) (snd c) l"
    "fst c < xmax" "snd c < ymax"
proof -
  let ?c = "(if x' < x + 2 ^ l then x else x + 2 ^ l, if y' < y + 2 ^ l then y else y + 2 ^ l)"
  show ?thesis
    by (rule that [of ?c]) (use assms in \<open>auto simp: sqt_children_def subtree_def\<close>)
qed

lemma children_apart:
  assumes "c \<in> set (sqt_children x y l)" "d \<in> set (sqt_children x y l)"
    "t \<in> subtree xmax ymax (fst c) (snd c) l" "t \<in> subtree xmax ymax (fst d) (snd d) l"
  shows "c = d"
  using assms by (auto simp: sqt_children_def subtree_def)

lemma subtree_root: "(x', y', L) \<in> subtree xmax ymax x y L \<Longrightarrow> 2 ^ L dvd x \<Longrightarrow> 2 ^ L dvd y \<Longrightarrow> x' = x \<and> y' = y"
proof -
  assume "(x', y', L) \<in> subtree xmax ymax x y L" and d: "2 ^ L dvd x" "2 ^ L dvd y"
  then have s: "x \<le> x'" "x' < x + 2 ^ L" "y \<le> y'" "y' < y + 2 ^ L" "2 ^ L dvd x'" "2 ^ L dvd y'"
    by (simp_all add: subtree_def)
  have "align x' L = x" "align y' L = y" by (rule align_eqI; use s d in simp)+
  moreover have "align x' L = x'" "align y' L = y'" using s(5,6) by (simp_all add: align_def)
  ultimately show ?thesis by simp
qed

lemma build_frame:
  "2 ^ L dvd x \<Longrightarrow> 2 ^ L dvd y \<Longrightarrow> x < xmax \<Longrightarrow> y < ymax \<Longrightarrow> (\<And>t. t \<in> subtree xmax ymax x y L \<Longrightarrow> node_at node t \<noteq> a) \<Longrightarrow>
     sqt_build mk node xmax ymax x y L parent st a = st a"
proof (induction L arbitrary: x y parent st)
  case 0
  have "(x, y, 0) \<in> subtree xmax ymax x y 0" using 0(3,4) by (simp add: subtree_def)
  then have "node x y 0 \<noteq> a" using 0(5) [of "(x, y, 0)"] by simp
  then show ?case by simp
next
  case (Suc l)
  let ?f = "\<lambda>c st. if fst c < xmax \<and> snd c < ymax
      then sqt_build mk node xmax ymax (fst c) (snd c) l (node x y (Suc l)) st else st"
  have sub: "?f c st a = st a" if c: "c \<in> set (sqt_children x y l)" for c st
  proof (cases "fst c < xmax \<and> snd c < ymax")
    case True
    note cs = child_subtree [OF c Suc.prems(1,2)]
    have "sqt_build mk node xmax ymax (fst c) (snd c) l (node x y (Suc l)) st a = st a"
      by (rule Suc.IH [OF cs(2,3)]) (use True Suc.prems(5) subsetD [OF cs(1)] in blast)+
    then show ?thesis using True by simp
  qed auto
  have "(x, y, Suc l) \<in> subtree xmax ymax x y (Suc l)" using Suc.prems by (simp add: subtree_def)
  then have "node x y (Suc l) \<noteq> a" using Suc.prems(5) [of "(x, y, Suc l)"] by simp
  then show ?case using fold_untouched [of "sqt_children x y l" ?f a, OF sub] by (simp add: Let_def)
qed

lemma build_hit:
  "2 ^ L dvd x \<Longrightarrow> 2 ^ L dvd y \<Longrightarrow> x < xmax \<Longrightarrow> y < ymax \<Longrightarrow> inj_on (node_at node) (subtree xmax ymax x y L) \<Longrightarrow>
     t \<in> subtree xmax ymax x y L \<Longrightarrow>
     sqt_build mk node xmax ymax x y L parent st (node_at node t) = built_node mk node xmax ymax L parent t"
proof (induction L arbitrary: x y parent st)
  case 0
  then have "t = (x, y, 0)" by (auto simp: subtree_def)
  then show ?case by (simp add: built_node_def child_count_def child_ptrs_def)
next
  case (Suc l)
  let ?top = "node x y (Suc l)"
  let ?f = "\<lambda>c st. if fst c < xmax \<and> snd c < ymax then sqt_build mk node xmax ymax (fst c) (snd c) l ?top st else st"
  obtain x' y' k where t: "t = (x', y', k)" by (cases t)
  have frame: "?f c st (node_at node t) = st (node_at node t)"
    if c: "c \<in> set (sqt_children x y l)" and out: "t \<notin> subtree xmax ymax (fst c) (snd c) l" for c st
  proof (cases "fst c < xmax \<and> snd c < ymax")
    case True
    note cs = child_subtree [OF c Suc.prems(1,2)]
    have "sqt_build mk node xmax ymax (fst c) (snd c) l ?top st (node_at node t) = st (node_at node t)"
    proof (rule build_frame [OF cs(2,3)])
      show "node_at node u \<noteq> node_at node t" if "u \<in> subtree xmax ymax (fst c) (snd c) l" for u
        using inj_onD [OF Suc.prems(5)] Suc.prems(6) cs(1) that out by blast
    qed (use True in auto)
    then show ?thesis using True by simp
  qed auto
  show ?case
  proof (cases "k = Suc l")
    case True
    then have root: "t = (x, y, Suc l)" using subtree_root Suc.prems(1,2,6) t by blast
    have "fold ?f (sqt_children x y l) st1 (node_at node t) = st1 (node_at node t)" for st1
      by (rule fold_untouched, rule frame) (auto simp: root subtree_def)
    then show ?thesis by (simp add: Let_def root built_node_def child_count_def child_ptrs_def)
  next
    case False
    then have k: "k \<le> l" using Suc.prems(6) t by (auto simp: subtree_def)
    obtain c where c: "c \<in> set (sqt_children x y l)" "t \<in> subtree xmax ymax (fst c) (snd c) l" "fst c < xmax" "snd c < ymax"
      using subtree_child Suc.prems(1,2,6) k unfolding t by metis
    note cs = child_subtree [OF c(1) Suc.prems(1,2)]
    have inj: "inj_on (node_at node) (subtree xmax ymax (fst c) (snd c) l)"
      using Suc.prems(5) cs(1) by (rule inj_on_subset)
    have "?f c st1 (node_at node t) = built_node mk node xmax ymax l ?top t" for st1
      using Suc.IH [OF cs(2,3) c(3,4) inj c(2)] c(3,4) by simp
    moreover have "?f d st1 (node_at node t) = st1 (node_at node t)" if "d \<in> set (sqt_children x y l)" "d \<noteq> c" for d st1
      using frame [OF that(1)] children_apart [OF that(1) c(1) _ c(2)] that(2) by blast
    ultimately have "fold ?f (sqt_children x y l) st1 (node_at node t) = built_node mk node xmax ymax l ?top t" for st1
      by (intro fold_touched_once [OF distinct_children c(1)]) simp_all
    moreover have "built_node mk node xmax ymax l ?top t = built_node mk node xmax ymax (Suc l) parent t"
    proof -
      have "x \<le> x'" "x' < x + 2 ^ Suc l" "y \<le> y'" "y' < y + 2 ^ Suc l"
        using Suc.prems(6) by (simp_all add: t subtree_def)
      then have "align x' (Suc l) = x" "align y' (Suc l) = y"
        using align_eqI Suc.prems(1,2) by blast+
      then show ?thesis using False k by (simp add: t built_node_def)
    qed
    ultimately show ?thesis by (simp add: Let_def)
  qed
qed

section \<open>Initialisation with an allocator\<close>

lemma set_sqt_order: "(x, y, l) \<in> set (sqt_order xmax ymax levels) \<longleftrightarrow> x < xmax \<and> y < ymax \<and> l < levels"
  by (force simp: sqt_order_def)

lemma distinct_sqt_order: "distinct (sqt_order xmax ymax levels)"
proof -
  have cat: "distinct (concat (map g ys))"
    if "distinct ys" "\<And>y. y \<in> set ys \<Longrightarrow> distinct (g y)" "\<And>y z t. y \<in> set ys \<Longrightarrow> z \<in> set ys \<Longrightarrow> t \<in> set (g y) \<Longrightarrow> t \<in> set (g z) \<Longrightarrow> y = z"
    for ys :: "nat list" and g :: "nat \<Rightarrow> (nat \<times> nat \<times> nat) list"
    using that
  proof (induction ys)
    case (Cons y ys)
    then have "set (g y) \<inter> set (concat (map g ys)) = {}" by fastforce
    then show ?case using Cons by simp
  qed simp
  show ?thesis unfolding sqt_order_def
    by (intro cat) (auto simp: distinct_map inj_on_def)
qed

lemma and_mask_dvd: "(x :: nat) AND (2 ^ l - 1) = 0 \<longleftrightarrow> 2 ^ l dvd x"
proof -
  have "x AND (2 ^ l - 1) = x mod 2 ^ l"
    by (metis mask_nat_def take_bit_eq_mask take_bit_nat_def)
  then show ?thesis by (simp add: dvd_eq_mod_eq_0)
qed

lemma sqt_node_here_iff: "l < 5 \<Longrightarrow> sqt_node_here x y l \<longleftrightarrow> 2 ^ l dvd x \<and> 2 ^ l dvd y"
proof -
  assume "l < 5"
  then have "l = 0 \<or> l = 1 \<or> l = 2 \<or> l = 3 \<or> l = 4" by linarith
  then show ?thesis
    using and_mask_dvd [of x l] and_mask_dvd [of y l] by (elim disjE) (simp_all add: sqt_node_here_def)
qed

text \<open>The tree in memory: nodes at distinct addresses, with the pointers of the quad tree.\<close>

definition sqt_tree :: "(nat \<Rightarrow> u32 \<Rightarrow> nat \<Rightarrow> u32 list \<Rightarrow> 'n) \<Rightarrow> nat \<Rightarrow> nat \<Rightarrow> nat \<Rightarrow> sqt_array \<Rightarrow> (u32 \<Rightarrow> 'n) \<Rightarrow> bool" where
  "sqt_tree mk xmax ymax L node st \<longleftrightarrow> inj_on (node_at node) (subtree xmax ymax 0 0 L) \<and>
     (\<forall>t\<in>subtree xmax ymax 0 0 L. node_at node t \<noteq> 0 \<and> st (node_at node t) = built_node mk node xmax ymax L 0 t)"

fun climb :: "('n \<Rightarrow> u32) \<Rightarrow> (u32 \<Rightarrow> 'n) \<Rightarrow> nat \<Rightarrow> u32 \<Rightarrow> u32" where
  "climb parent st 0 p = p"
| "climb parent st (Suc n) p = parent (st (climb parent st n p))"

lemma align_0 [simp]: "align x 0 = x"
  by (simp add: align_def)

lemma align_Suc: "align (align x l) (Suc l) = align x (Suc l)"
  unfolding align_def power_Suc2 div_mult2_eq by simp

lemma align_root: "x < 2 ^ L \<Longrightarrow> align x L = 0"
  by (simp add: align_def)

lemma aligned_place:
  assumes "x < xmax" "y < ymax" "x < 2 ^ L" "y < 2 ^ L" "l \<le> L"
  shows "(align x l, align y l, l) \<in> subtree xmax ymax 0 0 L"
  using assms align_le [of x l] align_le [of y l] align_dvd by (simp add: subtree_def)

lemma climb_tree:
  assumes tree: "sqt_tree mk xmax ymax L node st" and par: "\<And>l p a c. parent (mk l p a c) = p"
    and xy: "x < xmax" "y < ymax" "x < 2 ^ L" "y < 2 ^ L"
  shows "l \<le> L \<Longrightarrow> climb parent st l (node x y 0) = node (align x l) (align y l) l"
proof (induction l)
  case (Suc l)
  let ?t = "(align x l, align y l, l)"
  have "st (node_at node ?t) = built_node mk node xmax ymax L 0 ?t"
    using tree aligned_place [OF xy, of l] Suc.prems unfolding sqt_tree_def by auto
  then show ?case using Suc by (simp add: built_node_def par align_Suc)
qed simp

lemma root_parent:
  assumes tree: "sqt_tree mk xmax ymax L node st" and par: "\<And>l p a c. parent (mk l p a c) = p"
    and "0 < xmax" "0 < ymax"
  shows "parent (st (node 0 0 L)) = 0"
proof -
  have "(0, 0, L) \<in> subtree xmax ymax 0 0 L" using assms(3,4) by (simp add: subtree_def)
  then show ?thesis using tree par by (force simp: sqt_tree_def built_node_def)
qed

text \<open>The children of a node are the nodes one level below whose parent it is.\<close>

lemma align_Suc_cases: "2 ^ k dvd x' \<Longrightarrow> align x' (Suc k) = x \<longleftrightarrow> 2 ^ Suc k dvd x \<and> (x' = x \<or> x' = x + 2 ^ k)"
proof
  assume "2 ^ k dvd x'"
  then obtain q where q: "x' = 2 ^ k * q" by (rule dvdE)
  assume "align x' (Suc k) = x"
  then have x: "x = 2 ^ k * (2 * (q div 2))"
    unfolding q align_def power_Suc2 div_mult2_eq by (simp add: mult_ac)
  have "q = 2 * (q div 2) \<or> q = 2 * (q div 2) + 1" by presburger
  then have "x' = x \<or> x' = x + 2 ^ k" unfolding x q by (metis distrib_left mult.right_neutral)
  then show "2 ^ Suc k dvd x \<and> (x' = x \<or> x' = x + 2 ^ k)" by (simp add: x)
next
  assume "2 ^ Suc k dvd x \<and> (x' = x \<or> x' = x + 2 ^ k)"
  then show "align x' (Suc k) = x" by (intro align_eqI) auto
qed

lemma child_count_card:
  assumes "2 ^ Suc k dvd x" "2 ^ Suc k dvd y" "k < L" "x < 2 ^ L" "y < 2 ^ L"
  shows "child_count xmax ymax x y (Suc k) =
    card {(x', y'). (x', y', k) \<in> subtree xmax ymax 0 0 L \<and> align x' (Suc k) = x \<and> align y' (Suc k) = y}"
proof -
  have d: "2 ^ k dvd x" "2 ^ k dvd y" using assms(1,2) by (auto intro: dvd_trans [OF le_imp_power_dvd])
  have lt: "z + 2 ^ k < 2 ^ L" if z: "2 ^ Suc k dvd z" "z < 2 ^ L" for z :: nat
  proof -
    have "2 ^ Suc k dvd (2 :: nat) ^ L" using assms(3) by (intro le_imp_power_dvd) simp
    then have "2 ^ Suc k dvd 2 ^ L - z" using z by (intro dvd_diff_nat)
    then have "2 ^ Suc k \<le> 2 ^ L - z" using z(2) by (intro dvd_imp_le) simp_all
    moreover have "(2 :: nat) ^ k < 2 ^ Suc k" by simp
    ultimately show ?thesis using z(2) by linarith
  qed
  have axis: "2 ^ k dvd z' \<and> z' < 2 ^ L \<and> align z' (Suc k) = z \<longleftrightarrow> z' = z \<or> z' = z + 2 ^ k"
    if z: "2 ^ Suc k dvd z" "2 ^ k dvd z" "z < 2 ^ L" for z z'
  proof
    assume "2 ^ k dvd z' \<and> z' < 2 ^ L \<and> align z' (Suc k) = z"
    then show "z' = z \<or> z' = z + 2 ^ k" using align_Suc_cases [of k z' z] by blast
  next
    assume o: "z' = z \<or> z' = z + 2 ^ k"
    then have "2 ^ k dvd z'" using z(2) by auto
    then show "2 ^ k dvd z' \<and> z' < 2 ^ L \<and> align z' (Suc k) = z"
      using o z lt [OF z(1,3)] align_Suc_cases [of k z' z] by blast
  qed
  have "(a, b) \<in> set (filter (\<lambda>(cx, cy). cx < xmax \<and> cy < ymax) (sqt_children x y k)) \<longleftrightarrow>
      (a, b, k) \<in> subtree xmax ymax 0 0 L \<and> align a (Suc k) = x \<and> align b (Suc k) = y" for a b
  proof -
    have "(a, b) \<in> set (filter (\<lambda>(cx, cy). cx < xmax \<and> cy < ymax) (sqt_children x y k)) \<longleftrightarrow>
        (a = x \<or> a = x + 2 ^ k) \<and> (b = y \<or> b = y + 2 ^ k) \<and> a < xmax \<and> b < ymax"
      by (auto simp: sqt_children_def)
    also have "\<dots> \<longleftrightarrow> (a, b, k) \<in> subtree xmax ymax 0 0 L \<and> align a (Suc k) = x \<and> align b (Suc k) = y"
      unfolding axis [OF assms(1) d(1) assms(4), symmetric] axis [OF assms(2) d(2) assms(5), symmetric]
      using assms(3) by (auto simp: subtree_def)
    finally show ?thesis .
  qed
  then have "set (filter (\<lambda>(cx, cy). cx < xmax \<and> cy < ymax) (sqt_children x y k)) =
    {(x', y'). (x', y', k) \<in> subtree xmax ymax 0 0 L \<and> align x' (Suc k) = x \<and> align y' (Suc k) = y}"
    by blast
  moreover have "distinct (filter (\<lambda>(cx, cy). cx < xmax \<and> cy < ymax) (sqt_children x y k))"
    using distinct_children by simp
  ultimately show ?thesis by (simp add: child_count_def distinct_card [symmetric])
qed

text \<open>What the initialisation relies on: the addresses of the live blocks, and the clusters with a heap.\<close>

locale node_allocator =
  fixes malloc :: "nat \<Rightarrow> nat \<Rightarrow> 's \<Rightarrow> ((panic \<times> 's) + (u32 \<times> 's)) option"
    and inv :: "'s \<Rightarrow> u32 set \<Rightarrow> bool" and usable :: "'s \<Rightarrow> nat \<Rightarrow> nat \<Rightarrow> bool"
  assumes malloc_cases: "inv s L \<Longrightarrow> usable s x y \<Longrightarrow>
    (\<exists>e s'. malloc x y s = Some (Inl (e, s'))) \<or>
    (\<exists>p s'. malloc x y s = Some (Inr (p, s')) \<and> p \<noteq> 0 \<and> p \<notin> L \<and> inv s' (insert p L) \<and> usable s' = usable s)"
begin

lemma alloc_nodes:
  assumes "inv s L" "\<forall>(x, y, l)\<in>set ps. usable s x y" "distinct ps"
  defines "H \<equiv> {(x, y, l). (x, y, l) \<in> set ps \<and> sqt_node_here x y l}"
  shows "(\<exists>e. sqt_alloc malloc ps node s = Some (Inl e)) \<or>
    (\<exists>node' s'. sqt_alloc malloc ps node s = Some (Inr (node', s')) \<and> inj_on (node_at node') H \<and>
       (\<forall>t\<in>H. node_at node' t \<noteq> 0 \<and> node_at node' t \<notin> L) \<and> (\<forall>t. t \<notin> H \<longrightarrow> node_at node' t = node_at node t) \<and>
       inv s' (L \<union> node_at node' ` H))"
  unfolding H_def using assms(1-3)
proof (induction ps arbitrary: s L node)
  case Nil
  then show ?case by simp
next
  case (Cons t ps)
  obtain x y l where t: "t = (x, y, l)" by (cases t)
  let ?H = "{(x, y, l). (x, y, l) \<in> set ps \<and> sqt_node_here x y l}"
  show ?case
  proof (cases "sqt_node_here x y l")
    case False
    have "{(x, y, l). (x, y, l) \<in> set (t # ps) \<and> sqt_node_here x y l} = ?H" using False t by auto
    then show ?thesis using Cons.IH [OF Cons.prems(1), of node] Cons.prems(2,3) False t by simp
  next
    case True
    have H: "{(x, y, l). (x, y, l) \<in> set (t # ps) \<and> sqt_node_here x y l} = insert t ?H" using True t by auto
    have new: "t \<notin> ?H" using Cons.prems(3) t by simp
    have "usable s x y" using Cons.prems(2) t by simp
    from malloc_cases [OF Cons.prems(1) this] show ?thesis
    proof (elim disjE exE conjE)
      fix e s' assume "malloc x y s = Some (Inl (e, s'))"
      then show ?thesis using t True by simp
    next
      fix p s' assume p: "malloc x y s = Some (Inr (p, s'))" "p \<noteq> 0" "p \<notin> L" "inv s' (insert p L)" "usable s' = usable s"
      have "\<forall>(x, y, l)\<in>set ps. usable s' x y" "distinct ps" using Cons.prems(2,3) p(5) by simp_all
      from Cons.IH [OF p(4) this, of "upd3 node x y l p"] show ?thesis
      proof (elim disjE exE conjE)
        fix e assume "sqt_alloc malloc ps (upd3 node x y l p) s' = Some (Inl e)"
        then show ?thesis using t True p(1) by simp
      next
        fix node' s'' assume run: "sqt_alloc malloc ps (upd3 node x y l p) s' = Some (Inr (node', s''))"
          and inj: "inj_on (node_at node') ?H" and fresh: "\<forall>t\<in>?H. node_at node' t \<noteq> 0 \<and> node_at node' t \<notin> insert p L"
          and same: "\<forall>t. t \<notin> ?H \<longrightarrow> node_at node' t = node_at (upd3 node x y l p) t"
          and inv': "inv s'' (insert p L \<union> node_at node' ` ?H)"
        have tp: "node_at node' t = p" using same new by (simp add: t)
        have "p \<notin> node_at node' ` ?H" using fresh by blast
        then have "inj_on (node_at node') (insert t ?H)" unfolding inj_on_insert tp using inj by blast
        moreover have "inv s'' (L \<union> node_at node' ` insert t ?H)" using inv' tp by (simp add: Un_commute)
        moreover have "\<forall>u. u \<notin> insert t ?H \<longrightarrow> node_at node' u = node_at node u"
          using same by (auto simp: t)
        ultimately show ?thesis unfolding H using run t True p(1-3) fresh tp by auto
      qed
    qed
  qed
qed

lemma init_tree:
  assumes "inv s live" "\<forall>x<xmax. \<forall>y<ymax. usable s x y" "0 < xmax" "0 < ymax"
    "xmax \<le> 2 ^ (levels - 1)" "ymax \<le> 2 ^ (levels - 1)" "1 \<le> levels" "levels \<le> 5"
  shows "(\<exists>e. sqt_init (sqt_build mk) malloc xmax ymax levels node s st = Some (Inl e)) \<or>
    (\<exists>node' st' s'. sqt_init (sqt_build mk) malloc xmax ymax levels node s st = Some (Inr (node', st', s')) \<and>
       sqt_tree mk xmax ymax (levels - 1) node' st' \<and>
       node_at node' ` subtree xmax ymax 0 0 (levels - 1) \<inter> live = {} \<and>
       inv s' (live \<union> node_at node' ` subtree xmax ymax 0 0 (levels - 1)))"
proof -
  let ?ps = "sqt_order xmax ymax levels" and ?T = "subtree xmax ymax 0 0 (levels - 1)"
  have H: "{(x, y, l). (x, y, l) \<in> set ?ps \<and> sqt_node_here x y l} = ?T"
    using assms(5-8) by (auto simp: set_sqt_order subtree_def sqt_node_here_iff)
  have "\<forall>(x, y, l)\<in>set ?ps. usable s x y" using assms(2) by (auto simp: set_sqt_order)
  from alloc_nodes [OF assms(1) this distinct_sqt_order, of node] show ?thesis
    unfolding H
  proof (elim disjE exE conjE)
    fix e assume "sqt_alloc malloc ?ps node s = Some (Inl e)"
    then show ?thesis by (simp add: sqt_init_def)
  next
    fix node' s' assume run: "sqt_alloc malloc ?ps node s = Some (Inr (node', s'))"
      and inj: "inj_on (node_at node') ?T" and fresh: "\<forall>t\<in>?T. node_at node' t \<noteq> 0 \<and> node_at node' t \<notin> live"
      and i: "inv s' (live \<union> node_at node' ` ?T)"
    let ?st = "sqt_build mk node' xmax ymax 0 0 (levels - 1) 0 st"
    have "\<forall>t\<in>?T. ?st (node_at node' t) = built_node mk node' xmax ymax (levels - 1) 0 t"
      by (intro ballI build_hit [OF _ _ assms(3,4) inj]) simp_all
    then have "sqt_tree mk xmax ymax (levels - 1) node' ?st"
      using inj fresh by (simp add: sqt_tree_def)
    moreover have "node_at node' ` ?T \<inter> live = {}" using fresh by blast
    ultimately show ?thesis using run i by (simp add: sqt_init_def)
  qed
qed

end

end
