(* ===== verification/Sqt_Kernel.thy ===== *)
theory Sqt_Kernel
  imports Sqt Kernel_Malloc_Properties
begin

text \<open>
  The quad trees of the kernel: the nodes are blocks of the kernel heap, an interpretation of
  \<open>node_allocator\<close>, and the two initialisations build a tree in which every leaf leads to the root
  (\<open>_sqt_lock_init\<close>) and every node counts its children (\<open>_sqt_barrier_init\<close>).
\<close>

section \<open>The kernel heap allocates the nodes\<close>

definition live_blocks :: "nat \<Rightarrow> nat \<Rightarrow> kheap_state \<Rightarrow> (nat \<Rightarrow> nat \<Rightarrow> allocation) \<Rightarrow> u32 set" where
  "live_blocks X Y s A = {p. \<exists>x y k. has_heap X Y s x y \<and> A x y (unat p) = Some k}"

definition kernel_node_inv :: "nat \<Rightarrow> nat \<Rightarrow> kheap_state \<Rightarrow> u32 set \<Rightarrow> bool" where
  "kernel_node_inv X Y s L \<longleftrightarrow> (\<exists>F A. kheap_inv X Y s F A \<and> L = live_blocks X Y s A)"

definition kernel_node_malloc :: "nat \<Rightarrow> nat \<Rightarrow> kheap_state node_alloc" where
  "kernel_node_malloc X_SIZE Y_SIZE x y s = remote_malloc X_SIZE Y_SIZE 64 x y s"

lemma block_in_segment:
  assumes "kheap_inv X Y s F A" "has_heap X Y s x y" "A x y a = Some k"
  shows "a \<in> heap_segment (kernel_heap s x y)" "0 < a"
proof -
  let ?h = "kernel_heap s x y"
  have ok: "heap_geom 6 (get_size_index (alloc_size ?h)) ?h"
    "buddy_inv 6 (heap_lo ?h) (heap_hi ?h) (unat (alloc_base ?h), get_size_index (alloc_size ?h)) (F x y) (A x y)"
    using kheap_invD(1) [OF assms(1,2)] by (simp_all add: heap_ok_def)
  have "heap_lo ?h \<le> a" "a + 2 ^ k \<le> heap_hi ?h" using buddy_invD(3) [OF ok(2) assms(3)] by auto
  moreover have "a < a + 2 ^ k" by simp
  ultimately have "heap_lo ?h \<le> a" "a < heap_hi ?h" by (simp, metis less_le_trans)
  then show "a \<in> heap_segment ?h" "0 < a"
    using ok(1) by (simp_all add: heap_segment_def heap_geom_def)
qed

lemma has_heap_layout: "same_layout s s' \<Longrightarrow> has_heap X Y s' = has_heap X Y s"
  by (simp add: fun_eq_iff has_heap_def same_layout_def)

lemma kernel_malloc_node:
  assumes "kernel_node_inv X Y s L" "has_heap X Y s x y"
  shows "(\<exists>e s'. kernel_node_malloc X Y x y s = Some (Inl (e, s'))) \<or>
    (\<exists>p s'. kernel_node_malloc X Y x y s = Some (Inr (p, s')) \<and> p \<noteq> 0 \<and> p \<notin> L \<and>
       kernel_node_inv X Y s' (insert p L) \<and> has_heap X Y s' = has_heap X Y s)"
proof -
  obtain F A where inv: "kheap_inv X Y s F A" and L: "L = live_blocks X Y s A"
    using assms(1) unfolding kernel_node_inv_def by blast
  have size: "unat (64 :: u32) \<le> 2 ^ 31" by simp
  note ref = remote_malloc_refines [OF inv assms(2) size]
  show ?thesis
  proof (cases "remote_malloc X Y 64 x y s")
    case None
    then show ?thesis using ref by (auto split: option.splits)
  next
    case (Some r)
    show ?thesis
    proof (cases r)
      case (Inl e)
      then show ?thesis using Some by (cases e) (simp add: kernel_node_malloc_def)
    next
      case (Inr ps)
      obtain p s' where ps: "ps = (p, s')" by (cases ps)
      have run: "remote_malloc X Y 64 x y s = Some (Inr (p, s'))" using Some Inr ps by simp
      obtain fl k where m: "amalloc (unat (heap_size (kernel_heap s x y))) (F x y) (A x y) k
            = Some (unat p, fl, (A x y)(unat p \<mapsto> k))"
          "kheap_inv X Y s' (upd2 F x y fl) (upd2 A x y ((A x y)(unat p \<mapsto> k)))" "6 \<le> k"
        using malloc_success [OF inv assms(2) run] by blast
      have lay: "same_layout s s'"
        using ref run by (auto split: option.splits)
      note has = has_heap_layout [OF lay, of X Y]
      have free: "A x y (unat p) = None"
        using buddy_inv_amalloc(2) [OF _ m(3,1)] kheap_invD(1) [OF inv assms(2)] by (auto simp: heap_ok_def)
      have new: "upd2 A x y ((A x y)(unat p \<mapsto> k)) x y (unat p) = Some k" by simp
      have "has_heap X Y s' x y" using assms(2) has by simp
      note seg = block_in_segment [OF m(2) this new]
      have seg': "unat p \<in> heap_segment (kernel_heap s x y)" using seg(1) lay
        by (simp add: same_layout_def heap_segment_def)
      have "p \<notin> live_blocks X Y s A"
      proof
        assume "p \<in> live_blocks X Y s A"
        then obtain x' y' j where o: "has_heap X Y s x' y'" "A x' y' (unat p) = Some j"
          by (auto simp: live_blocks_def)
        then have "(x', y') \<noteq> (x, y)" using free by auto
        moreover have "unat p \<in> heap_segment (kernel_heap s x' y')" by (rule block_in_segment [OF inv o])
        ultimately show False using inv o(1) assms(2) seg' unfolding kheap_inv_def by blast
      qed
      moreover have "live_blocks X Y s' (upd2 A x y ((A x y)(unat p \<mapsto> k))) = insert p (live_blocks X Y s A)"
      proof (rule set_eqI)
        fix q
        have upd: "upd2 A x y ((A x y)(unat p \<mapsto> k)) x' y' (unat q)
            = (if x' = x \<and> y' = y \<and> q = p then Some k else A x' y' (unat q))" for x' y'
          by (simp add: word_unat_eq_iff)
        show "q \<in> live_blocks X Y s' (upd2 A x y ((A x y)(unat p \<mapsto> k))) \<longleftrightarrow> q \<in> insert p (live_blocks X Y s A)"
          unfolding live_blocks_def mem_Collect_eq insert_iff upd has
          using assms(2) by (cases "q = p") auto
      qed
      ultimately have "p \<notin> L" "kernel_node_inv X Y s' (insert p L)"
        using m(2) L unfolding kernel_node_inv_def by (blast, metis)
      moreover have "p \<noteq> 0" using seg(2) by auto
      ultimately show ?thesis using run has unfolding kernel_node_malloc_def by blast
    qed
  qed
qed

interpretation kernel_nodes: node_allocator "kernel_node_malloc X Y" "kernel_node_inv X Y" "has_heap X Y" for X Y
  by unfold_locales (rule kernel_malloc_node)

lemma lock_tree_paths:
  assumes fp: "get_sqt_footprint X Y mp = Some (xmax, ymax, levels)" "0 < X" "X \<le> 16" "0 < Y" "Y \<le> 16"
    and t: "sqt_tree lock_node xmax ymax (levels - 1) node' st'"
  shows "(\<forall>x<X. \<forall>y<Y. procs (clusters mp ! (x * Y + y)) \<noteq> 0 \<longrightarrow>
           (\<forall>l<levels. climb lk_parent st' l (node' x y 0) = node' (align x l) (align y l) l \<and>
              lock_idle (spin_lock.truncate (st' (node' (align x l) (align y l) l)))) \<and>
           climb lk_parent st' (levels - 1) (node' x y 0) = node' 0 0 (levels - 1)) \<and>
        lk_parent (st' (node' 0 0 (levels - 1))) = 0 \<and> node' 0 0 (levels - 1) \<noteq> 0 \<and>
        inj_on (node_at node') (subtree xmax ymax 0 0 (levels - 1))"
proof (intro conjI allI impI)
  let ?L = "levels - 1"
  note cov = get_sqt_footprint_covers [OF fp]
  have par: "lk_parent (lock_node l p a c) = p" for l p a c by (simp add: lock_node_def)
  fix x y l assume xy: "x < X" "y < Y" "procs (clusters mp ! (x * Y + y)) \<noteq> 0"
  note c = cov(9) [OF xy]
  have b: "x < xmax" "y < ymax" "x < 2 ^ ?L" "y < 2 ^ ?L" using c cov(7,8) by auto
  note cl = climb_tree [OF t par b]
  show "climb lk_parent st' ?L (node' x y 0) = node' 0 0 ?L"
    using cl [of ?L] align_root b(3,4) by simp
  assume l: "l < levels"
  then show "climb lk_parent st' l (node' x y 0) = node' (align x l) (align y l) l" by (intro cl) simp
  have "(align x l, align y l, l) \<in> subtree xmax ymax 0 0 ?L" by (rule aligned_place [OF b]) (use l in simp)
  then have "st' (node' (align x l) (align y l) l) = built_node lock_node node' xmax ymax ?L 0 (align x l, align y l, l)"
    using t unfolding sqt_tree_def by fastforce
  then show "lock_idle (spin_lock.truncate (st' (node' (align x l) (align y l) l)))"
    by (simp add: lock_idle_def built_node_def lock_node_def spin_lock.truncate_def)
next
  let ?L = "levels - 1"
  note cov = get_sqt_footprint_covers [OF fp]
  have root: "(0, 0, ?L) \<in> subtree xmax ymax 0 0 ?L" using cov(3,5) by (simp add: subtree_def)
  show "lk_parent (st' (node' 0 0 ?L)) = 0"
    by (rule root_parent [OF t _ cov(3,5)]) (simp add: lock_node_def)
  show "node' 0 0 ?L \<noteq> 0" using t root unfolding sqt_tree_def by fastforce
  show "inj_on (node_at node') (subtree xmax ymax 0 0 ?L)" using t by (simp add: sqt_tree_def)
qed
text \<open>\<open>_sqt_lock_init\<close> on a machine of at most 16 by 16 clusters whose clusters have a kernel heap: unless
  the heap is exhausted, it builds a tree of distinct fresh nodes, all free, in which the parent pointers lead
  from the leaf of every cluster with processors, level by level, through the node of its quadrant, to the one
  root, whose parent is NULL.\<close>

theorem sqt_lock_init_tree:
  assumes "kheap_inv X Y s F A" "\<forall>x<X. \<forall>y<Y. has_heap X Y s x y" "0 < X" "X \<le> 16" "0 < Y" "Y \<le> 16"
    and "X * Y \<le> length (clusters mp)"
  shows "\<exists>xmax ymax levels. get_sqt_footprint X Y mp = Some (xmax, ymax, levels) \<and>
    ((\<exists>e. sqt_lock_init (kernel_node_malloc X Y) X Y mp node s st = Some (Inl e)) \<or>
     (\<exists>node' st' s'. sqt_lock_init (kernel_node_malloc X Y) X Y mp node s st = Some (Inr (node', st', s')) \<and>
        (\<forall>x<X. \<forall>y<Y. procs (clusters mp ! (x * Y + y)) \<noteq> 0 \<longrightarrow>
           (\<forall>l<levels. climb lk_parent st' l (node' x y 0) = node' (align x l) (align y l) l \<and>
              lock_idle (spin_lock.truncate (st' (node' (align x l) (align y l) l)))) \<and>
           climb lk_parent st' (levels - 1) (node' x y 0) = node' 0 0 (levels - 1)) \<and>
        lk_parent (st' (node' 0 0 (levels - 1))) = 0 \<and> node' 0 0 (levels - 1) \<noteq> 0 \<and>
        inj_on (node_at node') (subtree xmax ymax 0 0 (levels - 1)) \<and>
        node_at node' ` subtree xmax ymax 0 0 (levels - 1) \<inter> live_blocks X Y s A = {}))"
proof -
  obtain xmax ymax levels where fp: "get_sqt_footprint X Y mp = Some (xmax, ymax, levels)"
    using assms(7) by (cases "get_sqt_footprint X Y mp") (auto simp: get_sqt_footprint_def Let_def split: prod.splits)
  note cov = get_sqt_footprint_covers [OF fp assms(3-6)]
  let ?L = "levels - 1"
  have inv: "kernel_node_inv X Y s (live_blocks X Y s A)" using assms(1) unfolding kernel_node_inv_def by blast
  have us: "\<forall>x<xmax. \<forall>y<ymax. has_heap X Y s x y" using assms(2) cov(4,6) by auto
  have run: "sqt_lock_init (kernel_node_malloc X Y) X Y mp node s st
      = sqt_init (sqt_build lock_node) (kernel_node_malloc X Y) xmax ymax levels node s st"
    by (simp add: sqt_lock_init_def sqt_lock_build_def fp)
  note tree = lock_tree_paths [OF fp assms(3-6)]
  from kernel_nodes.init_tree [OF inv us cov(3,5,7,8,1,2), of lock_node node st]
  show ?thesis
  proof (elim disjE exE conjE)
    fix e assume "sqt_init (sqt_build lock_node) (kernel_node_malloc X Y) xmax ymax levels node s st = Some (Inl e)"
    then show ?thesis using fp run by auto
  next
    fix node' st' s' assume r: "sqt_init (sqt_build lock_node) (kernel_node_malloc X Y) xmax ymax levels node s st = Some (Inr (node', st', s'))"
      and t: "sqt_tree lock_node xmax ymax ?L node' st'" and d: "node_at node' ` subtree xmax ymax 0 0 ?L \<inter> live_blocks X Y s A = {}"
    show ?thesis
      by (rule exI [of _ xmax], rule exI [of _ ymax], rule exI [of _ levels], rule conjI [OF fp], rule disjI2,
          rule exI [of _ node'], rule exI [of _ st'], rule exI [of _ s'])
        (use tree [OF t] d r run in \<open>simp only:; blast\<close>)
  qed
qed

lemma barrier_tree_counts:
  assumes t: "sqt_tree (barrier_node n) xmax ymax L node st" and xl: "xmax \<le> 2 ^ L" "ymax \<le> 2 ^ L"
    and v: "(x, y, l) \<in> subtree xmax ymax 0 0 L"
  shows "sb_sense (st (node x y l)) = 0 \<and> sb_count (st (node x y l)) = sb_arity (st (node x y l)) \<and>
    (if l = 0 then sb_arity (st (node x y l)) = n
     else unat (sb_arity (st (node x y l))) =
       card {u \<in> subtree xmax ymax 0 0 L. sb_parent (st (node_at node u)) = node x y l})"
proof -
  have b: "st (node_at node u) = built_node (barrier_node n) node xmax ymax L 0 u" "node_at node u \<noteq> 0"
    if "u \<in> subtree xmax ymax 0 0 L" for u using t that unfolding sqt_tree_def by blast+
  have this_node: "st (node x y l) = barrier_node n l (if l = L then 0 else node (align x (Suc l)) (align y (Suc l)) (Suc l))
      (child_count xmax ymax x y l) (child_ptrs node xmax ymax x y l)"
    using b(1) [OF v] by (simp add: built_node_def)
  show ?thesis
  proof (cases l)
    case 0
    then show ?thesis using this_node by (simp add: barrier_node_def)
  next
    case (Suc k)
    have k: "k < L" "2 ^ Suc k dvd x" "2 ^ Suc k dvd y" "x < 2 ^ L" "y < 2 ^ L"
      using v Suc by (auto simp: subtree_def)
    have "sb_parent (st (node_at node u)) = node x y l \<longleftrightarrow>
        snd (snd u) = k \<and> align (fst u) (Suc k) = x \<and> align (fst (snd u)) (Suc k) = y"
      if u: "u \<in> subtree xmax ymax 0 0 L" for u
    proof -
      obtain x' y' l' where ul: "u = (x', y', l')" by (cases u)
      have lL: "l' \<le> L" using u by (simp add: ul subtree_def)
      show ?thesis
      proof (cases "l' = L")
        case True
        then show ?thesis using b(1) [OF u] b(2) [OF v] k(1) by (simp add: ul built_node_def barrier_node_def Let_def)
      next
        case False
        then have p: "(align x' (Suc l'), align y' (Suc l'), Suc l') \<in> subtree xmax ymax 0 0 L"
          using u lL aligned_place [of x' xmax y' ymax L "Suc l'"] by (auto simp: ul subtree_def)
        have "sb_parent (st (node_at node u)) = node_at node (align x' (Suc l'), align y' (Suc l'), Suc l')"
          using b(1) [OF u] False by (simp add: ul built_node_def barrier_node_def Let_def)
        moreover have "node_at node (align x' (Suc l'), align y' (Suc l'), Suc l') = node_at node (x, y, l) \<longleftrightarrow>
            (align x' (Suc l'), align y' (Suc l'), Suc l') = (x, y, l)"
          by (rule inj_on_eq_iff [OF _ p v]) (use t in \<open>simp add: sqt_tree_def\<close>)
        ultimately show ?thesis using Suc by (auto simp: ul)
      qed
    qed
    then have "{u \<in> subtree xmax ymax 0 0 L. sb_parent (st (node_at node u)) = node x y l} =
        (\<lambda>(a, b). (a, b, k)) ` {(a, b). (a, b, k) \<in> subtree xmax ymax 0 0 L \<and> align a (Suc k) = x \<and> align b (Suc k) = y}"
      by force
    then have "card {u \<in> subtree xmax ymax 0 0 L. sb_parent (st (node_at node u)) = node x y l} = child_count xmax ymax x y l"
      using child_count_card [OF k(2,3,1,4,5), of xmax ymax] Suc by (simp add: card_image inj_on_def)
    moreover have "child_count xmax ymax x y l \<le> 4"
      using length_filter_le [of "\<lambda>(cx, cy). cx < xmax \<and> cy < ymax" "sqt_children x y k"]
      by (simp add: child_count_def Suc sqt_children_def)
    ultimately show ?thesis using Suc this_node by (simp add: barrier_node_def Let_def unat_of_nat_small)
  qed
qed

text \<open>\<open>_sqt_barrier_init\<close> under the same conditions: every node starts with its sense reset and waits for
  as many arrivals as it has children: \<open>NB_PROCS_MAX\<close> processors for a leaf, the nodes whose parent pointer
  designates it for an inner node.\<close>

theorem sqt_barrier_init_counts:
  assumes "kheap_inv X Y s F A" "\<forall>x<X. \<forall>y<Y. has_heap X Y s x y" "0 < X" "X \<le> 16" "0 < Y" "Y \<le> 16"
    and "X * Y \<le> length (clusters mp)"
  shows "\<exists>xmax ymax levels. get_sqt_footprint X Y mp = Some (xmax, ymax, levels) \<and>
    ((\<exists>e. sqt_barrier_init nb (kernel_node_malloc X Y) X Y mp node s st = Some (Inl e)) \<or>
     (\<exists>node' st' s'. sqt_barrier_init nb (kernel_node_malloc X Y) X Y mp node s st = Some (Inr (node', st', s')) \<and>
        (\<forall>(x, y, l)\<in>subtree xmax ymax 0 0 (levels - 1).
           sb_sense (st' (node' x y l)) = 0 \<and> sb_count (st' (node' x y l)) = sb_arity (st' (node' x y l)) \<and>
           (if l = 0 then sb_arity (st' (node' x y l)) = nb
            else unat (sb_arity (st' (node' x y l))) =
              card {u \<in> subtree xmax ymax 0 0 (levels - 1). sb_parent (st' (node_at node' u)) = node' x y l}))))"
proof -
  obtain xmax ymax levels where fp: "get_sqt_footprint X Y mp = Some (xmax, ymax, levels)"
    using assms(7) by (cases "get_sqt_footprint X Y mp") (auto simp: get_sqt_footprint_def Let_def split: prod.splits)
  note cov = get_sqt_footprint_covers [OF fp assms(3-6)]
  have inv: "kernel_node_inv X Y s (live_blocks X Y s A)" using assms(1) unfolding kernel_node_inv_def by blast
  have us: "\<forall>x<xmax. \<forall>y<ymax. has_heap X Y s x y" using assms(2) cov(4,6) by auto
  have run: "sqt_barrier_init nb (kernel_node_malloc X Y) X Y mp node s st
      = sqt_init (sqt_build (barrier_node nb)) (kernel_node_malloc X Y) xmax ymax levels node s st"
    by (simp add: sqt_barrier_init_def sqt_barrier_build_def fp)
  from kernel_nodes.init_tree [OF inv us cov(3,5,7,8,1,2), of "barrier_node nb" node st]
  show ?thesis
  proof (elim disjE exE conjE)
    fix e assume "sqt_init (sqt_build (barrier_node nb)) (kernel_node_malloc X Y) xmax ymax levels node s st = Some (Inl e)"
    then show ?thesis using fp run by auto
  next
    fix node' st' s' assume "sqt_init (sqt_build (barrier_node nb)) (kernel_node_malloc X Y) xmax ymax levels node s st = Some (Inr (node', st', s'))"
      and t: "sqt_tree (barrier_node nb) xmax ymax (levels - 1) node' st'"
    then have "sqt_barrier_init nb (kernel_node_malloc X Y) X Y mp node s st = Some (Inr (node', st', s'))" by (simp add: run)
    moreover have "\<forall>(x, y, l)\<in>subtree xmax ymax 0 0 (levels - 1).
           sb_sense (st' (node' x y l)) = 0 \<and> sb_count (st' (node' x y l)) = sb_arity (st' (node' x y l)) \<and>
           (if l = 0 then sb_arity (st' (node' x y l)) = nb
            else unat (sb_arity (st' (node' x y l))) =
              card {u \<in> subtree xmax ymax 0 0 (levels - 1). sb_parent (st' (node_at node' u)) = node' x y l})"
      unfolding case_prod_beta by (intro ballI, rule barrier_tree_counts [OF t cov(7,8)]) simp
    ultimately show ?thesis using fp by blast
  qed
qed

text \<open>The one-cluster machine of the heap witnesses: a tree of one node at \<open>0x380\<close>.\<close>

lemma demo_footprint: "get_sqt_footprint (Suc 0) (Suc 0) demo_heap_mapping = Some (Suc 0, Suc 0, Suc 0)"
  by (simp add: get_sqt_footprint_def demo_heap_mapping_def footprint_scan_def footprint_levels_def)

lemma demo_node:
  obtains s s' where "kheap_inv (Suc 0) (Suc 0) s demo_lists (\<lambda>_ _. Map.empty)"
    "\<forall>x<Suc 0. \<forall>y<Suc 0. has_heap (Suc 0) (Suc 0) s x y"
    "\<And>mk node st. sqt_init (sqt_build mk) (kernel_node_malloc (Suc 0) (Suc 0)) (Suc 0) (Suc 0) (Suc 0) node s st
       = Some (Inr (upd3 node 0 0 0 0x380, st(0x380 := mk 0 0 0 [0, 0, 0, 0]), s'))"
proof -
  obtain s where s: "kheap_inv (Suc 0) (Suc 0) s demo_lists (\<lambda>_ _. Map.empty)"
    "has_heap (Suc 0) (Suc 0) s 0 0" "heap_size (kernel_heap s 0 0) = 0x200"
    using demo_state by blast
  have k: "request_index 64 = 6"
  proof -
    have "get_size_index 64 = 6" by (rule get_size_index_exact) simp_all
    then show ?thesis by (simp add: request_index_def MIN_BLOCK_SIZE_def)
  qed
  have m: "amalloc 0x200 (demo_lists 0 0) Map.empty 6 = Some (0x380, (demo_lists 0 0)(6 := []), [0x380 \<mapsto> 6])"
    by (subst amalloc_def, subst aget.simps) (simp add: demo_lists_apply)
  obtain s' where r: "remote_malloc (Suc 0) (Suc 0) 64 0 0 s = Some (Inr (0x380, s'))"
    using remote_malloc_refines [OF s(1,2), of 64] s(3) by (auto simp: k m)
  have "sqt_init (sqt_build mk) (kernel_node_malloc (Suc 0) (Suc 0)) (Suc 0) (Suc 0) (Suc 0) node s st
       = Some (Inr (upd3 node 0 0 0 0x380, st(0x380 := mk 0 0 0 [0, 0, 0, 0]), s'))" for mk :: "nat \<Rightarrow> u32 \<Rightarrow> nat \<Rightarrow> u32 list \<Rightarrow> 'n" and node st
    by (simp add: sqt_init_def sqt_order_def sqt_node_here_def kernel_node_malloc_def r)
  then show ?thesis using that s(1,2) by blast
qed

theorem sqt_lock_init_tree_witness:
  "\<forall>node st. \<exists>s node' st' s'. sqt_lock_init (kernel_node_malloc (Suc 0) (Suc 0)) (Suc 0) (Suc 0) demo_heap_mapping node s st
     = Some (Inr (node', st', s')) \<and> node' 0 0 0 \<noteq> 0 \<and> lk_parent (st' (node' 0 0 0)) = 0"
proof (intro allI)
  fix node :: sqt_array and st
  obtain s s' where s: "kheap_inv (Suc 0) (Suc 0) s demo_lists (\<lambda>_ _. Map.empty)"
      "\<forall>x<Suc 0. \<forall>y<Suc 0. has_heap (Suc 0) (Suc 0) s x y"
      "sqt_init (sqt_build lock_node) (kernel_node_malloc (Suc 0) (Suc 0)) (Suc 0) (Suc 0) (Suc 0) node s st
       = Some (Inr (upd3 node 0 0 0 0x380, st(0x380 := lock_node 0 0 0 [0, 0, 0, 0]), s'))"
    using demo_node by metis
  have run: "sqt_lock_init (kernel_node_malloc (Suc 0) (Suc 0)) (Suc 0) (Suc 0) demo_heap_mapping node s st
      = Some (Inr (upd3 node 0 0 0 0x380, st(0x380 := lock_node 0 0 0 [0, 0, 0, 0]), s'))"
    by (simp add: sqt_lock_init_def sqt_lock_build_def demo_footprint s(3))
  have "Suc 0 * Suc 0 \<le> length (clusters demo_heap_mapping)" by (simp add: demo_heap_mapping_def)
  from sqt_lock_init_tree [OF s(1,2) _ _ _ _ this, of node st] show "\<exists>s node' st' s'.
      sqt_lock_init (kernel_node_malloc (Suc 0) (Suc 0)) (Suc 0) (Suc 0) demo_heap_mapping node s st
     = Some (Inr (node', st', s')) \<and> node' 0 0 0 \<noteq> 0 \<and> lk_parent (st' (node' 0 0 0)) = 0"
    using run by (intro exI [of _ s]) (auto simp: demo_footprint)
qed

theorem sqt_barrier_init_counts_witness:
  "\<forall>node st. \<exists>s node' st' s'. sqt_barrier_init 4 (kernel_node_malloc (Suc 0) (Suc 0)) (Suc 0) (Suc 0) demo_heap_mapping node s st
     = Some (Inr (node', st', s')) \<and> sb_count (st' (node' 0 0 0)) = 4"
proof (intro allI)
  fix node :: sqt_array and st
  obtain s s' where s: "kheap_inv (Suc 0) (Suc 0) s demo_lists (\<lambda>_ _. Map.empty)"
      "\<forall>x<Suc 0. \<forall>y<Suc 0. has_heap (Suc 0) (Suc 0) s x y"
      "sqt_init (sqt_build (barrier_node 4)) (kernel_node_malloc (Suc 0) (Suc 0)) (Suc 0) (Suc 0) (Suc 0) node s st
       = Some (Inr (upd3 node 0 0 0 0x380, st(0x380 := barrier_node 4 0 0 0 [0, 0, 0, 0]), s'))"
    using demo_node by metis
  have run: "sqt_barrier_init 4 (kernel_node_malloc (Suc 0) (Suc 0)) (Suc 0) (Suc 0) demo_heap_mapping node s st
      = Some (Inr (upd3 node 0 0 0 0x380, st(0x380 := barrier_node 4 0 0 0 [0, 0, 0, 0]), s'))"
    by (simp add: sqt_barrier_init_def sqt_barrier_build_def demo_footprint s(3))
  have "Suc 0 * Suc 0 \<le> length (clusters demo_heap_mapping)" by (simp add: demo_heap_mapping_def)
  moreover have "(0, 0, 0) \<in> subtree (Suc 0) (Suc 0) 0 0 0" by (simp add: subtree_def)
  ultimately show "\<exists>s node' st' s'.
      sqt_barrier_init 4 (kernel_node_malloc (Suc 0) (Suc 0)) (Suc 0) (Suc 0) demo_heap_mapping node s st
     = Some (Inr (node', st', s')) \<and> sb_count (st' (node' 0 0 0)) = 4"
    using sqt_barrier_init_counts [OF s(1,2), of demo_heap_mapping 4 node st] run by (fastforce simp: demo_footprint)
qed

end
