(* ===== verification/Sqt_Lock.thy ===== *)
theory Sqt_Lock
  imports Sqt
begin

text \<open>
  The distributed lock (\<open>_sqt_lock_take\<close>, \<open>_sqt_lock_give\<close> in \<open>kernel_locks.c\<close>, \<open>sqt_lock_take\<close>,
  \<open>sqt_lock_give\<close> in \<open>user_sqt_lock.c\<close>): a processor takes the queuing locks of the nodes on its path
  from leaf to root and gives them back in the same order. A step is one access of one processor to
  a node; the program counter holds the depth of the recursion, and the node at that depth is found
  by following the parent pointers. Seen at one node the system is the queuing lock of
  \<open>Spin_Lock\<close>: the simulation gives every node mutual exclusion and first-come first-served order,
  and the lock its own.
\<close>

section \<open>Executions\<close>

datatype sqt_pc = S_out | S_take nat | S_poll nat u32 | S_in | S_give nat | S_store nat u32

record sqt_sys =
  nodes :: "u32 \<Rightarrow> sqt_lock_node"
  sqpc :: "nat \<Rightarrow> sqt_pc"

text \<open>\<open>leaf i\<close> is the value of \<open>lock->node[x][y][0]\<close> for the cluster of processor \<open>i\<close>.\<close>

definition sqt_at :: "(nat \<Rightarrow> u32) \<Rightarrow> sqt_sys \<Rightarrow> nat \<Rightarrow> nat \<Rightarrow> u32" where
  "sqt_at leaf s i l = climb lk_parent (nodes s) l (leaf i)"

inductive sqt_step :: "(nat \<Rightarrow> u32) \<Rightarrow> nat \<Rightarrow> sqt_sys \<Rightarrow> sqt_sys \<Rightarrow> bool" for leaf n where
  acquire: "i < n \<Longrightarrow> sqpc s i = S_out \<Longrightarrow> sqt_step leaf n s (s\<lparr>sqpc := (sqpc s)(i := S_take 0)\<rparr>)"
| take_ticket: "i < n \<Longrightarrow> sqpc s i = S_take l \<Longrightarrow> p = sqt_at leaf s i l \<Longrightarrow>
    atomic_increment (free_ticket (nodes s p)) 1 = (ticket, free') \<Longrightarrow>
    sqt_step leaf n s (s\<lparr>nodes := (nodes s)(p := (nodes s p)\<lparr>free_ticket := free'\<rparr>),
      sqpc := (sqpc s)(i := S_poll l ticket)\<rparr>)"
| poll_again: "i < n \<Longrightarrow> sqpc s i = S_poll l ticket \<Longrightarrow> current (nodes s (sqt_at leaf s i l)) \<noteq> ticket \<Longrightarrow>
    sqt_step leaf n s s"
| take_parent: "i < n \<Longrightarrow> sqpc s i = S_poll l ticket \<Longrightarrow> p = sqt_at leaf s i l \<Longrightarrow>
    current (nodes s p) = ticket \<Longrightarrow> lk_parent (nodes s p) \<noteq> 0 \<Longrightarrow>
    sqt_step leaf n s (s\<lparr>sqpc := (sqpc s)(i := S_take (Suc l))\<rparr>)"
| taken: "i < n \<Longrightarrow> sqpc s i = S_poll l ticket \<Longrightarrow> p = sqt_at leaf s i l \<Longrightarrow>
    current (nodes s p) = ticket \<Longrightarrow> lk_parent (nodes s p) = 0 \<Longrightarrow>
    sqt_step leaf n s (s\<lparr>sqpc := (sqpc s)(i := S_in)\<rparr>)"
| release: "i < n \<Longrightarrow> sqpc s i = S_in \<Longrightarrow> sqt_step leaf n s (s\<lparr>sqpc := (sqpc s)(i := S_give 0)\<rparr>)"
| give_load: "i < n \<Longrightarrow> sqpc s i = S_give l \<Longrightarrow> p = sqt_at leaf s i l \<Longrightarrow>
    sqt_step leaf n s (s\<lparr>sqpc := (sqpc s)(i := S_store l (current (nodes s p)))\<rparr>)"
| give_parent: "i < n \<Longrightarrow> sqpc s i = S_store l v \<Longrightarrow> p = sqt_at leaf s i l \<Longrightarrow> lk_parent (nodes s p) \<noteq> 0 \<Longrightarrow>
    sqt_step leaf n s (s\<lparr>nodes := (nodes s)(p := (nodes s p)\<lparr>current := v + 1\<rparr>),
      sqpc := (sqpc s)(i := S_give (Suc l))\<rparr>)"
| given: "i < n \<Longrightarrow> sqpc s i = S_store l v \<Longrightarrow> p = sqt_at leaf s i l \<Longrightarrow> lk_parent (nodes s p) = 0 \<Longrightarrow>
    sqt_step leaf n s (s\<lparr>nodes := (nodes s)(p := (nodes s p)\<lparr>current := v + 1\<rparr>),
      sqpc := (sqpc s)(i := S_out)\<rparr>)"

text \<open>The user library's copy differs by the name of its atomic increment, which is the same function
  (\<open>user_lock_is_spin_lock\<close>).\<close>

definition user_sqt_step :: "(nat \<Rightarrow> u32) \<Rightarrow> nat \<Rightarrow> sqt_sys \<Rightarrow> sqt_sys \<Rightarrow> bool" where
  "user_sqt_step = sqt_step"

text \<open>A lock that its initialisation has built: free nodes, and a path from every leaf to the root.\<close>

definition sqt_paths :: "(nat \<Rightarrow> u32) \<Rightarrow> nat \<Rightarrow> nat \<Rightarrow> u32 \<Rightarrow> (u32 \<Rightarrow> sqt_lock_node) \<Rightarrow> bool" where
  "sqt_paths leaf n L root nd \<longleftrightarrow> (\<forall>i<n. climb lk_parent nd L (leaf i) = root \<and> lk_parent (nd root) = 0 \<and>
     (\<forall>l\<le>L. current (nd (climb lk_parent nd l (leaf i))) = 0 \<and> free_ticket (nd (climb lk_parent nd l (leaf i))) = 0) \<and>
     (\<forall>l<L. lk_parent (nd (climb lk_parent nd l (leaf i))) \<noteq> 0) \<and>
     inj_on (\<lambda>l. climb lk_parent nd l (leaf i)) {..L})"

inductive sqt_reach :: "(nat \<Rightarrow> u32) \<Rightarrow> nat \<Rightarrow> (u32 \<Rightarrow> sqt_lock_node) \<Rightarrow> sqt_sys \<Rightarrow> bool" for leaf n nd where
  sqt_start: "sqt_reach leaf n nd \<lparr>nodes = nd, sqpc = (\<lambda>_. S_out)\<rparr>"
| sqt_next: "sqt_reach leaf n nd s \<Longrightarrow> sqt_step leaf n s t \<Longrightarrow> sqt_reach leaf n nd t"

section \<open>The system seen at one node\<close>

text \<open>The queuing lock at node \<open>p\<close>: a processor whose path meets \<open>p\<close> at level \<open>l\<close> is outside until it
  draws there, and holds it until it has given it.\<close>

fun pc_seen :: "nat \<Rightarrow> u32 \<Rightarrow> sqt_pc \<Rightarrow> ticket_pc" where
  "pc_seen l c S_out = Outside"
| "pc_seen l c (S_take k) = (if l < k then Holding c else Outside)"
| "pc_seen l c (S_poll k t) = (if l < k then Holding c else if l = k then Polling t else Outside)"
| "pc_seen l c S_in = Holding c"
| "pc_seen l c (S_give k) = (if l < k then Outside else Holding c)"
| "pc_seen l c (S_store k v) = (if l < k then Outside else if l = k then Releasing c v else Holding c)"

definition level_at :: "(nat \<Rightarrow> u32) \<Rightarrow> nat \<Rightarrow> sqt_sys \<Rightarrow> nat \<Rightarrow> u32 \<Rightarrow> nat option" where
  "level_at leaf L s i p = find (\<lambda>l. sqt_at leaf s i l = p) [0..<Suc L]"

definition seen_at :: "(nat \<Rightarrow> u32) \<Rightarrow> nat \<Rightarrow> u32 \<Rightarrow> sqt_sys \<Rightarrow> ticket_sys" where
  "seen_at leaf L p s = \<lparr>shared = spin_lock.truncate (nodes s p),
     tpc = (\<lambda>i. case level_at leaf L s i p of
              None \<Rightarrow> Outside
            | Some l \<Rightarrow> pc_seen l (current (nodes s p)) (sqpc s i))\<rparr>"

fun depth_ok :: "nat \<Rightarrow> sqt_pc \<Rightarrow> bool" where
  "depth_ok L (S_take l) = (l \<le> L)"
| "depth_ok L (S_poll l t) = (l \<le> L)"
| "depth_ok L (S_give l) = (l \<le> L)"
| "depth_ok L (S_store l v) = (l \<le> L)"
| "depth_ok L _ = True"

text \<open>The steps change neither the parents nor the paths.\<close>

lemma climb_same_parents: "(\<And>p. lk_parent (nd' p) = lk_parent (nd p)) \<Longrightarrow> climb lk_parent nd' l p = climb lk_parent nd l p"
  by (induction l) simp_all

lemma step_parents: "sqt_step leaf n s t \<Longrightarrow> lk_parent (nodes t p) = lk_parent (nodes s p)"
  by (induction rule: sqt_step.induct) auto

lemma step_sqt_at: "sqt_step leaf n s t \<Longrightarrow> sqt_at leaf t = sqt_at leaf s"
  unfolding sqt_at_def fun_eq_iff by (intro allI climb_same_parents step_parents)

lemma reach_paths:
  assumes "sqt_reach leaf n nd s"
  shows "lk_parent (nodes s p) = lk_parent (nd p) \<and> sqt_at leaf s i l = climb lk_parent nd l (leaf i)"
  using assms
proof (induction rule: sqt_reach.induct)
  case sqt_start
  then show ?case by (simp add: sqt_at_def)
next
  case (sqt_next s t)
  then show ?case by (simp add: step_parents step_sqt_at)
qed

lemma reach_outside: "sqt_reach leaf n nd s \<Longrightarrow> n \<le> i \<Longrightarrow> sqpc s i = S_out"
proof (induction rule: sqt_reach.induct)
  case (sqt_next s t)
  from sqt_next(2) sqt_next.IH [OF sqt_next.prems] sqt_next.prems show ?case
    by (induction rule: sqt_step.induct) auto
qed simp

section \<open>Every node is a queuing lock\<close>

definition path_ok :: "(nat \<Rightarrow> u32) \<Rightarrow> nat \<Rightarrow> nat \<Rightarrow> sqt_sys \<Rightarrow> bool" where
  "path_ok leaf n L s \<longleftrightarrow> (\<forall>i<n. inj_on (sqt_at leaf s i) {..L} \<and> lk_parent (nodes s (sqt_at leaf s i L)) = 0 \<and>
     (\<forall>l<L. lk_parent (nodes s (sqt_at leaf s i l)) \<noteq> 0))"

lemma level_at_Some:
  assumes "path_ok leaf n L s" "i < n"
  shows "level_at leaf L s i p = Some l \<longleftrightarrow> l \<le> L \<and> sqt_at leaf s i l = p"
proof -
  have inj: "inj_on (sqt_at leaf s i) {..L}" using assms by (simp add: path_ok_def)
  show ?thesis
  proof
    assume "level_at leaf L s i p = Some l"
    then show "l \<le> L \<and> sqt_at leaf s i l = p"
      by (auto simp: level_at_def find_Some_iff simp del: upt_Suc)
  next
    assume l: "l \<le> L \<and> sqt_at leaf s i l = p"
    have "sqt_at leaf s i k \<noteq> p" if "k < l" for k
      using inj_onD [OF inj, of k l] l that by auto
    then show "level_at leaf L s i p = Some l"
      using l unfolding level_at_def find_Some_iff by (intro exI [of _ l]) (auto simp del: upt_Suc)
  qed
qed

lemma level_at_step: "sqt_step leaf n s t \<Longrightarrow> level_at leaf L t = level_at leaf L s"
  by (simp add: level_at_def step_sqt_at fun_eq_iff)

lemma pc_seen_idle: "\<not> owns (pc_seen l c pc) \<Longrightarrow> pc_seen l c' pc = pc_seen l c pc"
  by (cases pc) auto

text \<open>A step of processor \<open>i\<close> changes the view of \<open>i\<close> alone.\<close>

lemma seen_at_upd:
  assumes "sqt_step leaf n s t" "sqpc t = (sqpc s)(i := pc')"
    and "current (nodes t p) = current (nodes s p) \<or> (\<forall>j. j \<noteq> i \<longrightarrow> \<not> owns (tpc (seen_at leaf L p s) j))"
  shows "tpc (seen_at leaf L p t) = (tpc (seen_at leaf L p s))(i := case level_at leaf L s i p of
      None \<Rightarrow> Outside | Some l \<Rightarrow> pc_seen l (current (nodes t p)) pc')"
proof
  fix j
  show "tpc (seen_at leaf L p t) j = ((tpc (seen_at leaf L p s))(i := case level_at leaf L s i p of
      None \<Rightarrow> Outside | Some l \<Rightarrow> pc_seen l (current (nodes t p)) pc')) j"
  proof (cases "j = i")
    case True
    then show ?thesis using assms(1,2) by (simp add: seen_at_def level_at_step split: option.split)
  next
    case False
    then have "tpc (seen_at leaf L p t) j = tpc (seen_at leaf L p s) j"
    proof (cases "level_at leaf L s j p")
      case (Some l)
      then show ?thesis
        using assms False pc_seen_idle [of l "current (nodes s p)" "sqpc s j" "current (nodes t p)"]
        by (auto simp: seen_at_def level_at_step)
    qed (use assms(1) in \<open>simp add: seen_at_def level_at_step\<close>)
    then show ?thesis using False by simp
  qed
qed

lemma shared_seen [simp]: "shared (seen_at leaf L p s) = spin_lock.truncate (nodes s p)"
  by (simp add: seen_at_def)

lemma sys_eqI: "shared w = a \<Longrightarrow> tpc w = b \<Longrightarrow> (w :: ticket_sys) = v\<lparr>shared := a, tpc := b\<rparr>"
  by simp

lemma sys_eqI_tpc: "shared w = shared v \<Longrightarrow> tpc w = b \<Longrightarrow> (w :: ticket_sys) = v\<lparr>tpc := b\<rparr>"
  by simp

lemma sqt_step_seen:
  assumes step: "sqt_step leaf n s t" and ok: "path_ok leaf n L s" and depth: "\<forall>i. depth_ok L (sqpc s i)"
    and alone: "\<And>i j. owns (tpc (seen_at leaf L p s) i) \<Longrightarrow> owns (tpc (seen_at leaf L p s) j) \<Longrightarrow> i = j"
  shows "seen_at leaf L p t = seen_at leaf L p s \<or> ticket_step n (seen_at leaf L p s) (seen_at leaf L p t)"
proof -
  let ?v = "seen_at leaf L p s" and ?w = "seen_at leaf L p t"
  have lev: "l \<le> L \<and> sqt_at leaf s i l = p" if "level_at leaf L s i p = Some l" "i < n" for i l
    using that level_at_Some [OF ok] by blast
  have here: "level_at leaf L s i p = Some l" if "sqt_at leaf s i l = p" "l \<le> L" "i < n" for i l
    using that level_at_Some [OF ok] by blast
  have same: "?w = ?v" if "spin_lock.truncate (nodes t p) = spin_lock.truncate (nodes s p)"
      "sqpc t = (sqpc s)(i := pc')" "i < n"
      "\<And>l. l \<le> L \<Longrightarrow> sqt_at leaf s i l = p \<Longrightarrow> pc_seen l (current (nodes s p)) pc' = pc_seen l (current (nodes s p)) (sqpc s i)"
    for i pc'
  proof -
    have c: "current (nodes t p) = current (nodes s p)" using that(1) by (simp add: spin_lock.truncate_def)
    have "tpc ?w = tpc ?v"
      unfolding seen_at_upd [OF step that(2) disjI1 [OF c], of L] c
      using that(3,4) lev by (auto simp: seen_at_def fun_eq_iff split: option.splits)
    then show ?thesis using that(1) by (simp add: seen_at_def)
  qed
  from step show ?thesis
  proof (cases rule: sqt_step.cases)
    case (acquire i)
    have "?w = ?v" by (rule same [of i]) (use acquire in auto)
    then show ?thesis ..
  next
    case (take_ticket i l q ticket free')
    show ?thesis
    proof (cases "q = p")
      case True
      have l: "level_at leaf L s i p = Some l" using here depth take_ticket True by (metis depth_ok.simps(1))
      have c: "current (nodes t p) = current (nodes s p)" using take_ticket by simp
      have "tpc ?w = (tpc ?v)(i := Polling ticket)"
        using seen_at_upd [OF step, of i "S_poll l ticket" p L] take_ticket c l by simp
      then have "?w = ?v\<lparr>shared := (shared ?v)\<lparr>free_ticket := free'\<rparr>, tpc := (tpc ?v)(i := Polling ticket)\<rparr>"
        using take_ticket True by (intro sys_eqI) (simp_all add: spin_lock.truncate_def)
      moreover have "tpc ?v i = Outside" using l take_ticket by (simp add: seen_at_def)
      ultimately show ?thesis
        using ticket_step.draw [of i n ?v ticket free'] take_ticket True
        by (simp add: spin_lock.truncate_def)
    next
      case False
      have "?w = ?v" by (rule same [of i]) (use take_ticket False in \<open>auto simp: spin_lock.truncate_def\<close>)
      then show ?thesis ..
    qed
  next
    case (poll_again i l ticket)
    then show ?thesis by simp
  next
    case (take_parent i l ticket q)
    show ?thesis
    proof (cases "q = p")
      case True
      have l: "level_at leaf L s i p = Some l" using here depth take_parent True by (metis depth_ok.simps(2))
      have "tpc ?w = (tpc ?v)(i := Holding ticket)"
        using seen_at_upd [OF step, of i "S_take (Suc l)" p L] take_parent l True by simp
      then have "?w = ?v\<lparr>tpc := (tpc ?v)(i := Holding ticket)\<rparr>" using take_parent by (intro sys_eqI_tpc) simp_all
      moreover have "tpc ?v i = Polling ticket" using l take_parent by (simp add: seen_at_def)
      ultimately show ?thesis
        using ticket_step.poll_succeeds [of i n ?v ticket] take_parent True
        by (simp add: spin_lock.truncate_def)
    next
      case False
      have "?w = ?v" by (rule same [of i]) (use take_parent False in \<open>auto simp: less_Suc_eq\<close>)
      then show ?thesis ..
    qed
  next
    case (taken i l ticket q)
    have top: "l = L"
      using taken ok depth unfolding path_ok_def by (metis depth_ok.simps(2) le_neq_implies_less)
    show ?thesis
    proof (cases "q = p")
      case True
      have l: "level_at leaf L s i p = Some l" using here taken True top by blast
      have "tpc ?w = (tpc ?v)(i := Holding ticket)"
        using seen_at_upd [OF step, of i "S_in" p L] taken l True by simp
      then have "?w = ?v\<lparr>tpc := (tpc ?v)(i := Holding ticket)\<rparr>" using taken by (intro sys_eqI_tpc) simp_all
      moreover have "tpc ?v i = Polling ticket" using l taken by (simp add: seen_at_def)
      ultimately show ?thesis
        using ticket_step.poll_succeeds [of i n ?v ticket] taken True
        by (simp add: spin_lock.truncate_def)
    next
      case False
      have "?w = ?v" by (rule same [of i]) (use taken False top in \<open>auto simp: le_less\<close>)
      then show ?thesis ..
    qed
  next
    case (release i)
    have "?w = ?v" by (rule same [of i]) (use release in auto)
    then show ?thesis ..
  next
    case (give_load i l q)
    show ?thesis
    proof (cases "q = p")
      case True
      have l: "level_at leaf L s i p = Some l" using here depth give_load True by (metis depth_ok.simps(3))
      let ?c = "current (nodes s p)"
      have "tpc ?w = (tpc ?v)(i := Releasing ?c ?c)"
        using seen_at_upd [OF step, of i "S_store l (current (nodes s p))" p L] give_load l True by simp
      then have "?w = ?v\<lparr>tpc := (tpc ?v)(i := Releasing ?c ?c)\<rparr>" using give_load by (intro sys_eqI_tpc) simp_all
      moreover have "tpc ?v i = Holding ?c" using l give_load by (simp add: seen_at_def)
      ultimately show ?thesis
        using ticket_step.release_load [of i n ?v ?c] give_load True
        by (simp add: spin_lock.truncate_def)
    next
      case False
      have "?w = ?v" by (rule same [of i]) (use give_load False in auto)
      then show ?thesis ..
    qed
  next
    case (give_parent i l v q)
    show ?thesis
    proof (cases "q = p")
      case True
      have l: "level_at leaf L s i p = Some l" using here depth give_parent True by (metis depth_ok.simps(4))
      have r: "tpc ?v i = Releasing (current (nodes s p)) v" using l give_parent by (simp add: seen_at_def)
      then have al: "\<forall>j. j \<noteq> i \<longrightarrow> \<not> owns (tpc ?v j)" using alone [of i] by auto
      have "tpc ?w = (tpc ?v)(i := Outside)"
        using seen_at_upd [OF step _ disjI2 [OF al], of "S_give (Suc l)"] give_parent l by simp
      then have "?w = ?v\<lparr>shared := (shared ?v)\<lparr>current := v + 1\<rparr>, tpc := (tpc ?v)(i := Outside)\<rparr>"
        using give_parent True by (intro sys_eqI) (simp_all add: spin_lock.truncate_def)
      then show ?thesis using ticket_step.release_store [of i n ?v _ v] give_parent r by simp
    next
      case False
      have "?w = ?v" by (rule same [of i]) (use give_parent False in \<open>auto simp: spin_lock.truncate_def less_Suc_eq\<close>)
      then show ?thesis ..
    qed
  next
    case (given i l v q)
    have top: "l = L"
      using given ok depth unfolding path_ok_def by (metis depth_ok.simps(4) le_neq_implies_less)
    show ?thesis
    proof (cases "q = p")
      case True
      have l: "level_at leaf L s i p = Some l" using here given True top by blast
      have r: "tpc ?v i = Releasing (current (nodes s p)) v" using l given by (simp add: seen_at_def)
      then have al: "\<forall>j. j \<noteq> i \<longrightarrow> \<not> owns (tpc ?v j)" using alone [of i] by auto
      have "tpc ?w = (tpc ?v)(i := Outside)"
        using seen_at_upd [OF step _ disjI2 [OF al], of "S_out"] given l by simp
      then have "?w = ?v\<lparr>shared := (shared ?v)\<lparr>current := v + 1\<rparr>, tpc := (tpc ?v)(i := Outside)\<rparr>"
        using given True by (intro sys_eqI) (simp_all add: spin_lock.truncate_def)
      then show ?thesis using ticket_step.release_store [of i n ?v _ v] given r by simp
    next
      case False
      have "?w = ?v" by (rule same [of i]) (use given False top in \<open>auto simp: spin_lock.truncate_def le_less\<close>)
      then show ?thesis ..
    qed
  qed
qed

section \<open>Reachable states\<close>

lemma reach_path_ok:
  assumes "sqt_reach leaf n nd s" "sqt_paths leaf n L root nd"
  shows "path_ok leaf n L s"
proof -
  have "sqt_at leaf s i = (\<lambda>l. climb lk_parent nd l (leaf i))" for i
    using reach_paths [OF assms(1)] by (simp add: fun_eq_iff)
  then show ?thesis
    using assms(2) reach_paths [OF assms(1)] unfolding path_ok_def sqt_paths_def by simp
qed

lemma step_depth:
  assumes "sqt_step leaf n s t" "path_ok leaf n L s" "\<forall>i. depth_ok L (sqpc s i)"
  shows "\<forall>i. depth_ok L (sqpc t i)"
  using assms(1)
proof (cases rule: sqt_step.cases)
  case (take_parent i l ticket p)
  then have "l \<noteq> L" "l \<le> L" using assms(2,3) unfolding path_ok_def by (metis, metis depth_ok.simps(2))
  then show ?thesis using take_parent assms(3) by auto
next
  case (give_parent i l v p)
  then have "l \<noteq> L" "l \<le> L" using assms(2,3) unfolding path_ok_def by (metis, metis depth_ok.simps(4))
  then show ?thesis using give_parent assms(3) by auto
next
  case (take_ticket i l p ticket free')
  then have "l \<le> L" using assms(3) by (metis depth_ok.simps(1))
  then show ?thesis using take_ticket assms(3) by auto
next
  case (give_load i l p)
  then have "l \<le> L" using assms(3) by (metis depth_ok.simps(3))
  then show ?thesis using give_load assms(3) by auto
qed (use assms(3) in auto)

lemma reach_depth: "sqt_reach leaf n nd s \<Longrightarrow> sqt_paths leaf n L root nd \<Longrightarrow> \<forall>i. depth_ok L (sqpc s i)"
proof (induction rule: sqt_reach.induct)
  case (sqt_next s t)
  then show ?case by (intro step_depth [OF sqt_next(2) reach_path_ok [OF sqt_next(1)]])
qed simp

lemma start_seen:
  assumes "sqt_paths leaf n L root nd" "i < n" "l \<le> L"
  shows "seen_at leaf L (climb lk_parent nd l (leaf i)) \<lparr>nodes = nd, sqpc = (\<lambda>_. S_out)\<rparr> = ticket_init lk"
  using assms unfolding sqt_paths_def
  by (auto simp: seen_at_def ticket_init_def spin_lock_init_def spin_lock.truncate_def fun_eq_iff split: option.split)

lemma sqt_node_reach:
  assumes "sqt_reach leaf n nd s" "sqt_paths leaf n L root nd" "n < 4294967296"
    "i < n" "l \<le> L" "p = climb lk_parent nd l (leaf i)"
  shows "ticket_reach n lk (seen_at leaf L p s)"
  using assms(1)
proof (induction rule: sqt_reach.induct)
  case sqt_start
  show ?case using ticket_reach.start start_seen [OF assms(2,4,5), of lk] assms(6) by simp
next
  case (sqt_next s t)
  have "seen_at leaf L p t = seen_at leaf L p s \<or> ticket_step n (seen_at leaf L p s) (seen_at leaf L p t)"
    using ticket_mutex [OF sqt_next.IH assms(3)]
    by (intro sqt_step_seen [OF sqt_next(2) reach_path_ok [OF sqt_next(1) assms(2)] reach_depth [OF sqt_next(1) assms(2)]])
  then show ?case using sqt_next.IH ticket_reach.step by metis
qed

text \<open>A processor that is in the critical section or giving the lock back owns the root.\<close>

fun sqt_holds :: "sqt_pc \<Rightarrow> bool" where
  "sqt_holds S_in = True"
| "sqt_holds (S_give l) = True"
| "sqt_holds (S_store l v) = True"
| "sqt_holds _ = False"

lemma holds_owns_root:
  assumes "path_ok leaf n L s" "depth_ok L (sqpc s i)" "sqt_holds (sqpc s i)" "i < n" "sqt_at leaf s i L = p"
  shows "owns (tpc (seen_at leaf L p s) i)"
proof -
  have "level_at leaf L s i p = Some L" using level_at_Some [OF assms(1,4)] assms(5) by simp
  then show ?thesis using assms(2,3) by (cases "sqpc s i") (auto simp: seen_at_def)
qed

lemma sqt_mutex:
  assumes "sqt_reach leaf n nd s" "sqt_paths leaf n L root nd" "n < 4294967296"
    "sqt_holds (sqpc s i)" "sqt_holds (sqpc s j)"
  shows "i = j"
proof -
  have n: "i < n" "j < n" using reach_outside [OF assms(1)] assms(4,5) by (metis not_le sqt_holds.simps(4))+
  have root: "sqt_at leaf s k L = root" if "k < n" for k
    using assms(2) that reach_paths [OF assms(1)] by (simp add: sqt_paths_def)
  have own: "owns (tpc (seen_at leaf L root s) k)" if "k < n" "sqt_holds (sqpc s k)" for k
    using holds_owns_root [OF reach_path_ok [OF assms(1,2)]] reach_depth [OF assms(1,2)] root that by blast
  have "root = climb lk_parent nd L (leaf i)" using assms(2) n(1) by (simp add: sqt_paths_def)
  from sqt_node_reach [OF assms(1-3) n(1) _ this] have "ticket_reach n undefined (seen_at leaf L root s)" by simp
  from ticket_mutex [OF this assms(3) own own] n assms(4,5) show ?thesis by simp
qed

text \<open>A node is met at the same level on every path.\<close>

lemma same_level:
  assumes ok: "path_ok leaf n L s" and ij: "i < n" "j < n" and lk: "l \<le> L" "k \<le> L"
    and eq: "sqt_at leaf s i l = sqt_at leaf s j k"
  shows "l = k"
proof -
  have up: "sqt_at leaf s i (l + d) = sqt_at leaf s j (k + d)" for d
    using eq by (induction d) (simp_all add: sqt_at_def)
  have False if "l < k"
  proof -
    have "lk_parent (nodes s (sqt_at leaf s j L)) = lk_parent (nodes s (sqt_at leaf s i (l + (L - k))))"
      using up [of "L - k"] lk by simp
    moreover have "l + (L - k) < L" using that lk by linarith
    ultimately show False using ok ij unfolding path_ok_def by metis
  qed
  moreover have False if "k < l"
  proof -
    have "lk_parent (nodes s (sqt_at leaf s i L)) = lk_parent (nodes s (sqt_at leaf s j (k + (L - l))))"
      using up [of "L - l"] lk by simp
    moreover have "k + (L - l) < L" using that lk by linarith
    ultimately show False using ok ij unfolding path_ok_def by metis
  qed
  ultimately show ?thesis by (meson linorder_neqE_nat)
qed

text \<open>The head of the queue of a node holds the ticket the node is at.\<close>

lemma ticket_head:
  assumes "ticket_reach n lk v" "n < 4294967296" "tpc v i \<noteq> Outside"
  obtains h where "h < n" "tpc v h = Polling (current (shared v)) \<or> owns (tpc v h)"
proof -
  obtain q where q: "ticket_inv n v q" using ticket_reach_inv [OF assms(1,2)] by blast
  then have "i \<in> set q" using assms(3) by (simp add: ticket_inv_def)
  then obtain h qs where hq: "q = h # qs" by (cases q) auto
  have "h < n" "pc_ticket (tpc v h) = Some (current (shared v))"
    using q unfolding ticket_inv_def hq by (auto dest!: spec [of _ 0])
  then show ?thesis using that by (cases "tpc v h") auto
qed

lemma sqt_moves: "sqt_step leaf n s t \<Longrightarrow> sqpc t j \<noteq> sqpc s j \<Longrightarrow> \<exists>t. sqt_step leaf n s t \<and> sqpc t j \<noteq> sqpc s j"
  by blast

lemma not_polling_moves:
  assumes "j < n" "sqpc s j \<noteq> S_out" "\<forall>l t. sqpc s j = S_poll l t \<longrightarrow> current (nodes s (sqt_at leaf s j l)) = t"
  shows "\<exists>t. sqt_step leaf n s t \<and> sqpc t j \<noteq> sqpc s j"
proof (cases "sqpc s j")
  case (S_take l)
  show ?thesis
    by (rule sqt_moves [OF sqt_step.take_ticket [OF assms(1) S_take refl]])
      (simp_all add: atomic_increment_def S_take)
next
  case (S_poll l t)
  then have c: "current (nodes s (sqt_at leaf s j l)) = t" using assms(3) by blast
  show ?thesis
  proof (cases "lk_parent (nodes s (sqt_at leaf s j l)) = 0")
    case True
    show ?thesis by (rule sqt_moves [OF sqt_step.taken [OF assms(1) S_poll refl c True]]) (simp add: S_poll)
  next
    case False
    show ?thesis by (rule sqt_moves [OF sqt_step.take_parent [OF assms(1) S_poll refl c False]]) (simp add: S_poll)
  qed
next
  case S_in
  show ?thesis by (rule sqt_moves [OF sqt_step.release [OF assms(1) S_in]]) (simp add: S_in)
next
  case (S_give l)
  show ?thesis by (rule sqt_moves [OF sqt_step.give_load [OF assms(1) S_give refl]]) (simp add: S_give)
next
  case (S_store l v)
  show ?thesis
  proof (cases "lk_parent (nodes s (sqt_at leaf s j l)) = 0")
    case True
    show ?thesis by (rule sqt_moves [OF sqt_step.given [OF assms(1) S_store refl True]]) (simp add: S_store)
  next
    case False
    show ?thesis by (rule sqt_moves [OF sqt_step.give_parent [OF assms(1) S_store refl False]]) (simp add: S_store)
  qed
qed (use assms(2) in simp)

lemma sqt_progress:
  assumes reach: "sqt_reach leaf n nd s" and paths: "sqt_paths leaf n L root nd" and n: "n < 4294967296"
    and i: "sqpc s i \<noteq> S_out"
  shows "\<exists>j t. sqpc s j \<noteq> S_out \<and> sqt_step leaf n s t \<and> sqpc t j \<noteq> sqpc s j"
proof -
  note ok = reach_path_ok [OF reach paths] and depth = reach_depth [OF reach paths]
  let ?polls = "\<lambda>j l. \<exists>t. j < n \<and> sqpc s j = S_poll l t"
  have inn: "k < n" if "sqpc s k \<noteq> S_out" for k using reach_outside [OF reach] that by (metis not_le)
  show ?thesis
  proof (cases "\<exists>j. sqpc s j \<noteq> S_out \<and> (\<forall>l t. sqpc s j = S_poll l t \<longrightarrow> current (nodes s (sqt_at leaf s j l)) = t)")
    case True
    then show ?thesis using not_polling_moves inn by metis
  next
    case stuck: False
    then have "\<exists>l. ?polls i l" using i inn [OF i] by blast
    then have ex: "\<exists>l j. ?polls j l" by blast
    have bnd: "\<forall>l. (\<exists>j. ?polls j l) \<longrightarrow> l \<le> L" using depth by (metis depth_ok.simps(2))
    define l where "l = (GREATEST l. \<exists>j. ?polls j l)"
    have "\<exists>j. ?polls j l" unfolding l_def by (rule GreatestI_ex_nat [of _ L]) (use ex bnd in blast)+
    then obtain j t where j: "j < n" "sqpc s j = S_poll l t" by blast
    have top: "k \<le> l" if "?polls h k" for h k
      unfolding l_def by (rule Greatest_le_nat [of _ _ L]) (use that bnd in blast)+
    have l: "l \<le> L" using bnd j by blast
    let ?p = "sqt_at leaf s j l"
    have p: "?p = climb lk_parent nd l (leaf j)" using reach_paths [OF reach] by simp
    have lev: "level_at leaf L s j ?p = Some l" using level_at_Some [OF ok j(1)] l by simp
    have out: "tpc (seen_at leaf L ?p s) j \<noteq> Outside" using lev j by (simp add: seen_at_def)
    obtain h where h: "h < n" "tpc (seen_at leaf L ?p s) h = Polling (current (nodes s ?p)) \<or> owns (tpc (seen_at leaf L ?p s) h)"
      using ticket_head [OF sqt_node_reach [OF reach paths n j(1) l p] n out]
      by (metis shared_seen spin_lock.select_convs(1) spin_lock.truncate_def)
    then obtain k where k: "level_at leaf L s h ?p = Some k" by (auto simp: seen_at_def split: option.splits)
    then have k': "k \<le> L" "sqt_at leaf s h k = ?p" using level_at_Some [OF ok h(1)] by auto
    then have "k = l" using same_level [OF ok h(1) j(1) k'(1) l] by simp
    have "sqpc s h \<noteq> S_out" using h(2) k by (auto simp: seen_at_def)
    then obtain k2 t2 where poll: "sqpc s h = S_poll k2 t2" "current (nodes s (sqt_at leaf s h k2)) \<noteq> t2"
      using stuck by blast
    have "k2 \<le> l" using top h(1) poll(1) by blast
    then have "k2 = l \<and> t2 = current (nodes s ?p)" using h(2) k poll(1) \<open>k = l\<close> by (auto simp: seen_at_def split: if_splits)
    then show ?thesis using poll(2) k'(2) \<open>k = l\<close> by simp
  qed
qed

section \<open>The lock that the initialisation has built\<close>

lemma tree_node: "sqt_tree mk xmax ymax L node st \<Longrightarrow> t \<in> subtree xmax ymax 0 0 L \<Longrightarrow>
    node_at node t \<noteq> 0 \<and> st (node_at node t) = built_node mk node xmax ymax L 0 t"
  by (simp add: sqt_tree_def)

lemma lock_node_parent: "lk_parent (lock_node l p a c) = p"
  by (simp add: lock_node_def)

lemma built_lock_idle: "current (built_node lock_node node xmax ymax L q t) = 0 \<and>
    free_ticket (built_node lock_node node xmax ymax L q t) = 0"
  by (cases t) (simp add: built_node_def lock_node_def)

lemma tree_paths:
  assumes tree: "sqt_tree lock_node xmax ymax L node nd" and places: "\<forall>i<n. cx i < xmax \<and> cy i < ymax"
    and size: "xmax \<le> 2 ^ L" "ymax \<le> 2 ^ L"
  shows "sqt_paths (\<lambda>i. node (cx i) (cy i) 0) n L (node 0 0 L) nd"
  unfolding sqt_paths_def
proof (intro allI impI)
  fix i assume "i < n"
  then have xy: "cx i < xmax" "cy i < ymax" "cx i < 2 ^ L" "cy i < 2 ^ L" using places size by fastforce+
  let ?t = "\<lambda>l. (align (cx i) l, align (cy i) l, l)"
  have climb: "climb lk_parent nd l (node (cx i) (cy i) 0) = node_at node (?t l)" if "l \<le> L" for l
    using climb_tree [OF tree lock_node_parent xy that] by simp
  have here: "?t l \<in> subtree xmax ymax 0 0 L" if "l \<le> L" for l by (rule aligned_place [OF xy that])
  have idle: "current (nd (node_at node (?t l))) = 0 \<and> free_ticket (nd (node_at node (?t l))) = 0" if "l \<le> L" for l
    using tree_node [OF tree here [OF that]] built_lock_idle by simp
  have up: "lk_parent (nd (node_at node (?t l))) \<noteq> 0" if "l < L" for l
    using tree_node [OF tree here, of l] tree_node [OF tree here, of "Suc l"] that
    by (simp add: built_node_def lock_node_parent align_Suc)
  have "inj_on (\<lambda>l. node_at node (?t l)) {..L}"
  proof (rule inj_onI)
    fix k l assume kl: "k \<in> {..L}" "l \<in> {..L}" "node_at node (?t k) = node_at node (?t l)"
    have inj: "inj_on (node_at node) (subtree xmax ymax 0 0 L)" using tree by (simp add: sqt_tree_def)
    have "?t k = ?t l" by (rule inj_onD [OF inj kl(3) here here]) (use kl in simp_all)
    then show "k = l" by simp
  qed
  then have inj: "inj_on (\<lambda>l. climb lk_parent nd l (node (cx i) (cy i) 0)) {..L}"
    by (rule inj_on_cong [THEN iffD1, rotated]) (simp add: climb)
  have "0 < xmax" "0 < ymax" using xy by simp_all
  then have root: "lk_parent (nd (node 0 0 L)) = 0" by (rule root_parent [OF tree lock_node_parent])
  show "climb lk_parent nd L (node (cx i) (cy i) 0) = node 0 0 L \<and> lk_parent (nd (node 0 0 L)) = 0 \<and>
      (\<forall>l\<le>L. current (nd (climb lk_parent nd l (node (cx i) (cy i) 0))) = 0 \<and>
             free_ticket (nd (climb lk_parent nd l (node (cx i) (cy i) 0))) = 0) \<and>
      (\<forall>l<L. lk_parent (nd (climb lk_parent nd l (node (cx i) (cy i) 0))) \<noteq> 0) \<and>
      inj_on (\<lambda>l. climb lk_parent nd l (node (cx i) (cy i) 0)) {..L}"
    using root inj climb idle up align_root [OF xy(3)] align_root [OF xy(4)] by simp
qed

text \<open>A machine of two clusters with a lock of three nodes; the processor of the first cluster takes it.\<close>

definition duo_node :: sqt_array where
  "duo_node x y l = (if l = 1 then 0x30 else if x = 0 then 0x10 else 0x20)"

definition duo_nodes :: "u32 \<Rightarrow> sqt_lock_node" where
  "duo_nodes = sqt_build lock_node duo_node 2 1 0 0 1 0 (\<lambda>_. lock_node 0 0 0 [])"

lemma duo_places: "subtree 2 1 0 0 1 = {(0, 0, 0), (1, 0, 0), (0, 0, 1)}"
proof -
  have "z dvd 1 \<longleftrightarrow> z = 1" for z :: nat by simp
  have one: "(l \<le> 1) = (l = 0 \<or> l = 1)" "(x < 2) = (x = 0 \<or> x = 1)" for l x :: nat by auto
  show ?thesis unfolding subtree_def by (auto simp: one)
qed

lemma duo_tree: "sqt_tree lock_node 2 1 1 duo_node duo_nodes"
proof -
  have inj: "inj_on (node_at duo_node) (subtree 2 1 0 0 1)"
    unfolding duo_places by (simp add: duo_node_def)
  have "duo_nodes (node_at duo_node t) = built_node lock_node duo_node 2 1 1 0 t" if "t \<in> subtree 2 1 0 0 1" for t
    unfolding duo_nodes_def by (rule build_hit [OF _ _ _ _ inj that]) simp_all
  then show ?thesis using inj unfolding sqt_tree_def by (auto simp: duo_node_def)
qed

abbreviation duo_leaf :: "nat \<Rightarrow> u32" where
  "duo_leaf i \<equiv> duo_node i 0 0"

lemma duo_eval:
  "duo_leaf 0 = 0x10" "lk_parent (duo_nodes 0x10) = 0x30" "lk_parent (duo_nodes 0x30) = 0"
  "current (duo_nodes 0x10) = 0" "current (duo_nodes 0x30) = 0" "free_ticket (duo_nodes 0x10) = 0" "free_ticket (duo_nodes 0x30) = 0"
  by (simp_all add: duo_nodes_def duo_node_def lock_node_def Let_def sqt_children_def)

lemma duo_inside: "\<exists>s. sqt_reach duo_leaf 2 duo_nodes s \<and> sqpc s 0 = S_in"
proof -
  let ?s0 = "\<lparr>nodes = duo_nodes, sqpc = (\<lambda>_. S_out)\<rparr>"
  let ?n1 = "duo_nodes(0x10 := (duo_nodes 0x10)\<lparr>free_ticket := 1\<rparr>)"
  let ?n2 = "?n1(0x30 := (duo_nodes 0x30)\<lparr>free_ticket := 1\<rparr>)"
  let ?at = "\<lambda>nd pc. \<lparr>nodes = nd, sqpc = (\<lambda>_. S_out)(0 := pc)\<rparr>"
  have "sqt_reach duo_leaf 2 duo_nodes ?s0" by (rule sqt_start)
  then have "sqt_reach duo_leaf 2 duo_nodes (?at duo_nodes (S_take 0))"
    by (rule sqt_next) (use sqt_step.acquire [of 0 2 ?s0 duo_leaf] in simp)
  then have "sqt_reach duo_leaf 2 duo_nodes (?at ?n1 (S_poll 0 0))"
    by (rule sqt_next)
      (use sqt_step.take_ticket [of 0 2 "?at duo_nodes (S_take 0)" 0 "0x10" duo_leaf 0 1] in
        \<open>simp add: sqt_at_def duo_eval atomic_increment_def\<close>)
  then have "sqt_reach duo_leaf 2 duo_nodes (?at ?n1 (S_take 1))"
    by (rule sqt_next)
      (use sqt_step.take_parent [of 0 2 "?at ?n1 (S_poll 0 0)" 0 0 "0x10" duo_leaf] in \<open>simp add: sqt_at_def duo_eval\<close>)
  then have "sqt_reach duo_leaf 2 duo_nodes (?at ?n2 (S_poll 1 0))"
    by (rule sqt_next)
      (use sqt_step.take_ticket [of 0 2 "?at ?n1 (S_take 1)" 1 "0x30" duo_leaf 0 1] in
        \<open>simp add: sqt_at_def duo_eval atomic_increment_def\<close>)
  then have "sqt_reach duo_leaf 2 duo_nodes (?at ?n2 S_in)"
    by (rule sqt_next)
      (use sqt_step.taken [of 0 2 "?at ?n2 (S_poll 1 0)" 1 0 "0x30" duo_leaf] in \<open>simp add: sqt_at_def duo_eval\<close>)
  then show ?thesis by fastforce
qed

lemma duo_paths: "sqt_paths duo_leaf 2 1 0x30 duo_nodes"
proof -
  have "\<forall>i<2. i < 2 \<and> 0 < (1 :: nat)" by simp
  from tree_paths [OF duo_tree this] show ?thesis by (simp add: duo_node_def)
qed

section \<open>Properties\<close>

text \<open>C17: Each node of the distributed lock, seen by the processors whose path to the root meets it, is an
  execution of the queuing lock: drawing, polling and releasing at the node are the steps of the
  queuing lock and every other step leaves it as it is, so every node is fair and has one holder.\<close>

theorem sqt_lock_refines_ticket:
  assumes "sqt_reach leaf n nd s" "sqt_step leaf n s t" "sqt_paths leaf n L root nd" "n < 4294967296"
    "i < n" "l \<le> L" "p = climb lk_parent nd l (leaf i)"
  shows "ticket_reach n lk (seen_at leaf L p s) \<and>
    (seen_at leaf L p t = seen_at leaf L p s \<or> ticket_step n (seen_at leaf L p s) (seen_at leaf L p t))"
proof -
  note r = sqt_node_reach [OF assms(1,3-7)]
  show ?thesis
    using r ticket_mutex [OF r assms(4)] sqt_step_seen [OF assms(2) reach_path_ok [OF assms(1,3)] reach_depth [OF assms(1,3)]]
    by metis
qed

theorem sqt_lock_refines_ticket_witness:
  "\<exists>s t. sqt_step duo_leaf 2 s t \<and> ticket_reach 2 \<lparr>current = 3, free_ticket = 9\<rparr> (seen_at duo_leaf 1 0x30 s)"
proof -
  obtain s where s: "sqt_reach duo_leaf 2 duo_nodes s" "sqpc s 0 = S_in" using duo_inside by blast
  have step: "sqt_step duo_leaf 2 s (s\<lparr>sqpc := (sqpc s)(0 := S_give 0)\<rparr>)"
    by (rule sqt_step.release) (use s in simp_all)
  have "0x30 = climb lk_parent duo_nodes 1 (duo_leaf 0)" by (simp add: duo_eval)
  from sqt_lock_refines_ticket [OF s(1) step duo_paths _ _ _ this, of "\<lparr>current = 3, free_ticket = 9\<rparr>"]
  have "ticket_reach 2 \<lparr>current = 3, free_ticket = 9\<rparr> (seen_at duo_leaf 1 0x30 s)" by simp
  then show ?thesis using step by blast
qed

text \<open>C16: At most one processor at a time is between taking the root of a distributed lock built by its
  initialisation and giving it back, for any number of processors below \<open>2 ^ 32\<close> spread over the
  clusters of the machine.\<close>

theorem sqt_lock_mutex:
  assumes "sqt_tree lock_node xmax ymax L node nd" "\<forall>i<n. cx i < xmax \<and> cy i < ymax"
    "xmax \<le> 2 ^ L" "ymax \<le> 2 ^ L" "n < 4294967296"
    and "sqt_reach (\<lambda>i. node (cx i) (cy i) 0) n nd s" "sqt_holds (sqpc s i)" "sqt_holds (sqpc s j)"
  shows "i = j"
  by (rule sqt_mutex [OF assms(6) tree_paths [OF assms(1-4)] assms(5,7,8)])

theorem sqt_lock_mutex_witness:
  "\<exists>s. sqt_reach duo_leaf 2 duo_nodes s \<and> sqpc s 0 = S_in \<and> (\<forall>j. sqt_holds (sqpc s j) \<longrightarrow> 0 = j)"
proof -
  obtain s where s: "sqt_reach duo_leaf 2 duo_nodes s" "sqpc s 0 = S_in" using duo_inside by blast
  have "\<forall>i<2. i < 2 \<and> 0 < (1 :: nat)" by simp
  from sqt_lock_mutex [OF duo_tree this _ _ _ s(1), of 0] s show ?thesis by auto
qed

text \<open>The distributed lock never blocks all its users: while some processor wants the lock, holds it
  or gives it back, one of those processors can make a step of its own, at a node of the highest level
  at which any of them waits.\<close>

theorem sqt_lock_progress:
  assumes "sqt_tree lock_node xmax ymax L node nd" "\<forall>i<n. cx i < xmax \<and> cy i < ymax"
    "xmax \<le> 2 ^ L" "ymax \<le> 2 ^ L" "n < 4294967296"
    and "sqt_reach (\<lambda>i. node (cx i) (cy i) 0) n nd s" "sqpc s i \<noteq> S_out"
  shows "\<exists>j t. sqpc s j \<noteq> S_out \<and> sqt_step (\<lambda>i. node (cx i) (cy i) 0) n s t \<and> sqpc t j \<noteq> sqpc s j"
  by (rule sqt_progress [OF assms(6) tree_paths [OF assms(1-4)] assms(5,7)])

theorem sqt_lock_progress_witness:
  "\<exists>s j t. sqt_reach duo_leaf 2 duo_nodes s \<and> sqpc s j \<noteq> S_out \<and> sqt_step duo_leaf 2 s t \<and> sqpc t j \<noteq> sqpc s j"
proof -
  obtain s where s: "sqt_reach duo_leaf 2 duo_nodes s" "sqpc s 0 = S_in" using duo_inside by blast
  have "\<forall>i<2. i < 2 \<and> 0 < (1 :: nat)" by simp
  from sqt_lock_progress [OF duo_tree this _ _ _ s(1), of 0] s show ?thesis by auto
qed

end
