(* ===== verification/Barrier.thy ===== *)
theory Barrier
  imports Spin_Lock
begin

text \<open>
  The simple sense-reversing barrier: \<open>_simple_barrier_init\<close>, \<open>_simple_barrier_wait\<close>
  (\<open>giet_common/kernel_barriers.c\<close>) and \<open>barrier_init\<close>, \<open>barrier_wait\<close>
  (\<open>giet_libs/user_barrier.c\<close>), for any number of tasks that call it any number of times. A step is
  one access of one task to the shared structure. The counter of completed calls of each task is
  history: no step reads it.
\<close>

section \<open>The structure and its initialisation\<close>

record simple_barrier =
  bar_sense :: u32
  bar_ntasks :: u32
  bar_count :: u32

definition simple_barrier_init :: "simple_barrier \<Rightarrow> u32 \<Rightarrow> simple_barrier" where
  "simple_barrier_init b ntasks = b\<lparr>bar_ntasks := ntasks, bar_count := ntasks, bar_sense := 0\<rparr>"

text \<open>\<open>giet_barrier_t\<close> has the same fields (\<open>arity\<close> is \<open>bar_ntasks\<close>).\<close>

definition barrier_init :: "simple_barrier \<Rightarrow> u32 \<Rightarrow> simple_barrier" where
  "barrier_init b ntasks = b\<lparr>bar_ntasks := ntasks, bar_count := ntasks, bar_sense := 0\<rparr>"

definition expected_sense :: "u32 \<Rightarrow> u32" where
  "expected_sense sense = (if sense = 0 then 1 else 0)"

text \<open>The decrement: \<open>_atomic_increment( &count, -1 )\<close> in the kernel, an LL/SC loop with
  \<open>addi $9, $8, -1\<close> in the user library.\<close>

definition kernel_decrement :: "u32 \<Rightarrow> u32 \<times> u32" where
  "kernel_decrement count = atomic_increment count (- 1)"

definition user_decrement :: "u32 \<Rightarrow> u32 \<times> u32" where
  "user_decrement count = (count, count + (- 1))"

section \<open>Executions\<close>

datatype bar_pc = B_out | B_dec u32 | B_reset u32 | B_toggle u32 | B_poll u32

record bar_sys =
  bar :: simple_barrier
  bpc :: "nat \<Rightarrow> bar_pc"
  passed :: "nat \<Rightarrow> nat"

inductive bar_step :: "(u32 \<Rightarrow> u32 \<times> u32) \<Rightarrow> nat \<Rightarrow> bar_sys \<Rightarrow> bar_sys \<Rightarrow> bool" for fetch n where
  enter: "i < n \<Longrightarrow> bpc s i = B_out \<Longrightarrow>
    bar_step fetch n s (s\<lparr>bpc := (bpc s)(i := B_dec (expected_sense (bar_sense (bar s))))\<rparr>)"
| last: "i < n \<Longrightarrow> bpc s i = B_dec e \<Longrightarrow> fetch (bar_count (bar s)) = (count, count') \<Longrightarrow> count = 1 \<Longrightarrow>
    bar_step fetch n s (s\<lparr>bar := (bar s)\<lparr>bar_count := count'\<rparr>, bpc := (bpc s)(i := B_reset e)\<rparr>)"
| not_last: "i < n \<Longrightarrow> bpc s i = B_dec e \<Longrightarrow> fetch (bar_count (bar s)) = (count, count') \<Longrightarrow> count \<noteq> 1 \<Longrightarrow>
    bar_step fetch n s (s\<lparr>bar := (bar s)\<lparr>bar_count := count'\<rparr>, bpc := (bpc s)(i := B_poll e)\<rparr>)"
| reset_count: "i < n \<Longrightarrow> bpc s i = B_reset e \<Longrightarrow>
    bar_step fetch n s (s\<lparr>bar := (bar s)\<lparr>bar_count := bar_ntasks (bar s)\<rparr>, bpc := (bpc s)(i := B_toggle e)\<rparr>)"
| toggle: "i < n \<Longrightarrow> bpc s i = B_toggle e \<Longrightarrow>
    bar_step fetch n s (s\<lparr>bar := (bar s)\<lparr>bar_sense := e\<rparr>, bpc := (bpc s)(i := B_out),
      passed := (passed s)(i := Suc (passed s i))\<rparr>)"
| poll_fails: "i < n \<Longrightarrow> bpc s i = B_poll e \<Longrightarrow> bar_sense (bar s) \<noteq> e \<Longrightarrow> bar_step fetch n s s"
| leave: "i < n \<Longrightarrow> bpc s i = B_poll e \<Longrightarrow> bar_sense (bar s) = e \<Longrightarrow>
    bar_step fetch n s (s\<lparr>bpc := (bpc s)(i := B_out), passed := (passed s)(i := Suc (passed s i))\<rparr>)"

text \<open>\<open>barrier_wait\<close> is the same code with the inlined decrement.\<close>

definition user_bar_step :: "nat \<Rightarrow> bar_sys \<Rightarrow> bar_sys \<Rightarrow> bool" where
  "user_bar_step n = bar_step user_decrement n"

inductive bar_reach :: "(u32 \<Rightarrow> u32 \<times> u32) \<Rightarrow> nat \<Rightarrow> simple_barrier \<Rightarrow> bar_sys \<Rightarrow> bool" for fetch n b0 where
  bar_start: "bar_reach fetch n b0 \<lparr>bar = b0, bpc = (\<lambda>_. B_out), passed = (\<lambda>_. 0)\<rparr>"
| bar_next: "bar_reach fetch n b0 s \<Longrightarrow> bar_step fetch n s t \<Longrightarrow> bar_reach fetch n b0 t"

section \<open>The invariant\<close>

text \<open>A task that has decremented the counter and polls for the next sense has arrived; one that polls
  for the present sense is leaving.\<close>

fun arrived :: "u32 \<Rightarrow> bar_pc \<Rightarrow> bool" where
  "arrived sense (B_poll e) = (e \<noteq> sense)"
| "arrived sense (B_reset e) = True"
| "arrived sense (B_toggle e) = True"
| "arrived sense _ = False"

fun closing :: "bar_pc \<Rightarrow> bool" where
  "closing (B_reset e) = True"
| "closing (B_toggle e) = True"
| "closing _ = False"

fun pc_sense :: "bar_pc \<Rightarrow> u32 option" where
  "pc_sense B_out = None"
| "pc_sense (B_dec e) = Some e"
| "pc_sense (B_reset e) = Some e"
| "pc_sense (B_toggle e) = Some e"
| "pc_sense (B_poll e) = Some e"

definition leaving :: "bar_sys \<Rightarrow> nat \<Rightarrow> bool" where
  "leaving s i \<longleftrightarrow> bpc s i = B_poll (bar_sense (bar s))"

definition waiters :: "nat \<Rightarrow> bar_sys \<Rightarrow> nat set" where
  "waiters n s = {i. i < n \<and> arrived (bar_sense (bar s)) (bpc s i)}"

definition bar_count_ok :: "nat \<Rightarrow> bar_sys \<Rightarrow> bool" where
  "bar_count_ok n s \<longleftrightarrow>
     ((\<forall>i<n. \<not> closing (bpc s i)) \<and> bar_count (bar s) = word_of_nat (n - card (waiters n s)) \<and> card (waiters n s) < n) \<or>
     (\<exists>j<n. closing (bpc s j) \<and> (\<forall>i<n. closing (bpc s i) \<longrightarrow> i = j) \<and> waiters n s = {..<n} \<and>
        (\<forall>e. bpc s j = B_toggle e \<longrightarrow> bar_count (bar s) = bar_ntasks (bar s)))"

definition bar_inv :: "nat \<Rightarrow> nat \<Rightarrow> bar_sys \<Rightarrow> bool" where
  "bar_inv n r s \<longleftrightarrow> bar_sense (bar s) = word_of_nat (r mod 2) \<and> bar_ntasks (bar s) = word_of_nat n \<and>
     (\<forall>i<n. passed s i = (if leaving s i then r - 1 else r) \<and> (leaving s i \<longrightarrow> 0 < r)) \<and>
     (\<forall>i<n. \<forall>e. pc_sense (bpc s i) = Some e \<longrightarrow> leaving s i \<or> e = expected_sense (bar_sense (bar s))) \<and>
     bar_count_ok n s"

locale fetch_decrement =
  fixes fetch :: "u32 \<Rightarrow> u32 \<times> u32"
  assumes fetch: "fetch c = (c, c - 1)"

interpretation kernel_fetch: fetch_decrement kernel_decrement
  by unfold_locales (simp add: kernel_decrement_def atomic_increment_def)

interpretation user_fetch: fetch_decrement user_decrement
  by unfold_locales (simp add: user_decrement_def)

lemma sense_flip: "expected_sense (word_of_nat (r mod 2)) = word_of_nat (Suc r mod 2)"
  by (cases "even r") (auto simp: expected_sense_def mod_Suc even_iff_mod_2_eq_zero odd_iff_mod_2_eq_one)

lemma expected_neq [simp]: "expected_sense x \<noteq> x" "x \<noteq> expected_sense x"
  by (auto simp: expected_sense_def)

lemma bar_inv_start: "0 < n \<Longrightarrow> bar_inv n 0 \<lparr>bar = simple_barrier_init b (word_of_nat n), bpc = (\<lambda>_. B_out), passed = (\<lambda>_. 0)\<rparr>"
  by (simp add: bar_inv_def simple_barrier_init_def leaving_def bar_count_ok_def waiters_def)

lemma finite_waiters [simp]: "finite (waiters n s)"
  by (simp add: waiters_def)

lemma bar_count_ok_cong:
  assumes "waiters n t = waiters n s" "\<And>j. closing (bpc t j) = closing (bpc s j)"
    "\<And>j e. bpc t j = B_toggle e \<longleftrightarrow> bpc s j = B_toggle e" "bar t = bar s"
  shows "bar_count_ok n t = bar_count_ok n s"
  unfolding bar_count_ok_def assms ..

lemma count_ok_closing:
  assumes "bar_count_ok n s" "i < n" "closing (bpc s i)"
  shows "waiters n s = {..<n}" "j < n \<Longrightarrow> closing (bpc s j) \<Longrightarrow> j = i"
    "bpc s i = B_toggle e \<Longrightarrow> bar_count (bar s) = bar_ntasks (bar s)"
  using assms unfolding bar_count_ok_def by metis+

lemma count_ok_open:
  assumes "bar_count_ok n s" "\<And>i. i < n \<Longrightarrow> \<not> closing (bpc s i)"
  shows "bar_count (bar s) = word_of_nat (n - card (waiters n s))" "card (waiters n s) < n"
  using assms unfolding bar_count_ok_def by blast+

lemma count_ok_I:
  assumes "i < n" "closing (bpc s i)" "\<And>j. j < n \<Longrightarrow> closing (bpc s j) \<Longrightarrow> j = i" "waiters n s = {..<n}"
    "\<And>e. bpc s i = B_toggle e \<Longrightarrow> bar_count (bar s) = bar_ntasks (bar s)"
  shows "bar_count_ok n s"
  using assms unfolding bar_count_ok_def by blast

context fetch_decrement
begin

lemma step_inv:
  assumes step: "bar_step fetch n s t" and inv: "bar_inv n r s" and n: "n < 4294967296"
  shows "\<exists>r'. bar_inv n r' t"
  using step
proof (cases rule: bar_step.cases)
  case (enter i)
  have "waiters n t = waiters n s" using enter by (auto simp: waiters_def)
  then have "bar_count_ok n t = bar_count_ok n s" by (rule bar_count_ok_cong) (use enter in auto)
  then show ?thesis using inv enter by (intro exI [of _ r]) (auto simp: bar_inv_def leaving_def)
next
  case (last i e count count')
  have one: "bar_count (bar s) = 1" "count' = 0" using last fetch by auto
  have e: "e = expected_sense (bar_sense (bar s))" using inv last by (fastforce simp: bar_inv_def leaving_def)
  have iw: "i \<notin> waiters n s" using last by (simp add: waiters_def)
  then have open': "\<forall>i<n. \<not> closing (bpc s i)" "bar_count (bar s) = word_of_nat (n - card (waiters n s))" "card (waiters n s) < n"
    using inv last unfolding bar_inv_def bar_count_ok_def by blast+
  have "n - card (waiters n s) = 1"
    using word_of_nat_inj_small [of "n - card (waiters n s)" 1, where 'a=32] open'(2) one(1) n by simp
  moreover have w: "waiters n t = insert i (waiters n s)" using last by (auto simp: waiters_def)
  ultimately have "card (waiters n t) = n" using iw by simp
  then have all: "waiters n t = {..<n}" by (intro card_subset_eq) (auto simp: waiters_def)
  have "bar_count_ok n t" unfolding bar_count_ok_def
    using last(2) open'(1) all by (intro disjI2 exI [of _ i]) (auto simp: last(1))
  then show ?thesis using inv last e by (intro exI [of _ r]) (auto simp: bar_inv_def leaving_def)
next
  case (not_last i e count count')
  have c: "bar_count (bar s) \<noteq> 1" "count' = bar_count (bar s) - 1" using not_last fetch by auto
  have e: "e = expected_sense (bar_sense (bar s))" using inv not_last by (fastforce simp: bar_inv_def leaving_def)
  have iw: "i \<notin> waiters n s" using not_last by (simp add: waiters_def)
  then have open': "\<forall>i<n. \<not> closing (bpc s i)" "bar_count (bar s) = word_of_nat (n - card (waiters n s))" "card (waiters n s) < n"
    using inv not_last unfolding bar_inv_def bar_count_ok_def by blast+
  have w: "waiters n t = insert i (waiters n s)" using not_last e by (auto simp: waiters_def)
  then have card: "card (waiters n t) = Suc (card (waiters n s))" using iw by simp
  have "n - card (waiters n s) \<noteq> 1" using open'(2) c(1) by auto
  then have lt: "card (waiters n t) < n" using card open'(3) by linarith
  have "n - card (waiters n s) = Suc (n - card (waiters n t))" using card lt by linarith
  then have "bar_count (bar s) - 1 = word_of_nat (n - card (waiters n t))" unfolding open'(2) by (metis add_diff_cancel_left' of_nat_Suc)
  then have "bar_count (bar t) = word_of_nat (n - card (waiters n t))" using c(2) not_last(1) by simp
  moreover have "\<forall>i<n. \<not> closing (bpc t i)" using open'(1) not_last(1) by simp
  ultimately have "bar_count_ok n t" using lt unfolding bar_count_ok_def by blast
  then show ?thesis using inv not_last e by (intro exI [of _ r]) (auto simp: bar_inv_def leaving_def)
next
  case (reset_count i e)
  have w: "waiters n t = waiters n s" using reset_count by (auto simp: waiters_def)
  have "closing (bpc s i)" using reset_count by simp
  then have c: "waiters n s = {..<n}" "\<And>j. j < n \<Longrightarrow> closing (bpc s j) \<Longrightarrow> j = i"
    using count_ok_closing [of n s i] inv reset_count(2) unfolding bar_inv_def by blast+
  have "bar_count_ok n t"
  proof (rule count_ok_I [OF reset_count(2)])
    show "j = i" if "j < n" "closing (bpc t j)" for j
      using c(2) [OF that(1)] that(2) reset_count(1) by (cases "j = i") simp_all
  qed (simp_all add: w c(1), simp_all add: reset_count(1))
  then show ?thesis using inv reset_count by (intro exI [of _ r]) (auto simp: bar_inv_def leaving_def)
next
  case (toggle i e)
  have e: "e = expected_sense (bar_sense (bar s))" using inv toggle by (fastforce simp: bar_inv_def leaving_def)
  have "closing (bpc s i)" using toggle by simp
  then have all: "waiters n s = {..<n}" "\<And>j. j < n \<Longrightarrow> closing (bpc s j) \<Longrightarrow> j = i" "bar_count (bar s) = bar_ntasks (bar s)"
    using count_ok_closing [of n s i] inv toggle(2,3) unfolding bar_inv_def by blast+
  have poll: "bpc s j = B_poll e" if j: "j < n" "j \<noteq> i" for j
  proof -
    have "j \<in> waiters n s" using all(1) j by simp
    then have "arrived (bar_sense (bar s)) (bpc s j)" "\<not> closing (bpc s j)" using all(2) j by (auto simp: waiters_def)
    then obtain f where f: "bpc s j = B_poll f" "f \<noteq> bar_sense (bar s)" by (cases "bpc s j") auto
    then have "f = e" using inv j(1) e unfolding bar_inv_def leaving_def by fastforce
    then show ?thesis using f by simp
  qed
  have pass: "passed s j = r" if "j < n" for j
    using inv poll toggle that e unfolding bar_inv_def leaving_def by (cases "j = i") auto
  have sense: "bar_sense (bar t) = word_of_nat (Suc r mod 2)" using inv e toggle(1) sense_flip by (simp add: bar_inv_def)
  have none: "waiters n t = {}" using poll toggle by (auto simp: waiters_def)
  have "\<not> closing (bpc t j)" if "j < n" for j using poll [OF that] toggle(1) by (cases "j = i") auto
  then have "bar_count_ok n t" unfolding bar_count_ok_def none using toggle(1,2) all(3) inv by (auto simp: bar_inv_def)
  moreover have "leaving t j \<longleftrightarrow> j \<noteq> i" if "j < n" for j using poll [OF that] toggle(1) by (auto simp: leaving_def)
  moreover have "pc_sense (bpc t j) = Some f \<longrightarrow> leaving t j" if "j < n" for j f
    using poll [OF that] toggle(1) by (cases "j = i") (auto simp: leaving_def)
  ultimately have "bar_inv n (Suc r) t" using inv toggle(1) pass sense unfolding bar_inv_def by auto
  then show ?thesis by blast
next
  case (poll_fails i e)
  then show ?thesis using inv by blast
next
  case (leave i e)
  have l: "leaving s i" using leave by (simp add: leaving_def)
  have "waiters n t = waiters n s" using leave by (auto simp: waiters_def)
  then have "bar_count_ok n t = bar_count_ok n s" by (rule bar_count_ok_cong) (use leave in auto)
  then have "bar_count_ok n t" using inv by (simp add: bar_inv_def)
  moreover have "leaving t j \<longleftrightarrow> leaving s j \<and> j \<noteq> i" for j using leave by (auto simp: leaving_def)
  ultimately have "bar_inv n r t" using inv leave l unfolding bar_inv_def by auto
  then show ?thesis by blast
qed

lemma reach_inv:
  assumes "bar_reach fetch n b0 s" "b0 = simple_barrier_init b (word_of_nat n)" "0 < n" "n < 4294967296"
  shows "\<exists>r. bar_inv n r s"
  using assms(1)
proof (induction rule: bar_reach.induct)
  case bar_start
  then show ?case using bar_inv_start [OF assms(3)] assms(2) by blast
next
  case (bar_next s t)
  then show ?case using step_inv assms(4) by blast
qed

text \<open>No task completes a round before all have begun it.\<close>

lemma reach_safe:
  assumes "bar_reach fetch n (simple_barrier_init b (word_of_nat n)) s" "0 < n" "n < 4294967296" "i < n" "j < n"
  shows "passed s i \<le> passed s j + (if bpc s j = B_out then 0 else 1)"
proof -
  obtain r where "bar_inv n r s" using reach_inv [OF assms(1) refl assms(2,3)] by blast
  then have r: "passed s k = (if leaving s k then r - 1 else r)" "leaving s k \<longrightarrow> 0 < r" if "k < n" for k
    using that by (auto simp: bar_inv_def)
  have "passed s i \<le> r" using r(1) [OF assms(4)] by simp
  moreover have "r \<le> passed s j + (if bpc s j = B_out then 0 else 1)"
    using r [OF assms(5)] by (auto simp: leaving_def)
  ultimately show ?thesis by linarith
qed

lemma moves: "bar_step fetch n s t \<Longrightarrow> bpc t i \<noteq> bpc s i \<Longrightarrow> \<exists>t. bar_step fetch n s t \<and> bpc t i \<noteq> bpc s i"
  by blast

lemma in_section_moves:
  assumes "i < n" "bpc s i \<noteq> B_out" "\<And>e. bpc s i = B_poll e \<Longrightarrow> bar_sense (bar s) = e"
  shows "\<exists>t. bar_step fetch n s t \<and> bpc t i \<noteq> bpc s i"
proof (cases "bpc s i")
  case (B_dec e)
  show ?thesis
  proof (cases "bar_count (bar s) = 1")
    case True
    show ?thesis by (rule moves [OF bar_step.last [OF assms(1) B_dec fetch]]) (simp_all add: True B_dec)
  next
    case False
    show ?thesis by (rule moves [OF bar_step.not_last [OF assms(1) B_dec fetch]]) (simp_all add: False B_dec)
  qed
next
  case (B_reset e)
  show ?thesis using bar_step.reset_count [OF assms(1) B_reset] B_reset by fastforce
next
  case (B_toggle e)
  show ?thesis using bar_step.toggle [OF assms(1) B_toggle] B_toggle by fastforce
next
  case (B_poll e)
  show ?thesis using bar_step.leave [OF assms(1) B_poll assms(3) [OF B_poll]] B_poll by fastforce
qed (use assms(2) in simp)

text \<open>A task waits only for tasks that have not begun the round it is in.\<close>

lemma reach_progress:
  assumes "bar_reach fetch n (simple_barrier_init b (word_of_nat n)) s" "0 < n" "n < 4294967296" "i < n" "bpc s i \<noteq> B_out"
  shows "(\<exists>j<n. \<exists>t. bpc s j \<noteq> B_out \<and> bar_step fetch n s t \<and> bpc t j \<noteq> bpc s j) \<or>
    (\<exists>j<n. bpc s j = B_out \<and> passed s j = passed s i)"
proof -
  obtain r where inv: "bar_inv n r s" using reach_inv [OF assms(1) refl assms(2,3)] by blast
  show ?thesis
  proof (cases "\<exists>j<n. bpc s j \<noteq> B_out \<and> (\<forall>e. bpc s j = B_poll e \<longrightarrow> bar_sense (bar s) = e)")
    case True
    then obtain j where "j < n" "bpc s j \<noteq> B_out" "\<And>e. bpc s j = B_poll e \<Longrightarrow> bar_sense (bar s) = e" by blast
    then show ?thesis using in_section_moves [of j n s] by blast
  next
    case False
    then have stuck: "\<exists>e. bpc s j = B_poll e \<and> bar_sense (bar s) \<noteq> e" if "j < n" "bpc s j \<noteq> B_out" for j
      using that by blast
    then have none: "\<not> closing (bpc s j)" if "j < n" for j
    proof (cases "bpc s j = B_out")
      case False
      then show ?thesis using stuck [OF that] by auto
    qed simp
    have "bar_count_ok n s" using inv by (simp add: bar_inv_def)
    then have "card (waiters n s) < n" by (rule count_ok_open(2)) (rule none)
    then have "waiters n s \<noteq> {..<n}" by (metis card_lessThan less_irrefl)
    then obtain j where j: "j < n" "\<not> arrived (bar_sense (bar s)) (bpc s j)" by (auto simp: waiters_def)
    have out: "bpc s j = B_out" using stuck [OF j(1)] j(2) by (metis arrived.simps(1))
    have "\<not> leaving s i" "\<not> leaving s j" using stuck [OF assms(4,5)] out by (auto simp: leaving_def)
    then have "passed s j = passed s i" using inv assms(4) j(1) unfolding bar_inv_def by simp
    then show ?thesis using j(1) out by blast
  qed
qed

end

lemma barrier_inits: "barrier_init = simple_barrier_init"
  by (simp add: fun_eq_iff barrier_init_def simple_barrier_init_def)

section \<open>Properties\<close>

text \<open>C18: The simple barrier of the kernel, called any number of times by its tasks: no task completes
  its \<open>k\<close>-th call before every task has begun its \<open>k\<close>-th call.\<close>

theorem simple_barrier_safe:
  assumes "bar_reach kernel_decrement n (simple_barrier_init b (word_of_nat n)) s" "0 < n" "n < 4294967296" "i < n" "j < n"
  shows "passed s i \<le> passed s j + (if bpc s j = B_out then 0 else 1)"
  by (rule kernel_fetch.reach_safe [OF assms])

definition two_tasks :: "bar_sys" where
  "two_tasks = \<lparr>bar = \<lparr>bar_sense = 0, bar_ntasks = 2, bar_count = 2\<rparr>, bpc = (\<lambda>_. B_out)(0 := B_dec 1), passed = (\<lambda>_. 0)\<rparr>"

lemma two_tasks_reached:
  "bar_reach kernel_decrement 2 (simple_barrier_init b (word_of_nat 2)) two_tasks"
  "bar_reach user_decrement 2 (barrier_init b (word_of_nat 2)) two_tasks"
proof -
  have "bar_reach f 2 (simple_barrier_init \<lparr>bar_sense = x, bar_ntasks = y, bar_count = z\<rparr> (word_of_nat 2)) two_tasks" for f x y z
    by (rule bar_next [OF bar_start])
      (use bar_step.enter [of 0 2 "\<lparr>bar = \<lparr>bar_sense = 0, bar_ntasks = 2, bar_count = 2\<rparr>, bpc = (\<lambda>_. B_out), passed = (\<lambda>_. 0)\<rparr>" f]
        in \<open>simp add: simple_barrier_init_def two_tasks_def expected_sense_def\<close>)
  then show "bar_reach kernel_decrement 2 (simple_barrier_init b (word_of_nat 2)) two_tasks"
    "bar_reach user_decrement 2 (barrier_init b (word_of_nat 2)) two_tasks"
    unfolding barrier_inits by (metis simple_barrier.cases)+
qed

theorem simple_barrier_safe_witness:
  "passed two_tasks 1 \<le> passed two_tasks 0 + 1"
  using simple_barrier_safe [OF two_tasks_reached(1) [of undefined], of 1 0] by (simp add: two_tasks_def)

text \<open>The simple barrier of the user library never blocks for good: a task inside it either waits for
  a task that has not begun the same round, or some task inside it can move.\<close>

theorem user_barrier_progress:
  assumes "bar_reach user_decrement n (barrier_init b (word_of_nat n)) s" "0 < n" "n < 4294967296" "i < n" "bpc s i \<noteq> B_out"
  shows "(\<exists>j<n. \<exists>t. bpc s j \<noteq> B_out \<and> user_bar_step n s t \<and> bpc t j \<noteq> bpc s j) \<or>
    (\<exists>j<n. bpc s j = B_out \<and> passed s j = passed s i)"
  using user_fetch.reach_progress assms unfolding barrier_inits user_bar_step_def by blast

theorem user_barrier_progress_witness:
  "\<exists>j t. bpc two_tasks j \<noteq> B_out \<and> user_bar_step 2 two_tasks t \<or> bpc two_tasks j = B_out \<and> passed two_tasks j = 0"
  using user_barrier_progress [OF two_tasks_reached(2) [of undefined], of 0] by (auto simp: two_tasks_def)

end
