(* ===== verification/Sqt_Barrier.thy ===== *)
theory Sqt_Barrier
  imports Sqt Barrier
begin

text \<open>
  The distributed barrier: \<open>_sqt_barrier_decrement\<close>, \<open>_sqt_barrier_wait\<close> (\<open>kernel_barriers.c\<close>) and
  \<open>sqt_barrier_decrement\<close>, \<open>sqt_barrier_wait\<close> (\<open>user_barrier.c\<close>). The recursion goes up the tree while
  the caller is the last at a node; the program counter holds the level it is at and the expected
  senses of the nodes below, which are the local variables of the suspended calls. \<open>sqb_move\<close> is one
  access of one task to a node. The node is released before its counter is reset: the last theorem
  is an execution in which that order loses an arrival and blocks all tasks.
\<close>

datatype sqb_pc = Q_out | Q_read nat "u32 list" | Q_dec nat "u32 list" | Q_poll nat "u32 list"
  | Q_sense nat "u32 list" | Q_count nat "u32 list"

record sqb_sys =
  bnodes :: "u32 \<Rightarrow> sqt_barrier_node"
  qpc :: "nat \<Rightarrow> sqb_pc"

text \<open>The return of the call at level \<open>l\<close>: to the call of the node below, which resets its node, or out.\<close>

definition sqb_return :: "nat \<Rightarrow> u32 list \<Rightarrow> sqb_pc" where
  "sqb_return l es = (if l = 0 then Q_out else Q_sense (l - 1) es)"

definition sqb_node :: "(nat \<Rightarrow> u32) \<Rightarrow> sqb_sys \<Rightarrow> nat \<Rightarrow> nat \<Rightarrow> u32" where
  "sqb_node leaf s i l = climb sb_parent (bnodes s) l (leaf i)"

definition sqb_goto :: "nat \<Rightarrow> sqb_pc \<Rightarrow> sqb_sys \<Rightarrow> sqb_sys" where
  "sqb_goto i pc s = s\<lparr>qpc := (qpc s)(i := pc)\<rparr>"

definition sqb_set :: "u32 \<Rightarrow> sqt_barrier_node \<Rightarrow> sqb_sys \<Rightarrow> sqb_sys" where
  "sqb_set p nd s = s\<lparr>bnodes := (bnodes s)(p := nd)\<rparr>"

definition sqb_move :: "(u32 \<Rightarrow> u32 \<times> u32) \<Rightarrow> (nat \<Rightarrow> u32) \<Rightarrow> nat \<Rightarrow> sqb_sys \<Rightarrow> sqb_sys" where
  "sqb_move dcr leaf i s =
     (let p = sqb_node leaf s i; nd = (\<lambda>l. bnodes s (p l))
      in case qpc s i of
           Q_out \<Rightarrow> sqb_goto i (Q_read 0 []) s
         | Q_read l es \<Rightarrow> sqb_goto i (Q_dec l (expected_sense (sb_sense (nd l)) # es)) s
         | Q_dec l es \<Rightarrow>
             (let (count, count') = dcr (sb_count (nd l));
                  s' = sqb_set (p l) ((nd l)\<lparr>sb_count := count'\<rparr>) s
              in if count = 1
                 then if sb_parent (nd l) \<noteq> 0 then sqb_goto i (Q_read (Suc l) es) s' else sqb_goto i (Q_sense l es) s'
                 else sqb_goto i (Q_poll l es) s')
         | Q_poll l es \<Rightarrow> if sb_sense (nd l) \<noteq> hd es then s else sqb_goto i (sqb_return l (tl es)) s
         | Q_sense l es \<Rightarrow> sqb_goto i (Q_count l es) (sqb_set (p l) ((nd l)\<lparr>sb_sense := hd es\<rparr>) s)
         | Q_count l es \<Rightarrow>
             sqb_goto i (sqb_return l (tl es)) (sqb_set (p l) ((nd l)\<lparr>sb_count := sb_arity (nd l)\<rparr>) s))"

text \<open>The user library's copy decrements with its own LL/SC loop.\<close>

definition user_sqb_move :: "(nat \<Rightarrow> u32) \<Rightarrow> nat \<Rightarrow> sqb_sys \<Rightarrow> sqb_sys" where
  "user_sqb_move = sqb_move user_decrement"

inductive sqb_reach :: "(u32 \<Rightarrow> u32 \<times> u32) \<Rightarrow> (nat \<Rightarrow> u32) \<Rightarrow> nat \<Rightarrow> (u32 \<Rightarrow> sqt_barrier_node) \<Rightarrow> sqb_sys \<Rightarrow> bool"
  for dcr leaf n nd where
  sqb_start: "sqb_reach dcr leaf n nd \<lparr>bnodes = nd, qpc = (\<lambda>_. Q_out)\<rparr>"
| sqb_next: "sqb_reach dcr leaf n nd s \<Longrightarrow> i < n \<Longrightarrow> sqb_reach dcr leaf n nd (sqb_move dcr leaf i s)"

lemma sqb_schedule:
  assumes "\<forall>i\<in>set is. i < n" "sqb_reach dcr leaf n nd s"
  shows "sqb_reach dcr leaf n nd (fold (sqb_move dcr leaf) is s)"
  using assms by (induction "is" arbitrary: s) (simp_all add: sqb_next)

definition one_node :: "u32 \<Rightarrow> u32 \<Rightarrow> sqt_barrier_node" where
  "one_node count sense = \<lparr>sb_arity = 2, sb_count = count, sb_sense = sense, sb_level = 0, sb_parent = 0, sb_child = [0, 0, 0, 0]\<rparr>"

definition deadlock_schedule :: "nat list" where
  "deadlock_schedule = [0, 0, 0] @ [1, 1, 1, 1] @ [0, 0, 0, 0] @ [1] @ [1, 1, 1]"

lemma deadlock_run:
  "let s = fold (sqb_move kernel_decrement (\<lambda>_. 0x10)) deadlock_schedule \<lparr>bnodes = st(0x10 := one_node 2 0), qpc = (\<lambda>_. Q_out)\<rparr>
   in qpc s 0 = Q_poll 0 [0] \<and> qpc s 1 = Q_poll 0 [0] \<and> sb_sense (bnodes s 0x10) = 1 \<and> (sb_count (bnodes s 0x10)) = 1"
  by (simp add: deadlock_schedule_def sqb_move_def sqb_goto_def sqb_set_def sqb_node_def sqb_return_def one_node_def
      expected_sense_def kernel_decrement_def atomic_increment_def Let_def)

text \<open>C19: The distributed barrier can block for good: a barrier of one node built for two tasks, both of which
  call it again as soon as they leave it, reaches a state in which both tasks poll for a sense that no
  step will write.\<close>

theorem sqt_barrier_deadlock:
  "\<exists>s. sqb_reach kernel_decrement (\<lambda>_. 0x10) 2 (sqt_barrier_build 2 (\<lambda>_ _ _. 0x10) 1 1 0 0 0 0 st) s \<and>
     (\<exists>e. qpc s 0 = Q_poll 0 [e] \<and> qpc s 1 = Q_poll 0 [e] \<and> sb_sense (bnodes s 0x10) \<noteq> e) \<and>
     {sqb_move kernel_decrement (\<lambda>_. 0x10) i s | i. i < 2} = {s}"
proof -
  let ?s0 = "\<lparr>bnodes = st(0x10 := one_node 2 0), qpc = (\<lambda>_. Q_out)\<rparr>"
  let ?s = "fold (sqb_move kernel_decrement (\<lambda>_. 0x10)) deadlock_schedule ?s0"
  have "sqt_barrier_build 2 (\<lambda>_ _ _. 0x10) 1 1 0 0 0 0 st = st(0x10 := one_node 2 0)"
    by (simp add: sqt_barrier_build_def barrier_node_def one_node_def Let_def)
  moreover have "sqb_reach kernel_decrement (\<lambda>_. 0x10) 2 (st(0x10 := one_node 2 0)) ?s"
    by (rule sqb_schedule [OF _ sqb_start]) (simp add: deadlock_schedule_def)
  moreover have run: "qpc ?s 0 = Q_poll 0 [0]" "qpc ?s 1 = Q_poll 0 [0]" "sb_sense (bnodes ?s 0x10) = 1"
    using deadlock_run [of st] unfolding Let_def by blast+
  moreover have "sqb_move kernel_decrement (\<lambda>_. 0x10) i ?s = ?s" if "i < 2" for i
  proof -
    have "i = 0 \<or> i = 1" using that by linarith
    then have "qpc ?s i = Q_poll 0 [0]" using run by blast
    then show ?thesis using run(3) by (simp add: sqb_move_def sqb_node_def)
  qed
  then have "{sqb_move kernel_decrement (\<lambda>_. 0x10) i ?s | i. i < 2} = {?s}" by (auto intro!: exI [of _ 0])
  ultimately show ?thesis by (intro exI [of _ ?s]) auto
qed

end
