(* ===== verification/Kernel_State.thy ===== *)
theory Kernel_State
  imports Spin_Lock Mapping_Info
begin

text \<open>
  The state of the kernel after its initialisation: the schedulers (\<open>giet_kernel/ctx_handler.h\<close>), one
  per processor, the channel allocators of \<open>giet_kernel/sys_handler.c\<close>, the mailbox allocators of
  \<open>giet_kernel/irq_handler.c\<close>, the device registers behind the drivers \<open>xcu_driver.c\<close>,
  \<open>pic_driver.c\<close> and \<open>cma_driver.c\<close>, and the registers of each processor that \<open>switch.s\<close> saves.
  The constants of \<open>hard_config.h\<close> (a file the build generates) are the fields of \<open>hard_config\<close>. An
  operation runs on the processor whose identifier \<open>gpid\<close> (\<open>_get_procid\<close>) is its argument.
\<close>

section \<open>Configuration\<close>

record hard_config =
  cX_SIZE :: nat
  cY_SIZE :: nat
  cX_WIDTH :: nat
  cY_WIDTH :: nat
  cP_WIDTH :: nat
  cNB_PROCS_MAX :: u32
  cIRQ_PER_PROCESSOR :: u32
  cNB_TTY_CHANNELS :: u32
  cNB_TIM_CHANNELS :: u32
  cNB_NIC_CHANNELS :: u32
  cNB_CMA_CHANNELS :: u32
  cUSE_PIC :: bool
  cSEG_XCU_BASE :: u32
  cPERI_CLUSTER_INCREMENT :: u32
  cSEG_PIC_BASE :: u32
  cSEG_CMA_BASE :: u32
  cCTX_ERET :: u32

definition GIET_ISR_TYPE_MAX :: u32 where "GIET_ISR_TYPE_MAX = 32"
definition GIET_ISR_CHANNEL_MAX :: u32 where "GIET_ISR_CHANNEL_MAX = 8"
definition GIET_SR_INIT_VALUE :: u32 where "GIET_SR_INIT_VALUE = 0x2000FF13"

text \<open>The slots of a task context.\<close>

definition CTX_SP_ID :: nat where "CTX_SP_ID = 29"
definition CTX_RA_ID :: nat where "CTX_RA_ID = 31"
definition CTX_EPC_ID :: nat where "CTX_EPC_ID = 32"
definition CTX_SR_ID :: nat where "CTX_SR_ID = 34"
definition CTX_LTID_ID :: nat where "CTX_LTID_ID = 37"
definition CTX_VSID_ID :: nat where "CTX_VSID_ID = 38"
definition CTX_TTY_ID :: nat where "CTX_TTY_ID = 40"
definition CTX_CMA_FB_ID :: nat where "CTX_CMA_FB_ID = 41"
definition CTX_NIC_RX_ID :: nat where "CTX_NIC_RX_ID = 44"
definition CTX_NIC_TX_ID :: nat where "CTX_NIC_TX_ID = 45"
definition CTX_TIM_ID :: nat where "CTX_TIM_ID = 46"
definition CTX_GTID_ID :: nat where "CTX_GTID_ID = 49"
definition CTX_NORUN_ID :: nat where "CTX_NORUN_ID = 50"
definition CTX_ENTRY_ID :: nat where "CTX_ENTRY_ID = 52"
definition CTX_SIG_ID :: nat where "CTX_SIG_ID = 53"

lemmas ctx_slots = CTX_SP_ID_def CTX_RA_ID_def CTX_EPC_ID_def CTX_SR_ID_def CTX_LTID_ID_def CTX_VSID_ID_def
  CTX_TTY_ID_def CTX_CMA_FB_ID_def CTX_NIC_RX_ID_def CTX_NIC_TX_ID_def CTX_TIM_ID_def CTX_GTID_ID_def
  CTX_NORUN_ID_def CTX_ENTRY_ID_def CTX_SIG_ID_def

definition NORUN_MASK_TASK :: u32 where "NORUN_MASK_TASK = 1"
definition SIG_MASK_KILL :: u32 where "SIG_MASK_KILL = 1"
definition SIG_MASK_EXEC :: u32 where "SIG_MASK_EXEC = 2"
definition IDLE_TASK_INDEX :: u32 where "IDLE_TASK_INDEX = 13"

section \<open>Schedulers and kernel data\<close>

text \<open>\<open>context[ltid][slot]\<close> is a total function here: the invariants keep \<open>ltid\<close> below 14 and every
  slot of the code is below 64.\<close>

record static_scheduler =
  ctx :: "nat \<Rightarrow> nat \<Rightarrow> u32"
  sched_tasks :: u32
  current_task :: u32
  hwi_vector :: "nat \<Rightarrow> u32"
  pti_vector :: "nat \<Rightarrow> u32"
  wti_vector :: "nat \<Rightarrow> u32"

record kstate =
  schedulers :: "static_scheduler array3"
  tty_channel :: "nat \<Rightarrow> u32"
  tim_channel_allocator :: u32
  cma_channel :: "nat \<Rightarrow> u32"
  nic_rx_channel_allocator :: u32
  nic_tx_channel_allocator :: u32
  tty_rx_full :: "nat \<Rightarrow> u32"
  ext_irq_index :: "nat \<Rightarrow> nat \<Rightarrow> u8"
  wti_alloc_one :: "u8 array3"
  wti_alloc_two :: "u8 array3"
  wti_alloc_ter :: "u8 array3"
  device :: "u32 \<Rightarrow> u32"
  cpu :: "(nat \<Rightarrow> u32) array3"

text \<open>The coordinates of the calling processor.\<close>

definition proc_x :: "hard_config \<Rightarrow> u32 \<Rightarrow> nat" where
  "proc_x cf gpid = unat (drop_bit (cY_WIDTH cf + cP_WIDTH cf) gpid)"

definition proc_y :: "hard_config \<Rightarrow> u32 \<Rightarrow> nat" where
  "proc_y cf gpid = unat (drop_bit (cP_WIDTH cf) gpid AND (push_bit (cY_WIDTH cf) 1 - 1))"

definition proc_p :: "hard_config \<Rightarrow> u32 \<Rightarrow> nat" where
  "proc_p cf gpid = unat (gpid AND (push_bit (cP_WIDTH cf) 1 - 1))"

definition cluster_xy :: "hard_config \<Rightarrow> u32 \<Rightarrow> u32" where
  "cluster_xy cf gpid = drop_bit (cP_WIDTH cf) gpid"

text \<open>The scheduler of the calling processor; \<open>_get_sched\<close> reads its address from a register that
  the initialisation sets to \<open>_schedulers[x][y][p]\<close>.\<close>

definition get_sched :: "hard_config \<Rightarrow> u32 \<Rightarrow> kstate \<Rightarrow> static_scheduler" where
  "get_sched cf gpid s = schedulers s (proc_x cf gpid) (proc_y cf gpid) (proc_p cf gpid)"

definition set_sched :: "hard_config \<Rightarrow> u32 \<Rightarrow> static_scheduler \<Rightarrow> kstate \<Rightarrow> kstate" where
  "set_sched cf gpid d s =
     s\<lparr>schedulers := upd3 (schedulers s) (proc_x cf gpid) (proc_y cf gpid) (proc_p cf gpid) d\<rparr>"

definition set_slot :: "nat \<Rightarrow> nat \<Rightarrow> u32 \<Rightarrow> static_scheduler \<Rightarrow> static_scheduler" where
  "set_slot ltid slot value d = d\<lparr>ctx := (ctx d)(ltid := (ctx d ltid)(slot := value))\<rparr>"

definition get_current_task_id :: "hard_config \<Rightarrow> u32 \<Rightarrow> kstate \<Rightarrow> u32" where
  "get_current_task_id cf gpid s = current_task (get_sched cf gpid s)"

definition get_context_slot :: "hard_config \<Rightarrow> u32 \<Rightarrow> nat \<Rightarrow> kstate \<Rightarrow> u32" where
  "get_context_slot cf gpid slot s =
     (let psched = get_sched cf gpid s; task_id = current_task psched in ctx psched (unat task_id) slot)"

definition set_context_slot :: "hard_config \<Rightarrow> u32 \<Rightarrow> nat \<Rightarrow> u32 \<Rightarrow> kstate \<Rightarrow> kstate" where
  "set_context_slot cf gpid slot value s =
     (let psched = get_sched cf gpid s; task_id = current_task psched
      in set_sched cf gpid (set_slot (unat task_id) slot value psched) s)"

lemma get_set_sched [simp]: "get_sched cf gpid (set_sched cf gpid d s) = d"
  by (simp add: get_sched_def set_sched_def)

lemma set_get_sched [simp]: "set_sched cf gpid (get_sched cf gpid s) s = s"
  by (simp add: get_sched_def set_sched_def)

lemma set_set_sched [simp]: "set_sched cf gpid d (set_sched cf gpid c s) = set_sched cf gpid d s"
  by (simp add: set_sched_def)

lemma set_slot_simps [simp]:
  "ctx (set_slot i k v d) j l = (if j = i \<and> l = k then v else ctx d j l)"
  "sched_tasks (set_slot i k v d) = sched_tasks d" "current_task (set_slot i k v d) = current_task d"
  "wti_vector (set_slot i k v d) = wti_vector d"
  by (simp_all add: set_slot_def)

section \<open>The interrupt controllers\<close>

text \<open>\<open>xcu_driver.c\<close>: the address of a register, its access, and the operations with their parameter
  checks; a failed check calls \<open>_exit\<close>.\<close>

datatype xcu_func = XCU_WTI_REG | XCU_PTI_PER | XCU_PTI_ACK | XCU_MSK_PTI_ENABLE | XCU_MSK_HWI_ENABLE
  | XCU_MSK_WTI_ENABLE | XCU_PRIO

fun xcu_func_code :: "xcu_func \<Rightarrow> u32" where
  "xcu_func_code XCU_WTI_REG = 0"
| "xcu_func_code XCU_PTI_PER = 1"
| "xcu_func_code XCU_PTI_ACK = 3"
| "xcu_func_code XCU_MSK_PTI_ENABLE = 5"
| "xcu_func_code XCU_MSK_HWI_ENABLE = 9"
| "xcu_func_code XCU_MSK_WTI_ENABLE = 13"
| "xcu_func_code XCU_PRIO = 15"

definition XCU_REG :: "xcu_func \<Rightarrow> u32 \<Rightarrow> u32" where
  "XCU_REG func index = push_bit 5 (xcu_func_code func) OR index"

definition xcu_vaddr :: "hard_config \<Rightarrow> u32 \<Rightarrow> xcu_func \<Rightarrow> u32 \<Rightarrow> u32" where
  "xcu_vaddr cf cxy func index =
     cSEG_XCU_BASE cf + cxy * cPERI_CLUSTER_INCREMENT cf + push_bit 2 (XCU_REG func index)"

definition xcu_get_register :: "hard_config \<Rightarrow> u32 \<Rightarrow> xcu_func \<Rightarrow> u32 \<Rightarrow> kstate \<Rightarrow> u32" where
  "xcu_get_register cf cxy func index s = device s (xcu_vaddr cf cxy func index)"

text \<open>A write to an enable register sets the bits that are 1 in the value, and keeps the others.\<close>

definition xcu_written :: "xcu_func \<Rightarrow> u32 \<Rightarrow> u32 \<Rightarrow> u32" where
  "xcu_written func old value =
     (if func = XCU_MSK_PTI_ENABLE \<or> func = XCU_MSK_HWI_ENABLE \<or> func = XCU_MSK_WTI_ENABLE then old OR value else value)"

definition xcu_set_register :: "hard_config \<Rightarrow> u32 \<Rightarrow> xcu_func \<Rightarrow> u32 \<Rightarrow> u32 \<Rightarrow> kstate \<Rightarrow> kstate" where
  "xcu_set_register cf cxy func index value s =
     (let vaddr = xcu_vaddr cf cxy func index
      in s\<lparr>device := (device s)(vaddr := xcu_written func (device s vaddr) value)\<rparr>)"

definition xcu_check :: "hard_config \<Rightarrow> u32 \<Rightarrow> bool" where
  "xcu_check cf cxy \<longleftrightarrow> unat (drop_bit (cY_WIDTH cf) cxy) < cX_SIZE cf \<and>
     unat (cxy AND (push_bit (cY_WIDTH cf) 1 - 1)) < cY_SIZE cf"

definition xcu_set_mask :: "hard_config \<Rightarrow> u32 \<Rightarrow> u32 \<Rightarrow> u32 \<Rightarrow> irq_type \<Rightarrow> kstate \<Rightarrow> (panic + kstate) option" where
  "xcu_set_mask cf cxy channel value irq_type s =
     (if \<not> xcu_check cf cxy then Some (Inl Illegal_coordinates)
      else if channel \<ge> cNB_PROCS_MAX cf * cIRQ_PER_PROCESSOR cf then Some (Inl Illegal_coordinates)
      else
        let func = (case irq_type of IRQ_TYPE_PTI \<Rightarrow> XCU_MSK_PTI_ENABLE
                    | IRQ_TYPE_WTI \<Rightarrow> XCU_MSK_WTI_ENABLE | IRQ_TYPE_HWI \<Rightarrow> XCU_MSK_HWI_ENABLE)
        in Some (Inr (xcu_set_register cf cxy func channel value s)))"

text \<open>The index 32 says that no interrupt is active; the type is then left as it was.\<close>

definition xcu_get_index :: "hard_config \<Rightarrow> u32 \<Rightarrow> u32 \<Rightarrow> irq_type \<Rightarrow> kstate \<Rightarrow> (panic + u32 \<times> irq_type) option" where
  "xcu_get_index cf cxy channel irq_type0 s =
     (if \<not> xcu_check cf cxy then Some (Inl Illegal_coordinates)
      else if channel \<ge> cNB_PROCS_MAX cf * cIRQ_PER_PROCESSOR cf then Some (Inl Illegal_coordinates)
      else
        let prio = xcu_get_register cf cxy XCU_PRIO channel s;
            pti_ok = prio AND 0x00000001; hwi_ok = prio AND 0x00000002; wti_ok = prio AND 0x00000004;
            pti_id = drop_bit 8 (prio AND 0x00001F00); hwi_id = drop_bit 16 (prio AND 0x001F0000);
            wti_id = drop_bit 24 (prio AND 0x1F000000)
        in Some (Inr (if pti_ok \<noteq> 0 then (pti_id, IRQ_TYPE_PTI)
                      else if hwi_ok \<noteq> 0 then (hwi_id, IRQ_TYPE_HWI)
                      else if wti_ok \<noteq> 0 then (wti_id, IRQ_TYPE_WTI)
                      else (32, irq_type0))))"

definition xcu_send_wti :: "hard_config \<Rightarrow> u32 \<Rightarrow> u32 \<Rightarrow> u32 \<Rightarrow> kstate \<Rightarrow> (panic + kstate) option" where
  "xcu_send_wti cf cxy wti_index wdata s =
     (if \<not> xcu_check cf cxy then Some (Inl Illegal_coordinates)
      else if wti_index \<ge> 32 then Some (Inl Illegal_wti_index)
      else Some (Inr (xcu_set_register cf cxy XCU_WTI_REG wti_index wdata s)))"

definition xcu_get_wti_value :: "hard_config \<Rightarrow> u32 \<Rightarrow> u32 \<Rightarrow> kstate \<Rightarrow> (panic + u32) option" where
  "xcu_get_wti_value cf cxy wti_index s =
     (if \<not> xcu_check cf cxy then Some (Inl Illegal_coordinates)
      else if wti_index \<ge> 32 then Some (Inl Illegal_wti_index)
      else Some (Inr (xcu_get_register cf cxy XCU_WTI_REG wti_index s)))"

definition xcu_get_wti_address :: "hard_config \<Rightarrow> u32 \<Rightarrow> (panic + u32) option" where
  "xcu_get_wti_address cf wti_index =
     (if wti_index \<ge> 32 then Some (Inl Illegal_wti_index)
      else Some (Inr (cSEG_XCU_BASE cf + push_bit 2 (XCU_REG XCU_WTI_REG wti_index))))"

definition xcu_timer_start :: "hard_config \<Rightarrow> u32 \<Rightarrow> u32 \<Rightarrow> u32 \<Rightarrow> kstate \<Rightarrow> (panic + kstate) option" where
  "xcu_timer_start cf cxy pti_index period s =
     (if \<not> xcu_check cf cxy then Some (Inl Illegal_coordinates)
      else Some (Inr (xcu_set_register cf cxy XCU_PTI_PER pti_index period s)))"

definition xcu_timer_stop :: "hard_config \<Rightarrow> u32 \<Rightarrow> u32 \<Rightarrow> kstate \<Rightarrow> (panic + kstate) option" where
  "xcu_timer_stop cf cxy pti_index s =
     (if \<not> xcu_check cf cxy then Some (Inl Illegal_coordinates)
      else Some (Inr (xcu_set_register cf cxy XCU_PTI_PER pti_index 0 s)))"

text \<open>The acknowledge is a read whose value is dropped.\<close>

definition xcu_timer_reset_irq :: "hard_config \<Rightarrow> u32 \<Rightarrow> u32 \<Rightarrow> kstate \<Rightarrow> (panic + kstate) option" where
  "xcu_timer_reset_irq cf cxy pti_index s =
     (if \<not> xcu_check cf cxy then Some (Inl Illegal_coordinates) else Some (Inr s))"

definition xcu_timer_reset_cpt :: "hard_config \<Rightarrow> u32 \<Rightarrow> u32 \<Rightarrow> kstate \<Rightarrow> (panic + kstate) option" where
  "xcu_timer_reset_cpt cf cxy pti_index s =
     (if \<not> xcu_check cf cxy then Some (Inl Illegal_coordinates)
      else
        let per = xcu_get_register cf cxy XCU_PTI_PER pti_index s
        in Some (Inr (xcu_set_register cf cxy XCU_PTI_PER pti_index per
             (xcu_set_register cf cxy XCU_PTI_PER pti_index 0 s))))"

text \<open>\<open>pic_driver.c\<close> and the register access of \<open>cma_driver.c\<close>; the addresses are pointers to words.\<close>

definition IOPIC_ADDRESS :: u32 where "IOPIC_ADDRESS = 0"
definition IOPIC_EXTEND :: u32 where "IOPIC_EXTEND = 1"
definition IOPIC_MASK :: u32 where "IOPIC_MASK = 3"
definition IOPIC_SPAN :: u32 where "IOPIC_SPAN = 4"

definition pic_set_register :: "hard_config \<Rightarrow> u32 \<Rightarrow> u32 \<Rightarrow> u32 \<Rightarrow> kstate \<Rightarrow> kstate" where
  "pic_set_register cf channel index value s =
     s\<lparr>device := (device s)(cSEG_PIC_BASE cf + 4 * (channel * IOPIC_SPAN + index) := value)\<rparr>"

definition pic_init :: "hard_config \<Rightarrow> u32 \<Rightarrow> u32 \<Rightarrow> u32 \<Rightarrow> kstate \<Rightarrow> kstate" where
  "pic_init cf channel vaddr exten s =
     pic_set_register cf channel IOPIC_MASK 1
       (pic_set_register cf channel IOPIC_EXTEND exten (pic_set_register cf channel IOPIC_ADDRESS vaddr s))"

definition CHBUF_RUN :: u32 where "CHBUF_RUN = 0"
definition CHBUF_CHANNEL_SPAN :: u32 where "CHBUF_CHANNEL_SPAN = 1024"

definition cma_set_register :: "hard_config \<Rightarrow> u32 \<Rightarrow> u32 \<Rightarrow> u32 \<Rightarrow> kstate \<Rightarrow> kstate" where
  "cma_set_register cf channel index value s =
     s\<lparr>device := (device s)(cSEG_CMA_BASE cf + 4 * (channel * CHBUF_CHANNEL_SPAN + index) := value)\<rparr>"

text \<open>Device writes touch the registers only, and the timer keeps its period.\<close>

lemma device_frame [simp]:
  "get_sched cf gpid (xcu_set_register cf c f i v s) = get_sched cf gpid s"
  "get_sched cf gpid (pic_set_register cf ch i v s) = get_sched cf gpid s"
  "get_sched cf gpid (pic_init cf ch a e s) = get_sched cf gpid s"
  "get_sched cf gpid (cma_set_register cf ch i v s) = get_sched cf gpid s"
  by (simp_all add: get_sched_def xcu_set_register_def Let_def pic_set_register_def pic_init_def cma_set_register_def)

lemma timer_reset_cpt_keeps:
  "xcu_check cf cxy \<Longrightarrow> xcu_timer_reset_cpt cf cxy i s = Some (Inr s)"
  by (simp add: xcu_timer_reset_cpt_def xcu_get_register_def xcu_set_register_def xcu_written_def Let_def)

end
