(* ===== verification/Channels.thy ===== *)
theory Channels
  imports Kernel_State
begin

text \<open>
  The routing of external interrupts to mailboxes (\<open>_ext_irq_init\<close>, \<open>_ext_irq_alloc\<close>,
  \<open>_ext_irq_release\<close> of \<open>giet_kernel/irq_handler.c\<close>) and the allocators of peripheral channels
  (\<open>giet_kernel/sys_handler.c\<close>): a table of flags for the terminals and the chained-buffer DMA, and a
  counter for the timers and the network controllers.
\<close>

section \<open>Mailboxes for external interrupts\<close>

definition is_pic :: "mapping \<Rightarrow> nat \<Rightarrow> bool" where
  "is_pic mp i \<longleftrightarrow> i < length (periphs mp) \<and> periph_type_of (periphs mp ! i) = PERIPH_TYPE_PIC"

fun ext_irq_init_loop :: "mapping_irq list \<Rightarrow> kstate \<Rightarrow> (panic + kstate) option" where
  "ext_irq_init_loop [] s = Some (Inr s)"
| "ext_irq_init_loop (q # qs) s =
     (if irq_srctype q \<noteq> IRQ_TYPE_HWI \<or> irq_srcid q > 31 \<or> irq_isr q \<ge> unat GIET_ISR_TYPE_MAX \<or>
         irq_channel q \<ge> unat GIET_ISR_CHANNEL_MAX
      then Some (Inl Bad_pic_irq)
      else ext_irq_init_loop qs (s\<lparr>ext_irq_index := (ext_irq_index s)
             (irq_isr q := (ext_irq_index s (irq_isr q))(irq_channel q := word_of_nat (irq_srcid q)))\<rparr>))"

definition ext_irq_init :: "hard_config \<Rightarrow> mapping \<Rightarrow> kstate \<Rightarrow> (panic + kstate) option" where
  "ext_irq_init cf mp s =
     Option.bind (fetch (clusters mp) (x_io (hdr mp) * cY_SIZE cf + y_io (hdr mp))) (\<lambda>c.
       let lo = cl_periph_offset c; hi = lo + cl_periphs c
       in if hi > length (periphs mp) then None
          else case filter (is_pic mp) [lo..<hi] of
                 [] \<Rightarrow> Some (Inl No_pic_component)
               | i # _ \<Rightarrow>
                   let pic = periphs mp ! i
                   in if periph_irq_offset pic + periph_irqs pic > length (irqs mp) then None
                      else ext_irq_init_loop (take (periph_irqs pic) (drop (periph_irq_offset pic) (irqs mp))) s)"

text \<open>A processor owns three mailboxes; with none free the loop never ends.\<close>

definition wti_alloc :: "hard_config \<Rightarrow> nat \<Rightarrow> nat \<Rightarrow> nat \<Rightarrow> kstate \<Rightarrow> (u32 \<times> kstate) option" where
  "wti_alloc cf x y p s =
     (if wti_alloc_one s x y p = 0
      then Some (word_of_nat p + cNB_PROCS_MAX cf, s\<lparr>wti_alloc_one := upd3 (wti_alloc_one s) x y p 1\<rparr>)
      else if wti_alloc_two s x y p = 0
      then Some (word_of_nat p + 2 * cNB_PROCS_MAX cf, s\<lparr>wti_alloc_two := upd3 (wti_alloc_two s) x y p 1\<rparr>)
      else if wti_alloc_ter s x y p = 0
      then Some (word_of_nat p + 3 * cNB_PROCS_MAX cf, s\<lparr>wti_alloc_ter := upd3 (wti_alloc_ter s) x y p 1\<rparr>)
      else None)"

definition isr_entry :: "u32 \<Rightarrow> u32 \<Rightarrow> u32" where
  "isr_entry isr_type isr_channel = push_bit 16 isr_channel OR isr_type"

definition ext_irq_alloc :: "hard_config \<Rightarrow> u32 \<Rightarrow> u32 \<Rightarrow> u32 \<Rightarrow> kstate \<Rightarrow> (panic + u32 \<times> kstate) option" where
  "ext_irq_alloc cf gpid isr_type isr_channel s =
     (if isr_type \<ge> GIET_ISR_TYPE_MAX then Some (Inl Illegal_isr_type)
      else if isr_channel \<ge> GIET_ISR_CHANNEL_MAX then Some (Inl Illegal_isr_channel)
      else
        Option.bind (wti_alloc cf (proc_x cf gpid) (proc_y cf gpid) (proc_p cf gpid) s) (\<lambda>(wti_id, s).
          let irq_id = ucast (ext_irq_index s (unat isr_type) (unat isr_channel))
          in obind (xcu_get_wti_address cf wti_id) (\<lambda>wti_addr.
            let s = pic_init cf irq_id wti_addr (cluster_xy cf gpid) s;
                psched = get_sched cf gpid s
            in Some (Inr (wti_id, set_sched cf gpid
                 (psched\<lparr>wti_vector := (wti_vector psched)(unat wti_id := isr_entry isr_type isr_channel)\<rparr>) s)))))"

definition ext_irq_release :: "hard_config \<Rightarrow> u32 \<Rightarrow> u32 \<Rightarrow> u32 \<Rightarrow> kstate \<Rightarrow> (panic + kstate) option" where
  "ext_irq_release cf gpid isr_type isr_channel s =
     (let x = proc_x cf gpid; y = proc_y cf gpid; p = proc_p cf gpid
      in if isr_type \<ge> GIET_ISR_TYPE_MAX then Some (Inl Illegal_isr_type)
         else if isr_channel \<ge> GIET_ISR_CHANNEL_MAX then Some (Inl Illegal_isr_channel)
         else
           case find (\<lambda>i. wti_vector (get_sched cf gpid s) i = isr_entry isr_type isr_channel) [0..<32] of
             None \<Rightarrow> Some (Inr s)
           | Some i \<Rightarrow>
               let wti_id = word_of_nat i :: u32;
                   irq_id = ucast (ext_irq_index s (unat isr_type) (unat isr_channel));
                   s = pic_set_register cf irq_id IOPIC_MASK 0 s
               in if wti_id = word_of_nat p + cNB_PROCS_MAX cf
                  then Some (Inr (s\<lparr>wti_alloc_one := upd3 (wti_alloc_one s) x y p 0\<rparr>))
                  else if wti_id = word_of_nat p + 2 * cNB_PROCS_MAX cf
                  then Some (Inr (s\<lparr>wti_alloc_two := upd3 (wti_alloc_two s) x y p 0\<rparr>))
                  else if wti_id = word_of_nat p + 3 * cNB_PROCS_MAX cf
                  then Some (Inr (s\<lparr>wti_alloc_ter := upd3 (wti_alloc_ter s) x y p 0\<rparr>))
                  else Some (Inl Illegal_wti_index))"

section \<open>Terminals\<close>

definition ISR_TTY_RX :: u32 where "ISR_TTY_RX = 2"

text \<open>The tasks of a virtual space, as (cluster, processor, local index).\<close>

definition vspace_tasks_of :: "mapping \<Rightarrow> nat \<Rightarrow> (nat \<times> nat \<times> nat \<times> nat) list option" where
  "vspace_tasks_of mp vspace_id =
     Option.bind (fetch (vspace_table mp) vspace_id) (\<lambda>v.
       if task_offset v + vspace_tasks v > length (tasks mp) then None
       else Some (map (\<lambda>t. (task_clusterid t div y_size (hdr mp), task_clusterid t mod y_size (hdr mp),
                            proclocid t, task_ltid t))
              (take (vspace_tasks v) (drop (task_offset v) (tasks mp)))))"

definition update_slot :: "nat \<Rightarrow> (u32 \<Rightarrow> u32) \<Rightarrow> nat \<times> nat \<times> nat \<times> nat \<Rightarrow> kstate \<Rightarrow> kstate" where
  "update_slot slot f t s =
     (case t of (x, y, p, ltid) \<Rightarrow>
        let psched = schedulers s x y p
        in s\<lparr>schedulers := upd3 (schedulers s) x y p (set_slot ltid slot (f (ctx psched ltid slot)) psched)\<rparr>)"

definition sys_tty_alloc :: "hard_config \<Rightarrow> mapping \<Rightarrow> u32 \<Rightarrow> bool \<Rightarrow> kstate \<Rightarrow> (panic + int \<times> kstate) option" where
  "sys_tty_alloc cf mp gpid shar s =
     (if get_context_slot cf gpid CTX_TTY_ID s < cNB_TTY_CHANNELS cf then Some (Inr (0, s))
      else
        case find (\<lambda>i. tty_channel s i = 0) [0..<unat (cNB_TTY_CHANNELS cf)] of
          None \<Rightarrow> Some (Inr (-1, s))
        | Some i \<Rightarrow>
            let channel = word_of_nat i;
                s = s\<lparr>tty_channel := (tty_channel s)(i := 1), tty_rx_full := (tty_rx_full s)(i := 0)\<rparr>
            in obind (if cUSE_PIC cf then obind (ext_irq_alloc cf gpid ISR_TTY_RX channel s) (\<lambda>(_, s). Some (Inr s))
                      else Some (Inr s)) (\<lambda>s.
                 if shar
                 then Option.bind (vspace_tasks_of mp (unat (get_context_slot cf gpid CTX_VSID_ID s))) (\<lambda>ts.
                        Some (Inr (0, fold (update_slot CTX_TTY_ID
                          (\<lambda>v. if v \<ge> cNB_TTY_CHANNELS cf then channel else v)) ts s)))
                 else Some (Inr (0, set_context_slot cf gpid CTX_TTY_ID channel s))))"

definition sys_tty_release :: "hard_config \<Rightarrow> mapping \<Rightarrow> u32 \<Rightarrow> kstate \<Rightarrow> (panic + int \<times> kstate) option" where
  "sys_tty_release cf mp gpid s =
     (let channel = get_context_slot cf gpid CTX_TTY_ID s
      in if channel = -1 then Some (Inr (-1, s))
         else
           obind (if cUSE_PIC cf then ext_irq_release cf gpid ISR_TTY_RX channel s else Some (Inr s)) (\<lambda>s.
             Option.bind (vspace_tasks_of mp (unat (get_context_slot cf gpid CTX_VSID_ID s))) (\<lambda>ts.
               let s = fold (update_slot CTX_TTY_ID (\<lambda>v. if v = channel then -1 else v)) ts s
               in Some (Inr (0, s\<lparr>tty_channel := (tty_channel s)(unat channel := 0)\<rparr>)))))"

section \<open>Timers and network channels\<close>

definition sys_tim_alloc :: "hard_config \<Rightarrow> u32 \<Rightarrow> kstate \<Rightarrow> int \<times> kstate" where
  "sys_tim_alloc cf gpid s =
     (let (channel, next) = atomic_increment (tim_channel_allocator s) 1;
          s = s\<lparr>tim_channel_allocator := next\<rparr>
      in if channel \<ge> cNB_TIM_CHANNELS cf then (-1, s) else (0, set_context_slot cf gpid CTX_TIM_ID channel s))"

definition sys_tim_release :: "kstate \<Rightarrow> int \<times> kstate" where
  "sys_tim_release s =
     (0, s\<lparr>tim_channel_allocator := snd (atomic_increment (tim_channel_allocator s) 0xFFFFFFFF)\<rparr>)"

definition sys_nic_release :: "bool \<Rightarrow> kstate \<Rightarrow> int \<times> kstate" where
  "sys_nic_release is_rx s =
     (0, if is_rx then s\<lparr>nic_rx_channel_allocator := snd (atomic_increment (nic_rx_channel_allocator s) 0xFFFFFFFF)\<rparr>
         else s\<lparr>nic_tx_channel_allocator := snd (atomic_increment (nic_tx_channel_allocator s) 0xFFFFFFFF)\<rparr>)"

section \<open>The frame buffer DMA\<close>

definition sys_fbf_cma_alloc :: "hard_config \<Rightarrow> u32 \<Rightarrow> kstate \<Rightarrow> int \<times> kstate" where
  "sys_fbf_cma_alloc cf gpid s =
     (if get_context_slot cf gpid CTX_CMA_FB_ID s < cNB_CMA_CHANNELS cf then (0, s)
      else
        case find (\<lambda>i. cma_channel s i = 0) [0..<unat (cNB_CMA_CHANNELS cf)] of
          None \<Rightarrow> (-1, s)
        | Some i \<Rightarrow> (0, set_context_slot cf gpid CTX_CMA_FB_ID (word_of_nat i)
                       (s\<lparr>cma_channel := (cma_channel s)(i := 1)\<rparr>)))"

definition sys_fbf_cma_stop :: "hard_config \<Rightarrow> u32 \<Rightarrow> kstate \<Rightarrow> int \<times> kstate" where
  "sys_fbf_cma_stop cf gpid s =
     (let channel = get_context_slot cf gpid CTX_CMA_FB_ID s
      in if channel \<ge> cNB_CMA_CHANNELS cf then (-1, s) else (0, cma_set_register cf channel CHBUF_RUN 0 s))"

definition sys_fbf_cma_release :: "hard_config \<Rightarrow> u32 \<Rightarrow> kstate \<Rightarrow> int \<times> kstate" where
  "sys_fbf_cma_release cf gpid s =
     (let channel = get_context_slot cf gpid CTX_CMA_FB_ID s
      in if channel \<ge> cNB_CMA_CHANNELS cf then (-1, s)
         else
           let s = snd (sys_fbf_cma_stop cf gpid s);
               s = set_context_slot cf gpid CTX_CMA_FB_ID (-1) s
           in (0, s\<lparr>cma_channel := (cma_channel s)(unat channel := 0)\<rparr>))"

end
