(* ===== verification/Scheduler.thy ===== *)
theory Scheduler
  imports Channels
begin

text \<open>
  The context switch of \<open>giet_kernel/ctx_handler.c\<close> with the register save and restore of
  \<open>switch.s\<close>, the signals that kill and restart tasks, the interrupt service routines that switch
  (\<open>_isr_tick\<close>, \<open>_isr_wakup\<close>, \<open>_irq_demux\<close> of \<open>irq_handler.c\<close>) and the system calls that
  deschedule or signal (\<open>sys_handler.c\<close>). The lemmas give the choice of the next task: the first
  runnable one in cyclic order after the current one, or the idle task.
\<close>

section \<open>Killing and restarting a task\<close>

definition ctx_kill_task :: "hard_config \<Rightarrow> mapping \<Rightarrow> u32 \<Rightarrow> u32 \<Rightarrow> kstate \<Rightarrow> (panic + kstate) option" where
  "ctx_kill_task cf mp gpid ltid s =
     (let l = unat ltid;
          slot = (\<lambda>k s. ctx (get_sched cf gpid s) l k);
          reset = (\<lambda>k s. set_sched cf gpid (set_slot l k (-1) (get_sched cf gpid s)) s);
          cur_task = current_task (get_sched cf gpid s);
          s = set_sched cf gpid ((get_sched cf gpid s)\<lparr>current_task := ltid\<rparr>) s
      in obind (if slot CTX_TTY_ID s < cNB_TTY_CHANNELS cf
                then obind (sys_tty_release cf mp gpid s) (\<lambda>(_, s). Some (Inr (reset CTX_TTY_ID s)))
                else Some (Inr s)) (\<lambda>s.
         let s = (if slot CTX_TIM_ID s < cNB_TIM_CHANNELS cf
                  then reset CTX_TIM_ID (snd (sys_tim_release s)) else s);
             s = (if slot CTX_NIC_RX_ID s < cNB_NIC_CHANNELS cf
                  then reset CTX_NIC_RX_ID (snd (sys_nic_release True s)) else s);
             s = (if slot CTX_NIC_TX_ID s < cNB_NIC_CHANNELS cf
                  then reset CTX_NIC_TX_ID (snd (sys_nic_release False s)) else s);
             s = (if slot CTX_CMA_FB_ID s < cNB_CMA_CHANNELS cf
                  then reset CTX_CMA_FB_ID (snd (sys_fbf_cma_release cf gpid s)) else s);
             d = (get_sched cf gpid s)\<lparr>current_task := cur_task\<rparr>
         in Some (Inr (set_sched cf gpid
              (set_slot l CTX_NORUN_ID (atomic_or (ctx d l CTX_NORUN_ID) NORUN_MASK_TASK) d) s))))"

definition ctx_exec_task :: "hard_config \<Rightarrow> mapping \<Rightarrow> u32 \<Rightarrow> u32 \<Rightarrow> kstate \<Rightarrow> (panic + kstate) option" where
  "ctx_exec_task cf mp gpid ltid s =
     (let l = unat ltid; d = get_sched cf gpid s; task_id = unat (ctx d l CTX_GTID_ID)
      in Option.bind (fetch (tasks mp) task_id) (\<lambda>t.
         Option.bind (fetch (vsegs mp) (stack_vseg_id t)) (\<lambda>v.
           let sp_value = vbase v + vseg_length v
           in Some (Inr (set_sched cf gpid
                (set_slot l CTX_NORUN_ID 0 (set_slot l CTX_EPC_ID (ctx d l CTX_ENTRY_ID)
                  (set_slot l CTX_SP_ID sp_value (set_slot l CTX_SR_ID GIET_SR_INIT_VALUE
                    (set_slot l CTX_RA_ID (cCTX_ERET cf) d))))) s)))))"

text \<open>The two signal tests of one turn of the selection loop.\<close>

definition ack_signal :: "hard_config \<Rightarrow> u32 \<Rightarrow> nat \<Rightarrow> u32 \<Rightarrow> kstate \<Rightarrow> kstate" where
  "ack_signal cf gpid l m s =
     (let d = get_sched cf gpid s
      in set_sched cf gpid (set_slot l CTX_SIG_ID (atomic_and (ctx d l CTX_SIG_ID) (NOT m)) d) s)"

definition pending :: "hard_config \<Rightarrow> u32 \<Rightarrow> nat \<Rightarrow> u32 \<Rightarrow> kstate \<Rightarrow> bool" where
  "pending cf gpid l m s \<longleftrightarrow> ctx (get_sched cf gpid s) l CTX_SIG_ID AND m \<noteq> 0"

definition handle_signals :: "hard_config \<Rightarrow> mapping \<Rightarrow> u32 \<Rightarrow> u32 \<Rightarrow> kstate \<Rightarrow> (panic + kstate) option" where
  "handle_signals cf mp gpid ltid s =
     obind (if pending cf gpid (unat ltid) SIG_MASK_KILL s
            then obind (ctx_kill_task cf mp gpid ltid s) (\<lambda>s. Some (Inr (ack_signal cf gpid (unat ltid) SIG_MASK_KILL s)))
            else Some (Inr s)) (\<lambda>s.
     if pending cf gpid (unat ltid) SIG_MASK_EXEC s
     then obind (ctx_exec_task cf mp gpid ltid s) (\<lambda>s. Some (Inr (ack_signal cf gpid (unat ltid) SIG_MASK_EXEC s)))
     else Some (Inr s))"

section \<open>Selecting the next task\<close>

fun switch_scan :: "hard_config \<Rightarrow> mapping \<Rightarrow> u32 \<Rightarrow> u32 \<Rightarrow> nat list \<Rightarrow> kstate \<Rightarrow> (panic + u32 option \<times> kstate) option" where
  "switch_scan cf mp gpid n [] s = Some (Inr (None, s))"
| "switch_scan cf mp gpid n (tid # tids) s =
     (let next_task_id = word_of_nat tid mod n
      in obind (handle_signals cf mp gpid next_task_id s) (\<lambda>s.
         if ctx (get_sched cf gpid s) (unat next_task_id) CTX_NORUN_ID = 0
         then Some (Inr (Some next_task_id, s))
         else switch_scan cf mp gpid n tids s))"

text \<open>The registers that \<open>_task_switch\<close> saves in the slot of the same number and restores: \<open>$1\<close> to
  \<open>$25\<close>, LO, HI, \<open>$28\<close> to \<open>$31\<close>, EPC, CR, SR, BVAR and PTPR.\<close>

definition saved_slots :: "nat list" where
  "saved_slots = [1..<36] @ [39]"

definition task_switch :: "hard_config \<Rightarrow> u32 \<Rightarrow> u32 \<Rightarrow> u32 \<Rightarrow> kstate \<Rightarrow> kstate" where
  "task_switch cf gpid cur nxt s =
     (let x = proc_x cf gpid; y = proc_y cf gpid; p = proc_p cf gpid;
          regs = cpu s x y p;
          d = fold (\<lambda>k. set_slot (unat cur) k (regs k)) saved_slots (get_sched cf gpid s);
          regs' = fold (\<lambda>k r. r(k := ctx d (unat nxt) k)) saved_slots regs
      in (set_sched cf gpid d s)\<lparr>cpu := upd3 (cpu s) x y p regs'\<rparr>)"

definition ctx_switch :: "hard_config \<Rightarrow> mapping \<Rightarrow> u32 \<Rightarrow> kstate \<Rightarrow> (panic + kstate) option" where
  "ctx_switch cf mp gpid s =
     (let lpid = gpid AND (push_bit (cP_WIDTH cf) 1 - 1);
          psched = get_sched cf gpid s; n = sched_tasks psched; curr_task_id = current_task psched
      in obind (switch_scan cf mp gpid n [unat curr_task_id + 1 ..< unat curr_task_id + 1 + unat n] s)
           (\<lambda>(found, s).
              let next_task_id = (case found of None \<Rightarrow> IDLE_TASK_INDEX | Some t \<Rightarrow> t)
              in if curr_task_id \<noteq> next_task_id
                 then obind (xcu_timer_reset_cpt cf (cluster_xy cf gpid) lpid s) (\<lambda>s.
                   let s = set_sched cf gpid ((get_sched cf gpid s)\<lparr>current_task := next_task_id\<rparr>) s
                   in Some (Inr (task_switch cf gpid curr_task_id next_task_id s)))
                 else Some (Inr s)))"

section \<open>Interrupts and system calls that switch\<close>

definition isr_tick :: "hard_config \<Rightarrow> mapping \<Rightarrow> u32 \<Rightarrow> irq_type \<Rightarrow> u32 \<Rightarrow> kstate \<Rightarrow> (panic + kstate) option" where
  "isr_tick cf mp gpid irq_type irq_id s =
     (if irq_type \<noteq> IRQ_TYPE_PTI then Some (Inl Illegal_irq_type)
      else obind (xcu_timer_reset_irq cf (cluster_xy cf gpid) irq_id s) (\<lambda>s. ctx_switch cf mp gpid s))"

definition isr_wakup :: "hard_config \<Rightarrow> mapping \<Rightarrow> u32 \<Rightarrow> irq_type \<Rightarrow> u32 \<Rightarrow> kstate \<Rightarrow> (panic + kstate) option" where
  "isr_wakup cf mp gpid irq_type irq_id s =
     (let ltid = get_current_task_id cf gpid s
      in if irq_type \<noteq> IRQ_TYPE_WTI then Some (Inl Illegal_irq_type)
         else obind (xcu_get_wti_value cf (cluster_xy cf gpid) irq_id s) (\<lambda>value.
           if ltid = IDLE_TASK_INDEX \<or> value \<noteq> 0 then ctx_switch cf mp gpid s else Some (Inr s)))"

text \<open>The service routines of the peripherals are an argument, by the number of their type.\<close>

type_synonym isr_table = "nat \<Rightarrow> irq_type \<Rightarrow> u32 \<Rightarrow> u32 \<Rightarrow> kstate \<Rightarrow> (panic + kstate) option"

definition irq_demux :: "hard_config \<Rightarrow> mapping \<Rightarrow> isr_table \<Rightarrow> u32 \<Rightarrow> kstate \<Rightarrow> (panic + kstate) option" where
  "irq_demux cf mp isrs gpid s =
     (let icu_out_index = word_of_nat (proc_p cf gpid) * cIRQ_PER_PROCESSOR cf
      in obind (xcu_get_index cf (cluster_xy cf gpid) icu_out_index IRQ_TYPE_HWI s) (\<lambda>(irq_id, irq_type).
           if irq_id < 32
           then
             let psched = get_sched cf gpid s; i = unat irq_id;
                 entry = (case irq_type of IRQ_TYPE_HWI \<Rightarrow> hwi_vector psched i
                          | IRQ_TYPE_PTI \<Rightarrow> pti_vector psched i | IRQ_TYPE_WTI \<Rightarrow> wti_vector psched i);
                 isr_type = unat (entry AND 0x0000FFFF); channel = drop_bit 16 entry AND 0x00007FFF
             in if isr_type = 1 then isr_tick cf mp gpid irq_type irq_id s
                else if isr_type = 6 then isr_wakup cf mp gpid irq_type irq_id s
                else if 2 \<le> isr_type \<and> isr_type \<le> 14 then isrs isr_type irq_type irq_id channel s
                else Some (Inl Illegal_isr_type)
           else Some (Inr s)))"

definition sys_context_switch :: "hard_config \<Rightarrow> mapping \<Rightarrow> u32 \<Rightarrow> kstate \<Rightarrow> (panic + kstate) option" where
  "sys_context_switch cf mp gpid s = ctx_switch cf mp gpid s"

definition sys_task_exit :: "hard_config \<Rightarrow> mapping \<Rightarrow> u32 \<Rightarrow> kstate \<Rightarrow> (panic + kstate) option" where
  "sys_task_exit cf mp gpid s =
     (let ltid = unat (get_context_slot cf gpid CTX_LTID_ID s); d = get_sched cf gpid s
      in sys_context_switch cf mp gpid (set_sched cf gpid
           (set_slot ltid CTX_NORUN_ID (atomic_or (ctx d ltid CTX_NORUN_ID) NORUN_MASK_TASK) d) s))"

text \<open>The virtual space of an application is found by name.\<close>

definition find_vspace :: "mapping \<Rightarrow> string \<Rightarrow> nat option" where
  "find_vspace mp name = find (\<lambda>v. vspace_name (vspace_table mp ! v) = name)
     [0..<min (vspaces (hdr mp)) (length (vspace_table mp))]"

definition signal_tasks :: "u32 \<Rightarrow> (nat \<times> nat \<times> nat \<times> nat) list \<Rightarrow> kstate \<Rightarrow> kstate" where
  "signal_tasks m ts s = fold (update_slot CTX_SIG_ID (\<lambda>v. atomic_or v m)) ts s"

definition sys_kill_application :: "mapping \<Rightarrow> string \<Rightarrow> kstate \<Rightarrow> (int \<times> kstate) option" where
  "sys_kill_application mp name s =
     (case find_vspace mp name of
        None \<Rightarrow> Some (-1, s)
      | Some v \<Rightarrow>
          if vspace_active (vspace_table mp ! v) then Some (-2, s)
          else Option.bind (vspace_tasks_of mp v) (\<lambda>ts. Some (0, signal_tasks SIG_MASK_KILL ts s)))"

definition sys_exec_application :: "mapping \<Rightarrow> string \<Rightarrow> kstate \<Rightarrow> (int \<times> kstate) option" where
  "sys_exec_application mp name s =
     (case find_vspace mp name of
        None \<Rightarrow> Some (-1, s)
      | Some v \<Rightarrow> Option.bind (vspace_tasks_of mp v) (\<lambda>ts. Some (0, signal_tasks SIG_MASK_EXEC ts s)))"


section \<open>What a switch does to the scheduler\<close>

definition norun :: "hard_config \<Rightarrow> u32 \<Rightarrow> kstate \<Rightarrow> nat \<Rightarrow> u32" where
  "norun cf gpid s t = ctx (get_sched cf gpid s) t CTX_NORUN_ID"

definition quiet :: "hard_config \<Rightarrow> u32 \<Rightarrow> kstate \<Rightarrow> nat \<Rightarrow> bool" where
  "quiet cf gpid s t \<longleftrightarrow> \<not> pending cf gpid t SIG_MASK_KILL s \<and> \<not> pending cf gpid t SIG_MASK_EXEC s"

definition sched_ok :: "static_scheduler \<Rightarrow> bool" where
  "sched_ok d \<longleftrightarrow> 0 < sched_tasks d \<and> sched_tasks d \<le> 13 \<and> (current_task d < sched_tasks d \<or> current_task d = IDLE_TASK_INDEX)"

lemma unat_mod_small: "k < 4294967296 \<Longrightarrow> unat (word_of_nat k mod n :: u32) = k mod unat n"
  by (simp add: unat_mod unsigned_of_nat take_bit_nat_eq_self)

lemma handle_quiet: "quiet cf gpid s (unat t) \<Longrightarrow> handle_signals cf mp gpid t s = Some (Inr s)"
  by (simp add: handle_signals_def quiet_def)

lemma scan_quiet:
  "(\<And>t. t \<in> set tids \<Longrightarrow> t < 4294967296 \<and> quiet cf gpid s (t mod unat n)) \<Longrightarrow>
     switch_scan cf mp gpid n tids s =
       Some (Inr (map_option (\<lambda>t. word_of_nat t mod n) (find (\<lambda>t. norun cf gpid s (t mod unat n) = 0) tids), s))"
  by (induction tids) (simp_all add: unat_mod_small handle_quiet norun_def)

text \<open>The registers move between the processor and the contexts.\<close>

lemma fold_set_slot:
  "ctx (fold (\<lambda>k. set_slot i k (f k)) ks d) j l = (if j = i \<and> l \<in> set ks then f l else ctx d j l)"
  "current_task (fold (\<lambda>k. set_slot i k (f k)) ks d) = current_task d"
  "sched_tasks (fold (\<lambda>k. set_slot i k (f k)) ks d) = sched_tasks d"
  by (induction ks arbitrary: d) auto

lemma fold_fun_upd: "fold (\<lambda>k r. r(k := g k)) ks r k = (if k \<in> set ks then g k else r k)"
  by (induction ks arbitrary: r) auto

definition my_cpu :: "hard_config \<Rightarrow> u32 \<Rightarrow> kstate \<Rightarrow> nat \<Rightarrow> u32" where
  "my_cpu cf gpid s = cpu s (proc_x cf gpid) (proc_y cf gpid) (proc_p cf gpid)"

lemma task_switch_ctx:
  "ctx (get_sched cf gpid (task_switch cf gpid a b s)) j k =
     (if j = unat a \<and> k \<in> set saved_slots then my_cpu cf gpid s k else ctx (get_sched cf gpid s) j k)"
  "current_task (get_sched cf gpid (task_switch cf gpid a b s)) = current_task (get_sched cf gpid s)"
  "sched_tasks (get_sched cf gpid (task_switch cf gpid a b s)) = sched_tasks (get_sched cf gpid s)"
  by (simp_all add: task_switch_def Let_def get_sched_def set_sched_def my_cpu_def fold_set_slot)

lemma task_switch_cpu:
  "a \<noteq> b \<Longrightarrow> my_cpu cf gpid (task_switch cf gpid a b s) k =
     (if k \<in> set saved_slots then ctx (get_sched cf gpid s) (unat b) k else my_cpu cf gpid s k)"
  using word_unat_eq_iff [of a b]
  by (simp add: task_switch_def Let_def get_sched_def set_sched_def my_cpu_def fold_set_slot fold_fun_upd)

lemma my_cpu_set_sched [simp]: "my_cpu cf gpid (set_sched cf gpid d s) = my_cpu cf gpid s"
  by (simp add: my_cpu_def set_sched_def)

lemma NORUN_not_saved: "CTX_NORUN_ID \<notin> set saved_slots" "CTX_SIG_ID \<notin> set saved_slots"
  by (auto simp: saved_slots_def ctx_slots)

lemma ctx_switch_quiet:
  assumes "sched_ok (get_sched cf gpid s)" "xcu_check cf (cluster_xy cf gpid)"
    "\<And>t. t < unat (sched_tasks (get_sched cf gpid s)) \<Longrightarrow> quiet cf gpid s t"
  defines "n \<equiv> sched_tasks (get_sched cf gpid s)" and "c \<equiv> current_task (get_sched cf gpid s)"
  defines "nxt \<equiv> (case find (\<lambda>t. norun cf gpid s (t mod unat n) = 0) [unat c + 1..<unat c + 1 + unat n] of
      None \<Rightarrow> IDLE_TASK_INDEX | Some t \<Rightarrow> word_of_nat t mod n)"
  shows "ctx_switch cf mp gpid s = Some (Inr (if c = nxt then s
    else task_switch cf gpid c nxt (set_sched cf gpid ((get_sched cf gpid s)\<lparr>current_task := nxt\<rparr>) s)))"
proof -
  have n: "0 < unat n" "unat n \<le> 13"
    using assms(1) unfolding sched_ok_def n_def word_le_nat_alt word_less_nat_alt by simp_all
  have c: "unat c \<le> 13"
    using assms(1) unfolding sched_ok_def c_def IDLE_TASK_INDEX_def word_le_nat_alt word_less_nat_alt by auto
  have q: "switch_scan cf mp gpid n [unat c + 1..<unat c + 1 + unat n] s =
      Some (Inr (map_option (\<lambda>t. word_of_nat t mod n) (find (\<lambda>t. norun cf gpid s (t mod unat n) = 0) [unat c + 1..<unat c + 1 + unat n]), s))"
    using n c assms(3) by (intro scan_quiet) (auto simp: n_def)
  have nx: "(case map_option (\<lambda>t. word_of_nat t mod n) (find (\<lambda>t. norun cf gpid s (t mod unat n) = 0) [unat c + 1..<unat c + 1 + unat n])
      of None \<Rightarrow> IDLE_TASK_INDEX | Some t \<Rightarrow> t) = nxt"
    unfolding nxt_def by (simp split: option.split)
  show ?thesis
    unfolding ctx_switch_def Let_def n_def [symmetric] c_def [symmetric] q obind_simps prod.case nx
    by (simp add: timer_reset_cpt_keeps [OF assms(2)])
qed


section \<open>Round robin\<close>

text \<open>The number of turns of the selection loop that reaches task \<open>j\<close> from the current task \<open>c\<close>.\<close>

definition turns :: "nat \<Rightarrow> nat \<Rightarrow> nat \<Rightarrow> nat" where
  "turns n c j = (j + 14 * n - c - 1) mod n + 1"

lemma turns_bounds: "0 < n \<Longrightarrow> 1 \<le> turns n c j \<and> turns n c j \<le> n"
  by (simp add: turns_def Suc_leI)

lemma turns_reach:
  assumes "0 < n" "c \<le> 13" "j < n"
  shows "(c + turns n c j) mod n = j"
proof -
  have "(c + turns n c j) mod n = (c + 1 + (j + 14 * n - c - 1)) mod n"
    using mod_add_right_eq [of "c + 1" "j + 14 * n - c - 1" n] by (simp add: turns_def add.assoc)
  also have "c + 1 + (j + 14 * n - c - 1) = j + 14 * n" using assms by linarith
  finally show ?thesis using assms(3) by simp
qed

lemma turns_least:
  assumes "0 < n" "c \<le> 13" "1 \<le> k" "k \<le> n" "(c + k) mod n = j"
  shows "turns n c j = k"
proof -
  obtain q where q: "c + k = q * n + j" using assms(5) by (metis div_mult_mod_eq)
  have "q * n < 15 * n" using q assms(1,2,4) by linarith
  then have "q \<le> 14" by simp
  then have "14 * n = (14 - q) * n + q * n" by (simp add: diff_mult_distrib)
  then have "j + 14 * n - c - 1 = (k - 1) + (14 - q) * n" using q assms(3) by linarith
  then have "(j + 14 * n - c - 1) mod n = (k - 1) mod n" by simp
  then show ?thesis using assms(3,4) by (simp add: turns_def)
qed

lemma turns_decrease:
  assumes "0 < n" "c \<le> 13" "c' < n" "j < n" "turns n c c' < turns n c j" "n \<le> 13"
  shows "turns n c' j = turns n c j - turns n c c'"
proof (rule turns_least)
  have "c + turns n c j = c + turns n c c' + (turns n c j - turns n c c')" using assms(5) by simp
  then have "(c' + (turns n c j - turns n c c')) mod n = (c + turns n c j) mod n"
    using turns_reach [OF assms(1,2,3)] by (metis mod_add_left_eq)
  then show "(c' + (turns n c j - turns n c c')) mod n = j" using turns_reach [OF assms(1,2,4)] by simp
  show "turns n c j - turns n c c' \<le> n" using turns_bounds [OF assms(1), of c j] by linarith
qed (use assms in auto)

text \<open>The task that a switch without pending signals chooses.\<close>

lemma chosen_task:
  assumes ok: "sched_ok (get_sched cf gpid s)"
  defines "n \<equiv> unat (sched_tasks (get_sched cf gpid s))" and "c \<equiv> unat (current_task (get_sched cf gpid s))"
  defines "nxt \<equiv> (case find (\<lambda>t. norun cf gpid s (t mod n) = 0) [c + 1..<c + 1 + n] of
      None \<Rightarrow> IDLE_TASK_INDEX | Some t \<Rightarrow> word_of_nat t mod sched_tasks (get_sched cf gpid s))"
  shows "(\<forall>t<n. norun cf gpid s t \<noteq> 0) \<and> nxt = IDLE_TASK_INDEX \<or>
    unat nxt < n \<and> norun cf gpid s (unat nxt) = 0 \<and> (\<forall>t<n. norun cf gpid s t = 0 \<longrightarrow> turns n c (unat nxt) \<le> turns n c t)"
proof -
  have n: "0 < n" "n \<le> 13" and c: "c \<le> 13"
    using ok unfolding sched_ok_def n_def c_def IDLE_TASK_INDEX_def word_le_nat_alt word_less_nat_alt by auto
  show ?thesis
  proof (cases "find (\<lambda>t. norun cf gpid s (t mod n) = 0) [c + 1..<c + 1 + n]")
    case None
    have "norun cf gpid s t \<noteq> 0" if "t < n" for t
    proof -
      have "c + turns n c t \<in> set [c + 1..<c + 1 + n]" using turns_bounds [OF n(1), of c t] by auto
      then have "norun cf gpid s ((c + turns n c t) mod n) \<noteq> 0" using None unfolding find_None_iff by blast
      then show ?thesis using turns_reach [OF n(1) c that] by simp
    qed
    then show ?thesis using None by (simp add: nxt_def)
  next
    case (Some u)
    then obtain i where r: "i < length [c + 1..<c + 1 + n]" "norun cf gpid s ([c + 1..<c + 1 + n] ! i mod n) = 0"
        "u = [c + 1..<c + 1 + n] ! i" "\<forall>k<i. norun cf gpid s ([c + 1..<c + 1 + n] ! k mod n) \<noteq> 0"
      unfolding find_Some_iff by blast
    have nth: "[c + 1..<c + 1 + n] ! k = c + 1 + k" if "k < n" for k using that by (intro nth_upt) simp
    have i: "i < n" "u = c + 1 + i" "norun cf gpid s (u mod n) = 0"
      using r(1-3) nth [of i] by (simp_all del: upt_Suc)
    have before: "norun cf gpid s ((c + 1 + k) mod n) \<noteq> 0" if "k < i" for k
      using r(4) that nth [of k] i(1) by (metis order.strict_trans)
    have nx: "nxt = word_of_nat u mod sched_tasks (get_sched cf gpid s)" unfolding nxt_def Some by simp
    have "u < 4294967296" using i(1,2) n c by linarith
    then have u: "unat nxt = u mod n" unfolding nx n_def by (rule unat_mod_small)
    have first: "turns n c (unat nxt) = Suc i" using i(1,2) n c u by (intro turns_least) simp_all
    have "Suc i \<le> turns n c t" if "t < n" "norun cf gpid s t = 0" for t
    proof (rule ccontr)
      assume "\<not> Suc i \<le> turns n c t"
      then have k: "turns n c t - 1 < i" "c + 1 + (turns n c t - 1) = c + turns n c t"
        using turns_bounds [OF n(1), of c t] by auto
      have "norun cf gpid s ((c + turns n c t) mod n) \<noteq> 0" using before [OF k(1)] unfolding k(2) .
      then show False using turns_reach [OF n(1) c that(1)] that(2) by simp
    qed
    then show ?thesis using first i(3) u n(1) by (intro disjI2) simp
  qed
qed


text \<open>A switch with no pending signal, in one statement.\<close>

definition chosen :: "hard_config \<Rightarrow> u32 \<Rightarrow> kstate \<Rightarrow> u32 \<Rightarrow> bool" where
  "chosen cf gpid s t \<longleftrightarrow>
     (let d = get_sched cf gpid s; n = unat (sched_tasks d); c = unat (current_task d)
      in (\<forall>i<n. norun cf gpid s i \<noteq> 0) \<and> t = IDLE_TASK_INDEX \<or>
         unat t < n \<and> norun cf gpid s (unat t) = 0 \<and>
           (\<forall>i<n. norun cf gpid s i = 0 \<longrightarrow> turns n c (unat t) \<le> turns n c i))"

lemma switch_chosen:
  assumes "sched_ok (get_sched cf gpid s)" "xcu_check cf (cluster_xy cf gpid)"
    "\<forall>t<unat (sched_tasks (get_sched cf gpid s)). quiet cf gpid s t"
  obtains nxt where "chosen cf gpid s nxt"
    "ctx_switch cf mp gpid s = Some (Inr (if current_task (get_sched cf gpid s) = nxt then s
       else task_switch cf gpid (current_task (get_sched cf gpid s)) nxt
         (set_sched cf gpid ((get_sched cf gpid s)\<lparr>current_task := nxt\<rparr>) s)))"
  using ctx_switch_quiet [OF assms(1,2), of mp] assms(3) chosen_task [OF assms(1)]
  unfolding chosen_def Let_def by blast

lemma switch_result:
  assumes "sched_ok (get_sched cf gpid s)" "xcu_check cf (cluster_xy cf gpid)"
    "\<forall>t<unat (sched_tasks (get_sched cf gpid s)). quiet cf gpid s t"
  obtains s' where "ctx_switch cf mp gpid s = Some (Inr s')" "chosen cf gpid s (current_task (get_sched cf gpid s'))"
    "sched_ok (get_sched cf gpid s')" "sched_tasks (get_sched cf gpid s') = sched_tasks (get_sched cf gpid s)"
    "\<And>t. norun cf gpid s' t = norun cf gpid s t"
    "\<And>t k. ctx (get_sched cf gpid s') t k =
       (if current_task (get_sched cf gpid s') \<noteq> current_task (get_sched cf gpid s) \<and>
           t = unat (current_task (get_sched cf gpid s)) \<and> k \<in> set saved_slots
        then my_cpu cf gpid s k else ctx (get_sched cf gpid s) t k)"
    "\<And>k. my_cpu cf gpid s' k =
       (if current_task (get_sched cf gpid s') \<noteq> current_task (get_sched cf gpid s) \<and> k \<in> set saved_slots
        then ctx (get_sched cf gpid s) (unat (current_task (get_sched cf gpid s'))) k else my_cpu cf gpid s k)"
proof -
  obtain nxt where n: "chosen cf gpid s nxt"
    "ctx_switch cf mp gpid s = Some (Inr (if current_task (get_sched cf gpid s) = nxt then s
       else task_switch cf gpid (current_task (get_sched cf gpid s)) nxt
         (set_sched cf gpid ((get_sched cf gpid s)\<lparr>current_task := nxt\<rparr>) s)))"
    using switch_chosen [OF assms] by blast
  let ?c = "current_task (get_sched cf gpid s)"
  let ?s' = "if ?c = nxt then s else task_switch cf gpid ?c nxt (set_sched cf gpid ((get_sched cf gpid s)\<lparr>current_task := nxt\<rparr>) s)"
  have cur: "current_task (get_sched cf gpid ?s') = nxt" by (simp add: task_switch_ctx)
  have tsk: "sched_tasks (get_sched cf gpid ?s') = sched_tasks (get_sched cf gpid s)" by (simp add: task_switch_ctx)
  have range: "nxt < sched_tasks (get_sched cf gpid s) \<or> nxt = IDLE_TASK_INDEX"
    using n(1) unfolding chosen_def Let_def word_less_nat_alt by blast
  show ?thesis
  proof (rule that [OF n(2)])
    show "chosen cf gpid s (current_task (get_sched cf gpid ?s'))" unfolding cur by (rule n(1))
    show "sched_ok (get_sched cf gpid ?s')" using range assms(1) unfolding sched_ok_def cur tsk by blast
    show "sched_tasks (get_sched cf gpid ?s') = sched_tasks (get_sched cf gpid s)" by (rule tsk)
    show "norun cf gpid ?s' t = norun cf gpid s t" for t
      using NORUN_not_saved by (simp add: norun_def task_switch_ctx)
    show "ctx (get_sched cf gpid ?s') t k = (if current_task (get_sched cf gpid ?s') \<noteq> ?c \<and> t = unat ?c \<and> k \<in> set saved_slots
        then my_cpu cf gpid s k else ctx (get_sched cf gpid s) t k)" for t k
      unfolding cur by (simp add: task_switch_ctx)
    show "my_cpu cf gpid ?s' k = (if current_task (get_sched cf gpid ?s') \<noteq> ?c \<and> k \<in> set saved_slots
        then ctx (get_sched cf gpid s) (unat (current_task (get_sched cf gpid ?s'))) k else my_cpu cf gpid s k)" for k
      unfolding cur by (simp add: task_switch_cpu)
  qed
qed

lemma chosen_closer:
  assumes "sched_ok (get_sched cf gpid s)" "chosen cf gpid s nxt" "t < unat (sched_tasks (get_sched cf gpid s))"
    "norun cf gpid s t = 0"
  defines "n \<equiv> unat (sched_tasks (get_sched cf gpid s))" and "c \<equiv> unat (current_task (get_sched cf gpid s))"
  shows "unat nxt = t \<or> unat nxt < n \<and> turns n (unat nxt) t < turns n c t"
proof -
  have n: "0 < n" "n \<le> 13" and c: "c \<le> 13"
    using assms(1) unfolding sched_ok_def n_def c_def IDLE_TASK_INDEX_def word_le_nat_alt word_less_nat_alt by auto
  have t: "t < n" using assms(3) by (simp add: n_def)
  have nx: "unat nxt < n" "turns n c (unat nxt) \<le> turns n c t"
    using assms(2,4) t unfolding chosen_def Let_def n_def c_def by blast+
  show ?thesis
  proof (cases "turns n c (unat nxt) = turns n c t")
    case True
    then show ?thesis using turns_reach [OF n(1) c t] turns_reach [OF n(1) c nx(1)] by simp
  next
    case False
    then have lt: "turns n c (unat nxt) < turns n c t" using nx(2) by simp
    have "turns n (unat nxt) t = turns n c t - turns n c (unat nxt)"
      by (rule turns_decrease [OF n(1) c nx(1) t lt n(2)])
    then show ?thesis using lt nx(1) turns_bounds [OF n(1), of c "unat nxt"] by linarith
  qed
qed

end
