(* ===== verification/Scheduler_Properties.thy ===== *)
theory Scheduler_Properties
  imports Scheduler
begin

text \<open>
  What the kernel promises about its tasks: a context switch resumes the next runnable task in
  cyclic order and gives each task back the registers it had, a runnable task is resumed within as many
  switches as the scheduler has tasks, the task indices stay in range whatever signals are pending,
  a killed task owns no channel; and the counter that allocates timers can give the same timer
  twice.
\<close>

section \<open>Frames of the operations that a switch can call\<close>

definition same_tasks :: "hard_config \<Rightarrow> u32 \<Rightarrow> kstate \<Rightarrow> kstate \<Rightarrow> bool" where
  "same_tasks cf gpid s s' \<longleftrightarrow> current_task (get_sched cf gpid s') = current_task (get_sched cf gpid s) \<and>
     sched_tasks (get_sched cf gpid s') = sched_tasks (get_sched cf gpid s)"

named_theorems frame

lemma same_refl [frame]: "same_tasks cf gpid s s"
  by (simp add: same_tasks_def)

lemma same_trans: "same_tasks cf gpid s t \<Longrightarrow> same_tasks cf gpid t u \<Longrightarrow> same_tasks cf gpid s u"
  by (simp add: same_tasks_def)

lemma same_eq: "get_sched cf gpid s' = get_sched cf gpid s \<Longrightarrow> same_tasks cf gpid s s'"
  by (simp add: same_tasks_def)

lemma same_set [frame]:
  "same_tasks cf gpid s (set_context_slot cf gpid k v s)" "same_tasks cf gpid s (ack_signal cf gpid l m s)"
  by (simp_all add: same_tasks_def set_context_slot_def ack_signal_def Let_def)

lemma same_update_slot [frame]: "same_tasks cf gpid s (update_slot k f t s)"
  by (cases t) (auto simp: same_tasks_def update_slot_def get_sched_def Let_def)

lemma same_fold [frame]: "same_tasks cf gpid s (fold (update_slot k f) ts s)"
  by (induction ts arbitrary: s) (auto intro: same_trans same_update_slot same_refl)

lemma same_ext_irq_release: "ext_irq_release cf gpid i c s = Some (Inr s') \<Longrightarrow> same_tasks cf gpid s s'"
  by (intro same_eq)
    (auto simp: ext_irq_release_def Let_def get_sched_def pic_set_register_def split: if_splits option.splits)

lemma same_tty_release: "sys_tty_release cf mp gpid s = Some (Inr (r, s')) \<Longrightarrow> same_tasks cf gpid s s'"
proof -
  assume run: "sys_tty_release cf mp gpid s = Some (Inr (r, s'))"
  show ?thesis
  proof (cases "get_context_slot cf gpid CTX_TTY_ID s = -1")
    case True
    then show ?thesis using run by (simp add: sys_tty_release_def same_refl)
  next
    case False
    let ?c = "get_context_slot cf gpid CTX_TTY_ID s"
    obtain s1 ts where 1: "(if cUSE_PIC cf then ext_irq_release cf gpid ISR_TTY_RX ?c s else Some (Inr s)) = Some (Inr s1)"
      and s': "s' = (fold (update_slot CTX_TTY_ID (\<lambda>v. if v = ?c then -1 else v)) ts s1)
        \<lparr>tty_channel := (tty_channel (fold (update_slot CTX_TTY_ID (\<lambda>v. if v = ?c then -1 else v)) ts s1))(unat ?c := 0)\<rparr>"
      using run False unfolding sys_tty_release_def Let_def
      by (auto simp: obind_Inr bind_eq_Some_conv)
    have "same_tasks cf gpid s s1" using 1 same_ext_irq_release same_refl by (auto split: if_splits)
    moreover have "same_tasks cf gpid s1 s'" using same_fold by (simp add: s' same_tasks_def get_sched_def)
    ultimately show ?thesis by (rule same_trans)
  qed
qed

lemma same_simple [frame]:
  "same_tasks cf gpid s (snd (sys_tim_release s))" "same_tasks cf gpid s (snd (sys_nic_release b s))"
  "same_tasks cf gpid s (snd (sys_fbf_cma_release cf gpid s))"
  by (auto simp: same_tasks_def sys_tim_release_def sys_nic_release_def sys_fbf_cma_release_def sys_fbf_cma_stop_def
      set_context_slot_def get_sched_def set_sched_def cma_set_register_def Let_def)

lemma same_reset [frame]: "same_tasks cf gpid s (set_sched cf gpid (set_slot l k v (get_sched cf gpid s)) s)"
  by (simp add: same_tasks_def)

lemma same_exec: "ctx_exec_task cf mp gpid ltid s = Some (Inr s') \<Longrightarrow> same_tasks cf gpid s s'"
  by (auto simp: ctx_exec_task_def Let_def bind_eq_Some_conv same_tasks_def)


section \<open>Killing a task\<close>

text \<open>The scheduler of the caller with the local index of the killed task as its current one.\<close>

definition kslot :: "hard_config \<Rightarrow> u32 \<Rightarrow> nat \<Rightarrow> nat \<Rightarrow> kstate \<Rightarrow> u32" where
  "kslot cf gpid l k s = ctx (get_sched cf gpid s) l k"

definition kreset :: "hard_config \<Rightarrow> u32 \<Rightarrow> nat \<Rightarrow> nat \<Rightarrow> kstate \<Rightarrow> kstate" where
  "kreset cf gpid l k s = set_sched cf gpid (set_slot l k (-1) (get_sched cf gpid s)) s"

definition kstage :: "hard_config \<Rightarrow> u32 \<Rightarrow> nat \<Rightarrow> nat \<Rightarrow> u32 \<Rightarrow> (kstate \<Rightarrow> kstate) \<Rightarrow> kstate \<Rightarrow> kstate" where
  "kstage cf gpid l k nb f s = (if kslot cf gpid l k s < nb then kreset cf gpid l k (f s) else s)"

lemma kill_stages:
  "ctx_kill_task cf mp gpid ltid s =
     (let l = unat ltid; s0 = set_sched cf gpid ((get_sched cf gpid s)\<lparr>current_task := ltid\<rparr>) s
      in obind (if kslot cf gpid l CTX_TTY_ID s0 < cNB_TTY_CHANNELS cf
                then obind (sys_tty_release cf mp gpid s0) (\<lambda>(_, s). Some (Inr (kreset cf gpid l CTX_TTY_ID s)))
                else Some (Inr s0)) (\<lambda>s1.
         let s2 = kstage cf gpid l CTX_TIM_ID (cNB_TIM_CHANNELS cf) (\<lambda>s. snd (sys_tim_release s)) s1;
             s3 = kstage cf gpid l CTX_NIC_RX_ID (cNB_NIC_CHANNELS cf) (\<lambda>s. snd (sys_nic_release True s)) s2;
             s4 = kstage cf gpid l CTX_NIC_TX_ID (cNB_NIC_CHANNELS cf) (\<lambda>s. snd (sys_nic_release False s)) s3;
             s5 = kstage cf gpid l CTX_CMA_FB_ID (cNB_CMA_CHANNELS cf) (\<lambda>s. snd (sys_fbf_cma_release cf gpid s)) s4;
             d = (get_sched cf gpid s5)\<lparr>current_task := current_task (get_sched cf gpid s)\<rparr>
         in Some (Inr (set_sched cf gpid
              (set_slot l CTX_NORUN_ID (atomic_or (ctx d l CTX_NORUN_ID) NORUN_MASK_TASK) d) s5))))"
  unfolding ctx_kill_task_def kstage_def kslot_def kreset_def Let_def ..

lemma not_less_max: "\<not> (-1 :: u32) < n"
  by (simp add: word_less_nat_alt unsigned_minus_1_eq_mask mask_eq_exp_minus_1 not_less) (use unat_u32_bound [of n] in linarith)

lemma kslot_kreset [simp]: "kslot cf gpid l k (kreset cf gpid l j s) = (if k = j then -1 else kslot cf gpid l k s)"
  by (simp add: kslot_def kreset_def)

lemma kslot_kstage:
  assumes "\<And>j. j \<noteq> k \<Longrightarrow> kslot cf gpid l j (f s) = kslot cf gpid l j s"
  shows "\<not> kslot cf gpid l k (kstage cf gpid l k nb f s) < nb"
    "j \<noteq> k \<Longrightarrow> kslot cf gpid l j (kstage cf gpid l k nb f s) = kslot cf gpid l j s"
  using assms not_less_max by (simp_all add: kstage_def)

lemma same_kstage:
  assumes "\<And>s. same_tasks cf gpid s (f s)"
  shows "same_tasks cf gpid s (kstage cf gpid l k nb f s)"
proof (cases "kslot cf gpid l k s < nb")
  case True
  then show ?thesis using same_trans [OF assms same_reset] by (simp add: kstage_def kreset_def)
next
  case False
  then show ?thesis by (simp add: kstage_def same_refl)
qed

lemma or_and_self: "(v OR m) AND m = (m :: u32)"
  by (rule bit_eqI) (auto simp: bit_simps)

lemma tty_channel_kreset [simp]: "tty_channel (kreset cf gpid l k s) = tty_channel s" "cma_channel (kreset cf gpid l k s) = cma_channel s"
  by (simp_all add: kreset_def set_sched_def)

lemma release_keeps [simp]:
  "get_sched cf gpid (snd (sys_tim_release s)) = get_sched cf gpid s" "tty_channel (snd (sys_tim_release s)) = tty_channel s"
  "get_sched cf gpid (snd (sys_nic_release b s)) = get_sched cf gpid s" "tty_channel (snd (sys_nic_release b s)) = tty_channel s"
  "cma_channel (snd (sys_tim_release s)) = cma_channel s" "cma_channel (snd (sys_nic_release b s)) = cma_channel s"
  "tty_channel (snd (sys_fbf_cma_release cf gpid s)) = tty_channel s"
  by (simp_all add: sys_tim_release_def sys_nic_release_def get_sched_def sys_fbf_cma_release_def sys_fbf_cma_stop_def
      set_context_slot_def set_sched_def cma_set_register_def Let_def)

lemma kslot_cma_release:
  assumes "current_task (get_sched cf gpid s) = ltid" "k \<noteq> CTX_CMA_FB_ID"
  shows "kslot cf gpid (unat ltid) k (snd (sys_fbf_cma_release cf gpid s)) = kslot cf gpid (unat ltid) k s"
  using assms by (simp add: kslot_def sys_fbf_cma_release_def sys_fbf_cma_stop_def set_context_slot_def
      get_sched_def set_sched_def cma_set_register_def Let_def)

lemma tty_channel_fold [simp]: "tty_channel (fold (update_slot k f) ts s) = tty_channel s"
  by (induction ts arbitrary: s) (auto simp: update_slot_def Let_def)

lemma tty_release_frees:
  assumes "sys_tty_release cf mp gpid s = Some (Inr (r, s'))" "get_context_slot cf gpid CTX_TTY_ID s \<noteq> -1"
  shows "tty_channel s' (unat (get_context_slot cf gpid CTX_TTY_ID s)) = 0"
  using assms unfolding sys_tty_release_def Let_def by (auto simp: obind_Inr bind_eq_Some_conv)

lemma cma_release_frees:
  assumes "current_task (get_sched cf gpid s) = ltid" "kslot cf gpid (unat ltid) CTX_CMA_FB_ID s < cNB_CMA_CHANNELS cf"
  shows "cma_channel (snd (sys_fbf_cma_release cf gpid s)) (unat (kslot cf gpid (unat ltid) CTX_CMA_FB_ID s)) = 0"
  using assms by (simp add: sys_fbf_cma_release_def Let_def get_context_slot_def kslot_def not_le [symmetric])

lemma kill_result:
  assumes run: "ctx_kill_task cf mp gpid ltid s = Some (Inr s')"
  shows "same_tasks cf gpid s s'"
    "kslot cf gpid (unat ltid) CTX_NORUN_ID s' AND NORUN_MASK_TASK \<noteq> 0"
    "\<not> kslot cf gpid (unat ltid) CTX_TTY_ID s' < cNB_TTY_CHANNELS cf"
    "\<not> kslot cf gpid (unat ltid) CTX_TIM_ID s' < cNB_TIM_CHANNELS cf"
    "\<not> kslot cf gpid (unat ltid) CTX_NIC_RX_ID s' < cNB_NIC_CHANNELS cf"
    "\<not> kslot cf gpid (unat ltid) CTX_NIC_TX_ID s' < cNB_NIC_CHANNELS cf"
    "\<not> kslot cf gpid (unat ltid) CTX_CMA_FB_ID s' < cNB_CMA_CHANNELS cf"
    "kslot cf gpid (unat ltid) CTX_TTY_ID s < cNB_TTY_CHANNELS cf \<Longrightarrow>
       tty_channel s' (unat (kslot cf gpid (unat ltid) CTX_TTY_ID s)) = 0"
proof -
  let ?l = "unat ltid" and ?k = "kslot cf gpid (unat ltid)"
  define s0 where "s0 = set_sched cf gpid ((get_sched cf gpid s)\<lparr>current_task := ltid\<rparr>) s"
  obtain s1 where 1: "(if ?k CTX_TTY_ID s0 < cNB_TTY_CHANNELS cf
      then obind (sys_tty_release cf mp gpid s0) (\<lambda>(_, s). Some (Inr (kreset cf gpid ?l CTX_TTY_ID s)))
      else Some (Inr s0)) = Some (Inr s1)"
    using run unfolding kill_stages Let_def s0_def [symmetric] by (auto simp: obind_Inr)
  define s2 where "s2 = kstage cf gpid ?l CTX_TIM_ID (cNB_TIM_CHANNELS cf) (\<lambda>s. snd (sys_tim_release s)) s1"
  define s3 where "s3 = kstage cf gpid ?l CTX_NIC_RX_ID (cNB_NIC_CHANNELS cf) (\<lambda>s. snd (sys_nic_release True s)) s2"
  define s4 where "s4 = kstage cf gpid ?l CTX_NIC_TX_ID (cNB_NIC_CHANNELS cf) (\<lambda>s. snd (sys_nic_release False s)) s3"
  define s5 where "s5 = kstage cf gpid ?l CTX_CMA_FB_ID (cNB_CMA_CHANNELS cf) (\<lambda>s. snd (sys_fbf_cma_release cf gpid s)) s4"
  define d where "d = (get_sched cf gpid s5)\<lparr>current_task := current_task (get_sched cf gpid s)\<rparr>"
  have s': "s' = set_sched cf gpid (set_slot ?l CTX_NORUN_ID (atomic_or (ctx d ?l CTX_NORUN_ID) NORUN_MASK_TASK) d) s5"
    using run 1 unfolding kill_stages Let_def s0_def [symmetric]
    by (simp add: s2_def s3_def s4_def s5_def d_def)
  have same1: "same_tasks cf gpid s0 s1"
    using 1 same_tty_release same_trans same_reset unfolding kreset_def
    by (auto simp: obind_Inr same_refl split: if_splits) blast
  have same4: "same_tasks cf gpid s1 s4"
    unfolding s4_def s3_def s2_def by (rule same_trans [OF same_trans [OF same_kstage same_kstage] same_kstage]; rule frame)
  have same5: "same_tasks cf gpid s4 s5" unfolding s5_def by (rule same_kstage) (rule frame)
  have cur4: "current_task (get_sched cf gpid s4) = ltid"
    using same_trans [OF same1 same4] by (simp add: same_tasks_def s0_def)
  show "same_tasks cf gpid s s'"
    using same_trans [OF same_trans [OF same1 same4] same5] by (simp add: same_tasks_def s' d_def s0_def)
  have tty1: "\<not> ?k CTX_TTY_ID s1 < cNB_TTY_CHANNELS cf"
    using 1 not_less_max by (auto simp: obind_Inr split: if_splits)
  have st: "?k j s2 = ?k j s1" if "j \<noteq> CTX_TIM_ID" for j
    unfolding s2_def by (rule kslot_kstage(2) [OF _ that]) (simp add: kslot_def)
  have st3: "?k j s3 = ?k j s2" if "j \<noteq> CTX_NIC_RX_ID" for j
    unfolding s3_def by (rule kslot_kstage(2) [OF _ that]) (simp add: kslot_def)
  have st4: "?k j s4 = ?k j s3" if "j \<noteq> CTX_NIC_TX_ID" for j
    unfolding s4_def by (rule kslot_kstage(2) [OF _ that]) (simp add: kslot_def)
  have st5: "?k j s5 = ?k j s4" if "j \<noteq> CTX_CMA_FB_ID" for j
    unfolding s5_def by (rule kslot_kstage(2) [OF _ that]) (rule kslot_cma_release [OF cur4])
  have st': "?k j s' = ?k j s5" if "j \<noteq> CTX_NORUN_ID" for j using that by (simp add: kslot_def s' d_def)
  have tim2: "\<not> ?k CTX_TIM_ID s2 < cNB_TIM_CHANNELS cf" unfolding s2_def by (rule kslot_kstage(1)) (simp add: kslot_def)
  have rx3: "\<not> ?k CTX_NIC_RX_ID s3 < cNB_NIC_CHANNELS cf" unfolding s3_def by (rule kslot_kstage(1)) (simp add: kslot_def)
  have tx4: "\<not> ?k CTX_NIC_TX_ID s4 < cNB_NIC_CHANNELS cf" unfolding s4_def by (rule kslot_kstage(1)) (simp add: kslot_def)
  have cma5: "\<not> ?k CTX_CMA_FB_ID s5 < cNB_CMA_CHANNELS cf"
    unfolding s5_def by (rule kslot_kstage(1)) (rule kslot_cma_release [OF cur4])
  show "\<not> ?k CTX_TTY_ID s' < cNB_TTY_CHANNELS cf" using tty1 st st3 st4 st5 st' by (simp add: ctx_slots)
  show "\<not> ?k CTX_TIM_ID s' < cNB_TIM_CHANNELS cf" using tim2 st3 st4 st5 st' by (simp add: ctx_slots)
  show "\<not> ?k CTX_NIC_RX_ID s' < cNB_NIC_CHANNELS cf" using rx3 st4 st5 st' by (simp add: ctx_slots)
  show "\<not> ?k CTX_NIC_TX_ID s' < cNB_NIC_CHANNELS cf" using tx4 st5 st' by (simp add: ctx_slots)
  show "\<not> ?k CTX_CMA_FB_ID s' < cNB_CMA_CHANNELS cf" using cma5 st' by (simp add: ctx_slots)
  show "?k CTX_NORUN_ID s' AND NORUN_MASK_TASK \<noteq> 0"
    by (simp add: kslot_def s' atomic_or_def or_and_self) (simp add: NORUN_MASK_TASK_def)
  show "tty_channel s' (unat (?k CTX_TTY_ID s)) = 0" if own: "?k CTX_TTY_ID s < cNB_TTY_CHANNELS cf"
  proof -
    have own0: "?k CTX_TTY_ID s0 = ?k CTX_TTY_ID s" "get_context_slot cf gpid CTX_TTY_ID s0 = ?k CTX_TTY_ID s"
      by (simp_all add: kslot_def s0_def get_context_slot_def)
    have "?k CTX_TTY_ID s \<noteq> -1" using own not_less_max by metis
    then have "tty_channel s1 (unat (?k CTX_TTY_ID s)) = 0"
      using 1 own own0 tty_release_frees [of cf mp gpid s0] by (auto simp: obind_Inr split: if_splits)
    moreover have "tty_channel s' = tty_channel s1"
      by (simp add: s' s5_def s4_def s3_def s2_def kstage_def set_sched_def)
    ultimately show ?thesis by simp
  qed
qed


section \<open>A switch with any signals\<close>

lemma same_handle: "handle_signals cf mp gpid t s = Some (Inr s') \<Longrightarrow> same_tasks cf gpid s s'"
proof -
  assume "handle_signals cf mp gpid t s = Some (Inr s')"
  then obtain s1 where k: "(if pending cf gpid (unat t) SIG_MASK_KILL s
      then obind (ctx_kill_task cf mp gpid t s) (\<lambda>s. Some (Inr (ack_signal cf gpid (unat t) SIG_MASK_KILL s)))
      else Some (Inr s)) = Some (Inr s1)"
    and e: "(if pending cf gpid (unat t) SIG_MASK_EXEC s1
      then obind (ctx_exec_task cf mp gpid t s1) (\<lambda>s. Some (Inr (ack_signal cf gpid (unat t) SIG_MASK_EXEC s)))
      else Some (Inr s1)) = Some (Inr s')"
    unfolding handle_signals_def obind_Inr by blast
  have "same_tasks cf gpid s s1"
    using k same_trans [OF kill_result(1) same_set(2)] by (auto simp: obind_Inr same_refl split: if_splits)
  moreover have "same_tasks cf gpid s1 s'"
    using e same_trans [OF same_exec same_set(2)] by (auto simp: obind_Inr same_refl split: if_splits)
  ultimately show ?thesis by (rule same_trans)
qed

lemma scan_range:
  "switch_scan cf mp gpid n tids s = Some (Inr (r, s')) \<Longrightarrow> 0 < n \<Longrightarrow> same_tasks cf gpid s s' \<and> (\<forall>t. r = Some t \<longrightarrow> t < n)"
proof (induction tids arbitrary: s)
  case Nil
  then show ?case by (simp add: same_refl)
next
  case (Cons tid tids)
  let ?t = "word_of_nat tid mod n"
  obtain s1 where 1: "handle_signals cf mp gpid ?t s = Some (Inr s1)"
    and rest: "(if ctx (get_sched cf gpid s1) (unat ?t) CTX_NORUN_ID = 0 then Some (Inr (Some ?t, s1))
      else switch_scan cf mp gpid n tids s1) = Some (Inr (r, s'))"
    using Cons.prems(1) unfolding switch_scan.simps Let_def obind_Inr by blast
  have t: "?t < n" using Cons.prems(2) by (simp add: word_mod_less_divisor)
  show ?case
  proof (cases "ctx (get_sched cf gpid s1) (unat ?t) CTX_NORUN_ID = 0")
    case True
    then show ?thesis using rest t same_handle [OF 1] by auto
  next
    case False
    then have "switch_scan cf mp gpid n tids s1 = Some (Inr (r, s'))" using rest by simp
    from Cons.IH [OF this Cons.prems(2)] show ?thesis using same_trans [OF same_handle [OF 1]] by blast
  qed
qed

lemma switch_range:
  assumes "ctx_switch cf mp gpid s = Some (Inr s')" "sched_ok (get_sched cf gpid s)"
  shows "sched_ok (get_sched cf gpid s')"
proof -
  let ?d = "get_sched cf gpid s"
  let ?tids = "[unat (current_task ?d) + 1 ..< unat (current_task ?d) + 1 + unat (sched_tasks ?d)]"
  obtain found s1 where scan: "switch_scan cf mp gpid (sched_tasks ?d) ?tids s = Some (Inr (found, s1))"
    and rest: "(let nxt = (case found of None \<Rightarrow> IDLE_TASK_INDEX | Some t \<Rightarrow> t)
      in if current_task ?d \<noteq> nxt
         then obind (xcu_timer_reset_cpt cf (cluster_xy cf gpid) (gpid AND (push_bit (cP_WIDTH cf) 1 - 1)) s1) (\<lambda>s.
           let s = set_sched cf gpid ((get_sched cf gpid s)\<lparr>current_task := nxt\<rparr>) s
           in Some (Inr (task_switch cf gpid (current_task ?d) nxt s)))
         else Some (Inr s1)) = Some (Inr s')"
    using assms(1) unfolding ctx_switch_def Let_def obind_Inr by auto
  have pos: "0 < sched_tasks ?d" using assms(2) by (simp add: sched_ok_def)
  note r = scan_range [OF scan pos]
  show ?thesis
  proof (cases "current_task ?d = (case found of None \<Rightarrow> IDLE_TASK_INDEX | Some t \<Rightarrow> t)")
    case True
    then have "s' = s1" using rest by (simp add: Let_def)
    then show ?thesis using r assms(2) by (simp add: sched_ok_def same_tasks_def)
  next
    case False
    let ?nxt = "case found of None \<Rightarrow> IDLE_TASK_INDEX | Some t \<Rightarrow> t"
    obtain s2 where 2: "xcu_timer_reset_cpt cf (cluster_xy cf gpid) (gpid AND (push_bit (cP_WIDTH cf) 1 - 1)) s1 = Some (Inr s2)"
      and s': "s' = task_switch cf gpid (current_task ?d) ?nxt (set_sched cf gpid ((get_sched cf gpid s2)\<lparr>current_task := ?nxt\<rparr>) s2)"
      using rest False unfolding Let_def obind_Inr by (auto simp: obind_Inr)
    have "get_sched cf gpid s2 = get_sched cf gpid s1"
      using 2 by (auto simp: xcu_timer_reset_cpt_def Let_def split: if_splits)
    then have "sched_tasks (get_sched cf gpid s') = sched_tasks ?d" "current_task (get_sched cf gpid s') = ?nxt"
      using r by (simp_all add: s' task_switch_ctx same_tasks_def)
    moreover have "?nxt < sched_tasks ?d \<or> ?nxt = IDLE_TASK_INDEX" using r by (cases found) auto
    ultimately show ?thesis using assms(2) by (simp add: sched_ok_def)
  qed
qed

section \<open>A small machine\<close>

definition tiny_config :: hard_config where
  "tiny_config = \<lparr>cX_SIZE = 1, cY_SIZE = 1, cX_WIDTH = 0, cY_WIDTH = 0, cP_WIDTH = 2, cNB_PROCS_MAX = 4,
     cIRQ_PER_PROCESSOR = 4, cNB_TTY_CHANNELS = 1, cNB_TIM_CHANNELS = 2, cNB_NIC_CHANNELS = 0, cNB_CMA_CHANNELS = 0,
     cUSE_PIC = False, cSEG_XCU_BASE = 0xB0000000, cPERI_CLUSTER_INCREMENT = 0x10000, cSEG_PIC_BASE = 0xB2000000,
     cSEG_CMA_BASE = 0xB3000000, cCTX_ERET = 0x80000100\<rparr>"

text \<open>Two runnable tasks; the first is running with \<open>7\<close> in its registers, the second has \<open>8\<close>.\<close>

definition tiny_sched :: static_scheduler where
  "tiny_sched = \<lparr>ctx = (\<lambda>t k. if k = CTX_NORUN_ID \<or> k = CTX_SIG_ID then 0 else 8), sched_tasks = 2, current_task = 0,
     hwi_vector = (\<lambda>_. 0), pti_vector = (\<lambda>_. 0), wti_vector = (\<lambda>_. 0)\<rparr>"

definition tiny_state :: kstate where
  "tiny_state = \<lparr>schedulers = (\<lambda>_ _ _. tiny_sched), tty_channel = (\<lambda>_. 1), tim_channel_allocator = 0, cma_channel = (\<lambda>_. 0),
     nic_rx_channel_allocator = 0, nic_tx_channel_allocator = 0, tty_rx_full = (\<lambda>_. 0), ext_irq_index = (\<lambda>_ _. 0),
     wti_alloc_one = (\<lambda>_ _ _. 0), wti_alloc_two = (\<lambda>_ _ _. 0), wti_alloc_ter = (\<lambda>_ _ _. 0), device = (\<lambda>_. 0),
     cpu = (\<lambda>_ _ _ _. 7)\<rparr>"

lemma tiny_ok:
  "sched_ok (get_sched tiny_config 0 tiny_state)" "xcu_check tiny_config (cluster_xy tiny_config 0)"
  "quiet tiny_config 0 tiny_state t" "norun tiny_config 0 tiny_state t = 0"
  "sched_tasks (get_sched tiny_config 0 tiny_state) = 2" "current_task (get_sched tiny_config 0 tiny_state) = 0"
  by (simp_all add: sched_ok_def get_sched_def tiny_state_def tiny_sched_def xcu_check_def tiny_config_def cluster_xy_def
      quiet_def pending_def norun_def)

lemma tiny_values: "ctx (get_sched tiny_config 0 tiny_state) t 4 = 8" "my_cpu tiny_config 0 tiny_state k = 7"
  by (simp_all add: get_sched_def my_cpu_def tiny_state_def tiny_sched_def ctx_slots)

lemma tiny_proc: "gpid \<in> {0, 1, 2} \<Longrightarrow> proc_x tiny_config gpid = 0 \<and> proc_y tiny_config gpid = 0 \<and> proc_p tiny_config gpid = unat gpid"
  by (auto simp: proc_x_def proc_y_def proc_p_def tiny_config_def)


section \<open>Properties\<close>

text \<open>C31: With no signal pending, a context switch makes current the first runnable task in cyclic order
  after the current one (the idle task when none is runnable), saves the registers of the
  processor in the context of the task that leaves, loads those of the task that enters, and changes
  no other context.\<close>

theorem ctx_switch_round_robin:
  assumes "sched_ok (get_sched cf gpid s)" "xcu_check cf (cluster_xy cf gpid)"
    "\<forall>t<unat (sched_tasks (get_sched cf gpid s)). quiet cf gpid s t"
  shows "\<exists>s'. ctx_switch cf mp gpid s = Some (Inr s') \<and>
    (let c = current_task (get_sched cf gpid s); c' = current_task (get_sched cf gpid s') in
     chosen cf gpid s c' \<and>
     (\<forall>t k. ctx (get_sched cf gpid s') t k = (if c' \<noteq> c \<and> t = unat c \<and> k \<in> set saved_slots
        then my_cpu cf gpid s k else ctx (get_sched cf gpid s) t k)) \<and>
     (\<forall>k. my_cpu cf gpid s' k = (if c' \<noteq> c \<and> k \<in> set saved_slots
        then ctx (get_sched cf gpid s) (unat c') k else my_cpu cf gpid s k)))"
  by (rule switch_result [OF assms, of mp]) (simp add: Let_def)

theorem ctx_switch_round_robin_witness:
  "\<forall>mp. \<exists>s'. ctx_switch tiny_config mp 0 tiny_state = Some (Inr s') \<and> current_task (get_sched tiny_config 0 s') = 1 \<and>
     my_cpu tiny_config 0 s' 4 = 8 \<and> ctx (get_sched tiny_config 0 s') 0 4 = 7"
proof -
  have "\<forall>t<unat (sched_tasks (get_sched tiny_config 0 tiny_state)). quiet tiny_config 0 tiny_state t"
    by (simp add: tiny_ok)
  note r = ctx_switch_round_robin [OF tiny_ok(1,2) this]
  have one: "unat u = 1 \<Longrightarrow> u = 1" for u :: u32 by (metis unat_1 word_unat_eq_iff)
  have c1: "c' = 1" if "chosen tiny_config 0 tiny_state c'" for c'
  proof -
    have "(\<forall>i<2. norun tiny_config 0 tiny_state i \<noteq> 0) \<and> c' = IDLE_TASK_INDEX \<or>
        unat c' < 2 \<and> (\<forall>i<2. norun tiny_config 0 tiny_state i = 0 \<longrightarrow> turns 2 0 (unat c') \<le> turns 2 0 i)"
      using that by (auto simp: chosen_def Let_def tiny_ok(5,6))
    then have "unat c' < 2" "turns 2 0 (unat c') \<le> turns 2 0 1"
      using tiny_ok(4) by (metis zero_less_numeral, metis one_less_numeral_iff semiring_norm(76) zero_less_numeral)
    then have "unat c' = 1" by (cases "unat c' = 0") (auto simp: turns_def)
    then show ?thesis by (rule one)
  qed
  have "\<not> chosen tiny_config 0 tiny_state 0" using c1 [of 0] by auto
  moreover have "(4 :: nat) \<in> set saved_slots" by (simp add: saved_slots_def)
  ultimately have "\<exists>s'. ctx_switch tiny_config mp 0 tiny_state = Some (Inr s') \<and> current_task (get_sched tiny_config 0 s') = 1 \<and>
     my_cpu tiny_config 0 s' 4 = 8 \<and> ctx (get_sched tiny_config 0 s') 0 4 = 7" for mp
    using r [of mp] by (auto simp: Let_def tiny_ok tiny_values dest: c1)
  then show ?thesis ..
qed

text \<open>C32: No runnable task is left behind: along any sequence of context switches of a processor, with any
  changes to registers, contexts and devices in between that leave the current task, the number of
  tasks and signals alone, a task that stays runnable becomes current within as many switches as the
  scheduler has tasks.\<close>

theorem ctx_switch_fair:
  assumes switch: "\<forall>i. ctx_switch cf mp gpid (f i) = Some (Inr (g i))"
    and same: "\<forall>i. current_task (get_sched cf gpid (f (Suc i))) = current_task (get_sched cf gpid (g i)) \<and>
      sched_tasks (get_sched cf gpid (f i)) = n"
    and ok: "\<forall>i. sched_ok (get_sched cf gpid (f i)) \<and> (\<forall>t<unat n. quiet cf gpid (f i) t)"
    and xcu: "xcu_check cf (cluster_xy cf gpid)"
    and task: "t < unat n" "\<forall>i. norun cf gpid (f i) t = 0"
  shows "\<exists>i<unat n. unat (current_task (get_sched cf gpid (g i))) = t"
proof (rule ccontr)
  assume never: "\<not> ?thesis"
  let ?c = "\<lambda>i. unat (current_task (get_sched cf gpid (f i)))"
  have pos: "0 < unat n" using task(1) by simp
  have step: "turns (unat n) (?c (Suc i)) t < turns (unat n) (?c i) t" if "i < unat n" for i
  proof -
    have q: "\<forall>u<unat (sched_tasks (get_sched cf gpid (f i))). quiet cf gpid (f i) u" using ok same by simp
    obtain s' where s': "ctx_switch cf mp gpid (f i) = Some (Inr s')" "chosen cf gpid (f i) (current_task (get_sched cf gpid s'))"
      using switch_result [OF _ xcu q, of mp] ok by metis
    have g: "s' = g i" using s'(1) switch by simp
    have "t < unat (sched_tasks (get_sched cf gpid (f i)))" using task(1) same by simp
    from chosen_closer [OF _ s'(2) this] show ?thesis using ok same task(2) never that by (auto simp: g)
  qed
  have "turns (unat n) (?c k) t + k \<le> unat n" if "k \<le> unat n" for k
    using that
  proof (induction k)
    case 0
    then show ?case using turns_bounds [OF pos, of "?c 0" t] by simp
  next
    case (Suc k)
    then show ?case using step [of k] by simp
  qed
  from this [of "unat n"] turns_bounds [OF pos, of "?c (unat n)" t] show False by simp
qed

definition lone_state :: kstate where
  "lone_state = tiny_state\<lparr>schedulers := (\<lambda>_ _ _. tiny_sched\<lparr>sched_tasks := 1\<rparr>)\<rparr>"

lemma lone_ok:
  "sched_ok (get_sched tiny_config 0 lone_state)" "quiet tiny_config 0 lone_state t" "norun tiny_config 0 lone_state t = 0"
  "sched_tasks (get_sched tiny_config 0 lone_state) = 1" "current_task (get_sched tiny_config 0 lone_state) = 0"
  by (simp_all add: sched_ok_def get_sched_def lone_state_def tiny_state_def tiny_sched_def quiet_def pending_def norun_def)

theorem ctx_switch_fair_witness:
  "\<exists>g. \<forall>mp. ctx_switch tiny_config mp 0 lone_state = Some (Inr (g mp)) \<and> current_task (get_sched tiny_config 0 (g mp)) = 0"
proof -
  have run: "ctx_switch tiny_config mp 0 lone_state = Some (Inr lone_state)" for mp
    using ctx_switch_quiet [of tiny_config 0 lone_state mp] lone_ok tiny_ok(2)
    by (simp add: Let_def)
  from ctx_switch_fair [of tiny_config _ 0 "\<lambda>_. lone_state" "\<lambda>_. lone_state" 1 0] show ?thesis
    using run lone_ok tiny_ok(2) by (intro exI [of _ "\<lambda>_. lone_state"]) auto
qed

text \<open>A task that is switched out and later switched in gets back every register it had, whatever the
  tasks in between do to the processor, as long as its context is left alone.\<close>

theorem task_switch_roundtrip:
  assumes "a \<noteq> b" "c \<noteq> a"
    and "\<forall>k. ctx (get_sched cf gpid s2) (unat a) k = ctx (get_sched cf gpid (task_switch cf gpid a b s)) (unat a) k"
    and "1 \<le> k \<and> k \<le> 35 \<or> k = 39"
  shows "my_cpu cf gpid (task_switch cf gpid c a s2) k = my_cpu cf gpid s k"
proof -
  have "k \<in> set saved_slots" using assms(4) by (auto simp: saved_slots_def)
  then show ?thesis using assms(1-3) by (simp add: task_switch_cpu task_switch_ctx)
qed

theorem task_switch_roundtrip_witness:
  "my_cpu tiny_config 0 (task_switch tiny_config 0 1 0 (task_switch tiny_config 0 0 1 tiny_state)) 29 = 7"
  using task_switch_roundtrip [of 0 1 1 tiny_config 0 "task_switch tiny_config 0 0 1 tiny_state" tiny_state 29]
  by (simp add: my_cpu_def tiny_state_def)

text \<open>Whatever signals are pending, and whatever the killing and restarting of tasks does, a context
  switch that returns leaves the index of the current task in the range of the tasks of the scheduler
  or at the idle task, so that every access to the context array is in bounds.\<close>

theorem ctx_switch_in_range:
  assumes "ctx_switch cf mp gpid s = Some (Inr s')" "sched_ok (get_sched cf gpid s)"
  shows "sched_ok (get_sched cf gpid s') \<and> unat (current_task (get_sched cf gpid s')) < 14"
proof -
  have "sched_ok (get_sched cf gpid s')" by (rule switch_range [OF assms])
  then show ?thesis unfolding sched_ok_def IDLE_TASK_INDEX_def word_le_nat_alt word_less_nat_alt by auto
qed

theorem ctx_switch_in_range_witness: "\<forall>mp. \<exists>s'. ctx_switch tiny_config mp 0 lone_state = Some (Inr s') \<and> sched_ok (get_sched tiny_config 0 s')"
proof
  fix mp
  have "ctx_switch tiny_config mp 0 lone_state = Some (Inr lone_state)"
    using ctx_switch_quiet [of tiny_config 0 lone_state mp] lone_ok tiny_ok(2) by (simp add: Let_def)
  from ctx_switch_in_range [OF this lone_ok(1)] this
  show "\<exists>s'. ctx_switch tiny_config mp 0 lone_state = Some (Inr s') \<and> sched_ok (get_sched tiny_config 0 s')" by blast
qed

text \<open>A killed task is no longer runnable and owns no private channel: its terminal, timer, network and
  frame buffer slots hold no valid index, its terminal is free again, and the current task of the
  scheduler is the one it was.\<close>

theorem killed_task_owns_nothing:
  assumes "ctx_kill_task cf mp gpid ltid s = Some (Inr s')"
  shows "current_task (get_sched cf gpid s') = current_task (get_sched cf gpid s) \<and>
    kslot cf gpid (unat ltid) CTX_NORUN_ID s' AND NORUN_MASK_TASK \<noteq> 0 \<and>
    \<not> kslot cf gpid (unat ltid) CTX_TTY_ID s' < cNB_TTY_CHANNELS cf \<and>
    \<not> kslot cf gpid (unat ltid) CTX_TIM_ID s' < cNB_TIM_CHANNELS cf \<and>
    \<not> kslot cf gpid (unat ltid) CTX_NIC_RX_ID s' < cNB_NIC_CHANNELS cf \<and>
    \<not> kslot cf gpid (unat ltid) CTX_NIC_TX_ID s' < cNB_NIC_CHANNELS cf \<and>
    \<not> kslot cf gpid (unat ltid) CTX_CMA_FB_ID s' < cNB_CMA_CHANNELS cf \<and>
    (kslot cf gpid (unat ltid) CTX_TTY_ID s < cNB_TTY_CHANNELS cf \<longrightarrow>
       tty_channel s' (unat (kslot cf gpid (unat ltid) CTX_TTY_ID s)) = 0)"
  using kill_result [OF assms] by (simp add: same_tasks_def)

theorem killed_task_owns_nothing_witness:
  "\<forall>mp. \<exists>s'. ctx_kill_task tiny_config mp 0 1 tiny_state = Some (Inr s') \<and> kslot tiny_config 0 1 CTX_NORUN_ID s' AND NORUN_MASK_TASK \<noteq> 0"
proof
  fix mp
  have "\<exists>s'. ctx_kill_task tiny_config mp 0 1 tiny_state = Some (Inr s')"
    by (simp add: kill_stages Let_def kslot_def get_sched_def set_sched_def tiny_state_def tiny_sched_def ctx_slots tiny_config_def)
  then obtain s' where "ctx_kill_task tiny_config mp 0 1 tiny_state = Some (Inr s')" by blast
  from killed_task_owns_nothing [OF this] this
  show "\<exists>s'. ctx_kill_task tiny_config mp 0 1 tiny_state = Some (Inr s') \<and> kslot tiny_config 0 1 CTX_NORUN_ID s' AND NORUN_MASK_TASK \<noteq> 0"
    by auto
qed

lemma get_slot_same: "get_context_slot cf g k (set_context_slot cf g k v s) = v"
  by (simp add: get_context_slot_def set_context_slot_def Let_def)

lemma get_slot_other:
  "(proc_x cf h, proc_y cf h, proc_p cf h) \<noteq> (proc_x cf g, proc_y cf g, proc_p cf g) \<Longrightarrow>
     get_context_slot cf h k (set_context_slot cf g j v (s\<lparr>tim_channel_allocator := a\<rparr>)) = get_context_slot cf h k s"
  by (auto simp: get_context_slot_def set_context_slot_def get_sched_def set_sched_def Let_def)

lemma tim_alloc:
  assumes "tim_channel_allocator s = v" "v < cNB_TIM_CHANNELS cf"
  shows "snd (sys_tim_alloc cf g s) = set_context_slot cf g CTX_TIM_ID v (s\<lparr>tim_channel_allocator := v + 1\<rparr>)"
    "tim_channel_allocator (snd (sys_tim_alloc cf g s)) = v + 1"
    "get_context_slot cf g CTX_TIM_ID (snd (sys_tim_alloc cf g s)) = v"
  using assms by (simp_all add: sys_tim_alloc_def atomic_increment_def not_le [symmetric] get_slot_same)
    (simp_all add: set_context_slot_def set_sched_def Let_def)

text \<open>The allocator of the timers counts, so it forgets which timer came back: of three tasks on three
  processors, when the first gets timer 0 and the second timer 1 and the first is killed, the third
  gets timer 1 while the second still owns it.\<close>

theorem timer_given_twice:
  assumes "tim_channel_allocator s = 0" "2 \<le> cNB_TIM_CHANNELS cf"
    and "\<forall>a\<in>{0, 1, 2}. \<forall>b\<in>{0, 1, 2}. a \<noteq> b \<longrightarrow>
      (proc_x cf (g a), proc_y cf (g a), proc_p cf (g a)) \<noteq> (proc_x cf (g b), proc_y cf (g b), proc_p cf (g b))"
  defines "s3 \<equiv> snd (sys_tim_alloc cf (g (2 :: nat)) (snd (sys_tim_release
      (snd (sys_tim_alloc cf (g 1) (snd (sys_tim_alloc cf (g 0) s)))))))"
  shows "get_context_slot cf (g 1) CTX_TIM_ID s3 = 1 \<and> get_context_slot cf (g 2) CTX_TIM_ID s3 = 1"
proof -
  let ?s1 = "snd (sys_tim_alloc cf (g 0) s)"
  let ?s2 = "snd (sys_tim_alloc cf (g 1) ?s1)"
  let ?sr = "snd (sys_tim_release ?s2)"
  have nb: "0 < cNB_TIM_CHANNELS cf" "1 < cNB_TIM_CHANNELS cf"
    using assms(2) by (auto simp: word_le_nat_alt word_less_nat_alt)
  have apart: "(proc_x cf (g 1), proc_y cf (g 1), proc_p cf (g 1)) \<noteq> (proc_x cf (g 2), proc_y cf (g 2), proc_p cf (g 2))"
    using assms(3) by simp
  have 1: "tim_channel_allocator ?s1 = 1" using tim_alloc [of s 0 cf "g 0"] assms(1) nb by simp
  have 2: "tim_channel_allocator ?s2 = 2" "get_context_slot cf (g 1) CTX_TIM_ID ?s2 = 1"
    using tim_alloc [of ?s1 1 cf "g 1"] 1 nb by simp_all
  have "(2 :: u32) + 0xFFFFFFFF = 1" by simp
  then have 3: "tim_channel_allocator ?sr = 1" "get_context_slot cf (g 1) CTX_TIM_ID ?sr = 1"
    using 2 by (simp_all add: sys_tim_release_def atomic_increment_def get_context_slot_def get_sched_def)
  show ?thesis unfolding s3_def
    using tim_alloc [of ?sr 1 cf "g 2"] 3 nb get_slot_other [OF apart] by simp
qed

theorem timer_given_twice_witness:
  "get_context_slot tiny_config 1 CTX_TIM_ID (snd (sys_tim_alloc tiny_config 2 (snd (sys_tim_release
     (snd (sys_tim_alloc tiny_config 1 (snd (sys_tim_alloc tiny_config 0 tiny_state)))))))) = 1"
proof -
  have "tim_channel_allocator tiny_state = 0" "2 \<le> cNB_TIM_CHANNELS tiny_config"
    by (simp_all add: tiny_state_def tiny_config_def)
  moreover have "\<forall>a\<in>{0, 1, 2}. \<forall>b\<in>{0, 1, 2}. a \<noteq> b \<longrightarrow>
      (proc_x tiny_config (word_of_nat a), proc_y tiny_config (word_of_nat a), proc_p tiny_config (word_of_nat a)) \<noteq>
      (proc_x tiny_config (word_of_nat b), proc_y tiny_config (word_of_nat b), proc_p tiny_config (word_of_nat b))"
    by (auto simp: proc_p_def tiny_config_def)
  ultimately show ?thesis using timer_given_twice [of tiny_state tiny_config "\<lambda>a. word_of_nat a"] by simp
qed

end
