(* ===== verification/Boot_Sched.thy ===== *)
theory Boot_Sched
  imports Page_Tables Scheduler
begin

text \<open>
  The schedulers of a machine: \<open>boot_get_sched_vaddr\<close> and \<open>boot_scheduler_init\<close>
  (\<open>giet_boot/boot.c\<close>), run in each cluster by its processor 0, in the order of the code. The boot loader
  only counts the tasks: a fourteenth one goes in the context of the idle task, and the context of a
  fifteenth is past the end of the array (no result here). In its second step the code sets the MMU register of the page table
  for each vspace, to write the schedulers through their virtual addresses; the schedulers are records here, and this register
  is not in the state.
\<close>

definition CTX_CR_ID :: nat where "CTX_CR_ID = 33"
definition CTX_PTAB_ID :: nat where "CTX_PTAB_ID = 36"
definition CTX_PTPR_ID :: nat where "CTX_PTPR_ID = 39"
definition CTX_CMA_RX_ID :: nat where "CTX_CMA_RX_ID = 42"
definition CTX_CMA_TX_ID :: nat where "CTX_CMA_TX_ID = 43"
definition CTX_HBA_ID :: nat where "CTX_HBA_ID = 47"
definition CTX_TRDID_ID :: nat where "CTX_TRDID_ID = 48"
definition ISR_TICK :: u32 where "ISR_TICK = 1"
definition ISR_WAKUP :: u32 where "ISR_WAKUP = 6"

lemmas all_slots = ctx_slots CTX_CR_ID_def CTX_PTAB_ID_def CTX_PTPR_ID_def CTX_CMA_RX_ID_def
  CTX_CMA_TX_ID_def CTX_HBA_ID_def CTX_TRDID_ID_def

section \<open>Step 1: schedulers, interrupt vectors and masks\<close>

fun sched_vseg_scan :: "mapping \<Rightarrow> nat \<Rightarrow> mapping_vseg list \<Rightarrow> (panic + u32 \<times> u32) option" where
  "sched_vseg_scan mp cluster_id [] = (if n_vsegs (hdr mp) \<le> length (vsegs mp) then Some (Inl No_sched_vseg) else None)"
| "sched_vseg_scan mp cluster_id (v # vs) =
     (if vtype v = VSEG_TYPE_SCHED then
        Option.bind (fetch (psegs mp) (psegid v)) (\<lambda>pseg.
          if clusterid pseg = cluster_id then Some (Inr (vbase v, vseg_length v)) else sched_vseg_scan mp cluster_id vs)
      else sched_vseg_scan mp cluster_id vs)"

definition boot_get_sched_vaddr :: "mapping \<Rightarrow> nat \<Rightarrow> (panic + u32 \<times> u32) option" where
  "boot_get_sched_vaddr mp cluster_id = sched_vseg_scan mp cluster_id (take (n_vsegs (hdr mp)) (vsegs mp))"

definition upd_sched :: "nat \<Rightarrow> nat \<Rightarrow> nat \<Rightarrow> (static_scheduler \<Rightarrow> static_scheduler) \<Rightarrow> kstate \<Rightarrow> kstate" where
  "upd_sched x y l f s = s\<lparr>schedulers := upd3 (schedulers s) x y l (f (schedulers s x y l))\<rparr>"

definition idle_context :: "boot_state \<Rightarrow> nat \<Rightarrow> nat \<Rightarrow> (nat \<Rightarrow> u32) \<Rightarrow> nat \<Rightarrow> u32" where
  "idle_context st x y c = c
     (CTX_CR_ID := 0, CTX_SR_ID := 0xFF03, CTX_PTPR_ID := ucast (drop_bit 13 (ptabs_paddr st 0 x y)),
      CTX_PTAB_ID := ptabs_vaddr st 0 x y, CTX_TTY_ID := 0, CTX_LTID_ID := IDLE_TASK_INDEX,
      CTX_VSID_ID := 0, CTX_NORUN_ID := 0, CTX_SIG_ID := 0)"

definition sched_reset :: "boot_state \<Rightarrow> nat \<Rightarrow> nat \<Rightarrow> static_scheduler \<Rightarrow> static_scheduler" where
  "sched_reset st x y d =
     (let i = unat IDLE_TASK_INDEX; clear = (\<lambda>v slot. if slot < 32 then 0 else v slot)
      in d\<lparr>sched_tasks := 0, current_task := IDLE_TASK_INDEX, hwi_vector := clear (hwi_vector d),
           pti_vector := clear (pti_vector d), wti_vector := clear (wti_vector d),
           ctx := (ctx d)(i := idle_context st x y (ctx d i))\<rparr>)"

text \<open>The XCU of the cluster, the last one if there are several; each is checked.\<close>

fun xcu_scan :: "mapping \<Rightarrow> nat \<Rightarrow> mapping_periph list \<Rightarrow> mapping_periph option \<Rightarrow> panic + mapping_periph option" where
  "xcu_scan mp nprocs [] xcu = Inr xcu"
| "xcu_scan mp nprocs (q # qs) xcu =
     (if periph_type_of q = PERIPH_TYPE_XCU then
        if periph_arg0 q < periph_irqs q then Inl Not_enough_hwi
        else if periph_arg2 q < nprocs then Inl Not_enough_pti
        else if periph_arg1 q < 4 * nprocs then Inl Not_enough_wti
        else if periph_channels q < nprocs * irq_per_proc (hdr mp) mod 2 ^ 32 then Inl Not_enough_outputs
        else xcu_scan mp nprocs qs (Some q)
      else xcu_scan mp nprocs qs xcu)"

definition hwi_entry :: "mapping_irq \<Rightarrow> u32" where
  "hwi_entry q = (word_of_nat (irq_isr q) AND 0xFFFF) OR push_bit 16 (word_of_nat (irq_channel q))"

text \<open>The round-robin allocation of the interrupts of the XCU, with the masks that it builds.\<close>

fun hwi_loop :: "nat \<Rightarrow> nat \<Rightarrow> nat \<Rightarrow> mapping_irq list \<Rightarrow> nat \<Rightarrow> (nat \<Rightarrow> u32) \<Rightarrow> kstate
    \<Rightarrow> (panic + (nat \<Rightarrow> u32) \<times> kstate) option" where
  "hwi_loop x y nprocs [] lpid msk s = Some (Inr (msk, s))"
| "hwi_loop x y nprocs (q # qs) lpid msk s =
     (if irq_srctype q \<noteq> IRQ_TYPE_HWI \<or> irq_srcid q > 31 then Some (Inl Bad_xcu_irq)
      else if nprocs = 0 then None
      else hwi_loop x y nprocs qs ((lpid + 1) mod nprocs)
        (msk(lpid := msk lpid OR push_bit (irq_srcid q) 1))
        (upd_sched x y lpid (\<lambda>d. d\<lparr>hwi_vector := (hwi_vector d)(irq_srcid q := hwi_entry q)\<rparr>) s))"

definition tick_and_wakup :: "nat \<Rightarrow> static_scheduler \<Rightarrow> static_scheduler" where
  "tick_and_wakup lpid d =
     d\<lparr>pti_vector := (pti_vector d)(lpid := ISR_TICK), wti_vector := (wti_vector d)(lpid := ISR_WAKUP)\<rparr>"

definition pti_mask :: "nat \<Rightarrow> u32" where
  "pti_mask lpid = push_bit lpid 1"

definition wti_mask :: "hard_config \<Rightarrow> nat \<Rightarrow> u32" where
  "wti_mask cf lpid = push_bit lpid 1 OR push_bit (lpid + unat (cNB_PROCS_MAX cf)) 1
     OR push_bit (lpid + 2 * unat (cNB_PROCS_MAX cf)) 1 OR push_bit (lpid + 3 * unat (cNB_PROCS_MAX cf)) 1"

fun set_masks :: "hard_config \<Rightarrow> u32 \<Rightarrow> (nat \<Rightarrow> u32) \<Rightarrow> nat list \<Rightarrow> kstate \<Rightarrow> (panic + kstate) option" where
  "set_masks cf cxy hwi [] s = Some (Inr s)"
| "set_masks cf cxy hwi (l # ls) s =
     (let channel = word_of_nat l * cIRQ_PER_PROCESSOR cf
      in obind (xcu_set_mask cf cxy channel (hwi l) IRQ_TYPE_HWI s) (\<lambda>s.
         obind (xcu_set_mask cf cxy channel (wti_mask cf l) IRQ_TYPE_WTI s) (\<lambda>s.
         obind (xcu_set_mask cf cxy channel (pti_mask l) IRQ_TYPE_PTI s) (\<lambda>s. set_masks cf cxy hwi ls s))))"

section \<open>Step 2: the contexts of the tasks\<close>

definition task_context :: "boot_state \<Rightarrow> nat \<Rightarrow> nat \<Rightarrow> nat \<Rightarrow> mapping_vspace \<Rightarrow> u32 \<Rightarrow> u32 \<Rightarrow> mapping_task \<Rightarrow> nat \<Rightarrow> u32
    \<Rightarrow> (nat \<Rightarrow> u32) \<Rightarrow> nat \<Rightarrow> u32" where
  "task_context st x y vspace_id vspace ctx_entry ctx_sp task task_id ltid c = c
     (CTX_CR_ID := 0, CTX_SR_ID := GIET_SR_INIT_VALUE, CTX_SP_ID := ctx_sp, CTX_EPC_ID := ctx_entry,
      CTX_ENTRY_ID := ctx_entry, CTX_PTPR_ID := ucast (drop_bit 13 (ptabs_paddr st vspace_id x y)),
      CTX_PTAB_ID := ptabs_vaddr st vspace_id x y, CTX_LTID_ID := ltid, CTX_GTID_ID := word_of_nat task_id,
      CTX_TRDID_ID := word_of_nat (trdid task), CTX_VSID_ID := word_of_nat vspace_id,
      CTX_NORUN_ID := (if vspace_active vspace then 0 else 1), CTX_SIG_ID := 0,
      CTX_TTY_ID := 0xFFFFFFFF, CTX_CMA_FB_ID := 0xFFFFFFFF, CTX_CMA_RX_ID := 0xFFFFFFFF,
      CTX_CMA_TX_ID := 0xFFFFFFFF, CTX_NIC_RX_ID := 0xFFFFFFFF, CTX_NIC_TX_ID := 0xFFFFFFFF,
      CTX_TIM_ID := 0xFFFFFFFF, CTX_HBA_ID := 0xFFFFFFFF)"

fun place_tasks :: "boot_state \<Rightarrow> nat \<Rightarrow> nat \<Rightarrow> nat \<Rightarrow> nat \<Rightarrow> mapping_vspace \<Rightarrow> nat list \<Rightarrow> mapping \<Rightarrow> kstate
    \<Rightarrow> (panic + mapping \<times> kstate) option" where
  "place_tasks st x y nprocs vspace_id vspace [] mp s = Some (Inr (mp, s))"
| "place_tasks st x y nprocs vspace_id vspace (task_id # ids) mp s =
     Option.bind (fetch (tasks mp) task_id) (\<lambda>task.
     Option.bind (fetch (clusters mp) (task_clusterid task)) (\<lambda>c.
     Option.bind (fetch (vsegs mp) (start_vseg_id vspace)) (\<lambda>start.
     Option.bind (fetch (vsegs mp) (stack_vseg_id task)) (\<lambda>stack.
       let req_p = proclocid task;
           ctx_entry = vbase start + word_of_nat (startid task) * 4;
           ctx_sp = vbase stack + vseg_length stack
       in if x = cluster_x c \<and> y = cluster_y c \<and> req_p < nprocs then
            let ltid = sched_tasks (schedulers s x y req_p); l = unat ltid
            in if l \<ge> 14 then None
               else place_tasks st x y nprocs vspace_id vspace ids
                 (mp\<lparr>tasks := (tasks mp)[task_id := task\<lparr>task_ltid := l\<rparr>]\<rparr>)
                 (upd_sched x y req_p (\<lambda>d. d\<lparr>sched_tasks := ltid + 1, ctx := (ctx d)(l :=
                    task_context st x y vspace_id vspace ctx_entry ctx_sp task task_id ltid (ctx d l))\<rparr>) s)
          else place_tasks st x y nprocs vspace_id vspace ids mp s))))"

fun place_vspaces :: "boot_state \<Rightarrow> nat \<Rightarrow> nat \<Rightarrow> nat \<Rightarrow> nat list \<Rightarrow> mapping \<Rightarrow> kstate \<Rightarrow> (panic + mapping \<times> kstate) option" where
  "place_vspaces st x y nprocs [] mp s = Some (Inr (mp, s))"
| "place_vspaces st x y nprocs (v # vs) mp s =
     Option.bind (fetch (vspace_table mp) v) (\<lambda>vspace.
       obind (place_tasks st x y nprocs v vspace [task_offset vspace ..< task_offset vspace + vspace_tasks vspace] mp s)
         (\<lambda>(mp, s). place_vspaces st x y nprocs vs mp s))"

section \<open>boot\_scheduler\_init\<close>

text \<open>\<open>bt_schedulers\<close> is the array \<open>_schedulers\<close> of the addresses of the schedulers.\<close>

record boot_tables =
  bt_mapping :: mapping
  bt_kernel :: kstate
  bt_schedulers :: "u32 array3"

definition boot_scheduler_init :: "hard_config \<Rightarrow> nat \<Rightarrow> nat \<Rightarrow> boot_state \<Rightarrow> boot_tables \<Rightarrow> (panic + boot_tables) option" where
  "boot_scheduler_init cf x y st B =
     (let mp = bt_mapping B; cluster_id = x * cY_SIZE cf + y;
          cxy = word_of_nat (push_bit (cY_WIDTH cf) x + y)
      in Option.bind (fetch (clusters mp) cluster_id) (\<lambda>cluster.
         let nprocs = procs cluster; lo = cl_periph_offset cluster; hi = lo + cl_periphs cluster
         in if nprocs > 8 then Some (Inl Too_many_procs)
            else obind (boot_get_sched_vaddr mp cluster_id) (\<lambda>(sched_vbase, sched_length).
              if sched_length < push_bit 13 (word_of_nat nprocs) then Some (Inl Sched_too_small)
              else if hi > length (periphs mp) then None
              else
                let s = fold (\<lambda>l. upd_sched x y l (sched_reset st x y)) [0..<nprocs] (bt_kernel B);
                    ptrs = fold (\<lambda>l f. upd3 f x y l (sched_vbase + push_bit 13 (word_of_nat l))) [0..<nprocs] (bt_schedulers B)
                in case xcu_scan mp nprocs (drop lo (take hi (periphs mp))) None of
                     Inl e \<Rightarrow> Some (Inl e)
                   | Inr None \<Rightarrow> Some (Inl No_xcu)
                   | Inr (Some xcu) \<Rightarrow>
                       if periph_irq_offset xcu + periph_irqs xcu > length (irqs mp) then None
                       else if 0 < nprocs \<and> nprocs - 1 + 3 * unat (cNB_PROCS_MAX cf) \<ge> 32 then None
                       else obind (hwi_loop x y nprocs (take (periph_irqs xcu) (drop (periph_irq_offset xcu) (irqs mp))) 0 (\<lambda>_. 0) s)
                         (\<lambda>(hwi, s).
                           obind (set_masks cf cxy hwi [0..<nprocs] (fold (\<lambda>l. upd_sched x y l (tick_and_wakup l)) [0..<nprocs] s)) (\<lambda>s.
                             obind (place_vspaces st x y nprocs [0..<vspaces (hdr mp)] mp s) (\<lambda>(mp, s).
                               Some (Inr \<lparr>bt_mapping = mp, bt_kernel = s, bt_schedulers = ptrs\<rparr>)))))))"

end
