(* ===== verification/Boot_Tasks.thy ===== *)
theory Boot_Tasks
  imports Boot_Sched
begin

text \<open>
  What \<open>boot_scheduler_init\<close> computes, as functions of the mapping: the tasks of each processor
  and their contexts (\<open>tasks_of\<close>, \<open>boot_context\<close>), the lines of the XCU dealt to each processor, and the masks.
  \<open>boot_cluster_ok\<close> is what the mapping of a cluster must satisfy: the tests of the code, indices within the
  tables of the mapping, and at most 13 tasks on a processor. \<open>boot_init_result\<close> is the result that
  the properties use.
\<close>

section \<open>The tasks of a processor\<close>

text \<open>The tasks of the mapping with their vspaces, in the order of the two loops.\<close>

definition all_tasks :: "mapping \<Rightarrow> (nat \<times> nat) list" where
  "all_tasks mp = concat (map (\<lambda>v. map (Pair v) [task_offset (vspace_table mp ! v) ..<
     task_offset (vspace_table mp ! v) + vspace_tasks (vspace_table mp ! v)]) [0..<vspaces (hdr mp)])"

definition placed_on :: "mapping \<Rightarrow> nat \<Rightarrow> nat \<Rightarrow> nat \<Rightarrow> nat \<times> nat \<Rightarrow> bool" where
  "placed_on mp x y p vt \<longleftrightarrow> (let task = tasks mp ! snd vt; c = clusters mp ! task_clusterid task
     in cluster_x c = x \<and> cluster_y c = y \<and> proclocid task = p)"

definition tasks_of :: "mapping \<Rightarrow> nat \<Rightarrow> nat \<Rightarrow> nat \<Rightarrow> (nat \<times> nat) list" where
  "tasks_of mp x y p = filter (placed_on mp x y p) (all_tasks mp)"

definition boot_context :: "boot_state \<Rightarrow> mapping \<Rightarrow> nat \<Rightarrow> nat \<Rightarrow> nat \<times> nat \<Rightarrow> nat \<Rightarrow> (nat \<Rightarrow> u32) \<Rightarrow> nat \<Rightarrow> u32" where
  "boot_context st mp x y vt ltid =
     (let task = tasks mp ! snd vt; vspace = vspace_table mp ! fst vt; stack = vsegs mp ! stack_vseg_id task
      in task_context st x y (fst vt) vspace (vbase (vsegs mp ! start_vseg_id vspace) + word_of_nat (startid task) * 4)
           (vbase stack + vseg_length stack) task (snd vt) (word_of_nat ltid))"

definition with_tasks :: "boot_state \<Rightarrow> mapping \<Rightarrow> nat \<Rightarrow> nat \<Rightarrow> (nat \<times> nat) list \<Rightarrow> static_scheduler \<Rightarrow> static_scheduler" where
  "with_tasks st mp x y vts d = d\<lparr>sched_tasks := word_of_nat (length vts),
     ctx := (\<lambda>i. if i < length vts then boot_context st mp x y (vts ! i) i (ctx d i) else ctx d i)\<rparr>"

lemma with_tasks_Nil: "sched_tasks d = 0 \<Longrightarrow> with_tasks st mp x y [] d = d"
  by (simp add: with_tasks_def)

lemma with_tasks_snoc:
  "with_tasks st mp x y (vts @ [vt]) d = (let d = with_tasks st mp x y vts d; l = length vts
     in d\<lparr>sched_tasks := sched_tasks d + 1, ctx := (ctx d)(l := boot_context st mp x y vt l (ctx d l))\<rparr>)"
proof -
  have "(\<lambda>i. if i < length (vts @ [vt]) then boot_context st mp x y ((vts @ [vt]) ! i) i (ctx d i) else ctx d i) =
      (\<lambda>i. if i < length vts then boot_context st mp x y (vts ! i) i (ctx d i) else ctx d i)
      (length vts := boot_context st mp x y vt (length vts) (ctx d (length vts)))"
    by (rule ext) (simp add: nth_append)
  then show ?thesis by (simp add: with_tasks_def Let_def add.commute)
qed

text \<open>A task whose indices in the tables are valid.\<close>

definition task_valid :: "mapping \<Rightarrow> nat \<times> nat \<Rightarrow> bool" where
  "task_valid mp vt \<longleftrightarrow> fst vt < length (vspace_table mp) \<and> snd vt < length (tasks mp) \<and>
     task_clusterid (tasks mp ! snd vt) < length (clusters mp) \<and>
     start_vseg_id (vspace_table mp ! fst vt) < length (vsegs mp) \<and> stack_vseg_id (tasks mp ! snd vt) < length (vsegs mp)"

text \<open>The state after the tasks \<open>vts\<close> were visited.\<close>

definition visited :: "boot_state \<Rightarrow> nat \<Rightarrow> nat \<Rightarrow> nat \<Rightarrow> mapping \<Rightarrow> kstate \<Rightarrow> (nat \<times> nat) list \<Rightarrow> mapping \<Rightarrow> kstate \<Rightarrow> bool" where
  "visited st x y nprocs mp0 s0 vts mp s \<longleftrightarrow>
     mp = mp0\<lparr>tasks := tasks mp\<rparr> \<and> length (tasks mp) = length (tasks mp0) \<and>
     (\<forall>t<length (tasks mp0). \<exists>l. tasks mp ! t = (tasks mp0 ! t)\<lparr>task_ltid := l\<rparr>) \<and>
     (distinct (map snd vts) \<longrightarrow> (\<forall>p<nprocs. let ts = filter (placed_on mp0 x y p) vts in
        \<forall>i<length ts. task_ltid (tasks mp ! snd (ts ! i)) = i)) \<and>
     s = s0\<lparr>schedulers := schedulers s\<rparr> \<and>
     (\<forall>x' y' p. schedulers s x' y' p = (if x' = x \<and> y' = y \<and> p < nprocs
        then with_tasks st mp0 x y (filter (placed_on mp0 x y p) vts) (schedulers s0 x y p)
        else schedulers s0 x' y' p))"

lemma visited_Nil:
  assumes "\<And>p. p < nprocs \<Longrightarrow> sched_tasks (schedulers s x y p) = 0"
  shows "visited st x y nprocs mp s [] mp s"
proof -
  have "\<exists>l. tasks mp ! t = (tasks mp ! t)\<lparr>task_ltid := l\<rparr>" for t
    by (rule exI [of _ "task_ltid (tasks mp ! t)"]) simp
  then show ?thesis using assms by (auto simp: visited_def with_tasks_Nil)
qed

lemma nth_in_filter: "i < length (filter P xs) \<Longrightarrow> filter P xs ! i \<in> set xs \<and> P (filter P xs ! i)"
  using nth_mem [of i "filter P xs"] by simp

lemma visited_skip:
  assumes "visited st x y nprocs mp0 s0 vts mp s" "\<And>p. p < nprocs \<Longrightarrow> \<not> placed_on mp0 x y p vt"
  shows "visited st x y nprocs mp0 s0 (vts @ [vt]) mp s"
  using assms by (simp add: visited_def)

lemma visited_place:
  assumes v: "visited st x y nprocs mp0 s0 vts mp s" and p: "p < nprocs" "placed_on mp0 x y p vt"
    and t: "task_valid mp0 vt" and l: "l = length (filter (placed_on mp0 x y p) vts)"
  shows "visited st x y nprocs mp0 s0 (vts @ [vt])
    (mp\<lparr>tasks := (tasks mp)[snd vt := (tasks mp ! snd vt)\<lparr>task_ltid := l\<rparr>]\<rparr>)
    (upd_sched x y p (\<lambda>d. d\<lparr>sched_tasks := sched_tasks d + 1,
       ctx := (ctx d)(l := boot_context st mp0 x y vt l (ctx d l))\<rparr>) s)"
proof -
  let ?mp = "mp\<lparr>tasks := (tasks mp)[snd vt := (tasks mp ! snd vt)\<lparr>task_ltid := l\<rparr>]\<rparr>"
  have len: "length (tasks mp) = length (tasks mp0)" and mp: "mp = mp0\<lparr>tasks := tasks mp\<rparr>"
    and same: "\<And>t. t < length (tasks mp0) \<Longrightarrow> \<exists>l. tasks mp ! t = (tasks mp0 ! t)\<lparr>task_ltid := l\<rparr>"
    and ids: "distinct (map snd vts) \<Longrightarrow> p' < nprocs \<Longrightarrow> i < length (filter (placed_on mp0 x y p') vts) \<Longrightarrow>
      task_ltid (tasks mp ! snd (filter (placed_on mp0 x y p') vts ! i)) = i"
    and s: "s = s0\<lparr>schedulers := schedulers s\<rparr>" for p' i
    using v by (auto simp: visited_def Let_def)
  have only: "placed_on mp0 x y p' vt \<longleftrightarrow> p' = p" for p' using p(2) by (auto simp: placed_on_def Let_def)
  have n: "snd vt < length (tasks mp0)" using t by (simp add: task_valid_def)
  have "?mp = mp0\<lparr>tasks := tasks ?mp\<rparr>" by (subst mp) simp
  moreover have "\<exists>k. tasks ?mp ! t = (tasks mp0 ! t)\<lparr>task_ltid := k\<rparr>" if "t < length (tasks mp0)" for t
    using same [OF that] n len that by (auto simp: nth_list_update)
  moreover have "task_ltid (tasks ?mp ! snd (filter (placed_on mp0 x y p') (vts @ [vt]) ! i)) = i"
    if "distinct (map snd (vts @ [vt]))" "p' < nprocs" "i < length (filter (placed_on mp0 x y p') (vts @ [vt]))" for p' i
  proof (cases "i < length (filter (placed_on mp0 x y p') vts)")
    case True
    have "snd (filter (placed_on mp0 x y p') vts ! i) \<noteq> snd vt"
      using nth_in_filter [OF True] that(1) by (metis distinct_append list.simps(15) map_append disjoint_insert(1) image_eqI list.set_map list.simps(9))
    then show ?thesis using True ids that(1,2) by (simp add: nth_append)
  next
    case False
    then have "p' = p \<and> i = l" using that(3) only [of p'] l by (auto split: if_splits)
    then show ?thesis using n len p(2) l by (simp add: nth_append)
  qed
  moreover have "schedulers (upd_sched x y p (\<lambda>d. d\<lparr>sched_tasks := sched_tasks d + 1,
       ctx := (ctx d)(l := boot_context st mp0 x y vt l (ctx d l))\<rparr>) s) x' y' p' =
      (if x' = x \<and> y' = y \<and> p' < nprocs
        then with_tasks st mp0 x y (filter (placed_on mp0 x y p') (vts @ [vt])) (schedulers s0 x y p')
        else schedulers s0 x' y' p')" for x' y' p'
    using v p only [of p'] l by (auto simp: visited_def upd_sched_def with_tasks_snoc Let_def)
  moreover have "upd_sched x y p f s = s0\<lparr>schedulers := schedulers (upd_sched x y p f s)\<rparr>" for f
    by (subst s) (simp add: upd_sched_def)
  ultimately show ?thesis using len by (simp add: visited_def Let_def)
qed

lemma place_tasks_visited:
  assumes "visited st x y nprocs mp0 s0 vts mp s"
    and "\<And>t. t \<in> set ids \<Longrightarrow> task_valid mp0 (v, t)" "vspace = vspace_table mp0 ! v"
    and "\<And>p. p < nprocs \<Longrightarrow> length (filter (placed_on mp0 x y p) (vts @ map (Pair v) ids)) \<le> 14"
  shows "\<exists>mp' s'. place_tasks st x y nprocs v vspace ids mp s = Some (Inr (mp', s')) \<and>
    visited st x y nprocs mp0 s0 (vts @ map (Pair v) ids) mp' s'"
  using assms
proof (induction ids arbitrary: vts mp s)
  case Nil
  then show ?case by simp
next
  case (Cons t ids)
  let ?task = "tasks mp ! t"
  have valid: "task_valid mp0 (v, t)" using Cons.prems(2) by simp
  have len: "length (tasks mp) = length (tasks mp0)" and mp: "mp = mp0\<lparr>tasks := tasks mp\<rparr>"
    using Cons.prems(1) by (auto simp: visited_def)
  obtain k where task: "?task = (tasks mp0 ! t)\<lparr>task_ltid := k\<rparr>"
    using Cons.prems(1) valid by (auto simp: visited_def task_valid_def)
  have tabs: "clusters mp = clusters mp0" "vsegs mp = vsegs mp0" by (subst mp, simp)+
  show ?case
  proof (cases "\<exists>p<nprocs. placed_on mp0 x y p (v, t)")
    case False
    have "visited st x y nprocs mp0 s0 (vts @ [(v, t)]) mp s"
      using visited_skip [OF Cons.prems(1)] False by blast
    then obtain mp' s' where "place_tasks st x y nprocs v vspace ids mp s = Some (Inr (mp', s'))"
      "visited st x y nprocs mp0 s0 ((vts @ [(v, t)]) @ map (Pair v) ids) mp' s'"
      using Cons.IH [of "vts @ [(v, t)]" mp s] Cons.prems(2-4) by auto
    then show ?thesis using valid False len task tabs Cons.prems(3)
      by (auto simp: task_valid_def placed_on_def fetch_def Let_def)
  next
    case True
    then obtain p where p: "p < nprocs" "placed_on mp0 x y p (v, t)" by blast
    let ?l = "length (filter (placed_on mp0 x y p) vts)"
    have l: "?l < 14" using Cons.prems(4) [OF p(1)] p(2) by simp
    have sched: "sched_tasks (schedulers s x y p) = word_of_nat ?l"
      using Cons.prems(1) p(1) by (simp add: visited_def with_tasks_def)
    then have ul: "unat (sched_tasks (schedulers s x y p)) = ?l" using l by (simp add: unat_of_nat)
    let ?mp = "mp\<lparr>tasks := (tasks mp)[t := ?task\<lparr>task_ltid := ?l\<rparr>]\<rparr>"
    let ?s = "upd_sched x y p (\<lambda>d. d\<lparr>sched_tasks := sched_tasks d + 1,
       ctx := (ctx d)(?l := boot_context st mp0 x y (v, t) ?l (ctx d ?l))\<rparr>) s"
    have "visited st x y nprocs mp0 s0 (vts @ [(v, t)]) ?mp ?s"
      using visited_place [OF Cons.prems(1) p valid refl] by simp
    then obtain mp' s' where r: "place_tasks st x y nprocs v vspace ids ?mp ?s = Some (Inr (mp', s'))"
      "visited st x y nprocs mp0 s0 ((vts @ [(v, t)]) @ map (Pair v) ids) mp' s'"
      using Cons.IH [of "vts @ [(v, t)]" ?mp ?s] Cons.prems(2-4) by auto
    have "task_context st x y v vspace a b ?task t n = task_context st x y v vspace a b (tasks mp0 ! t) t n" for a b n
      by (simp add: task task_context_def fun_eq_iff)
    then have "place_tasks st x y nprocs v vspace (t # ids) mp s = place_tasks st x y nprocs v vspace ids ?mp ?s"
      using valid p l len tabs Cons.prems(3) ul
      by (auto simp: task_valid_def placed_on_def fetch_def Let_def task boot_context_def sched upd_sched_def)
    then show ?thesis using r by simp
  qed
qed

lemma place_vspaces_visited:
  assumes "visited st x y nprocs mp0 s0 vts mp s" "vts' = concat (map (\<lambda>v. map (Pair v)
      [task_offset (vspace_table mp0 ! v) ..< task_offset (vspace_table mp0 ! v) + vspace_tasks (vspace_table mp0 ! v)]) vs)"
    and "\<And>v. v \<in> set vs \<Longrightarrow> v < length (vspace_table mp0)" "\<And>vt. vt \<in> set vts' \<Longrightarrow> task_valid mp0 vt"
    and "\<And>p. p < nprocs \<Longrightarrow> length (filter (placed_on mp0 x y p) (vts @ vts')) \<le> 14"
  shows "\<exists>mp' s'. place_vspaces st x y nprocs vs mp s = Some (Inr (mp', s')) \<and>
    visited st x y nprocs mp0 s0 (vts @ vts') mp' s'"
  using assms
proof (induction vs arbitrary: vts vts' mp s)
  case Nil
  then show ?case by simp
next
  case (Cons v vs)
  let ?vspace = "vspace_table mp0 ! v"
  let ?ids = "[task_offset ?vspace ..< task_offset ?vspace + vspace_tasks ?vspace]"
  have tab: "vspace_table mp = vspace_table mp0"
    using Cons.prems(1) by (metis visited_def mapping.select_convs(4) mapping.surjective mapping.update_convs(6))
  have valid: "\<And>t. t \<in> set ?ids \<Longrightarrow> task_valid mp0 (v, t)" using Cons.prems(2,4) by simp
  have le: "length (filter (placed_on mp0 x y p) (vts @ map (Pair v) ?ids)) \<le> 14" if "p < nprocs" for p
    using Cons.prems(5) [OF that] Cons.prems(2) by simp
  obtain mp1 s1 where 1: "place_tasks st x y nprocs v ?vspace ?ids mp s = Some (Inr (mp1, s1))"
    "visited st x y nprocs mp0 s0 (vts @ map (Pair v) ?ids) mp1 s1"
    using place_tasks_visited [OF Cons.prems(1) valid refl le] by blast
  let ?rest = "concat (map (\<lambda>v. map (Pair v) [task_offset (vspace_table mp0 ! v) ..<
      task_offset (vspace_table mp0 ! v) + vspace_tasks (vspace_table mp0 ! v)]) vs)"
  have split: "vts @ vts' = (vts @ map (Pair v) ?ids) @ ?rest" using Cons.prems(2) by simp
  have "\<And>vt. vt \<in> set ?rest \<Longrightarrow> task_valid mp0 vt" using Cons.prems(2,4) by auto
  moreover have "\<And>u. u \<in> set vs \<Longrightarrow> u < length (vspace_table mp0)" using Cons.prems(3) by simp
  moreover have "\<And>p. p < nprocs \<Longrightarrow> length (filter (placed_on mp0 x y p) ((vts @ map (Pair v) ?ids) @ ?rest)) \<le> 14"
    using Cons.prems(5) unfolding split .
  ultimately obtain mp' s' where "place_vspaces st x y nprocs vs mp1 s1 = Some (Inr (mp', s'))"
    "visited st x y nprocs mp0 s0 ((vts @ map (Pair v) ?ids) @ ?rest) mp' s'"
    using Cons.IH [OF 1(2) refl] by blast
  then show ?case using 1(1) Cons.prems(3) unfolding split by (simp add: fetch_def tab)
qed

section \<open>The first step\<close>

lemma fold_upd_sched:
  "fold (\<lambda>l. upd_sched x y l (f l)) [0..<n] s = s\<lparr>schedulers := (\<lambda>x' y' p.
     if x' = x \<and> y' = y \<and> p < n then f p (schedulers s x y p) else schedulers s x' y' p)\<rparr>"
proof (induction n)
  case (Suc n)
  have "upd_sched x y n (f n) (s\<lparr>schedulers := (\<lambda>x' y' p.
     if x' = x \<and> y' = y \<and> p < n then f p (schedulers s x y p) else schedulers s x' y' p)\<rparr>) =
     s\<lparr>schedulers := (\<lambda>x' y' p.
     if x' = x \<and> y' = y \<and> p < Suc n then f p (schedulers s x y p) else schedulers s x' y' p)\<rparr>"
    unfolding upd_sched_def by (simp add: fun_eq_iff upd3_def less_Suc_eq)
  then show ?case using Suc by simp
qed (simp add: fun_eq_iff)

text \<open>The interrupts \<open>ds\<close> were dealt to the processors in turn.\<close>

definition dealt :: "nat \<Rightarrow> nat \<Rightarrow> nat \<Rightarrow> kstate \<Rightarrow> mapping_irq list \<Rightarrow> (nat \<Rightarrow> u32) \<Rightarrow> kstate \<Rightarrow> bool" where
  "dealt x y nprocs s0 ds msk s \<longleftrightarrow>
     (\<exists>hwi. s = s0\<lparr>schedulers := (\<lambda>x' y' p. if x' = x \<and> y' = y \<and> p < nprocs
          then (schedulers s0 x y p)\<lparr>hwi_vector := hwi p\<rparr> else schedulers s0 x' y' p)\<rparr> \<and>
        (\<forall>p<nprocs. \<forall>i. (\<forall>j<length ds. irq_srcid (ds ! j) = i \<longrightarrow>
             hwi p i = (if j mod nprocs = p then hwi_entry (ds ! j) else hwi_vector (schedulers s0 x y p) i) \<and>
             (bit (msk p) i \<longleftrightarrow> j mod nprocs = p)) \<and>
           (i \<notin> irq_srcid ` set ds \<longrightarrow> hwi p i = hwi_vector (schedulers s0 x y p) i \<and> \<not> bit (msk p) i)))"

lemma dealt_Nil: "dealt x y nprocs s [] (\<lambda>_. 0) s"
  unfolding dealt_def by (rule exI [of _ "\<lambda>p. hwi_vector (schedulers s x y p)"]) (simp add: fun_eq_iff)

lemma dealt_snoc:
  assumes d: "dealt x y nprocs s0 ds msk s" and n: "0 < nprocs" and q: "irq_srcid q \<le> 31" "irq_srcid q \<notin> irq_srcid ` set ds"
    and l: "l = length ds mod nprocs"
  shows "dealt x y nprocs s0 (ds @ [q]) (msk(l := msk l OR push_bit (irq_srcid q) 1))
    (upd_sched x y l (\<lambda>d. d\<lparr>hwi_vector := (hwi_vector d)(irq_srcid q := hwi_entry q)\<rparr>) s)"
proof -
  obtain hwi where s: "s = s0\<lparr>schedulers := (\<lambda>x' y' p. if x' = x \<and> y' = y \<and> p < nprocs
          then (schedulers s0 x y p)\<lparr>hwi_vector := hwi p\<rparr> else schedulers s0 x' y' p)\<rparr>"
    and h: "\<And>p i j. p < nprocs \<Longrightarrow> j < length ds \<Longrightarrow> irq_srcid (ds ! j) = i \<Longrightarrow>
             hwi p i = (if j mod nprocs = p then hwi_entry (ds ! j) else hwi_vector (schedulers s0 x y p) i) \<and>
             (bit (msk p) i \<longleftrightarrow> j mod nprocs = p)"
    and no: "\<And>p i. p < nprocs \<Longrightarrow> i \<notin> irq_srcid ` set ds \<Longrightarrow> hwi p i = hwi_vector (schedulers s0 x y p) i \<and> \<not> bit (msk p) i"
    using d unfolding dealt_def by blast
  have ln: "l < nprocs" using l n by simp
  let ?hwi = "hwi(l := (hwi l)(irq_srcid q := hwi_entry q))"
  have bits: "bit ((msk(l := msk l OR push_bit (irq_srcid q) 1)) p) i \<longleftrightarrow> bit (msk p) i \<or> p = l \<and> i = irq_srcid q" for p i
    using q(1) by (auto simp: bit_simps)
  have "upd_sched x y l (\<lambda>d. d\<lparr>hwi_vector := (hwi_vector d)(irq_srcid q := hwi_entry q)\<rparr>) s =
      s0\<lparr>schedulers := (\<lambda>x' y' p. if x' = x \<and> y' = y \<and> p < nprocs
          then (schedulers s0 x y p)\<lparr>hwi_vector := ?hwi p\<rparr> else schedulers s0 x' y' p)\<rparr>"
    using ln by (simp add: s upd_sched_def fun_eq_iff upd3_def)
  moreover have "?hwi p i = (if j mod nprocs = p then hwi_entry ((ds @ [q]) ! j) else hwi_vector (schedulers s0 x y p) i) \<and>
      (bit ((msk(l := msk l OR push_bit (irq_srcid q) 1)) p) i \<longleftrightarrow> j mod nprocs = p)"
    if "p < nprocs" "j < length (ds @ [q])" "irq_srcid ((ds @ [q]) ! j) = i" for p i j
  proof (cases "j < length ds")
    case True
    then have "i \<in> irq_srcid ` set ds" using that(3) by (auto simp: nth_append)
    then have "i \<noteq> irq_srcid q" using q(2) by blast
    then show ?thesis using h [OF that(1) True, of i] that True unfolding bits by (auto simp: nth_append)
  next
    case False
    then have j: "j = length ds" "i = irq_srcid q" using that by (auto simp: nth_append)
    then show ?thesis using no [OF that(1), of i] q(2) l unfolding bits by (auto simp: nth_append)
  qed
  moreover have "?hwi p i = hwi_vector (schedulers s0 x y p) i \<and> \<not> bit ((msk(l := msk l OR push_bit (irq_srcid q) 1)) p) i"
    if "p < nprocs" "i \<notin> irq_srcid ` set (ds @ [q])" for p i
    using no [OF that(1), of i] that(2) unfolding bits by auto
  ultimately show ?thesis unfolding dealt_def by (intro exI [of _ ?hwi]) blast
qed

lemma hwi_loop_dealt:
  assumes "dealt x y nprocs s0 ds msk s" "0 < nprocs" "l = length ds mod nprocs"
    and "\<And>q. q \<in> set qs \<Longrightarrow> irq_srctype q = IRQ_TYPE_HWI \<and> irq_srcid q \<le> 31" "distinct (map irq_srcid (ds @ qs))"
  shows "\<exists>msk' s'. hwi_loop x y nprocs qs l msk s = Some (Inr (msk', s')) \<and> dealt x y nprocs s0 (ds @ qs) msk' s'"
  using assms
proof (induction qs arbitrary: ds l msk s)
  case Nil
  then show ?case by simp
next
  case (Cons q qs)
  have q: "irq_srcid q \<le> 31" "irq_srcid q \<notin> irq_srcid ` set ds" "irq_srctype q = IRQ_TYPE_HWI"
    using Cons.prems(4) [of q] Cons.prems(5) by auto
  have l: "(l + 1) mod nprocs = length (ds @ [q]) mod nprocs" using Cons.prems(3) by (simp add: mod_Suc_eq)
  have "distinct (map irq_srcid ((ds @ [q]) @ qs))" "\<And>r. r \<in> set qs \<Longrightarrow> irq_srctype r = IRQ_TYPE_HWI \<and> irq_srcid r \<le> 31"
    using Cons.prems(4,5) by simp_all
  then obtain msk' s' where "hwi_loop x y nprocs qs ((l + 1) mod nprocs) (msk(l := msk l OR push_bit (irq_srcid q) 1))
      (upd_sched x y l (\<lambda>d. d\<lparr>hwi_vector := (hwi_vector d)(irq_srcid q := hwi_entry q)\<rparr>) s) = Some (Inr (msk', s'))"
    "dealt x y nprocs s0 ((ds @ [q]) @ qs) msk' s'"
    using Cons.IH [OF dealt_snoc [OF Cons.prems(1,2) q(1,2) Cons.prems(3)] Cons.prems(2) l] by blast
  then show ?case using q Cons.prems(2) by simp
qed

section \<open>The masks\<close>

lemma XCU_REG_sum:
  assumes "unat i < 32"
  shows "unat (XCU_REG f i) = 32 * unat (xcu_func_code f) + unat i"
proof -
  have "unat (take_bit 5 i) = unat i" using assms unfolding unsigned_take_bit_eq by (simp add: take_bit_eq_mod)
  then have i: "take_bit 5 i = i" by (rule unsigned_word_eqI)
  have "push_bit 5 (xcu_func_code f) AND take_bit 5 i = 0" by (rule bit_eqI) (auto simp: bit_simps)
  then have "XCU_REG f i = push_bit 5 (xcu_func_code f) + i"
    unfolding XCU_REG_def i by (simp add: disjunctive_add_eq_or)
  then show ?thesis using assms by (cases f) (simp_all add: push_bit_eq_mult unat_word_ariths)
qed

lemma same_digits: "32 * a + u = 32 * b + v \<Longrightarrow> u < 32 \<Longrightarrow> v < 32 \<Longrightarrow> u = v \<and> a = b" for a u b v :: nat
  by presburger

lemma xcu_vaddr_inj:
  assumes "unat i < 32" "unat j < 32"
  shows "xcu_vaddr cf c f i = xcu_vaddr cf c g j \<longleftrightarrow> f = g \<and> i = j"
proof
  have b: "unat (push_bit 2 (XCU_REG h k)) = 4 * (32 * unat (xcu_func_code h) + unat k)" if "unat k < 32" for h k
    using that by (cases h) (simp_all add: push_bit_eq_mult unat_word_ariths XCU_REG_sum)
  assume "xcu_vaddr cf c f i = xcu_vaddr cf c g j"
  then have "push_bit 2 (XCU_REG f i) = push_bit 2 (XCU_REG g j)" by (simp add: xcu_vaddr_def)
  then have e: "32 * unat (xcu_func_code f) + unat i = 32 * unat (xcu_func_code g) + unat j"
    using b [OF assms(1), of f] b [OF assms(2), of g] by simp
  then have "unat i = unat j" "unat (xcu_func_code f) = unat (xcu_func_code g)" using same_digits [OF e assms] by simp_all
  then show "f = g \<and> i = j" by (cases f; cases g) (simp_all add: word_unat_eq_iff)
qed simp

definition channel_of :: "hard_config \<Rightarrow> nat \<Rightarrow> u32" where
  "channel_of cf l = word_of_nat l * cIRQ_PER_PROCESSOR cf"

text \<open>The outputs of the XCU that the processors use are different ones.\<close>

definition outputs_ok :: "hard_config \<Rightarrow> nat \<Rightarrow> bool" where
  "outputs_ok cf n \<longleftrightarrow> 0 < unat (cIRQ_PER_PROCESSOR cf) \<and> n \<le> unat (cNB_PROCS_MAX cf) \<and>
     unat (cNB_PROCS_MAX cf) * unat (cIRQ_PER_PROCESSOR cf) \<le> 32"

lemma unat_channel:
  assumes "outputs_ok cf n" "l < n"
  shows "unat (channel_of cf l) = l * unat (cIRQ_PER_PROCESSOR cf)"
    "unat (channel_of cf l) < unat (cNB_PROCS_MAX cf * cIRQ_PER_PROCESSOR cf)" "unat (channel_of cf l) < 32"
proof -
  let ?q = "unat (cIRQ_PER_PROCESSOR cf)" and ?m = "unat (cNB_PROCS_MAX cf)"
  have b: "0 < ?q" "l < ?m" "?m * ?q \<le> 32" using assms by (auto simp: outputs_ok_def)
  have lt: "l * ?q < ?m * ?q" using b by simp
  have "?m * ?q \<le> 32 \<Longrightarrow> 0 < ?q \<Longrightarrow> ?m \<le> 32" by (metis One_nat_def Suc_leI le_trans mult.right_neutral mult_le_mono2)
  then have "l < 32" using b by simp
  moreover have "l * ?q < 32" using lt b(3) by linarith
  ultimately show u: "unat (channel_of cf l) = l * ?q" by (simp add: channel_of_def unat_word_ariths unat_of_nat)
  show "unat (channel_of cf l) < unat (cNB_PROCS_MAX cf * cIRQ_PER_PROCESSOR cf)" "unat (channel_of cf l) < 32"
    using lt b(3) \<open>l * ?q < 32\<close> by (simp_all add: u unat_word_ariths)
qed

lemma channel_inj: "outputs_ok cf n \<Longrightarrow> k < n \<Longrightarrow> l < n \<Longrightarrow> channel_of cf k = channel_of cf l \<longleftrightarrow> k = l"
  using unat_channel(1) [of cf n k] unat_channel(1) [of cf n l] by (metis mult_cancel2 not_less0 outputs_ok_def)

text \<open>The masks of the processors \<open>ls\<close> have been added to the registers of the XCU of state \<open>s0\<close>.\<close>

definition masks_set :: "hard_config \<Rightarrow> u32 \<Rightarrow> (nat \<Rightarrow> u32) \<Rightarrow> nat \<Rightarrow> nat set \<Rightarrow> kstate \<Rightarrow> kstate \<Rightarrow> bool" where
  "masks_set cf cxy hwi n ls s0 s \<longleftrightarrow> (\<forall>l<n. let reg = \<lambda>f. xcu_get_register cf cxy f (channel_of cf l) in
     reg XCU_MSK_HWI_ENABLE s = reg XCU_MSK_HWI_ENABLE s0 OR (if l \<in> ls then hwi l else 0) \<and>
     reg XCU_MSK_WTI_ENABLE s = reg XCU_MSK_WTI_ENABLE s0 OR (if l \<in> ls then wti_mask cf l else 0) \<and>
     reg XCU_MSK_PTI_ENABLE s = reg XCU_MSK_PTI_ENABLE s0 OR (if l \<in> ls then pti_mask l else 0))"

lemma set_masks_ok:
  assumes "outputs_ok cf n" "set ls \<subseteq> {..<n}" "xcu_check cf cxy" "masks_set cf cxy hwi n done s0 s"
  shows "\<exists>dev. set_masks cf cxy hwi ls s = Some (Inr (s\<lparr>device := dev\<rparr>)) \<and>
    masks_set cf cxy hwi n (done \<union> set ls) s0 (s\<lparr>device := dev\<rparr>)"
  using assms(2,4)
proof (induction ls arbitrary: "done" s)
  case Nil
  show ?case using Nil by (intro exI [of _ "device s"]) simp
next
  case (Cons l ls)
  have l: "l < n" using Cons.prems(1) by simp
  let ?c = "channel_of cf l"
  have ok: "\<not> ?c \<ge> cNB_PROCS_MAX cf * cIRQ_PER_PROCESSOR cf"
    using unat_channel(2) [OF assms(1) l] by (simp add: word_le_nat_alt not_le)
  let ?s = "xcu_set_register cf cxy XCU_MSK_PTI_ENABLE ?c (pti_mask l)
    (xcu_set_register cf cxy XCU_MSK_WTI_ENABLE ?c (wti_mask cf l) (xcu_set_register cf cxy XCU_MSK_HWI_ENABLE ?c (hwi l) s))"
  have step: "set_masks cf cxy hwi (l # ls) s = set_masks cf cxy hwi ls ?s"
    using ok assms(3) by (simp add: xcu_set_mask_def channel_of_def Let_def)
  have "masks_set cf cxy hwi n (insert l done) s0 ?s"
    unfolding masks_set_def Let_def
  proof (intro allI impI)
    fix k assume kn: "k < n"
    note u = unat_channel(3) [OF assms(1) kn] unat_channel(3) [OF assms(1) l]
    show "xcu_get_register cf cxy XCU_MSK_HWI_ENABLE (channel_of cf k) ?s =
        xcu_get_register cf cxy XCU_MSK_HWI_ENABLE (channel_of cf k) s0 OR (if k \<in> insert l done then hwi k else 0) \<and>
       xcu_get_register cf cxy XCU_MSK_WTI_ENABLE (channel_of cf k) ?s =
        xcu_get_register cf cxy XCU_MSK_WTI_ENABLE (channel_of cf k) s0 OR (if k \<in> insert l done then wti_mask cf k else 0) \<and>
       xcu_get_register cf cxy XCU_MSK_PTI_ENABLE (channel_of cf k) ?s =
        xcu_get_register cf cxy XCU_MSK_PTI_ENABLE (channel_of cf k) s0 OR (if k \<in> insert l done then pti_mask k else 0)"
      using Cons.prems(2) kn channel_inj [OF assms(1) kn l]
      by (cases "k = l") (auto simp: masks_set_def xcu_get_register_def xcu_set_register_def xcu_written_def Let_def or.assoc
          xcu_vaddr_inj [OF u] xcu_vaddr_inj [OF u(2) u(2)])
  qed
  then obtain dev where "set_masks cf cxy hwi ls ?s = Some (Inr (?s\<lparr>device := dev\<rparr>))"
    "masks_set cf cxy hwi n (insert l done \<union> set ls) s0 (?s\<lparr>device := dev\<rparr>)"
    using Cons.IH [of "insert l done" ?s] Cons.prems l by auto
  then show ?case unfolding step by (intro exI [of _ dev]) (simp add: xcu_set_register_def Let_def)
qed

section \<open>boot\_scheduler\_init as a whole\<close>

definition hwi_irqs :: "mapping \<Rightarrow> mapping_periph \<Rightarrow> mapping_irq list" where
  "hwi_irqs mp xcu = take (periph_irqs xcu) (drop (periph_irq_offset xcu) (irqs mp))"

definition cxy_of :: "hard_config \<Rightarrow> nat \<Rightarrow> nat \<Rightarrow> u32" where
  "cxy_of cf x y = word_of_nat (push_bit (cY_WIDTH cf) x + y)"

definition cluster_of :: "hard_config \<Rightarrow> mapping \<Rightarrow> nat \<Rightarrow> nat \<Rightarrow> mapping_cluster" where
  "cluster_of cf mp x y = clusters mp ! (x * cY_SIZE cf + y)"

text \<open>A mapping that the boot loader accepts for cluster \<open>(x, y)\<close>, with its XCU and the addresses of
  its schedulers, and at most 13 tasks on each processor.\<close>

definition boot_cluster_ok :: "hard_config \<Rightarrow> mapping \<Rightarrow> nat \<Rightarrow> nat \<Rightarrow> mapping_periph \<Rightarrow> u32 \<Rightarrow> u32 \<Rightarrow> bool" where
  "boot_cluster_ok cf mp x y xcu vb len \<longleftrightarrow>
     (let c = cluster_of cf mp x y; n = procs c; lo = cl_periph_offset c; hi = lo + cl_periphs c in
      x * cY_SIZE cf + y < length (clusters mp) \<and> 0 < n \<and> n \<le> 8 \<and> outputs_ok cf n \<and>
      n - 1 + 3 * unat (cNB_PROCS_MAX cf) < 32 \<and> xcu_check cf (cxy_of cf x y) \<and>
      boot_get_sched_vaddr mp (x * cY_SIZE cf + y) = Some (Inr (vb, len)) \<and> \<not> len < push_bit 13 (word_of_nat n) \<and>
      hi \<le> length (periphs mp) \<and> xcu_scan mp n (drop lo (take hi (periphs mp))) None = Inr (Some xcu) \<and>
      periph_irq_offset xcu + periph_irqs xcu \<le> length (irqs mp) \<and>
      (\<forall>q\<in>set (hwi_irqs mp xcu). irq_srctype q = IRQ_TYPE_HWI \<and> irq_srcid q \<le> 31) \<and>
      distinct (map irq_srcid (hwi_irqs mp xcu)) \<and>
      vspaces (hdr mp) \<le> length (vspace_table mp) \<and> (\<forall>vt\<in>set (all_tasks mp). task_valid mp vt) \<and>
      (\<forall>p<n. length (tasks_of mp x y p) \<le> 13))"

definition booted_sched :: "boot_state \<Rightarrow> mapping \<Rightarrow> nat \<Rightarrow> nat \<Rightarrow> nat \<Rightarrow> (nat \<Rightarrow> u32) \<Rightarrow> static_scheduler \<Rightarrow> static_scheduler" where
  "booted_sched st mp x y p hwi d =
     with_tasks st mp x y (tasks_of mp x y p) (tick_and_wakup p ((sched_reset st x y d)\<lparr>hwi_vector := hwi\<rparr>))"

lemma boot_init_run:
  assumes "mp = bt_mapping B" "n = procs (cluster_of cf mp x y)"
    and "x * cY_SIZE cf + y < length (clusters mp)" "n \<le> 8"
    and "boot_get_sched_vaddr mp (x * cY_SIZE cf + y) = Some (Inr (vb, len))" "\<not> len < push_bit 13 (word_of_nat n)"
    and "cl_periph_offset (cluster_of cf mp x y) + cl_periphs (cluster_of cf mp x y) \<le> length (periphs mp)"
    and "xcu_scan mp n (drop (cl_periph_offset (cluster_of cf mp x y)) (take (cl_periph_offset (cluster_of cf mp x y) +
       cl_periphs (cluster_of cf mp x y)) (periphs mp))) None = Inr (Some xcu)"
    and "periph_irq_offset xcu + periph_irqs xcu \<le> length (irqs mp)" "n - 1 + 3 * unat (cNB_PROCS_MAX cf) < 32"
    and "hwi_loop x y n (hwi_irqs mp xcu) 0 (\<lambda>_. 0) (fold (\<lambda>l. upd_sched x y l (sched_reset st x y)) [0..<n] (bt_kernel B))
       = Some (Inr (msk, s1))"
    and "set_masks cf (cxy_of cf x y) msk [0..<n] (fold (\<lambda>l. upd_sched x y l (tick_and_wakup l)) [0..<n] s1) = Some (Inr s2)"
    and "place_vspaces st x y n [0..<vspaces (hdr mp)] mp s2 = Some (Inr (mp', s'))"
  shows "boot_scheduler_init cf x y st B = Some (Inr \<lparr>bt_mapping = mp', bt_kernel = s',
     bt_schedulers = fold (\<lambda>l f. upd3 f x y l (vb + push_bit 13 (word_of_nat l))) [0..<n] (bt_schedulers B)\<rparr>)"
  using assms by (simp add: boot_scheduler_init_def Let_def fetch_def cluster_of_def hwi_irqs_def cxy_of_def)

lemma boot_init_result:
  assumes ok: "boot_cluster_ok cf mp x y xcu vb len" and mp: "mp = bt_mapping B" and n: "n = procs (cluster_of cf mp x y)"
  obtains mp' s' ptrs hwi msk where
    "boot_scheduler_init cf x y st B = Some (Inr \<lparr>bt_mapping = mp', bt_kernel = s', bt_schedulers = ptrs\<rparr>)"
    "\<And>x' y' p. schedulers s' x' y' p = (if x' = x \<and> y' = y \<and> p < n
       then booted_sched st mp x y p (hwi p) (schedulers (bt_kernel B) x y p) else schedulers (bt_kernel B) x' y' p)"
    "\<And>p j. p < n \<Longrightarrow> j < length (hwi_irqs mp xcu) \<Longrightarrow>
       hwi p (irq_srcid (hwi_irqs mp xcu ! j)) = (if j mod n = p then hwi_entry (hwi_irqs mp xcu ! j) else 0) \<and>
       (bit (msk p) (irq_srcid (hwi_irqs mp xcu ! j)) \<longleftrightarrow> j mod n = p)"
    "\<And>p i. p < n \<Longrightarrow> i < 32 \<Longrightarrow> i \<notin> irq_srcid ` set (hwi_irqs mp xcu) \<Longrightarrow> hwi p i = 0 \<and> \<not> bit (msk p) i"
    "masks_set cf (cxy_of cf x y) msk n {..<n} (bt_kernel B) s'"
    "\<exists>f dev. s' = (bt_kernel B)\<lparr>device := dev, schedulers := f\<rparr>"
    "distinct (map snd (all_tasks mp)) \<Longrightarrow> \<forall>p<n. \<forall>i<length (tasks_of mp x y p). task_ltid (tasks mp' ! snd (tasks_of mp x y p ! i)) = i"
    "\<And>p. p < n \<Longrightarrow> ptrs x y p = vb + push_bit 13 (word_of_nat p)"
proof -
  let ?c = "cluster_of cf mp x y" and ?irqs = "hwi_irqs mp xcu" and ?cxy = "cxy_of cf x y"
  let ?reset = "(bt_kernel B)\<lparr>schedulers := (\<lambda>x' y' p. if x' = x \<and> y' = y \<and> p < n
      then sched_reset st x y (schedulers (bt_kernel B) x y p) else schedulers (bt_kernel B) x' y' p)\<rparr>"
  note o = ok [unfolded boot_cluster_ok_def Let_def, folded n]
  have reset: "fold (\<lambda>l. upd_sched x y l (sched_reset st x y)) [0..<n] (bt_kernel B) = ?reset"
    by (rule fold_upd_sched)
  obtain msk s1 where 1: "hwi_loop x y n ?irqs 0 (\<lambda>_. 0) ?reset = Some (Inr (msk, s1))" "dealt x y n ?reset ?irqs msk s1"
    using hwi_loop_dealt [OF dealt_Nil, of n 0 ?irqs x y ?reset] o by auto
  obtain hwi where s1: "s1 = ?reset\<lparr>schedulers := (\<lambda>x' y' p. if x' = x \<and> y' = y \<and> p < n
          then (schedulers ?reset x y p)\<lparr>hwi_vector := hwi p\<rparr> else schedulers ?reset x' y' p)\<rparr>"
    and h: "\<forall>p<n. \<forall>i. (\<forall>j<length ?irqs. irq_srcid (?irqs ! j) = i \<longrightarrow>
             hwi p i = (if j mod n = p then hwi_entry (?irqs ! j) else hwi_vector (schedulers ?reset x y p) i) \<and>
             (bit (msk p) i \<longleftrightarrow> j mod n = p)) \<and>
           (i \<notin> irq_srcid ` set ?irqs \<longrightarrow> hwi p i = hwi_vector (schedulers ?reset x y p) i \<and> \<not> bit (msk p) i)"
    using 1(2) unfolding dealt_def by blast
  have zero: "hwi_vector (schedulers ?reset x y p) i = 0" if "p < n" "i < 32" for p i
    using that by (simp add: sched_reset_def Let_def)
  let ?s2 = "fold (\<lambda>l. upd_sched x y l (tick_and_wakup l)) [0..<n] s1"
  obtain dev where 2: "set_masks cf ?cxy msk [0..<n] ?s2 = Some (Inr (?s2\<lparr>device := dev\<rparr>))"
    "masks_set cf ?cxy msk n {..<n} (bt_kernel B) (?s2\<lparr>device := dev\<rparr>)"
  proof -
    have "masks_set cf ?cxy msk n {} (bt_kernel B) ?s2"
      by (simp add: masks_set_def Let_def xcu_get_register_def fold_upd_sched s1)
    from set_masks_ok [OF _ _ _ this, of "[0..<n]"] o show thesis using that by (auto simp: atLeast0LessThan)
  qed
  let ?s3 = "?s2\<lparr>device := dev\<rparr>"
  have s3: "schedulers ?s3 x' y' p = (if x' = x \<and> y' = y \<and> p < n
      then tick_and_wakup p ((sched_reset st x y (schedulers (bt_kernel B) x y p))\<lparr>hwi_vector := hwi p\<rparr>)
      else schedulers (bt_kernel B) x' y' p)" for x' y' p
    by (simp add: fold_upd_sched s1)
  have s3f: "\<exists>f dev. ?s3 = (bt_kernel B)\<lparr>schedulers := f, device := dev\<rparr>"
    unfolding fold_upd_sched s1 by (intro exI) simp
  have none: "sched_tasks (schedulers ?s3 x y p) = 0" if "p < n" for p
    using that unfolding s3 by (simp add: tick_and_wakup_def sched_reset_def Let_def)
  have le14: "length (filter (placed_on mp x y p) ([] @ all_tasks mp)) \<le> 14" if "p < n" for p
    using o that unfolding tasks_of_def by fastforce
  have "\<exists>mp' s'. place_vspaces st x y n [0..<vspaces (hdr mp)] mp ?s3 = Some (Inr (mp', s')) \<and>
      visited st x y n mp ?s3 ([] @ all_tasks mp) mp' s'"
    by (rule place_vspaces_visited [OF visited_Nil [OF none] all_tasks_def _ _ le14]) (use o in auto)
  then obtain mp' s' where 3: "place_vspaces st x y n [0..<vspaces (hdr mp)] mp ?s3 = Some (Inr (mp', s'))"
    "visited st x y n mp ?s3 ([] @ all_tasks mp) mp' s'" by blast
  let ?ptrs = "fold (\<lambda>l f. upd3 f x y l (vb + push_bit 13 (word_of_nat l))) [0..<n] (bt_schedulers B)"
  have ptrs: "fold (\<lambda>l f. upd3 f x y l (v l)) [0..<n] f x y p = (if p < n then v p else f x y p)" for n v p and f :: "u32 array3"
    by (induction n) (auto simp: less_Suc_eq)
  have run: "boot_scheduler_init cf x y st B = Some (Inr \<lparr>bt_mapping = mp', bt_kernel = s', bt_schedulers = ?ptrs\<rparr>)"
    by (rule boot_init_run [OF mp n _ _ _ _ _ _ _ _ 1(1) [folded reset] 2(1) 3(1)]) (use o in blast)+
  have sched: "schedulers s' x' y' p = (if x' = x \<and> y' = y \<and> p < n
       then booted_sched st mp x y p (hwi p) (schedulers (bt_kernel B) x y p) else schedulers (bt_kernel B) x' y' p)" for x' y' p
    using 3(2) s3 by (simp add: visited_def booted_sched_def tasks_of_def)
  have frame: "s' = ?s3\<lparr>schedulers := schedulers s'\<rparr>" using 3(2) by (simp add: visited_def)
  have m: "masks_set cf ?cxy msk n {..<n} (bt_kernel B) s'"
    using 2(2) by (subst frame) (simp add: masks_set_def Let_def xcu_get_register_def)
  have e: "\<exists>f dev. s' = (bt_kernel B)\<lparr>device := dev, schedulers := f\<rparr>"
  proof -
    obtain f d where e: "?s3 = (bt_kernel B)\<lparr>schedulers := f, device := d\<rparr>" using s3f by blast
    have "s' = (bt_kernel B)\<lparr>device := d, schedulers := schedulers s'\<rparr>" using frame unfolding e by simp
    then show ?thesis by blast
  qed
  have d: "\<forall>p<n. \<forall>i<length (tasks_of mp x y p). task_ltid (tasks mp' ! snd (tasks_of mp x y p ! i)) = i"
    if "distinct (map snd (all_tasks mp))"
    using 3(2) that by (auto simp: visited_def tasks_of_def Let_def)
  have hp: "hwi p (irq_srcid (?irqs ! j)) = (if j mod n = p then hwi_entry (?irqs ! j) else 0) \<and>
       (bit (msk p) (irq_srcid (?irqs ! j)) \<longleftrightarrow> j mod n = p)" if "p < n" "j < length ?irqs" for p j
  proof -
    have "irq_srcid (?irqs ! j) \<le> 31" using o nth_mem [OF that(2)] by blast
    then show ?thesis using h that zero [OF that(1), of "irq_srcid (?irqs ! j)"] by auto
  qed
  have hn: "hwi p i = 0 \<and> \<not> bit (msk p) i" if "p < n" "i < 32" "i \<notin> irq_srcid ` set ?irqs" for p i
    using h that zero [OF that(1,2)] by auto
  show ?thesis by (rule that [OF run sched hp hn m e d]) (simp_all add: ptrs)
qed

end
