(* ===== verification/Kernel_Init.thy ===== *)
theory Kernel_Init
  imports Boot_Tasks
begin

text \<open>
  The part of \<open>kernel_init\<close> (\<open>giet_kernel/kernel_init.c\<close>) in which each processor completes the contexts
  that the boot loader has prepared and enters its first task (steps 1 to 4). The global initialisations of
  step 0 are those of the components: \<open>_heap_init\<close>, \<open>_sqt_lock_init\<close>, \<open>_sqt_barrier_init\<close>,
  \<open>_ext_irq_init\<close>, \<open>_fat_init\<close>. The scheduler of the processor is the one whose address \<open>psched\<close> is in its
  register \<open>CP0_SCHED\<close>. \<open>vread ptpr a\<close> is the word at virtual address \<open>a\<close> through the page table \<open>ptpr\<close>.
\<close>

definition GIET_TICK_VALUE :: u32 where "GIET_TICK_VALUE = 0x00010000"

text \<open>\<open>_ptabs_vaddr\<close> and \<open>_ptabs_ptprs\<close> are the arrays of the kernel.\<close>

record kinit =
  ki_kernel :: kstate
  ki_ptabs_vaddr :: "u32 array3"
  ki_ptabs_ptprs :: "u32 array3"

definition get_task_slot :: "nat \<Rightarrow> nat \<Rightarrow> nat \<Rightarrow> nat \<Rightarrow> nat \<Rightarrow> kstate \<Rightarrow> u32" where
  "get_task_slot x y p ltid slot s = ctx (schedulers s x y p) ltid slot"

definition set_task_slot :: "nat \<Rightarrow> nat \<Rightarrow> nat \<Rightarrow> nat \<Rightarrow> nat \<Rightarrow> u32 \<Rightarrow> kstate \<Rightarrow> kstate" where
  "set_task_slot x y p ltid slot value s = upd_sched x y p (set_slot ltid slot value) s"

definition set_reg :: "nat \<Rightarrow> nat \<Rightarrow> nat \<Rightarrow> nat \<Rightarrow> u32 \<Rightarrow> kstate \<Rightarrow> kstate" where
  "set_reg x y p r value s = s\<lparr>cpu := upd3 (cpu s) x y p ((cpu s x y p)(r := value))\<rparr>"

text \<open>Step 2: the page tables, the return address and the entry point of each task.\<close>

fun kinit_tasks :: "hard_config \<Rightarrow> (u32 \<Rightarrow> u32 \<Rightarrow> u32) \<Rightarrow> nat \<Rightarrow> nat \<Rightarrow> nat \<Rightarrow> nat list \<Rightarrow> kinit \<Rightarrow> kinit" where
  "kinit_tasks cf vread x y p [] K = K"
| "kinit_tasks cf vread x y p (ltid # ls) K =
     (let s = ki_kernel K;
          vsid = unat (get_task_slot x y p ltid CTX_VSID_ID s);
          ptab = get_task_slot x y p ltid CTX_PTAB_ID s;
          ptpr = get_task_slot x y p ltid CTX_PTPR_ID s;
          s = set_reg x y p CTX_PTPR_ID ptpr s;
          s = set_task_slot x y p ltid CTX_RA_ID (cCTX_ERET cf) s;
          ctx_entry = vread ptpr (get_task_slot x y p ltid CTX_ENTRY_ID s);
          s = set_task_slot x y p ltid CTX_ENTRY_ID ctx_entry s
      in kinit_tasks cf vread x y p ls \<lparr>ki_kernel = s,
           ki_ptabs_vaddr = upd3 (ki_ptabs_vaddr K) vsid x y ptab,
           ki_ptabs_ptprs = upd3 (ki_ptabs_ptprs K) vsid x y ptpr\<rparr>)"

text \<open>Step 3: the idle task, whose stack is at the end of the scheduler.\<close>

definition kinit_idle :: "hard_config \<Rightarrow> u32 \<Rightarrow> u32 \<Rightarrow> nat \<Rightarrow> nat \<Rightarrow> nat \<Rightarrow> kstate \<Rightarrow> kstate" where
  "kinit_idle cf idle_task psched x y p s =
     (let i = unat IDLE_TASK_INDEX
      in set_task_slot x y p i CTX_ENTRY_ID idle_task (set_task_slot x y p i CTX_EPC_ID idle_task
          (set_task_slot x y p i CTX_RA_ID (cCTX_ERET cf) (set_task_slot x y p i CTX_SP_ID (psched + 0x2000) s))))"

text \<open>Step 4: the first runnable task, or the idle task.\<close>

definition first_task :: "nat \<Rightarrow> nat \<Rightarrow> nat \<Rightarrow> nat \<Rightarrow> kstate \<Rightarrow> u32" where
  "first_task x y p n s = (case filter (\<lambda>t. get_task_slot x y p t CTX_NORUN_ID s = 0) [0..<n] of
      [] \<Rightarrow> IDLE_TASK_INDEX | t # _ \<Rightarrow> word_of_nat t)"

definition enter_task :: "nat \<Rightarrow> nat \<Rightarrow> nat \<Rightarrow> u32 \<Rightarrow> kstate \<Rightarrow> kstate" where
  "enter_task x y p ltid s =
     (let s = upd_sched x y p (\<lambda>d. d\<lparr>current_task := ltid\<rparr>) s; slot = (\<lambda>k. get_task_slot x y p (unat ltid) k s)
      in set_reg x y p CTX_EPC_ID (slot CTX_ENTRY_ID) (set_reg x y p CTX_PTPR_ID (slot CTX_PTPR_ID)
          (set_reg x y p CTX_SR_ID (slot CTX_SR_ID) (set_reg x y p CTX_SP_ID (slot CTX_SP_ID) s))))"

definition kernel_init :: "hard_config \<Rightarrow> (u32 \<Rightarrow> u32 \<Rightarrow> u32) \<Rightarrow> u32 \<Rightarrow> u32 \<Rightarrow> u32 \<Rightarrow> kinit \<Rightarrow> (panic + kinit) option" where
  "kernel_init cf vread idle_task gpid psched K =
     (let cxy = drop_bit (cP_WIDTH cf) gpid;
          x = unat (drop_bit (cY_WIDTH cf) cxy AND (push_bit (cX_WIDTH cf) 1 - 1));
          y = unat (cxy AND (push_bit (cY_WIDTH cf) 1 - 1));
          p = unat (gpid AND (push_bit (cP_WIDTH cf) 1 - 1));
          n = sched_tasks (get_sched cf gpid (ki_kernel K));
          K = kinit_tasks cf vread x y p [0..<unat n] K;
          s = kinit_idle cf idle_task psched x y p (ki_kernel K)
      in obind (if n > 0 then xcu_timer_start cf cxy (word_of_nat p) GIET_TICK_VALUE s else Some (Inr s)) (\<lambda>s.
           Some (Inr (K\<lparr>ki_kernel := enter_task x y p (first_task x y p (unat n) s) s\<rparr>))))"

section \<open>What a processor leaves in its scheduler\<close>

lemma upd_sched_simps [simp]:
  "schedulers (upd_sched x y p f s) = upd3 (schedulers s) x y p (f (schedulers s x y p))" "cpu (upd_sched x y p f s) = cpu s"
  "schedulers (set_reg x y p r v s) = schedulers s"
  "cpu (set_reg x y p r v s) = upd3 (cpu s) x y p ((cpu s x y p)(r := v))"
  by (simp_all add: upd_sched_def set_reg_def)

text \<open>The scheduler after step 2 for the tasks \<open>ls\<close>.\<close>

definition entered :: "hard_config \<Rightarrow> (u32 \<Rightarrow> u32 \<Rightarrow> u32) \<Rightarrow> nat set \<Rightarrow> static_scheduler \<Rightarrow> static_scheduler" where
  "entered cf vread ls d = d\<lparr>ctx := (\<lambda>t. if t \<in> ls then (ctx d t)(CTX_RA_ID := cCTX_ERET cf,
     CTX_ENTRY_ID := vread (ctx d t CTX_PTPR_ID) (ctx d t CTX_ENTRY_ID)) else ctx d t)\<rparr>"

lemma kinit_tasks_sched:
  assumes "distinct ls"
  shows "schedulers (ki_kernel (kinit_tasks cf vread x y p ls K)) x y p = entered cf vread (set ls) (schedulers (ki_kernel K) x y p)"
  using assms
proof (induction ls arbitrary: K)
  case Nil
  show ?case by (simp add: entered_def)
next
  case (Cons l ls)
  have "entered cf vread (set ls) (set_slot l CTX_ENTRY_ID (vread (ctx d l CTX_PTPR_ID) (ctx d l CTX_ENTRY_ID))
      (set_slot l CTX_RA_ID (cCTX_ERET cf) d)) = entered cf vread (set (l # ls)) d" for d
    using Cons.prems by (auto simp: entered_def set_slot_def fun_eq_iff all_slots)
  then show ?case using Cons by (simp add: Let_def get_task_slot_def set_task_slot_def all_slots)
qed

lemma unat_width: "unat a < 2 ^ n \<Longrightarrow> a AND (push_bit n 1 - 1) = (a :: u32)"
proof -
  assume "unat a < 2 ^ n"
  then have "unat (take_bit n a) = unat a" unfolding unsigned_take_bit_eq by (simp add: take_bit_eq_mod)
  then have "take_bit n a = a" by (rule unsigned_word_eqI)
  then show ?thesis by (simp add: take_bit_eq_mask mask_eq_decr_exp push_bit_eq_mult)
qed

end
