(* ===== verification/Boot_Properties.thy ===== *)
theory Boot_Properties
  imports Kernel_Init Scheduler_Properties
begin

text \<open>
  What the boot loader and the initialisation of the kernel give each processor: the contexts of
  its tasks, the routing of its interrupts, its first task, and the state in which the other tasks
  are entered by the first context switches.
\<close>

section \<open>Contexts\<close>

lemma booted_sched_facts:
  assumes "length (tasks_of mp x y p) \<le> 13"
  shows "sched_tasks (booted_sched st mp x y p hwi d) = word_of_nat (length (tasks_of mp x y p))"
    "unat (sched_tasks (booted_sched st mp x y p hwi d)) = length (tasks_of mp x y p)"
    "current_task (booted_sched st mp x y p hwi d) = IDLE_TASK_INDEX"
    "i < length (tasks_of mp x y p) \<Longrightarrow>
       ctx (booted_sched st mp x y p hwi d) i = boot_context st mp x y (tasks_of mp x y p ! i) i (ctx d i)"
    "ctx (booted_sched st mp x y p hwi d) 13 = idle_context st x y (ctx d 13)"
    "hwi_vector (booted_sched st mp x y p hwi d) = hwi"
    "pti_vector (booted_sched st mp x y p hwi d) p = ISR_TICK" "wti_vector (booted_sched st mp x y p hwi d) p = ISR_WAKUP"
  using assms by (auto simp: booted_sched_def with_tasks_def tick_and_wakup_def sched_reset_def Let_def IDLE_TASK_INDEX_def unat_of_nat)

lemma boot_context_slots:
  "boot_context st mp x y vt i c CTX_SP_ID = (let v = vsegs mp ! stack_vseg_id (tasks mp ! snd vt) in vbase v + vseg_length v)"
  "boot_context st mp x y vt i c CTX_ENTRY_ID =
     vbase (vsegs mp ! start_vseg_id (vspace_table mp ! fst vt)) + word_of_nat (startid (tasks mp ! snd vt)) * 4"
  "boot_context st mp x y vt i c CTX_EPC_ID = boot_context st mp x y vt i c CTX_ENTRY_ID"
  "boot_context st mp x y vt i c CTX_LTID_ID = word_of_nat i" "boot_context st mp x y vt i c CTX_GTID_ID = word_of_nat (snd vt)"
  "boot_context st mp x y vt i c CTX_TRDID_ID = word_of_nat (trdid (tasks mp ! snd vt))"
  "boot_context st mp x y vt i c CTX_VSID_ID = word_of_nat (fst vt)"
  "boot_context st mp x y vt i c CTX_NORUN_ID = (if vspace_active (vspace_table mp ! fst vt) then 0 else 1)"
  "boot_context st mp x y vt i c CTX_SIG_ID = 0"
  "boot_context st mp x y vt i c CTX_PTPR_ID = ucast (drop_bit 13 (ptabs_paddr st (fst vt) x y))"
  "boot_context st mp x y vt i c CTX_SR_ID = GIET_SR_INIT_VALUE" "boot_context st mp x y vt i c CTX_TTY_ID = -1"
  "boot_context st mp x y vt i c CTX_TIM_ID = -1" "boot_context st mp x y vt i c CTX_NIC_RX_ID = -1"
  "boot_context st mp x y vt i c CTX_NIC_TX_ID = -1" "boot_context st mp x y vt i c CTX_CMA_FB_ID = -1"
  by (simp_all add: boot_context_def task_context_def all_slots Let_def)

section \<open>From the boot loader to the kernel\<close>

text \<open>The scheduler that \<open>kernel_init\<close> leaves, but for its current task.\<close>

definition kernel_sched :: "hard_config \<Rightarrow> (u32 \<Rightarrow> u32 \<Rightarrow> u32) \<Rightarrow> u32 \<Rightarrow> u32 \<Rightarrow> static_scheduler \<Rightarrow> static_scheduler" where
  "kernel_sched cf vread idle_task psched d =
     (let i = unat IDLE_TASK_INDEX
      in set_slot i CTX_ENTRY_ID idle_task (set_slot i CTX_EPC_ID idle_task (set_slot i CTX_RA_ID (cCTX_ERET cf)
           (set_slot i CTX_SP_ID (psched + 0x2000) (entered cf vread {..<unat (sched_tasks d)} d)))))"

definition first_runnable :: "static_scheduler \<Rightarrow> u32" where
  "first_runnable d = (case filter (\<lambda>t. ctx d t CTX_NORUN_ID = 0) [0..<unat (sched_tasks d)] of
      [] \<Rightarrow> IDLE_TASK_INDEX | t # _ \<Rightarrow> word_of_nat t)"

lemma kernel_init_result:
  assumes "proc_x cf gpid < 2 ^ cX_WIDTH cf" "xcu_check cf (cluster_xy cf gpid)"
    and "d = get_sched cf gpid (ki_kernel K)" "e = kernel_sched cf vread idle_task psched d"
    and "unat (sched_tasks d) \<le> 13" "c = first_runnable e"
  obtains K' where "kernel_init cf vread idle_task gpid psched K = Some (Inr K')"
    "get_sched cf gpid (ki_kernel K') = e\<lparr>current_task := c\<rparr>"
    "my_cpu cf gpid (ki_kernel K') CTX_SP_ID = ctx e (unat c) CTX_SP_ID"
    "my_cpu cf gpid (ki_kernel K') CTX_SR_ID = ctx e (unat c) CTX_SR_ID"
    "my_cpu cf gpid (ki_kernel K') CTX_PTPR_ID = ctx e (unat c) CTX_PTPR_ID"
    "my_cpu cf gpid (ki_kernel K') CTX_EPC_ID = ctx e (unat c) CTX_ENTRY_ID"
proof -
  let ?x = "proc_x cf gpid" and ?y = "proc_y cf gpid" and ?p = "proc_p cf gpid" and ?n = "unat (sched_tasks d)"
  have x: "unat (drop_bit (cY_WIDTH cf) (drop_bit (cP_WIDTH cf) gpid) AND (push_bit (cX_WIDTH cf) 1 - 1)) = ?x"
    using assms(1) by (subst unat_width) (simp_all add: proc_x_def add.commute)
  let ?K = "kinit_tasks cf vread ?x ?y ?p [0..<?n] K"
  let ?s = "kinit_idle cf idle_task psched ?x ?y ?p (ki_kernel ?K)"
  have d: "schedulers (ki_kernel K) ?x ?y ?p = d" using assms(3) by (simp add: get_sched_def)
  have "schedulers (ki_kernel ?K) ?x ?y ?p = entered cf vread {..<?n} d"
    by (simp add: kinit_tasks_sched d atLeast0LessThan)
  then have e: "schedulers ?s ?x ?y ?p = e"
    unfolding assms(4) by (simp add: kinit_idle_def set_task_slot_def kernel_sched_def Let_def)
  have n: "sched_tasks e = sched_tasks d" by (simp add: assms(4) kernel_sched_def entered_def Let_def)
  obtain s2 where s2: "(if sched_tasks d > 0 then xcu_timer_start cf (drop_bit (cP_WIDTH cf) gpid) (word_of_nat ?p) GIET_TICK_VALUE ?s
      else Some (Inr ?s)) = Some (Inr s2)" "schedulers s2 = schedulers ?s"
  proof (cases "sched_tasks d > 0")
    case True
    then show thesis using assms(2) that [of "xcu_set_register cf (cluster_xy cf gpid) XCU_PTI_PER (word_of_nat ?p) GIET_TICK_VALUE ?s"]
      by (simp add: xcu_timer_start_def cluster_xy_def xcu_set_register_def Let_def)
  next
    case False
    then show thesis using that [of ?s] by simp
  qed
  have c: "first_task ?x ?y ?p ?n s2 = c"
    using s2(2) e by (simp add: assms(6) first_task_def first_runnable_def get_task_slot_def n)
  let ?K' = "?K\<lparr>ki_kernel := enter_task ?x ?y ?p c s2\<rparr>"
  have "kernel_init cf vread idle_task gpid psched K = Some (Inr ?K')"
    unfolding kernel_init_def Let_def x proc_y_def [symmetric] proc_p_def [symmetric] assms(3) [symmetric]
    using s2(1) c by simp
  then show ?thesis
    using that [of ?K'] e s2(2)
    by (simp add: get_sched_def my_cpu_def enter_task_def get_task_slot_def Let_def all_slots)
qed

lemma first_runnable_cases:
  assumes "unat (sched_tasks d) \<le> 13"
  shows "(\<forall>t<unat (sched_tasks d). ctx d t CTX_NORUN_ID \<noteq> 0) \<and> first_runnable d = IDLE_TASK_INDEX \<or>
    (\<exists>t<unat (sched_tasks d). first_runnable d = word_of_nat t \<and> ctx d t CTX_NORUN_ID = 0 \<and> (\<forall>u<t. ctx d u CTX_NORUN_ID \<noteq> 0))"
proof (cases "\<exists>t<unat (sched_tasks d). ctx d t CTX_NORUN_ID = 0")
  case True
  define t where "t = (LEAST t. t < unat (sched_tasks d) \<and> ctx d t CTX_NORUN_ID = 0)"
  have t: "t < unat (sched_tasks d)" "ctx d t CTX_NORUN_ID = 0" using LeastI_ex [OF True] by (simp_all add: t_def)
  have less: "\<forall>u<t. ctx d u CTX_NORUN_ID \<noteq> 0" using not_less_Least [of _ "\<lambda>t. t < unat (sched_tasks d) \<and> ctx d t CTX_NORUN_ID = 0"] t(1)
    unfolding t_def by (meson order.strict_trans)
  have "[0..<unat (sched_tasks d)] = [0..<t] @ t # [Suc t..<unat (sched_tasks d)]"
    using t(1) upt_add_eq_append [of 0 t "unat (sched_tasks d) - t"] by (simp add: upt_conv_Cons)
  then have "filter (\<lambda>t. ctx d t CTX_NORUN_ID = 0) [0..<unat (sched_tasks d)] =
      t # filter (\<lambda>t. ctx d t CTX_NORUN_ID = 0) [Suc t..<unat (sched_tasks d)]"
    using t(2) less by (simp add: filter_empty_conv)
  then show ?thesis using t less by (simp add: first_runnable_def) blast
next
  case False
  then have "filter (\<lambda>t. ctx d t CTX_NORUN_ID = 0) [0..<unat (sched_tasks d)] = []" by (simp add: filter_empty_conv)
  then show ?thesis using False by (simp add: first_runnable_def)
qed

lemma booted_ok:
  assumes "length ts \<le> 13" "unat (sched_tasks d) = length ts" "ts \<noteq> []"
    and "current_task d = IDLE_TASK_INDEX \<or> (\<exists>i<length ts. current_task d = word_of_nat i)"
  shows "sched_ok d"
proof -
  have "0 < sched_tasks d" "sched_tasks d \<le> 13" using assms(1-3) by (simp_all add: word_less_nat_alt word_le_nat_alt)
  moreover have "current_task d < sched_tasks d" if "i < length ts" "current_task d = word_of_nat i" for i
    using that assms(1,2) by (simp add: word_less_nat_alt unat_of_nat)
  ultimately show ?thesis using assms(4) by (auto simp: sched_ok_def)
qed

lemma turns_mod:
  assumes "j + 14 * n - c - 1 = r + m * n" "r < n"
  shows "turns n c j = r + 1"
  unfolding turns_def assms(1) by (metis assms(2) mod_less mod_mult_self1 mult.commute)

lemma turns_self:
  assumes "c < n" "j < n" "turns n c c \<le> turns n c j"
  shows "j = c"
proof (rule ccontr)
  assume ne: "j \<noteq> c"
  have "c + 14 * n - c - 1 = (n - 1) + 13 * n" "n - 1 < n" using assms(1) by simp_all
  then have "turns n c c = n" using turns_mod [of c n c "n - 1" 13] assms(1) by linarith
  moreover have "turns n c j < n"
  proof (cases "c < j")
    case True
    then have "j + 14 * n - c - 1 = (j - c - 1) + 14 * n" by linarith
    then have "turns n c j = (j - c - 1) + 1" by (rule turns_mod) (use assms(2) in linarith)
    then show ?thesis using True assms(2) by linarith
  next
    case False
    then have "j + 14 * n - c - 1 = (n + j - c - 1) + 13 * n" using ne assms(1) by linarith
    then have "turns n c j = (n + j - c - 1) + 1" by (rule turns_mod) (use ne False assms(1) in linarith)
    then show ?thesis using False ne assms(1) by linarith
  qed
  ultimately show False using assms(3) by linarith
qed

text \<open>A processor of a cluster that the boot loader has initialised, when it enters \<open>kernel_init\<close>.\<close>

definition handed_over :: "hard_config \<Rightarrow> u32 \<Rightarrow> boot_tables \<Rightarrow> boot_tables \<Rightarrow> boot_state \<Rightarrow> kinit \<Rightarrow> bool" where
  "handed_over cf gpid B B' st K \<longleftrightarrow>
     (let x = proc_x cf gpid; y = proc_y cf gpid; mp = bt_mapping B
      in (\<exists>xcu vb len. boot_cluster_ok cf mp x y xcu vb len) \<and> boot_scheduler_init cf x y st B = Some (Inr B') \<and>
         proc_p cf gpid < procs (cluster_of cf mp x y) \<and> x < 2 ^ cX_WIDTH cf \<and> xcu_check cf (cluster_xy cf gpid) \<and>
         get_sched cf gpid (ki_kernel K) = get_sched cf gpid (bt_kernel B'))"

text \<open>The stack pointer and the place of the entry point of a task of the mapping.\<close>

definition stack_top :: "mapping \<Rightarrow> nat \<times> nat \<Rightarrow> u32" where
  "stack_top mp vt = (let v = vsegs mp ! stack_vseg_id (tasks mp ! snd vt) in vbase v + vseg_length v)"

definition start_slot :: "mapping \<Rightarrow> nat \<times> nat \<Rightarrow> u32" where
  "start_slot mp vt = vbase (vsegs mp ! start_vseg_id (vspace_table mp ! fst vt)) + word_of_nat (startid (tasks mp ! snd vt)) * 4"

definition ptpr_of :: "boot_state \<Rightarrow> nat \<Rightarrow> nat \<Rightarrow> nat \<times> nat \<Rightarrow> u32" where
  "ptpr_of st x y vt = ucast (drop_bit 13 (ptabs_paddr st (fst vt) x y))"

definition active_task :: "mapping \<Rightarrow> nat \<times> nat \<Rightarrow> bool" where
  "active_task mp vt \<longleftrightarrow> vspace_active (vspace_table mp ! fst vt)"

lemma booted_start:
  assumes h: "handed_over cf gpid B B' st K" and mp: "mp = bt_mapping B"
    and ts: "ts = tasks_of mp (proc_x cf gpid) (proc_y cf gpid) (proc_p cf gpid)"
  obtains K' c where "kernel_init cf vread idle_task gpid psched K = Some (Inr K')"
    "length ts \<le> 13" "sched_tasks (get_sched cf gpid (ki_kernel K')) = word_of_nat (length ts)"
    "unat (sched_tasks (get_sched cf gpid (ki_kernel K'))) = length ts"
    "current_task (get_sched cf gpid (ki_kernel K')) = c"
    "\<And>i. i < length ts \<Longrightarrow> let k = ctx (get_sched cf gpid (ki_kernel K')) i; vt = ts ! i in
       k CTX_SP_ID = stack_top mp vt \<and> k CTX_RA_ID = cCTX_ERET cf \<and> k CTX_EPC_ID = start_slot mp vt \<and>
       k CTX_ENTRY_ID = vread (ptpr_of st (proc_x cf gpid) (proc_y cf gpid) vt) (start_slot mp vt) \<and>
       k CTX_PTPR_ID = ptpr_of st (proc_x cf gpid) (proc_y cf gpid) vt \<and> k CTX_SR_ID = GIET_SR_INIT_VALUE \<and>
       k CTX_SIG_ID = 0 \<and> (k CTX_NORUN_ID = 0 \<longleftrightarrow> active_task mp vt)"
    "(\<forall>i<length ts. \<not> active_task mp (ts ! i)) \<and> c = IDLE_TASK_INDEX \<and>
       my_cpu cf gpid (ki_kernel K') CTX_SP_ID = psched + 0x2000 \<and> my_cpu cf gpid (ki_kernel K') CTX_EPC_ID = idle_task \<or>
     (\<exists>i<length ts. c = word_of_nat i \<and> active_task mp (ts ! i) \<and> (\<forall>j<i. \<not> active_task mp (ts ! j)) \<and>
       my_cpu cf gpid (ki_kernel K') CTX_SP_ID = stack_top mp (ts ! i) \<and>
       my_cpu cf gpid (ki_kernel K') CTX_SR_ID = GIET_SR_INIT_VALUE \<and>
       my_cpu cf gpid (ki_kernel K') CTX_PTPR_ID = ptpr_of st (proc_x cf gpid) (proc_y cf gpid) (ts ! i) \<and>
       my_cpu cf gpid (ki_kernel K') CTX_EPC_ID = vread (ptpr_of st (proc_x cf gpid) (proc_y cf gpid) (ts ! i)) (start_slot mp (ts ! i)))"
proof -
  let ?x = "proc_x cf gpid" and ?y = "proc_y cf gpid" and ?p = "proc_p cf gpid"
  obtain xcu vb len where ok: "boot_cluster_ok cf mp ?x ?y xcu vb len"
    and run: "boot_scheduler_init cf ?x ?y st B = Some (Inr B')" and p: "?p < procs (cluster_of cf mp ?x ?y)"
    and w: "?x < 2 ^ cX_WIDTH cf" "xcu_check cf (cluster_xy cf gpid)"
    and same: "get_sched cf gpid (ki_kernel K) = get_sched cf gpid (bt_kernel B')"
    using h mp by (auto simp: handed_over_def Let_def)
  have le: "length ts \<le> 13" using ok p ts by (simp add: boot_cluster_ok_def Let_def)
  obtain hwi where b: "get_sched cf gpid (ki_kernel K) = booted_sched st mp ?x ?y ?p hwi (schedulers (bt_kernel B) ?x ?y ?p)"
  proof (rule boot_init_result [OF ok mp refl, where st = st])
    fix mp' s' ptrs hwi msk
    assume "boot_scheduler_init cf ?x ?y st B = Some (Inr \<lparr>bt_mapping = mp', bt_kernel = s', bt_schedulers = ptrs\<rparr>)"
      and s: "\<And>x' y' p. schedulers s' x' y' p = (if x' = ?x \<and> y' = ?y \<and> p < procs (cluster_of cf mp ?x ?y)
        then booted_sched st mp ?x ?y p (hwi p) (schedulers (bt_kernel B) ?x ?y p) else schedulers (bt_kernel B) x' y' p)"
    then have "bt_kernel B' = s'" using run by simp
    then show thesis using that [of "hwi ?p"] s [of ?x ?y ?p] p unfolding same by (simp add: get_sched_def)
  qed
  let ?d = "get_sched cf gpid (ki_kernel K)"
  note bf = booted_sched_facts [OF le [unfolded ts], where st = st and hwi = hwi and d = "schedulers (bt_kernel B) ?x ?y ?p", folded b ts]
  define e where "e = kernel_sched cf vread idle_task psched ?d"
  have e13: "ctx e 13 CTX_SP_ID = psched + 0x2000" "ctx e 13 CTX_ENTRY_ID = idle_task"
    by (simp_all add: e_def kernel_sched_def Let_def IDLE_TASK_INDEX_def all_slots)
  have en: "sched_tasks e = sched_tasks ?d" by (simp add: e_def kernel_sched_def entered_def Let_def)
  have slots: "let k = ctx e i; vt = ts ! i in
       k CTX_SP_ID = stack_top mp vt \<and> k CTX_RA_ID = cCTX_ERET cf \<and> k CTX_EPC_ID = start_slot mp vt \<and>
       k CTX_ENTRY_ID = vread (ptpr_of st ?x ?y vt) (start_slot mp vt) \<and>
       k CTX_PTPR_ID = ptpr_of st ?x ?y vt \<and> k CTX_SR_ID = GIET_SR_INIT_VALUE \<and>
       k CTX_SIG_ID = 0 \<and> (k CTX_NORUN_ID = 0 \<longleftrightarrow> active_task mp vt)" if "i < length ts" for i
  proof -
    have "i \<noteq> 13" using that le by simp
    then have k: "ctx e i k = (ctx (entered cf vread {..<length ts} ?d)) i k" for k
      by (simp add: e_def kernel_sched_def Let_def IDLE_TASK_INDEX_def bf(2))
    show ?thesis unfolding Let_def k using that boot_context_slots [of st mp ?x ?y "ts ! i" i "ctx (schedulers (bt_kernel B) ?x ?y ?p) i"]
      by (simp add: entered_def bf(4) stack_top_def start_slot_def ptpr_of_def active_task_def Let_def all_slots)
  qed
  have cs: "(\<forall>t<length ts. ctx e t CTX_NORUN_ID \<noteq> 0) \<and> first_runnable e = IDLE_TASK_INDEX \<or>
    (\<exists>t<length ts. first_runnable e = word_of_nat t \<and> ctx e t CTX_NORUN_ID = 0 \<and> (\<forall>u<t. ctx e u CTX_NORUN_ID \<noteq> 0))"
    using first_runnable_cases [of e] le unfolding en bf(2) .
  have act: "ctx e i CTX_NORUN_ID = 0 \<longleftrightarrow> active_task mp (ts ! i)" if "i < length ts" for i
    using slots [OF that] by (simp add: Let_def)
  show thesis
  proof (rule kernel_init_result [OF w refl e_def _ refl])
    show "unat (sched_tasks ?d) \<le> 13" using le by (simp add: bf(2))
    fix K'
    assume k: "kernel_init cf vread idle_task gpid psched K = Some (Inr K')"
      and g: "get_sched cf gpid (ki_kernel K') = e\<lparr>current_task := first_runnable e\<rparr>"
      and cpu: "my_cpu cf gpid (ki_kernel K') CTX_SP_ID = ctx e (unat (first_runnable e)) CTX_SP_ID"
        "my_cpu cf gpid (ki_kernel K') CTX_SR_ID = ctx e (unat (first_runnable e)) CTX_SR_ID"
        "my_cpu cf gpid (ki_kernel K') CTX_PTPR_ID = ctx e (unat (first_runnable e)) CTX_PTPR_ID"
        "my_cpu cf gpid (ki_kernel K') CTX_EPC_ID = ctx e (unat (first_runnable e)) CTX_ENTRY_ID"
    have small: "unat (word_of_nat t :: u32) = t" if "t < length ts" for t using that le by (simp add: unat_of_nat)
    from cs have "(\<forall>i<length ts. \<not> active_task mp (ts ! i)) \<and> first_runnable e = IDLE_TASK_INDEX \<and>
        my_cpu cf gpid (ki_kernel K') CTX_SP_ID = psched + 0x2000 \<and> my_cpu cf gpid (ki_kernel K') CTX_EPC_ID = idle_task \<or>
     (\<exists>i<length ts. first_runnable e = word_of_nat i \<and> active_task mp (ts ! i) \<and> (\<forall>j<i. \<not> active_task mp (ts ! j)) \<and>
       my_cpu cf gpid (ki_kernel K') CTX_SP_ID = stack_top mp (ts ! i) \<and>
       my_cpu cf gpid (ki_kernel K') CTX_SR_ID = GIET_SR_INIT_VALUE \<and>
       my_cpu cf gpid (ki_kernel K') CTX_PTPR_ID = ptpr_of st ?x ?y (ts ! i) \<and>
       my_cpu cf gpid (ki_kernel K') CTX_EPC_ID = vread (ptpr_of st ?x ?y (ts ! i)) (start_slot mp (ts ! i)))"
    proof
      assume "(\<forall>t<length ts. ctx e t CTX_NORUN_ID \<noteq> 0) \<and> first_runnable e = IDLE_TASK_INDEX"
      then show ?thesis using cpu e13 act by (simp add: IDLE_TASK_INDEX_def)
    next
      assume "\<exists>t<length ts. first_runnable e = word_of_nat t \<and> ctx e t CTX_NORUN_ID = 0 \<and> (\<forall>u<t. ctx e u CTX_NORUN_ID \<noteq> 0)"
      then obtain t where t: "t < length ts" "first_runnable e = word_of_nat t" "ctx e t CTX_NORUN_ID = 0" "\<forall>u<t. ctx e u CTX_NORUN_ID \<noteq> 0"
        by blast
      then have "\<forall>u<t. \<not> active_task mp (ts ! u)" using act by simp
      then show ?thesis using t cpu slots [OF t(1)] act [OF t(1)] small [OF t(1)] unfolding t(2) Let_def by auto
    qed
    then show thesis using that [OF k le] g slots en bf(1,2) by simp
  qed
qed

lemma idle_runs: "idle_context st x y c CTX_NORUN_ID = 0"
  by (simp add: idle_context_def all_slots)

section \<open>Properties\<close>

text \<open>C20: On a mapping that it accepts, with at most 13 tasks on each processor, \<open>boot_scheduler_init\<close>
  returns and each processor of the cluster has exactly the tasks that the mapping places on it, in the order
  of the mapping, numbered from 0: the context of each has its stack, the place of its entry point, its
  page table and its indices, no pending signal and no private channel, and it is runnable when its
  vspace is active. The other schedulers are left alone.\<close>

theorem boot_scheduler_init_places_tasks:
  assumes "boot_cluster_ok cf mp x y xcu vb len" "mp = bt_mapping B"
  shows "\<exists>B'. boot_scheduler_init cf x y st B = Some (Inr B') \<and>
    (\<forall>p<procs (cluster_of cf mp x y). let d = schedulers (bt_kernel B') x y p; ts = tasks_of mp x y p in
       bt_schedulers B' x y p = vb + push_bit 13 (word_of_nat p) \<and>
       unat (sched_tasks d) = length ts \<and> current_task d = IDLE_TASK_INDEX \<and> ctx d 13 CTX_NORUN_ID = 0 \<and>
       (\<forall>i<length ts. let k = ctx d i; t = snd (ts ! i) in
          k CTX_SP_ID = stack_top mp (ts ! i) \<and> k CTX_ENTRY_ID = start_slot mp (ts ! i) \<and>
          k CTX_PTPR_ID = ptpr_of st x y (ts ! i) \<and> k CTX_SR_ID = GIET_SR_INIT_VALUE \<and>
          k CTX_LTID_ID = word_of_nat i \<and> k CTX_GTID_ID = word_of_nat t \<and> k CTX_VSID_ID = word_of_nat (fst (ts ! i)) \<and>
          k CTX_TRDID_ID = word_of_nat (trdid (tasks mp ! t)) \<and> k CTX_SIG_ID = 0 \<and>
          (k CTX_NORUN_ID = 0 \<longleftrightarrow> active_task mp (ts ! i)) \<and>
          (\<forall>c\<in>{CTX_TTY_ID, CTX_TIM_ID, CTX_NIC_RX_ID, CTX_NIC_TX_ID, CTX_CMA_FB_ID}. k c = -1) \<and>
          (distinct (map snd (all_tasks mp)) \<longrightarrow> task_ltid (tasks (bt_mapping B') ! t) = i))) \<and>
    (\<forall>x' y' p. (x', y') \<noteq> (x, y) \<or> \<not> p < procs (cluster_of cf mp x y) \<longrightarrow>
       schedulers (bt_kernel B') x' y' p = schedulers (bt_kernel B) x' y' p)"
proof (rule boot_init_result [OF assms refl, where st = st])
  fix mp' s' ptrs hwi msk
  let ?n = "procs (cluster_of cf mp x y)"
  assume run: "boot_scheduler_init cf x y st B = Some (Inr \<lparr>bt_mapping = mp', bt_kernel = s', bt_schedulers = ptrs\<rparr>)"
    and s: "\<And>x' y' p. schedulers s' x' y' p = (if x' = x \<and> y' = y \<and> p < ?n
      then booted_sched st mp x y p (hwi p) (schedulers (bt_kernel B) x y p) else schedulers (bt_kernel B) x' y' p)"
    and l: "distinct (map snd (all_tasks mp)) \<Longrightarrow>
      \<forall>p<?n. \<forall>i<length (tasks_of mp x y p). task_ltid (tasks mp' ! snd (tasks_of mp x y p ! i)) = i"
    and ptrs: "\<And>p. p < ?n \<Longrightarrow> ptrs x y p = vb + push_bit 13 (word_of_nat p)"
  have le: "length (tasks_of mp x y p) \<le> 13" if "p < ?n" for p
    using assms(1) that by (simp add: boot_cluster_ok_def Let_def)
  show ?thesis
    using run by (auto simp: s booted_sched_facts(2-5) [OF le] boot_context_slots ptrs Let_def stack_top_def start_slot_def
        ptpr_of_def active_task_def idle_runs dest: l)
qed

text \<open>C22: \<open>kernel_init\<close> on a scheduler that the boot loader has prepared enters the first task whose
  vspace is active, with its stack, its page table and the entry point found in the start vector of
  its vspace, or the idle task on its own stack when there is none; the scheduler satisfies the conditions under
  which the context switch is correct and no signal is pending.\<close>

theorem kernel_init_enters_first_task:
  assumes "handed_over cf gpid B B' st K" "mp = bt_mapping B" "x = proc_x cf gpid" "y = proc_y cf gpid"
    and "ts = tasks_of mp x y (proc_p cf gpid)"
  shows "\<exists>K' c. kernel_init cf vread idle_task gpid psched K = Some (Inr K') \<and>
    (let s = ki_kernel K'; d = get_sched cf gpid s; reg = my_cpu cf gpid s in
     unat (sched_tasks d) = length ts \<and> (ts \<noteq> [] \<longrightarrow> sched_ok d) \<and> (\<forall>t<length ts. quiet cf gpid s t) \<and> current_task d = c \<and>
     ((\<forall>i<length ts. \<not> active_task mp (ts ! i)) \<and> c = IDLE_TASK_INDEX \<and>
        reg CTX_SP_ID = psched + 0x2000 \<and> reg CTX_EPC_ID = idle_task \<or>
      (\<exists>i<length ts. c = word_of_nat i \<and> active_task mp (ts ! i) \<and> (\<forall>j<i. \<not> active_task mp (ts ! j)) \<and>
         reg CTX_SP_ID = stack_top mp (ts ! i) \<and> reg CTX_SR_ID = GIET_SR_INIT_VALUE \<and> reg CTX_PTPR_ID = ptpr_of st x y (ts ! i) \<and>
         reg CTX_EPC_ID = vread (ptpr_of st x y (ts ! i)) (start_slot mp (ts ! i)))))"
proof (rule booted_start [OF assms(1,2) assms(5) [unfolded assms(3,4)], where vread = vread and idle_task = idle_task and psched = psched])
  fix K' :: kinit and c
  let ?s = "ki_kernel K'"
  assume k: "kernel_init cf vread idle_task gpid psched K = Some (Inr K')" "length ts \<le> 13"
    "sched_tasks (get_sched cf gpid ?s) = word_of_nat (length ts)"
    "unat (sched_tasks (get_sched cf gpid ?s)) = length ts" "current_task (get_sched cf gpid ?s) = c"
    and slots: "\<And>i. i < length ts \<Longrightarrow> let k = ctx (get_sched cf gpid ?s) i; vt = ts ! i in
       k CTX_SP_ID = stack_top mp vt \<and> k CTX_RA_ID = cCTX_ERET cf \<and> k CTX_EPC_ID = start_slot mp vt \<and>
       k CTX_ENTRY_ID = vread (ptpr_of st (proc_x cf gpid) (proc_y cf gpid) vt) (start_slot mp vt) \<and>
       k CTX_PTPR_ID = ptpr_of st (proc_x cf gpid) (proc_y cf gpid) vt \<and> k CTX_SR_ID = GIET_SR_INIT_VALUE \<and>
       k CTX_SIG_ID = 0 \<and> (k CTX_NORUN_ID = 0 \<longleftrightarrow> active_task mp vt)"
    and first: "(\<forall>i<length ts. \<not> active_task mp (ts ! i)) \<and> c = IDLE_TASK_INDEX \<and>
       my_cpu cf gpid ?s CTX_SP_ID = psched + 0x2000 \<and> my_cpu cf gpid ?s CTX_EPC_ID = idle_task \<or>
     (\<exists>i<length ts. c = word_of_nat i \<and> active_task mp (ts ! i) \<and> (\<forall>j<i. \<not> active_task mp (ts ! j)) \<and>
       my_cpu cf gpid ?s CTX_SP_ID = stack_top mp (ts ! i) \<and>
       my_cpu cf gpid ?s CTX_SR_ID = GIET_SR_INIT_VALUE \<and>
       my_cpu cf gpid ?s CTX_PTPR_ID = ptpr_of st (proc_x cf gpid) (proc_y cf gpid) (ts ! i) \<and>
       my_cpu cf gpid ?s CTX_EPC_ID = vread (ptpr_of st (proc_x cf gpid) (proc_y cf gpid) (ts ! i)) (start_slot mp (ts ! i)))"
  have "sched_ok (get_sched cf gpid ?s)" if "ts \<noteq> []" by (rule booted_ok [OF k(2,4) that]) (use first k(5) in blast)
  moreover have "quiet cf gpid ?s t" if "t < length ts" for t
    using slots [OF that] by (simp add: quiet_def pending_def Let_def)
  ultimately show ?thesis using k first unfolding assms(3,4) Let_def by blast
qed

text \<open>C23: The first context switch after \<open>kernel_init\<close> enters the next task whose vspace is active with
  its stack and with the return address of \<open>_ctx_eret\<close>, but with an exception address that is the place of
  its entry point in the start vector, not the entry point: \<open>kernel_init\<close> reads the start vector into the
  ENTRY slot only, and the switch loads the EPC slot.\<close>

theorem booted_switch_enters_start_vector:
  assumes "handed_over cf gpid B B' st K" "mp = bt_mapping B" "x = proc_x cf gpid" "y = proc_y cf gpid"
    and "ts = tasks_of mp x y (proc_p cf gpid)" "ts \<noteq> []" "kernel_init cf vread idle_task gpid psched K = Some (Inr K')"
  shows "\<exists>s'. ctx_switch cf mq gpid (ki_kernel K') = Some (Inr s') \<and>
    (let c = current_task (get_sched cf gpid (ki_kernel K')); d = get_sched cf gpid s'; reg = my_cpu cf gpid s' in
     ((\<exists>i<length ts. \<exists>j<length ts. i \<noteq> j \<and> active_task mp (ts ! i) \<and> active_task mp (ts ! j)) \<longrightarrow> current_task d \<noteq> c) \<and>
     (current_task d \<noteq> c \<longrightarrow> (\<exists>j<length ts. current_task d = word_of_nat j \<and> active_task mp (ts ! j) \<and>
       reg CTX_RA_ID = cCTX_ERET cf \<and> reg CTX_SP_ID = stack_top mp (ts ! j) \<and>
       reg CTX_EPC_ID = start_slot mp (ts ! j) \<and>
       ctx d j CTX_ENTRY_ID = vread (ptpr_of st x y (ts ! j)) (start_slot mp (ts ! j)))))"
proof (rule booted_start [OF assms(1,2) assms(5) [unfolded assms(3,4)], where vread = vread and idle_task = idle_task and psched = psched])
  fix K2 :: kinit and c
  assume k2: "kernel_init cf vread idle_task gpid psched K = Some (Inr K2)"
  have K: "K2 = K'" using k2 assms(7) by simp
  let ?s = "ki_kernel K'"
  assume k: "length ts \<le> 13"
    "sched_tasks (get_sched cf gpid (ki_kernel K2)) = word_of_nat (length ts)"
    "unat (sched_tasks (get_sched cf gpid (ki_kernel K2))) = length ts" "current_task (get_sched cf gpid (ki_kernel K2)) = c"
    and slots: "\<And>i. i < length ts \<Longrightarrow> let k = ctx (get_sched cf gpid (ki_kernel K2)) i; vt = ts ! i in
       k CTX_SP_ID = stack_top mp vt \<and> k CTX_RA_ID = cCTX_ERET cf \<and> k CTX_EPC_ID = start_slot mp vt \<and>
       k CTX_ENTRY_ID = vread (ptpr_of st (proc_x cf gpid) (proc_y cf gpid) vt) (start_slot mp vt) \<and>
       k CTX_PTPR_ID = ptpr_of st (proc_x cf gpid) (proc_y cf gpid) vt \<and> k CTX_SR_ID = GIET_SR_INIT_VALUE \<and>
       k CTX_SIG_ID = 0 \<and> (k CTX_NORUN_ID = 0 \<longleftrightarrow> active_task mp vt)"
    and first: "(\<forall>i<length ts. \<not> active_task mp (ts ! i)) \<and> c = IDLE_TASK_INDEX \<and>
       my_cpu cf gpid (ki_kernel K2) CTX_SP_ID = psched + 0x2000 \<and> my_cpu cf gpid (ki_kernel K2) CTX_EPC_ID = idle_task \<or>
     (\<exists>i<length ts. c = word_of_nat i \<and> active_task mp (ts ! i) \<and> (\<forall>j<i. \<not> active_task mp (ts ! j)) \<and>
       my_cpu cf gpid (ki_kernel K2) CTX_SP_ID = stack_top mp (ts ! i) \<and>
       my_cpu cf gpid (ki_kernel K2) CTX_SR_ID = GIET_SR_INIT_VALUE \<and>
       my_cpu cf gpid (ki_kernel K2) CTX_PTPR_ID = ptpr_of st (proc_x cf gpid) (proc_y cf gpid) (ts ! i) \<and>
       my_cpu cf gpid (ki_kernel K2) CTX_EPC_ID = vread (ptpr_of st (proc_x cf gpid) (proc_y cf gpid) (ts ! i)) (start_slot mp (ts ! i)))"
  have ok: "sched_ok (get_sched cf gpid ?s)"
    by (rule booted_ok [OF k(1) k(3) [unfolded K] assms(6)]) (use first k(4) K in blast)
  have q: "\<forall>t<unat (sched_tasks (get_sched cf gpid ?s)). quiet cf gpid ?s t"
  proof (intro allI impI)
    fix t assume "t < unat (sched_tasks (get_sched cf gpid ?s))"
    then have "t < length ts" using k(3) K by simp
    then show "quiet cf gpid ?s t" using slots [of t] K by (simp add: quiet_def pending_def Let_def)
  qed
  have xcu: "xcu_check cf (cluster_xy cf gpid)" using assms(1) by (simp add: handed_over_def Let_def)
  obtain s' where s': "ctx_switch cf mq gpid ?s = Some (Inr s')" "chosen cf gpid ?s (current_task (get_sched cf gpid s'))"
    "\<And>t k. ctx (get_sched cf gpid s') t k =
       (if current_task (get_sched cf gpid s') \<noteq> current_task (get_sched cf gpid ?s) \<and>
           t = unat (current_task (get_sched cf gpid ?s)) \<and> k \<in> set saved_slots
        then my_cpu cf gpid ?s k else ctx (get_sched cf gpid ?s) t k)"
    "\<And>k. my_cpu cf gpid s' k =
       (if current_task (get_sched cf gpid s') \<noteq> current_task (get_sched cf gpid ?s) \<and> k \<in> set saved_slots
        then ctx (get_sched cf gpid ?s) (unat (current_task (get_sched cf gpid s'))) k else my_cpu cf gpid ?s k)"
    by (rule switch_result [OF ok xcu q, of mq]) blast
  let ?c' = "current_task (get_sched cf gpid s')" and ?c = "current_task (get_sched cf gpid ?s)"
  have "\<exists>j<length ts. ?c' = word_of_nat j \<and> active_task mp (ts ! j) \<and> my_cpu cf gpid s' CTX_RA_ID = cCTX_ERET cf \<and>
      my_cpu cf gpid s' CTX_SP_ID = stack_top mp (ts ! j) \<and> my_cpu cf gpid s' CTX_EPC_ID = start_slot mp (ts ! j) \<and>
      ctx (get_sched cf gpid s') j CTX_ENTRY_ID = vread (ptpr_of st x y (ts ! j)) (start_slot mp (ts ! j))" if ne: "?c' \<noteq> ?c"
  proof -
    have "unat ?c' < length ts \<and> norun cf gpid ?s (unat ?c') = 0"
      using s'(2) first ne k(3,4) slots K by (auto simp: chosen_def Let_def norun_def)
    then have j: "unat ?c' < length ts" "ctx (get_sched cf gpid ?s) (unat ?c') CTX_NORUN_ID = 0" by (simp_all add: norun_def)
    have sv: "CTX_RA_ID \<in> set saved_slots" "CTX_SP_ID \<in> set saved_slots" "CTX_EPC_ID \<in> set saved_slots"
      "CTX_ENTRY_ID \<notin> set saved_slots" by (simp_all add: saved_slots_def all_slots)
    show ?thesis using slots [OF j(1)] j ne sv assms(3,4) K by (intro exI [of _ "unat ?c'"]) (simp add: s'(3,4) Let_def)
  qed
  moreover have "?c' \<noteq> ?c" if ij: "i < length ts" "j < length ts" "i \<noteq> j" "active_task mp (ts ! i)" "active_task mp (ts ! j)" for i j
  proof
    assume same: "?c' = ?c"
    let ?n = "unat (sched_tasks (get_sched cf gpid ?s))"
    have n: "?n = length ts" using k(3) K by simp
    have run: "norun cf gpid ?s i = 0" "norun cf gpid ?s j = 0"
      using slots [OF ij(1)] slots [OF ij(2)] ij(4,5) K by (simp_all add: norun_def Let_def)
    then have "unat ?c < ?n" "turns ?n (unat ?c) (unat ?c) \<le> turns ?n (unat ?c) i" "turns ?n (unat ?c) (unat ?c) \<le> turns ?n (unat ?c) j"
      using s'(2) ij(1,2) n unfolding same by (auto simp: chosen_def Let_def)
    then have "i = unat ?c" "j = unat ?c" using turns_self [of "unat ?c" ?n] ij(1,2) k(1) n by auto
    then show False using ij(3) by simp
  qed
  ultimately show ?thesis using s'(1) by (auto simp: Let_def)
qed

section \<open>Interrupts\<close>

lemma mask16: "(0xFFFF :: u32) = mask 16" "(0x7FFF :: u32) = mask 15"
  by (simp_all add: mask_eq_exp_minus_1)

lemma hwi_entry_fields:
  assumes "irq_isr q < 2 ^ 16" "irq_channel q < 2 ^ 15"
  shows "unat (hwi_entry q AND 0x0000FFFF) = irq_isr q" "drop_bit 16 (hwi_entry q) AND 0x00007FFF = word_of_nat (irq_channel q)"
proof -
  have "hwi_entry q AND 0xFFFF = take_bit 16 (word_of_nat (irq_isr q))"
    by (rule bit_eqI) (auto simp: hwi_entry_def mask16 bit_simps)
  moreover have "unat (take_bit 16 (word_of_nat (irq_isr q) :: u32)) = irq_isr q"
    using assms(1) unfolding unsigned_take_bit_eq by (simp add: unat_of_nat take_bit_eq_mod)
  ultimately show "unat (hwi_entry q AND 0xFFFF) = irq_isr q" by argo
  have "drop_bit 16 (hwi_entry q) AND 0x7FFF = take_bit 15 (word_of_nat (irq_channel q))"
    by (rule bit_eqI) (auto simp: hwi_entry_def mask16 bit_simps)
  moreover have "unat (take_bit 15 (word_of_nat (irq_channel q) :: u32)) = unat (word_of_nat (irq_channel q) :: u32)"
    using assms(2) unfolding unsigned_take_bit_eq by (simp add: unat_of_nat take_bit_eq_mod)
  ultimately show "drop_bit 16 (hwi_entry q) AND 0x7FFF = word_of_nat (irq_channel q)"
    by (metis unsigned_word_eqI)
qed

lemma bit_wti_mask:
  "bit (wti_mask cf q) i \<longleftrightarrow> i < 32 \<and> i \<in> {q, q + unat (cNB_PROCS_MAX cf), q + 2 * unat (cNB_PROCS_MAX cf), q + 3 * unat (cNB_PROCS_MAX cf)}"
  by (auto simp: wti_mask_def bit_simps)

lemma wti_alloc_enabled:
  assumes "q + 3 * unat (cNB_PROCS_MAX cf) < 32" "wti_alloc cf x y q s0 = Some (m, s1)"
  shows "bit (wti_mask cf q) (unat m)"
proof -
  let ?nb = "unat (cNB_PROCS_MAX cf)"
  have "unat (word_of_nat q + cNB_PROCS_MAX cf) = q + ?nb" "unat (word_of_nat q + 2 * cNB_PROCS_MAX cf) = q + 2 * ?nb"
    "unat (word_of_nat q + 3 * cNB_PROCS_MAX cf) = q + 3 * ?nb"
    using assms(1) by (simp_all add: unat_word_ariths unat_of_nat)
  then show ?thesis using assms by (auto simp: bit_wti_mask wti_alloc_def split: if_splits)
qed

text \<open>C21: After the boot, an interrupt reaches its service routine: the timer of a processor calls the
  routine of the context switch, its first mailbox the wake-up, and each line of the XCU the routine and the channel that
  the mapping gives for it. The boot enables each line for one processor, the one that has its service routine, the timer of a
  processor for this processor only, and for it the mailboxes that \<open>_ext_irq_alloc\<close> can give to it; what was enabled before,
  nothing after a reset, remains so.\<close>

theorem booted_interrupts_routed:
  assumes "boot_cluster_ok cf mp x y xcu vb len" "mp = bt_mapping B" "boot_scheduler_init cf x y st B = Some (Inr B')"
    and "x = proc_x cf gpid" "y = proc_y cf gpid" "p = proc_p cf gpid" "n = procs (cluster_of cf mp x y)" "p < n"
    and "cluster_xy cf gpid = cxy_of cf x y" "qs = hwi_irqs mp xcu"
    and "d = get_sched cf gpid s" "b = schedulers (bt_kernel B') x y p"
      "hwi_vector d = hwi_vector b" "pti_vector d = pti_vector b" "wti_vector d = wti_vector b"
    and "xcu_get_index cf (cluster_xy cf gpid) (channel_of cf p) IRQ_TYPE_HWI s = Some (Inr (irq_id, ty))"
  shows "(ty = IRQ_TYPE_PTI \<and> irq_id = word_of_nat p \<longrightarrow> irq_demux cf mq isrs gpid s = isr_tick cf mq gpid ty irq_id s) \<and>
    (ty = IRQ_TYPE_WTI \<and> irq_id = word_of_nat p \<longrightarrow> irq_demux cf mq isrs gpid s = isr_wakup cf mq gpid ty irq_id s) \<and>
    (\<forall>j<length qs. ty = IRQ_TYPE_HWI \<and> irq_id = word_of_nat (irq_srcid (qs ! j)) \<and> j mod n = p \<and>
       irq_isr (qs ! j) \<in> {2..14} - {6} \<and> irq_channel (qs ! j) < 2 ^ 15 \<longrightarrow>
       irq_demux cf mq isrs gpid s = isrs (irq_isr (qs ! j)) ty irq_id (word_of_nat (irq_channel (qs ! j))) s) \<and>
    (\<forall>q<n. let reg = \<lambda>f. xcu_get_register cf (cxy_of cf x y) f (channel_of cf q) in
       (\<forall>j<length qs. bit (reg XCU_MSK_HWI_ENABLE (bt_kernel B')) (irq_srcid (qs ! j)) \<longleftrightarrow>
          bit (reg XCU_MSK_HWI_ENABLE (bt_kernel B)) (irq_srcid (qs ! j)) \<or> q = j mod n) \<and>
       (\<forall>i<32. i \<notin> irq_srcid ` set qs \<longrightarrow>
          (bit (reg XCU_MSK_HWI_ENABLE (bt_kernel B')) i \<longleftrightarrow> bit (reg XCU_MSK_HWI_ENABLE (bt_kernel B)) i)) \<and>
       (\<forall>i. bit (reg XCU_MSK_PTI_ENABLE (bt_kernel B')) i \<longleftrightarrow> bit (reg XCU_MSK_PTI_ENABLE (bt_kernel B)) i \<or> i = q) \<and>
       (\<forall>m s0 s1. wti_alloc cf x y q s0 = Some (m, s1) \<longrightarrow> bit (reg XCU_MSK_WTI_ENABLE (bt_kernel B')) (unat m)) \<and>
       (\<forall>i. bit (reg XCU_MSK_WTI_ENABLE (bt_kernel B')) i \<longleftrightarrow> bit (reg XCU_MSK_WTI_ENABLE (bt_kernel B)) i \<or>
          i \<in> {q, q + unat (cNB_PROCS_MAX cf), q + 2 * unat (cNB_PROCS_MAX cf), q + 3 * unat (cNB_PROCS_MAX cf)}))"
proof (rule boot_init_result [OF assms(1,2) refl, where st = st])
  fix mp' s' ptrs hwi msk
  assume run: "boot_scheduler_init cf x y st B = Some (Inr \<lparr>bt_mapping = mp', bt_kernel = s', bt_schedulers = ptrs\<rparr>)"
    and s: "\<And>x' y' p. schedulers s' x' y' p = (if x' = x \<and> y' = y \<and> p < procs (cluster_of cf mp x y)
      then booted_sched st mp x y p (hwi p) (schedulers (bt_kernel B) x y p) else schedulers (bt_kernel B) x' y' p)"
    and h: "\<And>p j. p < procs (cluster_of cf mp x y) \<Longrightarrow> j < length (hwi_irqs mp xcu) \<Longrightarrow>
       hwi p (irq_srcid (hwi_irqs mp xcu ! j)) = (if j mod procs (cluster_of cf mp x y) = p then hwi_entry (hwi_irqs mp xcu ! j) else 0) \<and>
       (bit (msk p) (irq_srcid (hwi_irqs mp xcu ! j)) \<longleftrightarrow> j mod procs (cluster_of cf mp x y) = p)"
    and hn: "\<And>p i. p < procs (cluster_of cf mp x y) \<Longrightarrow> i < 32 \<Longrightarrow> i \<notin> irq_srcid ` set (hwi_irqs mp xcu) \<Longrightarrow> hwi p i = 0 \<and> \<not> bit (msk p) i"
    and m: "masks_set cf (cxy_of cf x y) msk (procs (cluster_of cf mp x y)) {..<procs (cluster_of cf mp x y)} (bt_kernel B) s'"
  have B': "bt_kernel B' = s'" using run assms(3) by simp
  have ok: "n \<le> 8" "n - 1 + 3 * unat (cNB_PROCS_MAX cf) < 32" "length (tasks_of mp x y p) \<le> 13"
    "\<And>q. q \<in> set qs \<Longrightarrow> irq_srcid q \<le> 31"
    using assms(1,7,8,10) by (auto simp: boot_cluster_ok_def Let_def)
  note bf = booted_sched_facts(6,7,8) [OF ok(3), where st = st and hwi = "hwi p" and d = "schedulers (bt_kernel B) x y p"]
  have b: "b = booted_sched st mp x y p (hwi p) (schedulers (bt_kernel B) x y p)"
    using assms(7,8,12) by (simp add: B' s)
  have p32: "word_of_nat p < (32 :: u32)" "unat (word_of_nat p :: u32) = p"
    using ok(1) assms(8) by (simp_all add: word_less_nat_alt unat_of_nat)
  note demux = irq_demux_def [of cf mq isrs gpid s, folded assms(6) channel_of_def, unfolded assms(16) obind_simps prod.case Let_def, folded assms(11)]
  have tick: "irq_demux cf mq isrs gpid s = isr_tick cf mq gpid ty irq_id s" if "ty = IRQ_TYPE_PTI" "irq_id = word_of_nat p"
    using that p32 by (simp add: demux assms(14) b bf ISR_TICK_def)
  moreover have wak: "irq_demux cf mq isrs gpid s = isr_wakup cf mq gpid ty irq_id s" if "ty = IRQ_TYPE_WTI" "irq_id = word_of_nat p"
    using that p32 by (simp add: demux assms(15) b bf ISR_WAKUP_def)
  moreover have "irq_demux cf mq isrs gpid s = isrs (irq_isr (qs ! j)) ty irq_id (word_of_nat (irq_channel (qs ! j))) s"
    if j: "j < length qs" "ty = IRQ_TYPE_HWI" "irq_id = word_of_nat (irq_srcid (qs ! j))" "j mod n = p"
      "irq_isr (qs ! j) \<in> {2..14} - {6}" "irq_channel (qs ! j) < 2 ^ 15" for j
  proof -
    have src: "irq_srcid (qs ! j) \<le> 31" using ok(4) j(1) by simp
    then have "irq_id < 32" "unat irq_id = irq_srcid (qs ! j)" using j(3) by (simp_all add: word_less_nat_alt unat_of_nat)
    moreover have "hwi p (irq_srcid (qs ! j)) = hwi_entry (qs ! j)" using h [of p j] j(1,4) assms(7,8,10) by simp
    moreover have "irq_isr (qs ! j) < 2 ^ 16" using j(5) by simp
    ultimately show ?thesis using j hwi_entry_fields [of "qs ! j"] by (auto simp: demux assms(13) b bf)
  qed
  moreover have "let reg = \<lambda>f. xcu_get_register cf (cxy_of cf x y) f (channel_of cf q) in
       (\<forall>j<length qs. bit (reg XCU_MSK_HWI_ENABLE (bt_kernel B')) (irq_srcid (qs ! j)) \<longleftrightarrow>
          bit (reg XCU_MSK_HWI_ENABLE (bt_kernel B)) (irq_srcid (qs ! j)) \<or> q = j mod n) \<and>
       (\<forall>i<32. i \<notin> irq_srcid ` set qs \<longrightarrow>
          (bit (reg XCU_MSK_HWI_ENABLE (bt_kernel B')) i \<longleftrightarrow> bit (reg XCU_MSK_HWI_ENABLE (bt_kernel B)) i)) \<and>
       (\<forall>i. bit (reg XCU_MSK_PTI_ENABLE (bt_kernel B')) i \<longleftrightarrow> bit (reg XCU_MSK_PTI_ENABLE (bt_kernel B)) i \<or> i = q) \<and>
       (\<forall>m s0 s1. wti_alloc cf x y q s0 = Some (m, s1) \<longrightarrow> bit (reg XCU_MSK_WTI_ENABLE (bt_kernel B')) (unat m)) \<and>
       (\<forall>i. bit (reg XCU_MSK_WTI_ENABLE (bt_kernel B')) i \<longleftrightarrow> bit (reg XCU_MSK_WTI_ENABLE (bt_kernel B)) i \<or>
          i \<in> {q, q + unat (cNB_PROCS_MAX cf), q + 2 * unat (cNB_PROCS_MAX cf), q + 3 * unat (cNB_PROCS_MAX cf)})" if q: "q < n" for q
  proof -
    let ?r = "\<lambda>f. xcu_get_register cf (cxy_of cf x y) f (channel_of cf q)"
    have r: "?r XCU_MSK_HWI_ENABLE (bt_kernel B') = ?r XCU_MSK_HWI_ENABLE (bt_kernel B) OR msk q"
      "?r XCU_MSK_WTI_ENABLE (bt_kernel B') = ?r XCU_MSK_WTI_ENABLE (bt_kernel B) OR wti_mask cf q"
      "?r XCU_MSK_PTI_ENABLE (bt_kernel B') = ?r XCU_MSK_PTI_ENABLE (bt_kernel B) OR pti_mask q"
      using m q assms(7) by (simp_all add: masks_set_def Let_def B')
    have w: "q + 3 * unat (cNB_PROCS_MAX cf) < 32" using ok(2) q by linarith
    have "bit (pti_mask q) i \<longleftrightarrow> i = q" for i using ok(1) q by (auto simp: pti_mask_def bit_simps)
    moreover have "bit (wti_mask cf q) i \<longleftrightarrow>
        i \<in> {q, q + unat (cNB_PROCS_MAX cf), q + 2 * unat (cNB_PROCS_MAX cf), q + 3 * unat (cNB_PROCS_MAX cf)}" for i
      using w by (auto simp: bit_wti_mask)
    moreover have "bit (msk q) (irq_srcid (qs ! j)) \<longleftrightarrow> q = j mod n" if "j < length qs" for j
      using h [of q j] q that assms(7,10) by auto
    moreover have "\<not> bit (msk q) i" if "i < 32" "i \<notin> irq_srcid ` set qs" for i
      using hn [of q i] q that assms(7,10) by simp
    moreover have "bit (wti_mask cf q) (unat m)" if "wti_alloc cf x y q s0 = Some (m, s1)" for m s0 s1
      by (rule wti_alloc_enabled [OF w that])
    ultimately show ?thesis unfolding Let_def r by (simp only: bit_or_iff) blast
  qed
  ultimately show ?thesis by blast
qed

section \<open>A concrete machine\<close>

text \<open>One cluster with two processors; the two tasks of its only vspace are on processor 0.\<close>

definition two_tasks :: mapping where
  "two_tasks = \<lparr>
     hdr = \<lparr>signature = 0xDACE2014, x_size = 1, y_size = 1, globals = 1, vspaces = 1, n_psegs = 1, n_vsegs = 3, n_tasks = 2, x_io = 0, y_io = 0, irq_per_proc = 4\<rparr>,
     clusters = [\<lparr>cluster_x = 0, cluster_y = 0, procs = 2, cl_periphs = 1, cl_periph_offset = 0, cl_psegs = 1, cl_pseg_offset = 0\<rparr>],
     psegs = [\<lparr>pseg_base = 0, pseg_length = 0x1000000, ptype = PSEG_TYPE_RAM, clusterid = 0\<rparr>],
     vspace_table = [\<lparr>vspace_vsegs = 2, vspace_tasks = 2, vseg_offset = 1, task_offset = 0, start_vseg_id = 1, vspace_name = [], vspace_active = True\<rparr>],
     vsegs = [\<lparr>vbase = 0x80000, pbase = 0, vseg_length = 0x4000, psegid = 0, vmode = 0, vtype = VSEG_TYPE_SCHED,
         vmapped = True, vident = False, vlocal = False, vbig = False, vseg_name = [], vbinpath = []\<rparr>,
       \<lparr>vbase = 0x400000, pbase = 0, vseg_length = 0x1000, psegid = 0, vmode = 0, vtype = VSEG_TYPE_ELF,
         vmapped = True, vident = False, vlocal = False, vbig = False, vseg_name = [], vbinpath = []\<rparr>,
       \<lparr>vbase = 0x500000, pbase = 0, vseg_length = 0x1000, psegid = 0, vmode = 0, vtype = VSEG_TYPE_BUFFER,
         vmapped = True, vident = False, vlocal = True, vbig = False, vseg_name = [], vbinpath = []\<rparr>],
     tasks = [\<lparr>task_clusterid = 0, proclocid = 0, trdid = 0, stack_vseg_id = 2, heap_vseg_id = 2, startid = 0, task_ltid = 0\<rparr>,
       \<lparr>task_clusterid = 0, proclocid = 0, trdid = 1, stack_vseg_id = 2, heap_vseg_id = 2, startid = 1, task_ltid = 0\<rparr>],
     periphs = [\<lparr>periph_type_of = PERIPH_TYPE_XCU, periph_subtype = 0, periph_channels = 8, periph_arg0 = 1, periph_arg1 = 8, periph_arg2 = 2, periph_arg3 = 0,
       periph_irqs = 1, periph_irq_offset = 0\<rparr>],
     irqs = [\<lparr>irq_srctype = IRQ_TYPE_HWI, irq_srcid = 5, irq_isr = 9, irq_channel = 1\<rparr>]\<rparr>"

definition bare_tables :: boot_tables where
  "bare_tables = \<lparr>bt_mapping = two_tasks, bt_kernel = tiny_state, bt_schedulers = (\<lambda>_ _ _. 0)\<rparr>"

definition two_tasks_xcu :: mapping_periph where
  "two_tasks_xcu = \<lparr>periph_type_of = PERIPH_TYPE_XCU, periph_subtype = 0, periph_channels = 8, periph_arg0 = 1, periph_arg1 = 8, periph_arg2 = 2, periph_arg3 = 0,
       periph_irqs = 1, periph_irq_offset = 0\<rparr>"

lemma two_tasks_of: "all_tasks two_tasks = [(0, 0), (0, 1)]" "tasks_of two_tasks 0 0 0 = [(0, 0), (0, 1)]"
  "tasks_of two_tasks 0 0 (Suc 0) = []"
  by (simp_all add: all_tasks_def tasks_of_def placed_on_def two_tasks_def Let_def)

lemma two_tasks_values: "procs (cluster_of tiny_config two_tasks 0 0) = 2"
  "stack_top two_tasks (0, 1) = 0x501000" "start_slot two_tasks (0, 1) = 0x400004" "active_task two_tasks (0, i)"
  "hwi_irqs two_tasks two_tasks_xcu = [\<lparr>irq_srctype = IRQ_TYPE_HWI, irq_srcid = 5, irq_isr = 9, irq_channel = 1\<rparr>]"
  by (auto simp: cluster_of_def stack_top_def start_slot_def active_task_def hwi_irqs_def two_tasks_def two_tasks_xcu_def tiny_config_def Let_def)

lemma two_tasks_ok: "boot_cluster_ok tiny_config two_tasks 0 0 two_tasks_xcu 0x80000 0x4000"
proof -
  have x: "xcu_check tiny_config (cxy_of tiny_config 0 0)"
    by (simp add: xcu_check_def cxy_of_def tiny_config_def)
  have o: "outputs_ok tiny_config 2" by (simp add: outputs_ok_def tiny_config_def)
  have p: "\<forall>p<2. length (tasks_of two_tasks 0 0 p) \<le> 13"
    by (auto simp: numeral_2_eq_2 less_Suc_eq two_tasks_of)
  have v: "\<forall>vt\<in>set (all_tasks two_tasks). task_valid two_tasks vt"
    unfolding two_tasks_of by (simp add: task_valid_def two_tasks_def)
  have s: "boot_get_sched_vaddr two_tasks 0 = Some (Inr (0x80000, 0x4000))"
    by (simp add: boot_get_sched_vaddr_def two_tasks_def fetch_def)
  have c: "cl_periph_offset (cluster_of tiny_config two_tasks 0 0) = 0" "cl_periphs (cluster_of tiny_config two_tasks 0 0) = 1"
    by (simp_all add: cluster_of_def two_tasks_def)
  have u: "xcu_scan two_tasks 2 (periphs two_tasks) None = Inr (Some two_tasks_xcu)" "length (periphs two_tasks) = 1"
    by (simp_all add: two_tasks_def two_tasks_xcu_def)
  show ?thesis
    unfolding boot_cluster_ok_def Let_def
    using x o p v s u by (simp add: two_tasks_values c) (simp add: two_tasks_def two_tasks_xcu_def tiny_config_def push_bit_eq_mult)
qed

lemma gpid0: "proc_x tiny_config 0 = 0" "proc_y tiny_config 0 = 0" "proc_p tiny_config 0 = 0"
  by (simp_all add: proc_x_def proc_y_def proc_p_def)

theorem boot_scheduler_init_places_tasks_witness:
  "\<exists>B'. boot_scheduler_init tiny_config 0 0 demo_boot bare_tables = Some (Inr B') \<and>
     unat (sched_tasks (schedulers (bt_kernel B') 0 0 0)) = 2 \<and> bt_schedulers B' 0 0 1 = 0x82000 \<and>
     ctx (schedulers (bt_kernel B') 0 0 0) 1 CTX_SP_ID = 0x501000 \<and> ctx (schedulers (bt_kernel B') 0 0 0) 1 CTX_ENTRY_ID = 0x400004"
proof -
  have b: "two_tasks = bt_mapping bare_tables" by (simp add: bare_tables_def)
  obtain B' where B': "boot_scheduler_init tiny_config 0 0 demo_boot bare_tables = Some (Inr B')"
    and all: "\<forall>p<2. let d = schedulers (bt_kernel B') 0 0 p; ts = tasks_of two_tasks 0 0 p in
       bt_schedulers B' 0 0 p = 0x80000 + push_bit 13 (word_of_nat p) \<and> unat (sched_tasks d) = length ts \<and>
       (\<forall>i<length ts. ctx d i CTX_SP_ID = stack_top two_tasks (ts ! i) \<and> ctx d i CTX_ENTRY_ID = start_slot two_tasks (ts ! i))"
    using boot_scheduler_init_places_tasks [OF two_tasks_ok b, of demo_boot] unfolding two_tasks_values Let_def by blast
  have "bt_schedulers B' 0 0 1 = 0x82000" using all [rule_format, of 1] by (simp add: Let_def push_bit_eq_mult)
  moreover have "unat (sched_tasks (schedulers (bt_kernel B') 0 0 0)) = 2"
    "ctx (schedulers (bt_kernel B') 0 0 0) 1 CTX_SP_ID = stack_top two_tasks (0, 1)"
    "ctx (schedulers (bt_kernel B') 0 0 0) 1 CTX_ENTRY_ID = start_slot two_tasks (0, 1)"
    using all [rule_format, of 0] by (simp_all add: Let_def two_tasks_of)
  ultimately show ?thesis using B' two_tasks_values(2,3) by auto
qed

text \<open>The machine as the boot loader leaves it, and the memory as \<open>vread\<close> reads it: the start vector of the
  vspace has the entry point \<open>0x400100 + 4 * i\<close> for task \<open>i\<close>.\<close>

definition demo_vread :: "u32 \<Rightarrow> u32 \<Rightarrow> u32" where "demo_vread ptpr a = a + 0x100"

definition demo_kinit :: "boot_tables \<Rightarrow> kinit" where
  "demo_kinit B = \<lparr>ki_kernel = bt_kernel B, ki_ptabs_vaddr = (\<lambda>_ _ _. 0), ki_ptabs_ptprs = (\<lambda>_ _ _. 0)\<rparr>"

lemma two_tasks_booted:
  obtains B' where "boot_scheduler_init tiny_config 0 0 demo_boot bare_tables = Some (Inr B')"
    "handed_over tiny_config 0 bare_tables B' demo_boot (demo_kinit B')"
proof -
  have b: "two_tasks = bt_mapping bare_tables" by (simp add: bare_tables_def)
  obtain B' where B': "boot_scheduler_init tiny_config 0 0 demo_boot bare_tables = Some (Inr B')"
    by (rule boot_init_result [OF two_tasks_ok b refl, where st = demo_boot]) blast
  have "procs (cluster_of tiny_config two_tasks 0 0) = 2" by (rule two_tasks_values)
  then have "handed_over tiny_config 0 bare_tables B' demo_boot (demo_kinit B')"
    using two_tasks_ok B' tiny_ok(2) unfolding handed_over_def Let_def gpid0 b [symmetric]
    by (auto simp: demo_kinit_def)
  then show thesis using that B' by blast
qed

lemma demo_values: "start_slot two_tasks (0, 0) = 0x400000" "stack_top two_tasks (0, 0) = 0x501000"
  by (simp_all add: start_slot_def stack_top_def two_tasks_def)

theorem kernel_init_enters_first_task_witness:
  "\<exists>K K'. kernel_init tiny_config demo_vread 0x80100000 0 0x80000 K = Some (Inr K') \<and>
     current_task (get_sched tiny_config 0 (ki_kernel K')) = 0 \<and>
     my_cpu tiny_config 0 (ki_kernel K') CTX_SP_ID = 0x501000 \<and> my_cpu tiny_config 0 (ki_kernel K') CTX_EPC_ID = 0x400100"
proof -
  obtain B' where h: "handed_over tiny_config 0 bare_tables B' demo_boot (demo_kinit B')"
    by (rule two_tasks_booted)
  have b: "two_tasks = bt_mapping bare_tables" by (simp add: bare_tables_def)
  have ts: "[(0, 0), (0, 1)] = tasks_of two_tasks 0 0 (proc_p tiny_config 0)" by (simp add: gpid0 two_tasks_of)
  obtain K' i where "kernel_init tiny_config demo_vread 0x80100000 0 0x80000 (demo_kinit B') = Some (Inr K')" "i < 2"
    "current_task (get_sched tiny_config 0 (ki_kernel K')) = word_of_nat i" "\<forall>j<i. \<not> active_task two_tasks ([(0, 0), (0, 1)] ! j)"
    "my_cpu tiny_config 0 (ki_kernel K') CTX_SP_ID = stack_top two_tasks ([(0, 0), (0, 1)] ! i)"
    "my_cpu tiny_config 0 (ki_kernel K') CTX_EPC_ID =
       demo_vread (ptpr_of demo_boot 0 0 ([(0, 0), (0, 1)] ! i)) (start_slot two_tasks ([(0, 0), (0, 1)] ! i))"
    using kernel_init_enters_first_task [OF h b gpid0(1,2) [symmetric] ts, of demo_vread "0x80100000" "0x80000"]
    by (auto simp: Let_def two_tasks_values(4) numeral_2_eq_2)
  moreover have "i = 0" using calculation(2,4) two_tasks_values(4) by (cases i) auto
  ultimately show ?thesis by (auto simp: demo_vread_def demo_values)
qed

theorem booted_switch_enters_start_vector_witness:
  "\<exists>K K'. kernel_init tiny_config demo_vread 0x80100000 0 0x80000 K = Some (Inr K') \<and>
     (\<forall>mq. \<exists>s' t. ctx_switch tiny_config mq 0 (ki_kernel K') = Some (Inr s') \<and>
        my_cpu tiny_config 0 s' CTX_EPC_ID = start_slot two_tasks (0, t) \<and>
        ctx (get_sched tiny_config 0 s') t CTX_ENTRY_ID = start_slot two_tasks (0, t) + 0x100)"
proof -
  obtain B' where h: "handed_over tiny_config 0 bare_tables B' demo_boot (demo_kinit B')"
    by (rule two_tasks_booted)
  have b: "two_tasks = bt_mapping bare_tables" by (simp add: bare_tables_def)
  have ts2: "[(0, 0), (0, 1)] = tasks_of two_tasks (proc_x tiny_config 0) (proc_y tiny_config 0) (proc_p tiny_config 0)"
    by (simp add: gpid0 two_tasks_of)
  obtain K' where k: "kernel_init tiny_config demo_vread 0x80100000 0 0x80000 (demo_kinit B') = Some (Inr K')"
    by (rule booted_start [OF h b ts2, where vread = demo_vread and idle_task = "0x80100000" and psched = "0x80000"])
      blast
  obtain us where us: "us = tasks_of two_tasks 0 0 (proc_p tiny_config 0)" "us \<noteq> []" "length us = 2" "\<And>j. j < 2 \<Longrightarrow> us ! j = (0, j)"
    by (rule that [of "[(0, 0), (0, 1)]"]) (auto simp: gpid0 two_tasks_of less_2_cases_iff)
  then have two: "\<exists>i<length us. \<exists>j<length us. i \<noteq> j \<and> active_task two_tasks (us ! i) \<and> active_task two_tasks (us ! j)"
    by (intro exI [of _ 0] conjI exI [of _ 1]) (simp_all add: two_tasks_values(4))
  have "\<exists>s' j. ctx_switch tiny_config mq 0 (ki_kernel K') = Some (Inr s') \<and> j < length us \<and>
      my_cpu tiny_config 0 s' CTX_EPC_ID = start_slot two_tasks (us ! j) \<and>
      ctx (get_sched tiny_config 0 s') j CTX_ENTRY_ID = demo_vread (ptpr_of demo_boot 0 0 (us ! j)) (start_slot two_tasks (us ! j))" for mq
    using booted_switch_enters_start_vector [OF h b gpid0(1,2) [symmetric] us(1,2) k, of mq] two
    unfolding Let_def by blast
  then have "\<forall>mq. \<exists>s' t. ctx_switch tiny_config mq 0 (ki_kernel K') = Some (Inr s') \<and>
        my_cpu tiny_config 0 s' CTX_EPC_ID = start_slot two_tasks (0, t) \<and>
        ctx (get_sched tiny_config 0 s') t CTX_ENTRY_ID = start_slot two_tasks (0, t) + 0x100"
    by (metis (no_types, lifting) demo_vread_def us(3,4))
  then show ?thesis using k by blast
qed

text \<open>The XCU presents line 5 to processor 0.\<close>

definition line5 :: "kstate \<Rightarrow> kstate" where
  "line5 s = xcu_set_register tiny_config (cxy_of tiny_config 0 0) XCU_PRIO (channel_of tiny_config 0) 0x00050002 s"

theorem booted_interrupts_routed_witness:
  "\<exists>B'. boot_scheduler_init tiny_config 0 0 demo_boot bare_tables = Some (Inr B') \<and>
     (\<forall>mq isrs. irq_demux tiny_config mq isrs 0 (line5 (bt_kernel B')) = isrs 9 IRQ_TYPE_HWI 5 1 (line5 (bt_kernel B'))) \<and>
     (\<forall>q<2. bit (xcu_get_register tiny_config (cxy_of tiny_config 0 0) XCU_MSK_HWI_ENABLE (channel_of tiny_config q) (bt_kernel B')) 5 \<longleftrightarrow> q = 0)"
proof -
  obtain B' where B': "boot_scheduler_init tiny_config 0 0 demo_boot bare_tables = Some (Inr B')"
    by (rule two_tasks_booted)
  have b: "two_tasks = bt_mapping bare_tables" by (simp add: bare_tables_def)
  have cxy: "cluster_xy tiny_config 0 = cxy_of tiny_config 0 0"
    by (simp add: cluster_xy_def cxy_of_def)
  have r: "xcu_get_register tiny_config (cluster_xy tiny_config 0) XCU_PRIO (channel_of tiny_config 0) (line5 s) = 0x00050002" for s
    by (simp add: line5_def xcu_get_register_def xcu_set_register_def xcu_written_def Let_def cxy)
  have ch: "channel_of tiny_config 0 = 0" "cNB_PROCS_MAX tiny_config * cIRQ_PER_PROCESSOR tiny_config = 16"
    by (simp_all add: channel_of_def tiny_config_def)
  have x: "xcu_get_index tiny_config (cluster_xy tiny_config 0) (channel_of tiny_config 0) IRQ_TYPE_HWI (line5 (bt_kernel B')) =
      Some (Inr (5, IRQ_TYPE_HWI))"
    by (simp add: xcu_get_index_def r [unfolded ch] tiny_ok(2) ch)
  have v: "schedulers (bt_kernel B') 0 0 0 = get_sched tiny_config 0 (line5 (bt_kernel B'))"
    by (simp add: get_sched_def gpid0 line5_def xcu_set_register_def Let_def)
  have hv: "hwi_vector (get_sched tiny_config 0 (line5 (bt_kernel B'))) = hwi_vector (schedulers (bt_kernel B') 0 0 0)"
    "pti_vector (get_sched tiny_config 0 (line5 (bt_kernel B'))) = pti_vector (schedulers (bt_kernel B') 0 0 0)"
    "wti_vector (get_sched tiny_config 0 (line5 (bt_kernel B'))) = wti_vector (schedulers (bt_kernel B') 0 0 0)"
    by (simp_all add: v)
  have "irq_demux tiny_config mq isrs 0 (line5 (bt_kernel B')) = isrs 9 IRQ_TYPE_HWI 5 1 (line5 (bt_kernel B'))" for mq isrs
    using booted_interrupts_routed [OF two_tasks_ok b B' gpid0 [symmetric] two_tasks_values(1) [symmetric] _ cxy
        two_tasks_values(5) [symmetric] refl refl hv x]
    by simp
  moreover have "bit (xcu_get_register tiny_config (cxy_of tiny_config 0 0) XCU_MSK_HWI_ENABLE (channel_of tiny_config q) (bt_kernel B')) 5 \<longleftrightarrow> q = 0"
    if "q < 2" for q
    using booted_interrupts_routed [OF two_tasks_ok b B' gpid0 [symmetric] two_tasks_values(1) [symmetric] _ cxy
        two_tasks_values(5) [symmetric] refl refl hv x] that
    by (auto simp: Let_def bare_tables_def tiny_state_def xcu_get_register_def)
  ultimately show ?thesis using B' by blast
qed

end
