(* ===== verification/Tty.thy ===== *)
theory Tty
  imports Kernel_State User_Stdlib
begin

text \<open>
  The terminals as the kernel drives them: the receive interrupt of \<open>giet_drivers/tty_driver.c\<close>, the system
  calls \<open>_sys_tty_write\<close> and \<open>_sys_tty_read\<close> of \<open>giet_kernel/sys_handler.c\<close>, and the output
  of the kernel on terminal 0 (\<open>giet_common/tty0.c\<close>), with its formatted printing. The device is what its
  registers show: \<open>full ch k\<close> says whether the \<open>k\<close>-th reading of a status register finds the output
  of channel \<open>ch\<close> full, and \<open>tty_out\<close> has the characters that each terminal has received.
\<close>

section \<open>The device and the two system calls\<close>

record tty =
  tty_kernel :: kstate
  tty_rx_buf :: "nat \<Rightarrow> u32"
  tty_out :: "nat \<Rightarrow> u8 list"
  status_reads :: nat

type_synonym tty_oracle = "nat \<Rightarrow> nat \<Rightarrow> bool"

definition tty_full :: "tty_oracle \<Rightarrow> nat \<Rightarrow> tty \<Rightarrow> bool \<times> tty" where
  "tty_full full ch T = (full ch (status_reads T), T\<lparr>status_reads := status_reads T + 1\<rparr>)"

definition tty_put :: "nat \<Rightarrow> u8 \<Rightarrow> tty \<Rightarrow> tty" where
  "tty_put ch c T = T\<lparr>tty_out := (tty_out T)(ch := tty_out T ch @ [c])\<rparr>"

text \<open>A character, preceded by a carriage return when it is a line feed.\<close>

definition put_char :: "nat \<Rightarrow> u8 \<Rightarrow> tty \<Rightarrow> tty" where
  "put_char ch c T = (if c = 10 then tty_put ch c (tty_put ch 13 T) else tty_put ch c T)"

definition tty_init :: "nat \<Rightarrow> tty \<Rightarrow> tty" where
  "tty_init ch T = T\<lparr>tty_kernel := (tty_kernel T)\<lparr>tty_rx_full := (tty_rx_full (tty_kernel T))(ch := 0)\<rparr>\<rparr>"

text \<open>\<open>value\<close> is what the register \<open>TTY_READ\<close> gives.\<close>

definition tty_rx_isr :: "nat \<Rightarrow> u32 \<Rightarrow> tty \<Rightarrow> tty" where
  "tty_rx_isr ch value T = T\<lparr>tty_rx_buf := (tty_rx_buf T)(ch := value),
     tty_kernel := (tty_kernel T)\<lparr>tty_rx_full := (tty_rx_full (tty_kernel T))(ch := 1)\<rparr>\<rparr>"

definition tty_channel_of :: "hard_config \<Rightarrow> u32 \<Rightarrow> u32 \<Rightarrow> tty \<Rightarrow> u32" where
  "tty_channel_of cf gpid channel T =
     (if channel = 0xFFFFFFFF then get_context_slot cf gpid CTX_TTY_ID (tty_kernel T) else channel)"

text \<open>The number of characters written, on the characters of the buffer.\<close>

fun tty_write_loop :: "tty_oracle \<Rightarrow> nat \<Rightarrow> u8 list \<Rightarrow> u32 \<Rightarrow> tty \<Rightarrow> u32 \<times> tty" where
  "tty_write_loop full ch [] nwritten T = (nwritten, T)"
| "tty_write_loop full ch (c # cs) nwritten T =
     (let (busy, T) = tty_full full ch T
      in if busy then (nwritten, T) else tty_write_loop full ch cs (nwritten + 1) (put_char ch c T))"

definition sys_tty_write :: "hard_config \<Rightarrow> u32 \<Rightarrow> tty_oracle \<Rightarrow> u8 list \<Rightarrow> u32 \<Rightarrow> tty \<Rightarrow> u32 \<times> tty" where
  "sys_tty_write cf gpid full buffer channel T =
     (let channel = tty_channel_of cf gpid channel T
      in if channel \<ge> cNB_TTY_CHANNELS cf then (-1, T) else tty_write_loop full (unat channel) buffer 0 T)"

text \<open>The character read, when there is one.\<close>

definition sys_tty_read :: "hard_config \<Rightarrow> u32 \<Rightarrow> u32 \<Rightarrow> tty \<Rightarrow> u32 \<times> u8 option \<times> tty" where
  "sys_tty_read cf gpid channel T =
     (let channel = tty_channel_of cf gpid channel T; ch = unat channel; s = tty_kernel T
      in if channel \<ge> cNB_TTY_CHANNELS cf then (-1, None, T)
         else if tty_rx_full s ch = 0 then (0, None, T)
         else (1, Some (ucast (tty_rx_buf T ch)), T\<lparr>tty_kernel := s\<lparr>tty_rx_full := (tty_rx_full s)(ch := 0)\<rparr>\<rparr>))"

section \<open>Numbers as text\<close>

text \<open>The table \<open>"0123456789ABCDEF"\<close>.\<close>

definition hexa_tab :: "u8 list" where
  "hexa_tab = [48, 49, 50, 51, 52, 53, 54, 55, 56, 57, 65, 66, 67, 68, 69, 70]"

definition hexa :: "'a::len word \<Rightarrow> u8" where
  "hexa d = hexa_tab ! unat d"

text \<open>
  The loop of every conversion: digits from the right of a buffer of \<open>n\<close> characters, until the number is 0;
  past the buffer, the text would start before the array (\<open>None\<close>).
\<close>

fun digit_loop :: "'a::len word \<Rightarrow> nat \<Rightarrow> 'a word \<Rightarrow> u8 list \<Rightarrow> u8 list option" where
  "digit_loop base 0 val acc = None"
| "digit_loop base (Suc n) val acc =
     (let acc = hexa (val mod base) # acc; val = val div base
      in if val = 0 then Some acc else digit_loop base n val acc)"

text \<open>The conversion with a fixed number of digits.\<close>

fun fixed_loop :: "nat \<Rightarrow> 'a::len word \<Rightarrow> u8 list \<Rightarrow> u8 list" where
  "fixed_loop 0 val acc = acc"
| "fixed_loop (Suc n) val acc = fixed_loop n (drop_bit 4 val) (hexa (val AND 0xF) # acc)"

section \<open>The terminal of the kernel\<close>

text \<open>
  \<open>_tty0_write\<close> returns 1 as soon as it finds the output full, after having waited for it.
\<close>

fun tty0_wait :: "tty_oracle \<Rightarrow> nat \<Rightarrow> tty \<Rightarrow> tty" where
  "tty0_wait full 0 T = T"
| "tty0_wait full (Suc k) T = (let (busy, T) = tty_full full 0 T in if busy then tty0_wait full k T else T)"

fun tty0_write :: "tty_oracle \<Rightarrow> u8 list \<Rightarrow> tty \<Rightarrow> u32 \<times> tty" where
  "tty0_write full [] T = (0, T)"
| "tty0_write full (c # cs) T =
     (let (busy, T) = tty_full full 0 T
      in if busy then (1, tty0_wait full 10000 T) else tty0_write full cs (put_char 0 c T))"

text \<open>\<open>_puts\<close> stops at the first character that is not positive as a signed character.\<close>

definition puts :: "tty_oracle \<Rightarrow> u8 list \<Rightarrow> tty \<Rightarrow> tty" where
  "puts full string T = snd (tty0_write full (takeWhile (\<lambda>c. 0 <s c) string) T)"

definition putx :: "tty_oracle \<Rightarrow> u32 \<Rightarrow> tty \<Rightarrow> tty" where
  "putx full val T = snd (tty0_write full ([48, 120] @ fixed_loop 8 val []) T)"

definition putl :: "tty_oracle \<Rightarrow> u64 \<Rightarrow> tty \<Rightarrow> tty" where
  "putl full val T = snd (tty0_write full ([48, 120] @ fixed_loop 16 val []) T)"

fun putd_loop :: "nat \<Rightarrow> bool \<Rightarrow> u32 \<Rightarrow> u8 list \<Rightarrow> u8 list" where
  "putd_loop 0 start val acc = acc"
| "putd_loop (Suc n) start val acc =
     (if val \<noteq> 0 \<or> start then putd_loop n False (val div 10) (hexa (val mod 10) # acc) else acc)"

definition putd :: "tty_oracle \<Rightarrow> u32 \<Rightarrow> tty \<Rightarrow> tty" where
  "putd full val T = snd (tty0_write full (putd_loop 10 True val []) T)"

text \<open>\<open>_getc\<close>: the status until something is there, then the character (\<open>reads\<close> gives both registers in turn).\<close>

fun tty_getc :: "(u32 \<times> u32) list \<Rightarrow> (u8 \<times> (u32 \<times> u32) list) option" where
  "tty_getc [] = None"
| "tty_getc ((status, read) # rs) = (if status = 0 then tty_getc rs else Some (ucast read, rs))"

text \<open>
  The arguments of a format. A conversion takes an argument of its type: with another one, or without
  any, the function has no defined result (\<open>None\<close>).
\<close>

datatype va_arg = Va_int u32 | Va_long u64 | Va_double u64 | Va_str "u8 list"

definition c_string :: "u8 list \<Rightarrow> u8 list" where
  "c_string cs = takeWhile (\<lambda>c. c \<noteq> 0) cs"

text \<open>
  What a conversion of \<open>_kernel_printf\<close> writes, in one or two calls: the minus sign or the \<open>0x\<close> first.
  \<open>Inl ()\<close> is the error of an unknown conversion. The opposite of the least integer is not defined.
\<close>

definition kernel_conversion :: "u8 \<Rightarrow> va_arg list \<Rightarrow> (unit + u8 list list \<times> va_arg list) option" where
  "kernel_conversion c args =
     (if c = 99 then (case args of Va_int val # as \<Rightarrow> Some (Inr ([[ucast val]], as)) | _ \<Rightarrow> None)
      else if c = 100 then
        (case args of Va_int val # as \<Rightarrow>
           if val <s 0 then
             if - val <s 0 then None
             else map_option (\<lambda>ds. Inr ([[45], ds], as)) (digit_loop 10 10 (- val) [])
           else map_option (\<lambda>ds. Inr ([ds], as)) (digit_loop 10 10 val [])
         | _ \<Rightarrow> None)
      else if c = 117 then (case args of Va_int val # as \<Rightarrow> map_option (\<lambda>ds. Inr ([ds], as)) (digit_loop 10 10 val []) | _ \<Rightarrow> None)
      else if c = 120 then
        (case args of Va_int val # as \<Rightarrow> map_option (\<lambda>ds. Inr ([[48, 120], ds], as)) (digit_loop 16 8 val []) | _ \<Rightarrow> None)
      else if c = 88 then (case args of Va_int val # as \<Rightarrow> Some (Inr ([[48, 120], fixed_loop 8 val []], as)) | _ \<Rightarrow> None)
      else if c = 108 then
        (case args of Va_long val # as \<Rightarrow> map_option (\<lambda>ds. Inr ([[48, 120], ds], as)) (digit_loop 16 16 val []) | _ \<Rightarrow> None)
      else if c = 115 then (case args of Va_str s # as \<Rightarrow> Some (Inr ([c_string s], as)) | _ \<Rightarrow> None)
      else Some (Inl ()))"

text \<open>Pieces written one after the other, until one fails.\<close>

fun write_pieces :: "('s \<Rightarrow> u8 list \<Rightarrow> bool \<times> 's) \<Rightarrow> u8 list list \<Rightarrow> 's \<Rightarrow> bool \<times> 's" where
  "write_pieces wr [] T = (True, T)"
| "write_pieces wr (p # ps) T = (let (ok, T) = wr T p in if ok then write_pieces wr ps T else (False, T))"

definition tty0_piece :: "tty_oracle \<Rightarrow> tty \<Rightarrow> u8 list \<Rightarrow> bool \<times> tty" where
  "tty0_piece full T p = (let (ret, T) = tty0_write full p T in (ret = 0, T))"

lemma dropWhile_shorter: "a # b # ys = dropWhile P xs \<Longrightarrow> length ys < length xs"
  using length_dropWhile_le [of P xs] by (metis Suc_le_lessD length_Cons less_SucI Suc_less_eq)

text \<open>The format is its characters before the terminator. \<open>False\<close>: the error, which stops the processor after a message.\<close>

function kernel_printf :: "tty_oracle \<Rightarrow> u8 list \<Rightarrow> va_arg list \<Rightarrow> tty \<Rightarrow> (bool \<times> tty) option" where
  "kernel_printf full format args T =
     (if format = [] then Some (True, T)
      else
        let text = takeWhile (\<lambda>c. c \<noteq> 37) format; rest = dropWhile (\<lambda>c. c \<noteq> 37) format;
            (ok, T) = (if text = [] then (True, T) else tty0_piece full T text)
        in if \<not> ok then Some (False, T)
           else (case rest of
             [] \<Rightarrow> Some (True, T)
           | [_] \<Rightarrow> Some (False, T)
           | _ # c # format \<Rightarrow>
               (case kernel_conversion c args of
                  None \<Rightarrow> None
                | Some (Inl ()) \<Rightarrow> Some (False, T)
                | Some (Inr (pieces, args)) \<Rightarrow>
                    (let (ok, T) = write_pieces (tty0_piece full) pieces T
                     in if ok then kernel_printf full format args T else Some (False, T)))))"
  by pat_completeness auto
termination
  by (relation "measure (\<lambda>(full, format, args, T). length format)") (auto dest: dropWhile_shorter)

declare kernel_printf.simps [simp del]

end
