(* ===== verification/User_Tty.thy ===== *)
theory User_Tty
  imports Tty
begin

text \<open>
  The terminal functions of the user library, \<open>giet_libs/stdio.c\<close>: formatted printing, and the reading of a
  character, of a line and of a decimal number with echo and correction. They run as system calls
  of the task that is current on processor \<open>gpid\<close>. The characters typed come through the receive interrupt
  between two calls: each element of the list \<open>arr\<close> has the values that the interrupt of the terminal
  of the task delivers before one more call of \<open>_sys_tty_read\<close>. A call that waits for ever has the result \<open>None\<close>.
\<close>

section \<open>Formatted printing\<close>

datatype modifier = NO_MOD | L_MOD | LL_MOD

text \<open>
  The pieces of \<open>%e\<close>, \<open>%f\<close> and \<open>%g\<close>, from the bits of the number: the special values, and otherwise the sign and
  \<open>print_finite\<close>, an argument for the text after the sign, which floating-point arithmetic computes.
\<close>

definition double_pieces :: "(u64 \<Rightarrow> u8 list) \<Rightarrow> u64 \<Rightarrow> u8 list list" where
  "double_pieces print_finite bits =
     (let digits = bits AND 0xFFFFFFFFFFFFF; base = drop_bit 52 (bits AND 0x7FF0000000000000);
          sign = if bits AND 0x8000000000000000 \<noteq> 0 then 45 else 43
      in if base = 0x7FF then if digits \<noteq> 0 then [[78, 97, 78]] else [[sign, 105, 110, 102]]
         else [[sign], print_finite bits])"

text \<open>The pieces that a conversion writes.\<close>

definition user_conversion :: "(u64 \<Rightarrow> u8 list) \<Rightarrow> modifier \<Rightarrow> u8 \<Rightarrow> va_arg list \<Rightarrow> (unit + u8 list list \<times> va_arg list) option" where
  "user_conversion print_finite modifiers c args =
     (if c = 37 then Some (Inr ([[37]], args))
      else if c = 99 then
        (case args of Va_int val # as \<Rightarrow> if modifiers \<noteq> NO_MOD then Some (Inl ()) else Some (Inr ([[ucast val]], as)) | _ \<Rightarrow> None)
      else if c = 100 then
        (case args of Va_int val # as \<Rightarrow>
           if modifiers = LL_MOD then Some (Inl ())
           else if val <s 0 then
             if - val <s 0 then None
             else map_option (\<lambda>ds. Inr ([[45], ds], as)) (digit_loop 10 10 (- val) [])
           else map_option (\<lambda>ds. Inr ([ds], as)) (digit_loop 10 10 val [])
         | _ \<Rightarrow> None)
      else if c = 117 \<and> modifiers \<noteq> LL_MOD then
        (case args of Va_int val # as \<Rightarrow> map_option (\<lambda>ds. Inr ([ds], as)) (digit_loop 10 10 val []) | _ \<Rightarrow> None)
      else if c = 117 \<or> c = 120 \<or> c = 88 then
        (if modifiers = LL_MOD then
           (case args of Va_long val # as \<Rightarrow>
              if c = 117 \<and> val AND 0xFFFFFFFF00000000 = 0
              then map_option (\<lambda>ds. Inr ([ds], as)) (digit_loop 10 10 (ucast val :: u32) [])
              else map_option (\<lambda>ds. Inr ([[48, 120], ds], as)) (digit_loop 16 16 val [])
            | _ \<Rightarrow> None)
         else
           (case args of Va_int val # as \<Rightarrow> map_option (\<lambda>ds. Inr ([[48, 120], ds], as)) (digit_loop 16 8 (ucast val :: u64) [])
            | _ \<Rightarrow> None))
      else if c = 115 then
        (case args of Va_str s # as \<Rightarrow> if modifiers \<noteq> NO_MOD then Some (Inl ()) else Some (Inr ([c_string s], as)) | _ \<Rightarrow> None)
      else if c = 101 \<or> c = 102 \<or> c = 103 then
        (case args of Va_double d # as \<Rightarrow> Some (Inr (double_pieces print_finite d, as)) | _ \<Rightarrow> None)
      else Some (Inl ()))"

definition user_piece :: "hard_config \<Rightarrow> u32 \<Rightarrow> tty_oracle \<Rightarrow> u32 \<Rightarrow> tty \<Rightarrow> u8 list \<Rightarrow> bool \<times> tty" where
  "user_piece cf gpid full channel T p =
     (let (ret, T) = sys_tty_write cf gpid full p channel T in (ret = word_of_nat (length p), T))"

definition decimal_char :: "u8 \<Rightarrow> bool" where
  "decimal_char c \<longleftrightarrow> 48 \<le> c \<and> c \<le> 57"

lemma dropWhile_shorter1: "dropWhile P xs = a # ys \<Longrightarrow> length ys < length xs"
  using length_dropWhile_le [of P xs] by (metis Suc_le_lessD length_Cons)

text \<open>\<open>None\<close> in place of the modifiers: the text before the next conversion. The result is the one of \<open>__printf\<close>.\<close>

function user_printf :: "hard_config \<Rightarrow> u32 \<Rightarrow> tty_oracle \<Rightarrow> (u64 \<Rightarrow> u8 list) \<Rightarrow> u32 \<Rightarrow> modifier option
    \<Rightarrow> u8 list \<Rightarrow> va_arg list \<Rightarrow> tty \<Rightarrow> (u32 \<times> tty) option" where
  "user_printf cf gpid full pd channel None format args T =
     (let text = takeWhile (\<lambda>c. c \<noteq> 37) format;
          (ok, T) = (if text = [] then (True, T) else user_piece cf gpid full channel T text)
      in if \<not> ok then Some (1, T)
         else (case dropWhile (\<lambda>c. c \<noteq> 37) format of
           [] \<Rightarrow> Some (0, T)
         | _ # format \<Rightarrow> user_printf cf gpid full pd channel (Some NO_MOD) format args T))"
| "user_printf cf gpid full pd channel (Some m) format args T =
     (case dropWhile decimal_char format of
        [] \<Rightarrow> Some (1, T)
      | c # format \<Rightarrow>
          if c = 108 then
            (case m of NO_MOD \<Rightarrow> user_printf cf gpid full pd channel (Some L_MOD) format args T
             | L_MOD \<Rightarrow> user_printf cf gpid full pd channel (Some LL_MOD) format args T
             | LL_MOD \<Rightarrow> Some (1, T))
          else if c = 46 then user_printf cf gpid full pd channel (Some m) format args T
          else (case user_conversion pd m c args of
              None \<Rightarrow> None
            | Some (Inl ()) \<Rightarrow> Some (1, T)
            | Some (Inr (pieces, args)) \<Rightarrow>
                (let (ok, T) = write_pieces (user_piece cf gpid full channel) pieces T
                 in if ok then user_printf cf gpid full pd channel None format args T else Some (1, T))))"
  by pat_completeness auto

termination
  by (relation "measure (\<lambda>(cf, gpid, full, pd, channel, m, format, args, T). length format)")
    (auto dest: dropWhile_shorter1 dropWhile_shorter1 [OF sym])

declare user_printf.simps [simp del]

datatype tty_exit = Printf_error | Getc_error | Gets_error | Getw_error

definition giet_tty_printf :: "hard_config \<Rightarrow> u32 \<Rightarrow> tty_oracle \<Rightarrow> (u64 \<Rightarrow> u8 list) \<Rightarrow> u8 list \<Rightarrow> va_arg list \<Rightarrow> tty
    \<Rightarrow> (tty_exit + tty) option" where
  "giet_tty_printf cf gpid full pd format args T =
     map_option (\<lambda>(ret, T). if ret \<noteq> 0 then Inl Printf_error else Inr T)
       (user_printf cf gpid full pd 0xFFFFFFFF None (c_string format) args T)"

section \<open>Reading\<close>

text \<open>One more call of \<open>_sys_tty_read\<close>, after the interrupts.\<close>

definition tty_poll :: "hard_config \<Rightarrow> u32 \<Rightarrow> u32 list \<Rightarrow> tty \<Rightarrow> u32 \<times> u8 option \<times> tty" where
  "tty_poll cf gpid vs T =
     sys_tty_read cf gpid 0xFFFFFFFF (fold (tty_rx_isr (unat (tty_channel_of cf gpid 0xFFFFFFFF T))) vs T)"

fun giet_tty_getc :: "hard_config \<Rightarrow> u32 \<Rightarrow> u32 list list \<Rightarrow> tty \<Rightarrow> (tty_exit + u8 \<times> u32 list list \<times> tty) option" where
  "giet_tty_getc cf gpid [] T = None"
| "giet_tty_getc cf gpid (vs # arr) T =
     (case tty_poll cf gpid vs T of
        (ret, byte, T) \<Rightarrow>
          if ret <s 0 then Some (Inl Getc_error)
          else (case byte of Some c \<Rightarrow> Some (Inr (c, arr, T)) | None \<Rightarrow> giet_tty_getc cf gpid arr T))"

definition echo :: "hard_config \<Rightarrow> u32 \<Rightarrow> tty_oracle \<Rightarrow> u8 list \<Rightarrow> tty \<Rightarrow> bool \<times> tty" where
  "echo cf gpid full cs T = (let (ret, T) = sys_tty_write cf gpid full cs 0xFFFFFFFF T in (\<not> ret <s 0, T))"

text \<open>The characters of \<open>string_cancel\<close>: back space, space, back space.\<close>

definition string_cancel :: "u8 list" where
  "string_cancel = [0x08, 0x20, 0x08]"

text \<open>
  \<open>giet_tty_gets\<close>: the line goes to \<open>buf\<close>. The result has the memory, what is left of the arrivals and the terminal.
\<close>

fun gets_loop :: "hard_config \<Rightarrow> u32 \<Rightarrow> tty_oracle \<Rightarrow> u32 \<Rightarrow> u32 \<Rightarrow> u32 list list \<Rightarrow> u32 \<Rightarrow> mem \<Rightarrow> tty
    \<Rightarrow> (tty_exit + mem \<times> u32 list list \<times> tty) option" where
  "gets_loop cf gpid full buf bufsize arr index m T =
     (if \<not> index < bufsize - 1 then Some (Inr (m(buf + index := 0), arr, T))
      else (case arr of
        [] \<Rightarrow> None
      | vs # arr \<Rightarrow>
          (case tty_poll cf gpid vs T of (ret, byte, T) \<Rightarrow>
             if ret <s 0 then Some (Inl Gets_error)
             else (case byte of
               None \<Rightarrow> gets_loop cf gpid full buf bufsize arr index m T
             | Some c \<Rightarrow>
                 if c = 0x0A then Some (Inr (m(buf + index := 0), arr, T))
                 else if c = 0x7F \<or> c = 0x08 then
                   if index > 0 then
                     (let (ok, T) = echo cf gpid full string_cancel T
                      in if ok then gets_loop cf gpid full buf bufsize arr (index - 1) m T else Some (Inl Gets_error))
                   else gets_loop cf gpid full buf bufsize arr index m T
                 else if c < 0x20 \<or> c > 0x7F then gets_loop cf gpid full buf bufsize arr index m T
                 else
                   (let m = m(buf + index := c); (ok, T) = echo cf gpid full [c] T
                    in if ok then gets_loop cf gpid full buf bufsize arr (index + 1) m T else Some (Inl Gets_error))))))"

definition giet_tty_gets :: "hard_config \<Rightarrow> u32 \<Rightarrow> tty_oracle \<Rightarrow> u32 \<Rightarrow> u32 \<Rightarrow> u32 list list \<Rightarrow> mem \<Rightarrow> tty
    \<Rightarrow> (tty_exit + mem \<times> u32 list list \<times> tty) option" where
  "giet_tty_gets cf gpid full buf bufsize arr m T = gets_loop cf gpid full buf bufsize arr 0 m T"

text \<open>
  \<open>giet_tty_getw\<close>: the characters go to a local buffer of 32. The loop returns whether it is full,
  the buffer and its length.
\<close>

fun getw_loop :: "hard_config \<Rightarrow> u32 \<Rightarrow> tty_oracle \<Rightarrow> u32 list list \<Rightarrow> u8 list \<Rightarrow> nat \<Rightarrow> tty
    \<Rightarrow> (tty_exit + (bool \<times> u8 list \<times> nat) \<times> u32 list list \<times> tty) option" where
  "getw_loop cf gpid full [] buf len T = None"
| "getw_loop cf gpid full (vs # arr) buf len T =
     (case tty_poll cf gpid vs T of (ret, byte, T) \<Rightarrow>
        if ret <s 0 then Some (Inl Getw_error)
        else (case byte of
          None \<Rightarrow> getw_loop cf gpid full arr buf len T
        | Some c \<Rightarrow>
            if c > 0x2F \<and> c < 0x3A then
              (let buf = buf[len := c]; (ok, T) = echo cf gpid full [c] T
               in if \<not> ok then Some (Inl Getw_error)
                  else if len + 1 \<ge> 32 then Some (Inr ((True, buf, len + 1), arr, T))
                  else getw_loop cf gpid full arr buf (len + 1) T)
            else if c = 0x0A then Some (Inr ((False, buf, len), arr, T))
            else if c = 0x7F \<or> c = 0x08 then
              if len > 0 then
                (let (ok, T) = echo cf gpid full string_cancel T
                 in if ok then getw_loop cf gpid full arr buf (len - 1) T else Some (Inl Getw_error))
              else getw_loop cf gpid full arr buf len T
            else getw_loop cf gpid full arr buf len T))"

text \<open>The conversion and its test of overflow; \<open>None\<close> is an overflow.\<close>

fun getw_convert :: "u8 list \<Rightarrow> u32 \<Rightarrow> u32 \<Rightarrow> u32 option" where
  "getw_convert [] dec save = Some dec"
| "getw_convert (c # cs) dec save =
     (let dec = dec * 10 + (ucast c - 0x30) in if dec < save then None else getw_convert cs dec dec)"

fun cancel_all :: "hard_config \<Rightarrow> u32 \<Rightarrow> tty_oracle \<Rightarrow> nat \<Rightarrow> tty \<Rightarrow> bool \<times> tty" where
  "cancel_all cf gpid full 0 T = (True, T)"
| "cancel_all cf gpid full (Suc k) T =
     (let (ok, T) = echo cf gpid full string_cancel T in if ok then cancel_all cf gpid full k T else (False, T))"

definition giet_tty_getw :: "hard_config \<Rightarrow> u32 \<Rightarrow> tty_oracle \<Rightarrow> u32 list list \<Rightarrow> tty \<Rightarrow> (tty_exit + u32 \<times> u32 list list \<times> tty) option" where
  "giet_tty_getw cf gpid full arr T =
     (case getw_loop cf gpid full arr (replicate 32 0) 0 T of
        None \<Rightarrow> None
      | Some (Inl e) \<Rightarrow> Some (Inl e)
      | Some (Inr ((overflow, buf, len), arr, T)) \<Rightarrow>
          (case if overflow then None else getw_convert (take len buf) 0 0 of
             Some dec \<Rightarrow> Some (Inr (dec, arr, T))
           | None \<Rightarrow>
               (let (ok, T) = cancel_all cf gpid full len T
                in if \<not> ok then Some (Inl Getw_error)
                   else (let (ok, T) = echo cf gpid full [0x30] T
                         in if ok then Some (Inr (0, arr, T)) else Some (Inl Getw_error)))))"

end
