(* ===== verification/Tty_Text.thy ===== *)
theory Tty_Text
  imports User_Tty
begin

text \<open>
  What the terminal functions write, on a terminal that accepts every character: the text of a number
  in a base, the text of a format, and what a sequence of characters leaves on the line of the screen.
\<close>

section \<open>Output\<close>

definition never_full :: "tty_oracle \<Rightarrow> bool" where
  "never_full full \<longleftrightarrow> (\<forall>ch k. \<not> full ch k)"

definition crlf :: "u8 list \<Rightarrow> u8 list" where
  "crlf cs = concat (map (\<lambda>c. if c = 10 then [13, 10] else [c]) cs)"

lemma crlf_simps [simp]:
  "crlf [] = []" "crlf (c # cs) = (if c = 10 then [13, 10] else [c]) @ crlf cs" "crlf (cs @ ds) = crlf cs @ crlf ds"
  by (simp_all add: crlf_def)

definition shown :: "nat \<Rightarrow> u8 list \<Rightarrow> tty \<Rightarrow> tty" where
  "shown ch cs T = T\<lparr>tty_out := (tty_out T)(ch := tty_out T ch @ crlf cs), status_reads := status_reads T + length cs\<rparr>"

lemma shown_simps [simp]:
  "shown ch [] T = T" "shown ch ds (shown ch cs T) = shown ch (cs @ ds) T"
  "tty_kernel (shown ch cs T) = tty_kernel T" "tty_rx_buf (shown ch cs T) = tty_rx_buf T"
  "tty_out (shown ch cs T) = (tty_out T)(ch := tty_out T ch @ crlf cs)"
  by (simp_all add: shown_def)

lemma shown_Cons: "put_char ch c (T\<lparr>status_reads := Suc (status_reads T)\<rparr>) = shown ch [c] T"
  by (simp add: put_char_def tty_put_def shown_def)

lemma tty_write_loop_shown:
  assumes "never_full full"
  shows "tty_write_loop full ch cs k T = (k + word_of_nat (length cs), shown ch cs T)"
  using assms by (induction cs arbitrary: k T) (simp_all add: tty_full_def never_full_def shown_Cons)

lemma tty0_write_shown:
  assumes "never_full full"
  shows "tty0_write full cs T = (0, shown 0 cs T)"
  using assms by (induction cs arbitrary: T) (simp_all add: tty_full_def never_full_def shown_Cons)

text \<open>The task that is current on the processor has the terminal \<open>ch\<close>.\<close>

definition has_tty :: "hard_config \<Rightarrow> u32 \<Rightarrow> nat \<Rightarrow> tty \<Rightarrow> bool" where
  "has_tty cf gpid ch T \<longleftrightarrow> get_context_slot cf gpid CTX_TTY_ID (tty_kernel T) < cNB_TTY_CHANNELS cf \<and>
     ch = unat (get_context_slot cf gpid CTX_TTY_ID (tty_kernel T))"

lemma has_tty_shown [simp]: "has_tty cf gpid ch (shown c cs T) = has_tty cf gpid ch T"
  by (simp add: has_tty_def)

lemma sys_tty_write_shown:
  assumes "never_full full" "has_tty cf gpid ch T"
  shows "sys_tty_write cf gpid full cs 0xFFFFFFFF T = (word_of_nat (length cs), shown ch cs T)"
  using assms(2) by (auto simp: sys_tty_write_def tty_channel_of_def has_tty_def Let_def tty_write_loop_shown [OF assms(1)])

lemma user_piece_shown:
  "never_full full \<Longrightarrow> has_tty cf gpid ch T \<Longrightarrow> user_piece cf gpid full 0xFFFFFFFF T p = (True, shown ch p T)"
  by (simp add: user_piece_def sys_tty_write_shown)

lemma write_pieces_shown:
  assumes "\<And>T p. P T \<Longrightarrow> wr T p = (True, shown ch p T)" "\<And>T p. P T \<Longrightarrow> P (shown ch p T)" "P T"
  shows "write_pieces wr ps T = (True, shown ch (concat ps) T)"
  using assms(3) by (induction ps arbitrary: T) (simp_all add: assms(1,2))

section \<open>Numbers\<close>

definition digit_code :: "nat \<Rightarrow> u8" where
  "digit_code d = hexa_tab ! d"

fun base_text :: "nat \<Rightarrow> nat \<Rightarrow> u8 list" where
  "base_text b n = (if n < b \<or> b < 2 then [digit_code n] else base_text b (n div b) @ [digit_code (n mod b)])"

declare base_text.simps [simp del]

lemma digit_loop_text:
  assumes "unat base = b" "2 \<le> b" "unat v < b ^ Suc n"
  shows "digit_loop base (Suc n) v acc = Some (base_text b (unat v) @ acc)"
  using assms(3)
proof (induction n arbitrary: v acc)
  case 0
  then have "v div base = 0" "v mod base = v"
    using assms by (simp_all add: word_arith_nat_div word_arith_nat_mod)
  then show ?case using 0 assms by (simp add: base_text.simps hexa_def digit_code_def)
next
  case (Suc n)
  have m: "hexa (v mod base) = digit_code (unat v mod b)"
    by (simp add: hexa_def digit_code_def unat_mod assms(1))
  show ?case
  proof (cases "v div base = 0")
    case True
    then have "unat v div b = 0" using assms(1) by (metis unat_0 unat_div)
    then have "unat v < b" using assms(2) by (simp add: div_eq_0_iff)
    then show ?thesis using True m assms(2) by (simp add: base_text.simps)
  next
    case False
    then have "unat v div b \<noteq> 0" using assms(1) by (metis unat_div unat_eq_zero)
    then have ge: "\<not> unat v < b" by auto
    have "unat (v div base) < b ^ Suc n"
      using Suc.prems assms(1,2) by (simp add: unat_div less_mult_imp_div_less mult.commute)
    from Suc.IH [OF this] show ?thesis
      using False m ge assms(1,2) by (simp add: unat_div base_text.simps [of b "unat v"])
  qed
qed

lemma digit_loops:
  "digit_loop 10 10 (v :: u32) [] = Some (base_text 10 (unat v))"
  "unat w < 2 ^ 32 \<Longrightarrow> digit_loop 16 8 (w :: u64) [] = Some (base_text 16 (unat w))"
  "digit_loop 16 16 (w :: u64) [] = Some (base_text 16 (unat w))"
  "digit_loop 16 8 (v :: u32) [] = Some (base_text 16 (unat v))"
proof -
  show "digit_loop 10 10 v [] = Some (base_text 10 (unat v))"
    using digit_loop_text [of 10 10 v 9 "[]"] less_trans [OF unat_u32_bound [of v], of "10 ^ 10"] by simp
  show "digit_loop 16 8 w [] = Some (base_text 16 (unat w))" if "unat w < 2 ^ 32"
    using digit_loop_text [of 16 16 w 7 "[]"] that by simp
  show "digit_loop 16 16 w [] = Some (base_text 16 (unat w))"
    using digit_loop_text [of 16 16 w 15 "[]"] unsigned_less [of w] by simp
  show "digit_loop 16 8 v [] = Some (base_text 16 (unat v))"
    using digit_loop_text [of 16 16 v 7 "[]"] unat_u32_bound [of v] by simp
qed

text \<open>The digits of a number, and that their text is the one of the number.\<close>

fun digits :: "nat \<Rightarrow> nat list" where
  "digits n = (if n < 10 then [n] else digits (n div 10) @ [n mod 10])"

declare digits.simps [simp del]

lemma digits_less: "\<forall>d\<in>set (digits n). d < 10"
  by (induction n rule: digits.induct) (subst digits.simps, auto)

lemma digits_value_digits: "digits_value (digits n) = n"
  by (induction n rule: digits.induct) (subst digits.simps, auto simp: digits_value_def)

lemma decimal_char_of: "d < 10 \<Longrightarrow> digit_code d = word_of_nat (d + 48)"
proof -
  assume "d < 10"
  then have "d \<in> {0, 1, 2, 3, 4, 5, 6, 7, 8, 9}" by auto
  then show ?thesis by (auto simp: digit_code_def hexa_tab_def)
qed

lemma decimal_text: "base_text 10 n = map (\<lambda>d. word_of_nat (d + 48)) (digits n)"
  by (induction n rule: digits.induct)
    (subst base_text.simps, subst digits.simps, simp add: decimal_char_of)

end
