(* ===== verification/Tty_Format.thy ===== *)
theory Tty_Format
  imports Tty_Text
begin

text \<open>
  Formats as lists of items: an item has a syntax for the user library and one for the kernel, an argument,
  and the text it stands for. Both printing functions write the texts of the items, one after the other. The conversions
  of both are all here; the modifier \<open>l\<close>, which changes nothing for \<open>%d\<close>, \<open>%u\<close> and \<open>%x\<close>, and the ignored widths are not.
\<close>

section \<open>Items\<close>

text \<open>\<open>Upper_hex\<close> is \<open>%X\<close>, \<open>Long_hex\<close> is \<open>%llx\<close> for the user library and \<open>%l\<close> for the kernel, \<open>Long_uns\<close> is \<open>%llu\<close>;
  \<open>Double\<close> has the letter of its conversion.\<close>

datatype item =
    Lit "u8 list"
  | Percent
  | Chr u32
  | Dec u32
  | Uns u32
  | Hex u32
  | Upper_hex u32
  | Long_hex u64
  | Long_uns u64
  | Double u8 u64
  | Str "u8 list"

definition signed_text :: "int \<Rightarrow> u8 list" where
  "signed_text i = (if i < 0 then [45] else []) @ base_text 10 (nat \<bar>i\<bar>)"

text \<open>A floating-point number: \<open>NaN\<close>, its sign and \<open>inf\<close>, or its sign and what \<open>pd\<close> gives.\<close>

definition double_text :: "(u64 \<Rightarrow> u8 list) \<Rightarrow> u64 \<Rightarrow> u8 list" where
  "double_text pd bits =
     (let sign = (if bit bits 63 then 45 else 43); fraction = unat bits mod 2 ^ 52; expo = unat bits div 2 ^ 52 mod 2 ^ 11
      in if expo = 2047 then (if fraction = 0 then [sign, 105, 110, 102] else [78, 97, 78]) else sign # pd bits)"

fun item_text :: "(u64 \<Rightarrow> u8 list) \<Rightarrow> item \<Rightarrow> u8 list" where
  "item_text pd (Lit cs) = cs"
| "item_text pd Percent = [37]"
| "item_text pd (Chr v) = [ucast v]"
| "item_text pd (Dec v) = signed_text (sint v)"
| "item_text pd (Uns v) = base_text 10 (unat v)"
| "item_text pd (Hex v) = [48, 120] @ base_text 16 (unat v)"
| "item_text pd (Upper_hex v) = [48, 120] @ base_text 16 (unat v)"
| "item_text pd (Long_hex v) = [48, 120] @ base_text 16 (unat v)"
| "item_text pd (Long_uns v) = (if unat v < 2 ^ 32 then base_text 10 (unat v) else [48, 120] @ base_text 16 (unat v))"
| "item_text pd (Double c v) = double_text pd v"
| "item_text pd (Str s) = c_string s"

text \<open>The kernel writes \<open>%X\<close> on eight digits.\<close>

definition padded :: "nat \<Rightarrow> u8 list \<Rightarrow> u8 list" where
  "padded n cs = replicate (n - length cs) 48 @ cs"

fun kernel_item_text :: "item \<Rightarrow> u8 list" where
  "kernel_item_text (Upper_hex v) = [48, 120] @ padded 8 (base_text 16 (unat v))"
| "kernel_item_text it = item_text (\<lambda>_. []) it"

fun item_args :: "item \<Rightarrow> va_arg list" where
  "item_args (Chr v) = [Va_int v]"
| "item_args (Dec v) = [Va_int v]"
| "item_args (Uns v) = [Va_int v]"
| "item_args (Hex v) = [Va_int v]"
| "item_args (Upper_hex v) = [Va_int v]"
| "item_args (Long_hex v) = [Va_long v]"
| "item_args (Long_uns v) = [Va_long v]"
| "item_args (Double c v) = [Va_double v]"
| "item_args (Str s) = [Va_str s]"
| "item_args _ = []"

fun user_format :: "item \<Rightarrow> u8 list" where
  "user_format (Lit cs) = cs"
| "user_format Percent = [37, 37]"
| "user_format (Chr v) = [37, 99]"
| "user_format (Dec v) = [37, 100]"
| "user_format (Uns v) = [37, 117]"
| "user_format (Hex v) = [37, 120]"
| "user_format (Upper_hex v) = [37, 88]"
| "user_format (Long_hex v) = [37, 108, 108, 120]"
| "user_format (Long_uns v) = [37, 108, 108, 117]"
| "user_format (Double c v) = [37, c]"
| "user_format (Str s) = [37, 115]"

fun kernel_format :: "item \<Rightarrow> u8 list" where
  "kernel_format (Long_hex v) = [37, 108]"
| "kernel_format it = user_format it"

text \<open>No null character or conversion in the text; the least integer has no defined text.\<close>

fun item_ok :: "item \<Rightarrow> bool" where
  "item_ok (Lit cs) = (0 \<notin> set cs \<and> 37 \<notin> set cs)"
| "item_ok (Dec v) = (v \<noteq> 0x80000000)"
| "item_ok (Double c v) = (c = 101 \<or> c = 102 \<or> c = 103)"
| "item_ok it = True"

text \<open>The conversions that the kernel has.\<close>

fun in_kernel :: "item \<Rightarrow> bool" where
  "in_kernel Percent = False"
| "in_kernel (Long_uns v) = False"
| "in_kernel (Double c v) = False"
| "in_kernel it = True"

abbreviation format_of :: "(item \<Rightarrow> u8 list) \<Rightarrow> item list \<Rightarrow> u8 list" where
  "format_of f its \<equiv> concat (map f its)"

abbreviation args_of :: "item list \<Rightarrow> va_arg list" where
  "args_of its \<equiv> concat (map item_args its)"

lemma no_null: "\<forall>it\<in>set its. item_ok it \<Longrightarrow> 0 \<notin> set (format_of user_format its)"
proof (induction its)
  case (Cons it its)
  then show ?case by (cases it) auto
qed simp

section \<open>Padded numbers and floating-point numbers\<close>

lemma base_text_small: "n < 16 \<Longrightarrow> base_text 16 n = [digit_code n]"
  by (simp add: base_text.simps)

lemma digit_code_0: "digit_code 0 = 48"
  by (simp add: digit_code_def hexa_tab_def)

lemma hexa_nibble: "hexa ((v :: u32) AND 0xF) = digit_code (unat v mod 16)"
proof -
  have "v AND 0xF = take_bit 4 v" by (simp add: take_bit_eq_mask mask_eq_exp_minus_1)
  then have "unat (v AND 0xF) = unat v mod 16" by (simp add: take_bit_eq_mod unat_mod)
  then show ?thesis by (simp add: hexa_def digit_code_def)
qed

lemma fixed_loop_text:
  assumes "unat (v :: u32) < 16 ^ Suc n"
  shows "fixed_loop (Suc n) v acc = padded (Suc n) (base_text 16 (unat v)) @ acc"
  using assms
proof (induction n arbitrary: v acc)
  case 0
  then show ?case by (simp add: base_text_small padded_def hexa_nibble)
next
  case (Suc n)
  have d: "unat (drop_bit 4 v) = unat v div 16" by (simp add: drop_bit_eq_div unat_div)
  have "unat (drop_bit 4 v) < 16 ^ Suc n" using Suc.prems by (simp add: d less_mult_imp_div_less mult.commute)
  from Suc.IH [OF this] have r: "fixed_loop (Suc (Suc n)) v acc = padded (Suc n) (base_text 16 (unat v div 16)) @ digit_code (unat v mod 16) # acc"
    by (simp add: hexa_nibble d)
  show ?case
  proof (cases "unat v < 16")
    case True
    then have z: "unat v div 16 = 0" "unat v mod 16 = unat v" by simp_all
    show ?thesis unfolding r z using True
      by (simp add: base_text_small padded_def digit_code_0) (simp add: replicate_append_same [symmetric])
  next
    case False
    then show ?thesis unfolding r by (simp add: base_text.simps [of 16 "unat v"] padded_def)
  qed
qed

lemma double_pieces_text: "concat (double_pieces pd v) = double_text pd v"
proof -
  have f: "v AND 0xFFFFFFFFFFFFF \<noteq> 0 \<longleftrightarrow> unat v mod 2 ^ 52 \<noteq> 0"
  proof -
    have "v AND 0xFFFFFFFFFFFFF = take_bit 52 v" by (simp add: take_bit_eq_mask mask_eq_exp_minus_1)
    moreover have "unat (take_bit 52 v) = unat v mod 2 ^ 52" by (simp add: take_bit_eq_mod unat_mod)
    ultimately show ?thesis by (metis unat_eq_zero)
  qed
  have e: "drop_bit 52 (v AND 0x7FF0000000000000) = 0x7FF \<longleftrightarrow> unat v div 2 ^ 52 mod 2 ^ 11 = 2047"
  proof -
    have "drop_bit 52 (v AND 0x7FF0000000000000) = drop_bit 52 v AND drop_bit 52 0x7FF0000000000000" by (rule drop_bit_and)
    also have "\<dots> = drop_bit 52 v AND mask 11" by (simp add: mask_eq_exp_minus_1)
    also have "\<dots> = take_bit 11 (drop_bit 52 v)" by (simp add: take_bit_eq_mask)
    finally have "unat (drop_bit 52 (v AND 0x7FF0000000000000)) = unat v div 2 ^ 52 mod 2 ^ 11"
      by (simp add: take_bit_eq_mod drop_bit_eq_div unat_mod unat_div)
    then show ?thesis by (simp add: word_unat_eq_iff)
  qed
  have s: "v AND 0x8000000000000000 \<noteq> 0 \<longleftrightarrow> bit v 63"
  proof -
    have "v AND 2 ^ 63 = 0 \<longleftrightarrow> \<not> bit v 63" by (rule and_exp_eq_0_iff_not_bit)
    then show ?thesis by simp
  qed
  show ?thesis unfolding double_pieces_def double_text_def Let_def f e s by simp
qed

section \<open>Signed numbers\<close>

lemma sint_neg_u32: "(v :: u32) <s 0 \<longleftrightarrow> sint v < 0"
  by (simp add: word_sless_alt)

lemma unat_nonneg: "0 \<le> sint (v :: u32) \<Longrightarrow> unat v = nat (sint v)"
proof -
  assume "0 \<le> sint v"
  moreover have "sint v < 2 ^ 31" using sint_lt [of v] by simp
  ultimately have "uint v = sint v" by (simp add: uint_sint take_bit_int_eq_self)
  then show "unat v = nat (sint v)" by (metis nat_uint_eq)
qed

lemma signed_text_pos: "\<not> v <s 0 \<Longrightarrow> signed_text (sint v) = base_text 10 (unat (v :: u32))"
  by (simp add: signed_text_def sint_neg_u32 unat_nonneg)

lemma neg_opposite:
  assumes "(v :: u32) <s 0" "v \<noteq> 0x80000000"
  shows "\<not> - v <s 0" "nat \<bar>sint v\<bar> = unat (- v)"
proof -
  have v: "sint v < 0" using assms(1) by (simp add: sint_neg_u32)
  have lo: "- (2 ^ 31) \<le> sint v" using sint_ge [of v] by simp
  have "sint v \<noteq> - (2 ^ 31)"
  proof
    assume "sint v = - (2 ^ 31)"
    then have "word_of_int (sint v) = (word_of_int (- (2 ^ 31)) :: u32)" by (simp only:)
    then show False using assms(2) by simp
  qed
  then have r: "- (2 ^ 31) < sint v" using lo by simp
  have m: "sint (- v) = - sint v"
  proof -
    have "sint (- v) = signed_take_bit 31 (- sint v)" by (simp add: sint_word_ariths)
    also have "\<dots> = - sint v" using v r by (intro signed_take_bit_int_eq_self) simp_all
    finally show ?thesis .
  qed
  then show n: "\<not> - v <s 0" using v by (simp add: sint_neg_u32)
  show "nat \<bar>sint v\<bar> = unat (- v)" using v m unat_nonneg [of "- v"] by simp
qed

lemma signed_text_neg: "v <s 0 \<Longrightarrow> v \<noteq> 0x80000000 \<Longrightarrow> signed_text (sint v) = 45 # base_text 10 (unat (- v :: u32))"
  using neg_opposite(2) [of v] by (simp add: signed_text_def sint_neg_u32)

end
