(* ===== verification/Tty_Printf.thy ===== *)
theory Tty_Printf
  imports Tty_Format
begin

text \<open>The two printing functions write the text of their format, and a printed number is read back by \<open>atoi\<close>.\<close>

section \<open>The user library\<close>

lemma takeWhile_dropWhile_text:
  assumes "37 \<notin> set cs"
  shows "takeWhile (\<lambda>c. c \<noteq> 37) (cs @ fmt) = cs @ takeWhile (\<lambda>c. c \<noteq> (37 :: u8)) fmt"
    "dropWhile (\<lambda>c. c \<noteq> 37) (cs @ fmt) = dropWhile (\<lambda>c. c \<noteq> 37) fmt"
proof -
  have "\<forall>c\<in>set cs. c \<noteq> 37" using assms by blast
  then show "takeWhile (\<lambda>c. c \<noteq> 37) (cs @ fmt) = cs @ takeWhile (\<lambda>c. c \<noteq> (37 :: u8)) fmt"
    "dropWhile (\<lambda>c. c \<noteq> 37) (cs @ fmt) = dropWhile (\<lambda>c. c \<noteq> 37) fmt"
    by (simp_all add: takeWhile_append2 dropWhile_append2)
qed

lemma user_text:
  assumes nf: "never_full full" and "has_tty cf gpid ch T" "37 \<notin> set cs"
  shows "user_printf cf gpid full pd 0xFFFFFFFF None (cs @ fmt) args T =
    user_printf cf gpid full pd 0xFFFFFFFF None fmt args (shown ch cs T)"
proof -
  have w: "(if t = [] then (True, U) else user_piece cf gpid full 0xFFFFFFFF U t) = (True, shown ch t U)" if "has_tty cf gpid ch U" for t U
    using that by (simp add: user_piece_shown [OF nf])
  show ?thesis
    by (subst (1 2) user_printf.simps(1))
      (simp add: Let_def takeWhile_dropWhile_text [OF assms(3)] w assms(2) del: append_is_Nil_conv)
qed

lemma user_percent:
  "user_printf cf gpid full pd 0xFFFFFFFF None (37 # fmt) args T = user_printf cf gpid full pd 0xFFFFFFFF (Some NO_MOD) fmt args T"
  by (subst user_printf.simps(1)) simp

lemma user_convert:
  assumes nf: "never_full full" and "has_tty cf gpid ch T" "user_conversion pd m c args = Some (Inr (ps, args'))" "\<not> decimal_char c" "c \<noteq> 108" "c \<noteq> 46"
  shows "user_printf cf gpid full pd 0xFFFFFFFF (Some m) (c # fmt) args T =
    user_printf cf gpid full pd 0xFFFFFFFF None fmt args' (shown ch (concat ps) T)"
  by (subst user_printf.simps(2))
    (simp add: assms write_pieces_shown [of "has_tty cf gpid ch" _ ch, OF user_piece_shown [OF nf] _ assms(2)])

lemma user_long: 
  "user_printf cf gpid full pd 0xFFFFFFFF (Some NO_MOD) (108 # fmt) args T = user_printf cf gpid full pd 0xFFFFFFFF (Some L_MOD) fmt args T"
  "user_printf cf gpid full pd 0xFFFFFFFF (Some L_MOD) (108 # fmt) args T = user_printf cf gpid full pd 0xFFFFFFFF (Some LL_MOD) fmt args T"
  by (subst user_printf.simps(2), simp add: decimal_char_def)+

lemma high_word_zero: "(v :: u64) AND 0xFFFFFFFF00000000 = 0 \<longleftrightarrow> unat v < 2 ^ 32"
proof -
  have "(0xFFFFFFFF00000000 :: u64) = NOT (mask 32)" by code_simp
  then have "v AND 0xFFFFFFFF00000000 = v AND NOT (mask 32)" by (rule arg_cong)
  also have "\<dots> = push_bit 32 (drop_bit 32 v)" by (rule bit_eqI) (auto simp: bit_simps)
  finally have e: "v AND 0xFFFFFFFF00000000 = push_bit 32 (drop_bit 32 v)" .
  have d: "unat (drop_bit 32 v) = unat v div 2 ^ 32" by (simp add: drop_bit_eq_div unat_div)
  have "drop_bit 32 (push_bit 32 (drop_bit 32 v)) = drop_bit 32 v" by (rule bit_eqI) (auto simp: bit_simps dest: bit_imp_le_length)
  then have "push_bit 32 (drop_bit 32 v) = 0 \<longleftrightarrow> drop_bit 32 v = 0" by (metis drop_bit_of_0 push_bit_of_0)
  also have "\<dots> \<longleftrightarrow> unat v div 2 ^ 32 = 0" using d by (metis unat_eq_zero)
  also have "\<dots> \<longleftrightarrow> unat v < 2 ^ 32" by (simp add: div_eq_0_iff)
  finally show ?thesis unfolding e .
qed

lemma user_item:
  assumes nf: "never_full full" and "has_tty cf gpid ch T" "item_ok it"
  shows "user_printf cf gpid full pd 0xFFFFFFFF None (user_format it @ fmt) (item_args it @ args) T =
    user_printf cf gpid full pd 0xFFFFFFFF None fmt args (shown ch (item_text pd it) T)"
proof (cases it)
  case (Lit cs)
  then show ?thesis using user_text [OF assms(1,2)] assms(3) by simp
next
  case (Dec v)
  then show ?thesis
    using assms user_convert [OF nf assms(2), where c = 100 and m = NO_MOD] neg_opposite [of v]
    by (cases "v <s 0") (simp_all add: user_percent user_conversion_def decimal_char_def digit_loops signed_text_neg signed_text_pos)
next
  case (Hex v)
  have "unat (ucast v :: u64) = unat v" "unat (ucast v :: u64) < 2 ^ 32"
    by (simp_all add: unsigned_ucast_eq take_bit_nat_eq_self less_trans [OF unat_u32_bound])
  then show ?thesis
    using Hex user_convert [OF nf assms(2), where c = 120 and m = NO_MOD]
    by (simp add: user_percent user_conversion_def decimal_char_def digit_loops)
next
  case (Upper_hex v)
  have "unat (ucast v :: u64) = unat v" "unat (ucast v :: u64) < 2 ^ 32"
    by (simp_all add: unsigned_ucast_eq take_bit_nat_eq_self less_trans [OF unat_u32_bound])
  then show ?thesis
    using Upper_hex user_convert [OF nf assms(2), where c = 88 and m = NO_MOD]
    by (simp add: user_percent user_conversion_def decimal_char_def digit_loops)
next
  case (Long_hex v)
  then show ?thesis
    using user_convert [OF nf assms(2), where c = 120 and m = LL_MOD]
    by (simp add: user_percent user_long user_conversion_def decimal_char_def digit_loops)
next
  case (Long_uns v)
  have h: "v AND 0xFFFFFFFF00000000 = 0 \<longleftrightarrow> unat v < 2 ^ 32" by (rule high_word_zero)
  have "unat (ucast v :: u32) = unat v" if "unat v < 2 ^ 32"
    using that by (simp add: unsigned_ucast_eq take_bit_nat_eq_self)
  then show ?thesis
    using Long_uns h user_convert [OF nf assms(2), where c = 117 and m = LL_MOD]
    by (cases "unat v < 2 ^ 32") (simp_all add: user_percent user_long user_conversion_def decimal_char_def digit_loops)
next
  case (Double c v)
  then have c: "c = 101 \<or> c = 102 \<or> c = 103" using assms(3) by simp
  then have "user_conversion pd NO_MOD c (Va_double v # args) = Some (Inr (double_pieces pd v, args))" "\<not> decimal_char c" "c \<noteq> 108" "c \<noteq> 46"
    by (auto simp: user_conversion_def decimal_char_def)
  from user_convert [OF nf assms(2) this] show ?thesis
    using Double by (simp add: user_percent double_pieces_text)
qed (use user_convert [OF nf assms(2), where m = NO_MOD] in
  \<open>simp_all add: user_percent user_conversion_def decimal_char_def digit_loops\<close>)

lemma user_items:
  assumes nf: "never_full full" and "has_tty cf gpid ch T" "\<forall>it\<in>set its. item_ok it"
  shows "user_printf cf gpid full pd 0xFFFFFFFF None (format_of user_format its) (args_of its) T = Some (0, shown ch (concat (map (item_text pd) its)) T)"
  using assms
proof (induction its arbitrary: T)
  case Nil
  show ?case by (subst user_printf.simps(1)) simp
next
  case (Cons it its)
  then show ?case by (simp add: user_item)
qed

section \<open>The kernel\<close>

lemma tty0_piece_shown: "never_full full \<Longrightarrow> tty0_piece full T p = (True, shown 0 p T)"
  by (simp add: tty0_piece_def tty0_write_shown)

lemma kernel_text:
  assumes nf: "never_full full" and "37 \<notin> set cs"
  shows "kernel_printf full (cs @ fmt) args T = kernel_printf full fmt args (shown 0 cs T)"
proof (cases "cs = []")
  case False
  note s = kernel_printf.simps [of full]
  have "kernel_printf full (cs @ fmt) args T = (let T = shown 0 (cs @ takeWhile (\<lambda>c. c \<noteq> 37) fmt) T in
    case dropWhile (\<lambda>c. c \<noteq> 37) fmt of [] \<Rightarrow> Some (True, T) | [_] \<Rightarrow> Some (False, T)
    | _ # c # format \<Rightarrow>
       (case kernel_conversion c args of None \<Rightarrow> None | Some (Inl ()) \<Rightarrow> Some (False, T)
        | Some (Inr (pieces, args)) \<Rightarrow>
           (let (ok, T) = write_pieces (tty0_piece full) pieces T
            in if ok then kernel_printf full format args T else Some (False, T))))"
    by (subst s) (simp add: Let_def takeWhile_dropWhile_text [OF assms(2)] tty0_piece_shown [OF nf] False)
  moreover have "\<dots> = kernel_printf full fmt args (shown 0 cs T)"
    by (cases "takeWhile (\<lambda>c. c \<noteq> 37) fmt = []"; subst (2) s; simp add: Let_def tty0_piece_shown [OF nf])
  ultimately show ?thesis by simp
qed simp

lemma kernel_convert:
  assumes nf: "never_full full" and "kernel_conversion c args = Some (Inr (ps, args'))"
  shows "kernel_printf full (37 # c # fmt) args T = kernel_printf full fmt args' (shown 0 (concat ps) T)"
  by (subst kernel_printf.simps)
    (simp add: assms(2) write_pieces_shown [of "\<lambda>_. True" _ 0, OF tty0_piece_shown [OF nf]])

lemma kernel_item:
  assumes nf: "never_full full" and "item_ok it" "in_kernel it"
  shows "kernel_printf full (kernel_format it @ fmt) (item_args it @ args) T = kernel_printf full fmt args (shown 0 (kernel_item_text it) T)"
proof (cases it)
  case (Lit cs)
  then show ?thesis using kernel_text [OF nf] assms(2) by simp
next
  case (Dec v)
  then show ?thesis
    using assms(2) kernel_convert [OF nf, where c = 100] neg_opposite [of v]
    by (cases "v <s 0") (simp_all add: kernel_conversion_def digit_loops signed_text_neg signed_text_pos)
next
  case (Upper_hex v)
  have "fixed_loop 8 v [] = padded 8 (base_text 16 (unat v))"
    using fixed_loop_text [of v 7 "[]"] unat_u32_bound [of v] by simp
  then show ?thesis using Upper_hex kernel_convert [OF nf, where c = 88] by (simp add: kernel_conversion_def)
qed (use assms(3) kernel_convert [OF nf] in \<open>simp_all add: kernel_conversion_def digit_loops\<close>)

lemma kernel_items:
  assumes "never_full full" "\<forall>it\<in>set its. item_ok it \<and> in_kernel it"
  shows "kernel_printf full (format_of kernel_format its) (args_of its) T = Some (True, shown 0 (concat (map kernel_item_text its)) T)"
  using assms(2)
proof (induction its arbitrary: T)
  case Nil
  show ?case by (subst kernel_printf.simps) simp
next
  case (Cons it its)
  then show ?case by (simp add: kernel_item [OF assms(1)])
qed

section \<open>Reading a printed number\<close>

lemma crlf_digits: "crlf (base_text 10 n) = base_text 10 n"
proof -
  have "crlf (map (\<lambda>d. word_of_nat (d + 48)) ds) = map (\<lambda>d. word_of_nat (d + 48)) ds" if "\<forall>d\<in>set ds. d < 10" for ds
    using that
  proof (induction ds)
    case (Cons d ds)
    then have "d \<in> {0, 1, 2, 3, 4, 5, 6, 7, 8, 9}" by auto
    then show ?case using Cons by auto
  qed simp
  then show ?thesis using digits_less by (simp add: decimal_text)
qed

lemma digits_length_u32: "n < 2 ^ 32 \<Longrightarrow> length (digits n) \<le> 10"
proof -
  have "n < 10 ^ Suc k \<Longrightarrow> length (digits n) \<le> Suc k" for k
  proof (induction k arbitrary: n)
    case (Suc k)
    have "length (digits (n div 10)) \<le> Suc k" if "\<not> n < 10" by (rule Suc.IH) (use Suc.prems in simp)
    then show ?case by (subst digits.simps) auto
  qed (subst digits.simps, simp)
  from this [of 9] show "n < 2 ^ 32 \<Longrightarrow> length (digits n) \<le> 10" by simp
qed

lemma atoi_text:
  assumes "cstr m str (base_text 10 n)" "n < 2 ^ 32"
  shows "atoi m str = (if n + 48 < 2 ^ 31 then Some (int n) else None)"
  using atoi_digits [OF assms(1) [unfolded decimal_text] digits_less] digits_length_u32 [OF assms(2)]
  by (simp add: digits_value_digits)

lemma int_below: "int n + 48 < 2 ^ 31 \<longleftrightarrow> n + 48 < 2 ^ 31"
  by simp

lemma atoi_signed_text:
  assumes "cstr m str (signed_text (sint (v :: u32)))"
  shows "atoi m str = (if \<bar>sint v\<bar> + 48 < 2 ^ 31 then Some (sint v) else None)"
proof -
  have b: "nat \<bar>sint v\<bar> < 2 ^ 32" using sint_ge [of v] sint_lt [of v] by simp
  have e: "nat \<bar>sint v\<bar> + 48 < 2 ^ 31 \<longleftrightarrow> \<bar>sint v\<bar> + 48 < 2 ^ 31" using int_below [of "nat \<bar>sint v\<bar>"] by simp
  show ?thesis
  proof (cases "sint v < 0")
    case False
    then show ?thesis using assms atoi_text [OF _ b, of m str] e by (simp add: signed_text_def)
  next
    case True
    then have "cstr m str (45 # map (\<lambda>d. word_of_nat (d + 48)) (digits (nat \<bar>sint v\<bar>)))"
      using assms by (simp add: signed_text_def decimal_text)
    from atoi_minus_digits [OF this digits_less] digits_length_u32 [OF b] True e
    show ?thesis by (simp add: digits_value_digits)
  qed
qed

section \<open>Properties\<close>

text \<open>C27: On a terminal that accepts every character, \<open>giet_tty_printf\<close> and the printing of the kernel write the text of
  their format and succeed, and change nothing else: the plain text as it is, with a carriage return before every line feed, and
  for the conversions \<open>%c\<close>, \<open>%d\<close>, \<open>%u\<close>, \<open>%x\<close>, \<open>%X\<close>, \<open>%s\<close> and 64-bit hexadecimal (\<open>%llx\<close>, or \<open>%l\<close> in the kernel) the character, the number
  in its base with its sign or prefix, or the string up to its null character; \<open>%X\<close> has eight digits in the kernel, and as many as
  needed in the user library. The user library also has \<open>%%\<close>, \<open>%llu\<close>, in base 10 only when it fits in 32 bits, and \<open>%e\<close>, \<open>%f\<close>,
  \<open>%g\<close>, of which the special values and the sign are given here and the digits by \<open>pd\<close>. The least integer has no defined
  text.\<close>

theorem printf_writes_text:
  assumes "never_full full" "has_tty cf gpid ch T" "\<forall>it\<in>set its. item_ok it"
  shows "giet_tty_printf cf gpid full pd (format_of user_format its) (args_of its) T =
      Some (Inr (shown ch (concat (map (item_text pd) its)) T)) \<and>
    ((\<forall>it\<in>set its. in_kernel it) \<longrightarrow>
      kernel_printf full (format_of kernel_format its) (args_of its) T = Some (True, shown 0 (concat (map kernel_item_text its)) T))"
proof -
  have "c_string (format_of user_format its) = format_of user_format its"
    using no_null [OF assms(3)] unfolding c_string_def by (intro takeWhile_eq_all_conv [THEN iffD2]) blast
  then show ?thesis
    using kernel_items [OF assms(1), of its T] assms(3) by (auto simp: giet_tty_printf_def user_items [OF assms])
qed

text \<open>C28: The number that \<open>%d\<close> or \<open>%u\<close> prints is read back by \<open>atoi\<close> from a string that has the text of the terminal, when its
  absolute value is below \<open>2 ^ 31 - 48\<close>. For the others, the last of which are still \<open>int\<close>, the call is undefined: the sum with
  the last character overflows before the code of the character 0 is subtracted. The least integer has no text.\<close>

theorem printed_number_read_back:
  assumes "never_full full" "has_tty cf gpid ch T"
  shows "(\<exists>text T'. giet_tty_printf cf gpid full pd [37, 117] [Va_int v] T = Some (Inr T') \<and>
      tty_out T' ch = tty_out T ch @ text \<and>
      (\<forall>m str. cstr m str text \<longrightarrow> atoi m str = (if uint v + 48 < 2 ^ 31 then Some (uint v) else None))) \<and>
    (v \<noteq> 0x80000000 \<longrightarrow> (\<exists>text T'. giet_tty_printf cf gpid full pd [37, 100] [Va_int v] T = Some (Inr T') \<and>
      tty_out T' ch = tty_out T ch @ text \<and>
      (\<forall>m str. cstr m str text \<longrightarrow> atoi m str = (if \<bar>sint v\<bar> + 48 < 2 ^ 31 then Some (sint v) else None))))"
proof -
  have p: "giet_tty_printf cf gpid full pd (user_format it) (item_args it) T = Some (Inr (shown ch (item_text pd it) T))"
    if "it \<in> {Uns v, Dec v}" "item_ok it" for it
    using user_items [OF assms, of "[it]" pd] no_null [of "[it]"] that
    by (auto simp: giet_tty_printf_def c_string_def)
  have s: "crlf (signed_text (sint v)) = signed_text (sint v)" by (simp add: signed_text_def crlf_digits)
  have u: "unat v < 2 ^ 32" "int (unat v) = uint v" using unat_u32_bound [of v] by simp_all
  have b: "unat v + 48 < 2 ^ 31 \<longleftrightarrow> uint v + 48 < 2 ^ 31" unfolding u(2) [symmetric] by (rule int_below [symmetric])
  have "\<exists>text T'. giet_tty_printf cf gpid full pd [37, 117] [Va_int v] T = Some (Inr T') \<and>
      tty_out T' ch = tty_out T ch @ text \<and>
      (\<forall>m str. cstr m str text \<longrightarrow> atoi m str = (if uint v + 48 < 2 ^ 31 then Some (uint v) else None))"
    using p [of "Uns v"] atoi_text [OF _ u(1)] unfolding u(2) b by (simp add: crlf_digits)
  moreover have "\<exists>text T'. giet_tty_printf cf gpid full pd [37, 100] [Va_int v] T = Some (Inr T') \<and>
      tty_out T' ch = tty_out T ch @ text \<and>
      (\<forall>m str. cstr m str text \<longrightarrow> atoi m str = (if \<bar>sint v\<bar> + 48 < 2 ^ 31 then Some (sint v) else None))" if "v \<noteq> 0x80000000"
    using p [of "Dec v"] that atoi_signed_text [of _ _ v] by (simp add: s)
  ultimately show ?thesis by blast
qed

end
