(* ===== verification/Tty_Lines.thy ===== *)
theory Tty_Lines
  imports Tty_Printf
begin

text \<open>
  The reading of a line and of a number: what the keys typed up to the line feed stand for, and the
  screen, which shows the same line. The terminal is taken as accepting every character, and the keys as coming one at
  a time, each read before the next one.
\<close>

section \<open>Keys and screen\<close>

text \<open>\<open>types arr ks\<close>: the interrupts of \<open>arr\<close> deliver the keys \<open>ks\<close> and then the line feed.\<close>

fun types :: "u32 list list \<Rightarrow> u8 list \<Rightarrow> bool" where
  "types [] ks = False"
| "types ([] # arr) ks = types arr ks"
| "types ([v] # arr) [] = (ucast v = (10 :: u8) \<and> arr = [])"
| "types ([v] # arr) (k # ks) = (ucast v = k \<and> k \<noteq> 10 \<and> types arr ks)"
| "types (_ # arr) ks = False"

text \<open>The characters left of the cursor, the last one first, and those right of it.\<close>

fun screen_char :: "u8 list \<times> u8 list \<Rightarrow> u8 \<Rightarrow> u8 list \<times> u8 list" where
  "screen_char (l, r) c = (if c = 8 then (case l of [] \<Rightarrow> (l, r) | x # l \<Rightarrow> (l, x # r)) else (c # l, tl r))"

definition screen :: "u8 list \<times> u8 list \<Rightarrow> u8 list \<Rightarrow> u8 list \<times> u8 list" where
  "screen = foldl screen_char"

lemma screen_append [simp]: "screen lr (cs @ ds) = screen (screen lr cs) ds" "screen lr [] = lr"
  by (simp_all add: screen_def)

text \<open>The screen shows \<open>line\<close> after \<open>before\<close>, with only spaces right of it.\<close>

definition shows_line :: "u8 list \<Rightarrow> u8 list \<times> u8 list \<Rightarrow> u8 list \<Rightarrow> bool" where
  "shows_line before lr line \<longleftrightarrow> fst lr = rev line @ before \<and> set (snd lr) \<subseteq> {32}"

lemma shows_line_char:
  assumes "shows_line before lr line" "c \<noteq> 8"
  shows "shows_line before (screen lr [c]) (line @ [c])"
proof (cases lr)
  case (Pair l r)
  then show ?thesis using assms by (cases r) (auto simp: shows_line_def screen_def)
qed

lemma shows_line_cancel:
  assumes "shows_line before lr line" "line \<noteq> []"
  shows "shows_line before (screen lr string_cancel) (butlast line)"
proof (cases lr)
  case (Pair l r)
  then show ?thesis
    using assms by (cases line rule: rev_cases; cases r) (auto simp: shows_line_def screen_def string_cancel_def)
qed

section \<open>Calls on a ready terminal\<close>

definition tty_ready :: "hard_config \<Rightarrow> u32 \<Rightarrow> nat \<Rightarrow> tty \<Rightarrow> bool" where
  "tty_ready cf gpid ch T \<longleftrightarrow> has_tty cf gpid ch T \<and> tty_rx_full (tty_kernel T) ch = 0"

definition received :: "nat \<Rightarrow> u32 \<Rightarrow> tty \<Rightarrow> tty" where
  "received ch v T = T\<lparr>tty_rx_buf := (tty_rx_buf T)(ch := v)\<rparr>"

lemma received_simps [simp]: "tty_out (received ch v T) = tty_out T" "tty_kernel (received ch v T) = tty_kernel T"
  by (simp_all add: received_def)

lemma tty_ready_keeps [simp]:
  "tty_ready cf gpid ch (received ch v T) = tty_ready cf gpid ch T" "tty_ready cf gpid ch (shown c cs T) = tty_ready cf gpid ch T"
  by (simp_all add: tty_ready_def has_tty_def)

lemma kernel_idem: "f ch = 0 \<Longrightarrow> f(ch := 0) = f" for f :: "nat \<Rightarrow> u32"
  by auto

lemma tty_poll_ready:
  assumes "tty_ready cf gpid ch T"
  shows "tty_poll cf gpid [] T = (0, None, T)" "tty_poll cf gpid [v] T = (1, Some (ucast v), received ch v T)"
proof -
  let ?c = "get_context_slot cf gpid CTX_TTY_ID (tty_kernel T)"
  have c: "\<not> cNB_TTY_CHANNELS cf \<le> ?c" "unat ?c = ch" "tty_rx_full (tty_kernel T) ch = 0"
    using assms by (auto simp: tty_ready_def has_tty_def)
  have g: "get_context_slot cf gpid CTX_TTY_ID ((tty_kernel T)\<lparr>tty_rx_full := f\<rparr>) = ?c" for f
    by (simp add: get_context_slot_def get_sched_def)
  show "tty_poll cf gpid [] T = (0, None, T)" using c by (simp add: tty_poll_def sys_tty_read_def tty_channel_of_def)
  have k: "(tty_kernel T)\<lparr>tty_rx_full := (tty_rx_full (tty_kernel T))(ch := 0)\<rparr> = tty_kernel T"
    by (simp add: kernel_idem c(3))
  show "tty_poll cf gpid [v] T = (1, Some (ucast v), received ch v T)"
    using c(1,2) k by (simp add: tty_poll_def sys_tty_read_def tty_channel_of_def tty_rx_isr_def g received_def)
qed

lemma echo_ready:
  assumes "never_full full" "tty_ready cf gpid ch T" "length cs \<le> 3"
  shows "echo cf gpid full cs T = (True, shown ch cs T)"
proof -
  have "length cs = 0 \<or> length cs = 1 \<or> length cs = 2 \<or> length cs = 3" using assms(3) by linarith
  then have "\<not> (word_of_nat (length cs) :: u32) <s 0" by (auto simp: word_sless_alt)
  then show ?thesis using assms(2) by (simp add: echo_def sys_tty_write_shown [OF assms(1), of cf gpid ch] tty_ready_def)
qed

section \<open>Lines\<close>

text \<open>The effect of a key on the line that \<open>giet_tty_gets\<close> reads.\<close>

definition edit :: "u8 list \<Rightarrow> u8 \<Rightarrow> u8 list" where
  "edit line k = (if k = 0x7F \<or> k = 0x08 then butlast line else if k < 0x20 \<or> k > 0x7F then line else line @ [k])"

lemma one_not_negative: "\<not> (1 :: u32) <s 0"
  by (simp add: word_sless_alt)

lemma small_index:
  assumes "n < unat (w :: u32)"
  shows "word_of_nat n < w" "unat (word_of_nat n :: u32) = n"
proof -
  show e: "unat (word_of_nat n :: u32) = n" using less_trans [OF assms unat_u32_bound] by (intro unat_of_nat_small) simp
  then show "word_of_nat n < w" using assms by (simp add: word_less_nat_alt)
qed

lemma small_offset:
  assumes "i < unat (w :: u32)" "j < unat w"
  shows "((buf :: u32) + word_of_nat i = buf + word_of_nat j) = (i = j)"
proof -
  have "(word_of_nat i = (word_of_nat j :: u32)) = (i = j)"
    using small_index(2) [OF assms(1)] small_index(2) [OF assms(2)] by metis
  then show ?thesis by simp
qed

lemma small_index_simps:
  assumes "length line < unat (w :: u32)"
  shows "(word_of_nat (length line) > (0 :: u32)) = (line \<noteq> [])"
    "line \<noteq> [] \<Longrightarrow> word_of_nat (length line) - 1 = (word_of_nat (length (butlast line)) :: u32)"
proof -
  show "(word_of_nat (length line) > (0 :: u32)) = (line \<noteq> [])"
    using small_index(2) [OF assms] by (simp add: word_less_nat_alt)
  show "word_of_nat (length line) - 1 = (word_of_nat (length (butlast line)) :: u32)" if "line \<noteq> []"
    using that by (cases line rule: rev_cases) simp_all
qed

declare gets_loop.simps [simp del]

text \<open>One key: what \<open>gets_loop\<close> does with it.\<close>

lemma gets_loop_key:
  assumes nf: "never_full full" and r: "tty_ready cf gpid ch T" and b: "length line < unat (bufsize - 1)" and "ucast v = k" "k \<noteq> 10"
    and m: "\<forall>i<length line. m (buf + word_of_nat i) = line ! i" and sh: "shows_line before lr line"
  obtains m' new where "gets_loop cf gpid full buf bufsize ([v] # arr) (word_of_nat (length line)) m T =
      gets_loop cf gpid full buf bufsize arr (word_of_nat (length (edit line k))) m' (shown ch new (received ch v T))"
    "10 \<notin> set new" "\<forall>i<length (edit line k). m' (buf + word_of_nat i) = edit line k ! i"
    "\<forall>a. unat (bufsize - 1) \<le> unat (a - buf) \<longrightarrow> m' a = m a" "shows_line before (screen lr new) (edit line k)"
proof -
  note i = small_index [OF b] small_index_simps [OF b]
  have g: "gets_loop cf gpid full buf bufsize ([v] # arr) (word_of_nat (length line)) m T =
     (if k = 0x7F \<or> k = 0x08 then
        if line \<noteq> [] then gets_loop cf gpid full buf bufsize arr (word_of_nat (length (butlast line))) m (shown ch string_cancel (received ch v T))
        else gets_loop cf gpid full buf bufsize arr (word_of_nat (length line)) m (received ch v T)
      else if k < 0x20 \<or> k > 0x7F then gets_loop cf gpid full buf bufsize arr (word_of_nat (length line)) m (received ch v T)
      else gets_loop cf gpid full buf bufsize arr (word_of_nat (length line) + 1) (m(buf + word_of_nat (length line) := k))
        (shown ch [k] (received ch v T)))"
    using i assms(4,5) by (subst gets_loop.simps)
      (simp add: one_not_negative tty_poll_ready [OF r] echo_ready [OF nf, of cf gpid ch] r string_cancel_def)
  consider (cancel) "k = 0x7F \<or> k = 0x08" "line \<noteq> []" | (nothing) "(k = 0x7F \<or> k = 0x08) \<and> line = [] \<or> \<not> (k = 0x7F \<or> k = 0x08) \<and> (k < 0x20 \<or> k > 0x7F)"
    | (char) "\<not> (k = 0x7F \<or> k = 0x08)" "\<not> (k < 0x20 \<or> k > 0x7F)" by blast
  then show thesis
  proof cases
    case cancel
    then show thesis using g m shows_line_cancel [OF sh]
      by (intro that [of m string_cancel]) (auto simp: edit_def nth_butlast string_cancel_def)
  next
    case nothing
    then show thesis using g m sh by (intro that [of m "[]"]) (auto simp: edit_def)
  next
    case char
    have "buf + word_of_nat j \<noteq> buf + word_of_nat (length line)" if "j < length line" for j
      using small_offset [of j "bufsize - 1" "length line" buf] that b by simp
    moreover have "a \<noteq> buf + word_of_nat (length line)" if "unat (bufsize - 1) \<le> unat (a - buf)" for a
      using that b i(2) by auto
    ultimately show thesis using g char m shows_line_char [OF sh] assms(5)
      by (intro that [of "m(buf + word_of_nat (length line) := k)" "[k]"]) (auto simp: edit_def nth_append less_Suc_eq add.commute [of _ 1])
  qed
qed

lemma gets_loop_reads:
  assumes nf: "never_full full" and "tty_ready cf gpid ch T" "types arr ks"
    and "\<forall>i\<le>length ks. length (foldl edit line (take i ks)) < unat (bufsize - 1)"
    and "index = word_of_nat (length line)" "\<forall>i<length line. m (buf + word_of_nat i) = line ! i" "shows_line before lr line"
  shows "\<exists>m' T' new. gets_loop cf gpid full buf bufsize (arr @ rest) index m T = Some (Inr (m', rest, T')) \<and>
    (\<forall>i<length (foldl edit line ks). m' (buf + word_of_nat i) = foldl edit line ks ! i) \<and>
    m' (buf + word_of_nat (length (foldl edit line ks))) = 0 \<and>
    (\<forall>a. unat (bufsize - 1) \<le> unat (a - buf) \<longrightarrow> m' a = m a) \<and>
    tty_out T' ch = tty_out T ch @ new \<and> shows_line before (screen lr new) (foldl edit line ks)"
  using assms(2-)
proof (induction arr ks arbitrary: line index m T lr rule: types.induct)
  case (2 arr ks)
  have "length line < unat (bufsize - 1)" using "2.prems"(3) [rule_format, of 0] by simp
  from small_index(1) [OF this] have "gets_loop cf gpid full buf bufsize (([] # arr) @ rest) index m T = gets_loop cf gpid full buf bufsize (arr @ rest) index m T"
    using "2.prems"(4) by (subst gets_loop.simps) (simp add: tty_poll_ready(1) [OF "2.prems"(1)])
  then show ?case using "2.IH" [OF "2.prems"(1) _ "2.prems"(3-6)] "2.prems"(2) by simp
next
  case (3 v arr)
  have b: "length line < unat (bufsize - 1)" using "3.prems"(3) [rule_format, of 0] by simp
  have "gets_loop cf gpid full buf bufsize (([v] # arr) @ rest) index m T = Some (Inr (m(buf + index := 0), rest, received ch v T))"
    using "3.prems"(2,4) small_index(1) [OF b] by (subst gets_loop.simps) (simp add: one_not_negative tty_poll_ready(2) [OF "3.prems"(1)])
  moreover have "buf + word_of_nat j \<noteq> buf + word_of_nat (length line)" if "j < length line" for j
    using small_offset [of j "bufsize - 1" "length line" buf] that b by simp
  moreover have "a \<noteq> buf + word_of_nat (length line)" if "unat (bufsize - 1) \<le> unat (a - buf)" for a
    using that b small_index(2) [OF b] by auto
  ultimately show ?case
    using "3.prems"(4-6) by (intro exI [of _ "m(buf + index := 0)"] exI [of _ "received ch v T"] exI [of _ "[]"]) auto
next
  case (4 v arr k ks)
  have b: "length line < unat (bufsize - 1)" using "4.prems"(3) [rule_format, of 0] by simp
  have t: "ucast v = k" "k \<noteq> 10" "types arr ks" using "4.prems"(2) by simp_all
  obtain m' new where k: "gets_loop cf gpid full buf bufsize ([v] # arr @ rest) (word_of_nat (length line)) m T =
      gets_loop cf gpid full buf bufsize (arr @ rest) (word_of_nat (length (edit line k))) m' (shown ch new (received ch v T))"
    "10 \<notin> set new" "\<forall>i<length (edit line k). m' (buf + word_of_nat i) = edit line k ! i"
    "\<forall>a. unat (bufsize - 1) \<le> unat (a - buf) \<longrightarrow> m' a = m a" "shows_line before (screen lr new) (edit line k)"
    by (rule gets_loop_key [OF nf "4.prems"(1) b t(1,2) "4.prems"(5,6), where arr = "arr @ rest"])
  have "\<forall>i\<le>length ks. length (foldl edit (edit line k) (take i ks)) < unat (bufsize - 1)"
    using "4.prems"(3) by (metis foldl_Cons length_Cons not_less_eq_eq take_Suc_Cons)
  from "4.IH" [OF _ t(3) this refl k(3,5), of "shown ch new (received ch v T)"] "4.prems"(1)
  obtain m2 T2 new2 where ih: "gets_loop cf gpid full buf bufsize (arr @ rest) (word_of_nat (length (edit line k))) m' (shown ch new (received ch v T)) =
      Some (Inr (m2, rest, T2))" "\<forall>i<length (foldl edit line (k # ks)). m2 (buf + word_of_nat i) = foldl edit line (k # ks) ! i"
    "m2 (buf + word_of_nat (length (foldl edit line (k # ks)))) = 0" "\<forall>a. unat (bufsize - 1) \<le> unat (a - buf) \<longrightarrow> m2 a = m' a"
    "tty_out T2 ch = tty_out (shown ch new (received ch v T)) ch @ new2" "shows_line before (screen (screen lr new) new2) (foldl edit line (k # ks))"
    by (auto)
  have "crlf new = new" using k(2) by (induction new) auto
  then have "tty_out T2 ch = tty_out T ch @ new @ new2" using ih(5) by simp
  then show ?case using k(1,4) ih "4.prems"(4)
    by (intro exI [of _ m2] exI [of _ T2] exI [of _ "new @ new2"]) simp
qed simp_all

lemma edit_printable: "0 \<notin> set line \<Longrightarrow> 0 \<notin> set (foldl edit line ks)"
proof (induction ks arbitrary: line)
  case (Cons k ks)
  have "0 \<notin> set (butlast line)" using Cons.prems in_set_butlastD by metis
  then have "0 \<notin> set (edit line k)" using Cons.prems unfolding edit_def by (cases "k = 0") simp_all
  from Cons.IH [OF this] show ?case by simp
qed simp

lemma cstr_nth:
  "\<forall>i<length cs. m (p + word_of_nat i) = cs ! i \<Longrightarrow> 0 \<notin> set cs \<Longrightarrow> m (p + word_of_nat (length cs)) = 0 \<Longrightarrow> cstr m p cs"
proof (induction cs arbitrary: p)
  case (Cons c cs)
  have "\<forall>i<length cs. m (p + 1 + word_of_nat i) = cs ! i"
  proof (intro allI impI)
    fix i assume "i < length cs"
    then show "m (p + 1 + word_of_nat i) = cs ! i"
      using Cons.prems(1) [rule_format, of "Suc i"] by (simp add: add.assoc)
  qed
  moreover have "m p = c" using Cons.prems(1) [rule_format, of 0] by simp
  ultimately show ?case using Cons.IH [of "p + 1"] Cons.prems(2,3) by (simp add: add.assoc)
qed simp

section \<open>Numbers\<close>

text \<open>The effect of a key on the digits that \<open>giet_tty_getw\<close> reads.\<close>

definition edit_number :: "u8 list \<Rightarrow> u8 \<Rightarrow> u8 list" where
  "edit_number line k = (if decimal_char k then line @ [k] else if k = 0x7F \<or> k = 0x08 then butlast line else line)"

lemma decimal_char_range: "decimal_char k \<longleftrightarrow> k > 0x2F \<and> k < 0x3A"
proof -
  have e: "unat (0x2F :: u8) = 47" "unat (0x3A :: u8) = 58" "unat (48 :: u8) = 48" "unat (57 :: u8) = 57" by simp_all
  show ?thesis unfolding decimal_char_def word_le_nat_alt word_less_nat_alt e by (rule iffI) linarith+
qed

lemma getw_loop_key:
  assumes nf: "never_full full" and r: "tty_ready cf gpid ch T" and b: "length line < 32" "length (edit_number line k) < 32"
    and "ucast v = k" "k \<noteq> 10" and buf: "length buf = 32" "take (length line) buf = line" and sh: "shows_line before lr line"
  obtains buf' new where "getw_loop cf gpid full ([v] # arr) buf (length line) T =
      getw_loop cf gpid full arr buf' (length (edit_number line k)) (shown ch new (received ch v T))"
    "10 \<notin> set new" "length buf' = 32" "take (length (edit_number line k)) buf' = edit_number line k"
    "shows_line before (screen lr new) (edit_number line k)"
proof -
  have g: "getw_loop cf gpid full ([v] # arr) buf (length line) T =
     (if decimal_char k then
        getw_loop cf gpid full arr (buf[length line := k]) (length line + 1) (shown ch [k] (received ch v T))
      else if (k = 0x7F \<or> k = 0x08) \<and> line \<noteq> [] then
        getw_loop cf gpid full arr buf (length line - 1) (shown ch string_cancel (received ch v T))
      else getw_loop cf gpid full arr buf (length line) (received ch v T))"
    using b assms(5,6)
    by (cases "decimal_char k") (simp_all add: Let_def decimal_char_range [symmetric] edit_number_def one_not_negative tty_poll_ready [OF r]
        echo_ready [OF nf, of cf gpid ch] r string_cancel_def)
  consider (char) "decimal_char k" | (cancel) "\<not> decimal_char k" "k = 0x7F \<or> k = 0x08" "line \<noteq> []"
    | (nothing) "\<not> decimal_char k" "\<not> ((k = 0x7F \<or> k = 0x08) \<and> line \<noteq> [])" by blast
  then show thesis
  proof cases
    case char
    have "take (length line + 1) (buf[length line := k]) = line @ [k]"
      using buf b(1) by (simp add: take_Suc_conv_app_nth)
    moreover have "k \<noteq> 8" using char by (auto simp: decimal_char_def)
    ultimately show thesis using g char buf(1) assms(6) shows_line_char [OF sh, of k]
      by (intro that [of "buf[length line := k]" "[k]"]) (simp_all add: edit_number_def)
  next
    case cancel
    have "take (length line - 1) buf = butlast line"
      using butlast_take [of "length line" buf] buf b(1) by simp
    then show thesis using g cancel buf(1) shows_line_cancel [OF sh cancel(3)]
      by (intro that [of buf string_cancel]) (auto simp: edit_number_def string_cancel_def)
  next
    case nothing
    then show thesis using g buf sh by (intro that [of buf "[]"]) (auto simp: edit_number_def)
  qed
qed

lemma getw_loop_reads:
  assumes nf: "never_full full" and "tty_ready cf gpid ch T" "types arr ks"
    and "\<forall>i\<le>length ks. length (foldl edit_number line (take i ks)) < 32"
    and "length buf = 32" "take (length line) buf = line" "shows_line before lr line"
  shows "\<exists>buf' T' new. getw_loop cf gpid full (arr @ rest) buf (length line) T =
      Some (Inr ((False, buf', length (foldl edit_number line ks)), rest, T')) \<and>
    take (length (foldl edit_number line ks)) buf' = foldl edit_number line ks \<and> tty_ready cf gpid ch T' \<and>
    tty_out T' ch = tty_out T ch @ new \<and> shows_line before (screen lr new) (foldl edit_number line ks)"
  using assms(2-)
proof (induction arr ks arbitrary: line buf T lr rule: types.induct)
  case (2 arr ks)
  then show ?case by (simp add: tty_poll_ready(1))
next
  case (3 v arr)
  then have "getw_loop cf gpid full (([v] # arr) @ rest) buf (length line) T = Some (Inr ((False, buf, length line), rest, received ch v T))"
    by (simp add: one_not_negative tty_poll_ready(2))
  then show ?case using "3.prems" by (intro exI [of _ buf] exI [of _ "received ch v T"] exI [of _ "[]"]) (simp only: append_Nil2 foldl_Nil screen_append, simp)
next
  case (4 v arr k ks)
  have b: "length line < 32" "length (edit_number line k) < 32"
    using "4.prems"(3) [rule_format, of 0] "4.prems"(3) [rule_format, of 1] by simp_all
  have t: "ucast v = k" "k \<noteq> 10" "types arr ks" using "4.prems"(2) by simp_all
  obtain buf' new where k: "getw_loop cf gpid full ([v] # arr @ rest) buf (length line) T =
      getw_loop cf gpid full (arr @ rest) buf' (length (edit_number line k)) (shown ch new (received ch v T))"
    "10 \<notin> set new" "length buf' = 32" "take (length (edit_number line k)) buf' = edit_number line k"
    "shows_line before (screen lr new) (edit_number line k)"
    by (rule getw_loop_key [OF nf "4.prems"(1) b t(1,2) "4.prems"(4-6), where arr = "arr @ rest"])
  have "\<forall>i\<le>length ks. length (foldl edit_number (edit_number line k) (take i ks)) < 32"
    using "4.prems"(3) by (metis foldl_Cons length_Cons not_less_eq_eq take_Suc_Cons)
  from "4.IH" [OF _ t(3) this k(3-5), of "shown ch new (received ch v T)"] "4.prems"(1)
  obtain buf2 T2 new2 where ih: "getw_loop cf gpid full (arr @ rest) buf' (length (edit_number line k)) (shown ch new (received ch v T)) =
      Some (Inr ((False, buf2, length (foldl edit_number line (k # ks))), rest, T2))"
    "take (length (foldl edit_number line (k # ks))) buf2 = foldl edit_number line (k # ks)" "tty_ready cf gpid ch T2"
    "tty_out T2 ch = tty_out (shown ch new (received ch v T)) ch @ new2"
    "shows_line before (screen (screen lr new) new2) (foldl edit_number line (k # ks))"
    by auto
  have "crlf new = new" using k(2) by (induction new) auto
  then have "tty_out T2 ch = tty_out T ch @ new @ new2" using ih(4) by simp
  then show ?case using k(1) ih by (intro exI [of _ buf2] exI [of _ T2] exI [of _ "new @ new2"]) simp
qed simp_all

end
