(* ===== verification/Tty_Properties.thy ===== *)
theory Tty_Properties
  imports Tty_Lines Scheduler_Properties
begin

text \<open>What a task gets from the keyboard with \<open>giet_tty_gets\<close> and \<open>giet_tty_getw\<close>, and what the screen shows.\<close>

section \<open>The conversion of a number\<close>

definition code_of :: "nat \<Rightarrow> u8" where
  "code_of d = word_of_nat (d + 48)"

lemma code_of_value: "d < 10 \<Longrightarrow> ucast (code_of d) - (0x30 :: u32) = word_of_nat d"
proof -
  assume "d < 10"
  then have "d \<in> {0, 1, 2, 3, 4, 5, 6, 7, 8, 9}" by auto
  then show ?thesis by (auto simp: code_of_def)
qed

lemma digits_value_snoc: "digits_value (ds @ [d]) = 10 * digits_value ds + d"
  by (simp add: digits_value_def)

lemma getw_convert_snoc:
  "getw_convert (cs @ [c]) v v = (case getw_convert cs v v of None \<Rightarrow> None
     | Some w \<Rightarrow> let dec = w * 10 + (ucast c - 0x30) in if dec < w then None else Some dec)"
  by (induction cs arbitrary: v) (simp_all add: Let_def)

text \<open>The test sees an overflow of the last digit only if the sum falls below the number before it.\<close>

lemma getw_convert_value:
  assumes "\<forall>d\<in>set ds. d < 10" "digits_value ds div 10 < 2 ^ 32"
  shows "getw_convert (map code_of ds) 0 0 =
    (if digits_value ds < 2 ^ 32 \<or> digits_value ds div 10 \<le> digits_value ds mod 2 ^ 32
     then Some (word_of_nat (digits_value ds)) else None)"
  using assms
proof (induction ds rule: rev_induct)
  case Nil
  show ?case by (simp add: digits_value_def)
next
  case (snoc d ds)
  let ?n = "digits_value ds"
  have d: "d < 10" "(10 * ?n + d) div 10 = ?n" using snoc.prems(1) by auto
  then have n: "?n < 2 ^ 32" using snoc.prems(2) by (simp add: digits_value_snoc)
  then have "getw_convert (map code_of ds) 0 0 = Some (word_of_nat ?n)"
    using snoc.IH snoc.prems(1) by simp
  moreover have "word_of_nat ?n * 10 + (ucast (code_of d) - 0x30) = (word_of_nat (10 * ?n + d) :: u32)"
    by (simp add: code_of_value [OF d(1)])
  moreover have "(word_of_nat (10 * ?n + d) :: u32) < word_of_nat ?n \<longleftrightarrow> (10 * ?n + d) mod 2 ^ 32 < ?n"
    using n by (simp add: word_less_nat_alt unat_of_nat del: of_nat_add of_nat_mult)
  ultimately show ?case using d(2)
    by (auto simp: digits_value_snoc getw_convert_snoc Let_def not_less simp del: of_nat_add of_nat_mult)
qed

lemma string_cancel_facts: "crlf string_cancel = string_cancel" "length string_cancel = 3"
  by (simp_all add: string_cancel_def)

section \<open>Properties\<close>

text \<open>C29: \<open>giet_tty_gets\<close> reads the line that the keys stand for, up to the line feed, with every key of correction
  removing the last character and the keys that are not printable ignored: the buffer has this string, nothing is written
  outside it, and the screen shows the same line, whatever was corrected.\<close>

theorem giet_tty_gets_reads_line:
  assumes "never_full full" "tty_ready cf gpid ch T" "types arr ks"
    and "\<forall>i\<le>length ks. length (foldl edit [] (take i ks)) < unat (bufsize - 1)"
    and "shows_line before lr []"
  shows "\<exists>m' T' new. giet_tty_gets cf gpid full buf bufsize (arr @ rest) m T = Some (Inr (m', rest, T')) \<and>
    cstr m' buf (foldl edit [] ks) \<and> (\<forall>a. unat (bufsize - 1) \<le> unat (a - buf) \<longrightarrow> m' a = m a) \<and>
    tty_out T' ch = tty_out T ch @ new \<and> shows_line before (screen lr new) (foldl edit [] ks)"
proof -
  obtain m' T' new where r: "gets_loop cf gpid full buf bufsize (arr @ rest) 0 m T = Some (Inr (m', rest, T'))"
    "\<forall>i<length (foldl edit [] ks). m' (buf + word_of_nat i) = foldl edit [] ks ! i"
    "m' (buf + word_of_nat (length (foldl edit [] ks))) = 0" "\<forall>a. unat (bufsize - 1) \<le> unat (a - buf) \<longrightarrow> m' a = m a"
    "tty_out T' ch = tty_out T ch @ new" "shows_line before (screen lr new) (foldl edit [] ks)"
    using gets_loop_reads [OF assms(1-4), of 0 m buf before lr rest] assms(5) by auto
  have "cstr m' buf (foldl edit [] ks)" by (rule cstr_nth [OF r(2) _ r(3)]) (rule edit_printable, simp)
  then show ?thesis using r(1,4,5,6) by (auto simp: giet_tty_gets_def)
qed

text \<open>C30: \<open>giet_tty_getw\<close> returns the number that the keys stand for when it has at most 31 digits and is less than
  \<open>2 ^ 32\<close>, and the screen shows its digits. When the last digit makes it overflow, the call returns 0, and the screen
  shows 0, only if the sum modulo \<open>2 ^ 32\<close> falls below the number before this digit; otherwise it
  returns the number modulo \<open>2 ^ 32\<close> as if it were right.\<close>

theorem giet_tty_getw_reads_number:
  assumes "never_full full" "tty_ready cf gpid ch T" "types arr ks"
    and "\<forall>i\<le>length ks. length (foldl edit_number [] (take i ks)) < 32"
    and "foldl edit_number [] ks = map code_of ds" "\<forall>d\<in>set ds. d < 10" "digits_value ds div 10 < 2 ^ 32"
    and "accepted \<longleftrightarrow> digits_value ds < 2 ^ 32 \<or> digits_value ds div 10 \<le> digits_value ds mod 2 ^ 32"
    and "shows_line before lr []"
  shows "\<exists>T' new. giet_tty_getw cf gpid full (arr @ rest) T =
      Some (Inr (if accepted then word_of_nat (digits_value ds) else 0, rest, T')) \<and>
    tty_out T' ch = tty_out T ch @ new \<and>
    shows_line before (screen lr new) (if accepted then map code_of ds else [code_of 0])"
proof -
  let ?l = "foldl edit_number [] ks"
  have "length (replicate 32 0 :: u8 list) = 32" "take (length ([] :: u8 list)) (replicate 32 0) = ([] :: u8 list)" by simp_all
  from getw_loop_reads [OF assms(1-4) this assms(9), of rest]
  obtain buf' T1 new where r: "getw_loop cf gpid full (arr @ rest) (replicate 32 0) 0 T = Some (Inr ((False, buf', length ?l), rest, T1))"
    "take (length ?l) buf' = ?l" "tty_ready cf gpid ch T1" "tty_out T1 ch = tty_out T ch @ new" "shows_line before (screen lr new) ?l"
    unfolding list.size(3) by blast
  have c: "getw_convert ?l 0 0 = (if accepted then Some (word_of_nat (digits_value ds)) else None)"
    using getw_convert_value [OF assms(6,7)] assms(5,8) by simp
  have cancel: "\<exists>cs. cancel_all cf gpid full (length line) U = (True, shown ch cs U) \<and> crlf cs = cs \<and>
      shows_line before (screen lr' cs) []" if "tty_ready cf gpid ch U" "shows_line before lr' line" for U line lr'
    using that
  proof (induction line arbitrary: U lr' rule: rev_induct)
    case Nil
    then show ?case by (intro exI [of _ "[]"]) simp
  next
    case (snoc x line)
    have "shows_line before (screen lr' string_cancel) line"
      using shows_line_cancel [OF snoc.prems(2)] by simp
    from snoc.IH [OF _ this, of "shown ch string_cancel U"] snoc.prems(1) obtain cs where
      cs: "cancel_all cf gpid full (length line) (shown ch string_cancel U) = (True, shown ch cs (shown ch string_cancel U))"
      "crlf cs = cs" "shows_line before (screen (screen lr' string_cancel) cs) []" by auto
    then show ?case using echo_ready [OF assms(1) snoc.prems(1), of string_cancel]
      by (intro exI [of _ "string_cancel @ cs"]) (simp add: string_cancel_facts)
  qed
  show ?thesis
  proof (cases accepted)
    case True
    then show ?thesis using r c assms(5) by (intro exI [of _ T1] exI [of _ new]) (simp add: giet_tty_getw_def)
  next
    case False
    obtain cs where cs: "cancel_all cf gpid full (length ?l) T1 = (True, shown ch cs T1)" "crlf cs = cs"
      "shows_line before (screen (screen lr new) cs) []" using cancel [OF r(3,5)] by blast
    have "giet_tty_getw cf gpid full (arr @ rest) T = Some (Inr (0, rest, shown ch [0x30] (shown ch cs T1)))"
      using r(1,2) c False cs(1) echo_ready [OF assms(1), of cf gpid ch "shown ch cs T1" "[0x30]"] r(3)
      by (simp add: giet_tty_getw_def)
    moreover have "shows_line before (screen (screen (screen lr new) cs) [0x30]) [0x30]"
      using shows_line_char [OF cs(3), of "0x30"] by simp
    ultimately show ?thesis using False r(4) cs(2)
      by (intro exI [of _ "shown ch [0x30] (shown ch cs T1)"] exI [of _ "new @ cs @ [0x30]"]) (simp add: code_of_def)
  qed
qed

section \<open>A concrete terminal\<close>

text \<open>The running task of processor 0 has terminal 0.\<close>

definition demo_tty :: tty where
  "demo_tty = \<lparr>tty_kernel = set_context_slot tiny_config 0 CTX_TTY_ID 0 tiny_state, tty_rx_buf = (\<lambda>_. 0),
     tty_out = (\<lambda>_. []), status_reads = 0\<rparr>"

lemma demo_tty_ready: "never_full (\<lambda>_ _. False)" "tty_ready tiny_config 0 0 demo_tty" "has_tty tiny_config 0 0 demo_tty"
  by (simp_all add: never_full_def tty_ready_def has_tty_def demo_tty_def get_context_slot_def set_context_slot_def get_sched_def
      set_sched_def set_slot_def tiny_state_def tiny_sched_def tiny_config_def)

text \<open>The format \<open>n=%d %X\<close> and a line feed, with the arguments \<open>-42\<close> and \<open>0x2A\<close>: the two printers differ in the last number.\<close>

theorem printf_writes_text_witness:
  "giet_tty_printf tiny_config 0 (\<lambda>_ _. False) (\<lambda>_. []) [110, 61, 37, 100, 32, 37, 88, 10] [Va_int (- 42), Va_int 42] demo_tty =
     Some (Inr (shown 0 [110, 61, 45, 52, 50, 32, 48, 120, 50, 65, 10] demo_tty)) \<and>
   kernel_printf (\<lambda>_ _. False) [110, 61, 37, 100, 32, 37, 88, 10] [Va_int (- 42), Va_int 42] demo_tty =
     Some (True, shown 0 [110, 61, 45, 52, 50, 32, 48, 120, 48, 48, 48, 48, 48, 48, 50, 65, 10] demo_tty)"
proof -
  let ?its = "[Lit [110, 61], Dec (- 42), Lit [32], Upper_hex 42, Lit [10]]"
  have ok: "\<forall>it\<in>set ?its. item_ok it" by simp
  have b: "base_text 10 42 = [52, 50]" "base_text 16 42 = [50, 65]"
    by (simp_all add: base_text.simps digit_code_def hexa_tab_def)
  have r: "replicate 6 (48 :: u8) = [48, 48, 48, 48, 48, 48]" by (simp add: numeral_eq_Suc)
  have t: "concat (map (item_text (\<lambda>_. [])) ?its) = [110, 61, 45, 52, 50, 32, 48, 120, 50, 65, 10]"
    "concat (map kernel_item_text ?its) = [110, 61, 45, 52, 50, 32, 48, 120, 48, 48, 48, 48, 48, 48, 50, 65, 10]"
    by (simp_all add: signed_text_def b padded_def r)
  show ?thesis using printf_writes_text [OF demo_tty_ready(1,3) ok, of "\<lambda>_. []"] unfolding t by simp
qed

theorem printed_number_read_back_witness:
  "\<exists>T'. giet_tty_printf tiny_config 0 (\<lambda>_ _. False) (\<lambda>_. []) [37, 100] [Va_int (- 7)] demo_tty = Some (Inr T') \<and>
     tty_out T' 0 = [45, 55] \<and> atoi (\<lambda>a. if a = 0 then 45 else if a = 1 then 55 else 0) 0 = Some (- 7)"
proof -
  obtain cs T' where T': "giet_tty_printf tiny_config 0 (\<lambda>_ _. False) (\<lambda>_. []) [37, 100] [Va_int (- 7)] demo_tty = Some (Inr T')"
    "tty_out T' 0 = cs" "\<forall>m str. cstr m str cs \<longrightarrow> atoi m str = Some (- 7)"
    using printed_number_read_back [OF demo_tty_ready(1,3), of "\<lambda>_. []" "- 7"] by (auto simp: demo_tty_def)
  have "item_text (\<lambda>_. []) (Dec (- 7)) = [45, 55]" by (simp add: signed_text_def base_text.simps digit_code_def hexa_tab_def)
  then have "T' = shown 0 [45, 55] demo_tty"
    using T'(1) user_items [OF demo_tty_ready(1,3), of "[Dec (- 7)]" "\<lambda>_. []"] by (simp add: giet_tty_printf_def c_string_def)
  then have "cs = [45, 55]" using T'(2) by (simp add: shown_def demo_tty_def crlf_simps)
  then have "atoi (\<lambda>a. if a = 0 then 45 else if a = 1 then 55 else 0) 0 = Some (- 7)" using T'(3) by simp
  then show ?thesis using T'(1,2) \<open>cs = [45, 55]\<close> by blast
qed

text \<open>The keys a, b, delete, c.\<close>

theorem giet_tty_gets_reads_line_witness:
  "\<exists>m' T'. giet_tty_gets tiny_config 0 (\<lambda>_ _. False) 0x1000 16 [[97], [], [98], [127], [99], [10]] (\<lambda>_. 0) demo_tty =
     Some (Inr (m', [], T')) \<and> cstr m' 0x1000 [97, 99] \<and> fst (screen ([], []) (tty_out T' 0)) = [99, 97]"
proof -
  have k: "types [[97], [], [98], [127], [99], [10]] [97, 98, 127, 99]" by simp
  have b: "\<forall>i\<le>length [97, 98, 127, 99]. length (foldl edit [] (take i [97, 98, 127, 99])) < unat ((16 :: u32) - 1)"
    by (auto simp: le_Suc_eq edit_def)
  have s: "shows_line [] ([], []) []" by (simp add: shows_line_def)
  have l: "foldl edit [] [97, 98, 127, 99] = [97, 99]" by (simp add: edit_def)
  show ?thesis using giet_tty_gets_reads_line [OF demo_tty_ready(1,2) k b s, of "0x1000" "[]" "\<lambda>_. 0"]
    unfolding l shows_line_def by (auto simp: demo_tty_def)
qed

text \<open>The keys of 5000000000: the overflow is not seen, and the result is the number modulo \<open>2 ^ 32\<close>.\<close>

definition demo_keys :: "u8 list" where
  "demo_keys = [53, 48, 48, 48, 48, 48, 48, 48, 48, 48]"

theorem giet_tty_getw_reads_number_witness:
  "\<exists>T'. giet_tty_getw tiny_config 0 (\<lambda>_ _. False) (map (\<lambda>k. [ucast k]) (demo_keys @ [10])) demo_tty = Some (Inr (705032704, [], T'))"
proof -
  have k: "types (map (\<lambda>k. [ucast k]) (demo_keys @ [10])) demo_keys" by (simp add: demo_keys_def)
  have e: "foldl edit_number line ks = line @ ks" if "\<forall>k\<in>set ks. decimal_char k" for line ks
    using that by (induction ks arbitrary: line) (simp_all add: edit_number_def)
  have d: "\<forall>k\<in>set demo_keys. decimal_char k" by (simp add: demo_keys_def decimal_char_def)
  have b: "\<forall>i\<le>length demo_keys. length (foldl edit_number [] (take i demo_keys)) < 32"
  proof (intro allI impI)
    fix i
    have "\<forall>k\<in>set (take i demo_keys). decimal_char k" using d in_set_takeD by fast
    from e [OF this, of "[]"] show "length (foldl edit_number [] (take i demo_keys)) < 32" by (simp add: demo_keys_def)
  qed
  let ?ds = "[5, 0, 0, 0, 0, 0, 0, 0, 0, 0]"
  have l: "foldl edit_number [] demo_keys = map code_of ?ds"
    using e [OF d, of "[]"] by (simp add: demo_keys_def code_of_def)
  have v: "digits_value ?ds = 5000000000" by (simp add: digits_value_def)
  have s: "shows_line [] ([], []) []" by (simp add: shows_line_def)
  have "\<exists>T' new. giet_tty_getw tiny_config 0 (\<lambda>_ _. False) (map (\<lambda>k. [ucast k]) (demo_keys @ [10]) @ []) demo_tty =
      Some (Inr (if True then word_of_nat (digits_value ?ds) else 0, [], T')) \<and>
      tty_out T' 0 = tty_out demo_tty 0 @ new \<and> shows_line [] (screen ([], []) new) (if True then map code_of ?ds else [code_of 0])"
    by (rule giet_tty_getw_reads_number [OF demo_tty_ready(1,2) k b l _ _ _ s]) (simp_all add: v)
  then show ?thesis by (auto simp: v)
qed

end
