(* ===== verification/Hba.thy ===== *)
theory Hba
  imports Channels Boot_Sched
begin

text \<open>
  The driver of the disk controller, \<open>giet_drivers/hba_driver.c\<close>: 32 command slots shared by the tasks,
  an access that waits by polling or by descheduling its task, and the interrupt that wakes the tasks up. The registers
  of the controller are \<open>hba_reg\<close>; as its documentation (AHCI) has it, writing the command register adds
  the bits written, and the controller clears the bit of a command when it completes it. The updates of caches for
  the external memory (\<open>USE_IOB\<close>) do not change the contents and are left out.
\<close>

definition NORUN_MASK_IOC :: u32 where "NORUN_MASK_IOC = 2"
definition HBA_PXCLB :: nat where "HBA_PXCLB = 0"
definition HBA_PXCLBU :: nat where "HBA_PXCLBU = 1"
definition HBA_PXIS :: nat where "HBA_PXIS = 4"
definition HBA_PXIE :: nat where "HBA_PXIE = 5"
definition HBA_PXCMD :: nat where "HBA_PXCMD = 6"
definition HBA_PXCI :: nat where "HBA_PXCI = 14"

lemmas hba_registers = HBA_PXCLB_def HBA_PXCLBU_def HBA_PXIS_def HBA_PXIE_def HBA_PXCMD_def HBA_PXCI_def

section \<open>State\<close>

record hba_cmd_table =
  lba0 :: u8
  lba1 :: u8
  lba2 :: u8
  lba3 :: u8
  lba4 :: u8
  lba5 :: u8
  dba :: u32
  dbau :: u32
  dbc :: u32

record hba_cmd_desc =
  flag0 :: u8
  prdtl0 :: u8
  prdtl1 :: u8
  ctba :: u32
  ctbau :: u32

record hba =
  hba_kernel :: kstate
  hba_allocated_cmd :: "nat \<Rightarrow> u32"
  hba_active_cmd :: "nat \<Rightarrow> u32"
  hba_gtid :: "nat \<Rightarrow> u32"
  hba_status :: u32
  hba_list :: "nat \<Rightarrow> hba_cmd_desc"
  hba_table :: "nat \<Rightarrow> hba_cmd_table"
  hba_reg :: "nat \<Rightarrow> u32"

text \<open>The arguments of an access.\<close>

record hba_request =
  req_to_mem :: bool
  req_lba :: u32
  req_paddr :: u64
  req_count :: u32

definition hba_get_register :: "nat \<Rightarrow> hba \<Rightarrow> u32" where
  "hba_get_register index H = hba_reg H index"

definition hba_set_register :: "nat \<Rightarrow> u32 \<Rightarrow> hba \<Rightarrow> hba" where
  "hba_set_register index value H =
     H\<lparr>hba_reg := (hba_reg H)(index := if index = HBA_PXCI then hba_reg H HBA_PXCI OR value else value)\<rparr>"

section \<open>Command slots\<close>

text \<open>One turn of the loop of \<open>_hba_cmd_alloc\<close>, with the lock; without a free slot the loop goes on.\<close>

definition hba_cmd_alloc :: "hba \<Rightarrow> (nat \<times> hba) option" where
  "hba_cmd_alloc H = map_option (\<lambda>c. (c, H\<lparr>hba_allocated_cmd := (hba_allocated_cmd H)(c := 1)\<rparr>))
     (find (\<lambda>c. hba_allocated_cmd H c = 0) [0..<32])"

definition hba_cmd_release :: "nat \<Rightarrow> hba \<Rightarrow> u32 \<times> hba" where
  "hba_cmd_release cmd_id H =
     (if hba_allocated_cmd H cmd_id = 0 then (-1, H)
      else (0, H\<lparr>hba_allocated_cmd := (hba_allocated_cmd H)(cmd_id := 0)\<rparr>))"

section \<open>Access\<close>

definition fill_table :: "hba_request \<Rightarrow> hba_cmd_table" where
  "fill_table r = \<lparr>lba0 = ucast (req_lba r), lba1 = ucast (drop_bit 8 (req_lba r)), lba2 = ucast (drop_bit 16 (req_lba r)),
     lba3 = ucast (drop_bit 24 (req_lba r)), lba4 = 0, lba5 = 0,
     dba = ucast (req_paddr r), dbau = ucast (drop_bit 32 (req_paddr r)), dbc = req_count r * 512\<rparr>"

definition fill_desc :: "hba_request \<Rightarrow> hba_cmd_desc \<Rightarrow> hba_cmd_desc" where
  "fill_desc r d = d\<lparr>prdtl0 := 1, prdtl1 := 0, flag0 := (if req_to_mem r then 0x00 else 0x40)\<rparr>"

definition hba_fill :: "hba_request \<Rightarrow> nat \<Rightarrow> hba \<Rightarrow> hba" where
  "hba_fill r c H = H\<lparr>hba_table := (hba_table H)(c := fill_table r), hba_list := (hba_list H)(c := fill_desc r (hba_list H c))\<rparr>"

definition cmd_bit :: "nat \<Rightarrow> u32" where
  "cmd_bit c = push_bit c 1"

text \<open>The result of an access, from the status of the command.\<close>

definition hba_result :: "u32 \<Rightarrow> u32 \<Rightarrow> u32" where
  "hba_result release_success pxis =
     (if release_success \<noteq> 0 then -1 else if pxis AND 0x40000000 \<noteq> 0 then pxis else 0)"

text \<open>
  The synchronous mode: \<open>pxci\<close> are the values that the command register shows, one at each turn of the loop, and \<open>pxis\<close>
  the status at the end. \<open>None\<close>: the loop does not end.
\<close>

definition hba_access_sync :: "hba_request \<Rightarrow> u32 list \<Rightarrow> u32 \<Rightarrow> hba \<Rightarrow> (u32 \<times> hba) option" where
  "hba_access_sync r pxci pxis H =
     (if req_paddr r AND 0x3F \<noteq> 0 then Some (-1, H)
      else Option.bind (hba_cmd_alloc H) (\<lambda>(c, H).
        let H = hba_set_register HBA_PXIE 0 (hba_set_register HBA_PXCI (cmd_bit c) (hba_fill r c H))
        in (case dropWhile (\<lambda>v. v AND cmd_bit c \<noteq> 0) pxci of
              [] \<Rightarrow> None
            | v # _ \<Rightarrow>
                (let H = hba_set_register HBA_PXIS 0 (H\<lparr>hba_reg := (hba_reg H)(HBA_PXCI := v)\<rparr>);
                     (release_success, H) = hba_cmd_release c H
                 in Some (hba_result release_success pxis, H)))))"

text \<open>The descheduling mode, between two context switches, in four stages.\<close>

definition hba_prepare :: "u32 \<Rightarrow> u32 \<Rightarrow> hba_request \<Rightarrow> nat \<Rightarrow> hba \<Rightarrow> hba" where
  "hba_prepare procid ltid r c H =
     (let H = hba_set_register HBA_PXIE 1 (hba_fill r c H)
      in H\<lparr>hba_gtid := (hba_gtid H)(c := push_bit 16 procid + ltid)\<rparr>)"

definition ioc_slot :: "hard_config \<Rightarrow> u32 \<Rightarrow> u32 \<Rightarrow> nat \<times> nat \<times> nat \<times> nat" where
  "ioc_slot cf procid ltid = (proc_x cf procid, proc_y cf procid, proc_p cf procid, unat ltid)"

definition ioc_block :: "hard_config \<Rightarrow> u32 \<Rightarrow> u32 \<Rightarrow> kstate \<Rightarrow> kstate" where
  "ioc_block cf procid ltid s = update_slot CTX_NORUN_ID (\<lambda>v. atomic_or v NORUN_MASK_IOC) (ioc_slot cf procid ltid) s"

definition hba_block :: "hard_config \<Rightarrow> u32 \<Rightarrow> u32 \<Rightarrow> hba \<Rightarrow> hba" where
  "hba_block cf procid ltid H = H\<lparr>hba_kernel := ioc_block cf procid ltid (hba_kernel H)\<rparr>"

definition hba_start :: "nat \<Rightarrow> hba \<Rightarrow> hba" where
  "hba_start c H = hba_set_register HBA_PXCI (cmd_bit c) H"

definition hba_activate :: "nat \<Rightarrow> hba \<Rightarrow> hba" where
  "hba_activate c H = H\<lparr>hba_active_cmd := (hba_active_cmd H)(c := 1)\<rparr>"

text \<open>After the task has been rescheduled.\<close>

definition hba_finish :: "nat \<Rightarrow> hba \<Rightarrow> u32 \<times> hba" where
  "hba_finish c H = (let pxis = hba_status H; (release_success, H) = hba_cmd_release c H in (hba_result release_success pxis, H))"

section \<open>Initialisation\<close>

text \<open>\<open>list_paddr\<close> and \<open>table_paddr\<close> are the physical addresses of the two arrays.\<close>

definition hba_init :: "u64 \<Rightarrow> u64 \<Rightarrow> hba \<Rightarrow> hba" where
  "hba_init list_paddr table_paddr H =
     (let desc = \<lambda>c. let paddr = table_paddr + word_of_nat c * 32 in
            (hba_list H c)\<lparr>ctba := ucast paddr, ctbau := ucast (drop_bit 32 paddr)\<rparr>;
          H = H\<lparr>hba_list := \<lambda>c. if c < 32 then desc c else hba_list H c,
            hba_allocated_cmd := \<lambda>c. if c < 32 then 0 else hba_allocated_cmd H c,
            hba_active_cmd := \<lambda>c. if c < 32 then 0 else hba_active_cmd H c\<rparr>
      in hba_set_register HBA_PXCMD 1 (hba_set_register HBA_PXCI 0 (hba_set_register HBA_PXIS 0 (hba_set_register HBA_PXIE 0
          (hba_set_register HBA_PXCLBU (ucast (drop_bit 32 list_paddr)) (hba_set_register HBA_PXCLB (ucast list_paddr) H))))))"

section \<open>Interrupt\<close>

definition hba_save_status :: "hba \<Rightarrow> hba" where
  "hba_save_status H = (if hba_status H AND 0x40000000 = 0 then H\<lparr>hba_status := hba_get_register HBA_PXIS H\<rparr> else H)"

definition current_active :: "hba \<Rightarrow> u32" where
  "current_active H = fold (\<lambda>c m. if hba_active_cmd H c = 1 then m + cmd_bit c else m) [0..<32] 0"

text \<open>The task of a command, from \<open>_hba_gtid\<close>, and its wake-up (also those of \<open>_bdv_isr\<close>).\<close>

definition ioc_wakeup :: "hard_config \<Rightarrow> u32 \<Rightarrow> kstate \<Rightarrow> (panic + kstate) option" where
  "ioc_wakeup cf gtid s =
     (let procid = drop_bit 16 gtid; ltid = gtid AND 0xFFFF; cluster = drop_bit (cP_WIDTH cf) procid;
          x = unat (drop_bit (cY_WIDTH cf) cluster); y = unat (cluster AND (push_bit (cY_WIDTH cf) 1 - 1));
          p = procid AND (push_bit (cP_WIDTH cf) 1 - 1);
          s = update_slot CTX_NORUN_ID (\<lambda>v. atomic_and v (NOT NORUN_MASK_IOC)) (x, y, unat p, unat ltid) s
      in xcu_send_wti cf cluster p 0 s)"

definition hba_wake :: "hard_config \<Rightarrow> nat \<Rightarrow> hba \<Rightarrow> (panic + hba) option" where
  "hba_wake cf c H =
     (let H = H\<lparr>hba_active_cmd := (hba_active_cmd H)(c := 0)\<rparr>
      in obind (ioc_wakeup cf (hba_gtid H c) (hba_kernel H)) (\<lambda>s. Some (Inr (H\<lparr>hba_kernel := s\<rparr>))))"

fun hba_wake_all :: "hard_config \<Rightarrow> nat list \<Rightarrow> hba \<Rightarrow> (panic + hba) option" where
  "hba_wake_all cf [] H = Some (Inr H)"
| "hba_wake_all cf (c # cs) H = obind (hba_wake cf c H) (hba_wake_all cf cs)"

definition completed :: "u32 \<Rightarrow> u32 \<Rightarrow> nat list" where
  "completed active pxci = filter (\<lambda>c. active AND cmd_bit c \<noteq> 0 \<and> pxci AND cmd_bit c = 0) [0..<32]"

definition hba_isr :: "hard_config \<Rightarrow> hba \<Rightarrow> (panic + hba) option" where
  "hba_isr cf H =
     (let H = hba_set_register HBA_PXIS 0 (hba_save_status H)
      in hba_wake_all cf (completed (current_active H) (hba_get_register HBA_PXCI H)) H)"

end
