(* ===== verification/Hba_Steps.thy ===== *)
theory Hba_Steps
  imports Hba
begin

text \<open>
  The accesses to the disk of any number of tasks, interleaved with the controller and with the interrupt, which another
  processor serves. A task is in one stage of its access, between two accesses of shared data; the service routine
  is in one of its own. Every stage is the function of theory \<open>Hba\<close>. Two things are coarser than the code: the accesses in
  synchronous mode, which the boot uses before any interrupt is enabled, are not interleaved here, and the service routine
  reads the flags of the 32 active commands in one step.
\<close>

section \<open>Steps\<close>

datatype hba_pc =
    H_out
  | H_wait hba_request
  | H_have hba_request nat
  | H_ready hba_request nat
  | H_blocked hba_request nat
  | H_started hba_request nat
  | H_asleep hba_request nat

datatype isr_pc = I_idle | I_reset | I_active | I_pxci u32 | I_wake "nat list"

record hba_sys =
  sys_hba :: hba
  hpc :: "nat \<Rightarrow> hba_pc"
  ipc :: isr_pc
  hba_ret :: "nat \<Rightarrow> u32"

definition norun_of :: "hard_config \<Rightarrow> hba \<Rightarrow> u32 \<times> u32 \<Rightarrow> u32" where
  "norun_of cf H l = (case ioc_slot cf (fst l) (snd l) of (x, y, p, t) \<Rightarrow> ctx (schedulers (hba_kernel H) x y p) t CTX_NORUN_ID)"

text \<open>Task \<open>i\<close> has the local index \<open>snd (loc i)\<close> on the processor \<open>fst (loc i)\<close>; the controller completes a command with
  any status but 0.\<close>

inductive hba_step :: "hard_config \<Rightarrow> (nat \<Rightarrow> u32 \<times> u32) \<Rightarrow> nat \<Rightarrow> hba_sys \<Rightarrow> hba_sys \<Rightarrow> bool" for cf loc n where
  call: "i < n \<Longrightarrow> hpc s i = H_out \<Longrightarrow> req_paddr r AND 0x3F = 0 \<Longrightarrow>
    hba_step cf loc n s (s\<lparr>hpc := (hpc s)(i := H_wait r)\<rparr>)"
| alloc: "i < n \<Longrightarrow> hpc s i = H_wait r \<Longrightarrow> hba_cmd_alloc (sys_hba s) = Some (c, H) \<Longrightarrow>
    hba_step cf loc n s (s\<lparr>sys_hba := H, hpc := (hpc s)(i := H_have r c)\<rparr>)"
| prepare: "i < n \<Longrightarrow> hpc s i = H_have r c \<Longrightarrow>
    hba_step cf loc n s (s\<lparr>sys_hba := hba_prepare (fst (loc i)) (snd (loc i)) r c (sys_hba s), hpc := (hpc s)(i := H_ready r c)\<rparr>)"
| block: "i < n \<Longrightarrow> hpc s i = H_ready r c \<Longrightarrow>
    hba_step cf loc n s (s\<lparr>sys_hba := hba_block cf (fst (loc i)) (snd (loc i)) (sys_hba s), hpc := (hpc s)(i := H_blocked r c)\<rparr>)"
| start: "i < n \<Longrightarrow> hpc s i = H_blocked r c \<Longrightarrow>
    hba_step cf loc n s (s\<lparr>sys_hba := hba_start c (sys_hba s), hpc := (hpc s)(i := H_started r c)\<rparr>)"
| activate: "i < n \<Longrightarrow> hpc s i = H_started r c \<Longrightarrow>
    hba_step cf loc n s (s\<lparr>sys_hba := hba_activate c (sys_hba s), hpc := (hpc s)(i := H_asleep r c)\<rparr>)"
| resume: "i < n \<Longrightarrow> hpc s i = H_asleep r c \<Longrightarrow> norun_of cf (sys_hba s) (loc i) AND NORUN_MASK_IOC = 0 \<Longrightarrow>
    hba_finish c (sys_hba s) = (ret, H) \<Longrightarrow>
    hba_step cf loc n s (s\<lparr>sys_hba := H, hpc := (hpc s)(i := H_out), hba_ret := (hba_ret s)(i := ret)\<rparr>)"
| complete: "c < 32 \<Longrightarrow> bit (hba_reg (sys_hba s) HBA_PXCI) c \<Longrightarrow> status \<noteq> 0 \<Longrightarrow>
    hba_step cf loc n s (s\<lparr>sys_hba := (sys_hba s)\<lparr>hba_reg := (hba_reg (sys_hba s))
      (HBA_PXCI := hba_reg (sys_hba s) HBA_PXCI AND NOT (cmd_bit c), HBA_PXIS := status)\<rparr>\<rparr>)"
| isr_status: "ipc s = I_idle \<Longrightarrow> hba_reg (sys_hba s) HBA_PXIS \<noteq> 0 \<Longrightarrow>
    hba_step cf loc n s (s\<lparr>sys_hba := hba_save_status (sys_hba s), ipc := I_reset\<rparr>)"
| isr_reset: "ipc s = I_reset \<Longrightarrow>
    hba_step cf loc n s (s\<lparr>sys_hba := hba_set_register HBA_PXIS 0 (sys_hba s), ipc := I_active\<rparr>)"
| isr_active: "ipc s = I_active \<Longrightarrow> hba_step cf loc n s (s\<lparr>ipc := I_pxci (current_active (sys_hba s))\<rparr>)"
| isr_pxci: "ipc s = I_pxci active \<Longrightarrow>
    hba_step cf loc n s (s\<lparr>ipc := I_wake (completed active (hba_get_register HBA_PXCI (sys_hba s)))\<rparr>)"
| isr_wake: "ipc s = I_wake (c # cs) \<Longrightarrow> hba_wake cf c (sys_hba s) = Some (Inr H) \<Longrightarrow>
    hba_step cf loc n s (s\<lparr>sys_hba := H, ipc := I_wake cs\<rparr>)"
| isr_end: "ipc s = I_wake [] \<Longrightarrow> hba_step cf loc n s (s\<lparr>ipc := I_idle\<rparr>)"

inductive hba_reach :: "hard_config \<Rightarrow> (nat \<Rightarrow> u32 \<times> u32) \<Rightarrow> nat \<Rightarrow> hba_sys \<Rightarrow> hba_sys \<Rightarrow> bool" for cf loc n s0 where
  start: "hba_reach cf loc n s0 s0"
| step: "hba_reach cf loc n s0 s \<Longrightarrow> hba_step cf loc n s s' \<Longrightarrow> hba_reach cf loc n s0 s'"

text \<open>The state that \<open>_hba_init\<close> leaves, with no command in progress.\<close>

definition hba_start_state :: "hba_sys \<Rightarrow> bool" where
  "hba_start_state s \<longleftrightarrow> (\<forall>i. hpc s i = H_out) \<and> ipc s = I_idle \<and>
     (\<exists>list_paddr table_paddr H. sys_hba s = hba_init list_paddr table_paddr H \<and> hba_reg H HBA_PXCI = 0)"

section \<open>The words of the code\<close>

lemma bit_cmd_bit: "bit (cmd_bit c) i \<longleftrightarrow> i < 32 \<and> i = c"
  by (auto simp: cmd_bit_def bit_simps)

lemma and_cmd_bit: "c < 32 \<Longrightarrow> v AND cmd_bit c = 0 \<longleftrightarrow> \<not> bit v c"
  by (metis and_exp_eq_0_iff_not_bit cmd_bit_def push_bit_one_u32)

lemma current_active_bits:
  "k \<le> 32 \<Longrightarrow> bit (fold (\<lambda>c m. if hba_active_cmd H c = 1 then m + cmd_bit c else m) [0..<k] 0) i \<longleftrightarrow> i < k \<and> hba_active_cmd H i = 1"
proof (induction k arbitrary: i)
  case (Suc k)
  let ?m = "fold (\<lambda>c m. if hba_active_cmd H c = 1 then m + cmd_bit c else m) [0..<k] 0"
  have m: "bit ?m j \<longleftrightarrow> j < k \<and> hba_active_cmd H j = 1" for j using Suc by simp
  have "?m AND cmd_bit k = 0" using m and_cmd_bit [of k ?m] Suc.prems by simp
  then have "?m + cmd_bit k = ?m OR cmd_bit k" by (rule disjunctive_add_eq_or)
  moreover have "fold (\<lambda>c m. if hba_active_cmd H c = 1 then m + cmd_bit c else m) [0..<Suc k] 0 =
      (if hba_active_cmd H k = 1 then ?m + cmd_bit k else ?m)" by simp
  ultimately show ?case using Suc.prems by (cases "hba_active_cmd H k = 1"; cases "i = k") (simp_all add: m bit_or_iff bit_cmd_bit less_Suc_eq)
qed simp

lemma bit_current_active: "bit (current_active H) c \<longleftrightarrow> c < 32 \<and> hba_active_cmd H c = 1"
  unfolding current_active_def by (rule current_active_bits) simp

lemma set_completed: "c \<in> set (completed active pxci) \<longleftrightarrow> c < 32 \<and> bit active c \<and> \<not> bit pxci c"
  by (auto simp: completed_def and_cmd_bit)

lemma distinct_completed: "distinct (completed active pxci)"
  by (simp add: completed_def)

text \<open>A processor and a task, packed in a word and read again.\<close>

definition gtid_of :: "u32 \<times> u32 \<Rightarrow> u32" where
  "gtid_of l = push_bit 16 (fst l) + snd l"

definition loc_ok :: "u32 \<times> u32 \<Rightarrow> bool" where
  "loc_ok l \<longleftrightarrow> unat (fst l) < 2 ^ 16 \<and> unat (snd l) < 2 ^ 16"

lemma gtid_fields:
  assumes "loc_ok l"
  shows "drop_bit 16 (gtid_of l) = fst l" "gtid_of l AND 0xFFFF = snd l"
proof -
  have small: "i < 16" if "bit (snd l) i" for i
  proof -
    have "take_bit 16 (snd l) = snd l"
      using assms by (metis loc_ok_def take_bit_nat_eq_self unsigned_take_bit_eq unsigned_word_eqI)
    then show ?thesis using that by (metis bit_take_bit_iff)
  qed
  have small': "i < 16" if "bit (fst l) i" for i
  proof -
    have "take_bit 16 (fst l) = fst l"
      using assms by (metis loc_ok_def take_bit_nat_eq_self unsigned_take_bit_eq unsigned_word_eqI)
    then show ?thesis using that by (metis bit_take_bit_iff)
  qed
  have "push_bit 16 (fst l) AND snd l = 0"
    by (rule bit_eqI) (use small in \<open>force simp: bit_simps\<close>)
  then have g: "gtid_of l = push_bit 16 (fst l) OR snd l" by (simp add: gtid_of_def disjunctive_add_eq_or)
  show "drop_bit 16 (gtid_of l) = fst l"
    by (rule bit_eqI) (use small small' in \<open>force simp: g bit_simps\<close>)
  have m: "(0xFFFF :: u32) = mask 16" by (simp add: mask_eq_exp_minus_1)
  show "gtid_of l AND 0xFFFF = snd l"
    by (rule bit_eqI) (use small in \<open>force simp: g m bit_simps\<close>)
qed

end
