(* ===== verification/Hba_Invariant.thy ===== *)
theory Hba_Invariant
  imports Hba_Steps
begin

text \<open>The invariant of the command slots: each belongs to one task, and what the controller and the interrupt find in
  the shared arrays at each stage of its access.\<close>

section \<open>What each function changes\<close>

lemma hba_cmd_alloc_Some:
  assumes "hba_cmd_alloc H = Some (c, H')"
  shows "c < 32" "hba_allocated_cmd H c = 0" "H' = H\<lparr>hba_allocated_cmd := (hba_allocated_cmd H)(c := 1)\<rparr>"
proof -
  obtain d where d: "find (\<lambda>c. hba_allocated_cmd H c = 0) [0..<32] = Some d" "c = d"
    "H' = H\<lparr>hba_allocated_cmd := (hba_allocated_cmd H)(d := 1)\<rparr>"
    using assms by (auto simp: hba_cmd_alloc_def)
  then obtain k where "k < 32" "hba_allocated_cmd H ([0..<32] ! k) = 0" "d = [0..<32] ! k"
    by (auto simp: find_Some_iff)
  then show "c < 32" "hba_allocated_cmd H c = 0" "H' = H\<lparr>hba_allocated_cmd := (hba_allocated_cmd H)(c := 1)\<rparr>"
    using d by simp_all
qed

lemma fill_desc_idem [simp]: "fill_desc r (fill_desc r d) = fill_desc r d"
  by (simp add: fill_desc_def)

lemma prepare_fields [simp]:
  "hba_allocated_cmd (hba_prepare a l r c H) = hba_allocated_cmd H" "hba_active_cmd (hba_prepare a l r c H) = hba_active_cmd H"
  "hba_gtid (hba_prepare a l r c H) = (hba_gtid H)(c := gtid_of (a, l))"
  "hba_table (hba_prepare a l r c H) = (hba_table H)(c := fill_table r)"
  "hba_list (hba_prepare a l r c H) = (hba_list H)(c := fill_desc r (hba_list H c))"
  "hba_reg (hba_prepare a l r c H) HBA_PXCI = hba_reg H HBA_PXCI" "hba_kernel (hba_prepare a l r c H) = hba_kernel H"
  by (simp_all add: hba_prepare_def hba_fill_def hba_set_register_def gtid_of_def hba_registers Let_def)

lemma block_fields [simp]:
  "hba_allocated_cmd (hba_block cf a l H) = hba_allocated_cmd H" "hba_active_cmd (hba_block cf a l H) = hba_active_cmd H"
  "hba_gtid (hba_block cf a l H) = hba_gtid H" "hba_table (hba_block cf a l H) = hba_table H"
  "hba_list (hba_block cf a l H) = hba_list H" "hba_reg (hba_block cf a l H) = hba_reg H"
  by (simp_all add: hba_block_def)

lemma start_fields [simp]:
  "hba_allocated_cmd (hba_start c H) = hba_allocated_cmd H" "hba_active_cmd (hba_start c H) = hba_active_cmd H"
  "hba_gtid (hba_start c H) = hba_gtid H" "hba_table (hba_start c H) = hba_table H" "hba_list (hba_start c H) = hba_list H"
  "hba_reg (hba_start c H) HBA_PXCI = hba_reg H HBA_PXCI OR cmd_bit c" "hba_kernel (hba_start c H) = hba_kernel H"
  by (simp_all add: hba_start_def hba_set_register_def)

lemma activate_fields [simp]:
  "hba_allocated_cmd (hba_activate c H) = hba_allocated_cmd H" "hba_active_cmd (hba_activate c H) = (hba_active_cmd H)(c := 1)"
  "hba_gtid (hba_activate c H) = hba_gtid H" "hba_table (hba_activate c H) = hba_table H" "hba_list (hba_activate c H) = hba_list H"
  "hba_reg (hba_activate c H) = hba_reg H" "hba_kernel (hba_activate c H) = hba_kernel H"
  by (simp_all add: hba_activate_def)

lemma save_status_fields [simp]:
  "hba_allocated_cmd (hba_save_status H) = hba_allocated_cmd H" "hba_active_cmd (hba_save_status H) = hba_active_cmd H"
  "hba_gtid (hba_save_status H) = hba_gtid H" "hba_table (hba_save_status H) = hba_table H" "hba_list (hba_save_status H) = hba_list H"
  "hba_reg (hba_save_status H) = hba_reg H" "hba_kernel (hba_save_status H) = hba_kernel H"
  by (simp_all add: hba_save_status_def)

lemma reset_fields [simp]:
  "hba_allocated_cmd (hba_set_register HBA_PXIS v H) = hba_allocated_cmd H"
  "hba_active_cmd (hba_set_register HBA_PXIS v H) = hba_active_cmd H" "hba_gtid (hba_set_register HBA_PXIS v H) = hba_gtid H"
  "hba_table (hba_set_register HBA_PXIS v H) = hba_table H" "hba_list (hba_set_register HBA_PXIS v H) = hba_list H"
  "hba_reg (hba_set_register HBA_PXIS v H) HBA_PXCI = hba_reg H HBA_PXCI" "hba_kernel (hba_set_register HBA_PXIS v H) = hba_kernel H"
  by (simp_all add: hba_set_register_def hba_registers)

lemma finish_fields:
  assumes "hba_finish c H = (ret, H')" "hba_allocated_cmd H c \<noteq> 0"
  shows "H' = H\<lparr>hba_allocated_cmd := (hba_allocated_cmd H)(c := 0)\<rparr>"
    "ret = (if hba_status H AND 0x40000000 \<noteq> 0 then hba_status H else 0)"
  using assms by (auto simp: hba_finish_def hba_cmd_release_def hba_result_def Let_def)

lemma update_slot_ctx:
  "ctx (schedulers (update_slot slot f (x, y, p, t) s) x' y' p') t' k =
     (if (x', y', p', t') = (x, y, p, t) \<and> k = slot then f (ctx (schedulers s x y p) t slot) else ctx (schedulers s x' y' p') t' k)"
  by (auto simp: update_slot_def set_slot_def Let_def)

lemma norun_of_block:
  "norun_of cf (hba_block cf (fst l) (snd l) H) l' =
     (if ioc_slot cf (fst l') (snd l') = ioc_slot cf (fst l) (snd l) then norun_of cf H l OR NORUN_MASK_IOC else norun_of cf H l')"
  by (auto simp: norun_of_def hba_block_def ioc_block_def ioc_slot_def update_slot_ctx atomic_or_def)

lemma norun_of_kernel: "hba_kernel H' = hba_kernel H \<Longrightarrow> norun_of cf H' l = norun_of cf H l"
  by (simp add: norun_of_def)

lemma ioc_wakeup_slot:
  assumes "loc_ok l"
  shows "ioc_wakeup cf (gtid_of l) s = xcu_send_wti cf (drop_bit (cP_WIDTH cf) (fst l)) (fst l AND (push_bit (cP_WIDTH cf) 1 - 1)) 0
     (update_slot CTX_NORUN_ID (\<lambda>v. atomic_and v (NOT NORUN_MASK_IOC)) (ioc_slot cf (fst l) (snd l)) s)"
  by (simp add: ioc_wakeup_def gtid_fields [OF assms] ioc_slot_def proc_x_def proc_y_def proc_p_def add.commute Let_def)

lemma xcu_send_wti_schedulers: "xcu_send_wti cf cxy i v s = Some (Inr s') \<Longrightarrow> schedulers s' = schedulers s"
  by (auto simp: xcu_send_wti_def xcu_set_register_def Let_def split: if_splits)

lemma hba_wake_fields:
  assumes "hba_wake cf c H = Some (Inr H')" "hba_gtid H c = gtid_of l" "loc_ok l"
  shows "hba_allocated_cmd H' = hba_allocated_cmd H" "hba_active_cmd H' = (hba_active_cmd H)(c := 0)"
    "hba_gtid H' = hba_gtid H" "hba_table H' = hba_table H" "hba_list H' = hba_list H" "hba_reg H' = hba_reg H"
    "norun_of cf H' l' = (if ioc_slot cf (fst l') (snd l') = ioc_slot cf (fst l) (snd l)
       then norun_of cf H l AND NOT NORUN_MASK_IOC else norun_of cf H l')"
proof -
  obtain s where s: "ioc_wakeup cf (gtid_of l) (hba_kernel H) = Some (Inr s)"
    "H' = H\<lparr>hba_active_cmd := (hba_active_cmd H)(c := 0), hba_kernel := s\<rparr>"
    using assms(1,2) by (auto simp: hba_wake_def obind_Inr)
  then show "hba_allocated_cmd H' = hba_allocated_cmd H" "hba_active_cmd H' = (hba_active_cmd H)(c := 0)"
    "hba_gtid H' = hba_gtid H" "hba_table H' = hba_table H" "hba_list H' = hba_list H" "hba_reg H' = hba_reg H" by simp_all
  have "schedulers s = schedulers (update_slot CTX_NORUN_ID (\<lambda>v. atomic_and v (NOT NORUN_MASK_IOC)) (ioc_slot cf (fst l) (snd l)) (hba_kernel H))"
    using s(1) ioc_wakeup_slot [OF assms(3)] xcu_send_wti_schedulers by simp
  then show "norun_of cf H' l' = (if ioc_slot cf (fst l') (snd l') = ioc_slot cf (fst l) (snd l)
       then norun_of cf H l AND NOT NORUN_MASK_IOC else norun_of cf H l')"
    using s(2) by (auto simp: norun_of_def ioc_slot_def update_slot_ctx atomic_and_def)
qed

section \<open>Invariant\<close>

fun slot_of :: "hba_pc \<Rightarrow> nat option" where
  "slot_of H_out = None"
| "slot_of (H_wait r) = None"
| "slot_of (H_have r c) = Some c"
| "slot_of (H_ready r c) = Some c"
| "slot_of (H_blocked r c) = Some c"
| "slot_of (H_started r c) = Some c"
| "slot_of (H_asleep r c) = Some c"

fun in_isr :: "isr_pc \<Rightarrow> nat \<Rightarrow> bool" where
  "in_isr (I_pxci active) c = bit active c"
| "in_isr (I_wake cs) c = (c \<in> set cs)"
| "in_isr _ c = False"

fun in_wake :: "isr_pc \<Rightarrow> nat \<Rightarrow> bool" where
  "in_wake (I_wake cs) c = (c \<in> set cs)"
| "in_wake _ c = False"

definition running :: "hba \<Rightarrow> nat \<Rightarrow> bool" where
  "running H c \<longleftrightarrow> bit (hba_reg H HBA_PXCI) c"

definition quiet_cmd :: "hba \<Rightarrow> isr_pc \<Rightarrow> nat \<Rightarrow> bool" where
  "quiet_cmd H p c \<longleftrightarrow> hba_active_cmd H c \<noteq> 1 \<and> \<not> running H c \<and> \<not> in_isr p c"

definition armed :: "hba \<Rightarrow> u32 \<times> u32 \<Rightarrow> hba_request \<Rightarrow> nat \<Rightarrow> bool" where
  "armed H l r c \<longleftrightarrow> hba_gtid H c = gtid_of l \<and> hba_table H c = fill_table r \<and> fill_desc r (hba_list H c) = hba_list H c"

definition asleep :: "hard_config \<Rightarrow> hba \<Rightarrow> u32 \<times> u32 \<Rightarrow> bool" where
  "asleep cf H l \<longleftrightarrow> norun_of cf H l AND NORUN_MASK_IOC \<noteq> 0"

fun task_inv :: "hard_config \<Rightarrow> hba \<Rightarrow> isr_pc \<Rightarrow> u32 \<times> u32 \<Rightarrow> hba_pc \<Rightarrow> bool" where
  "task_inv cf H p l (H_have r c) = quiet_cmd H p c"
| "task_inv cf H p l (H_ready r c) = (quiet_cmd H p c \<and> armed H l r c)"
| "task_inv cf H p l (H_blocked r c) = (quiet_cmd H p c \<and> armed H l r c \<and> asleep cf H l)"
| "task_inv cf H p l (H_started r c) = (hba_active_cmd H c \<noteq> 1 \<and> \<not> in_isr p c \<and> armed H l r c \<and> asleep cf H l)"
| "task_inv cf H p l (H_asleep r c) = (armed H l r c \<and>
     (if asleep cf H l then hba_active_cmd H c = 1 \<and> (in_wake p c \<longrightarrow> \<not> running H c) else quiet_cmd H p c))"
| "task_inv cf H p l _ = True"

definition hba_inv :: "hard_config \<Rightarrow> (nat \<Rightarrow> u32 \<times> u32) \<Rightarrow> nat \<Rightarrow> hba_sys \<Rightarrow> bool" where
  "hba_inv cf loc n s \<longleftrightarrow>
     (\<forall>i<n. \<forall>c. slot_of (hpc s i) = Some c \<longrightarrow> c < 32 \<and> hba_allocated_cmd (sys_hba s) c \<noteq> 0) \<and>
     (\<forall>i<n. \<forall>j<n. \<forall>c. slot_of (hpc s i) = Some c \<longrightarrow> slot_of (hpc s j) = Some c \<longrightarrow> i = j) \<and>
     (\<forall>c<32. (\<forall>i<n. slot_of (hpc s i) \<noteq> Some c) \<longrightarrow> quiet_cmd (sys_hba s) (ipc s) c) \<and>
     (\<forall>i<n. task_inv cf (sys_hba s) (ipc s) (loc i) (hpc s i)) \<and>
     (\<forall>cs. ipc s = I_wake cs \<longrightarrow> distinct cs \<and> set cs \<subseteq> {..<32})"

text \<open>What the invariant of a task says of a slot depends on this slot only, and on whether the task is blocked.\<close>

lemma task_inv_frame:
  assumes "task_inv cf H p l pc" "asleep cf H' l = asleep cf H l"
    and "\<And>c. slot_of pc = Some c \<Longrightarrow> hba_active_cmd H' c = hba_active_cmd H c \<and> running H' c = running H c \<and>
       hba_gtid H' c = hba_gtid H c \<and> hba_table H' c = hba_table H c \<and> hba_list H' c = hba_list H c \<and>
       in_isr p' c = in_isr p c \<and> in_wake p' c = in_wake p c"
  shows "task_inv cf H' p' l pc"
  using assms by (cases pc; cases "asleep cf H l") (simp_all add: quiet_cmd_def armed_def)

definition locs_ok :: "hard_config \<Rightarrow> (nat \<Rightarrow> u32 \<times> u32) \<Rightarrow> nat \<Rightarrow> bool" where
  "locs_ok cf loc n \<longleftrightarrow> (\<forall>i<n. loc_ok (loc i)) \<and>
     (\<forall>i<n. \<forall>j<n. ioc_slot cf (fst (loc i)) (snd (loc i)) = ioc_slot cf (fst (loc j)) (snd (loc j)) \<longrightarrow> i = j)"

text \<open>The stages of task \<open>i\<close> that leave it with slot \<open>c\<close>: they change this slot only, and whether the task is blocked.\<close>

lemma inv_own_step:
  assumes inv: "hba_inv cf loc n s" and i: "i < n" "slot_of (hpc s i) = None \<or> slot_of (hpc s i) = Some c" "c < 32"
    and other: "\<And>j. j < n \<Longrightarrow> j \<noteq> i \<Longrightarrow> slot_of (hpc s j) \<noteq> Some c"
    and pc: "slot_of pc = Some c" and al: "hba_allocated_cmd H c \<noteq> 0" "\<And>d. d \<noteq> c \<Longrightarrow> hba_allocated_cmd H d = hba_allocated_cmd (sys_hba s) d"
    and fr: "\<And>d. d \<noteq> c \<Longrightarrow> hba_active_cmd H d = hba_active_cmd (sys_hba s) d \<and> running H d = running (sys_hba s) d \<and>
       hba_gtid H d = hba_gtid (sys_hba s) d \<and> hba_table H d = hba_table (sys_hba s) d \<and> hba_list H d = hba_list (sys_hba s) d \<and>
       in_isr p d = in_isr (ipc s) d \<and> in_wake p d = in_wake (ipc s) d"
    and wk: "\<And>cs. p = I_wake cs \<Longrightarrow> distinct cs \<and> set cs \<subseteq> {..<32}"
    and nr: "\<And>j. j < n \<Longrightarrow> j \<noteq> i \<Longrightarrow> asleep cf H (loc j) = asleep cf (sys_hba s) (loc j)"
    and own: "task_inv cf H p (loc i) pc"
  shows "hba_inv cf loc n (s\<lparr>sys_hba := H, hpc := (hpc s)(i := pc), ipc := p\<rparr>)"
proof -
  have "task_inv cf H p (loc j) (hpc s j)" if j: "j < n" "j \<noteq> i" for j
  proof (rule task_inv_frame [where H = "sys_hba s" and p = "ipc s"])
    show "task_inv cf (sys_hba s) (ipc s) (loc j) (hpc s j)" using inv j unfolding hba_inv_def by blast
    show "asleep cf H (loc j) = asleep cf (sys_hba s) (loc j)" by (rule nr [OF j])
    fix d assume "slot_of (hpc s j) = Some d"
    then show "hba_active_cmd H d = hba_active_cmd (sys_hba s) d \<and> running H d = running (sys_hba s) d \<and>
       hba_gtid H d = hba_gtid (sys_hba s) d \<and> hba_table H d = hba_table (sys_hba s) d \<and> hba_list H d = hba_list (sys_hba s) d \<and>
       in_isr p d = in_isr (ipc s) d \<and> in_wake p d = in_wake (ipc s) d" using fr other [OF j] by metis
  qed
  moreover have "quiet_cmd H p d" if "d < 32" "\<forall>j<n. slot_of (((hpc s)(i := pc)) j) \<noteq> Some d" for d
  proof -
    have "d \<noteq> c" using that(2) i(1) pc by auto
    moreover have "\<forall>j<n. slot_of (hpc s j) \<noteq> Some d" using that(2) i(2) \<open>d \<noteq> c\<close> by (metis fun_upd_apply option.inject option.distinct(1))
    then have "quiet_cmd (sys_hba s) (ipc s) d" using inv that(1) unfolding hba_inv_def by blast
    ultimately show ?thesis using fr by (simp add: quiet_cmd_def)
  qed
  moreover have "d < 32 \<and> hba_allocated_cmd H d \<noteq> 0" if "j < n" "j \<noteq> i" "slot_of (hpc s j) = Some d" for j d
    using inv that other [OF that(1,2)] al(2) unfolding hba_inv_def by (metis)
  moreover have "j = k" if "j < n" "k < n" "slot_of (((hpc s)(i := pc)) j) = Some d" "slot_of (((hpc s)(i := pc)) k) = Some d" for j k d
  proof -
    have "d = c" if "l < n" "l = i" "slot_of (((hpc s)(i := pc)) l) = Some d" for l using that pc by simp
    moreover have "slot_of (hpc s l) = Some d" if "l \<noteq> i" "slot_of (((hpc s)(i := pc)) l) = Some d" for l using that by simp
    moreover have "j = k" if "slot_of (hpc s j) = Some d" "slot_of (hpc s k) = Some d"
      using inv that \<open>j < n\<close> \<open>k < n\<close> unfolding hba_inv_def by blast
    ultimately show ?thesis using that other by metis
  qed
  ultimately show ?thesis unfolding hba_inv_def using own pc al(1) wk i(3) by auto
qed

text \<open>The steps of the controller and of the service routine that read, or clear bits.\<close>

lemma inv_shared_step:
  assumes inv: "hba_inv cf loc n s"
    and eq: "hba_allocated_cmd H = hba_allocated_cmd (sys_hba s)" "hba_active_cmd H = hba_active_cmd (sys_hba s)"
      "hba_gtid H = hba_gtid (sys_hba s)" "hba_table H = hba_table (sys_hba s)" "hba_list H = hba_list (sys_hba s)"
      "hba_kernel H = hba_kernel (sys_hba s)"
    and run: "\<And>c. running H c \<Longrightarrow> running (sys_hba s) c"
    and isr: "\<And>c. in_isr p c \<Longrightarrow> in_isr (ipc s) c \<or> hba_active_cmd (sys_hba s) c = 1"
    and wake: "\<And>c. in_wake p c \<Longrightarrow> in_wake (ipc s) c \<or> \<not> running H c"
    and wk: "\<And>cs. p = I_wake cs \<Longrightarrow> distinct cs \<and> set cs \<subseteq> {..<32}"
  shows "hba_inv cf loc n (s\<lparr>sys_hba := H, ipc := p\<rparr>)"
proof -
  have q: "quiet_cmd H p c" if "quiet_cmd (sys_hba s) (ipc s) c" for c
    using that run isr by (auto simp: quiet_cmd_def eq)
  have n: "asleep cf H l = asleep cf (sys_hba s) l" for l by (simp add: asleep_def norun_of_kernel [OF eq(6)])
  have "task_inv cf H p l pc" if "task_inv cf (sys_hba s) (ipc s) l pc" for l pc
    using that q isr run wake by (cases pc) (auto simp: armed_def eq n split: if_splits)
  then show ?thesis using inv q wk by (auto simp: hba_inv_def eq)
qed

end
