(* ===== verification/Hba_Properties.thy ===== *)
theory Hba_Properties
  imports Hba_Invariant Scheduler_Properties
begin

text \<open>
  The invariant of the command slots in every interleaving, what it gives to the tasks, and the wake-up that can be lost.
\<close>

section \<open>Every step keeps the invariant\<close>

lemma or_ioc: "(v OR NORUN_MASK_IOC) AND NORUN_MASK_IOC \<noteq> 0" "(v AND NOT NORUN_MASK_IOC) AND NORUN_MASK_IOC = 0"
proof -
  have "(v OR NORUN_MASK_IOC) AND NORUN_MASK_IOC = NORUN_MASK_IOC" by (rule bit_eqI) (auto simp: bit_simps)
  then show "(v OR NORUN_MASK_IOC) AND NORUN_MASK_IOC \<noteq> 0" by (simp add: NORUN_MASK_IOC_def)
  show "(v AND NOT NORUN_MASK_IOC) AND NORUN_MASK_IOC = 0" by (rule bit_eqI) (auto simp: bit_simps)
qed

lemma ioc_nonzero [simp]: "NORUN_MASK_IOC \<noteq> 0"
  by (simp add: NORUN_MASK_IOC_def)

lemma norun_unchanged:
  "norun_of cf (hba_prepare a b r c H) l = norun_of cf H l" "norun_of cf (hba_start c H) l = norun_of cf H l"
  "norun_of cf (hba_activate c H) l = norun_of cf H l"
  by (simp_all add: norun_of_def)

lemma hba_invD:
  assumes "hba_inv cf loc n s"
  shows "i < n \<Longrightarrow> slot_of (hpc s i) = Some c \<Longrightarrow> c < 32"
    "i < n \<Longrightarrow> slot_of (hpc s i) = Some c \<Longrightarrow> hba_allocated_cmd (sys_hba s) c \<noteq> 0"
    "i < n \<Longrightarrow> j < n \<Longrightarrow> slot_of (hpc s i) = Some c \<Longrightarrow> slot_of (hpc s j) = Some c \<Longrightarrow> i = j"
    "c < 32 \<Longrightarrow> (\<And>i. i < n \<Longrightarrow> slot_of (hpc s i) \<noteq> Some c) \<Longrightarrow> quiet_cmd (sys_hba s) (ipc s) c"
    "i < n \<Longrightarrow> task_inv cf (sys_hba s) (ipc s) (loc i) (hpc s i)"
    "ipc s = I_wake cs \<Longrightarrow> distinct cs \<and> set cs \<subseteq> {..<32}"
  using assms unfolding hba_inv_def by blast+

text \<open>A command that the service routine has found completed belongs to a task that sleeps.\<close>

lemma woken_owner:
  assumes "hba_inv cf loc n s" "in_isr (ipc s) c" "c < 32"
  obtains i r where "i < n" "hpc s i = H_asleep r c" "asleep cf (sys_hba s) (loc i)" "armed (sys_hba s) (loc i) r c"
proof -
  note inv = hba_invD [OF assms(1)]
  obtain i where i: "i < n" "slot_of (hpc s i) = Some c" using inv(4) [OF assms(3)] assms(2) unfolding quiet_cmd_def by blast
  with inv(5) [OF i(1)] assms(2) that [of i] show thesis
    by (cases "hpc s i") (auto simp: quiet_cmd_def split: if_splits)
qed

lemma hba_inv_step:
  assumes "hba_step cf loc n s s'" "hba_inv cf loc n s" "locs_ok cf loc n"
  shows "hba_inv cf loc n s'"
proof -
  note inv = hba_invD [OF assms(2)]
  note own = inv_own_step [OF assms(2)]
  have l: "ioc_slot cf (fst (loc j)) (snd (loc j)) \<noteq> ioc_slot cf (fst (loc i)) (snd (loc i))" if "i < n" "j < n" "j \<noteq> i" for i j
    using assms(3) that unfolding locs_ok_def by blast
  have lok: "loc_ok (loc i)" if "i < n" for i using assms(3) that unfolding locs_ok_def by blast
  have oth: "slot_of (hpc s j) \<noteq> Some c" if "slot_of (hpc s i) = Some c" "i < n" "j < n" "j \<noteq> i" for i j c
    using inv(3) that by blast
  show ?thesis
    using assms(1)
  proof cases
    case (call i r)
    have "quiet_cmd (sys_hba s) (ipc s) c" if "c < 32" "\<forall>j<n. slot_of (((hpc s)(i := H_wait r)) j) \<noteq> Some c" for c
    proof (rule inv(4) [OF that(1)])
      fix j assume "j < n"
      then show "slot_of (hpc s j) \<noteq> Some c" using that(2) call(3) by (cases "j = i") auto
    qed
    then show ?thesis using assms(2) call(1-3) unfolding hba_inv_def by (auto split: if_splits)
  next
    case (alloc i r c H)
    note a = hba_cmd_alloc_Some [OF alloc(4)]
    have free: "slot_of (hpc s j) \<noteq> Some c" if "j < n" for j using inv(2) [OF that] a(2) by blast
    have "quiet_cmd (sys_hba s) (ipc s) c" by (rule inv(4) [OF a(1) free])
    then have "hba_inv cf loc n (s\<lparr>sys_hba := H, hpc := (hpc s)(i := H_have r c), ipc := ipc s\<rparr>)"
      using alloc(2,3) a free
      by (intro own) (auto simp: quiet_cmd_def running_def asleep_def norun_of_def dest: inv(6))
    then show ?thesis using alloc(1) by simp
  next
    case (prepare i r c)
    have "slot_of (hpc s i) = Some c" using prepare(3) by simp
    note o = inv(1,2) [OF prepare(2) this] oth [OF this prepare(2)]
    have "hba_inv cf loc n (s\<lparr>sys_hba := hba_prepare (fst (loc i)) (snd (loc i)) r c (sys_hba s), hpc := (hpc s)(i := H_ready r c), ipc := ipc s\<rparr>)"
      using prepare(2,3) o inv(5) [OF prepare(2)]
      by (intro own) (auto simp: quiet_cmd_def armed_def running_def asleep_def norun_unchanged dest: inv(6))
    then show ?thesis using prepare(1) by simp
  next
    case (block i r c)
    have "slot_of (hpc s i) = Some c" using block(3) by simp
    note o = inv(1,2) [OF block(2) this] oth [OF this block(2)]
    have "hba_inv cf loc n (s\<lparr>sys_hba := hba_block cf (fst (loc i)) (snd (loc i)) (sys_hba s), hpc := (hpc s)(i := H_blocked r c), ipc := ipc s\<rparr>)"
      using block(2,3) o inv(5) [OF block(2)] l [OF block(2)]
      by (intro own) (auto simp: quiet_cmd_def armed_def running_def asleep_def norun_of_block or_ioc dest: inv(6))
    then show ?thesis using block(1) by simp
  next
    case (start i r c)
    have "slot_of (hpc s i) = Some c" using start(3) by simp
    note o = inv(1,2) [OF start(2) this] oth [OF this start(2)]
    have "hba_inv cf loc n (s\<lparr>sys_hba := hba_start c (sys_hba s), hpc := (hpc s)(i := H_started r c), ipc := ipc s\<rparr>)"
      using start(2,3) o inv(5) [OF start(2)]
      by (intro own) (auto simp: quiet_cmd_def armed_def running_def asleep_def norun_unchanged bit_or_iff bit_cmd_bit dest: inv(6))
    then show ?thesis using start(1) by simp
  next
    case (activate i r c)
    have "slot_of (hpc s i) = Some c" using activate(3) by simp
    note o = inv(1,2) [OF activate(2) this] oth [OF this activate(2)]
    have w: "in_wake p d \<Longrightarrow> in_isr p d" for p d by (cases p) simp_all
    have "hba_inv cf loc n (s\<lparr>sys_hba := hba_activate c (sys_hba s), hpc := (hpc s)(i := H_asleep r c), ipc := ipc s\<rparr>)"
      using activate(2,3) o inv(5) [OF activate(2)]
      by (intro own) (auto simp: quiet_cmd_def armed_def running_def asleep_def norun_unchanged dest: inv(6) w)
    then show ?thesis using activate(1) by simp
  next
    case (resume i r c ret H)
    have si: "slot_of (hpc s i) = Some c" using resume(3) by simp
    note o = inv(1,2) [OF resume(2) si] oth [OF si resume(2)]
    have H: "H = (sys_hba s)\<lparr>hba_allocated_cmd := (hba_allocated_cmd (sys_hba s))(c := 0)\<rparr>"
      by (rule finish_fields(1) [OF resume(5) o(2)])
    have same: "quiet_cmd H p d = quiet_cmd (sys_hba s) p d" "asleep cf H x = asleep cf (sys_hba s) x"
      "armed H x r' d = armed (sys_hba s) x r' d" "running H d = running (sys_hba s) d" "hba_active_cmd H = hba_active_cmd (sys_hba s)" for p d x r'
      by (simp_all add: H quiet_cmd_def asleep_def armed_def running_def norun_of_def)
    have t: "task_inv cf H p x pc = task_inv cf (sys_hba s) p x pc" for p x pc by (cases pc) (simp_all add: same)
    have q: "quiet_cmd (sys_hba s) (ipc s) c" using inv(5) [OF resume(2)] resume(3,4) by (simp add: asleep_def)
    have c: "quiet_cmd (sys_hba s) (ipc s) d" if "d < 32" "\<forall>j<n. slot_of (((hpc s)(i := H_out)) j) \<noteq> Some d" for d
    proof (cases "d = c")
      case False
      show ?thesis
      proof (rule inv(4) [OF that(1)])
        fix j assume "j < n"
        then show "slot_of (hpc s j) \<noteq> Some d" using that(2) si False by (cases "j = i") auto
      qed
    qed (simp add: q)
    have a: "d < 32 \<and> hba_allocated_cmd H d \<noteq> 0" if "j < n" "j \<noteq> i" "slot_of (hpc s j) = Some d" for j d
      using inv(1,2) [OF that(1,3)] o(3) [OF that(1,2)] that(3) by (auto simp: H)
    show ?thesis unfolding resume(1) hba_inv_def using inv(3,5,6) a c by (auto simp: t same split: if_splits)
  next
    case (complete c status)
    have "hba_inv cf loc n (s\<lparr>sys_hba := (sys_hba s)\<lparr>hba_reg := (hba_reg (sys_hba s))
      (HBA_PXCI := hba_reg (sys_hba s) HBA_PXCI AND NOT (cmd_bit c), HBA_PXIS := status)\<rparr>, ipc := ipc s\<rparr>)"
      by (rule inv_shared_step [OF assms(2)]) (auto simp: running_def hba_registers bit_simps dest: inv(6))
    then show ?thesis using complete(1) by simp
  next
    case isr_status
    show ?thesis unfolding isr_status(1)
      by (rule inv_shared_step [OF assms(2)]) (simp_all add: running_def)
  next
    case isr_reset
    show ?thesis unfolding isr_reset(1)
      by (rule inv_shared_step [OF assms(2)]) (simp_all add: running_def)
  next
    case isr_active
    have "hba_inv cf loc n (s\<lparr>sys_hba := sys_hba s, ipc := I_pxci (current_active (sys_hba s))\<rparr>)"
      by (rule inv_shared_step [OF assms(2)]) (simp_all add: bit_current_active)
    then show ?thesis using isr_active(1) by simp
  next
    case (isr_pxci active)
    have "hba_inv cf loc n (s\<lparr>sys_hba := sys_hba s, ipc := I_wake (completed active (hba_get_register HBA_PXCI (sys_hba s)))\<rparr>)"
      by (rule inv_shared_step [OF assms(2)])
        (auto simp: isr_pxci(2) set_completed distinct_completed running_def hba_get_register_def)
    then show ?thesis using isr_pxci(1) by simp
  next
    case (isr_wake c cs H)
    have c: "c < 32" "c \<notin> set cs" "distinct cs" "set cs \<subseteq> {..<32}" using inv(6) [OF isr_wake(2)] by auto
    obtain i r where i: "i < n" "hpc s i = H_asleep r c" "asleep cf (sys_hba s) (loc i)" "armed (sys_hba s) (loc i) r c"
      by (rule woken_owner [OF assms(2) _ c(1)]) (simp add: isr_wake(2))
    have "slot_of (hpc s i) = Some c" using i(2) by simp
    note o = inv(1,2) [OF i(1) this] oth [OF this i(1)]
    have "hba_gtid (sys_hba s) c = gtid_of (loc i)" using i(4) by (simp add: armed_def)
    note f = hba_wake_fields [OF isr_wake(3) this lok [OF i(1)]]
    have "\<not> running (sys_hba s) c" using inv(5) [OF i(1)] i(2,3) isr_wake(2) by simp
    then have "hba_inv cf loc n (s\<lparr>sys_hba := H, hpc := (hpc s)(i := hpc s i), ipc := I_wake cs\<rparr>)"
      using i o c f l [OF i(1)] or_ioc(2)
      by (intro own) (auto simp: isr_wake(2) quiet_cmd_def armed_def running_def asleep_def)
    then show ?thesis using isr_wake(1) by simp
  next
    case isr_end
    have "hba_inv cf loc n (s\<lparr>sys_hba := sys_hba s, ipc := I_idle\<rparr>)"
      by (rule inv_shared_step [OF assms(2)]) simp_all
    then show ?thesis using isr_end(1) by simp
  qed
qed

lemma hba_inv_start:
  assumes "hba_start_state s"
  shows "hba_inv cf loc n s"
proof -
  obtain a b H where s: "sys_hba s = hba_init a b H" "hba_reg H HBA_PXCI = 0" "\<forall>i. hpc s i = H_out" "ipc s = I_idle"
    using assms by (auto simp: hba_start_state_def)
  have "quiet_cmd (sys_hba s) (ipc s) c" if "c < 32" for c
    using that s(2) by (simp add: s(1,4) quiet_cmd_def running_def hba_init_def hba_set_register_def hba_registers Let_def)
  then show ?thesis by (simp add: hba_inv_def s(3,4))
qed

lemma hba_inv_reach:
  assumes "hba_reach cf loc n s0 s" "hba_inv cf loc n s0" "locs_ok cf loc n"
  shows "hba_inv cf loc n s"
  using assms by (induction rule: hba_reach.induct) (auto intro: hba_inv_step)

lemma step_status:
  assumes "hba_step cf loc n s s'" "hba_inv cf loc n s" "locs_ok cf loc n" "hba_status (sys_hba s) AND 0x40000000 \<noteq> 0"
  shows "hba_status (sys_hba s') = hba_status (sys_hba s)"
  using assms(1)
proof cases
  case (alloc i r c H)
  then show ?thesis using hba_cmd_alloc_Some(3) by fastforce
next
  case (resume i r c ret H)
  then show ?thesis using finish_fields(1) [OF resume(5)] hba_invD(2) [OF assms(2)] by fastforce
next
  case (isr_wake c cs H)
  then show ?thesis by (auto simp: hba_wake_def obind_Inr)
qed (use assms(4) in \<open>simp_all add: hba_prepare_def hba_fill_def hba_set_register_def hba_block_def hba_start_def hba_activate_def
      hba_save_status_def Let_def\<close>)

section \<open>Properties\<close>

text \<open>C24: After \<open>_hba_init\<close>, in every interleaving of the accesses of any number of tasks, of the controller and of its
  interrupt, a command slot belongs to one task; a command that the controller runs is the request of a task that waits for it,
  with this request in its descriptor and its table; and a task that is no longer blocked finds its
  command completed.\<close>

theorem hba_commands_exclusive:
  assumes "hba_start_state s0" "locs_ok cf loc n" "hba_reach cf loc n s0 s"
  shows "(\<forall>i<n. \<forall>j<n. \<forall>c. slot_of (hpc s i) = Some c \<and> slot_of (hpc s j) = Some c \<longrightarrow> i = j) \<and>
    (\<forall>c. running (sys_hba s) c \<longrightarrow> (\<exists>i<n. \<exists>r. hpc s i \<in> {H_started r c, H_asleep r c} \<and>
       hba_table (sys_hba s) c = fill_table r \<and> fill_desc r (hba_list (sys_hba s) c) = hba_list (sys_hba s) c)) \<and>
    (\<forall>i<n. \<forall>r c. hpc s i = H_asleep r c \<and> norun_of cf (sys_hba s) (loc i) AND NORUN_MASK_IOC = 0 \<longrightarrow> \<not> running (sys_hba s) c)"
proof -
  have "hba_inv cf loc n s" by (rule hba_inv_reach [OF assms(3) hba_inv_start [OF assms(1)] assms(2)])
  note inv = hba_invD [OF this]
  have "\<exists>i<n. \<exists>r. hpc s i \<in> {H_started r c, H_asleep r c} \<and>
       hba_table (sys_hba s) c = fill_table r \<and> fill_desc r (hba_list (sys_hba s) c) = hba_list (sys_hba s) c"
    if "running (sys_hba s) c" for c
  proof -
    have "c < 32" using that bit_imp_le_length [of "hba_reg (sys_hba s) HBA_PXCI" c] by (simp add: running_def)
    moreover have "\<not> quiet_cmd (sys_hba s) (ipc s) c" using that by (simp add: quiet_cmd_def)
    ultimately obtain i where i: "i < n" "slot_of (hpc s i) = Some c" using inv(4) by blast
    have t: "task_inv cf (sys_hba s) (ipc s) (loc i) (hpc s i)" by (rule inv(5) [OF i(1)])
    have "\<exists>r. hpc s i \<in> {H_started r c, H_asleep r c} \<and> armed (sys_hba s) (loc i) r c"
      using i(2) t that by (cases "hpc s i") (simp_all add: quiet_cmd_def)
    then show ?thesis using i(1) unfolding armed_def by blast
  qed
  moreover have "\<not> running (sys_hba s) c" if "i < n" "hpc s i = H_asleep r c" "norun_of cf (sys_hba s) (loc i) AND NORUN_MASK_IOC = 0" for i r c
    using inv(5) [OF that(1)] that(2,3) by (simp add: asleep_def quiet_cmd_def)
  ultimately show ?thesis using inv(3) by blast
qed

text \<open>C26: After one command has failed, the status that \<open>_hba_isr\<close> keeps is never updated again: every later access
  in descheduling mode, by any task, returns this error, whatever the status of its own command.\<close>

theorem hba_error_sticks:
  assumes "hba_start_state s0" "locs_ok cf loc n" "hba_reach cf loc n s0 s" "hba_reach cf loc n s s'"
    and "hba_status (sys_hba s) AND 0x40000000 \<noteq> 0"
  shows "hba_status (sys_hba s') = hba_status (sys_hba s) \<and>
    (\<forall>i<n. \<forall>r c. hpc s' i = H_asleep r c \<longrightarrow> fst (hba_finish c (sys_hba s')) = hba_status (sys_hba s))"
proof -
  have inv: "hba_inv cf loc n s" by (rule hba_inv_reach [OF assms(3) hba_inv_start [OF assms(1)] assms(2)])
  from assms(4) have st: "hba_status (sys_hba s') = hba_status (sys_hba s)"
  proof (induction rule: hba_reach.induct)
    case (step s' s'')
    have "hba_inv cf loc n s'" by (rule hba_inv_reach [OF step(1) inv assms(2)])
    then show ?case using step_status [OF step(2) _ assms(2)] step(3) assms(5) by simp
  qed simp
  have inv': "hba_inv cf loc n s'" by (rule hba_inv_reach [OF assms(4) inv assms(2)])
  have "fst (hba_finish c (sys_hba s')) = hba_status (sys_hba s)" if "i < n" "hpc s' i = H_asleep r c" for i r c
  proof -
    obtain ret H where f: "hba_finish c (sys_hba s') = (ret, H)" by fastforce
    have "hba_allocated_cmd (sys_hba s') c \<noteq> 0" using hba_invD(2) [OF inv' that(1)] that(2) by simp
    from finish_fields(2) [OF f this] st assms(5) f show ?thesis by simp
  qed
  with st show ?thesis by blast
qed

section \<open>A wake-up that is lost\<close>

text \<open>One task, on processor 1, reads a block. The command completes before the task has marked it as active.\<close>

definition demo_request :: hba_request where
  "demo_request = \<lparr>req_to_mem = True, req_lba = 7, req_paddr = 0x1000, req_count = 1\<rparr>"

definition demo_loc :: "nat \<Rightarrow> u32 \<times> u32" where
  "demo_loc i = (1, 0)"

definition demo_hba :: hba where
  "demo_hba = hba_init 0x10000 0x20000 \<lparr>hba_kernel = tiny_state, hba_allocated_cmd = (\<lambda>_. 0), hba_active_cmd = (\<lambda>_. 0),
     hba_gtid = (\<lambda>_. 0), hba_status = 0, hba_list = (\<lambda>_. \<lparr>flag0 = 0, prdtl0 = 0, prdtl1 = 0, ctba = 0, ctbau = 0\<rparr>),
     hba_table = (\<lambda>_. \<lparr>lba0 = 0, lba1 = 0, lba2 = 0, lba3 = 0, lba4 = 0, lba5 = 0, dba = 0, dbau = 0, dbc = 0\<rparr>), hba_reg = (\<lambda>_. 0)\<rparr>"

definition demo_sys :: hba_sys where
  "demo_sys = \<lparr>sys_hba = demo_hba, hpc = (\<lambda>_. H_out), ipc = I_idle, hba_ret = (\<lambda>_. 0)\<rparr>"

definition demo_started :: hba where
  "demo_started = hba_start 0 (hba_block tiny_config 1 0 (hba_prepare 1 0 demo_request 0
     (demo_hba\<lparr>hba_allocated_cmd := (hba_allocated_cmd demo_hba)(0 := 1)\<rparr>)))"

definition demo_completed :: "u32 \<Rightarrow> hba" where
  "demo_completed status = demo_started\<lparr>hba_reg := (hba_reg demo_started)
     (HBA_PXCI := hba_reg demo_started HBA_PXCI AND NOT (cmd_bit 0), HBA_PXIS := status)\<rparr>"

definition demo_served :: "u32 \<Rightarrow> hba" where
  "demo_served status = hba_set_register HBA_PXIS 0 (hba_save_status (demo_completed status))"

lemma demo_facts:
  "hba_cmd_alloc demo_hba = Some (0, demo_hba\<lparr>hba_allocated_cmd := (hba_allocated_cmd demo_hba)(0 := 1)\<rparr>)"
  "hba_start_state demo_sys" "locs_ok tiny_config demo_loc 1"
  "hba_reg demo_started HBA_PXCI = 1" "hba_reg (demo_completed st) HBA_PXCI = 0" "hba_reg (demo_completed st) HBA_PXIS = st"
proof -
  have u: "[0..<32] = 0 # [1..<32]" by (simp add: upt_conv_Cons)
  show "hba_cmd_alloc demo_hba = Some (0, demo_hba\<lparr>hba_allocated_cmd := (hba_allocated_cmd demo_hba)(0 := 1)\<rparr>)"
    unfolding hba_cmd_alloc_def u by (simp add: demo_hba_def hba_init_def hba_set_register_def Let_def)
  show "hba_start_state demo_sys"
    unfolding hba_start_state_def demo_sys_def demo_hba_def by (simp, intro exI conjI, rule refl, simp)
  show "locs_ok tiny_config demo_loc 1" by (auto simp: locs_ok_def loc_ok_def demo_loc_def)
  show c: "hba_reg demo_started HBA_PXCI = 1"
  proof -
    have "hba_reg demo_hba HBA_PXCI = 0" by (simp add: demo_hba_def hba_init_def hba_set_register_def hba_registers Let_def)
    then show ?thesis by (simp add: demo_started_def cmd_bit_def)
  qed
  show "hba_reg (demo_completed st) HBA_PXCI = 0" "hba_reg (demo_completed st) HBA_PXIS = st"
    using c by (simp_all add: demo_completed_def cmd_bit_def hba_registers)
qed

definition demo_state :: "hba \<Rightarrow> hba_pc \<Rightarrow> isr_pc \<Rightarrow> hba_sys" where
  "demo_state H pc ip = \<lparr>sys_hba = H, hpc = (\<lambda>_. H_out)(0 := pc), ipc = ip, hba_ret = (\<lambda>_. 0)\<rparr>"

lemma demo_state_fields [simp]:
  "sys_hba (demo_state H pc ip) = H" "hpc (demo_state H pc ip) 0 = pc" "ipc (demo_state H pc ip) = ip"
  "(demo_state H pc ip)\<lparr>sys_hba := H'\<rparr> = demo_state H' pc ip" "(demo_state H pc ip)\<lparr>ipc := ip'\<rparr> = demo_state H pc ip'"
  "(demo_state H pc ip)\<lparr>hpc := (hpc (demo_state H1 pc1 ip1))(0 := pc')\<rparr> = demo_state H pc' ip"
  by (simp_all add: demo_state_def)

lemma demo_sys_state: "demo_sys = demo_state demo_hba H_out I_idle"
  by (simp add: demo_sys_def demo_state_def fun_eq_iff)

lemma demo_active: "hba_active_cmd (demo_served st) c = 0" if "c < 32"
  using that by (simp add: demo_served_def demo_completed_def demo_started_def demo_hba_def hba_init_def hba_set_register_def Let_def)

lemma demo_trace_started:
  "hba_reach tiny_config demo_loc 1 demo_sys (demo_state demo_started (H_started demo_request 0) I_idle)"
proof -
  let ?R = "hba_reach tiny_config demo_loc 1 demo_sys"
  let ?s = "demo_state"
  let ?r = demo_request
  let ?H1 = "demo_hba\<lparr>hba_allocated_cmd := (hba_allocated_cmd demo_hba)(0 := 1)\<rparr>"
  note st = hba_reach.step [where cf = tiny_config and loc = demo_loc and n = 1 and ?s0.0 = demo_sys]
  have 1: "?R (?s demo_hba (H_wait ?r) I_idle)"
    using st [OF hba_reach.start hba_step.call [of 0 1 demo_sys ?r]]
    by (simp add: demo_sys_state demo_request_def)
  have 2: "?R (?s ?H1 (H_have ?r 0) I_idle)"
    using st [OF 1 hba_step.alloc [of 0 1 _ ?r, where c = 0 and H = ?H1]] demo_facts(1) by simp
  have 3: "?R (?s (hba_prepare 1 0 ?r 0 ?H1) (H_ready ?r 0) I_idle)"
    using st [OF 2 hba_step.prepare [of 0 1 _ ?r 0]] by (simp add: demo_loc_def)
  have 4: "?R (?s (hba_block tiny_config 1 0 (hba_prepare 1 0 ?r 0 ?H1)) (H_blocked ?r 0) I_idle)"
    using st [OF 3 hba_step.block [of 0 1 _ ?r 0]] by (simp add: demo_loc_def)
  show ?thesis
    using st [OF 4 hba_step.start [of 0 1 _ ?r 0]] by (simp add: demo_started_def)
qed

lemma demo_trace:
  assumes "status \<noteq> 0"
  shows "hba_reach tiny_config demo_loc 1 demo_sys
    (demo_state (demo_served status) (H_started demo_request 0) I_idle)"
proof -
  let ?R = "hba_reach tiny_config demo_loc 1 demo_sys"
  let ?s = "demo_state"
  let ?r = demo_request
  note st = hba_reach.step [where cf = tiny_config and loc = demo_loc and n = 1 and ?s0.0 = demo_sys]
  note 5 = demo_trace_started
  have 6: "?R (?s (demo_completed status) (H_started ?r 0) I_idle)"
    using st [OF 5 hba_step.complete [of 0 _ status]] demo_facts(4) assms by (simp add: demo_completed_def)
  have 7: "?R (?s (hba_save_status (demo_completed status)) (H_started ?r 0) I_reset)"
    using st [OF 6 hba_step.isr_status] demo_facts(6) assms by simp
  have 8: "?R (?s (demo_served status) (H_started ?r 0) I_active)"
    using st [OF 7 hba_step.isr_reset] by (simp add: demo_served_def)
  have "\<not> bit (current_active (demo_served status)) c" for c
    by (auto simp: bit_current_active demo_active)
  then have z: "current_active (demo_served status) = 0" by (intro bit_eqI) simp
  have 9: "?R (?s (demo_served status) (H_started ?r 0) (I_pxci 0))"
    using st [OF 8 hba_step.isr_active] z by simp
  have 10: "?R (?s (demo_served status) (H_started ?r 0) (I_wake []))"
    using st [OF 9 hba_step.isr_pxci] by (simp add: completed_def)
  show ?thesis using st [OF 10 hba_step.isr_end] by simp
qed

text \<open>C25: A task can sleep for ever on a command that has completed: the driver starts a command before it marks it as active, and
  an interrupt served in between by another processor ignores it. From the state below, which one
  access reaches, no step of any part of the system is possible.\<close>

theorem hba_wakeup_lost:
  "\<exists>s r c. hba_reach tiny_config demo_loc 1 demo_sys s \<and> hpc s 0 = H_asleep r c \<and> \<not> running (sys_hba s) c \<and>
     norun_of tiny_config (sys_hba s) (demo_loc 0) AND NORUN_MASK_IOC \<noteq> 0 \<and> (\<forall>s'. \<not> hba_step tiny_config demo_loc 1 s s')"
proof -
  let ?H = "hba_activate 0 (demo_served 1)"
  let ?s = "demo_state ?H (H_asleep demo_request 0) I_idle"
  have "hba_reach tiny_config demo_loc 1 demo_sys ?s"
    using hba_reach.step [OF demo_trace hba_step.activate [of 0 1 _ demo_request 0], of 1] by simp
  moreover have ci: "hba_reg ?H HBA_PXCI = 0" "hba_reg ?H HBA_PXIS = 0"
    using demo_facts(5) by (simp_all add: demo_served_def hba_set_register_def hba_registers)
  moreover have nr: "norun_of tiny_config ?H (demo_loc 0) AND NORUN_MASK_IOC \<noteq> 0"
  proof -
    have "norun_of tiny_config ?H (demo_loc 0) = norun_of tiny_config (hba_block tiny_config (fst (demo_loc 0)) (snd (demo_loc 0))
        (hba_prepare 1 0 demo_request 0 (demo_hba\<lparr>hba_allocated_cmd := (hba_allocated_cmd demo_hba)(0 := 1)\<rparr>))) (demo_loc 0)"
      by (simp add: norun_of_def demo_served_def demo_completed_def demo_started_def demo_loc_def hba_save_status_def)
    then show ?thesis by (simp add: norun_of_block or_ioc(1))
  qed
  moreover have "\<not> hba_step tiny_config demo_loc 1 ?s s'" for s'
  proof
    assume "hba_step tiny_config demo_loc 1 ?s s'"
    then show False by cases (use ci nr in auto)
  qed
  ultimately show ?thesis by (intro exI [of _ ?s] exI [of _ demo_request] exI [of _ 0]) (simp add: running_def)
qed

section \<open>Witnesses\<close>

text \<open>The command is running; and, later, the interrupt has been served, with an error status, while the task goes to sleep.\<close>

lemma hba_commands_exclusive_witness:
  "running demo_started 0 \<and> (\<exists>i<1. \<exists>r. hpc (demo_state demo_started (H_started demo_request 0) I_idle) i \<in> {H_started r 0, H_asleep r 0} \<and>
       hba_table demo_started 0 = fill_table r \<and> fill_desc r (hba_list demo_started 0) = hba_list demo_started 0)"
proof -
  have "running demo_started 0" using demo_facts(4) by (simp add: running_def)
  with hba_commands_exclusive [OF demo_facts(2,3) demo_trace_started] show ?thesis unfolding demo_state_fields(1) by blast
qed

lemma hba_error_sticks_witness:
  "hba_status (demo_served 0x40000000) = 0x40000000 \<and>
   hba_status (hba_activate 0 (demo_served 0x40000000)) = 0x40000000 \<and>
   fst (hba_finish 0 (hba_activate 0 (demo_served 0x40000000))) = 0x40000000"
proof -
  let ?s = "demo_state (demo_served 0x40000000) (H_started demo_request 0) I_idle"
  let ?t = "demo_state (hba_activate 0 (demo_served 0x40000000)) (H_asleep demo_request 0) I_idle"
  have r: "hba_reach tiny_config demo_loc 1 demo_sys ?s" by (rule demo_trace) simp
  have t: "hba_reach tiny_config demo_loc 1 ?s ?t"
    using hba_reach.step [OF hba_reach.start hba_step.activate [of 0 1 ?s demo_request 0]] by simp
  have "hba_status demo_started = hba_status demo_hba"
    unfolding demo_started_def by (simp add: hba_start_def hba_set_register_def hba_block_def hba_prepare_def hba_fill_def Let_def)
  moreover have "hba_status demo_hba = 0" by (simp add: demo_hba_def hba_init_def hba_set_register_def Let_def)
  ultimately have "hba_status (demo_completed 0x40000000) = 0" by (simp add: demo_completed_def)
  then have st: "hba_status (demo_served 0x40000000) = 0x40000000"
    using demo_facts(6) [of "0x40000000"] by (simp add: demo_served_def hba_set_register_def hba_save_status_def hba_get_register_def)
  have "hba_status (sys_hba ?s) AND 0x40000000 \<noteq> 0" using st by simp
  note e = hba_error_sticks [OF demo_facts(2,3) r t this]
  have "fst (hba_finish 0 (sys_hba ?t)) = hba_status (sys_hba ?s)"
    using e [THEN conjunct2, THEN spec, of 0] by simp
  with e [THEN conjunct1] st show ?thesis by simp
qed

end
