(* ===== verification/Boot_Load.thy ===== *)
theory Boot_Load
  imports Page_Tables
begin

text \<open>
  The loading of the programs by the boot loader: the copy between physical addresses
  (\<open>_physical_memcpy\<close> of \<open>giet_common/utils.c\<close>), and \<open>load_one_elf_file\<close> and \<open>boot_elf_load\<close> of
  \<open>giet_boot/boot.c\<close>, which every first processor of a cluster executes: after the file is in the buffer of
  cluster 0, each of them copies the segments that belong to its cluster. The buffer \<open>_boot_elf_buffer\<close> is in the
  physical memory, at an address that is both virtual and physical. The load of the file from the disk is
  an argument, as is what the DMA engine of a cluster does.
\<close>

section \<open>Copies of physical memory\<close>

fun ph_memcpy_loop :: "u32 \<Rightarrow> u32 \<Rightarrow> nat \<Rightarrow> u32 \<Rightarrow> u32 \<Rightarrow> phys_mem \<Rightarrow> phys_mem option" where
  "ph_memcpy_loop src_msb dst_msb 0 src dst ph = Some ph"
| "ph_memcpy_loop src_msb dst_msb (Suc iter) src dst ph =
     (let ph = ph(extended dst_msb dst := ph (extended src_msb src))
      in Option.bind (addi src 4) (\<lambda>src. Option.bind (addi dst 4) (\<lambda>dst. ph_memcpy_loop src_msb dst_msb iter src dst ph)))"

text \<open>
  The counter is decremented before it is tested: with no word to copy it becomes negative, and the loop goes on until an
  addition traps. That case, as any trap, has the result \<open>None\<close>.
\<close>

definition physical_memcpy :: "u64 \<Rightarrow> u64 \<Rightarrow> u32 \<Rightarrow> phys_mem \<Rightarrow> (panic + phys_mem) option" where
  "physical_memcpy dst_paddr src_paddr sz ph =
     (if dst_paddr AND 3 \<noteq> 0 \<or> src_paddr AND 3 \<noteq> 0 \<or> sz AND 3 \<noteq> 0 then Some (Inl Copy_unaligned)
      else if drop_bit 2 sz = 0 then None
      else map_option Inr (ph_memcpy_loop (ucast (drop_bit 32 src_paddr)) (ucast (drop_bit 32 dst_paddr))
             (unat (drop_bit 2 sz)) (ucast src_paddr) (ucast dst_paddr) ph))"

text \<open>
  What differs from one machine to the other. \<open>dma_engine cluster dst src size\<close> is the status of the destination channel
  when it is no more busy, and the memory, once the two channels of the coprocessor have been started.
\<close>

record load_config =
  lY_WIDTH :: nat
  elf_buffer :: u32
  use_mwr_cpy :: bool
  dma_engine :: "u32 \<Rightarrow> u64 \<Rightarrow> u64 \<Rightarrow> u32 \<Rightarrow> phys_mem \<Rightarrow> u32 \<times> phys_mem"

definition dma_size :: "u32 \<Rightarrow> u32" where
  "dma_size sz = (if sz AND 0x3F \<noteq> 0 then (sz AND NOT 0x3F) + 0x40 else sz)"

definition boot_dma_copy :: "load_config \<Rightarrow> u32 \<Rightarrow> u64 \<Rightarrow> u64 \<Rightarrow> u32 \<Rightarrow> phys_mem \<Rightarrow> (panic + phys_mem) option" where
  "boot_dma_copy L cluster_xy dst_paddr src_paddr sz ph =
     (let (status, ph) = dma_engine L cluster_xy dst_paddr src_paddr (dma_size sz) ph
      in Some (if status \<noteq> 0 then Inl Copy_error else Inr ph))"

section \<open>The file\<close>

text \<open>The fields that the loader reads. An address that is not aligned is a fault (\<open>None\<close>).\<close>

record elf_phdr =
  p_type :: u32
  p_offset :: u32
  p_vaddr :: u32
  p_filesz :: u32
  p_memsz :: u32

definition PT_LOAD :: u32 where "PT_LOAD = 1"

definition ident_ok :: "u32 \<Rightarrow> phys_mem \<Rightarrow> bool" where
  "ident_ok buf ph =
     (let e_ident = (\<lambda>i. ucast (drop_bit (8 * i) (ph (ucast buf))) :: u8)
      in e_ident 0 = 0x7F \<and> e_ident 1 = 69 \<and> e_ident 2 = 76 \<and> e_ident 3 = 70)"

definition e_phoff :: "u32 \<Rightarrow> phys_mem \<Rightarrow> u32" where
  "e_phoff buf ph = ph (ucast (buf + 28))"

definition e_phnum :: "u32 \<Rightarrow> phys_mem \<Rightarrow> u32" where
  "e_phnum buf ph = ph (ucast (buf + 44)) AND 0xFFFF"

definition read_phdr :: "u32 \<Rightarrow> phys_mem \<Rightarrow> elf_phdr option" where
  "read_phdr base ph =
     (if base AND 3 \<noteq> 0 then None
      else Some \<lparr>p_type = ph (ucast base), p_offset = ph (ucast (base + 4)), p_vaddr = ph (ucast (base + 8)),
             p_filesz = ph (ucast (base + 16)), p_memsz = ph (ucast (base + 20))\<rparr>)"

section \<open>The copies of one processor\<close>

definition vseg_cluster :: "mapping_vseg \<Rightarrow> u32" where
  "vseg_cluster vseg = ucast (drop_bit 32 (pbase vseg))"

definition copy_segment :: "load_config \<Rightarrow> u32 \<Rightarrow> u64 \<Rightarrow> u64 \<Rightarrow> u32 \<Rightarrow> phys_mem \<Rightarrow> (panic + phys_mem) option" where
  "copy_segment L cluster_xy dst_paddr src_paddr sz ph =
     (if use_mwr_cpy L then boot_dma_copy L cluster_xy dst_paddr src_paddr sz ph else physical_memcpy dst_paddr src_paddr sz ph)"

text \<open>The loop on the vsegs, for one segment of the file; the boolean is \<open>found\<close>.\<close>

fun vseg_copies :: "load_config \<Rightarrow> u32 \<Rightarrow> u32 \<Rightarrow> elf_phdr \<Rightarrow> mapping_vseg list \<Rightarrow> bool \<Rightarrow> phys_mem \<Rightarrow> (panic + bool \<times> phys_mem) option" where
  "vseg_copies L x y seg [] found ph = Some (Inr (found, ph))"
| "vseg_copies L x y seg (vseg # vsl) found ph =
     (if p_vaddr seg \<noteq> vbase vseg then vseg_copies L x y seg vsl found ph
      else if vseg_length vseg < p_filesz seg then Some (Inl Vseg_too_small)
      else
        let cluster_xy = vseg_cluster vseg; cx = drop_bit (lY_WIDTH L) cluster_xy;
            cy = cluster_xy AND (push_bit (lY_WIDTH L) 1 - 1)
        in if cx = x \<and> cy = y
           then obind (copy_segment L cluster_xy (pbase vseg) (ucast (elf_buffer L + p_offset seg)) (p_filesz seg) ph)
                  (vseg_copies L x y seg vsl True)
           else vseg_copies L x y seg vsl True ph)"

fun segment_copies :: "load_config \<Rightarrow> u32 \<Rightarrow> u32 \<Rightarrow> mapping_vseg list \<Rightarrow> u32 \<Rightarrow> nat \<Rightarrow> phys_mem \<Rightarrow> (panic + phys_mem) option" where
  "segment_copies L x y vsl base 0 ph = Some (Inr ph)"
| "segment_copies L x y vsl base (Suc n) ph =
     (case read_phdr base ph of
        None \<Rightarrow> None
      | Some seg \<Rightarrow>
          if p_type seg \<noteq> PT_LOAD then segment_copies L x y vsl (base + 32) n ph
          else if p_memsz seg \<noteq> p_filesz seg then Some (Inl Bss_in_segment)
          else obind (vseg_copies L x y seg vsl False ph) (\<lambda>(found, ph).
            if \<not> found then Some (Inl No_matching_vseg) else segment_copies L x y vsl (base + 32) n ph))"

text \<open>The vsegs that are searched; reading past the table is \<open>None\<close>.\<close>

definition vseg_range :: "mapping \<Rightarrow> bool \<Rightarrow> nat \<Rightarrow> mapping_vseg list option" where
  "vseg_range mp is_kernel vspace_id =
     Option.bind (if is_kernel then Some (0, globals (hdr mp))
                  else map_option (\<lambda>vs. (vseg_offset vs, vspace_vsegs vs)) (fetch (vspace_table mp) vspace_id))
       (\<lambda>(first, n). if first + n \<le> length (vsegs mp) then Some (take n (drop first (vsegs mp))) else None)"

text \<open>What processor 0 of cluster \<open>(x, y)\<close> does between the two barriers.\<close>

definition copy_segments :: "load_config \<Rightarrow> mapping \<Rightarrow> bool \<Rightarrow> nat \<Rightarrow> u32 \<times> u32 \<Rightarrow> phys_mem \<Rightarrow> (panic + phys_mem) option" where
  "copy_segments L mp is_kernel vspace_id xy ph =
     (let offset = e_phoff (elf_buffer L) ph
      in if offset = 0 then Some (Inl No_elf_segment)
         else Option.bind (vseg_range mp is_kernel vspace_id) (\<lambda>vsl.
           segment_copies L (fst xy) (snd xy) vsl (elf_buffer L + offset) (unat (e_phnum (elf_buffer L) ph)) ph))"

section \<open>Loading the files\<close>

text \<open>
  \<open>load pathname\<close> is the result of \<open>_fat_load_no_cache\<close> and the memory after it. The processors of the
  clusters \<open>cs\<close> copy their segments one after the other: they write different clusters.
\<close>

definition elf_in_buffer :: "load_config \<Rightarrow> (string \<Rightarrow> phys_mem \<Rightarrow> int \<times> phys_mem) \<Rightarrow> string \<Rightarrow> phys_mem \<Rightarrow> panic + phys_mem" where
  "elf_in_buffer L load pathname ph =
     (let (ret, ph) = load pathname ph
      in if ret \<noteq> 0 then Inl File_not_found else if \<not> ident_ok (elf_buffer L) ph then Inl Not_elf_file else Inr ph)"

fun in_turn :: "('c \<Rightarrow> 's \<Rightarrow> (panic + 's) option) \<Rightarrow> 'c list \<Rightarrow> 's \<Rightarrow> (panic + 's) option" where
  "in_turn f [] s = Some (Inr s)"
| "in_turn f (c # cs) s = obind (f c s) (in_turn f cs)"

definition load_one_elf_file :: "load_config \<Rightarrow> (string \<Rightarrow> phys_mem \<Rightarrow> int \<times> phys_mem) \<Rightarrow> mapping \<Rightarrow> (u32 \<times> u32) list
    \<Rightarrow> bool \<Rightarrow> string \<Rightarrow> nat \<Rightarrow> phys_mem \<Rightarrow> (panic + phys_mem) option" where
  "load_one_elf_file L load mp cs is_kernel pathname vspace_id ph =
     obind (Some (elf_in_buffer L load pathname ph)) (in_turn (copy_segments L mp is_kernel vspace_id) cs)"

text \<open>The first vseg that names a file.\<close>

definition elf_vseg :: "mapping_vseg list \<Rightarrow> mapping_vseg option" where
  "elf_vseg vsl = find (\<lambda>vseg. vtype vseg = VSEG_TYPE_ELF) vsl"

fun load_vspaces :: "load_config \<Rightarrow> (string \<Rightarrow> phys_mem \<Rightarrow> int \<times> phys_mem) \<Rightarrow> mapping \<Rightarrow> (u32 \<times> u32) list \<Rightarrow> nat \<Rightarrow> nat
    \<Rightarrow> phys_mem \<Rightarrow> (panic + phys_mem) option" where
  "load_vspaces L load mp cs vspace_id 0 ph = Some (Inr ph)"
| "load_vspaces L load mp cs vspace_id (Suc n) ph =
     Option.bind (vseg_range mp False vspace_id) (\<lambda>vsl.
       case elf_vseg vsl of
         None \<Rightarrow> Some (Inl No_application_elf)
       | Some vseg \<Rightarrow> obind (load_one_elf_file L load mp cs False (vbinpath vseg) vspace_id ph) (load_vspaces L load mp cs (Suc vspace_id) n))"

definition boot_elf_load :: "load_config \<Rightarrow> (string \<Rightarrow> phys_mem \<Rightarrow> int \<times> phys_mem) \<Rightarrow> mapping \<Rightarrow> (u32 \<times> u32) list
    \<Rightarrow> phys_mem \<Rightarrow> (panic + phys_mem) option" where
  "boot_elf_load L load mp cs ph =
     Option.bind (vseg_range mp True 0) (\<lambda>vsl.
       case elf_vseg vsl of
         None \<Rightarrow> Some (Inl No_kernel_elf)
       | Some vseg \<Rightarrow> obind (load_one_elf_file L load mp cs True (vbinpath vseg) 0 ph)
           (load_vspaces L load mp cs 0 (vspaces (hdr mp))))"

end
