(* ===== verification/Boot_Load_Properties.thy ===== *)
theory Boot_Load_Properties
  imports Boot_Load
begin

text \<open>
  What is in the physical memory, and behind the page tables, after the boot loader has loaded a file.
\<close>

section \<open>Copies\<close>

text \<open>The memory after \<open>n\<close> words have been copied, between areas that do not overlap.\<close>

definition copied :: "u64 \<Rightarrow> u64 \<Rightarrow> nat \<Rightarrow> phys_mem \<Rightarrow> phys_mem" where
  "copied d s n ph = (\<lambda>a. if unat d \<le> unat a \<and> unat a < unat d + 4 * n \<and> (unat a - unat d) mod 4 = 0 then ph (s + (a - d)) else ph a)"

definition area :: "u64 \<Rightarrow> nat \<Rightarrow> nat set" where
  "area d n = {unat d..<unat d + 4 * n}"

definition no_trap :: "u32 \<Rightarrow> nat \<Rightarrow> bool" where
  "no_trap a n \<longleftrightarrow> sint a + 4 * int n < 2 ^ 31 \<and> unat a + 4 * n < 2 ^ 32"

lemma extended_split: "extended (ucast (drop_bit 32 a)) (ucast a) = (a :: u64)"
  by (rule bit_eqI) (auto simp: extended_def bit_simps)

lemma unat_u32_max: "unat (a :: u32) \<le> 4294967295"
  using unat_u32_bound [of a] by linarith

lemma unat_extended: "unat (extended m l) = 2 ^ 32 * unat m + unat l"
proof -
  have "push_bit 32 (ucast m) AND (ucast l :: u64) = 0"
    by (rule bit_eqI) (auto simp: bit_simps dest: bit_imp_le_length)
  then have e: "extended m l = push_bit 32 (ucast m) + ucast l" by (simp add: extended_def disjunctive_add_eq_or)
  have "unat (push_bit 32 (ucast m) :: u64) = 2 ^ 32 * unat m"
    using unat_u32_bound [of m] by (simp add: push_bit_eq_mult unat_mult_no_wrap unat_ucast_u64)
  moreover have "unat (ucast l :: u64) = unat l" by (simp add: unat_ucast_u64)
  ultimately show ?thesis unfolding e
    using unat_u32_max [of m] unat_u32_max [of l] by (subst unat_add_no_wrap) auto
qed

lemma addi_4:
  assumes "no_trap a (Suc n)"
  shows "addi a 4 = Some (a + 4)" "no_trap (a + 4) n" "extended m (a + 4) = extended m a + 4"
proof -
  have b: "sint a + 4 < 2 ^ 31" "unat a + 4 < 2 ^ 32" using assms by (simp_all add: no_trap_def)
  have "sint (a + 4) = signed_take_bit 31 (sint a + 4)" by (simp add: sint_word_ariths)
  also have "\<dots> = sint a + 4" using b sint_ge [of a] by (intro signed_take_bit_int_eq_self) simp_all
  finally have s: "sint (a + 4) = sint a + 4" .
  have u: "unat (a + 4) = unat a + 4" using b by (simp add: unat_add_no_wrap)
  show "addi a 4 = Some (a + 4)" using s by (simp add: addi_def)
  show "no_trap (a + 4) n" using assms s u by (simp add: no_trap_def)
  show "extended m (a + 4) = extended m a + 4"
  proof (rule unsigned_word_eqI)
    show "unat (extended m (a + 4)) = unat (extended m a + 4)"
      using b(2) u unat_u32_max [of m] by (subst unat_add_no_wrap) (auto simp: unat_extended)
  qed
qed

lemma copied_0 [simp]: "copied d s 0 ph = ph"
  by (auto simp: copied_def fun_eq_iff)

lemma word_steps:
  "d \<le> a \<and> a < d + 4 * Suc n \<and> (a - d) mod 4 = 0 \<longleftrightarrow> a = d \<or> d + 4 \<le> a \<and> a < d + 4 * Suc n \<and> (a - (d + 4)) mod 4 = 0"
  for a d n :: nat
  by presburger

lemma copied_Suc:
  assumes "unat d + 4 * Suc n \<le> 2 ^ 64" "unat s + 4 * Suc n \<le> 2 ^ 64" "area d (Suc n) \<inter> area s (Suc n) = {}"
  shows "copied (d + 4) (s + 4) n (ph(d := ph s)) = copied d s (Suc n) ph"
proof (cases "n = 0")
  case True
  show ?thesis
  proof
    fix a :: u64
    show "copied (d + 4) (s + 4) n (ph(d := ph s)) a = copied d s (Suc n) ph a"
    proof (cases "a = d")
      case False
      then have "unat a \<noteq> unat d" by (simp add: word_unat_eq_iff)
      then have "\<not> (unat d \<le> unat a \<and> unat a < unat d + 4 * Suc 0 \<and> (unat a - unat d) mod 4 = 0)" by presburger
      then have "copied d s (Suc 0) ph a = ph a" unfolding copied_def by (rule if_not_P)
      then show ?thesis using False unfolding True copied_0 by simp
    qed (simp add: True copied_def)
  qed
next
  case False
  then have d4: "unat (d + 4) = unat d + 4" using assms(1) by (subst unat_add_no_wrap) auto
  show ?thesis
  proof
    fix a :: u64
    let ?in = "unat d \<le> unat a \<and> unat a < unat d + 4 * Suc n \<and> (unat a - unat d) mod 4 = 0"
    have split: "?in \<longleftrightarrow> a = d \<or> unat d + 4 \<le> unat a \<and> unat a < unat d + 4 * Suc n \<and> (unat a - (unat d + 4)) mod 4 = 0"
      unfolding word_unat_eq_iff [of a d] by (rule word_steps)
    show "copied (d + 4) (s + 4) n (ph(d := ph s)) a = copied d s (Suc n) ph a"
    proof (cases "a = d")
      case True
      then show ?thesis by (simp add: copied_def d4)
    next
      case False
      have e: "s + 4 + (a - (d + 4)) = s + (a - d)" by simp
      have "s + (a - d) \<noteq> d" if ?in
      proof
        assume "s + (a - d) = d"
        have "unat (a - d) = unat a - unat d" using that by (simp add: unat_sub word_le_nat_alt)
        then have "unat (s + (a - d)) = unat s + (unat a - unat d)" using that assms(2) by (subst unat_add_no_wrap) auto
        then have "unat d = unat s + (unat a - unat d)" using \<open>s + (a - d) = d\<close> by simp
        then have "unat d \<in> area s (Suc n)" using that by (auto simp: area_def)
        moreover have "unat d \<in> area d (Suc n)" by (simp add: area_def)
        ultimately show False using assms(3) by blast
      qed
      then show ?thesis using False split by (auto simp: copied_def d4 e)
    qed
  qed
qed

lemma memcpy_loop_copied:
  assumes "no_trap s n" "no_trap d n" "area (extended dm d) n \<inter> area (extended sm s) n = {}"
  shows "ph_memcpy_loop sm dm n s d ph = Some (copied (extended dm d) (extended sm s) n ph)"
  using assms
proof (induction n arbitrary: s d ph)
  case (Suc n)
  note s = addi_4 [OF Suc.prems(1)] and d = addi_4 [OF Suc.prems(2)]
  have u: "unat (extended m a) + 4 * Suc n \<le> 2 ^ 64" if "no_trap a (Suc n)" for m a
    using that unat_u32_max [of m] by (simp add: no_trap_def unat_extended)
  have sub: "area (x + 4) n \<subseteq> area x (Suc n)" if "unat x + 4 * Suc n \<le> 2 ^ 64" for x :: u64
  proof (cases "n = 0")
    case False
    then have "unat (x + 4) = unat x + 4" using that by (subst unat_add_no_wrap) auto
    then show ?thesis by (auto simp: area_def)
  qed (simp add: area_def)
  have "area (extended dm (d + 4)) n \<inter> area (extended sm (s + 4)) n = {}"
    using sub [OF u [OF Suc.prems(1)], of sm] sub [OF u [OF Suc.prems(2)], of dm] Suc.prems(3) unfolding s(3) d(3) by blast
  from Suc.IH [OF s(2) d(2) this] show ?case
    using copied_Suc [OF u [OF Suc.prems(2)] u [OF Suc.prems(1)] Suc.prems(3), of ph]
    by (simp add: s(1,3) d(1,3) fun_upd_def)
qed simp

section \<open>Lists of copies\<close>

text \<open>A copy: destination, source, number of words.\<close>

type_synonym job = "u64 \<times> u64 \<times> nat"

definition perform :: "job list \<Rightarrow> phys_mem \<Rightarrow> phys_mem" where
  "perform js = fold (\<lambda>(d, s, n). copied d s n) js"

fun job_dst :: "job \<Rightarrow> nat set" where
  "job_dst (d, s, n) = area d n"

fun job_src :: "job \<Rightarrow> nat set" where
  "job_src (d, s, n) = area s n"

lemma perform_simps [simp]:
  "perform [] ph = ph" "perform (j # js) ph = perform js ((\<lambda>(d, s, n). copied d s n) j ph)"
  "perform (js @ js') ph = perform js' (perform js ph)"
  by (simp_all add: perform_def)

lemma copied_outside: "unat a \<notin> area d n \<Longrightarrow> copied d s n ph a = ph a"
  by (auto simp: copied_def area_def)

lemma perform_outside: "(\<And>j. j \<in> set js \<Longrightarrow> unat a \<notin> job_dst j) \<Longrightarrow> perform js ph a = ph a"
proof (induction js arbitrary: ph)
  case (Cons j js)
  obtain d s n where j: "j = (d, s, n)" by (cases j)
  have "unat a \<notin> area d n" using Cons.prems [of j] by (simp add: j)
  then show ?case using Cons.prems Cons.IH [of "copied d s n ph"] by (simp add: j copied_outside)
qed simp

lemma unat_word_at: "unat d + 4 * n \<le> 2 ^ 64 \<Longrightarrow> k < n \<Longrightarrow> unat (d + 4 * word_of_nat k :: u64) = unat d + 4 * k"
proof -
  assume b: "unat d + 4 * n \<le> 2 ^ 64" "k < n"
  then have "unat (word_of_nat k :: u64) = k" by (intro unat_of_nat_small) auto
  moreover from this have "unat (4 * word_of_nat k :: u64) = 4 * k" using b by (subst unat_mult_no_wrap) auto
  ultimately show ?thesis using b by (subst unat_add_no_wrap) auto
qed

lemma copied_at:
  assumes "unat d + 4 * n \<le> 2 ^ 64" "k < n"
  shows "copied d s n ph (d + 4 * word_of_nat k) = ph (s + 4 * word_of_nat k)"
  using unat_word_at [OF assms] assms(2) by (simp add: copied_def)

definition dst_apart :: "job \<Rightarrow> job \<Rightarrow> bool" where
  "dst_apart j j' \<longleftrightarrow> job_dst j \<inter> job_dst j' = {}"

lemma perform_at:
  assumes "sorted_wrt dst_apart js" "(d, s, n) \<in> set js" "k < n" "unat d + 4 * n \<le> 2 ^ 64" "unat s + 4 * n \<le> 2 ^ 64"
    and "\<And>j. j \<in> set js \<Longrightarrow> job_dst j \<inter> area s n = {}"
  shows "perform js ph (d + 4 * word_of_nat k) = ph (s + 4 * word_of_nat k)"
  using assms(1,2,6)
proof (induction js arbitrary: ph)
  case (Cons j js)
  obtain d' s' n' where j: "j = (d', s', n')" by (cases j)
  have src: "unat (s + 4 * word_of_nat k) \<in> area s n" using unat_word_at [OF assms(5,3)] assms(3) by (simp add: area_def)
  show ?case
  proof (cases "j = (d, s, n)")
    case True
    have "unat (d + 4 * word_of_nat k) \<notin> job_dst j'" if "j' \<in> set js" for j'
    proof -
      have "job_dst j \<inter> job_dst j' = {}" using Cons.prems(1) that by (simp add: dst_apart_def)
      moreover have "unat (d + 4 * word_of_nat k) \<in> job_dst j"
        using unat_word_at [OF assms(4,3)] assms(3) by (simp add: True area_def)
      ultimately show ?thesis by blast
    qed
    then show ?thesis using perform_outside [of js "d + 4 * word_of_nat k"] copied_at [OF assms(4,3)] by (simp add: True)
  next
    case False
    then have "(d, s, n) \<in> set js" using Cons.prems(2) by simp
    moreover have "copied d' s' n' ph (s + 4 * word_of_nat k) = ph (s + 4 * word_of_nat k)"
      using Cons.prems(3) [of j] src by (intro copied_outside) (auto simp: j)
    ultimately show ?thesis using Cons.IH [of "copied d' s' n' ph"] Cons.prems(1,3) by (simp add: j)
  qed
qed simp

section \<open>The copies of a segment\<close>

definition words_copied :: "load_config \<Rightarrow> u32 \<Rightarrow> nat" where
  "words_copied L sz = unat (if use_mwr_cpy L then dma_size sz else sz) div 4"

text \<open>The DMA engine, when there is one, copies its words and reports no error.\<close>

definition dma_copies :: "load_config \<Rightarrow> bool" where
  "dma_copies L \<longleftrightarrow> (use_mwr_cpy L \<longrightarrow> (\<forall>cxy d s sz ph. area d (unat sz div 4) \<inter> area s (unat sz div 4) = {} \<longrightarrow>
     dma_engine L cxy d s sz ph = (0, copied d s (unat sz div 4) ph)))"

text \<open>What can be copied, and the number of bytes that are written: the DMA engine copies blocks of 64 bytes.\<close>

definition cpy_len :: "load_config \<Rightarrow> u32 \<Rightarrow> nat" where
  "cpy_len L sz = (if use_mwr_cpy L then 64 * ((unat sz + 63) div 64) else unat sz)"

definition copy_ok :: "load_config \<Rightarrow> u64 \<Rightarrow> u64 \<Rightarrow> u32 \<Rightarrow> bool" where
  "copy_ok L d s sz \<longleftrightarrow> unat d + cpy_len L sz \<le> 2 ^ 64 \<and> (use_mwr_cpy L \<longrightarrow> unat sz \<le> 2 ^ 32 - 64) \<and>
     (\<not> use_mwr_cpy L \<longrightarrow> d AND 3 = 0 \<and> s AND 3 = 0 \<and> sz AND 3 = 0 \<and> 4 \<le> unat sz \<and>
        no_trap (ucast s) (unat sz div 4) \<and> no_trap (ucast d) (unat sz div 4))"

lemma round_up_64:
  fixes n :: nat
  shows "64 * ((n + 63) div 64) = (if n mod 64 = 0 then n else n - n mod 64 + 64)" "n \<le> 64 * ((n + 63) div 64)"
proof -
  obtain q r where n: "n = 64 * q + r" "r < 64" using div_mult_mod_eq [of n 64] by (metis mod_less_divisor mult.commute zero_less_numeral)
  have d: "(n + 63) div 64 = q + (r + 63) div 64" unfolding n(1) by (simp add: add.assoc)
  have "(r + 63) div 64 = (if r = 0 then 0 else 1)"
    using n(2) by (auto intro!: div_nat_eqI)
  then show "64 * ((n + 63) div 64) = (if n mod 64 = 0 then n else n - n mod 64 + 64)" "n \<le> 64 * ((n + 63) div 64)"
    unfolding d using n by auto
qed

lemma unat_dma_size:
  assumes "unat sz \<le> 2 ^ 32 - 64"
  shows "unat (dma_size sz) = 64 * ((unat sz + 63) div 64)"
proof -
  have m: "unat (sz AND 0x3F) = unat sz mod 64"
  proof -
    have "sz AND 0x3F = take_bit 6 sz" by (simp add: take_bit_eq_mask mask_eq_exp_minus_1)
    then show ?thesis by (simp add: unat_mod take_bit_eq_mod)
  qed
  have "sz = (sz AND NOT 0x3F) + (sz AND 0x3F)"
    by (subst disjunctive_add_eq_or) (auto simp: bit_simps intro!: bit_word_eqI)
  then have "sz AND NOT 0x3F = sz - (sz AND 0x3F)" by (simp add: algebra_simps)
  moreover have "sz AND 0x3F \<le> sz" using m by (simp add: word_le_nat_alt)
  ultimately have d: "unat (sz AND NOT 0x3F) = unat sz - unat sz mod 64" using m by (simp add: unat_sub_no_wrap)
  show ?thesis
  proof (cases "sz AND 0x3F = 0")
    case True
    then have "unat sz mod 64 = 0" using m by simp
    then have "64 * ((unat sz + 63) div 64) = unat sz" using round_up_64(1) [of "unat sz"] by simp
    then show ?thesis using True by (simp add: dma_size_def)
  next
    case False
    then have n: "unat sz mod 64 \<noteq> 0" using m by (metis unat_eq_zero)
    have "unat ((sz AND NOT 0x3F) + 0x40) = unat sz - unat sz mod 64 + 64"
      using d assms n by (subst unat_add_no_wrap) auto
    also have "\<dots> = 64 * ((unat sz + 63) div 64)" using n round_up_64(1) [of "unat sz"] by simp
    finally show ?thesis using False by (simp add: dma_size_def)
  qed
qed

lemma and_3_u32: "(v :: u32) AND 3 = 0 \<longleftrightarrow> unat v mod 4 = 0"
proof -
  have "v AND 3 = take_bit 2 v" by (simp add: take_bit_eq_mask mask_eq_exp_minus_1)
  then show ?thesis by (simp add: word_unat_eq_iff unsigned_take_bit_eq take_bit_eq_mod unat_mod)
qed

lemma words_copied_len:
  assumes "copy_ok L d s sz"
  shows "4 * words_copied L sz = cpy_len L sz" "unat sz \<le> cpy_len L sz"
proof -
  show "4 * words_copied L sz = cpy_len L sz"
  proof (cases "use_mwr_cpy L")
    case True
    then have "unat (dma_size sz) = 64 * ((unat sz + 63) div 64)" using assms by (intro unat_dma_size) (simp add: copy_ok_def)
    then show ?thesis using True by (simp add: words_copied_def cpy_len_def)
  next
    case False
    then have "unat sz mod 4 = 0" using assms by (simp add: copy_ok_def and_3_u32)
    then show ?thesis using False by (auto simp: words_copied_def cpy_len_def)
  qed
  show "unat sz \<le> cpy_len L sz" unfolding cpy_len_def using round_up_64(2) [of "unat sz"] by simp
qed

lemma copy_segment_copied:
  assumes "dma_copies L" "copy_ok L d s sz" "area d (words_copied L sz) \<inter> area s (words_copied L sz) = {}"
  shows "copy_segment L cxy d s sz ph = Some (Inr (copied d s (words_copied L sz) ph))"
proof (cases "use_mwr_cpy L")
  case True
  then show ?thesis using assms(1,3) by (simp add: copy_segment_def boot_dma_copy_def dma_copies_def words_copied_def)
next
  case False
  then have ok: "d AND 3 = 0" "s AND 3 = 0" "sz AND 3 = 0" "4 \<le> unat sz" and nt: "no_trap (ucast s) (unat sz div 4)" "no_trap (ucast d) (unat sz div 4)"
    using assms(2) by (simp_all add: copy_ok_def)
  have n: "unat (drop_bit 2 sz) = unat sz div 4" by (simp add: drop_bit_eq_div unat_div)
  then have "drop_bit 2 sz \<noteq> 0" using ok(4) by (auto simp: word_unat_eq_iff)
  then show ?thesis
    using False ok memcpy_loop_copied [OF nt, of "ucast (drop_bit 32 d)" "ucast (drop_bit 32 s)" ph] assms(3)
    by (simp add: copy_segment_def physical_memcpy_def words_copied_def n extended_split)
qed

fun in_cluster :: "load_config \<Rightarrow> u32 \<times> u32 \<Rightarrow> mapping_vseg \<Rightarrow> bool" where
  "in_cluster L (x, y) v \<longleftrightarrow> drop_bit (lY_WIDTH L) (vseg_cluster v) = x \<and> vseg_cluster v AND (push_bit (lY_WIDTH L) 1 - 1) = y"

definition seg_src :: "load_config \<Rightarrow> elf_phdr \<Rightarrow> u64" where
  "seg_src L seg = ucast (elf_buffer L + p_offset seg)"

definition seg_jobs :: "load_config \<Rightarrow> mapping_vseg list \<Rightarrow> u32 \<times> u32 \<Rightarrow> elf_phdr \<Rightarrow> job list" where
  "seg_jobs L vsl xy seg = map (\<lambda>v. (pbase v, seg_src L seg, words_copied L (p_filesz seg)))
     (filter (\<lambda>v. vbase v = p_vaddr seg \<and> in_cluster L xy v) vsl)"

text \<open>A segment of the file fits the vsegs that it matches.\<close>

definition seg_fits :: "load_config \<Rightarrow> mapping_vseg list \<Rightarrow> elf_phdr \<Rightarrow> bool" where
  "seg_fits L vsl seg \<longleftrightarrow> p_memsz seg = p_filesz seg \<and> (\<exists>v\<in>set vsl. vbase v = p_vaddr seg) \<and>
     (\<forall>v\<in>set vsl. vbase v = p_vaddr seg \<longrightarrow> p_filesz seg \<le> vseg_length v \<and> copy_ok L (pbase v) (seg_src L seg) (p_filesz seg))"

lemma vseg_copies_jobs:
  assumes "dma_copies L" "\<forall>v\<in>set vsl. vbase v = p_vaddr seg \<longrightarrow> p_filesz seg \<le> vseg_length v \<and> copy_ok L (pbase v) (seg_src L seg) (p_filesz seg)"
    and "\<forall>j\<in>set (seg_jobs L vsl (x, y) seg). job_dst j \<inter> job_src j = {}"
  shows "vseg_copies L x y seg vsl found ph =
    Some (Inr (found \<or> (\<exists>v\<in>set vsl. vbase v = p_vaddr seg), perform (seg_jobs L vsl (x, y) seg) ph))"
  using assms(2,3)
proof (induction vsl arbitrary: found ph)
  case Nil
  show ?case by (simp add: seg_jobs_def)
next
  case (Cons v vsl)
  have rest: "\<forall>j\<in>set (seg_jobs L vsl (x, y) seg). job_dst j \<inter> job_src j = {}" using Cons.prems(2) by (auto simp: seg_jobs_def)
  note IH = Cons.IH [OF _ rest]
  have v: "\<forall>v\<in>set vsl. vbase v = p_vaddr seg \<longrightarrow> p_filesz seg \<le> vseg_length v \<and> copy_ok L (pbase v) (seg_src L seg) (p_filesz seg)"
    using Cons.prems(1) by simp
  show ?case
  proof (cases "vbase v = p_vaddr seg")
    case False
    then show ?thesis using IH [OF v] by (auto simp: seg_jobs_def)
  next
    case True
    then have ok: "p_filesz seg \<le> vseg_length v" "copy_ok L (pbase v) (seg_src L seg) (p_filesz seg)" using Cons.prems(1) by simp_all
    show ?thesis
    proof (cases "in_cluster L (x, y) v")
      case in_c: True
      have "area (pbase v) (words_copied L (p_filesz seg)) \<inter> area (seg_src L seg) (words_copied L (p_filesz seg)) = {}"
        using Cons.prems(2) True in_c by (simp add: seg_jobs_def)
      from copy_segment_copied [OF assms(1) ok(2) this] show ?thesis
        using True in_c ok(1) IH [OF v] by (simp add: seg_jobs_def seg_src_def not_less [symmetric] Let_def)
    next
      case False
      then show ?thesis using True ok(1) IH [OF v] by (auto simp: seg_jobs_def not_less [symmetric] Let_def)
    qed
  qed
qed

section \<open>The copies of a file\<close>

definition phdr_at :: "u32 \<Rightarrow> phys_mem \<Rightarrow> elf_phdr" where
  "phdr_at base ph = \<lparr>p_type = ph (ucast base), p_offset = ph (ucast (base + 4)), p_vaddr = ph (ucast (base + 8)),
     p_filesz = ph (ucast (base + 16)), p_memsz = ph (ucast (base + 20))\<rparr>"

fun phdrs :: "u32 \<Rightarrow> nat \<Rightarrow> phys_mem \<Rightarrow> elf_phdr list" where
  "phdrs base 0 ph = []"
| "phdrs base (Suc n) ph = phdr_at base ph # phdrs (base + 32) n ph"

text \<open>\<open>lo\<close> and \<open>hi\<close> are the bounds of the file in the buffer.\<close>

definition file_kept :: "nat \<Rightarrow> nat \<Rightarrow> phys_mem \<Rightarrow> phys_mem \<Rightarrow> bool" where
  "file_kept lo hi ph ph' \<longleftrightarrow> (\<forall>a. lo \<le> unat a \<and> unat a < hi \<longrightarrow> ph' a = ph a)"

lemma file_keptD: "file_kept lo hi ph ph' \<Longrightarrow> lo \<le> unat (b :: u32) \<Longrightarrow> unat b < hi \<Longrightarrow> ph' (ucast b) = ph (ucast b)"
  by (simp add: file_kept_def unat_ucast_u64)

lemma phdr_at_kept:
  assumes "file_kept lo hi ph ph'" "lo \<le> unat base" "unat base + 32 \<le> hi" "hi \<le> 2 ^ 32"
  shows "phdr_at base ph' = phdr_at base ph"
proof -
  have "ph' (ucast (base + k)) = ph (ucast (base + k))" if "unat k < 32" for k :: u32
  proof (rule file_keptD [OF assms(1)])
    have "unat (base + k) = unat base + unat k" using that assms(3,4) by (subst unat_add_no_wrap) auto
    then show "lo \<le> unat (base + k)" "unat (base + k) < hi" using that assms(2,3) by simp_all
  qed
  from this [of 0] this [of 4] this [of 8] this [of 16] this [of 20] show ?thesis by (simp add: phdr_at_def)
qed

lemma next_phdr:
  assumes "unat (base :: u32) + 32 * Suc n \<le> 2 ^ 32" "0 < n" "base AND 3 = 0"
  shows "unat (base + 32) = unat base + 32" "(base + 32) AND 3 = 0"
proof -
  show u: "unat (base + 32) = unat base + 32" using assms(1,2) by (subst unat_add_no_wrap) auto
  show "(base + 32) AND 3 = 0" using assms(3) unfolding and_3_u32 u by presburger
qed

lemma phdrs_kept:
  assumes "file_kept lo hi ph ph'" "lo \<le> unat base" "unat base + 32 * n \<le> hi" "hi \<le> 2 ^ 32" "base AND 3 = 0"
  shows "phdrs base n ph' = phdrs base n ph"
  using assms(2,3,5)
proof (induction n arbitrary: base)
  case (Suc n)
  have h: "phdr_at base ph' = phdr_at base ph" using Suc.prems by (intro phdr_at_kept [OF assms(1)] assms(4)) auto
  show ?case
  proof (cases "n = 0")
    case False
    then show ?thesis using h next_phdr [of base n] Suc.prems assms(4) Suc.IH [of "base + 32"] by simp
  qed (simp add: h)
qed simp

definition file_jobs :: "load_config \<Rightarrow> mapping_vseg list \<Rightarrow> u32 \<times> u32 \<Rightarrow> elf_phdr list \<Rightarrow> job list" where
  "file_jobs L vsl xy segs = concat (map (seg_jobs L vsl xy) (filter (\<lambda>seg. p_type seg = PT_LOAD) segs))"

lemma file_jobs_simps:
  "file_jobs L vsl xy [] = []"
  "file_jobs L vsl xy (seg # segs) = (if p_type seg = PT_LOAD then seg_jobs L vsl xy seg else []) @ file_jobs L vsl xy segs"
  by (simp_all add: file_jobs_def)

text \<open>The destinations are outside the file, the sources inside.\<close>

definition jobs_from :: "nat \<Rightarrow> nat \<Rightarrow> job list \<Rightarrow> bool" where
  "jobs_from lo hi js \<longleftrightarrow> (\<forall>j\<in>set js. job_dst j \<inter> {lo..<hi} = {} \<and> job_src j \<subseteq> {lo..<hi})"

lemma jobs_from_kept: "jobs_from lo hi js \<Longrightarrow> file_kept lo hi ph (perform js ph)"
  unfolding file_kept_def
proof (intro allI impI perform_outside)
  fix a j
  assume "jobs_from lo hi js" "lo \<le> unat a \<and> unat a < hi" "j \<in> set js"
  then show "unat a \<notin> job_dst j" unfolding jobs_from_def by force
qed

lemma segment_copies_jobs:
  assumes "dma_copies L" "hi \<le> 2 ^ 32"
  shows "lo \<le> unat base \<Longrightarrow> unat base + 32 * n \<le> hi \<Longrightarrow> base AND 3 = 0 \<Longrightarrow>
    \<forall>seg\<in>set (phdrs base n ph). p_type seg = PT_LOAD \<longrightarrow> seg_fits L vsl seg \<Longrightarrow>
    jobs_from lo hi (file_jobs L vsl (x, y) (phdrs base n ph)) \<Longrightarrow>
    segment_copies L x y vsl base n ph = Some (Inr (perform (file_jobs L vsl (x, y) (phdrs base n ph)) ph))"
proof (induction n arbitrary: base ph)
  case 0
  show ?case by (simp add: file_jobs_simps)
next
  case (Suc n)
  let ?seg = "phdr_at base ph" and ?ph = "perform (if p_type (phdr_at base ph) = PT_LOAD then seg_jobs L vsl (x, y) (phdr_at base ph) else []) ph"
  have r: "read_phdr base ph = Some ?seg" using Suc.prems(3) by (simp add: read_phdr_def phdr_at_def)
  have j: "jobs_from lo hi (if p_type ?seg = PT_LOAD then seg_jobs L vsl (x, y) ?seg else [])"
    "jobs_from lo hi (file_jobs L vsl (x, y) (phdrs (base + 32) n ph))"
    using Suc.prems(5) by (simp_all add: file_jobs_simps jobs_from_def)
  have rest: "phdrs (base + 32) n ?ph = phdrs (base + 32) n ph \<and>
      segment_copies L x y vsl (base + 32) n ?ph = Some (Inr (perform (file_jobs L vsl (x, y) (phdrs (base + 32) n ph)) ?ph))"
  proof (cases "n = 0")
    case False
    note b = next_phdr [of base n, OF _ _ Suc.prems(3)]
    have b: "unat (base + 32) = unat base + 32" "(base + 32) AND 3 = 0" using b False Suc.prems(2) assms(2) by simp_all
    have e: "phdrs (base + 32) n ?ph = phdrs (base + 32) n ph"
      using b Suc.prems(1,2) by (intro phdrs_kept [OF jobs_from_kept [OF j(1)] _ _ assms(2)]) auto
    then show ?thesis using Suc.IH [of "base + 32" ?ph] b Suc.prems(1,2,4) j(2) by auto
  qed (simp add: file_jobs_simps)
  show ?case
  proof (cases "p_type ?seg = PT_LOAD")
    case False
    then show ?thesis using r rest by (simp add: file_jobs_simps)
  next
    case True
    then have fits: "seg_fits L vsl ?seg" using Suc.prems(4) by simp
    have "job_dst i \<inter> job_src i = {}" if "i \<in> set (seg_jobs L vsl (x, y) ?seg)" for i
      using j(1) that True by (auto simp: jobs_from_def)
    then have "vseg_copies L x y ?seg vsl False ph = Some (Inr (True, ?ph))"
      using vseg_copies_jobs [OF assms(1), of vsl ?seg x y False ph] fits True unfolding seg_fits_def by simp
    then show ?thesis using r rest True fits by (simp add: file_jobs_simps seg_fits_def)
  qed
qed

section \<open>All clusters\<close>

text \<open>A file of \<open>len\<close> bytes in the buffer that fits the mapping: the program headers and the contents of the segments are inside, and
  the copies of the clusters \<open>cs\<close> do not overlap each other or the file.\<close>

definition file_segs :: "load_config \<Rightarrow> phys_mem \<Rightarrow> elf_phdr list" where
  "file_segs L ph = phdrs (elf_buffer L + e_phoff (elf_buffer L) ph) (unat (e_phnum (elf_buffer L) ph)) ph"

definition all_jobs :: "load_config \<Rightarrow> mapping_vseg list \<Rightarrow> (u32 \<times> u32) list \<Rightarrow> elf_phdr list \<Rightarrow> job list" where
  "all_jobs L vsl cs segs = concat (map (\<lambda>xy. file_jobs L vsl xy segs) cs)"

definition file_fits :: "load_config \<Rightarrow> mapping_vseg list \<Rightarrow> (u32 \<times> u32) list \<Rightarrow> nat \<Rightarrow> phys_mem \<Rightarrow> bool" where
  "file_fits L vsl cs len ph \<longleftrightarrow>
     (let buf = elf_buffer L; lo = unat buf; hi = lo + len; off = e_phoff buf ph; segs = file_segs L ph
      in hi \<le> 2 ^ 32 \<and> 48 \<le> len \<and> ident_ok buf ph \<and> off \<noteq> 0 \<and> (buf + off) AND 3 = 0 \<and>
         unat off + 32 * unat (e_phnum buf ph) \<le> len \<and>
         (\<forall>seg\<in>set segs. p_type seg = PT_LOAD \<longrightarrow> seg_fits L vsl seg) \<and>
         jobs_from lo hi (all_jobs L vsl cs segs) \<and> sorted_wrt dst_apart (all_jobs L vsl cs segs))"

lemma jobs_from_append: "jobs_from lo hi (js @ js') \<longleftrightarrow> jobs_from lo hi js \<and> jobs_from lo hi js'"
  by (auto simp: jobs_from_def)

lemma fields_kept:
  assumes "file_kept (unat buf) (unat buf + len) ph ph'" "unat buf + len \<le> 2 ^ 32" "48 \<le> len"
  shows "e_phoff buf ph' = e_phoff buf ph" "e_phnum buf ph' = e_phnum buf ph"
proof -
  have "ph' (ucast (buf + k)) = ph (ucast (buf + k))" if "unat k < 48" for k :: u32
  proof (rule file_keptD [OF assms(1)])
    have "unat (buf + k) = unat buf + unat k" using that assms(2,3) by (subst unat_add_no_wrap) auto
    then show "unat buf \<le> unat (buf + k)" "unat (buf + k) < unat buf + len" using that assms(3) by simp_all
  qed
  from this [of 28] this [of 44] show "e_phoff buf ph' = e_phoff buf ph" "e_phnum buf ph' = e_phnum buf ph"
    by (simp_all add: e_phoff_def e_phnum_def)
qed

lemma clusters_copies:
  assumes "dma_copies L" "vseg_range mp is_kernel vspace_id = Some vsl"
    and "unat (elf_buffer L) + len \<le> 2 ^ 32" "48 \<le> len" "e_phoff (elf_buffer L) ph \<noteq> 0"
      "(elf_buffer L + e_phoff (elf_buffer L) ph) AND 3 = 0"
      "unat (e_phoff (elf_buffer L) ph) + 32 * unat (e_phnum (elf_buffer L) ph) \<le> len"
      "\<forall>seg\<in>set (file_segs L ph). p_type seg = PT_LOAD \<longrightarrow> seg_fits L vsl seg"
  shows "file_kept (unat (elf_buffer L)) (unat (elf_buffer L) + len) ph ph1 \<Longrightarrow>
    jobs_from (unat (elf_buffer L)) (unat (elf_buffer L) + len) (all_jobs L vsl cs (file_segs L ph)) \<Longrightarrow>
    in_turn (copy_segments L mp is_kernel vspace_id) cs ph1 = Some (Inr (perform (all_jobs L vsl cs (file_segs L ph)) ph1))"
proof (induction cs arbitrary: ph1)
  case Nil
  show ?case by (simp add: all_jobs_def)
next
  case (Cons xy cs)
  let ?buf = "elf_buffer L" and ?js = "file_jobs L vsl xy (file_segs L ph)"
  let ?off = "e_phoff ?buf ph" and ?n = "unat (e_phnum ?buf ph)"
  note f = fields_kept [OF Cons.prems(1) assms(3,4)]
  have b: "unat (?buf + ?off) = unat ?buf + unat ?off \<or> ?n = 0"
    using assms(3,7) by (cases "?n = 0") (auto intro!: unat_add_no_wrap)
  have s: "phdrs (?buf + ?off) ?n ph1 = file_segs L ph"
  proof (cases "?n = 0")
    case False
    then show ?thesis unfolding file_segs_def
      using b assms(3,7) by (intro phdrs_kept [OF Cons.prems(1) _ _ assms(3,6)]) auto
  qed (simp add: file_segs_def)
  have j: "jobs_from (unat ?buf) (unat ?buf + len) ?js" "jobs_from (unat ?buf) (unat ?buf + len) (all_jobs L vsl cs (file_segs L ph))"
    using Cons.prems(2) by (simp_all add: all_jobs_def jobs_from_append)
  have "segment_copies L (fst xy) (snd xy) vsl (?buf + ?off) ?n ph1 = Some (Inr (perform ?js ph1))"
  proof (cases "?n = 0")
    case True
    then have "file_segs L ph = []" using s by simp
    then show ?thesis by (simp add: True file_jobs_def)
  next
    case False
    then show ?thesis
      using segment_copies_jobs [OF assms(1,3), of "unat ?buf" "?buf + ?off" ?n ph1 vsl "fst xy" "snd xy"] b assms(6,7,8) j(1)
      by (simp add: s)
  qed
  moreover have "file_kept (unat ?buf) (unat ?buf + len) ph (perform ?js ph1)"
    using jobs_from_kept [OF j(1), of ph1] Cons.prems(1) by (simp add: file_kept_def)
  ultimately show ?case using Cons.IH [OF _ j(2)] assms(2,5)
    by (simp add: copy_segments_def f all_jobs_def Let_def)
qed

section \<open>The loaded file\<close>

lemma file_fitsD:
  assumes "file_fits L vsl cs len ph"
  shows "unat (elf_buffer L) + len \<le> 2 ^ 32" "48 \<le> len" "ident_ok (elf_buffer L) ph" "e_phoff (elf_buffer L) ph \<noteq> 0"
    "(elf_buffer L + e_phoff (elf_buffer L) ph) AND 3 = 0" "unat (e_phoff (elf_buffer L) ph) + 32 * unat (e_phnum (elf_buffer L) ph) \<le> len"
    "\<forall>seg\<in>set (file_segs L ph). p_type seg = PT_LOAD \<longrightarrow> seg_fits L vsl seg"
    "jobs_from (unat (elf_buffer L)) (unat (elf_buffer L) + len) (all_jobs L vsl cs (file_segs L ph))"
    "sorted_wrt dst_apart (all_jobs L vsl cs (file_segs L ph))"
  using assms unfolding file_fits_def Let_def by blast+

lemma file_loaded:
  assumes "dma_copies L" "vseg_range mp is_kernel vspace_id = Some vsl" "load pathname ph0 = (0, ph)" "file_fits L vsl cs len ph"
  shows "load_one_elf_file L load mp cs is_kernel pathname vspace_id ph0 = Some (Inr (perform (all_jobs L vsl cs (file_segs L ph)) ph))"
proof -
  note f = file_fitsD [OF assms(4)]
  have "elf_in_buffer L load pathname ph0 = Inr ph" using assms(3) f(3) by (simp add: elf_in_buffer_def)
  moreover have "file_kept (unat (elf_buffer L)) (unat (elf_buffer L) + len) ph ph" by (simp add: file_kept_def)
  ultimately show ?thesis
    using clusters_copies [OF assms(1,2) f(1,2,4,5,6,7) _ f(8)] by (simp add: load_one_elf_file_def)
qed

lemma loaded_words:
  assumes "file_fits L vsl cs len ph" "seg \<in> set (file_segs L ph)" "v \<in> set vsl" "xy \<in> set cs"
    and "p_type seg = PT_LOAD" "vbase v = p_vaddr seg" "in_cluster L xy v" "4 * k < cpy_len L (p_filesz seg)"
  shows "perform (all_jobs L vsl cs (file_segs L ph)) ph (pbase v + 4 * word_of_nat k) = ph (seg_src L seg + 4 * word_of_nat k)"
proof -
  note f = file_fitsD [OF assms(1)]
  let ?js = "all_jobs L vsl cs (file_segs L ph)" and ?n = "words_copied L (p_filesz seg)"
  let ?B = "{unat (elf_buffer L)..<unat (elf_buffer L) + len}"
  have j: "(pbase v, seg_src L seg, ?n) \<in> set ?js"
    using assms(2-7) by (auto simp: all_jobs_def file_jobs_def seg_jobs_def)
  have ok: "copy_ok L (pbase v) (seg_src L seg) (p_filesz seg)" using f(7) assms(2,3,5,6) unfolding seg_fits_def by blast
  then have c: "unat (pbase v) + 4 * ?n \<le> 2 ^ 64" using words_copied_len [OF ok] by (simp add: copy_ok_def)
  have k: "k < ?n" using assms(8) words_copied_len [OF ok] by linarith
  have src: "area (seg_src L seg) ?n \<subseteq> ?B" using f(8) j unfolding jobs_from_def by fastforce
  have "unat (seg_src L seg) + 4 * ?n - 1 \<in> ?B" using src k by (auto simp: area_def)
  then have s: "unat (seg_src L seg) + 4 * ?n \<le> 2 ^ 64" using f(1) by auto
  have "job_dst i \<inter> area (seg_src L seg) ?n = {}" if "i \<in> set ?js" for i
    using f(8) that src unfolding jobs_from_def by blast
  from perform_at [OF f(9) j k c(1) s this] show ?thesis .
qed

lemma loaded_frame:
  assumes "file_fits L vsl cs len ph"
    and "\<forall>seg\<in>set (file_segs L ph). \<forall>v\<in>set vsl. \<forall>xy\<in>set cs. p_type seg = PT_LOAD \<and> vbase v = p_vaddr seg \<and> in_cluster L xy v \<longrightarrow>
      unat a < unat (pbase v) \<or> unat (pbase v) + cpy_len L (p_filesz seg) \<le> unat a"
  shows "perform (all_jobs L vsl cs (file_segs L ph)) ph a = ph a"
proof (rule perform_outside)
  fix j assume "j \<in> set (all_jobs L vsl cs (file_segs L ph))"
  then obtain xy seg v where j: "xy \<in> set cs" "seg \<in> set (file_segs L ph)" "p_type seg = PT_LOAD" "v \<in> set vsl" "vbase v = p_vaddr seg"
    "in_cluster L xy v" "j = (pbase v, seg_src L seg, words_copied L (p_filesz seg))"
    by (auto simp: all_jobs_def file_jobs_def seg_jobs_def)
  then have "copy_ok L (pbase v) (seg_src L seg) (p_filesz seg)" using file_fitsD(7) [OF assms(1)] unfolding seg_fits_def by blast
  from words_copied_len(1) [OF this] have "job_dst j = {unat (pbase v)..<unat (pbase v) + cpy_len L (p_filesz seg)}"
    by (simp add: j(7) area_def)
  moreover have "unat a < unat (pbase v) \<or> unat (pbase v) + cpy_len L (p_filesz seg) \<le> unat a" using assms(2) j(1-6) by blast
  ultimately show "unat a \<notin> job_dst j" by auto
qed

section \<open>Properties\<close>

text \<open>C8: A file that fits the mapping is loaded: the call returns, and in every cluster each segment of the file is, word for
  word, at the physical base of the vsegs that match its address, whether the copies are done by the processor or by a DMA
  engine that copies what it is asked. The DMA engine is asked whole blocks of 64 bytes: what follows the segment in the buffer
  is copied after it, up to 63 bytes and possibly past the end of the vseg, in a place that no other copy may use. No byte is
  written outside of these \<open>cpy_len\<close> bytes, which are the size of the segment when the processor copies.\<close>

theorem elf_segments_loaded:
  assumes "dma_copies L" "vseg_range mp is_kernel vspace_id = Some vsl" "load pathname ph0 = (0, ph)" "file_fits L vsl cs len ph"
  shows "\<exists>ph'. load_one_elf_file L load mp cs is_kernel pathname vspace_id ph0 = Some (Inr ph') \<and>
    (\<forall>seg\<in>set (file_segs L ph). \<forall>v\<in>set vsl. \<forall>xy\<in>set cs. p_type seg = PT_LOAD \<and> vbase v = p_vaddr seg \<and> in_cluster L xy v \<longrightarrow>
       unat (p_filesz seg) \<le> cpy_len L (p_filesz seg) \<and>
       (\<forall>k. 4 * k < cpy_len L (p_filesz seg) \<longrightarrow> ph' (pbase v + 4 * word_of_nat k) = ph (seg_src L seg + 4 * word_of_nat k))) \<and>
    (\<forall>a. (\<forall>seg\<in>set (file_segs L ph). \<forall>v\<in>set vsl. \<forall>xy\<in>set cs. p_type seg = PT_LOAD \<and> vbase v = p_vaddr seg \<and> in_cluster L xy v \<longrightarrow>
       unat a < unat (pbase v) \<or> unat (pbase v) + cpy_len L (p_filesz seg) \<le> unat a) \<longrightarrow> ph' a = ph a)"
proof -
  have "unat (p_filesz seg) \<le> cpy_len L (p_filesz seg)"
    if "seg \<in> set (file_segs L ph)" "v \<in> set vsl" "p_type seg = PT_LOAD" "vbase v = p_vaddr seg" for seg v
    using file_fitsD(7) [OF assms(4)] that words_copied_len(2) [of L "pbase v" "seg_src L seg" "p_filesz seg"]
    unfolding seg_fits_def by blast
  then show ?thesis
    using file_loaded [where load = load, OF assms] loaded_words [OF assms(4)] loaded_frame [OF assms(4)] by blast
qed

text \<open>C7: A processor that runs a loaded program fetches the words of its file: in every page table that maps the vseg of a segment
  and that the copies leave apart, each address of the segment translates to a word that is the one of the file.\<close>

theorem loaded_program_visible:
  assumes "dma_copies L" "vseg_range mp is_kernel vspace_id = Some vsl" "load pathname ph0 = (0, ph)" "file_fits L vsl cs len ph"
    and "tables_ok T (st\<lparr>phys := ph\<rparr>)" "t \<in> T"
    and "\<forall>j\<in>set (all_jobs L vsl cs (file_segs L ph)). \<forall>t\<in>T. job_dst j \<inter> ptab_area (table st t) (ptabs_max_pt2 st) = {}"
    and "seg \<in> set (file_segs L ph)" "p_type seg = PT_LOAD" "v \<in> set vsl" "vbase v = p_vaddr seg" "xy \<in> set cs" "in_cluster L xy v"
    and "\<forall>off<unat (vseg_length v). tr (st\<lparr>phys := ph\<rparr>) t (vbase v + word_of_nat off) = Inr (pbase v + word_of_nat off, flags)"
  shows "\<exists>ph'. load_one_elf_file L load mp cs is_kernel pathname vspace_id ph0 = Some (Inr ph') \<and>
    (\<forall>k. 4 * k < unat (p_filesz seg) \<longrightarrow>
       (\<exists>a. tr (st\<lparr>phys := ph'\<rparr>) t (p_vaddr seg + word_of_nat (4 * k)) = Inr (a, flags) \<and> ph' a = ph (seg_src L seg + 4 * word_of_nat k)))"
proof -
  let ?js = "all_jobs L vsl cs (file_segs L ph)"
  let ?ph = "perform ?js ph"
  obtain vs x y where t: "t = (vs, x, y)" by (cases t)
  have "table_wf (st\<lparr>phys := ph\<rparr>) t" using assms(5,6) unfolding tables_ok_def by blast
  then have ok: "ptab_ok (table st t) (ptabs_max_pt2 st) (ptabs_next_pt2 st vs x y) ph" by (simp add: t)
  have out: "?ph a = ph a" if "unat a \<in> ptab_area (table st t) (ptabs_max_pt2 st)" for a
    using assms(6,7) that by (intro perform_outside) blast
  have len: "p_filesz seg \<le> vseg_length v"
    using file_fitsD(7) [OF assms(4)] assms(8-11) unfolding seg_fits_def by blast
  have "tr (st\<lparr>phys := ?ph\<rparr>) t (p_vaddr seg + word_of_nat (4 * k)) = Inr (pbase v + 4 * word_of_nat k, flags)" if "4 * k < unat (p_filesz seg)" for k
  proof -
    have "4 * k < unat (vseg_length v)" using that len by (simp add: word_le_nat_alt)
    then have "tr (st\<lparr>phys := ph\<rparr>) t (vbase v + word_of_nat (4 * k)) = Inr (pbase v + word_of_nat (4 * k), flags)" using assms(14) by blast
    then have "translate ph (table st t) (p_vaddr seg + word_of_nat (4 * k)) = Inr (pbase v + 4 * word_of_nat k, flags)"
      using assms(11) by (simp add: t)
    from translate_outside(2) [OF ok out this] show ?thesis by (simp add: t)
  qed
  moreover have "4 * k < cpy_len L (p_filesz seg)" if "4 * k < unat (p_filesz seg)" for k
    using that words_copied_len(2) [of L "pbase v" "seg_src L seg" "p_filesz seg"] file_fitsD(7) [OF assms(4)] assms(8-11)
    unfolding seg_fits_def by (meson less_le_trans)
  ultimately show ?thesis
    using file_loaded [where load = load, OF assms(1-4)] loaded_words [OF assms(4,8,10,12,9,11,13)] by blast
qed

section \<open>Witnesses\<close>

text \<open>A file of 256 bytes at the address \<open>0x1000\<close>, with one segment of two words for the vseg of \<open>demo_vseg\<close>.\<close>

definition demo_elf :: "phys_mem \<Rightarrow> phys_mem" where
  "demo_elf ph = ph(0x1000 := 0x464C457F, 0x101C := 0x34, 0x102C := 1, 0x1034 := 1, 0x1038 := 0x54, 0x103C := 0x400000,
     0x1044 := 8, 0x1048 := 8, 0x1054 := 0x11111111, 0x1058 := 0x22222222)"

definition demo_load :: "bool \<Rightarrow> load_config" where
  "demo_load mwr = \<lparr>lY_WIDTH = 0, elf_buffer = 0x1000, use_mwr_cpy = mwr,
     dma_engine = (\<lambda>_ d s sz ph. (0, copied d s (unat sz div 4) ph))\<rparr>"

definition demo_program :: mapping where
  "demo_program = demo_mapping\<lparr>vsegs := [demo_vseg]\<rparr>"

definition demo_seg :: elf_phdr where
  "demo_seg = \<lparr>p_type = 1, p_offset = 0x54, p_vaddr = 0x400000, p_filesz = 8, p_memsz = 8\<rparr>"

lemma demo_load_facts:
  "dma_copies (demo_load mwr)" "vseg_range demo_program True 0 = Some [demo_vseg]"
  "file_segs (demo_load mwr) (demo_elf ph) = [demo_seg]"
  "all_jobs (demo_load mwr) [demo_vseg] [(0, 0)] [demo_seg] = [(0x9000, 0x1054, if mwr then 16 else 2)]"
  "file_fits (demo_load mwr) [demo_vseg] [(0, 0)] 256 (demo_elf ph)"
proof -
  show "dma_copies (demo_load mwr)" by (simp add: dma_copies_def demo_load_def)
  show "vseg_range demo_program True 0 = Some [demo_vseg]" by (simp add: vseg_range_def demo_program_def demo_mapping_def)
  show s: "file_segs (demo_load mwr) (demo_elf ph) = [demo_seg]"
    by (simp add: file_segs_def demo_load_def demo_elf_def e_phoff_def e_phnum_def phdr_at_def demo_seg_def)
  show j: "all_jobs (demo_load mwr) [demo_vseg] [(0, 0)] [demo_seg] = [(0x9000, 0x1054, if mwr then 16 else 2)]"
    by (simp add: all_jobs_def file_jobs_def seg_jobs_def demo_seg_def demo_vseg_def vseg_cluster_def demo_load_def PT_LOAD_def
        seg_src_def words_copied_def dma_size_def)
  have fits: "seg_fits (demo_load mwr) [demo_vseg] demo_seg"
    by (simp add: seg_fits_def demo_seg_def demo_vseg_def copy_ok_def cpy_len_def demo_load_def seg_src_def no_trap_def)
  show "file_fits (demo_load mwr) [demo_vseg] [(0, 0)] 256 (demo_elf ph)"
    unfolding file_fits_def Let_def s j using fits
    by (auto simp: demo_load_def demo_elf_def ident_ok_def e_phoff_def e_phnum_def jobs_from_def area_def demo_seg_def)
qed

text \<open>Two words are in the segment; the copy of the DMA engine takes 64 bytes, and not one more.\<close>

lemma elf_segments_loaded_witness:
  "\<exists>ph'. load_one_elf_file (demo_load True) (\<lambda>_ ph. (0, demo_elf ph)) demo_program [(0, 0)] True [] 0 (\<lambda>a. if a = 0x1090 then 3 else if a = 0x9040 then 4 else 5) = Some (Inr ph') \<and>
     ph' 0x9004 = 0x22222222 \<and> ph' 0x903C = 3 \<and> ph' 0x9040 = 4"
proof -
  let ?ph0 = "\<lambda>a :: u64. if a = 0x1090 then 3 else if a = 0x9040 then 4 else 5 :: u32"
  have len: "cpy_len (demo_load True) (p_filesz demo_seg) = 64" by (simp add: cpy_len_def demo_load_def demo_seg_def)
  note e = elf_segments_loaded [where load = "\<lambda>_ ph. (0, demo_elf ph)" and L = "demo_load True" and pathname = "[]" and ?ph0.0 = ?ph0,
      OF demo_load_facts(1,2) refl demo_load_facts(5), unfolded demo_load_facts(3)]
  have d: "p_type demo_seg = PT_LOAD" "vbase demo_vseg = p_vaddr demo_seg" "in_cluster (demo_load True) (0, 0) demo_vseg"
    by (simp_all add: demo_seg_def demo_vseg_def vseg_cluster_def demo_load_def PT_LOAD_def)
  obtain ph' where ph': "load_one_elf_file (demo_load True) (\<lambda>_ ph. (0, demo_elf ph)) demo_program [(0, 0)] True [] 0 ?ph0 = Some (Inr ph')"
    and w: "\<forall>k. 4 * k < cpy_len (demo_load True) (p_filesz demo_seg) \<longrightarrow>
      ph' (pbase demo_vseg + 4 * word_of_nat k) = demo_elf ?ph0 (seg_src (demo_load True) demo_seg + 4 * word_of_nat k)"
    and out: "\<forall>a. (unat a < unat (pbase demo_vseg) \<or> unat (pbase demo_vseg) + cpy_len (demo_load True) (p_filesz demo_seg) \<le> unat a)
      \<longrightarrow> ph' a = demo_elf ?ph0 a"
    using e d by auto
  have "ph' 0x9004 = 0x22222222"
    using w [THEN spec, of 1] by (simp add: len) (simp add: demo_seg_def demo_vseg_def seg_src_def demo_load_def demo_elf_def)
  moreover have "ph' 0x903C = 3"
    using w [THEN spec, of 15] by (simp add: len) (simp add: demo_seg_def demo_vseg_def seg_src_def demo_load_def demo_elf_def)
  moreover have "ph' 0x9040 = 4" using out [THEN spec, of "0x9040"] by (simp add: len) (simp add: demo_vseg_def demo_elf_def)
  ultimately show ?thesis using ph' by blast
qed

lemma add_pte_keeps:
  assumes "(if big then boot_add_pte1 v x y vpn flags ppn st else boot_add_pte2 v x y vpn flags ppn st) = Some (Inr st')"
  shows "ptabs_paddr st' = ptabs_paddr st \<and> ptabs_max_pt2 st' = ptabs_max_pt2 st"
  using assms by (auto simp: boot_add_pte1_def boot_add_pte2_def Let_def bind_eq_Some_conv split: if_splits sum.splits)

lemma add_to_targets_keeps:
  "add_to_targets big vpn flags ppn ts st = Some (Inr st') \<Longrightarrow> ptabs_paddr st' = ptabs_paddr st \<and> ptabs_max_pt2 st' = ptabs_max_pt2 st"
proof (induction ts arbitrary: st)
  case (Cons t ts)
  obtain v x y where t: "t = (v, x, y)" by (cases t)
  from Cons.prems obtain st1 where st1: "(if big then boot_add_pte1 v x y vpn flags ppn st else boot_add_pte2 v x y vpn flags ppn st) = Some (Inr st1)"
    "add_to_targets big vpn flags ppn ts st1 = Some (Inr st')"
    by (simp add: t del: if_split split: option.splits sum.splits)
  show ?case using add_pte_keeps [OF st1(1)] Cons.IH [OF st1(2)] by simp
qed simp

lemma add_pages_keeps:
  "add_pages big vpn flags ppn ts p n st = Some (Inr st') \<Longrightarrow> ptabs_paddr st' = ptabs_paddr st \<and> ptabs_max_pt2 st' = ptabs_max_pt2 st"
  by (induction n arbitrary: p st) (auto simp: Let_def split: option.splits sum.splits dest: add_to_targets_keeps)

lemma boot_vseg_pte_keeps:
  "boot_vseg_pte X Y mp vseg vspace_id st = Some (Inr st') \<Longrightarrow> ptabs_paddr st' = ptabs_paddr st \<and> ptabs_max_pt2 st' = ptabs_max_pt2 st"
  by (auto simp: boot_vseg_pte_def bind_eq_Some_conv split: if_splits dest: add_pages_keeps)

text \<open>The page table of \<open>demo_boot\<close>, with the pages of \<open>demo_vseg\<close>.\<close>

lemma loaded_program_visible_witness:
  "\<exists>st' ph' a f. boot_vseg_pte 1 1 demo_mapping demo_vseg None demo_boot = Some (Inr st') \<and>
     load_one_elf_file (demo_load False) (\<lambda>_ ph. (0, demo_elf ph)) demo_program [(0, 0)] True [] 0 (phys st') = Some (Inr ph') \<and>
     tr (st'\<lparr>phys := ph'\<rparr>) (0, 0, 0) 0x400004 = Inr (a, f) \<and> ph' a = 0x22222222"
proof -
  let ?f = "(PTE_V OR vseg_flags (vmode demo_vseg) (None = (None :: nat option))) AND 0xFFC00000"
  have t: "set [(0, 0, 0)] \<subseteq> {(0, 0, 0)}" "[(0, 0, 0)] = pte_targets 1 1 demo_mapping (vlocal demo_vseg) None 0 0"
    "vlocal demo_vseg \<or> 1 * 1 \<le> length (clusters demo_mapping)"
    and v: "\<not> vbig demo_vseg" "vbase demo_vseg AND 0xFFF = 0" "0 < unat (vseg_length demo_vseg)"
      "unat (vbase demo_vseg) + unat (vseg_length demo_vseg) \<le> 2 ^ 32"
      "unat (pbase demo_vseg) mod 4096 = 0" "unat (pbase demo_vseg) + unat (vseg_length demo_vseg) \<le> 2 ^ 40"
    and p: "fetch (psegs demo_mapping) (psegid demo_vseg) = Some (psegs demo_mapping ! 0)"
      "fetch (clusters demo_mapping) (clusterid (psegs demo_mapping ! 0)) = Some (clusters demo_mapping ! 0)"
    by (simp_all add: pte_targets_def demo_mapping_def demo_vseg_def)
  have c: "cluster_x (clusters demo_mapping ! 0) = 0" "cluster_y (clusters demo_mapping ! 0) = 0" by (simp_all add: demo_mapping_def)
  have nb: "no_big demo_boot t w" if "t \<in> set [(0, 0, 0)]" "unat (vbase demo_vseg) \<le> unat w"
    "unat w < unat (vbase demo_vseg) + 4096 * ((unat (vseg_length demo_vseg) - 1) div 4096 + 1)" for t w
    by (rule demo_boot_ok) (use that in \<open>simp add: demo_vseg_def word_less_nat_alt drop_bit_eq_div unat_div less_mult_imp_div_less\<close>)
  note vt = vseg_translated [OF demo_boot_ok(1) p t(1) _ t(3) v, unfolded c, OF t(2)]
  have "\<exists>st'. boot_vseg_pte 1 1 demo_mapping demo_vseg None demo_boot = Some (Inr st') \<and> tables_ok {(0, 0, 0)} st' \<and>
    (\<forall>t\<in>set [(0, 0, 0)]. \<forall>off<unat (vseg_length demo_vseg). tr st' t (vbase demo_vseg + word_of_nat off) = Inr (pbase demo_vseg + word_of_nat off, ?f))"
    by (rule disjE [OF vt], rule nb, assumption+, elim conjE bexE)
      (simp add: demo_boot_def demo_vseg_def, elim exE conjE, intro exI conjI)
  then obtain st' where st': "boot_vseg_pte 1 1 demo_mapping demo_vseg None demo_boot = Some (Inr st')" "tables_ok {(0, 0, 0)} st'"
    and m: "\<forall>t\<in>set [(0, 0, 0)]. \<forall>off<unat (vseg_length demo_vseg). tr st' t (vbase demo_vseg + word_of_nat off) = Inr (pbase demo_vseg + word_of_nat off, ?f)"
    by (elim exE conjE)
  let ?ph = "demo_elf (phys st')" and ?js = "[(0x9000, 0x1054, if False then 16 else 2)] :: job list"
  have k: "table st' (0, 0, 0) = 0x2000" "ptabs_max_pt2 st' = 3"
    using boot_vseg_pte_keeps [OF st'(1)] by (simp_all add: demo_boot_def)
  have area: "ptab_area (table st' (0, 0, 0)) (ptabs_max_pt2 st') = {0x2000..<0x7000}" unfolding k by (simp add: ptab_area_def)
  have out: "?ph a = phys st' a" if "unat a \<in> ptab_area (table st' (0, 0, 0)) (ptabs_max_pt2 st')" for a
    using that unfolding area by (auto simp: demo_elf_def)
  have wf: "table_wf st' (0, 0, 0)" using st'(2) by (simp add: tables_ok_def)
  then have ok: "ptab_ok (table st' (0, 0, 0)) (ptabs_max_pt2 st') (ptabs_next_pt2 st' 0 0 0) (phys st')" by simp
  have T: "tables_ok {(0, 0, 0)} (st'\<lparr>phys := ?ph\<rparr>)"
    using translate_outside(1) [OF ok out] wf by (simp add: tables_ok_def)
  have apart: "\<forall>j\<in>set ?js. \<forall>t\<in>{(0, 0, 0)}. job_dst j \<inter> ptab_area (table st' t) (ptabs_max_pt2 st') = {}"
    using area by (simp add: area_def del: table.simps)
  have trs: "\<forall>off<unat (vseg_length demo_vseg).
      tr (st'\<lparr>phys := ?ph\<rparr>) (0, 0, 0) (vbase demo_vseg + word_of_nat off) = Inr (pbase demo_vseg + word_of_nat off, ?f)"
  proof (intro allI impI)
    fix off assume "off < unat (vseg_length demo_vseg)"
    then have "translate (phys st') (table st' (0, 0, 0)) (vbase demo_vseg + word_of_nat off) = Inr (pbase demo_vseg + word_of_nat off, ?f)"
      using m by simp
    from translate_outside(2) [OF ok out this]
    show "tr (st'\<lparr>phys := ?ph\<rparr>) (0, 0, 0) (vbase demo_vseg + word_of_nat off) = Inr (pbase demo_vseg + word_of_nat off, ?f)" by simp
  qed
  have s: "demo_seg \<in> set (file_segs (demo_load False) ?ph)" unfolding demo_load_facts(3) by simp
  have d: "p_type demo_seg = PT_LOAD" "demo_vseg \<in> set [demo_vseg]" "vbase demo_vseg = p_vaddr demo_seg" "(0, 0) \<in> set [(0, 0)]"
    "in_cluster (demo_load False) (0, 0) demo_vseg"
    by (simp_all add: demo_seg_def demo_vseg_def PT_LOAD_def vseg_cluster_def demo_load_def)
  note l = loaded_program_visible [where load = "\<lambda>_ ph. (0, demo_elf ph)" and pathname = "[]" and ?ph0.0 = "phys st'",
      OF demo_load_facts(1,2) refl demo_load_facts(5) T singletonI _ s d trs, unfolded demo_load_facts(3,4), OF apart]
  obtain ph' where ph': "load_one_elf_file (demo_load False) (\<lambda>_ ph. (0, demo_elf ph)) demo_program [(0, 0)] True [] 0 (phys st') = Some (Inr ph')"
    and w: "\<forall>k. 4 * k < unat (p_filesz demo_seg) \<longrightarrow> (\<exists>a. tr (st'\<lparr>phys := ph'\<rparr>) (0, 0, 0) (p_vaddr demo_seg + word_of_nat (4 * k)) = Inr (a, ?f) \<and>
       ph' a = ?ph (seg_src (demo_load False) demo_seg + 4 * word_of_nat k))"
    using l by blast
  have "4 * 1 < unat (p_filesz demo_seg)" by (simp add: demo_seg_def)
  from w [THEN spec, THEN mp, OF this] obtain a where "tr (st'\<lparr>phys := ph'\<rparr>) (0, 0, 0) (p_vaddr demo_seg + word_of_nat (4 * 1)) = Inr (a, ?f)"
    "ph' a = ?ph (seg_src (demo_load False) demo_seg + 4 * word_of_nat 1)"
    by blast
  moreover have "?ph (seg_src (demo_load False) demo_seg + 4 * word_of_nat 1) = 0x22222222"
    by (simp add: seg_src_def demo_seg_def demo_load_def demo_elf_def)
  moreover have "p_vaddr demo_seg + word_of_nat (4 * 1) = 0x400004" by (simp add: demo_seg_def)
  ultimately show ?thesis using st'(1) ph' by metis
qed

end
