(* ===== verification/Boot_Phases.thy ===== *)
theory Boot_Phases
  imports Boot_Load
begin

text \<open>
  The phases of the boot loader that prepare the memory: the check of the mapping, the allocator of each cluster
  (\<open>boot_pmem_init\<close>), the page tables of each cluster (\<open>boot_ptab_init\<close>) and their completion
  (\<open>boot_ptab_extend\<close>), in the order of \<open>boot_init\<close>. The state is the mapping, whose vsegs get their
  physical base, with the state of theory \<open>Page_Tables\<close>. The first processors of the clusters \<open>cs\<close> execute each part
  between two barriers one after the other; the code runs them in parallel, with a lock for each page table.
\<close>

section \<open>The mapping\<close>

definition IN_MAPPING_SIGNATURE :: u32 where "IN_MAPPING_SIGNATURE = 0xDACE2014"
definition GIET_NB_VSPACE_MAX :: nat where "GIET_NB_VSPACE_MAX = 16"

text \<open>\<open>loaded\<close>: the error code of the load of \<open>map.bin\<close> and the mapping that is in memory.\<close>

definition boot_mapping_init :: "nat \<Rightarrow> nat \<Rightarrow> int \<times> mapping \<Rightarrow> panic + mapping" where
  "boot_mapping_init X_SIZE Y_SIZE loaded =
     (let (ret, mp) = loaded; header = hdr mp
      in if ret \<noteq> 0 then Inl File_not_found
         else if signature header \<noteq> IN_MAPPING_SIGNATURE \<or> x_size header \<noteq> X_SIZE \<or> y_size header \<noteq> Y_SIZE \<or> vspaces header > GIET_NB_VSPACE_MAX
         then Inl Illegal_mapping
         else Inr mp)"

section \<open>The allocators\<close>

fun ram_pseg :: "mapping \<Rightarrow> nat list \<Rightarrow> mapping_pseg option option" where
  "ram_pseg mp [] = Some None"
| "ram_pseg mp (i # is) =
     Option.bind (fetch (psegs mp) i) (\<lambda>pseg. if ptype pseg = PSEG_TYPE_RAM then Some (Some pseg) else ram_pseg mp is)"

definition boot_pmem_init :: "nat \<Rightarrow> nat \<Rightarrow> mapping \<Rightarrow> nat \<times> nat \<Rightarrow> boot_state \<Rightarrow> (panic + boot_state) option" where
  "boot_pmem_init Y_SIZE lpid mp xy st =
     (let (cx, cy) = xy
      in if lpid \<noteq> 0 then Some (Inl Wrong_processor)
         else Option.bind (fetch (clusters mp) (cx * Y_SIZE + cy)) (\<lambda>cluster.
           let pseg_min = cl_pseg_offset cluster
           in Option.bind (ram_pseg mp [pseg_min ..< pseg_min + cl_psegs cluster]) (\<lambda>found.
             case found of
               None \<Rightarrow> Some (Inl No_ram_pseg)
             | Some pseg \<Rightarrow>
                 (case pmem_alloc_init (word_of_nat cx) (word_of_nat cy) (ucast (pseg_base pseg)) (ucast (pseg_length pseg))
                         (boot_pmem_alloc st cx cy) of
                    Inl e \<Rightarrow> Some (Inl e)
                  | Inr p \<Rightarrow> Some (Inr (st\<lparr>boot_pmem_alloc := (boot_pmem_alloc st)(cx := (boot_pmem_alloc st cx)(cy := p))\<rparr>))))))"

section \<open>The page tables\<close>

type_synonym ptab_state = "mapping \<times> boot_state"

definition vseg_xy :: "mapping \<Rightarrow> mapping_vseg \<Rightarrow> (nat \<times> nat) option" where
  "vseg_xy mp vseg =
     Option.bind (fetch (psegs mp) (psegid vseg)) (\<lambda>pseg.
     Option.bind (fetch (clusters mp) (clusterid pseg)) (\<lambda>cluster. Some (cluster_x cluster, cluster_y cluster)))"

definition map_vseg :: "nat option \<Rightarrow> nat \<Rightarrow> ptab_state \<Rightarrow> (panic + ptab_state) option" where
  "map_vseg vspace_id vseg_id s =
     (let (mp, st) = s
      in Option.bind (fetch (vsegs mp) vseg_id) (\<lambda>vseg.
         obind (boot_vseg_map mp vseg vspace_id st) (\<lambda>(vseg, st). Some (Inr (mp\<lparr>vsegs := (vsegs mp)[vseg_id := vseg]\<rparr>, st)))))"

definition pte_vseg :: "nat \<times> nat \<Rightarrow> nat option \<Rightarrow> nat \<Rightarrow> ptab_state \<Rightarrow> (panic + ptab_state) option" where
  "pte_vseg sizes vspace_id vseg_id s =
     (let (mp, st) = s
      in Option.bind (fetch (vsegs mp) vseg_id) (\<lambda>vseg.
         obind (boot_vseg_pte (fst sizes) (snd sizes) mp vseg vspace_id st) (\<lambda>st. Some (Inr (mp, st)))))"

text \<open>The search of the PTAB vseg of a cluster.\<close>

fun ptab_scan :: "mapping \<Rightarrow> nat \<times> nat \<Rightarrow> nat list \<Rightarrow> (panic + nat) option" where
  "ptab_scan mp xy [] = Some (Inl No_ptab_vseg)"
| "ptab_scan mp xy (i # is) =
     Option.bind (fetch (vsegs mp) i) (\<lambda>vseg. Option.bind (vseg_xy mp vseg) (\<lambda>c.
       if vtype vseg = VSEG_TYPE_PTAB \<and> c = xy then Some (Inr i) else ptab_scan mp xy is))"

text \<open>One turn of the loops on the vsegs of cluster \<open>xy\<close>: those that satisfy \<open>guard\<close> are mapped and registered.\<close>

definition vseg_turn :: "nat \<times> nat \<Rightarrow> nat option \<Rightarrow> (mapping_vseg \<Rightarrow> bool) \<Rightarrow> nat \<times> nat \<Rightarrow> nat \<Rightarrow> ptab_state \<Rightarrow> (panic + ptab_state) option" where
  "vseg_turn sizes vspace_id guard xy vseg_id s =
     Option.bind (fetch (vsegs (fst s)) vseg_id) (\<lambda>vseg. Option.bind (vseg_xy (fst s) vseg) (\<lambda>c.
       if guard vseg \<and> c = xy then obind (map_vseg vspace_id vseg_id s) (pte_vseg sizes vspace_id vseg_id) else Some (Inr s)))"

text \<open>The three parts of \<open>boot_ptab_init\<close>, separated by the barriers.\<close>

definition ptab_first :: "nat \<Rightarrow> nat \<times> nat \<Rightarrow> ptab_state \<Rightarrow> (panic + ptab_state) option" where
  "ptab_first lpid xy s =
     (let header = hdr (fst s)
      in if lpid \<noteq> 0 then Some (Inl Wrong_processor)
         else if vspaces header = 0 then Some (Inl No_vspace)
         else obind (ptab_scan (fst s) xy [0..<globals header]) (\<lambda>vseg_id. map_vseg None vseg_id s))"

definition ptab_second :: "nat \<times> nat \<Rightarrow> nat \<times> nat \<Rightarrow> ptab_state \<Rightarrow> (panic + ptab_state) option" where
  "ptab_second sizes xy s =
     obind (ptab_scan (fst s) xy [0..<globals (hdr (fst s))]) (\<lambda>vseg_id. pte_vseg sizes None vseg_id s)"

definition vspace_turn :: "nat \<times> nat \<Rightarrow> nat \<times> nat \<Rightarrow> nat \<Rightarrow> ptab_state \<Rightarrow> (panic + ptab_state) option" where
  "vspace_turn sizes xy vspace_id s =
     Option.bind (fetch (vspace_table (fst s)) vspace_id) (\<lambda>vspace.
       in_turn (vseg_turn sizes (Some vspace_id) (\<lambda>_. True) xy) [vseg_offset vspace ..< vseg_offset vspace + vspace_vsegs vspace] s)"

definition ptab_third :: "nat \<times> nat \<Rightarrow> nat \<times> nat \<Rightarrow> ptab_state \<Rightarrow> (panic + ptab_state) option" where
  "ptab_third sizes xy s =
     (let g = [0..<globals (hdr (fst s))]
      in obind (in_turn (vseg_turn sizes None (\<lambda>vseg. vseg_length vseg > 0x200000 \<and> \<not> vmapped vseg) xy) g s) (\<lambda>s.
         obind (in_turn (vseg_turn sizes None (\<lambda>vseg. \<not> vmapped vseg) xy) g s) (\<lambda>s.
         in_turn (vspace_turn sizes xy) [0..<vspaces (hdr (fst s))] s)))"

definition extend_turn :: "nat \<times> nat \<Rightarrow> nat \<Rightarrow> ptab_state \<Rightarrow> (panic + ptab_state) option" where
  "extend_turn sizes vseg_id s =
     Option.bind (fetch (vsegs (fst s)) vseg_id) (\<lambda>vseg.
       if \<not> vmapped vseg then obind (map_vseg None vseg_id s) (pte_vseg sizes None vseg_id) else Some (Inr s))"

definition boot_ptab_extend :: "nat \<times> nat \<Rightarrow> ptab_state \<Rightarrow> (panic + ptab_state) option" where
  "boot_ptab_extend sizes s = in_turn (extend_turn sizes) [0..<globals (hdr (fst s))] s"

section \<open>The sequence of phases\<close>

text \<open>The clusters that have processors, in the order of the table: \<open>nclusters\<close> is their number, for the barrier.\<close>

definition boot_clusters :: "nat \<times> nat \<Rightarrow> mapping \<Rightarrow> (nat \<times> nat) list" where
  "boot_clusters sizes mp =
     map (\<lambda>c. (cluster_x c, cluster_y c)) (filter (\<lambda>c. procs c \<noteq> 0) (take (fst sizes * snd sizes) (clusters mp)))"

definition boot_memory :: "nat \<times> nat \<Rightarrow> (nat \<times> nat) list \<Rightarrow> ptab_state \<Rightarrow> (panic + ptab_state) option" where
  "boot_memory sizes cs s =
     obind (in_turn (\<lambda>xy (mp, st). obind (boot_pmem_init (snd sizes) 0 mp xy st) (\<lambda>st. Some (Inr (mp, st)))) cs s) (\<lambda>s.
     obind (in_turn (ptab_first 0) cs s) (\<lambda>s.
     obind (in_turn (ptab_second sizes) cs s) (\<lambda>s.
     obind (in_turn (ptab_third sizes) cs s) (boot_ptab_extend sizes))))"

text \<open>
  What \<open>boot_init\<close> does to the mapping and to the memory. Between the page tables and the load of the programs, each
  processor also fills the schedulers of its cluster (\<open>Boot_Sched\<close>).
\<close>

definition boot_init :: "nat \<times> nat \<Rightarrow> load_config \<Rightarrow> (string \<Rightarrow> phys_mem \<Rightarrow> int \<times> phys_mem) \<Rightarrow> int \<times> mapping \<Rightarrow> boot_state
    \<Rightarrow> (panic + ptab_state) option" where
  "boot_init sizes L load loaded st =
     obind (Some (boot_mapping_init (fst sizes) (snd sizes) loaded)) (\<lambda>mp.
     let cs = boot_clusters sizes mp
     in obind (boot_memory sizes cs (mp, st)) (\<lambda>(mp, st).
        obind (boot_elf_load L load mp (map (\<lambda>(x, y). (word_of_nat x, word_of_nat y)) cs) (phys st)) (\<lambda>ph.
        Some (Inr (mp, st\<lparr>phys := ph\<rparr>)))))"

end
