(* ===== verification/Boot_Order.thy ===== *)
theory Boot_Order
  imports Boot_Phases
begin

text \<open>
  The phases on the page tables as one list of registrations. The loops of \<open>boot_ptab_init\<close> and
  \<open>boot_ptab_extend\<close> choose the vsegs by their cluster, their size and their flag \<open>mapped\<close>, which changes while they
  run; here the choices are made once, on the mapping as it was loaded.
\<close>

section \<open>Sequences\<close>

lemma obind_assoc: "obind (obind r f) g = obind r (\<lambda>a. obind (f a) g)"
  by (cases r) (auto simp: obind_def split: sum.split)

lemma obind_cong: "r = r' \<Longrightarrow> (\<And>a. r' = Some (Inr a) \<Longrightarrow> f a = g a) \<Longrightarrow> obind r f = obind r' g"
  by (simp add: obind_def split: option.split sum.split)

lemma obind_return: "obind r (\<lambda>a. Some (Inr a)) = r"
  by (simp add: obind_def split: option.split sum.split)

lemma in_turn_append: "in_turn f (is @ js) s = obind (in_turn f is s) (in_turn f js)"
  by (induction "is" arbitrary: s) (simp_all add: obind_assoc cong: obind_cong)

text \<open>Loops that do the same in every state that the first one can reach.\<close>

lemma in_turn_cong:
  assumes "\<And>i s. i \<in> set is \<Longrightarrow> I s \<Longrightarrow> f i s = g i s"
    and "\<And>i s s'. i \<in> set is \<Longrightarrow> I s \<Longrightarrow> g i s = Some (Inr s') \<Longrightarrow> I s'"
  shows "I s \<Longrightarrow> in_turn f is s = in_turn g is s"
  using assms
proof (induction "is" arbitrary: s)
  case (Cons i js)
  show ?case
    unfolding in_turn.simps
  proof (rule obind_cong)
    show "f i s = g i s" using Cons.prems by simp
    fix a assume "g i s = Some (Inr a)"
    then have "I a" using Cons.prems(3) [of i s a] Cons.prems(1) by simp
    then show "in_turn f js a = in_turn g js a"
    proof (rule Cons.IH)
      show "f k s = g k s" if "k \<in> set js" "I s" for k s using Cons.prems(2) [of k s] that by simp
      show "I s'" if "k \<in> set js" "I s" "g k s = Some (Inr s')" for k s s' using Cons.prems(3) [of k s s'] that by simp
    qed
  qed
qed simp

lemma in_turn_invariant:
  assumes "\<And>i s s'. i \<in> set is \<Longrightarrow> I s \<Longrightarrow> f i s = Some (Inr s') \<Longrightarrow> I s'"
  shows "in_turn f is s = Some (Inr s') \<Longrightarrow> I s \<Longrightarrow> I s'"
  using assms
proof (induction "is" arbitrary: s)
  case (Cons i js)
  then obtain a where a: "f i s = Some (Inr a)" "in_turn f js a = Some (Inr s')" by (auto simp: obind_Inr)
  have "I a" using Cons.prems(3) [of i s a] Cons.prems(2) a(1) by simp
  show ?case
  proof (rule Cons.IH [OF a(2) \<open>I a\<close>])
    show "I s'" if "k \<in> set js" "I s" "f k s = Some (Inr s')" for k s s' using Cons.prems(3) [of k s s'] that by simp
  qed
qed simp

section \<open>The order of the registrations\<close>

text \<open>The indices of the tables are inside.\<close>

definition mapping_ok :: "nat \<times> nat \<Rightarrow> mapping \<Rightarrow> bool" where
  "mapping_ok sizes mp \<longleftrightarrow> globals (hdr mp) \<le> length (vsegs mp) \<and> vspaces (hdr mp) \<le> length (vspace_table mp) \<and>
     fst sizes * snd sizes \<le> length (clusters mp) \<and>
     (\<forall>v\<in>set (vsegs mp). psegid v < length (psegs mp) \<and> clusterid (psegs mp ! psegid v) < length (clusters mp)) \<and>
     (\<forall>vs\<in>set (vspace_table mp). vseg_offset vs + vspace_vsegs vs \<le> length (vsegs mp)) \<and>
     (\<forall>c\<in>set (clusters mp). cl_pseg_offset c + cl_psegs c \<le> length (psegs mp))"

definition xy_of :: "mapping \<Rightarrow> nat \<Rightarrow> nat \<times> nat" where
  "xy_of mp i = (let c = clusters mp ! clusterid (psegs mp ! psegid (vsegs mp ! i)) in (cluster_x c, cluster_y c))"

text \<open>The vseg of the page tables of a cluster: the first one.\<close>

definition ptabs_of :: "mapping \<Rightarrow> nat \<times> nat \<Rightarrow> nat list" where
  "ptabs_of mp xy = filter (\<lambda>i. vtype (vsegs mp ! i) = VSEG_TYPE_PTAB \<and> xy_of mp i = xy) [0..<globals (hdr mp)]"

abbreviation ptab_of :: "mapping \<Rightarrow> nat \<times> nat \<Rightarrow> nat" where
  "ptab_of mp xy \<equiv> hd (ptabs_of mp xy)"

definition private_vsegs :: "mapping \<Rightarrow> nat \<Rightarrow> nat list" where
  "private_vsegs mp k = (let vs = vspace_table mp ! k in [vseg_offset vs ..< vseg_offset vs + vspace_vsegs vs])"

text \<open>The vsegs that cluster \<open>xy\<close> registers: its global ones, those of more than one big page first, then its private ones.\<close>

definition cluster_order :: "mapping \<Rightarrow> nat \<times> nat \<Rightarrow> (nat option \<times> nat) list" where
  "cluster_order mp xy =
     (let own = filter (\<lambda>i. xy_of mp i = xy \<and> i \<noteq> ptab_of mp xy) [0..<globals (hdr mp)];
          long = (\<lambda>i. vseg_length (vsegs mp ! i) > 0x200000)
      in map (Pair None) (filter long own) @ map (Pair None) (filter (\<lambda>i. \<not> long i) own) @
         concat (map (\<lambda>k. map (Pair (Some k)) (filter (\<lambda>i. xy_of mp i = xy) (private_vsegs mp k))) [0..<vspaces (hdr mp)]))"

definition boot_order :: "(nat \<times> nat) list \<Rightarrow> mapping \<Rightarrow> (nat option \<times> nat) list" where
  "boot_order cs mp = concat (map (cluster_order mp) cs) @
     map (Pair None) (filter (\<lambda>i. xy_of mp i \<notin> set cs) [0..<globals (hdr mp)])"

definition register :: "nat \<times> nat \<Rightarrow> nat option \<times> nat \<Rightarrow> ptab_state \<Rightarrow> (panic + ptab_state) option" where
  "register sizes r s = obind (map_vseg (fst r) (snd r) s) (pte_vseg sizes (fst r) (snd r))"

lemma ptab_of_in:
  assumes "ptabs_of mp xy \<noteq> []"
  shows "ptab_of mp xy < globals (hdr mp)" "vtype (vsegs mp ! ptab_of mp xy) = VSEG_TYPE_PTAB" "xy_of mp (ptab_of mp xy) = xy"
  using hd_in_set [OF assms] by (auto simp: ptabs_of_def)

lemma in_cluster_order:
  "(None, i) \<in> set (cluster_order mp xy) \<longleftrightarrow> i < globals (hdr mp) \<and> xy_of mp i = xy \<and> i \<noteq> ptab_of mp xy"
  "(Some k, i) \<in> set (cluster_order mp xy) \<longleftrightarrow> k < vspaces (hdr mp) \<and> i \<in> set (private_vsegs mp k) \<and> xy_of mp i = xy"
  by (auto simp: cluster_order_def Let_def)

lemma cluster_order_xy: "r \<in> set (cluster_order mp xy) \<Longrightarrow> xy_of mp (snd r) = xy"
  by (cases r; cases "fst r") (auto simp: in_cluster_order)

lemma in_boot_order:
  "(None, i) \<in> set (boot_order cs mp) \<longleftrightarrow> i < globals (hdr mp) \<and> (xy_of mp i \<in> set cs \<longrightarrow> i \<noteq> ptab_of mp (xy_of mp i))"
  "(Some k, i) \<in> set (boot_order cs mp) \<longleftrightarrow> k < vspaces (hdr mp) \<and> i \<in> set (private_vsegs mp k) \<and> xy_of mp i \<in> set cs"
  by (auto simp: boot_order_def in_cluster_order)

lemma distinct_cluster_order: "distinct (cluster_order mp xy)"
proof -
  have "distinct (concat (map (\<lambda>k. map (Pair (Some k)) (filter (\<lambda>i. xy_of mp i = xy) (private_vsegs mp k))) ks))"
    if "distinct ks" for ks :: "nat list"
    using that by (induction ks) (auto simp: distinct_map inj_on_def private_vsegs_def Let_def)
  then show ?thesis by (auto simp: cluster_order_def Let_def distinct_map inj_on_def)
qed

lemma distinct_boot_order:
  assumes "distinct cs"
  shows "distinct (boot_order cs mp)"
proof -
  have x: "xy_of mp (snd r) \<in> set ds" if r: "r \<in> set (concat (map (cluster_order mp) ds))" for r ds
  proof -
    obtain xy where "xy \<in> set ds" "r \<in> set (cluster_order mp xy)" using r unfolding set_concat set_map by blast
    then show ?thesis using cluster_order_xy by simp
  qed
  have "distinct (concat (map (cluster_order mp) ds))" if "distinct ds" for ds
    using that
  proof (induction ds)
    case (Cons xy ds)
    have "set (cluster_order mp xy) \<inter> set (concat (map (cluster_order mp) ds)) = {}"
    proof (rule ccontr)
      assume "\<not> ?thesis"
      then obtain r where r: "r \<in> set (cluster_order mp xy)" "r \<in> set (concat (map (cluster_order mp) ds))" by blast
      show False using x [OF r(2)] cluster_order_xy [OF r(1)] Cons.prems by simp
    qed
    then show ?case using Cons distinct_cluster_order by (simp only: list.map concat.simps distinct_append distinct.simps)
  qed simp
  note d = this [OF assms]
  have "distinct (map (Pair (None :: nat option)) (filter (\<lambda>i. xy_of mp i \<notin> set cs) [0..<globals (hdr mp)]))"
    by (simp add: distinct_map inj_on_def)
  moreover have "set (concat (map (cluster_order mp) cs)) \<inter> set (map (Pair None) (filter (\<lambda>i. xy_of mp i \<notin> set cs) [0..<globals (hdr mp)])) = {}"
  proof (rule ccontr)
    assume "\<not> ?thesis"
    then obtain r where r: "r \<in> set (concat (map (cluster_order mp) cs))"
      "r \<in> set (map (Pair None) (filter (\<lambda>i. xy_of mp i \<notin> set cs) [0..<globals (hdr mp)]))" by blast
    have "xy_of mp (snd r) \<notin> set cs" using r(2) by auto
    then show False using x [OF r(1)] by simp
  qed
  ultimately show ?thesis unfolding boot_order_def using d by (simp only: distinct_append)
qed

section \<open>States\<close>

definition same_tables :: "mapping \<Rightarrow> mapping \<Rightarrow> bool" where
  "same_tables mp mp' \<longleftrightarrow> hdr mp' = hdr mp \<and> clusters mp' = clusters mp \<and> psegs mp' = psegs mp \<and> vspace_table mp' = vspace_table mp \<and>
     tasks mp' = tasks mp \<and> periphs mp' = periphs mp \<and> irqs mp' = irqs mp"

text \<open>The vseg \<open>v'\<close> is the \<open>v\<close> of the mapping, placed in the physical memory.\<close>

definition placed :: "mapping_vseg \<Rightarrow> mapping_vseg \<Rightarrow> bool" where
  "placed v v' \<longleftrightarrow> v' = v\<lparr>pbase := pbase v', vmapped := True\<rparr> \<and> (vident v \<longrightarrow> pbase v' = ucast (vbase v))"

text \<open>The mapping when the vsegs \<open>D\<close>, and no others, are placed.\<close>

definition laid :: "mapping \<Rightarrow> nat set \<Rightarrow> mapping \<Rightarrow> bool" where
  "laid mp D mp' \<longleftrightarrow> same_tables mp mp' \<and> length (vsegs mp') = length (vsegs mp) \<and>
     (\<forall>j<length (vsegs mp). if j \<in> D then placed (vsegs mp ! j) (vsegs mp' ! j) else vsegs mp' ! j = vsegs mp ! j)"

lemma placed_fields:
  assumes "placed v v'"
  shows "psegid v' = psegid v" "vtype v' = vtype v" "vseg_length v' = vseg_length v" "vbase v' = vbase v" "vident v' = vident v"
    "vmode v' = vmode v" "vlocal v' = vlocal v" "vbig v' = vbig v" "vmapped v'"
proof -
  have e: "v' = v\<lparr>pbase := pbase v', vmapped := True\<rparr>" using assms by (simp add: placed_def)
  show "psegid v' = psegid v" "vtype v' = vtype v" "vseg_length v' = vseg_length v" "vbase v' = vbase v" "vident v' = vident v"
    "vmode v' = vmode v" "vlocal v' = vlocal v" "vbig v' = vbig v" "vmapped v'"
    by (subst e; simp)+
qed

lemma placed_again: "placed v u \<Longrightarrow> placed u w \<Longrightarrow> placed v w"
  by (cases v; cases u; cases w) (simp add: placed_def)

lemma laidD:
  assumes "laid mp D mp'"
  shows "hdr mp' = hdr mp" "clusters mp' = clusters mp" "psegs mp' = psegs mp" "vspace_table mp' = vspace_table mp"
    "length (vsegs mp') = length (vsegs mp)"
    "j < length (vsegs mp) \<Longrightarrow> j \<in> D \<Longrightarrow> placed (vsegs mp ! j) (vsegs mp' ! j)"
    "j < length (vsegs mp) \<Longrightarrow> j \<notin> D \<Longrightarrow> vsegs mp' ! j = vsegs mp ! j"
  using assms by (auto simp: laid_def same_tables_def)

lemma laid_fields:
  assumes "laid mp D mp'" "j < length (vsegs mp)"
  shows "psegid (vsegs mp' ! j) = psegid (vsegs mp ! j)" "vtype (vsegs mp' ! j) = vtype (vsegs mp ! j)"
    "vseg_length (vsegs mp' ! j) = vseg_length (vsegs mp ! j)"
proof -
  have "placed (vsegs mp ! j) (vsegs mp' ! j) \<or> vsegs mp' ! j = vsegs mp ! j" using laidD(6,7) [OF assms(1,2)] by blast
  then show "psegid (vsegs mp' ! j) = psegid (vsegs mp ! j)" "vtype (vsegs mp' ! j) = vtype (vsegs mp ! j)"
    "vseg_length (vsegs mp' ! j) = vseg_length (vsegs mp ! j)"
    using placed_fields by auto
qed

lemma laid_xy:
  assumes "laid mp D mp'" "mapping_ok sizes mp" "j < length (vsegs mp)"
  shows "vseg_xy mp' (vsegs mp' ! j) = Some (xy_of mp j)"
proof -
  have "psegid (vsegs mp ! j) < length (psegs mp)" "clusterid (psegs mp ! psegid (vsegs mp ! j)) < length (clusters mp)"
    using assms(2,3) by (auto simp: mapping_ok_def)
  then show ?thesis
    using laidD(2,3) [OF assms(1)] laid_fields(1) [OF assms(1,3)] by (simp add: vseg_xy_def fetch_def xy_of_def Let_def)
qed

lemma laid_mapped:
  assumes "laid mp D mp'" "j < length (vsegs mp)" "\<forall>v\<in>set (vsegs mp). \<not> vmapped v"
  shows "vmapped (vsegs mp' ! j) \<longleftrightarrow> j \<in> D"
  using laidD(6,7) [OF assms(1,2)] placed_fields(9) assms(2,3) by (cases "j \<in> D") auto

text \<open>Page frame numbers of addresses that are multiples of the page size.\<close>

lemma page_of_aligned: "(v :: u32) AND 0xFFF = 0 \<Longrightarrow> push_bit 12 (ucast (drop_bit 12 v)) = (ucast v :: u64)"
proof -
  assume "v AND 0xFFF = 0"
  then have b: "\<not> bit v i" if "i < 12" for i
  proof -
    have "(0xFFF :: u32) = mask 12" by (simp add: mask_eq_exp_minus_1)
    then have "\<not> bit (v AND mask 12) i" using \<open>v AND 0xFFF = 0\<close> by simp
    then show ?thesis using that by (simp add: bit_simps)
  qed
  have c: "12 \<le> n" if "bit v n" for n using b that not_le by blast
  show ?thesis
  proof (rule bit_eqI)
    fix n
    show "bit (push_bit 12 (ucast (drop_bit 12 v)) :: u64) n = bit (ucast v :: u64) n"
      using c [of n] by (cases "12 \<le> n") (auto simp: bit_simps dest: bit_imp_le_length)
  qed
qed

lemma boot_vseg_map_placed:
  assumes "boot_vseg_map mp v vsid st = Some (Inr (v', st'))"
  shows "placed v v'"
proof -
  obtain ps c where pc: "fetch (psegs mp) (psegid v) = Some ps" "fetch (clusters mp) (clusterid ps) = Some c"
    using assms by (auto simp: boot_vseg_map_def Let_def bind_eq_Some_conv)
  obtain ppn st1 where p: "vseg_ppn v ps (cluster_x c) (cluster_y c) (case vsid of None \<Rightarrow> 0 | Some w \<Rightarrow> w) st = Inr (ppn, st1)"
    "vbase v AND 0xFFF = 0" "v' = v\<lparr>pbase := push_bit 12 (ucast ppn), vmapped := True\<rparr>"
    using assms by (auto simp: boot_vseg_map_def Let_def pc obind_Inr split: if_splits sum.splits)
  have "ppn = drop_bit 12 (vbase v)" if "vident v" using p(1) that by (auto simp: vseg_ppn_def Let_def)
  then show ?thesis using page_of_aligned [OF p(2)] by (auto simp: placed_def p(3))
qed

lemma map_vseg_laid:
  assumes "laid mp D (fst s)" "map_vseg vsid i s = Some (Inr s')"
  shows "laid mp (insert i D) (fst s')" "i < length (vsegs mp)"
proof -
  obtain v v' st' where v: "fetch (vsegs (fst s)) i = Some v" "boot_vseg_map (fst s) v vsid (snd s) = Some (Inr (v', st'))"
    "s' = ((fst s)\<lparr>vsegs := (vsegs (fst s))[i := v']\<rparr>, st')"
    using assms(2) by (auto simp: map_vseg_def obind_Inr bind_eq_Some_conv split: prod.splits)
  have len: "length (vsegs (fst s)) = length (vsegs mp)" by (rule laidD(5) [OF assms(1)])
  have i: "i < length (vsegs mp)" "v = vsegs (fst s) ! i" using v(1) len by (auto simp: fetch_def split: if_splits)
  have p: "placed v v'" by (rule boot_vseg_map_placed [OF v(2)])
  have "placed (vsegs mp ! i) v'"
  proof (cases "i \<in> D")
    case True
    from placed_again [OF laidD(6) [OF assms(1) i(1) this]] p i(2) show ?thesis by simp
  next
    case False
    from laidD(7) [OF assms(1) i(1) this] p i(2) show ?thesis by simp
  qed
  then show "laid mp (insert i D) (fst s')"
    using assms(1) i(1) len by (auto simp: laid_def v(3) same_tables_def nth_list_update)
  show "i < length (vsegs mp)" by (rule i(1))
qed

lemma pte_vseg_fst: "pte_vseg sizes vsid i s = Some (Inr s') \<Longrightarrow> fst s' = fst s"
  by (auto simp: pte_vseg_def obind_Inr bind_eq_Some_conv split: prod.splits)

lemma register_laid: "laid mp D (fst s) \<Longrightarrow> register sizes r s = Some (Inr s') \<Longrightarrow> laid mp (insert (snd r) D) (fst s')"
  using map_vseg_laid(1) [of mp D s "fst r" "snd r"] pte_vseg_fst [of sizes "fst r" "snd r" _ s'] by (auto simp: register_def obind_Inr)

lemma in_turn_register_laid:
  "in_turn (register sizes) rs s = Some (Inr s') \<Longrightarrow> laid mp D (fst s) \<Longrightarrow> laid mp (snd ` set rs \<union> D) (fst s')"
proof (induction rs arbitrary: s D)
  case (Cons r rs)
  then obtain s1 where s1: "register sizes r s = Some (Inr s1)" "in_turn (register sizes) rs s1 = Some (Inr s')" by (auto simp: obind_Inr)
  from Cons.IH [OF s1(2) register_laid [OF Cons.prems(2) s1(1)]] show ?case by simp
qed simp

section \<open>The loops\<close>

lemma vseg_turn_laid:
  assumes "laid mp D (fst s)" "mapping_ok sizes mp" "i < length (vsegs mp)"
  shows "vseg_turn sizes vsid guard xy i s =
    (if guard (vsegs (fst s) ! i) \<and> xy_of mp i = xy then register sizes (vsid, i) s else Some (Inr s))"
  using laid_xy [OF assms] laidD(5) [OF assms(1)] assms(3) by (simp add: vseg_turn_def fetch_def register_def)

text \<open>A loop on vsegs, whose guard is about their length and, when \<open>fresh\<close>, their flag.\<close>

lemma loop_order:
  assumes guard: "\<And>v. guard v \<longleftrightarrow> P (vseg_length v) \<and> (fresh \<longrightarrow> \<not> vmapped v)"
    and ok: "mapping_ok sizes mp" "\<forall>v\<in>set (vsegs mp). \<not> vmapped v"
  shows "laid mp D (fst s) \<Longrightarrow> distinct is \<Longrightarrow> \<forall>i\<in>set is. i < length (vsegs mp) \<Longrightarrow>
    in_turn (vseg_turn sizes vsid guard xy) is s = in_turn (register sizes)
      (map (Pair vsid) (filter (\<lambda>i. P (vseg_length (vsegs mp ! i)) \<and> xy_of mp i = xy \<and> (fresh \<longrightarrow> i \<notin> D)) is)) s"
proof (induction "is" arbitrary: s D)
  case (Cons i js)
  have i: "i < length (vsegs mp)" "\<forall>j\<in>set js. j < length (vsegs mp)" "distinct js" "i \<notin> set js" using Cons.prems by simp_all
  have g: "guard (vsegs (fst s) ! i) \<longleftrightarrow> P (vseg_length (vsegs mp ! i)) \<and> (fresh \<longrightarrow> i \<notin> D)"
    using laid_fields(3) [OF Cons.prems(1) i(1)] laid_mapped [OF Cons.prems(1) i(1) ok(2)] by (simp add: guard)
  show ?case
  proof (cases "P (vseg_length (vsegs mp ! i)) \<and> (fresh \<longrightarrow> i \<notin> D) \<and> xy_of mp i = xy")
    case True
    then have t: "vseg_turn sizes vsid guard xy i s = register sizes (vsid, i) s"
      using vseg_turn_laid [OF Cons.prems(1) ok(1) i(1)] g by simp
    have f: "filter (\<lambda>j. P (vseg_length (vsegs mp ! j)) \<and> xy_of mp j = xy \<and> (fresh \<longrightarrow> j \<notin> insert i D)) js =
      filter (\<lambda>j. P (vseg_length (vsegs mp ! j)) \<and> xy_of mp j = xy \<and> (fresh \<longrightarrow> j \<notin> D)) js"
      by (rule filter_cong) (use i(4) in auto)
    have "obind (vseg_turn sizes vsid guard xy i s) (in_turn (vseg_turn sizes vsid guard xy) js) =
      obind (register sizes (vsid, i) s) (in_turn (register sizes)
        (map (Pair vsid) (filter (\<lambda>j. P (vseg_length (vsegs mp ! j)) \<and> xy_of mp j = xy \<and> (fresh \<longrightarrow> j \<notin> D)) js)))"
    proof (rule obind_cong [OF t])
      fix a assume "register sizes (vsid, i) s = Some (Inr a)"
      then have "laid mp (insert i D) (fst a)" using register_laid [OF Cons.prems(1)] by fastforce
      from Cons.IH [OF this i(3,2)] show "in_turn (vseg_turn sizes vsid guard xy) js a = in_turn (register sizes)
        (map (Pair vsid) (filter (\<lambda>j. P (vseg_length (vsegs mp ! j)) \<and> xy_of mp j = xy \<and> (fresh \<longrightarrow> j \<notin> D)) js)) a"
        unfolding f .
    qed
    then show ?thesis using True by simp
  next
    case False
    then have t: "vseg_turn sizes vsid guard xy i s = Some (Inr s)"
      using vseg_turn_laid [OF Cons.prems(1) ok(1) i(1)] g by auto
    have n: "\<not> (P (vseg_length (vsegs mp ! i)) \<and> xy_of mp i = xy \<and> (fresh \<longrightarrow> i \<notin> D))" using False by blast
    show ?thesis using Cons.IH [OF Cons.prems(1) i(3,2)] n by (simp only: in_turn.simps t obind_simps filter.simps if_False)
  qed
qed simp

lemma private_inside: "mapping_ok sizes mp \<Longrightarrow> k < vspaces (hdr mp) \<Longrightarrow> i \<in> set (private_vsegs mp k) \<Longrightarrow> i < length (vsegs mp)"
proof -
  assume a: "mapping_ok sizes mp" "k < vspaces (hdr mp)" "i \<in> set (private_vsegs mp k)"
  have "k < length (vspace_table mp)" using a(1,2) by (simp add: mapping_ok_def)
  then have "vseg_offset (vspace_table mp ! k) + vspace_vsegs (vspace_table mp ! k) \<le> length (vsegs mp)"
    using a(1) by (simp add: mapping_ok_def)
  then show ?thesis using a(3) by (auto simp: private_vsegs_def Let_def)
qed

lemma vspace_turn_laid:
  assumes "laid mp D (fst s)" "mapping_ok sizes mp" "\<forall>v\<in>set (vsegs mp). \<not> vmapped v" "k < vspaces (hdr mp)"
  shows "vspace_turn sizes xy k s = in_turn (register sizes) (map (Pair (Some k)) (filter (\<lambda>i. xy_of mp i = xy) (private_vsegs mp k))) s"
proof -
  have k: "k < length (vspace_table mp)" using assms(2,4) by (simp add: mapping_ok_def)
  have "in_turn (vseg_turn sizes (Some k) (\<lambda>_. True) xy) (private_vsegs mp k) s = in_turn (register sizes)
      (map (Pair (Some k)) (filter (\<lambda>i. True \<and> xy_of mp i = xy \<and> (False \<longrightarrow> i \<notin> D)) (private_vsegs mp k))) s"
    by (rule loop_order [OF _ assms(2,3,1)]) (use private_inside [OF assms(2,4)] in \<open>simp_all add: private_vsegs_def Let_def\<close>)
  then show ?thesis using k laidD(4) [OF assms(1)] by (simp add: vspace_turn_def fetch_def private_vsegs_def Let_def)
qed

lemma vspace_loop:
  assumes "mapping_ok sizes mp" "\<forall>v\<in>set (vsegs mp). \<not> vmapped v"
  shows "laid mp D (fst s) \<Longrightarrow> \<forall>k\<in>set ks. k < vspaces (hdr mp) \<Longrightarrow>
    in_turn (vspace_turn sizes xy) ks s = in_turn (register sizes)
      (concat (map (\<lambda>k. map (Pair (Some k)) (filter (\<lambda>i. xy_of mp i = xy) (private_vsegs mp k))) ks)) s"
proof (induction ks arbitrary: s D)
  case (Cons k ks)
  let ?l = "map (Pair (Some k)) (filter (\<lambda>i. xy_of mp i = xy) (private_vsegs mp k))"
  have "obind (vspace_turn sizes xy k s) (in_turn (vspace_turn sizes xy) ks) = obind (in_turn (register sizes) ?l s)
    (in_turn (register sizes) (concat (map (\<lambda>k. map (Pair (Some k)) (filter (\<lambda>i. xy_of mp i = xy) (private_vsegs mp k))) ks)))"
  proof (rule obind_cong)
    show "vspace_turn sizes xy k s = in_turn (register sizes) ?l s"
      using Cons.prems by (intro vspace_turn_laid [OF _ assms]) simp_all
    fix a assume "in_turn (register sizes) ?l s = Some (Inr a)"
    from in_turn_register_laid [OF this Cons.prems(1)] Cons.prems(2)
    show "in_turn (vspace_turn sizes xy) ks a = in_turn (register sizes)
        (concat (map (\<lambda>k. map (Pair (Some k)) (filter (\<lambda>i. xy_of mp i = xy) (private_vsegs mp k))) ks)) a"
      by (intro Cons.IH) simp_all
  qed
  then show ?case by (simp add: in_turn_append)
qed simp

text \<open>The third part, in a cluster where the vseg of the page tables is the only one placed.\<close>

lemma ptab_third_order:
  assumes "laid mp D (fst s)" "mapping_ok sizes mp" "\<forall>v\<in>set (vsegs mp). \<not> vmapped v"
    and "\<And>i. i < length (vsegs mp) \<Longrightarrow> xy_of mp i = xy \<Longrightarrow> i \<in> D \<longleftrightarrow> i = ptab_of mp xy"
  shows "ptab_third sizes xy s = in_turn (register sizes) (cluster_order mp xy) s"
proof -
  let ?g = "[0..<globals (hdr mp)]" and ?vs = "[0..<vspaces (hdr mp)]"
  let ?long = "\<lambda>l :: u32. l > 0x200000"
  let ?p = "concat (map (\<lambda>k. map (Pair (Some k)) (filter (\<lambda>i. xy_of mp i = xy) (private_vsegs mp k))) ?vs)"
  have g: "\<forall>i\<in>set ?g. i < length (vsegs mp)" using assms(2) by (auto simp: mapping_ok_def)
  let ?l1 = "map (Pair (None :: nat option)) (filter (\<lambda>i. ?long (vseg_length (vsegs mp ! i)) \<and> xy_of mp i = xy \<and> (True \<longrightarrow> i \<notin> D)) ?g)"
  let ?D = "snd ` set ?l1 \<union> D"
  let ?l2 = "map (Pair (None :: nat option)) (filter (\<lambda>i. True \<and> xy_of mp i = xy \<and> (True \<longrightarrow> i \<notin> ?D)) ?g)"
  have D: "i \<in> D \<longleftrightarrow> i = ptab_of mp xy" if "i \<in> set ?g" "xy_of mp i = xy" for i using assms(4) that g by simp
  have l1: "?l1 = map (Pair None) (filter (\<lambda>i. ?long (vseg_length (vsegs mp ! i))) (filter (\<lambda>i. xy_of mp i = xy \<and> i \<noteq> ptab_of mp xy) ?g))"
    unfolding filter_filter by (rule arg_cong [of _ _ "map _"], rule filter_cong [OF refl]) (use D in blast)
  have D': "i \<in> ?D \<longleftrightarrow> i \<in> D \<or> i \<in> set ?g \<and> ?long (vseg_length (vsegs mp ! i)) \<and> xy_of mp i = xy \<and> i \<notin> D" for i
    unfolding set_map image_image snd_conv image_ident set_filter by blast
  have l2: "?l2 = map (Pair None) (filter (\<lambda>i. \<not> ?long (vseg_length (vsegs mp ! i))) (filter (\<lambda>i. xy_of mp i = xy \<and> i \<noteq> ptab_of mp xy) ?g))"
    unfolding filter_filter by (rule arg_cong [of _ _ "map _"], rule filter_cong [OF refl]) (use D D' in blast)
  have "obind (in_turn (vseg_turn sizes None (\<lambda>v. ?long (vseg_length v) \<and> \<not> vmapped v) xy) ?g s)
      (\<lambda>s. obind (in_turn (vseg_turn sizes None (\<lambda>v. \<not> vmapped v) xy) ?g s)
        (\<lambda>s. in_turn (vspace_turn sizes xy) [0..<vspaces (hdr (fst s))] s)) =
    obind (in_turn (register sizes) ?l1 s) (\<lambda>s. obind (in_turn (register sizes) ?l2 s) (in_turn (register sizes) ?p))"
  proof (rule obind_cong)
    show "in_turn (vseg_turn sizes None (\<lambda>v. ?long (vseg_length v) \<and> \<not> vmapped v) xy) ?g s = in_turn (register sizes) ?l1 s"
      by (rule loop_order [OF _ assms(2,3,1) _ g]) simp_all
    fix a assume a: "in_turn (register sizes) ?l1 s = Some (Inr a)"
    note la = in_turn_register_laid [OF a assms(1)]
    show "obind (in_turn (vseg_turn sizes None (\<lambda>v. \<not> vmapped v) xy) ?g a) (\<lambda>s. in_turn (vspace_turn sizes xy) [0..<vspaces (hdr (fst s))] s) =
      obind (in_turn (register sizes) ?l2 a) (in_turn (register sizes) ?p)"
    proof (rule obind_cong)
      show "in_turn (vseg_turn sizes None (\<lambda>v. \<not> vmapped v) xy) ?g a = in_turn (register sizes) ?l2 a"
        by (rule loop_order [OF _ assms(2,3) la _ g]) simp_all
      fix b assume "in_turn (register sizes) ?l2 a = Some (Inr b)"
      note lb = in_turn_register_laid [OF this la]
      show "in_turn (vspace_turn sizes xy) [0..<vspaces (hdr (fst b))] b = in_turn (register sizes) ?p b"
        unfolding laidD(1) [OF lb] by (rule vspace_loop [OF assms(2,3) lb]) simp
    qed
  qed
  then have e: "ptab_third sizes xy s = obind (in_turn (register sizes) ?l1 s) (\<lambda>s. obind (in_turn (register sizes) ?l2 s) (in_turn (register sizes) ?p))"
    unfolding ptab_third_def Let_def laidD(1) [OF assms(1)] .
  have o: "cluster_order mp xy = ?l1 @ ?l2 @ ?p" unfolding cluster_order_def Let_def l1 [symmetric] l2 [symmetric] ..
  have "in_turn (register sizes) (?l1 @ ?l2 @ ?p) s =
      obind (in_turn (register sizes) ?l1 s) (\<lambda>s. obind (in_turn (register sizes) ?l2 s) (in_turn (register sizes) ?p))"
    by (subst in_turn_append) (rule obind_cong [OF refl], rule in_turn_append)
  then show ?thesis unfolding e o by (rule sym)
qed

section \<open>The whole initialisation\<close>

lemma thirds_order:
  assumes "mapping_ok sizes mp" "\<forall>v\<in>set (vsegs mp). \<not> vmapped v"
  shows "laid mp D (fst s) \<Longrightarrow> distinct cs \<Longrightarrow>
    (\<And>i. i < length (vsegs mp) \<Longrightarrow> xy_of mp i \<in> set cs \<Longrightarrow> i \<in> D \<longleftrightarrow> i = ptab_of mp (xy_of mp i)) \<Longrightarrow>
    in_turn (ptab_third sizes) cs s = in_turn (register sizes) (concat (map (cluster_order mp) cs)) s"
proof (induction cs arbitrary: s D)
  case (Cons xy cs)
  have "obind (ptab_third sizes xy s) (in_turn (ptab_third sizes) cs) =
    obind (in_turn (register sizes) (cluster_order mp xy) s) (in_turn (register sizes) (concat (map (cluster_order mp) cs)))"
  proof (rule obind_cong)
    show "ptab_third sizes xy s = in_turn (register sizes) (cluster_order mp xy) s"
      by (rule ptab_third_order [OF Cons.prems(1) assms]) (use Cons.prems(3) in simp)
    fix a assume a: "in_turn (register sizes) (cluster_order mp xy) s = Some (Inr a)"
    let ?D = "snd ` set (cluster_order mp xy) \<union> D"
    show "in_turn (ptab_third sizes) cs a = in_turn (register sizes) (concat (map (cluster_order mp) cs)) a"
    proof (rule Cons.IH [OF in_turn_register_laid [OF a Cons.prems(1)]])
      fix i assume i: "i < length (vsegs mp)" "xy_of mp i \<in> set cs"
      then have "xy_of mp i \<noteq> xy" using Cons.prems(2) by auto
      then have "i \<notin> snd ` set (cluster_order mp xy)" using cluster_order_xy by blast
      then show "i \<in> ?D \<longleftrightarrow> i = ptab_of mp (xy_of mp i)" using Cons.prems(3) i by simp
    qed (use Cons.prems(2) in simp)
  qed
  then show ?case by (simp add: in_turn_append)
qed simp

lemma extend_order:
  assumes ok: "mapping_ok sizes mp" "\<forall>v\<in>set (vsegs mp). \<not> vmapped v"
  shows "laid mp D (fst s) \<Longrightarrow> distinct is \<Longrightarrow> \<forall>i\<in>set is. i < length (vsegs mp) \<Longrightarrow>
    in_turn (extend_turn sizes) is s = in_turn (register sizes) (map (Pair None) (filter (\<lambda>i. i \<notin> D) is)) s"
proof (induction "is" arbitrary: s D)
  case (Cons i js)
  have i: "i < length (vsegs mp)" "\<forall>j\<in>set js. j < length (vsegs mp)" "distinct js" "i \<notin> set js" using Cons.prems by simp_all
  have t: "extend_turn sizes i s = (if i \<notin> D then register sizes (None, i) s else Some (Inr s))"
    using laid_mapped [OF Cons.prems(1) i(1) ok(2)] laidD(5) [OF Cons.prems(1)] i(1)
    by (simp add: extend_turn_def fetch_def register_def)
  show ?case
  proof (cases "i \<in> D")
    case True
    then show ?thesis using Cons.IH [OF Cons.prems(1) i(3,2)] t by simp
  next
    case False
    have f: "filter (\<lambda>j. j \<notin> insert i D) js = filter (\<lambda>j. j \<notin> D) js"
      by (rule filter_cong) (use i(4) in auto)
    have "obind (extend_turn sizes i s) (in_turn (extend_turn sizes) js) =
      obind (register sizes (None, i) s) (in_turn (register sizes) (map (Pair None) (filter (\<lambda>j. j \<notin> D) js)))"
    proof (rule obind_cong)
      fix a assume "register sizes (None, i) s = Some (Inr a)"
      then have "laid mp (insert i D) (fst a)" using register_laid [OF Cons.prems(1)] by fastforce
      from Cons.IH [OF this i(3,2)]
      show "in_turn (extend_turn sizes) js a = in_turn (register sizes) (map (Pair None) (filter (\<lambda>j. j \<notin> D) js)) a" unfolding f .
    qed (simp add: t False)
    then show ?thesis using False by simp
  qed
qed simp

text \<open>The vsegs of the page tables, placed first and registered next.\<close>

lemma ptab_scan_first:
  assumes "laid mp D mp'" "mapping_ok sizes mp"
  shows "\<forall>i\<in>set is. i < length (vsegs mp) \<Longrightarrow> filter (\<lambda>i. vtype (vsegs mp ! i) = VSEG_TYPE_PTAB \<and> xy_of mp i = xy) is = j # js \<Longrightarrow>
    ptab_scan mp' xy is = Some (Inr j)"
proof (induction "is")
  case (Cons i ks)
  then show ?case
    using laid_xy [OF assms, of i] laid_fields(2) [OF assms(1), of i] laidD(5) [OF assms(1)]
    by (auto simp: fetch_def split: if_splits)
qed simp

lemma ptab_scan_laid:
  assumes "laid mp D mp'" "mapping_ok sizes mp" "ptabs_of mp xy \<noteq> []"
  shows "ptab_scan mp' xy [0..<globals (hdr mp')] = Some (Inr (ptab_of mp xy))"
proof -
  obtain j js where j: "ptabs_of mp xy = j # js" using assms(3) by (cases "ptabs_of mp xy") auto
  have "\<forall>i\<in>set [0..<globals (hdr mp)]. i < length (vsegs mp)" using assms(2) by (auto simp: mapping_ok_def)
  from ptab_scan_first [OF assms(1,2) this j [unfolded ptabs_of_def]] show ?thesis
    unfolding laidD(1) [OF assms(1)] j by simp
qed

lemma firsts_order:
  assumes "mapping_ok sizes mp" "0 < vspaces (hdr mp)"
  shows "laid mp D (fst s) \<Longrightarrow> \<forall>xy\<in>set cs. ptabs_of mp xy \<noteq> [] \<Longrightarrow>
    in_turn (ptab_first 0) cs s = in_turn (\<lambda>xy. map_vseg None (ptab_of mp xy)) cs s"
proof -
  assume l: "laid mp D (fst s)" and p: "\<forall>xy\<in>set cs. ptabs_of mp xy \<noteq> []"
  show ?thesis
  proof (rule in_turn_cong [where I = "\<lambda>s. \<exists>D. laid mp D (fst s)"])
    fix xy and s :: ptab_state assume "xy \<in> set cs" "\<exists>D. laid mp D (fst s)"
    then obtain E where E: "laid mp E (fst s)" "ptabs_of mp xy \<noteq> []" using p by blast
    show "ptab_first 0 xy s = map_vseg None (ptab_of mp xy) s"
      using ptab_scan_laid [OF E(1) assms(1) E(2)] laidD(1) [OF E(1)] assms(2) by (simp add: ptab_first_def Let_def)
  next
    fix xy s s' assume "\<exists>D. laid mp D (fst s)" "map_vseg None (ptab_of mp xy) s = Some (Inr s')"
    then show "\<exists>D. laid mp D (fst s')" using map_vseg_laid(1) by blast
  qed (use l in blast)
qed

lemma firsts_laid:
  "in_turn (\<lambda>xy. map_vseg None (ptab_of mp xy)) cs s = Some (Inr s') \<Longrightarrow> laid mp D (fst s) \<Longrightarrow> laid mp (ptab_of mp ` set cs \<union> D) (fst s')"
proof (induction cs arbitrary: s D)
  case (Cons xy cs)
  then obtain s1 where s1: "map_vseg None (ptab_of mp xy) s = Some (Inr s1)"
    "in_turn (\<lambda>xy. map_vseg None (ptab_of mp xy)) cs s1 = Some (Inr s')" by (auto simp: obind_Inr)
  from Cons.IH [OF s1(2) map_vseg_laid(1) [OF Cons.prems(2) s1(1)]] show ?case by simp
qed simp

lemma seconds_order:
  assumes "mapping_ok sizes mp" "laid mp D (fst s)" "\<forall>xy\<in>set cs. ptabs_of mp xy \<noteq> []"
  shows "in_turn (ptab_second sizes) cs s = in_turn (\<lambda>xy. pte_vseg sizes None (ptab_of mp xy)) cs s"
proof (rule in_turn_cong [where I = "\<lambda>s. laid mp D (fst s)"])
  fix xy and s :: ptab_state assume xy: "xy \<in> set cs" and l: "laid mp D (fst s)"
  have "ptabs_of mp xy \<noteq> []" using assms(3) xy by blast
  from ptab_scan_laid [OF l assms(1) this]
  show "ptab_second sizes xy s = pte_vseg sizes None (ptab_of mp xy) s" by (simp add: ptab_second_def)
next
  fix xy s s' assume "laid mp D (fst s)" "pte_vseg sizes None (ptab_of mp xy) s = Some (Inr s')"
  then show "laid mp D (fst s')" using pte_vseg_fst by metis
qed (rule assms(2))

lemma seconds_fst: "in_turn (\<lambda>xy. pte_vseg sizes None (ptab_of mp xy)) cs s = Some (Inr s') \<Longrightarrow> fst s' = fst s"
  by (erule in_turn_invariant [rotated]) (simp_all add: pte_vseg_fst)

text \<open>The allocators of the clusters.\<close>

abbreviation allocators :: "nat \<times> nat \<Rightarrow> (nat \<times> nat) list \<Rightarrow> ptab_state \<Rightarrow> (panic + ptab_state) option" where
  "allocators sizes \<equiv> in_turn (\<lambda>xy (mp, st). obind (boot_pmem_init (snd sizes) 0 mp xy st) (\<lambda>st. Some (Inr (mp, st))))"

lemma allocators_fst: "allocators sizes cs s = Some (Inr s') \<Longrightarrow> fst s' = fst s"
proof -
  have "fst s2 = fst s1" if "(\<lambda>(mp, st). obind (boot_pmem_init (snd sizes) 0 mp xy st) (\<lambda>st. Some (Inr (mp, st)))) s1 = Some (Inr s2)" for xy s1 s2
    using that by (auto simp: obind_Inr split: prod.splits)
  then show "allocators sizes cs s = Some (Inr s') \<Longrightarrow> fst s' = fst s"
    by (elim in_turn_invariant [where I = "\<lambda>s1. fst s1 = fst s", rotated]) simp_all
qed

text \<open>The phases as a sequence that does not look at the flags of the vsegs.\<close>

definition boot_sequence :: "nat \<times> nat \<Rightarrow> (nat \<times> nat) list \<Rightarrow> mapping \<Rightarrow> ptab_state \<Rightarrow> (panic + ptab_state) option" where
  "boot_sequence sizes cs mp s =
     obind (allocators sizes cs s) (\<lambda>s.
     obind (in_turn (\<lambda>xy. map_vseg None (ptab_of mp xy)) cs s) (\<lambda>s.
     obind (in_turn (\<lambda>xy. pte_vseg sizes None (ptab_of mp xy)) cs s)
     (in_turn (register sizes) (boot_order cs mp))))"

lemma laid_start: "\<forall>v\<in>set (vsegs mp). \<not> vmapped v \<Longrightarrow> laid mp {} mp"
  by (simp add: laid_def same_tables_def)

lemma boot_memory_sequence:
  assumes ok: "mapping_ok sizes mp" "\<forall>v\<in>set (vsegs mp). \<not> vmapped v" "0 < vspaces (hdr mp)"
    and cs: "distinct cs" "\<forall>xy\<in>set cs. ptabs_of mp xy \<noteq> []"
  shows "boot_memory sizes cs (mp, st) = boot_sequence sizes cs mp (mp, st)"
  unfolding boot_memory_def boot_sequence_def
proof (rule obind_cong [OF refl])
  fix s1 assume "allocators sizes cs (mp, st) = Some (Inr s1)"
  then have l1: "laid mp {} (fst s1)" using allocators_fst laid_start [OF ok(2)] by fastforce
  show "obind (in_turn (ptab_first 0) cs s1) (\<lambda>s. obind (in_turn (ptab_second sizes) cs s) (\<lambda>s. obind (in_turn (ptab_third sizes) cs s) (boot_ptab_extend sizes))) =
    obind (in_turn (\<lambda>xy. map_vseg None (ptab_of mp xy)) cs s1) (\<lambda>s. obind (in_turn (\<lambda>xy. pte_vseg sizes None (ptab_of mp xy)) cs s)
      (in_turn (register sizes) (boot_order cs mp)))"
  proof (rule obind_cong [OF firsts_order [OF ok(1,3) l1 cs(2)]])
    fix s2 assume "in_turn (\<lambda>xy. map_vseg None (ptab_of mp xy)) cs s1 = Some (Inr s2)"
    from firsts_laid [OF this l1] have l2: "laid mp (ptab_of mp ` set cs) (fst s2)" by simp
    show "obind (in_turn (ptab_second sizes) cs s2) (\<lambda>s. obind (in_turn (ptab_third sizes) cs s) (boot_ptab_extend sizes)) =
      obind (in_turn (\<lambda>xy. pte_vseg sizes None (ptab_of mp xy)) cs s2) (in_turn (register sizes) (boot_order cs mp))"
    proof (rule obind_cong [OF seconds_order [OF ok(1) l2 cs(2)]])
      fix s3 assume "in_turn (\<lambda>xy. pte_vseg sizes None (ptab_of mp xy)) cs s2 = Some (Inr s3)"
      then have l3: "laid mp (ptab_of mp ` set cs) (fst s3)" using seconds_fst l2 by metis
      have p: "i \<in> ptab_of mp ` set cs \<longleftrightarrow> xy_of mp i \<in> set cs \<and> i = ptab_of mp (xy_of mp i)" for i
      proof
        assume "i \<in> ptab_of mp ` set cs"
        then obtain xy where xy: "xy \<in> set cs" "i = ptab_of mp xy" by blast
        then show "xy_of mp i \<in> set cs \<and> i = ptab_of mp (xy_of mp i)" using ptab_of_in(3) [of mp xy] cs(2) by simp
      qed blast
      let ?g = "[0..<globals (hdr mp)]" and ?r = "concat (map (cluster_order mp) cs)"
      have "obind (in_turn (ptab_third sizes) cs s3) (boot_ptab_extend sizes) =
        obind (in_turn (register sizes) ?r s3) (in_turn (register sizes) (map (Pair None) (filter (\<lambda>i. xy_of mp i \<notin> set cs) ?g)))"
      proof (rule obind_cong)
        show "in_turn (ptab_third sizes) cs s3 = in_turn (register sizes) ?r s3"
          by (rule thirds_order [OF ok(1,2) l3 cs(1)]) (use p in blast)
        fix s4 assume r: "in_turn (register sizes) ?r s3 = Some (Inr s4)"
        note l4 = in_turn_register_laid [OF r l3]
        have mem: "i \<in> snd ` set ?r \<union> ptab_of mp ` set cs \<longleftrightarrow> xy_of mp i \<in> set cs" if "i \<in> set ?g" for i
        proof
          assume "i \<in> snd ` set ?r \<union> ptab_of mp ` set cs"
          then show "xy_of mp i \<in> set cs" using p cluster_order_xy by auto
        next
          assume xy: "xy_of mp i \<in> set cs"
          show "i \<in> snd ` set ?r \<union> ptab_of mp ` set cs"
          proof (cases "i = ptab_of mp (xy_of mp i)")
            case False
            then have "(None, i) \<in> set (cluster_order mp (xy_of mp i))" using that by (simp add: in_cluster_order)
            then have "(None, i) \<in> set ?r" using xy by auto
            then show ?thesis by force
          qed (use xy in blast)
        qed
        have f: "filter (\<lambda>i. i \<notin> snd ` set ?r \<union> ptab_of mp ` set cs) ?g = filter (\<lambda>i. xy_of mp i \<notin> set cs) ?g"
          by (rule filter_cong [OF refl]) (use mem in blast)
        have "\<forall>i\<in>set ?g. i < length (vsegs mp)" using ok(1) by (auto simp: mapping_ok_def)
        from extend_order [OF ok(1,2) l4 _ this]
        show "boot_ptab_extend sizes s4 = in_turn (register sizes) (map (Pair None) (filter (\<lambda>i. xy_of mp i \<notin> set cs) ?g)) s4"
          unfolding f boot_ptab_extend_def laidD(1) [OF l4] by simp
      qed
      then show "obind (in_turn (ptab_third sizes) cs s3) (boot_ptab_extend sizes) = in_turn (register sizes) (boot_order cs mp) s3"
        by (simp add: boot_order_def in_turn_append)
    qed
  qed
qed

lemma boot_sequence_laid:
  assumes "\<forall>v\<in>set (vsegs mp). \<not> vmapped v" "boot_sequence sizes cs mp (mp, st) = Some (Inr s')"
  shows "laid mp (snd ` set (boot_order cs mp) \<union> ptab_of mp ` set cs) (fst s')"
proof -
  obtain s1 s2 s3 where s: "allocators sizes cs (mp, st) = Some (Inr s1)"
    "in_turn (\<lambda>xy. map_vseg None (ptab_of mp xy)) cs s1 = Some (Inr s2)"
    "in_turn (\<lambda>xy. pte_vseg sizes None (ptab_of mp xy)) cs s2 = Some (Inr s3)"
    "in_turn (register sizes) (boot_order cs mp) s3 = Some (Inr s')"
    using assms(2) by (auto simp: boot_sequence_def obind_Inr)
  have "laid mp {} (fst s1)" using allocators_fst [OF s(1)] laid_start [OF assms(1)] by simp
  from firsts_laid [OF s(2) this] have "laid mp (ptab_of mp ` set cs) (fst s3)" using seconds_fst [OF s(3)] by simp
  from in_turn_register_laid [OF s(4) this] show ?thesis .
qed

end
