(* ===== verification/Boot_Phases_Properties.thy ===== *)
theory Boot_Phases_Properties
  imports Boot_Order
begin

text \<open>What the phases that prepare the memory do, as one property.\<close>

text \<open>C9: The initialisation of the memory, whose loops choose the vsegs by flags that change while they run, is the
  sequence \<open>boot_sequence\<close>: the allocators, the creation of the page tables in each cluster that has processors, the
  registration of their vsegs, and then the vsegs of \<open>boot_order\<close> one after the other, each given its physical pages and
  registered in the page tables at once. This list has no repetition; it has every global vseg but those of the page
  tables, and the private vsegs of the clusters that have processors, no others. Whether the phases stop with a message
  and with which one, and the memory that they leave, are those of the sequence. When they end, exactly these vsegs and
  those of the page tables are placed; the other fields of the mapping are what they were.\<close>

theorem boot_memory_registers_vsegs:
  assumes "mapping_ok sizes mp" "0 < vspaces (hdr mp)" "\<forall>v\<in>set (vsegs mp). \<not> vmapped v"
    and "distinct cs" "\<forall>xy\<in>set cs. ptabs_of mp xy \<noteq> []"
  shows "boot_memory sizes cs (mp, st) = boot_sequence sizes cs mp (mp, st) \<and>
    distinct (boot_order cs mp) \<and>
    (\<forall>i. (None, i) \<in> set (boot_order cs mp) \<longleftrightarrow> i < globals (hdr mp) \<and> i \<notin> ptab_of mp ` set cs) \<and>
    (\<forall>k i. (Some k, i) \<in> set (boot_order cs mp) \<longleftrightarrow> k < vspaces (hdr mp) \<and> i \<in> set (private_vsegs mp k) \<and> xy_of mp i \<in> set cs) \<and>
    (\<forall>mp' st'. boot_memory sizes cs (mp, st) = Some (Inr (mp', st')) \<longrightarrow>
      laid mp (snd ` set (boot_order cs mp) \<union> ptab_of mp ` set cs) mp')"
proof -
  note e = boot_memory_sequence [OF assms(1,3,2,4,5), of st]
  have "(None, i) \<in> set (boot_order cs mp) \<longleftrightarrow> i < globals (hdr mp) \<and> i \<notin> ptab_of mp ` set cs" for i
  proof -
    have "i \<in> ptab_of mp ` set cs \<longleftrightarrow> xy_of mp i \<in> set cs \<and> i = ptab_of mp (xy_of mp i)"
    proof
      assume "i \<in> ptab_of mp ` set cs"
      then obtain xy where xy: "xy \<in> set cs" "i = ptab_of mp xy" by blast
      then show "xy_of mp i \<in> set cs \<and> i = ptab_of mp (xy_of mp i)" using ptab_of_in(3) [of mp xy] assms(5) by simp
    qed blast
    then show ?thesis unfolding in_boot_order by blast
  qed
  moreover have "laid mp (snd ` set (boot_order cs mp) \<union> ptab_of mp ` set cs) mp'"
    if "boot_memory sizes cs (mp, st) = Some (Inr (mp', st'))" for mp' st'
    using boot_sequence_laid [OF assms(3) that [unfolded e]] by simp
  ultimately show ?thesis using e distinct_boot_order [OF assms(4)] in_boot_order(2) by blast
qed

section \<open>Witness\<close>

text \<open>A cluster with a processor: the page tables, a small global vseg, a large one and a private one.\<close>

definition some_vseg :: "u32 \<Rightarrow> u32 \<Rightarrow> vseg_type \<Rightarrow> bool \<Rightarrow> mapping_vseg" where
  "some_vseg base len t big = \<lparr>vbase = base, pbase = 0, vseg_length = len, psegid = 0, vmode = 0, vtype = t, vmapped = False,
     vident = False, vlocal = False, vbig = big, vseg_name = [], vbinpath = []\<rparr>"

definition one_mapping :: mapping where
  "one_mapping = \<lparr>hdr = \<lparr>signature = 0xDACE2014, x_size = 1, y_size = 1, globals = 3, vspaces = 1, n_psegs = 1, n_vsegs = 4, n_tasks = 0, x_io = 0, y_io = 0, irq_per_proc = 4\<rparr>,
     clusters = [\<lparr>cluster_x = 0, cluster_y = 0, procs = 1, cl_periphs = 0, cl_periph_offset = 0, cl_psegs = 1, cl_pseg_offset = 0\<rparr>],
     psegs = [\<lparr>pseg_base = 0, pseg_length = 0x2000000, ptype = PSEG_TYPE_RAM, clusterid = 0\<rparr>],
     vspace_table = [\<lparr>vspace_vsegs = 1, vspace_tasks = 0, vseg_offset = 3, task_offset = 0, start_vseg_id = 3, vspace_name = [], vspace_active = True\<rparr>],
     vsegs = [some_vseg 0x400000 0x1000 VSEG_TYPE_BUFFER False, some_vseg 0x80200000 0x10000 VSEG_TYPE_PTAB True,
       some_vseg 0x800000 0x400000 VSEG_TYPE_BUFFER True, some_vseg 0x600000 0x2000 VSEG_TYPE_ELF False],
     tasks = [], periphs = [], irqs = []\<rparr>"

lemma boot_memory_registers_vsegs_witness:
  "boot_order [(0, 0)] one_mapping = [(None, 2), (None, 0), (Some 0, 3)] \<and>
    boot_memory (1, 1) [(0, 0)] (one_mapping, demo_boot) = boot_sequence (1, 1) [(0, 0)] one_mapping (one_mapping, demo_boot)"
proof -
  have t: "globals (hdr one_mapping) = 3" "vspaces (hdr one_mapping) = 1" "private_vsegs one_mapping 0 = [3]"
    "vseg_length (vsegs one_mapping ! 0) = 0x1000" "vseg_length (vsegs one_mapping ! 2) = 0x400000"
    "vtype (vsegs one_mapping ! 0) \<noteq> VSEG_TYPE_PTAB" "vtype (vsegs one_mapping ! 1) = VSEG_TYPE_PTAB"
    "vtype (vsegs one_mapping ! 2) \<noteq> VSEG_TYPE_PTAB"
    and xy: "xy_of one_mapping 0 = (0, 0)" "xy_of one_mapping 1 = (0, 0)" "xy_of one_mapping 2 = (0, 0)" "xy_of one_mapping 3 = (0, 0)"
    by (simp_all add: one_mapping_def some_vseg_def xy_of_def private_vsegs_def Let_def)
  have u: "[0..<3] = [0, 1, 2 :: nat]" "[0..<1] = [0 :: nat]" by (simp_all add: upt_rec)
  have p: "ptabs_of one_mapping (0, 0) = [1]" unfolding ptabs_of_def t u by (simp add: xy t del: One_nat_def)
  have h: "mapping_ok (1, 1) one_mapping" "0 < vspaces (hdr one_mapping)" "\<forall>v\<in>set (vsegs one_mapping). \<not> vmapped v"
    "distinct [(0 :: nat, 0 :: nat)]" "\<forall>xy\<in>set [(0, 0)]. ptabs_of one_mapping xy \<noteq> []"
    using p by (simp_all add: mapping_ok_def) (simp_all add: one_mapping_def some_vseg_def)
  have "boot_order [(0, 0)] one_mapping = [(None, 2), (None, 0), (Some 0, 3)]"
    unfolding boot_order_def cluster_order_def Let_def t u by (simp add: xy t p del: One_nat_def)
  then show ?thesis using boot_memory_registers_vsegs [OF h] by blast
qed

end
