(* ===== verification/Spec2Isabelle.thy ===== *)
theory Spec2Isabelle
  imports Prelude C_Memory Mem_Utils Spin_Lock Buddy_Spec Fat_Properties Fat_Names Fat_Read Fat_Boot Fat_Calls Fat_Directory User_Stdlib Kernel_Malloc Kernel_Malloc_Properties User_Malloc Page_Tables Mwmr Sqt_Kernel Sqt_Lock Barrier Sqt_Barrier Scheduler_Properties Boot_Properties Tty_Properties Tty_Printf Hba_Properties Boot_Load_Properties Boot_Phases_Properties
begin

text \<open>
  GIET-VM is a static operating system for shared-memory manycore machines with 32-bit MIPS
  processors grouped in a mesh of clusters. The boot loader (\<open>giet_boot\<close>) reads a mapping descriptor
  (\<open>giet_xml/mapping_info.h\<close>), builds the page tables and the schedulers and loads the programs; the
  kernel (\<open>giet_kernel\<close>, \<open>giet_common\<close>, \<open>giet_drivers\<close>, \<open>giet_fat32\<close>) switches tasks, serves
  interrupts and system calls; the user library (\<open>giet_libs\<close>) gives the applications a heap, locks,
  barriers and communication channels. This library models the parts with their own algorithms and proves what their
  callers rely on.

  \<^bold>\<open>Conventions.\<close> An \<open>unsigned int\<close> is a word of 32 bits (\<open>u32\<close>), a physical address a word of 64 bits,
  with the wrap-around of C. Memory is a function from addresses to bytes (\<open>mem\<close>, theory \<open>C_Memory\<close>)
  where the program computes addresses (heaps, page tables, strings, buffers), and records where it uses named
  structures. Results have up to three layers: \<open>None\<close> is a loop that does not end or an access the
  language leaves undefined (a null pointer, an uninitialised buffer), \<open>Inl\<close> an \<open>_exit\<close> of the processor
  with its reason, and an error code is an ordinary result. The arithmetic of signed integers that can overflow (\<open>atoi\<close>, the
  opposite of a number to print, the alignment masks) and the instruction \<open>addi\<close> have \<open>None\<close> there too. One null access is left
  out: on a miss of the Fat-Cache the code reads a field of the null inode before it tests the pointer, and does not use the
  value; the build keeps null checks (\<open>-fno-delete-null-pointer-checks\<close>), and no property speaks of that read. The printing and the debug code leave no trace.
  A lock is a step relation where its interleavings are the subject (\<open>Spin_Lock\<close>, \<open>Sqt_Lock\<close>), and elsewhere
  the sequential acquire and release, for which a lock that is never released shows as \<open>None\<close>.

  \<^bold>\<open>Base.\<close> \<open>Prelude\<close> has the generic lemmas and the types; \<open>C_Memory\<close> the memory and the routines of
  \<open>giet_common/utils.c\<close>, specified in \<open>Mem_Utils\<close>; \<open>User_Stdlib\<close> those of \<open>giet_libs/stdlib.c\<close>, with the
  equivalence of its \<open>memcpy\<close> and the copy byte by byte; \<open>Mapping_Info\<close> the mapping descriptor.

  \<^bold>\<open>Locks and barriers.\<close> \<open>Spin_Lock\<close> has the locks of \<open>kernel_locks.c\<close> and \<open>user_lock.c\<close>: one atomic
  access per step, any number of processors. The locale \<open>lock_interface\<close> is what their sequential
  users rely on, interpreted on the kernel's and the user's lock. \<open>Sqt\<close> and \<open>Sqt_Kernel\<close> build the
  quad trees of the distributed locks and barriers, over an allocator of nodes that the kernel heap
  interprets; \<open>Sqt_Lock\<close>, \<open>Barrier\<close> and \<open>Sqt_Barrier\<close> have the interleavings. Shown: mutual exclusion,
  fairness and progress of each lock, safety of the simple barrier over any number of rounds, and an
  execution of the distributed barrier that blocks for ever.

  \<^bold>\<open>Heaps.\<close> \<open>Buddy_Spec\<close> is an abstract buddy allocator on natural numbers. \<open>Kernel_Malloc\<close>
  translates \<open>kernel_malloc.c\<close> on memory; \<open>Kernel_Malloc_Correct\<close>, \<open>_Init\<close>, \<open>_Refine\<close> and
  \<open>_Properties\<close> prove that it refines the allocator, from the states \<open>_heap_init\<close> establishes; \<open>User_Malloc\<close>
  does the same for \<open>giet_libs/malloc.c\<close>, whose \<open>free\<close> differs. Lists in memory are walked with
  the lengths the invariant bounds.

  \<^bold>\<open>Memory of the machine.\<close> \<open>Page_Tables\<close> has the page allocator (\<open>pmem.c\<close>), the registration of pages by the
  boot loader and the translation by the kernel (\<open>vmem.c\<close>): after \<open>boot_vseg_pte\<close>, every byte of a
  segment of small pages translates to its physical byte in each table that receives the segment, next to the big pages that
  are there. The extent of a first level table is cleared by \<open>_physical_memset\<close> (\<open>utils.c\<close>), with the register that its
  \<open>addi\<close> may overflow.

  \<^bold>\<open>Tasks.\<close> \<open>Kernel_State\<close> has the schedulers and the interrupt controllers, whose enable registers keep the bits
  that were set, as \<open>xcu_driver.h\<close> documents; \<open>Channels\<close> the
  routing of interrupts and the allocators of peripheral channels (\<open>irq_handler.c\<close>, \<open>sys_handler.c\<close>);
  \<open>Scheduler\<close> the context switch, the signals, the service routines and the calls that exit, kill or
  restart tasks. \<open>Scheduler_Properties\<close> shows the round robin, its fairness, the round trip of the registers and
  what a killed task leaves. \<open>Boot_Sched\<close> has the schedulers as the boot loader fills them from the mapping
  (\<open>boot_scheduler_init\<close>), \<open>Boot_Tasks\<close> what they contain, \<open>Kernel_Init\<close> the steps of \<open>kernel_init\<close> that each
  processor runs. \<open>Boot_Properties\<close> composes the boot, \<open>kernel_init\<close>, the context switch and the dispatch of
  interrupts: which task a processor enters, where, which interrupts are enabled for it and which routine they reach.

  \<^bold>\<open>Loading of the programs.\<close> \<open>Boot_Load\<close> has the copies in physical memory and the loading of an ELF image into the
  segments of the mapping (\<open>boot_elf_load\<close>, \<open>boot.c\<close>); \<open>Boot_Load_Properties\<close> shows that a segment of the file
  reaches its page frames, what the rounded copy of a DMA engine writes after it, and that a program reads its bytes through
  the page tables. \<open>Boot_Phases\<close> has the check of the mapping, the page allocators, and the phases that build the page
  tables, whose loops choose the vsegs by flags that they change; \<open>Boot_Order\<close> and \<open>Boot_Phases_Properties\<close> show that they
  are one list of registrations, computed from the mapping, in which each vseg is once.
  The file the loader reads and the copy by a DMA engine are arguments.

  \<^bold>\<open>Terminals.\<close> \<open>Tty\<close> has the receive interrupt (\<open>tty_driver.c\<close>), the system calls that write and read a
  terminal, and the output of the kernel (\<open>tty0.c\<close>); \<open>User_Tty\<close> the formatted printing and the reading of
  characters, lines and numbers of \<open>giet_libs/stdio.c\<close>. A format is split in conversions by both printers:
  \<open>Tty_Format\<close> and \<open>Tty_Printf\<close> show the text they write, and that \<open>atoi\<close> reads a printed number back;
  \<open>Tty_Lines\<close> and \<open>Tty_Properties\<close> compare the reading of a line with the editing of a list of characters,
  in the buffer and on the screen. What is typed is a list of arrivals between two calls.

  \<^bold>\<open>Disk controller.\<close> \<open>Hba\<close> has the driver \<open>hba_driver.c\<close>, function by function; \<open>Hba_Steps\<close> interleaves the
  accesses of any number of tasks, the controller and the interrupt; \<open>Hba_Invariant\<close> and \<open>Hba_Properties\<close> prove
  which task owns each of the 32 command slots, and exhibit the executions in which a wake-up is lost and in
  which an error is never forgotten.

  \<^bold>\<open>Channels of the user library.\<close> \<open>Mwmr\<close> has \<open>mwmr_channel.c\<close>; its FIFO order in every interleaving comes
  from one locale of labelled steps, interpreted for the channel, each writer and each reader.

  \<^bold>\<open>File system.\<close> \<open>fat32.c\<close> keeps clusters in trees of 64-ary nodes: one for the FAT, one for each inode.
  \<open>Fat_Cache\<close> has the trees and the block device (its sectors, and which of its accesses fail);
  \<open>Fat_Table\<close> the entries of the FAT and the allocation of clusters, on the state \<open>fat_desc\<close> and one inode;
  \<open>Fat_Buffer\<close> the lookup in a file; \<open>Fat_Names\<close>, \<open>Fat_Dir\<close> the names and the directory entries; \<open>Fat_Sys\<close> the
  state \<open>file_sys\<close> of the driver (inodes by address, descriptors, lock, memory of the caller);
  \<open>Fat_Transfer\<close> and \<open>Fat_Path\<close> every system call; \<open>Fat_Boot\<close> the initialisation and the loads without caches.
  An operation is a function from a state to an optional result and a state (\<open>fat_op\<close>): the state is kept on errors, as in the
  code. \<open>Fat_Correct\<close>, \<open>Fat_Alloc\<close>, \<open>Fat_File\<close> and \<open>Fat_Properties\<close> prove that the FAT
  is an array that allocation and release of chains transform as they should, under the invariant \<open>free_inv\<close> on the
  hint and the counter; \<open>Fat_Read\<close> what a read delivers; \<open>Fat_Entries\<close> and \<open>Fat_Directory\<close> that adding an entry inserts
  a name in the map a directory stands for; \<open>Fat_Calls\<close> that every path of every call releases the lock, and
  which descriptor an open returns: both are interpretations of one locale, \<open>kept_part\<close>.

  \<^bold>\<open>Bounds and fuel.\<close> Loops over data that may be cyclic (chains of the FAT, linked inodes, directories
  without an end mark, strings without a terminator) are \<open>partial_function\<close>s, and the properties show that they return
  from the states of the invariants. The bounds in hypotheses are those of the types or of the
  code: clusters below \<open>2 ^ 20\<close> in a File-Cache (the size \<open>(cluster_id + 1) * 4096\<close> wraps at
  \<open>2 ^ 20\<close>), names of 31 characters, 16 descriptors, 128 buddy sizes at most.

  \<^bold>\<open>Not modelled.\<close> The register sequences of the other device drivers and the transfers that the system
  calls start on them; the digits of a floating-point number and the floating-point library; the host
  tools (XML parser, \<open>memo\<close>, Python mapping scripts); the assembly entries; the barriers, the wake-up of the
  processors and the registers of the MMU between the phases of the boot loader and the steps of \<open>kernel_init\<close>;
  the applications. An allocation that fails in \<open>_malloc\<close> stops the processor, and the addresses it returns
  are arguments of the models above the heap.
\<close>

end
